(* ===== verification/Prelude.thy ===== *)
theory Prelude
  imports Main "HOL-Library.Word"
begin

text \<open>
  Shared vocabulary of the development.

  \<^item> The integer types of \<^verbatim>\<open>src/src/indices/types.h\<close>: keys and values are 64-bit words.
  \<^item> Results: every C++ operation that can dereference a null or dangling pointer, index an
    array outside its bounds, narrow an integer lossily or spin for ever returns
    \<open>error + 'a\<close>, and \<open>bindR\<close> sequences such operations.
  \<^item> Fixed-size arrays (\<^verbatim>\<open>std::array\<close>, raw arrays) are lists whose length is the capacity; reads,
    writes, \<^verbatim>\<open>memmove\<close> and \<^verbatim>\<open>memcpy\<close> are checked against that capacity.
  \<^item> Ordered search: the contract of a lower-bound routine is the locale \<open>lower_bound_search\<close>;
    the lemmas that its clients need (a key is present iff it stands at the bound, inserting at
    the bound keeps the order) are proved once inside it.
\<close>

section \<open>Collections and types\<close>

named_theorems arr_simps \<open>evaluation of checked array accesses\<close>

type_synonym key_type = "64 word"
type_synonym value_type = "64 word"
type_synonym addr = nat

text \<open>\<^verbatim>\<open>std::numeric_limits<key_type>::max()\<close>, the initial high key of every node.\<close>

definition max_key :: key_type where
  "max_key = - 1"

lemma le_max_key [simp]: "k \<le> max_key"
  by (simp add: max_key_def)

lemma less_max_key: "k < max_key \<longleftrightarrow> k \<noteq> max_key"
  by (simp add: order.strict_iff_order)

section \<open>Results\<close>

text \<open>
  The ways a modelled operation can fail. \<open>SpinsForever\<close> is a busy-wait no other thread will
  end; \<open>FuelExhausted\<close> marks a loop that ran longer than the bound of the model (the properties
  show that it never occurs on well-formed trees).
\<close>

datatype error =
    NullDeref
  | DanglingPointer
  | OutOfBounds
  | NarrowingOverflow
  | SpinsForever
  | FuelExhausted
  | AssertionFailed

type_synonym 'a result = "error + 'a"

definition bindR :: "'a result \<Rightarrow> ('a \<Rightarrow> 'b result) \<Rightarrow> 'b result" where
  "bindR m f = (case m of Inl e \<Rightarrow> Inl e | Inr x \<Rightarrow> f x)"

lemma bindR_Inl [simp]: "bindR (Inl e) f = Inl e"
  and bindR_Inr [simp]: "bindR (Inr x) f = f x"
  by (simp_all add: bindR_def)

lemma bindR_eq_Inr: "bindR m f = Inr y \<longleftrightarrow> (\<exists>x. m = Inr x \<and> f x = Inr y)"
  by (cases m) auto

lemma bindR_assoc: "bindR (bindR m f) g = bindR m (\<lambda>x. bindR (f x) g)"
  by (cases m) auto

lemma bindR_cong [fundef_cong]:
  "m = m' \<Longrightarrow> (\<And>x. m' = Inr x \<Longrightarrow> f x = f' x) \<Longrightarrow> bindR m f = bindR m' f'"
  by (cases m') auto

section \<open>Checked arrays\<close>

definition aget :: "'a list \<Rightarrow> nat \<Rightarrow> 'a result" where
  "aget xs i = (if i < length xs then Inr (xs ! i) else Inl OutOfBounds)"

definition aset :: "'a list \<Rightarrow> nat \<Rightarrow> 'a \<Rightarrow> 'a list result" where
  "aset xs i x = (if i < length xs then Inr (xs[i := x]) else Inl OutOfBounds)"

text \<open>
  \<open>memmove xs dst src n\<close> copies \<open>n\<close> elements inside one array (the ranges may overlap);
  \<open>memcpy ys dst xs src n\<close> copies \<open>n\<close> elements of \<open>xs\<close> into \<open>ys\<close>.
\<close>

definition memmove :: "'a list \<Rightarrow> nat \<Rightarrow> nat \<Rightarrow> nat \<Rightarrow> 'a list result" where
  "memmove xs dst src n =
     (if dst + n \<le> length xs \<and> src + n \<le> length xs
      then Inr (take dst xs @ take n (drop src xs) @ drop (dst + n) xs)
      else Inl OutOfBounds)"

definition memcpy :: "'a list \<Rightarrow> nat \<Rightarrow> 'a list \<Rightarrow> nat \<Rightarrow> nat \<Rightarrow> 'a list result" where
  "memcpy ys dst xs src n =
     (if dst + n \<le> length ys \<and> src + n \<le> length xs
      then Inr (take dst ys @ take n (drop src xs) @ drop (dst + n) ys)
      else Inl OutOfBounds)"

lemma aget_Inr [arr_simps]: "i < length xs \<Longrightarrow> aget xs i = Inr (xs ! i)"
  by (simp add: aget_def)

lemma aget_OutOfBounds [arr_simps]: "length xs \<le> i \<Longrightarrow> aget xs i = Inl OutOfBounds"
  by (simp add: aget_def)

lemma aset_Inr [arr_simps]: "i < length xs \<Longrightarrow> aset xs i x = Inr (xs[i := x])"
  by (simp add: aset_def)

lemma memmove_Inr [arr_simps]:
  "dst + n \<le> length xs \<Longrightarrow> src + n \<le> length xs \<Longrightarrow>
     memmove xs dst src n = Inr (take dst xs @ take n (drop src xs) @ drop (dst + n) xs)"
  by (simp add: memmove_def)

lemma memcpy_Inr [arr_simps]:
  "dst + n \<le> length ys \<Longrightarrow> src + n \<le> length xs \<Longrightarrow>
     memcpy ys dst xs src n = Inr (take dst ys @ take n (drop src xs) @ drop (dst + n) ys)"
  by (simp add: memcpy_def)

text \<open>
  Opening a gap: the shift-and-store idiom of every sorted node of this code base. With \<open>n\<close>
  live elements, moving \<open>n - i\<close> of them one slot up and storing at \<open>i\<close> inserts into the live
  prefix and leaves the slots behind it alone.
\<close>

definition insert_at :: "nat \<Rightarrow> 'a \<Rightarrow> 'a list \<Rightarrow> 'a list" where
  "insert_at i x xs = take i xs @ x # drop i xs"

lemma length_insert_at [simp]: "length (insert_at i x xs) = Suc (length xs)"
  by (simp add: insert_at_def)

lemma set_insert_at [simp]: "set (insert_at i x xs) = insert x (set xs)"
proof -
  have "set xs = set (take i xs @ drop i xs)" by simp
  then show ?thesis unfolding insert_at_def by (metis list.simps(15) set_append Un_insert_right)
qed

lemma nth_insert_at:
  "i \<le> length xs \<Longrightarrow> j \<le> length xs \<Longrightarrow>
     insert_at i x xs ! j = (if j < i then xs ! j else if j = i then x else xs ! (j - 1))"
  by (auto simp: insert_at_def nth_append min_def nth_Cons')

lemma take_insert_at_le: "j \<le> p \<Longrightarrow> p \<le> length xs \<Longrightarrow> take j (insert_at p x xs) = take j xs"
  by (simp add: insert_at_def min_def)

lemma take_insert_at_gt:
  "p < j \<Longrightarrow> p \<le> length xs \<Longrightarrow> take j (insert_at p x xs) = insert_at p x (take (j - 1) xs)"
  by (auto simp: insert_at_def min_def take_Cons' drop_take)

lemma drop_insert_at_le:
  "j \<le> p \<Longrightarrow> p \<le> length xs \<Longrightarrow> drop j (insert_at p x xs) = insert_at (p - j) x (drop j xs)"
  by (simp add: insert_at_def drop_take)

lemma drop_insert_at_gt:
  "p < j \<Longrightarrow> p \<le> length xs \<Longrightarrow> drop j (insert_at p x xs) = drop (j - 1) xs"
  by (simp add: insert_at_def drop_Cons')

lemmas slice_insert_at = take_insert_at_le take_insert_at_gt drop_insert_at_le drop_insert_at_gt

lemma map_insert_at: "map f (insert_at i x xs) = insert_at i (f x) (map f xs)"
  by (simp add: insert_at_def take_map drop_map)

lemma insert_at_0: "insert_at 0 x xs = x # xs"
  by (simp add: insert_at_def)

lemma insert_at_Suc_Cons: "insert_at (Suc i) x (y # ys) = y # insert_at i x ys"
  by (simp add: insert_at_def)

lemma map_of_zip_insert_at:
  assumes "length ks = length vs" "k \<notin> set ks" "i \<le> length ks"
  shows "map_of (zip (insert_at i k ks) (insert_at i v vs)) = (map_of (zip ks vs))(k \<mapsto> v)"
proof -
  let ?l = "zip (take i ks) (take i vs)" and ?r = "zip (drop i ks) (drop i vs)"
  have "zip ks vs = ?l @ ?r"
    using assms by (metis append_take_drop_id take_zip drop_zip)
  moreover have "zip (insert_at i k ks) (insert_at i v vs) = ?l @ (k, v) # ?r"
    using assms by (simp add: insert_at_def zip_append)
  moreover have "k \<notin> dom (map_of ?l)"
    using assms by (auto simp: dom_map_of_zip dest: in_set_takeD)
  ultimately show ?thesis
    by (auto simp: map_add_def fun_eq_iff split: option.splits)
qed

lemma map_of_zip_list_update:
  assumes "distinct ks" "length ks = length vs" "p < length ks"
  shows "map_of (zip ks (vs[p := v])) = (map_of (zip ks vs))(ks ! p \<mapsto> v)"
proof
  fix x
  show "map_of (zip ks (vs[p := v])) x = ((map_of (zip ks vs))(ks ! p \<mapsto> v)) x"
  proof (cases "x \<in> set ks")
    case True
    then obtain i where "i < length ks" "ks ! i = x" by (auto simp: in_set_conv_nth)
    then show ?thesis
      using assms map_of_zip_nth [of ks vs i] map_of_zip_nth [of ks "vs[p := v]" i]
      by (cases "i = p") (auto simp: nth_eq_iff_index_eq)
  next
    case False
    then have "map_of (zip ks vs) x = None" "map_of (zip ks (vs[p := v])) x = None" "ks ! p \<noteq> x"
      using assms by (auto simp: map_of_zip_is_None)
    then show ?thesis by simp
  qed
qed

definition open_gap :: "nat \<Rightarrow> 'a \<Rightarrow> nat \<Rightarrow> 'a list \<Rightarrow> 'a list" where
  "open_gap i x n xs = insert_at i x (take n xs) @ drop (Suc n) xs"

lemma length_open_gap [simp]: "n < length xs \<Longrightarrow> length (open_gap i x n xs) = length xs"
  by (simp add: open_gap_def)

lemma take_open_gap [simp]:
  "n < length xs \<Longrightarrow> take (Suc n) (open_gap i x n xs) = insert_at i x (take n xs)"
  by (simp add: open_gap_def)

lemma nth_open_gap_stale:
  "n < length xs \<Longrightarrow> n < j \<Longrightarrow> j < length xs \<Longrightarrow> open_gap i x n xs ! j = xs ! j"
  by (simp add: open_gap_def nth_append)

lemma shift_store_open_gap:
  assumes "i \<le> n" "n < length xs"
  shows "bindR (if i < n then memmove xs (i + 1) i (n - i) else Inr xs) (\<lambda>ys. aset ys i x)
         = Inr (open_gap i x n xs)"
proof (cases "i < n")
  case True
  have "(take (i + 1) xs @ take (n - i) (drop i xs) @ drop (i + 1 + (n - i)) xs)[i := x]
        = open_gap i x n xs"
    using assms True
    by (intro nth_equalityI)
      (auto simp: open_gap_def insert_at_def nth_append nth_list_update nth_Cons' min_def)
  then show ?thesis using assms True by (simp add: arr_simps)
next
  case False
  then have "i = n" using assms by simp
  then have "xs[i := x] = open_gap i x n xs"
    using assms by (simp add: open_gap_def insert_at_def upd_conv_take_nth_drop)
  then show ?thesis using assms False by (simp add: arr_simps)
qed

section \<open>Sorted live prefixes\<close>

abbreviation sorted_less :: "'a::linorder list \<Rightarrow> bool" where
  "sorted_less \<equiv> sorted_wrt (<)"

lemma sorted_less_nth_mono:
  "sorted_less xs \<Longrightarrow> i < j \<Longrightarrow> j < length xs \<Longrightarrow> xs ! i < (xs ! j :: 'a::linorder)"
  by (simp add: sorted_wrt_iff_nth_less)

lemma sorted_less_nth_le:
  "sorted_less xs \<Longrightarrow> i \<le> j \<Longrightarrow> j < length xs \<Longrightarrow> xs ! i \<le> (xs ! j :: 'a::linorder)"
  by (metis order.order_iff_strict sorted_less_nth_mono)

lemma sorted_less_insert_at:
  fixes xs :: "'a::linorder list"
  assumes "sorted_less xs" "\<forall>j < i. xs ! j < x" "\<forall>j. i \<le> j \<and> j < length xs \<longrightarrow> x < xs ! j"
    "i \<le> length xs"
  shows "sorted_less (insert_at i x xs)"
proof -
  have "\<forall>y \<in> set (take i xs). y < x"
    using assms(2,4) by (auto simp: in_set_conv_nth)
  moreover have "\<forall>y \<in> set (drop i xs). x < y"
    using assms(3,4) by (auto simp: in_set_conv_nth)
  moreover have "sorted_less (take i xs @ drop i xs)"
    using assms(1) by simp
  then have "sorted_less (take i xs)" "sorted_less (drop i xs)"
    "\<forall>y \<in> set (take i xs). \<forall>z \<in> set (drop i xs). y < z"
    unfolding sorted_wrt_append by blast+
  ultimately show ?thesis
    by (auto simp: insert_at_def sorted_wrt_append)
qed

section \<open>The contract of a lower-bound search\<close>

text \<open>
  The routines of this code base that search a sorted array (\<^verbatim>\<open>Node::index\<close> through
  \<^verbatim>\<open>std::lower_bound\<close>, \<^verbatim>\<open>lowerBound\<close> and \<^verbatim>\<open>lowerBoundBF\<close> of the OLC tree) promise one
  thing: the returned position separates the elements below the key from the others.
\<close>

locale lower_bound_search =
  fixes lb :: "'a::linorder list \<Rightarrow> 'a \<Rightarrow> nat"
    and pre :: "'a list \<Rightarrow> bool"
  assumes lb_le: "pre xs \<Longrightarrow> sorted_less xs \<Longrightarrow> lb xs k \<le> length xs"
    and lb_below: "pre xs \<Longrightarrow> sorted_less xs \<Longrightarrow> i < lb xs k \<Longrightarrow> xs ! i < k"
    and lb_above: "pre xs \<Longrightarrow> sorted_less xs \<Longrightarrow> lb xs k \<le> i \<Longrightarrow> i < length xs \<Longrightarrow> k \<le> xs ! i"
begin

lemma lb_unique:
  assumes "pre xs" "sorted_less xs" "p \<le> length xs"
    "\<forall>i < p. xs ! i < k" "\<forall>i. p \<le> i \<and> i < length xs \<longrightarrow> k \<le> xs ! i"
  shows "lb xs k = p"
proof (rule ccontr)
  assume "lb xs k \<noteq> p"
  then consider "lb xs k < p" | "p < lb xs k" by linarith
  then show False
  proof cases
    case 1
    with assms have "k \<le> xs ! lb xs k" "xs ! lb xs k < k"
      by (auto intro: lb_above)
    then show False by simp
  next
    case 2
    moreover have "lb xs k \<le> length xs" using assms by (simp add: lb_le)
    ultimately have "xs ! p < k" "k \<le> xs ! p"
      using assms by (auto intro: lb_below)
    then show False by simp
  qed
qed

lemma lb_eq_takeWhile:
  assumes "pre xs" "sorted_less xs"
  shows "lb xs k = length (takeWhile (\<lambda>x. x < k) xs)"
proof (rule lb_unique [OF assms])
  show "length (takeWhile (\<lambda>x. x < k) xs) \<le> length xs" by (rule length_takeWhile_le)
  show "\<forall>i < length (takeWhile (\<lambda>x. x < k) xs). xs ! i < k"
    by (metis nth_mem set_takeWhileD takeWhile_nth)
  show "\<forall>i. length (takeWhile (\<lambda>x. x < k) xs) \<le> i \<and> i < length xs \<longrightarrow> k \<le> xs ! i"
  proof (intro allI impI)
    fix i
    let ?p = "length (takeWhile (\<lambda>x. x < k) xs)"
    assume i: "?p \<le> i \<and> i < length xs"
    then have "k \<le> xs ! ?p"
      using nth_length_takeWhile [of "\<lambda>x. x < k" xs] by fastforce
    also have "\<dots> \<le> xs ! i" using i assms(2) by (simp add: sorted_less_nth_le)
    finally show "k \<le> xs ! i" .
  qed
qed

lemma lb_mem_iff:
  assumes "pre xs" "sorted_less xs"
  shows "k \<in> set xs \<longleftrightarrow> lb xs k < length xs \<and> xs ! lb xs k = k"
proof
  assume "k \<in> set xs"
  then obtain i where i: "i < length xs" "xs ! i = k" by (auto simp: in_set_conv_nth)
  have "lb xs k = i"
  proof (rule lb_unique [OF assms])
    show "i \<le> length xs" using i by simp
    show "\<forall>j < i. xs ! j < k" using i assms(2) by (auto intro: sorted_less_nth_mono)
    show "\<forall>j. i \<le> j \<and> j < length xs \<longrightarrow> k \<le> xs ! j"
      using i assms(2) by (auto intro: sorted_less_nth_le)
  qed
  then show "lb xs k < length xs \<and> xs ! lb xs k = k" using i by simp
next
  assume "lb xs k < length xs \<and> xs ! lb xs k = k"
  then show "k \<in> set xs" by (metis nth_mem)
qed

lemma lb_insert_sorted:
  assumes "pre xs" "sorted_less xs" "k \<notin> set xs"
  shows "sorted_less (insert_at (lb xs k) k xs)"
proof (rule sorted_less_insert_at [OF assms(2)])
  show "\<forall>j < lb xs k. xs ! j < k" using assms by (auto intro: lb_below)
  show "\<forall>j. lb xs k \<le> j \<and> j < length xs \<longrightarrow> k < xs ! j"
    using assms by (metis lb_above nth_mem order.not_eq_order_implies_strict)
  show "lb xs k \<le> length xs" using assms by (simp add: lb_le)
qed

text \<open>Searching a cut of the array, as the splits do before they insert.\<close>

lemma lb_take:
  assumes "pre xs" "pre (take j xs)" "sorted_less xs" "lb xs k \<le> j" "j \<le> length xs"
  shows "lb (take j xs) k = lb xs k"
proof (rule lb_unique)
  show "sorted_less (take j xs)" using assms(3) by (rule sorted_wrt_take)
  show "\<forall>i < lb xs k. take j xs ! i < k" using assms by (simp add: lb_below)
  show "\<forall>i. lb xs k \<le> i \<and> i < length (take j xs) \<longrightarrow> k \<le> take j xs ! i"
    using assms by (simp add: lb_above)
qed (use assms in simp_all)

lemma lb_drop:
  assumes "pre xs" "pre (drop j xs)" "sorted_less xs" "j \<le> lb xs k"
  shows "lb (drop j xs) k = lb xs k - j"
proof (rule lb_unique)
  have le: "lb xs k \<le> length xs" using assms by (simp add: lb_le)
  show "sorted_less (drop j xs)" using assms(3) by (rule sorted_wrt_drop)
  show "lb xs k - j \<le> length (drop j xs)" using le by simp
  show "\<forall>i < lb xs k - j. drop j xs ! i < k" using assms le by (simp add: lb_below)
  show "\<forall>i. lb xs k - j \<le> i \<and> i < length (drop j xs) \<longrightarrow> k \<le> drop j xs ! i"
    using assms le by (auto intro!: lb_above)
qed (use assms in simp_all)

lemma lb_gt_iff:
  assumes "pre xs" "sorted_less xs" "j < length xs" "k \<notin> set xs"
  shows "k < xs ! j \<longleftrightarrow> lb xs k \<le> j"
proof
  assume "k < xs ! j"
  then show "lb xs k \<le> j" using lb_below [OF assms(1,2), of j k] by (meson less_asym not_le)
next
  assume "lb xs k \<le> j"
  then show "k < xs ! j"
    using lb_above [OF assms(1,2)] assms(3,4) by (metis nth_mem order.not_eq_order_implies_strict)
qed

end

end
