(* ===== verification/Queues.thy ===== *)
theory Queues
  imports Prelude
begin

text \<open>
  The intrusive queues: \<^verbatim>\<open>src/src/util/queue_item.h\<close>, \<^verbatim>\<open>queue.h\<close>, \<^verbatim>\<open>mpsc_queue.h\<close> and
  \<^verbatim>\<open>mpsc_queue.cpp\<close>. The \<^verbatim>\<open>_next\<close> pointer lives in the items, so both queues work on a shared store
  \<open>links\<close> from items to their successors. The interface \<open>item_queue\<close> says what a client (the epoch
  manager) relies on; both implementations are interpreted.
\<close>

section \<open>Queue items\<close>

type_synonym links = "addr \<Rightarrow> addr option"

definition QueueItem_next :: "links \<Rightarrow> addr \<Rightarrow> addr option" where
  "QueueItem_next nx item = nx item"

definition QueueItem_set_next :: "links \<Rightarrow> addr \<Rightarrow> addr option \<Rightarrow> links" where
  "QueueItem_set_next nx item n = nx(item := n)"

section \<open>The single-threaded queue\<close>

record queue =
  q_head :: "addr option"
  q_tail :: "addr option"

definition Queue_ctor :: queue where
  "Queue_ctor = \<lparr>q_head = None, q_tail = None\<rparr>"

definition Queue_push_back :: "links \<times> queue \<Rightarrow> addr \<Rightarrow> links \<times> queue" where
  "Queue_push_back = (\<lambda>(nx, q) item.
     let nx1 = QueueItem_set_next nx item None
     in case q_tail q of
          Some t \<Rightarrow> (QueueItem_set_next nx1 t (Some item), q\<lparr>q_tail := Some item\<rparr>)
        | None \<Rightarrow> (nx1, \<lparr>q_head = Some item, q_tail = Some item\<rparr>))"

definition Queue_begin :: "queue \<Rightarrow> addr option" where
  "Queue_begin q = q_head q"

definition Queue_end :: "queue \<Rightarrow> addr option" where
  "Queue_end q = q_tail q"

definition Queue_empty :: "queue \<Rightarrow> bool" where
  "Queue_empty q = (q_head q = None)"

definition Queue_pop_front :: "links \<times> queue \<Rightarrow> addr option \<times> links \<times> queue" where
  "Queue_pop_front = (\<lambda>(nx, q).
     case q_head q of
       None \<Rightarrow> (None, nx, q)
     | Some h \<Rightarrow> (let new_head = QueueItem_next nx h;
                      q' = (if new_head = None then q\<lparr>q_tail := None\<rparr> else q)
                  in (Some h, nx, q'\<lparr>q_head := new_head\<rparr>)))"

section \<open>The multi-producer queue\<close>

text \<open>\<open>stub\<close> is the address of \<^verbatim>\<open>_stub\<close>, which \<^verbatim>\<open>_end\<close> always points to.\<close>

record mpsc_queue =
  m_head :: addr
  m_tail :: addr
  m_end :: addr

definition MPSCQueue_ctor :: "links \<Rightarrow> addr \<Rightarrow> links \<times> mpsc_queue" where
  "MPSCQueue_ctor nx stub = (QueueItem_set_next nx stub None, \<lparr>m_head = stub, m_tail = stub, m_end = stub\<rparr>)"

definition MPSCQueue_push_back :: "links \<times> mpsc_queue \<Rightarrow> addr \<Rightarrow> links \<times> mpsc_queue" where
  "MPSCQueue_push_back = (\<lambda>(nx, q) item.
     let nx1 = QueueItem_set_next nx item None; prev = m_head q
     in (QueueItem_set_next nx1 prev (Some item), q\<lparr>m_head := item\<rparr>))"

definition MPSCQueue_push_back_all :: "links \<times> mpsc_queue \<Rightarrow> addr \<Rightarrow> addr \<Rightarrow> links \<times> mpsc_queue" where
  "MPSCQueue_push_back_all = (\<lambda>(nx, q) begin_item end_item.
     let nx1 = QueueItem_set_next nx end_item None; old_head = m_head q
     in (QueueItem_set_next nx1 old_head (Some begin_item), q\<lparr>m_head := end_item\<rparr>))"

definition MPSCQueue_empty :: "links \<times> mpsc_queue \<Rightarrow> bool" where
  "MPSCQueue_empty = (\<lambda>(nx, q). m_tail q = m_end q \<and> QueueItem_next nx (m_end q) = None)"

text \<open>The part of \<^verbatim>\<open>pop_front\<close> after a leading stub has been skipped.\<close>

definition MPSCQueue_take :: "links \<times> mpsc_queue \<Rightarrow> addr \<Rightarrow> addr option \<Rightarrow> addr option \<times> links \<times> mpsc_queue" where
  "MPSCQueue_take = (\<lambda>(nx, q) tail next_item.
     case next_item of
       Some n \<Rightarrow> (Some tail, nx, q\<lparr>m_tail := n\<rparr>)
     | None \<Rightarrow>
         (if tail \<noteq> m_head q then (None, nx, q)
          else let (nx1, q1) = MPSCQueue_push_back (nx, q) (m_end q)
               in case QueueItem_next nx1 tail of
                    Some n \<Rightarrow> (Some tail, nx1, q1\<lparr>m_tail := n\<rparr>)
                  | None \<Rightarrow> (None, nx1, q1)))"

definition MPSCQueue_pop_front :: "links \<times> mpsc_queue \<Rightarrow> addr option \<times> links \<times> mpsc_queue" where
  "MPSCQueue_pop_front = (\<lambda>(nx, q).
     let tail = m_tail q; next_item = QueueItem_next nx tail
     in if tail = m_end q
        then (case next_item of
                None \<Rightarrow> (None, nx, q)
              | Some n \<Rightarrow> MPSCQueue_take (nx, q\<lparr>m_tail := n\<rparr>) n (QueueItem_next nx n))
        else MPSCQueue_take (nx, q) tail next_item)"

section \<open>Chains\<close>

fun linked :: "links \<Rightarrow> addr list \<Rightarrow> bool" where
  "linked nx [] \<longleftrightarrow> True"
| "linked nx [x] \<longleftrightarrow> nx x = None"
| "linked nx (x # y # ys) \<longleftrightarrow> nx x = Some y \<and> linked nx (y # ys)"

lemma linked_upd [simp]: "x \<notin> set xs \<Longrightarrow> linked (nx(x := p)) xs = linked nx xs"
  by (induction nx xs rule: linked.induct) auto

lemma linked_tl: "linked nx (x # xs) \<Longrightarrow> linked nx xs"
  by (cases xs) auto

lemma linked_next: "linked nx (x # xs) \<Longrightarrow> nx x = (case xs of [] \<Rightarrow> None | y # _ \<Rightarrow> Some y)"
  by (cases xs) auto

lemma linked_append:
  "linked nx xs \<Longrightarrow> linked nx ys \<Longrightarrow> xs \<noteq> [] \<Longrightarrow> ys \<noteq> [] \<Longrightarrow> distinct (xs @ ys)
     \<Longrightarrow> linked (nx(last xs := Some (hd ys))) (xs @ ys)"
proof (induction nx xs rule: linked.induct)
  case (2 nx x)
  obtain y zs where y: "ys = y # zs" using 2 by (cases ys) auto
  have "linked (nx(x := Some y)) (y # zs)" using 2 y linked_upd [of x "y # zs" nx] by simp
  then show ?case using y by (simp del: fun_upd_apply) simp
next
  case (3 nx x y zs)
  then have "last (y # zs) \<noteq> x" by (metis distinct.simps(2) append_Cons last_in_set list.distinct(1) Un_iff set_append)
  then show ?case using 3 by auto
qed simp

lemma linked_snoc:
  "linked nx xs \<Longrightarrow> xs \<noteq> [] \<Longrightarrow> distinct xs \<Longrightarrow> x \<notin> set xs
     \<Longrightarrow> linked (nx(x := None, last xs := Some x)) (xs @ [x])"
  using linked_append [of "nx(x := None)" xs "[x]"] by simp

section \<open>The interface\<close>

text \<open>
  \<open>holds s xs\<close>: the queue contains exactly the items \<open>xs\<close>, front first; \<open>free s x\<close>: \<open>x\<close> may be
  inserted.
\<close>

locale item_queue =
  fixes push :: "'s \<Rightarrow> addr \<Rightarrow> 's"
    and pop :: "'s \<Rightarrow> addr option \<times> 's"
    and holds :: "'s \<Rightarrow> addr list \<Rightarrow> bool"
    and free :: "'s \<Rightarrow> addr \<Rightarrow> bool"
  assumes push_law: "holds s xs \<Longrightarrow> free s x \<Longrightarrow> x \<notin> set xs \<Longrightarrow> holds (push s x) (xs @ [x])"
    and pop_nil: "holds s [] \<Longrightarrow> \<exists>s'. pop s = (None, s') \<and> holds s' []"
    and pop_cons: "holds s (x # xs) \<Longrightarrow> \<exists>s'. pop s = (Some x, s') \<and> holds s' xs"
    and free_pop: "free s x \<Longrightarrow> free (snd (pop s)) x"
    and free_push: "free s x \<Longrightarrow> free (push s y) x"
begin

fun push_all :: "'s \<Rightarrow> addr list \<Rightarrow> 's" where
  "push_all s [] = s"
| "push_all s (x # xs) = push_all (push s x) xs"

fun pop_times :: "nat \<Rightarrow> 's \<Rightarrow> addr option list \<times> 's" where
  "pop_times 0 s = ([], s)"
| "pop_times (Suc n) s = (let (x, s') = pop s; (xs, s'') = pop_times n s' in (x # xs, s''))"

lemma push_all_law:
  "holds s xs \<Longrightarrow> \<forall>y \<in> set ys. free s y \<Longrightarrow> distinct (xs @ ys) \<Longrightarrow> holds (push_all s ys) (xs @ ys)"
proof (induction s ys arbitrary: xs rule: push_all.induct)
  case (2 s y ys)
  have "holds (push s y) (xs @ [y])" using push_law [OF "2.prems"(1)] "2.prems" by simp
  then show ?case using "2.IH" [of "xs @ [y]"] "2.prems" free_push by auto
qed simp

lemma pop_times_law: "holds s (xs @ ys) \<Longrightarrow> \<exists>s'. pop_times (length xs) s = (map Some xs, s') \<and> holds s' ys"
proof (induction xs arbitrary: s)
  case (Cons x xs)
  then obtain s' where "pop s = (Some x, s')" "holds s' (xs @ ys)" using pop_cons [of s x "xs @ ys"] by auto
  then show ?case using Cons.IH [of s'] by auto
qed simp

text \<open>First in, first out.\<close>

lemma fifo:
  assumes "holds s []" "\<forall>y \<in> set ys. free s y" "distinct ys"
  shows "\<exists>s'. pop_times (length ys) (push_all s ys) = (map Some ys, s') \<and> holds s' []"
  using pop_times_law [of "push_all s ys" ys "[]"] push_all_law [of s "[]" ys] assms by simp

end

section \<open>Queue implements the interface\<close>

definition Queue_holds :: "links \<times> queue \<Rightarrow> addr list \<Rightarrow> bool" where
  "Queue_holds = (\<lambda>(nx, q) xs. distinct xs \<and> linked nx xs
     \<and> q_head q = (if xs = [] then None else Some (hd xs))
     \<and> q_tail q = (if xs = [] then None else Some (last xs)))"

interpretation single: item_queue Queue_push_back Queue_pop_front Queue_holds "\<lambda>s x. True"
proof
  fix s :: "links \<times> queue" and xs x
  assume h: "Queue_holds s xs" and x: "x \<notin> set xs"
  obtain nx q where s: "s = (nx, q)" by (cases s)
  show "Queue_holds (Queue_push_back s x) (xs @ [x])"
  proof (cases "xs = []")
    case True
    then show ?thesis using h by (simp add: s Queue_holds_def Queue_push_back_def QueueItem_set_next_def Let_def)
  next
    case False
    then show ?thesis using h x linked_snoc [of nx xs x]
      by (simp add: s Queue_holds_def Queue_push_back_def QueueItem_set_next_def Let_def)
  qed
next
  fix s :: "links \<times> queue"
  show "\<exists>s'. Queue_pop_front s = (None, s') \<and> Queue_holds s' []" if "Queue_holds s []"
    using that by (cases s) (simp add: Queue_holds_def Queue_pop_front_def)
  fix x xs
  show "\<exists>s'. Queue_pop_front s = (Some x, s') \<and> Queue_holds s' xs" if "Queue_holds s (x # xs)"
    using that by (cases s; cases xs) (auto simp: Queue_holds_def Queue_pop_front_def QueueItem_next_def Let_def)
qed simp_all

section \<open>MPSCQueue implements the interface\<close>

text \<open>
  The chain from \<^verbatim>\<open>_tail\<close> to \<^verbatim>\<open>_head\<close> may contain the stub anywhere; the queue holds the other
  items.
\<close>

definition MPSC_chain :: "links \<times> mpsc_queue \<Rightarrow> addr list \<Rightarrow> bool" where
  "MPSC_chain = (\<lambda>(nx, q) ys. distinct ys \<and> linked nx ys \<and> ys \<noteq> [] \<and> hd ys = m_tail q \<and> last ys = m_head q)"

definition MPSC_holds :: "links \<times> mpsc_queue \<Rightarrow> addr list \<Rightarrow> bool" where
  "MPSC_holds s xs \<longleftrightarrow> m_end (snd s) \<notin> set xs
     \<and> (\<exists>ys. MPSC_chain s ys \<and> filter (\<lambda>y. y \<noteq> m_end (snd s)) ys = xs)"

lemma MPSC_chain_snoc:
  assumes "MPSC_chain (nx, q) ys" "x \<notin> set ys"
  shows "MPSC_chain (MPSCQueue_push_back (nx, q) x) (ys @ [x])"
proof -
  have "linked (nx(x := None, last ys := Some x)) (ys @ [x])"
    using linked_snoc [of nx ys x] assms by (simp add: MPSC_chain_def)
  then show ?thesis
    using assms by (simp add: MPSC_chain_def MPSCQueue_push_back_def QueueItem_set_next_def Let_def)
qed

lemma MPSC_take:
  assumes c: "MPSC_chain (nx, q) (z # ys)" and z: "z \<noteq> m_end q"
  shows "\<exists>s'. MPSCQueue_take (nx, q) z (nx z) = (Some z, s')
    \<and> MPSC_holds s' (filter (\<lambda>y. y \<noteq> m_end q) ys) \<and> m_end (snd s') = m_end q"
proof (cases ys)
  case (Cons y zs)
  then have "nx z = Some y" "MPSC_chain (nx, q\<lparr>m_tail := y\<rparr>) ys" using c by (auto simp: MPSC_chain_def)
  then show ?thesis by (auto simp: MPSCQueue_take_def MPSC_holds_def)
next
  case Nil
  have n: "nx z = None" "z = m_head q" using c Nil by (auto simp: MPSC_chain_def)
  obtain nx' q' where p: "MPSCQueue_push_back (nx, q) (m_end q) = (nx', q')" by fastforce
  have e: "m_end q' = m_end q" using p by (auto simp: MPSCQueue_push_back_def Let_def)
  have ch: "MPSC_chain (nx', q') [z, m_end q]" using MPSC_chain_snoc [OF c, of "m_end q"] Nil z p by simp
  then have "nx' z = Some (m_end q)" "MPSC_chain (nx', q'\<lparr>m_tail := m_end q\<rparr>) [m_end q]"
    by (auto simp: MPSC_chain_def)
  then show ?thesis
    using n p e Nil by (auto simp: MPSCQueue_take_def QueueItem_next_def MPSC_holds_def)
qed

interpretation mpsc: item_queue MPSCQueue_push_back MPSCQueue_pop_front MPSC_holds "\<lambda>s x. x \<noteq> m_end (snd s)"
proof
  fix s :: "links \<times> mpsc_queue" and xs x
  obtain nx q where s: "s = (nx, q)" by (cases s)
  have e: "m_end (snd (MPSCQueue_push_back s y)) = m_end q" for y
    by (simp add: s MPSCQueue_push_back_def Let_def)
  show "MPSC_holds (MPSCQueue_push_back s x) (xs @ [x])" if h: "MPSC_holds s xs" "x \<noteq> m_end (snd s)" "x \<notin> set xs"
  proof -
    obtain ys where ys: "MPSC_chain (nx, q) ys" "filter (\<lambda>y. y \<noteq> m_end q) ys = xs"
      using h(1) by (auto simp: MPSC_holds_def s)
    then have "x \<notin> set ys" using h(2,3) s by auto
    then show ?thesis using MPSC_chain_snoc [OF ys(1)] ys(2) h e by (fastforce simp: MPSC_holds_def s)
  qed
  show "x \<noteq> m_end (snd (MPSCQueue_push_back s y))" if "x \<noteq> m_end (snd s)" for y using e that s by simp
next
  fix s :: "links \<times> mpsc_queue"
  obtain nx q where s: "s = (nx, q)" by (cases s)
  show "\<exists>s'. MPSCQueue_pop_front s = (None, s') \<and> MPSC_holds s' []" if h: "MPSC_holds s []"
  proof -
    obtain ys where ys: "MPSC_chain (nx, q) ys" "\<forall>y \<in> set ys. y = m_end q"
      using h by (auto simp: MPSC_holds_def s filter_empty_conv)
    then have "ys = [m_end q]" by (cases ys; cases "tl ys") (auto simp: MPSC_chain_def)
    then have "nx (m_end q) = None" "m_tail q = m_end q" using ys(1) by (auto simp: MPSC_chain_def)
    then show ?thesis using h by (simp add: s MPSCQueue_pop_front_def QueueItem_next_def)
  qed
  fix x xs
  show "\<exists>s'. MPSCQueue_pop_front s = (Some x, s') \<and> MPSC_holds s' xs" if h: "MPSC_holds s (x # xs)"
  proof -
    obtain z zs where ys: "MPSC_chain (nx, q) (z # zs)" "filter (\<lambda>y. y \<noteq> m_end q) (z # zs) = x # xs"
    proof -
      obtain ys where "MPSC_chain (nx, q) ys" "filter (\<lambda>y. y \<noteq> m_end q) ys = x # xs"
        using h by (auto simp: MPSC_holds_def s)
      then show thesis using that by (cases ys) auto
    qed
    have z: "m_tail q = z" using ys(1) by (simp add: MPSC_chain_def)
    show ?thesis
    proof (cases "z = m_end q")
      case False
      then show ?thesis using MPSC_take [OF ys(1) False] ys(2) z
        by (auto simp: s MPSCQueue_pop_front_def QueueItem_next_def)
    next
      case True
      then obtain y ws where zs: "zs = y # ws" using ys(2) by (cases zs) auto
      have c: "MPSC_chain (nx, q\<lparr>m_tail := y\<rparr>) (y # ws)" "nx z = Some y" "y \<noteq> m_end q"
        using ys(1) True zs by (auto simp: MPSC_chain_def)
      then show ?thesis using MPSC_take [OF c(1)] ys(2) z zs True
        by (auto simp: s MPSCQueue_pop_front_def QueueItem_next_def Let_def)
    qed
  qed
  fix x
  show "x \<noteq> m_end (snd (snd (MPSCQueue_pop_front s)))" if "x \<noteq> m_end (snd s)"
    using that by (auto simp: s MPSCQueue_pop_front_def MPSCQueue_take_def MPSCQueue_push_back_def Let_def
        split: option.splits)
qed

section \<open>Links outside a queue\<close>

text \<open>A queue neither reads nor writes the links of items it does not hold.\<close>

lemma linked_cong: "(\<And>x. x \<in> set xs \<Longrightarrow> nx' x = nx x) \<Longrightarrow> linked nx' xs = linked nx xs"
  by (induction nx xs rule: linked.induct) auto

lemma Queue_holds_cong:
  "(\<And>x. x \<in> set xs \<Longrightarrow> nx' x = nx x) \<Longrightarrow> Queue_holds (nx', q) xs = Queue_holds (nx, q) xs"
  using linked_cong [of xs nx' nx] by (simp add: Queue_holds_def)

lemma MPSC_holds_cong:
  assumes "MPSC_holds (nx, q) xs" "\<And>x. x \<in> insert (m_end q) (set xs) \<Longrightarrow> nx' x = nx x"
  shows "MPSC_holds (nx', q) xs"
proof -
  obtain ys where ys: "MPSC_chain (nx, q) ys" "filter (\<lambda>y. y \<noteq> m_end q) ys = xs" "m_end q \<notin> set xs"
    using assms(1) by (auto simp: MPSC_holds_def)
  then have "linked nx' ys = linked nx ys" using assms(2) by (intro linked_cong) auto
  then show ?thesis using ys by (auto simp: MPSC_holds_def MPSC_chain_def)
qed

lemma MPSC_distinct: "MPSC_holds (nx, q) xs \<Longrightarrow> distinct xs"
proof -
  assume "MPSC_holds (nx, q) xs"
  then obtain ys where "distinct ys" "filter (\<lambda>y. y \<noteq> m_end q) ys = xs" by (auto simp: MPSC_holds_def MPSC_chain_def)
  then show ?thesis by (metis distinct_filter)
qed

lemma MPSC_head_held: "MPSC_holds (nx, q) xs \<Longrightarrow> m_head q \<in> insert (m_end q) (set xs)"
proof -
  assume "MPSC_holds (nx, q) xs"
  then obtain ys where ys: "MPSC_chain (nx, q) ys" "filter (\<lambda>y. y \<noteq> m_end q) ys = xs" by (auto simp: MPSC_holds_def)
  then have "m_head q \<in> set ys" using last_in_set [of ys] by (simp add: MPSC_chain_def)
  then show ?thesis using ys(2) by auto
qed

lemma MPSC_pop_links:
  assumes "MPSC_holds (nx, q) xs" "MPSCQueue_pop_front (nx, q) = (r, nx', q')"
    and "x \<notin> insert (m_end q) (set xs)"
  shows "nx' x = nx x"
  using assms MPSC_head_held [OF assms(1)]
  by (auto simp: MPSCQueue_pop_front_def MPSCQueue_take_def MPSCQueue_push_back_def QueueItem_next_def
      QueueItem_set_next_def Let_def split: if_splits option.splits)

lemma MPSC_end_kept [simp]:
  "m_end (snd (snd (MPSCQueue_pop_front s))) = m_end (snd s)" "m_end (snd (MPSCQueue_push_back s x)) = m_end (snd s)"
  by (cases s, auto simp: MPSCQueue_pop_front_def MPSCQueue_take_def MPSCQueue_push_back_def Let_def
        split: option.splits)+

lemma Queue_push_links:
  "Queue_holds (nx, q) xs \<Longrightarrow> y \<notin> insert x (set xs) \<Longrightarrow> fst (Queue_push_back (nx, q) x) y = nx y"
  by (auto simp: Queue_holds_def Queue_push_back_def QueueItem_set_next_def Let_def split: if_splits)

text \<open>Appending a whole single-threaded queue.\<close>

lemma MPSC_push_back_all:
  assumes m: "MPSC_holds (nx, q) xs" and d: "linked nx ys" "distinct ys" "ys \<noteq> []"
    and new: "set ys \<inter> insert (m_end q) (set xs) = {}"
  shows "MPSC_holds (MPSCQueue_push_back_all (nx, q) (hd ys) (last ys)) (xs @ ys)"
proof -
  obtain zs where zs: "MPSC_chain (nx, q) zs" "filter (\<lambda>y. y \<noteq> m_end q) zs = xs" "m_end q \<notin> set xs"
    using m by (auto simp: MPSC_holds_def)
  have dis: "set zs \<inter> set ys = {}" using new zs(2) by auto
  have nil: "nx (last ys) = None" using d(1,3) by (induction nx ys rule: linked.induct) auto
  have "linked (nx(last zs := Some (hd ys))) (zs @ ys)"
    using linked_append [of nx zs ys] zs(1) d dis by (simp add: MPSC_chain_def)
  moreover have "nx(last ys := None) = nx" using nil by auto
  ultimately have "MPSC_chain (MPSCQueue_push_back_all (nx, q) (hd ys) (last ys)) (zs @ ys)"
    using zs(1) d dis by (simp add: MPSC_chain_def MPSCQueue_push_back_all_def QueueItem_set_next_def Let_def)
  moreover have "filter (\<lambda>y. y \<noteq> m_end q) (zs @ ys) = xs @ ys"
    using zs(2) new by (auto intro!: filter_True)
  moreover have "m_end (snd (MPSCQueue_push_back_all (nx, q) (hd ys) (last ys))) = m_end q"
    by (simp add: MPSCQueue_push_back_all_def Let_def)
  ultimately show ?thesis using zs(3) new unfolding MPSC_holds_def by auto
qed

end
