(* ===== verification/Epoch_Manager.thy ===== *)
theory Epoch_Manager
  imports Queues
begin

text \<open>
  Epoch-based reclamation, \<^verbatim>\<open>src/src/indices/blinktree/epoch_manager.h\<close> and \<^verbatim>\<open>epoch_manager.cpp\<close>.
  The manager's record also holds what it changes in the nodes it is given: their \<^verbatim>\<open>_next\<close> pointers,
  their \<^verbatim>\<open>remove_epoch\<close>, and which of them it has handed to \<^verbatim>\<open>std::free\<close>. The thread-local
  \<^verbatim>\<open>_thread_id\<close> is an argument. Loops that empty a queue carry fuel; one more than the number of
  queued items suffices.
\<close>

section \<open>The model\<close>

type_synonym epoch_t = "32 word"

record epoch_manager =
  count_threads :: nat
  registered_threads :: "16 word"
  local_epochs :: "epoch_t list"
  global_epoch :: epoch_t
  is_running :: bool
  garbage_queue :: mpsc_queue
  mem_next :: links
  mem_epoch :: "addr \<Rightarrow> epoch_t"
  mem_freed :: "addr list"

definition max_epoch :: epoch_t where
  "max_epoch = - 1"

definition EpochManager_ctor :: "nat \<Rightarrow> addr \<Rightarrow> epoch_manager" where
  "EpochManager_ctor n stub = (let (nx, q) = MPSCQueue_ctor (\<lambda>_. None) stub in
     \<lparr>count_threads = n, registered_threads = 0, local_epochs = replicate n 0, global_epoch = 0,
      is_running = False, garbage_queue = q, mem_next = nx, mem_epoch = (\<lambda>_. 0), mem_freed = []\<rparr>)"

definition EpochManager_start :: "epoch_manager \<Rightarrow> epoch_manager" where
  "EpochManager_start em = em\<lparr>registered_threads := 0, is_running := True\<rparr>"

definition EpochManager_register_thread :: "epoch_manager \<Rightarrow> 16 word \<times> epoch_manager" where
  "EpochManager_register_thread em = (registered_threads em, em\<lparr>registered_threads := registered_threads em + 1\<rparr>)"

definition EpochManager_join_epoch :: "epoch_manager \<Rightarrow> nat \<Rightarrow> epoch_manager result" where
  "EpochManager_join_epoch em thread_id =
     bindR (aset (local_epochs em) thread_id (global_epoch em)) (\<lambda>es. Inr (em\<lparr>local_epochs := es\<rparr>))"

definition EpochManager_leave_epoch :: "epoch_manager \<Rightarrow> nat \<Rightarrow> epoch_manager result" where
  "EpochManager_leave_epoch em thread_id =
     bindR (aset (local_epochs em) thread_id max_epoch) (\<lambda>es. Inr (em\<lparr>local_epochs := es\<rparr>))"

definition EpochGuard_ctor :: "epoch_manager \<Rightarrow> nat \<Rightarrow> epoch_manager result" where
  "EpochGuard_ctor em thread_id = EpochManager_join_epoch em thread_id"

definition EpochGuard_dtor :: "epoch_manager \<Rightarrow> nat \<Rightarrow> epoch_manager result" where
  "EpochGuard_dtor em thread_id = EpochManager_leave_epoch em thread_id"

definition EpochManager_add_to_garbage :: "epoch_manager \<Rightarrow> addr \<Rightarrow> epoch_manager" where
  "EpochManager_add_to_garbage em garbage =
     (let em1 = em\<lparr>mem_epoch := (mem_epoch em)(garbage := global_epoch em)\<rparr>;
          (nx, q) = MPSCQueue_push_back (mem_next em1, garbage_queue em1) garbage
      in em1\<lparr>mem_next := nx, garbage_queue := q\<rparr>)"

function min_epoch_loop :: "epoch_manager \<Rightarrow> nat \<Rightarrow> epoch_t \<Rightarrow> epoch_t result" where
  "min_epoch_loop em i min_epoch =
     (if i < count_threads em
      then bindR (aget (local_epochs em) i) (\<lambda>e. min_epoch_loop em (i + 1) (min min_epoch e))
      else Inr min_epoch)"
  by pat_completeness auto
termination by (relation "measure (\<lambda>(em, i, m). count_threads em - i)") auto

declare min_epoch_loop.simps [simp del]

definition EpochManager_min_local_epoch :: "epoch_manager \<Rightarrow> epoch_t result" where
  "EpochManager_min_local_epoch em = bindR (aget (local_epochs em) 0) (\<lambda>e. min_epoch_loop em 1 e)"

definition pop_garbage :: "epoch_manager \<Rightarrow> addr option \<times> epoch_manager" where
  "pop_garbage em = (let (g, nx, q) = MPSCQueue_pop_front (mem_next em, garbage_queue em)
                     in (g, em\<lparr>mem_next := nx, garbage_queue := q\<rparr>))"

definition std_free :: "epoch_manager \<Rightarrow> addr \<Rightarrow> epoch_manager" where
  "std_free em a = em\<lparr>mem_freed := mem_freed em @ [a]\<rparr>"

text \<open>The loop of \<^verbatim>\<open>reclaim_epoch_garbage\<close> for a given minimum, and what puts the deferred nodes back.\<close>

fun reclaim_loop :: "nat \<Rightarrow> epoch_t \<Rightarrow> epoch_manager \<Rightarrow> queue \<Rightarrow> (epoch_manager \<times> queue) result" where
  "reclaim_loop 0 min_epoch em deferred = Inl FuelExhausted"
| "reclaim_loop (Suc fuel) min_epoch em deferred =
     (case pop_garbage em of
        (None, em1) \<Rightarrow> Inr (em1, deferred)
      | (Some garbage, em1) \<Rightarrow>
          if mem_epoch em1 garbage < min_epoch
          then reclaim_loop fuel min_epoch (std_free em1 garbage) deferred
          else (let (nx, deferred') = Queue_push_back (mem_next em1, deferred) garbage
                in reclaim_loop fuel min_epoch (em1\<lparr>mem_next := nx\<rparr>) deferred'))"

definition requeue :: "epoch_manager \<Rightarrow> queue \<Rightarrow> epoch_manager result" where
  "requeue em deferred =
     (case (Queue_begin deferred, Queue_end deferred) of
        (Some first, Some final) \<Rightarrow>
          (let (nx, q) = MPSCQueue_push_back_all (mem_next em, garbage_queue em) first final
           in Inr (em\<lparr>mem_next := nx, garbage_queue := q\<rparr>))
      | _ \<Rightarrow> if Queue_empty deferred then Inr em else Inl NullDeref)"

definition reclaim_below :: "nat \<Rightarrow> epoch_t \<Rightarrow> epoch_manager \<Rightarrow> epoch_manager result" where
  "reclaim_below fuel min_epoch em =
     bindR (reclaim_loop fuel min_epoch em Queue_ctor) (\<lambda>(em1, deferred). requeue em1 deferred)"

definition EpochManager_reclaim_epoch_garbage :: "nat \<Rightarrow> epoch_manager \<Rightarrow> epoch_manager result" where
  "EpochManager_reclaim_epoch_garbage fuel em =
     bindR (EpochManager_min_local_epoch em) (\<lambda>min_epoch. reclaim_below fuel min_epoch em)"

text \<open>The loop that frees everything, in \<^verbatim>\<open>stop\<close> and in the destructor.\<close>

fun free_all :: "nat \<Rightarrow> epoch_manager \<Rightarrow> epoch_manager result" where
  "free_all 0 em = Inl FuelExhausted"
| "free_all (Suc fuel) em =
     (case pop_garbage em of (None, em1) \<Rightarrow> Inr em1 | (Some garbage, em1) \<Rightarrow> free_all fuel (std_free em1 garbage))"

definition EpochManager_stop :: "nat \<Rightarrow> epoch_manager \<Rightarrow> epoch_manager result" where
  "EpochManager_stop fuel em = free_all fuel (em\<lparr>is_running := False\<rparr>)"

definition EpochManager_dtor :: "nat \<Rightarrow> epoch_manager \<Rightarrow> epoch_manager result" where
  "EpochManager_dtor fuel em = free_all fuel em"

text \<open>The epoch thread: \<open>rounds\<close> is how often the loop finds \<^verbatim>\<open>_is_running\<close> set.\<close>

fun EpochManager_enter_epoch_periodically :: "nat \<Rightarrow> nat \<Rightarrow> epoch_manager \<Rightarrow> epoch_manager result" where
  "EpochManager_enter_epoch_periodically fuel 0 em = Inr em"
| "EpochManager_enter_epoch_periodically fuel (Suc rounds) em =
     bindR (EpochManager_reclaim_epoch_garbage fuel (em\<lparr>global_epoch := global_epoch em + 1\<rparr>))
       (\<lambda>em1. EpochManager_enter_epoch_periodically fuel rounds em1)"

section \<open>The guard\<close>

text \<open>Leaving right after joining, as a guard does at the end of its scope, changes the local epoch of the thread only.\<close>

definition epoch_left :: "nat \<Rightarrow> epoch_manager \<Rightarrow> epoch_manager" where
  "epoch_left thread_id em = em\<lparr>local_epochs := (local_epochs em)[thread_id := max_epoch]\<rparr>"

lemma guard_leaves:
  assumes "EpochGuard_ctor em thread_id = Inr em1" "EpochGuard_dtor em1 thread_id = Inr em2"
  shows "em2 = epoch_left thread_id em"
  using assms by (auto simp: EpochGuard_ctor_def EpochGuard_dtor_def EpochManager_join_epoch_def EpochManager_leave_epoch_def
      aset_def epoch_left_def bindR_eq_Inr split: if_splits)

lemma epoch_left_left [simp]: "epoch_left thread_id (epoch_left thread_id em) = epoch_left thread_id em"
  by (simp add: epoch_left_def)

section \<open>The smallest local epoch\<close>

lemma min_epoch_loop_eq:
  "length (local_epochs em) = count_threads em \<Longrightarrow> i \<le> count_threads em \<Longrightarrow>
     min_epoch_loop em i m = Inr (fold min (drop i (local_epochs em)) m)"
proof (induction em i m rule: min_epoch_loop.induct)
  case (1 em i m)
  show ?case
  proof (cases "i < count_threads em")
    case True
    then have "drop i (local_epochs em) = local_epochs em ! i # drop (Suc i) (local_epochs em)"
      using "1.prems" by (simp add: Cons_nth_drop_Suc)
    then show ?thesis using 1 True by (simp add: min_epoch_loop.simps [of em i] aget_def min.commute)
  next
    case False
    then show ?thesis using "1.prems" by (subst min_epoch_loop.simps) simp
  qed
qed

lemma fold_min_le: "fold min xs (m :: epoch_t) \<le> m" "x \<in> set xs \<Longrightarrow> fold min xs m \<le> x"
proof (induction xs arbitrary: m)
  case (Cons y ys)
  {
    case 1
    show ?case using Cons.IH(1) [of "min y m"] by simp
  next
    case 2
    then show ?case using Cons.IH(1) [of "min y m"] Cons.IH(2) [of "min y m"] by auto
  }
qed simp_all

lemma min_local_epoch:
  assumes "length (local_epochs em) = count_threads em" "0 < count_threads em"
  obtains m where "EpochManager_min_local_epoch em = Inr m" "\<forall>e \<in> set (local_epochs em). m \<le> e"
proof -
  obtain e es where es: "local_epochs em = e # es" using assms by (cases "local_epochs em") auto
  have "EpochManager_min_local_epoch em = Inr (fold min es e)"
    using min_epoch_loop_eq [of em 1 e] assms es by (simp add: EpochManager_min_local_epoch_def aget_def)
  then show thesis using that fold_min_le(1) [of es e] fold_min_le(2) [of _ es e] es by auto
qed

section \<open>What reclamation does\<close>

abbreviation garbage_is :: "epoch_manager \<Rightarrow> addr list \<Rightarrow> bool" where
  "garbage_is em xs \<equiv> MPSC_holds (mem_next em, garbage_queue em) xs"

text \<open>The manager with other queue memory, and with more nodes freed.\<close>

definition swept :: "epoch_manager \<Rightarrow> links \<Rightarrow> mpsc_queue \<Rightarrow> addr list \<Rightarrow> epoch_manager" where
  "swept em nx q fs = em\<lparr>mem_next := nx, garbage_queue := q, mem_freed := mem_freed em @ fs\<rparr>"

lemma swept_simps [simp]:
  "mem_next (swept em nx q fs) = nx" "garbage_queue (swept em nx q fs) = q"
  "mem_freed (swept em nx q fs) = mem_freed em @ fs" "mem_epoch (swept em nx q fs) = mem_epoch em"
  "local_epochs (swept em nx q fs) = local_epochs em" "global_epoch (swept em nx q fs) = global_epoch em"
  "count_threads (swept em nx q fs) = count_threads em"
  "swept (swept em nx q fs) nx' q' fs' = swept em nx' q' (fs @ fs')"
  "std_free (swept em nx q fs) a = swept em nx q (fs @ [a])"
  "swept em nx q fs\<lparr>mem_next := nx'\<rparr> = swept em nx' q fs"
  "swept em nx q fs\<lparr>garbage_queue := q'\<rparr> = swept em nx q' fs"
  by (simp_all add: swept_def std_free_def)

lemma swept_eq [simp]: "swept em nx q fs = swept em nx' q' fs' \<longleftrightarrow> nx = nx' \<and> q = q' \<and> fs = fs'"
proof
  assume eq: "swept em nx q fs = swept em nx' q' fs'"
  show "nx = nx' \<and> q = q' \<and> fs = fs'"
    using arg_cong [OF eq, of mem_next] arg_cong [OF eq, of garbage_queue] arg_cong [OF eq, of mem_freed] by simp
qed simp

lemma pop_garbage_swept:
  "MPSCQueue_pop_front (mem_next em, garbage_queue em) = (r, nx, q) \<Longrightarrow> pop_garbage em = (r, swept em nx q [])"
  by (simp add: pop_garbage_def swept_def)

lemma pop_garbage_nil:
  "garbage_is em [] \<Longrightarrow> \<exists>nx q. pop_garbage em = (None, swept em nx q []) \<and> MPSC_holds (nx, q) []
     \<and> m_end q = m_end (garbage_queue em)"
  using mpsc.pop_nil [of "(mem_next em, garbage_queue em)"] MPSC_end_kept(1) [of "(mem_next em, garbage_queue em)"]
  by (fastforce dest: pop_garbage_swept)

lemma pop_garbage_cons:
  assumes "garbage_is em (x # xs)"
  shows "\<exists>nx q. pop_garbage em = (Some x, swept em nx q []) \<and> MPSC_holds (nx, q) xs
     \<and> m_end q = m_end (garbage_queue em)
     \<and> (\<forall>y. y \<notin> insert (m_end q) (set (x # xs)) \<longrightarrow> nx y = mem_next em y)"
proof -
  obtain nx q where p: "MPSCQueue_pop_front (mem_next em, garbage_queue em) = (Some x, nx, q)" "MPSC_holds (nx, q) xs"
    using mpsc.pop_cons [OF assms] by auto
  have e: "m_end q = m_end (garbage_queue em)" using MPSC_end_kept(1) [of "(mem_next em, garbage_queue em)"] p(1) by simp
  have "pop_garbage em = (Some x, swept em nx q [])" using pop_garbage_swept [OF p(1)] .
  then show ?thesis using p(2) e MPSC_pop_links [OF assms p(1)] by auto
qed

lemma free_all_spec:
  "garbage_is em xs \<Longrightarrow> length xs < fuel \<Longrightarrow>
     \<exists>nx q. free_all fuel em = Inr (swept em nx q xs) \<and> MPSC_holds (nx, q) []"
proof (induction xs arbitrary: fuel em)
  case Nil
  then obtain f where "fuel = Suc f" by (cases fuel) auto
  then show ?case using pop_garbage_nil [OF Nil(1)] by auto
next
  case (Cons x xs)
  then obtain f where f: "fuel = Suc f" by (cases fuel) auto
  obtain nx q where p: "pop_garbage em = (Some x, swept em nx q [])" "MPSC_holds (nx, q) xs"
    using pop_garbage_cons [OF Cons.prems(1)] by auto
  then show ?case using Cons.IH [of "swept em nx q [x]" f] Cons.prems(2) f by simp
qed

text \<open>The deferred items form a queue of their own, disjoint from what is still to be looked at.\<close>

lemma reclaim_loop_spec:
  assumes "garbage_is em xs" "Queue_holds (mem_next em, d) ys" "length xs < fuel"
    and "distinct (xs @ ys)" "m_end (garbage_queue em) \<notin> set ys"
  shows "\<exists>nx q d'. reclaim_loop fuel m em d = Inr (swept em nx q (filter (\<lambda>x. mem_epoch em x < m) xs), d')
    \<and> MPSC_holds (nx, q) [] \<and> m_end q = m_end (garbage_queue em)
    \<and> Queue_holds (nx, d') (ys @ filter (\<lambda>x. \<not> mem_epoch em x < m) xs)"
  using assms
proof (induction xs arbitrary: fuel em d ys)
  case Nil
  then obtain f where f: "fuel = Suc f" by (cases fuel) auto
  obtain nx q where p: "MPSCQueue_pop_front (mem_next em, garbage_queue em) = (None, nx, q)" "MPSC_holds (nx, q) []"
    using mpsc.pop_nil [OF Nil(1)] by auto
  have e: "m_end q = m_end (garbage_queue em)" using MPSC_end_kept(1) [of "(mem_next em, garbage_queue em)"] p(1) by simp
  have "Queue_holds (nx, d) ys"
    using Nil(2,5) MPSC_pop_links [OF Nil(1) p(1)] Queue_holds_cong [of ys nx "mem_next em" d] by force
  moreover have "pop_garbage em = (None, swept em nx q [])" using pop_garbage_swept [OF p(1)] .
  ultimately show ?case using p(2) e f by auto
next
  case (Cons x xs)
  then obtain f where f: "fuel = Suc f" by (cases fuel) auto
  obtain nx q where p: "pop_garbage em = (Some x, swept em nx q [])" "MPSC_holds (nx, q) xs"
      "m_end q = m_end (garbage_queue em)" "\<forall>y. y \<notin> insert (m_end q) (set (x # xs)) \<longrightarrow> nx y = mem_next em y"
    using pop_garbage_cons [OF Cons.prems(1)] by auto
  have "set ys \<inter> insert (m_end q) (set (x # xs)) = {}" using Cons.prems(4,5) p(3) by auto
  then have "nx y = mem_next em y" if "y \<in> set ys" for y using p(4) that by blast
  then have d: "Queue_holds (nx, d) ys" using Cons.prems(2) Queue_holds_cong [of ys nx "mem_next em" d] by blast
  have out: "m_end q \<notin> set (x # xs)" using Cons.prems(1) p(3) by (simp add: MPSC_holds_def)
  show ?case
  proof (cases "mem_epoch em x < m")
    case True
    then show ?thesis
      using Cons.IH [of "swept em nx q [x]" d ys f] p d Cons.prems f by (auto simp: )
  next
    case False
    obtain nx' d' where push: "Queue_push_back (nx, d) x = (nx', d')" by fastforce
    have h: "Queue_holds (nx', d') (ys @ [x])" using single.push_law [OF d, of x] push Cons.prems(4) by auto
    have same: "nx' y = nx y" if "y \<notin> insert x (set ys)" for y using Queue_push_links [OF d that] push by simp
    have "insert (m_end q) (set xs) \<inter> insert x (set ys) = {}" using Cons.prems(4,5) p(3) out by auto
    then have "MPSC_holds (nx', q) xs" using same by (intro MPSC_holds_cong [OF p(2)]) blast
    then show ?thesis
      using Cons.IH [of "swept em nx' q []" d' "ys @ [x]" f] p push h Cons.prems f False out by auto
  qed
qed

lemma requeue_spec:
  assumes g: "garbage_is em xs" and d: "Queue_holds (mem_next em, d) ys" and new: "set ys \<inter> insert (m_end (garbage_queue em)) (set xs) = {}"
  shows "\<exists>nx q. requeue em d = Inr (swept em nx q []) \<and> MPSC_holds (nx, q) (xs @ ys) \<and> m_end q = m_end (garbage_queue em)"
proof (cases "ys = []")
  case True
  then have "q_head d = None" using d by (simp add: Queue_holds_def)
  then have "requeue em d = Inr em" by (simp add: requeue_def Queue_begin_def Queue_empty_def)
  moreover have "em = swept em (mem_next em) (garbage_queue em) []" by (simp add: swept_def)
  ultimately show ?thesis using g True by fastforce
next
  case False
  then have hd: "q_head d = Some (hd ys)" "q_tail d = Some (last ys)" "linked (mem_next em) ys" "distinct ys"
    using d by (simp_all add: Queue_holds_def)
  obtain nx q where push: "MPSCQueue_push_back_all (mem_next em, garbage_queue em) (hd ys) (last ys) = (nx, q)" by fastforce
  have "MPSC_holds (nx, q) (xs @ ys)" using MPSC_push_back_all [OF g hd(3,4) False new] push by simp
  moreover have "requeue em d = Inr (swept em nx q [])"
    using hd(1,2) push by (simp add: requeue_def Queue_begin_def Queue_end_def swept_def)
  moreover have "m_end q = m_end (garbage_queue em)" using push by (auto simp: MPSCQueue_push_back_all_def Let_def)
  ultimately show ?thesis by blast
qed

lemma reclaim_below_spec:
  assumes g: "garbage_is em xs" and f: "length xs < fuel"
  shows "\<exists>nx q. reclaim_below fuel m em = Inr (swept em nx q (filter (\<lambda>x. mem_epoch em x < m) xs))
    \<and> MPSC_holds (nx, q) (filter (\<lambda>x. \<not> mem_epoch em x < m) xs) \<and> m_end q = m_end (garbage_queue em)"
proof -
  let ?ys = "filter (\<lambda>x. \<not> mem_epoch em x < m) xs" and ?fs = "filter (\<lambda>x. mem_epoch em x < m) xs"
  have dist: "distinct xs" using MPSC_distinct [OF g] .
  have out: "m_end (garbage_queue em) \<notin> set xs" using g by (simp add: MPSC_holds_def)
  have "Queue_holds (mem_next em, Queue_ctor) []" by (simp add: Queue_holds_def Queue_ctor_def)
  then obtain nx q d where l: "reclaim_loop fuel m em Queue_ctor = Inr (swept em nx q ?fs, d)"
      "MPSC_holds (nx, q) []" "m_end q = m_end (garbage_queue em)" "Queue_holds (nx, d) ?ys"
    using reclaim_loop_spec [OF g, of Queue_ctor "[]" fuel m] f dist by auto
  then show ?thesis
    using requeue_spec [of "swept em nx q ?fs" "[]" d ?ys] out by (auto simp: reclaim_below_def)
qed

text \<open>More fuel does not change a result, so any run that ends is described by the lemma above.\<close>

lemma reclaim_loop_mono:
  "reclaim_loop fuel m em d = Inr r \<Longrightarrow> fuel \<le> fuel' \<Longrightarrow> reclaim_loop fuel' m em d = Inr r"
proof (induction fuel m em d arbitrary: fuel' rule: reclaim_loop.induct)
  case (2 fuel m em d)
  then obtain f where f: "fuel' = Suc f" "fuel \<le> f" by (cases fuel') auto
  show ?case
    using "2.prems"(1) "2.IH"(1) [OF _ _ _ _ f(2)] "2.IH"(2) [OF _ _ _ _ _ _ f(2)] f(1)
    by (fastforce split: prod.splits option.splits if_splits simp: Let_def)
qed simp

lemma reclaim_below_result:
  assumes "reclaim_below fuel m em = Inr em'" "garbage_is em xs"
  obtains nx q where "em' = swept em nx q (filter (\<lambda>x. mem_epoch em x < m) xs)"
    "MPSC_holds (nx, q) (filter (\<lambda>x. \<not> mem_epoch em x < m) xs)" "m_end q = m_end (garbage_queue em)"
proof -
  let ?f = "max fuel (Suc (length xs))"
  obtain r where r: "reclaim_loop fuel m em Queue_ctor = Inr r"
    using assms(1) by (auto simp: reclaim_below_def bindR_eq_Inr)
  then have "reclaim_loop ?f m em Queue_ctor = Inr r" by (rule reclaim_loop_mono) simp
  then have "reclaim_below ?f m em = Inr em'" using assms(1) r by (simp add: reclaim_below_def)
  moreover have "length xs < ?f" by simp
  ultimately show thesis using reclaim_below_spec [OF assms(2), of ?f m] that by auto
qed

end
