(* ===== verification/Epoch_Protocol.thy ===== *)
theory Epoch_Protocol
  imports Epoch_Manager
begin

text \<open>
  Threads that read a shared structure while others unlink nodes from it and the epoch thread
  reclaims them, step by step (\<^verbatim>\<open>src/src/indices/blinktree/epoch_manager.cpp\<close> and \<^verbatim>\<open>epoch_manager.h\<close>). A thread
  inside an \<^verbatim>\<open>EpochGuard\<close> may keep references to any node that was linked while it was inside; the point of
  the manager is that such a node is not freed.

  The steps are those of the code. \<^verbatim>\<open>join_epoch\<close> loads the global epoch and then stores it. A node is first unlinked
  and then handed to \<^verbatim>\<open>add_to_garbage\<close>, which marks it with the global epoch and then puts it into the queue. The epoch thread goes round the loop of \<^verbatim>\<open>enter_epoch_periodically\<close>: it adds one to
  the 32-bit global epoch, which wraps around, reads the local epochs one after the other, takes the nodes
  from the queue one by one to free or defer them, and puts the deferred ones back. Steps of
  different threads interleave arbitrarily; one push or pop of the queue of \<open>Queues\<close> is one step, and so is the loop that puts
  the deferred nodes back, which frees nothing.

  Three components of the state do not influence any step. \<open>held\<close> is what a thread may still reference, \<open>rounds\<close> counts
  the epochs, and \<open>late\<close> holds the threads that joined when the epoch thread had already read their local epoch
  and was still freeing nodes.
\<close>

section \<open>The steps\<close>

datatype reclaim_phase =
    Resting
  | Advanced
  | Reading nat epoch_t
  | Sweeping epoch_t queue
  | Requeueing queue

record epoch_sys =
  manager :: epoch_manager
  reachable :: "addr set"
  removed :: "addr set"
  stamped :: "addr set"
  joining :: "nat \<Rightarrow> epoch_t option"
  inside :: "nat set"
  held :: "nat \<Rightarrow> addr set"
  phase :: reclaim_phase
  rounds :: nat
  late :: "nat set"

text \<open>The minimum so far, once the epoch thread has read the local epoch of a thread in this round.\<close>

fun read_min :: "reclaim_phase \<Rightarrow> nat \<Rightarrow> epoch_t option" where
  "read_min (Reading i m) t = (if t < i then Some m else None)"
| "read_min (Sweeping m d) t = Some m"
| "read_min _ t = None"

inductive epoch_step :: "epoch_sys \<Rightarrow> epoch_sys \<Rightarrow> bool" where
  load_epoch: "t \<notin> inside s \<Longrightarrow> joining s t = None \<Longrightarrow>
    epoch_step s (s\<lparr>joining := (joining s)(t \<mapsto> global_epoch (manager s))\<rparr>)"
| store_epoch: "joining s t = Some e \<Longrightarrow> aset (local_epochs (manager s)) t e = Inr es \<Longrightarrow>
    epoch_step s (s\<lparr>manager := (manager s)\<lparr>local_epochs := es\<rparr>, joining := (joining s)(t := None), inside := insert t (inside s),
      late := (if read_min (phase s) t = None then late s else insert t (late s))\<rparr>)"
| reference: "t \<in> inside s \<Longrightarrow> a \<in> reachable s \<Longrightarrow>
    epoch_step s (s\<lparr>held := (held s)(t := insert a (held s t))\<rparr>)"
| leave: "t \<in> inside s \<Longrightarrow> EpochGuard_dtor (manager s) t = Inr em \<Longrightarrow>
    epoch_step s (s\<lparr>manager := em, inside := inside s - {t}, held := (held s)(t := {}), late := late s - {t}\<rparr>)"
| unlink: "a \<in> reachable s \<Longrightarrow>
    epoch_step s (s\<lparr>reachable := reachable s - {a}, removed := insert a (removed s)\<rparr>)"
| stamp: "a \<in> removed s \<Longrightarrow>
    epoch_step s (s\<lparr>manager := (manager s)\<lparr>mem_epoch := (mem_epoch (manager s))(a := global_epoch (manager s))\<rparr>,
      removed := removed s - {a}, stamped := insert a (stamped s)\<rparr>)"
| enqueue: "a \<in> stamped s \<Longrightarrow> MPSCQueue_push_back (mem_next (manager s), garbage_queue (manager s)) a = (nx, q) \<Longrightarrow>
    epoch_step s (s\<lparr>manager := (manager s)\<lparr>mem_next := nx, garbage_queue := q\<rparr>, stamped := stamped s - {a}\<rparr>)"
| advance: "phase s = Resting \<Longrightarrow>
    epoch_step s (s\<lparr>manager := (manager s)\<lparr>global_epoch := global_epoch (manager s) + 1\<rparr>, phase := Advanced, rounds := Suc (rounds s)\<rparr>)"
| read_first: "phase s = Advanced \<Longrightarrow> aget (local_epochs (manager s)) 0 = Inr e \<Longrightarrow>
    epoch_step s (s\<lparr>phase := Reading 1 e\<rparr>)"
| read_next: "phase s = Reading i m \<Longrightarrow> i < count_threads (manager s) \<Longrightarrow> aget (local_epochs (manager s)) i = Inr e \<Longrightarrow>
    epoch_step s (s\<lparr>phase := Reading (i + 1) (min m e)\<rparr>)"
| read_all: "phase s = Reading i m \<Longrightarrow> \<not> i < count_threads (manager s) \<Longrightarrow>
    epoch_step s (s\<lparr>phase := Sweeping m Queue_ctor\<rparr>)"
| free: "phase s = Sweeping m d \<Longrightarrow> pop_garbage (manager s) = (Some g, em) \<Longrightarrow> mem_epoch em g < m \<Longrightarrow>
    epoch_step s (s\<lparr>manager := std_free em g\<rparr>)"
| postpone: "phase s = Sweeping m d \<Longrightarrow> pop_garbage (manager s) = (Some g, em) \<Longrightarrow> \<not> mem_epoch em g < m \<Longrightarrow>
    Queue_push_back (mem_next em, d) g = (nx, d') \<Longrightarrow>
    epoch_step s (s\<lparr>manager := em\<lparr>mem_next := nx\<rparr>, phase := Sweeping m d'\<rparr>)"
| drained: "phase s = Sweeping m d \<Longrightarrow> pop_garbage (manager s) = (None, em) \<Longrightarrow>
    epoch_step s (s\<lparr>manager := em, phase := Requeueing d\<rparr>)"
| put_back: "phase s = Requeueing d \<Longrightarrow> requeue (manager s) d = Inr em \<Longrightarrow>
    epoch_step s (s\<lparr>manager := em, phase := Resting\<rparr>)"

definition epoch_start :: "nat \<Rightarrow> addr \<Rightarrow> addr set \<Rightarrow> epoch_sys" where
  "epoch_start n stub nodes = \<lparr>manager = EpochManager_ctor n stub, reachable = nodes - {stub}, removed = {}, stamped = {}, joining = (\<lambda>_. None),
     inside = {}, held = (\<lambda>_. {}), phase = Resting, rounds = 0, late = {}\<rparr>"

inductive epoch_reach :: "nat \<Rightarrow> addr \<Rightarrow> addr set \<Rightarrow> epoch_sys \<Rightarrow> bool" for n stub nodes where
  epoch_initial: "epoch_reach n stub nodes (epoch_start n stub nodes)"
| epoch_later: "epoch_reach n stub nodes s \<Longrightarrow> epoch_step s s' \<Longrightarrow> epoch_reach n stub nodes s'"

section \<open>The steps make up the functions\<close>

text \<open>Joining is loading and storing.\<close>

lemma join_is_load_and_store:
  "EpochGuard_ctor em t = bindR (aset (local_epochs em) t (global_epoch em)) (\<lambda>es. Inr (em\<lparr>local_epochs := es\<rparr>))"
  by (simp add: EpochGuard_ctor_def EpochManager_join_epoch_def)

lemma retire_is_stamp_and_enqueue:
  assumes "a \<in> removed s" "a \<notin> stamped s"
  shows "epoch_step\<^sup>*\<^sup>* s (s\<lparr>manager := EpochManager_add_to_garbage (manager s) a, removed := removed s - {a}\<rparr>)"
proof -
  let ?s = "s\<lparr>manager := (manager s)\<lparr>mem_epoch := (mem_epoch (manager s))(a := global_epoch (manager s))\<rparr>,
      removed := removed s - {a}, stamped := insert a (stamped s)\<rparr>"
  obtain nx q where q: "MPSCQueue_push_back (mem_next (manager s), garbage_queue (manager s)) a = (nx, q)" by fastforce
  let ?t = "s\<lparr>manager := EpochManager_add_to_garbage (manager s) a, removed := removed s - {a}\<rparr>"
  have "?s\<lparr>manager := (manager ?s)\<lparr>mem_next := nx, garbage_queue := q\<rparr>, stamped := stamped ?s - {a}\<rparr> = ?t"
    using q assms(2) by (cases s) (simp add: EpochManager_add_to_garbage_def)
  then have "epoch_step ?s ?t" using enqueue [of a ?s nx q] q by simp
  with stamp [OF assms(1)] show ?thesis by (rule converse_rtranclp_into_rtranclp [OF _ r_into_rtranclp])
qed

lemma reading_steps:
  "min_epoch_loop em i m = Inr r \<Longrightarrow> manager s = em \<Longrightarrow> phase s = Reading i m \<Longrightarrow>
     epoch_step\<^sup>*\<^sup>* s (s\<lparr>phase := Sweeping r Queue_ctor\<rparr>)"
proof (induction em i m arbitrary: s rule: min_epoch_loop.induct)
  case (1 em i m)
  show ?case
  proof (cases "i < count_threads em")
    case True
    then obtain e where e: "aget (local_epochs em) i = Inr e" "min_epoch_loop em (i + 1) (min m e) = Inr r"
      using "1.prems"(1) by (subst (asm) min_epoch_loop.simps) (auto simp: bindR_eq_Inr)
    have "epoch_step s (s\<lparr>phase := Reading (i + 1) (min m e)\<rparr>)" using read_next [of s i m e] True e(1) "1.prems" by simp
    moreover have "epoch_step\<^sup>*\<^sup>* (s\<lparr>phase := Reading (i + 1) (min m e)\<rparr>) (s\<lparr>phase := Sweeping r Queue_ctor\<rparr>)"
      using "1.IH" [OF True e, of "s\<lparr>phase := Reading (i + 1) (min m e)\<rparr>"] "1.prems" by simp
    ultimately show ?thesis by (rule converse_rtranclp_into_rtranclp)
  next
    case False
    then have "r = m" using "1.prems"(1) by (subst (asm) min_epoch_loop.simps) simp
    then show ?thesis using read_all [of s i m] False "1.prems" by (simp add: r_into_rtranclp)
  qed
qed

lemma sweeping_steps:
  "reclaim_loop fuel m em d = Inr (em', d') \<Longrightarrow> manager s = em \<Longrightarrow> phase s = Sweeping m d \<Longrightarrow>
     epoch_step\<^sup>*\<^sup>* s (s\<lparr>manager := em', phase := Requeueing d'\<rparr>)"
proof (induction fuel m em d arbitrary: s rule: reclaim_loop.induct)
  case (2 fuel m em d)
  obtain g em1 where pop: "pop_garbage em = (g, em1)" by fastforce
  show ?case
  proof (cases g)
    case None
    then show ?thesis using drained [of s m d em1] pop "2.prems" by (simp add: r_into_rtranclp)
  next
    case (Some x)
    show ?thesis
    proof (cases "mem_epoch em1 x < m")
      case True
      let ?s = "s\<lparr>manager := std_free em1 x\<rparr>"
      have "epoch_step\<^sup>*\<^sup>* ?s (?s\<lparr>manager := em', phase := Requeueing d'\<rparr>)"
        using "2.IH"(1) [OF pop [symmetric] Some True, of ?s] "2.prems" pop Some True by simp
      moreover have "epoch_step s ?s" using free [of s m d x em1] pop Some True "2.prems" by simp
      ultimately show ?thesis by (simp add: converse_rtranclp_into_rtranclp)
    next
      case False
      obtain nx d1 where push: "Queue_push_back (mem_next em1, d) x = (nx, d1)" by fastforce
      let ?s = "s\<lparr>manager := em1\<lparr>mem_next := nx\<rparr>, phase := Sweeping m d1\<rparr>"
      have "epoch_step\<^sup>*\<^sup>* ?s (?s\<lparr>manager := em', phase := Requeueing d'\<rparr>)"
        using "2.IH"(2) [OF pop [symmetric] Some False push [symmetric], where s = ?s] "2.prems" pop Some False push by simp
      moreover have "epoch_step s ?s" using postpone [of s m d x em1 nx d1] pop Some False push "2.prems" by simp
      ultimately show ?thesis by (simp add: converse_rtranclp_into_rtranclp)
    qed
  qed
qed simp

text \<open>A round of the epoch thread that nobody interrupts is one iteration of its loop.\<close>

lemma uninterrupted_round:
  assumes "EpochManager_enter_epoch_periodically fuel 1 (manager s) = Inr em" "phase s = Resting"
  shows "epoch_step\<^sup>*\<^sup>* s (s\<lparr>manager := em, rounds := Suc (rounds s)\<rparr>)"
proof -
  let ?em = "(manager s)\<lparr>global_epoch := global_epoch (manager s) + 1\<rparr>"
  obtain e m em1 d where r: "aget (local_epochs ?em) 0 = Inr e" "min_epoch_loop ?em 1 e = Inr m"
      "reclaim_loop fuel m ?em Queue_ctor = Inr (em1, d)" "requeue em1 d = Inr em"
    using assms(1) by (auto simp: EpochManager_reclaim_epoch_garbage_def EpochManager_min_local_epoch_def reclaim_below_def
        bindR_eq_Inr numeral_2_eq_2)
  let ?s1 = "s\<lparr>manager := ?em, phase := Advanced, rounds := Suc (rounds s)\<rparr>"
  have "epoch_step\<^sup>*\<^sup>* s ?s1" using advance [OF assms(2)] by (rule r_into_rtranclp)
  also have "epoch_step\<^sup>*\<^sup>* ?s1 (?s1\<lparr>phase := Reading 1 e\<rparr>)" using read_first [of ?s1 e] r(1) by (simp add: r_into_rtranclp)
  also have "epoch_step\<^sup>*\<^sup>* (?s1\<lparr>phase := Reading 1 e\<rparr>) (?s1\<lparr>phase := Sweeping m Queue_ctor\<rparr>)"
    using reading_steps [OF r(2), of "?s1\<lparr>phase := Reading 1 e\<rparr>"] by simp
  also have "epoch_step\<^sup>*\<^sup>* (?s1\<lparr>phase := Sweeping m Queue_ctor\<rparr>) (?s1\<lparr>manager := em1, phase := Requeueing d\<rparr>)"
    using sweeping_steps [OF r(3), of "?s1\<lparr>phase := Sweeping m Queue_ctor\<rparr>"] by simp
  also have "epoch_step\<^sup>*\<^sup>* (?s1\<lparr>manager := em1, phase := Requeueing d\<rparr>) (?s1\<lparr>manager := em, phase := Resting\<rparr>)"
    using put_back [of "?s1\<lparr>manager := em1, phase := Requeueing d\<rparr>" d em] r(4) by (simp add: r_into_rtranclp)
  also have "?s1\<lparr>manager := em, phase := Resting\<rparr> = s\<lparr>manager := em, rounds := Suc (rounds s)\<rparr>" using assms(2) by simp
  finally show ?thesis by simp
qed

section \<open>The invariant\<close>

fun deferred_is :: "links \<Rightarrow> reclaim_phase \<Rightarrow> addr list \<Rightarrow> bool" where
  "deferred_is nx (Sweeping m d) ds \<longleftrightarrow> Queue_holds (nx, d) ds"
| "deferred_is nx (Requeueing d) ds \<longleftrightarrow> Queue_holds (nx, d) ds"
| "deferred_is nx _ ds \<longleftrightarrow> ds = []"

definition queue_inv :: "epoch_sys \<Rightarrow> addr list \<Rightarrow> addr list \<Rightarrow> bool" where
  "queue_inv s xs ds \<longleftrightarrow> garbage_is (manager s) xs \<and> deferred_is (mem_next (manager s)) (phase s) ds
     \<and> distinct (xs @ ds) \<and> m_end (garbage_queue (manager s)) \<notin> set ds \<and> reachable s \<inter> removed s = {}
     \<and> (reachable s \<union> removed s) \<inter> stamped s = {}
     \<and> (reachable s \<union> removed s \<union> stamped s) \<inter> insert (m_end (garbage_queue (manager s))) (set xs \<union> set ds) = {}
     \<and> set (mem_freed (manager s)) \<inter> (reachable s \<union> removed s \<union> stamped s \<union> set xs \<union> set ds) = {}"

definition epochs_inv :: "epoch_sys \<Rightarrow> bool" where
  "epochs_inv s \<longleftrightarrow> global_epoch (manager s) = of_nat (rounds s) \<and> length (local_epochs (manager s)) = count_threads (manager s)
     \<and> (\<forall>t \<in> inside s. t < count_threads (manager s) \<and> local_epochs (manager s) ! t \<le> global_epoch (manager s))
     \<and> (\<forall>t e. joining s t = Some e \<longrightarrow> t \<notin> inside s \<and> e \<le> global_epoch (manager s)) \<and> late s \<subseteq> inside s"

definition held_inv :: "epoch_sys \<Rightarrow> addr list \<Rightarrow> addr list \<Rightarrow> bool" where
  "held_inv s xs ds \<longleftrightarrow> (\<forall>t. t \<notin> inside s \<longrightarrow> held s t = {})
     \<and> (\<forall>t a. a \<in> held s t \<longrightarrow> t \<notin> late s \<longrightarrow> a \<in> reachable s \<union> removed s
          \<or> (a \<in> stamped s \<union> set xs \<union> set ds \<and> local_epochs (manager s) ! t \<le> mem_epoch (manager s) a))"

text \<open>The minimum the epoch thread works with is below the local epochs it has read, of threads that have not joined since.\<close>

definition phase_inv :: "epoch_sys \<Rightarrow> bool" where
  "phase_inv s \<longleftrightarrow> (\<forall>t \<in> inside s - late s. \<forall>m. read_min (phase s) t = Some m \<longrightarrow> m \<le> local_epochs (manager s) ! t)"

definition epoch_inv :: "epoch_sys \<Rightarrow> bool" where
  "epoch_inv s \<longleftrightarrow> epochs_inv s \<and> phase_inv s \<and> (\<exists>xs ds. queue_inv s xs ds \<and> held_inv s xs ds)"

lemmas epoch_inv_defs = epochs_inv_def phase_inv_def queue_inv_def held_inv_def

lemma epoch_invE:
  assumes "epoch_inv s"
  obtains xs ds where "epochs_inv s" "phase_inv s" "queue_inv s xs ds" "held_inv s xs ds"
  using assms by (auto simp: epoch_inv_def)

lemma epoch_invI: "epochs_inv s \<Longrightarrow> phase_inv s \<Longrightarrow> queue_inv s xs ds \<Longrightarrow> held_inv s xs ds \<Longrightarrow> epoch_inv s"
  by (auto simp: epoch_inv_def)

lemma start_queue: "MPSC_holds (MPSCQueue_ctor (\<lambda>_. None) stub) []"
  unfolding MPSC_holds_def MPSC_chain_def by (auto simp: MPSCQueue_ctor_def QueueItem_set_next_def intro!: exI [of _ "[stub]"])

lemma epoch_inv_start: "epoch_inv (epoch_start n stub nodes)"
  by (rule epoch_invI [where xs = "[]" and ds = "[]"])
    (use start_queue [of stub] in \<open>auto simp: epoch_inv_defs epoch_start_def EpochManager_ctor_def MPSCQueue_ctor_def\<close>)

lemma add_to_garbage_simps [simp]:
  "local_epochs (EpochManager_add_to_garbage em a) = local_epochs em"
  "count_threads (EpochManager_add_to_garbage em a) = count_threads em"
  "mem_freed (EpochManager_add_to_garbage em a) = mem_freed em"
  "mem_epoch (EpochManager_add_to_garbage em a) = (mem_epoch em)(a := global_epoch em)"
  by (simp_all add: EpochManager_add_to_garbage_def MPSCQueue_push_back_def Let_def)

lemma add_to_garbage_queue:
  assumes "garbage_is em xs" "a \<noteq> m_end (garbage_queue em)" "a \<notin> set xs"
  shows "garbage_is (EpochManager_add_to_garbage em a) (xs @ [a])"
  using mpsc.push_law [OF assms(1), of a] assms(2,3)
  by (auto simp: EpochManager_add_to_garbage_def Let_def split: prod.splits)

lemma push_facts:
  assumes "garbage_is em xs" "MPSCQueue_push_back (mem_next em, garbage_queue em) a = (nx, q)" "a \<notin> insert (m_end (garbage_queue em)) (set xs)"
  shows "MPSC_holds (nx, q) (xs @ [a])" "m_end q = m_end (garbage_queue em)"
    "x \<notin> insert a (insert (m_end (garbage_queue em)) (set xs)) \<Longrightarrow> nx x = mem_next em x"
  using mpsc.push_law [OF assms(1), of a] MPSC_head_held [OF assms(1)] assms(2,3)
  by (auto simp: MPSCQueue_push_back_def QueueItem_set_next_def Let_def split: prod.splits)

text \<open>The links of the deferred nodes are touched by nobody but the epoch thread.\<close>

lemma deferred_cong: "deferred_is nx ph ds \<Longrightarrow> (\<And>x. x \<in> set ds \<Longrightarrow> nx' x = nx x) \<Longrightarrow> deferred_is nx' ph ds"
  using Queue_holds_cong [of ds nx' nx] by (cases ph) simp_all

lemma leave_eq:
  "EpochGuard_dtor em t = Inr em' \<longleftrightarrow> t < length (local_epochs em)
     \<and> em' = em\<lparr>local_epochs := (local_epochs em)[t := max_epoch]\<rparr>"
  by (auto simp: EpochGuard_dtor_def EpochManager_leave_epoch_def aset_def bindR_eq_Inr)

lemma aset_eq: "aset xs i v = Inr ys \<longleftrightarrow> i < length xs \<and> ys = xs[i := v]"
  by (auto simp: aset_def)

lemma aget_eq: "aget xs i = Inr v \<longleftrightarrow> i < length xs \<and> v = xs ! i"
  by (auto simp: aget_def)

text \<open>What a thread does to its own local epoch, while it holds nothing.\<close>

lemma epoch_inv_local:
  assumes "epoch_inv s" "held s t = {} \<or> t \<notin> I" "\<forall>u. u \<noteq> t \<longrightarrow> (u \<in> I \<longleftrightarrow> u \<in> inside s) \<and> (u \<in> L \<longleftrightarrow> u \<in> late s) \<and> (joins u = joining s u)"
    and "t \<in> I \<longrightarrow> e \<le> global_epoch (manager s) \<and> (read_min (phase s) t \<noteq> None \<longrightarrow> t \<in> L)" "L \<subseteq> I" "joins t = None"
    and "t < length (local_epochs (manager s))"
  shows "epoch_inv (s\<lparr>manager := (manager s)\<lparr>local_epochs := (local_epochs (manager s))[t := e]\<rparr>, joining := joins, inside := I,
    held := (held s)(t := {}), late := L\<rparr>)"
proof -
  obtain xs ds where i: "epochs_inv s" "phase_inv s" "queue_inv s xs ds" "held_inv s xs ds" using assms(1) by (rule epoch_invE)
  let ?s = "s\<lparr>manager := (manager s)\<lparr>local_epochs := (local_epochs (manager s))[t := e]\<rparr>, joining := joins, inside := I,
    held := (held s)(t := {}), late := L\<rparr>"
  have "u < count_threads (manager s) \<and> (local_epochs (manager s))[t := e] ! u \<le> global_epoch (manager s)" if "u \<in> I" for u
    using i(1) assms(3,4,7) that by (cases "u = t") (auto simp: epochs_inv_def)
  moreover have "u \<notin> I \<and> f \<le> global_epoch (manager s)" if "joins u = Some f" for u f
    using i(1) assms(3,6) that by (cases "u = t") (auto simp: epochs_inv_def)
  ultimately have "epochs_inv ?s" using i(1) assms(5) by (simp add: epochs_inv_def)
  moreover have "phase_inv ?s"
    unfolding phase_inv_def
  proof (intro ballI allI impI)
    fix u m
    assume u: "u \<in> inside ?s - late ?s" "read_min (phase ?s) u = Some m"
    then have "u \<noteq> t" using assms(4) by auto
    then show "m \<le> local_epochs (manager ?s) ! u" using i(2) u assms(3) by (simp add: phase_inv_def)
  qed
  moreover have "queue_inv ?s xs ds" using i(3) by (simp add: queue_inv_def)
  moreover have "held_inv ?s xs ds"
    unfolding held_inv_def
  proof (intro conjI allI impI)
    show "held ?s u = {}" if "u \<notin> inside ?s" for u using i(4) assms(3) that by (cases "u = t") (auto simp: held_inv_def)
    show "a \<in> reachable ?s \<union> removed ?s \<or> a \<in> stamped ?s \<union> set xs \<union> set ds \<and> local_epochs (manager ?s) ! u \<le> mem_epoch (manager ?s) a"
      if "a \<in> held ?s u" "u \<notin> late ?s" for u a
      using i(4) assms(3) that by (cases "u = t") (auto simp: held_inv_def)
  qed
  ultimately show ?thesis by (rule epoch_invI)
qed

text \<open>What the epoch thread does to the queue: some nodes are freed, none of them held by a thread it has read.\<close>

lemma epoch_inv_swept:
  assumes i: "epochs_inv s" "phase_inv s" "held_inv s xs ds"
    and "read_min ph = read_min (phase s) \<or> (\<forall>t. read_min ph t = None)"
    and q: "queue_inv (s\<lparr>manager := swept (manager s) nx q fs, phase := ph\<rparr>) ys es"
    and keep: "set xs \<union> set ds \<subseteq> set ys \<union> set es \<union> set fs"
    and old: "\<forall>g \<in> set fs. \<exists>m. mem_epoch (manager s) g < m \<and> (\<forall>t. read_min (phase s) t = Some m)"
  shows "epoch_inv (s\<lparr>manager := swept (manager s) nx q fs, phase := ph\<rparr>)"
proof -
  let ?s = "s\<lparr>manager := swept (manager s) nx q fs, phase := ph\<rparr>"
  have "a \<notin> set fs" if a: "a \<in> held s t" "t \<notin> late s" "a \<in> set xs \<union> set ds" "a \<notin> reachable s \<union> removed s" for a t
  proof
    assume "a \<in> set fs"
    then obtain m where m: "mem_epoch (manager s) a < m" "\<forall>t. read_min (phase s) t = Some m" using old by blast
    have "t \<in> inside s" using i(3) a(1) unfolding held_inv_def by blast
    then have "m \<le> local_epochs (manager s) ! t" using i(2) a(2) m(2) unfolding phase_inv_def by blast
    moreover have "local_epochs (manager s) ! t \<le> mem_epoch (manager s) a" using i(3) a unfolding held_inv_def by blast
    ultimately show False using m(1) by simp
  qed
  then have "a \<in> set ys \<union> set es" if "a \<in> held s t" "t \<notin> late s" "a \<in> set xs \<union> set ds" "a \<notin> reachable s \<union> removed s" for a t
    using keep that by blast
  then have "held_inv ?s ys es" using i(3) by (simp add: held_inv_def) blast
  moreover have "epochs_inv ?s" using i(1) unfolding epochs_inv_def by auto
  moreover have "phase_inv ?s" using i(2) assms(4) by (auto simp: phase_inv_def)
  ultimately show ?thesis using q epoch_invI by blast
qed

lemma pop_some:
  assumes "garbage_is em xs" "pop_garbage em = (Some g, em')"
  obtains ys nx q where "xs = g # ys" "em' = swept em nx q []" "MPSC_holds (nx, q) ys" "m_end q = m_end (garbage_queue em)"
    "\<forall>y. y \<notin> insert (m_end q) (set xs) \<longrightarrow> nx y = mem_next em y"
proof (cases xs)
  case Nil
  then show thesis using pop_garbage_nil [of em] assms by auto
next
  case (Cons x ys)
  then show thesis using pop_garbage_cons [of em x ys] assms that by auto
qed

lemma pop_none:
  assumes "garbage_is em xs" "pop_garbage em = (None, em')"
  obtains nx q where "xs = []" "em' = swept em nx q []" "MPSC_holds (nx, q) []" "m_end q = m_end (garbage_queue em)"
    "\<forall>y. y \<noteq> m_end q \<longrightarrow> nx y = mem_next em y"
proof (cases xs)
  case Nil
  obtain nx q where p: "MPSCQueue_pop_front (mem_next em, garbage_queue em) = (None, nx, q)" "MPSC_holds (nx, q) []"
    using mpsc.pop_nil [of "(mem_next em, garbage_queue em)"] assms(1) Nil by auto
  have "m_end q = m_end (garbage_queue em)" using MPSC_end_kept(1) [of "(mem_next em, garbage_queue em)"] p(1) by simp
  then show thesis using that [of nx q] MPSC_pop_links [OF assms(1) p(1)] pop_garbage_swept [OF p(1)] assms(2) p(2) Nil by auto
next
  case (Cons x ys)
  then show thesis using pop_garbage_cons [of em x ys] assms by auto
qed

section \<open>Every step keeps the invariant\<close>

lemma inv_store:
  assumes "epoch_inv s" "joining s t = Some e" "aset (local_epochs (manager s)) t e = Inr es"
  shows "epoch_inv (s\<lparr>manager := (manager s)\<lparr>local_epochs := es\<rparr>, joining := (joining s)(t := None), inside := insert t (inside s),
    late := (if read_min (phase s) t = None then late s else insert t (late s))\<rparr>)"
proof -
  obtain xs ds where i: "epochs_inv s" "held_inv s xs ds" using assms(1) by (rule epoch_invE)
  have t: "t \<notin> inside s" "e \<le> global_epoch (manager s)" "late s \<subseteq> inside s" using i(1) assms(2) unfolding epochs_inv_def by blast+
  have h: "held s t = {}" using i(2) t(1) by (simp add: held_inv_def)
  then have "(held s)(t := {}) = held s" by (simp add: fun_upd_idem)
  moreover have "late s \<subseteq> insert t (inside s)" using t(3) by blast
  ultimately show ?thesis
    using epoch_inv_local [OF assms(1), of t "insert t (inside s)" "if read_min (phase s) t = None then late s else insert t (late s)"
        "(joining s)(t := None)" e] assms(3) t h by (auto simp: aset_eq)
qed

lemma inv_leave:
  assumes "epoch_inv s" "t \<in> inside s" "EpochGuard_dtor (manager s) t = Inr em"
  shows "epoch_inv (s\<lparr>manager := em, inside := inside s - {t}, held := (held s)(t := {}), late := late s - {t}\<rparr>)"
proof -
  obtain xs ds where i: "epochs_inv s" "held_inv s xs ds" using assms(1) by (rule epoch_invE)
  have "joining s t = None" "late s \<subseteq> inside s" using i(1) assms(2) unfolding epochs_inv_def by (metis option.exhaust, blast)
  then show ?thesis
    using epoch_inv_local [OF assms(1), of t "inside s - {t}" "late s - {t}" "joining s" max_epoch] assms(2,3) by (auto simp: leave_eq)
qed

lemma inv_stamp:
  assumes "epoch_inv s" "a \<in> removed s"
  shows "epoch_inv (s\<lparr>manager := (manager s)\<lparr>mem_epoch := (mem_epoch (manager s))(a := global_epoch (manager s))\<rparr>,
    removed := removed s - {a}, stamped := insert a (stamped s)\<rparr>)" (is "epoch_inv ?s")
proof -
  obtain xs ds where i: "epochs_inv s" "phase_inv s" "queue_inv s xs ds" "held_inv s xs ds" using assms(1) by (rule epoch_invE)
  have "queue_inv ?s xs ds" using i(3) assms(2) by (auto simp: queue_inv_def)
  moreover have "local_epochs (manager s) ! t \<le> global_epoch (manager s)" if "b \<in> held s t" for b t
    using i(1,4) that unfolding epochs_inv_def held_inv_def by (metis empty_iff)
  then have "held_inv ?s xs ds" using i(4) by (auto simp: held_inv_def)
  moreover have "epochs_inv ?s" "phase_inv ?s" using i(1,2) unfolding epochs_inv_def phase_inv_def by auto
  ultimately show ?thesis using epoch_invI by blast
qed

lemma inv_enqueue:
  assumes "epoch_inv s" "a \<in> stamped s" "MPSCQueue_push_back (mem_next (manager s), garbage_queue (manager s)) a = (nx, q)"
  shows "epoch_inv (s\<lparr>manager := (manager s)\<lparr>mem_next := nx, garbage_queue := q\<rparr>, stamped := stamped s - {a}\<rparr>)" (is "epoch_inv ?s")
proof -
  obtain xs ds where i: "epochs_inv s" "phase_inv s" "queue_inv s xs ds" "held_inv s xs ds" using assms(1) by (rule epoch_invE)
  have a: "a \<notin> insert (m_end (garbage_queue (manager s))) (set xs)" "a \<notin> set ds" "a \<notin> reachable s \<union> removed s" "a \<notin> set (mem_freed (manager s))"
    using i(3) assms(2) unfolding queue_inv_def by blast+
  have g: "garbage_is (manager s) xs" "distinct (xs @ ds)" "m_end (garbage_queue (manager s)) \<notin> set ds"
    using i(3) by (simp_all add: queue_inv_def)
  note push = push_facts [OF g(1) assms(3) a(1)]
  have "nx x = mem_next (manager s) x" if "x \<in> set ds" for x using push(3) [of x] a(2) g(2,3) that by auto
  then have "deferred_is nx (phase s) ds" using i(3) deferred_cong [of "mem_next (manager s)"] by (simp add: queue_inv_def)
  then have "queue_inv ?s (xs @ [a]) ds" using i(3) a g push(1,2) by (auto simp: queue_inv_def)
  moreover have "held_inv ?s (xs @ [a]) ds" using i(4) by (auto simp: held_inv_def)
  moreover have "epochs_inv ?s" "phase_inv ?s" using i(1,2) unfolding epochs_inv_def phase_inv_def by auto
  ultimately show ?thesis using epoch_invI by blast
qed

lemma inv_advance:
  assumes "epoch_inv s" "phase s = Resting" "Suc (rounds s) < 2 ^ 32"
  shows "epoch_inv (s\<lparr>manager := (manager s)\<lparr>global_epoch := global_epoch (manager s) + 1\<rparr>, phase := Advanced, rounds := Suc (rounds s)\<rparr>)"
    (is "epoch_inv ?s")
proof -
  obtain xs ds where i: "epochs_inv s" "phase_inv s" "queue_inv s xs ds" "held_inv s xs ds" using assms(1) by (rule epoch_invE)
  have g: "global_epoch (manager s) = of_nat (rounds s)" using i(1) by (simp add: epochs_inv_def)
  have "global_epoch (manager s) \<le> global_epoch (manager s) + 1"
    using assms(3) by (simp add: g word_le_nat_alt unat_of_nat unat_word_ariths mod_Suc)
  then have "epochs_inv ?s" using i(1) unfolding epochs_inv_def by (auto simp: g intro: order.trans)
  moreover have "phase_inv ?s" "queue_inv ?s xs ds" "held_inv ?s xs ds"
    using i(3,4) assms(2) by (auto simp: phase_inv_def queue_inv_def held_inv_def)
  ultimately show ?thesis using epoch_invI by blast
qed

lemma inv_phase:
  assumes "epoch_inv s" "\<And>ds. deferred_is (mem_next (manager s)) (phase s) ds \<Longrightarrow> deferred_is (mem_next (manager s)) ph ds"
    and "\<And>t m. t \<in> inside s - late s \<Longrightarrow> read_min ph t = Some m \<Longrightarrow> m \<le> local_epochs (manager s) ! t"
  shows "epoch_inv (s\<lparr>phase := ph\<rparr>)"
proof -
  obtain xs ds where i: "epochs_inv s" "phase_inv s" "queue_inv s xs ds" "held_inv s xs ds" using assms(1) by (rule epoch_invE)
  have "epochs_inv (s\<lparr>phase := ph\<rparr>)" "held_inv (s\<lparr>phase := ph\<rparr>) xs ds" using i(1,4) unfolding epochs_inv_def held_inv_def by auto
  moreover have "phase_inv (s\<lparr>phase := ph\<rparr>)" using assms(3) by (simp add: phase_inv_def)
  moreover have "queue_inv (s\<lparr>phase := ph\<rparr>) xs ds" using i(3) assms(2) by (simp add: queue_inv_def)
  ultimately show ?thesis using epoch_invI by blast
qed

lemma inv_read:
  assumes "epoch_inv s" "phase s = Reading i m" "aget (local_epochs (manager s)) i = Inr e"
  shows "epoch_inv (s\<lparr>phase := Reading (i + 1) (min m e)\<rparr>)"
proof (rule inv_phase [OF assms(1)])
  fix t k
  assume t: "t \<in> inside s - late s" "read_min (Reading (i + 1) (min m e)) t = Some k"
  have "phase_inv s" using assms(1) by (rule epoch_invE)
  then show "k \<le> local_epochs (manager s) ! t"
    using t assms(2,3) by (cases "t = i") (auto simp: phase_inv_def aget_eq min.coboundedI1 min.coboundedI2 split: if_splits)
qed (simp add: assms(2))

lemma inv_read_all:
  assumes "epoch_inv s" "phase s = Reading i m" "\<not> i < count_threads (manager s)"
  shows "epoch_inv (s\<lparr>phase := Sweeping m Queue_ctor\<rparr>)"
proof (rule inv_phase [OF assms(1)])
  fix t k
  assume t: "t \<in> inside s - late s" "read_min (Sweeping m Queue_ctor) t = Some k"
  have "phase_inv s" "epochs_inv s" using assms(1) by (rule epoch_invE, simp)+
  then show "k \<le> local_epochs (manager s) ! t" using t assms(2,3) by (auto simp: phase_inv_def epochs_inv_def)
qed (auto simp: assms(2) Queue_holds_def Queue_ctor_def)

lemma inv_free:
  assumes "epoch_inv s" "phase s = Sweeping m d" "pop_garbage (manager s) = (Some g, em)" "mem_epoch em g < m"
  shows "epoch_inv (s\<lparr>manager := std_free em g\<rparr>)"
proof -
  obtain xs ds where i: "epochs_inv s" "phase_inv s" "queue_inv s xs ds" "held_inv s xs ds" using assms(1) by (rule epoch_invE)
  have h: "garbage_is (manager s) xs" "Queue_holds (mem_next (manager s), d) ds" using i(3) assms(2) by (simp_all add: queue_inv_def)
  obtain ys nx q where p: "xs = g # ys" "em = swept (manager s) nx q []" "MPSC_holds (nx, q) ys" "m_end q = m_end (garbage_queue (manager s))"
    "\<forall>y. y \<notin> insert (m_end q) (set xs) \<longrightarrow> nx y = mem_next (manager s) y" using pop_some [OF h(1) assms(3)] .
  have "set ds \<inter> insert (m_end q) (set xs) = {}" using i(3) p(4) unfolding queue_inv_def by auto
  then have "Queue_holds (nx, d) ds" using h(2) p(5) Queue_holds_cong [of ds nx "mem_next (manager s)" d] by blast
  then have "queue_inv (s\<lparr>manager := swept (manager s) nx q [g], phase := Sweeping m d\<rparr>) ys ds"
    using i(3) p by (auto simp: queue_inv_def)
  then have "epoch_inv (s\<lparr>manager := swept (manager s) nx q [g], phase := Sweeping m d\<rparr>)"
    using epoch_inv_swept [OF i(1,2,4), of "Sweeping m d" nx q "[g]" ys ds] assms(2,4) p(1,2) by auto
  then show ?thesis using p(2) unfolding assms(2) [symmetric] by simp
qed

lemma inv_postpone:
  assumes "epoch_inv s" "phase s = Sweeping m d" "pop_garbage (manager s) = (Some g, em)" "Queue_push_back (mem_next em, d) g = (nx', d')"
  shows "epoch_inv (s\<lparr>manager := em\<lparr>mem_next := nx'\<rparr>, phase := Sweeping m d'\<rparr>)"
proof -
  obtain xs ds where i: "epochs_inv s" "phase_inv s" "queue_inv s xs ds" "held_inv s xs ds" using assms(1) by (rule epoch_invE)
  have h: "garbage_is (manager s) xs" "Queue_holds (mem_next (manager s), d) ds" using i(3) assms(2) by (simp_all add: queue_inv_def)
  obtain ys nx q where p: "xs = g # ys" "em = swept (manager s) nx q []" "MPSC_holds (nx, q) ys" "m_end q = m_end (garbage_queue (manager s))"
    "\<forall>y. y \<notin> insert (m_end q) (set xs) \<longrightarrow> nx y = mem_next (manager s) y" using pop_some [OF h(1) assms(3)] .
  have dis: "set ds \<inter> insert (m_end q) (set xs) = {}" using i(3) p(4) unfolding queue_inv_def by auto
  then have q: "Queue_holds (nx, d) ds" using h(2) p(5) Queue_holds_cong [of ds nx "mem_next (manager s)" d] by blast
  have g: "g \<notin> insert (m_end q) (set ys)" using i(3) p(1,4) h(1) by (auto simp: queue_inv_def MPSC_holds_def)
  have push: "Queue_push_back (nx, d) g = (nx', d')" using assms(4) p(2) by simp
  have q': "Queue_holds (nx', d') (ds @ [g])" using single.push_law [OF q, of g] push dis p(1) by auto
  have same: "nx' y = nx y" if "y \<notin> insert g (set ds)" for y using Queue_push_links [OF q that] push by simp
  have "insert (m_end q) (set ys) \<inter> insert g (set ds) = {}" using g dis p(1) by auto
  then have "MPSC_holds (nx', q) ys" using same by (intro MPSC_holds_cong [OF p(3)]) blast
  then have "queue_inv (s\<lparr>manager := swept (manager s) nx' q [], phase := Sweeping m d'\<rparr>) ys (ds @ [g])"
    using i(3) p(1,4) q' g by (auto simp: queue_inv_def)
  then have "epoch_inv (s\<lparr>manager := swept (manager s) nx' q [], phase := Sweeping m d'\<rparr>)"
    using epoch_inv_swept [OF i(1,2,4), of "Sweeping m d'" nx' q "[]" ys "ds @ [g]"] assms(2) p(1) by (auto simp: fun_eq_iff)
  then show ?thesis using p(2) by simp
qed

lemma inv_drained:
  assumes "epoch_inv s" "phase s = Sweeping m d" "pop_garbage (manager s) = (None, em)"
  shows "epoch_inv (s\<lparr>manager := em, phase := Requeueing d\<rparr>)"
proof -
  obtain xs ds where i: "epochs_inv s" "phase_inv s" "queue_inv s xs ds" "held_inv s xs ds" using assms(1) by (rule epoch_invE)
  have h: "garbage_is (manager s) xs" "Queue_holds (mem_next (manager s), d) ds" using i(3) assms(2) by (simp_all add: queue_inv_def)
  obtain nx q where p: "xs = []" "em = swept (manager s) nx q []" "MPSC_holds (nx, q) []" "m_end q = m_end (garbage_queue (manager s))"
    "\<forall>y. y \<noteq> m_end q \<longrightarrow> nx y = mem_next (manager s) y" using pop_none [OF h(1) assms(3)] .
  have "m_end q \<notin> set ds" using i(3) p(4) by (simp add: queue_inv_def)
  then have "Queue_holds (nx, d) ds" using h(2) p(5) Queue_holds_cong [of ds nx "mem_next (manager s)" d] by metis
  then have "queue_inv (s\<lparr>manager := swept (manager s) nx q [], phase := Requeueing d\<rparr>) [] ds" using i(3) p by (auto simp: queue_inv_def)
  then show ?thesis using epoch_inv_swept [OF i(1,2,4), of "Requeueing d" nx q "[]" "[]" ds] p(1,2) by auto
qed

lemma inv_put_back:
  assumes "epoch_inv s" "phase s = Requeueing d" "requeue (manager s) d = Inr em"
  shows "epoch_inv (s\<lparr>manager := em, phase := Resting\<rparr>)"
proof -
  obtain xs ds where i: "epochs_inv s" "phase_inv s" "queue_inv s xs ds" "held_inv s xs ds" using assms(1) by (rule epoch_invE)
  have h: "garbage_is (manager s) xs" "Queue_holds (mem_next (manager s), d) ds" "set ds \<inter> insert (m_end (garbage_queue (manager s))) (set xs) = {}"
    using i(3) assms(2) unfolding queue_inv_def by auto
  obtain nx q where p: "em = swept (manager s) nx q []" "MPSC_holds (nx, q) (xs @ ds)" "m_end q = m_end (garbage_queue (manager s))"
    using requeue_spec [OF h] assms(3) by auto
  then have "queue_inv (s\<lparr>manager := swept (manager s) nx q [], phase := Resting\<rparr>) (xs @ ds) []" using i(3) by (auto simp: queue_inv_def)
  then show ?thesis using epoch_inv_swept [OF i(1,2,4), of Resting nx q "[]" "xs @ ds" "[]"] p(1) by auto
qed

lemma epoch_inv_step: "epoch_step s s' \<Longrightarrow> epoch_inv s \<Longrightarrow> rounds s' < 2 ^ 32 \<Longrightarrow> epoch_inv s'"
proof (induction rule: epoch_step.induct)
  case (load_epoch t s)
  then obtain xs ds where i: "epochs_inv s" "phase_inv s" "queue_inv s xs ds" "held_inv s xs ds" by (elim epoch_invE)
  have "epochs_inv (s\<lparr>joining := (joining s)(t \<mapsto> global_epoch (manager s))\<rparr>)" using i(1) load_epoch(1) unfolding epochs_inv_def by auto
  then show ?case using i(2-4) by (intro epoch_invI [of _ xs ds]) (simp_all add: phase_inv_def queue_inv_def held_inv_def)
next
  case (store_epoch s t e es)
  show ?case using inv_store [OF store_epoch(3,1,2)] .
next
  case (reference t s a)
  then obtain xs ds where i: "epochs_inv s" "phase_inv s" "queue_inv s xs ds" "held_inv s xs ds" by (elim epoch_invE)
  have "held_inv (s\<lparr>held := (held s)(t := insert a (held s t))\<rparr>) xs ds" using i(4) reference(1,2) by (simp add: held_inv_def)
  moreover have "epochs_inv (s\<lparr>held := (held s)(t := insert a (held s t))\<rparr>)" using i(1) unfolding epochs_inv_def by auto
  ultimately show ?case using i(2,3) by (intro epoch_invI [of _ xs ds]) (simp_all add: phase_inv_def queue_inv_def)
next
  case (unlink a s)
  then obtain xs ds where i: "epochs_inv s" "phase_inv s" "queue_inv s xs ds" "held_inv s xs ds" by (elim epoch_invE)
  let ?s = "s\<lparr>reachable := reachable s - {a}, removed := insert a (removed s)\<rparr>"
  have "queue_inv ?s xs ds" "held_inv ?s xs ds" using i(3,4) unlink(1) by (auto simp: queue_inv_def held_inv_def)
  moreover have "epochs_inv ?s" "phase_inv ?s" using i(1,2) unfolding epochs_inv_def phase_inv_def by auto
  ultimately show ?case using epoch_invI by blast
next
  case (read_first s e)
  have "epoch_inv (s\<lparr>phase := Reading 1 e\<rparr>)"
  proof (rule inv_phase [OF read_first(3)])
    fix t m
    assume "t \<in> inside s - late s" "read_min (Reading 1 e) t = Some m"
    then show "m \<le> local_epochs (manager s) ! t" using read_first(2) by (auto simp: aget_eq split: if_splits)
  qed (simp add: read_first(1))
  then show ?case .
qed (auto intro: inv_leave inv_stamp inv_enqueue inv_advance inv_read [simplified] inv_read_all inv_free inv_postpone inv_drained inv_put_back)

lemma rounds_mono: "epoch_step s s' \<Longrightarrow> rounds s \<le> rounds s'"
  by (induction rule: epoch_step.induct) auto

lemma epoch_inv_reach: "epoch_reach n stub nodes s \<Longrightarrow> rounds s < 2 ^ 32 \<Longrightarrow> epoch_inv s"
proof (induction rule: epoch_reach.induct)
  case (epoch_later s s')
  then show ?case using epoch_inv_step [OF epoch_later(2)] rounds_mono [OF epoch_later(2)] by simp
qed (rule epoch_inv_start)

section \<open>Properties\<close>

text \<open>
  One run of \<^verbatim>\<open>reclaim_epoch_garbage\<close> ends, frees exactly the queued nodes that were removed in
  an epoch before every thread's local epoch, in queue order, and keeps the others queued in order.
\<close>

theorem reclaim_frees_old_garbage:
  assumes "garbage_is em xs" "length xs < fuel" "length (local_epochs em) = count_threads em" "0 < count_threads em"
  shows "\<exists>m em'. EpochManager_min_local_epoch em = Inr m \<and> (\<forall>e \<in> set (local_epochs em). m \<le> e)
    \<and> EpochManager_reclaim_epoch_garbage fuel em = Inr em'
    \<and> mem_freed em' = mem_freed em @ filter (\<lambda>x. mem_epoch em x < m) xs
    \<and> garbage_is em' (filter (\<lambda>x. \<not> mem_epoch em x < m) xs)"
proof -
  obtain m where m: "EpochManager_min_local_epoch em = Inr m" "\<forall>e \<in> set (local_epochs em). m \<le> e"
    using min_local_epoch [OF assms(3,4)] .
  then show ?thesis
    using reclaim_below_spec [OF assms(1,2), of m] by (auto simp: EpochManager_reclaim_epoch_garbage_def)
qed

text \<open>
  C11. Under every interleaving of the threads with the epoch thread, no node that a thread inside a guard may still
  reference has been freed, whatever the order in which threads join, unlink nodes and leave. Two
  conditions are needed and stated. Fewer than \<open>2 ^ 32\<close> epochs have passed, so that the 32-bit epoch counter has not wrapped around.
  And the thread is not \<open>late\<close>: it did not join between the moment the epoch thread read its local epoch and
  the end of the sweep of that round.
\<close>

theorem guarded_nodes_are_not_freed:
  assumes "epoch_reach n stub nodes s" "rounds s < 2 ^ 32" "a \<in> held s t" "t \<notin> late s"
  shows "a \<notin> set (mem_freed (manager s))"
proof -
  obtain xs ds where "queue_inv s xs ds" "held_inv s xs ds" using epoch_inv_reach [OF assms(1,2)] by (rule epoch_invE)
  then show ?thesis using assms(3,4) unfolding queue_inv_def held_inv_def by blast
qed

section \<open>Runs\<close>

text \<open>Joining, and referencing a node that is then unlinked and retired, as pieces of a run.\<close>

lemma reach_join:
  assumes "epoch_reach n stub nodes s" "t \<notin> inside s" "joining s t = None" "t < length (local_epochs (manager s))"
  shows "epoch_reach n stub nodes (s\<lparr>manager := (manager s)\<lparr>local_epochs := (local_epochs (manager s))[t := global_epoch (manager s)]\<rparr>,
    inside := insert t (inside s), late := (if read_min (phase s) t = None then late s else insert t (late s))\<rparr>)"
proof -
  let ?s = "s\<lparr>joining := (joining s)(t \<mapsto> global_epoch (manager s))\<rparr>"
  have "epoch_reach n stub nodes ?s" using epoch_later [OF assms(1) load_epoch [OF assms(2,3)]] .
  moreover have "(joining s)(t := None) = joining s" using assms(3) by (simp add: fun_upd_idem)
  ultimately show ?thesis
    using epoch_later [OF _ store_epoch [of ?s t "global_epoch (manager s)" "(local_epochs (manager s))[t := global_epoch (manager s)]"]] assms(4)
    by (cases "read_min (phase s) t") (auto simp: aset_eq)
qed

lemma reach_steps: "epoch_step\<^sup>*\<^sup>* s s' \<Longrightarrow> epoch_reach n stub nodes s \<Longrightarrow> epoch_reach n stub nodes s'"
  by (induction rule: rtranclp_induct) (auto intro: epoch_later)

lemma reach_retire:
  assumes "epoch_reach n stub nodes s" "t \<in> inside s" "a \<in> reachable s" "a \<notin> removed s \<union> stamped s"
  shows "epoch_reach n stub nodes (s\<lparr>held := (held s)(t := insert a (held s t)), reachable := reachable s - {a},
    manager := EpochManager_add_to_garbage (manager s) a\<rparr>)"
proof -
  let ?s1 = "s\<lparr>held := (held s)(t := insert a (held s t))\<rparr>"
  let ?s2 = "?s1\<lparr>reachable := reachable s - {a}, removed := insert a (removed s)\<rparr>"
  have "epoch_reach n stub nodes ?s1" using epoch_later [OF assms(1) reference [OF assms(2,3)]] .
  then have "epoch_reach n stub nodes ?s2" using epoch_later [OF _ unlink [of a ?s1]] assms(3) by simp
  moreover have "insert a (removed s) - {a} = removed s" using assms(4) by simp
  ultimately show ?thesis using reach_steps [OF retire_is_stamp_and_enqueue [of a ?s2]] assms(4) by simp
qed

lemmas start_defs = epoch_start_def EpochManager_ctor_def MPSCQueue_ctor_def

lemma start_garbage: "garbage_is (manager (epoch_start n stub nodes)) []"
  using start_queue [of stub] by (simp add: start_defs)

text \<open>
  A run with one thread, the stub at address 0 and a node at address 5: the thread joins and takes a
  reference to the node, and the node is unlinked and retired.
\<close>

definition sample_held :: epoch_sys where
  "sample_held = (let s = epoch_start 1 0 {5} in s\<lparr>manager := EpochManager_add_to_garbage (manager s) 5, reachable := {}, inside := {0},
     held := (\<lambda>_. {})(0 := {5})\<rparr>)"

lemma sample_held_reach: "epoch_reach 1 0 {5} sample_held"
proof -
  have "epoch_reach 1 0 {5} ((epoch_start 1 0 {5})\<lparr>inside := {0}\<rparr>)"
    using reach_join [OF epoch_initial, of 0 1 0 "{5}"] by (simp add: start_defs)
  from reach_retire [OF this, of 0 5] show ?thesis by (simp add: sample_held_def start_defs Let_def)
qed

theorem guarded_nodes_are_not_freed_witness: "5 \<in> held sample_held 0 \<and> 5 \<notin> set (mem_freed (manager sample_held))"
proof -
  have "rounds sample_held < 2 ^ 32" "5 \<in> held sample_held 0" "0 \<notin> late sample_held" by (simp_all add: sample_held_def start_defs Let_def)
  then show ?thesis using guarded_nodes_are_not_freed [OF sample_held_reach] by blast
qed

theorem reclaim_frees_old_garbage_witness:
  "\<exists>em'. EpochManager_reclaim_epoch_garbage 2 (manager sample_held) = Inr em' \<and> mem_freed em' = [] \<and> garbage_is em' [5]"
proof -
  have "garbage_is (manager sample_held) [5]"
    using add_to_garbage_queue [OF start_garbage [of 1 0 "{5}"], of 5] by (simp add: sample_held_def start_defs Let_def)
  moreover have "local_epochs (manager sample_held) = [0]" "count_threads (manager sample_held) = 1"
      "mem_freed (manager sample_held) = []" "mem_epoch (manager sample_held) 5 = 0"
    by (simp_all add: sample_held_def Let_def start_defs)
  ultimately show ?thesis using reclaim_frees_old_garbage [of "manager sample_held" "[5]" 2] by auto
qed

text \<open>
  The last part of both runs below: thread 0 is inside, the epoch thread has already taken the largest
  epoch as its minimum and still sweeps, and node 5 has just been retired in an older epoch.
\<close>

lemma sweep_frees_held:
  assumes r: "epoch_reach 1 0 {5} s" and ph: "phase s = Sweeping max_epoch d" and g: "garbage_is (manager s) [5]"
    and old: "mem_epoch (manager s) 5 < max_epoch"
  shows "\<exists>em. epoch_reach 1 0 {5} (s\<lparr>manager := em\<rparr>) \<and> 5 \<in> set (mem_freed em)"
proof -
  obtain nx q where "pop_garbage (manager s) = (Some 5, swept (manager s) nx q [])" using pop_garbage_cons [OF g] by blast
  then have "epoch_step s (s\<lparr>manager := swept (manager s) nx q [5]\<rparr>)" using free [OF ph] old by fastforce
  from epoch_later [OF r this] show ?thesis by (intro exI [of _ "swept (manager s) nx q [5]"]) simp
qed

text \<open>
  C34. The reclaimer is not safe when it really runs beside the other threads: the local epochs are
  read before the queue is emptied, so a thread that enters in between is not counted and a node it
  references, unlinked after it entered, is freed under it. This happens in the first round already.
\<close>

theorem reclaimer_race_frees_held_node:
  "\<exists>s. epoch_reach 1 0 {5} s \<and> rounds s = 1 \<and> 0 \<in> inside s \<and> 5 \<in> held s 0 \<and> 5 \<in> set (mem_freed (manager s))"
proof -
  let ?s0 = "epoch_start 1 0 {5}"
  let ?s1 = "?s0\<lparr>inside := {0}\<rparr>"
  let ?s2 = "?s0\<lparr>manager := (manager ?s0)\<lparr>local_epochs := [max_epoch]\<rparr>\<rparr>"
  let ?s3 = "?s2\<lparr>manager := (manager ?s2)\<lparr>global_epoch := 1\<rparr>, phase := Advanced, rounds := 1\<rparr>"
  let ?s4 = "?s3\<lparr>phase := Sweeping max_epoch Queue_ctor\<rparr>"
  let ?s5 = "?s4\<lparr>manager := (manager ?s4)\<lparr>local_epochs := [1]\<rparr>, inside := {0}, late := {0}\<rparr>"
  let ?s6 = "?s5\<lparr>held := (\<lambda>_. {})(0 := {5}), reachable := {}, manager := EpochManager_add_to_garbage (manager ?s5) 5\<rparr>"
  have "epoch_reach 1 0 {5} ?s1" using reach_join [OF epoch_initial, of 0 1 0 "{5}"] by (simp add: start_defs)
  then have "epoch_reach 1 0 {5} ?s2"
    using epoch_later [OF _ leave [of 0 ?s1 "(manager ?s0)\<lparr>local_epochs := [max_epoch]\<rparr>"]] by (simp add: leave_eq start_defs fun_upd_idem)
  then have "epoch_reach 1 0 {5} ?s3" using epoch_later [OF _ advance [of ?s2]] by (simp add: start_defs)
  then have "epoch_reach 1 0 {5} (?s3\<lparr>phase := Reading 1 max_epoch\<rparr>)"
    using epoch_later [OF _ read_first [of ?s3 max_epoch]] by (simp add: start_defs aget_eq)
  then have "epoch_reach 1 0 {5} ?s4"
    using epoch_later [OF _ read_all [of "?s3\<lparr>phase := Reading 1 max_epoch\<rparr>" 1 max_epoch]] by (simp add: start_defs)
  then have "epoch_reach 1 0 {5} ?s5" using reach_join [of 1 0 "{5}" ?s4 0] by (simp add: start_defs)
  then have "epoch_reach 1 0 {5} ?s6" using reach_retire [of 1 0 "{5}" ?s5 0 5] by (simp add: start_defs)
  moreover have "garbage_is (manager ?s6) [5]"
    using add_to_garbage_queue [of "manager ?s5" "[]" 5] start_garbage [of 1 0 "{5}"] by (simp add: start_defs)
  moreover have "(1 :: epoch_t) < max_epoch" by code_simp
  ultimately obtain em where "epoch_reach 1 0 {5} (?s6\<lparr>manager := em\<rparr>)" "5 \<in> set (mem_freed em)"
    using sweep_frees_held [of ?s6 Queue_ctor] by auto
  then show ?thesis by (intro exI [of _ "?s6\<lparr>manager := em\<rparr>"]) simp
qed

text \<open>
  The bound on the number of epochs is needed as well. When the counter is about to wrap around, a thread that joins stores the
  largest epoch, and whatever is retired after the wrap counts as older than that.
\<close>

lemma idle_rounds:
  "\<exists>s. epoch_reach 1 0 {5} s \<and> phase s = Resting \<and> garbage_is (manager s) [] \<and> global_epoch (manager s) = of_nat k
    \<and> local_epochs (manager s) = [0] \<and> count_threads (manager s) = 1 \<and> m_end (garbage_queue (manager s)) = 0
    \<and> reachable s = {5} \<and> removed s = {} \<and> stamped s = {} \<and> inside s = {} \<and> joining s 0 = None \<and> late s = {} \<and> held s = (\<lambda>_. {})"
proof (induction k)
  case 0
  show ?case using start_garbage [of 1 0 "{5}"] epoch_initial [of 1 0 "{5}"] by (intro exI [of _ "epoch_start 1 0 {5}"]) (simp add: start_defs)
next
  case (Suc k)
  then obtain s where s: "epoch_reach 1 0 {5} s" "phase s = Resting" "garbage_is (manager s) []" "global_epoch (manager s) = of_nat k"
      "local_epochs (manager s) = [0]" "count_threads (manager s) = 1" "m_end (garbage_queue (manager s)) = 0"
      "reachable s = {5} \<and> removed s = {} \<and> stamped s = {} \<and> inside s = {} \<and> joining s 0 = None \<and> late s = {} \<and> held s = (\<lambda>_. {})" by blast
  let ?em = "(manager s)\<lparr>global_epoch := global_epoch (manager s) + 1\<rparr>"
  obtain m where m: "EpochManager_min_local_epoch ?em = Inr m" using min_local_epoch [of ?em] s(5,6) by auto
  obtain nx q where q: "reclaim_below 1 m ?em = Inr (swept ?em nx q [])" "MPSC_holds (nx, q) []" "m_end q = 0"
    using reclaim_below_spec [of ?em "[]" 1 m] s(3,7) by auto
  then have "EpochManager_enter_epoch_periodically 1 1 (manager s) = Inr (swept ?em nx q [])"
    using m by (simp add: EpochManager_reclaim_epoch_garbage_def)
  from reach_steps [OF uninterrupted_round [OF this s(2)] s(1)] show ?case
    using s q by (intro exI [of _ "s\<lparr>manager := swept ?em nx q [], rounds := Suc (rounds s)\<rparr>"]) (simp add: add.commute)
qed

lemma epoch_wrap_frees_held_node:
  "\<exists>s. epoch_reach 1 0 {5} s \<and> late s = {} \<and> 0 \<in> inside s \<and> 5 \<in> held s 0 \<and> 5 \<in> set (mem_freed (manager s))"
proof -
  obtain s where s: "epoch_reach 1 0 {5} s" "phase s = Resting" "garbage_is (manager s) []" "global_epoch (manager s) = of_nat (2 ^ 32 - 1)"
      "local_epochs (manager s) = [0]" "count_threads (manager s) = 1" "m_end (garbage_queue (manager s)) = 0"
      "reachable s = {5}" "removed s = {} \<and> stamped s = {}" "inside s = {}" "joining s 0 = None" "late s = {}" "held s = (\<lambda>_. {})"
    using idle_rounds [of "2 ^ 32 - 1"] by blast
  have g: "global_epoch (manager s) = max_epoch" unfolding s(4) max_epoch_def by (simp add: of_nat_diff)
  let ?s1 = "s\<lparr>manager := (manager s)\<lparr>local_epochs := [max_epoch]\<rparr>, inside := {0}, late := {}\<rparr>"
  let ?s2 = "?s1\<lparr>manager := (manager ?s1)\<lparr>global_epoch := 0\<rparr>, phase := Advanced, rounds := Suc (rounds s)\<rparr>"
  let ?s3 = "?s2\<lparr>phase := Sweeping max_epoch Queue_ctor\<rparr>"
  let ?s4 = "?s3\<lparr>held := (\<lambda>_. {})(0 := {5}), reachable := {}, manager := EpochManager_add_to_garbage (manager ?s3) 5\<rparr>"
  have "epoch_reach 1 0 {5} ?s1" using reach_join [OF s(1), of 0] s(2,5,10-12) g by simp
  then have "epoch_reach 1 0 {5} ?s2" using epoch_later [OF _ advance [of ?s1]] s(2) g by (simp add: max_epoch_def)
  then have "epoch_reach 1 0 {5} (?s2\<lparr>phase := Reading 1 max_epoch\<rparr>)"
    using epoch_later [OF _ read_first [of ?s2 max_epoch]] by (simp add: aget_eq)
  then have "epoch_reach 1 0 {5} ?s3"
    using epoch_later [OF _ read_all [of "?s2\<lparr>phase := Reading 1 max_epoch\<rparr>" 1 max_epoch]] s(6) by simp
  then have "epoch_reach 1 0 {5} ?s4" using reach_retire [of 1 0 "{5}" ?s3 0 5] s(8,9,13) by simp
  moreover have "garbage_is (manager ?s4) [5]" using add_to_garbage_queue [of "manager ?s3" "[]" 5] s(3,7) by simp
  ultimately obtain em where "epoch_reach 1 0 {5} (?s4\<lparr>manager := em\<rparr>)" "5 \<in> set (mem_freed em)"
    using sweep_frees_held [of ?s4 Queue_ctor] by (auto simp: max_epoch_def word_gt_0)
  then show ?thesis by (intro exI [of _ "?s4\<lparr>manager := em\<rparr>"]) simp
qed

end
