(* ===== verification/Atomic_Stack.thy ===== *)
theory Atomic_Stack
  imports Prelude "HOL-Library.Multiset"
begin

text \<open>
  The stack of recycled node ids of the Bw-tree, \<^verbatim>\<open>src/src/indices/bw_tree/thread/atomic_stack.h\<close>: an
  array with a versioned top pointer, one thread that pushes and any number that pop. A pointer into
  the array is its index, which is -1 below the first element; \<open>None\<close> is the null pointer. First the
  operations of one thread, then the interleaving of their atomic steps as the relation
  \<open>stack_step\<close>. A push beyond the array, which the code does not check, is the error
  \<open>OutOfBounds\<close>.
\<close>

section \<open>VersionedPointer\<close>

record versioned_pointer =
  vp_ptr :: "int option"
  vp_version :: "64 word"

definition VersionedPointer_ctor :: "int option \<Rightarrow> versioned_pointer" where
  "VersionedPointer_ctor p_ptr = \<lparr>vp_ptr = p_ptr, vp_version = 0\<rparr>"

definition VersionedPointer_null :: versioned_pointer where
  "VersionedPointer_null = \<lparr>vp_ptr = None, vp_version = 0\<rparr>"

definition VersionedPointer_deref :: "'a list \<Rightarrow> versioned_pointer \<Rightarrow> 'a result" where
  "VersionedPointer_deref data p = (case vp_ptr p of None \<Rightarrow> Inl NullDeref
     | Some i \<Rightarrow> if 0 \<le> i then aget data (nat i) else Inl OutOfBounds)"

definition VersionedPointer_assign :: "'a list \<Rightarrow> versioned_pointer \<Rightarrow> 'a \<Rightarrow> 'a list result" where
  "VersionedPointer_assign data p x = (case vp_ptr p of None \<Rightarrow> Inl NullDeref
     | Some i \<Rightarrow> if 0 \<le> i then aset data (nat i) x else Inl OutOfBounds)"

definition VersionedPointer_dec :: "versioned_pointer \<Rightarrow> versioned_pointer" where
  "VersionedPointer_dec p = p\<lparr>vp_ptr := map_option (\<lambda>i. i - 1) (vp_ptr p)\<rparr>"

definition VersionedPointer_post_dec :: "versioned_pointer \<Rightarrow> versioned_pointer \<times> versioned_pointer" where
  "VersionedPointer_post_dec p = (let vp = p in (vp, p\<lparr>vp_ptr := map_option (\<lambda>i. i - 1) (vp_ptr p)\<rparr>))"

definition VersionedPointer_inc :: "versioned_pointer \<Rightarrow> versioned_pointer" where
  "VersionedPointer_inc p = p\<lparr>vp_ptr := map_option (\<lambda>i. i + 1) (vp_ptr p)\<rparr>"

definition VersionedPointer_post_inc :: "versioned_pointer \<Rightarrow> versioned_pointer \<times> versioned_pointer" where
  "VersionedPointer_post_inc p = (let vp = p in (vp, p\<lparr>vp_ptr := map_option (\<lambda>i. i + 1) (vp_ptr p)\<rparr>))"

definition VersionedPointer_minus :: "versioned_pointer \<Rightarrow> int \<Rightarrow> int result" where
  "VersionedPointer_minus p target = (case vp_ptr p of None \<Rightarrow> Inl NullDeref | Some i \<Rightarrow> Inr (i - target))"

definition VersionedPointer_eq :: "versioned_pointer \<Rightarrow> int option \<Rightarrow> bool" where
  "VersionedPointer_eq p target = (target = vp_ptr p)"

definition VersionedPointer_less :: "versioned_pointer \<Rightarrow> int \<Rightarrow> bool" where
  "VersionedPointer_less p target = (case vp_ptr p of None \<Rightarrow> True | Some i \<Rightarrow> i < target)"

definition VersionedPointer_ToNextVersion :: "versioned_pointer \<Rightarrow> versioned_pointer" where
  "VersionedPointer_ToNextVersion p = p\<lparr>vp_version := vp_version p + 1\<rparr>"

lemmas vp_defs = VersionedPointer_ctor_def VersionedPointer_null_def VersionedPointer_deref_def VersionedPointer_assign_def
  VersionedPointer_dec_def VersionedPointer_post_dec_def VersionedPointer_inc_def VersionedPointer_post_inc_def
  VersionedPointer_eq_def VersionedPointer_less_def VersionedPointer_ToNextVersion_def

section \<open>AtomicStack, one thread\<close>

record 'a atomic_stack =
  stk_data :: "'a list"
  top_p :: versioned_pointer
  buffer :: "'a list"

definition AtomicStack_ctor :: "'a list \<Rightarrow> 'a atomic_stack" where
  "AtomicStack_ctor junk = \<lparr>stk_data = junk, top_p = VersionedPointer_ctor (Some (- 1)), buffer = []\<rparr>"

definition AtomicStack_PreparePush :: "'a atomic_stack \<Rightarrow> versioned_pointer \<times> 'a atomic_stack" where
  "AtomicStack_PreparePush s = (top_p s, s\<lparr>top_p := VersionedPointer_ctor None\<rparr>)"

definition AtomicStack_SingleThreadBufferPush :: "'a atomic_stack \<Rightarrow> 'a \<Rightarrow> 'a atomic_stack" where
  "AtomicStack_SingleThreadBufferPush s item = s\<lparr>buffer := buffer s @ [item]\<rparr>"

definition AtomicStack_SingleThreadPush :: "'a atomic_stack \<Rightarrow> 'a \<Rightarrow> 'a atomic_stack result" where
  "AtomicStack_SingleThreadPush s item =
     (let (snapshot_top_p, s1) = AtomicStack_PreparePush s;
          snapshot1 = VersionedPointer_inc snapshot_top_p
      in bindR (VersionedPointer_assign (stk_data s1) snapshot1 item) (\<lambda>d.
         Inr (s1\<lparr>stk_data := d, top_p := VersionedPointer_ToNextVersion snapshot1\<rparr>)))"

fun commit_loop :: "'a list \<Rightarrow> versioned_pointer \<Rightarrow> 'a list \<Rightarrow> ('a list \<times> versioned_pointer) result" where
  "commit_loop d p [] = Inr (d, p)"
| "commit_loop d p (item # items) =
     bindR (VersionedPointer_assign d (VersionedPointer_inc p) item) (\<lambda>d'. commit_loop d' (VersionedPointer_inc p) items)"

definition AtomicStack_SingleThreadCommitPush :: "'a atomic_stack \<Rightarrow> 'a atomic_stack result" where
  "AtomicStack_SingleThreadCommitPush s =
     (let (snapshot_top_p, s1) = AtomicStack_PreparePush s
      in bindR (commit_loop (stk_data s1) snapshot_top_p (buffer s1)) (\<lambda>(d, p).
         Inr (s1\<lparr>stk_data := d, top_p := VersionedPointer_ToNextVersion p, buffer := []\<rparr>)))"

text \<open>The pointer a pop installs: one element down, one version up.\<close>

definition pop_target :: "versioned_pointer \<Rightarrow> versioned_pointer" where
  "pop_target snapshot_top_p = VersionedPointer_ToNextVersion (snd (VersionedPointer_post_dec snapshot_top_p))"

text \<open>Without interference the compare-and-swap of the first iteration succeeds; \<open>dflt\<close> is \<^verbatim>\<open>T{}\<close>.\<close>

definition AtomicStack_Pop :: "'a \<Rightarrow> 'a atomic_stack \<Rightarrow> ((bool \<times> 'a) \<times> 'a atomic_stack) result" where
  "AtomicStack_Pop dflt s =
     (let snapshot_top_p = top_p s
      in if VersionedPointer_eq snapshot_top_p None then Inr ((False, dflt), s)
         else if VersionedPointer_less snapshot_top_p 0 then Inr ((False, dflt), s)
         else bindR (VersionedPointer_deref (stk_data s) snapshot_top_p) (\<lambda>x.
              Inr ((True, x), s\<lparr>top_p := pop_target snapshot_top_p\<rparr>)))"

text \<open>The contents from bottom to top.\<close>

definition stack_items :: "'a atomic_stack \<Rightarrow> 'a list" where
  "stack_items s = take (nat (the (vp_ptr (top_p s)) + 1)) (stk_data s)"

definition stack_ok :: "'a atomic_stack \<Rightarrow> bool" where
  "stack_ok s \<longleftrightarrow> (\<exists>i. vp_ptr (top_p s) = Some i \<and> - 1 \<le> i \<and> i < int (length (stk_data s)))"

lemma commit_loop_eq:
  "vp_ptr p = Some i \<Longrightarrow> - 1 \<le> i \<Longrightarrow> i + int (length items) < int (length d) \<Longrightarrow>
     \<exists>d'. commit_loop d p items = Inr (d', p\<lparr>vp_ptr := Some (i + int (length items))\<rparr>) \<and> length d' = length d
       \<and> take (nat (i + int (length items) + 1)) d' = take (nat (i + 1)) d @ items"
proof (induction items arbitrary: d p i)
  case (Cons x items)
  let ?p = "VersionedPointer_inc p" and ?d = "d[nat (i + 1) := x]"
  have b: "nat (i + 1) < length d" using Cons.prems(2,3) by simp
  have a: "VersionedPointer_assign d ?p x = Inr ?d"
    using Cons.prems b by (simp add: vp_defs aset_def)
  have p: "vp_ptr ?p = Some (i + 1)" using Cons.prems(1) by (simp add: VersionedPointer_inc_def)
  obtain d' where d': "commit_loop ?d ?p items = Inr (d', ?p\<lparr>vp_ptr := Some (i + 1 + int (length items))\<rparr>)" "length d' = length ?d"
      "take (nat (i + 1 + int (length items) + 1)) d' = take (nat (i + 1 + 1)) ?d @ items"
    using Cons.IH [OF p, of ?d] Cons.prems(2,3) by auto
  have "nat (i + 1 + 1) = Suc (nat (i + 1))" using Cons.prems(2) by simp
  then have "take (nat (i + 1 + 1)) ?d = take (nat (i + 1)) d @ [x]" using b by (simp add: take_Suc_conv_app_nth)
  moreover have "?p\<lparr>vp_ptr := X\<rparr> = p\<lparr>vp_ptr := X\<rparr>" for X by (simp add: VersionedPointer_inc_def)
  ultimately show ?case using a d' by (simp add: algebra_simps)
qed auto

text \<open>
  Committing the buffer pushes its elements in order, and the pops that follow return them in the
  reverse order: pop after commit gives back the last buffered element.
\<close>

theorem stack_commit_then_pop:
  assumes "stack_ok s" "length (stack_items s) + length (buffer s) < length (stk_data s)" "buffer s \<noteq> []"
  shows "\<exists>s1 s2. AtomicStack_SingleThreadCommitPush s = Inr s1 \<and> stack_items s1 = stack_items s @ buffer s \<and> buffer s1 = []
    \<and> AtomicStack_Pop dflt s1 = Inr ((True, last (buffer s)), s2) \<and> stack_items s2 = stack_items s @ butlast (buffer s)"
proof -
  obtain i where i: "vp_ptr (top_p s) = Some i" "- 1 \<le> i" "i < int (length (stk_data s))" using assms(1) by (auto simp: stack_ok_def)
  let ?n = "i + int (length (buffer s))"
  have "length (stack_items s) = nat (i + 1)" using i by (simp add: stack_items_def)
  then have room: "?n < int (length (stk_data s))" using assms(2) i(2) by linarith
  obtain d where d: "commit_loop (stk_data s) (top_p s) (buffer s) = Inr (d, (top_p s)\<lparr>vp_ptr := Some ?n\<rparr>)"
      "length d = length (stk_data s)" "take (nat (?n + 1)) d = stack_items s @ buffer s"
    using commit_loop_eq [OF i(1,2) room] i(1) by (auto simp: stack_items_def)
  let ?top = "VersionedPointer_ToNextVersion ((top_p s)\<lparr>vp_ptr := Some ?n\<rparr>)"
  let ?s1 = "s\<lparr>stk_data := d, top_p := ?top, buffer := []\<rparr>"
  have c: "AtomicStack_SingleThreadCommitPush s = Inr ?s1"
    using d(1) by (simp add: AtomicStack_SingleThreadCommitPush_def AtomicStack_PreparePush_def)
  have items: "stack_items ?s1 = stack_items s @ buffer s" using d(3) by (simp add: stack_items_def VersionedPointer_ToNextVersion_def)
  have "0 < length (buffer s)" using assms(3) by simp
  then have n: "0 \<le> ?n" "nat ?n < length d" "nat (?n + 1) = Suc (nat ?n)" using i(2) room d(2) by linarith+
  have snoc: "take (nat ?n) d @ [d ! nat ?n] = (stack_items s @ butlast (buffer s)) @ [last (buffer s)]"
    using d(3) n(2,3) assms(3) by (simp add: take_Suc_conv_app_nth)
  let ?s2 = "?s1\<lparr>top_p := pop_target ?top\<rparr>"
  have "AtomicStack_Pop dflt ?s1 = Inr ((True, d ! nat ?n), ?s2)"
    using n by (simp add: AtomicStack_Pop_def vp_defs aget_def)
  moreover have "stack_items ?s2 = take (nat ?n) d" by (simp add: stack_items_def pop_target_def vp_defs)
  ultimately show ?thesis using c items snoc by auto
qed

theorem stack_commit_then_pop_witness:
  "\<exists>s1 s2. AtomicStack_SingleThreadCommitPush (AtomicStack_SingleThreadBufferPush (AtomicStack_ctor [0, 0, 0]) (7 :: nat)) = Inr s1
    \<and> AtomicStack_Pop 0 s1 = Inr ((True, 7), s2) \<and> stack_items s2 = []"
proof -
  let ?s = "AtomicStack_SingleThreadBufferPush (AtomicStack_ctor [0, 0, 0]) (7 :: nat)"
  have b: "buffer ?s = [7]" "stack_items ?s = []"
    by (simp_all add: AtomicStack_SingleThreadBufferPush_def AtomicStack_ctor_def stack_items_def vp_defs)
  have "stack_ok ?s" "length (stack_items ?s) + length (buffer ?s) < length (stk_data ?s)" "buffer ?s \<noteq> []"
    by (simp_all add: b) (simp_all add: stack_ok_def AtomicStack_SingleThreadBufferPush_def AtomicStack_ctor_def vp_defs)
  from stack_commit_then_pop [OF this, of 0] show ?thesis by (auto simp: b)
qed

section \<open>One producer, many consumers\<close>

text \<open>
  Where a popping thread stands: before its load, with a snapshot of the top pointer, or with the
  snapshot and the element read through it. The producer is idle or fills the slots above its
  snapshot. The lists of items pushed and popped so far and the number of changes of the top
  pointer are not part of the program.
\<close>

datatype 'a pop_pc = PopIdle | PopLoaded versioned_pointer | PopRead versioned_pointer 'a

datatype 'a push_pc = PushIdle | PushWriting versioned_pointer "'a list"

record 'a stack_state =
  shared :: "'a atomic_stack"
  poppers :: "nat \<Rightarrow> 'a pop_pc"
  pusher :: "'a push_pc"
  pushed :: "'a list"
  popped :: "'a list"
  changes :: nat

definition stack_init :: "'a list \<Rightarrow> 'a stack_state" where
  "stack_init junk = \<lparr>shared = AtomicStack_ctor junk, poppers = (\<lambda>_. PopIdle), pusher = PushIdle, pushed = [], popped = [], changes = 0\<rparr>"

inductive stack_step :: "'a stack_state \<Rightarrow> 'a stack_state \<Rightarrow> bool" where
  pop_load: "poppers s i = PopIdle \<Longrightarrow> stack_step s (s\<lparr>poppers := (poppers s)(i := PopLoaded (top_p (shared s)))\<rparr>)"
| pop_empty: "poppers s i = PopLoaded p \<Longrightarrow> VersionedPointer_eq p None \<or> VersionedPointer_less p 0 \<Longrightarrow>
    stack_step s (s\<lparr>poppers := (poppers s)(i := PopIdle)\<rparr>)"
| pop_read: "poppers s i = PopLoaded p \<Longrightarrow> \<not> VersionedPointer_eq p None \<Longrightarrow> \<not> VersionedPointer_less p 0 \<Longrightarrow>
    VersionedPointer_deref (stk_data (shared s)) p = Inr x \<Longrightarrow> stack_step s (s\<lparr>poppers := (poppers s)(i := PopRead p x)\<rparr>)"
| pop_cas: "poppers s i = PopRead p x \<Longrightarrow> top_p (shared s) = p \<Longrightarrow>
    stack_step s (s\<lparr>poppers := (poppers s)(i := PopIdle), shared := (shared s)\<lparr>top_p := pop_target p\<rparr>,
      popped := popped s @ [x], changes := Suc (changes s)\<rparr>)"
| pop_retry: "poppers s i = PopRead p x \<Longrightarrow> top_p (shared s) \<noteq> p \<Longrightarrow>
    stack_step s (s\<lparr>poppers := (poppers s)(i := PopLoaded (top_p (shared s)))\<rparr>)"
| push_begin: "pusher s = PushIdle \<Longrightarrow> AtomicStack_PreparePush (shared s) = (p, sh) \<Longrightarrow>
    stack_step s (s\<lparr>pusher := PushWriting p items, shared := sh\<rparr>)"
| push_write: "pusher s = PushWriting p (x # items) \<Longrightarrow>
    VersionedPointer_assign (stk_data (shared s)) (VersionedPointer_inc p) x = Inr d \<Longrightarrow>
    stack_step s (s\<lparr>pusher := PushWriting (VersionedPointer_inc p) items, shared := (shared s)\<lparr>stk_data := d\<rparr>, pushed := pushed s @ [x]\<rparr>)"
| push_end: "pusher s = PushWriting p [] \<Longrightarrow>
    stack_step s (s\<lparr>pusher := PushIdle, shared := (shared s)\<lparr>top_p := VersionedPointer_ToNextVersion p\<rparr>, changes := Suc (changes s)\<rparr>)"

inductive stack_reachable :: "'a list \<Rightarrow> 'a stack_state \<Rightarrow> bool" for junk where
  start: "stack_reachable junk (stack_init junk)"
| step: "stack_reachable junk s \<Longrightarrow> stack_step s s' \<Longrightarrow> stack_reachable junk s'"

text \<open>The pointer that delimits the items: the shared one or, during a push, the producer's.\<close>

definition cursor :: "'a stack_state \<Rightarrow> versioned_pointer" where
  "cursor s = (case pusher s of PushIdle \<Rightarrow> top_p (shared s) | PushWriting p _ \<Rightarrow> p)"

definition snapshot_ok :: "'a stack_state \<Rightarrow> versioned_pointer \<Rightarrow> bool" where
  "snapshot_ok s p \<longleftrightarrow> vp_ptr p = None \<or> (\<exists>m i c. vp_ptr p = Some i \<and> vp_ptr (cursor s) = Some c \<and> m \<le> changes s \<and> vp_version p = of_nat m
     \<and> (m = changes s \<longrightarrow> i \<le> c))"

definition read_ok :: "'a stack_state \<Rightarrow> versioned_pointer \<Rightarrow> 'a \<Rightarrow> bool" where
  "read_ok s p x \<longleftrightarrow> (\<exists>m i c. vp_ptr p = Some i \<and> vp_ptr (cursor s) = Some c \<and> 0 \<le> i \<and> m \<le> changes s \<and> vp_version p = of_nat m
     \<and> (m = changes s \<longrightarrow> i \<le> c \<and> x = stk_data (shared s) ! nat i))"

definition stack_inv :: "'a stack_state \<Rightarrow> bool" where
  "stack_inv s \<longleftrightarrow> (\<exists>c. vp_ptr (cursor s) = Some c \<and> - 1 \<le> c \<and> c < int (length (stk_data (shared s)))
       \<and> mset (popped s) + mset (take (nat (c + 1)) (stk_data (shared s))) = mset (pushed s))
     \<and> vp_version (cursor s) = of_nat (changes s)
     \<and> (pusher s \<noteq> PushIdle \<longrightarrow> vp_ptr (top_p (shared s)) = None)
     \<and> (\<forall>i p. poppers s i = PopLoaded p \<longrightarrow> snapshot_ok s p)
     \<and> (\<forall>i p x. poppers s i = PopRead p x \<longrightarrow> read_ok s p x)"

lemma stack_inv_init: "junk \<noteq> [] \<Longrightarrow> stack_inv (stack_init junk)"
  by (simp add: stack_inv_def stack_init_def cursor_def AtomicStack_ctor_def vp_defs)

lemma snapshot_of_top:
  assumes "stack_inv s"
  shows "snapshot_ok s (top_p (shared s))"
proof (cases "pusher s = PushIdle")
  case True
  then have "top_p (shared s) = cursor s" by (simp add: cursor_def)
  then show ?thesis using assms by (auto simp: stack_inv_def snapshot_ok_def)
next
  case False
  then show ?thesis using assms by (simp add: stack_inv_def snapshot_ok_def)
qed

lemma snapshot_ok_later:
  assumes "snapshot_ok s p" "changes s < changes s'" "\<exists>c. vp_ptr (cursor s') = Some c"
  shows "snapshot_ok s' p"
  using assms by (fastforce simp: snapshot_ok_def)

lemma read_ok_later:
  assumes "read_ok s p x" "changes s < changes s'" "\<exists>c. vp_ptr (cursor s') = Some c"
  shows "read_ok s' p x"
proof -
  obtain m i where m: "vp_ptr p = Some i" "0 \<le> i" "m \<le> changes s" "vp_version p = of_nat m" using assms(1) by (auto simp: read_ok_def)
  moreover have "m \<le> changes s'" "m \<noteq> changes s'" using m(3) assms(2) by simp_all
  ultimately show ?thesis using assms(3) unfolding read_ok_def by blast
qed

lemma of_nat_version_inj:
  assumes "(of_nat m :: 64 word) = of_nat n" "m \<le> n" "n < 2 ^ 64"
  shows "m = n"
proof -
  have self: "unat (of_nat k :: 64 word) = k" if "k < 2 ^ 64" for k :: nat
    unfolding unsigned_of_nat using that by (simp add: take_bit_nat_eq_self)
  have "m < 2 ^ 64" using assms(2,3) by (rule le_less_trans)
  then have "m = unat (of_nat m :: 64 word)" by (rule self [symmetric])
  also have "\<dots> = unat (of_nat n :: 64 word)" by (simp only: assms(1))
  also have "\<dots> = n" using assms(3) by (rule self)
  finally show ?thesis .
qed

lemma stack_step_changes: "stack_step s s' \<Longrightarrow> changes s \<le> changes s'"
  by (induction rule: stack_step.induct) auto

lemma pop_cas_inv:
  assumes inv: "stack_inv s" and few: "changes s < 2 ^ 64" and p: "poppers s i = PopRead p x" "top_p (shared s) = p"
  shows "stack_inv (s\<lparr>poppers := (poppers s)(i := PopIdle), shared := (shared s)\<lparr>top_p := pop_target p\<rparr>,
      popped := popped s @ [x], changes := Suc (changes s)\<rparr>)" (is "stack_inv ?s")
proof -
  obtain m j c where r: "vp_ptr p = Some j" "vp_ptr (cursor s) = Some c" "0 \<le> j" "m \<le> changes s" "vp_version p = of_nat m"
      "m = changes s \<longrightarrow> j \<le> c \<and> x = stk_data (shared s) ! nat j"
    using inv p(1) unfolding stack_inv_def read_ok_def by blast
  have idle: "pusher s = PushIdle" using inv p(2) r(1) unfolding stack_inv_def by auto
  then have cur: "cursor s = p" using p(2) by (simp add: cursor_def)
  have "vp_version p = of_nat (changes s)" using inv cur by (simp add: stack_inv_def)
  then have "(of_nat m :: 64 word) = of_nat (changes s)" using r(5) by simp
  then have "m = changes s" using r(4) few by (rule of_nat_version_inj)
  then have x: "x = stk_data (shared s) ! nat j" using r(6) by simp
  have jl: "j < int (length (stk_data (shared s)))"
      "mset (popped s) + mset (take (nat (j + 1)) (stk_data (shared s))) = mset (pushed s)"
    using inv cur r(1) unfolding stack_inv_def by auto
  have cur': "cursor ?s = pop_target p" "vp_ptr (pop_target p) = Some (j - 1)" "vp_version (pop_target p) = of_nat (Suc (changes s))"
    using idle r(1) \<open>vp_version p = of_nat (changes s)\<close> by (simp_all add: cursor_def pop_target_def vp_defs)
  have "nat (j + 1) = Suc (nat j)" using r(3) by simp
  then have "take (nat (j + 1)) (stk_data (shared s)) = take (nat j) (stk_data (shared s)) @ [x]"
    using jl(1) r(3) x by (simp add: take_Suc_conv_app_nth)
  then have bal: "mset (popped ?s) + mset (take (nat (j - 1 + 1)) (stk_data (shared ?s))) = mset (pushed ?s)" using jl(2) by simp
  have later: "changes s < changes ?s" "\<exists>c. vp_ptr (cursor ?s) = Some c" using cur' by simp_all
  have "snapshot_ok ?s q" if "poppers ?s k = PopLoaded q" for k q
  proof -
    have "poppers s k = PopLoaded q" using that by (simp split: if_splits)
    then show ?thesis using snapshot_ok_later [OF _ later] inv unfolding stack_inv_def by blast
  qed
  moreover have "read_ok ?s q y" if "poppers ?s k = PopRead q y" for k q y
  proof -
    have "poppers s k = PopRead q y" using that by (simp split: if_splits)
    then show ?thesis using read_ok_later [OF _ later] inv unfolding stack_inv_def by blast
  qed
  ultimately show ?thesis unfolding stack_inv_def cur' using bal jl(1) r(3) idle by simp
qed

text \<open>Steps that leave array, cursor and counter alone keep every other thread's snapshot.\<close>

lemma snapshot_frame:
  assumes "cursor s' = cursor s" "changes s' = changes s" "stk_data (shared s') = stk_data (shared s)"
  shows "snapshot_ok s' p = snapshot_ok s p" "read_ok s' p x = read_ok s p x"
  using assms by (simp_all add: snapshot_ok_def read_ok_def)

lemma popper_step_inv:
  assumes inv: "stack_inv s"
    and pc: "case pc of PopIdle \<Rightarrow> True | PopLoaded p \<Rightarrow> snapshot_ok s p | PopRead p x \<Rightarrow> read_ok s p x"
  shows "stack_inv (s\<lparr>poppers := (poppers s)(i := pc)\<rparr>)"
proof -
  let ?s = "s\<lparr>poppers := (poppers s)(i := pc)\<rparr>"
  have same: "cursor ?s = cursor s" "changes ?s = changes s" "stk_data (shared ?s) = stk_data (shared s)"
    by (simp_all add: cursor_def split: push_pc.split)
  have "snapshot_ok s p" if "poppers ?s k = PopLoaded p" for k p
    using that pc inv by (cases "k = i") (auto simp: stack_inv_def)
  moreover have "read_ok s p x" if "poppers ?s k = PopRead p x" for k p x
    using that pc inv by (cases "k = i") (auto simp: stack_inv_def)
  ultimately show ?thesis using inv unfolding stack_inv_def snapshot_frame [OF same] same by simp
qed

lemma push_write_inv:
  assumes inv: "stack_inv s" and w: "pusher s = PushWriting p (x # items)"
    and d: "VersionedPointer_assign (stk_data (shared s)) (VersionedPointer_inc p) x = Inr d"
  shows "stack_inv (s\<lparr>pusher := PushWriting (VersionedPointer_inc p) items, shared := (shared s)\<lparr>stk_data := d\<rparr>, pushed := pushed s @ [x]\<rparr>)"
    (is "stack_inv ?s")
proof -
  have cur: "cursor s = p" using w by (simp add: cursor_def)
  obtain c where c: "vp_ptr p = Some c" "- 1 \<le> c" "c < int (length (stk_data (shared s)))"
      "mset (popped s) + mset (take (nat (c + 1)) (stk_data (shared s))) = mset (pushed s)"
    using inv cur unfolding stack_inv_def by auto
  have dd: "nat (c + 1) < length (stk_data (shared s))" "d = (stk_data (shared s))[nat (c + 1) := x]"
    using d c(1,2) by (auto simp: vp_defs aset_def split: if_splits)
  have cur': "cursor ?s = VersionedPointer_inc p" "vp_ptr (VersionedPointer_inc p) = Some (c + 1)" "vp_version (VersionedPointer_inc p) = vp_version p"
    using c(1) by (simp_all add: cursor_def VersionedPointer_inc_def)
  have "nat (c + 1 + 1) = Suc (nat (c + 1))" using c(2) by simp
  then have "take (nat (c + 1 + 1)) d = take (nat (c + 1)) (stk_data (shared s)) @ [x]"
    using dd by (simp add: take_Suc_conv_app_nth)
  then have bal: "mset (popped ?s) + mset (take (nat (c + 1 + 1)) (stk_data (shared ?s))) = mset (pushed ?s)" using c(4) by (simp flip: c(4))
  have keep: "stk_data (shared ?s) ! nat j = stk_data (shared s) ! nat j" if "j \<le> c" "0 \<le> j" for j using that c(2) by (simp add: dd(2))
  have "snapshot_ok ?s q" if "snapshot_ok s q" for q
    using that c(1) unfolding snapshot_ok_def cur cur' by fastforce
  moreover have "read_ok ?s q y" if "read_ok s q y" for q y
  proof -
    obtain m j where r: "vp_ptr q = Some j" "0 \<le> j" "m \<le> changes s" "vp_version q = of_nat m"
        "m = changes s \<longrightarrow> j \<le> c \<and> y = stk_data (shared s) ! nat j"
      using \<open>read_ok s q y\<close> c(1) cur unfolding read_ok_def by auto
    moreover have "m = changes ?s \<longrightarrow> j \<le> c + 1 \<and> y = stk_data (shared ?s) ! nat j" using r keep by auto
    ultimately show ?thesis unfolding read_ok_def cur' by auto
  qed
  moreover have "int (length (stk_data (shared s))) > c + 1" using dd(1) c(2) by linarith
  ultimately show ?thesis
    using inv w bal c(2) unfolding stack_inv_def cur' cur by (simp add: dd(2))
qed

lemma stack_step_inv:
  assumes "stack_step s s'" "stack_inv s" "changes s' < 2 ^ 64"
  shows "stack_inv s'"
  using assms
proof (induction rule: stack_step.induct)
  case (pop_load s i)
  then show ?case using popper_step_inv [of s "PopLoaded (top_p (shared s))" i] snapshot_of_top [of s] by simp
next
  case (pop_empty s i p)
  then show ?case using popper_step_inv [of s PopIdle i] by simp
next
  case (pop_read s i p x)
  have "snapshot_ok s p" using pop_read by (auto simp: stack_inv_def)
  moreover have "vp_ptr p \<noteq> None" using pop_read(2) by (auto simp: VersionedPointer_eq_def)
  ultimately obtain m j c where sn: "vp_ptr p = Some j" "vp_ptr (cursor s) = Some c" "m \<le> changes s" "vp_version p = of_nat m" "m = changes s \<longrightarrow> j \<le> c"
    by (auto simp: snapshot_ok_def)
  have "0 \<le> j" "x = stk_data (shared s) ! nat j"
    using pop_read(3,4) sn(1) by (auto simp: VersionedPointer_less_def VersionedPointer_deref_def aget_def split: if_splits)
  then have "read_ok s p x" using sn unfolding read_ok_def by blast
  then show ?case using popper_step_inv [of s "PopRead p x" i] pop_read by simp
next
  case (pop_cas s i p x)
  then show ?case using pop_cas_inv [of s i p x] by simp
next
  case (pop_retry s i p x)
  then show ?case using popper_step_inv [of s "PopLoaded (top_p (shared s))" i] snapshot_of_top [of s] by simp
next
  case (push_begin s p sh items)
  let ?s = "s\<lparr>pusher := PushWriting p items, shared := sh\<rparr>"
  have sh: "p = top_p (shared s)" "sh = (shared s)\<lparr>top_p := VersionedPointer_ctor None\<rparr>"
    using push_begin(2) by (simp_all add: AtomicStack_PreparePush_def)
  have same: "cursor ?s = cursor s" "changes ?s = changes s" "stk_data (shared ?s) = stk_data (shared s)"
    using push_begin(1) sh by (simp_all add: cursor_def)
  have "vp_ptr (top_p sh) = None" by (simp add: sh VersionedPointer_ctor_def)
  then show ?case using push_begin(3) unfolding stack_inv_def snapshot_frame [OF same] same by simp
next
  case (push_write s p x items d)
  then show ?case using push_write_inv [of s p x items d] by simp
next
  case (push_end s p)
  let ?s = "s\<lparr>pusher := PushIdle, shared := (shared s)\<lparr>top_p := VersionedPointer_ToNextVersion p\<rparr>, changes := Suc (changes s)\<rparr>"
  have cur: "cursor s = p" using push_end(1) by (simp add: cursor_def)
  have cur': "cursor ?s = VersionedPointer_ToNextVersion p" "vp_ptr (VersionedPointer_ToNextVersion p) = vp_ptr p"
      "vp_version (VersionedPointer_ToNextVersion p) = vp_version p + 1" by (simp_all add: cursor_def VersionedPointer_ToNextVersion_def)
  have later: "changes s < changes ?s" "\<exists>c. vp_ptr (cursor ?s) = Some c"
    using push_end(2) cur cur' by (auto simp: stack_inv_def)
  have "snapshot_ok ?s q" if "poppers s k = PopLoaded q" for k q
    using snapshot_ok_later [OF _ later] push_end(2) that unfolding stack_inv_def by blast
  moreover have "read_ok ?s q y" if "poppers s k = PopRead q y" for k q y
    using read_ok_later [OF _ later] push_end(2) that unfolding stack_inv_def by blast
  ultimately show ?case using push_end(2) unfolding stack_inv_def cur' cur by simp
qed

lemma stack_reachable_inv: "stack_reachable junk s \<Longrightarrow> junk \<noteq> [] \<Longrightarrow> changes s < 2 ^ 64 \<Longrightarrow> stack_inv s"
proof (induction rule: stack_reachable.induct)
  case start
  then show ?case by (simp add: stack_inv_init)
next
  case (step s s')
  then show ?case using stack_step_inv [of s s'] stack_step_changes [of s s'] by simp
qed

text \<open>
  C20. No item is lost and none is handed out twice: under every interleaving of one producer with any
  number of popping threads, what was pushed is exactly what was popped together with what is still
  on the stack, as long as the 64-bit version has not come round. The versions are what makes this
  hold: a popper whose snapshot is stale fails its compare-and-swap even when the pointer is the
  same again.
\<close>

theorem stack_conserves_items:
  assumes "stack_reachable junk s" "junk \<noteq> []" "changes s < 2 ^ 64" "pusher s = PushIdle"
  shows "mset (pushed s) = mset (popped s) + mset (stack_items (shared s))"
  using stack_reachable_inv [OF assms(1-3)] assms(4) by (auto simp: stack_inv_def cursor_def stack_items_def)

theorem stack_conserves_items_witness:
  "\<exists>s. stack_reachable [0, 0] s \<and> pushed s = [7 :: nat] \<and> mset (pushed s) = mset (popped s) + mset (stack_items (shared s))"
proof -
  let ?s0 = "stack_init [0, 0 :: nat]"
  let ?p = "VersionedPointer_ctor (Some (- 1))"
  let ?s1 = "?s0\<lparr>pusher := PushWriting ?p [7], shared := (shared ?s0)\<lparr>top_p := VersionedPointer_ctor None\<rparr>\<rparr>"
  let ?s2 = "?s1\<lparr>pusher := PushWriting (VersionedPointer_inc ?p) [], shared := (shared ?s1)\<lparr>stk_data := [7, 0]\<rparr>, pushed := pushed ?s1 @ [7]\<rparr>"
  let ?s3 = "?s2\<lparr>pusher := PushIdle, shared := (shared ?s2)\<lparr>top_p := VersionedPointer_ToNextVersion (VersionedPointer_inc ?p)\<rparr>, changes := Suc (changes ?s2)\<rparr>"
  have "stack_step ?s0 ?s1" by (rule push_begin) (simp_all add: stack_init_def AtomicStack_PreparePush_def AtomicStack_ctor_def)
  then have r1: "stack_reachable [0, 0] ?s1" by (rule step [OF start])
  have "stack_step ?s1 ?s2"
    by (rule push_write) (simp_all add: stack_init_def AtomicStack_ctor_def vp_defs aset_def)
  then have r2: "stack_reachable [0, 0] ?s2" by (rule step [OF r1])
  have "stack_step ?s2 ?s3" by (rule push_end) simp
  then have r3: "stack_reachable [0, 0] ?s3" by (rule step [OF r2])
  have "pushed ?s3 = [7]" "changes ?s3 < 2 ^ 64" "pusher ?s3 = PushIdle" by (simp_all add: stack_init_def)
  then show ?thesis using r3 stack_conserves_items [OF r3] by blast
qed

end
