(* ===== verification/Kpermuter.thy ===== *)
theory Kpermuter
  imports Prelude "HOL-Library.Multiset"
begin

text \<open>
  The permutation word of Masstree nodes, \<^verbatim>\<open>src/src/indices/mass_tree/thread/kpermuter.hh\<close>, in its
  64-bit variant (\<^verbatim>\<open>sized_kpermuter_info<2>\<close>, widths 8 to 15): the lowest four bits hold the size,
  the next fifteen groups of four bits a permutation of the slots. A shift by \<^verbatim>\<open>i << 2\<close> is a
  shift by \<open>4 * i\<close>. The word is read as a list; the operations are shown to be list operations.
\<close>

unbundle bit_operations_syntax

type_synonym permuter = "64 word"

section \<open>The operations\<close>

definition identity_kpermuter_get :: "nat \<Rightarrow> nat" where
  "identity_kpermuter_get i = i"

definition initial_value :: permuter where
  "initial_value = 0x0123456789ABCDE0"

definition full_value :: permuter where
  "full_value = 0xEDCBA98765432100"

definition max_width :: nat where
  "max_width = 8 * 2 - 1"

definition kpermuter_make_empty :: "nat \<Rightarrow> permuter" where
  "kpermuter_make_empty width = drop_bit (4 * (max_width - width)) initial_value AND NOT 15"

definition kpermuter_make_sorted :: "nat \<Rightarrow> nat \<Rightarrow> permuter" where
  "kpermuter_make_sorted width n =
     (let m = (if n = width then 0 else push_bit (4 * n) 16) - 1
      in push_bit (4 * n) (kpermuter_make_empty width) OR (full_value AND m) OR of_nat n)"

definition kpermuter_size :: "permuter \<Rightarrow> nat" where
  "kpermuter_size x = unat (x AND 15)"

definition kpermuter_get :: "permuter \<Rightarrow> nat \<Rightarrow> nat" where
  "kpermuter_get x i = unat (drop_bit (4 * i + 4) x AND 15)"

definition kpermuter_back :: "nat \<Rightarrow> permuter \<Rightarrow> nat" where
  "kpermuter_back width x = kpermuter_get x (width - 1)"

definition kpermuter_value_from :: "permuter \<Rightarrow> nat \<Rightarrow> permuter" where
  "kpermuter_value_from x i = drop_bit (4 * (i + 1)) x"

definition kpermuter_set_size :: "permuter \<Rightarrow> nat \<Rightarrow> permuter" where
  "kpermuter_set_size x n = (x AND NOT 15) OR of_nat n"

definition kpermuter_insert_from_back :: "nat \<Rightarrow> permuter \<Rightarrow> nat \<Rightarrow> nat \<times> permuter" where
  "kpermuter_insert_from_back width x i =
     (let v = kpermuter_back width x
      in (v, ((x + 1) AND (push_bit (4 * i) 16 - 1))
             OR push_bit (4 * i + 4) (of_nat v)
             OR (push_bit 4 x AND NOT (push_bit (4 * i) 256 - 1))))"

definition kpermuter_insert_selected :: "permuter \<Rightarrow> nat \<Rightarrow> nat \<Rightarrow> permuter" where
  "kpermuter_insert_selected x di si =
     (let v = kpermuter_get x si;
          m = push_bit (4 * si) 256 - 1
      in ((x + 1) AND (push_bit (4 * di) 16 - 1))
         OR push_bit (4 * di + 4) (of_nat v)
         OR (push_bit 4 x AND m AND NOT (push_bit (4 * di) 256 - 1))
         OR (x AND NOT m))"

definition kpermuter_remove :: "permuter \<Rightarrow> nat \<Rightarrow> permuter" where
  "kpermuter_remove x i =
     (if unat (x AND 15) = i + 1 then x - 1
      else let rot_amount = 4 * (unat (x AND 15) - i - 1);
               rot_mask = push_bit (4 * (i + 1)) (push_bit rot_amount 16 - 1)
           in ((x - 1) AND NOT rot_mask)
              OR (drop_bit 4 (x AND rot_mask) AND rot_mask)
              OR (push_bit rot_amount (x AND rot_mask) AND rot_mask))"

definition kpermuter_remove_to_back :: "nat \<Rightarrow> permuter \<Rightarrow> nat \<Rightarrow> permuter" where
  "kpermuter_remove_to_back width x0 i =
     (let m = NOT (push_bit (4 * i) 16 - 1);
          x = x0 AND (push_bit (4 * width) 16 - 1)
      in ((x - 1) AND NOT m)
         OR (drop_bit 4 x AND m)
         OR push_bit (4 * (width - i - 1)) (x AND m))"

definition kpermuter_rotate :: "nat \<Rightarrow> permuter \<Rightarrow> nat \<Rightarrow> nat \<Rightarrow> permuter" where
  "kpermuter_rotate width x0 i j =
     (let m = (if i = width then 0 else push_bit (4 * i) 16) - 1;
          x = x0 AND (push_bit (4 * width) 16 - 1)
      in (x AND m)
         OR (drop_bit (4 * (j - i)) x AND NOT m)
         OR push_bit (4 * (width - j)) (x AND NOT m))"

definition kpermuter_exchange :: "permuter \<Rightarrow> nat \<Rightarrow> nat \<Rightarrow> permuter" where
  "kpermuter_exchange x i j =
     (let diff = (drop_bit (4 * i) x XOR drop_bit (4 * j) x) AND 240
      in x XOR (push_bit (4 * i) diff OR push_bit (4 * j) diff))"

fun exchange_values_loop :: "nat \<Rightarrow> nat \<Rightarrow> nat \<Rightarrow> nat \<Rightarrow> permuter \<Rightarrow> permuter \<Rightarrow> permuter" where
  "exchange_values_loop width x y 0 diff p = diff"
| "exchange_values_loop width x y (Suc rest) diff p =
     (let v = unat (drop_bit (4 * width) p AND 15);
          diff' = diff XOR (if v = x \<or> v = y then of_nat x XOR of_nat y else 0)
      in exchange_values_loop width x y rest (push_bit 4 diff') (push_bit 4 p))"

definition kpermuter_exchange_values :: "nat \<Rightarrow> permuter \<Rightarrow> nat \<Rightarrow> nat \<Rightarrow> permuter" where
  "kpermuter_exchange_values width p x y = p XOR exchange_values_loop width x y width 0 p"

text \<open>\<^verbatim>\<open>unparse\<close>: one digit per slot, a colon behind the live ones, \<^verbatim>\<open>?!\<close> when it is no permutation.\<close>

definition hex_digit :: "nat \<Rightarrow> char" where
  "hex_digit d = (if d < 10 then char_of (48 + d) else char_of (97 + d - 10))"

fun unparse_loop :: "nat \<Rightarrow> nat \<Rightarrow> nat \<Rightarrow> permuter \<Rightarrow> nat set \<Rightarrow> string \<times> nat set" where
  "unparse_loop n i 0 p seen = (if i = n then '':'' else [], seen)"
| "unparse_loop n i (Suc rest) p seen =
     (let d = unat (p AND 15);
          (s, seen') = unparse_loop n (i + 1) rest (drop_bit 4 p) (insert d seen)
      in ((if i = n then '':'' else []) @ hex_digit d # s, seen'))"

definition kpermuter_unparse :: "nat \<Rightarrow> permuter \<Rightarrow> string" where
  "kpermuter_unparse width x =
     (let (s, seen) = unparse_loop (unat (x AND 15)) 0 width (drop_bit 4 x) {}
      in if seen \<noteq> {0..<width} then s @ ''?!'' else s)"

section \<open>Groups of four bits\<close>

definition nib :: "permuter \<Rightarrow> nat \<Rightarrow> permuter" where
  "nib x j = take_bit 4 (drop_bit (4 * j) x)"

lemma bit_nib: "bit (nib x j) b \<longleftrightarrow> b < 4 \<and> bit x (4 * j + b)"
  by (auto simp: nib_def bit_take_bit_iff bit_drop_bit_eq)

lemma nib_eqI:
  assumes "\<And>b. b < 4 \<Longrightarrow> bit x (4 * j + b) = bit y (4 * k + b)"
  shows "nib x j = nib y k"
  by (rule bit_word_eqI) (use assms in \<open>auto simp: bit_nib\<close>)

lemma word_eq_nibs:
  assumes "\<forall>j < 16. nib x j = nib y j"
  shows "x = y"
proof (rule bit_word_eqI)
  fix n :: nat
  assume "n < LENGTH(64)"
  then have n: "n div 4 < 16" "4 * (n div 4) + n mod 4 = n" by simp_all
  have "bit (nib x (n div 4)) (n mod 4) = bit (nib y (n div 4)) (n mod 4)" using assms n(1) by simp
  then show "bit x n = bit y n" using n(2) by (simp add: bit_nib)
qed

lemma and_15: "x AND 15 = take_bit 4 (x :: permuter)"
  by (simp add: take_bit_eq_mask mask_eq_exp_minus_1)

lemma mask_16: "push_bit (4 * i) 16 - 1 = (mask (4 * Suc i) :: permuter)"
  by (simp add: mask_eq_exp_minus_1 push_bit_eq_mult power_add mult.commute)

lemma mask_256: "push_bit (4 * i) 256 - 1 = (mask (4 * Suc (Suc i)) :: permuter)"
  by (simp add: mask_eq_exp_minus_1 push_bit_eq_mult power_add mult.commute)

lemma size_nib: "kpermuter_size x = unat (nib x 0)"
  by (simp add: kpermuter_size_def and_15 nib_def)

lemma get_nib: "kpermuter_get x i = unat (nib x (Suc i))"
  by (simp add: kpermuter_get_def and_15 nib_def add.commute)

lemma unat_nib: "unat (nib x j) < 16"
proof -
  have "unat (nib x j) = take_bit 4 (unat (drop_bit (4 * j) x))" unfolding nib_def by (rule unsigned_take_bit_eq)
  then show ?thesis using take_bit_nat_less_exp [of 4] by simp
qed

lemma nib_or: "nib (x OR y) j = nib x j OR nib y j"
  by (rule bit_word_eqI) (auto simp: bit_nib bit_or_iff)

lemma nib_xor: "nib (x XOR y) j = nib x j XOR nib y j"
  by (rule bit_word_eqI) (auto simp: bit_nib bit_xor_iff)

lemma nib_and_mask: "nib (x AND mask (4 * m)) j = (if j < m then nib x j else 0)"
  by (rule bit_word_eqI) (auto simp: bit_nib bit_and_iff bit_mask_iff dest: bit_imp_le_length)

lemma nib_and_not_mask: "j < 16 \<Longrightarrow> nib (x AND NOT (mask (4 * m))) j = (if j < m then 0 else nib x j)"
  by (rule bit_word_eqI) (auto simp: bit_nib bit_and_iff bit_mask_iff bit_not_iff)

lemma nib_push: "j < 16 \<Longrightarrow> nib (push_bit (4 * m) x) j = (if j < m then 0 else nib x (j - m))"
proof (rule bit_word_eqI)
  fix b
  assume j: "j < 16"
  show "bit (nib (push_bit (4 * m) x) j) b = bit (if j < m then 0 else nib x (j - m)) b"
  proof (cases "b < 4 \<and> m \<le> j")
    case True
    then have "4 * m \<le> 4 * j + b" "4 * j + b - 4 * m = 4 * (j - m) + b" "4 * j + b < 64" using j by linarith+
    then show ?thesis using True by (simp only: bit_nib bit_push_bit_iff) (simp add: bit_nib)
  next
    case False
    then show ?thesis by (auto simp: bit_nib bit_push_bit_iff)
  qed
qed

lemma nib_drop: "nib (drop_bit (4 * m) x) j = nib x (j + m)"
  by (rule bit_word_eqI) (auto simp: bit_nib bit_drop_bit_eq algebra_simps)

lemma nib_beyond: "16 \<le> j \<Longrightarrow> nib x j = 0"
  by (rule bit_word_eqI) (auto simp: bit_nib dest: bit_imp_le_length)

lemma nib_small:
  assumes "unat v < 16"
  shows "nib v j = (if j = 0 then v else 0)"
proof -
  have "take_bit 4 v = v"
  proof (rule word_unat_eq_iff [THEN iffD2])
    show "unat (take_bit 4 v) = unat v" unfolding unsigned_take_bit_eq using assms by (simp add: take_bit_nat_eq_self)
  qed
  then have hi: "\<not> bit v b" if "4 \<le> b" for b using that by (metis bit_take_bit_iff not_less)
  show ?thesis by (rule bit_word_eqI) (auto simp: bit_nib hi, metis hi not_less)
qed

lemma unat_nib_eq: "unat (nib x j) = unat x div 16 ^ j mod 16"
proof -
  have "unat (drop_bit (4 * j) x) = unat x div 2 ^ (4 * j)"
    unfolding unat_drop_bit_eq by (rule drop_bit_eq_div)
  moreover have "unat (nib x j) = unat (drop_bit (4 * j) x) mod 16" unfolding nib_def unsigned_take_bit_eq by (simp add: take_bit_eq_mod)
  ultimately show ?thesis by (simp add: power_mult)
qed

lemma div_pow_Suc: "(u :: nat) div 16 ^ Suc j = u div 16 div 16 ^ j"
  by (simp add: div_mult2_eq)

lemma nib_plus1:
  assumes "unat (nib x 0) < 15"
  shows "nib (x + 1) j = (if j = 0 then nib x 0 + 1 else nib x j)"
proof (rule word_unat_eq_iff [THEN iffD2])
  have lt: "unat x mod 16 < 15" using assms by (simp add: unat_nib_eq)
  have "unat x < 2 ^ 64" using unsigned_less [of x] by simp
  moreover have "unat x + 1 \<noteq> 2 ^ 64"
  proof
    assume "unat x + 1 = 2 ^ 64"
    then have "unat x mod 16 = (2 ^ 64 - 1) mod 16" by simp
    then show False using lt by simp
  qed
  ultimately have sum: "unat (x + 1) = unat x + 1" by (simp add: unat_word_ariths)
  have one: "unat (nib x 0 + 1) = unat (nib x 0) + 1" using assms by (simp add: unat_word_ariths)
  have "(unat x + 1) mod 16 = unat x mod 16 + 1" using lt by (simp add: mod_Suc)
  moreover have "(unat x + 1) div 16 = unat x div 16"
  proof -
    have "unat x + 1 = (unat x mod 16 + 1) + unat x div 16 * 16" by simp
    then have "(unat x + 1) div 16 = unat x div 16 + (unat x mod 16 + 1) div 16" by (metis div_mult_self1 zero_neq_numeral)
    then show ?thesis using lt by simp
  qed
  ultimately show "unat (nib (x + 1) j) = unat (if j = 0 then nib x 0 + 1 else nib x j)"
    using sum one by (cases j) (simp_all add: unat_nib_eq div_mult2_eq)
qed

lemma nib_minus1:
  assumes "0 < unat (nib x 0)"
  shows "nib (x - 1) j = (if j = 0 then nib x 0 - 1 else nib x j)"
proof -
  have "unat (x - 1) = unat x - 1"
  proof -
    have "x \<noteq> 0" using assms by (auto simp: nib_def)
    then show ?thesis by (simp add: unat_minus_one)
  qed
  moreover have nz: "unat x mod 16 \<noteq> 0" using assms by (simp add: unat_nib_eq)
  moreover from nz obtain v where "unat x = Suc v" by (cases "unat x") auto
  ultimately have m: "unat (x - 1) mod 16 = unat x mod 16 - 1" by (auto simp: mod_Suc split: if_splits)
  have "unat (nib (x - 1) 0) < 15" using m nz unat_nib [of x 0] by (simp add: unat_nib_eq)
  from nib_plus1 [OF this, of j] show ?thesis using nib_plus1 [OF \<open>unat (nib (x - 1) 0) < 15\<close>, of 0] by auto
qed

section \<open>The permutation as a list\<close>

definition kperm :: "nat \<Rightarrow> permuter \<Rightarrow> nat list" where
  "kperm width x = map (kpermuter_get x) [0..<width]"

lemma length_kperm [simp]: "length (kperm width x) = width"
  by (simp add: kperm_def)

lemma nth_kperm: "i < width \<Longrightarrow> kperm width x ! i = unat (nib x (Suc i))"
  by (simp add: kperm_def get_nib)

lemmas nib_simps = nib_or nib_xor nib_and_mask nib_and_not_mask nib_push nib_drop nib_beyond

lemma insert_from_back_nib:
  assumes w: "0 < width" "width \<le> 15" and i: "i < width" and room: "kpermuter_size x < 15" and j: "j < 16"
  shows "nib (snd (kpermuter_insert_from_back width x i)) j =
    (if j = 0 then nib x 0 + 1 else if j < Suc i then nib x j else if j = Suc i then nib x width else nib x (j - 1))"
proof -
  have v: "of_nat (kpermuter_back width x) = nib x width" using w by (simp add: kpermuter_back_def get_nib)
  have sm: "nib (nib x width) k = (if k = 0 then nib x width else 0)" for k by (rule nib_small) (rule unat_nib)
  have sz: "unat (nib x 0) < 15" using room by (simp add: size_nib)
  have "push_bit (4 * i + 4) y = push_bit (4 * Suc i) y" "push_bit 4 y = push_bit (4 * 1) y" for y :: permuter by (simp_all add: add.commute)
  then have "snd (kpermuter_insert_from_back width x i) = ((x + 1) AND mask (4 * Suc i)) OR push_bit (4 * Suc i) (nib x width)
      OR (push_bit (4 * 1) x AND NOT (mask (4 * Suc (Suc i))))"
    by (simp only: kpermuter_insert_from_back_def Let_def snd_conv v mask_16 mask_256)
  then show ?thesis
    using j by (simp only: nib_or nib_and_mask nib_and_not_mask nib_push nib_plus1 [OF sz] sm) auto
qed

lemma remove_to_back_nib:
  assumes w: "width \<le> 15" and i: "i < width" and sz: "0 < kpermuter_size x" and j: "j \<le> width"
  shows "nib (kpermuter_remove_to_back width x i) j =
    (if j = 0 then nib x 0 - 1 else if j < Suc i then nib x j else if j = width then nib x (Suc i) else nib x (Suc j))"
proof -
  let ?x = "x AND mask (4 * Suc width)"
  have x: "nib ?x k = (if k < Suc width then nib x k else 0)" for k by (rule nib_and_mask)
  have sz': "0 < unat (nib ?x 0)" using sz x by (simp add: size_nib)
  have "kpermuter_remove_to_back width x i = ((?x - 1) AND mask (4 * Suc i)) OR (drop_bit (4 * 1) ?x AND NOT (mask (4 * Suc i)))
      OR push_bit (4 * (width - i - 1)) (?x AND NOT (mask (4 * Suc i)))"
    by (simp add: kpermuter_remove_to_back_def Let_def mask_16 del: push_bit_numeral_minus_1)
  moreover have "j < 16" "k < 16 \<Longrightarrow> k - (width - i - 1) < 16" for k using w j by auto
  ultimately show ?thesis
    using i j w by (simp only: nib_or nib_and_mask nib_and_not_mask nib_push nib_drop nib_minus1 [OF sz'] x) auto
qed

lemma rotated_mask: "push_bit (4 * a) (push_bit (4 * b) 16 - 1) = push_bit (4 * a) (mask (4 * Suc b) :: permuter)"
  by (simp only: mask_16)

lemma nib_band:
  assumes "j < 16"
  shows "nib (x AND push_bit (4 * a) (mask (4 * k))) j = (if a \<le> j \<and> j < a + k then nib x j else 0)"
    "nib (x AND NOT (push_bit (4 * a) (mask (4 * k)))) j = (if a \<le> j \<and> j < a + k then 0 else nib x j)"
proof -
  have b: "bit (push_bit (4 * a) (mask (4 * k)) :: permuter) (4 * j + b) \<longleftrightarrow> a \<le> j \<and> j < a + k" if "b < 4" for b
    using that assms by (auto simp: bit_push_bit_iff bit_mask_iff)
  show "nib (x AND push_bit (4 * a) (mask (4 * k))) j = (if a \<le> j \<and> j < a + k then nib x j else 0)"
    by (rule bit_word_eqI) (use b in \<open>auto simp: bit_nib bit_and_iff\<close>)
  show "nib (x AND NOT (push_bit (4 * a) (mask (4 * k)))) j = (if a \<le> j \<and> j < a + k then 0 else nib x j)"
    by (rule bit_word_eqI) (use b assms in \<open>auto simp: bit_nib bit_and_iff bit_not_iff\<close>)
qed

lemma remove_nib:
  assumes i: "i < kpermuter_size x" and j: "j < 16"
  shows "nib (kpermuter_remove x i) j =
    (if j = 0 then nib x 0 - 1 else if j < Suc i \<or> kpermuter_size x < j then nib x j
     else if j = kpermuter_size x then nib x (Suc i) else nib x (Suc j))"
proof -
  let ?n = "kpermuter_size x"
  have n: "unat (x AND 15) = ?n" by (simp add: kpermuter_size_def)
  have sz: "0 < unat (nib x 0)" using i by (simp add: size_nib)
  have n15: "?n < 16" using unat_nib [of x 0] by (simp add: size_nib)
  show ?thesis
  proof (cases "?n = i + 1")
    case True
    then show ?thesis using nib_minus1 [OF sz, of j] n by (auto simp: kpermuter_remove_def)
  next
    case False
    define k where "k = ?n - i - 1"
    have k: "0 < k" "i + k + 1 = ?n" using False i by (simp_all add: k_def)
    let ?m = "push_bit (4 * (i + 1)) (mask (4 * Suc k)) :: permuter"
    have eq: "kpermuter_remove x i = ((x - 1) AND NOT ?m) OR (drop_bit (4 * 1) (x AND ?m) AND ?m) OR (push_bit (4 * k) (x AND ?m) AND ?m)"
      unfolding kpermuter_remove_def n Let_def k_def [symmetric] mask_16 using False by simp
    have j': "j - k < 16" "nib y (Suc j) = (if Suc j < 16 then nib y (Suc j) else 0)" for y using j by (auto simp: nib_beyond)
    have dr: "nib (drop_bit (4 * 1) (x AND ?m)) j = (if Suc j < 16 \<and> i + 1 \<le> Suc j \<and> Suc j < i + 1 + Suc k then nib x (Suc j) else 0)"
      unfolding nib_drop using nib_band(1) [of "Suc j" x "i + 1" "Suc k"] by (cases "Suc j < 16") (auto simp: nib_beyond)
    have up: "nib (push_bit (4 * k) (x AND ?m)) j = (if k \<le> j \<and> i + 1 \<le> j - k \<and> j - k < i + 1 + Suc k then nib x (j - k) else 0)"
      using nib_push [OF j, of k "x AND ?m"] nib_band(1) [OF j'(1), of x "i + 1" "Suc k"] by auto
    have "?n - k = Suc i" using k by simp
    then show ?thesis unfolding eq nib_or nib_band [OF j] dr up nib_minus1 [OF sz] using k j n15 by auto
  qed
qed

lemma rotate_nib:
  assumes w: "width \<le> 15" and ij: "i \<le> j" "j \<le> width" and k: "k \<le> width"
  shows "nib (kpermuter_rotate width x i j) k =
    (if k < Suc i then nib x k else if k \<le> width - (j - i) then nib x (k + (j - i)) else nib x (k - (width - j)))"
proof -
  let ?x = "x AND mask (4 * Suc width)"
  have x: "nib ?x n = (if n < Suc width then nib x n else 0)" for n by (rule nib_and_mask)
  have m: "(if i = width then 0 else push_bit (4 * i) 16) - 1 = (if i = width then - 1 else mask (4 * Suc i) :: permuter)"
    by (simp add: mask_16)
  have k16: "k < 16" "k - (width - j) < 16" using w k by simp_all
  show ?thesis
  proof (cases "i = width")
    case True
    then have "kpermuter_rotate width x i j = ?x" using ij by (simp add: kpermuter_rotate_def Let_def mask_16)
    then show ?thesis using True k x by auto
  next
    case False
    then have "kpermuter_rotate width x i j = (?x AND mask (4 * Suc i)) OR (drop_bit (4 * (j - i)) ?x AND NOT (mask (4 * Suc i)))
        OR push_bit (4 * (width - j)) (?x AND NOT (mask (4 * Suc i)))"
      unfolding kpermuter_rotate_def Let_def m mask_16 by simp
    then show ?thesis
      using ij k k16 by (simp only: nib_or nib_and_mask nib_and_not_mask nib_push nib_drop x) auto
  qed
qed

lemma exchange_nib:
  assumes i: "i < 15" and j: "j < 15" and k: "k < 16"
  shows "nib (kpermuter_exchange x i j) k = (if k = Suc i then nib x (Suc j) else if k = Suc j then nib x (Suc i) else nib x k)"
proof -
  define d where "d = (drop_bit (4 * i) x XOR drop_bit (4 * j) x) AND push_bit (4 * 1) (mask (4 * 1))"
  have "(240 :: permuter) = push_bit (4 * 1) (mask (4 * 1))" by (simp add: mask_eq_exp_minus_1)
  then have eq: "kpermuter_exchange x i j = x XOR (push_bit (4 * i) d OR push_bit (4 * j) d)" by (simp only: kpermuter_exchange_def Let_def d_def)
  have dn: "nib d m = (if m = 1 then nib x (Suc i) XOR nib x (Suc j) else 0)" if "m < 16" for m
    unfolding d_def nib_band(1) [OF that] nib_xor nib_drop by auto
  have lt: "k - i < 16" "k - j < 16" using k by simp_all
  have p: "nib (push_bit (4 * i) d) k = (if k = Suc i then nib x (Suc i) XOR nib x (Suc j) else 0)"
    "nib (push_bit (4 * j) d) k = (if k = Suc j then nib x (Suc i) XOR nib x (Suc j) else 0)"
    unfolding nib_push [OF k] dn [OF lt(1)] dn [OF lt(2)] by auto
  show ?thesis unfolding eq nib_xor nib_or p by (auto simp: xor.assoc [symmetric]) (simp_all add: xor.commute xor.left_commute)
qed

lemma kpermuter_insert_list:
  assumes "width \<le> 15" "i < width" "kpermuter_size x < width"
  shows "fst (kpermuter_insert_from_back width x i) = last (kperm width x)
    \<and> kperm width (snd (kpermuter_insert_from_back width x i)) = insert_at i (last (kperm width x)) (butlast (kperm width x))
    \<and> kpermuter_size (snd (kpermuter_insert_from_back width x i)) = Suc (kpermuter_size x)"
proof -
  have w: "0 < width" "kpermuter_size x < 15" using assms by simp_all
  note nb = insert_from_back_nib [OF w(1) assms(1,2) w(2)]
  have l: "last (kperm width x) = unat (nib x width)" using w(1) nth_kperm [of "width - 1" width x] by (simp add: last_conv_nth flip: length_greater_0_conv)
  have "kperm width (snd (kpermuter_insert_from_back width x i)) = insert_at i (last (kperm width x)) (butlast (kperm width x))"
  proof (rule nth_equalityI)
    fix j
    assume "j < length (kperm width (snd (kpermuter_insert_from_back width x i)))"
    then have j: "j < width" by simp
    have n: "nib (snd (kpermuter_insert_from_back width x i)) (Suc j) = (if j < i then nib x (Suc j) else if j = i then nib x width else nib x j)"
      using nb [of "Suc j"] j assms(1) by auto
    have "j - 1 < width - 1" if "i < j" using that j by simp
    moreover have "j < width - 1" if "j < i" using that assms(2) by simp
    ultimately show "kperm width (snd (kpermuter_insert_from_back width x i)) ! j = insert_at i (last (kperm width x)) (butlast (kperm width x)) ! j"
      unfolding nth_kperm [OF j] n l using j assms(2) by (subst nth_insert_at) (auto simp: nth_butlast nth_kperm)
  qed (use w(1) in simp)
  moreover have "unat (nib x 0 + 1) = Suc (unat (nib x 0))" using w(2) by (simp add: size_nib unat_word_ariths)
  then have "kpermuter_size (snd (kpermuter_insert_from_back width x i)) = Suc (kpermuter_size x)" using nb [of 0] by (simp add: size_nib)
  moreover have "fst (kpermuter_insert_from_back width x i) = last (kperm width x)"
    using l w(1) by (simp add: kpermuter_insert_from_back_def kpermuter_back_def get_nib Let_def)
  ultimately show ?thesis by blast
qed

text \<open>
  Inserting takes the last free slot of the permutation and puts it at the given position: the
  slots as a list lose their last element, which reappears at position \<open>i\<close>, the elements before it
  stay and those behind it move up by one, and the size grows by one.
\<close>

theorem kpermuter_insert_moves_back:
  assumes "width \<le> 15" "i < width" "kpermuter_size x < width"
  shows "fst (kpermuter_insert_from_back width x i) = last (kperm width x)
    \<and> kperm width (snd (kpermuter_insert_from_back width x i)) = insert_at i (last (kperm width x)) (butlast (kperm width x))
    \<and> kpermuter_size (snd (kpermuter_insert_from_back width x i)) = Suc (kpermuter_size x)"
  by (rule kpermuter_insert_list [OF assms])

lemma make_sorted_3: "last (kperm 15 (kpermuter_make_sorted 15 3)) = 3" "kpermuter_size (kpermuter_make_sorted 15 3) = 3"
  by code_simp+

theorem kpermuter_insert_moves_back_witness:
  "fst (kpermuter_insert_from_back 15 (kpermuter_make_sorted 15 3) 1) = 3
    \<and> kpermuter_size (snd (kpermuter_insert_from_back 15 (kpermuter_make_sorted 15 3) 1)) = 4"
  using kpermuter_insert_moves_back [of 15 1 "kpermuter_make_sorted 15 3"] by (simp add: make_sorted_3)

text \<open>
  Removing to the back undoes inserting from the back, bit for bit: for the full width of fifteen
  the word is restored exactly, whatever position was used.
\<close>

theorem kpermuter_remove_undoes_insert:
  assumes "i < 15" "kpermuter_size x < 15"
  shows "kpermuter_remove_to_back 15 (snd (kpermuter_insert_from_back 15 x i)) i = x"
proof (rule word_eq_nibs, intro allI impI)
  let ?y = "snd (kpermuter_insert_from_back 15 x i)"
  fix j :: nat
  assume j: "j < 16"
  have ins: "nib ?y k = (if k = 0 then nib x 0 + 1 else if k < Suc i then nib x k else if k = Suc i then nib x 15 else nib x (k - 1))"
    if "k < 16" for k using insert_from_back_nib [of 15 i x k] that assms by simp
  have "unat (nib x 0 + 1) = Suc (unat (nib x 0))" using assms(2) by (simp add: size_nib unat_word_ariths)
  then have sz: "0 < kpermuter_size ?y" using ins [of 0] by (simp add: size_nib)
  have "nib (kpermuter_remove_to_back 15 ?y i) j =
      (if j = 0 then nib ?y 0 - 1 else if j < Suc i then nib ?y j else if j = 15 then nib ?y (Suc i) else nib ?y (Suc j))"
    using remove_to_back_nib [of 15 i ?y j] sz assms(1) j by simp
  then show "nib (kpermuter_remove_to_back 15 ?y i) j = nib x j" using ins j assms(1) by auto
qed

theorem kpermuter_remove_undoes_insert_witness:
  "kpermuter_remove_to_back 15 (snd (kpermuter_insert_from_back 15 (kpermuter_make_sorted 15 3) 1)) 1 = kpermuter_make_sorted 15 3"
  by (rule kpermuter_remove_undoes_insert) (simp_all add: make_sorted_3)

lemma kperm_remove_to_back:
  assumes "width \<le> 15" "i < width" "0 < kpermuter_size x"
  shows "kperm width (kpermuter_remove_to_back width x i) = take i (kperm width x) @ drop (Suc i) (kperm width x) @ [kperm width x ! i]"
proof (rule nth_equalityI)
  fix j
  assume "j < length (kperm width (kpermuter_remove_to_back width x i))"
  then have j: "j < width" by simp
  have n: "nib (kpermuter_remove_to_back width x i) (Suc j) = (if j < i then nib x (Suc j) else if Suc j = width then nib x (Suc i) else nib x (Suc (Suc j)))"
    using remove_to_back_nib [OF assms, of "Suc j"] j by auto
  show "kperm width (kpermuter_remove_to_back width x i) ! j = (take i (kperm width x) @ drop (Suc i) (kperm width x) @ [kperm width x ! i]) ! j"
    unfolding nth_kperm [OF j] n using j assms(2) by (auto simp: nth_append nth_kperm)
qed (use assms in simp)

lemma kperm_remove:
  assumes "width \<le> 15" "i < kpermuter_size x" "kpermuter_size x \<le> width"
  shows "kperm width (kpermuter_remove x i) = take i (kperm width x) @ drop (Suc i) (take (kpermuter_size x) (kperm width x))
    @ kperm width x ! i # drop (kpermuter_size x) (kperm width x)"
proof (rule nth_equalityI)
  let ?n = "kpermuter_size x"
  fix j
  assume "j < length (kperm width (kpermuter_remove x i))"
  then have j: "j < width" by simp
  have n: "nib (kpermuter_remove x i) (Suc j) = (if j < i \<or> ?n \<le> j then nib x (Suc j) else if Suc j = ?n then nib x (Suc i) else nib x (Suc (Suc j)))"
    using remove_nib [OF assms(2), of "Suc j"] j assms(1) by auto
  show "kperm width (kpermuter_remove x i) ! j = (take i (kperm width x) @ drop (Suc i) (take ?n (kperm width x)) @ kperm width x ! i # drop ?n (kperm width x)) ! j"
    unfolding nth_kperm [OF j] n using j assms by (auto simp: nth_append nth_kperm nth_Cons')
qed (use assms in auto)

lemma kperm_rotate:
  assumes "width \<le> 15" "i \<le> j" "j \<le> width"
  shows "kperm width (kpermuter_rotate width x i j) = take i (kperm width x) @ drop j (kperm width x) @ take (j - i) (drop i (kperm width x))"
proof (rule nth_equalityI)
  fix k
  assume "k < length (kperm width (kpermuter_rotate width x i j))"
  then have k: "k < width" by simp
  have n: "nib (kpermuter_rotate width x i j) (Suc k) =
      (if k < i then nib x (Suc k) else if Suc k \<le> width - (j - i) then nib x (Suc k + (j - i)) else nib x (Suc k - (width - j)))"
    using rotate_nib [OF assms, of "Suc k"] k by auto
  have e: "k - i - (width - j) + i + 1 = Suc k - (width - j)" if "\<not> k < i" "\<not> k - i < width - j" using that assms k by simp
  show "kperm width (kpermuter_rotate width x i j) ! k = (take i (kperm width x) @ drop j (kperm width x) @ take (j - i) (drop i (kperm width x))) ! k"
    unfolding nth_kperm [OF k] n using k assms e by (auto simp: nth_append nth_kperm algebra_simps)
qed (use assms in auto)

lemma kperm_exchange:
  assumes "width \<le> 15" "i < width" "j < width"
  shows "kperm width (kpermuter_exchange x i j) = (kperm width x)[i := kperm width x ! j, j := kperm width x ! i]"
proof (rule nth_equalityI)
  fix k
  assume "k < length (kperm width (kpermuter_exchange x i j))"
  then have k: "k < width" by simp
  show "kperm width (kpermuter_exchange x i j) ! k = (kperm width x)[i := kperm width x ! j, j := kperm width x ! i] ! k"
    using exchange_nib [of i j "Suc k" x] assms k by (auto simp: nth_kperm nth_list_update)
qed simp

section \<open>The remaining operations as list operations\<close>

lemma insert_selected_nib:
  assumes d: "di \<le> si" "si < 15" and room: "kpermuter_size x < 15" and j: "j < 16"
  shows "nib (kpermuter_insert_selected x di si) j =
    (if j = 0 then nib x 0 + 1 else if j < Suc di then nib x j else if j = Suc di then nib x (Suc si)
     else if j \<le> Suc si then nib x (j - 1) else nib x j)"
proof -
  have v: "of_nat (kpermuter_get x si) = nib x (Suc si)" by (simp add: get_nib)
  have sm: "nib (nib x (Suc si)) k = (if k = 0 then nib x (Suc si) else 0)" for k by (rule nib_small) (rule unat_nib)
  have sz: "unat (nib x 0) < 15" using room by (simp add: size_nib)
  have "push_bit (4 * di + 4) y = push_bit (4 * Suc di) y" "push_bit 4 y = push_bit (4 * 1) y" for y :: permuter by (simp_all add: add.commute)
  then have "kpermuter_insert_selected x di si = ((x + 1) AND mask (4 * Suc di)) OR push_bit (4 * Suc di) (nib x (Suc si))
      OR ((push_bit (4 * 1) x AND mask (4 * Suc (Suc si))) AND NOT (mask (4 * Suc (Suc di)))) OR (x AND NOT (mask (4 * Suc (Suc si))))"
    by (simp only: kpermuter_insert_selected_def Let_def v mask_16 mask_256 and.assoc)
  then show ?thesis
    using j d by (simp only: nib_or nib_and_mask nib_and_not_mask nib_push nib_plus1 [OF sz] sm) auto
qed

lemma kperm_insert_selected:
  assumes "width \<le> 15" "di \<le> si" "si < width" "kpermuter_size x < width"
  shows "kperm width (kpermuter_insert_selected x di si)
      = take di (kperm width x) @ kperm width x ! si # drop di (take si (kperm width x)) @ drop (Suc si) (kperm width x)"
    and "kpermuter_size (kpermuter_insert_selected x di si) = Suc (kpermuter_size x)"
proof -
  have a: "si < 15" "kpermuter_size x < 15" using assms by simp_all
  note nb = insert_selected_nib [OF assms(2) a]
  show "kperm width (kpermuter_insert_selected x di si)
      = take di (kperm width x) @ kperm width x ! si # drop di (take si (kperm width x)) @ drop (Suc si) (kperm width x)" (is "?l = ?r")
  proof (rule nth_equalityI)
    fix j
    assume "j < length ?l"
    then have j: "j < width" by simp
    have n: "nib (kpermuter_insert_selected x di si) (Suc j)
        = (if j < di then nib x (Suc j) else if j = di then nib x (Suc si) else if j \<le> si then nib x j else nib x (Suc j))"
      using nb [of "Suc j"] j assms(1) by auto
    have e: "di + (j - di - 1) = j - 1" "Suc (j - 1) = j" if "di < j" using that by simp_all
    have f: "Suc si + (j - di - 1 - (si - di)) = j" if "si < j" using that assms(2) by simp
    show "?l ! j = ?r ! j"
      unfolding nth_kperm [OF j] n using j assms e f by (auto simp: nth_append nth_Cons' nth_kperm min_def not_less not_le)
  qed (use assms in simp)
  have "unat (nib x 0 + 1) = Suc (unat (nib x 0))" using a(2) by (simp add: size_nib unat_word_ariths)
  then show "kpermuter_size (kpermuter_insert_selected x di si) = Suc (kpermuter_size x)" using nb [of 0] by (simp add: size_nib)
qed

text \<open>The loop of \<^verbatim>\<open>exchange_values\<close> collects, slot by slot from the last, the bits in which the two values differ.\<close>

definition value_diff :: "nat \<Rightarrow> nat \<Rightarrow> nat \<Rightarrow> permuter" where
  "value_diff x y v = (if v = x \<or> v = y then of_nat x XOR of_nat y else 0)"

lemma value_diff_swap: "of_nat v XOR value_diff a b v = of_nat (if v = a then b else if v = b then a else v)"
proof -
  have "x XOR (x XOR y) = y" "y XOR (x XOR y) = x" for x y :: permuter
    by (rule bit_word_eqI, auto simp: bit_xor_iff)+
  then show ?thesis by (auto simp: value_diff_def)
qed

lemma take_bit_small: "v < 16 \<Longrightarrow> take_bit 4 (of_nat v :: permuter) = of_nat v"
  by (rule word_unat_eq_iff [THEN iffD2]) (simp add: unsigned_take_bit_eq unat_of_nat take_bit_nat_eq_self)

lemma nib_value_diff: "x < 16 \<Longrightarrow> y < 16 \<Longrightarrow> nib (value_diff x y v) j = (if j = 0 then value_diff x y v else 0)"
proof (rule nib_small)
  assume "x < 16" "y < 16"
  then have "take_bit 4 (value_diff x y v) = value_diff x y v" by (simp add: value_diff_def take_bit_xor take_bit_small)
  then show "unat (value_diff x y v) < 16" using unat_nib [of "value_diff x y v" 0] by (simp add: nib_def)
qed

lemma exchange_values_loop_nib:
  assumes "x < 16" "y < 16" "width \<le> 15"
  shows "rest \<le> width \<Longrightarrow> j < 16 \<Longrightarrow> nib (exchange_values_loop width x y rest diff p) j =
    (if rest \<le> j then nib diff (j - rest) else 0)
      XOR (if 1 \<le> j \<and> j \<le> rest then value_diff x y (unat (nib p (width - (rest - j)))) else 0)"
proof (induction rest arbitrary: diff p)
  case (Suc rest)
  define d where "d = push_bit (4 * 1) (diff XOR value_diff x y (unat (nib p width)))"
  define q where "q = push_bit (4 * 1) p"
  have step: "exchange_values_loop width x y (Suc rest) diff p = exchange_values_loop width x y rest d q"
    by (simp add: d_def q_def value_diff_def Let_def nib_def and_15)
  have d: "nib d k = (if k = 0 then 0 else nib diff (k - 1) XOR (if k = 1 then value_diff x y (unat (nib p width)) else 0))" if "k < 16" for k
    using nib_push [OF that, of 1 "diff XOR value_diff x y (unat (nib p width))"] nib_value_diff [OF assms(1,2)]
    by (auto simp: d_def nib_xor)
  have q: "nib q k = (if k = 0 then 0 else nib p (k - 1))" if "k < 16" for k
    using nib_push [OF that, of 1 p] by (auto simp: q_def)
  have "j - rest < 16" "width - (rest - j) < 16" using Suc.prems assms(3) by simp_all
  note dq = d [OF this(1)] q [OF this(2)]
  have e: "width - (rest - j) - 1 = width - (Suc rest - j)" "width - (rest - j) \<noteq> 0" if "1 \<le> j" "j \<le> rest" using that Suc.prems by simp_all
  have f: "j - rest - 1 = j - Suc rest" by simp
  show ?case unfolding step Suc.IH [OF Suc_leD [OF Suc.prems(1)] Suc.prems(2)] dq
    using Suc.prems e f by (auto simp: not_le le_Suc_eq)
qed auto

lemma exchange_values_nib:
  assumes "a < 16" "b < 16" "width \<le> 15" "j < 16"
  shows "nib (kpermuter_exchange_values width x a b) j =
    nib x j XOR (if 1 \<le> j \<and> j \<le> width then value_diff a b (unat (nib x j)) else 0)"
proof -
  have "nib (0 :: permuter) k = 0" for k by (simp add: nib_def)
  moreover have "width - (width - j) = j" if "j \<le> width" using that by simp
  ultimately show ?thesis
    using exchange_values_loop_nib [OF assms(1-3), of width j 0 x] assms(4) by (simp add: kpermuter_exchange_values_def nib_xor)
qed

lemma kperm_exchange_values:
  assumes "width \<le> 15" "a < width" "b < width"
  shows "kperm width (kpermuter_exchange_values width x a b) = map (\<lambda>v. if v = a then b else if v = b then a else v) (kperm width x)"
    and "kpermuter_size (kpermuter_exchange_values width x a b) = kpermuter_size x"
proof -
  have ab: "a < 16" "b < 16" using assms by simp_all
  note nb = exchange_values_nib [OF ab assms(1)]
  have u: "unat (of_nat v :: permuter) = v" if "v < 16" for v using that by (simp add: unat_of_nat)
  show "kperm width (kpermuter_exchange_values width x a b) = map (\<lambda>v. if v = a then b else if v = b then a else v) (kperm width x)"
  proof (rule nth_equalityI)
    fix j
    assume "j < length (kperm width (kpermuter_exchange_values width x a b))"
    then have j: "j < width" by simp
    let ?v = "nib x (Suc j)"
    have "nib (kpermuter_exchange_values width x a b) (Suc j) = ?v XOR value_diff a b (unat ?v)" using nb [of "Suc j"] j assms(1) by simp
    moreover have "?v XOR value_diff a b (unat ?v) = of_nat (if unat ?v = a then b else if unat ?v = b then a else unat ?v)"
      using value_diff_swap [of "unat ?v" a b] by simp
    ultimately have "unat (nib (kpermuter_exchange_values width x a b) (Suc j)) = (if unat ?v = a then b else if unat ?v = b then a else unat ?v)"
      using u [OF ab(1)] u [OF ab(2)] u [OF unat_nib] by simp
    then show "kperm width (kpermuter_exchange_values width x a b) ! j = map (\<lambda>v. if v = a then b else if v = b then a else v) (kperm width x) ! j"
      using j by (simp add: nth_kperm)
  qed simp
  show "kpermuter_size (kpermuter_exchange_values width x a b) = kpermuter_size x" using nb [of 0 x] by (simp add: size_nib)
qed

lemma set_size_nib: "n < 16 \<Longrightarrow> j < 16 \<Longrightarrow> nib (kpermuter_set_size x n) j = (if j = 0 then of_nat n else nib x j)"
proof -
  assume n: "n < 16" and j: "j < 16"
  have "unat (of_nat n :: permuter) < 16" using n by (simp add: unat_of_nat)
  moreover have "(15 :: permuter) = mask (4 * 1)" by (simp add: mask_eq_exp_minus_1)
  ultimately show ?thesis using j by (simp only: kpermuter_set_size_def nib_or nib_and_not_mask nib_small) auto
qed

lemma kperm_set_size:
  assumes "width \<le> 15" "n < 16"
  shows "kperm width (kpermuter_set_size x n) = kperm width x" "kpermuter_size (kpermuter_set_size x n) = n"
proof -
  show "kperm width (kpermuter_set_size x n) = kperm width x"
    using set_size_nib [OF assms(2), of _ x] assms(1) by (intro nth_equalityI) (simp_all add: nth_kperm)
  show "kpermuter_size (kpermuter_set_size x n) = n" using set_size_nib [OF assms(2), of 0 x] assms(2) by (simp add: size_nib unat_of_nat)
qed

text \<open>The words a permuter starts with.\<close>

lemma constant_nibs: "k < 16 \<Longrightarrow> nib initial_value k = of_nat (if k = 0 then 0 else 15 - k)" "k < 16 \<Longrightarrow> nib full_value k = of_nat (k - 1)"
proof -
  have "list_all (\<lambda>k. nib initial_value k = of_nat (if k = 0 then 0 else 15 - k) \<and> nib full_value k = of_nat (k - 1)) [0..<16]"
    by code_simp
  then have "\<forall>k \<in> {0..<16}. nib initial_value k = of_nat (if k = 0 then 0 else 15 - k) \<and> nib full_value k = of_nat (k - 1)"
    by (simp only: list_all_iff set_upt)
  moreover have "k \<in> {0..<16}" if "k < 16" using that by simp
  ultimately show "k < 16 \<Longrightarrow> nib initial_value k = of_nat (if k = 0 then 0 else 15 - k)" "k < 16 \<Longrightarrow> nib full_value k = of_nat (k - 1)"
    by blast+
qed

lemma make_empty_nib:
  assumes "width \<le> 15" "j \<le> width"
  shows "nib (kpermuter_make_empty width) j = of_nat (if j = 0 then 0 else width - j)"
proof -
  have "(15 :: permuter) = mask (4 * 1)" by (simp add: mask_eq_exp_minus_1)
  then have "kpermuter_make_empty width = drop_bit (4 * (15 - width)) initial_value AND NOT (mask (4 * 1))"
    by (simp only: kpermuter_make_empty_def max_width_def) simp
  then have "nib (kpermuter_make_empty width) j = (if j < 1 then 0 else nib initial_value (j + (15 - width)))"
    using assms by (simp only: nib_and_not_mask nib_drop)
  moreover have "j + (15 - width) < 16" "15 - (j + (15 - width)) = width - j" using assms by linarith+
  ultimately show ?thesis using constant_nibs(1) [of "j + (15 - width)"] assms by (cases "j = 0") simp_all
qed

lemma make_sorted_nib:
  assumes "width \<le> 15" "n \<le> width" "j \<le> width"
  shows "nib (kpermuter_make_sorted width n) j = of_nat (if j = 0 then n else if j \<le> n then j - 1 else width - (j - n))"
proof -
  have m: "(if n = width then 0 else push_bit (4 * n) 16) - 1 = (if n = width then - 1 else mask (4 * Suc n) :: permuter)"
    by (simp add: mask_16)
  have j: "j < 16" using assms by simp
  have full: "nib (full_value AND (if n = width then - 1 else mask (4 * Suc n))) j = (if j \<le> n then of_nat (j - 1) else 0)"
    using j constant_nibs(2) [OF j] assms(3) by (auto simp: nib_and_mask less_Suc_eq_le simp del: mult_Suc_right)
  have "unat (of_nat n :: permuter) < 16" using assms by (simp add: unat_of_nat)
  then have size: "nib (of_nat n) j = (if j = 0 then of_nat n else 0)" by (rule nib_small)
  have up: "nib (push_bit (4 * n) (kpermuter_make_empty width)) j = (if j \<le> n then 0 else of_nat (width - (j - n)))"
    using nib_push [OF j, of n] make_empty_nib [OF assms(1), of "j - n"] assms(3) by auto
  show ?thesis
    unfolding kpermuter_make_sorted_def Let_def m nib_or full size up by auto
qed

lemma kperm_make_sorted:
  assumes "width \<le> 15" "n \<le> width"
  shows "kperm width (kpermuter_make_sorted width n) = [0..<n] @ rev [n..<width]" "kpermuter_size (kpermuter_make_sorted width n) = n"
proof -
  have u: "unat (of_nat v :: permuter) = v" if "v < 16" for v using that by (simp add: unat_of_nat)
  show "kperm width (kpermuter_make_sorted width n) = [0..<n] @ rev [n..<width]"
  proof (rule nth_equalityI)
    fix i
    assume "i < length (kperm width (kpermuter_make_sorted width n))"
    then have i: "i < width" by simp
    have "nib (kpermuter_make_sorted width n) (Suc i) = of_nat (if i < n then i else width - (Suc i - n))"
      using make_sorted_nib [OF assms, of "Suc i"] i by auto
    moreover have "(if i < n then i else width - (Suc i - n)) < 16" using i assms by auto
    ultimately have "kperm width (kpermuter_make_sorted width n) ! i = (if i < n then i else width - (Suc i - n))"
      using nth_kperm [OF i] u by simp
    then show "kperm width (kpermuter_make_sorted width n) ! i = ([0..<n] @ rev [n..<width]) ! i"
      using i assms by (auto simp: nth_append rev_nth)
  qed (use assms in simp)
  show "kpermuter_size (kpermuter_make_sorted width n) = n" using make_sorted_nib [OF assms, of 0] u [of n] assms by (simp add: size_nib)
qed

lemma kperm_make_empty:
  assumes "width \<le> 15"
  shows "kperm width (kpermuter_make_empty width) = rev [0..<width]" "kpermuter_size (kpermuter_make_empty width) = 0"
proof -
  have "unat (of_nat v :: permuter) = v" if "v < 16" for v using that by (simp add: unat_of_nat)
  then show "kperm width (kpermuter_make_empty width) = rev [0..<width]"
    using make_empty_nib [OF assms] assms by (intro nth_equalityI) (auto simp: nth_kperm rev_nth simp del: of_nat_diff)
  show "kpermuter_size (kpermuter_make_empty width) = 0" using make_empty_nib [OF assms, of 0] by (simp add: size_nib)
qed

section \<open>The invariant\<close>

text \<open>A permuter of the given width with \<open>n\<close> live slots.\<close>

definition kpermuter_ok :: "nat \<Rightarrow> nat \<Rightarrow> permuter \<Rightarrow> bool" where
  "kpermuter_ok width n x \<longleftrightarrow> mset (kperm width x) = mset [0..<width] \<and> kpermuter_size x = n \<and> n \<le> width"

lemma mset_insert_at: "mset (insert_at k v xs) = add_mset v (mset xs)"
proof -
  have "mset (insert_at k v xs) = add_mset v (mset (take k xs @ drop k xs))" by (simp only: insert_at_def mset_append) simp
  then show ?thesis by (simp only: append_take_drop_id)
qed

lemma mset_pick: "i < length xs \<Longrightarrow> mset (take i xs) + add_mset (xs ! i) (mset (drop (Suc i) xs)) = mset xs"
proof -
  assume "i < length xs"
  then have "mset (take i xs @ xs ! i # drop (Suc i) xs) = mset xs" by (simp only: id_take_nth_drop [symmetric])
  then show ?thesis by simp
qed

lemma mset_cut: "i \<le> j \<Longrightarrow> mset (take i xs) + (mset (drop i (take j xs)) + mset (drop j xs)) = mset xs"
proof -
  assume "i \<le> j"
  then have "take i xs @ drop i (take j xs) @ drop j xs = take j xs @ drop j xs"
    by (metis append_assoc append_take_drop_id min.absorb1 take_take)
  then have "mset (take i xs @ drop i (take j xs) @ drop j xs) = mset xs" by simp
  then show ?thesis by simp
qed

lemma insert_keeps:
  assumes "width \<le> 15" "kpermuter_ok width n x" "n < width"
  shows "i < width \<Longrightarrow> kpermuter_ok width (Suc n) (snd (kpermuter_insert_from_back width x i))"
    and "di \<le> si \<Longrightarrow> si < width \<Longrightarrow> kpermuter_ok width (Suc n) (kpermuter_insert_selected x di si)"
proof -
  have x: "mset (kperm width x) = mset [0..<width]" "kpermuter_size x = n" using assms(2) by (simp_all add: kpermuter_ok_def)
  have ne: "kperm width x \<noteq> []" using assms(3) by (auto simp flip: length_greater_0_conv)
  have "add_mset (last (kperm width x)) (mset (butlast (kperm width x))) = mset (butlast (kperm width x) @ [last (kperm width x)])" by simp
  then show "i < width \<Longrightarrow> kpermuter_ok width (Suc n) (snd (kpermuter_insert_from_back width x i))"
    using kpermuter_insert_list [OF assms(1), of i x] ne x assms(3) by (simp add: kpermuter_ok_def mset_insert_at)
  assume d: "di \<le> si" "si < width"
  have "mset (take di (kperm width x) @ kperm width x ! si # drop di (take si (kperm width x)) @ drop (Suc si) (kperm width x)) = mset (kperm width x)"
    using mset_pick [of si "kperm width x", symmetric] mset_cut [OF d(1), of "take si (kperm width x)", symmetric] d
    by (simp add: min_def ac_simps)
  then show "kpermuter_ok width (Suc n) (kpermuter_insert_selected x di si)"
    using kperm_insert_selected [OF assms(1) d, of x] x assms(3) by (simp add: kpermuter_ok_def)
qed

lemma remove_keeps:
  assumes "width \<le> 15" "kpermuter_ok width n x" "i < n"
  shows "kpermuter_ok width (n - 1) (kpermuter_remove x i)" "kpermuter_ok width (n - 1) (kpermuter_remove_to_back width x i)"
proof -
  let ?l = "kperm width x"
  have x: "mset ?l = mset [0..<width]" "kpermuter_size x = n" "n \<le> width" using assms(2) by (simp_all add: kpermuter_ok_def)
  have i: "i < width" "i < kpermuter_size x" "0 < kpermuter_size x" using x assms(3) by simp_all
  have sz: "unat (nib x 0 - 1) = n - 1" using i(3) x(2) unat_minus_one [of "nib x 0"] by (cases "nib x 0 = 0") (simp_all add: size_nib)
  have "mset (kperm width (kpermuter_remove x i)) = mset (take i ?l @ drop (Suc i) (take n ?l)) + {#?l ! i#} + mset (drop n ?l)"
    using kperm_remove [OF assms(1) i(2)] x(2,3) by simp
  also have "mset (take i ?l @ drop (Suc i) (take n ?l)) + {#?l ! i#} = mset (take n ?l)"
    using mset_pick [of i "take n ?l"] x(3) assms(3) by (simp add: min_def)
  also have "mset (take n ?l) + mset (drop n ?l) = mset ?l" by (metis append_take_drop_id mset_append)
  finally show "kpermuter_ok width (n - 1) (kpermuter_remove x i)"
    using x remove_nib [OF i(2), of 0] sz by (simp add: kpermuter_ok_def size_nib)
  have "mset (kperm width (kpermuter_remove_to_back width x i)) = mset ?l"
    using mset_pick [of i ?l] i(1) by (simp add: kperm_remove_to_back [OF assms(1) i(1,3)])
  then show "kpermuter_ok width (n - 1) (kpermuter_remove_to_back width x i)"
    using x remove_to_back_nib [OF assms(1) i(1,3), of 0] sz by (simp add: kpermuter_ok_def size_nib)
qed

lemma reorder_keeps:
  assumes "width \<le> 15" "kpermuter_ok width n x"
  shows "i \<le> j \<Longrightarrow> j \<le> width \<Longrightarrow> kpermuter_ok width n (kpermuter_rotate width x i j)"
    and "i < width \<Longrightarrow> j < width \<Longrightarrow> kpermuter_ok width n (kpermuter_exchange x i j)"
    and "i < width \<Longrightarrow> j < width \<Longrightarrow> kpermuter_ok width n (kpermuter_exchange_values width x i j)"
proof -
  let ?l = "kperm width x"
  have x: "mset ?l = mset [0..<width]" "kpermuter_size x = n" "n \<le> width" using assms(2) by (simp_all add: kpermuter_ok_def)
  show "kpermuter_ok width n (kpermuter_rotate width x i j)" if "i \<le> j" "j \<le> width"
  proof -
    have "take (j - i) (drop i ?l) = drop i (take j ?l)" using that by (simp add: drop_take)
    then have "mset (kperm width (kpermuter_rotate width x i j)) = mset ?l"
      using kperm_rotate [OF assms(1) that] mset_cut [OF that(1), of ?l] by (simp add: ac_simps)
    then show ?thesis using x rotate_nib [OF assms(1) that, of 0] by (simp add: kpermuter_ok_def size_nib)
  qed
  show "kpermuter_ok width n (kpermuter_exchange x i j)" if "i < width" "j < width"
    using kperm_exchange [OF assms(1) that] mset_swap [of j ?l i] that x exchange_nib [of i j 0 x] assms(1)
    by (simp add: kpermuter_ok_def size_nib)
  show "kpermuter_ok width n (kpermuter_exchange_values width x i j)" if "i < width" "j < width"
  proof -
    let ?f = "\<lambda>v. if v = i then j else if v = j then i else v"
    have "inj_on ?f {0..<width}" by (auto simp: inj_on_def split: if_splits)
    moreover have "?f ` {0..<width} = {0..<width}" using that by (auto simp: image_iff)
    ultimately have "distinct (map ?f [0..<width])" "set (map ?f [0..<width]) = set [0..<width]"
      by (simp_all only: distinct_map distinct_upt set_map set_upt)
    then have "mset (map ?f [0..<width]) = mset [0..<width]" by (metis distinct_upt set_eq_iff_mset_eq_distinct)
    moreover have "mset (map ?f ?l) = mset (map ?f [0..<width])" by (simp only: mset_map x(1))
    ultimately show ?thesis using x kperm_exchange_values [OF assms(1) that, of x] by (simp add: kpermuter_ok_def)
  qed
qed

text \<open>
  C30. Every operation keeps the word a permutation of all slots with the right number of live ones. The two words a
  permuter starts with are permutations; an insertion, from the back or of a selected slot, adds one live slot, also to
  an empty permuter; the removals take one away; rotating, exchanging two positions and exchanging two values reorder the
  slots; setting the size leaves them in place. The positions are those the source asks for, and the slot that is
  inserted comes from behind its new place.
\<close>

theorem kpermuter_stays_permutation:
  assumes "width \<le> 15"
  shows "kpermuter_ok width 0 (kpermuter_make_empty width) \<and> (\<forall>n \<le> width. kpermuter_ok width n (kpermuter_make_sorted width n))
    \<and> (\<forall>n x. kpermuter_ok width n x \<longrightarrow>
        (\<forall>m \<le> width. kpermuter_ok width m (kpermuter_set_size x m))
      \<and> (\<forall>i. n < width \<and> i < width \<longrightarrow> kpermuter_ok width (Suc n) (snd (kpermuter_insert_from_back width x i)))
      \<and> (\<forall>di si. n < width \<and> di \<le> si \<and> si < width \<longrightarrow> kpermuter_ok width (Suc n) (kpermuter_insert_selected x di si))
      \<and> (\<forall>i < n. kpermuter_ok width (n - 1) (kpermuter_remove x i) \<and> kpermuter_ok width (n - 1) (kpermuter_remove_to_back width x i))
      \<and> (\<forall>i j. i \<le> j \<and> j \<le> width \<longrightarrow> kpermuter_ok width n (kpermuter_rotate width x i j))
      \<and> (\<forall>i j. i < width \<and> j < width \<longrightarrow> kpermuter_ok width n (kpermuter_exchange x i j))
      \<and> (\<forall>a b. a < width \<and> b < width \<longrightarrow> kpermuter_ok width n (kpermuter_exchange_values width x a b)))"
proof (intro conjI allI impI)
  show "kpermuter_ok width 0 (kpermuter_make_empty width)" using kperm_make_empty [OF assms] by (simp add: kpermuter_ok_def)
  show "kpermuter_ok width n (kpermuter_make_sorted width n)" if "n \<le> width" for n
  proof -
    have "mset ([0..<n] @ rev [n..<width]) = mset ([0..<n] @ [n..<width])" by (simp only: mset_append mset_rev)
    also have "[0..<n] @ [n..<width] = [0..<width]" using that by (metis le0 le_add_diff_inverse upt_add_eq_append)
    finally show ?thesis using kperm_make_sorted [OF assms that] that by (simp add: kpermuter_ok_def)
  qed
  fix n x
  assume x: "kpermuter_ok width n x"
  show "kpermuter_ok width m (kpermuter_set_size x m)" if "m \<le> width" for m
    using x kperm_set_size [OF assms, of m x] that assms by (simp add: kpermuter_ok_def)
  note insert_keeps [OF assms x] remove_keeps [OF assms x] reorder_keeps [OF assms x]
  then show "kpermuter_ok width (Suc n) (snd (kpermuter_insert_from_back width x i))" if "n < width \<and> i < width" for i
    using that by blast
  show "kpermuter_ok width (Suc n) (kpermuter_insert_selected x di si)" if "n < width \<and> di \<le> si \<and> si < width" for di si
    using insert_keeps(2) [OF assms x] that by blast
  show "kpermuter_ok width (n - 1) (kpermuter_remove x i)" "kpermuter_ok width (n - 1) (kpermuter_remove_to_back width x i)" if "i < n" for i
    using remove_keeps [OF assms x that] by blast+
  show "kpermuter_ok width n (kpermuter_rotate width x i j)" if "i \<le> j \<and> j \<le> width" for i j
    using reorder_keeps(1) [OF assms x] that by blast
  show "kpermuter_ok width n (kpermuter_exchange x i j)" if "i < width \<and> j < width" for i j
    using reorder_keeps(2) [OF assms x] that by blast
  show "kpermuter_ok width n (kpermuter_exchange_values width x a b)" if "a < width \<and> b < width" for a b
    using reorder_keeps(3) [OF assms x] that by blast
qed

text \<open>The first insertion into an empty permuter, and an exchange of two slots of the result.\<close>

theorem kpermuter_stays_permutation_witness:
  "kpermuter_ok 15 1 (kpermuter_exchange_values 15 (snd (kpermuter_insert_from_back 15 (kpermuter_make_empty 15) 0)) 0 7)
    \<and> kpermuter_ok 15 2 (kpermuter_insert_selected (kpermuter_make_sorted 15 1) 0 4)"
proof -
  have w: "(15 :: nat) \<le> 15" by simp
  note keeps = kpermuter_stays_permutation [OF w]
  have "kpermuter_ok 15 (Suc 0) (snd (kpermuter_insert_from_back 15 (kpermuter_make_empty 15) 0))" using keeps by simp
  then have "kpermuter_ok 15 1 (kpermuter_exchange_values 15 (snd (kpermuter_insert_from_back 15 (kpermuter_make_empty 15) 0)) 0 7)"
    using keeps by simp
  moreover have "kpermuter_ok 15 (Suc 1) (kpermuter_insert_selected (kpermuter_make_sorted 15 1) 0 4)" using keeps by simp
  ultimately show ?thesis by (simp add: numeral_2_eq_2)
qed

text \<open>
  Rotating moves the slots between \<open>i\<close> and the end of the word, not only the live ones: with three
  live slots, rotating by one position brings a free slot among them, where the comment in the
  source promises a rotation within the live slots.
\<close>

theorem kpermuter_rotate_leaves_live_slots:
  "kpermuter_size (kpermuter_rotate 15 (kpermuter_make_sorted 15 3) 0 1) = 3
    \<and> take 3 (kperm 15 (kpermuter_make_sorted 15 3)) = [0, 1, 2]
    \<and> take 3 (kperm 15 (kpermuter_rotate 15 (kpermuter_make_sorted 15 3) 0 1)) = [1, 2, 14]"
  by code_simp

end
