(* ===== verification/Ksearch.thy ===== *)
theory Ksearch
  imports Kpermuter
begin

text \<open>
  Searching the keys of a Masstree node through its permutation,
  \<^verbatim>\<open>src/src/indices/mass_tree/thread/ksearch.hh\<close>. The comparator is a template parameter in the code:
  here \<open>cmp p\<close> is the sign of comparing the searched key with the key in slot \<open>p\<close>. The permutation
  is given by its size and its element function, as for both \<^verbatim>\<open>kpermuter\<close> and
  \<^verbatim>\<open>identity_kpermuter\<close>.
\<close>

section \<open>Binary searches\<close>

function upper_loop :: "(nat \<Rightarrow> int) \<Rightarrow> (nat \<Rightarrow> nat) \<Rightarrow> nat \<Rightarrow> nat \<Rightarrow> nat" where
  "upper_loop cmp perm l r =
     (if l < r
      then let m = (l + r) div 2; mp = perm m; c = cmp mp
           in if c < 0 then upper_loop cmp perm l m
              else if c = 0 then m + 1
              else upper_loop cmp perm (m + 1) r
      else l)"
  by pat_completeness auto
termination by (relation "measure (\<lambda>(_, _, l, r). r - l)") auto

function lower_loop :: "(nat \<Rightarrow> int) \<Rightarrow> (nat \<Rightarrow> nat) \<Rightarrow> nat \<Rightarrow> nat \<Rightarrow> nat" where
  "lower_loop cmp perm l r =
     (if l < r
      then let m = (l + r) div 2; mp = perm m; c = cmp mp
           in if c < 0 then lower_loop cmp perm l m
              else if c = 0 then m
              else lower_loop cmp perm (m + 1) r
      else l)"
  by pat_completeness auto
termination by (relation "measure (\<lambda>(_, _, l, r). r - l)") auto

text \<open>The variant that also reports the slot, or -1.\<close>

function lower_position_loop :: "(nat \<Rightarrow> int) \<Rightarrow> (nat \<Rightarrow> nat) \<Rightarrow> nat \<Rightarrow> nat \<Rightarrow> nat \<times> int" where
  "lower_position_loop cmp perm l r =
     (if l < r
      then let m = (l + r) div 2; mp = perm m; c = cmp mp
           in if c < 0 then lower_position_loop cmp perm l m
              else if c = 0 then (m, int mp)
              else lower_position_loop cmp perm (m + 1) r
      else (l, - 1))"
  by pat_completeness auto
termination by (relation "measure (\<lambda>(_, _, l, r). r - l)") auto

declare upper_loop.simps [simp del] lower_loop.simps [simp del] lower_position_loop.simps [simp del]

definition key_upper_bound_by :: "(nat \<Rightarrow> int) \<Rightarrow> (nat \<Rightarrow> nat) \<Rightarrow> nat \<Rightarrow> nat" where
  "key_upper_bound_by cmp perm psize = upper_loop cmp perm 0 psize"

definition key_lower_bound_by :: "(nat \<Rightarrow> int) \<Rightarrow> (nat \<Rightarrow> nat) \<Rightarrow> nat \<Rightarrow> nat" where
  "key_lower_bound_by cmp perm psize = lower_loop cmp perm 0 psize"

definition key_lower_bound_with_position_by :: "(nat \<Rightarrow> int) \<Rightarrow> (nat \<Rightarrow> nat) \<Rightarrow> nat \<Rightarrow> nat \<times> int" where
  "key_lower_bound_with_position_by cmp perm psize = lower_position_loop cmp perm 0 psize"

section \<open>Linear searches\<close>

function find_upper_loop :: "(nat \<Rightarrow> int) \<Rightarrow> (nat \<Rightarrow> nat) \<Rightarrow> nat \<Rightarrow> nat \<Rightarrow> nat" where
  "find_upper_loop cmp perm l r = (if l < r then if cmp (perm l) < 0 then l else find_upper_loop cmp perm (l + 1) r else l)"
  by pat_completeness auto
termination by (relation "measure (\<lambda>(_, _, l, r). r - l)") auto

function find_lower_loop :: "(nat \<Rightarrow> int) \<Rightarrow> (nat \<Rightarrow> nat) \<Rightarrow> nat \<Rightarrow> nat \<Rightarrow> nat" where
  "find_lower_loop cmp perm l r = (if l < r then if cmp (perm l) \<le> 0 then l else find_lower_loop cmp perm (l + 1) r else l)"
  by pat_completeness auto
termination by (relation "measure (\<lambda>(_, _, l, r). r - l)") auto

function find_lower_position_loop :: "(nat \<Rightarrow> int) \<Rightarrow> (nat \<Rightarrow> nat) \<Rightarrow> nat \<Rightarrow> nat \<Rightarrow> nat \<times> int" where
  "find_lower_position_loop cmp perm l r =
     (if l < r
      then let lp = perm l; c = cmp lp
           in if c < 0 then (l, - 1)
              else if c = 0 then (l, int lp)
              else find_lower_position_loop cmp perm (l + 1) r
      else (l, - 1))"
  by pat_completeness auto
termination by (relation "measure (\<lambda>(_, _, l, r). r - l)") auto

declare find_upper_loop.simps [simp del] find_lower_loop.simps [simp del] find_lower_position_loop.simps [simp del]

definition key_find_upper_bound_by :: "(nat \<Rightarrow> int) \<Rightarrow> (nat \<Rightarrow> nat) \<Rightarrow> nat \<Rightarrow> nat" where
  "key_find_upper_bound_by cmp perm psize = find_upper_loop cmp perm 0 psize"

definition key_find_lower_bound_by :: "(nat \<Rightarrow> int) \<Rightarrow> (nat \<Rightarrow> nat) \<Rightarrow> nat \<Rightarrow> nat" where
  "key_find_lower_bound_by cmp perm psize = find_lower_loop cmp perm 0 psize"

definition key_find_lower_bound_with_position_by :: "(nat \<Rightarrow> int) \<Rightarrow> (nat \<Rightarrow> nat) \<Rightarrow> nat \<Rightarrow> nat \<times> int" where
  "key_find_lower_bound_with_position_by cmp perm psize = find_lower_position_loop cmp perm 0 psize"

text \<open>
  The two families as the static members of \<^verbatim>\<open>key_bound_binary\<close> and \<^verbatim>\<open>key_bound_linear\<close>, and the
  choice between them by \<^verbatim>\<open>key_bound<max_size, method>\<close>. The variants with and without an explicit
  comparator differ only in the comparator that is passed, which is an argument here.
\<close>

record key_bound_family =
  is_binary :: bool
  bound_upper :: "(nat \<Rightarrow> int) \<Rightarrow> (nat \<Rightarrow> nat) \<Rightarrow> nat \<Rightarrow> nat"
  bound_lower :: "(nat \<Rightarrow> int) \<Rightarrow> (nat \<Rightarrow> nat) \<Rightarrow> nat \<Rightarrow> nat"
  bound_lower_with_position :: "(nat \<Rightarrow> int) \<Rightarrow> (nat \<Rightarrow> nat) \<Rightarrow> nat \<Rightarrow> nat \<times> int"

definition key_bound_binary :: key_bound_family where
  "key_bound_binary = \<lparr>is_binary = True, bound_upper = key_upper_bound_by, bound_lower = key_lower_bound_by,
     bound_lower_with_position = key_lower_bound_with_position_by\<rparr>"

definition key_bound_linear :: key_bound_family where
  "key_bound_linear = \<lparr>is_binary = False, bound_upper = key_find_upper_bound_by, bound_lower = key_find_lower_bound_by,
     bound_lower_with_position = key_find_lower_bound_with_position_by\<rparr>"

datatype bound_method = bound_method_fast | bound_method_binary | bound_method_linear

fun key_bound :: "nat \<Rightarrow> bound_method \<Rightarrow> key_bound_family" where
  "key_bound max_size bound_method_binary = key_bound_binary"
| "key_bound max_size bound_method_linear = key_bound_linear"
| "key_bound max_size bound_method_fast = (if max_size > 16 then key_bound_binary else key_bound_linear)"

section \<open>All searches find the boundary\<close>

text \<open>The keys ascend strictly along the permutation: the comparison falls and is zero at most once.\<close>

definition falling :: "(nat \<Rightarrow> int) \<Rightarrow> (nat \<Rightarrow> nat) \<Rightarrow> nat \<Rightarrow> bool" where
  "falling cmp perm psize \<longleftrightarrow> (\<forall>i j. i < j \<and> j < psize \<and> cmp (perm i) \<le> 0 \<longrightarrow> cmp (perm j) < 0)"

definition lower_at :: "(nat \<Rightarrow> int) \<Rightarrow> (nat \<Rightarrow> nat) \<Rightarrow> nat \<Rightarrow> nat \<Rightarrow> bool" where
  "lower_at cmp perm psize p \<longleftrightarrow> p \<le> psize \<and> (\<forall>i < p. 0 < cmp (perm i)) \<and> (\<forall>i. p \<le> i \<and> i < psize \<longrightarrow> cmp (perm i) \<le> 0)"

definition upper_at :: "(nat \<Rightarrow> int) \<Rightarrow> (nat \<Rightarrow> nat) \<Rightarrow> nat \<Rightarrow> nat \<Rightarrow> bool" where
  "upper_at cmp perm psize p \<longleftrightarrow> p \<le> psize \<and> (\<forall>i < p. 0 \<le> cmp (perm i)) \<and> (\<forall>i. p \<le> i \<and> i < psize \<longrightarrow> cmp (perm i) < 0)"

lemma lower_at_unique: "lower_at cmp perm psize p \<Longrightarrow> lower_at cmp perm psize q \<Longrightarrow> p = q"
  unfolding lower_at_def by (metis linorder_neqE_nat less_le_trans not_le order.refl)

lemma upper_at_unique: "upper_at cmp perm psize p \<Longrightarrow> upper_at cmp perm psize q \<Longrightarrow> p = q"
  unfolding upper_at_def by (metis linorder_neqE_nat less_le_trans not_le order.refl)

lemma falling_signs:
  assumes "falling cmp perm psize" "m < psize"
  shows "cmp (perm m) \<le> 0 \<Longrightarrow> \<forall>i. m < i \<and> i < psize \<longrightarrow> cmp (perm i) < 0" "0 \<le> cmp (perm m) \<Longrightarrow> \<forall>i < m. 0 < cmp (perm i)"
  using assms unfolding falling_def by (blast, meson not_less)

lemma lower_loop_at:
  assumes f: "falling cmp perm psize"
  shows "l \<le> r \<Longrightarrow> r \<le> psize \<Longrightarrow> \<forall>i < l. 0 < cmp (perm i) \<Longrightarrow> \<forall>i. r \<le> i \<and> i < psize \<longrightarrow> cmp (perm i) < 0 \<Longrightarrow>
    lower_at cmp perm psize (lower_loop cmp perm l r)"
proof (induction "r - l" arbitrary: l r rule: less_induct)
  case less
  show ?case
  proof (cases "l < r")
    case False
    then show ?thesis using less.prems by (auto simp: lower_loop.simps lower_at_def less_imp_le)
  next
    case True
    define m where "m = (l + r) div 2"
    have m: "l \<le> m" "m < r" "m < psize" using True less.prems(2) by (auto simp: m_def)
    note sg = falling_signs [OF f m(3)]
    note eq = lower_loop.simps [of cmp perm l r, unfolded Let_def, folded m_def]
    consider "cmp (perm m) < 0" | "cmp (perm m) = 0" | "0 < cmp (perm m)" by linarith
    then show ?thesis
    proof cases
      case 1
      then have "\<forall>i. m \<le> i \<and> i < psize \<longrightarrow> cmp (perm i) < 0" using sg(1) by (metis le_less less_imp_le)
      then show ?thesis using less.hyps [of m l] less.prems m 1 True eq by simp
    next
      case 2
      then have "\<forall>i < m. 0 < cmp (perm i)" "\<forall>i. m \<le> i \<and> i < psize \<longrightarrow> cmp (perm i) \<le> 0" using sg by (simp, metis le_less less_imp_le order.refl)
      then show ?thesis using 2 True eq m by (simp add: lower_at_def)
    next
      case 3
      then have "\<forall>i < m + 1. 0 < cmp (perm i)" using sg(2) by (metis less_Suc_eq Suc_eq_plus1 less_imp_le)
      moreover have "lower_loop cmp perm l r = lower_loop cmp perm (m + 1) r" using 3 True eq by simp
      ultimately show ?thesis using less.hyps [of r "m + 1"] less.prems m by simp
    qed
  qed
qed

lemma upper_loop_at:
  assumes f: "falling cmp perm psize"
  shows "l \<le> r \<Longrightarrow> r \<le> psize \<Longrightarrow> \<forall>i < l. 0 < cmp (perm i) \<Longrightarrow> \<forall>i. r \<le> i \<and> i < psize \<longrightarrow> cmp (perm i) < 0 \<Longrightarrow>
    upper_at cmp perm psize (upper_loop cmp perm l r)"
proof (induction "r - l" arbitrary: l r rule: less_induct)
  case less
  show ?case
  proof (cases "l < r")
    case False
    then show ?thesis using less.prems by (auto simp: upper_loop.simps upper_at_def less_imp_le)
  next
    case True
    define m where "m = (l + r) div 2"
    have m: "l \<le> m" "m < r" "m < psize" using True less.prems(2) by (auto simp: m_def)
    note sg = falling_signs [OF f m(3)]
    note eq = upper_loop.simps [of cmp perm l r, unfolded Let_def, folded m_def]
    consider "cmp (perm m) < 0" | "cmp (perm m) = 0" | "0 < cmp (perm m)" by linarith
    then show ?thesis
    proof cases
      case 1
      then have "\<forall>i. m \<le> i \<and> i < psize \<longrightarrow> cmp (perm i) < 0" using sg(1) by (metis le_less less_imp_le)
      then show ?thesis using less.hyps [of m l] less.prems m 1 True eq by simp
    next
      case 2
      then have "\<forall>i < m + 1. 0 \<le> cmp (perm i)" "\<forall>i. m + 1 \<le> i \<and> i < psize \<longrightarrow> cmp (perm i) < 0"
        using sg by (metis less_Suc_eq Suc_eq_plus1 less_imp_le order.refl, simp)
      then show ?thesis using 2 True eq m by (simp add: upper_at_def)
    next
      case 3
      then have "\<forall>i < m + 1. 0 < cmp (perm i)" using sg(2) by (metis less_Suc_eq Suc_eq_plus1 less_imp_le)
      moreover have "upper_loop cmp perm l r = upper_loop cmp perm (m + 1) r" using 3 True eq by simp
      ultimately show ?thesis using less.hyps [of r "m + 1"] less.prems m by simp
    qed
  qed
qed

lemma lower_position_loop_eq:
  assumes f: "falling cmp perm psize"
  shows "l \<le> r \<Longrightarrow> r \<le> psize \<Longrightarrow> \<forall>i. r \<le> i \<and> i < psize \<longrightarrow> cmp (perm i) < 0 \<Longrightarrow>
    lower_position_loop cmp perm l r = (let p = lower_loop cmp perm l r in (p, if p < psize \<and> cmp (perm p) = 0 then int (perm p) else - 1))"
proof (induction "r - l" arbitrary: l r rule: less_induct)
  case less
  show ?case
  proof (cases "l < r")
    case False
    then have "l = r" using less.prems(1) by simp
    then show ?thesis using less.prems by (auto simp: lower_position_loop.simps lower_loop.simps Let_def)
  next
    case True
    define m where "m = (l + r) div 2"
    have m: "l \<le> m" "m < r" "m < psize" using True less.prems(2) by (auto simp: m_def)
    note sg = falling_signs [OF f m(3)]
    note eq = lower_loop.simps [of cmp perm l r, unfolded Let_def, folded m_def]
      lower_position_loop.simps [of cmp perm l r, unfolded Let_def, folded m_def]
    consider "cmp (perm m) < 0" | "cmp (perm m) = 0" | "0 < cmp (perm m)" by linarith
    then show ?thesis
    proof cases
      case 1
      then have "\<forall>i. m \<le> i \<and> i < psize \<longrightarrow> cmp (perm i) < 0" using sg(1) by (metis le_less less_imp_le)
      moreover have "lower_loop cmp perm l r = lower_loop cmp perm l m" "lower_position_loop cmp perm l r = lower_position_loop cmp perm l m"
        using 1 True eq by simp_all
      ultimately show ?thesis using less.hyps [of m l] less.prems m by simp
    next
      case 2
      then show ?thesis using True eq m by simp
    next
      case 3
      then have "lower_loop cmp perm l r = lower_loop cmp perm (m + 1) r" "lower_position_loop cmp perm l r = lower_position_loop cmp perm (m + 1) r"
        using True eq by simp_all
      then show ?thesis using less.hyps [of r "m + 1"] less.prems m by simp
    qed
  qed
qed

lemma find_loops_at:
  assumes f: "falling cmp perm psize"
  shows "l \<le> psize \<Longrightarrow> \<forall>i < l. 0 < cmp (perm i) \<Longrightarrow> lower_at cmp perm psize (find_lower_loop cmp perm l psize)"
    "l \<le> psize \<Longrightarrow> \<forall>i < l. 0 \<le> cmp (perm i) \<Longrightarrow> upper_at cmp perm psize (find_upper_loop cmp perm l psize)"
    "l \<le> psize \<Longrightarrow> find_lower_position_loop cmp perm l psize =
       (let p = find_lower_loop cmp perm l psize in (p, if p < psize \<and> cmp (perm p) = 0 then int (perm p) else - 1))"
proof (induction "psize - l" arbitrary: l)
  case 0
  {
    case 1
    then show ?case using 0 by (simp add: find_lower_loop.simps lower_at_def)
  next
    case 2
    then show ?case using 0 by (simp add: find_upper_loop.simps upper_at_def)
  next
    case 3
    then show ?case using 0 by (simp add: find_lower_loop.simps find_lower_position_loop.simps)
  }
next
  case (Suc d)
  have lt: "l < psize" "d = psize - (l + 1)" using Suc.hyps(4) by simp_all
  note sg = falling_signs [OF f lt(1)]
  {
    case 1
    show ?case
    proof (cases "cmp (perm l) \<le> 0")
      case True
      then have "\<forall>i. l \<le> i \<and> i < psize \<longrightarrow> cmp (perm i) \<le> 0" using sg(1) by (metis le_less less_imp_le)
      then show ?thesis using True 1 lt by (simp add: find_lower_loop.simps [of _ _ l] lower_at_def)
    next
      case False
      then have "\<forall>i < l + 1. 0 < cmp (perm i)" using 1 by (simp add: less_Suc_eq)
      then show ?thesis using Suc.hyps(1) [OF lt(2)] False lt by (simp add: find_lower_loop.simps [of _ _ l])
    qed
  next
    case 2
    show ?case
    proof (cases "cmp (perm l) < 0")
      case True
      then have "\<forall>i. l \<le> i \<and> i < psize \<longrightarrow> cmp (perm i) < 0" using sg(1) by (metis le_less less_imp_le)
      then show ?thesis using True 2 lt by (simp add: find_upper_loop.simps [of _ _ l] upper_at_def)
    next
      case False
      then have "\<forall>i < l + 1. 0 \<le> cmp (perm i)" using 2 by (simp add: less_Suc_eq)
      then show ?thesis using Suc.hyps(2) [OF lt(2)] False lt by (simp add: find_upper_loop.simps [of _ _ l])
    qed
  next
    case 3
    show ?case using Suc.hyps(3) [OF lt(2)] lt
      by (simp add: find_lower_loop.simps [of _ _ l] find_lower_position_loop.simps [of _ _ l] Let_def)
  }
qed

lemma binary_is_linear:
  assumes "falling cmp perm psize"
  shows "lower_at cmp perm psize (key_find_lower_bound_by cmp perm psize)"
    "upper_at cmp perm psize (key_find_upper_bound_by cmp perm psize)"
    "key_lower_bound_by cmp perm psize = key_find_lower_bound_by cmp perm psize"
    "key_upper_bound_by cmp perm psize = key_find_upper_bound_by cmp perm psize"
    "key_lower_bound_with_position_by cmp perm psize = key_find_lower_bound_with_position_by cmp perm psize"
proof -
  have b: "lower_at cmp perm psize (lower_loop cmp perm 0 psize)" "upper_at cmp perm psize (upper_loop cmp perm 0 psize)"
    using lower_loop_at [OF assms, of 0 psize] upper_loop_at [OF assms, of 0 psize] by simp_all
  have l: "lower_at cmp perm psize (find_lower_loop cmp perm 0 psize)" "upper_at cmp perm psize (find_upper_loop cmp perm 0 psize)"
    using find_loops_at(1,2) [OF assms, of 0] by simp_all
  have eq: "lower_loop cmp perm 0 psize = find_lower_loop cmp perm 0 psize" "upper_loop cmp perm 0 psize = find_upper_loop cmp perm 0 psize"
    using lower_at_unique [OF b(1) l(1)] upper_at_unique [OF b(2) l(2)] .
  then have "lower_position_loop cmp perm 0 psize = find_lower_position_loop cmp perm 0 psize"
    using lower_position_loop_eq [OF assms, of 0 psize] find_loops_at(3) [OF assms, of 0] by simp
  then show "lower_at cmp perm psize (key_find_lower_bound_by cmp perm psize)"
    "upper_at cmp perm psize (key_find_upper_bound_by cmp perm psize)"
    "key_lower_bound_by cmp perm psize = key_find_lower_bound_by cmp perm psize"
    "key_upper_bound_by cmp perm psize = key_find_upper_bound_by cmp perm psize"
    "key_lower_bound_with_position_by cmp perm psize = key_find_lower_bound_with_position_by cmp perm psize"
    using l eq by (simp_all add: key_lower_bound_by_def key_find_lower_bound_by_def key_upper_bound_by_def
        key_find_upper_bound_by_def key_lower_bound_with_position_by_def key_find_lower_bound_with_position_by_def)
qed

text \<open>
  The binary and the linear searches agree on every node whose keys ascend strictly along its
  permutation, so neither the method nor the maximal size given to \<^verbatim>\<open>key_bound\<close> changes a result: the
  lower bound is the number of smaller keys, the upper bound also counts an equal one, and the slot
  reported with the position is that of the linear scan.
\<close>

theorem masstree_searches_agree:
  assumes "falling cmp perm psize"
  shows "lower_at cmp perm psize (bound_lower (key_bound max_size choice) cmp perm psize)
    \<and> upper_at cmp perm psize (bound_upper (key_bound max_size choice) cmp perm psize)
    \<and> bound_lower_with_position (key_bound max_size choice) cmp perm psize
        = key_find_lower_bound_with_position_by cmp perm psize"
  by (cases choice) (simp_all add: binary_is_linear [OF assms] key_bound_binary_def key_bound_linear_def)

theorem masstree_searches_agree_witness:
  "bound_lower_with_position (key_bound 15 bound_method_binary) (\<lambda>p. 20 - 10 * int p) (kpermuter_get (kpermuter_make_sorted 15 3)) 3
     = key_find_lower_bound_with_position_by (\<lambda>p. 20 - 10 * int p) (kpermuter_get (kpermuter_make_sorted 15 3)) 3"
proof -
  have "kpermuter_get (kpermuter_make_sorted 15 3) 0 = 0" "kpermuter_get (kpermuter_make_sorted 15 3) 1 = 1" "kpermuter_get (kpermuter_make_sorted 15 3) 2 = 2"
    by code_simp+
  then have "falling (\<lambda>p. 20 - 10 * int p) (kpermuter_get (kpermuter_make_sorted 15 3)) 3"
    unfolding falling_def by (auto simp: less_Suc_eq numeral_3_eq_3 numeral_2_eq_2)
  from masstree_searches_agree [OF this] show ?thesis by blast
qed

end
