(* ===== verification/Nodeversion.thy ===== *)
theory Nodeversion
  imports Prelude
begin

text \<open>
  The version words of Masstree: \<^verbatim>\<open>basic_nodeversion\<close> with \<^verbatim>\<open>nodeversion32_parameters\<close> and its
  single-threaded twin from \<^verbatim>\<open>src/src/indices/mass_tree/thread/nodeversion.hh\<close>, and the wrap-around
  epoch counter from \<^verbatim>\<open>src/src/indices/mass_tree/thread/circular_int.hh\<close>. Operations are functions on
  the word; \<^verbatim>\<open>masstree_invariant\<close> is an assertion, its failure the error \<open>AssertionFailed\<close>. A loop that
  waits for another thread is \<open>SpinsForever\<close> when there is none.
\<close>

unbundle bit_operations_syntax

section \<open>basic_nodeversion\<close>

type_synonym nodeversion = "32 word"

definition lock_bit :: nodeversion where "lock_bit = push_bit 0 1"
definition inserting_shift :: nat where "inserting_shift = 1"
definition inserting_bit :: nodeversion where "inserting_bit = push_bit 1 1"
definition splitting_bit :: nodeversion where "splitting_bit = push_bit 2 1"
definition dirty_mask :: nodeversion where "dirty_mask = inserting_bit OR splitting_bit"
definition vinsert_lowbit :: nodeversion where "vinsert_lowbit = push_bit 3 1"
definition vsplit_lowbit :: nodeversion where "vsplit_lowbit = push_bit 9 1"
definition unused1_bit :: nodeversion where "unused1_bit = push_bit 28 1"
definition deleted_bit :: nodeversion where "deleted_bit = push_bit 29 1"
definition root_bit :: nodeversion where "root_bit = push_bit 30 1"
definition isleaf_bit :: nodeversion where "isleaf_bit = push_bit 31 1"
definition split_unlock_mask :: nodeversion where
  "split_unlock_mask = NOT (root_bit OR unused1_bit OR (vsplit_lowbit - 1))"
definition unlock_mask :: nodeversion where
  "unlock_mask = NOT (unused1_bit OR (vinsert_lowbit - 1))"

definition nodeversion_ctor :: "bool \<Rightarrow> nodeversion" where
  "nodeversion_ctor isleaf = (if isleaf then isleaf_bit else 0)"

definition nodeversion_isleaf :: "nodeversion \<Rightarrow> bool" where
  "nodeversion_isleaf v = (v AND isleaf_bit \<noteq> 0)"

definition nodeversion_stable :: "nodeversion \<Rightarrow> nodeversion result" where
  "nodeversion_stable v = (if v AND dirty_mask \<noteq> 0 then Inl SpinsForever else Inr v)"

definition nodeversion_stable_annotated :: "nodeversion \<Rightarrow> nodeversion result" where
  "nodeversion_stable_annotated v = (if v AND dirty_mask \<noteq> 0 then Inl SpinsForever else Inr v)"

definition nodeversion_locked :: "nodeversion \<Rightarrow> bool" where
  "nodeversion_locked v = (v AND lock_bit \<noteq> 0)"

definition nodeversion_inserting :: "nodeversion \<Rightarrow> bool" where
  "nodeversion_inserting v = (v AND inserting_bit \<noteq> 0)"

definition nodeversion_splitting :: "nodeversion \<Rightarrow> bool" where
  "nodeversion_splitting v = (v AND splitting_bit \<noteq> 0)"

definition nodeversion_deleted :: "nodeversion \<Rightarrow> bool" where
  "nodeversion_deleted v = (v AND deleted_bit \<noteq> 0)"

definition nodeversion_has_changed :: "nodeversion \<Rightarrow> nodeversion \<Rightarrow> bool" where
  "nodeversion_has_changed v x = (lock_bit < (x XOR v))"

definition nodeversion_is_split :: "nodeversion \<Rightarrow> bool" where
  "nodeversion_is_split v = (v AND root_bit = 0)"

definition nodeversion_has_split :: "nodeversion \<Rightarrow> nodeversion \<Rightarrow> bool" where
  "nodeversion_has_split v x = (vsplit_lowbit \<le> (x XOR v))"

definition nodeversion_simple_has_split :: "nodeversion \<Rightarrow> nodeversion \<Rightarrow> bool" where
  "nodeversion_simple_has_split v x = (vsplit_lowbit \<le> (x XOR v))"

text \<open>
  \<^verbatim>\<open>lock(expected)\<close>: when the compare-and-swap fails, the current word becomes the expected one. The
  result is the returned version and the word.
\<close>

definition nodeversion_lock_expected :: "nodeversion \<Rightarrow> nodeversion \<Rightarrow> (nodeversion \<times> nodeversion) result" where
  "nodeversion_lock_expected v expected =
     (let taken = (if expected AND lock_bit = 0 \<and> v = expected then Inr expected
                   else if v AND lock_bit = 0 then Inr v else Inl SpinsForever)
      in bindR taken (\<lambda>e.
         if e AND dirty_mask \<noteq> 0 then Inl AssertionFailed
         else Inr (e OR lock_bit, e OR lock_bit)))"

definition nodeversion_lock :: "nodeversion \<Rightarrow> (nodeversion \<times> nodeversion) result" where
  "nodeversion_lock v = nodeversion_lock_expected v v"

definition nodeversion_unlock_with :: "nodeversion \<Rightarrow> nodeversion \<Rightarrow> nodeversion result" where
  "nodeversion_unlock_with v x =
     (if x \<noteq> v then Inl AssertionFailed
      else if x AND lock_bit = 0 then Inl AssertionFailed
      else if x AND splitting_bit \<noteq> 0 then Inr ((x + vsplit_lowbit) AND split_unlock_mask)
      else Inr ((x + push_bit 2 (x AND inserting_bit)) AND unlock_mask))"

definition nodeversion_unlock :: "nodeversion \<Rightarrow> nodeversion result" where
  "nodeversion_unlock v = nodeversion_unlock_with v v"

definition nodeversion_mark_insert :: "nodeversion \<Rightarrow> nodeversion result" where
  "nodeversion_mark_insert v = (if \<not> nodeversion_locked v then Inl AssertionFailed else Inr (v OR inserting_bit))"

definition nodeversion_mark_insert_with :: "nodeversion \<Rightarrow> nodeversion \<Rightarrow> nodeversion result" where
  "nodeversion_mark_insert_with v current_version =
     (if v \<noteq> current_version then Inl AssertionFailed
      else if current_version AND lock_bit = 0 then Inl AssertionFailed
      else Inr (current_version OR inserting_bit))"

definition nodeversion_mark_split :: "nodeversion \<Rightarrow> nodeversion result" where
  "nodeversion_mark_split v = (if \<not> nodeversion_locked v then Inl AssertionFailed else Inr (v OR splitting_bit))"

definition nodeversion_mark_change :: "nodeversion \<Rightarrow> bool \<Rightarrow> nodeversion result" where
  "nodeversion_mark_change v is_split =
     (if \<not> nodeversion_locked v then Inl AssertionFailed else Inr (v OR push_bit inserting_shift (of_bool is_split + 1)))"

definition nodeversion_mark_deleted :: "nodeversion \<Rightarrow> nodeversion result" where
  "nodeversion_mark_deleted v = (if \<not> nodeversion_locked v then Inl AssertionFailed else Inr (v OR (deleted_bit OR splitting_bit)))"

definition nodeversion_mark_deleted_tree :: "nodeversion \<Rightarrow> nodeversion result" where
  "nodeversion_mark_deleted_tree v =
     (if \<not> (nodeversion_locked v \<and> \<not> nodeversion_is_split v) then Inl AssertionFailed else Inr (v OR deleted_bit))"

definition nodeversion_mark_root :: "nodeversion \<Rightarrow> nodeversion" where
  "nodeversion_mark_root v = v OR root_bit"

definition nodeversion_mark_nonroot :: "nodeversion \<Rightarrow> nodeversion" where
  "nodeversion_mark_nonroot v = v AND NOT root_bit"

definition nodeversion_assign_version :: "nodeversion \<Rightarrow> nodeversion \<Rightarrow> nodeversion" where
  "nodeversion_assign_version v x = x"

definition nodeversion_unlocked_version_value :: "nodeversion \<Rightarrow> nodeversion" where
  "nodeversion_unlocked_version_value v = v AND unlock_mask"

section \<open>basic_singlethreaded_nodeversion\<close>

definition st_nodeversion_ctor :: "bool \<Rightarrow> nodeversion" where
  "st_nodeversion_ctor isleaf = (if isleaf then isleaf_bit else 0)"

definition st_nodeversion_isleaf :: "nodeversion \<Rightarrow> bool" where
  "st_nodeversion_isleaf v = (v AND isleaf_bit \<noteq> 0)"

definition st_nodeversion_stable :: "nodeversion \<Rightarrow> nodeversion" where
  "st_nodeversion_stable v = v"

definition st_nodeversion_flags :: "nodeversion \<Rightarrow> bool \<times> bool \<times> bool \<times> bool" where
  "st_nodeversion_flags v = (False, False, False, False)"

definition st_nodeversion_has_changed :: "nodeversion \<Rightarrow> nodeversion \<Rightarrow> bool" where
  "st_nodeversion_has_changed v x = False"

definition st_nodeversion_is_split :: "nodeversion \<Rightarrow> bool" where
  "st_nodeversion_is_split v = (v AND root_bit = 0)"

definition st_nodeversion_has_split :: "nodeversion \<Rightarrow> nodeversion \<Rightarrow> bool" where
  "st_nodeversion_has_split v x = False"

definition st_nodeversion_lock :: "nodeversion \<Rightarrow> nodeversion \<times> nodeversion" where
  "st_nodeversion_lock v = (v, v)"

definition st_nodeversion_unlock :: "nodeversion \<Rightarrow> nodeversion" where
  "st_nodeversion_unlock v = v"

definition st_nodeversion_mark_insert :: "nodeversion \<Rightarrow> nodeversion" where
  "st_nodeversion_mark_insert v = v"

definition st_nodeversion_mark_split :: "nodeversion \<Rightarrow> nodeversion" where
  "st_nodeversion_mark_split v = v AND NOT root_bit"

definition st_nodeversion_mark_change :: "nodeversion \<Rightarrow> bool \<Rightarrow> nodeversion" where
  "st_nodeversion_mark_change v is_split = (if is_split then st_nodeversion_mark_split v else v)"

definition st_nodeversion_mark_deleted :: "nodeversion \<Rightarrow> nodeversion" where
  "st_nodeversion_mark_deleted v = v"

definition st_nodeversion_mark_deleted_tree :: "nodeversion \<Rightarrow> nodeversion" where
  "st_nodeversion_mark_deleted_tree v = v OR deleted_bit"

definition st_nodeversion_mark_root :: "nodeversion \<Rightarrow> nodeversion" where
  "st_nodeversion_mark_root v = v OR root_bit"

definition st_nodeversion_mark_nonroot :: "nodeversion \<Rightarrow> nodeversion" where
  "st_nodeversion_mark_nonroot v = v AND NOT root_bit"

definition st_nodeversion_assign_version :: "nodeversion \<Rightarrow> nodeversion \<Rightarrow> nodeversion" where
  "st_nodeversion_assign_version v x = x"

section \<open>circular_int\<close>

type_synonym kvepoch_t = "64 word"

definition circular_inc :: "kvepoch_t \<Rightarrow> kvepoch_t" where
  "circular_inc v = v + 1"

definition circular_post_inc :: "kvepoch_t \<Rightarrow> kvepoch_t \<times> kvepoch_t" where
  "circular_post_inc v = (let v' = v + 1 in (v' - 1, v'))"

definition circular_dec :: "kvepoch_t \<Rightarrow> kvepoch_t" where
  "circular_dec v = v - 1"

definition circular_post_dec :: "kvepoch_t \<Rightarrow> kvepoch_t \<times> kvepoch_t" where
  "circular_post_dec v = (let v' = v - 1 in (v' + 1, v'))"

definition circular_add :: "kvepoch_t \<Rightarrow> int \<Rightarrow> kvepoch_t" where
  "circular_add v x = v + of_int x"

definition circular_sub :: "kvepoch_t \<Rightarrow> int \<Rightarrow> kvepoch_t" where
  "circular_sub v x = v - of_int x"

text \<open>\<^verbatim>\<open>cmpxchg\<close> returns the old value and stores when it was the expected one.\<close>

definition circular_cmpxchg :: "kvepoch_t \<Rightarrow> kvepoch_t \<Rightarrow> kvepoch_t \<Rightarrow> kvepoch_t \<times> kvepoch_t" where
  "circular_cmpxchg v expected desired = (v, if v = expected then desired else v)"

definition circular_not :: "kvepoch_t \<Rightarrow> bool" where
  "circular_not v = (v = 0)"

definition circular_next_nonzero :: "kvepoch_t \<Rightarrow> kvepoch_t" where
  "circular_next_nonzero x = (let v = x + 1 in v + of_bool (v = 0))"

definition circular_difference :: "kvepoch_t \<Rightarrow> kvepoch_t \<Rightarrow> int" where
  "circular_difference v x = sint (v - x)"

definition circular_less :: "kvepoch_t \<Rightarrow> kvepoch_t \<Rightarrow> bool" where
  "circular_less a b = (sint (a - b) < 0)"

definition circular_less_equal :: "kvepoch_t \<Rightarrow> kvepoch_t \<Rightarrow> bool" where
  "circular_less_equal a b = (sint (a - b) \<le> 0)"

definition circular_le :: "kvepoch_t \<Rightarrow> kvepoch_t \<Rightarrow> bool" where
  "circular_le a b = (\<not> circular_less b a)"

definition circular_ge :: "kvepoch_t \<Rightarrow> kvepoch_t \<Rightarrow> bool" where
  "circular_ge a b = (\<not> circular_less a b)"

definition circular_gt :: "kvepoch_t \<Rightarrow> kvepoch_t \<Rightarrow> bool" where
  "circular_gt a b = circular_less b a"

section \<open>A locked section changes the version\<close>

lemmas version_bits = lock_bit_def inserting_bit_def splitting_bit_def dirty_mask_def vinsert_lowbit_def vsplit_lowbit_def
  unused1_bit_def deleted_bit_def root_bit_def isleaf_bit_def split_unlock_mask_def unlock_mask_def

text \<open>A version between two locked sections: no lock bit, no dirty bit, the unused bit is zero.\<close>

definition version_idle :: "nodeversion \<Rightarrow> bool" where
  "version_idle v \<longleftrightarrow> \<not> bit v 0 \<and> \<not> bit v 1 \<and> \<not> bit v 2 \<and> \<not> bit v 28"

lemma and_bit_iff: "v AND push_bit n 1 = 0 \<longleftrightarrow> \<not> bit (v :: nodeversion) n"
proof -
  have "bit (v AND push_bit n 1) k \<longleftrightarrow> k = n \<and> bit v n" for k
    by (auto simp: bit_and_iff bit_exp_iff dest: bit_imp_le_length)
  then show ?thesis by (metis bit_0_eq bit_word_eqI bot_apply bot_bool_def)
qed

lemma unat_cut: "unat (take_bit m v) = unat (v :: nodeversion) mod 2 ^ m" "unat (drop_bit n v) = unat (v :: nodeversion) div 2 ^ n"
  unfolding unat_drop_bit_eq unsigned_take_bit_eq by (rule take_bit_eq_mod, rule drop_bit_eq_div)

lemma field_differs:
  assumes "unat (v :: nodeversion) mod 2 ^ 28 div 2 ^ n \<noteq> unat (w :: nodeversion) mod 2 ^ 28 div 2 ^ n"
  shows "\<exists>k. n \<le> k \<and> k < 28 \<and> bit v k \<noteq> bit w k"
proof (rule ccontr)
  assume "\<not> ?thesis"
  then have "drop_bit n (take_bit 28 v) = drop_bit n (take_bit 28 w)"
    by (intro bit_word_eqI) (auto simp: bit_drop_bit_eq bit_take_bit_iff)
  then have "unat (drop_bit n (take_bit 28 v)) = unat (drop_bit n (take_bit 28 w))" by simp
  then show False using assms unfolding unat_cut by simp
qed

lemma bit_le: "bit (x :: nodeversion) k \<Longrightarrow> n \<le> k \<Longrightarrow> push_bit n 1 \<le> x"
proof -
  assume b: "bit x k" "n \<le> k"
  have "bit (unat x) k" using b(1) by (simp add: bit_unsigned_iff)
  then have "unat x div 2 ^ k \<noteq> 0" unfolding bit_iff_odd by (metis dvd_0_right)
  then have "2 ^ k \<le> unat x" by (metis div_less not_le)
  moreover have "(2 :: nat) ^ n \<le> 2 ^ k" using b(2) by simp
  moreover have "n < 32" using b bit_imp_le_length [of x k] by simp
  then have "unat (of_nat (2 ^ n) :: nodeversion) = 2 ^ n" by (simp only: unsigned_of_nat) (simp add: take_bit_nat_eq_self)
  then have "unat (push_bit n 1 :: nodeversion) = 2 ^ n" by simp
  ultimately show ?thesis unfolding word_le_nat_alt by (metis order_trans)
qed

lemma idle_arith:
  assumes "version_idle v"
  shows "unat v mod 8 = 0" "unat v mod 2 ^ 29 < 2 ^ 28"
proof -
  have "take_bit 3 v = 0"
  proof (rule bit_word_eqI)
    fix k :: nat
    have "k < 3 \<longleftrightarrow> k = 0 \<or> k = 1 \<or> k = 2" by linarith
    then show "bit (take_bit 3 v) k = bit 0 k" using assms by (auto simp: version_idle_def bit_take_bit_iff)
  qed
  then have "unat (take_bit 3 v) = 0" by simp
  then show "unat v mod 8 = 0" unfolding unat_cut by simp
  have "take_bit 29 v = take_bit 28 v"
  proof (rule bit_word_eqI)
    fix k :: nat
    have "k < 29 \<longleftrightarrow> k < 28 \<or> k = 28" by linarith
    then show "bit (take_bit 29 v) k = bit (take_bit 28 v) k" using assms by (auto simp: version_idle_def bit_take_bit_iff)
  qed
  then have "unat (take_bit 29 v) = unat (take_bit 28 v)" by simp
  then show "unat v mod 2 ^ 29 < 2 ^ 28" unfolding unat_cut by simp
qed

text \<open>Adding a small number to an idle version leaves the three flags on top alone.\<close>

lemma idle_add:
  assumes v: "version_idle v" and k: "k \<le> 2 ^ 20"
  shows "unat (v + of_nat k) = unat v + k" "29 \<le> j \<Longrightarrow> bit (v + of_nat k) j = bit v j"
proof -
  have u: "unat v < 2 ^ 32" using unsigned_less [of v] by simp
  have "unat v div 2 ^ 29 * 2 ^ 29 + unat v mod 2 ^ 29 = unat v" by (rule div_mult_mod_eq)
  moreover have "unat v div 2 ^ 29 \<le> 7" using u by (simp add: less_mult_imp_div_less less_Suc_eq_le [symmetric])
  then have "unat v div 2 ^ 29 * 2 ^ 29 \<le> 7 * 2 ^ 29" by (rule mult_le_mono1)
  moreover have "(7 * 2 ^ 29 + 2 ^ 28 + 2 ^ 20 :: nat) < 2 ^ 32" by simp
  ultimately have "unat v + k < 2 ^ 32" using idle_arith(2) [OF v] k by linarith
  moreover have "unat (of_nat k :: nodeversion) = k" using k by (simp add: unsigned_of_nat take_bit_nat_eq_self)
  ultimately show sum: "unat (v + of_nat k) = unat v + k" by (simp add: unat_word_ariths)
  have "(unat v + k) div 2 ^ 29 = unat v div 2 ^ 29"
  proof -
    have "(unat v mod 2 ^ 29 + k) div 2 ^ 29 = 0" using idle_arith(2) [OF v] k by simp
    moreover have "unat v + k = unat v div 2 ^ 29 * 2 ^ 29 + (unat v mod 2 ^ 29 + k)"
      unfolding add.assoc [symmetric] div_mult_mod_eq by (rule refl)
    then have "(unat v + k) div 2 ^ 29 = unat v div 2 ^ 29 + (unat v mod 2 ^ 29 + k) div 2 ^ 29"
      using div_mult_self3 [of "2 ^ 29 :: nat" "unat v div 2 ^ 29" "unat v mod 2 ^ 29 + k"] by simp
    ultimately show ?thesis by simp
  qed
  then have "unat (drop_bit 29 (v + of_nat k)) = unat (drop_bit 29 v)" unfolding unat_cut sum by simp
  then have "drop_bit 29 (v + of_nat k) = drop_bit 29 v" by (simp only: word_unat_eq_iff)
  then have "bit (drop_bit 29 (v + of_nat k)) (j - 29) = bit (drop_bit 29 v) (j - 29)" by simp
  then show "bit (v + of_nat k) j = bit v j" if "29 \<le> j" using that by (simp add: bit_drop_bit_eq)
qed

text \<open>The version field above bit \<open>n\<close> moves on when the sum carries into it exactly once, also when it wraps.\<close>

lemma field_moves:
  assumes v: "version_idle v" and k: "k \<le> 2 ^ 20" and n: "n < 28"
    and carry: "(unat v + k) div 2 ^ n = Suc (unat v div 2 ^ n)"
  shows "\<exists>j. n \<le> j \<and> j < 28 \<and> bit (v + of_nat k) j \<noteq> bit v j"
proof (rule field_differs)
  define m where "m = 28 - n"
  have m: "(2 :: nat) ^ 28 = 2 ^ m * 2 ^ n" "0 < m" using n unfolding m_def power_add [symmetric] by simp_all
  have cut: "x mod 2 ^ 28 div 2 ^ n = x div 2 ^ n mod 2 ^ m" for x :: nat
    unfolding m(1) using mod_mult2_eq' by (simp add: mod_mult2_eq mult.commute [of "2 ^ m"])
  have "1 < (2 :: nat) ^ m" using m(2) by (intro one_less_power) simp_all
  then have "Suc y mod 2 ^ m \<noteq> y mod 2 ^ m" for y :: nat by (auto simp: mod_Suc)
  then show "unat (v + of_nat k) mod 2 ^ 28 div 2 ^ n \<noteq> unat v mod 2 ^ 28 div 2 ^ n"
    unfolding idle_add(1) [OF v k] cut carry .
qed

lemma idle_masks:
  assumes "version_idle v"
  shows "v AND lock_bit = 0" "v AND dirty_mask = 0" "v AND splitting_bit = 0" "v AND inserting_bit = 0"
  using assms unfolding version_idle_def lock_bit_def dirty_mask_def inserting_bit_def splitting_bit_def
    bit.conj_disj_distrib and_bit_iff [symmetric]
  by simp_all

lemma locked_idle:
  assumes "version_idle v"
  shows "nodeversion_lock v = Inr (v OR lock_bit, v OR lock_bit)" "nodeversion_locked (v OR lock_bit)"
  using idle_masks [OF assms]
  by (simp_all add: nodeversion_lock_def nodeversion_lock_expected_def nodeversion_locked_def bit.conj_disj_distrib2
      lock_bit_def)

lemma idle_or_add:
  assumes "version_idle v"
  shows "(v OR lock_bit) OR inserting_bit = v + 3" "(v OR lock_bit) OR splitting_bit = v + 5"
proof -
  have c: "lock_bit OR inserting_bit = 3" "lock_bit OR splitting_bit = 5"
    by (simp_all add: lock_bit_def inserting_bit_def splitting_bit_def)
  have "v AND (lock_bit OR inserting_bit) = 0" "v AND (lock_bit OR splitting_bit) = 0"
    using idle_masks [OF assms] by (simp_all add: bit.conj_disj_distrib)
  then show "(v OR lock_bit) OR inserting_bit = v + 3" "(v OR lock_bit) OR splitting_bit = v + 5"
    unfolding or.assoc c by (simp_all add: disjunctive_add_eq_or)
qed

lemma bit_masks:
  "bit unlock_mask j \<longleftrightarrow> 3 \<le> j \<and> j < 32 \<and> j \<noteq> 28"
  "bit split_unlock_mask j \<longleftrightarrow> 9 \<le> j \<and> j < 32 \<and> j \<noteq> 28 \<and> j \<noteq> 30"
proof -
  have "vinsert_lowbit - 1 = mask 3" "vsplit_lowbit - 1 = mask 9"
    by (simp_all add: vinsert_lowbit_def vsplit_lowbit_def mask_eq_exp_minus_1)
  then show "bit unlock_mask j \<longleftrightarrow> 3 \<le> j \<and> j < 32 \<and> j \<noteq> 28"
    "bit split_unlock_mask j \<longleftrightarrow> 9 \<le> j \<and> j < 32 \<and> j \<noteq> 28 \<and> j \<noteq> 30"
    by (simp_all only: unlock_mask_def split_unlock_mask_def unused1_bit_def root_bit_def bit_not_iff bit_or_iff bit_mask_iff
        bit_push_bit_iff possible_bit_word bit_1_iff) auto
qed

text \<open>
  What an unlock leaves of a version that was idle before: the masked sum, idle again, with the counters
  moved and the flags the mask keeps.
\<close>

lemma masked_sum:
  assumes v: "version_idle v" and k: "k \<le> 2 ^ 20" and n: "n < 28"
    and carry: "(unat v + k) div 2 ^ n = Suc (unat v div 2 ^ n)"
    and m: "\<forall>j. n \<le> j \<and> j < 28 \<longrightarrow> bit m j" "\<not> bit m 0" "\<not> bit m 1" "\<not> bit m 2" "\<not> bit m 28"
  shows "version_idle ((v + of_nat k) AND m)" "push_bit n 1 \<le> v XOR ((v + of_nat k) AND m)"
    "29 \<le> j \<Longrightarrow> bit m j \<Longrightarrow> bit ((v + of_nat k) AND m) j = bit v j"
proof -
  show "version_idle ((v + of_nat k) AND m)" using m by (simp add: version_idle_def bit_and_iff)
  obtain j where "n \<le> j" "j < 28" "bit (v + of_nat k) j \<noteq> bit v j" using field_moves [OF v k n carry] by blast
  then have "bit (v XOR ((v + of_nat k) AND m)) j" "n \<le> j" using m(1) by (auto simp: bit_xor_iff bit_and_iff)
  then show "push_bit n 1 \<le> v XOR ((v + of_nat k) AND m)" by (rule bit_le)
  show "29 \<le> j \<Longrightarrow> bit m j \<Longrightarrow> bit ((v + of_nat k) AND m) j = bit v j" for j
    using idle_add(2) [OF v k] by (simp add: bit_and_iff)
qed

lemma unlock_after_insert:
  assumes v: "version_idle v"
  shows "nodeversion_unlock (v + 3) = Inr ((v + of_nat 11) AND unlock_mask)"
proof -
  have "v + 3 = (v OR lock_bit) OR inserting_bit" by (simp only: idle_or_add [OF v])
  then have "(v + 3) AND lock_bit = lock_bit" "(v + 3) AND splitting_bit = 0" "(v + 3) AND inserting_bit = inserting_bit"
    using idle_masks [OF v] by (simp_all add: bit.conj_disj_distrib2 lock_bit_def splitting_bit_def inserting_bit_def)
  then show ?thesis
    by (simp add: nodeversion_unlock_def nodeversion_unlock_with_def) (simp add: lock_bit_def inserting_bit_def add.commute)
qed

lemma unlock_after_split:
  assumes v: "version_idle v"
  shows "nodeversion_unlock (v + 5) = Inr ((v + of_nat 517) AND split_unlock_mask)"
proof -
  have "v + 5 = (v OR lock_bit) OR splitting_bit" by (simp only: idle_or_add [OF v])
  then have "(v + 5) AND lock_bit = lock_bit" "(v + 5) AND splitting_bit = splitting_bit"
    using idle_masks [OF v] by (simp_all add: bit.conj_disj_distrib2 lock_bit_def splitting_bit_def)
  moreover have "lock_bit \<noteq> 0" "splitting_bit \<noteq> 0" by code_simp+
  moreover have "v + 5 + vsplit_lowbit = v + of_nat 517" by (simp add: vsplit_lowbit_def add.commute)
  ultimately show ?thesis by (simp only: nodeversion_unlock_def nodeversion_unlock_with_def not_True_eq_False not_False_eq_True if_False if_True simp_thms)
qed

definition insert_section :: "nodeversion \<Rightarrow> nodeversion result" where
  "insert_section v = bindR (nodeversion_lock v) (\<lambda>(_, locked). bindR (nodeversion_mark_insert locked) nodeversion_unlock)"

definition split_section :: "nodeversion \<Rightarrow> nodeversion result" where
  "split_section v = bindR (nodeversion_lock v) (\<lambda>(_, locked). bindR (nodeversion_mark_split locked) nodeversion_unlock)"

lemma idle_carry:
  assumes "version_idle v"
  shows "(unat v + 11) div 2 ^ 3 = Suc (unat v div 2 ^ 3)" "(unat v + 517) div 2 ^ 9 = Suc (unat v div 2 ^ 9)"
proof -
  obtain q where q: "unat v = 8 * q" using idle_arith(1) [OF assms] by blast
  show "(unat v + 11) div 2 ^ 3 = Suc (unat v div 2 ^ 3)" unfolding q by simp
  have "(8 * q + 517) div (8 * 64) = (8 * q + 517) div 8 div 64" by (rule div_mult2_eq)
  moreover have "(8 * q + 517) div 8 = q + 64" by presburger
  moreover have "(8 * q) div (8 * 64) = q div 64" by (rule div_mult_mult1) simp
  ultimately show "(unat v + 517) div 2 ^ 9 = Suc (unat v div 2 ^ 9)" unfolding q by simp
qed

text \<open>
  C24. A locked section of a node is noticed by every reader that took the version before it, also when a
  counter wraps around. From a version with no lock and no mark, \<^verbatim>\<open>lock\<close>, \<^verbatim>\<open>mark_insert\<close>,
  \<^verbatim>\<open>unlock\<close> passes every assertion, leaves such a version again, \<^verbatim>\<open>has_changed\<close> holds and the
  flags deleted, root and leaf are as before; with \<^verbatim>\<open>mark_split\<close>, \<^verbatim>\<open>has_split\<close> holds, the node
  is no root any more, and the deleted and leaf flags are as before.
\<close>

theorem nodeversion_sections_are_seen:
  assumes v: "version_idle v"
  shows "(\<exists>w. insert_section v = Inr w \<and> version_idle w \<and> nodeversion_has_changed w v
      \<and> (nodeversion_deleted w \<longleftrightarrow> nodeversion_deleted v) \<and> (nodeversion_is_split w \<longleftrightarrow> nodeversion_is_split v)
      \<and> (nodeversion_isleaf w \<longleftrightarrow> nodeversion_isleaf v))
    \<and> (\<exists>w. split_section v = Inr w \<and> version_idle w \<and> nodeversion_has_split w v \<and> nodeversion_is_split w
      \<and> (nodeversion_deleted w \<longleftrightarrow> nodeversion_deleted v) \<and> (nodeversion_isleaf w \<longleftrightarrow> nodeversion_isleaf v))"
proof (rule conjI)
  note flags = nodeversion_deleted_def nodeversion_is_split_def nodeversion_isleaf_def deleted_bit_def root_bit_def
    isleaf_bit_def and_bit_iff
  define w where "w = (v + of_nat 11) AND unlock_mask"
  have "insert_section v = Inr w"
    unfolding insert_section_def w_def
    by (simp add: locked_idle [OF v] nodeversion_mark_insert_def unlock_after_insert [OF v] idle_or_add [OF v])
  moreover have "version_idle w" "push_bit 3 1 \<le> v XOR w" "\<And>j. 29 \<le> j \<Longrightarrow> j < 32 \<Longrightarrow> bit w j = bit v j"
    unfolding w_def by (rule masked_sum [OF v _ _ idle_carry(1) [OF v]]; simp add: bit_masks)+
  moreover from this(2) have "nodeversion_has_changed w v"
    unfolding nodeversion_has_changed_def lock_bit_def by (rule less_le_trans [rotated]) simp
  ultimately show "\<exists>w. insert_section v = Inr w \<and> version_idle w \<and> nodeversion_has_changed w v
      \<and> (nodeversion_deleted w \<longleftrightarrow> nodeversion_deleted v) \<and> (nodeversion_is_split w \<longleftrightarrow> nodeversion_is_split v)
      \<and> (nodeversion_isleaf w \<longleftrightarrow> nodeversion_isleaf v)" unfolding flags by simp
  define u where "u = (v + of_nat 517) AND split_unlock_mask"
  have "split_section v = Inr u"
    unfolding split_section_def u_def
    by (simp add: locked_idle [OF v] nodeversion_mark_split_def unlock_after_split [OF v] idle_or_add [OF v])
  moreover have "version_idle u" "push_bit 9 1 \<le> v XOR u" "\<And>j. 29 \<le> j \<Longrightarrow> bit split_unlock_mask j \<Longrightarrow> bit u j = bit v j"
    unfolding u_def by (rule masked_sum [OF v _ _ idle_carry(2) [OF v]]; simp add: bit_masks)+
  moreover have "\<not> bit u 30" by (simp add: u_def bit_and_iff bit_masks)
  moreover from calculation(3) have "nodeversion_has_split u v"
    unfolding nodeversion_has_split_def vsplit_lowbit_def .
  ultimately show "\<exists>w. split_section v = Inr w \<and> version_idle w \<and> nodeversion_has_split w v \<and> nodeversion_is_split w
      \<and> (nodeversion_deleted w \<longleftrightarrow> nodeversion_deleted v) \<and> (nodeversion_isleaf w \<longleftrightarrow> nodeversion_isleaf v)"
    unfolding flags by (auto simp: bit_masks)
qed

text \<open>At a leaf that is a root, all 25 counter bits set: both counters wrap.\<close>

theorem nodeversion_sections_are_seen_witness:
  "version_idle 0xCFFFFFF8 \<and> insert_section 0xCFFFFFF8 = Inr 0xC0000000 \<and> split_section 0xCFFFFFF8 = Inr 0x80000000
   \<and> (\<exists>w. insert_section 0xCFFFFFF8 = Inr w \<and> version_idle w \<and> nodeversion_has_changed w 0xCFFFFFF8)
   \<and> (\<exists>w. split_section 0xCFFFFFF8 = Inr w \<and> version_idle w \<and> nodeversion_has_split w 0xCFFFFFF8)"
proof -
  have v: "version_idle 0xCFFFFFF8" by code_simp
  have "insert_section 0xCFFFFFF8 = Inr 0xC0000000" by code_simp
  moreover have "split_section 0xCFFFFFF8 = Inr 0x80000000" by code_simp
  ultimately show ?thesis using nodeversion_sections_are_seen [OF v] v by blast
qed

section \<open>Epochs in a window are ordered\<close>

text \<open>
  The wrap-around order is right for two epochs less than half the range apart, also across the
  wrap; incrementing never yields the null epoch by \<^verbatim>\<open>next_nonzero\<close>, and the difference of two epochs is
  the number of steps between them.
\<close>

theorem circular_window:
  fixes a :: kvepoch_t
  assumes "0 < k" "k < 2 ^ 63"
  shows "circular_less a (circular_add a k)" "\<not> circular_less (circular_add a k) a"
    "circular_difference (circular_add a k) a = k" "circular_sub (circular_add a k) k = a"
    "circular_next_nonzero a \<noteq> 0"
proof -
  have s: "sint (of_int k :: kvepoch_t) = k" "sint (- of_int k :: kvepoch_t) = - k"
    using assms by (simp_all add: signed_of_int flip: of_int_minus) (simp_all add: signed_take_bit_int_eq_self)
  then show "circular_less a (circular_add a k)" "\<not> circular_less (circular_add a k) a"
    "circular_difference (circular_add a k) a = k" "circular_sub (circular_add a k) k = a"
    using assms by (simp_all add: circular_less_def circular_add_def circular_difference_def circular_sub_def)
  show "circular_next_nonzero a \<noteq> 0" unfolding circular_next_nonzero_def Let_def by (cases "a + 1 = 0") simp_all
qed

end
