(* ===== verification/Locks.thy ===== *)
theory Locks
  imports Prelude
begin

text \<open>
  The node latches of the latched B-link trees as functions on their atomic word:
  \<^verbatim>\<open>util::Spinlock\<close> (\<^verbatim>\<open>src/src/util/spinlock.h\<close>) and \<^verbatim>\<open>util::RWSpinLock\<close>
  (\<^verbatim>\<open>src/src/util/rw_spinlock.h\<close>), and the choice between them that \<^verbatim>\<open>NodeBase\<close> makes.

  Every function below is the effect of one call when no other thread interferes: a busy-wait
  whose condition holds is then never ended, which is the result \<open>SpinsForever\<close>. What several
  threads can do to a version lock is the subject of \<open>Optimistic_Lock\<close>.
\<close>

unbundle bit_operations_syntax

section \<open>Spinlock\<close>

text \<open>The lock's state is its atomic flag.\<close>

definition Spinlock_init :: bool where
  "Spinlock_init = False"

text \<open>The outer loop waits for the flag to be cleared and then tries to set it.\<close>

definition Spinlock_lock :: "bool \<Rightarrow> bool result" where
  "Spinlock_lock flag = (if flag then Inl SpinsForever else Inr True)"

definition Spinlock_unlock :: "bool \<Rightarrow> bool" where
  "Spinlock_unlock flag = False"

definition Spinlock_is_locked :: "bool \<Rightarrow> bool" where
  "Spinlock_is_locked flag = flag"

section \<open>RWSpinLock\<close>

text \<open>
  \<open>bits_\<close> is an \<^verbatim>\<open>int32_t\<close>: bit 0 is the writer, bit 1 the upgrader, the rest counts readers.
\<close>

type_synonym rwbits = "32 word"

definition READER :: rwbits where "READER = 4"
definition UPGRADED :: rwbits where "UPGRADED = 2"
definition WRITER :: rwbits where "WRITER = 1"

lemmas rw_masks = READER_def UPGRADED_def WRITER_def

definition RWSpinLock_init :: rwbits where
  "RWSpinLock_init = 0"

definition RWSpinLock_try_lock :: "rwbits \<Rightarrow> bool \<times> rwbits" where
  "RWSpinLock_try_lock b = (if b = 0 then (True, WRITER) else (False, b))"

definition RWSpinLock_lock :: "rwbits \<Rightarrow> rwbits result" where
  "RWSpinLock_lock b =
     (let (ok, b') = RWSpinLock_try_lock b in if ok then Inr b' else Inl SpinsForever)"

definition RWSpinLock_unlock :: "rwbits \<Rightarrow> rwbits" where
  "RWSpinLock_unlock b = b AND NOT (WRITER OR UPGRADED)"

definition RWSpinLock_try_lock_shared :: "rwbits \<Rightarrow> bool \<times> rwbits" where
  "RWSpinLock_try_lock_shared b =
     (let value = b; b' = b + READER
      in if value AND (WRITER OR UPGRADED) \<noteq> 0 then (False, b' + (- READER)) else (True, b'))"

definition RWSpinLock_lock_shared :: "rwbits \<Rightarrow> rwbits result" where
  "RWSpinLock_lock_shared b =
     (let (ok, b') = RWSpinLock_try_lock_shared b in if ok then Inr b' else Inl SpinsForever)"

definition RWSpinLock_unlock_shared :: "rwbits \<Rightarrow> rwbits" where
  "RWSpinLock_unlock_shared b = b + (- READER)"

definition RWSpinLock_unlock_and_lock_shared :: "rwbits \<Rightarrow> rwbits" where
  "RWSpinLock_unlock_and_lock_shared b = RWSpinLock_unlock (b + READER)"

definition RWSpinLock_try_lock_upgrade :: "rwbits \<Rightarrow> bool \<times> rwbits" where
  "RWSpinLock_try_lock_upgrade b = (b AND (UPGRADED OR WRITER) = 0, b OR UPGRADED)"

text \<open>
  A failed attempt leaves the \<open>UPGRADED\<close> bit set, so the next attempt of the loop fails too.
\<close>

definition RWSpinLock_lock_upgrade :: "rwbits \<Rightarrow> rwbits result" where
  "RWSpinLock_lock_upgrade b =
     (let (ok, b') = RWSpinLock_try_lock_upgrade b in if ok then Inr b' else Inl SpinsForever)"

definition RWSpinLock_unlock_upgrade :: "rwbits \<Rightarrow> rwbits" where
  "RWSpinLock_unlock_upgrade b = b + (- UPGRADED)"

definition RWSpinLock_try_unlock_upgrade_and_lock :: "rwbits \<Rightarrow> bool \<times> rwbits" where
  "RWSpinLock_try_unlock_upgrade_and_lock b = (if b = UPGRADED then (True, WRITER) else (False, b))"

definition RWSpinLock_unlock_upgrade_and_lock :: "rwbits \<Rightarrow> rwbits result" where
  "RWSpinLock_unlock_upgrade_and_lock b =
     (let (ok, b') = RWSpinLock_try_unlock_upgrade_and_lock b
      in if ok then Inr b' else Inl SpinsForever)"

definition RWSpinLock_unlock_upgrade_and_lock_shared :: "rwbits \<Rightarrow> rwbits" where
  "RWSpinLock_unlock_upgrade_and_lock_shared b = b + (READER - UPGRADED)"

definition RWSpinLock_unlock_and_lock_upgrade :: "rwbits \<Rightarrow> rwbits" where
  "RWSpinLock_unlock_and_lock_upgrade b = (b OR UPGRADED) + (- WRITER)"

lemmas rw_lock_defs =
  RWSpinLock_try_lock_def RWSpinLock_lock_def RWSpinLock_unlock_def
  RWSpinLock_try_lock_shared_def RWSpinLock_lock_shared_def RWSpinLock_unlock_shared_def
  RWSpinLock_try_lock_upgrade_def RWSpinLock_lock_upgrade_def RWSpinLock_unlock_upgrade_def
  RWSpinLock_try_unlock_upgrade_and_lock_def RWSpinLock_unlock_upgrade_and_lock_def
  RWSpinLock_unlock_upgrade_and_lock_shared_def RWSpinLock_unlock_and_lock_shared_def
  RWSpinLock_unlock_and_lock_upgrade_def

text \<open>The writer and upgrader bits together are the value modulo four.\<close>

lemma rw_mode_mask: "WRITER OR UPGRADED = 3" "UPGRADED OR WRITER = 3"
  by (simp_all add: rw_masks)

lemma rw_mode_add_reader: "(b + READER) AND 3 = b AND 3"
proof -
  have "(b + 4) AND mask 2 = (b + (4 AND mask 2)) AND mask 2"
    by (simp only: mask_eqs)
  also have "(4 :: rwbits) AND mask 2 = 0"
    by (simp add: mask_eq_exp_minus_1)
  finally show ?thesis by (simp add: mask_eq_exp_minus_1 rw_masks)
qed

lemma rw_mode_zero:
  assumes "(b :: rwbits) AND 3 = 0"
  shows "b AND - 4 = b"
proof -
  have "b = b AND (3 OR NOT 3)" by simp
  also have "\<dots> = (b AND 3) OR (b AND NOT 3)" by (rule bit.conj_disj_distrib)
  finally show ?thesis using assms by simp
qed

section \<open>The contract a tree relies on\<close>

text \<open>
  A client of a latch enters a section in shared mode and leaves it in shared mode, or enters it
  in shared mode, upgrades, and leaves it in exclusive mode. On an idle latch both must go
  through without waiting and leave the latch idle.
\<close>

locale node_latch =
  fixes acquire_shared :: "'l \<Rightarrow> 'l result"
    and release_shared :: "'l \<Rightarrow> 'l"
    and upgrade :: "'l \<Rightarrow> 'l result"
    and release_exclusive :: "'l \<Rightarrow> 'l"
    and idle :: "'l \<Rightarrow> bool"
  assumes acquire_idle: "idle l \<Longrightarrow> \<exists>l'. acquire_shared l = Inr l' \<and> release_shared l' = l"
    and upgrade_idle: "idle l \<Longrightarrow> acquire_shared l = Inr l' \<Longrightarrow>
      \<exists>l''. upgrade l' = Inr l'' \<and> idle (release_exclusive l'')"
begin

lemma read_section:
  assumes "idle l"
  shows "bindR (acquire_shared l) (\<lambda>l'. Inr (release_shared l')) = Inr l"
  using acquire_idle [OF assms] by auto

lemma write_section:
  assumes "idle l"
  shows "\<exists>l'. bindR (acquire_shared l) (\<lambda>m. bindR (upgrade m) (\<lambda>m'. Inr (release_exclusive m')))
               = Inr l' \<and> idle l'"
  using acquire_idle [OF assms] upgrade_idle [OF assms] by (metis bindR_Inr)

end

section \<open>The latch of a node\<close>

text \<open>
  \<^verbatim>\<open>NodeBase\<close> is \<^verbatim>\<open>SpinlockedNodeBase\<close> or \<^verbatim>\<open>RWLockedNodeBase\<close> by the build's macro; the
  member templates \<^verbatim>\<open>lock<SHARED>\<close>, \<^verbatim>\<open>unlock<SHARED>\<close> and \<^verbatim>\<open>upgrade_lock\<close> of the latched
  tree dispatch on the same macro.
\<close>

datatype latch = SpinlockedNodeBase bool | RWLockedNodeBase rwbits

fun latch_lock :: "bool \<Rightarrow> latch \<Rightarrow> latch result" where
  "latch_lock shared (SpinlockedNodeBase f) =
     bindR (Spinlock_lock f) (\<lambda>f'. Inr (SpinlockedNodeBase f'))"
| "latch_lock shared (RWLockedNodeBase b) =
     bindR (if shared then RWSpinLock_lock_shared b else RWSpinLock_lock b)
       (\<lambda>b'. Inr (RWLockedNodeBase b'))"

fun latch_unlock :: "bool \<Rightarrow> latch \<Rightarrow> latch" where
  "latch_unlock shared (SpinlockedNodeBase f) = SpinlockedNodeBase (Spinlock_unlock f)"
| "latch_unlock shared (RWLockedNodeBase b) =
     RWLockedNodeBase (if shared then RWSpinLock_unlock_shared b else RWSpinLock_unlock b)"

fun latch_upgrade :: "latch \<Rightarrow> latch result" where
  "latch_upgrade (SpinlockedNodeBase f) = Inr (SpinlockedNodeBase f)"
| "latch_upgrade (RWLockedNodeBase b) =
     bindR (RWSpinLock_lock_upgrade b) (\<lambda>b'. Inr (RWLockedNodeBase b'))"

fun latch_idle :: "latch \<Rightarrow> bool" where
  "latch_idle (SpinlockedNodeBase f) = (\<not> f)"
| "latch_idle (RWLockedNodeBase b) = (b AND (WRITER OR UPGRADED) = 0)"

interpretation spin: node_latch Spinlock_lock Spinlock_unlock Inr Spinlock_unlock "\<lambda>f. \<not> f"
  by unfold_locales (auto simp: Spinlock_lock_def Spinlock_unlock_def)

lemma rw_unlock_upgraded:
  assumes "b AND 3 = 0"
  shows "(b OR UPGRADED) AND - 4 = b"
proof -
  have "(b OR UPGRADED) AND - 4 = (b AND - 4) OR (UPGRADED AND - 4)"
    by (rule bit.conj_disj_distrib2)
  also have "UPGRADED AND - 4 = 0" by (simp add: rw_masks)
  finally show ?thesis using rw_mode_zero [OF assms] by simp
qed

interpretation rw: node_latch RWSpinLock_lock_shared RWSpinLock_unlock_shared
    RWSpinLock_lock_upgrade RWSpinLock_unlock "\<lambda>b. b AND (WRITER OR UPGRADED) = 0"
  by unfold_locales
    (auto simp: rw_lock_defs Let_def rw_mode_mask rw_mode_add_reader rw_unlock_upgraded
      split: if_splits)

interpretation node: node_latch "latch_lock True" "latch_unlock True" latch_upgrade
    "latch_unlock False" latch_idle
proof
  fix l
  assume "latch_idle l"
  then show "\<exists>l'. latch_lock True l = Inr l' \<and> latch_unlock True l' = l"
    using spin.acquire_idle rw.acquire_idle by (cases l) fastforce+
next
  fix l l'
  assume "latch_idle l" "latch_lock True l = Inr l'"
  then show "\<exists>l''. latch_upgrade l' = Inr l'' \<and> latch_idle (latch_unlock False l'')"
    using spin.upgrade_idle rw.upgrade_idle
    by (cases l) (fastforce simp: bindR_eq_Inr)+
qed

section \<open>What an upgraded section leaves behind\<close>

text \<open>
  C36. The reader that a shared entry registered is not taken back by the exclusive exit: each
  upgraded section of the reader-writer build raises the reader count of the latch by one for good,
  so that no later writer can ever enter it through \<^verbatim>\<open>lock\<close>.
\<close>

theorem rw_write_section_leaks:
  assumes "b AND (WRITER OR UPGRADED) = 0"
  shows "bindR (latch_lock True (RWLockedNodeBase b)) (\<lambda>l. bindR (latch_upgrade l)
           (\<lambda>l'. Inr (latch_unlock False l'))) = Inr (RWLockedNodeBase (b + READER))"
  using assms
  by (simp add: rw_lock_defs Let_def rw_mode_mask rw_mode_add_reader rw_unlock_upgraded)

theorem rw_write_section_leaks_witness:
  "bindR (latch_lock True (RWLockedNodeBase RWSpinLock_init)) (\<lambda>l. bindR (latch_upgrade l)
      (\<lambda>l'. Inr (latch_unlock False l'))) = Inr (RWLockedNodeBase 4)
    \<and> RWSpinLock_lock 4 = Inl SpinsForever"
  using rw_write_section_leaks [of RWSpinLock_init]
  by (simp add: RWSpinLock_init_def rw_masks RWSpinLock_lock_def RWSpinLock_try_lock_def)

end
