(* ===== verification/BLink_Node.thy ===== *)
theory BLink_Node
  imports Locks
begin

text \<open>
  The nodes of the B-link tree: \<^verbatim>\<open>src/src/indices/blinktree/node.h\<close> and \<^verbatim>\<open>node.cpp\<close>.

  A node is a record of its header fields and of its body. The body is a union of
  \<^verbatim>\<open>LeafNode\<close> and \<^verbatim>\<open>InnerNode\<close>, selected by the constant \<open>is_leaf\<close>: \<open>keys\<close> is the key array
  of either, \<open>vals\<close> the value array of a leaf (empty for an inner node), \<open>seps\<close> the separator
  array of an inner node (empty for a leaf). Array lengths are the capacities. Nodes live in raw
  memory of \<^verbatim>\<open>std::aligned_alloc\<close> which the constructor does not clear, so the model keeps what
  the memory held (\<open>alloc_junk\<close>) in the slots that were never written.
\<close>

section \<open>Configuration\<close>

text \<open>
  The build decides the size of \<^verbatim>\<open>NodeHeader\<close> (through \<^verbatim>\<open>NodeBase\<close>), whether a node starts with
  a \<^verbatim>\<open>util::QueueItem\<close>, and the latch; the allocator decides the contents of fresh memory.
\<close>

record 'l config =
  header_size :: nat
  garbage_size :: nat
  latch_init :: 'l
  alloc_junk :: "addr \<Rightarrow> nat \<Rightarrow> 64 word"

definition Config_node_size :: nat where
  "Config_node_size = 1024"

definition InnerNode_max_keys :: "'l config \<Rightarrow> nat" where
  "InnerNode_max_keys c = (Config_node_size - garbage_size c - header_size c - 8) div (8 + 8)"

definition InnerNode_max_separators :: "'l config \<Rightarrow> nat" where
  "InnerNode_max_separators c = InnerNode_max_keys c + 1"

definition LeafNode_max_items :: "'l config \<Rightarrow> nat" where
  "LeafNode_max_items c = (Config_node_size - garbage_size c - header_size c) div (8 + 8)"

text \<open>What the splits of \<^verbatim>\<open>Tree\<close> need: a node holds at least two keys.\<close>

definition config_ok :: "'l config \<Rightarrow> bool" where
  "config_ok c \<longleftrightarrow> 2 \<le> InnerNode_max_keys c \<and> 2 \<le> LeafNode_max_items c"

lemma capacity_bounds: "LeafNode_max_items c \<le> 64" "InnerNode_max_keys c \<le> 63"
  by (simp_all add: LeafNode_max_items_def InnerNode_max_keys_def Config_node_size_def)

section \<open>Nodes\<close>

record node =
  is_leaf :: bool
  high_key :: key_type
  right_sibling :: "addr option"
  parent :: "addr option"
  nsize :: nat
  keys :: "key_type list"
  vals :: "value_type list"
  seps :: "addr option list"

abbreviation live_keys :: "node \<Rightarrow> key_type list" where
  "live_keys n \<equiv> take (nsize n) (keys n)"

abbreviation live_vals :: "node \<Rightarrow> value_type list" where
  "live_vals n \<equiv> take (nsize n) (vals n)"

abbreviation live_seps :: "node \<Rightarrow> addr option list" where
  "live_seps n \<equiv> take (Suc (nsize n)) (seps n)"

definition pointer_of_word :: "64 word \<Rightarrow> addr option" where
  "pointer_of_word w = (if w = 0 then None else Some (unat w))"

definition Node_ctor :: "'l config \<Rightarrow> addr \<Rightarrow> bool \<Rightarrow> addr option \<Rightarrow> node" where
  "Node_ctor c a leaf par =
     \<lparr>is_leaf = leaf, high_key = max_key, right_sibling = None, parent = par, nsize = 0,
      keys = map (alloc_junk c a) [0..<if leaf then LeafNode_max_items c else InnerNode_max_keys c],
      vals = (if leaf then map (\<lambda>i. alloc_junk c a (LeafNode_max_items c + i))
                             [0..<LeafNode_max_items c] else []),
      seps = (if leaf then [] else map (\<lambda>i. pointer_of_word (alloc_junk c a (InnerNode_max_keys c + i)))
                             [0..<InnerNode_max_separators c])\<rparr>"

subsection \<open>Accessors\<close>

definition node_value :: "node \<Rightarrow> nat \<Rightarrow> value_type result" where
  "node_value n i = aget (vals n) i"

definition node_set_value :: "node \<Rightarrow> nat \<Rightarrow> value_type \<Rightarrow> node result" where
  "node_set_value n i v = bindR (aset (vals n) i v) (\<lambda>vs. Inr (n\<lparr>vals := vs\<rparr>))"

definition node_separator :: "node \<Rightarrow> nat \<Rightarrow> addr option result" where
  "node_separator n i = aget (seps n) i"

definition node_set_separator :: "node \<Rightarrow> nat \<Rightarrow> addr option \<Rightarrow> node result" where
  "node_set_separator n i s = bindR (aset (seps n) i s) (\<lambda>ss. Inr (n\<lparr>seps := ss\<rparr>))"

text \<open>\<^verbatim>\<open>leaf_key\<close>, \<^verbatim>\<open>inner_key\<close> and \<^verbatim>\<open>key\<close> read the key array of the union member in use.\<close>

definition node_key :: "node \<Rightarrow> nat \<Rightarrow> key_type result" where
  "node_key n i = aget (keys n) i"

definition is_full :: "'l config \<Rightarrow> node \<Rightarrow> bool" where
  "is_full c n \<longleftrightarrow> nsize n \<ge> (if is_leaf n then LeafNode_max_items c else InnerNode_max_keys c)"

subsection \<open>Searching\<close>

text \<open>
  \<^verbatim>\<open>std::lower_bound\<close> on random access iterators: halve the remaining length. The list is the
  range \<^verbatim>\<open>[keys, keys + size())\<close>.
\<close>

function lower_bound_loop :: "'a::linorder list \<Rightarrow> 'a \<Rightarrow> nat \<Rightarrow> nat \<Rightarrow> nat" where
  "lower_bound_loop xs k first len =
     (if len = 0 then first
      else let half = len div 2; mid = first + half
           in if xs ! mid < k then lower_bound_loop xs k (mid + 1) (len - half - 1)
              else lower_bound_loop xs k first half)"
  by pat_completeness auto
termination
  by (relation "measure (\<lambda>(xs, k, first, len). len)") auto

declare lower_bound_loop.simps [simp del]

definition std_lower_bound :: "'a::linorder list \<Rightarrow> 'a \<Rightarrow> nat" where
  "std_lower_bound xs k = lower_bound_loop xs k 0 (length xs)"

definition Node_index :: "node \<Rightarrow> key_type \<Rightarrow> nat result" where
  "Node_index n k =
     (if nsize n \<le> length (keys n) then Inr (std_lower_bound (live_keys n) k) else Inl OutOfBounds)"

text \<open>
  The binary search of \<^verbatim>\<open>Node::child\<close> keeps \<^verbatim>\<open>low\<close> and \<^verbatim>\<open>high\<close> in \<^verbatim>\<open>int16_t\<close>; a value that does
  not fit is reported instead of wrapped.
\<close>

function child_loop :: "key_type list \<Rightarrow> key_type \<Rightarrow> int \<Rightarrow> int \<Rightarrow> int result" where
  "child_loop ks k low high =
     (if low \<le> high then
        let mid = (low + high) div 2
        in if mid < 0 \<or> int (length ks) \<le> mid then Inl OutOfBounds
           else if ks ! nat mid \<le> k
                then (if mid + 1 > 32767 then Inl NarrowingOverflow
                      else child_loop ks k (mid + 1) high)
                else child_loop ks k low (mid - 1)
      else Inr high)"
  by pat_completeness auto
termination
  by (relation "measure (\<lambda>(ks, k, low, high). nat (high - low + 1))") auto

declare child_loop.simps [simp del]

definition Node_child :: "node \<Rightarrow> key_type \<Rightarrow> addr option result" where
  "Node_child n k =
     (if int (nsize n) - 1 > 32767 then Inl NarrowingOverflow
      else bindR (child_loop (keys n) k 0 (int (nsize n) - 1))
             (\<lambda>high. node_separator n (nat (high + 1))))"

subsection \<open>Inserting and copying\<close>

text \<open>\<^verbatim>\<open>_header.size++\<close> on a \<^verbatim>\<open>uint16_t\<close>.\<close>

definition inc_size :: "node \<Rightarrow> node" where
  "inc_size n = n\<lparr>nsize := (nsize n + 1) mod 2 ^ 16\<rparr>"

definition Node_insert_separator :: "node \<Rightarrow> nat \<Rightarrow> addr option \<Rightarrow> key_type \<Rightarrow> node result" where
  "Node_insert_separator n index separator key =
     bindR (if index < nsize n
            then let offset = nsize n - index
                 in bindR (memmove (keys n) (index + 1) index offset) (\<lambda>ks.
                    bindR (memmove (seps n) (index + 2) (index + 1) offset) (\<lambda>ss.
                    Inr (n\<lparr>keys := ks, seps := ss\<rparr>)))
            else Inr n) (\<lambda>n1.
     bindR (aset (keys n1) index key) (\<lambda>ks.
     bindR (aset (seps n1) (index + 1) separator) (\<lambda>ss.
     Inr (inc_size (n1\<lparr>keys := ks, seps := ss\<rparr>)))))"

definition Node_insert_value :: "node \<Rightarrow> nat \<Rightarrow> value_type \<Rightarrow> key_type \<Rightarrow> node result" where
  "Node_insert_value n index value key =
     bindR (if index < nsize n
            then let offset = nsize n - index
                 in bindR (memmove (keys n) (index + 1) index offset) (\<lambda>ks.
                    bindR (memmove (vals n) (index + 1) index offset) (\<lambda>vs.
                    Inr (n\<lparr>keys := ks, vals := vs\<rparr>)))
            else Inr n) (\<lambda>n1.
     bindR (aset (keys n1) index key) (\<lambda>ks.
     bindR (aset (vals n1) index value) (\<lambda>vs.
     Inr (inc_size (n1\<lparr>keys := ks, vals := vs\<rparr>)))))"

text \<open>\<open>Node_copy n other from count\<close> is \<^verbatim>\<open>n->copy(other, from, count)\<close>; it returns the new \<open>other\<close>.\<close>

definition Node_copy :: "node \<Rightarrow> node \<Rightarrow> nat \<Rightarrow> nat \<Rightarrow> node result" where
  "Node_copy n other from count =
     (if is_leaf n
      then bindR (memcpy (keys other) 0 (keys n) from count) (\<lambda>ks.
           bindR (memcpy (vals other) 0 (vals n) from count) (\<lambda>vs.
           Inr (other\<lparr>keys := ks, vals := vs\<rparr>)))
      else bindR (memcpy (keys other) 0 (keys n) from count) (\<lambda>ks.
           bindR (memcpy (seps other) 1 (seps n) (from + 1) count) (\<lambda>ss.
           Inr (other\<lparr>keys := ks, seps := ss\<rparr>))))"

fun contains_separator_loop :: "addr option list \<Rightarrow> addr option \<Rightarrow> nat \<Rightarrow> bool result" where
  "contains_separator_loop [] s n = Inl OutOfBounds"
| "contains_separator_loop (x # xs) s n =
     (if x = s then Inr True
      else case n of 0 \<Rightarrow> Inr False | Suc m \<Rightarrow> contains_separator_loop xs s m)"

definition Node_contains_separator :: "node \<Rightarrow> addr option \<Rightarrow> bool result" where
  "Node_contains_separator n s = contains_separator_loop (seps n) s (nsize n)"

section \<open>Correctness of the searches\<close>

lemma lower_bound_loop_bounds:
  assumes "first + len \<le> length xs" "sorted_less xs"
    "\<forall>i < first. xs ! i < k" "\<forall>i. first + len \<le> i \<and> i < length xs \<longrightarrow> k \<le> xs ! i"
  shows "lower_bound_loop xs k first len \<le> length xs
    \<and> (\<forall>i < lower_bound_loop xs k first len. xs ! i < k)
    \<and> (\<forall>i. lower_bound_loop xs k first len \<le> i \<and> i < length xs \<longrightarrow> k \<le> xs ! i)"
  using assms
proof (induction xs k first len rule: lower_bound_loop.induct)
  case (1 xs k first len)
  show ?case
  proof (cases "len = 0")
    case True
    then show ?thesis using "1.prems" by (simp add: lower_bound_loop.simps)
  next
    case False
    define half where "half = len div 2"
    define mid where "mid = first + half"
    have mid: "mid < length xs" "half < len" using False "1.prems"(1) by (auto simp: half_def mid_def)
    show ?thesis
    proof (cases "xs ! mid < k")
      case True
      have below: "\<forall>i < mid + 1. xs ! i < k"
        using True "1.prems"(2) mid by (metis less_Suc_eq_le Suc_eq_plus1 order.strict_trans1 sorted_less_nth_le)
      have "lower_bound_loop xs k first len = lower_bound_loop xs k (mid + 1) (len - half - 1)"
        using False True by (simp add: lower_bound_loop.simps [of xs k first len] Let_def half_def mid_def)
      moreover have "mid + 1 + (len - half - 1) = first + len"
        using mid by (simp add: mid_def)
      ultimately show ?thesis
        using "1.IH"(1) [OF False half_def mid_def True] "1.prems" below by simp
    next
      case ge: False
      have above: "\<forall>i. first + half \<le> i \<and> i < length xs \<longrightarrow> k \<le> xs ! i"
        using ge "1.prems"(2) by (metis mid_def not_le order.trans sorted_less_nth_le)
      have "lower_bound_loop xs k first len = lower_bound_loop xs k first half"
        using False ge by (simp add: lower_bound_loop.simps [of xs k first len] Let_def half_def mid_def)
      then show ?thesis
        using "1.IH"(2) [OF False half_def mid_def ge] "1.prems" above mid by (simp add: mid_def)
    qed
  qed
qed

interpretation std_lb: lower_bound_search std_lower_bound "\<lambda>_. True"
proof
  fix xs :: "'a::linorder list" and k :: 'a and i
  assume "sorted_less xs"
  then have *: "std_lower_bound xs k \<le> length xs
    \<and> (\<forall>i < std_lower_bound xs k. xs ! i < k)
    \<and> (\<forall>i. std_lower_bound xs k \<le> i \<and> i < length xs \<longrightarrow> k \<le> xs ! i)"
    unfolding std_lower_bound_def by (intro lower_bound_loop_bounds) auto
  show "std_lower_bound xs k \<le> length xs" using * by blast
  show "xs ! i < k" if "i < std_lower_bound xs k" using * that by blast
  show "k \<le> xs ! i" if "std_lower_bound xs k \<le> i" "i < length xs" using * that by blast
qed

lemma Node_index_eq:
  "nsize n \<le> length (keys n) \<Longrightarrow> Node_index n k = Inr (std_lower_bound (live_keys n) k)"
  by (simp add: Node_index_def)

text \<open>
  The search of \<^verbatim>\<open>Node::child\<close> ends at the last live key that is not above the searched one.
\<close>

lemma child_loop_spec:
  assumes "sorted_less (take m ks)" "m \<le> length ks" "m \<le> 32767" "0 \<le> low" "low \<le> high + 1"
    "high < int m"
    "\<forall>i < nat low. ks ! i \<le> k" "\<forall>i. nat (high + 1) \<le> i \<and> i < m \<longrightarrow> k < ks ! i"
  shows "\<exists>p \<le> m. child_loop ks k low high = Inr (int p - 1) \<and> (\<forall>i < p. ks ! i \<le> k)
           \<and> (\<forall>i. p \<le> i \<and> i < m \<longrightarrow> k < ks ! i)"
  using assms
proof (induction ks k low high rule: child_loop.induct)
  case (1 ks k low high)
  note prems = "1.prems"
  show ?case
  proof (cases "low \<le> high")
    case False
    then have "child_loop ks k low high = Inr (int (nat low) - 1)" "nat low = nat (high + 1)"
      using prems by (simp_all add: child_loop.simps)
    then show ?thesis using prems by (intro exI [of _ "nat low"]) auto
  next
    case True
    define mid where "mid = (low + high) div 2"
    have mid: "low \<le> mid" "mid \<le> high" "0 \<le> mid" "nat mid < m"
      using True prems by (auto simp: mid_def)
    have mono: "ks ! i \<le> ks ! j" if "i \<le> j" "j < m" for i j
      using sorted_less_nth_le [OF prems(1), of i j] that prems(2) by simp
    show ?thesis
    proof (cases "ks ! nat mid \<le> k")
      case le: True
      have "\<forall>i < nat (mid + 1). ks ! i \<le> k"
      proof (intro allI impI)
        fix i assume "i < nat (mid + 1)"
        then have "ks ! i \<le> ks ! nat mid" using mid by (intro mono) auto
        then show "ks ! i \<le> k" using le by simp
      qed
      moreover have "child_loop ks k low high = child_loop ks k (mid + 1) high"
        using True le mid prems
        by (subst child_loop.simps) (auto simp: Let_def mid_def [symmetric])
      ultimately show ?thesis
        using "1.IH"(1) [OF True mid_def _ le] prems mid by auto
    next
      case gt: False
      have "\<forall>i. nat (mid - 1 + 1) \<le> i \<and> i < m \<longrightarrow> k < ks ! i"
      proof (intro allI impI)
        fix i assume "nat (mid - 1 + 1) \<le> i \<and> i < m"
        then have "ks ! nat mid \<le> ks ! i" by (intro mono) auto
        then show "k < ks ! i" using gt by simp
      qed
      moreover have "child_loop ks k low high = child_loop ks k low (mid - 1)"
        using True gt mid prems
        by (subst child_loop.simps) (auto simp: Let_def mid_def [symmetric])
      ultimately show ?thesis
        using "1.IH"(2) [OF True mid_def _ gt] prems mid by auto
    qed
  qed
qed

lemma Node_child_spec:
  assumes "sorted_less (live_keys n)" "nsize n \<le> length (keys n)" "nsize n \<le> 32767"
  shows "\<exists>p \<le> nsize n. Node_child n k = node_separator n p
           \<and> (\<forall>i < p. keys n ! i \<le> k) \<and> (\<forall>i. p \<le> i \<and> i < nsize n \<longrightarrow> k < keys n ! i)"
proof -
  have "\<exists>p \<le> nsize n. child_loop (keys n) k 0 (int (nsize n) - 1) = Inr (int p - 1)
      \<and> (\<forall>i < p. keys n ! i \<le> k) \<and> (\<forall>i. p \<le> i \<and> i < nsize n \<longrightarrow> k < keys n ! i)"
    using assms by (intro child_loop_spec) auto
  then obtain p where p: "p \<le> nsize n"
    "child_loop (keys n) k 0 (int (nsize n) - 1) = Inr (int p - 1)"
    "\<forall>i < p. keys n ! i \<le> k" "\<forall>i. p \<le> i \<and> i < nsize n \<longrightarrow> k < keys n ! i"
    by blast
  then show ?thesis using assms(3) by (intro exI [of _ p]) (simp add: Node_child_def)
qed

section \<open>Effect of the insertions\<close>

lemma Node_insert_value_eq:
  assumes "i \<le> nsize n" "nsize n < length (keys n)" "length (vals n) = length (keys n)"
    "length (keys n) < 2 ^ 16"
  shows "Node_insert_value n i v k =
    Inr (n\<lparr>keys := open_gap i k (nsize n) (keys n), vals := open_gap i v (nsize n) (vals n),
           nsize := Suc (nsize n)\<rparr>)"
proof -
  have ks: "bindR (if i < nsize n then memmove (keys n) (i + 1) i (nsize n - i) else Inr (keys n))
      (\<lambda>ys. aset ys i k) = Inr (open_gap i k (nsize n) (keys n))"
    using assms by (intro shift_store_open_gap) auto
  have vs: "bindR (if i < nsize n then memmove (vals n) (i + 1) i (nsize n - i) else Inr (vals n))
      (\<lambda>ys. aset ys i v) = Inr (open_gap i v (nsize n) (vals n))"
    using assms by (intro shift_store_open_gap) auto
  show ?thesis
  proof (cases "i < nsize n")
    case True
    then show ?thesis using ks vs assms
      by (auto simp: Node_insert_value_def bindR_eq_Inr inc_size_def)
  next
    case False
    then show ?thesis using ks vs assms
      by (auto simp: Node_insert_value_def bindR_eq_Inr inc_size_def)
  qed
qed

lemma Node_insert_separator_eq:
  assumes "i \<le> nsize n" "nsize n < length (keys n)" "length (seps n) = Suc (length (keys n))"
    "length (keys n) < 2 ^ 16"
  shows "Node_insert_separator n i s k =
    Inr (n\<lparr>keys := open_gap i k (nsize n) (keys n),
           seps := open_gap (Suc i) s (Suc (nsize n)) (seps n), nsize := Suc (nsize n)\<rparr>)"
proof -
  have ks: "bindR (if i < nsize n then memmove (keys n) (i + 1) i (nsize n - i) else Inr (keys n))
      (\<lambda>ys. aset ys i k) = Inr (open_gap i k (nsize n) (keys n))"
    using assms by (intro shift_store_open_gap) auto
  have ss: "bindR (if Suc i < Suc (nsize n)
        then memmove (seps n) (Suc i + 1) (Suc i) (Suc (nsize n) - Suc i) else Inr (seps n))
      (\<lambda>ys. aset ys (Suc i) s) = Inr (open_gap (Suc i) s (Suc (nsize n)) (seps n))"
    using assms by (intro shift_store_open_gap) auto
  show ?thesis
  proof (cases "i < nsize n")
    case True
    then show ?thesis using ks ss assms
      by (auto simp: Node_insert_separator_def bindR_eq_Inr inc_size_def)
  next
    case False
    then show ?thesis using ks ss assms
      by (auto simp: Node_insert_separator_def bindR_eq_Inr inc_size_def)
  qed
qed

lemma contains_separator_loop_spec:
  "m < length xs \<Longrightarrow> contains_separator_loop xs s m = Inr (s \<in> set (take (Suc m) xs))"
proof (induction xs s m rule: contains_separator_loop.induct)
  case (2 x xs s n)
  then show ?case by (cases n) auto
qed simp

lemma Node_contains_separator_eq:
  "nsize n < length (seps n) \<Longrightarrow> Node_contains_separator n s = Inr (s \<in> set (live_seps n))"
  by (simp add: Node_contains_separator_def contains_separator_loop_spec)

section \<open>Properties of the node searches\<close>

text \<open>
  \<^verbatim>\<open>Node::index\<close>, a binary search, returns the number of live keys below the searched key,
  as a linear scan would.
\<close>

theorem node_index_is_linear_scan:
  assumes "nsize n \<le> length (keys n)" "sorted_less (live_keys n)"
  shows "Node_index n k = Inr (length (takeWhile (\<lambda>x. x < k) (live_keys n)))"
  using assms std_lb.lb_eq_takeWhile [of "live_keys n" k] by (simp add: Node_index_eq)

text \<open>An inner node with three keys, whose fourth slot is unused.\<close>

definition sample_inner :: node where
  "sample_inner = \<lparr>is_leaf = False, high_key = max_key, right_sibling = None, parent = None, nsize = 3,
     keys = [10, 20, 30, 5], vals = [], seps = [Some 0, Some 1, Some 2, Some 3, None]\<rparr>"

theorem node_index_is_linear_scan_witness: "Node_index sample_inner 25 = Inr 2"
  using node_index_is_linear_scan [of sample_inner 25] by (simp add: sample_inner_def)

text \<open>
  \<^verbatim>\<open>Node::child\<close> ends and selects the separator behind the last live key that is not
  above the searched key: all keys before it are at most the key, all behind it are larger.
\<close>

theorem node_child_selects_separator:
  assumes "sorted_less (live_keys n)" "nsize n \<le> length (keys n)" "nsize n \<le> 32767" "nsize n < length (seps n)"
  shows "\<exists>p \<le> nsize n. Node_child n k = Inr (seps n ! p)
           \<and> (\<forall>i < p. keys n ! i \<le> k) \<and> (\<forall>i. p \<le> i \<and> i < nsize n \<longrightarrow> k < keys n ! i)"
  using Node_child_spec [OF assms(1-3), of k] assms(4) by (auto simp: node_separator_def arr_simps)

theorem node_child_selects_separator_witness:
  "\<exists>p \<le> 3. Node_child sample_inner 25 = Inr ([Some 0, Some 1, Some 2, Some 3, None] ! p)
     \<and> (\<forall>i < p. [10, 20, 30, 5] ! i \<le> (25 :: key_type))
     \<and> (\<forall>i. p \<le> i \<and> i < 3 \<longrightarrow> (25 :: key_type) < [10, 20, 30, 5] ! i)"
  using node_child_selects_separator [of sample_inner 25] by (simp add: sample_inner_def)

end
