(* ===== verification/Bw_Containers.thy ===== *)
theory Bw_Containers
  imports Prelude "HOL-Library.Multiset"
begin

text \<open>
  Two containers the Bw-tree keeps on the stack while it replays a delta chain:
  \<^verbatim>\<open>SortedSmallSet\<close> of \<^verbatim>\<open>src/src/indices/bw_tree/thread/sorted_small_set.h\<close>, an insertion-sorted
  array between two cursors, and \<^verbatim>\<open>BloomFilter\<close> of \<^verbatim>\<open>src/src/indices/bw_tree/thread/bloom_filter.h\<close>,
  an unsorted array behind a filter of 256 bits. Comparison, equality and hash are template
  parameters in the code and arguments here. The arrays belong to the caller and are not checked by
  the code; an access behind their end is the error \<open>OutOfBounds\<close>.
\<close>

unbundle bit_operations_syntax

section \<open>SortedSmallSet\<close>

record 'a sorted_small_set =
  sss_data :: "'a list"
  start_p :: nat
  end_p :: nat

definition SortedSmallSet_ctor :: "'a list \<Rightarrow> 'a sorted_small_set" where
  "SortedSmallSet_ctor p_data = \<lparr>sss_data = p_data, start_p = 0, end_p = 0\<rparr>"

text \<open>\<^verbatim>\<open>std::copy_backward(it, end_p, end_p + 1)\<close> followed by the store at \<open>it\<close>.\<close>

definition shift_and_store :: "'a sorted_small_set \<Rightarrow> nat \<Rightarrow> 'a \<Rightarrow> 'a sorted_small_set result" where
  "shift_and_store s it x =
     bindR (memmove (sss_data s) (it + 1) it (end_p s - it)) (\<lambda>d.
     bindR (aset d it x) (\<lambda>d'. Inr (s\<lparr>sss_data := d', end_p := end_p s + 1\<rparr>)))"

function sss_insert_loop ::
  "('a \<Rightarrow> 'a \<Rightarrow> bool) \<Rightarrow> ('a \<Rightarrow> 'a \<Rightarrow> bool) \<Rightarrow> 'a sorted_small_set \<Rightarrow> nat \<Rightarrow> 'a \<Rightarrow> 'a sorted_small_set result" where
  "sss_insert_loop cmp eq s it x =
     (if it < end_p s
      then bindR (aget (sss_data s) it) (\<lambda>y.
           if \<not> cmp y x then (if \<not> eq y x then shift_and_store s it x else Inr s)
           else sss_insert_loop cmp eq s (it + 1) x)
      else bindR (aset (sss_data s) (end_p s) x) (\<lambda>d. Inr (s\<lparr>sss_data := d, end_p := end_p s + 1\<rparr>)))"
  by pat_completeness auto
termination by (relation "measure (\<lambda>(_, _, s, it, _). end_p s - it)") auto

declare sss_insert_loop.simps [simp del]

definition SortedSmallSet_Insert ::
  "('a \<Rightarrow> 'a \<Rightarrow> bool) \<Rightarrow> ('a \<Rightarrow> 'a \<Rightarrow> bool) \<Rightarrow> 'a sorted_small_set \<Rightarrow> 'a \<Rightarrow> 'a sorted_small_set result" where
  "SortedSmallSet_Insert cmp eq s x = sss_insert_loop cmp eq s (start_p s) x"

text \<open>\<^verbatim>\<open>std::upper_bound\<close>: the first position whose element is greater than the value.\<close>

function upper_bound_loop :: "('a \<Rightarrow> 'a \<Rightarrow> bool) \<Rightarrow> 'a list \<Rightarrow> 'a \<Rightarrow> nat \<Rightarrow> nat \<Rightarrow> nat" where
  "upper_bound_loop cmp xs x first len =
     (if len = 0 then first
      else let half = len div 2; mid = first + half
           in if cmp x (xs ! mid) then upper_bound_loop cmp xs x first half
              else upper_bound_loop cmp xs x (mid + 1) (len - half - 1))"
  by pat_completeness auto
termination by (relation "measure (\<lambda>(_, _, _, _, len). len)") auto

declare upper_bound_loop.simps [simp del]

definition std_upper_bound :: "('a \<Rightarrow> 'a \<Rightarrow> bool) \<Rightarrow> 'a list \<Rightarrow> 'a \<Rightarrow> nat" where
  "std_upper_bound cmp xs x = upper_bound_loop cmp xs x 0 (length xs)"

text \<open>The elements between the cursors.\<close>

definition sss_live :: "'a sorted_small_set \<Rightarrow> 'a list" where
  "sss_live s = drop (start_p s) (take (end_p s) (sss_data s))"

definition SortedSmallSet_InsertNoDedup :: "('a \<Rightarrow> 'a \<Rightarrow> bool) \<Rightarrow> 'a sorted_small_set \<Rightarrow> 'a \<Rightarrow> 'a sorted_small_set result" where
  "SortedSmallSet_InsertNoDedup cmp s x =
     (if length (sss_data s) < end_p s then Inl OutOfBounds
      else shift_and_store s (start_p s + std_upper_bound cmp (sss_live s) x) x)"

definition SortedSmallSet_GetBegin :: "'a sorted_small_set \<Rightarrow> nat" where
  "SortedSmallSet_GetBegin s = start_p s"

definition SortedSmallSet_GetEnd :: "'a sorted_small_set \<Rightarrow> nat" where
  "SortedSmallSet_GetEnd s = end_p s"

definition SortedSmallSet_IsEmpty :: "'a sorted_small_set \<Rightarrow> bool" where
  "SortedSmallSet_IsEmpty s = (start_p s = end_p s)"

definition SortedSmallSet_PopFront :: "'a sorted_small_set \<Rightarrow> ('a \<times> 'a sorted_small_set) result" where
  "SortedSmallSet_PopFront s =
     (if \<not> start_p s < end_p s then Inl AssertionFailed
      else bindR (aget (sss_data s) (start_p s)) (\<lambda>x. Inr (x, s\<lparr>start_p := start_p s + 1\<rparr>)))"

definition SortedSmallSet_GetFront :: "'a sorted_small_set \<Rightarrow> 'a result" where
  "SortedSmallSet_GetFront s = aget (sss_data s) (start_p s)"

definition SortedSmallSet_GetSize :: "'a sorted_small_set \<Rightarrow> int" where
  "SortedSmallSet_GetSize s = int (end_p s) - int (start_p s)"

definition SortedSmallSet_Invalidate :: "'a sorted_small_set \<Rightarrow> 'a sorted_small_set" where
  "SortedSmallSet_Invalidate s = s\<lparr>end_p := start_p s\<rparr>"

section \<open>BloomFilter\<close>

definition FILTER_SIZE :: nat where
  "FILTER_SIZE = 256 div 8"

definition BIT_OFFSET_MASK :: "64 word" where
  "BIT_OFFSET_MASK = 0x7"

definition BYTE_OFFSET_MASK :: "64 word" where
  "BYTE_OFFSET_MASK = 0xF8"

text \<open>The array of pointers is the list of the values they refer to, which the code requires to be stable.\<close>

record 'a bloom_filter =
  bit_array_0 :: "8 word list"
  data_p :: "'a list"
  value_count :: nat

definition BloomFilter_ctor :: "'a list \<Rightarrow> 'a bloom_filter" where
  "BloomFilter_ctor p_data_p = \<lparr>bit_array_0 = replicate FILTER_SIZE 0, data_p = p_data_p, value_count = 0\<rparr>"

definition BloomFilter_GetSize :: "'a bloom_filter \<Rightarrow> nat" where
  "BloomFilter_GetSize f = value_count f"

definition BloomFilter_contents :: "'a bloom_filter \<Rightarrow> 'a list" where
  "BloomFilter_contents f = take (value_count f) (data_p f)"

definition bloom_byte :: "64 word \<Rightarrow> nat" where
  "bloom_byte hash_value = unat (drop_bit 3 (hash_value AND BYTE_OFFSET_MASK))"

definition bloom_mask :: "64 word \<Rightarrow> 8 word" where
  "bloom_mask hash_value = push_bit (unat (hash_value AND BIT_OFFSET_MASK)) 1"

definition BloomFilter_InsertScalar :: "('a \<Rightarrow> 64 word) \<Rightarrow> 'a bloom_filter \<Rightarrow> 'a \<Rightarrow> 'a bloom_filter result" where
  "BloomFilter_InsertScalar hash f x =
     (let hash_value = hash x
      in bindR (aset (data_p f) (value_count f) x) (\<lambda>d.
         bindR (aget (bit_array_0 f) (bloom_byte hash_value)) (\<lambda>b.
         bindR (aset (bit_array_0 f) (bloom_byte hash_value) (b OR bloom_mask hash_value)) (\<lambda>bits.
         Inr (f\<lparr>data_p := d, value_count := value_count f + 1, bit_array_0 := bits\<rparr>)))))"

definition BloomFilter_Insert :: "('a \<Rightarrow> 64 word) \<Rightarrow> 'a bloom_filter \<Rightarrow> 'a \<Rightarrow> 'a bloom_filter result" where
  "BloomFilter_Insert hash f x = BloomFilter_InsertScalar hash f x"

fun bloom_search :: "('a \<Rightarrow> 'a \<Rightarrow> bool) \<Rightarrow> 'a bloom_filter \<Rightarrow> 'a \<Rightarrow> nat \<Rightarrow> nat \<Rightarrow> bool result" where
  "bloom_search eq f x i 0 = Inr False"
| "bloom_search eq f x i (Suc rest) =
     bindR (aget (data_p f) i) (\<lambda>y. if eq x y then Inr True else bloom_search eq f x (i + 1) rest)"

definition BloomFilter_ExistsScalar ::
  "('a \<Rightarrow> 'a \<Rightarrow> bool) \<Rightarrow> ('a \<Rightarrow> 64 word) \<Rightarrow> 'a bloom_filter \<Rightarrow> 'a \<Rightarrow> bool result" where
  "BloomFilter_ExistsScalar eq hash f x =
     (let hash_value = hash x
      in bindR (aget (bit_array_0 f) (bloom_byte hash_value)) (\<lambda>b.
         if b AND bloom_mask hash_value = 0 then Inr False else bloom_search eq f x 0 (value_count f)))"

definition BloomFilter_Exists ::
  "('a \<Rightarrow> 'a \<Rightarrow> bool) \<Rightarrow> ('a \<Rightarrow> 64 word) \<Rightarrow> 'a bloom_filter \<Rightarrow> 'a \<Rightarrow> bool result" where
  "BloomFilter_Exists eq hash f x = BloomFilter_ExistsScalar eq hash f x"

section \<open>The sorted set keeps an ordered list\<close>

definition sss_ok :: "'a sorted_small_set \<Rightarrow> bool" where
  "sss_ok s \<longleftrightarrow> start_p s \<le> end_p s \<and> end_p s \<le> length (sss_data s)"

lemma length_sss_live: "sss_ok s \<Longrightarrow> length (sss_live s) = end_p s - start_p s"
  by (simp add: sss_live_def sss_ok_def)

lemma nth_sss_live: "sss_ok s \<Longrightarrow> start_p s + i < end_p s \<Longrightarrow> sss_live s ! i = sss_data s ! (start_p s + i)"
  by (simp add: sss_live_def sss_ok_def)

lemma shift_and_store_eq:
  assumes ok: "sss_ok s" and room: "end_p s < length (sss_data s)" and i: "i \<le> end_p s - start_p s"
  obtains s' where "shift_and_store s (start_p s + i) x = Inr s'" "sss_ok s'" "sss_live s' = insert_at i x (sss_live s)"
    "start_p s' = start_p s" "end_p s' = Suc (end_p s)" "length (sss_data s') = length (sss_data s)"
proof -
  let ?it = "start_p s + i"
  let ?d = "open_gap ?it x (end_p s) (sss_data s)"
  have it: "?it \<le> end_p s" using ok i by (auto simp: sss_ok_def)
  have "memmove (sss_data s) (?it + 1) ?it (end_p s - ?it) = Inr (sss_data s)" if "\<not> ?it < end_p s"
    using that it room by (simp add: memmove_def)
  then have run: "shift_and_store s ?it x = Inr (s\<lparr>sss_data := ?d, end_p := end_p s + 1\<rparr>)"
    using shift_store_open_gap [OF it room, of x] by (cases "?it < end_p s") (auto simp: shift_and_store_def bindR_eq_Inr)
  have "take (Suc (end_p s)) ?d = insert_at ?it x (take (end_p s) (sss_data s))" using room by simp
  then have "sss_live (s\<lparr>sss_data := ?d, end_p := end_p s + 1\<rparr>) = insert_at i x (sss_live s)"
    using it room ok by (simp add: sss_live_def drop_insert_at_le sss_ok_def)
  then show thesis using that [OF run] ok room by (simp add: sss_ok_def)
qed

lemma sss_insert_loop_eq:
  fixes x :: "'a::linorder"
  assumes "sss_ok s" "end_p s < length (sss_data s)" "sorted_less (sss_live s)"
    and "start_p s \<le> it" "it \<le> end_p s" "\<forall>j < it - start_p s. sss_live s ! j < x"
  shows "\<exists>s'. sss_insert_loop (<) (=) s it x = Inr s' \<and> sss_ok s' \<and> start_p s' = start_p s \<and> end_p s' \<le> Suc (end_p s)
    \<and> length (sss_data s') = length (sss_data s) \<and> sorted_less (sss_live s') \<and> set (sss_live s') = insert x (set (sss_live s))"
  using assms(4-6)
proof (induction "end_p s - it" arbitrary: it)
  case 0
  then have it: "it = end_p s" by simp
  let ?s = "s\<lparr>sss_data := (sss_data s)[end_p s := x], end_p := end_p s + 1\<rparr>"
  have run: "sss_insert_loop (<) (=) s it x = Inr ?s" using it assms(2) by (simp add: sss_insert_loop.simps aset_def)
  have live: "sss_live ?s = sss_live s @ [x]"
    using assms(1,2) by (simp add: sss_live_def sss_ok_def take_Suc_conv_app_nth)
  have "\<forall>y \<in> set (sss_live s). y < x" using "0.prems"(3) it length_sss_live [OF assms(1)] by (auto simp: in_set_conv_nth)
  then have "sorted_less (sss_live ?s)" unfolding live using assms(3) by (simp add: sorted_wrt_append)
  then show ?case using run live assms(1,2) by (auto simp: sss_ok_def)
next
  case (Suc d)
  define i where "i = it - start_p s"
  have it: "it = start_p s + i" "it < end_p s" using Suc.hyps(2) Suc.prems(1) by (simp_all add: i_def)
  have y: "aget (sss_data s) it = Inr (sss_live s ! i)" using it assms(1) by (simp add: aget_def nth_sss_live sss_ok_def)
  have il: "i < length (sss_live s)" using it length_sss_live [OF assms(1)] by simp
  consider "sss_live s ! i < x" | "sss_live s ! i = x" | "x < sss_live s ! i" by fastforce
  then show ?case
  proof cases
    case 1
    have "Suc it - start_p s = Suc i" using it(1) by simp
    then have "\<forall>j < Suc it - start_p s. sss_live s ! j < x"
      using Suc.prems(3) [folded i_def] 1 by (simp add: less_Suc_eq)
    moreover have "sss_insert_loop (<) (=) s it x = sss_insert_loop (<) (=) s (Suc it) x"
      using it(2) y 1 by (simp add: sss_insert_loop.simps [of _ _ s it])
    moreover have "d = end_p s - Suc it" "start_p s \<le> Suc it" "Suc it \<le> end_p s" using Suc.hyps(2) Suc.prems(1) it(2) by simp_all
    ultimately show ?thesis using Suc.hyps(1) [of "Suc it"] by simp
  next
    case 2
    then have "x \<in> set (sss_live s)" using il by (metis nth_mem)
    moreover have "sss_insert_loop (<) (=) s it x = Inr s" using it(2) y 2 by (simp add: sss_insert_loop.simps [of _ _ s it])
    ultimately show ?thesis using assms(1,3) by (auto simp: insert_absorb)
  next
    case 3
    have "i \<le> end_p s - start_p s" using it by simp
    then obtain s' where s': "shift_and_store s (start_p s + i) x = Inr s'" "sss_ok s'" "sss_live s' = insert_at i x (sss_live s)"
        "start_p s' = start_p s" "end_p s' = Suc (end_p s)" "length (sss_data s') = length (sss_data s)"
      using shift_and_store_eq [OF assms(1,2)] by metis
    have "sorted_less (insert_at i x (sss_live s))"
    proof (rule sorted_less_insert_at [OF assms(3)])
      show "\<forall>j < i. sss_live s ! j < x" using Suc.prems(3) by (simp add: i_def)
      show "\<forall>j. i \<le> j \<and> j < length (sss_live s) \<longrightarrow> x < sss_live s ! j"
        using 3 assms(3) by (metis order.strict_trans2 sorted_less_nth_le)
    qed (use il in simp)
    moreover have "sss_insert_loop (<) (=) s it x = shift_and_store s it x"
      using it(2) y 3 by (auto simp: sss_insert_loop.simps [of _ _ s it])
    ultimately show ?thesis using s' unfolding it(1) [symmetric] by simp
  qed
qed

text \<open>
  \<^verbatim>\<open>Insert\<close> of the sorted small set is ordered insertion without duplicates: on a set with a free
  slot the live elements afterwards are those of the library's \<open>insort_insert\<close>.
\<close>

theorem sss_insert_is_insort:
  fixes x :: "'a::linorder"
  assumes "sss_ok s" "end_p s < length (sss_data s)" "sorted_less (sss_live s)"
  shows "\<exists>s'. SortedSmallSet_Insert (<) (=) s x = Inr s' \<and> sss_ok s' \<and> sorted_less (sss_live s')
    \<and> sss_live s' = insort_insert x (sss_live s)"
proof -
  obtain s' where s': "SortedSmallSet_Insert (<) (=) s x = Inr s'" "sss_ok s'" "sorted_less (sss_live s')"
      "set (sss_live s') = insert x (set (sss_live s))"
    using sss_insert_loop_eq [OF assms, of "start_p s" x] assms(1) by (auto simp: SortedSmallSet_Insert_def sss_ok_def)
  have "sorted (sss_live s)" "distinct (sss_live s)" "sorted (sss_live s')" "distinct (sss_live s')"
    using assms(3) s'(3) by (simp_all add: strict_sorted_iff)
  then have "sss_live s' = insort_insert x (sss_live s)"
    using s'(4) by (intro sorted_distinct_set_unique) (simp_all add: sorted_insort_insert distinct_insort_insert set_insort_insert)
  then show ?thesis using s' by blast
qed

theorem sss_insert_is_insort_witness:
  "\<exists>s'. SortedSmallSet_Insert (<) (=) \<lparr>sss_data = [2, 5, 9, 0], start_p = 0, end_p = 3\<rparr> (4 :: nat) = Inr s' \<and> sss_live s' = [2, 4, 5, 9]"
proof -
  let ?s = "\<lparr>sss_data = [2, 5, 9, 0], start_p = 0, end_p = 3\<rparr> :: nat sorted_small_set"
  have l: "sss_live ?s = [2, 5, 9]" by (simp add: sss_live_def eval_nat_numeral)
  have "sss_ok ?s" "end_p ?s < length (sss_data ?s)" "sorted_less (sss_live ?s)" by (simp_all add: sss_ok_def l)
  from sss_insert_is_insort [OF this, of 4] show ?thesis unfolding l by (auto simp: insort_insert_key_def)
qed

text \<open>The other insertion searches with \<^verbatim>\<open>std::upper_bound\<close> and keeps duplicates.\<close>

lemma upper_bound_loop_bounds:
  fixes x :: "'a::linorder"
  assumes "sorted xs" "a \<le> first" "first + len \<le> b" "b \<le> length xs"
    and "\<forall>i. a \<le> i \<and> i < first \<longrightarrow> xs ! i \<le> x" "\<forall>i. first + len \<le> i \<and> i < b \<longrightarrow> x < xs ! i"
  shows "a \<le> upper_bound_loop (<) xs x first len \<and> upper_bound_loop (<) xs x first len \<le> b
    \<and> (\<forall>i. a \<le> i \<and> i < upper_bound_loop (<) xs x first len \<longrightarrow> xs ! i \<le> x)
    \<and> (\<forall>i. upper_bound_loop (<) xs x first len \<le> i \<and> i < b \<longrightarrow> x < xs ! i)"
  using assms
proof (induction "(<) :: 'a \<Rightarrow> 'a \<Rightarrow> bool" xs x first len rule: upper_bound_loop.induct)
  case (1 xs x first len)
  show ?case
  proof (cases "len = 0")
    case True
    then show ?thesis using "1.prems" by (simp add: upper_bound_loop.simps)
  next
    case False
    define half where "half = len div 2"
    define mid where "mid = first + half"
    have mid: "mid < b" "half < len" "first \<le> mid" using False "1.prems"(3) by (auto simp: half_def mid_def)
    note eq = upper_bound_loop.simps [of "(<)" xs x first len, unfolded Let_def, folded half_def, folded mid_def]
    show ?thesis
    proof (cases "x < xs ! mid")
      case True
      have above: "\<forall>i. first + half \<le> i \<and> i < b \<longrightarrow> x < xs ! i"
        using True "1.prems"(1,4) by (auto simp: mid_def intro: order.strict_trans2 sorted_nth_mono)
      have "first + half \<le> b" using mid by (simp add: mid_def)
      then show ?thesis
        using "1.hyps"(1) [OF False half_def mid_def True "1.prems"(1,2) _ "1.prems"(4,5) above] False True eq by simp
    next
      case le: False
      have below: "\<forall>i. a \<le> i \<and> i < mid + 1 \<longrightarrow> xs ! i \<le> x"
      proof (intro allI impI)
        fix i
        assume "a \<le> i \<and> i < mid + 1"
        then have "xs ! i \<le> xs ! mid" using "1.prems"(1,4) mid by (intro sorted_nth_mono) auto
        then show "xs ! i \<le> x" using le by simp
      qed
      have sum: "mid + 1 + (len - half - 1) = first + len" using mid by (simp add: mid_def)
      then show ?thesis
        using "1.hyps"(2) [OF False half_def mid_def le "1.prems"(1) _ _ "1.prems"(4) below] False le eq "1.prems"(2,3,6) mid
        by simp
    qed
  qed
qed

lemma insert_at_upper_is_insort:
  fixes x :: "'a::linorder"
  assumes "sorted xs" "p \<le> length xs" "\<forall>i < p. xs ! i \<le> x" "\<forall>i. p \<le> i \<and> i < length xs \<longrightarrow> x < xs ! i"
  shows "insert_at p x xs = insort x xs"
proof -
  have tk: "\<forall>y \<in> set (take p xs). y \<le> x" using assms(2,3) by (auto simp: in_set_conv_nth)
  have dr: "\<forall>y \<in> set (drop p xs). x \<le> y" using assms(2,4) by (auto simp: in_set_conv_nth less_imp_le)
  have "sorted (take p xs @ drop p xs)" using assms(1) by simp
  then have "sorted (insert_at p x xs)" unfolding insert_at_def sorted_append using tk dr by simp
  moreover have "mset (insert_at p x xs) = mset (insort x xs)"
  proof -
    have "mset (insert_at p x xs) = add_mset x (mset (take p xs) + mset (drop p xs))" by (simp add: insert_at_def)
    then show ?thesis by (simp flip: mset_append)
  qed
  ultimately show ?thesis using assms(1) by (metis properties_for_sort sorted_insort sorted_sort_id)
qed

text \<open>A comparison that goes through a key searches the array of the keys.\<close>

lemma upper_bound_loop_key:
  "first + len \<le> length xs \<Longrightarrow> \<forall>y \<in> set xs. cmp x y = (f x < f y) \<Longrightarrow>
     upper_bound_loop cmp xs x first len = upper_bound_loop (<) (map f xs) (f x) first len"
proof (induction cmp xs x first len rule: upper_bound_loop.induct)
  case (1 cmp xs x first len)
  show ?case
  proof (cases "len = 0")
    case True
    then show ?thesis by (simp add: upper_bound_loop.simps)
  next
    case False
    let ?mid = "first + len div 2"
    have mid: "?mid < length xs" using False "1.prems"(1) by simp
    then have "cmp x (xs ! ?mid) = (f x < map f xs ! ?mid)" using "1.prems"(2) by simp
    then show ?thesis
      using "1.IH"(1) [OF False refl refl] "1.IH"(2) [OF False refl refl] "1.prems" mid False
      by (simp add: upper_bound_loop.simps [of _ _ _ first len] Let_def)
  qed
qed

lemma sss_insert_no_dedup_key:
  fixes f :: "'a \<Rightarrow> 'b::linorder"
  assumes ok: "sss_ok s" "end_p s < length (sss_data s)" and srt: "sorted (map f (sss_live s))"
    and cmp: "\<forall>y \<in> set (sss_live s). cmp x y = (f x < f y)"
  obtains s' where "SortedSmallSet_InsertNoDedup cmp s x = Inr s'" "sss_ok s'" "set (sss_live s') = insert x (set (sss_live s))"
    "map f (sss_live s') = insort (f x) (map f (sss_live s))"
    "start_p s' = start_p s" "end_p s' = Suc (end_p s)" "length (sss_data s') = length (sss_data s)"
proof -
  let ?n = "end_p s - start_p s" and ?ks = "map f (sss_live s)"
  define p where "p = std_upper_bound cmp (sss_live s) x"
  have len: "length (sss_live s) = ?n" using length_sss_live [OF ok(1)] .
  have p_eq: "p = std_upper_bound (<) ?ks (f x)"
    unfolding p_def std_upper_bound_def using upper_bound_loop_key [of 0 _ "sss_live s" cmp x f] cmp by simp
  have "p \<le> length ?ks \<and> (\<forall>i. 0 \<le> i \<and> i < p \<longrightarrow> ?ks ! i \<le> f x) \<and> (\<forall>i. p \<le> i \<and> i < length ?ks \<longrightarrow> f x < ?ks ! i)"
    unfolding p_eq std_upper_bound_def using upper_bound_loop_bounds [OF srt, of 0 0 "length ?ks" "length ?ks" "f x"] by fastforce
  then have p: "p \<le> ?n" and ins: "insert_at p (f x) ?ks = insort (f x) ?ks"
    using len insert_at_upper_is_insort [OF srt, of p "f x"] by auto
  obtain s' where "shift_and_store s (start_p s + p) x = Inr s'" "sss_ok s'" "sss_live s' = insert_at p x (sss_live s)"
      "start_p s' = start_p s" "end_p s' = Suc (end_p s)" "length (sss_data s') = length (sss_data s)"
    using shift_and_store_eq [OF ok p] by metis
  then show thesis
    using that ok ins by (simp add: SortedSmallSet_InsertNoDedup_def p_def map_insert_at)
qed

lemma sss_insert_no_dedup:
  fixes x :: "'a::linorder"
  assumes "sss_ok s" "end_p s < length (sss_data s)" and "sorted (sss_live s)"
  obtains s' where "SortedSmallSet_InsertNoDedup (<) s x = Inr s'" "sss_ok s'" "sss_live s' = insort x (sss_live s)"
    "end_p s' = Suc (end_p s)" "length (sss_data s') = length (sss_data s)"
  using sss_insert_no_dedup_key [of s "\<lambda>y. y" "(<)" x] assms by auto

fun sss_insert_all :: "'a::linorder sorted_small_set \<Rightarrow> 'a list \<Rightarrow> 'a sorted_small_set result" where
  "sss_insert_all s [] = Inr s"
| "sss_insert_all s (x # xs) = bindR (SortedSmallSet_Insert (<) (=) s x) (\<lambda>s'. sss_insert_all s' xs)"

lemma sss_insert_all_eq:
  "sss_ok s \<Longrightarrow> end_p s + length xs \<le> length (sss_data s) \<Longrightarrow> sorted_less (sss_live s) \<Longrightarrow>
     \<exists>s'. sss_insert_all s xs = Inr s' \<and> sss_ok s' \<and> sorted_less (sss_live s') \<and> set (sss_live s') = set xs \<union> set (sss_live s)"
proof (induction xs arbitrary: s)
  case (Cons x xs)
  then obtain s' where "SortedSmallSet_Insert (<) (=) s x = Inr s'" "sss_ok s'" "end_p s' \<le> Suc (end_p s)"
      "length (sss_data s') = length (sss_data s)" "sorted_less (sss_live s')" "set (sss_live s') = insert x (set (sss_live s))"
    using sss_insert_loop_eq [OF Cons.prems(1) _ Cons.prems(3), of "start_p s" x] by (auto simp: SortedSmallSet_Insert_def sss_ok_def)
  then show ?case using Cons.IH [of s'] Cons.prems(2) by auto
qed auto

text \<open>
  After any sequence of insertions into an array that is long enough, \<^verbatim>\<open>PopFront\<close> returns the
  least inserted value and leaves the others in ascending order.
\<close>

theorem sss_pops_least:
  fixes xs :: "'a::linorder list"
  assumes "xs \<noteq> []" "length xs \<le> length d"
  shows "\<exists>s'. bindR (sss_insert_all (SortedSmallSet_ctor d) xs) SortedSmallSet_PopFront = Inr (Min (set xs), s')
    \<and> sss_live s' = sorted_list_of_set (set xs - {Min (set xs)})"
proof -
  have "sss_ok (SortedSmallSet_ctor d)" "sss_live (SortedSmallSet_ctor d) = []" "end_p (SortedSmallSet_ctor d) + length xs \<le> length (sss_data (SortedSmallSet_ctor d))"
    using assms(2) by (simp_all add: SortedSmallSet_ctor_def sss_ok_def sss_live_def)
  then obtain s where s: "sss_insert_all (SortedSmallSet_ctor d) xs = Inr s" "sss_ok s" "sorted_less (sss_live s)" "set (sss_live s) = set xs"
    using sss_insert_all_eq [of "SortedSmallSet_ctor d" xs] by auto
  have live: "sss_live s = sorted_list_of_set (set xs)"
    using s(3,4) by (metis sorted_list_of_set_unique strict_sorted_iff List.finite_set strict_sorted_list_of_set sorted_distinct_set_unique set_sorted_list_of_set)
  then have ne: "sss_live s \<noteq> []" using assms(1) by simp
  then have lt: "start_p s < end_p s" using length_sss_live [OF s(2)] by (metis length_greater_0_conv zero_less_diff)
  have nonempty: "sorted_list_of_set (set xs) = Min (set xs) # sorted_list_of_set (set xs - {Min (set xs)})"
    using sorted_list_of_set_nonempty [of "set xs"] assms(1) by simp
  have "sss_data s ! start_p s = hd (sss_live s)" using nth_sss_live [OF s(2), of 0] lt ne by (simp add: hd_conv_nth)
  then have hd: "sss_data s ! start_p s = Min (set xs)" unfolding live nonempty by simp
  have "sss_live (s\<lparr>start_p := start_p s + 1\<rparr>) = tl (sss_live s)" by (simp add: sss_live_def tl_drop drop_Suc)
  then have tl: "sss_live (s\<lparr>start_p := start_p s + 1\<rparr>) = sorted_list_of_set (set xs - {Min (set xs)})" unfolding live nonempty by simp
  have "SortedSmallSet_PopFront s = Inr (Min (set xs), s\<lparr>start_p := start_p s + 1\<rparr>)"
    using lt s(2) hd by (simp add: SortedSmallSet_PopFront_def aget_def sss_ok_def)
  then show ?thesis using s(1) tl by auto
qed

theorem sss_pops_least_witness:
  "\<exists>s'. bindR (sss_insert_all (SortedSmallSet_ctor [0, 0, 0]) [5, 2, 5 :: nat]) SortedSmallSet_PopFront = Inr (2, s') \<and> sss_live s' = [5]"
  using sss_pops_least [of "[5, 2, 5 :: nat]" "[0, 0, 0]"] by (auto simp: insert_Diff_if)

section \<open>The filter answers membership exactly\<close>

definition bloom_ok :: "('a \<Rightarrow> 64 word) \<Rightarrow> 'a bloom_filter \<Rightarrow> bool" where
  "bloom_ok hash f \<longleftrightarrow> length (bit_array_0 f) = FILTER_SIZE \<and> value_count f \<le> length (data_p f)
     \<and> (\<forall>x \<in> set (BloomFilter_contents f). bit_array_0 f ! bloom_byte (hash x) AND bloom_mask (hash x) \<noteq> 0)"

lemma bloom_byte_bound: "bloom_byte h < FILTER_SIZE"
proof -
  have "h AND 0xF8 = take_bit 8 (h AND 0xF8)" by (simp add: take_bit_eq_mask mask_eq_exp_minus_1 and.assoc)
  then have "unat (h AND 0xF8) = take_bit 8 (unat (h AND 0xF8))" by (metis unsigned_take_bit_eq)
  then have "unat (h AND 0xF8) < 2 ^ 8" by (metis take_bit_nat_less_exp)
  moreover have "bloom_byte h = unat (h AND 0xF8) div 8"
    by (simp add: bloom_byte_def BYTE_OFFSET_MASK_def drop_bit_eq_div unat_div)
  ultimately show ?thesis by (simp add: FILTER_SIZE_def less_mult_imp_div_less)
qed

lemma bloom_mask_nonzero: "bloom_mask h \<noteq> 0"
proof -
  have "h AND 7 = take_bit 3 (h AND 7)" by (simp add: take_bit_eq_mask mask_eq_exp_minus_1 and.assoc)
  then have "unat (h AND 7) = take_bit 3 (unat (h AND 7))" by (metis unsigned_take_bit_eq)
  then have "unat (h AND 7) < 2 ^ 3" by (metis take_bit_nat_less_exp)
  then have "bit (bloom_mask h) (unat (h AND 7))"
    by (simp add: bloom_mask_def BIT_OFFSET_MASK_def bit_exp_iff)
  then show ?thesis by auto
qed

lemma or_keeps_bits:
  fixes b :: "8 word"
  assumes "b AND m' \<noteq> 0"
  shows "(b OR m) AND m' \<noteq> 0"
proof -
  obtain i where "bit (b AND m') i" using assms by (metis bit_eqI bit_0_eq bot_apply bot_bool_def)
  then have "bit ((b OR m) AND m') i" by (simp add: bit_and_iff bit_or_iff)
  then show ?thesis by auto
qed

lemma BloomFilter_ctor_ok: "bloom_ok hash (BloomFilter_ctor d)" "BloomFilter_contents (BloomFilter_ctor d) = []"
  by (simp_all add: bloom_ok_def BloomFilter_ctor_def BloomFilter_contents_def)

lemma BloomFilter_Insert_eq:
  assumes ok: "bloom_ok hash f" and room: "value_count f < length (data_p f)"
  obtains f' where "BloomFilter_Insert hash f x = Inr f'" "bloom_ok hash f'" "BloomFilter_contents f' = BloomFilter_contents f @ [x]"
    "length (data_p f') = length (data_p f)" "value_count f' = Suc (value_count f)"
proof -
  let ?i = "bloom_byte (hash x)" and ?m = "bloom_mask (hash x)"
  let ?bits = "(bit_array_0 f)[?i := bit_array_0 f ! ?i OR ?m]"
  let ?f = "f\<lparr>data_p := (data_p f)[value_count f := x], value_count := value_count f + 1, bit_array_0 := ?bits\<rparr>"
  have len: "length (bit_array_0 f) = FILTER_SIZE" using ok by (simp add: bloom_ok_def)
  have run: "BloomFilter_Insert hash f x = Inr ?f"
    using room len bloom_byte_bound [of "hash x"] by (simp add: BloomFilter_Insert_def BloomFilter_InsertScalar_def Let_def arr_simps)
  have cont: "BloomFilter_contents ?f = BloomFilter_contents f @ [x]"
    using room by (simp add: BloomFilter_contents_def take_Suc_conv_app_nth)
  have "?bits ! bloom_byte (hash y) AND bloom_mask (hash y) \<noteq> 0" if "y = x \<or> y \<in> set (BloomFilter_contents f)" for y
  proof (cases "bloom_byte (hash y) = ?i")
    case False
    then have "y \<in> set (BloomFilter_contents f)" using that by auto
    then show ?thesis using False ok by (simp add: bloom_ok_def)
  next
    case True
    then have eq: "?bits ! bloom_byte (hash y) = bit_array_0 f ! ?i OR ?m" using len bloom_byte_bound by simp
    show ?thesis
    proof (cases "y = x")
      case True
      then have "?bits ! bloom_byte (hash y) AND bloom_mask (hash y) = ?m" unfolding eq
        by (auto simp: bit_eq_iff bit_and_iff bit_or_iff)
      then show ?thesis using bloom_mask_nonzero by metis
    next
      case False
      then have "bit_array_0 f ! ?i AND bloom_mask (hash y) \<noteq> 0" using that ok True unfolding bloom_ok_def by metis
      then show ?thesis unfolding eq by (rule or_keeps_bits)
    qed
  qed
  then have "bloom_ok hash ?f" using len room cont by (auto simp: bloom_ok_def)
  then show thesis using that [OF run _ cont] by simp
qed

lemma bloom_search_eq:
  "i + rest = value_count f \<Longrightarrow> value_count f \<le> length (data_p f) \<Longrightarrow>
     bloom_search eq f x i rest = Inr (\<exists>y \<in> set (drop i (BloomFilter_contents f)). eq x y)"
proof (induction rest arbitrary: i)
  case (Suc rest)
  then have i: "i < length (BloomFilter_contents f)" "i < length (data_p f)" by (simp_all add: BloomFilter_contents_def)
  have "drop i (BloomFilter_contents f) = data_p f ! i # drop (Suc i) (BloomFilter_contents f)"
    using i Suc.prems by (subst Cons_nth_drop_Suc [symmetric]) (simp_all add: BloomFilter_contents_def)
  then show ?case using Suc i by (simp add: aget_def)
qed (simp add: BloomFilter_contents_def)

lemma BloomFilter_Exists_eq:
  assumes "bloom_ok hash f" and hash_respects_eq: "\<And>a b. eq a b \<Longrightarrow> hash a = hash b"
  shows "BloomFilter_Exists eq hash f x = Inr (\<exists>y \<in> set (BloomFilter_contents f). eq x y)"
proof -
  let ?b = "bit_array_0 f ! bloom_byte (hash x)"
  have b: "aget (bit_array_0 f) (bloom_byte (hash x)) = Inr ?b"
    using assms(1) bloom_byte_bound [of "hash x"] by (simp add: bloom_ok_def aget_def)
  have search: "bloom_search eq f x 0 (value_count f) = Inr (\<exists>y \<in> set (BloomFilter_contents f). eq x y)"
    using bloom_search_eq [of 0 "value_count f" f eq x] assms(1) by (simp add: bloom_ok_def)
  have "\<not> (\<exists>y \<in> set (BloomFilter_contents f). eq x y)" if zero: "?b AND bloom_mask (hash x) = 0"
  proof
    assume "\<exists>y \<in> set (BloomFilter_contents f). eq x y"
    then obtain y where "y \<in> set (BloomFilter_contents f)" "hash y = hash x" using hash_respects_eq by metis
    then show False using assms(1) zero unfolding bloom_ok_def by metis
  qed
  then show ?thesis using b search by (simp add: BloomFilter_Exists_def BloomFilter_ExistsScalar_def Let_def)
qed

fun bloom_insert_all :: "('a \<Rightarrow> 64 word) \<Rightarrow> 'a bloom_filter \<Rightarrow> 'a list \<Rightarrow> 'a bloom_filter result" where
  "bloom_insert_all hash f [] = Inr f"
| "bloom_insert_all hash f (x # xs) = bindR (BloomFilter_Insert hash f x) (\<lambda>f'. bloom_insert_all hash f' xs)"

lemma bloom_insert_all_eq:
  "bloom_ok hash f \<Longrightarrow> value_count f + length xs \<le> length (data_p f) \<Longrightarrow>
     \<exists>f'. bloom_insert_all hash f xs = Inr f' \<and> bloom_ok hash f' \<and> BloomFilter_contents f' = BloomFilter_contents f @ xs"
proof (induction xs arbitrary: f)
  case (Cons x xs)
  have room: "value_count f < length (data_p f)" using Cons.prems(2) by simp
  obtain f' where f': "BloomFilter_Insert hash f x = Inr f'" "bloom_ok hash f'" "BloomFilter_contents f' = BloomFilter_contents f @ [x]"
      "length (data_p f') = length (data_p f)" "value_count f' = Suc (value_count f)"
    using BloomFilter_Insert_eq [OF Cons.prems(1) room] .
  then show ?case using Cons.IH [of f'] Cons.prems(2) by auto
qed simp

text \<open>
  The filter never loses a value and never reports one that is not there: after any sequence of
  insertions into an array that is long enough, \<^verbatim>\<open>Exists\<close> answers exactly whether an inserted value is
  equal to the asked one, provided equal values have equal hashes.
\<close>

theorem bloom_filter_is_exact:
  assumes hash_respects_eq: "\<And>a b. eq a b \<Longrightarrow> hash a = hash b" and "length xs \<le> length d"
  shows "bindR (bloom_insert_all hash (BloomFilter_ctor d) xs) (\<lambda>f. BloomFilter_Exists eq hash f x) = Inr (\<exists>y \<in> set xs. eq x y)"
proof -
  have room: "value_count (BloomFilter_ctor d) + length xs \<le> length (data_p (BloomFilter_ctor d))"
    using assms(2) by (simp add: BloomFilter_ctor_def)
  obtain f where f: "bloom_insert_all hash (BloomFilter_ctor d) xs = Inr f" "bloom_ok hash f" "BloomFilter_contents f = xs"
    using bloom_insert_all_eq [OF BloomFilter_ctor_ok(1) room] BloomFilter_ctor_ok(2) [of d] by auto
  then show ?thesis using BloomFilter_Exists_eq [OF f(2) hash_respects_eq] by simp
qed

theorem bloom_filter_is_exact_witness:
  "bindR (bloom_insert_all (\<lambda>x. x * 3) (BloomFilter_ctor [0, 0, 0]) [5, 9 :: 64 word])
     (\<lambda>f. BloomFilter_Exists (=) (\<lambda>x. x * 3) f 9) = Inr True"
  using bloom_filter_is_exact [of "(=)" "\<lambda>x. x * 3" "[5, 9 :: 64 word]" "[0, 0, 0]" 9] by simp

end
