(* ===== verification/Bw_Leaf.thy ===== *)
theory Bw_Leaf
  imports BLink_Node Bw_Containers
begin

text \<open>
  The leaf pages of the Bw-tree (\<^verbatim>\<open>src/src/indices/bw_tree/thread/bwtree.h\<close>): a page is an immutable
  sorted base node with a chain of delta records on top of it. This theory holds the node types with
  the metadata their constructors compute, the two overloads of \<^verbatim>\<open>NavigateLeafNode\<close> behind
  \<^verbatim>\<open>NavigateSiblingChain\<close>, and the part of \<^verbatim>\<open>Insert\<close>, \<^verbatim>\<open>Upsert\<close> and \<^verbatim>\<open>Delete\<close> between a
  snapshot of the page and the compare-and-swap of the new record, in the configuration of the
  benchmark (\<^verbatim>\<open>BWTREE_UNIQUE_KEY\<close>, \<^verbatim>\<open>BWTREE_SEARCH_SHORTCUT\<close>, \<^verbatim>\<open>BWTREE_USE_DELTA_UPDATE\<close>).

  A pointer to a node is the node itself, for nodes never change once they are published. The
  contents of a page is the map \<open>page_map\<close>, the replay of its records; \<open>page_ok\<close> says what every
  record promises of the page below it, in particular that its index pair is the position of its
  key in the base node. Both searches are shown to answer from \<open>page_map\<close>, whichever part of the
  base node the shortcuts have cut away.
\<close>

section \<open>Nodes\<close>

type_synonym node_id = "64 word"

definition INVALID_NODE_ID :: node_id where
  "INVALID_NODE_ID = 0"

definition LEAF_DELTA_CHAIN_LENGTH_THRESHOLD :: int where
  "LEAF_DELTA_CHAIN_LENGTH_THRESHOLD = 24"

definition LEAF_NODE_SIZE_UPPER_THRESHOLD :: int where
  "LEAF_NODE_SIZE_UPPER_THRESHOLD = 64"

definition LEAF_NODE_SIZE_LOWER_THRESHOLD :: int where
  "LEAF_NODE_SIZE_LOWER_THRESHOLD = 16"

type_synonym 'k key_node_id_pair = "'k \<times> node_id"
type_synonym index_pair = "nat \<times> bool"

text \<open>\<^verbatim>\<open>static_cast<short>\<close>: the depth of a chain is kept in 16 bits.\<close>

definition to_short :: "int \<Rightarrow> int" where
  "to_short i = sint (word_of_int i :: 16 word)"

record 'k node_meta_data =
  low_key_p :: "'k key_node_id_pair"
  high_key_p :: "'k key_node_id_pair"
  md_depth :: int
  md_item_count :: int

definition NodeMetaData_ctor ::
  "'k key_node_id_pair \<Rightarrow> 'k key_node_id_pair \<Rightarrow> int \<Rightarrow> int \<Rightarrow> 'k node_meta_data" where
  "NodeMetaData_ctor p_low_key_p p_high_key_p p_depth p_item_count =
     \<lparr>low_key_p = p_low_key_p, high_key_p = p_high_key_p, md_depth = to_short p_depth, md_item_count = p_item_count\<rparr>"

datatype ('k, 'v) base_node =
    LeafNode "'k node_meta_data" "('k \<times> 'v) list"
  | LeafInsertNode "'k node_meta_data" "'k \<times> 'v" index_pair "('k, 'v) base_node"
  | LeafDeleteNode "'k node_meta_data" "'k \<times> 'v" index_pair "('k, 'v) base_node"
  | LeafUpdateNode "'k node_meta_data" "'k \<times> 'v" "'k \<times> 'v" index_pair "('k, 'v) base_node"
  | LeafSplitNode "'k node_meta_data" "'k key_node_id_pair" "('k, 'v) base_node"
  | LeafRemoveNode "'k node_meta_data" node_id "('k, 'v) base_node"
  | LeafMergeNode "'k node_meta_data" "'k key_node_id_pair" "('k, 'v) base_node" "('k, 'v) base_node"

fun GetNodeMetaData :: "('k, 'v) base_node \<Rightarrow> 'k node_meta_data" where
  "GetNodeMetaData (LeafNode m _) = m"
| "GetNodeMetaData (LeafInsertNode m _ _ _) = m"
| "GetNodeMetaData (LeafDeleteNode m _ _ _) = m"
| "GetNodeMetaData (LeafUpdateNode m _ _ _ _) = m"
| "GetNodeMetaData (LeafSplitNode m _ _) = m"
| "GetNodeMetaData (LeafRemoveNode m _ _) = m"
| "GetNodeMetaData (LeafMergeNode m _ _ _) = m"

fun IsDeltaNode :: "('k, 'v) base_node \<Rightarrow> bool" where
  "IsDeltaNode (LeafNode _ _) = False"
| "IsDeltaNode _ = True"

fun IsRemoveNode :: "('k, 'v) base_node \<Rightarrow> bool" where
  "IsRemoveNode (LeafRemoveNode _ _ _) = True"
| "IsRemoveNode _ = False"

definition GetLowKeyPair :: "('k, 'v) base_node \<Rightarrow> 'k key_node_id_pair" where
  "GetLowKeyPair n = low_key_p (GetNodeMetaData n)"

definition GetHighKeyPair :: "('k, 'v) base_node \<Rightarrow> 'k key_node_id_pair" where
  "GetHighKeyPair n = high_key_p (GetNodeMetaData n)"

definition GetHighKey :: "('k, 'v) base_node \<Rightarrow> 'k" where
  "GetHighKey n = fst (high_key_p (GetNodeMetaData n))"

definition GetNextNodeID :: "('k, 'v) base_node \<Rightarrow> node_id" where
  "GetNextNodeID n = snd (high_key_p (GetNodeMetaData n))"

definition GetDepth :: "('k, 'v) base_node \<Rightarrow> int" where
  "GetDepth n = md_depth (GetNodeMetaData n)"

definition GetItemCount :: "('k, 'v) base_node \<Rightarrow> int" where
  "GetItemCount n = md_item_count (GetNodeMetaData n)"

text \<open>The constructors of the delta nodes take the key range from the child and count items and depth.\<close>

definition LeafInsertNode_ctor :: "'k \<Rightarrow> 'v \<Rightarrow> ('k, 'v) base_node \<Rightarrow> index_pair \<Rightarrow> ('k, 'v) base_node" where
  "LeafInsertNode_ctor p_insert_key p_value p_child_node_p p_index_pair =
     LeafInsertNode (NodeMetaData_ctor (GetLowKeyPair p_child_node_p) (GetHighKeyPair p_child_node_p)
         (GetDepth p_child_node_p + 1) (GetItemCount p_child_node_p + 1))
       (p_insert_key, p_value) p_index_pair p_child_node_p"

definition LeafDeleteNode_ctor :: "'k \<Rightarrow> 'v \<Rightarrow> ('k, 'v) base_node \<Rightarrow> index_pair \<Rightarrow> ('k, 'v) base_node" where
  "LeafDeleteNode_ctor p_delete_key p_value p_child_node_p p_index_pair =
     LeafDeleteNode (NodeMetaData_ctor (GetLowKeyPair p_child_node_p) (GetHighKeyPair p_child_node_p)
         (GetDepth p_child_node_p + 1) (GetItemCount p_child_node_p - 1))
       (p_delete_key, p_value) p_index_pair p_child_node_p"

definition LeafUpdateNode_ctor ::
  "'k \<Rightarrow> 'v \<Rightarrow> 'v \<Rightarrow> ('k, 'v) base_node \<Rightarrow> index_pair \<Rightarrow> ('k, 'v) base_node" where
  "LeafUpdateNode_ctor p_update_key p_old_value p_new_value p_child_node_p p_index_pair =
     LeafUpdateNode (NodeMetaData_ctor (GetLowKeyPair p_child_node_p) (GetHighKeyPair p_child_node_p)
         (GetDepth p_child_node_p + 1) (GetItemCount p_child_node_p))
       (p_update_key, p_new_value) (p_update_key, p_old_value) p_index_pair p_child_node_p"

definition LeafSplitNode_ctor ::
  "'k key_node_id_pair \<Rightarrow> ('k, 'v) base_node \<Rightarrow> ('k, 'v) base_node \<Rightarrow> ('k, 'v) base_node" where
  "LeafSplitNode_ctor p_insert_item p_child_node_p p_split_node_p =
     LeafSplitNode (NodeMetaData_ctor (GetLowKeyPair p_child_node_p) p_insert_item
         (GetDepth p_child_node_p) (GetItemCount p_child_node_p - GetItemCount p_split_node_p))
       p_insert_item p_child_node_p"

definition LeafRemoveNode_ctor :: "node_id \<Rightarrow> ('k, 'v) base_node \<Rightarrow> ('k, 'v) base_node" where
  "LeafRemoveNode_ctor p_removed_id p_child_node_p =
     LeafRemoveNode (NodeMetaData_ctor (GetLowKeyPair p_child_node_p) (GetHighKeyPair p_child_node_p)
         (GetDepth p_child_node_p) (GetItemCount p_child_node_p))
       p_removed_id p_child_node_p"

definition LeafMergeNode_ctor ::
  "'k \<Rightarrow> ('k, 'v) base_node \<Rightarrow> node_id \<Rightarrow> ('k, 'v) base_node \<Rightarrow> ('k, 'v) base_node" where
  "LeafMergeNode_ctor p_merge_key p_right_merge_p p_deleted_node_id p_child_node_p =
     LeafMergeNode (NodeMetaData_ctor (GetLowKeyPair p_child_node_p) (GetHighKeyPair p_right_merge_p)
         (GetDepth p_child_node_p + GetDepth p_right_merge_p)
         (GetItemCount p_child_node_p + GetItemCount p_right_merge_p))
       (p_merge_key, p_deleted_node_id) p_right_merge_p p_child_node_p"

section \<open>Navigation\<close>

text \<open>
  \<^verbatim>\<open>std::lower_bound(start_it, end_it, search_key)\<close> on the array of the base node; an end index of
  -1 stands for its end. Iterators outside the array are the error \<open>OutOfBounds\<close>.
\<close>

definition leaf_lower_bound :: "('k::linorder \<times> 'v) list \<Rightarrow> nat \<Rightarrow> int \<Rightarrow> 'k \<Rightarrow> nat result" where
  "leaf_lower_bound items start_index end_index search_key =
     (let end_it = (if end_index = -1 then length items else nat end_index)
      in if start_index \<le> end_it \<and> end_it \<le> length items
         then Inr (lower_bound_loop (map fst items) search_key start_index (end_it - start_index))
         else Inl OutOfBounds)"

fun NavigateLeafNode_values ::
  "'k::linorder \<Rightarrow> ('k, 'v) base_node \<Rightarrow> nat \<Rightarrow> int \<Rightarrow> 'v list \<Rightarrow> 'v list result" where
  "NavigateLeafNode_values search_key (LeafNode _ items) start_index end_index value_list =
     bindR (leaf_lower_bound items start_index end_index search_key) (\<lambda>it.
       if it \<noteq> length items \<and> search_key = fst (items ! it) then Inr (value_list @ [snd (items ! it)])
       else Inr value_list)"
| "NavigateLeafNode_values search_key (LeafInsertNode _ item ip child_node_p) start_index end_index value_list =
     (if search_key = fst item then Inr (value_list @ [snd item])
      else if search_key > fst item then NavigateLeafNode_values search_key child_node_p (fst ip) end_index value_list
      else NavigateLeafNode_values search_key child_node_p start_index (int (fst ip)) value_list)"
| "NavigateLeafNode_values search_key (LeafDeleteNode _ item ip child_node_p) start_index end_index value_list =
     (if search_key = fst item then Inr value_list
      else if search_key > fst item then NavigateLeafNode_values search_key child_node_p (fst ip) end_index value_list
      else NavigateLeafNode_values search_key child_node_p start_index (int (fst ip)) value_list)"
| "NavigateLeafNode_values search_key (LeafUpdateNode _ item _ ip child_node_p) start_index end_index value_list =
     (if search_key = fst item then Inr (value_list @ [snd item])
      else if search_key > fst item then NavigateLeafNode_values search_key child_node_p (fst ip) end_index value_list
      else NavigateLeafNode_values search_key child_node_p start_index (int (fst ip)) value_list)"
| "NavigateLeafNode_values search_key (LeafRemoveNode _ _ _) start_index end_index value_list = Inl AssertionFailed"
| "NavigateLeafNode_values search_key (LeafMergeNode _ delete_item right_merge_p child_node_p) start_index end_index value_list =
     (if search_key \<ge> fst delete_item then NavigateLeafNode_values search_key right_merge_p 0 (-1) value_list
      else NavigateLeafNode_values search_key child_node_p 0 (-1) value_list)"
| "NavigateLeafNode_values search_key (LeafSplitNode _ _ child_node_p) start_index end_index value_list =
     NavigateLeafNode_values search_key child_node_p start_index end_index value_list"

text \<open>The overload for writers also reports where the key belongs in the base node.\<close>

fun NavigateLeafNode_item ::
  "'k::linorder \<Rightarrow> ('k, 'v) base_node \<Rightarrow> nat \<Rightarrow> int \<Rightarrow> (('k \<times> 'v) option \<times> index_pair) result" where
  "NavigateLeafNode_item search_key (LeafNode _ items) start_index end_index =
     bindR (leaf_lower_bound items start_index end_index search_key) (\<lambda>it.
       if it \<noteq> length items \<and> fst (items ! it) = search_key then Inr (Some (items ! it), (it, True))
       else Inr (None, (it, False)))"
| "NavigateLeafNode_item search_key (LeafInsertNode _ item ip child_node_p) start_index end_index =
     (if search_key = fst item then Inr (Some item, ip)
      else if search_key > fst item then NavigateLeafNode_item search_key child_node_p (fst ip) end_index
      else NavigateLeafNode_item search_key child_node_p start_index (int (fst ip)))"
| "NavigateLeafNode_item search_key (LeafDeleteNode _ item ip child_node_p) start_index end_index =
     (if search_key = fst item then Inr (None, ip)
      else if search_key > fst item then NavigateLeafNode_item search_key child_node_p (fst ip) end_index
      else NavigateLeafNode_item search_key child_node_p start_index (int (fst ip)))"
| "NavigateLeafNode_item search_key (LeafUpdateNode _ item _ ip child_node_p) start_index end_index =
     (if search_key = fst item then Inr (Some item, ip)
      else if search_key > fst item then NavigateLeafNode_item search_key child_node_p (fst ip) end_index
      else NavigateLeafNode_item search_key child_node_p start_index (int (fst ip)))"
| "NavigateLeafNode_item search_key (LeafRemoveNode _ _ _) start_index end_index = Inl AssertionFailed"
| "NavigateLeafNode_item search_key (LeafMergeNode _ delete_item right_merge_p child_node_p) start_index end_index =
     (if search_key \<ge> fst delete_item then NavigateLeafNode_item search_key right_merge_p 0 (-1)
      else NavigateLeafNode_item search_key child_node_p 0 (-1))"
| "NavigateLeafNode_item search_key (LeafSplitNode _ _ child_node_p) start_index end_index =
     NavigateLeafNode_item search_key child_node_p start_index end_index"

section \<open>The writers up to their compare-and-swap\<close>

text \<open>
  One round of each writer's loop on the snapshot \<open>node_p\<close> of the page that covers the key: \<open>None\<close>
  is the early return, \<open>Some\<close> the record the round tries to install.
\<close>

definition Insert_attempt :: "'k::linorder \<Rightarrow> 'v \<Rightarrow> ('k, 'v) base_node \<Rightarrow> ('k, 'v) base_node option result" where
  "Insert_attempt key val node_p =
     bindR (NavigateLeafNode_item key node_p 0 (-1)) (\<lambda>(item_p, ip).
       case item_p of Some _ \<Rightarrow> Inr None | None \<Rightarrow> Inr (Some (LeafInsertNode_ctor key val node_p ip)))"

definition Upsert_attempt :: "'k::linorder \<Rightarrow> 'v \<Rightarrow> ('k, 'v) base_node \<Rightarrow> (bool \<times> ('k, 'v) base_node) result" where
  "Upsert_attempt key new_value node_p =
     bindR (NavigateLeafNode_item key node_p 0 (-1)) (\<lambda>(item_p, ip).
       case item_p of Some item \<Rightarrow> Inr (False, LeafUpdateNode_ctor key (snd item) new_value node_p ip)
       | None \<Rightarrow> Inr (True, LeafInsertNode_ctor key new_value node_p ip))"

definition Delete_attempt :: "'k::linorder \<Rightarrow> ('k, 'v) base_node \<Rightarrow> ('k, 'v) base_node option result" where
  "Delete_attempt key node_p =
     bindR (NavigateLeafNode_item key node_p 0 (-1)) (\<lambda>(item_p, ip).
       case item_p of None \<Rightarrow> Inr None | Some item \<Rightarrow> Inr (Some (LeafDeleteNode_ctor key (snd item) node_p ip)))"

definition GetValue_on_leaf :: "'k::linorder \<Rightarrow> ('k, 'v) base_node \<Rightarrow> 'v list result" where
  "GetValue_on_leaf search_key node_p = NavigateLeafNode_values search_key node_p 0 (-1) []"

section \<open>What a page holds\<close>

fun page_map :: "('k::linorder, 'v) base_node \<Rightarrow> 'k \<rightharpoonup> 'v" where
  "page_map (LeafNode _ items) = map_of items"
| "page_map (LeafInsertNode _ item _ c) = (page_map c)(fst item \<mapsto> snd item)"
| "page_map (LeafDeleteNode _ item _ c) = (page_map c)(fst item := None)"
| "page_map (LeafUpdateNode _ item _ _ c) = (page_map c)(fst item \<mapsto> snd item)"
| "page_map (LeafSplitNode _ item c) = (\<lambda>k. if k < fst item then page_map c k else None)"
| "page_map (LeafRemoveNode _ _ c) = page_map c"
| "page_map (LeafMergeNode _ item r c) = (\<lambda>k. if k \<ge> fst item then page_map r k else page_map c k)"

text \<open>The base node that is searched for a key, and whether there is more than one.\<close>

fun base_items :: "('k::linorder, 'v) base_node \<Rightarrow> 'k \<Rightarrow> ('k \<times> 'v) list" where
  "base_items (LeafNode _ items) k = items"
| "base_items (LeafInsertNode _ _ _ c) k = base_items c k"
| "base_items (LeafDeleteNode _ _ _ c) k = base_items c k"
| "base_items (LeafUpdateNode _ _ _ _ c) k = base_items c k"
| "base_items (LeafSplitNode _ _ c) k = base_items c k"
| "base_items (LeafRemoveNode _ _ c) k = base_items c k"
| "base_items (LeafMergeNode _ item r c) k = (if k \<ge> fst item then base_items r k else base_items c k)"

fun merged :: "('k, 'v) base_node \<Rightarrow> bool" where
  "merged (LeafNode _ _) = False"
| "merged (LeafInsertNode _ _ _ c) = merged c"
| "merged (LeafDeleteNode _ _ _ c) = merged c"
| "merged (LeafUpdateNode _ _ _ _ c) = merged c"
| "merged (LeafSplitNode _ _ c) = merged c"
| "merged (LeafRemoveNode _ _ c) = merged c"
| "merged (LeafMergeNode _ _ _ _) = True"

definition index_of :: "('k::linorder \<times> 'v) list \<Rightarrow> 'k \<Rightarrow> index_pair" where
  "index_of items k = (std_lower_bound (map fst items) k, k \<in> fst ` set items)"

definition above_low :: "'k::linorder key_node_id_pair \<Rightarrow> 'k \<Rightarrow> bool" where
  "above_low lo k \<longleftrightarrow> snd lo = INVALID_NODE_ID \<or> fst lo \<le> k"

definition below_high :: "'k::linorder key_node_id_pair \<Rightarrow> 'k \<Rightarrow> bool" where
  "below_high hi k \<longleftrightarrow> snd hi = INVALID_NODE_ID \<or> k < fst hi"

definition key_in_range :: "('k::linorder, 'v) base_node \<Rightarrow> 'k \<Rightarrow> bool" where
  "key_in_range n k \<longleftrightarrow> above_low (GetLowKeyPair n) k \<and> below_high (GetHighKeyPair n) k"

fun page_ok :: "('k::linorder, 'v) base_node \<Rightarrow> bool" where
  "page_ok (LeafNode m items) \<longleftrightarrow> sorted_less (map fst items) \<and> md_depth m = 0
     \<and> md_item_count m = int (length items)
     \<and> (\<forall>k \<in> fst ` set items. above_low (low_key_p m) k \<and> below_high (high_key_p m) k)"
| "page_ok (LeafInsertNode m item ip c) \<longleftrightarrow> page_ok c \<and> key_in_range c (fst item) \<and> page_map c (fst item) = None
     \<and> LeafInsertNode m item ip c = LeafInsertNode_ctor (fst item) (snd item) c (index_of (base_items c (fst item)) (fst item))"
| "page_ok (LeafDeleteNode m item ip c) \<longleftrightarrow> page_ok c \<and> key_in_range c (fst item) \<and> page_map c (fst item) = Some (snd item)
     \<and> LeafDeleteNode m item ip c = LeafDeleteNode_ctor (fst item) (snd item) c (index_of (base_items c (fst item)) (fst item))"
| "page_ok (LeafUpdateNode m item old ip c) \<longleftrightarrow> page_ok c \<and> key_in_range c (fst item) \<and> page_map c (fst item) = Some (snd old)
     \<and> fst old = fst item \<and> ip = index_of (base_items c (fst item)) (fst item)
     \<and> m = GetNodeMetaData (LeafUpdateNode_ctor (fst item) (snd old) (snd item) c ip)"
| "page_ok (LeafSplitNode m item c) \<longleftrightarrow> page_ok c \<and> \<not> IsDeltaNode c \<and> key_in_range c (fst item) \<and> snd item \<noteq> INVALID_NODE_ID
     \<and> m = NodeMetaData_ctor (GetLowKeyPair c) item (GetDepth c) (GetItemCount c - int (length (filter (\<lambda>e. fst item \<le> fst e) (base_items c (fst item)))))"
| "page_ok (LeafRemoveNode m i c) \<longleftrightarrow> False"
| "page_ok (LeafMergeNode m item r c) \<longleftrightarrow> page_ok c \<and> page_ok r
     \<and> GetHighKey c = fst item \<and> GetNextNodeID c \<noteq> INVALID_NODE_ID
     \<and> fst (GetLowKeyPair r) = fst item \<and> snd (GetLowKeyPair r) \<noteq> INVALID_NODE_ID
     \<and> above_low (GetLowKeyPair c) (fst item) \<and> below_high (GetHighKeyPair r) (fst item)
     \<and> LeafMergeNode m item r c = LeafMergeNode_ctor (fst item) r (snd item) c"

section \<open>Ranges, base nodes and item counts\<close>

lemmas meta_defs = GetLowKeyPair_def GetHighKeyPair_def GetHighKey_def GetNextNodeID_def GetDepth_def GetItemCount_def
  NodeMetaData_ctor_def

lemmas ctor_defs = LeafInsertNode_ctor_def LeafDeleteNode_ctor_def LeafUpdateNode_ctor_def LeafMergeNode_ctor_def

lemma map_of_not_None: "map_of xs k \<noteq> None \<longleftrightarrow> k \<in> fst ` set xs"
  by (simp add: map_of_eq_None_iff)

lemma page_map_in_range: "page_ok n \<Longrightarrow> page_map n k \<noteq> None \<Longrightarrow> key_in_range n k"
proof (induction n)
  case (LeafNode m items)
  then have "k \<in> fst ` set items" by (simp add: map_of_not_None [symmetric])
  then show ?case using LeafNode by (auto simp: key_in_range_def meta_defs)
next
  case (LeafMergeNode m item r c)
  then show ?case
    by (cases "fst item \<le> k") (auto simp: key_in_range_def above_low_def below_high_def ctor_defs meta_defs)
qed (auto simp: key_in_range_def above_low_def below_high_def ctor_defs meta_defs split: if_splits)

lemma finite_page_map: "finite (dom (page_map n))"
proof (induction n)
  case (LeafSplitNode m item c)
  then show ?case by (rule rev_finite_subset) (auto split: if_splits)
next
  case (LeafMergeNode m item r c)
  have "dom (page_map (LeafMergeNode m item r c)) \<subseteq> dom (page_map r) \<union> dom (page_map c)" by (auto split: if_splits)
  then show ?case using LeafMergeNode finite_subset by blast
qed (simp_all add: finite_dom_map_of del: fun_upd_apply)

text \<open>The item count of the metadata, which sizes every allocation, is the number of keys of the page.\<close>

lemma item_count_eq: "page_ok n \<Longrightarrow> GetItemCount n = int (card (dom (page_map n)))"
proof (induction n)
  case (LeafNode m items)
  then have "distinct (map fst items)" by (simp add: strict_sorted_iff)
  then have "card (dom (map_of items)) = length items" by (metis dom_map_of_conv_image_fst distinct_card image_set length_map)
  then show ?case using LeafNode by (simp add: meta_defs)
next
  case (LeafInsertNode m item ip c)
  then have "fst item \<notin> dom (page_map c)" by auto
  then show ?case using LeafInsertNode by (auto simp: ctor_defs meta_defs finite_page_map simp del: fun_upd_apply)
next
  case (LeafDeleteNode m item ip c)
  then have d: "fst item \<in> dom (page_map c)" by auto
  have "card (dom (page_map c) - {fst item}) = card (dom (page_map c)) - 1" using d by simp
  moreover have "0 < card (dom (page_map c))" using d finite_page_map [of c] by (metis card_gt_0_iff empty_iff)
  ultimately show ?case using LeafDeleteNode by (auto simp: ctor_defs meta_defs simp del: fun_upd_apply)
next
  case (LeafUpdateNode m item old ip c)
  then have "insert (fst item) (dom (page_map c)) = dom (page_map c)" by auto
  then show ?case using LeafUpdateNode by (auto simp: ctor_defs meta_defs simp del: fun_upd_apply)
next
  case (LeafSplitNode m item c)
  then obtain mc items where c: "c = LeafNode mc items" by (cases c) auto
  then have d: "distinct (map fst items)" using LeafSplitNode.prems by (simp add: strict_sorted_iff)
  let ?D = "dom (page_map c)" and ?H = "fst ` set (filter (\<lambda>e. fst item \<le> fst e) items)"
  have D: "?D = fst ` set items" using c by (simp add: dom_map_of_conv_image_fst)
  have "dom (page_map (LeafSplitNode m item c)) = {k \<in> ?D. k < fst item}" by (auto split: if_splits)
  also have "\<dots> = ?D - ?H" unfolding D by force
  finally have "dom (page_map (LeafSplitNode m item c)) = ?D - ?H" .
  moreover have "?H \<subseteq> ?D" unfolding D by auto
  moreover have "card ?H = length (filter (\<lambda>e. fst item \<le> fst e) items)"
    using d by (metis distinct_card distinct_map_filter image_set length_map)
  ultimately have "card (dom (page_map (LeafSplitNode m item c))) + length (filter (\<lambda>e. fst item \<le> fst e) items) = card ?D"
    using card_Diff_subset [of ?H ?D] card_mono [OF finite_page_map, of ?H c] by simp
  then show ?case using LeafSplitNode c by (auto simp: meta_defs)
next
  case (LeafMergeNode m item r c)
  have r: "k \<ge> fst item" if "k \<in> dom (page_map r)" for k
    using page_map_in_range [of r k] LeafMergeNode.prems that by (auto simp: key_in_range_def above_low_def)
  have c: "k < fst item" if "k \<in> dom (page_map c)" for k
    using page_map_in_range [of c k] LeafMergeNode.prems that by (auto simp: key_in_range_def below_high_def meta_defs)
  have "dom (page_map (LeafMergeNode m item r c)) = dom (page_map c) \<union> dom (page_map r)"
    using r c by (fastforce split: if_splits)
  moreover have "dom (page_map c) \<inter> dom (page_map r) = {}" using r c by fastforce
  ultimately have "card (dom (page_map (LeafMergeNode m item r c))) = card (dom (page_map c)) + card (dom (page_map r))"
    by (simp add: card_Un_disjoint finite_page_map)
  then show ?case using LeafMergeNode by (auto simp: ctor_defs meta_defs)
qed simp

lemma base_items_sorted: "page_ok n \<Longrightarrow> sorted_less (map fst (base_items n k))"
  by (induction n) (simp_all add: ctor_defs split: if_splits)

lemma base_items_same: "\<not> merged n \<Longrightarrow> base_items n k = base_items n k'"
  by (induction n) auto

lemma index_of_le: "sorted_less (map fst items) \<Longrightarrow> fst (index_of items k) \<le> length items"
  using std_lb.lb_le [of "map fst items" k] by (simp add: index_of_def)

lemma index_of_mono:
  assumes "sorted_less (map fst items)" "k \<le> k'"
  shows "fst (index_of items k) \<le> fst (index_of items k')"
proof (rule ccontr)
  let ?p = "std_lower_bound (map fst items) k" and ?q = "std_lower_bound (map fst items) k'"
  assume "\<not> ?thesis"
  then have lt: "?q < ?p" by (simp add: index_of_def)
  then have "map fst items ! ?q < k" using std_lb.lb_below [of "map fst items" ?q k] assms(1) by simp
  moreover have "?q < length (map fst items)" using lt std_lb.lb_le [of "map fst items" k] assms(1) by simp
  then have "k' \<le> map fst items ! ?q" using std_lb.lb_above [of "map fst items" k' ?q] assms(1) by simp
  ultimately show False using assms(2) by simp
qed

text \<open>A cut of the base node that contains the position of the key, as the shortcuts leave it.\<close>

definition cut_ok :: "('k::linorder \<times> 'v) list \<Rightarrow> 'k \<Rightarrow> nat \<Rightarrow> int \<Rightarrow> bool" where
  "cut_ok items k s e \<longleftrightarrow> s \<le> fst (index_of items k)
     \<and> (e = -1 \<or> (\<exists>j. e = int j \<and> fst (index_of items k) \<le> j \<and> j \<le> length items))"

lemma leaf_lower_bound_eq:
  assumes "sorted_less (map fst items)" "cut_ok items k s e"
  shows "leaf_lower_bound items s e k = Inr (fst (index_of items k))"
proof -
  let ?xs = "map fst items"
  define p where "p = std_lower_bound ?xs k"
  obtain j where j: "j = (if e = -1 then length items else nat e)" "s \<le> p" "p \<le> j" "j \<le> length items"
    using assms index_of_le [OF assms(1), of k] by (auto simp: cut_ok_def index_of_def p_def)
  have below: "\<forall>i < p. ?xs ! i < k" and above: "\<forall>i. p \<le> i \<and> i < length ?xs \<longrightarrow> k \<le> ?xs ! i"
    using std_lb.lb_below [of ?xs _ k] std_lb.lb_above [of ?xs k] assms(1) by (auto simp: p_def)
  define q where "q = lower_bound_loop ?xs k s (j - s)"
  have "q \<le> length ?xs \<and> (\<forall>i < q. ?xs ! i < k) \<and> (\<forall>i. q \<le> i \<and> i < length ?xs \<longrightarrow> k \<le> ?xs ! i)"
    unfolding q_def using j below above assms(1) by (intro lower_bound_loop_bounds) auto
  then have "std_lower_bound ?xs k = q" using assms(1) by (intro std_lb.lb_unique) auto
  then show ?thesis using j by (simp add: leaf_lower_bound_def Let_def index_of_def q_def)
qed

lemma index_of_hit:
  assumes "sorted_less (map fst items)"
  shows "fst (index_of items k) \<noteq> length items \<and> fst (items ! fst (index_of items k)) = k
         \<longleftrightarrow> k \<in> fst ` set items"
  using std_lb.lb_mem_iff [of "map fst items" k] index_of_le [OF assms, of k] assms
  by (auto simp: index_of_def order.order_iff_strict)

lemma index_of_lookup:
  assumes "sorted_less (map fst items)" "k \<in> fst ` set items"
  shows "items ! fst (index_of items k) = (k, the (map_of items k))"
proof -
  have h: "fst (index_of items k) < length items" "fst (items ! fst (index_of items k)) = k"
    using index_of_hit [OF assms(1)] assms(2) index_of_le [OF assms(1), of k] by (auto simp: order.order_iff_strict)
  then have "(k, snd (items ! fst (index_of items k))) \<in> set items" by (metis nth_mem prod.collapse)
  then show ?thesis using assms(1) h(2) by (metis map_of_is_SomeI option.sel prod.collapse strict_sorted_iff)
qed

section \<open>The searches answer from the contents\<close>

text \<open>The cut matters only until a merge record resets it.\<close>

definition nav_ok :: "('k::linorder, 'v) base_node \<Rightarrow> 'k \<Rightarrow> nat \<Rightarrow> int \<Rightarrow> bool" where
  "nav_ok n k s e \<longleftrightarrow> merged n \<or> cut_ok (base_items n k) k s e"

lemma nav_ok_start [simp]: "nav_ok n k 0 (-1)"
  by (simp add: nav_ok_def cut_ok_def)

lemma nav_ok_shortcut:
  assumes "page_ok c" "nav_ok c k s e"
  shows "k' < k \<Longrightarrow> nav_ok c k (fst (index_of (base_items c k') k')) e"
    and "k < k' \<Longrightarrow> nav_ok c k s (int (fst (index_of (base_items c k') k')))"
  using assms base_items_same [of c k k'] base_items_sorted [OF assms(1), of k]
    index_of_mono [of "base_items c k" k' k] index_of_mono [of "base_items c k" k k'] index_of_le [of "base_items c k" k']
  by (auto simp: nav_ok_def cut_ok_def)

lemma below_high_split:
  "page_ok (LeafSplitNode m item c) \<Longrightarrow> below_high (GetHighKeyPair (LeafSplitNode m item c)) k \<Longrightarrow>
     below_high (GetHighKeyPair c) k \<and> k < fst item"
  by (auto simp: key_in_range_def below_high_def meta_defs)

lemma navigate_item_eq:
  "page_ok n \<Longrightarrow> below_high (GetHighKeyPair n) k \<Longrightarrow> nav_ok n k s e \<Longrightarrow>
     NavigateLeafNode_item k n s e = Inr (map_option (Pair k) (page_map n k), index_of (base_items n k) k)"
proof (induction n arbitrary: s e)
  case (LeafNode m items)
  then have srt: "sorted_less (map fst items)" and "cut_ok items k s e" by (simp_all add: nav_ok_def)
  then have lb: "leaf_lower_bound items s e k = Inr (fst (index_of items k))" by (rule leaf_lower_bound_eq)
  show ?case
  proof (cases "k \<in> fst ` set items")
    case True
    then obtain v where "map_of items k = Some v" by (metis map_of_not_None option.exhaust)
    then show ?thesis
      using lb index_of_hit [OF srt, of k] index_of_lookup [OF srt True] True by (auto simp: index_of_def)
  next
    case False
    then have "map_of items k = None" by (metis map_of_eq_None_iff)
    then show ?thesis using lb index_of_hit [OF srt, of k] False by (auto simp: index_of_def)
  qed
next
  case (LeafInsertNode m item ip c)
  then show ?case
    using nav_ok_shortcut [of c k s e "fst item"] by (auto simp: ctor_defs meta_defs nav_ok_def)
next
  case (LeafDeleteNode m item ip c)
  then show ?case
    using nav_ok_shortcut [of c k s e "fst item"] by (auto simp: ctor_defs meta_defs nav_ok_def)
next
  case (LeafUpdateNode m item old ip c)
  then show ?case
    using nav_ok_shortcut [of c k s e "fst item"] by (auto simp: ctor_defs meta_defs nav_ok_def)
next
  case (LeafSplitNode m item c)
  then show ?case using below_high_split [of m item c k] by (auto simp: nav_ok_def)
next
  case (LeafMergeNode m item r c)
  then show ?case by (auto simp: below_high_def ctor_defs meta_defs)
qed simp

lemma navigate_values_eq:
  "page_ok n \<Longrightarrow> below_high (GetHighKeyPair n) k \<Longrightarrow> nav_ok n k s e \<Longrightarrow>
     NavigateLeafNode_values k n s e vs = Inr (vs @ (case page_map n k of None \<Rightarrow> [] | Some v \<Rightarrow> [v]))"
proof (induction n arbitrary: s e)
  case (LeafNode m items)
  then have srt: "sorted_less (map fst items)" and "cut_ok items k s e" by (simp_all add: nav_ok_def)
  then have lb: "leaf_lower_bound items s e k = Inr (fst (index_of items k))" by (rule leaf_lower_bound_eq)
  show ?case
  proof (cases "k \<in> fst ` set items")
    case True
    then obtain v where "map_of items k = Some v" by (metis map_of_not_None option.exhaust)
    then show ?thesis
      using lb index_of_hit [OF srt, of k] index_of_lookup [OF srt True] True by auto
  next
    case False
    then have "map_of items k = None" by (metis map_of_eq_None_iff)
    then show ?thesis using lb index_of_hit [OF srt, of k] False by auto
  qed
next
  case (LeafInsertNode m item ip c)
  then show ?case
    using nav_ok_shortcut [of c k s e "fst item"] by (auto simp: ctor_defs meta_defs nav_ok_def)
next
  case (LeafDeleteNode m item ip c)
  then show ?case
    using nav_ok_shortcut [of c k s e "fst item"] by (auto simp: ctor_defs meta_defs nav_ok_def)
next
  case (LeafUpdateNode m item old ip c)
  then show ?case
    using nav_ok_shortcut [of c k s e "fst item"] by (auto simp: ctor_defs meta_defs nav_ok_def)
next
  case (LeafSplitNode m item c)
  then show ?case using below_high_split [of m item c k] by (auto simp: nav_ok_def)
next
  case (LeafMergeNode m item r c)
  then show ?case by (auto simp: below_high_def ctor_defs meta_defs)
qed simp

section \<open>The records the writers prepare\<close>

lemma key_in_range_below: "key_in_range n k \<Longrightarrow> below_high (GetHighKeyPair n) k"
  by (simp add: key_in_range_def)

lemma Insert_attempt_eq:
  assumes "page_ok n" "key_in_range n k"
  shows "Insert_attempt k v n = Inr (if page_map n k = None
    then Some (LeafInsertNode_ctor k v n (index_of (base_items n k) k)) else None)"
  using navigate_item_eq [OF assms(1) key_in_range_below [OF assms(2)] nav_ok_start]
  by (auto simp: Insert_attempt_def split: option.splits)

lemma Delete_attempt_eq:
  assumes "page_ok n" "key_in_range n k"
  shows "Delete_attempt k n = Inr (case page_map n k of None \<Rightarrow> None
    | Some v \<Rightarrow> Some (LeafDeleteNode_ctor k v n (index_of (base_items n k) k)))"
  using navigate_item_eq [OF assms(1) key_in_range_below [OF assms(2)] nav_ok_start]
  by (auto simp: Delete_attempt_def split: option.splits)

lemma Upsert_attempt_eq:
  assumes "page_ok n" "key_in_range n k"
  shows "Upsert_attempt k v n = Inr (case page_map n k of
      None \<Rightarrow> (True, LeafInsertNode_ctor k v n (index_of (base_items n k) k))
    | Some w \<Rightarrow> (False, LeafUpdateNode_ctor k w v n (index_of (base_items n k) k)))"
  using navigate_item_eq [OF assms(1) key_in_range_below [OF assms(2)] nav_ok_start]
  by (auto simp: Upsert_attempt_def split: option.splits)

text \<open>A record keeps the key range of its page, so the pages a key can be looked up in do not change.\<close>

lemma key_in_range_ctor [simp]:
  "key_in_range (LeafInsertNode_ctor k v n ip) = key_in_range n" "key_in_range (LeafDeleteNode_ctor k v n ip) = key_in_range n"
  "key_in_range (LeafUpdateNode_ctor k w v n ip) = key_in_range n"
  by (simp_all add: fun_eq_iff key_in_range_def ctor_defs meta_defs)

lemma page_map_ctor [simp]:
  "page_map (LeafInsertNode_ctor k v n ip) = (page_map n)(k \<mapsto> v)"
  "page_map (LeafDeleteNode_ctor k v n ip) = (page_map n)(k := None)"
  "page_map (LeafUpdateNode_ctor k w v n ip) = (page_map n)(k \<mapsto> v)"
  by (simp_all add: ctor_defs del: fun_upd_apply)

lemma page_ok_ctor:
  "page_ok n \<Longrightarrow> key_in_range n k \<Longrightarrow> page_map n k = None \<Longrightarrow>
     page_ok (LeafInsertNode_ctor k v n (index_of (base_items n k) k))"
  "page_ok n \<Longrightarrow> key_in_range n k \<Longrightarrow> page_map n k = Some w \<Longrightarrow>
     page_ok (LeafDeleteNode_ctor k w n (index_of (base_items n k) k))"
  "page_ok n \<Longrightarrow> key_in_range n k \<Longrightarrow> page_map n k = Some w \<Longrightarrow>
     page_ok (LeafUpdateNode_ctor k w v n (index_of (base_items n k) k))"
  by (simp_all add: ctor_defs)

lemma GetValue_on_leaf_eq:
  assumes "page_ok n" "key_in_range n k"
  shows "GetValue_on_leaf k n = Inr (case page_map n k of None \<Rightarrow> [] | Some v \<Rightarrow> [v])"
  using navigate_values_eq [OF assms(1) key_in_range_below [OF assms(2)] nav_ok_start, of "[]"]
  by (simp add: GetValue_on_leaf_def)

section \<open>Properties of the page operations\<close>

text \<open>
  The lookup of a page and the search of its writers agree with each other and with the replay of
  the page: for a key in the range of a well-formed page both return its value, whatever the shortcuts
  that deltas on other keys have taken, and the writers' search reports the position of the key in the
  base node.
\<close>

theorem leaf_searches_agree:
  assumes "page_ok n" "key_in_range n k"
  shows "GetValue_on_leaf k n = Inr (case page_map n k of None \<Rightarrow> [] | Some v \<Rightarrow> [v])
    \<and> NavigateLeafNode_item k n 0 (-1) = Inr (map_option (Pair k) (page_map n k), index_of (base_items n k) k)"
  using GetValue_on_leaf_eq [OF assms] navigate_item_eq [OF assms(1) key_in_range_below [OF assms(2)] nav_ok_start] by simp

text \<open>
  C16. The records that \<^verbatim>\<open>Insert\<close>, \<^verbatim>\<open>Delete\<close> and \<^verbatim>\<open>Upsert\<close> put on a page are the updates of its
  contents: \<^verbatim>\<open>Insert\<close> adds an absent key and refuses a present one, \<^verbatim>\<open>Delete\<close> the other way round,
  \<^verbatim>\<open>Upsert\<close> always writes and reports whether the key is new; every new page is well formed, covers
  the same range and counts its items right.
\<close>

theorem leaf_writers_update_the_map:
  assumes "page_ok n" "key_in_range n k"
  shows "\<exists>i d u. Insert_attempt k v n = Inr i \<and> Delete_attempt k n = Inr d \<and> Upsert_attempt k v n = Inr (page_map n k = None, u)
    \<and> map_option page_map i = (if page_map n k = None then Some ((page_map n)(k \<mapsto> v)) else None)
    \<and> map_option page_map d = (if page_map n k = None then None else Some ((page_map n)(k := None)))
    \<and> page_map u = (page_map n)(k \<mapsto> v)
    \<and> list_all (\<lambda>c. page_ok c \<and> key_in_range c = key_in_range n \<and> GetItemCount c = int (card (dom (page_map c))))
        (u # case_option [] (\<lambda>c. [c]) i @ case_option [] (\<lambda>c. [c]) d)"
  unfolding Insert_attempt_eq [OF assms] Delete_attempt_eq [OF assms] Upsert_attempt_eq [OF assms]
  using page_ok_ctor [OF assms] by (cases "page_map n k") (simp_all add: item_count_eq del: fun_upd_apply)

text \<open>A page with three items, two updates, a deletion and an insertion.\<close>

definition example_page :: "(nat, nat) base_node" where
  "example_page =
     (let n0 = LeafNode (NodeMetaData_ctor (0, INVALID_NODE_ID) (60, 7) 0 3) [(10, 1), (20, 2), (30, 3)];
          n1 = LeafUpdateNode_ctor 30 3 33 n0 (2, True);
          n2 = LeafInsertNode_ctor 25 5 n1 (2, False);
          n3 = LeafDeleteNode_ctor 10 1 n2 (0, True)
      in LeafUpdateNode_ctor 25 5 6 n3 (2, False))"

lemma example_page_ok: "page_ok example_page" "key_in_range example_page 25" "key_in_range example_page 40"
  by code_simp+

theorem leaf_searches_agree_witness:
  "GetValue_on_leaf 25 example_page = Inr [6] \<and> NavigateLeafNode_item 25 example_page 0 (-1) = Inr (Some (25, 6), (2, False))"
proof -
  have "page_map example_page 25 = Some 6" "index_of (base_items example_page 25) 25 = (2, False)" by code_simp+
  then show ?thesis using leaf_searches_agree [OF example_page_ok(1,2)] by simp
qed

theorem leaf_writers_update_the_map_witness:
  "\<exists>u. Upsert_attempt 40 4 example_page = Inr (True, u) \<and> page_map u 40 = Some 4 \<and> page_map u 25 = Some 6
     \<and> GetItemCount u = int (card (dom (page_map u)))"
proof -
  have "page_map example_page 40 = None" "page_map example_page 25 = Some 6" by code_simp+
  then show ?thesis using leaf_writers_update_the_map [OF example_page_ok(1,3), of 4] by auto
qed

end
