(* ===== verification/Bw_Consolidate.thy ===== *)
theory Bw_Consolidate
  imports Bw_Leaf
begin

text \<open>
  Consolidation of a leaf page of the Bw-tree (\<^verbatim>\<open>CollectAllValuesOnLeaf\<close> and
  \<^verbatim>\<open>CollectAllValuesOnLeafRecursive\<close> of \<^verbatim>\<open>src/src/indices/bw_tree/thread/bwtree.h\<close>): the delta
  records are gathered in the sorted small set, newest first and one per key thanks to the filter, and
  then merged with the base node from left to right; a merge record does both branches with the same
  two containers. The containers live in arrays of the caller's stack frame whose sizes come from the
  depth in the metadata; their initial contents are the arguments \<open>sss_data_p\<close> and
  \<open>delta_set_data_p\<close>. The new base node has room for exactly the item count of the metadata.

  The theory shows that a well-formed page is rewritten into one base node with the same contents and
  range, and that no array overflows on the way.
\<close>

section \<open>The code\<close>

datatype leaf_data_type = LeafInsertType | LeafDeleteType | LeafUpdateType

record ('k, 'v) leaf_data_node =
  ld_type :: leaf_data_type
  ld_item :: "'k \<times> 'v"
  ld_index_pair :: index_pair

text \<open>The comparison \<^verbatim>\<open>f1\<close> of the sorted small set.\<close>

definition ld_less :: "('k::linorder, 'v) leaf_data_node \<Rightarrow> ('k, 'v) leaf_data_node \<Rightarrow> bool" where
  "ld_less ldn1 ldn2 =
     (if fst (ld_item ldn1) < fst (ld_item ldn2) then True
      else if fst (ld_item ldn1) = fst (ld_item ldn2) then fst (ld_index_pair ldn1) < fst (ld_index_pair ldn2)
      else False)"

text \<open>
  \<^verbatim>\<open>LeafNode::PushBack\<close> of one element and of a range of the old array, on a new node with \<open>cap\<close> slots.
\<close>

definition PushBack :: "nat \<Rightarrow> 'a list \<Rightarrow> 'a \<Rightarrow> 'a list result" where
  "PushBack cap new element = (if length new < cap then Inr (new @ [element]) else Inl OutOfBounds)"

definition PushBack_range :: "nat \<Rightarrow> 'a list \<Rightarrow> 'a list \<Rightarrow> nat \<Rightarrow> nat \<Rightarrow> 'a list result" where
  "PushBack_range cap new items copy_start copy_end =
     (if \<not> copy_start \<le> copy_end then Inl AssertionFailed
      else if copy_end \<le> length items \<and> length new + (copy_end - copy_start) \<le> cap
      then Inr (new @ take (copy_end - copy_start) (drop copy_start items)) else Inl OutOfBounds)"

text \<open>The scan from the end of the set for the first record at or above the high key; \<open>j\<close> is \<^verbatim>\<open>sss_end_it + 1\<close>.\<close>

fun sss_end_scan :: "('k::linorder, 'v) leaf_data_node sorted_small_set \<Rightarrow> 'k \<Rightarrow> nat \<Rightarrow> nat result" where
  "sss_end_scan sss high 0 = Inr 0"
| "sss_end_scan sss high (Suc j) =
     (if SortedSmallSet_GetBegin sss \<le> j
      then bindR (aget (sss_data sss) j) (\<lambda>d. if fst (ld_item d) < high then Inr (Suc j) else sss_end_scan sss high j)
      else Inr (Suc j))"

text \<open>The inner loop: drain the records on one index.\<close>

function drain ::
  "nat \<Rightarrow> nat \<Rightarrow> nat \<Rightarrow> ('k::linorder, 'v) leaf_data_node sorted_small_set \<Rightarrow> bool \<Rightarrow> ('k \<times> 'v) list
     \<Rightarrow> (('k, 'v) leaf_data_node sorted_small_set \<times> bool \<times> ('k \<times> 'v) list) result" where
  "drain cap sss_end_it current_index sss item_overwritten new =
     bindR (SortedSmallSet_GetFront sss) (\<lambda>d.
       if fst (ld_index_pair d) = current_index
       then bindR (SortedSmallSet_PopFront sss) (\<lambda>(_, sss').
            bindR (if ld_type d = LeafInsertType \<or> ld_type d = LeafUpdateType then PushBack cap new (ld_item d) else Inr new) (\<lambda>new'.
              if SortedSmallSet_GetBegin sss' = sss_end_it
              then Inr (sss', item_overwritten \<or> snd (ld_index_pair d), new')
              else drain cap sss_end_it current_index sss' (item_overwritten \<or> snd (ld_index_pair d)) new'))
       else Inr (sss, item_overwritten, new))"
  by pat_completeness auto
termination
  by (relation "measure (\<lambda>(_, _, _, sss, _, _). end_p sss - start_p sss)")
    (auto simp: SortedSmallSet_PopFront_def bindR_eq_Inr split: if_splits)

declare drain.simps [simp del]

lemma PopFront_progress:
  "SortedSmallSet_PopFront s = Inr (d, s') \<Longrightarrow> start_p s < end_p s \<and> start_p s' = Suc (start_p s) \<and> end_p s' = end_p s"
  by (auto simp: SortedSmallSet_PopFront_def bindR_eq_Inr split: if_splits)

lemma drain_progress:
  "drain cap e i s ow new = Inr (s', ow', new') \<Longrightarrow>
     start_p s \<le> start_p s' \<and> end_p s' = end_p s
     \<and> (\<forall>d. SortedSmallSet_GetFront s = Inr d \<and> fst (ld_index_pair d) = i \<longrightarrow> start_p s < start_p s' \<and> start_p s < end_p s)"
proof (induction cap e i s ow new rule: drain.induct)
  case (1 cap e i s ow new)
  note eq = "1.prems" [unfolded drain.simps [of cap e i s ow new]]
  then obtain d where d: "SortedSmallSet_GetFront s = Inr d" by (auto simp: bindR_eq_Inr)
  show ?case
  proof (cases "fst (ld_index_pair d) = i")
    case False
    then show ?thesis using eq d by simp
  next
    case True
    then obtain x t new1 where pop: "SortedSmallSet_PopFront s = Inr (x, t)"
      and push: "(if ld_type d = LeafInsertType \<or> ld_type d = LeafUpdateType then PushBack cap new (ld_item d) else Inr new) = Inr new1"
      and rest: "(if SortedSmallSet_GetBegin t = e then Inr (t, ow \<or> snd (ld_index_pair d), new1)
        else drain cap e i t (ow \<or> snd (ld_index_pair d)) new1) = Inr (s', ow', new')"
      using eq d by (simp add: bindR_eq_Inr) blast
    have "start_p t \<le> start_p s' \<and> end_p s' = end_p t"
      using rest "1.IH" [OF d True pop refl push] by (simp split: if_splits)
    then show ?thesis using PopFront_progress [OF pop] d by auto
  qed
qed

text \<open>The merge of the records below \<open>sss_end_it\<close> with the base node.\<close>

function merge_loop ::
  "nat \<Rightarrow> nat \<Rightarrow> nat \<Rightarrow> ('k \<times> 'v) list \<Rightarrow> nat \<Rightarrow> ('k::linorder, 'v) leaf_data_node sorted_small_set \<Rightarrow> ('k \<times> 'v) list
     \<Rightarrow> (nat \<times> ('k, 'v) leaf_data_node sorted_small_set \<times> ('k \<times> 'v) list) result" where
  "merge_loop cap sss_end_it copy_end_index items copy_start_index sss new =
     (if SortedSmallSet_GetBegin sss \<noteq> sss_end_it
      then bindR (SortedSmallSet_GetFront sss) (\<lambda>d.
           let current_index = fst (ld_index_pair d)
           in if \<not> copy_start_index \<le> current_index \<or> \<not> current_index \<le> copy_end_index then Inl AssertionFailed
              else bindR (PushBack_range cap new items copy_start_index current_index) (\<lambda>new'.
                   bindR (drain cap sss_end_it current_index sss False new') (\<lambda>(sss', item_overwritten, new'').
                   merge_loop cap sss_end_it copy_end_index items
                     (if item_overwritten then current_index + 1 else current_index) sss' new'')))
      else Inr (copy_start_index, sss, new))"
  by pat_completeness auto
termination
  by (relation "measure (\<lambda>(_, _, _, _, _, sss, _). end_p sss - start_p sss)") (auto dest!: drain_progress)

declare merge_loop.simps [simp del]

definition collect_leaf ::
  "nat \<Rightarrow> 'k key_node_id_pair \<Rightarrow> ('k \<times> 'v) list \<Rightarrow> ('k::linorder, 'v) leaf_data_node sorted_small_set \<Rightarrow> ('k \<times> 'v) list
     \<Rightarrow> (('k, 'v) leaf_data_node sorted_small_set \<times> ('k \<times> 'v) list) result" where
  "collect_leaf cap high_key_pair items sss new =
     (let copy_end_index = (if snd high_key_pair = INVALID_NODE_ID then length items
                            else std_lower_bound (map fst items) (fst high_key_pair))
      in bindR (if snd high_key_pair \<noteq> INVALID_NODE_ID then sss_end_scan sss (fst high_key_pair) (SortedSmallSet_GetEnd sss)
                else Inr (SortedSmallSet_GetEnd sss)) (\<lambda>sss_end_it.
         bindR (merge_loop cap sss_end_it copy_end_index items 0 sss new) (\<lambda>(copy_start_index, sss', new').
         bindR (PushBack_range cap new' items copy_start_index copy_end_index) (\<lambda>new''. Inr (sss', new'')))))"

text \<open>The treatment of a delta record: the first record of a key is kept.\<close>

definition collect_delta ::
  "('k::linorder \<Rightarrow> 64 word) \<Rightarrow> ('k, 'v) leaf_data_node \<Rightarrow> ('k, 'v) leaf_data_node sorted_small_set \<Rightarrow> 'k bloom_filter
     \<Rightarrow> (('k, 'v) leaf_data_node sorted_small_set \<times> 'k bloom_filter) result" where
  "collect_delta hash d sss delta_set =
     bindR (BloomFilter_Exists (=) hash delta_set (fst (ld_item d))) (\<lambda>present.
       if \<not> present
       then bindR (BloomFilter_Insert hash delta_set (fst (ld_item d))) (\<lambda>delta_set'.
            bindR (SortedSmallSet_InsertNoDedup ld_less sss d) (\<lambda>sss'. Inr (sss', delta_set')))
       else Inr (sss, delta_set))"

definition collect_old_item :: "('k::linorder \<Rightarrow> 64 word) \<Rightarrow> 'k \<times> 'v \<Rightarrow> 'k bloom_filter \<Rightarrow> 'k bloom_filter result" where
  "collect_old_item hash old_item delta_set =
     bindR (BloomFilter_Exists (=) hash delta_set (fst old_item)) (\<lambda>present.
       if \<not> present then BloomFilter_Insert hash delta_set (fst old_item) else Inr delta_set)"

fun CollectAllValuesOnLeafRecursive ::
  "('k::linorder \<Rightarrow> 64 word) \<Rightarrow> nat \<Rightarrow> 'k key_node_id_pair \<Rightarrow> ('k, 'v) base_node
     \<Rightarrow> ('k, 'v) leaf_data_node sorted_small_set \<Rightarrow> 'k bloom_filter \<Rightarrow> ('k \<times> 'v) list
     \<Rightarrow> (('k, 'v) leaf_data_node sorted_small_set \<times> 'k bloom_filter \<times> ('k \<times> 'v) list) result" where
  "CollectAllValuesOnLeafRecursive hash cap high (LeafNode _ items) sss delta_set new =
     bindR (collect_leaf cap high items sss new) (\<lambda>(sss', new'). Inr (sss', delta_set, new'))"
| "CollectAllValuesOnLeafRecursive hash cap high (LeafInsertNode _ item ip child_node_p) sss delta_set new =
     bindR (collect_delta hash \<lparr>ld_type = LeafInsertType, ld_item = item, ld_index_pair = ip\<rparr> sss delta_set)
       (\<lambda>(sss', delta_set'). CollectAllValuesOnLeafRecursive hash cap high child_node_p sss' delta_set' new)"
| "CollectAllValuesOnLeafRecursive hash cap high (LeafDeleteNode _ item ip child_node_p) sss delta_set new =
     bindR (collect_delta hash \<lparr>ld_type = LeafDeleteType, ld_item = item, ld_index_pair = ip\<rparr> sss delta_set)
       (\<lambda>(sss', delta_set'). CollectAllValuesOnLeafRecursive hash cap high child_node_p sss' delta_set' new)"
| "CollectAllValuesOnLeafRecursive hash cap high (LeafUpdateNode _ item old_item ip child_node_p) sss delta_set new =
     bindR (collect_delta hash \<lparr>ld_type = LeafUpdateType, ld_item = item, ld_index_pair = ip\<rparr> sss delta_set)
       (\<lambda>(sss', delta_set'). bindR (collect_old_item hash old_item delta_set')
       (\<lambda>delta_set''. CollectAllValuesOnLeafRecursive hash cap high child_node_p sss' delta_set'' new))"
| "CollectAllValuesOnLeafRecursive hash cap high (LeafRemoveNode _ _ _) sss delta_set new = Inl AssertionFailed"
| "CollectAllValuesOnLeafRecursive hash cap high (LeafSplitNode _ _ child_node_p) sss delta_set new =
     CollectAllValuesOnLeafRecursive hash cap high child_node_p sss delta_set new"
| "CollectAllValuesOnLeafRecursive hash cap high (LeafMergeNode _ _ right_merge_p child_node_p) sss delta_set new =
     bindR (CollectAllValuesOnLeafRecursive hash cap (GetHighKeyPair child_node_p) child_node_p sss delta_set new)
       (\<lambda>(sss', delta_set', new'). CollectAllValuesOnLeafRecursive hash cap (GetHighKeyPair right_merge_p) right_merge_p sss' delta_set' new')"

definition CollectAllValuesOnLeaf ::
  "('k::linorder \<Rightarrow> 64 word) \<Rightarrow> (nat \<Rightarrow> ('k, 'v) leaf_data_node) \<Rightarrow> (nat \<Rightarrow> 'k) \<Rightarrow> ('k, 'v) base_node \<Rightarrow> ('k, 'v) base_node result" where
  "CollectAllValuesOnLeaf hash sss_data_p delta_set_data_p node_p =
     (let delta_change_num = nat (GetDepth node_p);
          delta_set = BloomFilter_ctor (map delta_set_data_p [0..<delta_change_num * 2]);
          sss = SortedSmallSet_ctor (map sss_data_p [0..<delta_change_num])
      in bindR (CollectAllValuesOnLeafRecursive hash (nat (GetItemCount node_p)) (GetHighKeyPair node_p) node_p sss delta_set [])
           (\<lambda>(_, _, items). if int (length items) = GetItemCount node_p
              then Inr (LeafNode (NodeMetaData_ctor (GetLowKeyPair node_p) (GetHighKeyPair node_p) 0 (GetItemCount node_p)) items)
              else Inl AssertionFailed))"

section \<open>The merge loops, one record at a time\<close>

definition segment :: "'a list \<Rightarrow> nat \<Rightarrow> nat \<Rightarrow> 'a list" where
  "segment xs a b = take (b - a) (drop a xs)"

lemma segment_append:
  assumes "a \<le> b" "b \<le> c"
  shows "segment xs a c = segment xs a b @ segment xs b c"
proof -
  obtain m n where "b = a + m" "c = a + m + n" using assms by (metis le_Suc_ex)
  then show ?thesis by (simp add: segment_def take_add add.commute)
qed

lemma segment_self [simp]: "segment xs a a = []"
  by (simp add: segment_def)

lemma length_segment [simp]: "b \<le> length xs \<Longrightarrow> length (segment xs a b) = b - a"
  by (simp add: segment_def)

lemma in_set_segment: "b \<le> length xs \<Longrightarrow> x \<in> set (segment xs a b) \<longleftrightarrow> (\<exists>i. a \<le> i \<and> i < b \<and> xs ! i = x)"
proof
  assume b: "b \<le> length xs" "x \<in> set (segment xs a b)"
  then obtain j where "j < length (segment xs a b)" "segment xs a b ! j = x" by (metis in_set_conv_nth)
  then have "a + j < b" "xs ! (a + j) = x" using b by (auto simp: segment_def)
  then show "\<exists>i. a \<le> i \<and> i < b \<and> xs ! i = x" by (intro exI [of _ "a + j"]) simp
next
  assume b: "b \<le> length xs" "\<exists>i. a \<le> i \<and> i < b \<and> xs ! i = x"
  then obtain i where i: "a \<le> i" "i < b" "xs ! i = x" by blast
  then have "segment xs a b ! (i - a) = x" "i - a < length (segment xs a b)" using b by (auto simp: segment_def)
  then show "x \<in> set (segment xs a b)" by (metis nth_mem)
qed

abbreviation ld_key :: "('k, 'v) leaf_data_node \<Rightarrow> 'k" where
  "ld_key d \<equiv> fst (ld_item d)"

definition ld_out :: "('k, 'v) leaf_data_node \<Rightarrow> ('k \<times> 'v) list" where
  "ld_out d = (if ld_type d = LeafDeleteType then [] else [ld_item d])"

text \<open>Where the copy of the base node continues behind a record.\<close>

definition ld_next :: "('k, 'v) leaf_data_node \<Rightarrow> nat" where
  "ld_next d = fst (ld_index_pair d) + of_bool (snd (ld_index_pair d))"

fun flat_merge :: "('k \<times> 'v) list \<Rightarrow> nat \<Rightarrow> nat \<Rightarrow> ('k, 'v) leaf_data_node list \<Rightarrow> ('k \<times> 'v) list" where
  "flat_merge items e c [] = segment items c e"
| "flat_merge items e c (d # ds) = segment items c (fst (ld_index_pair d)) @ ld_out d @ flat_merge items e (ld_next d) ds"

text \<open>Indices that ascend and leave an overwritten item behind.\<close>

definition run_ok :: "nat \<Rightarrow> nat \<Rightarrow> ('k, 'v) leaf_data_node list \<Rightarrow> bool" where
  "run_ok e c ds \<longleftrightarrow> (\<forall>d \<in> set ds. c \<le> fst (ld_index_pair d) \<and> ld_next d \<le> e)
     \<and> sorted_wrt (\<lambda>d d'. ld_next d \<le> fst (ld_index_pair d')) ds"

lemma run_ok_Cons:
  "run_ok e c (d # ds) \<longleftrightarrow> c \<le> fst (ld_index_pair d) \<and> ld_next d \<le> e \<and> run_ok e (ld_next d) ds"
  by (auto simp: run_ok_def ld_next_def)

lemma PushBack_range_eq:
  "a \<le> b \<Longrightarrow> b \<le> length items \<Longrightarrow> length new + (b - a) \<le> cap \<Longrightarrow>
     PushBack_range cap new items a b = Inr (new @ segment items a b)"
  by (simp add: PushBack_range_def segment_def)

text \<open>The records between the cursor and the end iterator.\<close>

definition pending_records :: "nat \<Rightarrow> 'a sorted_small_set \<Rightarrow> 'a list" where
  "pending_records e s = drop (start_p s) (take e (sss_data s))"

lemma pending_records_Cons:
  assumes "start_p s < e" "e \<le> length (sss_data s)"
  shows "pending_records e s = sss_data s ! start_p s # pending_records e (s\<lparr>start_p := Suc (start_p s)\<rparr>)"
  using assms by (simp add: pending_records_def Cons_nth_drop_Suc [symmetric])

lemma pending_records_Nil: "e \<le> start_p s \<Longrightarrow> pending_records e s = []"
  by (simp add: pending_records_def)

lemma drain_eq:
  assumes "e \<le> end_p s" "e \<le> length (sss_data s)" "start_p s < e" "pending_records e s = d # ds"
    and "run_ok ec i (d # ds)" "fst (ld_index_pair d) = i" "length new + length (flat_merge items ec i (d # ds)) \<le> cap"
  shows "\<exists>j ow outs. start_p s < j \<and> j \<le> e \<and> drain cap e i s False new = Inr (s\<lparr>start_p := j\<rparr>, ow, new @ outs)
    \<and> outs @ flat_merge items ec (i + of_bool ow) (pending_records e (s\<lparr>start_p := j\<rparr>)) = flat_merge items ec i (d # ds)
    \<and> run_ok ec (i + of_bool ow) (pending_records e (s\<lparr>start_p := j\<rparr>)) \<and> i + of_bool ow \<le> ec"
  using assms
proof (induction "e - start_p s" arbitrary: s d ds new)
  case (Suc n)
  let ?s = "s\<lparr>start_p := Suc (start_p s)\<rparr>"
  have d: "sss_data s ! start_p s = d" "pending_records e ?s = ds" using pending_records_Cons [of s e] Suc.prems by simp_all
  have front: "SortedSmallSet_GetFront s = Inr d" using d Suc.prems by (simp add: SortedSmallSet_GetFront_def aget_def)
  have pop: "SortedSmallSet_PopFront s = Inr (d, ?s)" using d Suc.prems by (simp add: SortedSmallSet_PopFront_def aget_def)
  have len: "length new + length (ld_out d) \<le> cap" using Suc.prems(7) by simp
  have push: "(if ld_type d = LeafInsertType \<or> ld_type d = LeafUpdateType then PushBack cap new (ld_item d) else Inr new) = Inr (new @ ld_out d)"
    using len by (cases "ld_type d") (auto simp: PushBack_def ld_out_def)
  define ow where "ow = snd (ld_index_pair d)"
  have step: "drain cap e i s False new = (if Suc (start_p s) = e then Inr (?s, ow, new @ ld_out d)
      else drain cap e i ?s ow (new @ ld_out d))"
    unfolding drain.simps [of cap e i s False new] using front pop push Suc.prems(6)
    by (simp add: SortedSmallSet_GetBegin_def ow_def)
  have nx: "ld_next d = i + of_bool ow" using Suc.prems(6) by (simp add: ld_next_def ow_def)
  have flat: "flat_merge items ec i (d # ds) = ld_out d @ flat_merge items ec (i + of_bool ow) ds"
    using Suc.prems(6) nx by simp
  have run: "run_ok ec (i + of_bool ow) ds" "i + of_bool ow \<le> ec" using Suc.prems(5) nx by (simp_all add: run_ok_Cons)
  have stop: ?case if "drain cap e i s False new = Inr (?s, ow, new @ ld_out d)"
    using that flat run d(2) Suc.prems(3) by (intro exI [of _ "Suc (start_p s)"] exI [of _ ow] exI [of _ "ld_out d"]) simp
  show ?case
  proof (cases "Suc (start_p s) = e")
    case True
    then show ?thesis using step stop by simp
  next
    case False
    then have lt: "start_p ?s < e" using Suc.prems(3) by simp
    then obtain d1 ds1 where ds: "ds = d1 # ds1" using pending_records_Cons [of ?s e] Suc.prems(2) d(2) by auto
    have front1: "SortedSmallSet_GetFront ?s = Inr d1"
      using pending_records_Cons [of ?s e] lt Suc.prems(2) d(2) ds by (simp add: SortedSmallSet_GetFront_def aget_def)
    show ?thesis
    proof (cases "fst (ld_index_pair d1) = i")
      case False
      then show ?thesis
        using step stop lt front1 by (simp add: drain.simps [of cap e i ?s])
    next
      case True
      then have "ow = False" using run(1) ds by (auto simp: run_ok_Cons)
      moreover have "n = e - start_p ?s" using Suc.hyps(2) by simp
      ultimately obtain j ow' outs where "start_p ?s < j" "j \<le> e"
          "drain cap e i ?s False (new @ ld_out d) = Inr (?s\<lparr>start_p := j\<rparr>, ow', (new @ ld_out d) @ outs)"
          "outs @ flat_merge items ec (i + of_bool ow') (pending_records e (?s\<lparr>start_p := j\<rparr>)) = flat_merge items ec i (d1 # ds1)"
          "run_ok ec (i + of_bool ow') (pending_records e (?s\<lparr>start_p := j\<rparr>))" "i + of_bool ow' \<le> ec"
        using Suc.hyps(1) [of ?s d1 ds1 "new @ ld_out d"] Suc.prems lt d ds run flat True by auto
      then show ?thesis
        using step \<open>ow = False\<close> flat ds \<open>Suc (start_p s) \<noteq> e\<close>
        by (intro exI [of _ j] exI [of _ ow'] exI [of _ "ld_out d @ outs"]) simp
    qed
  qed
qed simp

lemma merge_loop_eq:
  assumes "e \<le> end_p s" "e \<le> length (sss_data s)" "start_p s \<le> e" "run_ok ec c (pending_records e s)" "c \<le> ec" "ec \<le> length items"
    and "length new + length (flat_merge items ec c (pending_records e s)) \<le> cap"
  shows "\<exists>c' outs. merge_loop cap e ec items c s new = Inr (c', s\<lparr>start_p := e\<rparr>, new @ outs) \<and> c' \<le> ec
    \<and> outs @ segment items c' ec = flat_merge items ec c (pending_records e s)"
  using assms
proof (induction "e - start_p s" arbitrary: s c new rule: less_induct)
  case less
  show ?case
  proof (cases "start_p s = e")
    case True
    then have "s\<lparr>start_p := e\<rparr> = s" "pending_records e s = []" by (auto simp: pending_records_Nil)
    then show ?thesis using True less.prems by (simp add: merge_loop.simps SortedSmallSet_GetBegin_def)
  next
    case False
    then have lt: "start_p s < e" using less.prems(3) by simp
    let ?d = "sss_data s ! start_p s"
    let ?i = "fst (ld_index_pair ?d)"
    obtain ds where p: "pending_records e s = ?d # ds" using pending_records_Cons [OF lt less.prems(2)] by blast
    have run: "run_ok ec ?i (?d # ds)" "c \<le> ?i" "?i \<le> ec"
      using less.prems(4) p by (auto simp: run_ok_Cons ld_next_def split: if_splits)
    have front: "SortedSmallSet_GetFront s = Inr ?d" using lt less.prems(2) by (simp add: SortedSmallSet_GetFront_def aget_def)
    have flat: "flat_merge items ec c (?d # ds) = segment items c ?i @ flat_merge items ec ?i (?d # ds)" by simp
    have cap: "length new + (?i - c) + length (flat_merge items ec ?i (?d # ds)) \<le> cap"
      using less.prems(6,7) p flat run by simp
    have push: "PushBack_range cap new items c ?i = Inr (new @ segment items c ?i)"
      using PushBack_range_eq [of c ?i items new cap] run less.prems(6) cap by simp
    obtain j ow outs where j: "start_p s < j" "j \<le> e"
        "drain cap e ?i s False (new @ segment items c ?i) = Inr (s\<lparr>start_p := j\<rparr>, ow, (new @ segment items c ?i) @ outs)"
        "outs @ flat_merge items ec (?i + of_bool ow) (pending_records e (s\<lparr>start_p := j\<rparr>)) = flat_merge items ec ?i (?d # ds)"
        "run_ok ec (?i + of_bool ow) (pending_records e (s\<lparr>start_p := j\<rparr>))" "?i + of_bool ow \<le> ec"
      using drain_eq [OF less.prems(1,2) lt p run(1) refl, of "new @ segment items c ?i" items cap] cap less.prems(6) run by auto
    let ?s = "s\<lparr>start_p := j\<rparr>"
    have eq: "merge_loop cap e ec items c s new = merge_loop cap e ec items (?i + of_bool ow) ?s ((new @ segment items c ?i) @ outs)"
      unfolding merge_loop.simps [of cap e ec items c s new] using False front run push j(3)
      by (simp add: SortedSmallSet_GetBegin_def Let_def)
    have "length ((new @ segment items c ?i) @ outs) + length (flat_merge items ec (?i + of_bool ow) (pending_records e ?s)) \<le> cap"
      using cap j(4) [THEN arg_cong, of length] run less.prems(6) by simp
    moreover have "e - start_p ?s < e - start_p s" using j(1) lt by simp
    ultimately obtain c' outs' where "merge_loop cap e ec items (?i + of_bool ow) ?s ((new @ segment items c ?i) @ outs)
          = Inr (c', s\<lparr>start_p := e\<rparr>, ((new @ segment items c ?i) @ outs) @ outs')"
        "c' \<le> ec" "outs' @ segment items c' ec = flat_merge items ec (?i + of_bool ow) (pending_records e ?s)"
      using less.hyps [of ?s "?i + of_bool ow" "(new @ segment items c ?i) @ outs"] less.prems j lt by auto
    then show ?thesis
      using eq flat p j(4) by (intro exI [of _ c'] exI [of _ "segment items c ?i @ outs @ outs'"]) simp
  qed
qed

section \<open>What the merge produces\<close>

definition deltas_ok :: "('k::linorder \<times> 'v) list \<Rightarrow> ('k, 'v) leaf_data_node list \<Rightarrow> bool" where
  "deltas_ok items ds \<longleftrightarrow> sorted_less (map ld_key ds) \<and> (\<forall>d \<in> set ds. ld_index_pair d = index_of items (ld_key d))"

abbreviation next_index :: "('k::linorder \<times> 'v) list \<Rightarrow> 'k \<Rightarrow> nat" where
  "next_index items k \<equiv> fst (index_of items k) + of_bool (snd (index_of items k))"

lemma segment_below_index:
  assumes "sorted_less (map fst items)" "x \<in> set (segment items c (fst (index_of items k)))"
  shows "fst x < k"
proof -
  have le: "fst (index_of items k) \<le> length items" using index_of_le [OF assms(1)] .
  then obtain i where i: "i < fst (index_of items k)" "items ! i = x" using assms(2) by (auto simp: in_set_segment)
  then show ?thesis using std_lb.lb_below [of "map fst items" i k] assms(1) le by (auto simp: index_of_def)
qed

lemma item_above_index:
  assumes "sorted_less (map fst items)" "fst (index_of items k) \<le> i" "i < length items"
  shows "k \<le> fst (items ! i)"
  using std_lb.lb_above [of "map fst items" k i] assms by (simp add: index_of_def)

lemma item_above_next:
  assumes srt: "sorted_less (map fst items)" and i: "next_index items k \<le> i" "i < length items"
  shows "k < fst (items ! i)"
proof (cases "k \<in> fst ` set items")
  case True
  then have "fst (index_of items k) < i" using i by (simp add: index_of_def)
  moreover have "fst (items ! fst (index_of items k)) = k" using index_of_hit [OF srt] True by blast
  ultimately show ?thesis using sorted_less_nth_mono [OF srt, of "fst (index_of items k)" i] i(2) by simp
next
  case False
  then have "fst (items ! i) \<noteq> k" using i(2) by (metis image_eqI nth_mem)
  then show ?thesis using item_above_index [OF srt, of k i] i by simp
qed

lemma segment_at_index:
  assumes srt: "sorted_less (map fst items)" and e: "next_index items k \<le> e" "e \<le> length items"
  shows "{x \<in> set (segment items (fst (index_of items k)) e). fst x \<noteq> k} = set (segment items (next_index items k) e)"
proof (cases "k \<in> fst ` set items")
  case True
  let ?i = "fst (index_of items k)"
  have hit: "fst (items ! ?i) = k" using index_of_hit [OF srt] True by blast
  have "segment items ?i e = segment items ?i (Suc ?i) @ segment items (Suc ?i) e"
    using True e by (intro segment_append) (auto simp: index_of_def)
  moreover have "segment items ?i (Suc ?i) = [items ! ?i]"
    using True e by (simp add: segment_def index_of_def take_Suc_conv_app_nth)
  moreover have "fst x \<noteq> k" if x: "x \<in> set (segment items (Suc ?i) e)" for x
  proof -
    obtain i where "Suc ?i \<le> i" "i < e" "items ! i = x" using x e(2) by (auto simp: in_set_segment)
    moreover have "next_index items k = Suc ?i" using True by (simp add: index_of_def)
    ultimately show ?thesis using item_above_next [OF srt, of k i] e(2) by auto
  qed
  ultimately show ?thesis using hit True by (auto simp: index_of_def)
next
  case False
  have "fst x \<noteq> k" if "x \<in> set (segment items (fst (index_of items k)) e)" for x
    using that False e by (auto simp: in_set_segment)
  then show ?thesis using False by (auto simp: index_of_def)
qed

lemma next_index_mono:
  assumes srt: "sorted_less (map fst items)" and "k < k'"
  shows "next_index items k \<le> fst (index_of items k')"
proof (rule ccontr)
  let ?q = "fst (index_of items k')"
  assume lt: "\<not> ?thesis"
  have le: "fst (index_of items k) \<le> ?q" using index_of_mono [OF srt] assms(2) by simp
  then have "snd (index_of items k)" "?q = fst (index_of items k)" using lt by (cases "snd (index_of items k)"; simp)+
  then have mem: "k \<in> fst ` set items" by (simp add: index_of_def)
  then have "fst (items ! ?q) = k" "?q < length items"
    using index_of_hit [OF srt, of k] index_of_le [OF srt, of k] \<open>?q = _\<close> by auto
  then show False using item_above_index [OF srt, of k' ?q] assms(2) by simp
qed

lemma deltas_ok_run:
  assumes srt: "sorted_less (map fst items)" and ds: "deltas_ok items ds" and "\<forall>d \<in> set ds. ld_next d \<le> e"
  shows "run_ok e 0 ds"
proof -
  have "sorted_wrt (\<lambda>d d'. ld_key d < ld_key d') ds" using ds by (simp add: deltas_ok_def sorted_wrt_map)
  then have "sorted_wrt (\<lambda>d d'. ld_next d \<le> fst (ld_index_pair d')) ds"
    by (rule sorted_wrt_mono_rel [rotated]) (use ds next_index_mono [OF srt] in \<open>auto simp: deltas_ok_def ld_next_def\<close>)
  then show ?thesis using assms(3) by (simp add: run_ok_def)
qed

lemma flat_merge_set:
  assumes srt: "sorted_less (map fst items)" and e: "e \<le> length items"
  shows "deltas_ok items ds \<Longrightarrow> run_ok e c ds \<Longrightarrow> c \<le> e \<Longrightarrow>
    set (flat_merge items e c ds) = {x \<in> set (segment items c e). fst x \<notin> ld_key ` set ds} \<union> (\<Union>d \<in> set ds. set (ld_out d))"
proof (induction ds arbitrary: c)
  case (Cons d ds)
  let ?k = "ld_key d" and ?i = "fst (ld_index_pair d)" and ?n = "ld_next d"
  have d: "ld_index_pair d = index_of items ?k" "deltas_ok items ds" "\<forall>x \<in> set ds. ?k < ld_key x"
    using Cons.prems(1) by (auto simp: deltas_ok_def)
  have run: "c \<le> ?i" "?i \<le> e" "?n \<le> e" "run_ok e ?n ds"
    using Cons.prems(2) by (auto simp: run_ok_Cons ld_next_def split: if_splits)
  have seg: "set (segment items c e) = set (segment items c ?i) \<union> set (segment items ?i e)"
    using segment_append [OF run(1,2), of items] by simp
  have low: "fst x < ?k" if "x \<in> set (segment items c ?i)" for x
    using segment_below_index [OF srt] that d(1) by simp
  have high: "{x \<in> set (segment items ?i e). fst x \<noteq> ?k} = set (segment items ?n e)"
    using segment_at_index [OF srt _ e, of ?k] run(3) d(1) by (simp add: ld_next_def)
  have "{x \<in> set (segment items c e). fst x \<notin> ld_key ` set (d # ds)}
      = set (segment items c ?i) \<union> {x \<in> set (segment items ?n e). fst x \<notin> ld_key ` set ds}"
    unfolding seg high [symmetric] using low d(3) by fastforce
  moreover have "set (flat_merge items e ?n ds)
      = {x \<in> set (segment items ?n e). fst x \<notin> ld_key ` set ds} \<union> (\<Union>d \<in> set ds. set (ld_out d))"
    using Cons.IH [OF d(2) run(4,3)] .
  ultimately show ?case by auto
qed simp

lemma ld_out_key: "x \<in> set (ld_out d) \<Longrightarrow> fst x = ld_key d"
  by (auto simp: ld_out_def split: if_splits)

lemma sorted_segment: "sorted_less (map fst items) \<Longrightarrow> sorted_less (map fst (segment items a b))"
  by (simp add: segment_def flip: take_map drop_map)

lemma flat_merge_sorted:
  assumes srt: "sorted_less (map fst items)" and e: "e \<le> length items"
  shows "deltas_ok items ds \<Longrightarrow> run_ok e c ds \<Longrightarrow> c \<le> e \<Longrightarrow> sorted_less (map fst (flat_merge items e c ds))"
proof (induction ds arbitrary: c)
  case (Cons d ds)
  let ?k = "ld_key d" and ?i = "fst (ld_index_pair d)" and ?n = "ld_next d"
  have d: "ld_index_pair d = index_of items ?k" "deltas_ok items ds" "\<forall>x \<in> set ds. ?k < ld_key x"
    using Cons.prems(1) by (auto simp: deltas_ok_def)
  have run: "?n \<le> e" "run_ok e ?n ds" using Cons.prems(2) by (simp_all add: run_ok_Cons)
  have low: "fst x < ?k" if "x \<in> set (segment items c ?i)" for x
    using segment_below_index [OF srt] that d(1) by simp
  have high: "?k < fst x" if x: "x \<in> set (flat_merge items e ?n ds)" for x
  proof -
    consider "x \<in> set (segment items ?n e)" | y where "y \<in> set ds" "x \<in> set (ld_out y)"
      using x flat_merge_set [OF srt e d(2) run(2,1)] by auto
    then show ?thesis
    proof cases
      case 1
      then obtain i where "?n \<le> i" "i < e" "items ! i = x" using e by (auto simp: in_set_segment)
      then show ?thesis using item_above_next [OF srt, of ?k i] d(1) e by (auto simp: ld_next_def)
    next
      case 2
      then show ?thesis using d(3) ld_out_key by fastforce
    qed
  qed
  have rest: "sorted_less (map fst (flat_merge items e ?n ds))" using Cons.IH [OF d(2) run(2,1)] .
  have "\<forall>x \<in> set (segment items c ?i). \<forall>y \<in> set (ld_out d @ flat_merge items e ?n ds). fst x < fst y"
    using low high ld_out_key by fastforce
  then show ?case
    using rest high sorted_segment [OF srt, of c ?i] by (auto simp: sorted_wrt_append ld_out_def)
qed (simp add: sorted_segment [OF srt])

section \<open>Merging one base node\<close>

definition ld_val :: "('k, 'v) leaf_data_node \<Rightarrow> 'v option" where
  "ld_val d = (if ld_type d = LeafDeleteType then None else Some (snd (ld_item d)))"

text \<open>The contents of a page with the gathered records on top of it.\<close>

definition override :: "('k, 'v) leaf_data_node list \<Rightarrow> ('k \<rightharpoonup> 'v) \<Rightarrow> 'k \<rightharpoonup> 'v" where
  "override L f k = (case map_of (map (\<lambda>d. (ld_key d, ld_val d)) L) k of None \<Rightarrow> f k | Some r \<Rightarrow> r)"

lemma override_Nil [simp]: "override [] f = f"
  by (simp add: override_def fun_eq_iff)

lemma override_notin: "k \<notin> ld_key ` set L \<Longrightarrow> override L f k = f k"
  by (auto simp: override_def map_of_eq_None_iff image_image split: option.splits dest!: map_of_SomeD)

lemma override_in: "distinct (map ld_key L) \<Longrightarrow> d \<in> set L \<Longrightarrow> override L f (ld_key d) = ld_val d"
proof -
  assume "distinct (map ld_key L)" "d \<in> set L"
  then have "map_of (map (\<lambda>d. (ld_key d, ld_val d)) L) (ld_key d) = Some (ld_val d)"
    by (intro map_of_is_SomeI) (simp_all add: comp_def)
  then show ?thesis by (simp add: override_def)
qed

definition upto_high :: "'k::linorder key_node_id_pair \<Rightarrow> ('k, 'v) leaf_data_node list \<Rightarrow> ('k, 'v) leaf_data_node list" where
  "upto_high hi L = takeWhile (\<lambda>d. below_high hi (ld_key d)) L"

lemma upto_high_set:
  assumes "sorted_less (map ld_key L)"
  shows "set (upto_high hi L) = {d \<in> set L. below_high hi (ld_key d)}"
  using assms
proof (induction L)
  case (Cons d L)
  have "\<not> below_high hi (ld_key x)" if "\<not> below_high hi (ld_key d)" "x \<in> set L" for x
    using that Cons.prems by (fastforce simp: below_high_def)
  then show ?case using Cons by (auto simp: upto_high_def)
qed (simp add: upto_high_def)

lemma upto_high_sorted:
  assumes "sorted_less (map ld_key L)"
  shows "sorted_less (map ld_key (upto_high hi L))"
proof -
  have "sorted_less (map ld_key (upto_high hi L @ dropWhile (\<lambda>d. below_high hi (ld_key d)) L))"
    using assms by (simp add: upto_high_def)
  then show ?thesis by (simp only: map_append sorted_wrt_append)
qed

definition copy_end :: "'k::linorder key_node_id_pair \<Rightarrow> ('k \<times> 'v) list \<Rightarrow> nat" where
  "copy_end hi items = (if snd hi = INVALID_NODE_ID then length items else std_lower_bound (map fst items) (fst hi))"

lemma copy_end_le: "sorted_less (map fst items) \<Longrightarrow> copy_end hi items \<le> length items"
  using index_of_le [of items "fst hi"] by (auto simp: copy_end_def index_of_def)

lemma copied_items:
  assumes srt: "sorted_less (map fst items)"
  shows "set (segment items 0 (copy_end hi items)) = {x \<in> set items. below_high hi (fst x)}"
proof (cases "snd hi = INVALID_NODE_ID")
  case True
  then show ?thesis by (auto simp: copy_end_def segment_def below_high_def)
next
  case False
  let ?p = "fst (index_of items (fst hi))"
  have e: "copy_end hi items = ?p" using False by (simp add: copy_end_def index_of_def)
  have le: "?p \<le> length items" using index_of_le [OF srt] .
  have idx: "i < ?p \<longleftrightarrow> fst (items ! i) < fst hi" if "i < length items" for i
    using that item_above_index [OF srt, of "fst hi" i] segment_below_index [OF srt, of "items ! i" 0 "fst hi"] le
    by (fastforce simp: in_set_segment not_less [symmetric])
  show ?thesis
  proof (rule set_eqI)
    fix x
    have "x \<in> set (segment items 0 ?p) \<longleftrightarrow> (\<exists>i < ?p. items ! i = x)" using le by (simp add: in_set_segment)
    also have "\<dots> \<longleftrightarrow> (\<exists>i < length items. items ! i = x \<and> fst x < fst hi)" using idx le by (metis order.strict_trans2)
    also have "\<dots> \<longleftrightarrow> x \<in> {x \<in> set items. below_high hi (fst x)}" using False by (auto simp: in_set_conv_nth below_high_def)
    finally show "x \<in> set (segment items 0 (copy_end hi items)) \<longleftrightarrow> x \<in> {x \<in> set items. below_high hi (fst x)}" unfolding e .
  qed
qed

lemma next_index_copy_end:
  assumes srt: "sorted_less (map fst items)" and "below_high hi k"
  shows "next_index items k \<le> copy_end hi items"
proof (cases "snd hi = INVALID_NODE_ID")
  case True
  have "next_index items k \<le> length items"
    using index_of_le [OF srt, of k] index_of_hit [OF srt, of k] by (auto simp: index_of_def order.order_iff_strict)
  then show ?thesis using True by (simp add: copy_end_def)
next
  case False
  then show ?thesis using next_index_mono [OF srt, of k "fst hi"] assms(2) by (simp add: copy_end_def below_high_def index_of_def)
qed

text \<open>The list a base node and the gathered records become.\<close>

definition merged_items :: "'k::linorder key_node_id_pair \<Rightarrow> ('k \<times> 'v) list \<Rightarrow> ('k, 'v) leaf_data_node list \<Rightarrow> ('k \<times> 'v) list" where
  "merged_items hi items L = flat_merge items (copy_end hi items) 0 (upto_high hi L)"

definition gathered_ok :: "'k::linorder key_node_id_pair \<Rightarrow> ('k \<Rightarrow> ('k \<times> 'v) list) \<Rightarrow> ('k, 'v) leaf_data_node list \<Rightarrow> bool" where
  "gathered_ok hi base L \<longleftrightarrow> sorted_less (map ld_key L)
     \<and> (\<forall>d \<in> set L. below_high hi (ld_key d) \<longrightarrow> ld_index_pair d = index_of (base (ld_key d)) (ld_key d))"

lemma gathered_deltas:
  assumes "sorted_less (map fst items)" "gathered_ok hi (\<lambda>_. items) L"
  shows "deltas_ok items (upto_high hi L)" "run_ok (copy_end hi items) 0 (upto_high hi L)"
proof -
  show ds: "deltas_ok items (upto_high hi L)"
    using assms(2) by (auto simp: gathered_ok_def deltas_ok_def upto_high_sorted upto_high_set)
  have "\<forall>d \<in> set (upto_high hi L). ld_next d \<le> copy_end hi items"
    using assms next_index_copy_end [OF assms(1)] by (auto simp: gathered_ok_def upto_high_set ld_next_def)
  then show "run_ok (copy_end hi items) 0 (upto_high hi L)" using deltas_ok_run [OF assms(1) ds] by simp
qed

lemma merged_items_spec:
  assumes srt: "sorted_less (map fst items)" and L: "gathered_ok hi (\<lambda>_. items) L"
  shows "sorted_less (map fst (merged_items hi items L))"
    and "map_of (merged_items hi items L) = (\<lambda>k. if below_high hi k then override L (map_of items) k else None)"
proof -
  note gd = gathered_deltas [OF srt L]
  show ys: "sorted_less (map fst (merged_items hi items L))"
    unfolding merged_items_def using flat_merge_sorted [OF srt copy_end_le [OF srt] gd] by simp
  have srtL: "sorted_less (map ld_key L)" using L by (simp add: gathered_ok_def)
  then have dL: "distinct (map ld_key L)" by (simp add: strict_sorted_iff)
  have dist: "distinct (map fst items)" using srt by (simp add: strict_sorted_iff)
  have "set (merged_items hi items L) = {x \<in> set items. below_high hi (fst x) \<and> fst x \<notin> ld_key ` set L}
      \<union> (\<Union>d \<in> {d \<in> set L. below_high hi (ld_key d)}. set (ld_out d))"
    unfolding merged_items_def flat_merge_set [OF srt copy_end_le [OF srt] gd le0] upto_high_set [OF srtL] copied_items [OF srt] by auto
  then have mem: "(k, v) \<in> set (merged_items hi items L) \<longleftrightarrow> below_high hi k \<and> override L (map_of items) k = Some v" for k v
  proof (cases "k \<in> ld_key ` set L")
    case False
    then show ?thesis
      using \<open>set (merged_items hi items L) = _\<close> dist override_notin [OF False, of "map_of items"]
      by (auto dest: ld_out_key simp: map_of_eq_Some_iff)
  next
    case True
    then obtain d where d: "d \<in> set L" "k = ld_key d" by blast
    have uniq: "d' = d" if "d' \<in> set L" "ld_key d' = k" for d' using that d dL by (auto simp: distinct_map dest: inj_onD)
    have "(k, v) \<in> set (merged_items hi items L) \<longleftrightarrow> (\<exists>d' \<in> set L. below_high hi (ld_key d') \<and> (k, v) \<in> set (ld_out d'))"
      using \<open>set (merged_items hi items L) = _\<close> True by auto
    also have "\<dots> \<longleftrightarrow> below_high hi k \<and> (k, v) \<in> set (ld_out d)" using uniq d ld_out_key by (metis fst_conv)
    also have "\<dots> \<longleftrightarrow> below_high hi k \<and> override L (map_of items) k = Some v"
      using override_in [OF dL d(1), of "map_of items"] d(2) by (auto simp: ld_out_def ld_val_def prod_eq_iff)
    finally show ?thesis .
  qed
  show "map_of (merged_items hi items L) = (\<lambda>k. if below_high hi k then override L (map_of items) k else None)"
  proof (rule ext)
    fix k
    have "\<forall>v. map_of (merged_items hi items L) k = Some v \<longleftrightarrow> (if below_high hi k then override L (map_of items) k else None) = Some v"
      using ys mem [of k] by (simp add: map_of_eq_Some_iff strict_sorted_iff)
    then show "map_of (merged_items hi items L) k = (if below_high hi k then override L (map_of items) k else None)"
      by (metis not_Some_eq)
  qed
qed

lemma sss_end_scan_eq:
  assumes ok: "sss_ok s" and srt: "sorted_less (map ld_key (sss_live s))"
    and m: "m = length (takeWhile (\<lambda>d. ld_key d < h) (sss_live s))"
  shows "m \<le> n \<Longrightarrow> n \<le> length (sss_live s) \<Longrightarrow> sss_end_scan s h (start_p s + n) = Inr (start_p s + m)"
proof (induction n)
  case 0
  then show ?case by (cases "start_p s") (simp_all add: SortedSmallSet_GetBegin_def)
next
  case (Suc n)
  let ?L = "sss_live s"
  have lt: "start_p s + n < end_p s" "end_p s \<le> length (sss_data s)"
    using Suc.prems(2) ok length_sss_live [OF ok] by (auto simp: sss_ok_def)
  then have d: "aget (sss_data s) (start_p s + n) = Inr (?L ! n)" using nth_sss_live [OF ok lt(1)] by (simp add: aget_def)
  have "ld_key (?L ! n) < h \<longleftrightarrow> m = Suc n"
  proof (cases "m = Suc n")
    case True
    then have "?L ! n = takeWhile (\<lambda>d. ld_key d < h) ?L ! n" using m by (simp add: takeWhile_nth)
    then show ?thesis using True m by (metis lessI nth_mem set_takeWhileD)
  next
    case False
    then have lt: "m \<le> n" using Suc.prems(1) by simp
    then have "\<not> ld_key (?L ! m) < h" using nth_length_takeWhile [of "\<lambda>d. ld_key d < h" ?L] Suc.prems(2) m by simp
    moreover have "ld_key (?L ! m) \<le> ld_key (?L ! n)" using sorted_less_nth_le [OF srt lt] Suc.prems(2) lt by simp
    ultimately show ?thesis using False by simp
  qed
  then show ?case using d Suc by (auto simp: SortedSmallSet_GetBegin_def)
qed

lemma collect_leaf_eq:
  assumes ok: "sss_ok s" and srt: "sorted_less (map fst items)" and L: "gathered_ok hi (\<lambda>_. items) (sss_live s)"
    and cap: "length new + length (merged_items hi items (sss_live s)) \<le> cap"
  shows "collect_leaf cap hi items s new =
    Inr (s\<lparr>start_p := start_p s + length (upto_high hi (sss_live s))\<rparr>, new @ merged_items hi items (sss_live s))"
proof -
  let ?L = "sss_live s" and ?ec = "copy_end hi items"
  define m where "m = length (upto_high hi ?L)"
  have "m \<le> length ?L" unfolding m_def upto_high_def by (rule length_takeWhile_le)
  moreover have "length ?L = end_p s - start_p s" using length_sss_live [OF ok] .
  ultimately have m: "m \<le> length ?L" "length ?L = end_p s - start_p s" "start_p s \<le> end_p s" "end_p s \<le> length (sss_data s)"
    using ok by (simp_all add: sss_ok_def)
  have scan: "(if snd hi \<noteq> INVALID_NODE_ID then sss_end_scan s (fst hi) (SortedSmallSet_GetEnd s) else Inr (SortedSmallSet_GetEnd s))
      = Inr (start_p s + m)"
  proof (cases "snd hi = INVALID_NODE_ID")
    case True
    then have "upto_high hi ?L = ?L" by (simp add: upto_high_def below_high_def takeWhile_eq_all_conv)
    then show ?thesis using True m by (simp add: m_def SortedSmallSet_GetEnd_def)
  next
    case False
    then have "m = length (takeWhile (\<lambda>d. ld_key d < fst hi) ?L)" by (simp add: m_def upto_high_def below_high_def)
    moreover have "SortedSmallSet_GetEnd s = start_p s + length ?L" using m by (simp add: SortedSmallSet_GetEnd_def)
    ultimately show ?thesis using False sss_end_scan_eq [OF ok, of m "fst hi" "length ?L"] L m by (simp add: gathered_ok_def)
  qed
  have "pending_records (start_p s + m) s = take m ?L" using m by (simp add: pending_records_def sss_live_def drop_take min_def)
  also have "\<dots> = upto_high hi ?L" unfolding m_def upto_high_def by (rule takeWhile_eq_take [symmetric])
  finally have pend: "pending_records (start_p s + m) s = upto_high hi ?L" .
  have e: "start_p s + m \<le> end_p s" "start_p s + m \<le> length (sss_data s)" using m by simp_all
  obtain c' outs where ml: "merge_loop cap (start_p s + m) ?ec items 0 s new = Inr (c', s\<lparr>start_p := start_p s + m\<rparr>, new @ outs)"
      "c' \<le> ?ec" "outs @ segment items c' ?ec = merged_items hi items ?L"
    using merge_loop_eq [OF e, of ?ec 0 items new cap] copy_end_le [OF srt] gathered_deltas(2) [OF srt L] cap pend
    by (auto simp: merged_items_def)
  have "PushBack_range cap (new @ outs) items c' ?ec = Inr ((new @ outs) @ segment items c' ?ec)"
    using ml(2,3) cap copy_end_le [OF srt, of hi] by (intro PushBack_range_eq) (auto dest!: arg_cong [of _ _ length])
  then show ?thesis
    unfolding collect_leaf_def using scan ml by (simp add: Let_def m_def flip: copy_end_def)
qed

section \<open>Gathering the records of a chain\<close>

fun delta_count :: "('k, 'v) base_node \<Rightarrow> nat" where
  "delta_count (LeafNode _ _) = 0"
| "delta_count (LeafInsertNode _ _ _ c) = Suc (delta_count c)"
| "delta_count (LeafDeleteNode _ _ _ c) = Suc (delta_count c)"
| "delta_count (LeafUpdateNode _ _ _ _ c) = Suc (delta_count c)"
| "delta_count (LeafSplitNode _ _ c) = delta_count c"
| "delta_count (LeafRemoveNode _ _ c) = delta_count c"
| "delta_count (LeafMergeNode _ _ r c) = delta_count c + delta_count r"

lemma to_short_small: "0 \<le> i \<Longrightarrow> i < 2 ^ 15 \<Longrightarrow> to_short i = i"
  by (simp add: to_short_def sint_sbintrunc' signed_take_bit_int_eq_self)

text \<open>The 16-bit depth of the metadata is the number of records as long as that number fits.\<close>

lemma depth_eq: "page_ok n \<Longrightarrow> delta_count n < 2 ^ 15 \<Longrightarrow> GetDepth n = int (delta_count n)"
  by (induction n) (auto simp: ctor_defs meta_defs to_short_small)

definition counts_ok :: "nat \<Rightarrow> 'a sorted_small_set \<Rightarrow> 'b bloom_filter \<Rightarrow> 'a sorted_small_set \<Rightarrow> 'b bloom_filter \<Rightarrow> bool" where
  "counts_ok n s f s' f' \<longleftrightarrow> end_p s' \<le> end_p s + n \<and> length (sss_data s') = length (sss_data s)
     \<and> value_count f' \<le> value_count f + n \<and> length (data_p f') = length (data_p f)"

definition array_room :: "nat \<Rightarrow> 'a sorted_small_set \<Rightarrow> 'b bloom_filter \<Rightarrow> bool" where
  "array_room n s f \<longleftrightarrow> end_p s + n \<le> length (sss_data s) \<and> value_count f + n \<le> length (data_p f)"

lemma counts_ok_trans: "counts_ok m s f s' f' \<Longrightarrow> counts_ok n s' f' s'' f'' \<Longrightarrow> counts_ok (m + n) s f s'' f''"
  by (auto simp: counts_ok_def)

lemma array_room_after: "array_room (m + n) s f \<Longrightarrow> counts_ok m s f s' f' \<Longrightarrow> array_room n s' f'"
  by (auto simp: array_room_def counts_ok_def)

text \<open>The two containers hold the same keys, as far as keys at or above \<open>lo\<close> are concerned.\<close>

definition containers_ok ::
  "('k \<Rightarrow> 64 word) \<Rightarrow> 'k::linorder key_node_id_pair \<Rightarrow> ('k, 'v) leaf_data_node sorted_small_set \<Rightarrow> 'k bloom_filter \<Rightarrow> bool" where
  "containers_ok hash lo s f \<longleftrightarrow> sss_ok s \<and> bloom_ok hash f \<and> sorted_less (map ld_key (sss_live s))
     \<and> (\<forall>k. above_low lo k \<longrightarrow> (k \<in> set (BloomFilter_contents f) \<longleftrightarrow> k \<in> ld_key ` set (sss_live s)))
     \<and> (\<forall>d \<in> set (sss_live s). above_low lo (ld_key d))"

lemma override_insert:
  assumes "distinct (map ld_key L)" "distinct (map ld_key L')"
    and "set L' = (if ld_key d \<in> ld_key ` set L then set L else insert d (set L))"
  shows "override L' g = override L (g(ld_key d := ld_val d))"
proof (rule ext)
  fix k
  consider "k \<in> ld_key ` set L" | "k \<notin> ld_key ` set L" "k = ld_key d" | "k \<notin> ld_key ` set L" "k \<noteq> ld_key d" by blast
  then show "override L' g k = override L (g(ld_key d := ld_val d)) k"
  proof cases
    case 1
    then obtain x where "x \<in> set L" "k = ld_key x" by blast
    moreover from this have "x \<in> set L'" using assms(3) by auto
    ultimately show ?thesis using override_in assms(1,2) by metis
  next
    case 2
    then have "d \<in> set L'" using assms(3) by auto
    then show ?thesis using 2 override_in [OF assms(2)] override_notin [of k L] by simp
  next
    case 3
    then have "k \<notin> ld_key ` set L'" using assms(3) by auto
    then show ?thesis using 3 by (simp add: override_notin)
  qed
qed

lemma collect_delta_eq:
  assumes c: "containers_ok hash lo s f" and lo: "above_low lo (ld_key d)" and r: "array_room 1 s f"
  obtains s' f' where "collect_delta hash d s f = Inr (s', f')" "containers_ok hash lo s' f'" "counts_ok 1 s f s' f'"
    "set (sss_live s') = (if ld_key d \<in> ld_key ` set (sss_live s) then set (sss_live s) else insert d (set (sss_live s)))"
    "set (BloomFilter_contents f') = insert (ld_key d) (set (BloomFilter_contents f))"
proof -
  let ?L = "sss_live s"
  have ok: "sss_ok s" "bloom_ok hash f" "sorted_less (map ld_key ?L)" using c by (simp_all add: containers_ok_def)
  have ex: "BloomFilter_Exists (=) hash f (ld_key d) = Inr (ld_key d \<in> ld_key ` set ?L)"
    using BloomFilter_Exists_eq [OF ok(2), of "(=)" "ld_key d"] c lo by (simp add: containers_ok_def)
  show thesis
  proof (cases "ld_key d \<in> ld_key ` set ?L")
    case True
    then have "collect_delta hash d s f = Inr (s, f)" "ld_key d \<in> set (BloomFilter_contents f)"
      using ex c lo by (simp_all add: collect_delta_def containers_ok_def)
    then show thesis using that [of s f] c True by (auto simp: counts_ok_def)
  next
    case False
    obtain f' where f': "BloomFilter_Insert hash f (ld_key d) = Inr f'" "bloom_ok hash f'"
        "BloomFilter_contents f' = BloomFilter_contents f @ [ld_key d]" "length (data_p f') = length (data_p f)" "value_count f' = Suc (value_count f)"
      using BloomFilter_Insert_eq [OF ok(2), of "ld_key d"] r by (auto simp: array_room_def)
    have full: "end_p s < length (sss_data s)" "sorted (map ld_key ?L)" using r ok(3) by (auto simp: array_room_def strict_sorted_iff)
    have cmp: "\<forall>y \<in> set ?L. ld_less d y = (ld_key d < ld_key y)" using False by (auto simp: ld_less_def)
    obtain s' where s': "SortedSmallSet_InsertNoDedup ld_less s d = Inr s'" "sss_ok s'" "set (sss_live s') = insert d (set ?L)"
        "map ld_key (sss_live s') = insort (ld_key d) (map ld_key ?L)" "end_p s' = Suc (end_p s)" "length (sss_data s') = length (sss_data s)"
      using sss_insert_no_dedup_key [of s ld_key ld_less d, OF ok(1) full(1,2) cmp] by metis
    have "sorted_less (map ld_key (sss_live s'))"
      using ok(3) False s'(4) by (simp add: strict_sorted_iff sorted_insort distinct_insort)
    then have "containers_ok hash lo s' f'" using c lo s'(2,3) f'(2,3) by (auto simp: containers_ok_def)
    then show thesis using that [of s' f'] ex False f' s' by (auto simp: collect_delta_def counts_ok_def)
  qed
qed

section \<open>The recursion over a chain\<close>

definition page_below ::
  "'k::linorder key_node_id_pair \<Rightarrow> ('k, 'v) leaf_data_node list \<Rightarrow> ('k, 'v) base_node \<Rightarrow> 'k \<rightharpoonup> 'v" where
  "page_below hi L n k = (if below_high hi k then override L (page_map n) k else None)"

lemma finite_page_below: "finite (dom (page_below hi L n))"
proof (rule finite_subset)
  show "dom (page_below hi L n) \<subseteq> ld_key ` set L \<union> dom (page_map n)"
  proof
    fix k
    assume "k \<in> dom (page_below hi L n)"
    then show "k \<in> ld_key ` set L \<union> dom (page_map n)"
      using override_notin [of k L "page_map n"] by (cases "k \<in> ld_key ` set L") (auto simp: page_below_def split: if_splits)
  qed
qed (simp add: finite_page_map)

lemma length_sorted_items: "sorted_less (map fst ys) \<Longrightarrow> length ys = card (dom (map_of ys))"
  by (metis dom_map_of_conv_image_fst distinct_card image_set length_map strict_sorted_iff)

text \<open>
  What one call does: it appends the part of the page below the high key and removes the records it
  has used; what it adds to the filter lies in its own range.
\<close>

definition collected ::
  "('k::linorder \<Rightarrow> 64 word) \<Rightarrow> 'k key_node_id_pair \<Rightarrow> ('k, 'v) base_node \<Rightarrow> ('k, 'v) leaf_data_node sorted_small_set \<Rightarrow> 'k bloom_filter
     \<Rightarrow> ('k, 'v) leaf_data_node sorted_small_set \<Rightarrow> 'k bloom_filter \<Rightarrow> ('k \<times> 'v) list \<Rightarrow> bool" where
  "collected hash hi n s f s' f' ys \<longleftrightarrow>
     sorted_less (map fst ys) \<and> map_of ys = page_below hi (sss_live s) n \<and> counts_ok (delta_count n) s f s' f'
     \<and> sss_ok s' \<and> bloom_ok hash f' \<and> sorted_less (map ld_key (sss_live s'))
     \<and> set (sss_live s') = {d \<in> set (sss_live s). \<not> below_high hi (ld_key d)}
     \<and> set (BloomFilter_contents f) \<subseteq> set (BloomFilter_contents f')
     \<and> (\<forall>k \<in> set (BloomFilter_contents f'). k \<in> set (BloomFilter_contents f) \<or> key_in_range n k)"

definition collects :: "('k::linorder \<Rightarrow> 64 word) \<Rightarrow> 'k key_node_id_pair \<Rightarrow> ('k, 'v) base_node \<Rightarrow> bool" where
  "collects hash hi n \<longleftrightarrow> (\<forall>cap s f new.
     containers_ok hash (GetLowKeyPair n) s f \<and> array_room (delta_count n) s f \<and> gathered_ok hi (base_items n) (sss_live s)
     \<and> length new + card (dom (page_below hi (sss_live s) n)) \<le> cap \<longrightarrow>
     (\<exists>s' f' ys. CollectAllValuesOnLeafRecursive hash cap hi n s f new = Inr (s', f', new @ ys) \<and> collected hash hi n s f s' f' ys))"

lemma collectsD:
  assumes "collects hash hi n" "containers_ok hash (GetLowKeyPair n) s f" "array_room (delta_count n) s f"
    "gathered_ok hi (base_items n) (sss_live s)" "length new + card (dom (page_below hi (sss_live s) n)) \<le> cap"
  obtains s' f' ys where "CollectAllValuesOnLeafRecursive hash cap hi n s f new = Inr (s', f', new @ ys)"
    "collected hash hi n s f s' f' ys"
  using assms unfolding collects_def by metis

lemma live_after_merge:
  fixes s :: "('k::linorder, 'v) leaf_data_node sorted_small_set" and hi :: "'k key_node_id_pair"
  assumes "sorted_less (map ld_key (sss_live s))"
  defines "s' \<equiv> s\<lparr>start_p := start_p s + length (upto_high hi (sss_live s))\<rparr>"
  shows "sss_live s' = dropWhile (\<lambda>d. below_high hi (ld_key d)) (sss_live s)"
    and "set (sss_live s') = {d \<in> set (sss_live s). \<not> below_high hi (ld_key d)}"
proof -
  let ?L = "sss_live s" and ?P = "\<lambda>d. below_high hi (ld_key d)"
  have "sss_live s' = drop (length (takeWhile ?P ?L)) ?L"
    by (simp add: s'_def sss_live_def upto_high_def add.commute)
  then show eq: "sss_live s' = dropWhile ?P ?L" by (simp add: dropWhile_eq_drop)
  have "distinct ?L" using assms by (simp add: strict_sorted_iff distinct_map)
  then have "set (takeWhile ?P ?L) \<inter> set (dropWhile ?P ?L) = {}" by (metis distinct_append takeWhile_dropWhile_id)
  moreover have "set ?L = set (takeWhile ?P ?L) \<union> set (dropWhile ?P ?L)" by (metis set_append takeWhile_dropWhile_id)
  ultimately show "set (sss_live s') = {d \<in> set ?L. \<not> ?P d}"
    unfolding eq using upto_high_set [OF assms(1), of hi] by (auto simp: upto_high_def)
qed

lemma collects_leaf:
  fixes items :: "('k::linorder \<times> 'v) list"
  assumes "page_ok (LeafNode m items)"
  shows "collects hash hi (LeafNode m items)"
  unfolding collects_def
proof (intro allI impI, elim conjE)
  fix cap f and s :: "('k, 'v) leaf_data_node sorted_small_set" and new :: "('k \<times> 'v) list"
  let ?n = "LeafNode m items" and ?L = "sss_live s"
  assume pre: "containers_ok hash (GetLowKeyPair ?n) s f" "gathered_ok hi (base_items ?n) ?L"
    and cap: "length new + card (dom (page_below hi ?L ?n)) \<le> cap"
  have srt: "sorted_less (map fst items)" using assms by simp
  have L: "gathered_ok hi (\<lambda>_. items) ?L" using pre(2) by (simp add: gathered_ok_def)
  note ys = merged_items_spec [OF srt L]
  have map: "map_of (merged_items hi items ?L) = page_below hi ?L ?n" unfolding ys(2) by (simp add: page_below_def fun_eq_iff)
  have ok: "sss_ok s" "sorted_less (map ld_key ?L)" "bloom_ok hash f" using pre(1) by (simp_all add: containers_ok_def)
  let ?s = "s\<lparr>start_p := start_p s + length (upto_high hi ?L)\<rparr>"
  have run: "collect_leaf cap hi items s new = Inr (?s, new @ merged_items hi items ?L)"
    using collect_leaf_eq [OF ok(1) srt L] cap length_sorted_items [OF ys(1)] map by simp
  have "length (upto_high hi ?L) \<le> end_p s - start_p s"
    using length_takeWhile_le [of _ ?L] length_sss_live [OF ok(1)] unfolding upto_high_def by metis
  then have "sss_ok ?s" using ok(1) by (auto simp: sss_ok_def)
  moreover have "sorted_less (map ld_key (sss_live ?s))"
    unfolding live_after_merge(1) [OF ok(2)] using ok(2) by (metis dropWhile_eq_drop drop_map sorted_wrt_drop)
  ultimately show "\<exists>s' f' ys. CollectAllValuesOnLeafRecursive hash cap hi ?n s f new = Inr (s', f', new @ ys)
        \<and> collected hash hi ?n s f s' f' ys"
    using run ys(1) map ok(3) live_after_merge(2) [OF ok(2), of hi]
    by (intro exI [of _ ?s] exI [of _ f] exI [of _ "merged_items hi items ?L"]) (simp add: collected_def counts_ok_def)
qed

lemma collects_delta:
  fixes c :: "('k::linorder, 'v) base_node"
  assumes c: "collects hash hi c"
    and n: "GetLowKeyPair n = GetLowKeyPair c" "base_items n = base_items c" "delta_count n = Suc (delta_count c)"
      "page_map n = (page_map c)(ld_key d := ld_val d)" "key_in_range n = key_in_range c"
    and d: "key_in_range c (ld_key d)" "below_high hi (ld_key d)" "ld_index_pair d = index_of (base_items c (ld_key d)) (ld_key d)"
    and step: "\<And>cap s f new s' f'. collect_delta hash d s f = Inr (s', f') \<Longrightarrow> bloom_ok hash f' \<Longrightarrow> ld_key d \<in> set (BloomFilter_contents f') \<Longrightarrow>
       CollectAllValuesOnLeafRecursive hash cap hi n s f new = CollectAllValuesOnLeafRecursive hash cap hi c s' f' new"
  shows "collects hash hi n"
  unfolding collects_def
proof (intro allI impI, elim conjE)
  fix cap f and s :: "('k, 'v) leaf_data_node sorted_small_set" and new :: "('k \<times> 'v) list"
  assume pre: "containers_ok hash (GetLowKeyPair n) s f" "array_room (delta_count n) s f" "gathered_ok hi (base_items n) (sss_live s)"
    "length new + card (dom (page_below hi (sss_live s) n)) \<le> cap"
  have "above_low (GetLowKeyPair n) (ld_key d)" "array_room 1 s f"
    using d(1) n(1,3) pre(2) by (simp_all add: key_in_range_def array_room_def)
  then obtain s1 f1 where s1: "collect_delta hash d s f = Inr (s1, f1)" "containers_ok hash (GetLowKeyPair n) s1 f1" "counts_ok 1 s f s1 f1"
      "set (sss_live s1) = (if ld_key d \<in> ld_key ` set (sss_live s) then set (sss_live s) else insert d (set (sss_live s)))"
      "set (BloomFilter_contents f1) = insert (ld_key d) (set (BloomFilter_contents f))"
    using collect_delta_eq [OF pre(1)] by metis
  have srt: "sorted_less (map ld_key (sss_live s))" "sorted_less (map ld_key (sss_live s1))"
    using pre(1) s1(2) by (simp_all add: containers_ok_def)
  have "override (sss_live s1) (page_map c) = override (sss_live s) (page_map n)"
    unfolding n(4) using override_insert [OF _ _ s1(4)] srt by (simp add: strict_sorted_iff)
  then have page: "page_below hi (sss_live s1) c = page_below hi (sss_live s) n" by (simp add: page_below_def fun_eq_iff)
  have "gathered_ok hi (base_items c) (sss_live s1)"
    using pre(3) d(3) srt(2) s1(4) n(2) by (auto simp: gathered_ok_def split: if_splits)
  moreover have "array_room (delta_count c) s1 f1" using array_room_after [of 1 "delta_count c"] pre(2) s1(3) n(3) by simp
  ultimately obtain s' f' ys where r: "CollectAllValuesOnLeafRecursive hash cap hi c s1 f1 new = Inr (s', f', new @ ys)"
      "collected hash hi c s1 f1 s' f' ys"
    using collectsD [OF c, of s1 f1 new cap] s1(2) pre(4) page n(1) by metis
  note r2 = r(2) [unfolded collected_def]
  have "set (sss_live s') = {d \<in> set (sss_live s). \<not> below_high hi (ld_key d)}" using r2 s1(4) d(2) by auto
  moreover have "counts_ok (delta_count n) s f s' f'" using counts_ok_trans [OF s1(3), of "delta_count c" s' f'] r2 n(3) by simp
  moreover have "\<forall>k \<in> set (BloomFilter_contents f'). k \<in> set (BloomFilter_contents f) \<or> key_in_range n k" using r2 s1(5) d(1) n(5) by auto
  moreover have "CollectAllValuesOnLeafRecursive hash cap hi n s f new = Inr (s', f', new @ ys)"
    using step [OF s1(1)] s1(2,5) r(1) by (simp add: containers_ok_def)
  ultimately show "\<exists>s' f' ys. CollectAllValuesOnLeafRecursive hash cap hi n s f new = Inr (s', f', new @ ys)
        \<and> collected hash hi n s f s' f' ys"
    using r2 page s1(5) by (intro exI [of _ s'] exI [of _ f'] exI [of _ ys]) (auto simp: collected_def)
qed

text \<open>The two branches of a merge record split the page at the merge key.\<close>

lemma page_below_merge:
  fixes c r :: "('k::linorder, 'v) base_node"
  assumes ok: "page_ok (LeafMergeNode m item r c)" and L: "sorted_less (map ld_key L)" "sorted_less (map ld_key L')"
    and L': "set L' = {d \<in> set L. \<not> below_high (GetHighKeyPair c) (ld_key d)}"
  shows "page_below (GetHighKeyPair r) L (LeafMergeNode m item r c) = page_below (GetHighKeyPair c) L c ++ page_below (GetHighKeyPair r) L' r"
    and "dom (page_below (GetHighKeyPair c) L c) \<subseteq> {k. k < fst item}" "dom (page_below (GetHighKeyPair r) L' r) \<subseteq> {k. fst item \<le> k}"
proof -
  have hc: "below_high (GetHighKeyPair c) k \<longleftrightarrow> k < fst item" for k using ok by (simp add: below_high_def meta_defs)
  show left: "dom (page_below (GetHighKeyPair c) L c) \<subseteq> {k. k < fst item}" by (auto simp: page_below_def hc split: if_splits)
  have r_none: "page_below (GetHighKeyPair r) L' r k = None" if k: "k < fst item" for k
  proof -
    have "k \<notin> ld_key ` set L'" using L' k by (auto simp: hc)
    moreover have "page_map r k = None"
      using page_map_in_range [of r k] ok k by (cases "page_map r k") (auto simp: key_in_range_def above_low_def)
    ultimately show ?thesis by (simp add: page_below_def override_notin)
  qed
  then show "dom (page_below (GetHighKeyPair r) L' r) \<subseteq> {k. fst item \<le> k}" by (force simp: not_less [symmetric])
  have same: "override L' f k = override L f k" if "fst item \<le> k" for f :: "'k \<rightharpoonup> 'v" and k
  proof (cases "k \<in> ld_key ` set L")
    case True
    then obtain d where "d \<in> set L" "k = ld_key d" "d \<in> set L'" using L' \<open>fst item \<le> k\<close> by (auto simp: hc not_less)
    then show ?thesis using override_in L by (metis strict_sorted_iff)
  next
    case False
    then have "k \<notin> ld_key ` set L'" using L' by auto
    then show ?thesis using False by (simp add: override_notin)
  qed
  have hr: "below_high (GetHighKeyPair r) k" if "k < fst item" for k
    using ok that by (auto simp: below_high_def)
  have cong: "override L (page_map (LeafMergeNode m item r c)) k = override L (if fst item \<le> k then page_map r else page_map c) k" for k
    by (simp add: override_def split: option.splits)
  show "page_below (GetHighKeyPair r) L (LeafMergeNode m item r c) = page_below (GetHighKeyPair c) L c ++ page_below (GetHighKeyPair r) L' r"
  proof (rule ext)
    fix k
    show "page_below (GetHighKeyPair r) L (LeafMergeNode m item r c) k = (page_below (GetHighKeyPair c) L c ++ page_below (GetHighKeyPair r) L' r) k"
    proof (cases "k < fst item")
      case True
      then have "\<not> fst item \<le> k" by simp
      then show ?thesis using True r_none [OF True] hr [OF True] cong [of k] by (simp add: page_below_def hc map_add_def)
    next
      case False
      then have "page_below (GetHighKeyPair c) L c k = None" by (simp add: page_below_def hc)
      then show ?thesis using False same [of k] cong [of k] by (simp add: page_below_def map_add_def not_less split: option.splits)
    qed
  qed
qed

lemma sorted_live_unique:
  assumes "sorted_less (map ld_key A)" "sorted_less (map ld_key B)" "set A = set B"
  shows "A = B"
proof -
  have "sorted (map ld_key A)" "sorted (map ld_key B)" "distinct (map ld_key A)" "distinct (map ld_key B)"
    using assms by (simp_all add: strict_sorted_iff)
  then show ?thesis
    using assms(3) map_sorted_distinct_set_unique [of ld_key A B] by (metis (no_types, lifting) distinct_map sup.idem)
qed

lemma merge_range:
  assumes "page_ok (LeafMergeNode m item r c)"
  shows "GetLowKeyPair (LeafMergeNode m item r c) = GetLowKeyPair c" "GetHighKeyPair (LeafMergeNode m item r c) = GetHighKeyPair r"
    and "below_high (GetHighKeyPair c) k \<longleftrightarrow> k < fst item" "above_low (GetLowKeyPair r) k \<longleftrightarrow> fst item \<le> k"
    and "k < fst item \<Longrightarrow> below_high (GetHighKeyPair r) k" "fst item \<le> k \<Longrightarrow> above_low (GetLowKeyPair c) k"
  using assms by (auto simp: below_high_def above_low_def ctor_defs meta_defs)

text \<open>Between the branches the containers are ready for the right one.\<close>

lemma collected_left:
  assumes ok: "page_ok (LeafMergeNode m item r c)"
    and pre: "containers_ok hash (GetLowKeyPair c) s f" "gathered_ok (GetHighKeyPair r) (base_items (LeafMergeNode m item r c)) (sss_live s)"
    and c1: "collected hash (GetHighKeyPair c) c s f s1 f1 ys1"
  shows "containers_ok hash (GetLowKeyPair r) s1 f1" "gathered_ok (GetHighKeyPair r) (base_items r) (sss_live s1)"
proof -
  note d1 = c1 [unfolded collected_def] and range = merge_range [OF ok]
  have cont: "k \<in> set (BloomFilter_contents f1) \<longleftrightarrow> k \<in> set (BloomFilter_contents f)" if "fst item \<le> k" for k
    using d1 that by (auto simp: key_in_range_def range)
  have "k \<in> set (BloomFilter_contents f) \<longleftrightarrow> k \<in> ld_key ` set (sss_live s)" if "fst item \<le> k" for k
    using pre(1) that by (auto simp: containers_ok_def range)
  then show "containers_ok hash (GetLowKeyPair r) s1 f1"
    using d1 cont by (auto simp: containers_ok_def range not_less image_iff)
  show "gathered_ok (GetHighKeyPair r) (base_items r) (sss_live s1)" using pre(2) d1 by (auto simp: gathered_ok_def range not_less)
qed

lemma collected_merge:
  fixes c r :: "('k::linorder, 'v) base_node"
  assumes ok: "page_ok (LeafMergeNode m item r c)" and srt: "sorted_less (map ld_key (sss_live s))"
    and c1: "collected hash (GetHighKeyPair c) c s f s1 f1 ys1" and c2: "collected hash (GetHighKeyPair r) r s1 f1 s2 f2 ys2"
  shows "collected hash (GetHighKeyPair r) (LeafMergeNode m item r c) s f s2 f2 (ys1 @ ys2)"
proof -
  note d1 = c1 [unfolded collected_def] and d2 = c2 [unfolded collected_def] and range = merge_range [OF ok]
  have "sorted_less (map ld_key (sss_live s1))" "set (sss_live s1) = {d \<in> set (sss_live s). \<not> below_high (GetHighKeyPair c) (ld_key d)}"
    using d1 by simp_all
  note page = page_below_merge [OF ok srt this]
  have disj: "dom (map_of ys1) \<inter> dom (map_of ys2) = {}" using page(2,3) d1 d2 by fastforce
  have "\<forall>x \<in> set ys1. fst x < fst item" "\<forall>x \<in> set ys2. fst item \<le> fst x"
    using page(2,3) d1 d2 by (metis (mono_tags) dom_map_of_conv_image_fst image_eqI mem_Collect_eq subsetD)+
  then have "sorted_less (map fst (ys1 @ ys2))" using d1 d2 by (fastforce simp: sorted_wrt_append)
  moreover have "map_of (ys1 @ ys2) = page_below (GetHighKeyPair r) (sss_live s) (LeafMergeNode m item r c)"
    unfolding page(1) map_of_append using d1 d2 map_add_comm [OF disj] by simp
  moreover have "counts_ok (delta_count (LeafMergeNode m item r c)) s f s2 f2" using counts_ok_trans d1 d2 by fastforce
  moreover have "set (sss_live s2) = {d \<in> set (sss_live s). \<not> below_high (GetHighKeyPair r) (ld_key d)}" using d1 d2 range by auto
  moreover have "\<forall>k \<in> set (BloomFilter_contents f2). k \<in> set (BloomFilter_contents f) \<or> key_in_range (LeafMergeNode m item r c) k"
    using d1 d2 range by (auto simp: key_in_range_def)
  ultimately show ?thesis using d1 d2 by (auto simp: collected_def)
qed

lemma collects_merge:
  fixes c r :: "('k::linorder, 'v) base_node"
  assumes ok: "page_ok (LeafMergeNode m item r c)"
    and c: "collects hash (GetHighKeyPair c) c" and r: "collects hash (GetHighKeyPair r) r"
  shows "collects hash (GetHighKeyPair (LeafMergeNode m item r c)) (LeafMergeNode m item r c)"
  unfolding collects_def merge_range(1,2) [OF ok]
proof (intro allI impI, elim conjE)
  fix cap f and s :: "('k, 'v) leaf_data_node sorted_small_set" and new :: "('k \<times> 'v) list"
  let ?n = "LeafMergeNode m item r c" and ?hc = "GetHighKeyPair c" and ?hr = "GetHighKeyPair r" and ?L = "sss_live s"
  assume pre: "containers_ok hash (GetLowKeyPair c) s f" "array_room (delta_count ?n) s f" "gathered_ok ?hr (base_items ?n) ?L"
    "length new + card (dom (page_below ?hr ?L ?n)) \<le> cap"
  note range = merge_range [OF ok]
  have srt: "sorted_less (map ld_key ?L)" using pre(1) by (simp add: containers_ok_def)
  define L' where "L' = dropWhile (\<lambda>d. below_high ?hc (ld_key d)) ?L"
  have srt': "sorted_less (map ld_key L')" unfolding L'_def using srt by (metis dropWhile_eq_drop drop_map sorted_wrt_drop)
  have L': "set L' = {d \<in> set ?L. \<not> below_high ?hc (ld_key d)}"
    using live_after_merge [OF srt, of ?hc] by (simp add: L'_def)
  note page = page_below_merge [OF ok srt srt' L']
  have disj: "dom (page_below ?hc ?L c) \<inter> dom (page_below ?hr L' r) = {}" using page(2,3) by fastforce
  have card: "card (dom (page_below ?hr ?L ?n)) = card (dom (page_below ?hc ?L c)) + card (dom (page_below ?hr L' r))"
    unfolding page(1) dom_map_add using disj by (simp add: card_Un_disjoint finite_page_below Int_commute Un_commute)
  have "gathered_ok ?hc (base_items c) ?L" using pre(3) srt by (auto simp: gathered_ok_def range)
  moreover have "array_room (delta_count c) s f" using pre(2) by (auto simp: array_room_def)
  ultimately obtain s1 f1 ys1 where c1: "CollectAllValuesOnLeafRecursive hash cap ?hc c s f new = Inr (s1, f1, new @ ys1)"
      "collected hash ?hc c s f s1 f1 ys1"
    using collectsD [OF c, of s f new cap] pre(1,4) card by auto
  note d1 = c1(2) [unfolded collected_def]
  have live1: "sss_live s1 = L'" using d1 srt' L' by (intro sorted_live_unique) simp_all
  have "array_room (delta_count r) s1 f1" using array_room_after [of "delta_count c" "delta_count r" s f s1 f1] pre(2) d1 by simp
  moreover have "length (new @ ys1) + card (dom (page_below ?hr (sss_live s1) r)) \<le> cap"
    using pre(4) card length_sorted_items [of ys1] d1 live1 by simp
  ultimately obtain s2 f2 ys2 where c2: "CollectAllValuesOnLeafRecursive hash cap ?hr r s1 f1 (new @ ys1) = Inr (s2, f2, (new @ ys1) @ ys2)"
      "collected hash ?hr r s1 f1 s2 f2 ys2"
    using collectsD [OF r collected_left(1) [OF ok pre(1,3) c1(2)] _ collected_left(2) [OF ok pre(1,3) c1(2)]] by blast
  then show "\<exists>s' f' ys. CollectAllValuesOnLeafRecursive hash cap ?hr ?n s f new = Inr (s', f', new @ ys) \<and> collected hash ?hr ?n s f s' f' ys"
    using c1(1) collected_merge [OF ok srt c1(2) c2(2)] by (intro exI [of _ s2] exI [of _ f2] exI [of _ "ys1 @ ys2"]) simp
qed

lemma page_collects:
  fixes n :: "('k::linorder, 'v) base_node"
  shows "page_ok n \<Longrightarrow> collects hash (GetHighKeyPair n) n"
proof (induction n)
  case (LeafNode m items)
  then show ?case by (rule collects_leaf)
next
  case (LeafInsertNode m item ip c)
  let ?d = "\<lparr>ld_type = LeafInsertType, ld_item = item, ld_index_pair = ip\<rparr>"
  show ?case
    by (rule collects_delta [of hash _ c _ ?d]) (use LeafInsertNode in
      \<open>auto simp: ctor_defs meta_defs key_in_range_def fun_eq_iff ld_val_def intro: key_in_range_below\<close>)
next
  case (LeafDeleteNode m item ip c)
  let ?d = "\<lparr>ld_type = LeafDeleteType, ld_item = item, ld_index_pair = ip\<rparr>"
  show ?case
    by (rule collects_delta [of hash _ c _ ?d]) (use LeafDeleteNode in
      \<open>auto simp: ctor_defs meta_defs key_in_range_def fun_eq_iff ld_val_def intro: key_in_range_below\<close>)
next
  case (LeafUpdateNode m item old ip c)
  let ?d = "\<lparr>ld_type = LeafUpdateType, ld_item = item, ld_index_pair = ip\<rparr>"
  have "fst old = fst item" using LeafUpdateNode.prems by simp
  then have old: "collect_old_item hash old f = Inr f" if "bloom_ok hash f" "fst item \<in> set (BloomFilter_contents f)" for f
    using that BloomFilter_Exists_eq [OF that(1), of "(=)"] by (simp add: collect_old_item_def)
  show ?case
    by (rule collects_delta [of hash _ c _ ?d]) (use LeafUpdateNode old in
      \<open>auto simp: ctor_defs meta_defs key_in_range_def fun_eq_iff ld_val_def intro: key_in_range_below\<close>)
next
  case (LeafSplitNode m item c)
  then obtain mc items where c: "c = LeafNode mc items" by (cases c) auto
  have ok: "page_ok c" using LeafSplitNode.prems by simp
  let ?n = "LeafSplitNode m item c" and ?hi = "GetHighKeyPair (LeafSplitNode m item c)"
  have hi: "?hi = item" "GetLowKeyPair ?n = GetLowKeyPair c" using LeafSplitNode.prems by (auto simp: meta_defs)
  have inv: "snd item \<noteq> INVALID_NODE_ID" using LeafSplitNode.prems by simp
  have page: "page_below ?hi L c = page_below ?hi L ?n" for L :: "('k, 'v) leaf_data_node list"
    unfolding hi using inv by (auto simp: page_below_def fun_eq_iff override_def below_high_def split: option.splits)
  show ?case
    unfolding collects_def
  proof (intro allI impI, elim conjE)
    fix cap f and s :: "('k, 'v) leaf_data_node sorted_small_set" and new :: "('k \<times> 'v) list"
    assume pre: "containers_ok hash (GetLowKeyPair ?n) s f" "array_room (delta_count ?n) s f" "gathered_ok ?hi (base_items ?n) (sss_live s)"
      "length new + card (dom (page_below ?hi (sss_live s) ?n)) \<le> cap"
    have "gathered_ok ?hi (base_items c) (sss_live s)" using pre(3) by (simp add: gathered_ok_def)
    then obtain s' f' ys where "CollectAllValuesOnLeafRecursive hash cap ?hi c s f new = Inr (s', f', new @ ys)" "collected hash ?hi c s f s' f' ys"
      using collectsD [OF collects_leaf [OF ok [unfolded c], folded c]] pre hi page by (metis delta_count.simps(5))
    moreover from this have "set (BloomFilter_contents f') = set (BloomFilter_contents f)" using c by (auto simp: bindR_eq_Inr)
    ultimately show "\<exists>s' f' ys. CollectAllValuesOnLeafRecursive hash cap ?hi ?n s f new = Inr (s', f', new @ ys) \<and> collected hash ?hi ?n s f s' f' ys"
      using page by (intro exI [of _ s'] exI [of _ f'] exI [of _ ys]) (auto simp: collected_def)
  qed
next
  case (LeafMergeNode m item r c)
  then show ?case using collects_merge [OF LeafMergeNode.prems] by (meson page_ok.simps(7))
qed simp

lemma collect_all_eq:
  fixes n :: "('k::linorder, 'v) base_node"
  assumes ok: "page_ok n" and depth: "delta_count n < 2 ^ 15"
  shows "\<exists>items. CollectAllValuesOnLeaf hash sss_data_p delta_set_data_p n
      = Inr (LeafNode (NodeMetaData_ctor (GetLowKeyPair n) (GetHighKeyPair n) 0 (GetItemCount n)) items)
    \<and> sorted_less (map fst items) \<and> map_of items = page_map n \<and> GetItemCount n = int (length items)"
proof -
  let ?d = "delta_count n"
  let ?s = "SortedSmallSet_ctor (map sss_data_p [0..<?d])" and ?f = "BloomFilter_ctor (map delta_set_data_p [0..<?d * 2])"
  have live: "sss_live ?s = []" "sss_ok ?s" by (simp_all add: SortedSmallSet_ctor_def sss_live_def sss_ok_def)
  have page: "page_below (GetHighKeyPair n) [] n = page_map n"
    using page_map_in_range [OF ok] by (intro ext) (metis key_in_range_below override_Nil page_below_def)
  have "array_room ?d ?s ?f" by (simp add: array_room_def SortedSmallSet_ctor_def BloomFilter_ctor_def)
  moreover have "containers_ok hash (GetLowKeyPair n) ?s ?f" "gathered_ok (GetHighKeyPair n) (base_items n) (sss_live ?s)"
    using live by (simp_all add: BloomFilter_ctor_ok containers_ok_def gathered_ok_def)
  moreover have "length [] + card (dom (page_below (GetHighKeyPair n) (sss_live ?s) n)) \<le> nat (GetItemCount n)"
    using item_count_eq [OF ok] live page by simp
  ultimately obtain s' f' ys where r:
      "CollectAllValuesOnLeafRecursive hash (nat (GetItemCount n)) (GetHighKeyPair n) n ?s ?f [] = Inr (s', f', [] @ ys)"
      "collected hash (GetHighKeyPair n) n ?s ?f s' f' ys"
    using collectsD [OF page_collects [OF ok]] by metis
  then have ys: "sorted_less (map fst ys)" "map_of ys = page_map n" using live page by (simp_all add: collected_def)
  then have "int (length ys) = GetItemCount n" using length_sorted_items [of ys] item_count_eq [OF ok] by simp
  then show ?thesis using r(1) ys depth_eq [OF ok depth] by (simp add: CollectAllValuesOnLeaf_def Let_def)
qed

lemma consolidated:
  fixes n :: "('k::linorder, 'v) base_node"
  assumes "page_ok n" "delta_count n < 2 ^ 15"
  obtains n' where "CollectAllValuesOnLeaf hash sd fd n = Inr n'" "page_ok n'" "page_map n' = page_map n"
    "key_in_range n' = key_in_range n" "delta_count n' = 0" "\<not> IsDeltaNode n'"
proof -
  obtain items where i: "CollectAllValuesOnLeaf hash sd fd n
      = Inr (LeafNode (NodeMetaData_ctor (GetLowKeyPair n) (GetHighKeyPair n) 0 (GetItemCount n)) items)"
      "sorted_less (map fst items)" "map_of items = page_map n" "GetItemCount n = int (length items)"
    using collect_all_eq [OF assms] by blast
  have "\<forall>k \<in> fst ` set items. key_in_range n k"
    using page_map_in_range [OF assms(1)] i(3) by (metis dom_map_of_conv_image_fst domIff)
  then show thesis using that i by (auto simp: key_in_range_def fun_eq_iff meta_defs to_short_small)
qed

text \<open>
  C15. Consolidation rewrites a page without changing it: as long as the chain has fewer than 32768
  records (the depth is a 16-bit number), \<^verbatim>\<open>CollectAllValuesOnLeaf\<close> ends without an assertion failing
  and without writing behind one of its three arrays, whatever the two stack arrays held before, and
  returns a well-formed base node of depth 0 with the contents, the range and the item count of the
  page.
\<close>

theorem consolidation_keeps_the_page:
  fixes n :: "('k::linorder, 'v) base_node"
  assumes "page_ok n" "delta_count n < 2 ^ 15"
  shows "\<exists>n'. CollectAllValuesOnLeaf hash sss_data_p delta_set_data_p n = Inr n' \<and> \<not> IsDeltaNode n' \<and> page_ok n'
    \<and> page_map n' = page_map n \<and> key_in_range n' = key_in_range n \<and> GetDepth n' = 0 \<and> GetItemCount n' = GetItemCount n"
  by (rule consolidated [OF assms])
    (auto simp: item_count_eq assms(1) depth_eq)

theorem consolidation_keeps_the_page_witness:
  "\<exists>n'. CollectAllValuesOnLeaf (\<lambda>k. of_nat k) (\<lambda>_. \<lparr>ld_type = LeafInsertType, ld_item = (0, 0), ld_index_pair = (0, False)\<rparr>) (\<lambda>_. 0) example_page
      = Inr n' \<and> page_map n' 25 = Some 6 \<and> page_map n' 10 = None \<and> GetItemCount n' = 3"
proof -
  have "delta_count example_page < 2 ^ 15" by code_simp
  moreover have "page_map example_page 25 = Some 6" "page_map example_page 10 = None" "GetItemCount example_page = 3" by code_simp+
  ultimately show ?thesis using consolidation_keeps_the_page [OF example_page_ok(1)] by metis
qed

end
