(* ===== verification/Bw_Page.thy ===== *)
theory Bw_Page
  imports Bw_Consolidate
begin

text \<open>
  Structure modifications of leaf pages and concurrent access to one page of the Bw-tree
  (\<^verbatim>\<open>src/src/indices/bw_tree/thread/bwtree.h\<close>): the split point and the split sibling of a base
  node, the leaf half of \<^verbatim>\<open>AdjustNodeSize\<close>, the merge record, and the loop of every operation
  around its compare-and-swap on the mapping table. The concurrent part runs one operation per
  thread under an arbitrary schedule of their atomic steps.
\<close>

section \<open>Splitting, removing and merging leaf nodes\<close>

text \<open>The two scans of \<^verbatim>\<open>FindSplitPoint\<close> around the central key; \<open>i\<close> is the index of the iterator.\<close>

fun scan_back :: "('k \<times> 'v) list \<Rightarrow> 'k \<Rightarrow> nat \<Rightarrow> nat" where
  "scan_back items central 0 = 0"
| "scan_back items central (Suc i) = (if fst (items ! Suc i) = central then scan_back items central i else Suc i)"

function scan_forward :: "('k \<times> 'v) list \<Rightarrow> 'k \<Rightarrow> nat \<Rightarrow> nat" where
  "scan_forward items central i =
     (if i < length items \<and> fst (items ! i) = central then scan_forward items central (Suc i) else i)"
  by pat_completeness auto
termination by (relation "measure (\<lambda>(items, _, i). length items - i)") auto

declare scan_forward.simps [simp del]

definition FindSplitPoint :: "('k \<times> 'v) list \<Rightarrow> int result" where
  "FindSplitPoint items =
     (let central_index = length items div 2
      in if \<not> central_index > 1 then Inl AssertionFailed
         else let central = fst (items ! central_index);
                  left_sibling_size = scan_back items central (central_index - 1) + 1
              in if int left_sibling_size > LEAF_NODE_SIZE_LOWER_THRESHOLD then Inr (int left_sibling_size)
                 else let it = scan_forward items central (central_index + 1);
                          right_sibling_size = length items - it
                      in if int right_sibling_size > LEAF_NODE_SIZE_LOWER_THRESHOLD then Inr (int it) else Inr (-1))"

definition GetSplitSibling :: "'k node_meta_data \<Rightarrow> ('k \<times> 'v) list \<Rightarrow> ('k, 'v) base_node option result" where
  "GetSplitSibling m items =
     (if int (length items) \<noteq> md_item_count m then Inl AssertionFailed
      else bindR (FindSplitPoint items) (\<lambda>split_item_index.
        if split_item_index = -1 then Inr None
        else let copy_start = nat split_item_index; sibling_size = length items - copy_start
             in bindR (aget items copy_start) (\<lambda>e.
                bindR (PushBack_range sibling_size [] items copy_start (length items)) (\<lambda>copied.
                  Inr (Some (LeafNode (NodeMetaData_ctor (fst e, NOT INVALID_NODE_ID) (high_key_p m) 0 (int sibling_size)) copied))))))"

text \<open>What \<^verbatim>\<open>AdjustNodeSize\<close> decides for a leaf page: the sibling with the split record, or the remove record.\<close>

datatype ('k, 'v) adjustment =
    NoAdjustment
  | PostSplit "('k, 'v) base_node" "('k, 'v) base_node"
  | ParentNotBlocked
  | PostRemove "('k, 'v) base_node"

definition leaf_adjustment ::
  "node_id \<Rightarrow> node_id \<Rightarrow> bool \<Rightarrow> bool \<Rightarrow> ('k, 'v) base_node \<Rightarrow> ('k, 'v) adjustment result" where
  "leaf_adjustment node_id new_node_id is_left_most parent_blocked node_p =
     (case node_p of LeafNode m items \<Rightarrow>
        if GetItemCount node_p \<ge> LEAF_NODE_SIZE_UPPER_THRESHOLD
        then bindR (GetSplitSibling m items) (\<lambda>sibling.
             case sibling of None \<Rightarrow> Inr NoAdjustment
             | Some (LeafNode sm sitems) \<Rightarrow>
                 if sitems = [] then Inl AssertionFailed
                 else Inr (PostSplit (LeafNode sm sitems)
                             (LeafSplitNode_ctor (fst (sitems ! 0), new_node_id) node_p (LeafNode sm sitems)))
             | Some _ \<Rightarrow> Inl AssertionFailed)
        else if GetItemCount node_p \<le> LEAF_NODE_SIZE_LOWER_THRESHOLD
        then if is_left_most then Inr NoAdjustment
             else if \<not> parent_blocked then Inr ParentNotBlocked
             else Inr (PostRemove (LeafRemoveNode_ctor node_id node_p))
        else Inr NoAdjustment
      | _ \<Rightarrow> Inr NoAdjustment)"

text \<open>
  The leaf half of \<^verbatim>\<open>AdjustNodeSize\<close> with its effects on the mapping table, the list of garbage nodes and the abort
  flag of the operation. The new id comes from \<^verbatim>\<open>GetNextNodeID\<close>; \<open>parent_blocked\<close> is what
  \<^verbatim>\<open>PostAbortOnParent\<close> answered (its record is taken off again in both branches) and \<open>cas\<close> what the
  compare-and-swap on the page's own entry answered.
\<close>

record ('k, 'v) smo_state =
  smo_mapping_table :: "node_id \<rightharpoonup> ('k, 'v) base_node"
  smo_garbage :: "('k, 'v) base_node list"
  smo_abort_flag :: bool

definition InstallNewNode :: "node_id \<Rightarrow> ('k, 'v) base_node \<Rightarrow> ('k, 'v) smo_state \<Rightarrow> ('k, 'v) smo_state" where
  "InstallNewNode node_id node_p st = st\<lparr>smo_mapping_table := (smo_mapping_table st)(node_id \<mapsto> node_p)\<rparr>"

definition AdjustNodeSize_leaf ::
  "node_id \<Rightarrow> node_id \<Rightarrow> bool \<Rightarrow> bool \<Rightarrow> bool \<Rightarrow> ('k, 'v) base_node \<Rightarrow> ('k, 'v) smo_state \<Rightarrow> ('k, 'v) smo_state result" where
  "AdjustNodeSize_leaf node_id new_node_id is_left_most parent_blocked cas node_p st =
     bindR (leaf_adjustment node_id new_node_id is_left_most parent_blocked node_p) (\<lambda>a. Inr (case a of
       NoAdjustment \<Rightarrow> st
     | PostSplit new_leaf_node_p split_node_p \<Rightarrow>
         let st1 = InstallNewNode new_node_id new_leaf_node_p st
         in if cas
            then st1\<lparr>smo_mapping_table := (smo_mapping_table st1)(node_id \<mapsto> split_node_p), smo_abort_flag := True\<rparr>
            else st1\<lparr>smo_garbage := smo_garbage st1 @ [LeafRemoveNode_ctor new_node_id new_leaf_node_p, new_leaf_node_p]\<rparr>
     | ParentNotBlocked \<Rightarrow> st\<lparr>smo_abort_flag := True\<rparr>
     | PostRemove remove_node_p \<Rightarrow>
         if cas then st\<lparr>smo_mapping_table := (smo_mapping_table st)(node_id \<mapsto> remove_node_p), smo_abort_flag := True\<rparr>
         else st\<lparr>smo_abort_flag := True\<rparr>))"

text \<open>The merge record that \<^verbatim>\<open>PostLeafMergeNode\<close> puts on the left page, over what the removed page held.\<close>

definition PostLeafMergeNode ::
  "('k, 'v) base_node \<Rightarrow> 'k \<Rightarrow> ('k, 'v) base_node \<Rightarrow> node_id \<Rightarrow> ('k, 'v) base_node" where
  "PostLeafMergeNode node_p merge_key merge_branch_p deleted_node_id =
     LeafMergeNode_ctor merge_key merge_branch_p deleted_node_id node_p"

section \<open>Concurrent operations on one page\<close>

datatype ('k, 'v) leaf_op = OpInsert 'k 'v | OpDelete 'k | OpUpsert 'k 'v | OpGetValue 'k | OpConsolidate

datatype 'v leaf_ret = RetBool bool | RetValues "'v list" | RetVoid

datatype ('k, 'v) round_result = Return "'v leaf_ret" | Install "('k, 'v) base_node" "'v leaf_ret"

text \<open>The guard of \<^verbatim>\<open>TryConsolidateNode\<close> for leaf pages.\<close>

definition needs_consolidation :: "('k, 'v) base_node \<Rightarrow> bool" where
  "needs_consolidation node_p \<longleftrightarrow> IsDeltaNode node_p \<and> GetDepth node_p \<ge> LEAF_DELTA_CHAIN_LENGTH_THRESHOLD"

fun leaf_round ::
  "('k::linorder \<Rightarrow> 64 word) \<Rightarrow> (nat \<Rightarrow> ('k, 'v) leaf_data_node) \<Rightarrow> (nat \<Rightarrow> 'k) \<Rightarrow> ('k, 'v) leaf_op \<Rightarrow> ('k, 'v) base_node
     \<Rightarrow> ('k, 'v) round_result result" where
  "leaf_round hash sd fd (OpInsert key val) node_p =
     bindR (Insert_attempt key val node_p) (\<lambda>r. case r of None \<Rightarrow> Inr (Return (RetBool False)) | Some n \<Rightarrow> Inr (Install n (RetBool True)))"
| "leaf_round hash sd fd (OpDelete key) node_p =
     bindR (Delete_attempt key node_p) (\<lambda>r. case r of None \<Rightarrow> Inr (Return (RetBool False)) | Some n \<Rightarrow> Inr (Install n (RetBool True)))"
| "leaf_round hash sd fd (OpUpsert key new_value) node_p =
     bindR (Upsert_attempt key new_value node_p) (\<lambda>(new_key, n). Inr (Install n (RetBool new_key)))"
| "leaf_round hash sd fd (OpGetValue key) node_p =
     bindR (GetValue_on_leaf key node_p) (\<lambda>vs. Inr (Return (RetValues vs)))"
| "leaf_round hash sd fd OpConsolidate node_p =
     (if \<not> needs_consolidation node_p then Inr (Return RetVoid)
      else bindR (CollectAllValuesOnLeaf hash sd fd node_p) (\<lambda>n. Inr (Install n RetVoid)))"

text \<open>
  The nodes that were ever installed under the node id, the pointer the mapping table holds, and the
  control state of the threads. A node that loses its compare-and-swap is destroyed at once.
\<close>

datatype ('k, 'v) thread_state =
    NotLoaded "('k, 'v) leaf_op"
  | Loaded "('k, 'v) leaf_op" nat
  | Done "('k, 'v) leaf_op" "'v leaf_ret"

record ('k, 'v) page_state =
  installed :: "('k, 'v) base_node list"
  mapping_entry :: nat
  page_threads :: "('k, 'v) thread_state list"

text \<open>
  \<^verbatim>\<open>InstallNodeToReplace\<close>: the compare-and-swap on the mapping table.
\<close>

definition InstallNodeToReplace :: "('k, 'v) page_state \<Rightarrow> ('k, 'v) base_node \<Rightarrow> nat \<Rightarrow> bool \<times> ('k, 'v) page_state" where
  "InstallNodeToReplace st node prev_p =
     (if mapping_entry st = prev_p
      then (True, st\<lparr>installed := installed st @ [node], mapping_entry := length (installed st)\<rparr>)
      else (False, st))"

definition page_step ::
  "('k::linorder \<Rightarrow> 64 word) \<Rightarrow> (nat \<Rightarrow> ('k, 'v) leaf_data_node) \<Rightarrow> (nat \<Rightarrow> 'k) \<Rightarrow> nat \<Rightarrow> ('k, 'v) page_state \<Rightarrow> ('k, 'v) page_state result" where
  "page_step hash sd fd t st =
     bindR (aget (page_threads st) t) (\<lambda>th. case th of
       NotLoaded op \<Rightarrow> Inr (st\<lparr>page_threads := (page_threads st)[t := Loaded op (mapping_entry st)]\<rparr>)
     | Loaded op p \<Rightarrow>
         bindR (aget (installed st) p) (\<lambda>node_p.
         bindR (leaf_round hash sd fd op node_p) (\<lambda>r. case r of
           Return ret \<Rightarrow> Inr (st\<lparr>page_threads := (page_threads st)[t := Done op ret]\<rparr>)
         | Install n ret \<Rightarrow>
             let (ok, st') = InstallNodeToReplace st n p
             in Inr (st'\<lparr>page_threads := (page_threads st)[t := if ok \<or> op = OpConsolidate then Done op ret else NotLoaded op]\<rparr>)))
     | Done op ret \<Rightarrow> Inr st)"

fun page_run ::
  "('k::linorder \<Rightarrow> 64 word) \<Rightarrow> (nat \<Rightarrow> ('k, 'v) leaf_data_node) \<Rightarrow> (nat \<Rightarrow> 'k) \<Rightarrow> nat list \<Rightarrow> ('k, 'v) page_state \<Rightarrow> ('k, 'v) page_state result" where
  "page_run hash sd fd [] st = Inr st"
| "page_run hash sd fd (t # ts) st = bindR (page_step hash sd fd t st) (page_run hash sd fd ts)"

definition page_init :: "('k, 'v) base_node \<Rightarrow> ('k, 'v) leaf_op list \<Rightarrow> ('k, 'v) page_state" where
  "page_init n ops = \<lparr>installed = [n], mapping_entry = 0, page_threads = map NotLoaded ops\<rparr>"

section \<open>The page as an atomic map\<close>

text \<open>The sequential specification, and the replay of a history of calls with their results.\<close>

fun spec_op :: "('k, 'v) leaf_op \<Rightarrow> ('k \<rightharpoonup> 'v) \<Rightarrow> ('k \<rightharpoonup> 'v) \<times> 'v leaf_ret" where
  "spec_op (OpInsert k v) m = (if m k = None then (m(k \<mapsto> v), RetBool True) else (m, RetBool False))"
| "spec_op (OpDelete k) m = (if m k = None then (m, RetBool False) else (m(k := None), RetBool True))"
| "spec_op (OpUpsert k v) m = (m(k \<mapsto> v), RetBool (m k = None))"
| "spec_op (OpGetValue k) m = (m, RetValues (case m k of None \<Rightarrow> [] | Some v \<Rightarrow> [v]))"
| "spec_op OpConsolidate m = (m, RetVoid)"

type_synonym ('k, 'v) page_event = "nat \<times> ('k, 'v) leaf_op \<times> 'v leaf_ret"

fun replay :: "('k, 'v) page_event list \<Rightarrow> ('k \<rightharpoonup> 'v) \<Rightarrow> ('k \<rightharpoonup> 'v) option" where
  "replay [] m = Some m"
| "replay ((t, op, ret) # es) m = (if snd (spec_op op m) = ret then replay es (fst (spec_op op m)) else None)"

lemma replay_append: "replay (es @ fs) m = Option.bind (replay es m) (replay fs)"
  by (induction es m rule: replay.induct) simp_all

fun op_in_range :: "('k \<Rightarrow> bool) \<Rightarrow> ('k, 'v) leaf_op \<Rightarrow> bool" where
  "op_in_range R (OpInsert k _) = R k"
| "op_in_range R (OpDelete k) = R k"
| "op_in_range R (OpUpsert k _) = R k"
| "op_in_range R (OpGetValue k) = R k"
| "op_in_range R OpConsolidate = True"

text \<open>
  Where the calls take effect: a call that returns without a new record when it loads the page, any
  other one with its compare-and-swap (a consolidation that loses it has no effect).
\<close>

definition step_events ::
  "('k::linorder \<Rightarrow> 64 word) \<Rightarrow> (nat \<Rightarrow> ('k, 'v) leaf_data_node) \<Rightarrow> (nat \<Rightarrow> 'k) \<Rightarrow> nat \<Rightarrow> ('k, 'v) page_state \<Rightarrow> ('k, 'v) page_event list" where
  "step_events hash sd fd t st =
     (case page_threads st ! t of
        NotLoaded op \<Rightarrow> (case leaf_round hash sd fd op (installed st ! mapping_entry st) of Inr (Return ret) \<Rightarrow> [(t, op, ret)] | _ \<Rightarrow> [])
      | Loaded op p \<Rightarrow> (case leaf_round hash sd fd op (installed st ! p) of
            Inr (Install n ret) \<Rightarrow> (if mapping_entry st = p \<or> op = OpConsolidate then [(t, op, ret)] else []) | _ \<Rightarrow> [])
      | Done _ _ \<Rightarrow> [])"

fun run_events ::
  "('k::linorder \<Rightarrow> 64 word) \<Rightarrow> (nat \<Rightarrow> ('k, 'v) leaf_data_node) \<Rightarrow> (nat \<Rightarrow> 'k) \<Rightarrow> nat list \<Rightarrow> ('k, 'v) page_state \<Rightarrow> ('k, 'v) page_event list" where
  "run_events hash sd fd [] st = []"
| "run_events hash sd fd (t # ts) st =
     step_events hash sd fd t st @ (case page_step hash sd fd t st of Inr st' \<Rightarrow> run_events hash sd fd ts st' | Inl _ \<Rightarrow> [])"

lemma delta_count_ctor [simp]:
  "delta_count (LeafInsertNode_ctor k v n ip) = Suc (delta_count n)" "delta_count (LeafDeleteNode_ctor k v n ip) = Suc (delta_count n)"
  "delta_count (LeafUpdateNode_ctor k w v n ip) = Suc (delta_count n)"
  by (simp_all add: ctor_defs)

text \<open>A round on a well-formed page computes what the specification says, or nothing at all.\<close>

lemma leaf_round_cases:
  fixes n :: "('k::linorder, 'v) base_node"
  assumes ok: "page_ok n" "op_in_range (key_in_range n) op" "delta_count n < 2 ^ 15"
  obtains (return) ret where "leaf_round hash sd fd op n = Inr (Return ret)" "spec_op op (page_map n) = (page_map n, ret)"
  | (install) n' ret where "leaf_round hash sd fd op n = Inr (Install n' ret)" "spec_op op (page_map n) = (page_map n', ret)"
      "page_ok n'" "key_in_range n' = key_in_range n" "delta_count n' \<le> Suc (delta_count n)"
proof (cases op)
  case (OpInsert k v)
  then show thesis
    using return install ok Insert_attempt_eq [OF ok(1), of k v] page_ok_ctor(1) [OF ok(1), of k v]
    by (cases "page_map n k") auto
next
  case (OpDelete k)
  then show thesis
    using return install ok Delete_attempt_eq [OF ok(1), of k] page_ok_ctor(2) [OF ok(1), of k]
    by (cases "page_map n k") auto
next
  case (OpUpsert k v)
  then show thesis
    using install ok Upsert_attempt_eq [OF ok(1), of k v] page_ok_ctor(1) [OF ok(1), of k v] page_ok_ctor(3) [OF ok(1), of k _ v]
    by (cases "page_map n k") auto
next
  case (OpGetValue k)
  then show thesis using return ok GetValue_on_leaf_eq [OF ok(1), of k] by auto
next
  case OpConsolidate
  then show thesis
    using return install consolidated [OF ok(1,3), of hash sd fd] by (cases "needs_consolidation n") (auto, force)
qed

section \<open>Every interleaving is a sequence of atomic calls\<close>

definition events_of :: "nat \<Rightarrow> ('k, 'v) page_event list \<Rightarrow> ('k, 'v) page_event list" where
  "events_of t es = filter (\<lambda>e. fst e = t) es"

lemma events_of_simps [simp]:
  "events_of t [] = []" "events_of t (es @ fs) = events_of t es @ events_of t fs"
  "events_of t ((t', op, ret) # es) = (if t' = t then (t', op, ret) # events_of t es else events_of t es)"
  by (simp_all add: events_of_def)

abbreviation current :: "('k, 'v) page_state \<Rightarrow> ('k, 'v) base_node" where
  "current st \<equiv> installed st ! mapping_entry st"

fun is_done :: "('k, 'v) thread_state \<Rightarrow> bool" where
  "is_done (Done _ _) = True"
| "is_done _ = False"

definition unfinished :: "('k, 'v) page_state \<Rightarrow> nat" where
  "unfinished st = length (filter (\<lambda>th. \<not> is_done th) (page_threads st))"

text \<open>What the history says of a thread.\<close>

fun thread_ok ::
  "(('k, 'v) leaf_op \<Rightarrow> ('k, 'v) base_node \<Rightarrow> ('k, 'v) round_result result) \<Rightarrow> ('k, 'v) base_node list \<Rightarrow> ('k, 'v) leaf_op
     \<Rightarrow> nat \<Rightarrow> ('k, 'v) page_event list \<Rightarrow> ('k, 'v) thread_state \<Rightarrow> bool" where
  "thread_ok rnd ns op t es (NotLoaded op') \<longleftrightarrow> op' = op \<and> es = []"
| "thread_ok rnd ns op t es (Loaded op' p) \<longleftrightarrow> op' = op \<and> p < length ns
     \<and> es = (case rnd op (ns ! p) of Inr (Return ret) \<Rightarrow> [(t, op, ret)] | _ \<Rightarrow> [])"
| "thread_ok rnd ns op t es (Done op' ret) \<longleftrightarrow> op' = op \<and> es = [(t, op, ret)]"

definition page_inv ::
  "(('k::linorder, 'v) leaf_op \<Rightarrow> ('k, 'v) base_node \<Rightarrow> ('k, 'v) round_result result) \<Rightarrow> ('k, 'v) base_node \<Rightarrow> ('k, 'v) leaf_op list
     \<Rightarrow> ('k, 'v) page_event list \<Rightarrow> ('k, 'v) page_state \<Rightarrow> bool" where
  "page_inv rnd n0 ops es st \<longleftrightarrow>
     (\<forall>n \<in> set (installed st). page_ok n \<and> key_in_range n = key_in_range n0 \<and> delta_count n \<le> delta_count n0 + length ops)
     \<and> mapping_entry st < length (installed st) \<and> delta_count (current st) + unfinished st \<le> delta_count n0 + length ops
     \<and> replay es (page_map n0) = Some (page_map (current st)) \<and> length (page_threads st) = length ops
     \<and> (\<forall>t < length ops. thread_ok rnd (installed st) (ops ! t) t (events_of t es) (page_threads st ! t))"

lemma unfinished_update:
  assumes "t < length (page_threads st)" "\<not> is_done (page_threads st ! t)"
  shows "unfinished (st\<lparr>page_threads := (page_threads st)[t := th]\<rparr>) + of_bool (is_done th) = unfinished st"
proof -
  let ?xs = "page_threads st"
  have "unfinished st = length (filter (\<lambda>th. \<not> is_done th) (take t ?xs @ ?xs ! t # drop (Suc t) ?xs))"
    unfolding unfinished_def using arg_cong [OF id_take_nth_drop [OF assms(1)], of "\<lambda>l. length (filter (\<lambda>th. \<not> is_done th) l)"] .
  then show ?thesis using assms by (simp add: unfinished_def upd_conv_take_nth_drop)
qed

lemma thread_ok_more: "thread_ok rnd ns op t es th \<Longrightarrow> thread_ok rnd (ns @ ms) op t es th"
  by (cases th) (auto simp: nth_append)

text \<open>A step replaces one thread's state, perhaps appends a node and moves the entry, and perhaps adds an event of that thread.\<close>

lemma page_inv_update:
  assumes inv: "page_inv rnd n0 ops es st" and t: "t < length ops" and undone: "\<not> is_done (page_threads st ! t)"
    and ms: "\<forall>n \<in> set ms. page_ok n \<and> key_in_range n = key_in_range n0 \<and> delta_count n \<le> delta_count n0 + length ops"
    and e: "e < length (installed st @ ms)"
      "delta_count ((installed st @ ms) ! e) + unfinished st \<le> delta_count n0 + length ops + of_bool (is_done th)"
    and fs: "\<forall>u. u \<noteq> t \<longrightarrow> events_of u fs = []" "replay fs (page_map (current st)) = Some (page_map ((installed st @ ms) ! e))"
    and th: "thread_ok rnd (installed st @ ms) (ops ! t) t (events_of t es @ events_of t fs) th"
  shows "page_inv rnd n0 ops (es @ fs) (st\<lparr>installed := installed st @ ms, mapping_entry := e, page_threads := (page_threads st)[t := th]\<rparr>)"
    (is "page_inv rnd n0 ops _ ?st")
proof -
  note I = inv [unfolded page_inv_def]
  have tl: "t < length (page_threads st)" using I t by simp
  have "unfinished ?st + of_bool (is_done th) = unfinished st"
    using unfinished_update [OF tl undone, of th] by (simp add: unfinished_def)
  then have "delta_count (current ?st) + unfinished ?st \<le> delta_count n0 + length ops" using e(2) by simp
  moreover have "thread_ok rnd (installed ?st) (ops ! u) u (events_of u (es @ fs)) (page_threads ?st ! u)" if "u < length ops" for u
    using I that tl th fs(1) by (cases "u = t") (simp_all add: thread_ok_more)
  ultimately show ?thesis using I ms e(1) fs(2) by (auto simp: page_inv_def replay_append)
qed

lemma page_inv_node:
  assumes "page_inv rnd n0 ops es st" "t < length ops" "\<forall>op \<in> set ops. op_in_range (key_in_range n0) op"
    "delta_count n0 + length ops < 2 ^ 15" "p < length (installed st)"
  shows "page_ok (installed st ! p)" "op_in_range (key_in_range (installed st ! p)) (ops ! t)" "delta_count (installed st ! p) < 2 ^ 15"
proof -
  have "installed st ! p \<in> set (installed st)" using assms(5) by simp
  then have n: "page_ok (installed st ! p)" "key_in_range (installed st ! p) = key_in_range n0" "delta_count (installed st ! p) \<le> delta_count n0 + length ops"
    using assms(1) unfolding page_inv_def by blast+
  then show "page_ok (installed st ! p)" "op_in_range (key_in_range (installed st ! p)) (ops ! t)" "delta_count (installed st ! p) < 2 ^ 15"
    using assms(2,3,4) by simp_all
qed

lemma page_inv_load:
  fixes n0 :: "('k::linorder, 'v) base_node" and fd :: "nat \<Rightarrow> 'k"
  assumes inv: "page_inv (leaf_round hash sd fd) n0 ops es st" and t: "t < length ops"
    and ops: "\<forall>op \<in> set ops. op_in_range (key_in_range n0) op" "delta_count n0 + length ops < 2 ^ 15"
    and NotLoaded: "page_threads st ! t = NotLoaded op"
  shows "\<exists>st'. page_step hash sd fd t st = Inr st' \<and> page_inv (leaf_round hash sd fd) n0 ops (es @ step_events hash sd fd t st) st'"
proof -
  note I = inv [unfolded page_inv_def]
  have th: "op = ops ! t" "events_of t es = []" using I t NotLoaded by (metis thread_ok.simps(1))+
  have p: "mapping_entry st < length (installed st)" using I by simp
  let ?th = "Loaded op (mapping_entry st)" and ?es = "step_events hash sd fd t st"
  have step: "page_step hash sd fd t st
      = Inr (st\<lparr>installed := installed st @ [], mapping_entry := mapping_entry st, page_threads := (page_threads st)[t := ?th]\<rparr>)"
    using I t NotLoaded by (simp add: page_step_def aget_def)
  have "(\<forall>u. u \<noteq> t \<longrightarrow> events_of u ?es = []) \<and> replay ?es (page_map (current st)) = Some (page_map (current st))
      \<and> thread_ok (leaf_round hash sd fd) (installed st) (ops ! t) t (events_of t ?es) ?th"
    using page_inv_node [OF inv t ops p]
    by (cases rule: leaf_round_cases [where hash = hash and sd = sd and fd = fd]) (use NotLoaded th p in \<open>simp_all add: step_events_def\<close>)
  then show ?thesis
    unfolding step using page_inv_update [OF inv t, of "[]" "mapping_entry st" ?th ?es] I NotLoaded th by simp
qed

lemma page_inv_cas:
  fixes n0 :: "('k::linorder, 'v) base_node" and fd :: "nat \<Rightarrow> 'k"
  assumes inv: "page_inv (leaf_round hash sd fd) n0 ops es st" and t: "t < length ops"
    and ops: "\<forall>op \<in> set ops. op_in_range (key_in_range n0) op" "delta_count n0 + length ops < 2 ^ 15"
    and Loaded: "page_threads st ! t = Loaded op p"
  shows "\<exists>st'. page_step hash sd fd t st = Inr st' \<and> page_inv (leaf_round hash sd fd) n0 ops (es @ step_events hash sd fd t st) st'"
proof -
  note I = inv [unfolded page_inv_def]
  let ?rnd = "leaf_round hash sd fd"
  have th: "op = ops ! t" "p < length (installed st)"
      "events_of t es = (case ?rnd op (installed st ! p) of Inr (Return ret) \<Rightarrow> [(t, op, ret)] | _ \<Rightarrow> [])"
    using I t Loaded by (metis thread_ok.simps(2))+
  have tl: "t < length (page_threads st)" "\<not> is_done (page_threads st ! t)" using I t Loaded by simp_all
  note upd = page_inv_update [OF inv t tl(2)]
  show ?thesis
    using page_inv_node [OF inv t ops th(2)]
  proof (cases rule: leaf_round_cases [where hash = hash and sd = sd and fd = fd])
    case (return ret)
    then show ?thesis
      using upd [of "[]" "mapping_entry st" "Done op ret" "[]"] I th Loaded tl by (simp add: step_events_def page_step_def aget_def)
  next
    case (install n' ret)
    consider "mapping_entry st = p" | "mapping_entry st \<noteq> p" "op = OpConsolidate" | "mapping_entry st \<noteq> p" "op \<noteq> OpConsolidate" by blast
    then show ?thesis
    proof cases
      case 1
      have "0 < unfinished st" using tl nth_mem [OF tl(1)] by (auto simp: unfinished_def filter_empty_conv)
      moreover have "delta_count (installed st ! p) + unfinished st \<le> delta_count n0 + length ops" "key_in_range (installed st ! p) = key_in_range n0"
        using I 1 by auto
      ultimately show ?thesis
        using upd [of "[n']" "length (installed st)" "Done op ret" "[(t, op, ret)]"] install th Loaded tl 1
        by (simp add: step_events_def page_step_def aget_def InstallNodeToReplace_def)
    next
      case 2
      then have "ret = RetVoid" using install(2) th(1) by simp
      then show ?thesis
        using upd [of "[]" "mapping_entry st" "Done op ret" "[(t, op, ret)]"] I install th Loaded tl 2
        by (simp add: step_events_def page_step_def aget_def InstallNodeToReplace_def)
    next
      case 3
      then show ?thesis
        using upd [of "[]" "mapping_entry st" "NotLoaded op" "[]"] I install th Loaded tl
        by (simp add: step_events_def page_step_def aget_def InstallNodeToReplace_def)
    qed
  qed
qed

lemma page_inv_step:
  fixes n0 :: "('k::linorder, 'v) base_node" and fd :: "nat \<Rightarrow> 'k"
  assumes inv: "page_inv (leaf_round hash sd fd) n0 ops es st" and t: "t < length ops"
    and ops: "\<forall>op \<in> set ops. op_in_range (key_in_range n0) op" "delta_count n0 + length ops < 2 ^ 15"
  shows "\<exists>st'. page_step hash sd fd t st = Inr st' \<and> page_inv (leaf_round hash sd fd) n0 ops (es @ step_events hash sd fd t st) st'"
proof (cases "page_threads st ! t")
  case (Done op ret)
  then show ?thesis using inv t by (simp add: page_step_def step_events_def aget_def page_inv_def)
qed (use page_inv_load [OF assms] page_inv_cas [OF assms] in simp_all)

lemma page_inv_run:
  fixes n0 :: "('k::linorder, 'v) base_node" and fd :: "nat \<Rightarrow> 'k"
  assumes ops: "\<forall>op \<in> set ops. op_in_range (key_in_range n0) op" "delta_count n0 + length ops < 2 ^ 15"
  shows "page_inv (leaf_round hash sd fd) n0 ops es st \<Longrightarrow> \<forall>t \<in> set ts. t < length ops \<Longrightarrow>
    \<exists>st'. page_run hash sd fd ts st = Inr st' \<and> page_inv (leaf_round hash sd fd) n0 ops (es @ run_events hash sd fd ts st) st'"
proof (induction ts arbitrary: es st)
  case (Cons t ts)
  obtain st1 where s1: "page_step hash sd fd t st = Inr st1" "page_inv (leaf_round hash sd fd) n0 ops (es @ step_events hash sd fd t st) st1"
    using page_inv_step [OF Cons.prems(1) _ ops, of t] Cons.prems(2) by auto
  then show ?case using Cons.IH [OF s1(2)] Cons.prems(2) by simp
qed simp

lemma page_inv_init:
  assumes "page_ok n0"
  shows "page_inv rnd n0 ops [] (page_init n0 ops)"
proof -
  have "filter (\<lambda>th. \<not> is_done th) (map NotLoaded ops) = map NotLoaded ops" by simp
  then have "unfinished (page_init n0 ops) = length ops" by (simp add: unfinished_def page_init_def)
  then show ?thesis using assms by (simp add: page_inv_def page_init_def)
qed

text \<open>
  C14. A leaf page is linearizable: whatever the schedule of the threads' loads and compare-and-swaps,
  no step fails, and the calls can be ordered by the steps in which they take effect so that the
  sequential map gives every finished call the value it returned and ends with the contents of the
  page. A thread that has finished has exactly one event, the one of its call; a thread that has not
  loaded the page yet has none, so the order respects real time.
\<close>

theorem leaf_page_is_linearizable:
  fixes n0 :: "('k::linorder, 'v) base_node" and fd :: "nat \<Rightarrow> 'k"
  assumes "page_ok n0" "\<forall>op \<in> set ops. op_in_range (key_in_range n0) op" "delta_count n0 + length ops < 2 ^ 15"
    "\<forall>t \<in> set schedule. t < length ops"
  shows "\<exists>st. page_run hash sd fd schedule (page_init n0 ops) = Inr st
    \<and> replay (run_events hash sd fd schedule (page_init n0 ops)) (page_map n0) = Some (page_map (current st))
    \<and> (\<forall>t < length ops. case page_threads st ! t of
          Done op ret \<Rightarrow> op = ops ! t \<and> events_of t (run_events hash sd fd schedule (page_init n0 ops)) = [(t, op, ret)]
        | NotLoaded op \<Rightarrow> op = ops ! t \<and> events_of t (run_events hash sd fd schedule (page_init n0 ops)) = []
        | Loaded op p \<Rightarrow> op = ops ! t \<and> length (events_of t (run_events hash sd fd schedule (page_init n0 ops))) \<le> 1)"
proof -
  let ?es = "run_events hash sd fd schedule (page_init n0 ops)"
  obtain st where st: "page_run hash sd fd schedule (page_init n0 ops) = Inr st" "page_inv (leaf_round hash sd fd) n0 ops ?es st"
    using page_inv_run [OF assms(2,3) page_inv_init [OF assms(1)] assms(4), of hash sd fd] by auto
  have "case page_threads st ! t of Done op ret \<Rightarrow> op = ops ! t \<and> events_of t ?es = [(t, op, ret)]
      | NotLoaded op \<Rightarrow> op = ops ! t \<and> events_of t ?es = [] | Loaded op p \<Rightarrow> op = ops ! t \<and> length (events_of t ?es) \<le> 1"
    if "t < length ops" for t
  proof -
    have "thread_ok (leaf_round hash sd fd) (installed st) (ops ! t) t (events_of t ?es) (page_threads st ! t)"
      using st(2) that by (simp add: page_inv_def)
    then show ?thesis by (cases "page_threads st ! t") (auto split: sum.splits round_result.splits)
  qed
  then show ?thesis using st by (auto simp: page_inv_def)
qed

abbreviation example_record :: "nat \<Rightarrow> (nat, nat) leaf_data_node" where
  "example_record \<equiv> \<lambda>_. \<lparr>ld_type = LeafInsertType, ld_item = (0, 0), ld_index_pair = (0, False)\<rparr>"

abbreviation example_start :: "(nat, nat) page_state" where
  "example_start \<equiv> page_init example_page [OpInsert 40 4, OpInsert 40 5, OpGetValue 40]"

theorem leaf_page_is_linearizable_witness:
  "\<exists>st. page_run of_nat example_record (\<lambda>_. 0) [0, 1, 1, 0, 0, 0, 2, 2] example_start = Inr st
     \<and> replay (run_events of_nat example_record (\<lambda>_. 0) [0, 1, 1, 0, 0, 0, 2, 2] example_start) (page_map example_page)
         = Some (page_map (current st))
     \<and> page_threads st = [Done (OpInsert 40 4) (RetBool False), Done (OpInsert 40 5) (RetBool True), Done (OpGetValue 40) (RetValues [5])]"
proof -
  let ?ops = "[OpInsert 40 4, OpInsert 40 5, OpGetValue 40] :: (nat, nat) leaf_op list" and ?ts = "[0, 1, 1, 0, 0, 0, 2, 2] :: nat list"
  have "\<forall>op \<in> set ?ops. op_in_range (key_in_range example_page) op" using example_page_ok(3) by simp
  moreover have "delta_count example_page + length ?ops < 2 ^ 15" by code_simp
  moreover have "\<forall>t \<in> set ?ts. t < length ?ops" by simp
  ultimately obtain st where st: "page_run of_nat example_record (\<lambda>_. 0) ?ts example_start = Inr st"
      "replay (run_events of_nat example_record (\<lambda>_. 0) ?ts example_start) (page_map example_page) = Some (page_map (current st))"
    using leaf_page_is_linearizable [OF example_page_ok(1), of ?ops ?ts of_nat example_record "\<lambda>_. 0"] by blast
  have "case page_run of_nat example_record (\<lambda>_. 0) ?ts example_start of Inl _ \<Rightarrow> False | Inr st \<Rightarrow> page_threads st
      = [Done (OpInsert 40 4) (RetBool False), Done (OpInsert 40 5) (RetBool True), Done (OpGetValue 40) (RetValues [5])]" by code_simp
  then show ?thesis using st by simp
qed

section \<open>Splits and merges\<close>

lemma split_point:
  assumes "sorted_less (map fst items)" "64 \<le> length items"
  shows "FindSplitPoint items = Inr (int (length items div 2))"
proof -
  define c where "c = length items div 2"
  have c: "32 \<le> c" "c < length items" using assms(2) by (auto simp: c_def)
  define i where "i = c - 2"
  have i: "c = Suc (Suc i)" using c by (simp add: i_def)
  have "fst (items ! Suc i) < fst (items ! c)" using sorted_less_nth_mono [OF assms(1), of "Suc i" c] c i by simp
  then have "scan_back items (fst (items ! c)) (c - 1) = c - 1" using i by auto
  then show ?thesis using c by (simp add: FindSplitPoint_def Let_def LEAF_NODE_SIZE_LOWER_THRESHOLD_def flip: c_def)
qed

lemma filter_from_split:
  assumes "sorted_less (map fst items)" "c < length items"
  shows "filter (\<lambda>e. fst (items ! c) \<le> fst e) items = drop c items"
proof -
  have "filter (\<lambda>e. fst (items ! c) \<le> fst e) (take c items) = []"
    using assms sorted_less_nth_mono [OF assms(1), of _ c] by (fastforce simp: filter_empty_conv in_set_conv_nth not_le)
  moreover have "fst (items ! c) \<le> fst e" if e: "e \<in> set (drop c items)" for e
  proof -
    obtain i where i: "i < length (drop c items)" "drop c items ! i = e" using e unfolding in_set_conv_nth by blast
    then have "c + i < length items" "e = items ! (c + i)" using assms(2) by (simp_all add: less_diff_conv add.commute)
    then show ?thesis using sorted_less_nth_le [OF assms(1), of c "c + i"] by simp
  qed
  then have "filter (\<lambda>e. fst (items ! c) \<le> fst e) (drop c items) = drop c items" by (simp add: filter_id_conv)
  ultimately show ?thesis by (metis append_Nil append_take_drop_id filter_append)
qed

lemma map_of_filter_key: "P k \<Longrightarrow> map_of (filter (\<lambda>e. P (fst e)) xs) k = map_of xs k"
  by (induction xs) auto

lemma leaf_split_eq:
  fixes items :: "('k::linorder \<times> 'v) list"
  assumes n: "page_ok (LeafNode m items)" "64 \<le> GetItemCount (LeafNode m items)"
  defines "c \<equiv> length items div 2"
  defines "sib \<equiv> LeafNode (NodeMetaData_ctor (fst (items ! c), NOT INVALID_NODE_ID) (high_key_p m) 0 (int (length items - c))) (drop c items)"
  shows "leaf_adjustment node_id new_id lm pb (LeafNode m items)
    = Inr (PostSplit sib (LeafSplitNode_ctor (fst (items ! c), new_id) (LeafNode m items) sib))"
proof -
  have len: "64 \<le> length items" "md_item_count m = int (length items)" using n by (simp_all add: meta_defs)
  then have c: "c < length items" by (auto simp: c_def)
  have "GetSplitSibling m items = Inr (Some sib)"
    using split_point [OF _ len(1)] n len c
    by (simp add: GetSplitSibling_def aget_def PushBack_range_eq Let_def sib_def segment_def flip: c_def)
  moreover have "drop c items \<noteq> []" "drop c items ! 0 = items ! c" using c by simp_all
  ultimately show ?thesis using n len c by (simp add: leaf_adjustment_def LEAF_NODE_SIZE_UPPER_THRESHOLD_def sib_def)
qed

lemma leaf_split_effect:
  assumes "leaf_adjustment node_id new_id lm pb n = Inr (PostSplit sib sp)"
  shows "AdjustNodeSize_leaf node_id new_id lm pb True n st
      = Inr (st\<lparr>smo_mapping_table := (smo_mapping_table st)(new_id \<mapsto> sib, node_id \<mapsto> sp), smo_abort_flag := True\<rparr>)"
    and "AdjustNodeSize_leaf node_id new_id lm pb False n st
      = Inr (st\<lparr>smo_mapping_table := (smo_mapping_table st)(new_id \<mapsto> sib),
               smo_garbage := smo_garbage st @ [LeafRemoveNode_ctor new_id sib, sib]\<rparr>)"
  using assms by (simp_all add: AdjustNodeSize_leaf_def InstallNewNode_def)

lemma leaf_split_parts:
  fixes items :: "('k::linorder \<times> 'v) list"
  assumes n: "page_ok (LeafNode m items)" "c < length items" "new_id \<noteq> INVALID_NODE_ID"
  defines "sib \<equiv> LeafNode (NodeMetaData_ctor (fst (items ! c), NOT INVALID_NODE_ID) (high_key_p m) 0 (int (length items - c))) (drop c items)"
  defines "sp \<equiv> LeafSplitNode_ctor (fst (items ! c), new_id) (LeafNode m items) sib"
  shows "page_ok sib" "page_ok sp" "GetItemCount sp = int c" "GetItemCount sib = int (length items - c)"
    "page_map (LeafNode m items) = page_map sp ++ page_map sib"
    "key_in_range sp k \<longleftrightarrow> key_in_range (LeafNode m items) k \<and> k < fst (items ! c)"
    "key_in_range sib k \<longleftrightarrow> key_in_range (LeafNode m items) k \<and> fst (items ! c) \<le> k"
proof -
  let ?k = "fst (items ! c)"
  have srt: "sorted_less (map fst items)" and cnt: "md_item_count m = int (length items)" using n(1) by simp_all
  have lo: "above_low (low_key_p m) ?k" "below_high (high_key_p m) ?k" using n(1) nth_mem [OF n(2)] by auto
  have filt: "filter (\<lambda>e. ?k \<le> fst e) items = drop c items" by (rule filter_from_split [OF srt n(2)])
  have up: "?k \<le> fst e" if "e \<in> set (drop c items)" for e using that unfolding filt [symmetric] by simp
  have inv: "NOT INVALID_NODE_ID \<noteq> INVALID_NODE_ID" by (simp add: INVALID_NODE_ID_def)
  show "page_ok sib" using n(1) up inv by (auto simp: sib_def NodeMetaData_ctor_def to_short_small above_low_def drop_map [symmetric] dest: in_set_dropD)
  show "GetItemCount sp = int c" "GetItemCount sib = int (length items - c)" using n(2) cnt by (simp_all add: sp_def sib_def LeafSplitNode_ctor_def meta_defs)
  show "page_ok sp"
    using n lo filt by (simp add: sp_def sib_def LeafSplitNode_ctor_def key_in_range_def meta_defs)
  show "key_in_range sp k \<longleftrightarrow> key_in_range (LeafNode m items) k \<and> k < ?k"
    using n(3) lo by (auto simp: sp_def LeafSplitNode_ctor_def key_in_range_def meta_defs below_high_def)
  show "key_in_range sib k \<longleftrightarrow> key_in_range (LeafNode m items) k \<and> ?k \<le> k"
    using lo inv by (auto simp: sib_def key_in_range_def meta_defs above_low_def)
  have high: "map_of items x = map_of (drop c items) x" if "\<not> x < ?k" for x
    using map_of_filter_key [of "\<lambda>x. ?k \<le> x" x items] that filt by simp
  have low: "map_of (drop c items) x = None" if "x < ?k" for x
    using up that by (fastforce simp: map_of_eq_None_iff)
  show "page_map (LeafNode m items) = page_map sp ++ page_map sib"
  proof (rule ext)
    fix x
    show "page_map (LeafNode m items) x = (page_map sp ++ page_map sib) x"
      using high [of x] low [of x] by (cases "x < ?k") (auto simp: sp_def sib_def LeafSplitNode_ctor_def map_add_def split: option.splits)
  qed
qed

text \<open>
  C25. A leaf page that has reached the upper threshold is cut in two pages without losing anything: when the
  compare-and-swap succeeds, the mapping table holds the split record under the id of the page and the sibling
  under the new id, both are well formed, partition the key range and the contents, the record points
  to the sibling, both halves are above the size at which a page is removed, and the operation starts
  again from the root. When it fails, the entry of the page is left alone and the sibling is handed to the garbage
  collector, below a remove record that gives its id back.
\<close>

theorem leaf_split_partitions_the_page:
  fixes n :: "('k::linorder, 'v) base_node"
  assumes "page_ok n" "\<not> IsDeltaNode n" "LEAF_NODE_SIZE_UPPER_THRESHOLD \<le> GetItemCount n" "new_id \<noteq> INVALID_NODE_ID"
  shows "\<exists>sib sp. AdjustNodeSize_leaf node_id new_id lm pb True n st
        = Inr (st\<lparr>smo_mapping_table := (smo_mapping_table st)(new_id \<mapsto> sib, node_id \<mapsto> sp), smo_abort_flag := True\<rparr>)
    \<and> AdjustNodeSize_leaf node_id new_id lm pb False n st
        = Inr (st\<lparr>smo_mapping_table := (smo_mapping_table st)(new_id \<mapsto> sib),
                 smo_garbage := smo_garbage st @ [LeafRemoveNode_ctor new_id sib, sib]\<rparr>)
    \<and> page_ok sib \<and> page_ok sp
    \<and> page_map n = page_map sp ++ page_map sib \<and> (\<forall>k. key_in_range n k = (key_in_range sp k \<noteq> key_in_range sib k))
    \<and> (\<forall>k. \<not> (key_in_range sp k \<and> key_in_range sib k)) \<and> GetNextNodeID sp = new_id
    \<and> LEAF_NODE_SIZE_LOWER_THRESHOLD < GetItemCount sp \<and> LEAF_NODE_SIZE_LOWER_THRESHOLD < GetItemCount sib"
proof -
  obtain m items where n: "n = LeafNode m items" using assms(2) by (cases n) auto
  have big: "64 \<le> length items" using assms(1,3) n by (simp add: meta_defs LEAF_NODE_SIZE_UPPER_THRESHOLD_def)
  define c where "c = length items div 2"
  have c: "c < length items" "32 \<le> c" "32 \<le> length items - c" using big by (auto simp: c_def)
  define sib where "sib = LeafNode (NodeMetaData_ctor (fst (items ! c), NOT INVALID_NODE_ID) (high_key_p m) 0 (int (length items - c))) (drop c items)"
  define sp where "sp = LeafSplitNode_ctor (fst (items ! c), new_id) n sib"
  note parts = leaf_split_parts [OF assms(1) [unfolded n] c(1) assms(4), folded sib_def n, folded sp_def]
  have "64 \<le> GetItemCount (LeafNode m items)" using assms(3) n by (simp add: LEAF_NODE_SIZE_UPPER_THRESHOLD_def)
  then have "leaf_adjustment node_id new_id lm pb n = Inr (PostSplit sib sp)"
    using leaf_split_eq [OF assms(1) [unfolded n], of node_id new_id lm pb] n by (simp add: sp_def sib_def c_def)
  note leaf_split_effect [OF this, of st]
  moreover have "GetNextNodeID sp = new_id" by (simp add: sp_def LeafSplitNode_ctor_def meta_defs)
  moreover have "LEAF_NODE_SIZE_LOWER_THRESHOLD < GetItemCount sp" "LEAF_NODE_SIZE_LOWER_THRESHOLD < GetItemCount sib"
    using parts(3,4) c by (simp_all add: LEAF_NODE_SIZE_LOWER_THRESHOLD_def)
  moreover have "\<forall>k. key_in_range n k = (key_in_range sp k \<noteq> key_in_range sib k)" "\<forall>k. \<not> (key_in_range sp k \<and> key_in_range sib k)"
    unfolding parts(6,7) by auto
  ultimately show ?thesis using parts(1,2,5) by blast
qed

text \<open>The record of a merge is well formed when the two pages are neighbours.\<close>

lemma merge_record_ok:
  fixes c r :: "('k::linorder, 'v) base_node"
  assumes "page_ok c" "page_ok r" "GetHighKeyPair c = (k, i)" "i \<noteq> INVALID_NODE_ID" "fst (GetLowKeyPair r) = k" "snd (GetLowKeyPair r) \<noteq> INVALID_NODE_ID"
    "above_low (GetLowKeyPair c) k" "below_high (GetHighKeyPair r) k"
  shows "page_ok (PostLeafMergeNode c k r j)" "page_map (PostLeafMergeNode c k r j) = page_map c ++ page_map r"
    "key_in_range (PostLeafMergeNode c k r j) x \<longleftrightarrow> key_in_range c x \<or> key_in_range r x"
proof -
  show ok: "page_ok (PostLeafMergeNode c k r j)"
    using assms by (simp add: PostLeafMergeNode_def LeafMergeNode_ctor_def meta_defs)
  have "page_map r x = None" if "x < k" for x
    using page_map_in_range [OF assms(2), of x] assms(5,6) that by (cases "page_map r x") (auto simp: key_in_range_def above_low_def)
  moreover have "page_map c x = None" if "k \<le> x" for x
    using page_map_in_range [OF assms(1), of x] assms(3,4) that by (cases "page_map c x") (auto simp: key_in_range_def below_high_def)
  ultimately show "page_map (PostLeafMergeNode c k r j) = page_map c ++ page_map r"
    by (auto simp: PostLeafMergeNode_def LeafMergeNode_ctor_def fun_eq_iff map_add_def not_le split: option.splits)
  have "GetLowKeyPair (PostLeafMergeNode c k r j) = GetLowKeyPair c" "GetHighKeyPair (PostLeafMergeNode c k r j) = GetHighKeyPair r"
    by (simp_all add: PostLeafMergeNode_def LeafMergeNode_ctor_def meta_defs)
  then show "key_in_range (PostLeafMergeNode c k r j) x \<longleftrightarrow> key_in_range c x \<or> key_in_range r x"
    using assms(3-8) by (cases "x < k") (auto simp: key_in_range_def above_low_def below_high_def)
qed

lemma map_of_sorted_unique:
  assumes "sorted_less (map fst xs)" "sorted_less (map fst ys)" "map_of xs = map_of ys"
  shows "xs = ys"
proof -
  have "distinct (map fst xs)" "distinct (map fst ys)" "sorted (map fst xs)" "sorted (map fst ys)"
    using assms(1,2) by (simp_all add: strict_sorted_iff)
  moreover from this have "set xs = set ys" using assms(3) by (metis map_of_inject_set)
  ultimately show ?thesis
    using map_sorted_distinct_set_unique [of fst xs ys] by (metis (no_types, lifting) distinct_map sup.idem)
qed

text \<open>
  C26. Merging undoes splitting: when the two halves of a split page are merged again under the split key
  and the result is consolidated, the base node holds the items of the page before the split, in
  order, and covers the same range.
\<close>

theorem split_then_merge_is_identity:
  fixes m :: "'k::linorder node_meta_data" and items :: "('k \<times> 'v) list"
  assumes "page_ok (LeafNode m items)" "LEAF_NODE_SIZE_UPPER_THRESHOLD \<le> GetItemCount (LeafNode m items)" "new_id \<noteq> INVALID_NODE_ID"
  shows "\<exists>sib sp. AdjustNodeSize_leaf node_id new_id lm pb True (LeafNode m items) st
        = Inr (st\<lparr>smo_mapping_table := (smo_mapping_table st)(new_id \<mapsto> sib, node_id \<mapsto> sp), smo_abort_flag := True\<rparr>)
    \<and> CollectAllValuesOnLeaf hash sd fd (PostLeafMergeNode sp (GetHighKey sp) sib new_id) = Inr (LeafNode m items)"
proof -
  define c where "c = length items div 2"
  define sib where "sib = LeafNode (NodeMetaData_ctor (fst (items ! c), NOT INVALID_NODE_ID) (high_key_p m) 0 (int (length items - c))) (drop c items)"
  define sp where "sp = LeafSplitNode_ctor (fst (items ! c), new_id) (LeafNode m items) sib"
  have n: "64 \<le> GetItemCount (LeafNode m items)" "md_item_count m = int (length items)"
    using assms by (simp_all add: LEAF_NODE_SIZE_UPPER_THRESHOLD_def)
  have c: "c < length items" using n by (auto simp: c_def meta_defs)
  note parts = leaf_split_parts [OF assms(1) c assms(3), folded sib_def, folded sp_def]
  have sp: "GetHighKeyPair sp = (fst (items ! c), new_id)" "GetHighKey sp = fst (items ! c)" "GetLowKeyPair sp = low_key_p m"
    by (simp_all add: sp_def LeafSplitNode_ctor_def meta_defs)
  have sb: "GetLowKeyPair sib = (fst (items ! c), NOT INVALID_NODE_ID)" "GetHighKeyPair sib = high_key_p m" "NOT INVALID_NODE_ID \<noteq> INVALID_NODE_ID"
    by (simp_all add: sib_def meta_defs INVALID_NODE_ID_def)
  let ?mg = "PostLeafMergeNode sp (GetHighKey sp) sib new_id"
  have lo: "above_low (low_key_p m) (fst (items ! c))" "below_high (high_key_p m) (fst (items ! c))"
    using assms(1) nth_mem [OF c] by auto
  have mg: "page_ok ?mg" "page_map ?mg = map_of items"
    using merge_record_ok [OF parts(2,1) sp(1) assms(3), of new_id] sp sb lo parts(5) by simp_all
  have meta: "GetLowKeyPair ?mg = low_key_p m" "GetHighKeyPair ?mg = high_key_p m" "GetItemCount ?mg = int (length items)" "delta_count ?mg = 0"
    using sp sb parts(3,4) c by (simp_all add: PostLeafMergeNode_def LeafMergeNode_ctor_def meta_defs sp_def sib_def LeafSplitNode_ctor_def)
  obtain ys where ys: "CollectAllValuesOnLeaf hash sd fd ?mg = Inr (LeafNode (NodeMetaData_ctor (low_key_p m) (high_key_p m) 0 (int (length items))) ys)"
      "sorted_less (map fst ys)" "map_of ys = map_of items"
    using collect_all_eq [OF mg(1), of hash sd fd] meta mg(2) by auto
  have "ys = items"
    using ys(2,3) assms(1) by (intro map_of_sorted_unique) simp_all
  moreover have "NodeMetaData_ctor (low_key_p m) (high_key_p m) 0 (int (length items)) = m"
    using assms(1) n(2) by (cases m) (simp add: NodeMetaData_ctor_def to_short_small)
  ultimately show ?thesis
    using ys(1) leaf_split_effect(1) [OF leaf_split_eq [OF assms(1) n(1), of node_id new_id lm pb], of st, folded c_def, folded sib_def, folded sp_def] by auto
qed

text \<open>A base node at the upper threshold.\<close>

definition example_full_page :: "(nat, nat) base_node" where
  "example_full_page = LeafNode (NodeMetaData_ctor (0, INVALID_NODE_ID) (0, INVALID_NODE_ID) 0 64) (map (\<lambda>i. (i, i + 1)) [0..<64])"

definition example_smo :: "(nat, nat) smo_state" where
  "example_smo = \<lparr>smo_mapping_table = [2 \<mapsto> example_full_page], smo_garbage = [], smo_abort_flag = False\<rparr>"

lemma example_full_page_ok: "page_ok example_full_page" "\<not> IsDeltaNode example_full_page" "LEAF_NODE_SIZE_UPPER_THRESHOLD \<le> GetItemCount example_full_page"
  "(3 :: node_id) \<noteq> INVALID_NODE_ID"
  by code_simp+

theorem leaf_split_partitions_the_page_witness:
  "\<exists>st'. AdjustNodeSize_leaf 2 3 False True True example_full_page example_smo = Inr st' \<and> smo_abort_flag st'
     \<and> (\<exists>sib sp. smo_mapping_table st' 2 = Some sp \<and> smo_mapping_table st' 3 = Some sib
          \<and> (page_map sp ++ page_map sib) 40 = Some 41 \<and> GetNextNodeID sp = 3)"
proof -
  have "page_map example_full_page 40 = Some 41" by code_simp
  then show ?thesis using leaf_split_partitions_the_page [OF example_full_page_ok, of 2 False True example_smo] by auto
qed

theorem split_then_merge_is_identity_witness:
  "\<exists>sib sp. AdjustNodeSize_leaf 2 3 False True True example_full_page example_smo
        = Inr (example_smo\<lparr>smo_mapping_table := (smo_mapping_table example_smo)(3 \<mapsto> sib, 2 \<mapsto> sp), smo_abort_flag := True\<rparr>)
    \<and> CollectAllValuesOnLeaf of_nat example_record (\<lambda>_. 0) (PostLeafMergeNode sp (GetHighKey sp) sib 3) = Inr example_full_page"
  using split_then_merge_is_identity [OF example_full_page_ok(1) [unfolded example_full_page_def] example_full_page_ok(3) [unfolded example_full_page_def] example_full_page_ok(4)]
  unfolding example_full_page_def .

end
