(* ===== verification/Workload.thy ===== *)
theory Workload
  imports Prelude
begin

text \<open>
  The workload of the benchmarks: \<^verbatim>\<open>WorkloadTuple\<close>, \<^verbatim>\<open>Workload\<close> and its file reader, from
  \<^verbatim>\<open>src/src/benchmark/workload_tuple.h\<close>, \<^verbatim>\<open>workload_type.h\<close>, \<^verbatim>\<open>workload.h\<close> and \<^verbatim>\<open>workload.cpp\<close>.
  A file is the string of its characters. Formatted input is modelled as the C++ library reads in the
  classic locale: a word is skipped white space and a run of other characters; a number is skipped
  white space, an optional sign and a run of digits, and fails when it has no digit or does not fit.
  \<open>rand i\<close> is what the \<open>i\<close>-th call of \<^verbatim>\<open>std::rand\<close> after \<^verbatim>\<open>std::srand(1337)\<close> returns. The counters
  count elements of a vector in memory and are natural numbers.
\<close>

section \<open>Tuples and phases\<close>

datatype operation = Insert | Lookup | Update

record workload_tuple =
  tuple_operation :: operation
  tuple_key :: key_type
  tuple_value :: value_type

definition WorkloadTuple_less :: "workload_tuple \<Rightarrow> workload_tuple \<Rightarrow> bool" where
  "WorkloadTuple_less a b = (tuple_key a < tuple_key b)"

definition WorkloadTuple_greater :: "workload_tuple \<Rightarrow> workload_tuple \<Rightarrow> bool" where
  "WorkloadTuple_greater a b = (tuple_key b < tuple_key a)"

definition WorkloadTuple_eq :: "workload_tuple \<Rightarrow> workload_tuple \<Rightarrow> bool" where
  "WorkloadTuple_eq a b = (tuple_key a = tuple_key b)"

definition WorkloadTuple_is :: "workload_tuple \<Rightarrow> operation \<Rightarrow> bool" where
  "WorkloadTuple_is a oper = (tuple_operation a = oper)"

datatype workload_phase = Fill | Benchmark

section \<open>Formatted input\<close>

definition is_space :: "char \<Rightarrow> bool" where
  "is_space c = (c = CHR '' '' \<or> (9 \<le> (of_char c :: nat) \<and> (of_char c :: nat) \<le> 13))"

definition is_digit :: "char \<Rightarrow> bool" where
  "is_digit c = (48 \<le> (of_char c :: nat) \<and> (of_char c :: nat) \<le> 57)"

definition digit_value :: "char \<Rightarrow> nat" where
  "digit_value c = of_char c - 48"

definition decimal_value :: "string \<Rightarrow> nat" where
  "decimal_value ds = foldl (\<lambda>n c. 10 * n + digit_value c) 0 ds"

definition read_word :: "string \<Rightarrow> (string \<times> string) option" where
  "read_word s =
     (let t = dropWhile is_space s
      in if t = [] then None else Some (takeWhile (\<lambda>c. \<not> is_space c) t, dropWhile (\<lambda>c. \<not> is_space c) t))"

definition read_key :: "string \<Rightarrow> (key_type \<times> string) option" where
  "read_key s =
     (let t = dropWhile is_space s;
          negative = (t \<noteq> [] \<and> hd t = CHR ''-'');
          u = (if t \<noteq> [] \<and> (hd t = CHR ''-'' \<or> hd t = CHR ''+'') then tl t else t);
          ds = takeWhile is_digit u;
          n = decimal_value ds
      in if ds = [] \<or> n \<ge> 2 ^ 64 then None
         else Some (if negative then - of_nat n else of_nat n, dropWhile is_digit u))"

lemma read_word_shorter: "read_word s = Some (w, t) \<Longrightarrow> length t < length s"
proof -
  assume r: "read_word s = Some (w, t)"
  define u where "u = dropWhile is_space s"
  have u: "u \<noteq> []" "t = dropWhile (\<lambda>c. \<not> is_space c) u" using r by (auto simp: read_word_def Let_def u_def split: if_splits)
  have "\<not> is_space (hd u)" using u(1) unfolding u_def by (rule hd_dropWhile)
  then have "length t < length u" using u by (cases u) (auto simp: less_Suc_eq_le length_dropWhile_le)
  moreover have "length u \<le> length s" by (simp add: u_def length_dropWhile_le)
  ultimately show ?thesis by simp
qed

lemma read_key_shorter: "read_key s = Some (k, t) \<Longrightarrow> length t \<le> length s"
proof -
  assume r: "read_key s = Some (k, t)"
  define v where "v = dropWhile is_space s"
  define u where "u = (if v \<noteq> [] \<and> (hd v = CHR ''-'' \<or> hd v = CHR ''+'') then tl v else v)"
  have "t = dropWhile is_digit u" using r by (auto simp: read_key_def Let_def u_def v_def split: if_splits)
  then have "length t \<le> length u" by (simp add: length_dropWhile_le)
  also have "\<dots> \<le> length v" by (simp add: u_def)
  also have "\<dots> \<le> length s" by (simp add: v_def length_dropWhile_le)
  finally show ?thesis .
qed

section \<open>Reading a file\<close>

record parsed =
  tuples :: "workload_tuple list"
  insert_counter :: nat
  lookup_counter :: nat
  update_counter :: nat

text \<open>The loop of \<^verbatim>\<open>parse_file\<close>; \<open>calls\<close> counts the calls of \<^verbatim>\<open>std::rand\<close>.\<close>

function parse_loop :: "(nat \<Rightarrow> value_type) \<Rightarrow> nat \<Rightarrow> string \<Rightarrow> parsed \<Rightarrow> parsed" where
  "parse_loop rand calls in_stream p =
     (case read_word in_stream of
        None \<Rightarrow> p
      | Some (operation_name, s) \<Rightarrow>
        (case read_key s of
           None \<Rightarrow> p
         | Some (key, s') \<Rightarrow>
             if operation_name = ''INSERT''
             then parse_loop rand (calls + 1) s'
               (p\<lparr>tuples := tuples p @ [\<lparr>tuple_operation = Insert, tuple_key = key, tuple_value = rand calls\<rparr>],
                  insert_counter := insert_counter p + 1\<rparr>)
             else if operation_name = ''READ''
             then parse_loop rand calls s'
               (p\<lparr>tuples := tuples p @ [\<lparr>tuple_operation = Lookup, tuple_key = key, tuple_value = 0\<rparr>],
                  lookup_counter := lookup_counter p + 1\<rparr>)
             else if operation_name = ''UPDATE''
             then parse_loop rand (calls + 1) s'
               (p\<lparr>tuples := tuples p @ [\<lparr>tuple_operation = Update, tuple_key = key, tuple_value = rand calls\<rparr>],
                  update_counter := update_counter p + 1\<rparr>)
             else parse_loop rand calls s' p))"
  by pat_completeness auto
termination
  by (relation "measure (\<lambda>(_, _, s, _). length s)")
    (auto dest!: read_word_shorter read_key_shorter)

declare parse_loop.simps [simp del]

definition parse_file :: "(nat \<Rightarrow> value_type) \<Rightarrow> string \<Rightarrow> parsed \<Rightarrow> parsed" where
  "parse_file rand in_stream p = parse_loop rand 0 in_stream p"

section \<open>The workload\<close>

record workload =
  wphase :: workload_phase
  fill_inserts :: nat
  winserts :: nat
  wlookups :: nat
  wupdates :: nat
  fill_phase_tuples :: "workload_tuple list"
  workload_phase_tuples :: "workload_tuple list"

definition Workload_ctor :: workload where
  "Workload_ctor = \<lparr>wphase = Fill, fill_inserts = 0, winserts = 0, wlookups = 0, wupdates = 0,
     fill_phase_tuples = [], workload_phase_tuples = []\<rparr>"

definition Workload_load :: "(nat \<Rightarrow> value_type) \<Rightarrow> string \<Rightarrow> string \<Rightarrow> workload \<Rightarrow> workload" where
  "Workload_load rand fill_file workload_file w =
     (let f = parse_file rand fill_file
            \<lparr>tuples = fill_phase_tuples w, insert_counter = fill_inserts w, lookup_counter = 0, update_counter = 0\<rparr>;
          w1 = w\<lparr>fill_phase_tuples := tuples f, fill_inserts := insert_counter f\<rparr>;
          b = parse_file rand workload_file
            \<lparr>tuples = workload_phase_tuples w1, insert_counter = winserts w1, lookup_counter = wlookups w1,
             update_counter = wupdates w1\<rparr>
      in w1\<lparr>workload_phase_tuples := tuples b, winserts := insert_counter b, wlookups := lookup_counter b,
            wupdates := update_counter b\<rparr>)"

definition Workload_is :: "workload \<Rightarrow> workload_phase \<Rightarrow> bool" where
  "Workload_is w ph = (wphase w = ph)"

definition count_benchmark_workload :: "workload \<Rightarrow> nat" where
  "count_benchmark_workload w = wlookups w + winserts w + wupdates w"

definition count_current_phase :: "workload \<Rightarrow> nat" where
  "count_current_phase w = (if wphase w = Fill then fill_inserts w else count_benchmark_workload w)"

definition count_current_inserts :: "workload \<Rightarrow> nat" where
  "count_current_inserts w = (if wphase w = Fill then fill_inserts w else winserts w)"

definition count_current_lookups :: "workload \<Rightarrow> nat" where
  "count_current_lookups w = (if wphase w = Fill then 0 else wlookups w)"

definition count_current_updates :: "workload \<Rightarrow> nat" where
  "count_current_updates w = (if wphase w = Fill then 0 else wupdates w)"

definition has_benchmark :: "workload \<Rightarrow> bool" where
  "has_benchmark w = (count_benchmark_workload w > 0)"

definition current_workload :: "workload \<Rightarrow> workload_tuple list" where
  "current_workload w = (if wphase w = Fill then fill_phase_tuples w else workload_phase_tuples w)"

definition Workload_set_phase :: "workload_phase \<Rightarrow> workload \<Rightarrow> workload" where
  "Workload_set_phase ph w = w\<lparr>wphase := ph\<rparr>"

section \<open>Formatted output\<close>

fun show_nat :: "nat \<Rightarrow> string" where
  "show_nat n = (if n < 10 then [char_of (48 + n)] else show_nat (n div 10) @ [char_of (48 + n mod 10)])"

declare show_nat.simps [simp del]

text \<open>\<^verbatim>\<open>value_type\<close> is a signed number.\<close>

definition show_value :: "value_type \<Rightarrow> string" where
  "show_value v = (if sint v < 0 then CHR ''-'' # show_nat (nat (- sint v)) else show_nat (nat (sint v)))"

definition show_tuple :: "workload_tuple \<Rightarrow> string" where
  "show_tuple t =
     (if WorkloadTuple_is t Insert
      then ''insert('' @ show_nat (unat (tuple_key t)) @ '','' @ show_value (tuple_value t) @ '')''
      else ''lookup('' @ show_nat (unat (tuple_key t)) @ '')'')"

definition show_workload :: "workload \<Rightarrow> string" where
  "show_workload w =
     '' fill: '' @ show_nat (fill_inserts w) @
     (if has_benchmark w
      then '' / mixed:'' @ '' insert('' @ show_nat (winserts w) @ '')'' @ '' update('' @ show_nat (wupdates w) @ '')''
           @ '' read('' @ show_nat (wlookups w) @ '')''
      else [])"

section \<open>Numbers are read as they are written\<close>

lemma show_nat_digits: "show_nat n \<noteq> []" "list_all is_digit (show_nat n)"
proof -
  have d: "is_digit (char_of (48 + m))" if "m < 10" for m :: nat using that by (simp add: is_digit_def)
  show "show_nat n \<noteq> []" by (subst show_nat.simps) simp
  show "list_all is_digit (show_nat n)"
  proof (induction n rule: show_nat.induct)
    case (1 n)
    then show ?case using d [of n] d [of "n mod 10"] by (subst show_nat.simps) simp
  qed
qed

lemma decimal_value_show: "decimal_value (show_nat n) = n"
proof (induction n rule: show_nat.induct)
  case (1 n)
  have d: "digit_value (char_of (48 + m)) = m" if "m < 10" for m :: nat using that by (simp add: digit_value_def)
  show ?case
  proof (cases "n < 10")
    case True
    then show ?thesis by (subst show_nat.simps) (simp add: decimal_value_def d)
  next
    case False
    then have "decimal_value (show_nat (n div 10)) = n div 10" by (rule 1)
    then show ?thesis using False by (subst show_nat.simps) (simp add: decimal_value_def d)
  qed
qed

text \<open>A file with one line per operation.\<close>

fun operation_name :: "operation \<Rightarrow> string" where
  "operation_name Insert = ''INSERT''"
| "operation_name Lookup = ''READ''"
| "operation_name Update = ''UPDATE''"

definition write_line :: "operation \<times> key_type \<Rightarrow> string" where
  "write_line l = operation_name (fst l) @ '' '' @ show_nat (unat (snd l)) @ [CHR 0x0A]"

lemma digit_not_space: "is_digit c \<Longrightarrow> \<not> is_space c"
  by (auto simp: is_digit_def is_space_def)

lemma digit_not_sign: "is_digit c \<Longrightarrow> c \<noteq> CHR ''-'' \<and> c \<noteq> CHR ''+''"
  by (auto simp: is_digit_def)

lemma read_word_name: "read_word (operation_name oper @ CHR '' '' # s) = Some (operation_name oper, CHR '' '' # s)"
  by (cases oper) (simp_all add: read_word_def is_space_def)

lemma read_key_shown:
  assumes "s = [] \<or> \<not> is_digit (hd s)"
  shows "read_key (CHR '' '' # show_nat (unat k) @ s) = Some (k, s)"
proof -
  define ds where "ds = show_nat (unat k)"
  have ds: "ds \<noteq> []" "list_all is_digit ds" "decimal_value ds = unat k"
    unfolding ds_def by (rule show_nat_digits decimal_value_show)+
  have hd: "is_digit (hd (ds @ s))" using ds(1,2) by (cases ds) simp_all
  have "is_space (CHR '' '')" by (simp add: is_space_def)
  then have "dropWhile is_space (CHR '' '' # ds @ s) = ds @ s"
    using ds(1) digit_not_space [OF hd] by (cases ds) simp_all
  moreover have "takeWhile is_digit (ds @ s) = ds" "dropWhile is_digit (ds @ s) = s"
    using ds(2) assms by (cases s; simp add: list_all_iff takeWhile_append2 dropWhile_append2)+
  moreover have "unat k < 2 ^ 64" using unsigned_less [of k] by simp
  ultimately show ?thesis
    using ds(1,3) digit_not_sign [OF hd] by (simp add: read_key_def Let_def flip: ds_def)
qed

section \<open>A file is read as it was written\<close>

lemma parse_loop_newline: "parse_loop rand calls (CHR 0x0A # s) p = parse_loop rand calls s p"
proof -
  have "read_word (CHR 0x0A # s) = read_word s" by (simp add: read_word_def is_space_def)
  then show ?thesis by (subst (1 2) parse_loop.simps) simp
qed

definition line_tuple :: "(nat \<Rightarrow> value_type) \<Rightarrow> nat \<Rightarrow> operation \<times> key_type \<Rightarrow> workload_tuple" where
  "line_tuple rand calls l =
     \<lparr>tuple_operation = fst l, tuple_key = snd l, tuple_value = (if fst l = Lookup then 0 else rand calls)\<rparr>"

definition count_op :: "operation \<Rightarrow> workload_tuple list \<Rightarrow> nat" where
  "count_op oper ts = length (filter (\<lambda>t. WorkloadTuple_is t oper) ts)"

lemma count_op_simps [simp]:
  "count_op oper [] = 0"
  "count_op oper (t # ts) = (if tuple_operation t = oper then 1 else 0) + count_op oper ts"
  "count_op oper (ts @ us) = count_op oper ts + count_op oper us"
  by (simp_all add: count_op_def WorkloadTuple_is_def)

definition push_tuple :: "workload_tuple \<Rightarrow> parsed \<Rightarrow> parsed" where
  "push_tuple t p = p\<lparr>tuples := tuples p @ [t], insert_counter := insert_counter p + count_op Insert [t],
     lookup_counter := lookup_counter p + count_op Lookup [t], update_counter := update_counter p + count_op Update [t]\<rparr>"

lemma parse_line:
  "parse_loop rand calls (write_line l @ s) p =
     parse_loop rand (calls + (if fst l = Lookup then 0 else 1)) s (push_tuple (line_tuple rand calls l) p)"
proof -
  have "read_key (CHR '' '' # show_nat (unat (snd l)) @ CHR 0x0A # s) = Some (snd l, CHR 0x0A # s)"
    by (rule read_key_shown) (simp add: is_digit_def)
  then show ?thesis
    by (subst parse_loop.simps)
      (cases "fst l"; simp add: write_line_def read_word_name [of Insert, simplified] read_word_name [of Lookup, simplified]
        read_word_name [of Update, simplified] parse_loop_newline line_tuple_def push_tuple_def)
qed

fun line_tuples :: "(nat \<Rightarrow> value_type) \<Rightarrow> nat \<Rightarrow> (operation \<times> key_type) list \<Rightarrow> workload_tuple list" where
  "line_tuples rand calls [] = []"
| "line_tuples rand calls (l # ls) =
     line_tuple rand calls l # line_tuples rand (calls + (if fst l = Lookup then 0 else 1)) ls"

lemma parse_lines:
  "parse_loop rand calls (concat (map write_line ls)) p =
     p\<lparr>tuples := tuples p @ line_tuples rand calls ls,
       insert_counter := insert_counter p + count_op Insert (line_tuples rand calls ls),
       lookup_counter := lookup_counter p + count_op Lookup (line_tuples rand calls ls),
       update_counter := update_counter p + count_op Update (line_tuples rand calls ls)\<rparr>"
proof (induction ls arbitrary: calls p)
  case Nil
  then show ?case by (subst parse_loop.simps) (simp add: read_word_def)
next
  case (Cons l ls)
  then show ?case by (simp add: parse_line push_tuple_def)
qed

lemma line_tuples_facts:
  "map (\<lambda>t. (tuple_operation t, tuple_key t)) (line_tuples rand calls ls) = ls"
  "map tuple_value (filter (\<lambda>t. \<not> WorkloadTuple_is t Lookup) (line_tuples rand calls ls))
     = map rand [calls ..< calls + length (filter (\<lambda>l. fst l \<noteq> Lookup) ls)]"
  "count_op oper (line_tuples rand calls ls) = count_list (map fst ls) oper"
proof (induction ls arbitrary: calls)
  case Nil
  { case 1 show ?case by simp next case 2 show ?case by simp next case 3 show ?case by simp }
next
  case (Cons l ls)
  {
    case 1 show ?case by (simp add: Cons.IH(1) line_tuple_def)
  next
    case 2 show ?case using Cons.IH(2) [of calls] Cons.IH(2) [of "Suc calls"] by (simp add: line_tuple_def WorkloadTuple_is_def upt_conv_Cons del: upt_Suc)
  next
    case 3 show ?case by (auto simp: Cons.IH(3) line_tuple_def)
  }
qed

definition no_tuples :: parsed where
  "no_tuples = \<lparr>tuples = [], insert_counter = 0, lookup_counter = 0, update_counter = 0\<rparr>"

text \<open>
  C39. A workload file is read as it was written. For every list of operations, written one per line
  with its name and its key in decimal, \<^verbatim>\<open>parse_file\<close> returns these operations with these keys in this
  order, gives the inserts and updates the successive random numbers as values, and counts each kind.
\<close>

theorem workload_file_roundtrip:
  "let p = parse_file rand (concat (map write_line ls)) no_tuples
   in map (\<lambda>t. (tuple_operation t, tuple_key t)) (tuples p) = ls
      \<and> map tuple_value (filter (\<lambda>t. \<not> WorkloadTuple_is t Lookup) (tuples p))
          = map rand [0 ..< length (filter (\<lambda>l. fst l \<noteq> Lookup) ls)]
      \<and> insert_counter p = count_list (map fst ls) Insert
      \<and> lookup_counter p = count_list (map fst ls) Lookup
      \<and> update_counter p = count_list (map fst ls) Update"
  by (simp add: parse_file_def parse_lines no_tuples_def line_tuples_facts Let_def)

section \<open>The counters count the tuples\<close>

definition counted :: "parsed \<Rightarrow> bool" where
  "counted p \<longleftrightarrow> insert_counter p = count_op Insert (tuples p) \<and> lookup_counter p = count_op Lookup (tuples p)
     \<and> update_counter p = count_op Update (tuples p)"

lemma parse_loop_counted: "counted p \<Longrightarrow> counted (parse_loop rand calls s p)"
proof (induction rand calls s p rule: parse_loop.induct)
  case (1 rand calls s p)
  then show ?case
    by (subst parse_loop.simps) (auto simp: counted_def split: option.splits)
qed

lemma count_op_sum: "count_op Lookup ts + count_op Insert ts + count_op Update ts = length ts"
proof (induction ts)
  case (Cons t ts)
  then show ?case by (cases "tuple_operation t") simp_all
qed simp

text \<open>
  After loading any two files, whatever they contain, the number of operations reported for the
  benchmark phase is the length of its tuple vector, and the number reported for the fill phase is
  the number of inserts in its vector, not its length: a fill file with other operations has more
  tuples than the thread benchmark runs.
\<close>

theorem workload_counts_its_tuples:
  "let w = Workload_load rand fill_file workload_file Workload_ctor;
       f = Workload_set_phase Fill w; b = Workload_set_phase Benchmark w
   in count_current_phase b = length (current_workload b)
      \<and> count_current_phase f = length (filter (\<lambda>t. WorkloadTuple_is t Insert) (current_workload f))"
proof -
  have c: "counted (parse_file rand s no_tuples)" for s
    unfolding parse_file_def by (rule parse_loop_counted) (simp add: counted_def no_tuples_def)
  have b: "insert_counter (parse_file rand s no_tuples) + lookup_counter (parse_file rand s no_tuples)
      + update_counter (parse_file rand s no_tuples) = length (tuples (parse_file rand s no_tuples))" for s
    using c [of s] count_op_sum [of "tuples (parse_file rand s no_tuples)"] by (simp add: counted_def)
  show ?thesis
    using b [of workload_file] c [of fill_file]
    by (simp add: Workload_load_def Workload_ctor_def Workload_set_phase_def count_current_phase_def current_workload_def
        count_benchmark_workload_def Let_def counted_def count_op_def flip: no_tuples_def)
qed

end
