(* ===== verification/Core_Configuration.thy ===== *)
theory Core_Configuration
  imports Workload "HOL-Library.Multiset"
begin

text \<open>
  Which cores a benchmark uses: \<^verbatim>\<open>CoreSet\<close> and \<^verbatim>\<open>CoreConfiguration\<close> from \<^verbatim>\<open>src/src/util/core_set.h\<close>,
  \<^verbatim>\<open>core_configuration.h\<close> and \<^verbatim>\<open>core_configuration.cpp\<close>, with \<^verbatim>\<open>System\<close> from
  \<^verbatim>\<open>src/src/hardware/system.h\<close>. What the machine answers is a parameter: \<open>concurrency\<close> for
  \<^verbatim>\<open>std::thread::hardware_concurrency\<close> and \<open>node_of_cpu\<close> for \<^verbatim>\<open>numa_node_of_cpu\<close> of libnuma, both already
  narrowed to the type the code narrows them to. The code divides by \<open>concurrency\<close>, so the properties
  about NUMA order assume that the machine reports at least one core. Core numbers are 16-bit words. A failing \<^verbatim>\<open>assert\<close>
  is the error \<open>AssertionFailed\<close>.
\<close>

section \<open>The machine\<close>

definition System_physical_core_id :: "16 word \<Rightarrow> 16 word \<Rightarrow> 16 word" where
  "System_physical_core_id concurrency logical_core_id = logical_core_id mod concurrency"

definition System_numa_id :: "16 word \<Rightarrow> (16 word \<Rightarrow> 8 word) \<Rightarrow> 16 word \<Rightarrow> 8 word" where
  "System_numa_id concurrency node_of_cpu core_id = node_of_cpu (System_physical_core_id concurrency core_id)"

section \<open>Core sets\<close>

type_synonym core_set = "16 word list"

definition CoreSet_valid :: "core_set \<Rightarrow> bool" where
  "CoreSet_valid cs = (cs \<noteq> [])"

datatype core_order_type = Logical | NumaAscending

record core_configuration =
  core_sets :: "core_set list"
  cindex :: nat

fun core_set_loop :: "nat \<Rightarrow> 16 word list \<Rightarrow> nat \<Rightarrow> core_set \<Rightarrow> core_set result" where
  "core_set_loop 0 ordered_physical_cores core_index physical_cores = Inr physical_cores"
| "core_set_loop (Suc rest) ordered_physical_cores core_index physical_cores =
     bindR (aget ordered_physical_cores core_index) (\<lambda>physical_core.
       core_set_loop rest ordered_physical_cores (core_index + 1) (physical_cores @ [physical_core]))"

definition generate_core_set :: "16 word \<Rightarrow> 16 word list \<Rightarrow> core_set result" where
  "generate_core_set count_cores ordered_physical_cores =
     (if \<not> unat count_cores \<le> length ordered_physical_cores then Inl AssertionFailed
      else bindR (core_set_loop (unat count_cores) ordered_physical_cores 0 []) (\<lambda>core_set.
        if \<not> CoreSet_valid core_set then Inl AssertionFailed else Inr core_set))"

text \<open>
  \<^verbatim>\<open>std::map\<close> from NUMA nodes to their cores; iterating over it visits the nodes in ascending order.
\<close>

fun node_cores_loop :: "(16 word \<Rightarrow> 8 word) \<Rightarrow> nat \<Rightarrow> nat \<Rightarrow> (8 word \<Rightarrow> 16 word list) \<Rightarrow> 8 word \<Rightarrow> 16 word list" where
  "node_cores_loop numa_id 0 core_id node_cores = node_cores"
| "node_cores_loop numa_id (Suc rest) core_id node_cores =
     (let n = numa_id (of_nat core_id)
      in node_cores_loop numa_id rest (core_id + 1) (node_cores(n := node_cores n @ [of_nat core_id])))"

fun write_cores :: "16 word list \<Rightarrow> nat \<Rightarrow> 16 word list \<Rightarrow> (bool \<times> nat \<times> 16 word list) result" where
  "write_cores [] index core_order = Inr (False, index, core_order)"
| "write_cores (core_id # cores) index core_order =
     bindR (aset core_order index core_id) (\<lambda>core_order'.
       if index + 1 = length core_order' then Inr (True, index + 1, core_order')
       else write_cores cores (index + 1) core_order')"

fun write_nodes :: "(8 word \<Rightarrow> 16 word list) \<Rightarrow> 8 word list \<Rightarrow> nat \<Rightarrow> 16 word list \<Rightarrow> 16 word list result" where
  "write_nodes node_cores [] index core_order = Inr core_order"
| "write_nodes node_cores (n # ns) index core_order =
     bindR (write_cores (node_cores n) index core_order) (\<lambda>(returned, index', core_order').
       if returned then Inr core_order' else write_nodes node_cores ns index' core_order')"

definition generate_core_order ::
  "16 word \<Rightarrow> (16 word \<Rightarrow> 8 word) \<Rightarrow> core_order_type \<Rightarrow> 16 word \<Rightarrow> 16 word list result" where
  "generate_core_order concurrency node_of_cpu otype max_cores =
     (let real_max_cores = max max_cores concurrency;
          core_order = replicate (unat real_max_cores) 0
      in case otype of
           Logical \<Rightarrow> Inr (map of_nat [0..<unat real_max_cores])
         | NumaAscending \<Rightarrow>
             (let node_cores = node_cores_loop (System_numa_id concurrency node_of_cpu) (unat real_max_cores) 0 (\<lambda>_. [])
              in write_nodes node_cores (map of_nat [0..<256]) 0 core_order))"

section \<open>The sequence of core sets\<close>

lemma generate_core_set_0: "generate_core_set 0 order = Inl AssertionFailed"
  by (simp add: generate_core_set_def CoreSet_valid_def)

lemma count_cores_measure:
  assumes "c \<noteq> (0 :: 16 word)"
  shows "(if c + 1 = 0 then 0 else 2 ^ 16 - unat (c + 1)) < 2 ^ 16 - unat c"
proof -
  have "unat c < 2 ^ 16" using unsigned_less [of c] by simp
  moreover have "unat (c + 1) = Suc (unat c)" if "c + 1 \<noteq> 0"
    using that by (metis Suc_eq_plus1 add.commute unatSuc)
  ultimately show ?thesis by auto
qed

text \<open>
  The loop over the number of cores. The counter has 16 bits: behind 65535 it would start again at 0, which
  is not a valid core set.
\<close>

function core_sets_loop :: "16 word \<Rightarrow> 16 word \<Rightarrow> 16 word list \<Rightarrow> 16 word \<Rightarrow> core_set list \<Rightarrow> core_set list result" where
  "core_sets_loop core_step max_cores ordered_cores count_cores sets =
     (if count_cores \<le> max_cores
      then if count_cores mod core_step = 0
           then bindR (generate_core_set count_cores ordered_cores) (\<lambda>cs.
             core_sets_loop core_step max_cores ordered_cores (count_cores + 1) (sets @ [cs]))
           else core_sets_loop core_step max_cores ordered_cores (count_cores + 1) sets
      else Inr sets)"
  by pat_completeness auto

termination
proof (relation "measure (\<lambda>(_, _, _, c :: 16 word, _). if c = 0 then 0 else 2 ^ 16 - unat c)", goal_cases)
  case 1
  show ?case by simp
next
  case (2 core_step max_cores ordered_cores c sets cs)
  then have "c \<noteq> 0" using generate_core_set_0 by auto
  then show ?case using count_cores_measure [of c] by simp
next
  case (3 core_step max_cores ordered_cores c sets)
  then have "c \<noteq> 0" by (metis mod_0)
  then show ?case using count_cores_measure [of c] by simp
qed

declare core_sets_loop.simps [simp del]

definition CoreConfiguration_ctor ::
  "16 word \<Rightarrow> (16 word \<Rightarrow> 8 word) \<Rightarrow> core_order_type \<Rightarrow> 16 word \<Rightarrow> 16 word \<Rightarrow> 16 word \<Rightarrow> core_configuration result" where
  "CoreConfiguration_ctor concurrency node_of_cpu otype min_cores0 max_cores core_step =
     (if \<not> core_step > 0 then Inl AssertionFailed
      else bindR (generate_core_order concurrency node_of_cpu otype max_cores) (\<lambda>ordered_cores.
        bindR (if min_cores0 = 0 \<or> min_cores0 = max_cores
               then bindR (generate_core_set max_cores ordered_cores) (\<lambda>cs. Inr [cs])
               else bindR (if min_cores0 mod core_step \<noteq> 0
                           then bindR (generate_core_set min_cores0 ordered_cores) (\<lambda>cs. Inr ([cs], min_cores0 + 1))
                           else Inr ([], min_cores0)) (\<lambda>(sets0, min_cores).
                    bindR (core_sets_loop core_step max_cores ordered_cores min_cores sets0) (\<lambda>sets1.
                    if max_cores mod core_step \<noteq> 0
                    then bindR (generate_core_set max_cores ordered_cores) (\<lambda>cs. Inr (sets1 @ [cs]))
                    else Inr sets1))) (\<lambda>sets.
        Inr \<lparr>core_sets = sets, cindex = 0\<rparr>)))"

definition CoreConfiguration_valid :: "core_configuration \<Rightarrow> bool" where
  "CoreConfiguration_valid c = (core_sets c \<noteq> [] \<and> cindex c < length (core_sets c))"

definition CoreConfiguration_current :: "core_configuration \<Rightarrow> core_set result" where
  "CoreConfiguration_current c = aget (core_sets c) (cindex c)"

definition CoreConfiguration_reset :: "core_configuration \<Rightarrow> core_configuration" where
  "CoreConfiguration_reset c = c\<lparr>cindex := 0\<rparr>"

definition CoreConfiguration_next :: "core_configuration \<Rightarrow> core_configuration" where
  "CoreConfiguration_next c = c\<lparr>cindex := cindex c + 1\<rparr>"

text \<open>The printed configuration: a bar where the NUMA region changes.\<close>

fun show_cores :: "(16 word \<Rightarrow> 8 word) \<Rightarrow> 8 word \<Rightarrow> core_set \<Rightarrow> string" where
  "show_cores numa_id last_numa_region [] = []"
| "show_cores numa_id last_numa_region (core_id # cores) =
     (if numa_id core_id \<noteq> last_numa_region
      then ''| '' @ show_nat (unat core_id) @ '' '' @ show_cores numa_id (numa_id core_id) cores
      else show_nat (unat core_id) @ '' '' @ show_cores numa_id last_numa_region cores)"

fun show_core_sets :: "(16 word \<Rightarrow> 8 word) \<Rightarrow> core_set list \<Rightarrow> string result" where
  "show_core_sets numa_id [] = Inr []"
| "show_core_sets numa_id (cores # sets) =
     bindR (aget cores 0) (\<lambda>first.
     bindR (show_core_sets numa_id sets) (\<lambda>rest.
       Inr ('' '' @ show_nat (length cores) @ '': '' @ show_cores numa_id (numa_id first) cores @ [CHR 0x0A] @ rest)))"

definition show_core_configuration ::
  "16 word \<Rightarrow> (16 word \<Rightarrow> 8 word) \<Rightarrow> core_configuration \<Rightarrow> string result" where
  "show_core_configuration concurrency node_of_cpu c = show_core_sets (System_numa_id concurrency node_of_cpu) (core_sets c)"

section \<open>A core set is a prefix of the core order\<close>

lemma core_set_loop_prefix:
  "i + k \<le> length order \<Longrightarrow> core_set_loop k order i acc = Inr (acc @ take k (drop i order))"
proof (induction k arbitrary: i acc)
  case (Suc k)
  then have "core_set_loop k order (Suc i) (acc @ [order ! i]) = Inr (acc @ order ! i # take k (drop (Suc i) order))" by simp
  moreover have "drop i order = order ! i # drop (Suc i) order" using Suc.prems by (simp add: Cons_nth_drop_Suc)
  ultimately show ?case using Suc.prems by (simp add: aget_def)
qed simp

lemma generate_core_set_prefix:
  assumes "0 < unat n" "unat n \<le> length order"
  shows "generate_core_set n order = Inr (take (unat n) order)"
proof -
  have "take (unat n) order \<noteq> []" using assms by (cases order) auto
  then show ?thesis
    using assms core_set_loop_prefix [of 0 "unat n" order "[]"] by (simp add: generate_core_set_def CoreSet_valid_def)
qed

section \<open>The NUMA order\<close>

lemma node_cores_loop_filter:
  "node_cores_loop numa k i m n = m n @ map of_nat (filter (\<lambda>c. numa (of_nat c) = n) [i..<i + k])"
proof (induction k arbitrary: i m)
  case (Suc k)
  have "[i..<i + Suc k] = i # [Suc i..<Suc i + k]" by (simp add: upt_conv_Cons del: upt_Suc)
  then show ?case using Suc [of "Suc i"] by (simp add: Let_def del: upt_Suc)
qed simp

lemma write_cores_fills:
  assumes "length cores \<le> length rest"
  shows "write_cores cores (length pre) (pre @ rest)
    = Inr (cores \<noteq> [] \<and> length cores = length rest, length pre + length cores, pre @ cores @ drop (length cores) rest)"
  using assms
proof (induction cores arbitrary: pre rest)
  case (Cons c cores)
  then obtain r rest' where r: "rest = r # rest'" by (cases rest) auto
  have "write_cores cores (length (pre @ [c])) ((pre @ [c]) @ rest')
      = Inr (cores \<noteq> [] \<and> length cores = length rest', length (pre @ [c]) + length cores, (pre @ [c]) @ cores @ drop (length cores) rest')"
    by (rule Cons.IH) (use Cons.prems r in simp)
  moreover have "aset (pre @ r # rest') (length pre) c = Inr (pre @ c # rest')" by (simp add: aset_def)
  ultimately show ?case using Cons.prems r by auto
qed simp

lemma write_nodes_fills:
  assumes "length (concat (map nc ns)) = length rest"
  shows "write_nodes nc ns (length pre) (pre @ rest) = Inr (pre @ concat (map nc ns))"
  using assms
proof (induction ns arbitrary: pre rest)
  case (Cons n ns)
  then have len: "length (nc n) \<le> length rest" "length (concat (map nc ns)) = length (drop (length (nc n)) rest)" by simp_all
  have "write_nodes nc ns (length (pre @ nc n)) ((pre @ nc n) @ drop (length (nc n)) rest)
      = Inr ((pre @ nc n) @ concat (map nc ns))" by (rule Cons.IH) (rule len(2))
  moreover have "concat (map nc ns) = [] \<and> drop (length (nc n)) rest = []" if "length (nc n) = length rest"
    using that len(2) by simp
  ultimately show ?case by (auto simp: write_cores_fills [OF len(1)])
qed simp

lemma concat_classes:
  assumes "distinct ns"
  shows "mset (concat (map (\<lambda>n. filter (\<lambda>c. f c = n) xs) ns)) = filter_mset (\<lambda>c. f c \<in> set ns) (mset xs)"
  using assms
proof (induction ns)
  case (Cons n ns)
  have "filter_mset (\<lambda>c. f c = n) M + filter_mset (\<lambda>c. f c \<in> set ns) M = filter_mset (\<lambda>c. f c \<in> set (n # ns)) M" for M
    using Cons.prems by (induction M) auto
  then show ?case using Cons by (simp add: mset_filter)
qed simp

lemma classes_sorted:
  assumes "sorted ns"
  shows "sorted (map f (concat (map (\<lambda>n. filter (\<lambda>c. f c = n) xs) ns)))"
  using assms
proof (induction ns)
  case (Cons n ns)
  have "sorted (map f (filter (\<lambda>c. f c = n) xs))" by (induction xs) auto
  then show ?case using Cons by (auto simp: sorted_append)
qed simp

definition all_nodes :: "8 word list" where
  "all_nodes = map of_nat [0..<256]"

lemma all_nodes: "distinct all_nodes" "sorted all_nodes" "set all_nodes = UNIV"
proof -
  have u: "unat (of_nat n :: 8 word) = n" if "n < 256" for n using that by (simp add: unsigned_of_nat take_bit_nat_eq_self)
  have "map unat all_nodes = [0..<256]" unfolding all_nodes_def map_map by (rule map_idI) (use u in auto)
  then show "distinct all_nodes" by (metis distinct_map distinct_upt)
  show "sorted all_nodes" unfolding all_nodes_def
    by (auto simp: sorted_map sorted_wrt_upt word_le_nat_alt u intro!: sorted_wrt_mono_rel [OF _ sorted_wrt_upt])
  show "set all_nodes = UNIV"
  proof -
    have "n \<in> set all_nodes" for n :: "8 word"
      unfolding all_nodes_def using unsigned_less [of n] by (auto intro!: image_eqI [of _ _ "unat n"])
    then show ?thesis by auto
  qed
qed

lemma generate_core_order_eq:
  fixes concurrency max_cores :: "16 word" and node_of_cpu :: "16 word \<Rightarrow> 8 word"
  defines "numa \<equiv> System_numa_id concurrency node_of_cpu"
  defines "cores \<equiv> map of_nat [0..<unat (max max_cores concurrency)]"
  shows "generate_core_order concurrency node_of_cpu Logical max_cores = Inr cores"
    "generate_core_order concurrency node_of_cpu NumaAscending max_cores
       = Inr (concat (map (\<lambda>n. filter (\<lambda>c. numa c = n) cores) all_nodes))"
proof -
  show "generate_core_order concurrency node_of_cpu Logical max_cores = Inr cores"
    by (simp add: generate_core_order_def cores_def Let_def)
  define order where "order = concat (map (\<lambda>n. filter (\<lambda>c. numa c = n) cores) all_nodes)"
  have nc: "node_cores_loop numa (unat (max max_cores concurrency)) 0 (\<lambda>_. []) = (\<lambda>n. filter (\<lambda>c. numa c = n) cores)"
    by (rule ext) (simp add: node_cores_loop_filter cores_def filter_map o_def)
  have "length order = size (mset order)" by simp
  also have "mset order = mset cores" unfolding order_def concat_classes [OF all_nodes(1)] all_nodes(3) by simp
  finally have len: "length order = length (replicate (unat (max max_cores concurrency)) (0 :: 16 word))" by (simp add: cores_def)
  have "write_nodes (\<lambda>n. filter (\<lambda>c. numa c = n) cores) all_nodes 0 (replicate (unat (max max_cores concurrency)) 0) = Inr order"
    using write_nodes_fills [OF len [unfolded order_def], of "[]"] by (simp add: order_def)
  then show "generate_core_order concurrency node_of_cpu NumaAscending max_cores
       = Inr (concat (map (\<lambda>n. filter (\<lambda>c. numa c = n) cores) all_nodes))"
    unfolding generate_core_order_def Let_def numa_def [symmetric] all_nodes_def [symmetric] nc
    by (simp add: order_def)
qed

lemma core_order_permutes:
  "\<exists>order. generate_core_order concurrency node_of_cpu otype max_cores = Inr order
     \<and> mset order = mset (map of_nat [0..<unat (max max_cores concurrency)])
     \<and> (otype = NumaAscending \<longrightarrow> sorted (map (System_numa_id concurrency node_of_cpu) order))"
proof (cases otype)
  case Logical
  then show ?thesis using generate_core_order_eq(1) by blast
next
  case NumaAscending
  then show ?thesis
    using generate_core_order_eq(2) [of concurrency node_of_cpu max_cores] all_nodes
    by (simp add: concat_classes classes_sorted)
qed

text \<open>
  The core order names every core once: it is a permutation of the numbers below the larger of the
  requested and the existing number of cores, no access of \<^verbatim>\<open>generate_core_order\<close> is out of bounds, and
  the NUMA order visits the cores node by node.
\<close>

theorem core_order_is_a_permutation:
  assumes "0 < concurrency"
  shows "\<exists>order. generate_core_order concurrency node_of_cpu otype max_cores = Inr order
     \<and> mset order = mset (map of_nat [0..<unat (max max_cores concurrency)])
     \<and> (otype = NumaAscending \<longrightarrow> sorted (map (System_numa_id concurrency node_of_cpu) order))"
  by (rule core_order_permutes)

text \<open>Four cores on two nodes that alternate.\<close>

theorem core_order_is_a_permutation_witness:
  "generate_core_order 4 (\<lambda>c. ucast c mod 2) NumaAscending 4 = Inr [0, 2, 1, 3]
   \<and> (\<exists>order. generate_core_order 4 (\<lambda>c. ucast c mod 2) NumaAscending 4 = Inr order
     \<and> mset order = mset (map of_nat [0..<4]))"
proof -
  have "generate_core_order 4 (\<lambda>c. ucast c mod 2) NumaAscending 4 = Inr [0, 2, 1, 3]" by code_simp
  moreover have "(0 :: 16 word) < 4" by simp
  ultimately show ?thesis
    using core_order_is_a_permutation [of 4 "\<lambda>c. ucast c mod 2" NumaAscending 4] by auto
qed

section \<open>The numbers of cores\<close>

lemma core_sets_loop_steps:
  assumes "max_cores < 0xFFFF" "unat max_cores \<le> length order" "0 < c" "unat c \<le> unat max_cores + 1"
  shows "core_sets_loop core_step max_cores order c sets
    = Inr (sets @ map (\<lambda>n. take n order) (filter (\<lambda>n. n mod unat core_step = 0) [unat c..<unat max_cores + 1]))"
  using assms
proof (induction core_step max_cores order c sets rule: core_sets_loop.induct)
  case (1 core_step max_cores order c sets)
  have m: "unat max_cores < 65535" using 1(3) by (simp add: word_less_nat_alt)
  show ?case
  proof (cases "c \<le> max_cores")
    case True
    then have le: "unat c \<le> unat max_cores" by (simp add: word_le_nat_alt)
    have c1: "unat (c + 1) = unat c + 1" using le m by (intro unat_add_lem [THEN iffD1, THEN trans]) simp_all
    then have pos: "0 < c + 1" "unat (c + 1) \<le> unat max_cores + 1" using le by (simp_all add: word_less_nat_alt)
    have up: "[unat c..<unat max_cores + 1] = unat c # [unat (c + 1)..<unat max_cores + 1]"
      using le by (simp add: c1 upt_conv_Cons del: upt_Suc)
    have md: "c mod core_step = 0 \<longleftrightarrow> unat c mod unat core_step = 0" by (metis unat_mod unat_eq_zero)
    have g: "generate_core_set c order = Inr (take (unat c) order)"
      using 1(5) le 1(4) by (intro generate_core_set_prefix) (simp_all add: word_less_nat_alt)
    show ?thesis
      using 1(1) [OF True _ g 1(3,4) pos] 1(2) [OF True _ 1(3,4) pos] True md g up
      by (subst core_sets_loop.simps) (simp del: upt_Suc)
  next
    case False
    then have "unat max_cores < unat c" by (simp add: word_le_nat_alt)
    then show ?thesis using False by (subst core_sets_loop.simps) simp
  qed
qed

text \<open>The numbers of cores of the successive sets: the smallest, the multiples of the step, the largest.\<close>

definition core_counts :: "16 word \<Rightarrow> 16 word \<Rightarrow> 16 word \<Rightarrow> nat list" where
  "core_counts min_cores max_cores core_step =
     filter (\<lambda>n. n = unat min_cores \<or> n = unat max_cores \<or> n mod unat core_step = 0) [unat min_cores..<unat max_cores + 1]"

lemma core_counts_split:
  assumes "a < b"
  shows "filter (\<lambda>n. n = a \<or> n = b \<or> n mod s = 0) [a..<b + 1]
    = (if a mod s \<noteq> 0 then [a] else []) @ filter (\<lambda>n. n mod s = 0) [a + (if a mod s \<noteq> 0 then 1 else 0)..<b + 1]
      @ (if b mod s \<noteq> 0 then [b] else [])"
proof -
  have "filter (\<lambda>n. n = a \<or> n = b \<or> n mod s = 0) [a + 1..<b] = filter (\<lambda>n. n mod s = 0) [a + 1..<b]"
    by (rule filter_cong) auto
  moreover have "[a..<b + 1] = a # [a + 1..<b] @ [b]" "[a + 1..<b + 1] = [a + 1..<b] @ [b]"
    using assms by (simp_all add: upt_conv_Cons)
  ultimately show ?thesis using assms by (simp del: upt_Suc)
qed

lemma core_sets_of_range:
  assumes "0 < core_step" "0 < min_cores" "min_cores \<le> max_cores" "max_cores < 0xFFFF"
    and order: "generate_core_order concurrency node_of_cpu otype max_cores = Inr order"
  shows "CoreConfiguration_ctor concurrency node_of_cpu otype min_cores max_cores core_step
    = Inr \<lparr>core_sets = map (\<lambda>n. take n order) (core_counts min_cores max_cores core_step), cindex = 0\<rparr>"
proof -
  have "size (mset order) = unat (max max_cores concurrency)"
    using core_order_permutes [of concurrency node_of_cpu otype max_cores] order by (metis Inr_inject diff_zero length_map length_upt size_mset)
  then have len: "unat max_cores \<le> length order" by (simp add: max_def word_le_nat_alt split: if_splits)
  have pos: "0 < unat min_cores" "unat min_cores \<le> unat max_cores" using assms(2,3) by (simp_all add: word_less_nat_alt word_le_nat_alt)
  note gen = generate_core_set_prefix [OF pos(1)] generate_core_set_prefix [of max_cores order]
  have md: "c mod core_step = 0 \<longleftrightarrow> unat c mod unat core_step = 0" for c by (metis unat_mod unat_eq_zero)
  show ?thesis
  proof (cases "min_cores = max_cores")
    case True
    then show ?thesis using assms(1) order gen(2) pos len by (simp add: CoreConfiguration_ctor_def core_counts_def)
  next
    case False
    then have lt: "unat min_cores < unat max_cores" using pos(2) by (simp add: word_unat_eq_iff)
    have m1: "unat (min_cores + 1) = unat min_cores + 1" "0 < min_cores + 1"
    proof -
      show "unat (min_cores + 1) = unat min_cores + 1"
        using lt assms(4) by (intro unat_add_lem [THEN iffD1, THEN trans]) (simp_all add: word_less_nat_alt)
      then show "0 < min_cores + 1" by (simp add: word_less_nat_alt)
    qed
    note loop = core_sets_loop_steps [OF assms(4) len assms(2), of core_step] core_sets_loop_steps [OF assms(4) len m1(2), of core_step]
    show ?thesis
      unfolding core_counts_def core_counts_split [OF lt]
      using assms(1) word_gt_0 [THEN iffD1, OF assms(2)] False order gen pos len loop m1(1) lt md [of min_cores] md [of max_cores]
      by (simp add: CoreConfiguration_ctor_def del: upt_Suc)
  qed
qed

text \<open>
  For a range of cores the configuration consists of the prefixes of the core order whose lengths are
  the smallest number, the multiples of the step between, and the largest number, in ascending order;
  every assertion of the constructor holds. So a run covers exactly the announced numbers of cores.
\<close>

theorem core_sets_cover_the_range:
  assumes "0 < core_step" "0 < min_cores" "min_cores \<le> max_cores" "max_cores < 0xFFFF"
  shows "\<exists>order. generate_core_order concurrency node_of_cpu otype max_cores = Inr order
    \<and> CoreConfiguration_ctor concurrency node_of_cpu otype min_cores max_cores core_step
      = Inr \<lparr>core_sets = map (\<lambda>n. take n order) (core_counts min_cores max_cores core_step), cindex = 0\<rparr>"
  using core_order_permutes [of concurrency node_of_cpu otype max_cores] core_sets_of_range [OF assms] by blast

theorem core_sets_cover_the_range_witness:
  "core_counts 1 5 2 = [1, 2, 4, 5]
   \<and> (\<exists>order. generate_core_order 8 (\<lambda>_. 0) Logical 5 = Inr order
    \<and> CoreConfiguration_ctor 8 (\<lambda>_. 0) Logical 1 5 2 = Inr \<lparr>core_sets = map (\<lambda>n. take n order) (core_counts 1 5 2), cindex = 0\<rparr>)"
proof -
  have "core_counts 1 5 2 = [1, 2, 4, 5]" by code_simp
  moreover have "(0 :: 16 word) < 2" "(0 :: 16 word) < 1" "(1 :: 16 word) \<le> 5" "(5 :: 16 word) < 0xFFFF" by simp_all
  ultimately show ?thesis using core_sets_cover_the_range [of 2 1 5 8 "\<lambda>_. 0" Logical] by blast
qed

text \<open>With 65535 cores the 16-bit counter starts again at 0, for which there is no core set.\<close>

theorem core_counter_wraps:
  assumes "length order = 0xFFFF"
  shows "core_sets_loop core_step 0xFFFF order c sets = Inl AssertionFailed"
  using assms
proof (induction core_step "0xFFFF :: 16 word" order c sets rule: core_sets_loop.induct)
  case (1 core_step order c sets)
  have "unat c < 2 ^ 16" using unsigned_less [of c] by simp
  then have le: "c \<le> 0xFFFF" by (simp add: word_le_nat_alt)
  then have g: "c \<noteq> 0 \<Longrightarrow> generate_core_set c order = Inr (take (unat c) order)"
    using 1(3) by (intro generate_core_set_prefix) (simp_all add: word_le_nat_alt word_neq_0_conv word_less_nat_alt)
  show ?case
  proof (cases "c = 0")
    case True
    then show ?thesis by (subst core_sets_loop.simps) (simp add: generate_core_set_0)
  next
    case False
    then show ?thesis using 1(1) [OF le _ g [OF False] 1(3)] 1(2) [OF le _ 1(3)] le g [OF False]
      by (subst core_sets_loop.simps) simp
  qed
qed

end
