(* ===== verification/Benchmark.thy ===== *)
theory Benchmark
  imports Core_Configuration
begin

text \<open>
  The benchmark driver: the command line of \<^verbatim>\<open>src/src/util/cli_arguments.h\<close>, the phases and repetitions
  of \<^verbatim>\<open>AbstractBenchmark\<close> from \<^verbatim>\<open>src/src/benchmark/abstract_benchmark.h\<close> and \<^verbatim>\<open>abstract_benchmark.cpp\<close>, and
  the main loop of \<^verbatim>\<open>ThreadBenchmark\<close> from \<^verbatim>\<open>src/src/indices/blinktree/thread/thread_benchmark.cpp\<close>. A run
  is the list of its events: a tree is created, an iteration runs on some cores, a tree is deleted.
  Timers, performance counters and the log file only print and are left out.
\<close>

section \<open>Command line\<close>

record cli_arguments =
  cli_min_cores :: "16 word"
  cli_max_cores :: "16 word"
  cli_core_steps :: "16 word"
  is_logical_cores :: bool
  iterations :: "16 word"
  batch_size :: "16 word"
  workload_files :: "string list"
  out_file_name :: string
  is_check_tree :: bool
  is_print_tree_statistics :: bool
  is_use_perf :: bool

definition core_configuration_type :: "cli_arguments \<Rightarrow> core_order_type" where
  "core_configuration_type c = (if is_logical_cores c then Logical else NumaAscending)"

text \<open>\<^verbatim>\<open>std::getline\<close> up to a semicolon: there is no further token at the end of the stream.\<close>

definition getline :: "string \<Rightarrow> (string \<times> string) option" where
  "getline s = (if s = [] then None else Some (takeWhile (\<lambda>c. c \<noteq> CHR '';'') s, tl (dropWhile (\<lambda>c. c \<noteq> CHR '';'') s)))"

text \<open>
  \<^verbatim>\<open>std::stoi\<close> throws \<^verbatim>\<open>std::out_of_range\<close>, here \<open>None\<close>, for numbers above the largest \<^verbatim>\<open>int\<close>; its result
  is narrowed to 16 bits in the pair.
\<close>

definition stoi :: "string \<Rightarrow> 16 word option" where
  "stoi ds = (if decimal_value ds < 2 ^ 31 then Some (of_nat (decimal_value ds)) else None)"

lemma getline_shorter: "getline s = Some (a, b) \<Longrightarrow> length b < length s"
proof -
  assume g: "getline s = Some (a, b)"
  then have "s \<noteq> []" "b = tl (dropWhile (\<lambda>c. c \<noteq> CHR '';'') s)" by (auto simp: getline_def split: if_splits)
  moreover have "length (dropWhile (\<lambda>c. c \<noteq> CHR '';'') s) \<le> length s" by (rule length_dropWhile_le)
  ultimately show ?thesis by (cases s) auto
qed

text \<open>The three regular expressions: digits; digits and a colon; digits, a colon and digits.\<close>

function parse_cores :: "16 word \<Rightarrow> string \<Rightarrow> (16 word \<times> 16 word) option" where
  "parse_cores concurrency cores =
     (case getline cores of
        None \<Rightarrow> Some (0, 0)
      | Some (token, rest) \<Rightarrow>
          (let m1 = takeWhile is_digit token; after = dropWhile is_digit token
           in if m1 \<noteq> [] \<and> after = []
              then (case stoi m1 of None \<Rightarrow> None | Some core \<Rightarrow> Some (core, core))
              else if m1 \<noteq> [] \<and> after = '':''
              then (case stoi m1 of None \<Rightarrow> None | Some core \<Rightarrow> Some (core, concurrency))
              else if m1 \<noteq> [] \<and> hd after = CHR '':'' \<and> tl after \<noteq> [] \<and> list_all is_digit (tl after)
              then (case (stoi m1, stoi (tl after)) of (Some a, Some b) \<Rightarrow> Some (a, b) | _ \<Rightarrow> None)
              else parse_cores concurrency rest))"
  by pat_completeness auto
termination
  by (relation "measure (\<lambda>(_, s). length s)") (auto dest: getline_shorter)

declare parse_cores.simps [simp del]

definition from_argparse :: "16 word \<Rightarrow> string \<Rightarrow> 16 word \<Rightarrow> bool \<Rightarrow> 16 word \<Rightarrow> 16 word \<Rightarrow> string list \<Rightarrow> string
    \<Rightarrow> bool \<Rightarrow> bool \<Rightarrow> cli_arguments option" where
  "from_argparse concurrency arg_cores arg_s arg_sco arg_i arg_b arg_f arg_o arg_print_stats arg_p =
     (case parse_cores concurrency arg_cores of
        None \<Rightarrow> None
      | Some (a, b) \<Rightarrow>
          Some \<lparr>cli_min_cores = a, cli_max_cores = b, cli_core_steps = arg_s, is_logical_cores = arg_sco,
            iterations = arg_i, batch_size = arg_b, workload_files = arg_f, out_file_name = arg_o,
            is_check_tree = False, is_print_tree_statistics = arg_print_stats, is_use_perf = arg_p\<rparr>)"

section \<open>AbstractBenchmark\<close>

datatype finished_run_status = NextPhase | NextRun | NextCoreConfiguration | Finished

definition FinishedRunStatus_bool :: "finished_run_status \<Rightarrow> bool" where
  "FinishedRunStatus_bool st = (st = Finished)"

record benchmark =
  core_config :: core_configuration
  bworkload :: workload
  current_iteration :: "16 word"
  bconfig :: cli_arguments

datatype event = NewTree | RunIteration core_set "16 word" workload_phase | CleanTree

text \<open>The constructor with \<^verbatim>\<open>initialize\<close>; \<open>files\<close> gives the contents of a file, empty when it cannot be opened.\<close>

definition AbstractBenchmark_ctor ::
  "16 word \<Rightarrow> (16 word \<Rightarrow> 8 word) \<Rightarrow> (nat \<Rightarrow> value_type) \<Rightarrow> (string \<Rightarrow> string) \<Rightarrow> cli_arguments \<Rightarrow> benchmark result" where
  "AbstractBenchmark_ctor concurrency node_of_cpu rand files cfg =
     bindR (CoreConfiguration_ctor concurrency node_of_cpu (core_configuration_type cfg) (cli_min_cores cfg)
              (cli_max_cores cfg) (cli_core_steps cfg)) (\<lambda>cc.
     bindR (aget (workload_files cfg) 0) (\<lambda>fill_name.
     bindR (aget (workload_files cfg) 1) (\<lambda>work_name.
     let w = Workload_load rand (files fill_name) (files work_name) Workload_ctor
     in if \<not> CoreConfiguration_valid cc then Inl AssertionFailed
        else Inr \<lparr>core_config = cc, bworkload = w, current_iteration = 0, bconfig = cfg\<rparr>)))"

definition is_fill_phase :: "benchmark \<Rightarrow> bool" where
  "is_fill_phase b = Workload_is (bworkload b) Fill"

definition set_phase :: "workload_phase \<Rightarrow> benchmark \<Rightarrow> benchmark" where
  "set_phase ph b = b\<lparr>bworkload := Workload_set_phase ph (bworkload b)\<rparr>"

definition is_finished :: "bool \<Rightarrow> benchmark \<Rightarrow> finished_run_status \<times> benchmark \<times> event list" where
  "is_finished use_fill_phase b =
     (if is_fill_phase b \<and> has_benchmark (bworkload b)
      then (NextPhase, set_phase Benchmark b, [])
      else let b1 = b\<lparr>current_iteration := current_iteration b + 1\<rparr>
           in if current_iteration b1 < iterations (bconfig b1)
              then (NextRun, if use_fill_phase then set_phase Fill b1 else b1, if use_fill_phase then [CleanTree] else [])
              else let b2 = b1\<lparr>core_config := CoreConfiguration_next (core_config b1)\<rparr>
                   in if CoreConfiguration_valid (core_config b2)
                      then let b3 = b2\<lparr>current_iteration := 0\<rparr>
                           in (NextCoreConfiguration, if use_fill_phase then set_phase Fill b3 else b3,
                               if use_fill_phase then [CleanTree] else [])
                      else let b3 = b2\<lparr>current_iteration := 0\<rparr>
                           in (Finished, if use_fill_phase then set_phase Fill b3 else b3,
                               if use_fill_phase then [CleanTree] else []))"

section \<open>The main loop\<close>

definition bench_measure :: "benchmark \<Rightarrow> nat \<times> nat \<times> nat" where
  "bench_measure b =
     (length (core_sets (core_config b)) - cindex (core_config b),
      if current_iteration b = 0xFFFF then 2 ^ 16 else unat (iterations (bconfig b)) - unat (current_iteration b),
      if is_fill_phase b then 1 else 0)"

lemmas bench_simps = set_phase_def Workload_set_phase_def is_fill_phase_def Workload_is_def CoreConfiguration_next_def
  CoreConfiguration_valid_def FinishedRunStatus_bool_def

lemma unat_Suc16:
  assumes "(c :: 16 word) \<noteq> 0xFFFF"
  shows "unat (c + 1) = Suc (unat c)"
proof -
  have "unat c \<noteq> 65535" using assms by (simp add: word_unat_eq_iff)
  moreover have "unat c < 2 ^ 16" using unsigned_less [of c] by simp
  ultimately show ?thesis by (intro unat_add_lem [THEN iffD1, THEN trans]) simp_all
qed

lemma is_finished_decreases:
  assumes "is_finished True b = (st, b', ev)" "\<not> FinishedRunStatus_bool st"
  shows "(bench_measure b', bench_measure b) \<in> less_than <*lex*> less_than <*lex*> less_than"
proof -
  have it: "(if current_iteration b + 1 = 0xFFFF then 2 ^ 16 else unat (iterations (bconfig b)) - unat (current_iteration b + 1))
      < (if current_iteration b = 0xFFFF then 2 ^ 16 else unat (iterations (bconfig b)) - unat (current_iteration b))"
    if lt: "current_iteration b + 1 < iterations (bconfig b)"
  proof -
    have i: "unat (iterations (bconfig b)) < 2 ^ 16" using unsigned_less [of "iterations (bconfig b)"] by simp
    have "unat (current_iteration b + 1) < unat (iterations (bconfig b))" using lt by (simp add: word_less_nat_alt)
    moreover from this have "current_iteration b + 1 \<noteq> 0xFFFF" using i by auto
    ultimately show ?thesis using i unat_Suc16 [of "current_iteration b"] by auto
  qed
  show ?thesis
    using assms it by (auto simp: is_finished_def bench_measure_def bench_simps Let_def split: if_splits)
qed

function ThreadBenchmark_execute :: "benchmark \<Rightarrow> (benchmark \<times> event list) result" where
  "ThreadBenchmark_execute b =
     (let created = (if is_fill_phase b then [NewTree] else [])
      in bindR (CoreConfiguration_current (core_config b)) (\<lambda>cores.
         let run = RunIteration cores (current_iteration b) (wphase (bworkload b));
             (status, b', ev) = is_finished True b
         in if FinishedRunStatus_bool status then Inr (b', created @ run # ev)
            else bindR (ThreadBenchmark_execute b') (\<lambda>(b'', evs). Inr (b'', created @ run # ev @ evs))))"
  by pat_completeness auto
termination
  by (relation "inv_image (less_than <*lex*> less_than <*lex*> less_than) bench_measure")
    (auto intro: is_finished_decreases [OF sym])

declare ThreadBenchmark_execute.simps [simp del]

section \<open>Every configuration is measured\<close>

text \<open>What one iteration on one core set does, and the iterations of one core set.\<close>

definition one_iteration :: "bool \<Rightarrow> core_set \<Rightarrow> nat \<Rightarrow> event list" where
  "one_iteration mixed cores i =
     NewTree # RunIteration cores (of_nat i) Fill # (if mixed then [RunIteration cores (of_nat i) Benchmark] else []) @ [CleanTree]"

definition all_iterations :: "benchmark \<Rightarrow> nat \<Rightarrow> nat \<Rightarrow> event list" where
  "all_iterations b c i =
     concat (map (one_iteration (has_benchmark (bworkload b)) (core_sets (core_config b) ! c)) [i..<max 1 (unat (iterations (bconfig b)))])"

definition full_run :: "benchmark \<Rightarrow> event list" where
  "full_run b = concat (map (\<lambda>c. all_iterations b c 0) [0..<length (core_sets (core_config b))])"

definition at_start :: "benchmark \<Rightarrow> nat \<Rightarrow> nat \<Rightarrow> benchmark" where
  "at_start b c i = b\<lparr>core_config := (core_config b)\<lparr>cindex := c\<rparr>, current_iteration := of_nat i,
     bworkload := (bworkload b)\<lparr>wphase := Fill\<rparr>\<rparr>"

definition after_events :: "event list \<Rightarrow> (benchmark \<times> event list) result \<Rightarrow> (benchmark \<times> event list) result" where
  "after_events evs r = bindR r (\<lambda>(b, es). Inr (b, evs @ es))"

lemma after_events_simps [simp]:
  "after_events evs (Inr (b, es)) = Inr (b, evs @ es)"
  "after_events evs (after_events es r) = after_events (evs @ es) r"
  by (simp_all add: after_events_def bindR_assoc split_def)

lemma iteration_number:
  assumes "i < max 1 (unat (k :: 16 word))"
  shows "(of_nat i :: 16 word) + 1 < k \<longleftrightarrow> i + 1 < unat k"
proof -
  have "unat k < 2 ^ 16" using unsigned_less [of k] by simp
  then have "i + 1 < 2 ^ 16" using assms by auto
  then have "unat (of_nat (i + 1) :: 16 word) = i + 1" by (simp only: unsigned_of_nat) (simp add: take_bit_nat_eq_self)
  then show ?thesis by (simp add: word_less_nat_alt add.commute)
qed

lemma iteration_events:
  assumes c: "c < length (core_sets (core_config b))" and i: "i < max 1 (unat (iterations (bconfig b)))"
  shows "ThreadBenchmark_execute (at_start b c i) =
    after_events (one_iteration (has_benchmark (bworkload b)) (core_sets (core_config b) ! c) i)
     (if i + 1 < unat (iterations (bconfig b)) then ThreadBenchmark_execute (at_start b c (i + 1))
      else if c + 1 < length (core_sets (core_config b)) then ThreadBenchmark_execute (at_start b (c + 1) 0)
      else Inr (at_start b (c + 1) 0, []))"
proof -
  define mix where "mix = (at_start b c i)\<lparr>bworkload := (bworkload b)\<lparr>wphase := Benchmark\<rparr>\<rparr>"
  have hb: "has_benchmark ((bworkload b)\<lparr>wphase := ph\<rparr>) = has_benchmark (bworkload b)" for ph
    by (simp add: has_benchmark_def count_benchmark_workload_def)
  have cur: "CoreConfiguration_current (core_config (at_start b c i)) = Inr (core_sets (core_config b) ! c)"
    "CoreConfiguration_current (core_config mix) = Inr (core_sets (core_config b) ! c)"
    using c by (simp_all add: CoreConfiguration_current_def aget_def at_start_def mix_def)
  have ne: "core_sets (core_config b) \<noteq> []" using c by auto
  note step = ThreadBenchmark_execute.simps [of "at_start b c i"] ThreadBenchmark_execute.simps [of mix]
  show ?thesis
  proof (cases "has_benchmark (bworkload b)")
    case True
    then have "ThreadBenchmark_execute (at_start b c i) =
        after_events [NewTree, RunIteration (core_sets (core_config b) ! c) (of_nat i) Fill] (ThreadBenchmark_execute mix)"
      by (subst step(1)) (simp add: cur, simp add: is_finished_def bench_simps at_start_def hb mix_def after_events_def)
    moreover have "ThreadBenchmark_execute mix =
      after_events [RunIteration (core_sets (core_config b) ! c) (of_nat i) Benchmark, CleanTree]
       (if i + 1 < unat (iterations (bconfig b)) then ThreadBenchmark_execute (at_start b c (i + 1))
        else if c + 1 < length (core_sets (core_config b)) then ThreadBenchmark_execute (at_start b (c + 1) 0)
        else Inr (at_start b (c + 1) 0, []))"
      using c ne iteration_number [OF i]
      by (subst step(2)) (simp add: cur, simp add: is_finished_def bench_simps at_start_def hb mix_def after_events_def Let_def add.commute)
    ultimately show ?thesis using True by (simp add: one_iteration_def)
  next
    case False
    then show ?thesis
      using c ne iteration_number [OF i]
      by (subst step(1)) (simp add: cur one_iteration_def, simp add: is_finished_def bench_simps at_start_def hb after_events_def Let_def add.commute)
  qed
qed

lemma core_set_events:
  assumes c: "c < length (core_sets (core_config b))" and i: "i < max 1 (unat (iterations (bconfig b)))"
  shows "ThreadBenchmark_execute (at_start b c i) =
    after_events (all_iterations b c i)
     (if c + 1 < length (core_sets (core_config b)) then ThreadBenchmark_execute (at_start b (c + 1) 0)
      else Inr (at_start b (c + 1) 0, []))"
  using i
proof (induction "max 1 (unat (iterations (bconfig b))) - i" arbitrary: i)
  case (Suc d)
  have head: "all_iterations b c i = one_iteration (has_benchmark (bworkload b)) (core_sets (core_config b) ! c) i @ all_iterations b c (i + 1)"
    using Suc.prems by (simp add: all_iterations_def upt_conv_Cons)
  show ?case
  proof (cases "i + 1 < unat (iterations (bconfig b))")
    case True
    then show ?thesis using Suc.hyps(1) [of "i + 1"] Suc.hyps(2) iteration_events [OF c Suc.prems] head by simp
  next
    case False
    then have "all_iterations b c (i + 1) = []" using Suc.prems by (simp add: all_iterations_def)
    then show ?thesis using iteration_events [OF c Suc.prems] head False by simp
  qed
qed auto

lemma run_events:
  assumes "c < length (core_sets (core_config b))"
  shows "ThreadBenchmark_execute (at_start b c 0)
    = Inr (at_start b (length (core_sets (core_config b))) 0,
           concat (map (\<lambda>c. all_iterations b c 0) [c..<length (core_sets (core_config b))]))"
  using assms
proof (induction "length (core_sets (core_config b)) - c" arbitrary: c)
  case (Suc d)
  have head: "[c..<length (core_sets (core_config b))] = c # [c + 1..<length (core_sets (core_config b))]"
    using Suc.prems by (simp add: upt_conv_Cons)
  show ?case
  proof (cases "c + 1 < length (core_sets (core_config b))")
    case True
    then show ?thesis
      using Suc.hyps(1) [of "c + 1"] Suc.hyps(2) core_set_events [OF Suc.prems, of 0] head by simp
  next
    case False
    then have "c + 1 = length (core_sets (core_config b))" using Suc.prems by simp
    then show ?thesis using core_set_events [OF Suc.prems, of 0] head by simp
  qed
qed simp

text \<open>
  C31. The main loop of a benchmark ends, and what it does is exactly the announced schedule: for every core
  set in order and every iteration in order it creates a tree, runs the fill phase on it, runs the mixed
  phase when the workload has one, and deletes the tree. So no configuration is skipped or repeated,
  every tree is deleted exactly once and none is used after it is deleted. A benchmark configured with
  0 iterations runs each core set once.
\<close>

theorem benchmark_runs_the_schedule:
  assumes "AbstractBenchmark_ctor concurrency node_of_cpu rand files cfg = Inr b"
  shows "\<exists>b'. ThreadBenchmark_execute b = Inr (b', full_run b)"
proof -
  have "CoreConfiguration_valid (core_config b)" "current_iteration b = 0" "wphase (bworkload b) = Fill" "cindex (core_config b) = 0"
    using assms by (auto simp: AbstractBenchmark_ctor_def bindR_eq_Inr Let_def Workload_load_def Workload_ctor_def
        CoreConfiguration_ctor_def split: if_splits)
  then have "at_start b 0 0 = b" "0 < length (core_sets (core_config b))"
    by (simp_all add: at_start_def CoreConfiguration_valid_def)
  then show ?thesis using run_events [of 0 b] by (simp add: full_run_def)
qed

text \<open>One and two cores, two iterations, a fill file and a mixed file.\<close>

definition example_cli :: cli_arguments where
  "example_cli = \<lparr>cli_min_cores = 1, cli_max_cores = 2, cli_core_steps = 1, is_logical_cores = True, iterations = 2,
     batch_size = 50, workload_files = [''fill'', ''mixed''], out_file_name = [], is_check_tree = False,
     is_print_tree_statistics = False, is_use_perf = False\<rparr>"

definition example_files :: "string \<Rightarrow> string" where
  "example_files name = (if name = ''fill'' then ''INSERT 7'' else ''READ 7'')"

definition example_benchmark :: benchmark where
  "example_benchmark = (case AbstractBenchmark_ctor 2 (\<lambda>_. 0) (\<lambda>_. 42) example_files example_cli of Inr b \<Rightarrow> b)"

theorem benchmark_runs_the_schedule_witness:
  "\<exists>b'. ThreadBenchmark_execute example_benchmark = Inr (b', full_run example_benchmark)"
proof -
  have "CoreConfiguration_ctor 2 (\<lambda>_. 0) Logical 1 2 1 = Inr \<lparr>core_sets = [[0], [0, 1]], cindex = 0\<rparr>" by code_simp
  then have "AbstractBenchmark_ctor 2 (\<lambda>_. 0) (\<lambda>_. 42) example_files example_cli = Inr example_benchmark"
    by (simp add: example_benchmark_def AbstractBenchmark_ctor_def example_cli_def core_configuration_type_def
        CoreConfiguration_valid_def aget_def Let_def)
  then show ?thesis by (rule benchmark_runs_the_schedule)
qed

end
