(* ===== verification/Work_Sharing.thy ===== *)
theory Work_Sharing
  imports Benchmark
begin

text \<open>
  How the threads of an iteration share the workload: \<^verbatim>\<open>ThreadBenchmark::execute_iteration\<close> from
  \<^verbatim>\<open>src/src/indices/blinktree/thread/thread_benchmark.cpp\<close>. Every thread claims batches of items with one
  atomic \<^verbatim>\<open>fetch_add\<close> on a shared pointer and executes the items of its batch one by one. The steps of all
  threads interleave freely. An executed item is recorded by its index into the workload.
\<close>

section \<open>The threads of an iteration\<close>

text \<open>
  A thread is about to evaluate the condition of its loop, or works on a batch (next item, items left), or has
  left the loop.
\<close>

datatype worker = Claiming | Working nat nat | Stopped

record iteration =
  workload_pointer :: "64 word"
  workers :: "worker list"
  executed :: "nat list"

definition iteration_start :: "nat \<Rightarrow> iteration" where
  "iteration_start threads = \<lparr>workload_pointer = 0, workers = replicate threads Claiming, executed = []\<rparr>"

definition items_to_execute :: "nat \<Rightarrow> 16 word \<Rightarrow> 64 word \<Rightarrow> nat" where
  "items_to_execute count_items batch current_pointer = min (unat batch) (count_items - unat current_pointer)"

text \<open>One thread evaluates the loop condition and, when it holds, starts the batch it has claimed.\<close>

definition claim_batch :: "nat \<Rightarrow> 16 word \<Rightarrow> nat \<Rightarrow> iteration \<Rightarrow> iteration" where
  "claim_batch count_items batch t s =
     (let current_pointer = workload_pointer s;
          s1 = s\<lparr>workload_pointer := workload_pointer s + ucast batch\<rparr>
      in if unat current_pointer < count_items
         then s1\<lparr>workers := (workers s1)[t := Working (unat current_pointer) (items_to_execute count_items batch current_pointer)]\<rparr>
         else s1\<lparr>workers := (workers s1)[t := Stopped]\<rparr>)"

definition execute_item :: "nat \<Rightarrow> nat \<Rightarrow> nat \<Rightarrow> iteration \<Rightarrow> iteration" where
  "execute_item t item left_over s = s\<lparr>executed := executed s @ [item], workers := (workers s)[t := Working (item + 1) left_over]\<rparr>"

inductive iteration_step :: "nat \<Rightarrow> 16 word \<Rightarrow> iteration \<Rightarrow> iteration \<Rightarrow> bool" for count_items batch where
  claim: "t < length (workers s) \<Longrightarrow> workers s ! t = Claiming \<Longrightarrow> iteration_step count_items batch s (claim_batch count_items batch t s)"
| item: "t < length (workers s) \<Longrightarrow> workers s ! t = Working item (Suc left_over)
    \<Longrightarrow> iteration_step count_items batch s (execute_item t item left_over s)"
| batch_end: "t < length (workers s) \<Longrightarrow> workers s ! t = Working item 0
    \<Longrightarrow> iteration_step count_items batch s (s\<lparr>workers := (workers s)[t := Claiming]\<rparr>)"

inductive_cases iteration_stepE: "iteration_step count_items batch s s'"

inductive iteration_reach :: "nat \<Rightarrow> 16 word \<Rightarrow> nat \<Rightarrow> iteration \<Rightarrow> bool" for count_items batch threads where
  start: "iteration_reach count_items batch threads (iteration_start threads)"
| step: "iteration_reach count_items batch threads s \<Longrightarrow> iteration_step count_items batch s s'
    \<Longrightarrow> iteration_reach count_items batch threads s'"

section \<open>The invariant\<close>

fun pending :: "worker \<Rightarrow> nat multiset" where
  "pending (Working item left_over) = mset [item..<item + left_over]"
| "pending _ = {#}"

definition all_pending :: "worker list \<Rightarrow> nat multiset" where
  "all_pending ws = sum_list (map pending ws)"

definition stopped :: "worker list \<Rightarrow> nat" where
  "stopped ws = length (filter (\<lambda>w. w = Stopped) ws)"

lemma sum_list_map_update:
  fixes f :: "'a \<Rightarrow> 'b :: comm_monoid_add"
  shows "t < length ws \<Longrightarrow> sum_list (map f (ws[t := w])) + f (ws ! t) = sum_list (map f ws) + f w"
  by (induction ws arbitrary: t) (auto simp: nth_Cons ac_simps split: nat.splits)

lemma all_pending_update:
  "t < length ws \<Longrightarrow> all_pending (ws[t := w]) + pending (ws ! t) = all_pending ws + pending w"
  unfolding all_pending_def by (rule sum_list_map_update)

lemma stopped_update:
  "t < length ws \<Longrightarrow> ws ! t \<noteq> Stopped \<Longrightarrow> stopped (ws[t := w]) = stopped ws + (if w = Stopped then 1 else 0)"
  by (induction ws arbitrary: t) (auto simp: stopped_def nth_Cons split: nat.splits)

lemma stopped_le: "stopped ws \<le> length ws"
  by (simp add: stopped_def)

text \<open>
  The items below the pointer are executed or pending, each once; and the pointer runs past the end
  only once per thread that has stopped.
\<close>

definition iteration_inv :: "nat \<Rightarrow> 16 word \<Rightarrow> nat \<Rightarrow> iteration \<Rightarrow> bool" where
  "iteration_inv count_items batch threads s \<longleftrightarrow>
     length (workers s) = threads
     \<and> mset (executed s) + all_pending (workers s) = mset [0..<min (unat (workload_pointer s)) count_items]
     \<and> unat (workload_pointer s) < count_items + unat batch * (stopped (workers s) + 1)
     \<and> (stopped (workers s) > 0 \<longrightarrow> count_items \<le> unat (workload_pointer s))"

lemma pointer_add:
  assumes "unat p + unat (b :: 16 word) < 2 ^ 64"
  shows "unat (p + ucast b :: 64 word) = unat p + unat b"
proof -
  have "unat b < 2 ^ 16" using unsigned_less [of b] by simp
  then have "unat (ucast b :: 64 word) = unat b" by (simp add: unsigned_ucast_eq take_bit_nat_eq_self)
  then show ?thesis using assms by (simp add: unat_add_lem [THEN iffD1])
qed

lemma upt_mset_append: "a \<le> b \<Longrightarrow> mset [0..<a] + mset [a..<b] = mset [0..<b]"
  by (metis le0 le_add_diff_inverse mset_append upt_add_eq_append)

lemma iteration_inv_start: "0 < batch \<Longrightarrow> iteration_inv count_items batch threads (iteration_start threads)"
proof -
  assume "0 < batch"
  moreover have "all_pending (replicate threads Claiming) = {#}" by (induction threads) (simp_all add: all_pending_def)
  ultimately show ?thesis by (simp add: iteration_inv_def iteration_start_def stopped_def word_less_nat_alt)
qed

lemma iteration_inv_claim:
  assumes inv: "iteration_inv count_items batch threads s" and room: "count_items + unat batch * (threads + 1) \<le> 2 ^ 64"
    and t: "t < length (workers s)" "workers s ! t = Claiming"
  shows "iteration_inv count_items batch threads (claim_batch count_items batch t s)"
proof -
  define p where "p = unat (workload_pointer s)"
  define ws where "ws = workers s"
  have inv': "length ws = threads" "mset (executed s) + all_pending ws = mset [0..<min p count_items]"
    "p < count_items + unat batch * (stopped ws + 1)" "stopped ws > 0 \<longrightarrow> count_items \<le> p"
    using inv by (simp_all add: iteration_inv_def p_def ws_def)
  have "stopped ws + 1 \<le> threads"
  proof -
    have "stopped (ws[t := Stopped]) = stopped ws + 1" using t stopped_update [of t ws Stopped] by (simp add: ws_def)
    then show ?thesis using stopped_le [of "ws[t := Stopped]"] inv'(1) by simp
  qed
  then have "unat batch * (stopped ws + 1) \<le> unat batch * threads" by (rule mult_le_mono2)
  then have "p + unat batch < 2 ^ 64" using inv'(3) room by simp
  then have add: "unat (workload_pointer s + ucast batch) = p + unat batch" unfolding p_def by (rule pointer_add)
  show ?thesis
  proof (cases "p < count_items")
    case True
    define k where "k = min (unat batch) (count_items - p)"
    have k: "min (p + unat batch) count_items = p + k" using True by (simp add: k_def)
    have pend: "all_pending (ws[t := Working p k]) = all_pending ws + mset [p..<p + k]"
      using t all_pending_update [of t ws "Working p k"] by (simp add: ws_def)
    have "mset (executed s) + all_pending (ws[t := Working p k]) = mset [0..<p] + mset [p..<p + k]"
      using inv'(2) True unfolding pend by (simp add: min_absorb1 flip: add.assoc)
    then have "mset (executed s) + all_pending (ws[t := Working p k]) = mset [0..<p + k]" by (simp only: upt_mset_append le_add1)
    moreover have "stopped ws = 0" using inv'(4) True by auto
    moreover have "stopped (ws[t := Working p k]) = stopped ws" using t stopped_update [of t ws "Working p k"] by (simp add: ws_def)
    ultimately show ?thesis
      using True inv'(1) add k
      by (simp add: iteration_inv_def claim_batch_def items_to_execute_def Let_def p_def [symmetric] ws_def [symmetric] k_def [symmetric])
  next
    case False
    have pend: "all_pending (ws[t := Stopped]) = all_pending ws"
      using t all_pending_update [of t ws Stopped] by (simp add: ws_def)
    have "stopped (ws[t := Stopped]) = stopped ws + 1" using t stopped_update [of t ws Stopped] by (simp add: ws_def)
    then show ?thesis
      using False inv' add pend
      by (simp add: iteration_inv_def claim_batch_def Let_def p_def [symmetric] ws_def [symmetric] min_absorb2 algebra_simps)
  qed
qed

lemma cancel_front: "A + mset (i # xs) = B + mset xs \<Longrightarrow> add_mset i A = B"
  by simp

lemma iteration_inv_step:
  assumes inv: "iteration_inv count_items batch threads s" and room: "count_items + unat batch * (threads + 1) \<le> 2 ^ 64"
    and step: "iteration_step count_items batch s s'"
  shows "iteration_inv count_items batch threads s'"
  using step
proof (cases rule: iteration_step.cases)
  case (claim t)
  then show ?thesis using iteration_inv_claim [OF inv room] by simp
next
  case (item t i k)
  have "all_pending ((workers s)[t := Working (i + 1) k]) + mset [i..<i + Suc k] = all_pending (workers s) + mset [i + 1..<i + 1 + k]"
    using all_pending_update [of t "workers s" "Working (i + 1) k"] item by simp
  moreover have "[i..<i + Suc k] = i # [i + 1..<i + 1 + k]" by (simp add: upt_conv_Cons del: upt_Suc)
  ultimately have "add_mset i (all_pending ((workers s)[t := Working (i + 1) k])) = all_pending (workers s)"
    by (metis cancel_front)
  then have "mset (executed s @ [i]) + all_pending ((workers s)[t := Working (i + 1) k]) = mset (executed s) + all_pending (workers s)"
    by (metis mset.simps mset_append union_mset_add_mset_left union_mset_add_mset_right add.right_neutral)
  then have "mset (executed s @ [i]) + all_pending ((workers s)[t := Working (i + 1) k])
      = mset [0..<min (unat (workload_pointer s)) count_items]" using inv by (simp only: iteration_inv_def)
  moreover have "stopped ((workers s)[t := Working (i + 1) k]) = stopped (workers s)"
    using stopped_update [of t "workers s" "Working (i + 1) k"] item by simp
  ultimately show ?thesis using inv item(1) by (simp add: iteration_inv_def execute_item_def)
next
  case (batch_end t i)
  have "all_pending ((workers s)[t := Claiming]) = all_pending (workers s)"
    using all_pending_update [of t "workers s" Claiming] batch_end by simp
  moreover have "stopped ((workers s)[t := Claiming]) = stopped (workers s)"
    using stopped_update [of t "workers s" Claiming] batch_end by simp
  ultimately show ?thesis using inv batch_end(1) by (simp add: iteration_inv_def)
qed

lemma iteration_reach_inv:
  assumes "iteration_reach count_items batch threads s" "0 < batch" "count_items + unat batch * (threads + 1) \<le> 2 ^ 64"
  shows "iteration_inv count_items batch threads s"
  using assms by (induction rule: iteration_reach.induct) (simp_all add: iteration_inv_start iteration_inv_step)

section \<open>Every item once\<close>

definition all_stopped :: "iteration \<Rightarrow> bool" where
  "all_stopped s = list_all (\<lambda>w. w = Stopped) (workers s)"

lemma all_stopped_facts:
  assumes "all_stopped s"
  shows "all_pending (workers s) = {#}" "stopped (workers s) = length (workers s)"
proof -
  define ws where "ws = workers s"
  have "list_all (\<lambda>w. w = Stopped) ws" using assms by (simp add: all_stopped_def ws_def)
  then have "all_pending ws = {#} \<and> stopped ws = length ws"
    by (induction ws) (simp_all add: all_pending_def stopped_def)
  then show "all_pending (workers s) = {#}" "stopped (workers s) = length (workers s)" by (simp_all add: ws_def)
qed

lemma finished_iteration:
  assumes "iteration_reach count_items batch threads s" "0 < batch" "0 < threads"
    "count_items + unat batch * (threads + 1) \<le> 2 ^ 64" "all_stopped s"
  shows "mset (executed s) = mset [0..<count_items]"
proof -
  have "iteration_inv count_items batch threads s" by (rule iteration_reach_inv) (use assms in simp_all)
  then show ?thesis using assms(3) all_stopped_facts [OF assms(5)] by (auto simp: iteration_inv_def min_absorb2)
qed

text \<open>
  C12. However the threads of an iteration interleave, no item of the workload is executed twice, only items of
  the phase are executed, and when all threads have left their loops every item has been executed exactly
  once. The batch size is not zero, and the pointer has room for one surplus batch per thread.
\<close>

theorem every_item_executed_once:
  assumes "iteration_reach count_items batch threads s" "0 < batch" "0 < threads"
    "count_items + unat batch * (threads + 1) \<le> 2 ^ 64"
  shows "distinct (executed s) \<and> set (executed s) \<subseteq> {..<count_items}
    \<and> (all_stopped s \<longrightarrow> mset (executed s) = mset [0..<count_items])"
proof -
  define p where "p = min (unat (workload_pointer s)) count_items"
  have inv: "iteration_inv count_items batch threads s" by (rule iteration_reach_inv) (use assms in simp_all)
  then have parts: "mset (executed s) + all_pending (workers s) = mset [0..<p]" by (simp add: iteration_inv_def p_def)
  then have sub: "mset (executed s) \<subseteq># mset [0..<p]" by (metis mset_subset_eq_add_left)
  obtain ys where "mset ys = all_pending (workers s)" using ex_mset by blast
  then have "mset (executed s @ ys) = mset [0..<p]" using parts by simp
  then have "distinct (executed s @ ys)" using mset_eq_imp_distinct_iff by (metis distinct_upt)
  then have "distinct (executed s)" by simp
  moreover have "set (executed s) \<subseteq> {..<count_items}"
    using set_mset_mono [OF sub] by (auto simp: p_def)
  moreover have "mset (executed s) = mset [0..<count_items]" if "all_stopped s"
    using finished_iteration [OF assms that] .
  ultimately show ?thesis by blast
qed

text \<open>Two threads, three items, batches of two: the second thread takes the last item.\<close>

definition two_threads_end :: iteration where
  "two_threads_end = \<lparr>workload_pointer = 8, workers = [Stopped, Stopped], executed = [0, 2, 1]\<rparr>"

lemma iteration_reach_claim:
  "iteration_reach n b k s \<Longrightarrow> t < length (workers s) \<Longrightarrow> workers s ! t = Claiming \<Longrightarrow> s' = claim_batch n b t s \<Longrightarrow> iteration_reach n b k s'"
  by (metis iteration_reach.step iteration_step.claim)

lemma iteration_reach_item:
  "iteration_reach n b k s \<Longrightarrow> t < length (workers s) \<Longrightarrow> workers s ! t = Working i (Suc j) \<Longrightarrow> s' = execute_item t i j s
   \<Longrightarrow> iteration_reach n b k s'"
  by (metis iteration_reach.step iteration_step.item)

lemma iteration_reach_end:
  "iteration_reach n b k s \<Longrightarrow> t < length (workers s) \<Longrightarrow> workers s ! t = Working i 0 \<Longrightarrow> s' = s\<lparr>workers := (workers s)[t := Claiming]\<rparr>
   \<Longrightarrow> iteration_reach n b k s'"
  by (metis iteration_reach.step iteration_step.batch_end)

lemmas run_thread_simps = claim_batch_def items_to_execute_def execute_item_def iteration_start_def Let_def

lemma two_threads_reach: "iteration_reach 3 2 2 two_threads_end"
proof -
  define S where "S = (\<lambda>p (a :: worker) (b :: worker) e. \<lparr>workload_pointer = p, workers = [a, b], executed = e\<rparr>)"
  note reach = iteration_reach_claim iteration_reach_item iteration_reach_end
  have "iteration_start 2 = S 0 Claiming Claiming []" by (simp add: iteration_start_def S_def numeral_2_eq_2)
  then have "iteration_reach 3 2 2 (S 0 Claiming Claiming [])" by (metis iteration_reach.start)
  then have "iteration_reach 3 2 2 (S 2 (Working 0 2) Claiming [])"
    by (rule reach(1) [of _ _ _ _ 0]) (simp_all add: S_def run_thread_simps)
  then have "iteration_reach 3 2 2 (S 4 (Working 0 2) (Working 2 1) [])"
    by (rule reach(1) [of _ _ _ _ 1]) (simp_all add: S_def run_thread_simps)
  then have "iteration_reach 3 2 2 (S 4 (Working 1 1) (Working 2 1) [0])"
    by (rule reach(2) [of _ _ _ _ 0 0 1]) (simp_all add: S_def run_thread_simps)
  then have "iteration_reach 3 2 2 (S 4 (Working 1 1) (Working 3 0) [0, 2])"
    by (rule reach(2) [of _ _ _ _ 1 2 0]) (simp_all add: S_def run_thread_simps)
  then have "iteration_reach 3 2 2 (S 4 (Working 2 0) (Working 3 0) [0, 2, 1])"
    by (rule reach(2) [of _ _ _ _ 0 1 0]) (simp_all add: S_def run_thread_simps)
  then have "iteration_reach 3 2 2 (S 4 Claiming (Working 3 0) [0, 2, 1])"
    by (rule reach(3) [of _ _ _ _ 0 2]) (simp_all add: S_def run_thread_simps)
  then have "iteration_reach 3 2 2 (S 4 Claiming Claiming [0, 2, 1])"
    by (rule reach(3) [of _ _ _ _ 1 3]) (simp_all add: S_def run_thread_simps)
  then have "iteration_reach 3 2 2 (S 6 Stopped Claiming [0, 2, 1])"
    by (rule reach(1) [of _ _ _ _ 0]) (simp_all add: S_def run_thread_simps)
  then have "iteration_reach 3 2 2 (S 8 Stopped Stopped [0, 2, 1])"
    by (rule reach(1) [of _ _ _ _ 1]) (simp_all add: S_def run_thread_simps)
  then show ?thesis by (simp add: S_def two_threads_end_def)
qed

theorem every_item_executed_once_witness:
  "all_stopped two_threads_end \<and> mset (executed two_threads_end) = mset [0..<3]"
proof -
  have "all_stopped two_threads_end" by (simp add: all_stopped_def two_threads_end_def)
  moreover have "(0 :: 16 word) < 2" "(0 :: nat) < 2" "(3 :: nat) + unat (2 :: 16 word) * (2 + 1) \<le> 2 ^ 64" by simp_all
  ultimately show ?thesis using every_item_executed_once [OF two_threads_reach] by blast
qed

section \<open>Every iteration ends\<close>







end
