(* ===== verification/BLink_Tree.thy ===== *)
theory BLink_Tree
  imports BLink_Node
begin

text \<open>
  The tree that every B-link index shares: \<^verbatim>\<open>src/src/indices/blinktree/tree.h\<close> and
  \<^verbatim>\<open>tree.cpp\<close>, and the path of \<^verbatim>\<open>node_path.h\<close>.

  Nodes are mutated through pointers that alias (siblings, parents, separators), so the state is
  an explicit store: \<open>heap\<close> maps addresses to nodes, \<open>latches\<close> holds the \<^verbatim>\<open>NodeBase\<close> part of
  the node at the same address, \<open>next_addr\<close> is the next address the allocator returns (the
  allocator is assumed not to fail and never to return memory in use).
\<close>

section \<open>State\<close>

type_synonym ptr = "addr option"

record 'l tree =
  heap :: "addr \<Rightarrow> node option"
  latches :: "addr \<Rightarrow> 'l"
  next_addr :: addr
  root_node :: ptr
  height :: nat

definition deref :: "'l tree \<Rightarrow> ptr \<Rightarrow> node result" where
  "deref t p = (case p of None \<Rightarrow> Inl NullDeref
     | Some a \<Rightarrow> (case heap t a of None \<Rightarrow> Inl DanglingPointer | Some n \<Rightarrow> Inr n))"

definition store :: "'l tree \<Rightarrow> ptr \<Rightarrow> node \<Rightarrow> 'l tree" where
  "store t p n = (case p of None \<Rightarrow> t | Some a \<Rightarrow> t\<lparr>heap := (heap t)(a \<mapsto> n)\<rparr>)"

definition set_parent :: "'l tree \<Rightarrow> ptr \<Rightarrow> ptr \<Rightarrow> 'l tree result" where
  "set_parent t p par = bindR (deref t p) (\<lambda>n. Inr (store t p (n\<lparr>parent := par\<rparr>)))"

lemma deref_Some [simp]: "heap t a = Some n \<Longrightarrow> deref t (Some a) = Inr n"
  by (simp add: deref_def)

lemma deref_None [simp]: "deref t None = Inl NullDeref"
  by (simp add: deref_def)

lemma store_simps [simp]:
  "heap (store t (Some a) n) = (heap t)(a \<mapsto> n)" "latches (store t p n) = latches t"
  "next_addr (store t p n) = next_addr t" "root_node (store t p n) = root_node t"
  "height (store t p n) = height t"
  by (simp_all add: store_def split: option.splits)

section \<open>Operations of Tree\<close>

definition Tree_create_node :: "'l config \<Rightarrow> 'l tree \<Rightarrow> bool \<Rightarrow> ptr \<Rightarrow> ptr \<times> 'l tree" where
  "Tree_create_node c t leaf par =
     (let a = next_addr t
      in (Some a, t\<lparr>heap := (heap t)(a \<mapsto> Node_ctor c a leaf par),
                    latches := (latches t)(a := latch_init c), next_addr := Suc a\<rparr>))"

definition Tree_create_inner_node :: "'l config \<Rightarrow> 'l tree \<Rightarrow> ptr \<Rightarrow> ptr \<times> 'l tree" where
  "Tree_create_inner_node c t par = Tree_create_node c t False par"

definition Tree_create_leaf_node :: "'l config \<Rightarrow> 'l tree \<Rightarrow> ptr \<Rightarrow> ptr \<times> 'l tree" where
  "Tree_create_leaf_node c t par = Tree_create_node c t True par"

definition Tree_ctor :: "'l config \<Rightarrow> 'l tree" where
  "Tree_ctor c =
     (let t0 = \<lparr>heap = (\<lambda>_. None), latches = (\<lambda>_. latch_init c), next_addr = 0, root_node = None,
                height = 1\<rparr>;
          (r, t1) = Tree_create_node c t0 True None
      in t1\<lparr>root_node := r\<rparr>)"

definition Tree_empty :: "'l tree \<Rightarrow> bool result" where
  "Tree_empty t = (if root_node t = None then Inr True
     else bindR (deref t (root_node t)) (\<lambda>n. Inr (nsize n = 0)))"

definition Tree_create_new_root :: "'l config \<Rightarrow> 'l tree \<Rightarrow> ptr \<Rightarrow> ptr \<Rightarrow> key_type \<Rightarrow> 'l tree result" where
  "Tree_create_new_root c t left right key =
     (let (root, t1) = Tree_create_inner_node c t None
      in bindR (set_parent t1 left root) (\<lambda>t2.
         bindR (deref t2 root) (\<lambda>r0.
         bindR (node_set_separator r0 0 left) (\<lambda>r1.
         bindR (set_parent (store t2 root r1) right root) (\<lambda>t3.
         bindR (deref t3 root) (\<lambda>r2.
         bindR (Node_insert_separator r2 0 right key) (\<lambda>r3.
         Inr ((store t3 root r3)\<lparr>height := (height t + 1) mod 2 ^ 16, root_node := root\<rparr>))))))))"

text \<open>
  The two splits work on the records of the node and of its new sibling and store both at the
  end: the sibling is fresh memory, so no statement in between reads one through the other.
\<close>

definition Tree_split_leaf_node ::
  "'l config \<Rightarrow> 'l tree \<Rightarrow> ptr \<Rightarrow> key_type \<Rightarrow> value_type \<Rightarrow> (ptr \<times> 'l tree) result" where
  "Tree_split_leaf_node c t leaf_node key value =
     bindR (deref t leaf_node) (\<lambda>n0.
     let left_size = LeafNode_max_items c div 2;
         right_size = LeafNode_max_items c - left_size;
         (new_leaf_node, t1) = Tree_create_leaf_node c t (parent n0)
     in bindR (deref t1 new_leaf_node) (\<lambda>m0.
        bindR (Node_copy n0 m0 left_size right_size) (\<lambda>m1.
        let m2 = m1\<lparr>high_key := high_key n0, right_sibling := right_sibling n0, nsize := right_size\<rparr>;
            n1 = n0\<lparr>nsize := left_size, right_sibling := new_leaf_node\<rparr>
        in bindR (node_key m2 0) (\<lambda>first.
           bindR (if key < first
                  then bindR (Node_index n1 key) (\<lambda>i.
                       bindR (Node_insert_value n1 i value key) (\<lambda>n2. Inr (n2, m2)))
                  else bindR (Node_index m2 key) (\<lambda>i.
                       bindR (Node_insert_value m2 i value key) (\<lambda>m3. Inr (n1, m3)))) (\<lambda>(n2, m3).
           bindR (node_key m3 0) (\<lambda>sep.
           Inr (new_leaf_node,
                store (store t1 new_leaf_node m3) leaf_node (n2\<lparr>high_key := sep\<rparr>))))))))"

fun set_parents :: "'l tree \<Rightarrow> ptr list \<Rightarrow> ptr \<Rightarrow> 'l tree result" where
  "set_parents t [] par = Inr t"
| "set_parents t (s # ss) par = bindR (set_parent t s par) (\<lambda>t'. set_parents t' ss par)"

text \<open>
  The three branches of \<^verbatim>\<open>split_inner_node\<close>: the records of the node and its sibling, the key
  that moves up, and whether the separator went to the left node (and gets it as its parent).
\<close>

definition split_inner_parts ::
  "'l config \<Rightarrow> node \<Rightarrow> node \<Rightarrow> key_type \<Rightarrow> ptr \<Rightarrow> (node \<times> node \<times> key_type \<times> bool) result" where
  "split_inner_parts c n0 m0 key separator =
     (let left_size = InnerNode_max_keys c div 2;
          right_size = InnerNode_max_keys c - left_size
      in bindR (node_key n0 (left_size - 1)) (\<lambda>k_left.
         if key < k_left
         then bindR (node_separator n0 left_size) (\<lambda>s.
              bindR (bindR (Node_copy n0 m0 left_size right_size)
                       (\<lambda>m1. node_set_separator m1 0 s)) (\<lambda>m2.
              let n1 = n0\<lparr>nsize := left_size - 1\<rparr>
              in bindR (Node_index n1 key) (\<lambda>i.
                 bindR (Node_insert_separator n1 i separator key) (\<lambda>n2.
                 Inr (n2, m2\<lparr>nsize := right_size\<rparr>, k_left, True)))))
         else bindR (node_key n0 left_size) (\<lambda>k_mid.
              if key < k_mid
              then bindR (bindR (Node_copy n0 m0 left_size right_size)
                            (\<lambda>m1. node_set_separator m1 0 separator)) (\<lambda>m2.
                   Inr (n0\<lparr>nsize := left_size\<rparr>, m2\<lparr>nsize := right_size\<rparr>, key, False))
              else bindR (node_separator n0 (left_size + 1)) (\<lambda>s.
                   bindR (bindR (Node_copy n0 m0 (left_size + 1) (right_size - 1))
                            (\<lambda>m1. node_set_separator m1 0 s)) (\<lambda>m2.
                   let m3 = m2\<lparr>nsize := right_size - 1\<rparr>
                   in bindR (Node_index m3 key) (\<lambda>i.
                      bindR (Node_insert_separator m3 i separator key) (\<lambda>m4.
                      Inr (n0\<lparr>nsize := left_size\<rparr>, m4, k_mid, False))))))))"

definition Tree_split_inner_node ::
  "'l config \<Rightarrow> 'l tree \<Rightarrow> ptr \<Rightarrow> key_type \<Rightarrow> ptr \<Rightarrow> ((ptr \<times> key_type) \<times> 'l tree) result" where
  "Tree_split_inner_node c t inner_node key separator =
     bindR (deref t inner_node) (\<lambda>n0.
     let (new_inner_node, t1) = Tree_create_inner_node c t (parent n0)
     in bindR (deref t1 new_inner_node) (\<lambda>m.
        bindR (split_inner_parts c n0 (m\<lparr>high_key := high_key n0\<rparr>) key separator)
          (\<lambda>(n2, m5, key_up, separator_left).
        let m6 = m5\<lparr>right_sibling := right_sibling n0\<rparr>;
            n3 = n2\<lparr>right_sibling := new_inner_node, high_key := key_up\<rparr>;
            t2 = store (store t1 new_inner_node m6) inner_node n3
        in bindR (if separator_left then set_parent t2 separator inner_node else Inr t2) (\<lambda>t3.
           bindR (if nsize m6 < length (seps m6) then Inr (live_seps m6) else Inl OutOfBounds)
             (\<lambda>ss.
           bindR (set_parents t3 ss new_inner_node) (\<lambda>t4.
           Inr ((new_inner_node, key_up), t4)))))))"

section \<open>NodePath\<close>

text \<open>A stack in an array of ten slots; pushing an eleventh node writes behind the array.\<close>

record node_path =
  path_data :: "ptr list"
  path_counter :: nat

definition NodePath_capacity :: nat where
  "NodePath_capacity = 10"

definition NodePath_init :: node_path where
  "NodePath_init = \<lparr>path_data = replicate NodePath_capacity None, path_counter = 0\<rparr>"

definition NodePath_push :: "node_path \<Rightarrow> ptr \<Rightarrow> node_path result" where
  "NodePath_push p a =
     bindR (aset (path_data p) (path_counter p) a)
       (\<lambda>d. Inr (p\<lparr>path_data := d, path_counter := path_counter p + 1\<rparr>))"

definition NodePath_pop :: "node_path \<Rightarrow> (ptr \<times> node_path) result" where
  "NodePath_pop p =
     (if path_counter p = 0 then Inl OutOfBounds
      else bindR (aget (path_data p) (path_counter p - 1))
             (\<lambda>a. Inr (a, p\<lparr>path_counter := path_counter p - 1\<rparr>)))"

definition NodePath_clear :: "node_path \<Rightarrow> node_path" where
  "NodePath_clear p = p\<lparr>path_counter := 0\<rparr>"

definition NodePath_is_empty :: "node_path \<Rightarrow> bool" where
  "NodePath_is_empty p \<longleftrightarrow> path_counter p = 0"

definition NodePath_size :: "node_path \<Rightarrow> nat" where
  "NodePath_size p = path_counter p"

text \<open>The abstract stack, top first.\<close>

definition path_ok :: "node_path \<Rightarrow> bool" where
  "path_ok p \<longleftrightarrow> length (path_data p) = NodePath_capacity \<and> path_counter p \<le> NodePath_capacity"

definition path_stack :: "node_path \<Rightarrow> ptr list" where
  "path_stack p = rev (take (path_counter p) (path_data p))"

lemma path_init: "path_ok NodePath_init" "path_stack NodePath_init = []"
  by (simp_all add: path_ok_def path_stack_def NodePath_init_def)

lemma path_push:
  assumes "path_ok p" "length (path_stack p) < NodePath_capacity"
  obtains p' where "NodePath_push p a = Inr p'" "path_ok p'" "path_stack p' = a # path_stack p"
proof -
  have c: "path_counter p < length (path_data p)"
    using assms by (auto simp: path_ok_def path_stack_def min_def split: if_splits)
  let ?p' = "p\<lparr>path_data := (path_data p)[path_counter p := a], path_counter := path_counter p + 1\<rparr>"
  have "NodePath_push p a = Inr ?p'" using c by (simp add: NodePath_push_def arr_simps)
  moreover have "path_ok ?p'" using c assms by (simp add: path_ok_def)
  moreover have "path_stack ?p' = a # path_stack p"
    using c by (simp add: path_stack_def take_Suc_conv_app_nth)
  ultimately show thesis using that by blast
qed

lemma path_push_overflow:
  assumes "path_ok p" "length (path_stack p) = NodePath_capacity"
  shows "NodePath_push p a = Inl OutOfBounds"
  using assms by (simp add: path_ok_def path_stack_def NodePath_push_def aset_def min_def split: if_splits)

lemma path_empty_iff: "path_ok p \<Longrightarrow> NodePath_is_empty p \<longleftrightarrow> path_stack p = []"
  by (auto simp: path_ok_def path_stack_def NodePath_is_empty_def NodePath_capacity_def)

lemma path_pop:
  assumes "path_ok p" "path_stack p = a # s"
  obtains p' where "NodePath_pop p = Inr (a, p')" "path_ok p'" "path_stack p' = s"
    "path_counter p' < path_counter p"
proof -
  have nz: "path_counter p \<noteq> 0"
  proof
    assume "path_counter p = 0"
    then show False using assms(2) by (simp add: path_stack_def)
  qed
  then obtain i where i: "path_counter p = Suc i" by (cases "path_counter p") auto
  have len: "i < length (path_data p)" using assms(1) i by (simp add: path_ok_def)
  have "path_stack p = path_data p ! i # rev (take i (path_data p))"
    using len i by (simp add: path_stack_def take_Suc_conv_app_nth)
  then have "NodePath_pop p = Inr (a, p\<lparr>path_counter := i\<rparr>)" "path_stack (p\<lparr>path_counter := i\<rparr>) = s"
    using assms(2) i len by (simp_all add: NodePath_pop_def arr_simps path_stack_def)
  moreover have "path_ok (p\<lparr>path_counter := i\<rparr>)" using assms(1) i by (simp add: path_ok_def)
  ultimately show thesis using that i by simp
qed

end
