(* ===== verification/BLink_Split.thy ===== *)
theory BLink_Split
  imports BLink_Tree
begin

text \<open>
  What \<^verbatim>\<open>Tree::split_leaf_node\<close>, \<^verbatim>\<open>Tree::split_inner_node\<close> and \<^verbatim>\<open>Tree::create_new_root\<close> do to
  the store, in terms of lists: inserting the new entry into the full node first and cutting the
  longer list afterwards gives the same two nodes as the code's cut-then-insert. These equations
  are what the invariant proofs use; the code's case distinctions stop here.
\<close>

section \<open>Shape of nodes\<close>

text \<open>Words that fresh memory may hold: the slots behind the live keys of a leaf can only hold
  these or keys at or above the high key.\<close>

definition junk_words :: "'l config \<Rightarrow> key_type set" where
  "junk_words c = {w. \<exists>a i. w = alloc_junk c a i}"

lemma junk_wordsI [simp, intro]: "alloc_junk c a i \<in> junk_words c"
  by (auto simp: junk_words_def)

definition leaf_ok :: "'l config \<Rightarrow> key_type \<Rightarrow> node \<Rightarrow> bool" where
  "leaf_ok c lo n \<longleftrightarrow> is_leaf n \<and> length (keys n) = LeafNode_max_items c
     \<and> length (vals n) = LeafNode_max_items c \<and> nsize n \<le> LeafNode_max_items c
     \<and> sorted_less (live_keys n)
     \<and> (\<forall>k \<in> set (live_keys n). lo \<le> k \<and> k < high_key n)
     \<and> (\<forall>j. nsize n \<le> j \<and> j < LeafNode_max_items c \<longrightarrow>
              high_key n \<le> keys n ! j \<or> keys n ! j \<in> junk_words c)"

definition leaf_map :: "node \<Rightarrow> key_type \<rightharpoonup> value_type" where
  "leaf_map n = map_of (zip (live_keys n) (live_vals n))"

definition inner_shape :: "'l config \<Rightarrow> node \<Rightarrow> bool" where
  "inner_shape c n \<longleftrightarrow> \<not> is_leaf n \<and> length (keys n) = InnerNode_max_keys c
     \<and> length (seps n) = Suc (InnerNode_max_keys c) \<and> 0 < nsize n \<and> nsize n \<le> InnerNode_max_keys c"

lemma capacity_lt_65536: "LeafNode_max_items c < 65536" "InnerNode_max_keys c < 65536"
    "InnerNode_max_keys c \<le> 32767"
  using capacity_bounds [of c] by linarith+

lemma Node_ctor_simps [simp]:
  "is_leaf (Node_ctor c a l p) = l" "high_key (Node_ctor c a l p) = max_key"
  "right_sibling (Node_ctor c a l p) = None" "parent (Node_ctor c a l p) = p"
  "nsize (Node_ctor c a l p) = 0"
  "length (keys (Node_ctor c a True p)) = LeafNode_max_items c"
  "length (vals (Node_ctor c a True p)) = LeafNode_max_items c"
  "length (keys (Node_ctor c a False p)) = InnerNode_max_keys c"
  "length (seps (Node_ctor c a False p)) = Suc (InnerNode_max_keys c)"
  "j < LeafNode_max_items c \<Longrightarrow> keys (Node_ctor c a True p) ! j = alloc_junk c a j"
  by (simp_all add: Node_ctor_def InnerNode_max_separators_def)

section \<open>Splitting a leaf\<close>

text \<open>The state after a split: the old node and its new sibling are written, the rest is kept.\<close>

definition with_split :: "'l config \<Rightarrow> 'l tree \<Rightarrow> addr \<Rightarrow> node \<Rightarrow> node \<Rightarrow> 'l tree" where
  "with_split c t a n' m' = t\<lparr>heap := (heap t)(next_addr t \<mapsto> m', a \<mapsto> n'),
     latches := (latches t)(next_addr t := latch_init c), next_addr := Suc (next_addr t)\<rparr>"

lemma with_split_simps [simp]:
  "heap (with_split c t a n' m') = (heap t)(next_addr t \<mapsto> m', a \<mapsto> n')"
  "latches (with_split c t a n' m') = (latches t)(next_addr t := latch_init c)"
  "next_addr (with_split c t a n' m') = Suc (next_addr t)"
  "root_node (with_split c t a n' m') = root_node t" "height (with_split c t a n' m') = height t"
  by (simp_all add: with_split_def)

lemma store_created_eq:
  "store (store (t\<lparr>heap := h, latches := (latches t)(next_addr t := latch_init c),
      next_addr := Suc (next_addr t)\<rparr>) (Some (next_addr t)) m') (Some a) n'
   = with_split c (t\<lparr>heap := h\<rparr>) a n' m'"
  by (simp add: store_def with_split_def)

lemma with_split_created [simp]:
  "with_split c (t\<lparr>heap := (heap t)(next_addr t \<mapsto> m)\<rparr>) a n' m' = with_split c t a n' m'"
  by (simp add: with_split_def)

text \<open>
  \<open>leaf_split_result c n k v pos n' m'\<close>: with the entry inserted, the first \<open>pos\<close> entries are in
  \<open>n'\<close> and the others in \<open>m'\<close>; the two nodes are linked and share the old bounds.
\<close>

definition leaf_split_result ::
  "'l config \<Rightarrow> addr \<Rightarrow> node \<Rightarrow> key_type \<Rightarrow> value_type \<Rightarrow> nat \<Rightarrow> node \<Rightarrow> node \<Rightarrow> bool" where
  "leaf_split_result c new n k v pos n' m' \<longleftrightarrow>
     (let p = std_lower_bound (live_keys n) k;
          K = insert_at p k (live_keys n); V = insert_at p v (live_vals n)
      in 0 < pos \<and> pos < length K
       \<and> LeafNode_max_items c div 2 \<le> pos \<and> LeafNode_max_items c div 2 \<le> length K - pos
       \<and> is_leaf n' \<and> length (keys n') = LeafNode_max_items c \<and> length (vals n') = LeafNode_max_items c
       \<and> is_leaf m' \<and> length (keys m') = LeafNode_max_items c \<and> length (vals m') = LeafNode_max_items c
       \<and> nsize n' = pos \<and> nsize m' = length K - pos
       \<and> live_keys n' = take pos K \<and> live_vals n' = take pos V
       \<and> live_keys m' = drop pos K \<and> live_vals m' = drop pos V
       \<and> high_key n' = K ! pos \<and> right_sibling n' = Some new \<and> parent n' = parent n
       \<and> high_key m' = high_key n \<and> right_sibling m' = right_sibling n \<and> parent m' = parent n
       \<and> (\<forall>j. nsize n' \<le> j \<and> j < LeafNode_max_items c \<longrightarrow> high_key n' \<le> keys n' ! j)
       \<and> (\<forall>j. nsize m' \<le> j \<and> j < LeafNode_max_items c \<longrightarrow> keys m' ! j \<in> junk_words c))"

text \<open>
  The sibling after the upper half was copied into it, before the new entry is inserted on one
  side. \<open>full_leaf\<close> is the situation in which the trees call the split.
\<close>

definition copied_leaf :: "'l config \<Rightarrow> node \<Rightarrow> nat \<Rightarrow> node \<Rightarrow> bool" where
  "copied_leaf c n L m \<longleftrightarrow>
     is_leaf m \<and> length (keys m) = LeafNode_max_items c \<and> length (vals m) = LeafNode_max_items c
     \<and> nsize m = LeafNode_max_items c - L
     \<and> take (LeafNode_max_items c - L) (keys m) = drop L (keys n)
     \<and> take (LeafNode_max_items c - L) (vals m) = drop L (vals n)
     \<and> high_key m = high_key n \<and> right_sibling m = right_sibling n \<and> parent m = parent n
     \<and> (\<forall>j. LeafNode_max_items c - L \<le> j \<and> j < LeafNode_max_items c \<longrightarrow> keys m ! j \<in> junk_words c)"

definition full_leaf :: "'l config \<Rightarrow> node \<Rightarrow> key_type \<Rightarrow> bool" where
  "full_leaf c n k \<longleftrightarrow> is_leaf n \<and> length (keys n) = LeafNode_max_items c
     \<and> length (vals n) = LeafNode_max_items c \<and> nsize n = LeafNode_max_items c
     \<and> sorted_less (keys n) \<and> k \<notin> set (keys n)"

lemma full_leafI:
  "leaf_ok c lo n \<Longrightarrow> nsize n = LeafNode_max_items c \<Longrightarrow> k \<notin> set (live_keys n) \<Longrightarrow> full_leaf c n k"
  by (auto simp: leaf_ok_def full_leaf_def)

lemma full_leaf_live: "full_leaf c n k \<Longrightarrow> live_keys n = keys n" "full_leaf c n k \<Longrightarrow> live_vals n = vals n"
  by (simp_all add: full_leaf_def)

lemma full_leaf_pos:
  assumes "full_leaf c n k" "j < LeafNode_max_items c"
  shows "k < keys n ! j \<longleftrightarrow> std_lower_bound (keys n) k \<le> j"
  using assms std_lb.lb_gt_iff [where xs = "keys n" and j = j and k = k] by (simp add: full_leaf_def)

lemma full_leaf_index_le: "full_leaf c n k \<Longrightarrow> std_lower_bound (keys n) k \<le> LeafNode_max_items c"
  using std_lb.lb_le [of "keys n" k] by (simp add: full_leaf_def)

lemma copy_leaf:
  fixes new :: addr
  assumes n: "full_leaf c n k" and L: "0 < L" "L < LeafNode_max_items c"
  shows "\<exists>m. bindR (Node_copy n (Node_ctor c new True (parent n)) L (LeafNode_max_items c - L))
      (\<lambda>m1. Inr (m1\<lparr>high_key := high_key n, right_sibling := right_sibling n,
                     nsize := LeafNode_max_items c - L\<rparr>)) = Inr m \<and> copied_leaf c n L m"
proof -
  let ?o = "Node_ctor c new True (parent n)" and ?M = "LeafNode_max_items c"
  let ?m = "?o\<lparr>keys := drop L (keys n) @ drop (?M - L) (keys ?o),
    vals := drop L (vals n) @ drop (?M - L) (vals ?o),
    high_key := high_key n, right_sibling := right_sibling n, nsize := ?M - L\<rparr>"
  have "bindR (Node_copy n ?o L (?M - L)) (\<lambda>m1. Inr (m1\<lparr>high_key := high_key n,
      right_sibling := right_sibling n, nsize := ?M - L\<rparr>)) = Inr ?m"
    using n L by (simp add: full_leaf_def Node_copy_def arr_simps)
  moreover have "copied_leaf c n L ?m"
    using n L by (auto simp: full_leaf_def copied_leaf_def nth_append)
  ultimately show ?thesis by blast
qed

text \<open>The entry goes to the left node.\<close>

lemma leaf_split_left:
  fixes n m :: node
  assumes n: "full_leaf c n k" and m: "copied_leaf c n L m" and L: "L < LeafNode_max_items c"
    and p: "std_lower_bound (keys n) k \<le> L" and half: "L = LeafNode_max_items c div 2"
  defines "p \<equiv> std_lower_bound (keys n) k"
  shows "leaf_split_result c new n k v (Suc L)
    (n\<lparr>right_sibling := Some new, keys := open_gap p k L (keys n), vals := open_gap p v L (vals n),
       nsize := Suc L, high_key := keys n ! L\<rparr>) m"
proof -
  have len: "length (keys n) = LeafNode_max_items c" "length (vals n) = LeafNode_max_items c"
    using n by (simp_all add: full_leaf_def)
  have slices: "take (Suc L) (insert_at p k (keys n)) = insert_at p k (take L (keys n))"
    "take (Suc L) (insert_at p v (vals n)) = insert_at p v (take L (vals n))"
    "drop (Suc L) (insert_at p k (keys n)) = drop L (keys n)"
    "drop (Suc L) (insert_at p v (vals n)) = drop L (vals n)"
    "insert_at p k (keys n) ! Suc L = keys n ! L"
    using p L len by (simp_all add: slice_insert_at nth_insert_at p_def)
  have stale: "keys n ! L \<le> open_gap p k L (keys n) ! j" if "L < j" "j < LeafNode_max_items c" for j
    using that n L len by (simp add: full_leaf_def nth_open_gap_stale sorted_less_nth_le)
  show ?thesis
    using n m L len stale slices half
    unfolding leaf_split_result_def full_leaf_live [OF n] p_def [symmetric] Let_def
    by (simp add: full_leaf_def copied_leaf_def Suc_le_eq)
qed

text \<open>The entry goes to the right node.\<close>

lemma leaf_split_right:
  fixes n m :: node
  assumes n: "full_leaf c n k" and m: "copied_leaf c n L m"
    and L: "0 < L" "L < std_lower_bound (keys n) k" and half: "L = LeafNode_max_items c div 2"
  defines "p \<equiv> std_lower_bound (keys n) k" and "R \<equiv> LeafNode_max_items c - L"
  shows "leaf_split_result c new n k v L
    (n\<lparr>nsize := L, right_sibling := Some new, high_key := keys n ! L\<rparr>)
    (m\<lparr>keys := open_gap (p - L) k R (keys m), vals := open_gap (p - L) v R (vals m), nsize := Suc R\<rparr>)"
proof -
  have len: "length (keys n) = LeafNode_max_items c" "length (vals n) = LeafNode_max_items c"
    using n by (simp_all add: full_leaf_def)
  have p: "p \<le> LeafNode_max_items c" "L < p" using full_leaf_index_le [OF n] L by (simp_all add: p_def)
  have R: "R < LeafNode_max_items c" "Suc (LeafNode_max_items c) - L = Suc R" using L p by (auto simp: R_def)
  have slices: "take L (insert_at p k (keys n)) = take L (keys n)"
    "take L (insert_at p v (vals n)) = take L (vals n)"
    "drop L (insert_at p k (keys n)) = insert_at (p - L) k (drop L (keys n))"
    "drop L (insert_at p v (vals n)) = insert_at (p - L) v (drop L (vals n))"
    "insert_at p k (keys n) ! L = keys n ! L"
    using p len by (simp_all add: slice_insert_at nth_insert_at)
  have stale: "keys n ! L \<le> keys n ! j" if "L \<le> j" "j < LeafNode_max_items c" for j
    using that n len by (simp add: full_leaf_def sorted_less_nth_le)
  have mR: "length (keys m) = LeafNode_max_items c" "length (vals m) = LeafNode_max_items c"
    "take R (keys m) = drop L (keys n)" "take R (vals m) = drop L (vals n)"
    "\<And>j. R < j \<Longrightarrow> j < LeafNode_max_items c \<Longrightarrow> open_gap (p - L) k R (keys m) ! j \<in> junk_words c"
    using m R by (simp_all add: copied_leaf_def R_def nth_open_gap_stale)
  show ?thesis
    using n m L p R len stale slices mR half
    unfolding leaf_split_result_def full_leaf_live [OF n] p_def [symmetric] Let_def
    by (simp add: full_leaf_def copied_leaf_def Suc_le_eq)
qed

text \<open>The statements of the code up to the choice of the side.\<close>

lemma split_leaf_unfold:
  assumes h: "heap t a = Some n" "a \<noteq> next_addr t" and n: "full_leaf c n k"
    and L: "L = LeafNode_max_items c div 2" "0 < L" "L < LeafNode_max_items c"
  shows "\<exists>m. copied_leaf c n L m \<and> Tree_split_leaf_node c t (Some a) k v =
     bindR (if k < keys n ! L
            then bindR (Node_index (n\<lparr>nsize := L, right_sibling := Some (next_addr t)\<rparr>) k) (\<lambda>i.
                 bindR (Node_insert_value (n\<lparr>nsize := L, right_sibling := Some (next_addr t)\<rparr>) i v k)
                   (\<lambda>n2. Inr (n2, m)))
            else bindR (Node_index m k) (\<lambda>i. bindR (Node_insert_value m i v k)
                   (\<lambda>m3. Inr (n\<lparr>nsize := L, right_sibling := Some (next_addr t)\<rparr>, m3))))
     (\<lambda>(n2, m3). bindR (node_key m3 0) (\<lambda>sep.
        Inr (Some (next_addr t), with_split c t a (n2\<lparr>high_key := sep\<rparr>) m3)))"
proof -
  obtain m1 m where copy: "Node_copy n (Node_ctor c (next_addr t) True (parent n)) L
        (LeafNode_max_items c - L) = Inr m1"
    and m: "m = m1\<lparr>high_key := high_key n, right_sibling := right_sibling n,
                     nsize := LeafNode_max_items c - L\<rparr>" "copied_leaf c n L m"
    using copy_leaf [OF n L(2,3), of "next_addr t"] by (auto simp: bindR_eq_Inr)
  have "keys m ! 0 = keys n ! L"
    using m(2) L n by (metis (no_types, lifting) copied_leaf_def full_leaf_def nth_drop nth_take
        add_0_right less_imp_le zero_less_diff)
  then have key0: "node_key m 0 = Inr (keys n ! L)"
    using m(2) L by (simp add: copied_leaf_def node_key_def arr_simps)
  have "Tree_split_leaf_node c t (Some a) k v =
     bindR (if k < keys n ! L
            then bindR (Node_index (n\<lparr>nsize := L, right_sibling := Some (next_addr t)\<rparr>) k) (\<lambda>i.
                 bindR (Node_insert_value (n\<lparr>nsize := L, right_sibling := Some (next_addr t)\<rparr>) i v k)
                   (\<lambda>n2. Inr (n2, m)))
            else bindR (Node_index m k) (\<lambda>i. bindR (Node_insert_value m i v k)
                   (\<lambda>m3. Inr (n\<lparr>nsize := L, right_sibling := Some (next_addr t)\<rparr>, m3))))
     (\<lambda>(n2, m3). bindR (node_key m3 0) (\<lambda>sep.
        Inr (Some (next_addr t), with_split c t a (n2\<lparr>high_key := sep\<rparr>) m3)))"
    using h copy key0
    unfolding Tree_split_leaf_node_def Tree_create_leaf_node_def Tree_create_node_def Let_def
      L(1) [symmetric]
    by (simp add: store_created_eq m(1) [symmetric] cong: if_cong)
  then show ?thesis using m(2) by blast
qed

lemma split_leaf_effect:
  assumes c: "config_ok c" and h: "heap t a = Some n" "a \<noteq> next_addr t"
    and ok: "leaf_ok c lo n" "nsize n = LeafNode_max_items c" and k: "k \<notin> set (live_keys n)"
  shows "\<exists>pos n' m'. Tree_split_leaf_node c t (Some a) k v
             = Inr (Some (next_addr t), with_split c t a n' m')
           \<and> leaf_split_result c (next_addr t) n k v pos n' m'"
proof -
  define M L p where "M = LeafNode_max_items c" and "L = M div 2" and "p = std_lower_bound (keys n) k"
  have n: "full_leaf c n k" using ok k by (rule full_leafI)
  have L: "0 < L" "L < M" "M < 65536"
    using c capacity_lt_65536(1) [of c] by (auto simp: M_def L_def config_ok_def)
  have len: "length (keys n) = M" "length (vals n) = M" "sorted_less (keys n)"
    using n by (simp_all add: full_leaf_def M_def)
  let ?n1 = "n\<lparr>nsize := L, right_sibling := Some (next_addr t)\<rparr>"
  obtain m where m: "copied_leaf c n L m" and split: "Tree_split_leaf_node c t (Some a) k v =
     bindR (if k < keys n ! L
            then bindR (Node_index ?n1 k) (\<lambda>i. bindR (Node_insert_value ?n1 i v k) (\<lambda>n2. Inr (n2, m)))
            else bindR (Node_index m k) (\<lambda>i. bindR (Node_insert_value m i v k) (\<lambda>m3. Inr (?n1, m3))))
     (\<lambda>(n2, m3). bindR (node_key m3 0) (\<lambda>sep.
        Inr (Some (next_addr t), with_split c t a (n2\<lparr>high_key := sep\<rparr>) m3)))"
    using split_leaf_unfold [OF h n, of L v] L by (auto simp: M_def L_def)
  have lenm: "length (keys m) = M" "length (vals m) = M" "nsize m = M - L" "live_keys m = drop L (keys n)"
    "keys m ! 0 = keys n ! L"
    using m L len by (auto simp: copied_leaf_def M_def)
      (metis add_0_right less_imp_le nth_drop nth_take zero_less_diff)
  show ?thesis
  proof (cases "k < keys n ! L")
    case True
    then have pL: "p \<le> L" using full_leaf_pos [OF n] L by (simp add: p_def M_def)
    have "Node_index ?n1 k = Inr p"
      using std_lb.lb_take [where xs = "keys n" and j = L and k = k] L len pL
      by (simp add: Node_index_def p_def)
    then have "Tree_split_leaf_node c t (Some a) k v = Inr (Some (next_addr t), with_split c t a
        (?n1\<lparr>keys := open_gap p k L (keys n), vals := open_gap p v L (vals n), nsize := Suc L,
             high_key := keys n ! L\<rparr>) m)"
      using split True pL L len lenm Node_insert_value_eq [of p ?n1 v k]
      by (simp add: node_key_def arr_simps)
    moreover have "leaf_split_result c (next_addr t) n k v (Suc L)
        (?n1\<lparr>keys := open_gap p k L (keys n), vals := open_gap p v L (vals n), nsize := Suc L,
             high_key := keys n ! L\<rparr>) m"
      using leaf_split_left [OF n m, of "next_addr t" v] pL L by (simp add: p_def M_def L_def)
    ultimately show ?thesis by blast
  next
    case False
    then have pL: "L < p" using full_leaf_pos [OF n] L by (simp add: p_def M_def)
    have p: "p \<le> M" using full_leaf_index_le [OF n] by (simp add: p_def M_def)
    have "Node_index m k = Inr (p - L)"
      using std_lb.lb_drop [where xs = "keys n" and j = L and k = k] len lenm pL L
      by (simp add: Node_index_def p_def)
    moreover have "open_gap (p - L) k (M - L) (keys m) ! 0 = keys n ! L"
      using pL L lenm len by (simp add: open_gap_def insert_at_def nth_append)
    ultimately have "Tree_split_leaf_node c t (Some a) k v = Inr (Some (next_addr t), with_split c t a
        (?n1\<lparr>high_key := keys n ! L\<rparr>) (m\<lparr>keys := open_gap (p - L) k (M - L) (keys m),
          vals := open_gap (p - L) v (M - L) (vals m), nsize := Suc (M - L)\<rparr>))"
      using split False pL p L lenm Node_insert_value_eq [of "p - L" m v k]
      by (simp add: node_key_def arr_simps)
    moreover have "leaf_split_result c (next_addr t) n k v L (?n1\<lparr>high_key := keys n ! L\<rparr>)
        (m\<lparr>keys := open_gap (p - L) k (M - L) (keys m), vals := open_gap (p - L) v (M - L) (vals m),
          nsize := Suc (M - L)\<rparr>)"
      using leaf_split_right [OF n m, of "next_addr t" v] pL L by (simp add: p_def M_def L_def)
    ultimately show ?thesis by blast
  qed
qed

section \<open>Setting parents\<close>

definition reparent :: "'l tree \<Rightarrow> addr set \<Rightarrow> ptr \<Rightarrow> 'l tree" where
  "reparent t S par = t\<lparr>heap := (\<lambda>b. if b \<in> S then map_option (\<lambda>n. n\<lparr>parent := par\<rparr>) (heap t b)
                                     else heap t b)\<rparr>"

lemma reparent_simps [simp]:
  "heap (reparent t S par) b = (if b \<in> S then map_option (\<lambda>n. n\<lparr>parent := par\<rparr>) (heap t b) else heap t b)"
  "latches (reparent t S par) = latches t" "next_addr (reparent t S par) = next_addr t"
  "root_node (reparent t S par) = root_node t" "height (reparent t S par) = height t"
  by (simp_all add: reparent_def)

lemma reparent_empty [simp]: "reparent t {} par = t"
  by (simp add: reparent_def)

lemma set_parent_effect:
  "heap t b \<noteq> None \<Longrightarrow> set_parent t (Some b) par = Inr (reparent t {b} par)"
  by (auto simp: set_parent_def reparent_def store_def fun_eq_iff)

lemma reparent_reparent: "reparent (reparent t S par) S' par = reparent t (S \<union> S') par"
  by (auto simp: reparent_def fun_eq_iff option.map_comp o_def)

lemma reparent_same:
  "(\<forall>n. heap t b = Some n \<longrightarrow> parent n = par) \<Longrightarrow> reparent t {b} par = t"
  by (cases "heap t b") (auto simp: reparent_def fun_eq_iff)

lemma set_parents_effect:
  "\<forall>b \<in> set bs. heap t b \<noteq> None \<Longrightarrow>
     set_parents t (map Some bs) par = Inr (reparent t (set bs) par)"
proof (induction bs arbitrary: t)
  case (Cons b bs)
  then show ?case by (simp add: set_parent_effect reparent_reparent)
qed simp

section \<open>Splitting an inner node\<close>

text \<open>The prefix of an inner node that a split copies into the new one, with its first separator.\<close>

lemma inner_copy:
  assumes "\<not> is_leaf n" "length (keys n) = M" "length (seps n) = Suc M"
    "length (keys m) = M" "length (seps m) = Suc M" "from + count = M"
  shows "\<exists>ks ss. bindR (Node_copy n m from count) (\<lambda>m1. node_set_separator m1 0 s)
      = Inr (m\<lparr>keys := ks, seps := ss\<rparr>)
    \<and> length ks = M \<and> length ss = Suc M \<and> take count ks = drop from (keys n)
    \<and> take (Suc count) ss = s # drop (Suc from) (seps n)"
proof (intro exI conjI)
  let ?ks = "drop from (keys n) @ drop count (keys m)"
  let ?ss = "s # drop (Suc from) (seps n) @ drop (Suc count) (seps m)"
  have "(take 1 (seps m) @ take count (drop (Suc from) (seps n)) @ drop (Suc count) (seps m))[0 := s] = ?ss"
    using assms by (cases "seps m") auto
  then show "bindR (Node_copy n m from count) (\<lambda>m1. node_set_separator m1 0 s)
      = Inr (m\<lparr>keys := ?ks, seps := ?ss\<rparr>)"
    using assms by (simp add: Node_copy_def node_set_separator_def arr_simps)
qed (use assms in auto)

definition inner_split_result ::
  "'l config \<Rightarrow> addr \<Rightarrow> node \<Rightarrow> key_type \<Rightarrow> ptr \<Rightarrow> node \<Rightarrow> node \<Rightarrow> bool" where
  "inner_split_result c new n k sp n' m' \<longleftrightarrow>
     (let p = std_lower_bound (live_keys n) k; L = InnerNode_max_keys c div 2;
          K = insert_at p k (live_keys n); C = insert_at (Suc p) sp (live_seps n)
      in inner_shape c n' \<and> inner_shape c m'
       \<and> live_keys n' = take L K \<and> live_seps n' = take (Suc L) C
       \<and> live_keys m' = drop (Suc L) K \<and> live_seps m' = drop (Suc L) C
       \<and> high_key n' = K ! L \<and> right_sibling n' = Some new \<and> parent n' = parent n
       \<and> high_key m' = high_key n \<and> right_sibling m' = right_sibling n \<and> parent m' = parent n)"

definition inner_split_key :: "'l config \<Rightarrow> node \<Rightarrow> key_type \<Rightarrow> key_type" where
  "inner_split_key c n k =
     insert_at (std_lower_bound (live_keys n) k) k (live_keys n) ! (InnerNode_max_keys c div 2)"

text \<open>The situation in which the trees split an inner node, and the memory of its sibling.\<close>

definition full_inner :: "nat \<Rightarrow> node \<Rightarrow> key_type \<Rightarrow> bool" where
  "full_inner M n k \<longleftrightarrow> \<not> is_leaf n \<and> length (keys n) = M \<and> length (seps n) = Suc M \<and> nsize n = M
     \<and> sorted_less (keys n) \<and> k \<notin> set (keys n) \<and> 2 \<le> M \<and> M < 65536"

definition blank_inner :: "nat \<Rightarrow> node \<Rightarrow> bool" where
  "blank_inner M m \<longleftrightarrow> \<not> is_leaf m \<and> length (keys m) = M \<and> length (seps m) = Suc M"

lemma full_inner_pos:
  "full_inner M n k \<Longrightarrow> j < M \<Longrightarrow> k < keys n ! j \<longleftrightarrow> std_lower_bound (keys n) k \<le> j"
  using std_lb.lb_gt_iff [where xs = "keys n" and j = j and k = k] by (simp add: full_inner_def)

lemma full_inner_index_le: "full_inner M n k \<Longrightarrow> std_lower_bound (keys n) k \<le> M"
  using std_lb.lb_le [of "keys n" k] by (simp add: full_inner_def)

lemma full_inner_live: "full_inner M n k \<Longrightarrow> live_keys n = keys n" "full_inner M n k \<Longrightarrow> live_seps n = seps n"
  by (simp_all add: full_inner_def)

text \<open>The post-condition the three branches share: \<open>n2\<close> and \<open>m5\<close> hold the two halves.\<close>

definition halves :: "nat \<Rightarrow> node \<Rightarrow> key_type \<Rightarrow> ptr \<Rightarrow> node \<Rightarrow> node \<Rightarrow> bool" where
  "halves M n k sp n2 m5 \<longleftrightarrow>
     (let p = std_lower_bound (keys n) k; L = M div 2;
          K = insert_at p k (keys n); C = insert_at (Suc p) sp (seps n)
      in blank_inner M n2 \<and> blank_inner M m5 \<and> nsize n2 = L \<and> nsize m5 = M - L
       \<and> take L (keys n2) = take L K \<and> take (Suc L) (seps n2) = take (Suc L) C
       \<and> take (M - L) (keys m5) = drop (Suc L) K \<and> take (Suc (M - L)) (seps m5) = drop (Suc L) C)"

lemma split_inner_left:
  assumes n: "full_inner M n k" and m: "blank_inner M m" and c: "M = InnerNode_max_keys c"
    and p: "std_lower_bound (keys n) k < M div 2"
  shows "\<exists>n2 ks ss. split_inner_parts c n m k sp
      = Inr (n2, m\<lparr>keys := ks, seps := ss, nsize := M - M div 2\<rparr>, keys n ! (M div 2 - 1), True)
    \<and> halves M n k sp n2 (m\<lparr>keys := ks, seps := ss, nsize := M - M div 2\<rparr>) \<and> parent n2 = parent n"
proof -
  define L p where "L = M div 2" and "p = std_lower_bound (keys n) k"
  have pl: "p < L" "L < M" using assms by (auto simp: L_def p_def full_inner_def)
  have len: "\<not> is_leaf n" "length (keys n) = M" "length (seps n) = Suc M" "sorted_less (keys n)" "M < 65536"
    using n by (simp_all add: full_inner_def)
  have lenm: "\<not> is_leaf m" "length (keys m) = M" "length (seps m) = Suc M"
    using m by (simp_all add: blank_inner_def)
  obtain ks ss where cp: "bindR (Node_copy n m L (M - L)) (\<lambda>m1. node_set_separator m1 0 (seps n ! L))
      = Inr (m\<lparr>keys := ks, seps := ss\<rparr>)" "length ks = M" "length ss = Suc M"
    "take (M - L) ks = drop L (keys n)" "take (Suc (M - L)) ss = drop L (seps n)"
    using inner_copy [of n M m L "M - L" "seps n ! L"] len lenm pl by (auto simp: Cons_nth_drop_Suc)
  define n2 where "n2 = n\<lparr>keys := open_gap p k (L - 1) (keys n),
    seps := open_gap (Suc p) sp L (seps n), nsize := L\<rparr>"
  have "k < keys n ! (L - Suc 0)" using full_inner_pos [OF n] pl by (simp add: p_def [symmetric])
  moreover have "Node_index (n\<lparr>nsize := L - 1\<rparr>) k = Inr p"
    using pl len std_lb.lb_take [where xs = "keys n" and j = "L - 1" and k = k]
    by (simp add: Node_index_def p_def)
  moreover have "Node_insert_separator (n\<lparr>nsize := L - 1\<rparr>) p sp k = Inr n2"
    using Node_insert_separator_eq [of p "n\<lparr>nsize := L - 1\<rparr>" sp k] pl len by (simp add: n2_def)
  ultimately have "split_inner_parts c n m k sp
      = Inr (n2, m\<lparr>keys := ks, seps := ss, nsize := M - L\<rparr>, keys n ! (L - 1), True)"
    using cp(1) pl len
    by (simp add: split_inner_parts_def Let_def c [symmetric] L_def [symmetric] node_key_def
        node_separator_def arr_simps)
  moreover have "take L (insert_at p k (keys n)) = insert_at p k (take (L - 1) (keys n))"
    "take (Suc L) (insert_at (Suc p) sp (seps n)) = insert_at (Suc p) sp (take L (seps n))"
    "drop (Suc L) (insert_at p k (keys n)) = drop L (keys n)"
    "drop (Suc L) (insert_at (Suc p) sp (seps n)) = drop L (seps n)"
    using pl len by (simp_all add: slice_insert_at)
  moreover have "take L (keys n2) = insert_at p k (take (L - 1) (keys n))"
    "take (Suc L) (seps n2) = insert_at (Suc p) sp (take L (seps n))"
    "length (keys n2) = M" "length (seps n2) = Suc M"
    using take_open_gap [of "L - 1" "keys n" p k] pl len by (simp_all add: n2_def)
  ultimately show ?thesis
    using len lenm cp unfolding L_def [symmetric]
    by (auto simp: halves_def Let_def blank_inner_def L_def [symmetric] p_def [symmetric] n2_def)
qed

lemma split_inner_middle:
  assumes n: "full_inner M n k" and m: "blank_inner M m" and c: "M = InnerNode_max_keys c"
    and p: "std_lower_bound (keys n) k = M div 2"
  shows "\<exists>n2 ks ss. split_inner_parts c n m k sp
      = Inr (n2, m\<lparr>keys := ks, seps := ss, nsize := M - M div 2\<rparr>, k, False)
    \<and> halves M n k sp n2 (m\<lparr>keys := ks, seps := ss, nsize := M - M div 2\<rparr>) \<and> parent n2 = parent n"
proof -
  define L where "L = M div 2"
  have L: "0 < L" "L < M" "std_lower_bound (keys n) k = L" using assms by (auto simp: L_def full_inner_def)
  have len: "\<not> is_leaf n" "length (keys n) = M" "length (seps n) = Suc M"
    using n by (simp_all add: full_inner_def)
  have lenm: "\<not> is_leaf m" "length (keys m) = M" "length (seps m) = Suc M"
    using m by (simp_all add: blank_inner_def)
  obtain ks ss where cp: "bindR (Node_copy n m L (M - L)) (\<lambda>m1. node_set_separator m1 0 sp)
      = Inr (m\<lparr>keys := ks, seps := ss\<rparr>)" "length ks = M" "length ss = Suc M"
    "take (M - L) ks = drop L (keys n)" "take (Suc (M - L)) ss = sp # drop (Suc L) (seps n)"
    using inner_copy [of n M m L "M - L" sp] len lenm L by auto
  have "\<not> k < keys n ! (L - Suc 0)" "k < keys n ! L" using full_inner_pos [OF n] L by auto
  then have "split_inner_parts c n m k sp
      = Inr (n\<lparr>nsize := L\<rparr>, m\<lparr>keys := ks, seps := ss, nsize := M - L\<rparr>, k, False)"
    using cp(1) L len
    by (simp add: split_inner_parts_def Let_def c [symmetric] L_def [symmetric] node_key_def arr_simps)
  moreover have "take L (insert_at L k (keys n)) = take L (keys n)"
    "take (Suc L) (insert_at (Suc L) sp (seps n)) = take (Suc L) (seps n)"
    "drop (Suc L) (insert_at L k (keys n)) = drop L (keys n)"
    "drop (Suc L) (insert_at (Suc L) sp (seps n)) = sp # drop (Suc L) (seps n)"
    using L len by (simp_all add: slice_insert_at insert_at_0)
  ultimately show ?thesis
    using len lenm cp L(3) unfolding L_def [symmetric]
    by (intro exI [of _ "n\<lparr>nsize := L\<rparr>"] exI [of _ ks] exI [of _ ss])
      (simp add: halves_def Let_def blank_inner_def L_def [symmetric])
qed

lemma split_inner_right:
  assumes n: "full_inner M n k" and m: "blank_inner M m" and c: "M = InnerNode_max_keys c"
    and p: "M div 2 < std_lower_bound (keys n) k"
  shows "\<exists>n2 ks ss. split_inner_parts c n m k sp
      = Inr (n2, m\<lparr>keys := ks, seps := ss, nsize := M - M div 2\<rparr>, keys n ! (M div 2), False)
    \<and> halves M n k sp n2 (m\<lparr>keys := ks, seps := ss, nsize := M - M div 2\<rparr>) \<and> parent n2 = parent n"
proof -
  define L p R where "L = M div 2" and "p = std_lower_bound (keys n) k" and "R = M - L - 1"
  have L: "0 < L" "L < M" "L < p" "p \<le> M" and LR: "M - L = Suc R" and RM: "R < M"
    using assms full_inner_index_le [OF n] by (auto simp: L_def p_def R_def full_inner_def)
  have len: "\<not> is_leaf n" "length (keys n) = M" "length (seps n) = Suc M" "sorted_less (keys n)" "M < 65536"
    using n by (simp_all add: full_inner_def)
  have lenm: "\<not> is_leaf m" "length (keys m) = M" "length (seps m) = Suc M"
    using m by (simp_all add: blank_inner_def)
  obtain ks ss where cp: "bindR (Node_copy n m (L + 1) R) (\<lambda>m1. node_set_separator m1 0 (seps n ! (L + 1)))
      = Inr (m\<lparr>keys := ks, seps := ss\<rparr>)" "length ks = M" "length ss = Suc M"
    "take R ks = drop (L + 1) (keys n)" "take (Suc R) ss = drop (L + 1) (seps n)"
    using inner_copy [of n M m "L + 1" R "seps n ! (L + 1)"] len lenm L
    by (auto simp: R_def Cons_nth_drop_Suc)
  let ?m3 = "m\<lparr>keys := ks, seps := ss, nsize := R\<rparr>"
  define ks' ss' where "ks' = open_gap (p - (L + 1)) k R ks"
    and "ss' = open_gap (Suc (p - (L + 1))) sp (Suc R) ss"
  have "\<not> k < keys n ! (L - Suc 0)" "\<not> k < keys n ! L" using full_inner_pos [OF n] L by (auto simp: p_def)
  moreover have "Node_index ?m3 k = Inr (p - (L + 1))"
    using L len cp std_lb.lb_drop [where xs = "keys n" and j = "L + 1" and k = k]
    by (simp add: Node_index_def p_def R_def)
  moreover have "Node_insert_separator ?m3 (p - (L + 1)) sp k
      = Inr (m\<lparr>keys := ks', seps := ss', nsize := M - L\<rparr>)"
    using Node_insert_separator_eq [of "p - (L + 1)" ?m3 sp k] L len cp
    by (simp add: ks'_def ss'_def R_def)
  ultimately have "split_inner_parts c n m k sp
      = Inr (n\<lparr>nsize := L\<rparr>, m\<lparr>keys := ks', seps := ss', nsize := M - L\<rparr>, keys n ! L, False)"
    using cp(1) L len
    by (simp add: split_inner_parts_def Let_def c [symmetric] L_def [symmetric] node_key_def
        node_separator_def arr_simps R_def)
  moreover have "take L (insert_at p k (keys n)) = take L (keys n)"
    "take (Suc L) (insert_at (Suc p) sp (seps n)) = take (Suc L) (seps n)"
    "drop (Suc L) (insert_at p k (keys n)) = insert_at (p - (L + 1)) k (drop (L + 1) (keys n))"
    "drop (Suc L) (insert_at (Suc p) sp (seps n)) = insert_at (p - L) sp (drop (L + 1) (seps n))"
    using L len by (simp_all add: slice_insert_at)
  moreover have "take (M - L) ks' = insert_at (p - (L + 1)) k (drop (L + 1) (keys n))"
    "take (Suc (M - L)) ss' = insert_at (p - L) sp (drop (L + 1) (seps n))"
    "length ks' = M" "length ss' = Suc M"
    using cp L Suc_diff_Suc [of L p] RM unfolding LR by (simp_all add: ks'_def ss'_def)
  ultimately show ?thesis
    using len lenm unfolding L_def [symmetric]
    by (intro exI [of _ "n\<lparr>nsize := L\<rparr>"] exI [of _ ks'] exI [of _ ss'])
      (simp add: halves_def Let_def blank_inner_def L_def [symmetric] p_def [symmetric])
qed

text \<open>The three branches of the code compute the same two halves.\<close>

lemma split_inner_parts_effect:
  assumes n: "full_inner M n k" and m: "blank_inner M m" and c: "M = InnerNode_max_keys c"
  shows "\<exists>n2 ks ss b. split_inner_parts c n m k sp
      = Inr (n2, m\<lparr>keys := ks, seps := ss, nsize := M - M div 2\<rparr>, inner_split_key c n k, b)
    \<and> halves M n k sp n2 (m\<lparr>keys := ks, seps := ss, nsize := M - M div 2\<rparr>) \<and> parent n2 = parent n"
proof -
  let ?p = "std_lower_bound (keys n) k"
  have p: "?p \<le> M" and len: "length (keys n) = M" "2 \<le> M"
    using full_inner_index_le [OF n] n by (auto simp: full_inner_def)
  consider "?p < M div 2" | "?p = M div 2" | "M div 2 < ?p" by linarith
  then show ?thesis
  proof cases
    case 1
    then have "inner_split_key c n k = keys n ! (M div 2 - 1)"
      using p len by (simp add: inner_split_key_def full_inner_live [OF n] nth_insert_at flip: c)
    then show ?thesis using split_inner_left [OF n m c 1, of sp] by auto
  next
    case 2
    then have "inner_split_key c n k = k"
      using p len by (simp add: inner_split_key_def full_inner_live [OF n] nth_insert_at flip: c)
    then show ?thesis using split_inner_middle [OF n m c 2, of sp] by auto
  next
    case 3
    then have "inner_split_key c n k = keys n ! (M div 2)"
      using p len by (simp add: inner_split_key_def full_inner_live [OF n] nth_insert_at flip: c)
    then show ?thesis using split_inner_right [OF n m c 3, of sp] by auto
  qed
qed

lemma halves_split_result:
  assumes n: "full_inner M n k" and c: "M = InnerNode_max_keys c" and h: "halves M n k sp n2 m5"
    and par: "parent n2 = parent n" and m: "high_key m5 = high_key n" "parent m5 = parent n"
  shows "inner_split_result c new n k sp
    (n2\<lparr>right_sibling := Some new, high_key := inner_split_key c n k\<rparr>) (m5\<lparr>right_sibling := right_sibling n\<rparr>)"
  using h par m n
  by (simp add: inner_split_result_def halves_def Let_def inner_split_key_def full_inner_live [OF n]
      inner_shape_def blank_inner_def full_inner_def flip: c)

text \<open>
  The whole operation: the separators of the new node get it as their parent. The separator being
  inserted already points to the node it was inserted under (its left neighbour's parent), so the
  assignment of the first branch changes nothing.
\<close>

lemma split_inner_effect:
  assumes c: "config_ok c" and h: "heap t a = Some n" "a \<noteq> next_addr t"
    and n: "inner_shape c n" "nsize n = InnerNode_max_keys c" "sorted_less (live_keys n)"
      "k \<notin> set (live_keys n)"
    and kids: "live_seps n = map Some cs" "\<forall>b \<in> set cs. heap t b \<noteq> None"
    and s: "heap t s = Some ns" "parent ns = Some a" "s \<noteq> a" "s \<noteq> next_addr t"
  shows "\<exists>n' m' bs. Tree_split_inner_node c t (Some a) k (Some s)
      = Inr ((Some (next_addr t), inner_split_key c n k),
             reparent (with_split c t a n' m') (set bs) (Some (next_addr t)))
    \<and> inner_split_result c (next_addr t) n k (Some s) n' m' \<and> live_seps m' = map Some bs"
proof -
  define new where "new = next_addr t"
  define m where "m = (Node_ctor c new False (parent n))\<lparr>high_key := high_key n\<rparr>"
  have fi: "full_inner (InnerNode_max_keys c) n k"
    using c n capacity_lt_65536(2) [of c] by (simp add: full_inner_def inner_shape_def config_ok_def)
  moreover have "blank_inner (InnerNode_max_keys c) m" by (simp add: blank_inner_def m_def)
  ultimately obtain n2 m5 b where parts: "split_inner_parts c n m k (Some s) = Inr (n2, m5, inner_split_key c n k, b)"
    and hv: "halves (InnerNode_max_keys c) n k (Some s) n2 m5" "parent n2 = parent n"
    and m5: "high_key m5 = high_key n" "parent m5 = parent n"
    using split_inner_parts_effect [of "InnerNode_max_keys c" n k m c "Some s"] by (auto simp: m_def)
  let ?n' = "n2\<lparr>right_sibling := Some new, high_key := inner_split_key c n k\<rparr>"
  let ?m' = "m5\<lparr>right_sibling := right_sibling n\<rparr>"
  let ?t2 = "with_split c t a ?n' ?m'"
  have res': "inner_split_result c new n k (Some s) ?n' ?m'"
    by (rule halves_split_result [OF fi refl hv m5])
  define p where "p = std_lower_bound (live_keys n) k"
  define bs where "bs = drop (Suc (InnerNode_max_keys c div 2)) (insert_at (Suc p) s cs)"
  have live: "live_seps ?m' = map Some bs"
    using res' kids by (simp add: inner_split_result_def Let_def bs_def p_def map_insert_at flip: drop_map)
  have bs: "\<forall>b \<in> set bs. heap ?t2 b \<noteq> None"
    using kids(2) s(1) h(1) by (auto simp: bs_def dest!: in_set_dropD)
  have sz: "nsize ?m' < length (seps ?m')"
    using res' by (simp add: inner_split_result_def Let_def inner_shape_def)
  have left: "set_parent ?t2 (Some s) (Some a) = Inr ?t2"
    using s h by (simp add: set_parent_effect reparent_same)
  have "Tree_split_inner_node c t (Some a) k (Some s)
      = Inr ((Some new, inner_split_key c n k), reparent ?t2 (set bs) (Some new))"
    using h parts left sz live set_parents_effect [OF bs]
    unfolding Tree_split_inner_node_def Tree_create_inner_node_def Tree_create_node_def Let_def
      m_def new_def
    by (simp add: store_created_eq)
  then show ?thesis using res' live unfolding new_def by blast
qed

section \<open>A new root\<close>

definition with_new_root :: "'l config \<Rightarrow> 'l tree \<Rightarrow> node \<Rightarrow> 'l tree" where
  "with_new_root c t r = t\<lparr>heap := (heap t)(next_addr t \<mapsto> r),
     latches := (latches t)(next_addr t := latch_init c), next_addr := Suc (next_addr t),
     root_node := Some (next_addr t), height := (height t + 1) mod 2 ^ 16\<rparr>"

lemma with_new_root_simps [simp]:
  "heap (with_new_root c t r) = (heap t)(next_addr t \<mapsto> r)"
  "latches (with_new_root c t r) = (latches t)(next_addr t := latch_init c)"
  "next_addr (with_new_root c t r) = Suc (next_addr t)"
  "root_node (with_new_root c t r) = Some (next_addr t)"
  "height (with_new_root c t r) = (height t + 1) mod 2 ^ 16"
  by (simp_all add: with_new_root_def)

lemma create_new_root_effect:
  assumes c: "config_ok c" and l: "heap t l \<noteq> None" "l \<noteq> next_addr t"
    and r: "heap t r \<noteq> None" "r \<noteq> next_addr t"
  shows "\<exists>n. Tree_create_new_root c t (Some l) (Some r) k
      = Inr (reparent (with_new_root c t n) {l, r} (Some (next_addr t)))
    \<and> inner_shape c n \<and> live_keys n = [k] \<and> live_seps n = [Some l, Some r]
    \<and> high_key n = max_key \<and> right_sibling n = None \<and> parent n = None"
proof -
  define new where "new = next_addr t"
  define M where "M = InnerNode_max_keys c"
  define r0 where "r0 = Node_ctor c new False None"
  have M: "2 \<le> M" "M < 65536" using c capacity_lt_65536(2) [of c] by (simp_all add: M_def config_ok_def)
  have r0: "length (keys r0) = M" "length (seps r0) = Suc M" "nsize r0 = 0" "\<not> is_leaf r0"
    by (simp_all add: r0_def M_def)
  define r1 where "r1 = r0\<lparr>seps := (seps r0)[0 := Some l]\<rparr>"
  define r3 where "r3 = r1\<lparr>keys := (keys r0)[0 := k], seps := (seps r0)[0 := Some l, 1 := Some r], nsize := 1\<rparr>"
  have sep: "node_set_separator r0 0 (Some l) = Inr r1"
    using r0 by (simp add: node_set_separator_def arr_simps r1_def)
  have ins: "Node_insert_separator r1 0 (Some r) k = Inr r3"
    using r0 M by (simp add: Node_insert_separator_def arr_simps r3_def r1_def inc_size_def)
  have "Tree_create_new_root c t (Some l) (Some r) k
      = Inr (reparent (with_new_root c t r3) {l, r} (Some new))"
    using l r sep ins
    by (auto simp: Tree_create_new_root_def Tree_create_inner_node_def Tree_create_node_def
        new_def [symmetric] r0_def [symmetric] set_parent_def deref_def store_def reparent_def
        with_new_root_def fun_eq_iff)
  moreover have "inner_shape c r3 \<and> live_keys r3 = [k] \<and> live_seps r3 = [Some l, Some r]
    \<and> high_key r3 = max_key \<and> right_sibling r3 = None \<and> parent r3 = None"
    using r0 M by (auto simp: inner_shape_def r3_def r1_def r0_def M_def [symmetric] take_Suc_conv_app_nth)
  ultimately show ?thesis by (auto simp: new_def)
qed


section \<open>Properties of the splits\<close>

text \<open>
  C21. Splitting a full leaf around a new entry: the two leaves together hold the old entries and the
  new one in order, neither is empty, the left one ends where the right one begins, the right one
  takes over the old bound and sibling, and no other node is written.
\<close>

theorem split_leaf_inserts_in_order:
  assumes "config_ok c" "heap t a = Some n" "a \<noteq> next_addr t" "leaf_ok c lo n"
    "nsize n = LeafNode_max_items c" "k \<notin> set (live_keys n)"
  shows "\<exists>n' m'. Tree_split_leaf_node c t (Some a) k v = Inr (Some (next_addr t), with_split c t a n' m')
    \<and> live_keys n' @ live_keys m' = insert_at (std_lower_bound (live_keys n) k) k (live_keys n)
    \<and> live_vals n' @ live_vals m' = insert_at (std_lower_bound (live_keys n) k) v (live_vals n)
    \<and> 0 < nsize n' \<and> 0 < nsize m' \<and> high_key n' = keys m' ! 0 \<and> right_sibling n' = Some (next_addr t)
    \<and> high_key m' = high_key n \<and> right_sibling m' = right_sibling n
    \<and> parent n' = parent n \<and> parent m' = parent n"
proof -
  obtain pos n' m' where split: "Tree_split_leaf_node c t (Some a) k v
      = Inr (Some (next_addr t), with_split c t a n' m')"
    and res: "leaf_split_result c (next_addr t) n k v pos n' m'"
    using split_leaf_effect [OF assms] by blast
  define K where "K = insert_at (std_lower_bound (live_keys n) k) k (live_keys n)"
  note R = res [unfolded leaf_split_result_def Let_def, folded K_def]
  have "keys m' ! 0 = live_keys m' ! 0" using R by simp
  also have "\<dots> = drop pos K ! 0" using R by metis
  also have "\<dots> = K ! pos" using R by simp
  finally have hk: "high_key n' = keys m' ! 0" using R by simp
  have apps: "live_keys n' @ live_keys m' = K"
    "live_vals n' @ live_vals m' = insert_at (std_lower_bound (live_keys n) k) v (live_vals n)"
    using R by (metis append_take_drop_id)+
  have "0 < nsize n'" "0 < nsize m'" "right_sibling n' = Some (next_addr t)" "high_key m' = high_key n"
    "right_sibling m' = right_sibling n" "parent n' = parent n" "parent m' = parent n" using R by auto
  then show ?thesis using split hk apps unfolding K_def by blast
qed

text \<open>A tree that is one full leaf of four entries.\<close>

definition four_config :: "latch config" where
  "four_config = \<lparr>header_size = 960, garbage_size = 0, latch_init = SpinlockedNodeBase False,
     alloc_junk = (\<lambda>a i. 0)\<rparr>"

definition four_leaf :: node where
  "four_leaf = \<lparr>is_leaf = True, high_key = max_key, right_sibling = None, parent = None, nsize = 4,
     keys = [1, 3, 5, 9], vals = [10, 30, 50, 90], seps = []\<rparr>"

definition four_tree :: "latch tree" where
  "four_tree = \<lparr>heap = [0 \<mapsto> four_leaf], latches = (\<lambda>_. SpinlockedNodeBase False), next_addr = 1,
     root_node = Some 0, height = 1\<rparr>"

lemma four_capacities: "LeafNode_max_items four_config = 4" "InnerNode_max_keys four_config = 3"
  by (simp_all add: LeafNode_max_items_def InnerNode_max_keys_def Config_node_size_def four_config_def)

lemma four_config_ok: "config_ok four_config"
  using four_capacities by (simp add: config_ok_def)

lemma four_leaf_ok: "leaf_ok four_config 0 four_leaf"
  by (auto simp: leaf_ok_def four_leaf_def four_capacities less_max_key) (simp_all add: max_key_def)

lemma four_tree_simps: "heap four_tree 0 = Some four_leaf" "next_addr four_tree = 1"
  by (simp_all add: four_tree_def)

theorem split_leaf_inserts_in_order_witness:
  "\<exists>n' m'. Tree_split_leaf_node four_config four_tree (Some 0) 4 40
       = Inr (Some 1, with_split four_config four_tree 0 n' m')
     \<and> live_keys n' @ live_keys m' = [1, 3, 4, 5, 9] \<and> live_vals n' @ live_vals m' = [10, 30, 40, 50, 90]
     \<and> 0 < nsize n' \<and> 0 < nsize m' \<and> high_key n' = keys m' ! 0"
proof -
  have n: "live_keys four_leaf = [1, 3, 5, 9]" "live_vals four_leaf = [10, 30, 50, 90]" "nsize four_leaf = 4"
    by (simp_all add: four_leaf_def)
  have lb: "std_lower_bound [1, 3, 5, 9] (4 :: key_type) = 2"
    by (simp add: std_lower_bound_def lower_bound_loop.simps)
  have pre: "0 \<noteq> next_addr four_tree" "nsize four_leaf = LeafNode_max_items four_config"
    "4 \<notin> set (live_keys four_leaf)" using n by (simp_all add: four_tree_simps four_capacities)
  have ins: "insert_at 2 4 [1, 3, 5, 9] = [1, 3, 4, 5, 9 :: key_type]"
    "insert_at 2 40 [10, 30, 50, 90] = [10, 30, 40, 50, 90 :: value_type]"
    by (simp_all add: insert_at_def)
  show ?thesis
    using split_leaf_inserts_in_order [OF four_config_ok four_tree_simps(1) pre(1) four_leaf_ok pre(2,3), of 40]
    unfolding four_tree_simps(2) n(1,2) lb ins by blast
qed

text \<open>
  C22. Splitting a full inner node around a new separator, in all three branches of the code: the
  keys of the two nodes and the key handed up between them are the old keys and the new one in order,
  the separators likewise, and every separator of the new node has it as its parent.
\<close>

theorem split_inner_inserts_in_order:
  assumes "config_ok c" "heap t a = Some n" "a \<noteq> next_addr t" "inner_shape c n"
    "nsize n = InnerNode_max_keys c" "sorted_less (live_keys n)" "k \<notin> set (live_keys n)"
    "live_seps n = map Some cs" "\<forall>b \<in> set cs. heap t b \<noteq> None"
    "heap t s = Some ns" "parent ns = Some a" "s \<noteq> a" "s \<noteq> next_addr t"
  shows "\<exists>n' m' bs up. Tree_split_inner_node c t (Some a) k (Some s)
      = Inr ((Some (next_addr t), up), reparent (with_split c t a n' m') (set bs) (Some (next_addr t)))
    \<and> live_keys n' @ up # live_keys m' = insert_at (std_lower_bound (live_keys n) k) k (live_keys n)
    \<and> live_seps n' @ live_seps m' = insert_at (Suc (std_lower_bound (live_keys n) k)) (Some s) (live_seps n)
    \<and> live_seps m' = map Some bs \<and> high_key n' = up \<and> high_key m' = high_key n
    \<and> right_sibling n' = Some (next_addr t) \<and> right_sibling m' = right_sibling n"
proof -
  obtain n' m' bs where split: "Tree_split_inner_node c t (Some a) k (Some s)
      = Inr ((Some (next_addr t), inner_split_key c n k),
             reparent (with_split c t a n' m') (set bs) (Some (next_addr t)))"
    and res: "inner_split_result c (next_addr t) n k (Some s) n' m'" and bs: "live_seps m' = map Some bs"
    using split_inner_effect [OF assms] by blast
  let ?L = "InnerNode_max_keys c div 2"
  define K where "K = insert_at (std_lower_bound (live_keys n) k) k (live_keys n)"
  define C where "C = insert_at (Suc (std_lower_bound (live_keys n) k)) (Some s) (live_seps n)"
  note R = res [unfolded inner_split_result_def Let_def, folded K_def C_def]
  have "length (live_keys n) = InnerNode_max_keys c" using assms(4,5) by (simp add: inner_shape_def)
  then have "?L < length K" by (simp add: K_def)
  then have "K = take ?L K @ K ! ?L # drop (Suc ?L) K" by (rule id_take_nth_drop)
  moreover have "live_keys n' = take ?L K" "live_keys m' = drop (Suc ?L) K" "high_key n' = K ! ?L" using R by blast+
  ultimately have keys: "live_keys n' @ high_key n' # live_keys m' = K" by (simp only:)
  have "live_seps n' = take (Suc ?L) C" "live_seps m' = drop (Suc ?L) C" using R by blast+
  then have seps: "live_seps n' @ live_seps m' = C" by (simp only: append_take_drop_id)
  have up: "inner_split_key c n k = high_key n'" using R by (simp add: inner_split_key_def K_def)
  have "high_key m' = high_key n" "right_sibling n' = Some (next_addr t)" "right_sibling m' = right_sibling n"
    using R by blast+
  then show ?thesis using split keys seps bs unfolding K_def C_def up by blast
qed

text \<open>A full inner node with three keys above five leaves, the last of which is not yet linked.\<close>

definition three_inner :: node where
  "three_inner = \<lparr>is_leaf = False, high_key = max_key, right_sibling = None, parent = None, nsize = 3,
     keys = [10, 20, 30], vals = [], seps = [Some 1, Some 2, Some 3, Some 4]\<rparr>"

definition three_tree :: "latch tree" where
  "three_tree = \<lparr>heap = (\<lambda>b. if b = 0 then Some three_inner
                             else if b < 6 then Some (four_leaf\<lparr>parent := Some 0\<rparr>) else None),
     latches = (\<lambda>_. SpinlockedNodeBase False), next_addr = 6, root_node = Some 0, height = 2\<rparr>"

theorem split_inner_inserts_in_order_witness:
  "\<exists>n' m' bs up. Tree_split_inner_node four_config three_tree (Some 0) 25 (Some 5)
      = Inr ((Some 6, up), reparent (with_split four_config three_tree 0 n' m') (set bs) (Some 6))
    \<and> live_keys n' @ up # live_keys m' = [10, 20, 25, 30] \<and> live_seps m' = map Some bs"
proof -
  have t: "heap three_tree 0 = Some three_inner" "next_addr three_tree = 6"
    "heap three_tree 5 = Some (four_leaf\<lparr>parent := Some 0\<rparr>)" "\<forall>b \<in> set [1, 2, 3, 4]. heap three_tree b \<noteq> None"
    by (auto simp: three_tree_def)
  have n: "live_keys three_inner = [10, 20, 30]" "live_seps three_inner = map Some [1, 2, 3, 4]"
    "nsize three_inner = 3" "inner_shape four_config three_inner"
    by (simp_all add: three_inner_def inner_shape_def four_capacities)
  have lb: "std_lower_bound [10, 20, 30] (25 :: key_type) = 2"
    by (simp add: std_lower_bound_def lower_bound_loop.simps)
  have ins: "insert_at 2 25 [10, 20, 30] = [10, 20, 25, 30 :: key_type]" by (simp add: insert_at_def)
  have pre: "0 \<noteq> next_addr three_tree" "nsize three_inner = InnerNode_max_keys four_config"
    "sorted_less (live_keys three_inner)" "25 \<notin> set (live_keys three_inner)" "5 \<noteq> next_addr three_tree"
    unfolding n(1) t(2) by (simp_all add: n(3) four_capacities)
  show ?thesis
    using split_inner_inserts_in_order [OF four_config_ok t(1) pre(1) n(4) pre(2-4) n(2) t(4,3) _ _ pre(5)]
    unfolding t(2) n(1) lb ins by simp blast
qed

end
