(* ===== verification/BLink_Invariant.thy ===== *)
theory BLink_Invariant
  imports BLink_Split
begin

text \<open>
  The invariant of a B-link tree and what every writing operation of \<^verbatim>\<open>Tree\<close> does to it.

  Each node covers an interval of keys: its inclusive lower end \<open>lo a\<close> is a ghost (the code does
  not store it), its exclusive upper end is the node's high key. The ghost \<open>lv a\<close> is the level,
  zero for leaves. The nodes of one level are linked from left to right, their intervals are
  disjoint, an inner node's children start at the keys of the node, the parent pointer of a node
  is the inner node whose interval holds the node's lower end. A node that was split off but whose
  separator is not yet in its parent is \<^emph>\<open>pending\<close>: it is reached through its left sibling only.
  The set \<open>P\<close> of the invariant holds the pending nodes, so that the steps of an insertion can
  be verified one at a time.
\<close>

section \<open>The invariant\<close>

type_synonym node_store = "addr \<Rightarrow> node option"

text \<open>Right links: a node ends where its right sibling begins; the last node of a level ends at
  the largest key.\<close>

definition chain_ok :: "(addr \<Rightarrow> key_type) \<Rightarrow> (addr \<Rightarrow> nat) \<Rightarrow> node_store \<Rightarrow> bool" where
  "chain_ok lo lv h \<longleftrightarrow> (\<forall>a n. h a = Some n \<longrightarrow> lo a < high_key n
     \<and> (case right_sibling n of None \<Rightarrow> high_key n = max_key
        | Some b \<Rightarrow> h b \<noteq> None \<and> lo b = high_key n \<and> lv b = lv a))"

definition disjoint_ok :: "(addr \<Rightarrow> key_type) \<Rightarrow> (addr \<Rightarrow> nat) \<Rightarrow> node_store \<Rightarrow> bool" where
  "disjoint_ok lo lv h \<longleftrightarrow> (\<forall>a b n m. h a = Some n \<longrightarrow> h b = Some m \<longrightarrow> a \<noteq> b \<longrightarrow> lv a = lv b \<longrightarrow>
     high_key n \<le> lo b \<or> high_key m \<le> lo a)"

definition inner_ok ::
  "'l config \<Rightarrow> (addr \<Rightarrow> key_type) \<Rightarrow> (addr \<Rightarrow> nat) \<Rightarrow> node_store \<Rightarrow> addr \<Rightarrow> node \<Rightarrow> bool" where
  "inner_ok c lo lv h a n \<longleftrightarrow> inner_shape c n
     \<and> (\<forall>s \<in> set (live_seps n). \<exists>b. s = Some b \<and> h b \<noteq> None \<and> Suc (lv b) = lv a)
     \<and> map (\<lambda>s. lo (the s)) (live_seps n) = lo a # live_keys n
     \<and> sorted_less (lo a # live_keys n @ [high_key n])"

definition content_ok ::
  "'l config \<Rightarrow> (addr \<Rightarrow> key_type) \<Rightarrow> (addr \<Rightarrow> nat) \<Rightarrow> node_store \<Rightarrow> addr \<Rightarrow> bool" where
  "content_ok c lo lv h r \<longleftrightarrow> (\<forall>a n. h a = Some n \<longrightarrow> (is_leaf n \<longleftrightarrow> lv a = 0) \<and> lv a \<le> lv r
     \<and> (if is_leaf n then leaf_ok c (lo a) n else inner_ok c lo lv h a n))"

definition parents_ok :: "(addr \<Rightarrow> key_type) \<Rightarrow> (addr \<Rightarrow> nat) \<Rightarrow> node_store \<Rightarrow> addr \<Rightarrow> bool" where
  "parents_ok lo lv h r \<longleftrightarrow> (\<forall>a n. h a = Some n \<longrightarrow>
     (if lv a < lv r
      then \<exists>q m. parent n = Some q \<and> h q = Some m \<and> lv q = Suc (lv a) \<and> lo q \<le> lo a \<and> lo a < high_key m
      else parent n = None))"

definition is_kid :: "node_store \<Rightarrow> addr \<Rightarrow> addr \<Rightarrow> bool" where
  "is_kid h q b \<longleftrightarrow> (\<exists>n. h q = Some n \<and> \<not> is_leaf n \<and> Some b \<in> set (live_seps n))"

definition linked_ok :: "(addr \<Rightarrow> nat) \<Rightarrow> node_store \<Rightarrow> addr \<Rightarrow> addr set \<Rightarrow> bool" where
  "linked_ok lv h r P \<longleftrightarrow> P \<subseteq> dom h \<and> r \<notin> P
     \<and> (\<forall>b \<in> P. \<forall>q. \<not> is_kid h q b)
     \<and> (\<forall>b \<in> dom h - P. if lv b = lv r then b = r else \<exists>q. is_kid h q b)"

text \<open>
  Splits leave both halves at least half full; only the root may hold less, and not even the root
  once it has been split and waits for its new parent.
\<close>

definition min_size :: "'l config \<Rightarrow> node \<Rightarrow> nat" where
  "min_size c n = (if is_leaf n then LeafNode_max_items c div 2 else InnerNode_max_keys c div 2)"

definition fill_ok :: "'l config \<Rightarrow> (addr \<Rightarrow> nat) \<Rightarrow> node_store \<Rightarrow> addr \<Rightarrow> addr set \<Rightarrow> bool" where
  "fill_ok c lv h r P \<longleftrightarrow> (\<forall>a n. h a = Some n \<longrightarrow> a \<noteq> r \<or> (\<exists>s \<in> P. lv s = lv r) \<longrightarrow> min_size c n \<le> nsize n)"

definition blink_inv ::
  "'l config \<Rightarrow> (addr \<Rightarrow> key_type) \<Rightarrow> (addr \<Rightarrow> nat) \<Rightarrow> addr set \<Rightarrow> 'l tree \<Rightarrow> addr \<Rightarrow> bool" where
  "blink_inv c lo lv P t r \<longleftrightarrow> root_node t = Some r \<and> heap t r \<noteq> None \<and> lo r = 0
     \<and> height t = Suc (lv r) \<and> height t < 2 ^ 16
     \<and> (\<forall>a. heap t a \<noteq> None \<longrightarrow> a < next_addr t)
     \<and> chain_ok lo lv (heap t) \<and> disjoint_ok lo lv (heap t) \<and> content_ok c lo lv (heap t) r
     \<and> parents_ok lo lv (heap t) r \<and> linked_ok lv (heap t) r P \<and> fill_ok c lv (heap t) r P"

definition tree_inv :: "'l config \<Rightarrow> 'l tree \<Rightarrow> bool" where
  "tree_inv c t \<longleftrightarrow> (\<exists>lo lv r. blink_inv c lo lv {} t r)"

section \<open>Reading the invariant\<close>

lemma invD:
  assumes "blink_inv c lo lv P t r"
  shows "root_node t = Some r" "heap t r \<noteq> None" "lo r = 0" "height t = Suc (lv r)"
    "height t < 2 ^ 16" "heap t a = Some n \<Longrightarrow> a < next_addr t" "heap t (next_addr t) = None"
    "chain_ok lo lv (heap t)" "disjoint_ok lo lv (heap t)" "content_ok c lo lv (heap t) r"
    "parents_ok lo lv (heap t) r" "linked_ok lv (heap t) r P" "fill_ok c lv (heap t) r P"
  using assms by (auto simp: blink_inv_def)

lemma chainD:
  assumes "chain_ok lo lv h" "h a = Some n"
  shows "lo a < high_key n"
    "right_sibling n = None \<Longrightarrow> high_key n = max_key"
    "right_sibling n = Some b \<Longrightarrow> h b \<noteq> None \<and> lo b = high_key n \<and> lv b = lv a"
  using assms(1) [unfolded chain_ok_def, rule_format, OF assms(2)] by (simp_all split: option.splits)

lemma contentD:
  assumes "content_ok c lo lv h r" "h a = Some n"
  shows "is_leaf n \<longleftrightarrow> lv a = 0" "lv a \<le> lv r"
    "is_leaf n \<Longrightarrow> leaf_ok c (lo a) n" "\<not> is_leaf n \<Longrightarrow> inner_ok c lo lv h a n"
  using assms unfolding content_ok_def by metis+

lemma disjointD:
  "disjoint_ok lo lv h \<Longrightarrow> h a = Some n \<Longrightarrow> h b = Some m \<Longrightarrow> lv a = lv b \<Longrightarrow> lo a < lo b
     \<Longrightarrow> lo b < high_key m \<Longrightarrow> high_key n \<le> lo b"
  unfolding disjoint_ok_def by (metis less_asym not_less order.strict_trans1)

text \<open>Nodes of one level whose intervals share a key are the same node.\<close>

lemma covering_unique:
  assumes "disjoint_ok lo lv h" "h a = Some n" "h b = Some m" "lv a = lv b"
    "lo a \<le> k" "k < high_key n" "lo b \<le> k" "k < high_key m"
  shows "a = b"
proof (rule ccontr)
  assume "a \<noteq> b"
  then have "high_key n \<le> lo b \<or> high_key m \<le> lo a"
    using assms(1-4) unfolding disjoint_ok_def by blast
  then show False using assms(5-8) by (meson leD order.strict_trans1)
qed

lemma same_lo_unique:
  "chain_ok lo lv h \<Longrightarrow> disjoint_ok lo lv h \<Longrightarrow> h a = Some n \<Longrightarrow> h b = Some m \<Longrightarrow> lv a = lv b
     \<Longrightarrow> lo a = lo b \<Longrightarrow> a = b"
  using covering_unique [of lo lv h a n b m "lo a"] chainD(1) [of lo lv h a n] chainD(1) [of lo lv h b m]
  by simp

lemma inner_okD:
  assumes "inner_ok c lo lv h a n"
  shows "inner_shape c n" "sorted_less (live_keys n)" "length (live_keys n) = nsize n"
    "length (live_seps n) = Suc (nsize n)"
    "Some b \<in> set (live_seps n) \<Longrightarrow> h b \<noteq> None \<and> Suc (lv b) = lv a"
    "None \<notin> set (live_seps n)"
    "j \<le> nsize n \<Longrightarrow> lo (the (seps n ! j)) = (lo a # live_keys n) ! j"
    "k \<in> set (lo a # live_keys n) \<Longrightarrow> lo a \<le> k \<and> k < high_key n"
proof -
  have map: "map (\<lambda>s. lo (the s)) (live_seps n) = lo a # live_keys n" and shape: "inner_shape c n"
    using assms by (simp_all add: inner_ok_def)
  then show "length (live_keys n) = nsize n" "length (live_seps n) = Suc (nsize n)" "inner_shape c n"
    by (auto simp: inner_shape_def)
  show "lo (the (seps n ! j)) = (lo a # live_keys n) ! j" if "j \<le> nsize n"
    using that map [symmetric] shape by (simp add: inner_shape_def)
  show "lo a \<le> k \<and> k < high_key n" if "k \<in> set (lo a # live_keys n)"
    using assms that by (auto simp: inner_ok_def sorted_wrt_append)
qed (use assms in \<open>auto simp: inner_ok_def sorted_wrt_append\<close>)

lemma kid_lo:
  assumes "inner_ok c lo lv h a n" "Some b \<in> set (live_seps n)"
  shows "lo b \<in> set (lo a # live_keys n)" "lo a \<le> lo b" "lo b < high_key n"
proof -
  have "lo b \<in> set (map (\<lambda>s. lo (the s)) (live_seps n))"
    using assms(2) by force
  then show mem: "lo b \<in> set (lo a # live_keys n)"
    using assms(1) unfolding inner_ok_def by metis
  show "lo a \<le> lo b" "lo b < high_key n" using inner_okD(8) [OF assms(1) mem] by simp_all
qed

text \<open>A child's interval lies inside its parent's.\<close>

lemma kid_high:
  assumes ch: "chain_ok lo lv h" and d: "disjoint_ok lo lv h" and cn: "content_ok c lo lv h r"
    and q: "h q = Some m" "\<not> is_leaf m" and b: "Some b \<in> set (live_seps m)" "h b = Some n"
  shows "high_key n \<le> high_key m"
proof (cases "right_sibling m")
  case None
  then show ?thesis using chainD(2) [OF ch q(1)] by simp
next
  case (Some q')
  have io: "inner_ok c lo lv h q m" using contentD(4) [OF cn] q by blast
  obtain m' where q': "h q' = Some m'" "lo q' = high_key m" "lv q' = lv q"
    using chainD(3) [OF ch q(1) Some] by blast
  then have nl: "\<not> is_leaf m'" using contentD(1) [OF cn] q by metis
  then have io': "inner_ok c lo lv h q' m'" using contentD(4) [OF cn] q' by blast
  obtain b' where b': "seps m' ! 0 = Some b'" "Some b' \<in> set (live_seps m')"
    using inner_okD(4,6) [OF io'] by (metis list.size(3) nth_mem nth_take option.exhaust zero_less_Suc)
  then obtain n' where n': "h b' = Some n'" "Suc (lv b') = lv q'" "lo b' = high_key m"
    using inner_okD(5) [OF io' b'(2)] inner_okD(7) [OF io', of 0] q' by auto
  have "lv b = lv b'" using inner_okD(5) [OF io b(1)] n' q' by simp
  then show ?thesis
    using disjointD [OF d b(2) n'(1)] kid_lo(3) [OF io b(1)] n'(3) chainD(1) [OF ch n'(1)] by simp
qed

text \<open>The parent pointer of a node that is not pending names the node that has it as a child.\<close>

lemma kid_parent:
  assumes i: "blink_inv c lo lv P t r" and q: "is_kid (heap t) q b" and b: "heap t b = Some n"
  shows "parent n = Some q" "lv b < lv r"
proof -
  note D = invD [OF i]
  obtain m where m: "heap t q = Some m" "\<not> is_leaf m" "Some b \<in> set (live_seps m)"
    using q by (auto simp: is_kid_def)
  have io: "inner_ok c lo lv (heap t) q m" using contentD(4) [OF D(10) m(1)] m(2) by blast
  have lv: "Suc (lv b) = lv q" using inner_okD(5) [OF io m(3)] by simp
  then show "lv b < lv r" using contentD(2) [OF D(10) m(1)] by simp
  then obtain q' m' where q': "parent n = Some q'" "heap t q' = Some m'" "lv q' = Suc (lv b)"
      "lo q' \<le> lo b" "lo b < high_key m'"
    using D(11) b unfolding parents_ok_def by metis
  have "q' = q"
    using covering_unique [OF D(9) q'(2) m(1), of "lo b"] q' lv kid_lo [OF io m(3)] by simp
  then show "parent n = Some q" using q' by simp
qed

lemma parent_high:
  assumes i: "blink_inv c lo lv P t r" and a: "heap t a = Some n" "a \<notin> P"
    and q: "parent n = Some q" "heap t q = Some m"
  shows "high_key n \<le> high_key m"
proof -
  note D = invD [OF i]
  have "\<not> lv a = lv r" using D(11) a(1) q(1) unfolding parents_ok_def
    by (metis less_irrefl option.discI)
  then obtain q' where "is_kid (heap t) q' a"
    using D(12) a unfolding linked_ok_def by (metis DiffI domI)
  moreover then have "q' = q" using kid_parent(1) [OF i _ a(1)] q by fastforce
  ultimately show ?thesis
    using kid_high [OF D(8,9,10) q(2) _ _ a(1)] q(2) by (auto simp: is_kid_def)
qed

section \<open>Splitting a node\<close>

text \<open>
  \<open>split_step\<close>: the node at \<open>a\<close> gives the part of its interval from \<open>s\<close> on to a new node, and
  the nodes of \<open>S\<close> get the new node as their parent. Both the leaf and the inner split are such
  steps; the five parts of the invariant are shown for both at once.
\<close>

definition split_step :: "(addr \<Rightarrow> key_type) \<Rightarrow> node_store \<Rightarrow> addr \<Rightarrow> node \<Rightarrow> key_type \<Rightarrow> addr \<Rightarrow>
    node \<Rightarrow> node \<Rightarrow> addr set \<Rightarrow> node_store \<Rightarrow> bool" where
  "split_step lo h a n s new n' m' S h' \<longleftrightarrow> h a = Some n \<and> h new = None \<and> lo a < s \<and> s < high_key n
     \<and> is_leaf n' = is_leaf n \<and> high_key n' = s \<and> right_sibling n' = Some new \<and> parent n' = parent n
     \<and> is_leaf m' = is_leaf n \<and> high_key m' = high_key n \<and> right_sibling m' = right_sibling n
     \<and> parent m' = parent n \<and> S \<subseteq> dom h - {a} \<and> a \<noteq> new
     \<and> h' = (\<lambda>b. if b = a then Some n' else if b = new then Some m'
               else if b \<in> S then map_option (\<lambda>x. x\<lparr>parent := Some new\<rparr>) (h b) else h b)"

lemma split_stepD:
  assumes "split_step lo h a n s new n' m' S h'"
  shows "h a = Some n" "h new = None" "lo a < s" "s < high_key n" "a \<noteq> new"
    "high_key n' = s" "right_sibling n' = Some new" "parent n' = parent n"
    "high_key m' = high_key n" "right_sibling m' = right_sibling n" "parent m' = parent n"
    "is_leaf n' = is_leaf n" "is_leaf m' = is_leaf n"
    "h' a = Some n'" "h' new = Some m'" "dom h' = insert new (dom h)" "S \<subseteq> dom h - {a}"
  using assms by (auto simp: split_step_def split: if_splits)

lemma split_step_old:
  assumes "split_step lo h a n s new n' m' S h'" "h' b = Some x" "b \<noteq> a" "b \<noteq> new"
  obtains y where "h b = Some y" "x = (if b \<in> S then y\<lparr>parent := Some new\<rparr> else y)"
  using assms by (auto simp: split_step_def split: if_splits)

lemma split_step_cases [consumes 2]:
  assumes "split_step lo h a n s new n' m' S h'" "h' b = Some x"
  obtains (left) "b = a" "x = n'" | (right) "b = new" "x = m'"
  | (other) y where "b \<noteq> a" "b \<noteq> new" "h b = Some y" "x = (if b \<in> S then y\<lparr>parent := Some new\<rparr> else y)"
  using assms split_step_old [OF assms] split_stepD(14,15) [OF assms(1)] by (metis option.inject)

lemma chain_split:
  assumes st: "split_step lo h a n s new n' m' S h'" and ch: "chain_ok lo lv h"
  shows "chain_ok (lo(new := s)) (lv(new := lv a)) h'"
  unfolding chain_ok_def
proof (intro allI impI)
  note D = split_stepD [OF st]
  fix b x
  assume "h' b = Some x"
  with st show "(lo(new := s)) b < high_key x \<and> (case right_sibling x of None \<Rightarrow> high_key x = max_key
      | Some d \<Rightarrow> h' d \<noteq> None \<and> (lo(new := s)) d = high_key x \<and> (lv(new := lv a)) d = (lv(new := lv a)) b)"
  proof (cases rule: split_step_cases)
    case left
    then show ?thesis using D by simp
  next
    case right
    have "h d \<noteq> None \<Longrightarrow> h' d \<noteq> None \<and> d \<noteq> new" for d using D by (auto simp: domIff set_eq_iff)
    then show ?thesis using right D chainD [OF ch D(1)] by (auto split: option.splits)
  next
    case (other y)
    have "h d \<noteq> None \<Longrightarrow> h' d \<noteq> None \<and> d \<noteq> new" for d using D by (auto simp: domIff set_eq_iff)
    then show ?thesis using other chainD [OF ch other(3)] by (auto split: option.splits)
  qed
qed

lemma disjoint_split:
  assumes st: "split_step lo h a n s new n' m' S h'" and d: "disjoint_ok lo lv h"
  shows "disjoint_ok (lo(new := s)) (lv(new := lv a)) h'"
proof -
  note D = split_stepD [OF st]
  have old: "\<exists>y. h (if b = new then a else b) = Some y \<and> high_key x \<le> high_key y
      \<and> lo (if b = new then a else b) \<le> (lo(new := s)) b
      \<and> lv (if b = new then a else b) = (lv(new := lv a)) b" if "h' b = Some x" for b x
    using st that
  proof (cases rule: split_step_cases)
    case left
    then show ?thesis using D by (simp add: less_imp_le)
  next
    case right
    then show ?thesis using D by (simp add: less_imp_le)
  next
    case (other y)
    then show ?thesis by simp
  qed
  have sep: "high_key x \<le> (lo(new := s)) b' \<or> high_key x' \<le> (lo(new := s)) b"
    if x: "h' b = Some x" and x': "h' b' = Some x'" and ne: "b \<noteq> b'"
      and lv: "(lv(new := lv a)) b = (lv(new := lv a)) b'" for b b' x x'
  proof (cases "(if b = new then a else b) = (if b' = new then a else b')")
    case True
    then consider "b = a" "b' = new" | "b = new" "b' = a" using ne by (auto split: if_splits)
    then show ?thesis using x x' D by cases auto
  next
    case False
    let ?o = "\<lambda>b. if b = new then a else b"
    obtain y y' where y: "h (?o b) = Some y" "high_key x \<le> high_key y" "lo (?o b) \<le> (lo(new := s)) b"
        "lv (?o b) = (lv(new := lv a)) b"
      and y': "h (?o b') = Some y'" "high_key x' \<le> high_key y'" "lo (?o b') \<le> (lo(new := s)) b'"
        "lv (?o b') = (lv(new := lv a)) b'"
      using old [OF x] old [OF x'] by blast
    have "high_key y \<le> lo (?o b') \<or> high_key y' \<le> lo (?o b)"
      by (rule d [unfolded disjoint_ok_def, rule_format, OF y(1) y'(1) False]) (simp only: y(4) y'(4) lv)
    then show ?thesis using y(2,3) y'(2,3) by (meson order.trans)
  qed
  then show ?thesis unfolding disjoint_ok_def by blast
qed

lemma leaf_ok_parent [simp]: "leaf_ok c l (n\<lparr>parent := p\<rparr>) = leaf_ok c l n"
  by (simp add: leaf_ok_def)

lemma inner_ok_parent [simp]: "inner_ok c lo lv h a (n\<lparr>parent := p\<rparr>) = inner_ok c lo lv h a n"
  by (simp add: inner_ok_def inner_shape_def)

lemma inner_ok_mono:
  assumes "inner_ok c lo lv h a n" "lo' a = lo a" "lv' a = lv a"
    "\<And>b. h b \<noteq> None \<Longrightarrow> lo' b = lo b \<and> lv' b = lv b \<and> h' b \<noteq> None"
  shows "inner_ok c lo' lv' h' a n"
proof -
  note io = assms(1) [unfolded inner_ok_def]
  have kid: "\<exists>b. s = Some b \<and> h' b \<noteq> None \<and> lo' b = lo b \<and> Suc (lv' b) = lv' a"
    if "s \<in> set (live_seps n)" for s
    using io that assms(3,4) by metis
  then have "map (\<lambda>s. lo' (the s)) (live_seps n) = map (\<lambda>s. lo (the s)) (live_seps n)"
    unfolding map_eq_conv by (metis option.sel)
  then show ?thesis using io kid assms(2) unfolding inner_ok_def by metis
qed

lemma content_split:
  assumes st: "split_step lo h a n s new n' m' S h'" and cn: "content_ok c lo lv h r"
    and r: "r \<noteq> new"
    and leaf: "is_leaf n \<Longrightarrow> leaf_ok c (lo a) n' \<and> leaf_ok c s m'"
    and inner: "\<not> is_leaf n \<Longrightarrow> inner_ok c (lo(new := s)) (lv(new := lv a)) h' a n'
      \<and> inner_ok c (lo(new := s)) (lv(new := lv a)) h' new m'"
  shows "content_ok c (lo(new := s)) (lv(new := lv a)) h' r"
  unfolding content_ok_def
proof (intro allI impI)
  note D = split_stepD [OF st]
  fix b x
  assume "h' b = Some x"
  with st show "(is_leaf x \<longleftrightarrow> (lv(new := lv a)) b = 0) \<and> (lv(new := lv a)) b \<le> (lv(new := lv a)) r
    \<and> (if is_leaf x then leaf_ok c ((lo(new := s)) b) x
       else inner_ok c (lo(new := s)) (lv(new := lv a)) h' b x)"
  proof (cases rule: split_step_cases)
    case left
    then show ?thesis using D r contentD(1,2) [OF cn D(1)] leaf inner by simp
  next
    case right
    then show ?thesis using D r contentD(1,2) [OF cn D(1)] leaf inner by simp
  next
    case (other y)
    have "inner_ok c (lo(new := s)) (lv(new := lv a)) h' b y" if "\<not> is_leaf y"
      by (rule inner_ok_mono [OF contentD(4) [OF cn other(3) that]])
        (use other(2) D(2,16) in \<open>auto simp: domIff set_eq_iff\<close>)
    then show ?thesis using other r contentD [OF cn other(3)] by simp
  qed
qed

lemma parents_split:
  assumes st: "split_step lo h a n s new n' m' S h'" and cn: "content_ok c lo lv h r"
    and p: "parents_ok lo lv h r" and r: "r \<noteq> new"
    and high: "\<And>q m. parent n = Some q \<Longrightarrow> h q = Some m \<Longrightarrow> high_key n \<le> high_key m"
    and S: "\<And>b. b \<in> S \<Longrightarrow> Suc (lv b) = lv a \<and> s \<le> lo b \<and> lo b < high_key n"
    and nS: "\<And>b x. h b = Some x \<Longrightarrow> parent x = Some a \<Longrightarrow> b \<notin> S \<Longrightarrow> lo b < s"
  shows "parents_ok (lo(new := s)) (lv(new := lv a)) h' r"
proof -
  note D = split_stepD [OF st]
  let ?lo = "lo(new := s)" and ?lv = "lv(new := lv a)"
  let ?par = "\<lambda>b x. if ?lv b < ?lv r then \<exists>q m. parent x = Some q \<and> h' q = Some m
      \<and> ?lv q = Suc (?lv b) \<and> ?lo q \<le> ?lo b \<and> ?lo b < high_key m else parent x = None"
  have old: "\<exists>m'. h' q = Some m' \<and> high_key m' = high_key m" if "h q = Some m" "q \<noteq> a" for q m
    using that D(2) st by (auto simp: split_step_def)
  have keep: "?par b x" if b: "h b = Some x" "b \<notin> S" "b \<noteq> new" for b x
  proof (cases "lv b < lv r")
    case True
    then obtain q m where q: "parent x = Some q" "h q = Some m" "lv q = Suc (lv b)" "lo q \<le> lo b"
      "lo b < high_key m" using p b(1) unfolding parents_ok_def by metis
    have "q \<noteq> new" using q D(2) by auto
    moreover have "\<exists>m''. h' q = Some m'' \<and> lo b < high_key m''"
      using old [OF q(2)] D(14,6) nS [OF b(1) _ b(2)] q by (cases "q = a") auto
    ultimately show ?thesis using q b r True by auto
  next
    case False
    then show ?thesis using p b r unfolding parents_ok_def by (metis fun_upd_other)
  qed
  have "?par b x" if "h' b = Some x" for b x
    using st that
  proof (cases rule: split_step_cases)
    case left
    have "a \<notin> S" using D(17) by blast
    show ?thesis using keep [OF D(1) \<open>a \<notin> S\<close> D(5)] by (simp only: left D(8))
  next
    case right
    show ?thesis
    proof (cases "lv a < lv r")
      case True
      then obtain q m where q: "parent n = Some q" "h q = Some m" "lv q = Suc (lv a)" "lo q \<le> lo a"
        using p D(1) unfolding parents_ok_def by metis
      then have "q \<noteq> a" "q \<noteq> new" using D(2) by auto
      moreover obtain m'' where "h' q = Some m''" "high_key m'' = high_key m"
        using old [OF q(2) calculation(1)] by blast
      ultimately show ?thesis using q right D(3,4,11) r True high [OF q(1,2)] by auto
    next
      case False
      then show ?thesis using p D(1,11) right r unfolding parents_ok_def by (metis fun_upd_apply)
    qed
  next
    case (other y)
    show ?thesis
    proof (cases "b \<in> S")
      case True
      then have "lv b < lv r" using S [OF True] contentD(2) [OF cn D(1)] by simp
      then show ?thesis using other True S [OF True] D(9,15) r by auto
    next
      case False
      then have "x = y" using other(4) by simp
      then show ?thesis using keep [OF other(3) False other(2)] by (simp only:)
    qed
  qed
  then show ?thesis unfolding parents_ok_def by blast
qed

lemma split_is_kid:
  assumes st: "split_step lo h a n s new n' m' S h'" and q: "q \<noteq> a" "q \<noteq> new"
  shows "is_kid h' q b \<longleftrightarrow> is_kid h q b"
  using st q by (auto simp: is_kid_def split_step_def)

lemma linked_split:
  assumes st: "split_step lo h a n s new n' m' S h'" and cn: "content_ok c lo lv h r"
    and cn': "content_ok c (lo(new := s)) (lv(new := lv a)) h' r"
    and l: "linked_ok lv h r P" and r: "r \<noteq> new" "h r \<noteq> None"
    and kids: "\<And>b. is_kid h' a b \<or> is_kid h' new b \<longleftrightarrow> is_kid h a b \<or> b \<in> P"
  shows "linked_ok (lv(new := lv a)) h' r {new}"
proof -
  note D = split_stepD [OF st]
  have kid_dom: "h b \<noteq> None" if "is_kid h q b" for q b
    using that contentD(4) [OF cn] inner_okD(5) by (fastforce simp: is_kid_def)
  have P: "h b \<noteq> None" "\<not> is_kid h q b" if "b \<in> P" for b q
    using l that unfolding linked_ok_def by auto
  have "\<not> is_kid h' q new" for q
    using split_is_kid [OF st, of q new] kids [of new] kid_dom [of _ new] P(1) [of new] D(2) by metis
  moreover have "if (lv(new := lv a)) b = (lv(new := lv a)) r then b = r else \<exists>q. is_kid h' q b"
    if b: "b \<in> dom h' - {new}" for b
  proof (cases "b \<in> P")
    case True
    then obtain q where q: "q = a \<or> q = new" "is_kid h' q b" using kids by blast
    then obtain x where x: "h' q = Some x" "\<not> is_leaf x" "Some b \<in> set (live_seps x)"
      by (auto simp: is_kid_def)
    have "Suc ((lv(new := lv a)) b) = (lv(new := lv a)) q" "(lv(new := lv a)) q \<le> (lv(new := lv a)) r"
      using inner_okD(5) [OF contentD(4) [OF cn' x(1,2)] x(3)] contentD(2) [OF cn' x(1)] by simp_all
    then show ?thesis using q(2) by auto
  next
    case False
    then have "b \<in> dom h - P" "b \<noteq> new" using b D(16) by auto
    then have "if lv b = lv r then b = r else \<exists>q. is_kid h q b" using l unfolding linked_ok_def by blast
    moreover have "\<exists>q. is_kid h' q b" if "is_kid h q b" for q
      using that split_is_kid [OF st, of q b] kids [of b] D(2) by (metis is_kid_def option.discI)
    ultimately show ?thesis using \<open>b \<noteq> new\<close> r by (auto split: if_splits)
  qed
  ultimately show ?thesis using D(15) r unfolding linked_ok_def by auto
qed

lemma min_size_parent [simp]: "min_size c (n\<lparr>parent := p\<rparr>) = min_size c n"
  by (simp add: min_size_def)

lemma fill_split:
  assumes st: "split_step lo h a n s new n' m' S h'" and f: "fill_ok c lv h r P" and l: "linked_ok lv h r P"
    and a: "a \<notin> P" and r: "r \<noteq> new" and fill: "min_size c n' \<le> nsize n'" "min_size c m' \<le> nsize m'"
  shows "fill_ok c (lv(new := lv a)) h' r {new}"
  unfolding fill_ok_def
proof (intro allI impI)
  note D = split_stepD [OF st]
  fix b x
  assume x: "h' b = Some x" and b: "b \<noteq> r \<or> (\<exists>s \<in> {new}. (lv(new := lv a)) s = (lv(new := lv a)) r)"
  from st x show "min_size c x \<le> nsize x"
  proof (cases rule: split_step_cases)
    case (other y)
    have "lv a = lv r \<Longrightarrow> a = r" using l a D(1) unfolding linked_ok_def by (metis DiffI domI)
    then have "b \<noteq> r" using b other(1) r by auto
    then have "min_size c y \<le> nsize y" using f other(3) unfolding fill_ok_def by blast
    then show ?thesis using other(4) by simp
  qed (use fill in auto)
qed

text \<open>Both splits give the new tree the invariant, with the new node pending.\<close>

lemma inv_split:
  assumes i: "blink_inv c lo lv P t r" and a: "a \<notin> P"
    and st: "split_step lo (heap t) a n s (next_addr t) n' m' S (heap t')"
    and t': "root_node t' = root_node t" "height t' = height t" "next_addr t' = Suc (next_addr t)"
    and leaf: "is_leaf n \<Longrightarrow> leaf_ok c (lo a) n' \<and> leaf_ok c s m'"
    and inner: "\<not> is_leaf n \<Longrightarrow> inner_ok c (lo(next_addr t := s)) (lv(next_addr t := lv a)) (heap t') a n'
      \<and> inner_ok c (lo(next_addr t := s)) (lv(next_addr t := lv a)) (heap t') (next_addr t) m'"
    and S: "\<And>b. b \<in> S \<Longrightarrow> Suc (lv b) = lv a \<and> s \<le> lo b \<and> lo b < high_key n"
    and nS: "\<And>b x. heap t b = Some x \<Longrightarrow> parent x = Some a \<Longrightarrow> b \<notin> S \<Longrightarrow> lo b < s"
    and kids: "\<And>b. is_kid (heap t') a b \<or> is_kid (heap t') (next_addr t) b
      \<longleftrightarrow> is_kid (heap t) a b \<or> b \<in> P"
    and fill: "min_size c n' \<le> nsize n'" "min_size c m' \<le> nsize m'"
  shows "blink_inv c (lo(next_addr t := s)) (lv(next_addr t := lv a)) {next_addr t} t' r"
proof -
  note D = invD [OF i] and SD = split_stepD [OF st]
  have r: "r \<noteq> next_addr t" using D(2,7) by metis
  have cn: "content_ok c (lo(next_addr t := s)) (lv(next_addr t := lv a)) (heap t') r"
    using st D(10) r leaf inner by (rule content_split)
  have "parents_ok (lo(next_addr t := s)) (lv(next_addr t := lv a)) (heap t') r"
    by (rule parents_split [OF st D(10,11) r parent_high [OF i SD(1) a] S nS])
  moreover have "linked_ok (lv(next_addr t := lv a)) (heap t') r {next_addr t}"
    by (rule linked_split [OF st D(10) cn D(12) r D(2) kids])
  moreover have "fill_ok c (lv(next_addr t := lv a)) (heap t') r {next_addr t}"
    by (rule fill_split [OF st D(13,12) a r fill])
  moreover have "heap t' b \<noteq> None \<Longrightarrow> b < next_addr t'" for b
    using SD(16) D(6) t'(3) by (metis domIff insert_iff less_Suc_eq not_None_eq)
  moreover have "heap t' r \<noteq> None" using SD(16) D(2) by (metis domIff insertI2)
  ultimately show ?thesis
    using cn t' D r chain_split [OF st D(8)] disjoint_split [OF st D(9)] by (simp add: blink_inv_def)
qed

section \<open>Leaf operations\<close>

text \<open>Replacing a leaf by one with the same header and good content keeps everything.\<close>

definition same_header :: "node \<Rightarrow> node \<Rightarrow> bool" where
  "same_header n n' \<longleftrightarrow> is_leaf n' = is_leaf n \<and> high_key n' = high_key n
     \<and> right_sibling n' = right_sibling n \<and> parent n' = parent n"

lemma store_links:
  assumes "h a = Some n" "same_header n n'"
  shows "chain_ok lo lv h \<Longrightarrow> chain_ok lo lv (h(a \<mapsto> n'))"
    "disjoint_ok lo lv h \<Longrightarrow> disjoint_ok lo lv (h(a \<mapsto> n'))"
    "parents_ok lo lv h r \<Longrightarrow> parents_ok lo lv (h(a \<mapsto> n')) r"
proof -
  have old: "\<exists>y. h b = Some y \<and> same_header y x" if "(h(a \<mapsto> n')) b = Some x" for b x
    using that assms by (cases "b = a") (auto simp: same_header_def)
  have new: "\<exists>y. (h(a \<mapsto> n')) b = Some y \<and> high_key y = high_key x" if "h b = Some x" for b x
    using that assms by (cases "b = a") (auto simp: same_header_def)
  show "chain_ok lo lv (h(a \<mapsto> n'))" if "chain_ok lo lv h"
    unfolding chain_ok_def
  proof (intro allI impI)
    fix b x
    assume "(h(a \<mapsto> n')) b = Some x"
    then obtain y where y: "h b = Some y" "same_header y x" using old by blast
    then show "lo b < high_key x \<and> (case right_sibling x of None \<Rightarrow> high_key x = max_key
        | Some d \<Rightarrow> (h(a \<mapsto> n')) d \<noteq> None \<and> lo d = high_key x \<and> lv d = lv b)"
      using chainD [OF that y(1)] by (auto simp: same_header_def split: option.splits)
  qed
  show "disjoint_ok lo lv (h(a \<mapsto> n'))" if d: "disjoint_ok lo lv h"
    unfolding disjoint_ok_def
  proof (intro allI impI)
    fix b b' x x'
    assume x: "(h(a \<mapsto> n')) b = Some x" "(h(a \<mapsto> n')) b' = Some x'" and ne: "b \<noteq> b'" "lv b = lv b'"
    obtain y y' where "h b = Some y" "h b' = Some y'" "high_key y = high_key x" "high_key y' = high_key x'"
      using old [OF x(1)] old [OF x(2)] by (auto simp: same_header_def)
    then show "high_key x \<le> lo b' \<or> high_key x' \<le> lo b"
      using d [unfolded disjoint_ok_def, rule_format, of b y b' y'] ne by simp
  qed
  show "parents_ok lo lv (h(a \<mapsto> n')) r" if p: "parents_ok lo lv h r"
    unfolding parents_ok_def
  proof (intro allI impI)
    fix b x
    assume "(h(a \<mapsto> n')) b = Some x"
    then obtain y where y: "h b = Some y" "parent x = parent y" using old by (metis same_header_def)
    show "if lv b < lv r then \<exists>q m. parent x = Some q \<and> (h(a \<mapsto> n')) q = Some m \<and> lv q = Suc (lv b)
        \<and> lo q \<le> lo b \<and> lo b < high_key m else parent x = None"
      using p [unfolded parents_ok_def, rule_format, OF y(1)] new unfolding y(2) by metis
  qed
qed

lemma content_store:
  assumes cn: "content_ok c lo lv h r" and a: "h a = Some n" "same_header n n'"
    and leaf: "is_leaf n' \<Longrightarrow> leaf_ok c (lo a) n'"
    and inner: "\<not> is_leaf n' \<Longrightarrow> inner_ok c lo lv (h(a \<mapsto> n')) a n'"
  shows "content_ok c lo lv (h(a \<mapsto> n')) r"
  unfolding content_ok_def
proof (intro allI impI)
  fix b x
  assume x: "(h(a \<mapsto> n')) b = Some x"
  show "(is_leaf x \<longleftrightarrow> lv b = 0) \<and> lv b \<le> lv r
      \<and> (if is_leaf x then leaf_ok c (lo b) x else inner_ok c lo lv (h(a \<mapsto> n')) b x)"
  proof (cases "b = a")
    case True
    then show ?thesis using x leaf inner a contentD(1,2) [OF cn a(1)] by (simp add: same_header_def)
  next
    case False
    then have b: "h b = Some x" using x by simp
    have "inner_ok c lo lv (h(a \<mapsto> n')) b x" if "\<not> is_leaf x"
      by (rule inner_ok_mono [OF contentD(4) [OF cn b that]]) auto
    then show ?thesis using contentD [OF cn b] by simp
  qed
qed

lemma fill_store:
  assumes f: "fill_ok c lv h r P" and a: "h a = Some n" "same_header n n'" "nsize n \<le> nsize n'"
  shows "fill_ok c lv (h(a \<mapsto> n')) r P"
  using assms unfolding fill_ok_def same_header_def min_size_def by (auto split: if_splits) (metis order.trans)+

lemma fill_ok_less_pending: "fill_ok c lv h r P \<Longrightarrow> fill_ok c lv h r {}"
  unfolding fill_ok_def by blast

lemma inv_leaf_content:
  assumes i: "blink_inv c lo lv P t r" and a: "heap t a = Some n" "is_leaf n"
    and n': "same_header n n'" "leaf_ok c (lo a) n'" "nsize n \<le> nsize n'"
  shows "blink_inv c lo lv P (store t (Some a) n') r"
proof -
  note D = invD [OF i]
  have lf: "is_leaf n'" using a n' by (simp add: same_header_def)
  have "content_ok c lo lv ((heap t)(a \<mapsto> n')) r"
    using D(10) a(1) n'(1) by (rule content_store) (use n'(2) lf in auto)
  moreover have "is_kid ((heap t)(a \<mapsto> n')) = is_kid (heap t)"
    using a lf by (auto simp: is_kid_def fun_eq_iff)
  then have "linked_ok lv ((heap t)(a \<mapsto> n')) r P"
    using D(12) a(1) unfolding linked_ok_def by (simp add: insert_absorb domI)
  moreover have "fill_ok c lv ((heap t)(a \<mapsto> n')) r P"
    using fill_store [OF D(13) a(1) n'(1,3)] .
  ultimately show ?thesis
    using D a(1) store_links [where h = "heap t", OF a(1) n'(1)] by (auto simp: blink_inv_def)
qed

text \<open>A leaf with room takes the new entry in order; the slots behind it stay as they were.\<close>

lemma leaf_insert_ok:
  fixes v :: value_type
  assumes ok: "leaf_ok c l n" and room: "nsize n < LeafNode_max_items c"
    and k: "k \<notin> set (live_keys n)" "l \<le> k" "k < high_key n"
  defines "p \<equiv> std_lower_bound (live_keys n) k"
  defines "n' \<equiv> n\<lparr>keys := open_gap p k (nsize n) (keys n), vals := open_gap p v (nsize n) (vals n),
                   nsize := Suc (nsize n)\<rparr>"
  shows "Node_insert_value n p v k = Inr n'" "leaf_ok c l n'" "leaf_map n' = (leaf_map n)(k \<mapsto> v)"
    "same_header n n'"
proof -
  have len: "length (keys n) = LeafNode_max_items c" "length (vals n) = LeafNode_max_items c"
    "sorted_less (live_keys n)" "is_leaf n" using ok by (simp_all add: leaf_ok_def)
  have p: "p \<le> nsize n" using std_lb.lb_le [of "live_keys n" k] len room by (simp add: p_def)
  show "Node_insert_value n p v k = Inr n'"
    using Node_insert_value_eq [OF p, of v k] len room capacity_lt_65536(1) [of c] by (simp add: n'_def)
  have live: "live_keys n' = insert_at p k (live_keys n)" "live_vals n' = insert_at p v (live_vals n)"
    using len room by (simp_all add: n'_def)
  have "sorted_less (live_keys n')"
    unfolding live p_def using std_lb.lb_insert_sorted len(3) k(1) by blast
  moreover have "\<forall>x \<in> set (live_keys n'). l \<le> x \<and> x < high_key n'"
    unfolding live using ok k by (auto simp: leaf_ok_def n'_def)
  moreover have "high_key n' \<le> keys n' ! j \<or> keys n' ! j \<in> junk_words c"
    if "nsize n' \<le> j" "j < LeafNode_max_items c" for j
    using ok that len room by (simp add: leaf_ok_def n'_def nth_open_gap_stale)
  ultimately show "leaf_ok c l n'"
    using ok room len unfolding leaf_ok_def by (simp add: n'_def)
  show "leaf_map n' = (leaf_map n)(k \<mapsto> v)"
    unfolding leaf_map_def live using k(1) p len room by (intro map_of_zip_insert_at) auto
  show "same_header n n'" by (simp add: same_header_def n'_def)
qed

lemma leaf_update_ok:
  assumes ok: "leaf_ok c l n" and k: "k \<in> set (live_keys n)"
  defines "p \<equiv> std_lower_bound (live_keys n) k"
  shows "p < nsize n" "keys n ! p = k" "leaf_map n k = Some (vals n ! p)"
    "leaf_ok c l (n\<lparr>vals := (vals n)[p := v]\<rparr>)"
    "leaf_map (n\<lparr>vals := (vals n)[p := v]\<rparr>) = (leaf_map n)(k \<mapsto> v)"
proof -
  have len: "length (keys n) = LeafNode_max_items c" "length (vals n) = LeafNode_max_items c"
    "sorted_less (live_keys n)" "nsize n \<le> LeafNode_max_items c" using ok by (simp_all add: leaf_ok_def)
  have p: "p < length (live_keys n)" "live_keys n ! p = k"
    using std_lb.lb_mem_iff [where xs = "live_keys n" and k = k] k len(3) by (simp_all add: p_def)
  then show "p < nsize n" "keys n ! p = k" by simp_all
  have d: "distinct (live_keys n)" using len(3) strict_sorted_iff by blast
  show "leaf_map n k = Some (vals n ! p)"
    using map_of_zip_nth [of "live_keys n" "live_vals n" p] d p len unfolding leaf_map_def by auto
  show "leaf_ok c l (n\<lparr>vals := (vals n)[p := v]\<rparr>)" using ok by (simp add: leaf_ok_def)
  have "map_of (zip (live_keys n) ((live_vals n)[p := v]))
      = (map_of (zip (live_keys n) (live_vals n)))(live_keys n ! p \<mapsto> v)"
    using d p(1) len by (intro map_of_zip_list_update) auto
  then show "leaf_map (n\<lparr>vals := (vals n)[p := v]\<rparr>) = (leaf_map n)(k \<mapsto> v)"
    using p(2) by (simp add: leaf_map_def take_update_swap)
qed

text \<open>The halves of a split leaf.\<close>

lemma leaf_split_halves_ok:
  assumes res: "leaf_split_result c new n k v pos n' m'" and ok: "leaf_ok c l n"
    and full: "nsize n = LeafNode_max_items c"
    and k: "k \<notin> set (live_keys n)" "l \<le> k" "k < high_key n"
  shows "l < high_key n'" "high_key n' < high_key n" "leaf_ok c l n'" "leaf_ok c (high_key n') m'"
    "keys m' ! 0 = high_key n'" "0 < nsize m'" "min_size c n' \<le> nsize n'" "min_size c m' \<le> nsize m'"
proof -
  define p where "p = std_lower_bound (live_keys n) k"
  define K where "K = insert_at p k (live_keys n)"
  have srt: "sorted_less K" unfolding K_def p_def
    using std_lb.lb_insert_sorted ok k(1) by (auto simp: leaf_ok_def)
  have rng: "\<forall>x \<in> set K. l \<le> x \<and> x < high_key n" using ok k by (auto simp: K_def leaf_ok_def)
  have len: "length K = Suc (LeafNode_max_items c)" using ok full by (simp add: K_def leaf_ok_def)
  note R = res [unfolded leaf_split_result_def Let_def, folded p_def, folded K_def]
  have pos: "0 < pos" "pos < length K" "high_key n' = K ! pos" "high_key m' = high_key n"
    using R by simp_all
  have "K ! 0 \<in> set K" "K ! pos \<in> set K" using pos(2) by (auto intro!: nth_mem)
  then have "l \<le> K ! 0" "K ! 0 < K ! pos" "K ! pos < high_key n"
    using rng srt pos by (auto intro: sorted_less_nth_mono)
  then show "l < high_key n'" "high_key n' < high_key n" using pos by simp_all
  have cut: "sorted_less (take pos K @ K ! pos # drop (Suc pos) K)"
    using srt pos(2) by (simp flip: id_take_nth_drop)
  then have low: "\<forall>x \<in> set (take pos K). l \<le> x \<and> x < K ! pos"
    using rng by (auto simp: sorted_wrt_append dest: in_set_takeD)
  have "drop pos K = K ! pos # drop (Suc pos) K" using pos(2) by (simp add: Cons_nth_drop_Suc)
  then have up: "\<forall>x \<in> set (drop pos K). K ! pos \<le> x \<and> x < high_key n"
    using cut rng nth_mem [OF pos(2)] by (auto simp: sorted_wrt_append dest: in_set_dropD)
  have live: "live_keys n' = take pos K" "live_keys m' = drop pos K" using R by blast+
  have sz: "nsize n' \<le> LeafNode_max_items c" "nsize m' \<le> LeafNode_max_items c" using R pos len by auto
  have shape: "is_leaf n'" "length (keys n') = LeafNode_max_items c" "length (vals n') = LeafNode_max_items c"
    "is_leaf m'" "length (keys m') = LeafNode_max_items c" "length (vals m') = LeafNode_max_items c"
    using R by blast+
  have stale: "\<forall>j. nsize n' \<le> j \<and> j < LeafNode_max_items c \<longrightarrow> high_key n' \<le> keys n' ! j"
    "\<forall>j. nsize m' \<le> j \<and> j < LeafNode_max_items c \<longrightarrow> keys m' ! j \<in> junk_words c"
    using R by blast+
  have "sorted_less (live_keys n')" "\<forall>x \<in> set (live_keys n'). l \<le> x \<and> x < high_key n'"
    using low srt unfolding live pos(3) by (simp_all add: sorted_wrt_take)
  then show "leaf_ok c l n'"
    unfolding leaf_ok_def using shape sz stale by (simp only: simp_thms) blast?
  have "sorted_less (live_keys m')" "\<forall>x \<in> set (live_keys m'). high_key n' \<le> x \<and> x < high_key m'"
    using up srt unfolding live pos(3,4) by (simp_all add: sorted_wrt_drop)
  then show "leaf_ok c (high_key n') m'"
    unfolding leaf_ok_def using shape sz stale by (simp only: simp_thms) blast?
  show "min_size c n' \<le> nsize n'" "min_size c m' \<le> nsize m'" using R shape by (simp_all add: min_size_def)
  show "0 < nsize m'" using R by simp
  then show "keys m' ! 0 = high_key n'" 
    using live(2) pos(2,3) by (metis add_0_right less_imp_le nth_drop nth_take)
qed

lemma inv_leaf_split:
  assumes i: "blink_inv c lo lv {} t r" and a: "heap t a = Some n" "is_leaf n"
    and res: "leaf_split_result c (next_addr t) n k v pos n' m'"
    and full: "nsize n = LeafNode_max_items c"
    and k: "k \<notin> set (live_keys n)" "lo a \<le> k" "k < high_key n"
  shows "blink_inv c (lo(next_addr t := high_key n')) (lv(next_addr t := lv a)) {next_addr t}
           (with_split c t a n' m') r"
proof -
  note D = invD [OF i]
  have ok: "leaf_ok c (lo a) n" using contentD(3) [OF D(10) a(1)] a(2) by blast
  note H = leaf_split_halves_ok [OF res ok full k]
  have ne: "a \<noteq> next_addr t" using a D(7) by auto
  have "lv a = 0" using contentD(1) [OF D(10) a(1)] a(2) by simp
  then have orphan: "parent x \<noteq> Some a" if "heap t b = Some x" for b x
    using D(11) that unfolding parents_ok_def by (metis nat.distinct(1) option.discI option.inject)
  have leaves: "is_leaf n'" "is_leaf m'" using H(3,4) by (simp_all add: leaf_ok_def)
  have st: "split_step lo (heap t) a n (high_key n') (next_addr t) n' m' {} (heap (with_split c t a n' m'))"
    using res a ne H(1,2) D(7) leaves
    by (auto simp: split_step_def leaf_split_result_def Let_def fun_eq_iff)
  show ?thesis
  proof (rule inv_split [OF i _ st])
    show "is_kid (heap (with_split c t a n' m')) a b \<or> is_kid (heap (with_split c t a n' m')) (next_addr t) b
        \<longleftrightarrow> is_kid (heap t) a b \<or> b \<in> {}" for b
      using a ne leaves by (auto simp: is_kid_def)
  qed (use a H orphan in auto)
qed

section \<open>Inner nodes: inserting a pending separator\<close>

lemma pending_key_new:
  assumes i: "blink_inv c lo lv P t r" and s: "s \<in> P" and q: "heap t q = Some n" "\<not> is_leaf n"
    and lv: "lv q = Suc (lv s)"
  shows "lo s \<notin> set (lo q # live_keys n)"
proof
  note D = invD [OF i]
  have io: "inner_ok c lo lv (heap t) q n" using contentD(4) [OF D(10) q] .
  assume "lo s \<in> set (lo q # live_keys n)"
  then obtain x where x: "x \<in> set (live_seps n)" "lo (the x) = lo s"
    using io unfolding inner_ok_def by (metis (mono_tags, lifting) imageE list.set_map)
  then obtain b where b: "x = Some b" "heap t b \<noteq> None" "Suc (lv b) = lv q"
    using io unfolding inner_ok_def by blast
  have "s \<in> dom (heap t)" using D(12) s unfolding linked_ok_def by blast
  then have "b = s" using same_lo_unique [OF D(8,9)] b x lv by auto
  then have "is_kid (heap t) q s" using x b q by (auto simp: is_kid_def)
  then show False using D(12) s unfolding linked_ok_def by blast
qed

lemma sorted_less_insert_between:
  assumes "sorted_less (l # ks @ [h])" "k \<notin> set ks" "l < k" "k < h"
  shows "sorted_less (l # insert_at (std_lower_bound ks k) k ks @ [h])"
proof -
  have "sorted_less (insert_at (std_lower_bound ks k) k ks)"
    using assms std_lb.lb_insert_sorted by (auto simp: sorted_wrt_append)
  then show ?thesis using assms by (auto simp: sorted_wrt_append)
qed

text \<open>The lists of an inner node after the insertion of a separator that starts at a new key.\<close>

lemma inner_insert_lists:
  assumes io: "inner_ok c lo lv h q n" and k: "lo s = k" "k \<notin> set (lo q # live_keys n)" "lo q \<le> k" "k < high_key n"
  defines "p \<equiv> std_lower_bound (live_keys n) k"
  shows "map (\<lambda>x. lo (the x)) (insert_at (Suc p) (Some s) (live_seps n)) = lo q # insert_at p k (live_keys n)"
    "sorted_less (lo q # insert_at p k (live_keys n) @ [high_key n])" "p \<le> nsize n"
proof -
  have "map (\<lambda>x. lo (the x)) (live_seps n) = lo q # live_keys n" using io by (simp add: inner_ok_def)
  then show "map (\<lambda>x. lo (the x)) (insert_at (Suc p) (Some s) (live_seps n)) = lo q # insert_at p k (live_keys n)"
    by (simp only: map_insert_at k option.sel insert_at_Suc_Cons)
  have "lo q < k" using k by auto
  then show "sorted_less (lo q # insert_at p k (live_keys n) @ [high_key n])"
    unfolding p_def using io k by (intro sorted_less_insert_between) (auto simp: inner_ok_def)
  show "p \<le> nsize n"
    using std_lb.lb_le [of "live_keys n" k] inner_okD(2,3) [OF io] by (simp add: p_def)
qed

lemma inv_inner_insert:
  assumes i: "blink_inv c lo lv {s} t r" and q: "heap t q = Some n" "\<not> is_leaf n" "nsize n < InnerNode_max_keys c"
    and lv: "lv q = Suc (lv s)" and k: "lo q \<le> lo s" "lo s < high_key n"
  shows "\<exists>n'. bindR (Node_index n (lo s)) (\<lambda>ix. Node_insert_separator n ix (Some s) (lo s)) = Inr n'
    \<and> \<not> is_leaf n' \<and> blink_inv c lo lv {} (store t (Some q) n') r"
proof -
  note D = invD [OF i]
  have io: "inner_ok c lo lv (heap t) q n" using contentD(4) [OF D(10) q(1,2)] .
  have new: "lo s \<notin> set (lo q # live_keys n)" using pending_key_new [OF i _ q(1,2) lv] by simp
  define p where "p = std_lower_bound (live_keys n) (lo s)"
  note L = inner_insert_lists [OF io refl new k, folded p_def]
  have sh: "length (keys n) = InnerNode_max_keys c" "length (seps n) = Suc (InnerNode_max_keys c)"
    using inner_okD(1) [OF io] by (simp_all add: inner_shape_def)
  define n' where "n' = n\<lparr>keys := open_gap p (lo s) (nsize n) (keys n),
    seps := open_gap (Suc p) (Some s) (Suc (nsize n)) (seps n), nsize := Suc (nsize n)\<rparr>"
  have eff: "bindR (Node_index n (lo s)) (\<lambda>ix. Node_insert_separator n ix (Some s) (lo s)) = Inr n'"
    using Node_insert_separator_eq [OF L(3), of "Some s" "lo s"] sh q(3) capacity_lt_65536(2) [of c]
    by (simp add: Node_index_eq n'_def p_def)
  have live: "live_keys n' = insert_at p (lo s) (live_keys n)"
    "live_seps n' = insert_at (Suc p) (Some s) (live_seps n)"
    using sh q(3) by (simp_all add: n'_def)
  have hdr: "same_header n n'" "high_key n' = high_key n" "\<not> is_leaf n'"
    using q by (simp_all add: same_header_def n'_def)
  have kid: "is_kid ((heap t)(q \<mapsto> n')) = (\<lambda>q' b. is_kid (heap t) q' b \<or> q' = q \<and> b = s)"
    using q hdr live by (auto simp: is_kid_def fun_eq_iff)
  let ?h = "(heap t)(q \<mapsto> n')"
  have sd: "heap t s \<noteq> None" "s \<noteq> r" using D(12) unfolding linked_ok_def by auto
  have kids: "\<forall>x \<in> set (live_seps n). \<exists>b. x = Some b \<and> heap t b \<noteq> None \<and> Suc (lv b) = lv q"
    using io unfolding inner_ok_def by blast
  have io': "inner_ok c lo lv ?h q n'"
    unfolding inner_ok_def live hdr
  proof (intro conjI)
    show "inner_shape c n'" using sh q by (simp add: inner_shape_def n'_def)
    show "\<forall>x \<in> set (insert_at (Suc p) (Some s) (live_seps n)). \<exists>b. x = Some b \<and> ?h b \<noteq> None \<and> Suc (lv b) = lv q"
      unfolding set_insert_at using kids lv sd by (metis fun_upd_apply insert_iff option.discI)
  qed (use L in auto)
  have "content_ok c lo lv ?h r"
    using D(10) q(1) hdr(1) by (rule content_store) (use io' hdr(3) in auto)
  moreover have "linked_ok lv ?h r {}"
  proof -
    have "if lv b = lv r then b = r else \<exists>q'. is_kid (heap t) q' b \<or> q' = q \<and> b = s" if "heap t b \<noteq> None" for b
    proof (cases "b = s")
      case True
      then show ?thesis using lv contentD(2) [OF D(10) q(1)] by auto
    next
      case False
      then have "b \<in> dom (heap t) - {s}" using that by auto
      then show ?thesis using D(12) unfolding linked_ok_def by metis
    qed
    then show ?thesis unfolding linked_ok_def kid using q(1) by auto
  qed
  moreover have "fill_ok c lv ?h r {}"
    using fill_ok_less_pending [OF fill_store [OF D(13) q(1) hdr(1)]] by (simp add: n'_def)
  ultimately have "blink_inv c lo lv {} (store t (Some q) n') r"
    using D q(1) store_links [where h = "heap t", OF q(1) hdr(1)] by (auto simp: blink_inv_def)
  then show ?thesis using eff hdr by blast
qed

section \<open>Splitting an inner node around a pending separator\<close>

text \<open>The lists of the two halves, given the longer lists \<open>K\<close> and \<open>C\<close> that are cut.\<close>

lemma inner_split_halves:
  assumes res: "inner_split_result c new n k sp n' m'" and io: "inner_ok c lo lv h q n"
    and full: "nsize n = InnerNode_max_keys c" and c: "config_ok c"
  defines "p \<equiv> std_lower_bound (live_keys n) k"
  assumes map: "map f (insert_at (Suc p) sp (live_seps n)) = lo q # insert_at p k (live_keys n)"
    and srt: "sorted_less (lo q # insert_at p k (live_keys n) @ [high_key n])"
  shows "lo q < high_key n'" "high_key n' < high_key n" "inner_shape c n'" "inner_shape c m'"
    "map f (live_seps n') = lo q # live_keys n'" "map f (live_seps m') = high_key n' # live_keys m'"
    "sorted_less (lo q # live_keys n' @ [high_key n'])" "sorted_less (high_key n' # live_keys m' @ [high_key n])"
    "set (live_seps n') \<union> set (live_seps m') = insert sp (set (live_seps n))"
    "high_key n' = inner_split_key c n k" "min_size c n' \<le> nsize n'" "min_size c m' \<le> nsize m'"
proof -
  define L where "L = InnerNode_max_keys c div 2"
  define K where "K = insert_at p k (live_keys n)"
  define C where "C = insert_at (Suc p) sp (live_seps n)"
  note R = res [unfolded inner_split_result_def Let_def, folded p_def L_def, folded K_def C_def]
  have lens: "length K = Suc (InnerNode_max_keys c)" "L < InnerNode_max_keys c"
    using inner_okD(3) [OF io] full c by (auto simp: K_def L_def config_ok_def)
  show sh: "inner_shape c n'" "inner_shape c m'" using R by blast+
  have hk: "high_key n' = K ! L" using R by blast
  have live: "live_keys n' = take L K" "live_keys m' = drop (Suc L) K" "live_seps n' = take (Suc L) C"
    "live_seps m' = drop (Suc L) C" using R by blast+
  have K: "K = take L K @ K ! L # drop (Suc L) K" using lens by (intro id_take_nth_drop) simp
  have mapK: "map f C = lo q # K" using map by (simp add: C_def K_def)
  have srtK: "sorted_less (lo q # (take L K @ K ! L # drop (Suc L) K) @ [high_key n])"
    using srt K by (simp add: K_def)
  then show "lo q < high_key n'" "high_key n' < high_key n"
    "sorted_less (lo q # live_keys n' @ [high_key n'])" "sorted_less (high_key n' # live_keys m' @ [high_key n])"
    unfolding hk live by (auto simp: sorted_wrt_append)
  show "map f (live_seps n') = lo q # live_keys n'" unfolding live by (simp add: mapK flip: take_map)
  have "drop (Suc L) (lo q # K) = K ! L # drop (Suc L) K" using lens by (simp add: Cons_nth_drop_Suc)
  then show "map f (live_seps m') = high_key n' # live_keys m'"
    unfolding live hk by (simp only: mapK flip: drop_map)
  have "set (take (Suc L) C) \<union> set (drop (Suc L) C) = set C" by (metis append_take_drop_id set_append)
  then show "set (live_seps n') \<union> set (live_seps m') = insert sp (set (live_seps n))"
    unfolding live by (simp add: C_def)
  have "nsize n' = length (live_keys n')" "nsize m' = length (live_keys m')" using sh by (simp_all add: inner_shape_def)
  then have "nsize n' = L" "nsize m' = InnerNode_max_keys c - L" unfolding live using lens by simp_all
  then show "min_size c n' \<le> nsize n'" "min_size c m' \<le> nsize m'"
    using sh by (auto simp: min_size_def inner_shape_def L_def)
  show "high_key n' = inner_split_key c n k" unfolding hk by (simp add: inner_split_key_def K_def p_def L_def)
qed

text \<open>The nodes below a node are its children and, while an insertion runs, the pending one.\<close>

lemma below_kid_or_pending:
  assumes i: "blink_inv c lo lv P t r" and b: "heap t b = Some x" "parent x = Some q"
  shows "is_kid (heap t) q b \<or> b \<in> P"
proof (rule disjCI)
  note D = invD [OF i]
  assume "b \<notin> P"
  moreover have "lv b \<noteq> lv r" using D(11) b unfolding parents_ok_def by (metis less_irrefl option.discI)
  ultimately obtain q' where "is_kid (heap t) q' b"
    using D(12) b unfolding linked_ok_def by (metis DiffI domI)
  then show "is_kid (heap t) q b" using kid_parent(1) [OF i _ b(1)] b(2) by fastforce
qed

text \<open>The ghosts of the new node do not matter for the children, which were there before.\<close>

lemma inner_ok_fresh:
  assumes shape: "inner_shape c n" and a: "(lo(new := s)) a = l" "(lv(new := e)) a = e"
    and kids: "\<And>x. x \<in> set (live_seps n) \<Longrightarrow> \<exists>b. x = Some b \<and> h b \<noteq> None \<and> Suc (lv b) = e \<and> b \<noteq> new"
    and h': "\<And>b. h b \<noteq> None \<Longrightarrow> h' b \<noteq> None"
    and lists: "map (\<lambda>x. lo (the x)) (live_seps n) = l # live_keys n"
      "sorted_less (l # live_keys n @ [high_key n])"
  shows "inner_ok c (lo(new := s)) (lv(new := e)) h' a n"
proof -
  have "map (\<lambda>x. (lo(new := s)) (the x)) (live_seps n) = map (\<lambda>x. lo (the x)) (live_seps n)"
    unfolding map_eq_conv using kids by (metis fun_upd_other option.sel)
  moreover have "\<forall>x \<in> set (live_seps n). \<exists>b. x = Some b \<and> h' b \<noteq> None \<and> Suc ((lv(new := e)) b) = e"
    using kids h' by (metis fun_upd_other)
  ultimately show ?thesis unfolding inner_ok_def a using shape lists by simp
qed

text \<open>What the invariant says about the children of the two halves.\<close>

lemma inner_split_kids:
  assumes i: "blink_inv c lo lv {s} t r" and q: "heap t q = Some n" "\<not> is_leaf n" and lv: "lv q = Suc (lv s)"
    and x: "x \<in> insert (Some s) (set (live_seps n))"
  shows "\<exists>b. x = Some b \<and> heap t b \<noteq> None \<and> Suc (lv b) = lv q \<and> b \<noteq> next_addr t"
proof -
  note D = invD [OF i]
  have "heap t s \<noteq> None" using D(12) unfolding linked_ok_def by auto
  then show ?thesis
    using x D(7) lv contentD(4) [OF D(10) q, unfolded inner_ok_def] by (metis insert_iff)
qed

lemma bounded_by_list:
  assumes "map (\<lambda>x. lo (the x)) ss = l # ks" "sorted_less (l # ks @ [hi])" "Some b \<in> set ss"
  shows "l \<le> lo b" "lo b < (hi :: 'a::linorder)"
proof -
  have "lo b \<in> set (l # ks)" unfolding assms(1) [symmetric] using assms(3) by force
  then show "l \<le> lo b" "lo b < hi" using assms(2) by (auto simp: sorted_wrt_append)
qed

lemma inv_inner_split:
  assumes i: "blink_inv c lo lv {s} t r" and c: "config_ok c"
    and q: "heap t q = Some n" "\<not> is_leaf n" "nsize n = InnerNode_max_keys c"
    and lv: "lv q = Suc (lv s)" and k: "lo q \<le> lo s" "lo s < high_key n"
    and res: "inner_split_result c (next_addr t) n (lo s) (Some s) n' m'"
    and bs: "live_seps m' = map Some bs"
  shows "blink_inv c (lo(next_addr t := high_key n')) (lv(next_addr t := lv q)) {next_addr t}
      (reparent (with_split c t q n' m') (set bs) (Some (next_addr t))) r"
proof -
  note D = invD [OF i]
  let ?new = "next_addr t"
  let ?t' = "reparent (with_split c t q n' m') (set bs) (Some ?new)"
  have io: "inner_ok c lo lv (heap t) q n" using contentD(4) [OF D(10) q(1,2)] .
  have "lo s \<notin> set (lo q # live_keys n)" using pending_key_new [OF i _ q(1,2) lv] by simp
  note L = inner_insert_lists [OF io refl this k]
  note H = inner_split_halves [OF res io q(3) c L(1,2)]
  have kid: "\<exists>b. x = Some b \<and> heap t b \<noteq> None \<and> Suc (lv b) = lv q \<and> b \<noteq> ?new"
    if "x \<in> set (live_seps n') \<union> set (live_seps m')" for x
    using inner_split_kids [OF i q(1,2) lv] that unfolding H(9) .
  have bsin: "b \<in> set bs \<longleftrightarrow> Some b \<in> set (live_seps m')" for b unfolding bs by auto
  then have kb: "heap t b \<noteq> None \<and> Suc (lv b) = lv q" if "b \<in> set bs" for b
    using kid [of "Some b"] that by auto
  have nl: "\<not> is_leaf n'" "\<not> is_leaf m'" using H(3,4) by (simp_all add: inner_shape_def)
  have ne: "q \<noteq> ?new" using q D(7) by auto
  have hm: "high_key m' = high_key n" using res by (simp add: inner_split_result_def Let_def)
  have st: "split_step lo (heap t) q n (high_key n') ?new n' m' (set bs) (heap ?t')"
    using res q ne H(1,2) D(7) nl kb
    by (fastforce simp: split_step_def inner_split_result_def Let_def fun_eq_iff)
  note hn' = split_stepD(14,15) [OF st]
  have dom': "heap ?t' b \<noteq> None" if "heap t b \<noteq> None" for b
    using split_stepD(16) [OF st] that by auto
  show ?thesis
  proof (rule inv_split [OF i _ st])
    show "q \<notin> {s}" using lv by auto
    show "inner_ok c (lo(?new := high_key n')) (lv(?new := lv q)) (heap ?t') q n'
        \<and> inner_ok c (lo(?new := high_key n')) (lv(?new := lv q)) (heap ?t') ?new m'"
    proof
      show "inner_ok c (lo(?new := high_key n')) (lv(?new := lv q)) (heap ?t') q n'"
        by (rule inner_ok_fresh [OF H(3) _ _ kid [OF UnI1] dom' H(5,7)]) (use ne in auto)
      show "inner_ok c (lo(?new := high_key n')) (lv(?new := lv q)) (heap ?t') ?new m'"
        by (rule inner_ok_fresh [OF H(4) _ _ kid [OF UnI2] dom' H(6) H(8) [folded hm]]) auto
    qed
    show "Suc (lv b) = lv q \<and> high_key n' \<le> lo b \<and> lo b < high_key n" if "b \<in> set bs" for b
      using that kb bounded_by_list [OF H(6,8)] bsin by blast
    show "is_kid (heap ?t') q b \<or> is_kid (heap ?t') ?new b \<longleftrightarrow> is_kid (heap t) q b \<or> b \<in> {s}" for b
    proof -
      have "is_kid (heap ?t') q b \<or> is_kid (heap ?t') ?new b
          \<longleftrightarrow> Some b \<in> set (live_seps n') \<union> set (live_seps m')"
        using hn' nl by (auto simp: is_kid_def)
      then show ?thesis unfolding H(9) using q by (auto simp: is_kid_def)
    qed
    show "lo b < high_key n'" if "heap t b = Some x" "parent x = Some q" "b \<notin> set bs" for b x
    proof -
      have "Some b \<in> insert (Some s) (set (live_seps n))"
        using below_kid_or_pending [OF i that(1,2)] q(1) by (auto simp: is_kid_def)
      then show ?thesis
        using bounded_by_list(2) [OF H(5,7)] bsin that(3) unfolding H(9) [symmetric] by blast
    qed
  qed (use q H(11,12) in auto)
qed

section \<open>A new root above a pending sibling of the root\<close>

text \<open>
  \<open>root_step\<close>: a node \<open>n\<close> above all others is written at \<open>new\<close> and becomes the parent of \<open>r\<close>
  and \<open>s\<close>.
\<close>

definition root_step :: "node_store \<Rightarrow> addr \<Rightarrow> addr \<Rightarrow> addr \<Rightarrow> node \<Rightarrow> node_store \<Rightarrow> bool" where
  "root_step h r s new n h' \<longleftrightarrow> h new = None \<and> h r \<noteq> None \<and> h s \<noteq> None
     \<and> h' = (\<lambda>b. if b = new then Some n else if b \<in> {r, s}
               then map_option (\<lambda>x. x\<lparr>parent := Some new\<rparr>) (h b) else h b)"

lemma root_step_cases [consumes 2]:
  assumes "root_step h r s new n h'" "h' b = Some x"
  obtains (root) "b = new" "x = n"
  | (old) y where "b \<noteq> new" "h b = Some y" "x = (if b \<in> {r, s} then y\<lparr>parent := Some new\<rparr> else y)"
  using assms by (auto simp: root_step_def split: if_splits)

lemma root_stepD:
  assumes "root_step h r s new n h'"
  shows "h' new = Some n" "dom h' = insert new (dom h)" "h new = None" "r \<noteq> new" "s \<noteq> new"
    "h b = Some y \<Longrightarrow> \<exists>x. h' b = Some x \<and> high_key x = high_key y"
  using assms by (auto simp: root_step_def split: if_splits)

lemma root_links:
  assumes st: "root_step h r s new n h'" and n: "high_key n = max_key" "right_sibling n = None"
    and top: "\<forall>b \<in> dom h. lv b \<le> lv r" and ch: "chain_ok lo lv h" and d: "disjoint_ok lo lv h"
  shows "chain_ok (lo(new := 0)) (lv(new := Suc (lv r))) h'"
    "disjoint_ok (lo(new := 0)) (lv(new := Suc (lv r))) h'"
proof -
  note D = root_stepD [OF st]
  let ?lo = "lo(new := 0)" and ?lv = "lv(new := Suc (lv r))"
  show "chain_ok ?lo ?lv h'"
    unfolding chain_ok_def
  proof (intro allI impI)
    fix b x
    assume "h' b = Some x"
    with st show "?lo b < high_key x \<and> (case right_sibling x of None \<Rightarrow> high_key x = max_key
        | Some e \<Rightarrow> h' e \<noteq> None \<and> ?lo e = high_key x \<and> ?lv e = ?lv b)"
    proof (cases rule: root_step_cases)
      case root
      then show ?thesis using n by (simp add: max_key_def word_gt_0)
    next
      case (old y)
      have "h e \<noteq> None \<Longrightarrow> h' e \<noteq> None \<and> e \<noteq> new" for e using D(2,3) by (auto simp: domIff set_eq_iff)
      then show ?thesis using old chainD [OF ch old(2)] by (auto split: option.splits)
    qed
  qed
  have old: "\<exists>y. h b = Some y \<and> high_key y = high_key x \<and> lv b \<le> lv r"
    if "h' b = Some x" "b \<noteq> new" for b x
    using st that(1) by (cases rule: root_step_cases) (use that(2) top in auto)
  show "disjoint_ok ?lo ?lv h'"
    unfolding disjoint_ok_def
  proof (intro allI impI)
    fix b b' x x'
    assume x: "h' b = Some x" "h' b' = Some x'" and ne: "b \<noteq> b'" and lv: "?lv b = ?lv b'"
    have nn: "b \<noteq> new" "b' \<noteq> new"
      using lv ne old [OF x(1)] old [OF x(2)] by (auto split: if_splits)
    obtain y y' where "h b = Some y" "h b' = Some y'" "high_key y = high_key x" "high_key y' = high_key x'"
      using old [OF x(1) nn(1)] old [OF x(2) nn(2)] by auto
    then show "high_key x \<le> ?lo b' \<or> high_key x' \<le> ?lo b"
      using d [unfolded disjoint_ok_def, rule_format, of b y b' y'] ne lv nn by simp
  qed
qed

lemma root_content:
  assumes st: "root_step h r s new n h'" and cn: "content_ok c lo lv h r"
    and n: "\<not> is_leaf n" "inner_ok c (lo(new := 0)) (lv(new := Suc (lv r))) h' new n"
  shows "content_ok c (lo(new := 0)) (lv(new := Suc (lv r))) h' new"
  unfolding content_ok_def
proof (intro allI impI)
  note D = root_stepD [OF st]
  let ?lo = "lo(new := 0)" and ?lv = "lv(new := Suc (lv r))"
  fix b x
  assume "h' b = Some x"
  with st show "(is_leaf x \<longleftrightarrow> ?lv b = 0) \<and> ?lv b \<le> ?lv new
    \<and> (if is_leaf x then leaf_ok c (?lo b) x else inner_ok c ?lo ?lv h' b x)"
  proof (cases rule: root_step_cases)
    case root
    then show ?thesis using n by simp
  next
    case (old y)
    have "inner_ok c ?lo ?lv h' b y" if "\<not> is_leaf y"
      by (rule inner_ok_mono [OF contentD(4) [OF cn old(2) that]])
        (use old(1) D(2,3) in \<open>auto simp: domIff set_eq_iff\<close>)
    then show ?thesis using old contentD [OF cn old(2)] by simp
  qed
qed

lemma root_parents:
  assumes st: "root_step h r s new n h'" and p: "parents_ok lo lv h r"
    and n: "parent n = None" "high_key n = max_key" and ch: "chain_ok lo lv h"
    and top: "\<And>b. h b \<noteq> None \<Longrightarrow> lv b \<le> lv r \<and> (lv b = lv r \<longleftrightarrow> b \<in> {r, s})"
  shows "parents_ok (lo(new := 0)) (lv(new := Suc (lv r))) h' new"
  unfolding parents_ok_def
proof (intro allI impI)
  note D = root_stepD [OF st]
  let ?lo = "lo(new := 0)" and ?lv = "lv(new := Suc (lv r))"
  fix b x
  assume "h' b = Some x"
  with st show "if ?lv b < ?lv new then \<exists>q m. parent x = Some q \<and> h' q = Some m \<and> ?lv q = Suc (?lv b)
      \<and> ?lo q \<le> ?lo b \<and> ?lo b < high_key m else parent x = None"
  proof (cases rule: root_step_cases)
    case root
    then show ?thesis using n by simp
  next
    case (old y)
    then have lv: "lv b \<le> lv r" "lv b = lv r \<longleftrightarrow> b \<in> {r, s}" using top [of b] by auto
    show ?thesis
    proof (cases "b \<in> {r, s}")
      case True
      have "lo b < max_key"
        using chainD(1) [OF ch old(2)] by (meson le_max_key order.strict_trans2)
      then show ?thesis using True old lv D(1) n by auto
    next
      case False
      then obtain q m where q: "parent y = Some q" "h q = Some m" "lv q = Suc (lv b)" "lo q \<le> lo b"
          "lo b < high_key m"
        using p old(2) lv unfolding parents_ok_def by (metis order.not_eq_order_implies_strict)
      moreover have "q \<noteq> new" using q(2) D(3) by auto
      moreover obtain m' where "h' q = Some m'" "high_key m' = high_key m" using D(6) [OF q(2)] by blast
      ultimately show ?thesis using old lv False by auto
    qed
  qed
qed

lemma inv_new_root:
  assumes i: "blink_inv c lo lv {s} t r" and c: "config_ok c" and lv: "lv s = lv r" and ht: "height t < 65535"
  shows "\<exists>t'. Tree_create_new_root c t (Some r) (Some s) (lo s) = Inr t'
    \<and> blink_inv c (lo(next_addr t := 0)) (lv(next_addr t := Suc (lv r))) {} t' (next_addr t)
    \<and> (\<exists>n. \<not> is_leaf n \<and> t' = reparent (with_new_root c t n) {r, s} (Some (next_addr t)))"
proof -
  note D = invD [OF i]
  let ?new = "next_addr t"
  have s: "heap t s \<noteq> None" "s \<noteq> r" using D(12) unfolding linked_ok_def by auto
  have ne: "r \<noteq> ?new" "s \<noteq> ?new" using s D(2,7) by metis+
  obtain n where eff: "Tree_create_new_root c t (Some r) (Some s) (lo s)
      = Inr (reparent (with_new_root c t n) {r, s} (Some ?new))"
    and n: "inner_shape c n" "live_keys n = [lo s]" "live_seps n = [Some r, Some s]"
      "high_key n = max_key" "right_sibling n = None" "parent n = None"
    using create_new_root_effect [OF c D(2) ne(1) s(1) ne(2), of "lo s"] by blast
  define t' where "t' = reparent (with_new_root c t n) {r, s} (Some ?new)"
  have st: "root_step (heap t) r s ?new n (heap t')"
    using D(2,7) s ne by (auto simp: root_step_def t'_def fun_eq_iff)
  note RD = root_stepD [OF st]
  have nl: "\<not> is_leaf n" using n by (simp add: inner_shape_def)
  have "lo s \<noteq> 0" using same_lo_unique [OF D(8,9)] s D(2,3) lv by (metis not_None_eq)
  moreover have "lo s < max_key" using chainD(1) [OF D(8)] s(1) by (meson le_max_key not_None_eq order.strict_trans2)
  ultimately have io: "inner_ok c (lo(?new := 0)) (lv(?new := Suc (lv r))) (heap t') ?new n"
    using n ne lv RD(2) s(1) D(2,3) unfolding inner_ok_def by (auto simp: word_gt_0 t'_def max_key_def)
  have top: "lv b \<le> lv r \<and> (lv b = lv r \<longleftrightarrow> b \<in> {r, s})" if "heap t b \<noteq> None" for b
  proof -
    have "lv b = lv r \<Longrightarrow> b \<noteq> s \<Longrightarrow> b = r"
      using D(12) that unfolding linked_ok_def by (metis DiffI domIff singletonD)
    then show ?thesis using that contentD(2) [OF D(10)] lv by auto
  qed
  have links: "chain_ok (lo(?new := 0)) (lv(?new := Suc (lv r))) (heap t')"
    "disjoint_ok (lo(?new := 0)) (lv(?new := Suc (lv r))) (heap t')"
    using root_links [OF st n(4,5) _ D(8,9)] top by blast+
  have cn: "content_ok c (lo(?new := 0)) (lv(?new := Suc (lv r))) (heap t') ?new"
    using st D(10) nl io by (rule root_content)
  have kids: "is_kid (heap t') q b \<longleftrightarrow> is_kid (heap t) q b \<or> q = ?new \<and> b \<in> {r, s}" for q b
    using RD(1,3) nl n(3) by (auto simp: is_kid_def t'_def)
  have "linked_ok (lv(?new := Suc (lv r))) (heap t') ?new {}"
  proof -
    have "\<exists>q. is_kid (heap t) q b \<or> q = ?new \<and> b \<in> {r, s}" if "heap t b \<noteq> None" for b
      using D(12) that top unfolding linked_ok_def by (metis DiffI domIff insert_iff singletonD)
    then show ?thesis unfolding linked_ok_def kids RD(2) using top D(7) by fastforce
  qed
  moreover have "parents_ok (lo(?new := 0)) (lv(?new := Suc (lv r))) (heap t') ?new"
    using st D(11) n(6,4) D(8) top by (rule root_parents)
  moreover have "fill_ok c (lv(?new := Suc (lv r))) (heap t') ?new {}"
    unfolding fill_ok_def
  proof (intro allI impI)
    fix b x
    assume x: "heap t' b = Some x" and b: "b \<noteq> ?new \<or> (\<exists>s \<in> {}. (lv(?new := Suc (lv r))) s = (lv(?new := Suc (lv r))) ?new)"
    from st x show "min_size c x \<le> nsize x"
      by (cases rule: root_step_cases) (use b D(13) lv in \<open>auto simp: fill_ok_def\<close>)
  qed
  moreover have "heap t' b \<noteq> None \<Longrightarrow> b < next_addr t'" for b
    using RD(2) D(6) by (auto simp: t'_def less_Suc_eq split: if_splits)
  ultimately have "blink_inv c (lo(?new := 0)) (lv(?new := Suc (lv r))) {} t' ?new"
    unfolding blink_inv_def using links cn RD(1) ht D(4) by (auto simp: t'_def)
  then show ?thesis using eff nl unfolding t'_def by blast
qed

section \<open>The map a tree stands for\<close>

text \<open>
  All entries of all leaves, in the order of the addresses. Leaves are disjoint, so the order does
  not matter; the definition is the specification that the operations of the index are proved
  against.
\<close>

definition node_entries :: "node option \<Rightarrow> (key_type \<times> value_type) list" where
  "node_entries x = (case x of None \<Rightarrow> []
     | Some n \<Rightarrow> if is_leaf n then zip (live_keys n) (live_vals n) else [])"

definition tree_map :: "'l tree \<Rightarrow> key_type \<rightharpoonup> value_type" where
  "tree_map t = map_of (concat (map (\<lambda>a. node_entries (heap t a)) [0..<next_addr t]))"

definition entries :: "node_store \<Rightarrow> (key_type \<times> value_type) set" where
  "entries h = {(k, v). \<exists>a n. h a = Some n \<and> is_leaf n \<and> leaf_map n k = Some v}"

lemma entries_at:
  "(k, v) \<in> entries h \<longleftrightarrow> (\<exists>n. h a = Some n \<and> is_leaf n \<and> leaf_map n k = Some v)
     \<or> (\<exists>b n. b \<noteq> a \<and> h b = Some n \<and> is_leaf n \<and> leaf_map n k = Some v)"
  by (auto simp: entries_def)

lemma entries_upd_inner:
  assumes "\<forall>n. h a = Some n \<longrightarrow> \<not> is_leaf n" "\<not> is_leaf n'"
  shows "entries (h(a \<mapsto> n')) = entries h"
proof -
  have "(k, v) \<in> entries (h(a \<mapsto> n')) \<longleftrightarrow> (k, v) \<in> entries h" for k v
    using assms by (simp add: entries_at [of k v _ a] cong: conj_cong)
  then show ?thesis by auto
qed

lemma others_upd:
  assumes "h m = None" "a \<noteq> m"
  shows "(\<exists>b n. b \<noteq> a \<and> (h(m \<mapsto> x)) b = Some n \<and> Q n) \<longleftrightarrow> Q x \<or> (\<exists>b n. b \<noteq> a \<and> h b = Some n \<and> Q n)"
  using assms by (metis fun_upd_apply option.discI option.inject)

lemma leaf_entry:
  assumes "leaf_ok c l n" "leaf_map n k = Some v"
  shows "k \<in> set (live_keys n)" "l \<le> k" "k < high_key n"
  using assms by (auto simp: leaf_ok_def leaf_map_def dest!: map_of_SomeD set_zip_leftD)

lemma leaf_map_None_iff:
  assumes "leaf_ok c l n"
  shows "leaf_map n k = None \<longleftrightarrow> k \<notin> set (live_keys n)"
  using assms unfolding leaf_map_def by (intro map_of_zip_is_None) (auto simp: leaf_ok_def)

lemma entries_functional:
  assumes i: "blink_inv c lo lv P t r" and e: "(k, v) \<in> entries (heap t)" "(k, v') \<in> entries (heap t)"
  shows "v = v'"
proof -
  note D = invD [OF i]
  obtain a n a' n' where a: "heap t a = Some n" "is_leaf n" "leaf_map n k = Some v"
    and a': "heap t a' = Some n'" "is_leaf n'" "leaf_map n' k = Some v'"
    using e by (auto simp: entries_def)
  have "a = a'"
    using covering_unique [OF D(9) a(1) a'(1), of k] leaf_entry(2,3) [OF contentD(3) [OF D(10) a(1,2)] a(3)]
      leaf_entry(2,3) [OF contentD(3) [OF D(10) a'(1,2)] a'(3)]
      contentD(1) [OF D(10) a(1)] contentD(1) [OF D(10) a'(1)] a(2) a'(2) by simp
  then show ?thesis using a a' by simp
qed

lemma set_node_entries:
  assumes "blink_inv c lo lv P t r" "heap t a = Some n"
  shows "(k, v) \<in> set (node_entries (heap t a)) \<longleftrightarrow> is_leaf n \<and> leaf_map n k = Some v"
proof (cases "is_leaf n")
  case True
  have "leaf_ok c (lo a) n" using contentD(3) [OF invD(10) [OF assms(1)] assms(2) True] .
  then have "distinct (map fst (zip (live_keys n) (live_vals n)))"
    by (simp add: leaf_ok_def strict_sorted_iff)
  then have "(k, v) \<in> set (zip (live_keys n) (live_vals n)) \<longleftrightarrow> leaf_map n k = Some v"
    unfolding leaf_map_def by (simp only: map_of_eq_Some_iff)
  then show ?thesis using True assms(2) by (simp add: node_entries_def)
qed (use assms in \<open>simp add: node_entries_def\<close>)

lemma tree_map_entries:
  assumes i: "blink_inv c lo lv P t r"
  shows "tree_map t k = Some v \<longleftrightarrow> (k, v) \<in> entries (heap t)"
proof -
  let ?l = "concat (map (\<lambda>a. node_entries (heap t a)) [0..<next_addr t])"
  have mem: "(k, v) \<in> set ?l \<longleftrightarrow> (k, v) \<in> entries (heap t)" for v
  proof -
    have "(k, v) \<in> set ?l \<longleftrightarrow> (\<exists>a < next_addr t. (k, v) \<in> set (node_entries (heap t a)))" by auto
    also have "\<dots> \<longleftrightarrow> (\<exists>a n. heap t a = Some n \<and> is_leaf n \<and> leaf_map n k = Some v)"
    proof
      assume "\<exists>a < next_addr t. (k, v) \<in> set (node_entries (heap t a))"
      then obtain a where a: "(k, v) \<in> set (node_entries (heap t a))" by blast
      then obtain n where n: "heap t a = Some n" by (cases "heap t a") (auto simp: node_entries_def)
      then show "\<exists>a n. heap t a = Some n \<and> is_leaf n \<and> leaf_map n k = Some v"
        using a set_node_entries [OF i n] by blast
    next
      assume "\<exists>a n. heap t a = Some n \<and> is_leaf n \<and> leaf_map n k = Some v"
      then show "\<exists>a < next_addr t. (k, v) \<in> set (node_entries (heap t a))"
        using set_node_entries [OF i] invD(6) [OF i] by blast
    qed
    finally show ?thesis by (simp add: entries_def)
  qed
  show ?thesis
  proof
    assume "tree_map t k = Some v"
    then show "(k, v) \<in> entries (heap t)" unfolding tree_map_def using mem map_of_SomeD by metis
  next
    assume e: "(k, v) \<in> entries (heap t)"
    then obtain v' where v': "tree_map t k = Some v'"
      unfolding tree_map_def using mem by (metis weak_map_of_SomeI)
    then have "(k, v') \<in> entries (heap t)" unfolding tree_map_def using mem map_of_SomeD by metis
    then show "tree_map t k = Some v" using entries_functional [OF i e] v' by simp
  qed
qed

lemma tree_map_eqI:
  assumes "blink_inv c lo lv P t r" "blink_inv c lo' lv' P' t' r'" "entries (heap t') = entries (heap t)"
  shows "tree_map t' = tree_map t"
proof
  fix k
  show "tree_map t' k = tree_map t k"
    using tree_map_entries [OF assms(1), of k] tree_map_entries [OF assms(2), of k] assms(3)
    by (metis not_Some_eq)
qed

text \<open>The leaf that covers a key decides what the map says about it.\<close>

lemma tree_map_leaf:
  assumes i: "blink_inv c lo lv P t r" and a: "heap t a = Some n" "is_leaf n" "lo a \<le> k" "k < high_key n"
  shows "tree_map t k = leaf_map n k"
proof -
  note D = invD [OF i]
  have "(k, v) \<in> entries (heap t) \<longleftrightarrow> leaf_map n k = Some v" for v
  proof
    assume "(k, v) \<in> entries (heap t)"
    then obtain a' n' where a': "heap t a' = Some n'" "is_leaf n'" "leaf_map n' k = Some v"
      by (auto simp: entries_def)
    have "a' = a"
      using covering_unique [OF D(9) a'(1) a(1), of k] leaf_entry(2,3) [OF contentD(3) [OF D(10) a'(1,2)] a'(3)]
        contentD(1) [OF D(10) a(1)] contentD(1) [OF D(10) a'(1)] a a'(2) by simp
    then show "leaf_map n k = Some v" using a a' by simp
  qed (use a in \<open>auto simp: entries_def\<close>)
  then show ?thesis using tree_map_entries [OF i] by (metis not_Some_eq)
qed

text \<open>Writing a leaf changes the map where the leaf's own map changes.\<close>

lemma tree_map_store_leaf:
  assumes i: "blink_inv c lo lv P t r" and i': "blink_inv c lo lv P (store t (Some a) n') r"
    and a: "heap t a = Some n" "is_leaf n" "is_leaf n'" and k: "lo a \<le> k" "k < high_key n"
    and m: "leaf_map n' = (leaf_map n)(k \<mapsto> v)"
  shows "tree_map (store t (Some a) n') = (tree_map t)(k \<mapsto> v)"
proof
  fix x
  have others: "(x, w) \<in> entries ((heap t)(a \<mapsto> n')) \<longleftrightarrow> (x, w) \<in> entries (heap t)" if "x \<noteq> k" for w
    using that a m by (simp add: entries_at [of x w _ a] cong: conj_cong)
  have "(k, v) \<in> entries (heap (store t (Some a) n'))" using a m by (auto simp: entries_def)
  then have "tree_map (store t (Some a) n') k = Some v" using tree_map_entries [OF i'] by blast
  then show "tree_map (store t (Some a) n') x = ((tree_map t)(k \<mapsto> v)) x"
    using others tree_map_entries [OF i, of x] tree_map_entries [OF i', of x]
    by (cases "x = k") (simp, metis fun_upd_other not_Some_eq store_simps(1))
qed

text \<open>Splitting a leaf adds the one entry.\<close>

lemma split_leaf_map:
  assumes res: "leaf_split_result c new n k v pos n' m'" and ok: "leaf_ok c l n"
    and k: "k \<notin> set (live_keys n)"
  shows "leaf_map n' x = Some w \<or> leaf_map m' x = Some w \<longleftrightarrow> ((leaf_map n)(k \<mapsto> v)) x = Some w"
proof -
  define p where "p = std_lower_bound (live_keys n) k"
  define K where "K = insert_at p k (live_keys n)"
  define V where "V = insert_at p v (live_vals n)"
  note R = res [unfolded leaf_split_result_def Let_def, folded p_def, folded K_def V_def]
  have len: "length (live_keys n) = length (live_vals n)" "sorted_less (live_keys n)"
    using ok by (simp_all add: leaf_ok_def)
  have KV: "length K = length V" using len by (simp add: K_def V_def)
  have live: "live_keys n' = take pos K" "live_vals n' = take pos V"
    "live_keys m' = drop pos K" "live_vals m' = drop pos V" using R by blast+
  have "sorted_less K" unfolding K_def p_def using std_lb.lb_insert_sorted len(2) k by blast
  then have dist: "distinct (map fst (zip K V))" using KV by (simp add: strict_sorted_iff)
  have zips: "zip K V = zip (take pos K) (take pos V) @ zip (drop pos K) (drop pos V)"
    by (metis append_take_drop_id drop_zip take_zip)
  have "leaf_map n' x = Some w \<or> leaf_map m' x = Some w \<longleftrightarrow> map_of (zip K V) x = Some w"
    unfolding leaf_map_def live map_of_eq_Some_iff [OF dist] using dist unfolding zips
    by (simp add: map_of_eq_Some_iff)
  also have "map_of (zip K V) = (leaf_map n)(k \<mapsto> v)"
    unfolding K_def V_def leaf_map_def
    using len k std_lb.lb_le [of "live_keys n" k] by (intro map_of_zip_insert_at) (auto simp: p_def)
  finally show ?thesis .
qed

lemma tree_map_split_leaf:
  assumes i: "blink_inv c lo lv P t r" and i': "blink_inv c lo' lv' P' (with_split c t a n' m') r'"
    and a: "heap t a = Some n" "is_leaf n"
    and res: "leaf_split_result c (next_addr t) n k v pos n' m'" and k: "k \<notin> set (live_keys n)"
    and cov: "lo a \<le> k" "k < high_key n"
  shows "tree_map (with_split c t a n' m') = (tree_map t)(k \<mapsto> v)"
proof
  fix x
  let ?t' = "with_split c t a n' m'"
  note D = invD [OF i]
  have ok: "leaf_ok c (lo a) n" using contentD(3) [OF D(10) a] .
  have leaves: "is_leaf n'" "is_leaf m'" using res by (simp_all add: leaf_split_result_def Let_def)
  have ne: "a \<noteq> next_addr t" using a D(7) by auto
  note M = split_leaf_map [OF res ok k]
  have e': "(x, w) \<in> entries (heap ?t') \<longleftrightarrow> ((leaf_map n)(k \<mapsto> v)) x = Some w
      \<or> (\<exists>b n. b \<noteq> a \<and> heap t b = Some n \<and> is_leaf n \<and> leaf_map n x = Some w)" for w
    unfolding M [symmetric] entries_at [of x w "heap ?t'" a]
    using leaves others_upd [where h = "heap t" and m = "next_addr t" and x = m', OF D(7) ne, of "\<lambda>n. is_leaf n \<and> leaf_map n x = Some w"]
    by (auto cong: conj_cong)
  have e: "(x, w) \<in> entries (heap t) \<longleftrightarrow> leaf_map n x = Some w
      \<or> (\<exists>b n. b \<noteq> a \<and> heap t b = Some n \<and> is_leaf n \<and> leaf_map n x = Some w)" for w
    unfolding entries_at [of x w "heap t" a] using a by auto
  show "tree_map ?t' x = ((tree_map t)(k \<mapsto> v)) x"
  proof (cases "x = k")
    case True
    then show ?thesis using tree_map_entries [OF i', of x v] e' [of v] by simp
  next
    case False
    then have "tree_map ?t' x = Some w \<longleftrightarrow> tree_map t x = Some w" for w
      using tree_map_entries [OF i', of x w] tree_map_entries [OF i, of x w] e' [of w] e [of w] by simp
    then show ?thesis using False by (metis fun_upd_other not_Some_eq)
  qed
qed

text \<open>Steps that only write inner nodes, or parents, keep the map.\<close>

lemma leaf_map_parent [simp]: "leaf_map (n\<lparr>parent := p\<rparr>) = leaf_map n"
  by (simp add: leaf_map_def)

lemma entries_reparent [simp]: "entries (heap (reparent t S p)) = entries (heap t)"
proof -
  have "(\<exists>n. heap (reparent t S p) a = Some n \<and> is_leaf n \<and> leaf_map n k = Some v)
    \<longleftrightarrow> (\<exists>n. heap t a = Some n \<and> is_leaf n \<and> leaf_map n k = Some v)" for a k v
    by auto
  then show ?thesis by (simp add: entries_def)
qed

lemma entries_inner_split:
  "heap t a = Some n \<Longrightarrow> \<not> is_leaf n \<Longrightarrow> heap t (next_addr t) = None \<Longrightarrow> \<not> is_leaf n' \<Longrightarrow> \<not> is_leaf m'
     \<Longrightarrow> entries (heap (with_split c t a n' m')) = entries (heap t)"
  by (simp add: entries_upd_inner)

lemma entries_new_root:
  "heap t (next_addr t) = None \<Longrightarrow> \<not> is_leaf n \<Longrightarrow> entries (heap (with_new_root c t n)) = entries (heap t)"
  by (simp add: entries_upd_inner)

section \<open>The empty tree\<close>

lemma Tree_ctor_heap:
  "heap (Tree_ctor c) = [0 \<mapsto> Node_ctor c 0 True None]" "root_node (Tree_ctor c) = Some 0"
  "next_addr (Tree_ctor c) = 1" "height (Tree_ctor c) = 1" "latches (Tree_ctor c) = (\<lambda>_. latch_init c)"
  by (auto simp: Tree_ctor_def Tree_create_node_def Let_def)

lemma leaf_ok_ctor: "leaf_ok c 0 (Node_ctor c a True p)"
  by (simp add: leaf_ok_def)

lemma inv_ctor: "blink_inv c (\<lambda>_. 0) (\<lambda>_. 0) {} (Tree_ctor c) 0"
  using leaf_ok_ctor [of c 0 None]
  by (simp add: blink_inv_def Tree_ctor_heap chain_ok_def disjoint_ok_def content_ok_def parents_ok_def
      linked_ok_def fill_ok_def max_key_def word_gt_0)

lemma tree_map_ctor: "tree_map (Tree_ctor c) = Map.empty"
  by (simp add: tree_map_def Tree_ctor_heap node_entries_def)
end
