(* ===== verification/BLink_Search.thy ===== *)
theory BLink_Search
  imports BLink_Invariant
begin

text \<open>
  The two moves every traversal of the B-link tree is made of, to the right sibling and down to a
  child, and the bounds on how often they can be made. The latched, the optimistic and the
  task-based trees use these lemmas.
\<close>

definition covers :: "(addr \<Rightarrow> key_type) \<Rightarrow> node_store \<Rightarrow> addr \<Rightarrow> key_type \<Rightarrow> bool" where
  "covers lo h a k \<longleftrightarrow> (\<exists>n. h a = Some n \<and> lo a \<le> k \<and> k < high_key n)"

lemma right_step:
  assumes i: "blink_inv c lo lv P t r" and a: "heap t a = Some n" "high_key n \<le> k" and k: "k \<noteq> max_key"
  obtains b m where "right_sibling n = Some b" "heap t b = Some m" "lo b \<le> k" "lo a < lo b" "lv b = lv a"
proof -
  note C = chainD [OF invD(8) [OF i] a(1)]
  have "high_key n \<noteq> max_key" using a(2) k by (metis le_max_key order_antisym)
  then obtain b where b: "right_sibling n = Some b" using C(2) by (cases "right_sibling n") auto
  obtain m where m: "heap t b = Some m" "lo b = high_key n" "lv b = lv a" using C(3) [OF b] by blast
  show thesis using that [OF b m(1)] m C(1) a(2) by simp
qed

text \<open>How many nodes a walk to the right can still visit.\<close>

definition right_nodes :: "(addr \<Rightarrow> key_type) \<Rightarrow> 'l tree \<Rightarrow> addr \<Rightarrow> addr set" where
  "right_nodes lo t a = {b. heap t b \<noteq> None \<and> lo a \<le> lo b}"

lemma right_nodes_bound:
  assumes "blink_inv c lo lv P t r"
  shows "finite (right_nodes lo t a)" "card (right_nodes lo t a) \<le> next_addr t"
proof -
  have sub: "right_nodes lo t a \<subseteq> {..<next_addr t}"
    using invD(6) [OF assms] by (auto simp: right_nodes_def)
  then show "finite (right_nodes lo t a)" by (rule finite_subset) simp
  show "card (right_nodes lo t a) \<le> next_addr t" using card_mono [OF _ sub] by simp
qed

lemma right_nodes_less:
  assumes "blink_inv c lo lv P t r" "heap t a \<noteq> None" "lo a < lo b"
  shows "card (right_nodes lo t b) < card (right_nodes lo t a)"
proof (rule psubset_card_mono [OF right_nodes_bound(1) [OF assms(1)]])
  show "right_nodes lo t b \<subset> right_nodes lo t a"
    using assms(2,3) unfolding right_nodes_def by (auto simp: less_le_not_le)
qed

lemma child_step:
  assumes i: "blink_inv c lo lv P t r" and a: "heap t a = Some n" "\<not> is_leaf n" "lo a \<le> k"
  obtains b where "Node_child n k = Inr (Some b)" "heap t b \<noteq> None" "lo b \<le> k" "Suc (lv b) = lv a"
    "is_kid (heap t) a b"
proof -
  have io: "inner_ok c lo lv (heap t) a n" using contentD(4) [OF invD(10) [OF i] a(1,2)] .
  have sh: "nsize n \<le> length (keys n)" "nsize n \<le> 32767" "nsize n < length (seps n)"
    using inner_okD(1) [OF io] capacity_lt_65536(3) [of c] by (auto simp: inner_shape_def)
  obtain p where p: "p \<le> nsize n" "Node_child n k = node_separator n p" "\<forall>i < p. keys n ! i \<le> k"
    using Node_child_spec [OF inner_okD(2) [OF io] sh(1,2)] by blast
  have mem: "seps n ! p \<in> set (live_seps n)"
    using p(1) inner_okD(4) [OF io] by (metis le_imp_less_Suc nth_mem nth_take)
  then obtain b where b: "seps n ! p = Some b" using inner_okD(6) [OF io] by (metis option.exhaust)
  have "lo b = (lo a # live_keys n) ! p" using inner_okD(7) [OF io p(1)] b by simp
  also have "\<dots> \<le> k" using p a(3) by (cases p) auto
  finally show thesis
    using that [of b] p(1,2) b mem sh(3) inner_okD(5) [OF io] a
    by (auto simp: node_separator_def arr_simps is_kid_def)
qed

text \<open>The child that is chosen is the last one that starts at or before the key.\<close>

lemma child_greatest:
  assumes i: "blink_inv c lo lv P t r" and a: "heap t a = Some n" "\<not> is_leaf n"
    and b: "Node_child n k = Inr (Some b)" and b': "Some b' \<in> set (live_seps n)" "lo b' \<le> k"
  shows "lo b' \<le> lo b"
proof -
  have io: "inner_ok c lo lv (heap t) a n" using contentD(4) [OF invD(10) [OF i] a(1,2)] .
  have sh: "nsize n \<le> length (keys n)" "nsize n \<le> 32767" "nsize n < length (seps n)"
    using inner_okD(1) [OF io] capacity_lt_65536(3) [of c] by (auto simp: inner_shape_def)
  obtain p where p: "p \<le> nsize n" "Node_child n k = node_separator n p"
      "\<forall>i. p \<le> i \<and> i < nsize n \<longrightarrow> k < keys n ! i"
    using Node_child_spec [OF inner_okD(2) [OF io] sh(1,2)] by blast
  have "seps n ! p = Some b" using b p(1,2) sh(3) by (simp add: node_separator_def arr_simps)
  then have lb: "lo b = (lo a # live_keys n) ! p" using inner_okD(7) [OF io p(1)] by simp
  obtain j where j: "j \<le> nsize n" "seps n ! j = Some b'"
    using b'(1) inner_okD(4) [OF io] by (auto simp: in_set_conv_nth less_Suc_eq_le)
  have lb': "lo b' = (lo a # live_keys n) ! j" using inner_okD(7) [OF io j(1)] j(2) by simp
  have "j \<le> p"
  proof (rule ccontr)
    assume "\<not> j \<le> p"
    then have "p \<le> j - 1 \<and> j - 1 < nsize n" using j(1) by linarith
    then have "k < keys n ! (j - 1)" using p(3) by blast
    then show False using lb' b'(2) \<open>\<not> j \<le> p\<close> j(1) by (cases j) auto
  qed
  moreover have "sorted (lo a # live_keys n)"
    using io strict_sorted_imp_sorted unfolding inner_ok_def
    by (metis append_Cons sorted_wrt_append)
  ultimately show ?thesis unfolding lb lb' using p(1) inner_okD(3) [OF io] by (intro sorted_nth_mono) auto
qed

text \<open>
  The nodes remembered on the way down: level by level above \<open>d\<close>, each covering the key. A node
  that covers a key of a node that is not pending covers that whole node.
\<close>

fun path_covers :: "(addr \<Rightarrow> key_type) \<Rightarrow> (addr \<Rightarrow> nat) \<Rightarrow> node_store \<Rightarrow> addr \<Rightarrow> key_type \<Rightarrow> nat \<Rightarrow> addr list \<Rightarrow> bool"
where
  "path_covers lo lv h r k d [] \<longleftrightarrow> d = lv r"
| "path_covers lo lv h r k d (q # qs) \<longleftrightarrow>
     covers lo h q k \<and> lv q = Suc d \<and> path_covers lo lv h r k (Suc d) qs"

lemma covers_up:
  assumes i: "blink_inv c lo lv P t r" and a: "heap t a = Some n" "a \<notin> P" and q: "heap t q = Some m"
    and lv: "lv q = Suc (lv a)" and k: "lo a \<le> k" "k < high_key n" "lo q \<le> k" "k < high_key m"
  shows "lo q \<le> lo a" "high_key n \<le> high_key m" "parent n = Some q"
proof -
  note D = invD [OF i]
  have "lv a < lv r" using lv contentD(2) [OF D(10) q] by simp
  then obtain q' m' where q': "parent n = Some q'" "heap t q' = Some m'" "lv q' = Suc (lv a)" "lo q' \<le> lo a"
    using D(11) a(1) unfolding parents_ok_def by metis
  have hi: "high_key n \<le> high_key m'" using parent_high [OF i a q'(1,2)] .
  have "q' = q"
    by (rule covering_unique [OF D(9) q'(2) q, of k]) (use q' lv k hi in auto)
  then show "lo q \<le> lo a" "high_key n \<le> high_key m" "parent n = Some q" using q' q hi by simp_all
qed

lemma path_covers_shift:
  assumes i: "blink_inv c lo lv P t r" and P: "\<forall>x \<in> P. lv x \<le> d" and a: "heap t a = Some n" "a \<notin> P" "lv a = d"
    and k: "lo a \<le> k" "k < high_key n" "lo a \<le> k'" "k' < high_key n"
    and p: "path_covers lo lv (heap t) r k d qs"
  shows "path_covers lo lv (heap t) r k' d qs"
  using assms
proof (induction qs arbitrary: d a n)
  case (Cons q qs)
  obtain m where q: "heap t q = Some m" "lo q \<le> k" "k < high_key m" "lv q = Suc d"
    and rest: "path_covers lo lv (heap t) r k (Suc d) qs"
    using Cons.prems by (auto simp: covers_def)
  note U = covers_up [OF i Cons.prems(3,4) q(1) _ Cons.prems(6,7) q(2,3)]
  have k': "lo q \<le> k'" "k' < high_key m" using U q(4) Cons.prems(5,8,9) by (auto intro: order.trans)
  have "q \<notin> P" using Cons.prems(2) q(4) by fastforce
  then have "path_covers lo lv (heap t) r k' (Suc d) qs"
    using Cons.IH [OF i _ q(1) _ q(4) q(2,3) k' rest] Cons.prems(2) by (simp add: le_Suc_eq)
  then show ?case using q k' by (auto simp: covers_def)
qed simp

lemma path_covers_cong:
  assumes "path_covers lo lv h r k d qs" "\<And>a n. h a = Some n \<Longrightarrow> d < lv a \<Longrightarrow> lo' a = lo a \<and> lv' a = lv a
      \<and> (\<exists>n'. h' a = Some n' \<and> high_key n' = high_key n)" "lv' r = lv r"
  shows "path_covers lo' lv' h' r k d qs"
  using assms
proof (induction qs arbitrary: d)
  case (Cons q qs)
  have "path_covers lo' lv' h' r k (Suc d) qs" using Cons by simp
  moreover obtain n where "h q = Some n" "lo q \<le> k" "k < high_key n" "lv q = Suc d"
    using Cons.prems(1) by (auto simp: covers_def)
  ultimately show ?case using Cons.prems(2) [of q n] by (auto simp: covers_def)
qed simp

text \<open>A pending node already points to the node its separator will be inserted into.\<close>

lemma parent_is_cover:
  assumes i: "blink_inv c lo lv P t r" and a: "heap t a = Some n" and q: "heap t q = Some m"
    "lv q = Suc (lv a)" "lo q \<le> lo a" "lo a < high_key m"
  shows "parent n = Some q"
proof -
  note D = invD [OF i]
  have "lv a < lv r" using q(2) contentD(2) [OF D(10) q(1)] by simp
  then obtain q' m' where "parent n = Some q'" "heap t q' = Some m'" "lv q' = Suc (lv a)" "lo q' \<le> lo a"
    "lo a < high_key m'" using D(11) a unfolding parents_ok_def by metis
  then show ?thesis using covering_unique [OF D(9) _ q(1), of q' m' "lo a"] q(2-4) by simp
qed

lemma inner_kids_list:
  assumes "inner_ok c lo lv h q n"
  obtains cs where "live_seps n = map Some cs" "\<forall>b \<in> set cs. h b \<noteq> None"
proof
  have some: "\<exists>b. x = Some b \<and> h b \<noteq> None" if "x \<in> set (live_seps n)" for x
    using assms that unfolding inner_ok_def by blast
  then show "\<forall>b \<in> set (map the (live_seps n)). h b \<noteq> None" by fastforce
  have "map (\<lambda>x. x) (live_seps n) = map (\<lambda>x. Some (the x)) (live_seps n)"
    unfolding map_eq_conv using some by fastforce
  then show "live_seps n = map Some (map the (live_seps n))" by (simp add: o_def)
qed

text \<open>The largest key is never stored: no interval contains it.\<close>

lemma no_max_key:
  assumes "blink_inv c lo lv P t r"
  shows "max_key \<notin> dom (tree_map t)"
proof
  assume "max_key \<in> dom (tree_map t)"
  then obtain a n v where "heap t a = Some n" "is_leaf n" "leaf_map n max_key = Some v"
    using tree_map_entries [OF assms] by (auto simp: entries_def)
  then have "max_key < high_key n" using leaf_entry(3) contentD(3) [OF invD(10) [OF assms]] by blast
  then show False by (simp add: leD)
qed

text \<open>Every level covers every key below the largest one.\<close>

lemma covered_to_the_right:
  assumes i: "blink_inv c lo lv P t r" and k: "k \<noteq> max_key" and a: "heap t a \<noteq> None" "lo a \<le> k"
  shows "\<exists>b m. heap t b = Some m \<and> lv b = lv a \<and> lo b \<le> k \<and> k < high_key m"
  using a
proof (induction "card (right_nodes lo t a)" arbitrary: a rule: less_induct)
  case less
  obtain n where n: "heap t a = Some n" using less.prems(1) by blast
  show ?case
  proof (cases "high_key n \<le> k")
    case True
    obtain b m where b: "heap t b = Some m" "lo b \<le> k" "lo a < lo b" "lv b = lv a"
      using right_step [OF i n True k] by metis
    then show ?thesis using less.hyps [of b] right_nodes_less [OF i less.prems(1) b(3)] by simp
  next
    case False
    then show ?thesis using n less.prems(2) by (metis not_le)
  qed
qed

lemma level_covered:
  assumes i: "blink_inv c lo lv P t r" and d: "d \<le> lv r" and k: "k \<noteq> max_key"
  shows "\<exists>b m. heap t b = Some m \<and> lv b = d \<and> lo b \<le> k \<and> k < high_key m"
  using d
proof (induction d rule: inc_induct)
  case base
  show ?case using covered_to_the_right [OF i k invD(2) [OF i]] invD(3) [OF i] by simp
next
  case (step d)
  then obtain a n where a: "heap t a = Some n" "lv a = Suc d" "lo a \<le> k" by blast
  have "\<not> is_leaf n" using contentD(1) [OF invD(10) [OF i] a(1)] a(2) by simp
  then obtain b where "heap t b \<noteq> None" "lo b \<le> k" "Suc (lv b) = lv a"
    using child_step [OF i a(1) _ a(3)] by metis
  then show ?case using covered_to_the_right [OF i k, of b] a(2) by auto
qed

text \<open>In a tree without pending nodes the child of a node that covers a key covers it too.\<close>

lemma child_covers:
  assumes i: "blink_inv c lo lv {} t r" and a: "heap t a = Some n" "\<not> is_leaf n" and k: "lo a \<le> k" "k < high_key n"
  obtains b m where "Node_child n k = Inr (Some b)" "heap t b = Some m" "lo b \<le> k" "k < high_key m" "Suc (lv b) = lv a"
proof -
  note D = invD [OF i]
  obtain b where b: "Node_child n k = Inr (Some b)" "heap t b \<noteq> None" "lo b \<le> k" "Suc (lv b) = lv a"
    using child_step [OF i a k(1)] by metis
  have "k \<noteq> max_key" using k(2) by (metis le_max_key leD)
  then obtain b' m where b': "heap t b' = Some m" "lv b' = lv b" "lo b' \<le> k" "k < high_key m"
    using level_covered [OF i, of "lv b" k] b(4) contentD(2) [OF D(10) a(1)] by auto
  have "b' \<noteq> r \<and> lv b' \<noteq> lv r" using b'(2) b(4) contentD(2) [OF D(10) a(1)] by auto
  then obtain q where "is_kid (heap t) q b'" using D(12) b'(1) unfolding linked_ok_def by (metis DiffI domI empty_iff)
  then obtain nq where q: "heap t q = Some nq" "\<not> is_leaf nq" "Some b' \<in> set (live_seps nq)" by (auto simp: is_kid_def)
  have io: "inner_ok c lo lv (heap t) q nq" using contentD(4) [OF D(10) q(1,2)] .
  have "lv q = lv a" using inner_okD(5) [OF io q(3)] b'(2) b(4) by simp
  moreover have "lo q \<le> k" "k < high_key nq"
    using kid_lo(2) [OF io q(3)] kid_high [OF D(8,9,10) q b'(1)] b'(3,4) by simp_all
  ultimately have "q = a" using covering_unique [OF D(9) q(1) a(1) _ _ _ k] by blast
  then have le: "lo b' \<le> lo b" using child_greatest [OF i a b(1)] q a(1) b'(3) by simp
  obtain mb where mb: "heap t b = Some mb" using b(2) by blast
  have "\<not> lo b' < lo b"
    using disjointD [OF D(9) b'(1) mb b'(2)] chainD(1) [OF D(8) mb] b(3) b'(4) by (metis leD order.strict_trans1)
  then have "b' = b" using le covering_unique [OF D(9) b'(1) mb b'(2), of "lo b"] b'(4) b(3) chainD(1) [OF D(8) mb] by auto
  then show thesis using that [OF b(1) mb] b(4) b'(1,3,4) mb by simp
qed

lemma root_high:
  assumes i: "blink_inv c lo lv {} t r" and n: "heap t r = Some n"
  shows "high_key n = max_key"
proof (cases "right_sibling n")
  case None
  then show ?thesis using chainD(2) [OF invD(8) [OF i] n] by simp
next
  case (Some b)
  then have b: "heap t b \<noteq> None" "lv b = lv r" "lo b = high_key n" using chainD(3) [OF invD(8) [OF i] n] by auto
  then have "b = r" using invD(12) [OF i] unfolding linked_ok_def by (metis Diff_empty domIff)
  then show ?thesis using b(3) chainD(1) [OF invD(8) [OF i] n] by simp
qed

end
