(* ===== verification/Index_Spec.thy ===== *)
theory Index_Spec
  imports Prelude
begin

text \<open>
  What the benchmark expects of an index, whichever tree implements it: \<^verbatim>\<open>insert\<close> adds a key that
  is not there and leaves a present key alone, \<^verbatim>\<open>update\<close> overwrites the value of a present key,
  \<^verbatim>\<open>find\<close> returns the value of a present key. The contract is a locale over an abstraction
  function into finite maps; the consequences for sequences of operations are proved once and
  hold for every interpretation.
\<close>

type_synonym dictionary = "key_type \<rightharpoonup> value_type"

definition insert_new :: "dictionary \<Rightarrow> key_type \<Rightarrow> value_type \<Rightarrow> dictionary" where
  "insert_new m k v = (if k \<in> dom m then m else m(k \<mapsto> v))"

lemma dom_insert_new [simp]: "dom (insert_new m k v) = insert k (dom m)"
  by (auto simp: insert_new_def)

lemma insert_new_idem: "insert_new (insert_new m k v) k w = insert_new m k v"
  by (simp add: insert_new_def)

lemma insert_new_commute:
  "k \<noteq> k' \<Longrightarrow> insert_new (insert_new m k v) k' v' = insert_new (insert_new m k' v') k v"
  by (auto simp: insert_new_def fun_eq_iff)

text \<open>Loading: the first value of every key wins.\<close>

fun load :: "dictionary \<Rightarrow> (key_type \<times> value_type) list \<Rightarrow> dictionary" where
  "load m [] = m"
| "load m ((k, v) # kvs) = load (insert_new m k v) kvs"

lemma load_dom: "dom (load m kvs) = fst ` set kvs \<union> dom m"
  by (induction m kvs rule: load.induct) auto

lemma load_eq: "load m kvs = map_of kvs ++ m"
proof (induction m kvs rule: load.induct)
  case (2 m k v kvs)
  then show ?case by (auto simp: insert_new_def fun_eq_iff map_add_def domIff split: option.splits)
qed simp

lemma load_keeps: "m k = Some v \<Longrightarrow> load m kvs k = Some v"
  by (simp add: load_eq)

locale map_index =
  fixes ins :: "'s \<Rightarrow> key_type \<Rightarrow> value_type \<Rightarrow> 's result"
    and upd :: "'s \<Rightarrow> key_type \<Rightarrow> value_type \<Rightarrow> 's result"
    and fnd :: "'s \<Rightarrow> key_type \<Rightarrow> (value_type \<times> 's) result"
    and ok :: "'s \<Rightarrow> bool"
    and levels :: "'s \<Rightarrow> nat"
    and limit :: nat
    and dict :: "'s \<Rightarrow> dictionary"
  assumes ins_law: "ok s \<Longrightarrow> levels s \<le> limit \<Longrightarrow> k \<noteq> max_key \<Longrightarrow>
      \<exists>s'. ins s k v = Inr s' \<and> ok s' \<and> dict s' = insert_new (dict s) k v \<and> levels s' \<le> Suc (levels s)"
    and upd_law: "ok s \<Longrightarrow> levels s \<le> limit \<Longrightarrow> k \<in> dom (dict s) \<Longrightarrow>
      \<exists>s'. upd s k v = Inr s' \<and> ok s' \<and> dict s' = (dict s)(k \<mapsto> v) \<and> levels s' = levels s"
    and fnd_law: "ok s \<Longrightarrow> dict s k = Some v \<Longrightarrow> \<exists>s'. fnd s k = Inr (v, s') \<and> ok s' \<and> dict s' = dict s"
begin

text \<open>What was inserted is found, and an insertion does not disturb other keys.\<close>

lemma find_inserted:
  assumes "ok s" "levels s \<le> limit" "k \<noteq> max_key" "dict s k = None"
  shows "\<exists>s' s''. ins s k v = Inr s' \<and> fnd s' k = Inr (v, s'')"
  using ins_law [OF assms(1-3), of v] fnd_law [of _ k v] assms(4)
  by (fastforce simp: insert_new_def domIff)

lemma find_after_insert:
  assumes "ok s" "levels s \<le> limit" "k \<noteq> max_key" "dict s k' = Some w"
  shows "\<exists>s' s''. ins s k v = Inr s' \<and> fnd s' k' = Inr (w, s'')"
proof -
  obtain s' where s': "ins s k v = Inr s'" "ok s'" "dict s' = insert_new (dict s) k v"
    using ins_law [OF assms(1-3)] by blast
  then have "dict s' k' = Some w" using assms(4) by (auto simp: insert_new_def)
  then show ?thesis using s' fnd_law [of s' k' w] by blast
qed

lemma find_updated:
  assumes "ok s" "levels s \<le> limit" "k \<in> dom (dict s)"
  shows "\<exists>s' s''. upd s k v = Inr s' \<and> fnd s' k = Inr (v, s'')"
  using upd_law [OF assms, of v] fnd_law [of _ k v] by fastforce

text \<open>A whole load phase.\<close>

fun ins_all :: "'s \<Rightarrow> (key_type \<times> value_type) list \<Rightarrow> 's result" where
  "ins_all s [] = Inr s"
| "ins_all s ((k, v) # kvs) = bindR (ins s k v) (\<lambda>s'. ins_all s' kvs)"

lemma ins_all_law:
  "ok s \<Longrightarrow> levels s + length kvs \<le> Suc limit \<Longrightarrow> max_key \<notin> fst ` set kvs \<Longrightarrow>
     \<exists>s'. ins_all s kvs = Inr s' \<and> ok s' \<and> dict s' = load (dict s) kvs"
proof (induction s kvs rule: ins_all.induct)
  case (2 s k v kvs)
  obtain s' where s': "ins s k v = Inr s'" "ok s'" "dict s' = insert_new (dict s) k v" "levels s' \<le> Suc (levels s)"
    using ins_law [of s k v] "2.prems" by auto
  then show ?case using "2.IH" [of s'] "2.prems" by simp
qed simp

lemma loaded_is_found:
  assumes "ok s" "levels s + length kvs \<le> Suc limit" "max_key \<notin> fst ` set kvs" "load (dict s) kvs k = Some v"
  shows "\<exists>s' s''. ins_all s kvs = Inr s' \<and> fnd s' k = Inr (v, s'')"
  using ins_all_law [OF assms(1-3)] fnd_law [of _ k v] assms(4) by fastforce

end

end
