(* ===== verification/BLink_Insert.thy ===== *)
theory BLink_Insert
  imports BLink_Search Index_Spec
begin

text \<open>
  The insertion steps the threaded trees share: \<^verbatim>\<open>insert_into_leaf\<close> and \<^verbatim>\<open>insert_into_inner\<close>
  of \<^verbatim>\<open>src/src/indices/blinktree/thread/latched/thread_tree.cpp\<close>, which are the same in the
  optimistic tree, and what one step does to the invariant, to the path and to the contents.
  Nothing here depends on the kind of latch a node carries.
\<close>

section \<open>Operations\<close>

text \<open>\<open>None\<close> as the path is the null pointer that \<^verbatim>\<open>find\<close> passes.\<close>

definition push_path :: "node_path option \<Rightarrow> ptr \<Rightarrow> node_path option result" where
  "push_path path a = (case path of None \<Rightarrow> Inr None
     | Some p \<Rightarrow> bindR (NodePath_push p a) (\<lambda>p'. Inr (Some p')))"

text \<open>The pair \<^verbatim>\<open>{nullptr, 0}\<close> is \<open>(None, 0)\<close>.\<close>

definition ThreadTree_insert_into_leaf ::
  "'l config \<Rightarrow> 'l tree \<Rightarrow> ptr \<Rightarrow> key_type \<Rightarrow> value_type \<Rightarrow> ((ptr \<times> key_type) \<times> 'l tree) result" where
  "ThreadTree_insert_into_leaf c t leaf_node key value =
     bindR (deref t leaf_node) (\<lambda>n.
     bindR (Node_index n key) (\<lambda>index.
     bindR (if index < nsize n then bindR (node_key n index) (\<lambda>k. Inr (k = key)) else Inr False)
       (\<lambda>present.
     if present then Inr ((None, 0), t)
     else if \<not> is_full c n
     then bindR (Node_insert_value n index value key) (\<lambda>n'. Inr ((None, 0), store t leaf_node n'))
     else bindR (Tree_split_leaf_node c t leaf_node key value) (\<lambda>(right_leaf, t').
          bindR (deref t' right_leaf) (\<lambda>m.
          bindR (node_key m 0) (\<lambda>k. Inr ((right_leaf, k), t')))))))"

definition ThreadTree_insert_into_inner ::
  "'l config \<Rightarrow> 'l tree \<Rightarrow> ptr \<Rightarrow> key_type \<Rightarrow> ptr \<Rightarrow> ((ptr \<times> key_type) \<times> 'l tree) result" where
  "ThreadTree_insert_into_inner c t inner_node key separator =
     bindR (deref t inner_node) (\<lambda>n.
     if \<not> is_full c n
     then bindR (bindR (Node_index n key) (\<lambda>index. Node_insert_separator n index separator key))
            (\<lambda>n'. Inr ((None, 0), store t inner_node n'))
     else Tree_split_inner_node c t inner_node key separator)"

section \<open>Latches do not matter for the contents\<close>

lemma tree_map_upd_latches [simp]: "tree_map (t\<lparr>latches := L\<rparr>) = tree_map t"
  by (simp add: tree_map_def)

lemma inv_upd_latches [simp]: "blink_inv c lo lv P (t\<lparr>latches := L\<rparr>) r = blink_inv c lo lv P t r"
  by (simp add: blink_inv_def)

text \<open>The tree with another latch word in one node.\<close>

definition locked :: "'l tree \<Rightarrow> addr \<Rightarrow> 'l \<Rightarrow> 'l tree" where
  "locked t a l = t\<lparr>latches := (latches t)(a := l)\<rparr>"

lemma locked_simps [simp]:
  "heap (locked t a l) = heap t" "next_addr (locked t a l) = next_addr t"
  "root_node (locked t a l) = root_node t" "height (locked t a l) = height t"
  "latches (locked t a l) = (latches t)(a := l)" "deref (locked t a l) p = deref t p"
  by (simp_all add: locked_def deref_def split: option.splits)

lemma inv_locked [simp]: "blink_inv c lo lv P (locked t a l) r = blink_inv c lo lv P t r"
  by (simp add: blink_inv_def)

lemma tree_map_locked [simp]: "tree_map (locked t a l) = tree_map t"
  by (simp add: tree_map_def)

section \<open>The path\<close>

text \<open>The stack a path holds after the descent; a null path stays null.\<close>

definition path_is :: "node_path option \<Rightarrow> addr list \<Rightarrow> bool" where
  "path_is p qs \<longleftrightarrow> (case p of None \<Rightarrow> True | Some p \<Rightarrow> path_ok p \<and> path_stack p = map Some qs)"

lemma path_is_init: "path_is (Some NodePath_init) []"
  by (simp add: path_is_def path_init)

lemma push_path_is:
  assumes "path_is p qs" "length qs < NodePath_capacity \<or> p = None"
  obtains p' where "push_path p (Some a) = Inr p'" "path_is p' (a # qs)" "p' = None \<longleftrightarrow> p = None"
proof (cases p)
  case None
  then show thesis using that by (simp add: push_path_def path_is_def)
next
  case (Some p1)
  then have "path_ok p1" "path_stack p1 = map Some qs" "length (path_stack p1) < NodePath_capacity"
    using assms by (simp_all add: path_is_def)
  then show thesis using path_push [of p1 "Some a"] that Some by (force simp: push_path_def path_is_def)
qed

section \<open>One step of an insertion\<close>

text \<open>
  \<open>outcome\<close>: after an insertion step either nothing is left to do, or one node is pending, its
  lower end is the key handed up, and the remaining path leads to where it belongs.
\<close>

definition outcome :: "'l config \<Rightarrow> addr list \<Rightarrow> addr \<Rightarrow> ptr \<times> key_type \<Rightarrow> 'l tree \<Rightarrow> bool" where
  "outcome c qs r up t \<longleftrightarrow> (up = (None, 0) \<and> (\<exists>lo lv. blink_inv c lo lv {} t r))
     \<or> (\<exists>lo lv s. up = (Some s, lo s) \<and> blink_inv c lo lv {s} t r \<and> path_covers lo lv (heap t) r (lo s) (lv s) qs)"

lemma outcome_pending:
  "blink_inv c lo lv {s} t r \<Longrightarrow> path_covers lo lv (heap t) r (lo s) (lv s) qs \<Longrightarrow> lo s = k
     \<Longrightarrow> outcome c qs r (Some s, k) t"
  unfolding outcome_def by blast

text \<open>What a step may change besides the contents: at most one node is created.\<close>

definition frame :: "'l config \<Rightarrow> addr \<Rightarrow> 'l tree \<Rightarrow> 'l tree \<Rightarrow> bool" where
  "frame c a t t' \<longleftrightarrow> root_node t' = root_node t \<and> height t' = height t \<and> heap t' a \<noteq> None
     \<and> latches t' a = latches t a \<and> (\<forall>b. b \<noteq> a \<longrightarrow> latches t' b \<in> {latches t b, latch_init c})"

lemma frame_store: "frame c a t (store t (Some a) n)"
  by (simp add: frame_def)

lemma frame_refl: "heap t a \<noteq> None \<Longrightarrow> frame c a t t"
  by (simp add: frame_def)

lemma frame_split:
  "a \<noteq> next_addr t \<Longrightarrow> frame c a t (reparent (with_split c t a n' m') S p)"
  by (auto simp: frame_def)

lemma split_path_covers:
  assumes i: "blink_inv c lo lv P t r" and P: "\<forall>x \<in> P. lv x \<le> lv a" and a: "heap t a = Some n" "a \<notin> P"
    and k: "lo a \<le> k" "k < high_key n" "lo a \<le> s" "s < high_key n"
    and p: "path_covers lo lv (heap t) r k (lv a) qs"
  shows "path_covers (lo(next_addr t := s)) (lv(next_addr t := lv a))
    (heap (reparent (with_split c t a n' m') S q)) r s (lv a) qs"
proof (rule path_covers_cong [OF path_covers_shift [OF i P a refl k p]])
  note D = invD [OF i]
  show "(lv(next_addr t := lv a)) r = lv r" using D(2,7) by auto
  fix b x
  assume b: "heap t b = Some x" "lv a < lv b"
  then have "b \<noteq> next_addr t" "b \<noteq> a" using D(7) by auto
  then show "(lo(next_addr t := s)) b = lo b \<and> (lv(next_addr t := lv a)) b = lv b \<and>
      (\<exists>n''. heap (reparent (with_split c t a n' m') S q) b = Some n'' \<and> high_key n'' = high_key x)"
    using b by auto
qed

lemma insert_into_leaf_spec:
  assumes i: "blink_inv c lo lv {} t r" and c: "config_ok c" and a: "heap t a = Some n" "is_leaf n"
    and k: "lo a \<le> k" "k < high_key n" and p: "path_covers lo lv (heap t) r k 0 qs"
  shows "\<exists>up t'. ThreadTree_insert_into_leaf c t (Some a) k v = Inr (up, t') \<and> outcome c qs r up t'
    \<and> frame c a t t' \<and> tree_map t' = insert_new (tree_map t) k v"
proof -
  note D = invD [OF i]
  have ok: "leaf_ok c (lo a) n" using contentD(3) [OF D(10) a] .
  have sz: "nsize n \<le> length (keys n)" "sorted_less (live_keys n)" using ok by (simp_all add: leaf_ok_def)
  let ?p = "std_lower_bound (live_keys n) k"
  have dom: "k \<in> dom (tree_map t) \<longleftrightarrow> k \<in> set (live_keys n)"
    using tree_map_leaf [OF i a k] leaf_map_None_iff [OF ok] by (simp add: domIff)
  have present: "(if ?p < nsize n then bindR (node_key n ?p) (\<lambda>x. Inr (x = k)) else Inr False)
      = Inr (k \<in> set (live_keys n))"
    using std_lb.lb_mem_iff [where xs = "live_keys n" and k = k] sz by (simp add: node_key_def arr_simps)
  have eq: "ThreadTree_insert_into_leaf c t (Some a) k v = (if k \<in> set (live_keys n) then Inr ((None, 0), t)
      else if \<not> is_full c n then bindR (Node_insert_value n ?p v k) (\<lambda>n'. Inr ((None, 0), store t (Some a) n'))
      else bindR (Tree_split_leaf_node c t (Some a) k v) (\<lambda>(right_leaf, t').
          bindR (deref t' right_leaf) (\<lambda>m. bindR (node_key m 0) (\<lambda>k. Inr ((right_leaf, k), t')))))"
    by (simp only: ThreadTree_insert_into_leaf_def deref_Some [OF a(1)] bindR_Inr Node_index_eq [OF sz(1)] present)
  consider (there) "k \<in> set (live_keys n)" | (room) "k \<notin> set (live_keys n)" "nsize n < LeafNode_max_items c"
    | (full) "k \<notin> set (live_keys n)" "nsize n = LeafNode_max_items c"
    using ok unfolding leaf_ok_def by linarith
  then show ?thesis
  proof cases
    case there
    then have "ThreadTree_insert_into_leaf c t (Some a) k v = Inr ((None, 0), t)" by (simp add: eq)
    moreover have "outcome c qs r (None, 0) t" using i by (auto simp: outcome_def)
    ultimately show ?thesis using there dom frame_refl [of t a c] a(1) by (fastforce simp: insert_new_def)
  next
    case room
    define n' where "n' = n\<lparr>keys := open_gap ?p k (nsize n) (keys n),
      vals := open_gap ?p v (nsize n) (vals n), nsize := Suc (nsize n)\<rparr>"
    note L = leaf_insert_ok [OF ok room(2,1) k, where v = v, folded n'_def]
    have i': "blink_inv c lo lv {} (store t (Some a) n') r" using i a L(4,2) by (rule inv_leaf_content) (simp add: n'_def)
    have "ThreadTree_insert_into_leaf c t (Some a) k v = Inr ((None, 0), store t (Some a) n')"
      using room a L(1) by (simp add: eq is_full_def)
    moreover have "tree_map (store t (Some a) n') = (tree_map t)(k \<mapsto> v)"
      using tree_map_store_leaf [OF i i' a _ k L(3)] L(2) by (simp add: leaf_ok_def)
    moreover have "outcome c qs r (None, 0) (store t (Some a) n')" using i' by (auto simp: outcome_def)
    ultimately show ?thesis using room dom frame_store by (fastforce simp: insert_new_def)
  next
    case full
    have ne: "a \<noteq> next_addr t" using a D(7) by auto
    obtain pos n' m' where split: "Tree_split_leaf_node c t (Some a) k v
        = Inr (Some (next_addr t), with_split c t a n' m')"
      and res: "leaf_split_result c (next_addr t) n k v pos n' m'"
      using split_leaf_effect [OF c a(1) ne ok full(2,1)] by blast
    note H = leaf_split_halves_ok [OF res ok full(2,1) k]
    note i' = inv_leaf_split [OF i a res full(2,1) k]
    have "node_key m' 0 = Inr (high_key n')"
      using H(4-6) by (simp add: node_key_def arr_simps leaf_ok_def)
    then have "ThreadTree_insert_into_leaf c t (Some a) k v
        = Inr ((Some (next_addr t), high_key n'), with_split c t a n' m')"
      using full a split ne by (simp add: eq is_full_def)
    moreover have "lv a = 0" using contentD(1) [OF D(10) a(1)] a(2) by simp
    then have "outcome c qs r (Some (next_addr t), high_key n') (with_split c t a n' m')"
      using split_path_covers [OF i _ a(1) _ k, of "high_key n'" qs n' m' "{}"] H(1,2) p
      by (intro outcome_pending [OF i']) (simp_all add: less_imp_le)
    moreover have "tree_map (with_split c t a n' m') = (tree_map t)(k \<mapsto> v)"
      using tree_map_split_leaf [OF i i' a res full(1) k] .
    moreover have "frame c a t (with_split c t a n' m')" using frame_split [OF ne, of c n' m' "{}"] by simp
    ultimately show ?thesis using full dom by (auto simp: insert_new_def)
  qed
qed

lemma split_inner_spec:
  assumes i: "blink_inv c lo lv {s} t r" and c: "config_ok c" and q: "heap t q = Some n" "\<not> is_leaf n"
    and k: "lo q \<le> lo s" "lo s < high_key n" and lv: "lv q = Suc (lv s)"
    and full: "nsize n = InnerNode_max_keys c" and p: "path_covers lo lv (heap t) r (lo s) (lv q) qs"
  shows "\<exists>up t'. Tree_split_inner_node c t (Some q) (lo s) (Some s) = Inr (up, t')
    \<and> outcome c qs r up t' \<and> frame c q t t' \<and> tree_map t' = tree_map t"
proof -
  note D = invD [OF i]
  let ?new = "next_addr t"
  have io: "inner_ok c lo lv (heap t) q n" using contentD(4) [OF D(10) q] .
  have ne: "q \<noteq> ?new" using q D(7) by auto
  have new: "lo s \<notin> set (lo q # live_keys n)" using pending_key_new [OF i _ q lv] by simp
  obtain ns where ns: "heap t s = Some ns" using D(12) unfolding linked_ok_def by auto
  obtain cs where cs: "live_seps n = map Some cs" "\<forall>b \<in> set cs. heap t b \<noteq> None"
    using inner_kids_list [OF io] .
  have "s \<noteq> q" "s \<noteq> ?new" using lv ns D(7) by auto
  then obtain n' m' bs where split: "Tree_split_inner_node c t (Some q) (lo s) (Some s)
      = Inr ((Some ?new, inner_split_key c n (lo s)), reparent (with_split c t q n' m') (set bs) (Some ?new))"
    and res: "inner_split_result c ?new n (lo s) (Some s) n' m'" "live_seps m' = map Some bs"
    using split_inner_effect [OF c q(1) ne inner_okD(1) [OF io] full inner_okD(2) [OF io] _ cs ns
        parent_is_cover [OF i ns q(1) lv k], of "lo s"] new by auto
  let ?t' = "reparent (with_split c t q n' m') (set bs) (Some ?new)"
  note H = inner_split_halves [OF res(1) io full c inner_insert_lists(1,2) [OF io refl new k]]
  note i' = inv_inner_split [OF i c q full lv k res]
  have nl: "\<not> is_leaf n'" "\<not> is_leaf m'" using H(3,4) by (simp_all add: inner_shape_def)
  have "path_covers (lo(?new := high_key n')) (lv(?new := lv q)) (heap ?t') r (high_key n') (lv q) qs"
    by (rule split_path_covers [OF i _ q(1) _ k _ _ p]) (use lv H(1,2) in auto)
  then have "outcome c qs r (Some ?new, high_key n') ?t'"
    by (intro outcome_pending [OF i']) simp_all
  moreover have "tree_map ?t' = tree_map t"
    using tree_map_eqI [OF i i'] entries_inner_split [OF q D(7) nl] by simp
  ultimately show ?thesis using split frame_split [OF ne] H(10) by auto
qed

lemma insert_into_inner_spec:
  assumes i: "blink_inv c lo lv {s} t r" and c: "config_ok c"
    and p: "path_covers lo lv (heap t) r (lo s) (lv s) (q # qs)"
  shows "\<exists>up t'. ThreadTree_insert_into_inner c t (Some q) (lo s) (Some s) = Inr (up, t')
    \<and> outcome c qs r up t' \<and> frame c q t t' \<and> tree_map t' = tree_map t"
proof -
  note D = invD [OF i]
  obtain n where q: "heap t q = Some n" and k: "lo q \<le> lo s" "lo s < high_key n"
    and lv: "lv q = Suc (lv s)" and rest: "path_covers lo lv (heap t) r (lo s) (lv q) qs"
    using p by (auto simp: covers_def)
  have nl: "\<not> is_leaf n" using contentD(1) [OF D(10) q] lv by simp
  show ?thesis
  proof (cases "nsize n < InnerNode_max_keys c")
    case True
    obtain n' where n': "bindR (Node_index n (lo s)) (\<lambda>ix. Node_insert_separator n ix (Some s) (lo s)) = Inr n'"
        "\<not> is_leaf n'" "blink_inv c lo lv {} (store t (Some q) n') r"
      using inv_inner_insert [OF i q nl True lv k] by blast
    have "ThreadTree_insert_into_inner c t (Some q) (lo s) (Some s) = Inr ((None, 0), store t (Some q) n')"
      using True q nl n'(1) by (simp add: ThreadTree_insert_into_inner_def is_full_def)
    moreover have "tree_map (store t (Some q) n') = tree_map t"
      using tree_map_eqI [OF i n'(3)] entries_upd_inner [of "heap t" q n'] q nl n'(2) by simp
    ultimately show ?thesis using n'(3) frame_store by (fastforce simp: outcome_def)
  next
    case False
    then have full: "nsize n = InnerNode_max_keys c"
      using inner_okD(1) [OF contentD(4) [OF D(10) q nl]] by (simp add: inner_shape_def)
    then have "ThreadTree_insert_into_inner c t (Some q) (lo s) (Some s)
        = Tree_split_inner_node c t (Some q) (lo s) (Some s)"
      using q nl by (simp add: ThreadTree_insert_into_inner_def is_full_def)
    then show ?thesis using split_inner_spec [OF i c q nl k lv full rest] by simp
  qed
qed

lemma outcome_locked [simp]: "outcome c qs r up (locked t a l) = outcome c qs r up t"
  by (simp add: outcome_def)

end
