(* ===== verification/Latched_Tree.thy ===== *)
theory Latched_Tree
  imports BLink_Insert
begin

text \<open>
  The latched thread tree: \<^verbatim>\<open>src/src/indices/blinktree/thread/latched/thread_tree.h\<close> and
  \<^verbatim>\<open>thread_tree.cpp\<close>. Its operations are modelled whole, with every latch operation, for one
  thread that runs without interference; a busy-wait that nobody would end is an error value, so
  the properties also show that no operation waits for a latch it left behind.

  Loops carry fuel: walking right visits a node at most once (\<open>next_addr\<close> steps), descending
  visits one node per level (\<open>height\<close> steps). The properties show that the fuel suffices.
\<close>

section \<open>The model\<close>

record thread_tree =
  base :: "latch tree"
  tree_lock :: bool

definition ThreadTree_ctor :: "latch config \<Rightarrow> thread_tree" where
  "ThreadTree_ctor c = \<lparr>base = Tree_ctor c, tree_lock = Spinlock_init\<rparr>"

definition on_latch :: "latch tree \<Rightarrow> ptr \<Rightarrow> (latch \<Rightarrow> latch result) \<Rightarrow> latch tree result" where
  "on_latch t p f = (case p of None \<Rightarrow> Inl NullDeref
     | Some a \<Rightarrow> (case heap t a of None \<Rightarrow> Inl DanglingPointer
        | Some n \<Rightarrow> bindR (f (latches t a)) (\<lambda>l. Inr (t\<lparr>latches := (latches t)(a := l)\<rparr>))))"

definition ThreadTree_lock :: "bool \<Rightarrow> latch tree \<Rightarrow> ptr \<Rightarrow> latch tree result" where
  "ThreadTree_lock shared t p = on_latch t p (latch_lock shared)"

definition ThreadTree_unlock :: "bool \<Rightarrow> latch tree \<Rightarrow> ptr \<Rightarrow> latch tree result" where
  "ThreadTree_unlock shared t p = on_latch t p (\<lambda>l. Inr (latch_unlock shared l))"

definition ThreadTree_upgrade_lock :: "latch tree \<Rightarrow> ptr \<Rightarrow> latch tree result" where
  "ThreadTree_upgrade_lock t p = on_latch t p latch_upgrade"

text \<open>The loop that follows right siblings, entered with the node locked in shared mode.\<close>

fun move_right :: "nat \<Rightarrow> latch tree \<Rightarrow> ptr \<Rightarrow> key_type \<Rightarrow> (ptr \<times> latch tree) result" where
  "move_right 0 t current_node key = Inl FuelExhausted"
| "move_right (Suc fuel) t current_node key =
     bindR (deref t current_node) (\<lambda>n.
     if high_key n \<le> key
     then let right = right_sibling n
          in bindR (ThreadTree_unlock True t current_node) (\<lambda>t1.
             bindR (ThreadTree_lock True t1 right) (\<lambda>t2. move_right fuel t2 right key))
     else Inr (current_node, t))"

fun locate_loop ::
  "nat \<Rightarrow> latch tree \<Rightarrow> ptr \<Rightarrow> key_type \<Rightarrow> node_path option \<Rightarrow> (ptr \<times> node_path option \<times> latch tree) result" where
  "locate_loop 0 t current_node key path = Inl FuelExhausted"
| "locate_loop (Suc fuel) t current_node key path =
     bindR (deref t current_node) (\<lambda>n0.
     if \<not> is_leaf n0
     then bindR (ThreadTree_lock True t current_node) (\<lambda>t1.
          bindR (move_right (next_addr t1) t1 current_node key) (\<lambda>(current, t2).
          bindR (push_path path current) (\<lambda>path'.
          bindR (deref t2 current) (\<lambda>n.
          bindR (Node_child n key) (\<lambda>child.
          bindR (ThreadTree_unlock True t2 current) (\<lambda>t3.
          locate_loop fuel t3 child key path'))))))
     else bindR (ThreadTree_lock True t current_node) (\<lambda>t1.
          bindR (move_right (next_addr t1) t1 current_node key) (\<lambda>(current, t2).
          Inr (current, path, t2))))"

definition ThreadTree_locate_leaf ::
  "latch tree \<Rightarrow> key_type \<Rightarrow> node_path option \<Rightarrow> (ptr \<times> node_path option \<times> latch tree) result" where
  "ThreadTree_locate_leaf t key path = locate_loop (height t) t (root_node t) key path"

lemma NodePath_pop_counter: "NodePath_pop p = Inr (a, p') \<Longrightarrow> path_counter p' < path_counter p"
  by (auto simp: NodePath_pop_def bindR_eq_Inr split: if_splits)

text \<open>The loop of \<^verbatim>\<open>insert\<close> that hands split nodes up along the path.\<close>

function propagate ::
  "latch config \<Rightarrow> latch tree \<Rightarrow> ptr \<times> key_type \<Rightarrow> node_path \<Rightarrow> ((ptr \<times> key_type) \<times> latch tree) result" where
  "propagate c t up path =
     (if fst up \<noteq> None \<and> \<not> NodePath_is_empty path
      then bindR (NodePath_pop path) (\<lambda>(par, path').
           bindR (ThreadTree_lock True t par) (\<lambda>t1.
           bindR (move_right (next_addr t1) t1 par (snd up)) (\<lambda>(par', t2).
           bindR (ThreadTree_upgrade_lock t2 par') (\<lambda>t3.
           bindR (ThreadTree_insert_into_inner c t3 par' (snd up) (fst up)) (\<lambda>(up', t4).
           bindR (ThreadTree_unlock False t4 par') (\<lambda>t5.
           propagate c t5 up' path'))))))
      else Inr (up, t))"
  by pat_completeness auto
termination
  by (relation "measure (\<lambda>(c, t, up, path). path_counter path)")
    (auto simp: NodePath_pop_counter)

declare propagate.simps [simp del]

definition ThreadTree_insert :: "latch config \<Rightarrow> thread_tree \<Rightarrow> key_type \<Rightarrow> value_type \<Rightarrow> thread_tree result" where
  "ThreadTree_insert c tt key value =
     bindR (ThreadTree_locate_leaf (base tt) key (Some NodePath_init)) (\<lambda>(leaf, path, t1).
     bindR (ThreadTree_upgrade_lock t1 leaf) (\<lambda>t2.
     bindR (ThreadTree_insert_into_leaf c t2 leaf key value) (\<lambda>(up, t3).
     bindR (ThreadTree_unlock False t3 leaf) (\<lambda>t4.
     bindR (propagate c t4 up (the path)) (\<lambda>(up', t5).
     if fst up' \<noteq> None
     then bindR (Spinlock_lock (tree_lock tt)) (\<lambda>l.
          bindR (Tree_create_new_root c t5 (root_node t5) (fst up') (snd up')) (\<lambda>t6.
          Inr \<lparr>base = t6, tree_lock = Spinlock_unlock l\<rparr>))
     else Inr (tt\<lparr>base := t5\<rparr>))))))"

definition ThreadTree_update :: "thread_tree \<Rightarrow> key_type \<Rightarrow> value_type \<Rightarrow> thread_tree result" where
  "ThreadTree_update tt key value =
     bindR (ThreadTree_locate_leaf (base tt) key (Some NodePath_init)) (\<lambda>(leaf, path, t1).
     bindR (deref t1 leaf) (\<lambda>n.
     bindR (Node_index n key) (\<lambda>index.
     bindR (node_key n index) (\<lambda>found_key.
     if found_key = key
     then bindR (ThreadTree_upgrade_lock t1 leaf) (\<lambda>t2.
          bindR (node_set_value n index value) (\<lambda>n'.
          bindR (ThreadTree_unlock False (store t2 leaf n') leaf) (\<lambda>t3.
          Inr (tt\<lparr>base := t3\<rparr>))))
     else bindR (ThreadTree_unlock True t1 leaf) (\<lambda>t2. Inr (tt\<lparr>base := t2\<rparr>))))))"

definition ThreadTree_find :: "thread_tree \<Rightarrow> key_type \<Rightarrow> (value_type \<times> thread_tree) result" where
  "ThreadTree_find tt key =
     bindR (ThreadTree_locate_leaf (base tt) key None) (\<lambda>(leaf, path, t1).
     bindR (deref t1 leaf) (\<lambda>n.
     bindR (Node_index n key) (\<lambda>index.
     bindR (node_key n index) (\<lambda>found_key.
     if found_key = key
     then bindR (node_value n index) (\<lambda>value.
          bindR (ThreadTree_unlock True t1 leaf) (\<lambda>t2. Inr (value, tt\<lparr>base := t2\<rparr>)))
     else bindR (ThreadTree_unlock True t1 leaf) (\<lambda>t2. Inr (0, tt\<lparr>base := t2\<rparr>))))))"

section \<open>Latches\<close>

definition all_idle :: "latch tree \<Rightarrow> bool" where
  "all_idle t \<longleftrightarrow> (\<forall>a. latch_idle (latches t a))"

definition idle_but :: "addr \<Rightarrow> latch tree \<Rightarrow> bool" where
  "idle_but a t \<longleftrightarrow> (\<forall>b. b \<noteq> a \<longrightarrow> latch_idle (latches t b))"

lemma idle_but_locked: "all_idle t \<Longrightarrow> idle_but a (locked t a l)"
  by (simp add: all_idle_def idle_but_def)

lemma lock_shared:
  assumes "heap t a = Some n" "latch_idle (latches t a)"
  obtains l where "ThreadTree_lock True t (Some a) = Inr (locked t a l)"
    "latch_lock True (latches t a) = Inr l"
  using assms node.acquire_idle [of "latches t a"]
  by (auto simp: ThreadTree_lock_def on_latch_def locked_def)

lemma unlock_shared:
  assumes "heap t a = Some n" "latch_idle (latches t a)" "latch_lock True (latches t a) = Inr l"
  shows "ThreadTree_unlock True (locked t a l) (Some a) = Inr t"
proof -
  have "latch_unlock True l = latches t a" using node.acquire_idle [OF assms(2)] assms(3) by auto
  then show ?thesis using assms(1) by (simp add: ThreadTree_unlock_def on_latch_def locked_def)
qed

lemma upgrade_shared:
  assumes "heap t a = Some n" "latch_idle (latches t a)" "latch_lock True (latches t a) = Inr l"
  obtains l' where "ThreadTree_upgrade_lock (locked t a l) (Some a) = Inr (locked t a l')"
    "latch_idle (latch_unlock False l')"
proof -
  obtain l' where "latch_upgrade l = Inr l'" "latch_idle (latch_unlock False l')"
    using node.upgrade_idle [OF assms(2,3)] by blast
  then show thesis using that [of l'] assms(1) by (simp add: ThreadTree_upgrade_lock_def on_latch_def locked_def)
qed

lemma unlock_exclusive:
  assumes "heap t a \<noteq> None" "idle_but a t" "latch_idle (latch_unlock False (latches t a))"
  shows "ThreadTree_unlock False t (Some a) = Inr (locked t a (latch_unlock False (latches t a)))"
    "all_idle (locked t a (latch_unlock False (latches t a)))"
  using assms by (auto simp: ThreadTree_unlock_def on_latch_def locked_def all_idle_def idle_but_def)

section \<open>Reaching the leaf\<close>

lemma move_right_spec:
  assumes i: "blink_inv c lo lv P t r" and idle: "all_idle t" and k: "k \<noteq> max_key"
    and a: "heap t a = Some n" "lo a \<le> k" "latch_lock True (latches t a) = Inr l"
    and fuel: "card (right_nodes lo t a) \<le> fuel"
  shows "\<exists>b m l'. move_right fuel (locked t a l) (Some a) k = Inr (Some b, locked t b l')
    \<and> latch_lock True (latches t b) = Inr l' \<and> heap t b = Some m \<and> lv b = lv a \<and> lo b \<le> k \<and> k < high_key m"
  using a fuel
proof (induction fuel arbitrary: a n l)
  case 0
  then have "a \<in> right_nodes lo t a" by (simp add: right_nodes_def)
  then show ?case using 0 right_nodes_bound(1) [OF i, of a] by (simp add: card_eq_0_iff)
next
  case (Suc fuel)
  show ?case
  proof (cases "high_key n \<le> k")
    case True
    obtain b m where b: "right_sibling n = Some b" "heap t b = Some m" "lo b \<le> k" "lo a < lo b" "lv b = lv a"
      using right_step [OF i Suc.prems(1) True k] .
    have id: "latch_idle (latches t a)" "latch_idle (latches t b)" using idle by (simp_all add: all_idle_def)
    obtain l' where l': "ThreadTree_lock True t (Some b) = Inr (locked t b l')"
      "latch_lock True (latches t b) = Inr l'" using lock_shared [OF b(2) id(2)] .
    have "card (right_nodes lo t b) \<le> fuel"
      using right_nodes_less [OF i _ b(4)] Suc.prems(1,4) by fastforce
    from Suc.IH [OF b(2,3) l'(2) this] show ?thesis
      using True Suc.prems(1) unlock_shared [OF Suc.prems(1) id(1) Suc.prems(3)] b l'(1) by (simp add: Let_def)
  next
    case False
    then show ?thesis using Suc.prems by auto
  qed
qed

lemma locate_loop_spec:
  assumes i: "blink_inv c lo lv P t r" and idle: "all_idle t" and k: "k \<noteq> max_key"
    and room: "lv r \<le> NodePath_capacity \<or> path = None"
    and a: "heap t a \<noteq> None" "lo a \<le> k" and fuel: "lv a < fuel"
    and p: "path_is path qs" "path_covers lo lv (heap t) r k (lv a) qs" "length qs + lv a = lv r"
  shows "\<exists>b n l path' qs'. locate_loop fuel t (Some a) k path = Inr (Some b, path', locked t b l)
    \<and> latch_lock True (latches t b) = Inr l \<and> heap t b = Some n \<and> is_leaf n \<and> lo b \<le> k \<and> k < high_key n
    \<and> (path' = None \<longleftrightarrow> path = None) \<and> path_is path' qs' \<and> path_covers lo lv (heap t) r k 0 qs'"
  using assms(4-)
proof (induction fuel arbitrary: a path qs)
  case (Suc fuel)
  note D = invD [OF i]
  obtain n0 where n0: "heap t a = Some n0" using Suc.prems(2) by blast
  have id: "latch_idle (latches t b)" for b using idle by (simp add: all_idle_def)
  obtain l where l: "ThreadTree_lock True t (Some a) = Inr (locked t a l)"
    "latch_lock True (latches t a) = Inr l" using lock_shared [OF n0 id] .
  obtain b m l' where b: "move_right (next_addr t) (locked t a l) (Some a) k = Inr (Some b, locked t b l')"
      "latch_lock True (latches t b) = Inr l'" "heap t b = Some m" "lv b = lv a" "lo b \<le> k" "k < high_key m"
    using move_right_spec [OF i idle k n0 Suc.prems(3) l(2) right_nodes_bound(2) [OF i]] by blast
  have leaf_iff: "is_leaf n0 \<longleftrightarrow> lv a = 0" "is_leaf m \<longleftrightarrow> lv a = 0"
    using contentD(1) [OF D(10) n0] contentD(1) [OF D(10) b(3)] b(4) by simp_all
  show ?case
  proof (cases "is_leaf n0")
    case True
    then have eq: "locate_loop (Suc fuel) t (Some a) k path = Inr (Some b, path, locked t b l')"
      using n0 l(1) b(1) by simp
    show ?thesis unfolding eq using b leaf_iff True Suc.prems(5,6) by auto
  next
    case False
    have cap: "length qs < NodePath_capacity \<or> path = None"
      using Suc.prems(1,7) leaf_iff(1) False by auto
    obtain path' where path': "push_path path (Some b) = Inr path'" "path_is path' (b # qs)"
      "path' = None \<longleftrightarrow> path = None" using push_path_is [OF Suc.prems(5) cap] .
    obtain ch where ch: "Node_child m k = Inr (Some ch)" "heap t ch \<noteq> None" "lo ch \<le> k" "Suc (lv ch) = lv b"
      using child_step [OF i b(3) _ b(5)] leaf_iff False by metis
    have eq: "locate_loop (Suc fuel) t (Some a) k path = locate_loop fuel t (Some ch) k path'"
      using n0 l(1) b(1,3) False path'(1) ch(1) unlock_shared [OF b(3) id b(2)] by simp
    have "path_covers lo lv (heap t) r k (lv ch) (b # qs)"
      using b(3-6) ch(4) Suc.prems(6) by (auto simp: covers_def)
    from Suc.IH [OF _ ch(2,3) _ path'(2) this] show ?thesis
      unfolding eq using path'(3) Suc.prems(1,4,7) ch(4) b(4) by auto
  qed
qed simp

lemma locate_leaf_spec:
  assumes i: "blink_inv c lo lv P t r" and idle: "all_idle t" and k: "k \<noteq> max_key"
    and room: "height t \<le> Suc NodePath_capacity \<or> path = None" and p: "path_is path []"
  shows "\<exists>b n l path' qs. ThreadTree_locate_leaf t k path = Inr (Some b, path', locked t b l)
    \<and> latch_lock True (latches t b) = Inr l \<and> heap t b = Some n \<and> is_leaf n \<and> lo b \<le> k \<and> k < high_key n
    \<and> (path' = None \<longleftrightarrow> path = None) \<and> path_is path' qs \<and> path_covers lo lv (heap t) r k 0 qs"
proof -
  note D = invD [OF i]
  have "lo r \<le> k" using D(3) by simp
  moreover have "lv r \<le> NodePath_capacity \<or> path = None" using room D(4) by simp
  ultimately show ?thesis
    unfolding ThreadTree_locate_leaf_def D(1)
    by (intro locate_loop_spec [OF i idle k _ D(2) _ _ p]) (use D(4) in simp_all)
qed

section \<open>Inserting\<close>

text \<open>A step under an upgraded latch: the latch is released and every other one is idle.\<close>

lemma release_after_step:
  assumes fr: "frame c a (locked t a l) t'" and c: "latch_idle (latch_init c)" and idle: "all_idle t" and l: "latch_idle (latch_unlock False l)"
  shows "ThreadTree_unlock False t' (Some a) = Inr (locked t' a (latch_unlock False l))"
    "all_idle (locked t' a (latch_unlock False l))"
proof -
  have "idle_but a t'" using fr idle c by (fastforce simp: frame_def idle_but_def all_idle_def)
  then show "ThreadTree_unlock False t' (Some a) = Inr (locked t' a (latch_unlock False l))"
      "all_idle (locked t' a (latch_unlock False l))"
    using fr unlock_exclusive [of t' a] l by (simp_all add: frame_def)
qed

lemma propagate_spec:
  assumes c: "config_ok c" "latch_idle (latch_init c)" and out: "outcome c qs r up t" and idle: "all_idle t"
    and p: "path_ok path" "path_stack path = map Some qs"
  shows "\<exists>up' t'. propagate c t up path = Inr (up', t') \<and> outcome c [] r up' t' \<and> all_idle t'
    \<and> tree_map t' = tree_map t \<and> root_node t' = root_node t \<and> height t' = height t"
  using out idle p
proof (induction qs arbitrary: up t path)
  case Nil
  then have "propagate c t up path = Inr (up, t)"
    by (simp add: propagate.simps path_empty_iff)
  then show ?case using Nil by simp
next
  case (Cons q qs)
  show ?case
  proof (cases "fst up")
    case None
    then have "propagate c t up path = Inr (up, t)" by (simp add: propagate.simps)
    moreover have "outcome c [] r up t" using Cons.prems(1) None by (auto simp: outcome_def)
    ultimately show ?thesis using Cons.prems(2) by simp
  next
    case (Some s0)
    then obtain lo lv s where up: "up = (Some s, lo s)" and i: "blink_inv c lo lv {s} t r"
      and pc: "path_covers lo lv (heap t) r (lo s) (lv s) (q # qs)"
      using Cons.prems(1) by (auto simp: outcome_def)
    obtain n where q: "heap t q = Some n" "lo q \<le> lo s" "lo s < high_key n" using pc by (auto simp: covers_def)
    obtain path' where path': "NodePath_pop path = Inr (Some q, path')" "path_ok path'"
        "path_stack path' = map Some qs"
      using path_pop [OF Cons.prems(3,4) [unfolded list.map]] by metis
    have id: "latch_idle (latches t q)" using Cons.prems(2) by (simp add: all_idle_def)
    obtain l where l: "ThreadTree_lock True t (Some q) = Inr (locked t q l)" "latch_lock True (latches t q) = Inr l"
      using lock_shared [OF q(1) id] .
    have next0: "next_addr t \<noteq> 0" using invD(6) [OF i q(1)] by simp
    have mr: "move_right (next_addr t) (locked t q l) (Some q) (lo s) = Inr (Some q, locked t q l)"
      using next0 q by (cases "next_addr t") auto
    obtain l' where l': "ThreadTree_upgrade_lock (locked t q l) (Some q) = Inr (locked t q l')"
        "latch_idle (latch_unlock False l')" using upgrade_shared [OF q(1) id l(2)] .
    obtain up' t' where step: "ThreadTree_insert_into_inner c (locked t q l') (Some q) (lo s) (Some s) = Inr (up', t')"
        "outcome c qs r up' t'" "frame c q (locked t q l') t'" "tree_map t' = tree_map t"
      using insert_into_inner_spec [OF _ c(1), of lo lv s "locked t q l'" r q qs] i pc by auto
    note rel = release_after_step [OF step(3) c(2) Cons.prems(2) l'(2)]
    have "\<not> NodePath_is_empty path" using Cons.prems(3,4) by (simp add: path_empty_iff)
    then have "propagate c t up path = propagate c (locked t' q (latch_unlock False l')) up' path'"
      using up path'(1) l(1) mr l'(1) step(1) rel(1) by (subst propagate.simps) simp
    then show ?thesis
      using Cons.IH [OF _ rel(2) path'(2,3), of up'] step(2-4) by (simp add: frame_def)
  qed
qed

text \<open>The state every public operation starts from and returns to.\<close>

definition ThreadTree_ok :: "latch config \<Rightarrow> thread_tree \<Rightarrow> bool" where
  "ThreadTree_ok c tt \<longleftrightarrow> config_ok c \<and> latch_idle (latch_init c) \<and> tree_inv c (base tt) \<and> all_idle (base tt) \<and> \<not> tree_lock tt"

lemma insert_spec:
  assumes ok: "ThreadTree_ok c tt" and h: "height (base tt) \<le> Suc NodePath_capacity"
    and k: "k \<noteq> max_key"
  shows "\<exists>tt'. ThreadTree_insert c tt k v = Inr tt' \<and> ThreadTree_ok c tt'
    \<and> tree_map (base tt') = insert_new (tree_map (base tt)) k v
    \<and> height (base tt') \<le> Suc (height (base tt))"
proof -
  let ?t = "base tt"
  obtain lo lv r where i: "blink_inv c lo lv {} ?t r" using ok by (auto simp: ThreadTree_ok_def tree_inv_def)
  have c: "config_ok c" "latch_idle (latch_init c)" and idle: "all_idle ?t" and unl: "\<not> tree_lock tt" using ok by (simp_all add: ThreadTree_ok_def)
  obtain b n l path qs where loc: "ThreadTree_locate_leaf ?t k (Some NodePath_init) = Inr (Some b, path, locked ?t b l)"
      "latch_lock True (latches ?t b) = Inr l" "heap ?t b = Some n" "is_leaf n" "lo b \<le> k" "k < high_key n"
      "path \<noteq> None" "path_is path qs" "path_covers lo lv (heap ?t) r k 0 qs"
    using locate_leaf_spec [OF i idle k, of "Some NodePath_init"] h by (auto simp: path_is_def path_init)
  obtain p where path: "path = Some p" "path_ok p" "path_stack p = map Some qs"
    using loc(7,8) by (auto simp: path_is_def)
  have id: "latch_idle (latches ?t b)" using idle by (simp add: all_idle_def)
  obtain l' where l': "ThreadTree_upgrade_lock (locked ?t b l) (Some b) = Inr (locked ?t b l')"
      "latch_idle (latch_unlock False l')" using upgrade_shared [OF loc(3) id loc(2)] .
  obtain up t1 where step: "ThreadTree_insert_into_leaf c (locked ?t b l') (Some b) k v = Inr (up, t1)"
      "outcome c qs r up t1" "frame c b (locked ?t b l') t1"
      "tree_map t1 = insert_new (tree_map ?t) k v"
    using insert_into_leaf_spec [of c lo lv "locked ?t b l'" r b n k qs v] i c loc(3-6,9) by auto
  note rel = release_after_step [OF step(3) c(2) idle l'(2)]
  obtain up' t2 where pr: "propagate c (locked t1 b (latch_unlock False l')) up p = Inr (up', t2)"
      "outcome c [] r up' t2" "all_idle t2" "tree_map t2 = tree_map t1" "root_node t2 = root_node ?t"
      "height t2 = height ?t"
    using propagate_spec [OF c, of qs r up "locked t1 b (latch_unlock False l')" p] step(2,3) rel(2) path
    by (auto simp: frame_def)
  note eq = ThreadTree_insert_def loc(1) l'(1) step(1) rel(1) path(1) option.sel pr(1) bindR_Inr split_conv
  consider (finished) lo lv where "up' = (None, 0)" "blink_inv c lo lv {} t2 r"
    | (root) lo lv s where "up' = (Some s, lo s)" "blink_inv c lo lv {s} t2 r" "lv s = lv r"
    using pr(2) by (auto simp: outcome_def)
  then show ?thesis
  proof cases
    case finished
    then have "ThreadTree_insert c tt k v = Inr (tt\<lparr>base := t2\<rparr>)" by (simp add: eq)
    then show ?thesis
      using finished pr(3,4,6) unl step(4) c by (auto simp: ThreadTree_ok_def tree_inv_def)
  next
    case root
    have h2: "height t2 < 65535" using pr(6) h by (simp add: NodePath_capacity_def)
    obtain t3 m where t3: "Tree_create_new_root c t2 (Some r) (Some s) (lo s) = Inr t3"
        "blink_inv c (lo(next_addr t2 := 0)) (lv(next_addr t2 := Suc (lv r))) {} t3 (next_addr t2)"
        "\<not> is_leaf m" "t3 = reparent (with_new_root c t2 m) {r, s} (Some (next_addr t2))"
      using inv_new_root [OF root(2) c(1) root(3) h2] by blast
    have "ThreadTree_insert c tt k v = Inr \<lparr>base = t3, tree_lock = False\<rparr>"
      using root(1) t3(1) invD(1) [OF root(2)] unl by (simp add: eq Spinlock_lock_def Spinlock_unlock_def)
    moreover have "all_idle t3" using pr(3) c by (simp add: t3(4) all_idle_def config_ok_def)
    moreover have "tree_map t3 = tree_map t2"
      using tree_map_eqI [OF root(2) t3(2)] entries_new_root [OF invD(7) [OF root(2)] t3(3)] by (simp add: t3(4))
    moreover have "height t3 \<le> Suc (height ?t)" using t3(4) pr(6) by simp
    ultimately show ?thesis using t3(2) pr(4) step(4) c by (auto simp: ThreadTree_ok_def tree_inv_def)
  qed
qed

section \<open>Looking up and updating\<close>

text \<open>What \<^verbatim>\<open>find\<close> does once the leaf is reached: it reads the slot at the lower bound, whether
  or not that slot is live.\<close>

definition leaf_lookup :: "node \<Rightarrow> key_type \<Rightarrow> value_type result" where
  "leaf_lookup n k = bindR (Node_index n k) (\<lambda>index. bindR (node_key n index) (\<lambda>found_key.
     if found_key = k then node_value n index else Inr 0))"

lemma find_reads_leaf:
  assumes i: "blink_inv c lo lv {} (base tt) r" and idle: "all_idle (base tt)" and k: "k \<noteq> max_key"
  shows "\<exists>b n. heap (base tt) b = Some n \<and> is_leaf n \<and> lo b \<le> k \<and> k < high_key n
    \<and> ThreadTree_find tt k = bindR (leaf_lookup n k) (\<lambda>v. Inr (v, tt))"
proof -
  let ?t = "base tt"
  obtain b n l path qs where loc: "ThreadTree_locate_leaf ?t k None = Inr (Some b, path, locked ?t b l)"
      "latch_lock True (latches ?t b) = Inr l" "heap ?t b = Some n" "is_leaf n" "lo b \<le> k" "k < high_key n"
    using locate_leaf_spec [OF i idle k, of None] by (auto simp: path_is_def)
  have "ThreadTree_unlock True (locked ?t b l) (Some b) = Inr ?t"
    using unlock_shared [OF loc(3) _ loc(2)] idle by (simp add: all_idle_def)
  then have "ThreadTree_find tt k = bindR (leaf_lookup n k) (\<lambda>v. Inr (v, tt))"
    using loc(1,3) by (simp add: ThreadTree_find_def leaf_lookup_def bindR_assoc if_distribR cong: if_cong)
      (simp add: bindR_def split: sum.splits)
  then show ?thesis using loc by blast
qed

lemma leaf_lookup_present:
  assumes "leaf_ok c l n" "leaf_map n k = Some v"
  shows "leaf_lookup n k = Inr v"
proof -
  have "k \<in> set (live_keys n)" using leaf_entry(1) [OF assms] .
  note U = leaf_update_ok(1-3) [OF assms(1) this]
  have sz: "nsize n \<le> length (keys n)" "nsize n \<le> length (vals n)" using assms(1) by (simp_all add: leaf_ok_def)
  show ?thesis
    using U sz assms(2) by (simp add: leaf_lookup_def Node_index_eq node_key_def node_value_def arr_simps)
qed

lemma leaf_lookup_absent:
  assumes ok: "leaf_ok c l n" and k: "k \<notin> set (live_keys n)" "k < high_key n" "k \<notin> junk_words c"
  shows "leaf_lookup n k = (if nsize n = LeafNode_max_items c \<and> (\<forall>x \<in> set (live_keys n). x < k)
    then Inl OutOfBounds else Inr 0)"
proof -
  let ?p = "std_lower_bound (live_keys n) k"
  have len: "length (keys n) = LeafNode_max_items c" "nsize n \<le> LeafNode_max_items c"
    "sorted_less (live_keys n)" using ok by (simp_all add: leaf_ok_def)
  have p: "?p \<le> nsize n" using std_lb.lb_le [of "live_keys n" k] len by simp
  have all: "(\<forall>x \<in> set (live_keys n). x < k) \<longleftrightarrow> ?p = nsize n"
  proof
    assume a: "\<forall>x \<in> set (live_keys n). x < k"
    have "\<not> ?p < nsize n"
    proof
      assume lt: "?p < nsize n"
      then have "live_keys n ! ?p \<in> set (live_keys n)" using len by (intro nth_mem) simp
      then show False using a std_lb.lb_above [of "live_keys n" k ?p] len lt by auto
    qed
    then show "?p = nsize n" using p by simp
  next
    assume "?p = nsize n"
    then show "\<forall>x \<in> set (live_keys n). x < k"
      using std_lb.lb_below [of "live_keys n" _ k] len by (auto simp: in_set_conv_nth)
  qed
  have ne: "keys n ! ?p \<noteq> k" if "?p < LeafNode_max_items c"
  proof (cases "?p < nsize n")
    case True
    then have "keys n ! ?p \<in> set (live_keys n)" using len by (metis length_take min.absorb2 nth_mem nth_take)
    then show ?thesis using k(1) by metis
  next
    case False
    then have "high_key n \<le> keys n ! ?p \<or> keys n ! ?p \<in> junk_words c"
      using ok that unfolding leaf_ok_def by simp
    then show ?thesis using k(2,3) by auto
  qed
  show ?thesis
  proof (cases "?p < LeafNode_max_items c")
    case True
    then have "\<not> (nsize n = LeafNode_max_items c \<and> (\<forall>x \<in> set (live_keys n). x < k))" using all by auto
    then show ?thesis using True ne len by (simp add: leaf_lookup_def Node_index_eq node_key_def arr_simps)
  next
    case False
    then have "?p = nsize n" "nsize n = LeafNode_max_items c" using len(2) p by linarith+
    then show ?thesis using len all by (simp add: leaf_lookup_def Node_index_eq node_key_def arr_simps)
  qed
qed

lemma update_spec:
  assumes ok: "ThreadTree_ok c tt" and h: "height (base tt) \<le> Suc NodePath_capacity"
    and k: "k \<in> dom (tree_map (base tt))"
  shows "\<exists>tt'. ThreadTree_update tt k v = Inr tt' \<and> ThreadTree_ok c tt'
    \<and> tree_map (base tt') = (tree_map (base tt))(k \<mapsto> v) \<and> height (base tt') = height (base tt)"
proof -
  let ?t = "base tt"
  obtain lo lv r where i: "blink_inv c lo lv {} ?t r" using ok by (auto simp: ThreadTree_ok_def tree_inv_def)
  have c: "config_ok c" "latch_idle (latch_init c)" and idle: "all_idle ?t" and unl: "\<not> tree_lock tt" using ok by (simp_all add: ThreadTree_ok_def)
  have km: "k \<noteq> max_key" using no_max_key [OF i] k by blast
  obtain b n l path qs where loc: "ThreadTree_locate_leaf ?t k (Some NodePath_init) = Inr (Some b, path, locked ?t b l)"
      "latch_lock True (latches ?t b) = Inr l" "heap ?t b = Some n" "is_leaf n" "lo b \<le> k" "k < high_key n"
    using locate_leaf_spec [OF i idle km, of "Some NodePath_init"] h by (auto simp: path_is_def path_init)
  have lok: "leaf_ok c (lo b) n" using contentD(3) [OF invD(10) [OF i] loc(3,4)] .
  have live: "k \<in> set (live_keys n)"
    using k tree_map_leaf [OF i loc(3-6)] leaf_map_None_iff [OF lok] by (simp add: domIff)
  let ?p = "std_lower_bound (live_keys n) k" and ?n = "n\<lparr>vals := (vals n)[std_lower_bound (live_keys n) k := v]\<rparr>"
  note U = leaf_update_ok(1,2) [OF lok live] leaf_update_ok(4,5) [OF lok live, where v = v]
  have sz: "nsize n \<le> length (keys n)" "nsize n \<le> length (vals n)" using lok by (simp_all add: leaf_ok_def)
  have id: "latch_idle (latches ?t b)" using idle by (simp add: all_idle_def)
  obtain l' where l': "ThreadTree_upgrade_lock (locked ?t b l) (Some b) = Inr (locked ?t b l')"
      "latch_idle (latch_unlock False l')" using upgrade_shared [OF loc(3) id loc(2)] .
  let ?t1 = "store (locked ?t b l') (Some b) ?n"
  note rel = release_after_step [OF frame_store [where n = ?n] c(2) idle l'(2)]
  have i': "blink_inv c lo lv {} (store ?t (Some b) ?n) r"
    using i loc(3,4) _ U(3) by (rule inv_leaf_content) (simp_all add: same_header_def)
  have st: "heap ?t1 = heap (store ?t (Some b) ?n)" "tree_map ?t1 = tree_map (store ?t (Some b) ?n)"
    by (simp_all add: tree_map_def)
  have "ThreadTree_update tt k v = Inr (tt\<lparr>base := locked ?t1 b (latch_unlock False l')\<rparr>)"
    using loc(1,3) l'(1) rel(1) U(1,2) sz
    by (simp add: ThreadTree_update_def Node_index_eq node_key_def node_set_value_def arr_simps)
  moreover have "tree_map ?t1 = (tree_map ?t)(k \<mapsto> v)"
    unfolding st using tree_map_store_leaf [OF i i' loc(3,4) _ loc(5,6) U(4)] loc(4) by simp
  moreover have "tree_inv c (locked ?t1 b (latch_unlock False l'))"
    unfolding tree_inv_def inv_locked using i' by (auto simp: blink_inv_def)
  ultimately show ?thesis using rel(2) unl c by (auto simp: ThreadTree_ok_def)
qed

text \<open>The latched tree is an index.\<close>

interpretation latched: map_index "ThreadTree_insert c" ThreadTree_update ThreadTree_find "ThreadTree_ok c"
    "\<lambda>tt. height (base tt)" "Suc NodePath_capacity" "\<lambda>tt. tree_map (base tt)" for c
proof
  fix s k v
  assume ok: "ThreadTree_ok c s"
  then obtain lo lv r where i: "blink_inv c lo lv {} (base s) r" "all_idle (base s)"
    by (auto simp: ThreadTree_ok_def tree_inv_def)
  show "\<exists>s'. ThreadTree_insert c s k v = Inr s' \<and> ThreadTree_ok c s'
      \<and> tree_map (base s') = insert_new (tree_map (base s)) k v \<and> height (base s') \<le> Suc (height (base s))"
    if "height (base s) \<le> Suc NodePath_capacity" "k \<noteq> max_key"
    using insert_spec [OF ok that] .
  show "\<exists>s'. ThreadTree_update s k v = Inr s' \<and> ThreadTree_ok c s'
      \<and> tree_map (base s') = (tree_map (base s))(k \<mapsto> v) \<and> height (base s') = height (base s)"
    if "height (base s) \<le> Suc NodePath_capacity" "k \<in> dom (tree_map (base s))"
    using update_spec [OF ok that] .
  show "\<exists>s'. ThreadTree_find s k = Inr (v, s') \<and> ThreadTree_ok c s' \<and> tree_map (base s') = tree_map (base s)"
    if "tree_map (base s) k = Some v"
  proof -
    have "k \<noteq> max_key" using no_max_key [OF i(1)] that by blast
    then obtain b n where b: "heap (base s) b = Some n" "is_leaf n" "lo b \<le> k" "k < high_key n"
      "ThreadTree_find s k = bindR (leaf_lookup n k) (\<lambda>v. Inr (v, s))" using find_reads_leaf [OF i] by blast
    have "leaf_map n k = Some v" using tree_map_leaf [OF i(1) b(1-4)] that by simp
    then show ?thesis
      using leaf_lookup_present [OF contentD(3) [OF invD(10) [OF i(1)] b(1,2)]] b(5) ok by simp
  qed
qed

section \<open>The largest key\<close>

text \<open>
  Every interval ends at or below the largest key and excludes its end, so a search for that key
  walks off the right edge of the tree.
\<close>

lemma move_right_max_key:
  assumes i: "blink_inv c lo lv P t r" and idle: "all_idle t"
    and a: "heap t a = Some n" "latch_lock True (latches t a) = Inr l"
    and fuel: "card (right_nodes lo t a) \<le> fuel"
  shows "move_right fuel (locked t a l) (Some a) max_key = Inl NullDeref"
  using a fuel
proof (induction fuel arbitrary: a n l)
  case 0
  then have "a \<in> right_nodes lo t a" by (simp add: right_nodes_def)
  then show ?case using 0 right_nodes_bound(1) [OF i, of a] by (simp add: card_eq_0_iff)
next
  case (Suc fuel)
  have id: "latch_idle (latches t b)" for b using idle by (simp add: all_idle_def)
  have un: "ThreadTree_unlock True (locked t a l) (Some a) = Inr t"
    using unlock_shared [OF Suc.prems(1) id Suc.prems(2)] .
  note C = chainD [OF invD(8) [OF i] Suc.prems(1)]
  show ?case
  proof (cases "right_sibling n")
    case None
    then show ?thesis using Suc.prems(1) un by (simp add: ThreadTree_lock_def on_latch_def)
  next
    case (Some b)
    then obtain m where b: "heap t b = Some m" "lo b = high_key n" using C(3) by blast
    obtain l' where l': "ThreadTree_lock True t (Some b) = Inr (locked t b l')" "latch_lock True (latches t b) = Inr l'"
      using lock_shared [OF b(1) id] .
    have "card (right_nodes lo t b) \<le> fuel"
      using right_nodes_less [OF i, of a b] Suc.prems(1,3) C(1) b(2) by simp
    then show ?thesis using Suc.IH [OF b(1) l'(2)] Suc.prems(1) un l'(1) Some by simp
  qed
qed

lemma locate_max_key:
  assumes i: "blink_inv c lo lv P t r" and idle: "all_idle t"
  shows "ThreadTree_locate_leaf t max_key path = Inl NullDeref"
proof -
  note D = invD [OF i]
  obtain n where n: "heap t r = Some n" using D(2) by blast
  have "latch_idle (latches t r)" using idle by (simp add: all_idle_def)
  then obtain l where l: "ThreadTree_lock True t (Some r) = Inr (locked t r l)" "latch_lock True (latches t r) = Inr l"
    using lock_shared [OF n] by blast
  have "move_right (next_addr t) (locked t r l) (Some r) max_key = Inl NullDeref"
    using move_right_max_key [OF i idle n l(2) right_nodes_bound(2) [OF i]] .
  then show ?thesis using n l(1) by (simp add: ThreadTree_locate_leaf_def D(1,4))
qed

section \<open>A small configuration for the examples\<close>

text \<open>
  A header that leaves room for four entries per leaf and three keys per inner node; fresh memory
  holds the word 7 everywhere. \<open>spin_config\<close> is the spinlock build (a 40 byte header), whose nodes
  hold 61 entries.
\<close>

definition small_config :: "latch config" where
  "small_config = \<lparr>header_size = 960, garbage_size = 0, latch_init = SpinlockedNodeBase Spinlock_init,
     alloc_junk = (\<lambda>a i. 7)\<rparr>"

definition spin_config :: "latch config" where
  "spin_config = \<lparr>header_size = 40, garbage_size = 0, latch_init = SpinlockedNodeBase Spinlock_init,
     alloc_junk = (\<lambda>a i. 0)\<rparr>"

lemma small_capacities: "LeafNode_max_items small_config = 4" "InnerNode_max_keys small_config = 3"
  by (simp_all add: LeafNode_max_items_def InnerNode_max_keys_def Config_node_size_def small_config_def)

lemma spin_capacities: "LeafNode_max_items spin_config = 61" "InnerNode_max_keys spin_config = 61"
  by (simp_all add: LeafNode_max_items_def InnerNode_max_keys_def Config_node_size_def spin_config_def)

lemma example_config_ok: "config_ok small_config" "config_ok spin_config"
  using small_capacities spin_capacities by (simp_all add: config_ok_def)

lemma example_latch_idle: "latch_idle (latch_init small_config)" "latch_idle (latch_init spin_config)"
  by (simp_all add: small_config_def spin_config_def Spinlock_init_def)

lemma ThreadTree_ctor_ok: "config_ok c \<Longrightarrow> latch_idle (latch_init c) \<Longrightarrow> ThreadTree_ok c (ThreadTree_ctor c)"
  using inv_ctor [of c]
  by (auto simp: ThreadTree_ok_def ThreadTree_ctor_def tree_inv_def all_idle_def Tree_ctor_heap config_ok_def
      Spinlock_init_def)

lemma ThreadTree_ctor_map [simp]:
  "tree_map (base (ThreadTree_ctor c)) = Map.empty" "height (base (ThreadTree_ctor c)) = 1"
  by (simp_all add: ThreadTree_ctor_def tree_map_ctor Tree_ctor_heap)

section \<open>Properties of the latched tree\<close>

text \<open>
  C1. On a well-formed tree with idle latches, \<^verbatim>\<open>insert\<close> returns for every key below the largest
  one: the invariant and the idle latches are restored, a new key is added with its value, a present
  key keeps the value it had, no other key changes, and the tree grows by at most one level. The
  tree may have up to eleven levels, what the path of ten nodes allows.
\<close>

theorem latched_insert_refines_map:
  assumes "ThreadTree_ok c tt" "height (base tt) \<le> 11" "k \<noteq> max_key"
  shows "\<exists>tt'. ThreadTree_insert c tt k v = Inr tt' \<and> ThreadTree_ok c tt'
    \<and> tree_map (base tt') = (if k \<in> dom (tree_map (base tt)) then tree_map (base tt)
                             else (tree_map (base tt))(k \<mapsto> v))
    \<and> height (base tt') \<le> Suc (height (base tt))"
  using latched.ins_law [OF assms(1) _ assms(3)] assms(2)
  by (simp add: NodePath_capacity_def insert_new_def)

theorem latched_insert_refines_map_witness:
  "\<exists>tt'. ThreadTree_insert small_config (ThreadTree_ctor small_config) 5 8 = Inr tt'
     \<and> ThreadTree_ok small_config tt' \<and> tree_map (base tt') 5 = Some 8"
  using latched_insert_refines_map [OF ThreadTree_ctor_ok [OF example_config_ok(1) example_latch_idle(1)], of 5 8]
  by (auto simp: max_key_def)

text \<open>
  C2. \<^verbatim>\<open>find\<close> returns the value of every key of the map and leaves the tree, latches included,
  as it was.
\<close>

theorem latched_find_present:
  assumes "ThreadTree_ok c tt" "tree_map (base tt) k = Some v"
  shows "ThreadTree_find tt k = Inr (v, tt)"
proof -
  obtain lo lv r where i: "blink_inv c lo lv {} (base tt) r" "all_idle (base tt)"
    using assms(1) by (auto simp: ThreadTree_ok_def tree_inv_def)
  have "k \<noteq> max_key" using no_max_key [OF i(1)] assms(2) by blast
  then obtain b n where b: "heap (base tt) b = Some n" "is_leaf n" "lo b \<le> k" "k < high_key n"
    "ThreadTree_find tt k = bindR (leaf_lookup n k) (\<lambda>v. Inr (v, tt))" using find_reads_leaf [OF i] by blast
  have "leaf_map n k = Some v" using tree_map_leaf [OF i(1) b(1-4)] assms(2) by simp
  then show ?thesis
    using leaf_lookup_present [OF contentD(3) [OF invD(10) [OF i(1)] b(1,2)]] b(5) by simp
qed

text \<open>A tree with one entry, built by the model's own insertion.\<close>

definition one_entry :: thread_tree where
  "one_entry = (case ThreadTree_insert small_config (ThreadTree_ctor small_config) 5 8 of
     Inr tt \<Rightarrow> tt | Inl e \<Rightarrow> ThreadTree_ctor small_config)"

lemma one_entry_ok:
  "ThreadTree_ok small_config one_entry" "tree_map (base one_entry) = [5 \<mapsto> 8]" "height (base one_entry) \<le> 2"
proof -
  have five: "(5 :: key_type) \<noteq> max_key" by (simp add: max_key_def)
  obtain tt where "ThreadTree_insert small_config (ThreadTree_ctor small_config) 5 8 = Inr tt"
      "ThreadTree_ok small_config tt" "tree_map (base tt) = insert_new Map.empty 5 8"
      "height (base tt) \<le> Suc 1"
    using latched.ins_law [OF ThreadTree_ctor_ok [OF example_config_ok(1) example_latch_idle(1)] _ five, of 8] by auto
  then show "ThreadTree_ok small_config one_entry" "tree_map (base one_entry) = [5 \<mapsto> 8]"
      "height (base one_entry) \<le> 2"
    by (simp_all add: one_entry_def insert_new_def)
qed

theorem latched_find_present_witness:
  "tree_map (base one_entry) 5 = Some 8 \<and> ThreadTree_find one_entry 5 = Inr (8, one_entry)"
  using latched_find_present [OF one_entry_ok(1), of 5 8] one_entry_ok(2) by simp

text \<open>
  For a key that is not stored, \<^verbatim>\<open>find\<close> returns 0, except in two situations the code does
  not guard against: the leaf is full and all its keys are smaller, then the key array is read one
  slot behind its end; or fresh memory happens to hold the key.
\<close>

theorem latched_find_absent:
  assumes "ThreadTree_ok c tt" "tree_map (base tt) k = None" "k \<noteq> max_key" "k \<notin> junk_words c"
  shows "ThreadTree_find tt k = Inr (0, tt)
    \<or> ThreadTree_find tt k = Inl OutOfBounds
      \<and> (\<exists>a n. heap (base tt) a = Some n \<and> is_leaf n \<and> nsize n = LeafNode_max_items c
             \<and> (\<forall>x \<in> set (live_keys n). x < k) \<and> k < high_key n)"
proof -
  obtain lo lv r where i: "blink_inv c lo lv {} (base tt) r" "all_idle (base tt)"
    using assms(1) by (auto simp: ThreadTree_ok_def tree_inv_def)
  obtain b n where b: "heap (base tt) b = Some n" "is_leaf n" "lo b \<le> k" "k < high_key n"
    "ThreadTree_find tt k = bindR (leaf_lookup n k) (\<lambda>v. Inr (v, tt))" using find_reads_leaf [OF i assms(3)] by blast
  have ok: "leaf_ok c (lo b) n" using contentD(3) [OF invD(10) [OF i(1)] b(1,2)] .
  have "k \<notin> set (live_keys n)"
    using tree_map_leaf [OF i(1) b(1-4)] assms(2) leaf_map_None_iff [OF ok] by metis
  note L = leaf_lookup_absent [OF ok this b(4) assms(4)]
  show ?thesis
  proof (cases "nsize n = LeafNode_max_items c \<and> (\<forall>x \<in> set (live_keys n). x < k)")
    case True
    then have "ThreadTree_find tt k = Inl OutOfBounds" using b(5) L by simp
    then show ?thesis using True b by blast
  next
    case False
    then have "leaf_lookup n k = Inr 0" using L by (simp only: if_False)
    then show ?thesis using b(5) by simp
  qed
qed

lemma junk_words_small: "junk_words small_config = {7}"
  by (auto simp: junk_words_def small_config_def)

theorem latched_find_absent_witness:
  "tree_map (base one_entry) 6 = None \<and> (6 :: key_type) \<notin> junk_words small_config
    \<and> (ThreadTree_find one_entry 6 = Inr (0, one_entry)
      \<or> ThreadTree_find one_entry 6 = Inl OutOfBounds
        \<and> (\<exists>a n. heap (base one_entry) a = Some n \<and> is_leaf n \<and> nsize n = LeafNode_max_items small_config
               \<and> (\<forall>x \<in> set (live_keys n). x < 6) \<and> 6 < high_key n))"
  using latched_find_absent [OF one_entry_ok(1), of 6] one_entry_ok(2) by (simp add: junk_words_small max_key_def)

text \<open>
  C3. \<^verbatim>\<open>update\<close> replaces the value of a present key, changes nothing else and restores the
  invariant and the idle latches.
\<close>

theorem latched_update_refines_map:
  assumes "ThreadTree_ok c tt" "height (base tt) \<le> 11" "k \<in> dom (tree_map (base tt))"
  shows "\<exists>tt'. ThreadTree_update tt k v = Inr tt' \<and> ThreadTree_ok c tt'
    \<and> tree_map (base tt') = (tree_map (base tt))(k \<mapsto> v) \<and> height (base tt') = height (base tt)"
  using latched.upd_law [OF assms(1) _ assms(3)] assms(2) by (simp add: NodePath_capacity_def)

theorem latched_update_refines_map_witness:
  "\<exists>tt'. ThreadTree_update one_entry 5 9 = Inr tt' \<and> tree_map (base tt') = [5 \<mapsto> 9]"
  using latched_update_refines_map [OF one_entry_ok(1), of 5 9] one_entry_ok(2,3) by auto

text \<open>
  C37. The largest 64-bit key cannot be looked up, updated or inserted: the walk to the right
  dereferences the null sibling of the last node.
\<close>

theorem latched_max_key_null_deref:
  assumes "ThreadTree_ok c tt"
  shows "ThreadTree_find tt max_key = Inl NullDeref \<and> ThreadTree_update tt max_key v = Inl NullDeref
    \<and> ThreadTree_insert c tt max_key v = Inl NullDeref"
proof -
  obtain lo lv r where i: "blink_inv c lo lv {} (base tt) r" "all_idle (base tt)"
    using assms(1) by (auto simp: ThreadTree_ok_def tree_inv_def)
  show ?thesis
    using locate_max_key [OF i] by (simp add: ThreadTree_find_def ThreadTree_update_def ThreadTree_insert_def)
qed

theorem latched_max_key_null_deref_witness:
  "ThreadTree_find one_entry max_key = Inl NullDeref \<and> ThreadTree_update one_entry max_key 3 = Inl NullDeref
    \<and> ThreadTree_insert small_config one_entry max_key 3 = Inl NullDeref"
  using latched_max_key_null_deref [OF one_entry_ok(1), of 3] .

text \<open>
  \<^verbatim>\<open>find\<close> compares the searched key with the slot at the lower bound without checking that the
  slot is in use: in a new tree whose memory held the word 7, looking up 7 reports the memory's
  contents as the value of a key that was never inserted.
\<close>

theorem latched_find_reads_unused_slot:
  "tree_map (base (ThreadTree_ctor small_config)) = Map.empty
    \<and> ThreadTree_find (ThreadTree_ctor small_config) 7 = Inr (7, ThreadTree_ctor small_config)"
proof -
  let ?tt = "ThreadTree_ctor small_config" and ?n = "Node_ctor small_config 0 True None"
  have idle: "all_idle (base ?tt)" using ThreadTree_ctor_ok [OF example_config_ok(1) example_latch_idle(1)] by (simp add: ThreadTree_ok_def)
  have i: "blink_inv small_config (\<lambda>_. 0) (\<lambda>_. 0) {} (base ?tt) 0"
    using inv_ctor [of small_config] by (simp add: ThreadTree_ctor_def)
  have "(7 :: key_type) \<noteq> max_key" by (simp add: max_key_def)
  then obtain b n where b: "heap (base ?tt) b = Some n"
      "ThreadTree_find ?tt 7 = bindR (leaf_lookup n 7) (\<lambda>v. Inr (v, ?tt))"
    using find_reads_leaf [OF i idle] by blast
  have n: "n = ?n" using b(1) by (simp add: ThreadTree_ctor_def Tree_ctor_heap split: if_splits)
  have "leaf_lookup ?n 7 = Inr 7"
    by (simp add: leaf_lookup_def Node_index_def std_lower_bound_def lower_bound_loop.simps node_key_def
        node_value_def aget_def Node_ctor_def small_capacities)
      (simp add: small_config_def)
  then show ?thesis using b(2) n by simp
qed
end
