(* ===== verification/TBB_Tasks.thy ===== *)
theory TBB_Tasks
  imports Latched_Tree
begin

text \<open>
  The task-based B-link tree: \<^verbatim>\<open>NodeTask\<close>, \<^verbatim>\<open>TreeTask\<close>, \<^verbatim>\<open>InsertTask\<close>, \<^verbatim>\<open>LookupTask\<close>, \<^verbatim>\<open>UpdateTask\<close> and
  \<^verbatim>\<open>TBBTree\<close> from \<^verbatim>\<open>src/src/indices/blinktree/tbb/\<close>, in the builds that lock nodes with a mutex of the
  Intel library (all but \<^verbatim>\<open>olfit\<close>). A task visits one node per execution and names the next one; the
  scheduler runs it again until it names none. Unlike the thread trees, a task keeps no path: it
  climbs along the parent pointers.

  The mutexes of the library are not part of this repository: their operations are the record
  \<open>tbb_mutex\<close>, an argument of the model, and \<open>mutex_ok\<close> states what they do when no other thread
  interferes.
\<close>

section \<open>Mutexes and the tree\<close>

record 'l tbb_mutex =
  tm_lock :: "'l \<Rightarrow> 'l result"
  tm_lock_shared :: "'l \<Rightarrow> 'l result"
  tm_upgrade :: "'l \<Rightarrow> 'l result"
  tm_unlock :: "'l \<Rightarrow> 'l result"

text \<open>Locking an idle mutex succeeds, also after an upgrade to a writer, and unlocking makes it idle again.\<close>

definition mutex_ok :: "'l tbb_mutex \<Rightarrow> 'l \<Rightarrow> bool" where
  "mutex_ok M idle \<longleftrightarrow>
     (\<exists>e. tm_lock M idle = Inr e \<and> tm_unlock M e = Inr idle)
     \<and> (\<exists>s u. tm_lock_shared M idle = Inr s \<and> tm_unlock M s = Inr idle \<and> tm_upgrade M s = Inr u \<and> tm_unlock M u = Inr idle)"

text \<open>The builds.\<close>

datatype tbb_sync = tbb_tsx_lock | tbb_tsx_rw_lock | tbb_no_lock | tbb_rw_lock | tbb_lock

fun is_rw :: "tbb_sync \<Rightarrow> bool" where
  "is_rw tbb_tsx_lock = False"
| "is_rw tbb_tsx_rw_lock = True"
| "is_rw tbb_no_lock = True"
| "is_rw tbb_rw_lock = True"
| "is_rw tbb_lock = False"

record 'l tbb_tree =
  tbase :: "'l tree"
  tbb_tree_lock :: 'l

definition TBBTree_ctor :: "'l config \<Rightarrow> 'l tbb_tree" where
  "TBBTree_ctor c = \<lparr>tbase = Tree_ctor c, tbb_tree_lock = latch_init c\<rparr>"

definition on_mutex :: "('l \<Rightarrow> 'l result) \<Rightarrow> 'l tbb_tree \<Rightarrow> ptr \<Rightarrow> 'l tbb_tree result" where
  "on_mutex f tt p = bindR (deref (tbase tt) p) (\<lambda>_.
     bindR (f (latches (tbase tt) (the p))) (\<lambda>l. Inr (tt\<lparr>tbase := locked (tbase tt) (the p) l\<rparr>)))"

text \<open>The constructor of \<^verbatim>\<open>scoped_lock\<close>, \<^verbatim>\<open>upgrade_to_writer\<close>, and the destructor at the end of the scope.\<close>

definition scoped_lock :: "'l tbb_mutex \<Rightarrow> tbb_sync \<Rightarrow> 'l tbb_tree \<Rightarrow> ptr \<Rightarrow> 'l tbb_tree result" where
  "scoped_lock M sync tt p = on_mutex (if is_rw sync then tm_lock_shared M else tm_lock M) tt p"

definition upgrade_to_writer :: "'l tbb_mutex \<Rightarrow> tbb_sync \<Rightarrow> 'l tbb_tree \<Rightarrow> ptr \<Rightarrow> 'l tbb_tree result" where
  "upgrade_to_writer M sync tt p = (if is_rw sync then on_mutex (tm_upgrade M) tt p else Inr tt)"

definition scope_end :: "'l tbb_mutex \<Rightarrow> 'l tbb_tree \<Rightarrow> ptr \<Rightarrow> 'l tbb_tree result" where
  "scope_end M tt p = on_mutex (tm_unlock M) tt p"

definition TBBTree_lock :: "'l tbb_mutex \<Rightarrow> 'l tbb_tree \<Rightarrow> 'l tbb_tree result" where
  "TBBTree_lock M tt = bindR (tm_lock M (tbb_tree_lock tt)) (\<lambda>l. Inr (tt\<lparr>tbb_tree_lock := l\<rparr>))"

definition TBBTree_unlock :: "'l tbb_mutex \<Rightarrow> 'l tbb_tree \<Rightarrow> 'l tbb_tree result" where
  "TBBTree_unlock M tt = bindR (tm_unlock M (tbb_tree_lock tt)) (\<lambda>l. Inr (tt\<lparr>tbb_tree_lock := l\<rparr>))"

section \<open>InsertTask\<close>

record insert_task =
  task_key :: key_type
  task_value :: value_type
  separator_key :: key_type
  separator :: ptr

definition InsertTask_ctor :: "key_type \<Rightarrow> value_type \<Rightarrow> insert_task" where
  "InsertTask_ctor key value = \<lparr>task_key = key, task_value = value, separator_key = 0, separator = None\<rparr>"

definition is_for_leaf :: "insert_task \<Rightarrow> bool" where
  "is_for_leaf task = (separator task = None)"

text \<open>The end of both insertions after a split: a new root, or on with the parent of the node.\<close>

definition hand_up :: "'l config \<Rightarrow> 'l tbb_mutex \<Rightarrow> bool \<Rightarrow> 'l tbb_tree \<Rightarrow> insert_task \<Rightarrow> ptr
    \<Rightarrow> (ptr \<times> insert_task \<times> 'l tbb_tree) result" where
  "hand_up c M assert_root tt task node_ptr =
     bindR (deref (tbase tt) node_ptr) (\<lambda>n.
     if parent n = None
     then bindR (TBBTree_lock M tt) (\<lambda>tt1.
          if assert_root \<and> node_ptr \<noteq> root_node (tbase tt1) then Inl AssertionFailed
          else bindR (Tree_create_new_root c (tbase tt1) node_ptr (separator task) (separator_key task)) (\<lambda>t2.
               bindR (TBBTree_unlock M (tt1\<lparr>tbase := t2\<rparr>)) (\<lambda>tt2.
               Inr (None, task, tt2))))
     else Inr (parent n, task, tt))"

definition InsertTask_insert_into_leaf_node :: "'l config \<Rightarrow> 'l tbb_mutex \<Rightarrow> 'l tbb_tree \<Rightarrow> insert_task \<Rightarrow> ptr
    \<Rightarrow> key_type \<Rightarrow> value_type \<Rightarrow> (ptr \<times> insert_task \<times> 'l tbb_tree) result" where
  "InsertTask_insert_into_leaf_node c M tt task node_ptr key value =
     bindR (deref (tbase tt) node_ptr) (\<lambda>n.
     bindR (Node_index n key) (\<lambda>index.
     bindR (if index < nsize n then bindR (node_key n index) (\<lambda>k. Inr (k = key)) else Inr False) (\<lambda>present.
     if present then Inr (None, task, tt)
     else if \<not> is_full c n
     then bindR (Node_insert_value n index value key) (\<lambda>n'.
          Inr (None, task, tt\<lparr>tbase := store (tbase tt) node_ptr n'\<rparr>))
     else bindR (Tree_split_leaf_node c (tbase tt) node_ptr key value) (\<lambda>(right_leaf, t').
          bindR (deref t' right_leaf) (\<lambda>m.
          bindR (node_key m 0) (\<lambda>first.
          hand_up c M False (tt\<lparr>tbase := t'\<rparr>) (task\<lparr>separator := right_leaf, separator_key := first\<rparr>) node_ptr))))))"

definition InsertTask_insert_into_inner_node :: "'l config \<Rightarrow> 'l tbb_mutex \<Rightarrow> 'l tbb_tree \<Rightarrow> insert_task \<Rightarrow> ptr
    \<Rightarrow> key_type \<Rightarrow> ptr \<Rightarrow> (ptr \<times> insert_task \<times> 'l tbb_tree) result" where
  "InsertTask_insert_into_inner_node c M tt task node_ptr key sep =
     bindR (deref (tbase tt) node_ptr) (\<lambda>n.
     if \<not> is_full c n
     then bindR (Node_index n key) (\<lambda>index.
          bindR (Node_insert_separator n index sep key) (\<lambda>n'.
          bindR (set_parent (store (tbase tt) node_ptr n') sep node_ptr) (\<lambda>t'.
          Inr (None, task, tt\<lparr>tbase := t'\<rparr>))))
     else bindR (Tree_split_inner_node c (tbase tt) node_ptr key sep) (\<lambda>((next_separator, next_key), t').
          hand_up c M True (tt\<lparr>tbase := t'\<rparr>) (task\<lparr>separator := next_separator, separator_key := next_key\<rparr>) node_ptr))"

definition InsertTask_execute :: "'l config \<Rightarrow> 'l tbb_mutex \<Rightarrow> tbb_sync \<Rightarrow> 'l tbb_tree \<Rightarrow> insert_task \<Rightarrow> ptr
    \<Rightarrow> (ptr \<times> insert_task \<times> 'l tbb_tree) result" where
  "InsertTask_execute c M sync tt task node_ptr =
     bindR (scoped_lock M sync tt node_ptr) (\<lambda>tt1.
     bindR (bindR (deref (tbase tt1) node_ptr) (\<lambda>n.
       if high_key n \<le> task_key task then Inr (right_sibling n, task, tt1)
       else if is_for_leaf task
       then if \<not> is_leaf n then bindR (Node_child n (task_key task)) (\<lambda>child. Inr (child, task, tt1))
            else bindR (upgrade_to_writer M sync tt1 node_ptr) (\<lambda>tt2.
                 InsertTask_insert_into_leaf_node c M tt2 task node_ptr (task_key task) (task_value task))
       else bindR (upgrade_to_writer M sync tt1 node_ptr) (\<lambda>tt2.
            InsertTask_insert_into_inner_node c M tt2 task node_ptr (separator_key task) (separator task))))
       (\<lambda>(next_node, task', tt3).
     bindR (scope_end M tt3 node_ptr) (\<lambda>tt4. Inr (next_node, task', tt4))))"

text \<open>\<^verbatim>\<open>NodeTask::execute\<close> under the scheduler: again with the next node until there is none.\<close>

fun InsertTask_run :: "nat \<Rightarrow> 'l config \<Rightarrow> 'l tbb_mutex \<Rightarrow> tbb_sync \<Rightarrow> 'l tbb_tree \<Rightarrow> insert_task \<Rightarrow> ptr \<Rightarrow> 'l tbb_tree result" where
  "InsertTask_run 0 c M sync tt task node_ptr = Inl FuelExhausted"
| "InsertTask_run (Suc fuel) c M sync tt task node_ptr =
     bindR (InsertTask_execute c M sync tt task node_ptr) (\<lambda>(next_node, task', tt').
     if next_node \<noteq> None then InsertTask_run fuel c M sync tt' task' next_node else Inr tt')"

definition TBB_insert :: "'l config \<Rightarrow> 'l tbb_mutex \<Rightarrow> tbb_sync \<Rightarrow> 'l tbb_tree \<Rightarrow> key_type \<Rightarrow> value_type \<Rightarrow> 'l tbb_tree result" where
  "TBB_insert c M sync tt key value =
     InsertTask_run (2 * height (tbase tt)) c M sync tt (InsertTask_ctor key value) (root_node (tbase tt))"

section \<open>LookupTask and UpdateTask\<close>

text \<open>The result is the next node and what the task holds in \<^verbatim>\<open>_value\<close>.\<close>

definition LookupTask_visit :: "'l tbb_tree \<Rightarrow> key_type \<Rightarrow> value_type \<Rightarrow> ptr \<Rightarrow> (ptr \<times> value_type) result" where
  "LookupTask_visit tt key value node_ptr =
     bindR (deref (tbase tt) node_ptr) (\<lambda>n.
     if high_key n \<le> key then Inr (right_sibling n, value)
     else if \<not> is_leaf n then bindR (Node_child n key) (\<lambda>child. Inr (child, value))
     else bindR (Node_index n key) (\<lambda>index.
          bindR (node_key n index) (\<lambda>found_key.
          if found_key = key then bindR (node_value n index) (\<lambda>v. Inr (None, v)) else Inr (None, value))))"

definition LookupTask_execute :: "'l tbb_mutex \<Rightarrow> tbb_sync \<Rightarrow> 'l tbb_tree \<Rightarrow> key_type \<Rightarrow> value_type \<Rightarrow> ptr
    \<Rightarrow> (ptr \<times> value_type \<times> 'l tbb_tree) result" where
  "LookupTask_execute M sync tt key value node_ptr =
     (if sync = tbb_no_lock
      then bindR (LookupTask_visit tt key value node_ptr) (\<lambda>(next_node, v). Inr (next_node, v, tt))
      else bindR (scoped_lock M sync tt node_ptr) (\<lambda>tt1.
           bindR (LookupTask_visit tt1 key value node_ptr) (\<lambda>(next_node, v).
           bindR (scope_end M tt1 node_ptr) (\<lambda>tt2. Inr (next_node, v, tt2)))))"

fun LookupTask_run :: "nat \<Rightarrow> 'l tbb_mutex \<Rightarrow> tbb_sync \<Rightarrow> 'l tbb_tree \<Rightarrow> key_type \<Rightarrow> value_type \<Rightarrow> ptr \<Rightarrow> (value_type \<times> 'l tbb_tree) result" where
  "LookupTask_run 0 M sync tt key value node_ptr = Inl FuelExhausted"
| "LookupTask_run (Suc fuel) M sync tt key value node_ptr =
     bindR (LookupTask_execute M sync tt key value node_ptr) (\<lambda>(next_node, value', tt').
     if next_node \<noteq> None then LookupTask_run fuel M sync tt' key value' next_node else Inr (value', tt'))"

definition TBB_lookup :: "'l tbb_mutex \<Rightarrow> tbb_sync \<Rightarrow> 'l tbb_tree \<Rightarrow> key_type \<Rightarrow> (value_type \<times> 'l tbb_tree) result" where
  "TBB_lookup M sync tt key = LookupTask_run (height (tbase tt)) M sync tt key 0 (root_node (tbase tt))"

definition UpdateTask_execute :: "'l tbb_mutex \<Rightarrow> tbb_sync \<Rightarrow> 'l tbb_tree \<Rightarrow> key_type \<Rightarrow> value_type \<Rightarrow> ptr
    \<Rightarrow> (ptr \<times> 'l tbb_tree) result" where
  "UpdateTask_execute M sync tt key value node_ptr =
     bindR (scoped_lock M sync tt node_ptr) (\<lambda>tt1.
     bindR (bindR (deref (tbase tt1) node_ptr) (\<lambda>n.
       if high_key n \<le> key then Inr (right_sibling n, tt1)
       else if \<not> is_leaf n then bindR (Node_child n key) (\<lambda>child. Inr (child, tt1))
       else bindR (upgrade_to_writer M sync tt1 node_ptr) (\<lambda>tt2.
            bindR (Node_index n key) (\<lambda>index.
            bindR (node_key n index) (\<lambda>found_key.
            if found_key = key
            then bindR (node_set_value n index value) (\<lambda>n'. Inr (None, tt2\<lparr>tbase := store (tbase tt2) node_ptr n'\<rparr>))
            else Inr (None, tt2))))))
       (\<lambda>(next_node, tt3).
     bindR (scope_end M tt3 node_ptr) (\<lambda>tt4. Inr (next_node, tt4))))"

fun UpdateTask_run :: "nat \<Rightarrow> 'l tbb_mutex \<Rightarrow> tbb_sync \<Rightarrow> 'l tbb_tree \<Rightarrow> key_type \<Rightarrow> value_type \<Rightarrow> ptr \<Rightarrow> 'l tbb_tree result" where
  "UpdateTask_run 0 M sync tt key value node_ptr = Inl FuelExhausted"
| "UpdateTask_run (Suc fuel) M sync tt key value node_ptr =
     bindR (UpdateTask_execute M sync tt key value node_ptr) (\<lambda>(next_node, tt').
     if next_node \<noteq> None then UpdateTask_run fuel M sync tt' key value next_node else Inr tt')"

definition TBB_update :: "'l tbb_mutex \<Rightarrow> tbb_sync \<Rightarrow> 'l tbb_tree \<Rightarrow> key_type \<Rightarrow> value_type \<Rightarrow> 'l tbb_tree result" where
  "TBB_update M sync tt key value = UpdateTask_run (height (tbase tt)) M sync tt key value (root_node (tbase tt))"

section \<open>Locks\<close>

definition all_init :: "'l config \<Rightarrow> 'l tbb_tree \<Rightarrow> bool" where
  "all_init c tt \<longleftrightarrow> (\<forall>a. latches (tbase tt) a = latch_init c) \<and> tbb_tree_lock tt = latch_init c"

lemma lock_idle:
  assumes M: "mutex_ok M (latch_init c)" and i: "all_init c tt" and a: "heap (tbase tt) a = Some n"
  obtains l l' where "scoped_lock M sync tt (Some a) = Inr (tt\<lparr>tbase := locked (tbase tt) a l\<rparr>)" "tm_unlock M l = Inr (latch_init c)"
    "upgrade_to_writer M sync (tt\<lparr>tbase := locked (tbase tt) a l\<rparr>) (Some a) = Inr (tt\<lparr>tbase := locked (tbase tt) a l'\<rparr>)"
    "tm_unlock M l' = Inr (latch_init c)"
proof -
  have idle: "latches (tbase tt) a = latch_init c" using i by (simp add: all_init_def)
  obtain e where e: "tm_lock M (latch_init c) = Inr e" "tm_unlock M e = Inr (latch_init c)" using M by (auto simp: mutex_ok_def)
  obtain s u where s: "tm_lock_shared M (latch_init c) = Inr s" "tm_unlock M s = Inr (latch_init c)"
    "tm_upgrade M s = Inr u" "tm_unlock M u = Inr (latch_init c)" using M by (auto simp: mutex_ok_def)
  show thesis
  proof (cases "is_rw sync")
    case True
    then show ?thesis using that [of s u] s idle a
      by (simp add: scoped_lock_def upgrade_to_writer_def on_mutex_def locked_def)
  next
    case False
    then show ?thesis using that [of e e] e idle a by (simp add: scoped_lock_def upgrade_to_writer_def on_mutex_def)
  qed
qed

lemma scope_end_idle:
  assumes "heap (tbase tt) a = Some n" "tm_unlock M (latches (tbase tt) a) = Inr (latch_init c)"
  shows "scope_end M tt (Some a) = Inr (tt\<lparr>tbase := locked (tbase tt) a (latch_init c)\<rparr>)"
  using assms by (simp add: scope_end_def on_mutex_def)

lemma scope_end_unchanged:
  assumes "all_init c tt" "heap (tbase tt) a = Some n" "tm_unlock M l = Inr (latch_init c)"
  shows "scope_end M (tt\<lparr>tbase := locked (tbase tt) a l\<rparr>) (Some a) = Inr tt"
  using scope_end_idle [of "tt\<lparr>tbase := locked (tbase tt) a l\<rparr>" a n M c] assms
  by (simp add: locked_def all_init_def fun_upd_idem)

section \<open>Going down\<close>

lemma path_above:
  assumes i: "blink_inv c lo lv P t r" and k: "k \<noteq> max_key" and d: "d \<le> lv r"
  shows "\<exists>qs. path_covers lo lv (heap t) r k d qs \<and> length qs = lv r - d \<and> (\<forall>q \<in> set qs. d < lv q)"
  using d
proof (induction d rule: inc_induct)
  case base
  then show ?case by (intro exI [of _ "[]"]) simp
next
  case (step d)
  then obtain qs where qs: "path_covers lo lv (heap t) r k (Suc d) qs" "length qs = lv r - Suc d" "\<forall>q \<in> set qs. Suc d < lv q" by blast
  obtain b m where "heap t b = Some m" "lv b = Suc d" "lo b \<le> k" "k < high_key m"
    using level_covered [OF i _ k, of "Suc d"] step.hyps by auto
  then have "path_covers lo lv (heap t) r k d (b # qs)" "length (b # qs) = lv r - d" "\<forall>q \<in> set (b # qs). d < lv q"
    using qs step.hyps by (auto simp: covers_def)
  then show ?case by blast
qed

lemma path_covers_high:
  "path_covers lo lv h r k d qs \<Longrightarrow> q \<in> set qs \<Longrightarrow> \<exists>n. h q = Some n \<and> k < high_key n"
  by (induction lo lv h r k d qs rule: path_covers.induct) (auto simp: covers_def)

lemma InsertTask_down:
  assumes M: "mutex_ok M (latch_init c)" and i: "blink_inv c lo lv {} (tbase tt) r" and l: "all_init c tt"
    and a: "heap (tbase tt) a = Some n" "\<not> is_leaf n" "lo a \<le> task_key task" "task_key task < high_key n"
    and task: "is_for_leaf task"
  obtains b m where "InsertTask_execute c M sync tt task (Some a) = Inr (Some b, task, tt)" "heap (tbase tt) b = Some m"
    "lo b \<le> task_key task" "task_key task < high_key m" "Suc (lv b) = lv a"
proof -
  obtain b m where b: "Node_child n (task_key task) = Inr (Some b)" "heap (tbase tt) b = Some m" "lo b \<le> task_key task"
      "task_key task < high_key m" "Suc (lv b) = lv a"
    using child_covers [OF i a] .
  obtain x x' where x: "scoped_lock M sync tt (Some a) = Inr (tt\<lparr>tbase := locked (tbase tt) a x\<rparr>)" "tm_unlock M x = Inr (latch_init c)"
    using lock_idle [OF M l a(1)] by metis
  have "\<not> high_key n \<le> task_key task" using a(4) by simp
  then have "InsertTask_execute c M sync tt task (Some a) = Inr (Some b, task, tt)"
    using x(1) a(1,2) task b(1) scope_end_unchanged [OF l a(1) x(2)] by (simp add: InsertTask_execute_def)
  then show thesis using that b by blast
qed

section \<open>One insertion step\<close>

text \<open>The steps are those of the thread trees, followed by the hand-over to the parent.\<close>

lemma bindR_result: "bindR m f = Inr y \<Longrightarrow> (\<And>x. f x = Inr y \<Longrightarrow> Q) \<Longrightarrow> Q"
  by (cases m) auto

lemma split_leaf_ptr: "Tree_split_leaf_node c t p k v = Inr (q, t') \<Longrightarrow> q \<noteq> None"
  by (auto simp: Tree_split_leaf_node_def Tree_create_leaf_node_def Tree_create_node_def Let_def split: prod.splits elim!: bindR_result)

lemma split_inner_ptr: "Tree_split_inner_node c t p k x = Inr ((q, y), t') \<Longrightarrow> q \<noteq> None"
  unfolding Tree_split_inner_node_def Tree_create_inner_node_def Tree_create_node_def Let_def split_def
  by (elim bindR_result) (clarsimp elim!: bindR_result)+

lemma leaf_task_step:
  assumes "ThreadTree_insert_into_leaf c (tbase tt) p k v = Inr (up, t')"
  shows "InsertTask_insert_into_leaf_node c M tt task p k v =
    (if fst up = None then Inr (None, task, tt\<lparr>tbase := t'\<rparr>)
     else hand_up c M False (tt\<lparr>tbase := t'\<rparr>) (task\<lparr>separator := fst up, separator_key := snd up\<rparr>) p)"
proof -
  obtain n ix pr where r: "deref (tbase tt) p = Inr n" "Node_index n k = Inr ix"
      "(if ix < nsize n then bindR (node_key n ix) (\<lambda>x. Inr (x = k)) else Inr False) = Inr pr"
    and rest: "(if pr then Inr ((None, 0), tbase tt)
      else if \<not> is_full c n then bindR (Node_insert_value n ix v k) (\<lambda>n'. Inr ((None, 0), store (tbase tt) p n'))
      else bindR (Tree_split_leaf_node c (tbase tt) p k v) (\<lambda>(right_leaf, t').
           bindR (deref t' right_leaf) (\<lambda>m. bindR (node_key m 0) (\<lambda>k. Inr ((right_leaf, k), t'))))) = Inr (up, t')"
    using assms unfolding ThreadTree_insert_into_leaf_def bindR_eq_Inr by blast
  consider "pr" | "\<not> pr" "\<not> is_full c n" | "\<not> pr" "is_full c n" by blast
  then show ?thesis
    unfolding InsertTask_insert_into_leaf_node_def r bindR_Inr using rest
    by cases (auto simp: bindR_eq_Inr dest: split_leaf_ptr)
qed

text \<open>A split keeps the parent of the node that is split and the high keys of all others.\<close>

definition step_keeps :: "addr \<Rightarrow> 'l tree \<Rightarrow> 'l tree \<Rightarrow> bool" where
  "step_keeps a t t' \<longleftrightarrow> (\<forall>n. heap t a = Some n \<longrightarrow> (\<exists>n'. heap t' a = Some n' \<and> parent n' = parent n))
     \<and> (\<forall>b n. b \<noteq> a \<longrightarrow> heap t b = Some n \<longrightarrow> (\<exists>n'. heap t' b = Some n' \<and> high_key n' = high_key n))"

lemma leaf_step_keeps:
  assumes i: "blink_inv c lo lv {} t r" and c: "config_ok c" and a: "heap t a = Some n" "is_leaf n"
    and st: "ThreadTree_insert_into_leaf c t (Some a) k v = Inr ((Some s, x), t')"
  shows "step_keeps a t t'"
proof -
  note D = invD [OF i]
  have ok: "leaf_ok c (lo a) n" using contentD(3) [OF D(10) a] .
  have sz: "nsize n \<le> length (keys n)" "sorted_less (live_keys n)" using ok by (simp_all add: leaf_ok_def)
  let ?p = "std_lower_bound (live_keys n) k"
  have present: "(if ?p < nsize n then bindR (node_key n ?p) (\<lambda>x. Inr (x = k)) else Inr False) = Inr (k \<in> set (live_keys n))"
    using std_lb.lb_mem_iff [where xs = "live_keys n" and k = k] sz by (simp add: node_key_def arr_simps)
  have new: "k \<notin> set (live_keys n)" and full: "is_full c n" and split: "\<exists>q. Tree_split_leaf_node c t (Some a) k v = Inr (q, t')"
    using st unfolding ThreadTree_insert_into_leaf_def deref_Some [OF a(1)] bindR_Inr Node_index_eq [OF sz(1)] present
    by (auto simp: bindR_eq_Inr split: if_splits)
  have "nsize n = LeafNode_max_items c" using full ok a(2) by (simp add: is_full_def leaf_ok_def)
  moreover have ne: "a \<noteq> next_addr t" using a D(7) by auto
  ultimately obtain pos n' m' where "Tree_split_leaf_node c t (Some a) k v = Inr (Some (next_addr t), with_split c t a n' m')"
      "leaf_split_result c (next_addr t) n k v pos n' m'"
    using split_leaf_effect [OF c a(1) ne ok _ new] by blast
  then have "t' = with_split c t a n' m'" "parent n' = parent n" using split by (auto simp: leaf_split_result_def Let_def)
  then show ?thesis using a(1) ne D(7) by (auto simp: step_keeps_def)
qed

lemma inner_step_keeps:
  assumes i: "blink_inv c lo lv {s} t r" and c: "config_ok c" and q: "heap t q = Some n" "lo q \<le> lo s" "lo s < high_key n"
    and lv: "lv q = Suc (lv s)"
    and st: "ThreadTree_insert_into_inner c t (Some q) (lo s) (Some s) = Inr ((Some x, y), t')"
  shows "step_keeps q t t'"
proof -
  note D = invD [OF i]
  let ?new = "next_addr t"
  have nl: "\<not> is_leaf n" using contentD(1) [OF D(10) q(1)] lv by simp
  have io: "inner_ok c lo lv (heap t) q n" using contentD(4) [OF D(10) q(1) nl] .
  have full: "is_full c n" and split: "Tree_split_inner_node c t (Some q) (lo s) (Some s) = Inr ((Some x, y), t')"
    using st q(1) by (auto simp: ThreadTree_insert_into_inner_def bindR_eq_Inr split: if_splits)
  have full': "nsize n = InnerNode_max_keys c" using full nl inner_okD(1) [OF io] by (simp add: is_full_def inner_shape_def)
  have ne: "q \<noteq> ?new" using q(1) D(7) by auto
  have new: "lo s \<notin> set (lo q # live_keys n)" using pending_key_new [OF i _ q(1) nl lv] by simp
  obtain ns where ns: "heap t s = Some ns" using D(12) unfolding linked_ok_def by auto
  obtain cs where cs: "live_seps n = map Some cs" "\<forall>b \<in> set cs. heap t b \<noteq> None" using inner_kids_list [OF io] .
  have sq: "s \<noteq> q" "s \<noteq> ?new" using lv ns D(7) by auto
  then obtain n' m' bs where eff: "Tree_split_inner_node c t (Some q) (lo s) (Some s)
      = Inr ((Some ?new, inner_split_key c n (lo s)), reparent (with_split c t q n' m') (set bs) (Some ?new))"
    and res: "inner_split_result c ?new n (lo s) (Some s) n' m'" "live_seps m' = map Some bs"
    using split_inner_effect [OF c q(1) ne inner_okD(1) [OF io] full' inner_okD(2) [OF io] _ cs ns
        parent_is_cover [OF i ns q(1) lv q(2,3)], of "lo s"] new by auto
  have "set (live_seps m') \<subseteq> insert (Some s) (set (live_seps n))"
    using res(1) by (auto simp: inner_split_result_def Let_def set_insert_at dest: in_set_dropD)
  then have "q \<notin> set bs" using sq(1) inner_okD(5) [OF io, of q] unfolding res(2) by (auto simp: cs(1))
  moreover have "t' = reparent (with_split c t q n' m') (set bs) (Some ?new)" "parent n' = parent n"
    using split eff res(1) by (auto simp: inner_split_result_def Let_def)
  ultimately show ?thesis using q(1) ne D(7) by (auto simp: step_keeps_def)
qed

lemma inner_task_step:
  assumes i: "blink_inv c lo lv {s} (tbase tt) r" and q: "heap (tbase tt) q = Some n" "lo q \<le> lo s" "lo s < high_key n"
    and lv: "lv q = Suc (lv s)"
    and st: "ThreadTree_insert_into_inner c (tbase tt) (Some q) (lo s) (Some s) = Inr (up, t')"
  shows "InsertTask_insert_into_inner_node c M tt task (Some q) (lo s) (Some s) =
    (if fst up = None then Inr (None, task, tt\<lparr>tbase := t'\<rparr>)
     else hand_up c M True (tt\<lparr>tbase := t'\<rparr>) (task\<lparr>separator := fst up, separator_key := snd up\<rparr>) (Some q))"
proof (cases "is_full c n")
  case True
  then show ?thesis using st q(1)
    by (cases up) (auto simp: ThreadTree_insert_into_inner_def InsertTask_insert_into_inner_node_def dest: split_inner_ptr)
next
  case False
  obtain ns where ns: "heap (tbase tt) s = Some ns" using invD(12) [OF i] unfolding linked_ok_def by auto
  have par: "parent ns = Some q" using parent_is_cover [OF i ns q(1) lv q(2,3)] .
  have "s \<noteq> q" using lv by auto
  obtain n' where n': "bindR (Node_index n (lo s)) (\<lambda>ix. Node_insert_separator n ix (Some s) (lo s)) = Inr n'"
    "up = (None, 0)" "t' = store (tbase tt) (Some q) n'"
    using st q(1) False by (auto simp: ThreadTree_insert_into_inner_def bindR_eq_Inr)
  have "set_parent (store (tbase tt) (Some q) n') (Some s) (Some q) = Inr (store (tbase tt) (Some q) n')"
    using ns par \<open>s \<noteq> q\<close> by (simp add: set_parent_def store_def fun_upd_idem)
  then show ?thesis using n' q(1) False by (auto simp: InsertTask_insert_into_inner_node_def bindR_eq_Inr)
qed

lemma hand_up_root:
  assumes M: "mutex_ok M (latch_init c)" and c: "config_ok c" and lock: "tbb_tree_lock tt = latch_init c"
    and i: "blink_inv c lo lv {s} (tbase tt) r" "lv s = lv r" and n: "heap (tbase tt) r = Some n" "parent n = None"
    and ht: "height (tbase tt) < 65535" and task: "separator task = Some s" "separator_key task = lo s"
  shows "\<exists>t3. hand_up c M ar tt task (Some r) = Inr (None, task, tt\<lparr>tbase := t3\<rparr>) \<and> tree_inv c t3
    \<and> tree_map t3 = tree_map (tbase tt) \<and> height t3 \<le> Suc (height (tbase tt)) \<and> heap t3 r \<noteq> None
    \<and> latches t3 = (latches (tbase tt))(next_addr (tbase tt) := latch_init c)"
proof -
  let ?t = "tbase tt"
  obtain t3 m where t3: "Tree_create_new_root c ?t (Some r) (Some s) (lo s) = Inr t3"
      "blink_inv c (lo(next_addr ?t := 0)) (lv(next_addr ?t := Suc (lv r))) {} t3 (next_addr ?t)"
      "\<not> is_leaf m" "t3 = reparent (with_new_root c ?t m) {r, s} (Some (next_addr ?t))"
    using inv_new_root [OF i(1) c i(2) ht] by blast
  obtain e where e: "tm_lock M (latch_init c) = Inr e" "tm_unlock M e = Inr (latch_init c)" using M by (auto simp: mutex_ok_def)
  have "tt\<lparr>tbb_tree_lock := latch_init c, tbase := t3\<rparr> = tt\<lparr>tbase := t3\<rparr>" using lock by simp
  then have "hand_up c M ar tt task (Some r) = Inr (None, task, tt\<lparr>tbase := t3\<rparr>)"
    using n t3(1) e lock task invD(1) [OF i(1)] by (simp add: hand_up_def TBBTree_lock_def TBBTree_unlock_def)
  moreover have "tree_map t3 = tree_map ?t"
    using tree_map_eqI [OF i(1) t3(2)] entries_new_root [OF invD(7) [OF i(1)] t3(3)] by (simp add: t3(4))
  moreover have "tree_inv c t3" using t3(2) by (auto simp: tree_inv_def)
  moreover have "height t3 \<le> Suc (height ?t)" "latches t3 = (latches ?t)(next_addr ?t := latch_init c)" "heap t3 r \<noteq> None"
    using t3(4) n(1) by simp_all
  ultimately show ?thesis by blast
qed

text \<open>The end of an execution that modified a node: the split is handed up and the lock released.\<close>

definition handed_up :: "'l config \<Rightarrow> addr \<Rightarrow> addr list \<Rightarrow> 'l tree \<Rightarrow> ptr \<Rightarrow> insert_task \<Rightarrow> 'l tree \<Rightarrow> bool" where
  "handed_up c r qs t1 nxt task' t' \<longleftrightarrow>
     (nxt = None \<and> tree_inv c t' \<and> height t' \<le> Suc (height t1))
     \<or> (\<exists>lo lv s q qs'. qs = q # qs' \<and> nxt = Some q \<and> separator task' = Some s \<and> separator_key task' = lo s
         \<and> blink_inv c lo lv {s} t' r \<and> path_covers lo lv (heap t') r (lo s) (lv s) qs
         \<and> heap t' = heap t1 \<and> height t' = height t1)"

lemma tree_inv_locked [simp]: "tree_inv c (locked t a l) = tree_inv c t"
  by (simp add: tree_inv_def)

lemma handed_up_locked [simp]: "handed_up c r qs t1 nxt task (locked t a l) = handed_up c r qs t1 nxt task t"
  by (simp add: handed_up_def)

lemma hand_up_step:
  assumes M: "mutex_ok M (latch_init c)" and c: "config_ok c" and lock: "tbb_tree_lock tt = latch_init c"
    and a: "heap (tbase tt) a = Some n" and par: "parent n = (case qs of [] \<Rightarrow> None | q # _ \<Rightarrow> Some q)" and root: "qs = [] \<longrightarrow> a = r"
    and st: "outcome c qs r up t1" "heap t1 a \<noteq> None" and keep: "fst up \<noteq> None \<longrightarrow> step_keeps a (tbase tt) t1"
    and ht: "height t1 < 65535"
  obtains nxt task' t2 x where "(if fst up = None then Inr (None, task, tt\<lparr>tbase := t1\<rparr>)
       else hand_up c M ar (tt\<lparr>tbase := t1\<rparr>) (task\<lparr>separator := fst up, separator_key := snd up\<rparr>) (Some a))
       = Inr (nxt, task', tt\<lparr>tbase := t2\<rparr>)" "latches t2 = latches t1 \<or> latches t2 = (latches t1)(x := latch_init c)" "x \<noteq> a"
    "heap t2 a \<noteq> None" "tree_map t2 = tree_map t1" "task_key task' = task_key task" "handed_up c r qs t1 nxt task' t2"
proof -
  consider (finished) lo lv where "up = (None, 0)" "blink_inv c lo lv {} t1 r"
    | (pending) lo lv s where "up = (Some s, lo s)" "blink_inv c lo lv {s} t1 r" "path_covers lo lv (heap t1) r (lo s) (lv s) qs"
    using st(1) by (auto simp: outcome_def)
  then show thesis
  proof cases
    case finished
    moreover have "tree_inv c t1" using finished(2) by (auto simp: tree_inv_def)
    ultimately show ?thesis using that [of None task t1 "Suc a"] st(2) by (simp add: handed_up_def)
  next
    case pending
    obtain n' where n': "heap t1 a = Some n'" "parent n' = (case qs of [] \<Rightarrow> None | q # _ \<Rightarrow> Some q)"
      using keep pending(1) a par by (auto simp: step_keeps_def)
    let ?task = "task\<lparr>separator := Some s, separator_key := lo s\<rparr>"
    show ?thesis
    proof (cases qs)
      case Nil
      then have ar: "a = r" and lvs: "lv s = lv r" using root pending(3) by simp_all
      obtain t3 where t3: "hand_up c M ar (tt\<lparr>tbase := t1\<rparr>) ?task (Some r) = Inr (None, ?task, tt\<lparr>tbase := t3\<rparr>)" "tree_inv c t3"
          "tree_map t3 = tree_map t1" "height t3 \<le> Suc (height t1)" "heap t3 r \<noteq> None"
          "latches t3 = (latches t1)(next_addr t1 := latch_init c)"
        using hand_up_root [OF M c, of "tt\<lparr>tbase := t1\<rparr>" lo lv s r n' ?task ar] lock pending(2) lvs n' ht ar Nil by auto
      have "next_addr t1 \<noteq> a" using invD(6) [OF pending(2) n'(1)] by simp
      then show ?thesis using that [of None ?task t3 "next_addr t1"] t3 pending(1) ar by (simp add: handed_up_def)
    next
      case (Cons q qs')
      then have "hand_up c M ar (tt\<lparr>tbase := t1\<rparr>) ?task (Some a) = Inr (Some q, ?task, tt\<lparr>tbase := t1\<rparr>)"
        using n' by (simp add: hand_up_def)
      moreover have "handed_up c r qs t1 (Some q) ?task t1" using pending Cons unfolding handed_up_def by auto
      ultimately show ?thesis using that [of "Some q" ?task t1 "Suc a"] pending(1) st(2) by simp
    qed
  qed
qed

lemma step_end:
  assumes M: "mutex_ok M (latch_init c)" and c: "config_ok c" and l: "all_init c tt" and u: "tm_unlock M l' = Inr (latch_init c)"
    and a: "heap (tbase tt) a = Some n" and par: "parent n = (case qs of [] \<Rightarrow> None | q # _ \<Rightarrow> Some q)" and root: "qs = [] \<longrightarrow> a = r"
    and st: "outcome c qs r up t1" "frame c a (locked (tbase tt) a l') t1" and keep: "fst up \<noteq> None \<longrightarrow> step_keeps a (tbase tt) t1"
    and ht: "height t1 < 65535"
  shows "\<exists>nxt task' tt'. bindR (if fst up = None then Inr (None, task, tt\<lparr>tbase := t1\<rparr>)
       else hand_up c M ar (tt\<lparr>tbase := t1\<rparr>) (task\<lparr>separator := fst up, separator_key := snd up\<rparr>) (Some a))
       (\<lambda>(nxt, task', tt3). bindR (scope_end M tt3 (Some a)) (\<lambda>tt4. Inr (nxt, task', tt4))) = Inr (nxt, task', tt')
    \<and> all_init c tt' \<and> tree_map (tbase tt') = tree_map t1 \<and> task_key task' = task_key task \<and> handed_up c r qs t1 nxt task' (tbase tt')"
proof -
  have fr: "latches t1 a = l'" "heap t1 a \<noteq> None" "\<And>b. b \<noteq> a \<Longrightarrow> latches t1 b = latch_init c"
    using st(2) l by (auto simp: frame_def all_init_def)
  have lock: "tbb_tree_lock tt = latch_init c" using l by (simp add: all_init_def)
  obtain nxt task' t2 x where t2: "(if fst up = None then Inr (None, task, tt\<lparr>tbase := t1\<rparr>)
       else hand_up c M ar (tt\<lparr>tbase := t1\<rparr>) (task\<lparr>separator := fst up, separator_key := snd up\<rparr>) (Some a))
       = Inr (nxt, task', tt\<lparr>tbase := t2\<rparr>)" "latches t2 = latches t1 \<or> latches t2 = (latches t1)(x := latch_init c)" "x \<noteq> a"
    "heap t2 a \<noteq> None" "tree_map t2 = tree_map t1" "task_key task' = task_key task" "handed_up c r qs t1 nxt task' t2"
    using hand_up_step [OF M c lock a par root st(1) fr(2) keep ht, of task ar] .
  have "scope_end M (tt\<lparr>tbase := t2\<rparr>) (Some a) = Inr (tt\<lparr>tbase := locked t2 a (latch_init c)\<rparr>)"
    using t2(2-4) u fr(1) scope_end_idle [of "tt\<lparr>tbase := t2\<rparr>" a _ M c] by auto
  moreover have "all_init c (tt\<lparr>tbase := locked t2 a (latch_init c)\<rparr>)" using t2(2,3) fr l by (auto simp: all_init_def)
  moreover have "tree_map (locked t2 a (latch_init c)) = tree_map t1" using t2(5) by simp
  ultimately show ?thesis using t2(1,6,7) by simp
qed

section \<open>Climbing\<close>

lemma top_is_root:
  assumes "blink_inv c lo lv P t r" "heap t a \<noteq> None" "a \<notin> P" "lv a = lv r"
  shows "a = r"
  using invD(12) [OF assms(1)] assms(2-4) unfolding linked_ok_def by (metis DiffI domIff)

lemma parent_on_path:
  assumes i: "blink_inv c lo lv P t r" and a: "heap t a = Some n" "a \<notin> P" and k: "lo a \<le> k" "k < high_key n"
    and p: "path_covers lo lv (heap t) r k (lv a) qs"
  shows "parent n = (case qs of [] \<Rightarrow> None | q # _ \<Rightarrow> Some q)" "qs = [] \<longrightarrow> a = r"
proof -
  show "qs = [] \<longrightarrow> a = r" using top_is_root [OF i _ a(2)] a(1) p by auto
  show "parent n = (case qs of [] \<Rightarrow> None | q # _ \<Rightarrow> Some q)"
  proof (cases qs)
    case Nil
    then have "\<not> lv a < lv r" using p by simp
    then show ?thesis using Nil invD(11) [OF i] a(1) unfolding parents_ok_def by auto
  next
    case (Cons q qs')
    then obtain m where "heap t q = Some m" "lo q \<le> k" "k < high_key m" "lv q = Suc (lv a)" using p by (auto simp: covers_def)
    then show ?thesis using covers_up(3) [OF i a _ _ k] Cons by simp
  qed
qed

lemma InsertTask_inner:
  assumes M: "mutex_ok M (latch_init c)" and c: "config_ok c" and l: "all_init c tt" and i: "blink_inv c lo lv {s} (tbase tt) r"
    and task: "separator task = Some s" "separator_key task = lo s"
    and p: "path_covers lo lv (heap (tbase tt)) r (lo s) (lv s) (q # qs)"
    and k: "heap (tbase tt) q = Some n" "task_key task < high_key n" and ht: "height (tbase tt) < 65535"
  shows "\<exists>nxt task' tt' t1. InsertTask_execute c M sync tt task (Some q) = Inr (nxt, task', tt') \<and> all_init c tt'
    \<and> tree_map (tbase tt') = tree_map (tbase tt) \<and> task_key task' = task_key task \<and> handed_up c r qs t1 nxt task' (tbase tt')
    \<and> height t1 = height (tbase tt) \<and> (nxt \<noteq> None \<longrightarrow> step_keeps q (tbase tt) t1)"
proof -
  have q: "lo q \<le> lo s" "lo s < high_key n" "lv q = Suc (lv s)" and rest: "path_covers lo lv (heap (tbase tt)) r (lo s) (lv q) qs"
    using p k(1) by (auto simp: covers_def)
  have "q \<notin> {s}" using q(3) by auto
  note par = parent_on_path [OF i k(1) this q(1,2) rest]
  obtain x x' where x: "scoped_lock M sync tt (Some q) = Inr (tt\<lparr>tbase := locked (tbase tt) q x\<rparr>)"
      "upgrade_to_writer M sync (tt\<lparr>tbase := locked (tbase tt) q x\<rparr>) (Some q) = Inr (tt\<lparr>tbase := locked (tbase tt) q x'\<rparr>)"
      "tm_unlock M x' = Inr (latch_init c)"
    using lock_idle [OF M l k(1)] by metis
  let ?l = "locked (tbase tt) q x'"
  obtain up t1 where st: "ThreadTree_insert_into_inner c ?l (Some q) (lo s) (Some s) = Inr (up, t1)" "outcome c qs r up t1"
      "frame c q ?l t1" "tree_map t1 = tree_map (tbase tt)"
    using insert_into_inner_spec [OF _ c, of lo lv s ?l r q qs] i p by auto
  have keep: "fst up \<noteq> None \<longrightarrow> step_keeps q (tbase tt) t1"
    using inner_step_keeps [of c lo lv s ?l r q n _ _ t1] i c k(1) q st(1) by (cases up) (auto simp: step_keeps_def)
  have t1: "height t1 = height (tbase tt)" using st(3) by (simp add: frame_def)
  have body: "InsertTask_execute c M sync tt task (Some q) =
     bindR (InsertTask_insert_into_inner_node c M (tt\<lparr>tbase := ?l\<rparr>) task (Some q) (lo s) (Some s))
       (\<lambda>(nxt, task', tt3). bindR (scope_end M tt3 (Some q)) (\<lambda>tt4. Inr (nxt, task', tt4)))"
    using x(1,2) k task not_le [THEN iffD2, OF k(2)] by (simp add: InsertTask_execute_def is_for_leaf_def)
  have node: "InsertTask_insert_into_inner_node c M (tt\<lparr>tbase := ?l\<rparr>) task (Some q) (lo s) (Some s) =
     (if fst up = None then Inr (None, task, tt\<lparr>tbase := t1\<rparr>)
      else hand_up c M True (tt\<lparr>tbase := t1\<rparr>) (task\<lparr>separator := fst up, separator_key := snd up\<rparr>) (Some q))"
    using inner_task_step [of c lo lv s "tt\<lparr>tbase := ?l\<rparr>" r q n up t1 M task] i k(1) q st(1) by simp
  obtain nxt task' tt' where e: "InsertTask_execute c M sync tt task (Some q) = Inr (nxt, task', tt')" "all_init c tt'"
      "tree_map (tbase tt') = tree_map t1" "task_key task' = task_key task" "handed_up c r qs t1 nxt task' (tbase tt')"
    using step_end [OF M c l x(3) k(1) par st(2,3) keep, of task True] ht t1 unfolding body node by auto
  have "nxt \<noteq> None \<longrightarrow> fst up \<noteq> None"
    using e(1) unfolding body node by (auto simp: bindR_eq_Inr split: if_splits)
  then show ?thesis using e keep st(4) t1 by metis
qed

section \<open>Inserting\<close>

definition TBBTree_ok :: "'l config \<Rightarrow> 'l tbb_tree \<Rightarrow> bool" where
  "TBBTree_ok c tt \<longleftrightarrow> config_ok c \<and> tree_inv c (tbase tt) \<and> all_init c tt"

lemma path_distinct:
  assumes "path_covers lo lv h r k d qs"
  shows "distinct qs \<and> (\<forall>q \<in> set qs. d < lv q)"
  using assms by (induction lo lv h r k d qs rule: path_covers.induct) fastforce+

lemma InsertTask_leaf:
  assumes M: "mutex_ok M (latch_init c)" and c: "config_ok c" and l: "all_init c tt" and i: "blink_inv c lo lv {} (tbase tt) r"
    and a: "heap (tbase tt) a = Some n" "is_leaf n" "lo a \<le> task_key task" "task_key task < high_key n"
    and p: "path_covers lo lv (heap (tbase tt)) r (task_key task) 0 qs" and task: "separator task = None" and ht: "height (tbase tt) < 65535"
  shows "\<exists>nxt task' tt' t1. InsertTask_execute c M sync tt task (Some a) = Inr (nxt, task', tt') \<and> all_init c tt'
    \<and> tree_map (tbase tt') = insert_new (tree_map (tbase tt)) (task_key task) (task_value task)
    \<and> task_key task' = task_key task \<and> handed_up c r qs t1 nxt task' (tbase tt')
    \<and> height t1 = height (tbase tt) \<and> (nxt \<noteq> None \<longrightarrow> step_keeps a (tbase tt) t1)"
proof -
  let ?k = "task_key task" and ?v = "task_value task"
  have lva: "lv a = 0" using contentD(1) [OF invD(10) [OF i] a(1)] a(2) by simp
  note par = parent_on_path [OF i a(1) _ a(3,4) p [folded lva], simplified]
  obtain x x' where x: "scoped_lock M sync tt (Some a) = Inr (tt\<lparr>tbase := locked (tbase tt) a x\<rparr>)"
      "upgrade_to_writer M sync (tt\<lparr>tbase := locked (tbase tt) a x\<rparr>) (Some a) = Inr (tt\<lparr>tbase := locked (tbase tt) a x'\<rparr>)"
      "tm_unlock M x' = Inr (latch_init c)"
    using lock_idle [OF M l a(1)] by metis
  let ?l = "locked (tbase tt) a x'"
  obtain up t1 where st: "ThreadTree_insert_into_leaf c ?l (Some a) ?k ?v = Inr (up, t1)" "outcome c qs r up t1"
      "frame c a ?l t1" "tree_map t1 = insert_new (tree_map (tbase tt)) ?k ?v"
    using insert_into_leaf_spec [of c lo lv ?l r a n ?k qs ?v] i c a p by auto
  have keep: "fst up \<noteq> None \<longrightarrow> step_keeps a (tbase tt) t1"
    using leaf_step_keeps [of c lo lv ?l r a n ?k ?v _ _ t1] i c a(1,2) st(1) by (cases up) (auto simp: step_keeps_def)
  have t1: "height t1 = height (tbase tt)" using st(3) by (simp add: frame_def)
  have body: "InsertTask_execute c M sync tt task (Some a) =
     bindR (InsertTask_insert_into_leaf_node c M (tt\<lparr>tbase := ?l\<rparr>) task (Some a) ?k ?v)
       (\<lambda>(nxt, task', tt3). bindR (scope_end M tt3 (Some a)) (\<lambda>tt4. Inr (nxt, task', tt4)))"
    using x(1,2) a(1,2) task not_le [THEN iffD2, OF a(4)] by (simp add: InsertTask_execute_def is_for_leaf_def)
  have node: "InsertTask_insert_into_leaf_node c M (tt\<lparr>tbase := ?l\<rparr>) task (Some a) ?k ?v =
     (if fst up = None then Inr (None, task, tt\<lparr>tbase := t1\<rparr>)
      else hand_up c M False (tt\<lparr>tbase := t1\<rparr>) (task\<lparr>separator := fst up, separator_key := snd up\<rparr>) (Some a))"
    using leaf_task_step [of c "tt\<lparr>tbase := ?l\<rparr>" "Some a" ?k ?v up t1 M task] st(1) by simp
  obtain nxt task' tt' where e: "InsertTask_execute c M sync tt task (Some a) = Inr (nxt, task', tt')" "all_init c tt'"
      "tree_map (tbase tt') = tree_map t1" "task_key task' = task_key task" "handed_up c r qs t1 nxt task' (tbase tt')"
    using step_end [OF M c l x(3) a(1) par st(2,3) keep, of task False] ht t1 unfolding body node by auto
  have "nxt \<noteq> None \<longrightarrow> fst up \<noteq> None"
    using e(1) unfolding body node by (auto simp: bindR_eq_Inr split: if_splits)
  then show ?thesis using e keep st(4) t1 by metis
qed

text \<open>
  What one execution of an insertion task promises, whichever build it is: at an inner node it goes down, at
  the leaf it inserts, and with a separator it inserts into the inner node and hands on what is left. A
  whole run of the task is derived from these three laws.
\<close>

locale insert_task_build =
  fixes c :: "'l config"
    and exec :: "'s \<Rightarrow> insert_task \<Rightarrow> ptr \<Rightarrow> (ptr \<times> insert_task \<times> 's) result"
    and run :: "nat \<Rightarrow> 's \<Rightarrow> insert_task \<Rightarrow> ptr \<Rightarrow> 's result"
    and tree_of :: "'s \<Rightarrow> 'l tree"
    and quiet :: "'s \<Rightarrow> bool"
  assumes run_law: "run (Suc fuel) s task p = bindR (exec s task p) (\<lambda>(nxt, task', s').
        if nxt \<noteq> None then run fuel s' task' nxt else Inr s')"
    and down_law: "\<lbrakk>quiet s; blink_inv c lo lv {} (tree_of s) r; heap (tree_of s) a = Some n; \<not> is_leaf n; lo a \<le> task_key task;
        task_key task < high_key n; is_for_leaf task\<rbrakk>
      \<Longrightarrow> \<exists>b m s'. exec s task (Some a) = Inr (Some b, task, s') \<and> quiet s' \<and> tree_of s' = tree_of s \<and> heap (tree_of s) b = Some m
        \<and> lo b \<le> task_key task \<and> task_key task < high_key m \<and> Suc (lv b) = lv a"
    and leaf_law: "\<lbrakk>quiet s; config_ok c; blink_inv c lo lv {} (tree_of s) r; heap (tree_of s) a = Some n; is_leaf n; lo a \<le> task_key task;
        task_key task < high_key n; path_covers lo lv (heap (tree_of s)) r (task_key task) 0 qs; separator task = None;
        height (tree_of s) < 65535\<rbrakk>
      \<Longrightarrow> \<exists>nxt task' s' t1. exec s task (Some a) = Inr (nxt, task', s') \<and> quiet s'
        \<and> tree_map (tree_of s') = insert_new (tree_map (tree_of s)) (task_key task) (task_value task)
        \<and> task_key task' = task_key task \<and> handed_up c r qs t1 nxt task' (tree_of s')
        \<and> height t1 = height (tree_of s) \<and> (nxt \<noteq> None \<longrightarrow> step_keeps a (tree_of s) t1)"
    and inner_law: "\<lbrakk>quiet s; config_ok c; blink_inv c lo lv {x} (tree_of s) r; separator task = Some x; separator_key task = lo x;
        path_covers lo lv (heap (tree_of s)) r (lo x) (lv x) (q # qs); heap (tree_of s) q = Some n; task_key task < high_key n;
        height (tree_of s) < 65535\<rbrakk>
      \<Longrightarrow> \<exists>nxt task' s' t1. exec s task (Some q) = Inr (nxt, task', s') \<and> quiet s'
        \<and> tree_map (tree_of s') = tree_map (tree_of s) \<and> task_key task' = task_key task \<and> handed_up c r qs t1 nxt task' (tree_of s')
        \<and> height t1 = height (tree_of s) \<and> (nxt \<noteq> None \<longrightarrow> step_keeps q (tree_of s) t1)"
begin

lemma run_down:
  assumes "quiet s" "is_for_leaf task" "blink_inv c lo lv {} (tree_of s) r" "heap (tree_of s) a = Some n" "lo a \<le> task_key task"
    "task_key task < high_key n"
  shows "\<exists>b m s'. quiet s' \<and> tree_of s' = tree_of s \<and> heap (tree_of s) b = Some m \<and> is_leaf m \<and> lo b \<le> task_key task
    \<and> task_key task < high_key m \<and> run (lv a + fuel) s task (Some a) = run fuel s' task (Some b)"
  using assms
proof (induction "lv a" arbitrary: a n s)
  case 0
  then have "is_leaf n" using contentD(1) [OF invD(10) [OF "0.prems"(3)]] by simp
  then show ?case using 0 by (intro exI [of _ a] exI [of _ n] exI [of _ s]) simp
next
  case (Suc d)
  then have "\<not> is_leaf n" using contentD(1) [OF invD(10) [OF Suc.prems(3)]] by (metis nat.discI)
  then obtain b m s' where b: "exec s task (Some a) = Inr (Some b, task, s')" "quiet s'" "tree_of s' = tree_of s"
      "heap (tree_of s) b = Some m" "lo b \<le> task_key task" "task_key task < high_key m" "Suc (lv b) = lv a"
    using down_law [OF Suc.prems(1,3,4) _ Suc.prems(5,6,2)] by blast
  have "run (lv a + fuel) s task (Some a) = run (lv b + fuel) s' task (Some b)"
    using b(1) run_law [of "lv b + fuel" s task "Some a"] unfolding b(7) [symmetric] by simp
  then show ?case using Suc.hyps(1) [of b s' m] Suc.hyps(2) Suc.prems(2,3) b(2-7) by simp
qed

lemma climb:
  assumes c: "config_ok c" and "quiet s" "blink_inv c lo lv {x} (tree_of s) r" "separator task = Some x" "separator_key task = lo x"
    and "path_covers lo lv (heap (tree_of s)) r (lo x) (lv x) (q # qs)"
    and "\<forall>b \<in> set (q # qs). \<exists>n. heap (tree_of s) b = Some n \<and> task_key task < high_key n"
    and "height (tree_of s) < 65535" "length (q # qs) \<le> fuel" "distinct (q # qs)"
  shows "\<exists>s'. run fuel s task (Some q) = Inr s' \<and> quiet s' \<and> tree_inv c (tree_of s')
    \<and> tree_map (tree_of s') = tree_map (tree_of s) \<and> height (tree_of s') \<le> Suc (height (tree_of s))"
  using assms(2-)
proof (induction qs arbitrary: s lo lv x task q fuel)
  case Nil
  obtain f where f: "fuel = Suc f" using Nil.prems(8) by (cases fuel) auto
  obtain n where n: "heap (tree_of s) q = Some n" "task_key task < high_key n" using Nil.prems(6) by auto
  obtain nxt task' s' t1 where e: "exec s task (Some q) = Inr (nxt, task', s')" "quiet s'"
      "tree_map (tree_of s') = tree_map (tree_of s)" "handed_up c r [] t1 nxt task' (tree_of s')" "height t1 = height (tree_of s)"
    using inner_law [OF Nil.prems(1) c Nil.prems(2-5) n Nil.prems(7)] by metis
  then show ?case unfolding f run_law by (auto simp: handed_up_def)
next
  case (Cons q2 qs)
  obtain f where f: "fuel = Suc f" using Cons.prems(8) by (cases fuel) auto
  obtain n where n: "heap (tree_of s) q = Some n" "task_key task < high_key n" using Cons.prems(6) by auto
  obtain nxt task' s' t1 where e: "exec s task (Some q) = Inr (nxt, task', s')" "quiet s'"
      "tree_map (tree_of s') = tree_map (tree_of s)" "task_key task' = task_key task" "handed_up c r (q2 # qs) t1 nxt task' (tree_of s')"
      "height t1 = height (tree_of s)" "nxt \<noteq> None \<longrightarrow> step_keeps q (tree_of s) t1"
    using inner_law [OF Cons.prems(1) c Cons.prems(2-5) n Cons.prems(7)] by metis
  show ?case
  proof (cases nxt)
    case None
    then show ?thesis using e unfolding f run_law by (auto simp: handed_up_def)
  next
    case (Some y)
    then obtain lo' lv' x' where h: "y = q2" "separator task' = Some x'" "separator_key task' = lo' x'"
        "blink_inv c lo' lv' {x'} (tree_of s') r" "path_covers lo' lv' (heap (tree_of s')) r (lo' x') (lv' x') (q2 # qs)"
        "heap (tree_of s') = heap t1" "height (tree_of s') = height t1"
      using e(5) by (auto simp: handed_up_def)
    have "step_keeps q (tree_of s) t1" using e(7) Some by simp
    then have k': "\<forall>b \<in> set (q2 # qs). \<exists>n. heap (tree_of s') b = Some n \<and> task_key task' < high_key n"
      using Cons.prems(6,9) e(4) h(6) unfolding step_keeps_def by (metis distinct.simps(2) list.set_intros(2))
    obtain s'' where "run f s' task' (Some q2) = Inr s''" "quiet s''" "tree_inv c (tree_of s'')"
        "tree_map (tree_of s'') = tree_map (tree_of s')" "height (tree_of s'') \<le> Suc (height (tree_of s'))"
      using Cons.IH [OF e(2) h(4,2,3,5) k', of f] Cons.prems(7-9) h(7) e(6) f by auto
    then show ?thesis using e(1,3,6) h(1,7) Some unfolding f run_law by auto
  qed
qed

lemma insert_run:
  assumes "quiet s" and c: "config_ok c" and "tree_inv c (tree_of s)" and h: "height (tree_of s) < 65535" and k: "k \<noteq> max_key"
  shows "\<exists>s'. run (2 * height (tree_of s)) s (InsertTask_ctor k v) (root_node (tree_of s)) = Inr s' \<and> quiet s' \<and> tree_inv c (tree_of s')
    \<and> height (tree_of s') \<le> Suc (height (tree_of s)) \<and> tree_map (tree_of s') = insert_new (tree_map (tree_of s)) k v"
proof -
  let ?t = "tree_of s" and ?task = "InsertTask_ctor k v"
  obtain lo lv r where i: "blink_inv c lo lv {} ?t r" using assms(3) by (auto simp: tree_inv_def)
  note D = invD [OF i]
  have task: "task_key ?task = k" "task_value ?task = v" "separator ?task = None" "is_for_leaf ?task"
    by (simp_all add: InsertTask_ctor_def is_for_leaf_def)
  obtain nr where nr: "heap ?t r = Some nr" using D(2) by blast
  have "k < high_key nr" using root_high [OF i nr] k le_max_key [of k] by (metis order.not_eq_order_implies_strict)
  then obtain a n s0 where s0: "quiet s0" "tree_of s0 = ?t" and a: "heap ?t a = Some n" "is_leaf n" "lo a \<le> k" "k < high_key n"
    and down: "run (lv r + (lv r + 2)) s ?task (Some r) = run (lv r + 2) s0 ?task (Some a)"
    using run_down [OF assms(1) task(4) i nr, of "lv r + 2"] D(3) task(1) by auto
  obtain qs where qs: "path_covers lo lv (heap ?t) r k 0 qs" "length qs = lv r" using path_above [OF i k, of 0] by auto
  note dq = path_distinct [OF qs(1)]
  obtain nxt task' s1 t1 where e: "exec s0 ?task (Some a) = Inr (nxt, task', s1)" "quiet s1"
      "tree_map (tree_of s1) = insert_new (tree_map ?t) k v" "task_key task' = k" "handed_up c r qs t1 nxt task' (tree_of s1)"
      "height t1 = height ?t" "nxt \<noteq> None \<longrightarrow> step_keeps a ?t t1"
    using leaf_law [OF s0(1) c, of lo lv r a n ?task qs] s0(2) i a qs(1) task h by auto
  have run: "run (2 * height ?t) s ?task (root_node ?t) = (if nxt \<noteq> None then run (lv r + 1) s1 task' nxt else Inr s1)"
    using down e(1) D(1,4) run_law [of "lv r + 1" s0 ?task "Some a"] by (simp add: mult_2)
  show ?thesis
  proof (cases nxt)
    case None
    then show ?thesis using e run by (auto simp: handed_up_def)
  next
    case (Some q)
    then obtain lo' lv' x' qs' where h': "qs = q # qs'" "separator task' = Some x'" "separator_key task' = lo' x'"
        "blink_inv c lo' lv' {x'} (tree_of s1) r" "path_covers lo' lv' (heap (tree_of s1)) r (lo' x') (lv' x') (q # qs')"
        "heap (tree_of s1) = heap t1" "height (tree_of s1) = height t1"
      using e(5) by (auto simp: handed_up_def)
    have "a \<notin> set qs" using dq contentD(1) [OF D(10) a(1)] a(2) by auto
    then have k': "\<forall>b \<in> set (q # qs'). \<exists>n. heap (tree_of s1) b = Some n \<and> task_key task' < high_key n"
      using path_covers_high [OF qs(1)] e(4,7) Some h'(1,6) unfolding step_keeps_def by (metis option.discI)
    obtain s2 where "run (lv r + 1) s1 task' (Some q) = Inr s2" "quiet s2" "tree_inv c (tree_of s2)"
        "tree_map (tree_of s2) = tree_map (tree_of s1)" "height (tree_of s2) \<le> Suc (height (tree_of s1))"
      using climb [OF c e(2) h'(4,2,3,5) k', of "lv r + 1"] h e(6) h'(1,7) qs(2) dq by auto
    then show ?thesis using run Some e(3,6) h'(7) by auto
  qed
qed

end

interpretation mutex_build: insert_task_build c "InsertTask_execute c M sync" "\<lambda>fuel. InsertTask_run fuel c M sync" tbase
    "\<lambda>tt. mutex_ok M (latch_init c) \<and> all_init c tt" for c M sync
proof (unfold_locales, goal_cases)
  case 1
  show ?case by simp
next
  case (2 s lo lv r a n task)
  then show ?case using InsertTask_down [of M c lo lv s r a n task sync] by metis
next
  case (3 s lo lv r a n task qs)
  then show ?case using InsertTask_leaf [of M c s lo lv r a n task qs sync] by metis
next
  case (4 s lo lv x r task q qs n)
  then show ?case using InsertTask_inner [of M c s lo lv x r task q qs n sync] by metis
qed

lemma TBB_insert_spec:
  assumes M: "mutex_ok M (latch_init c)" and ok: "TBBTree_ok c tt" and h: "height (tbase tt) < 65535" and k: "k \<noteq> max_key"
  shows "\<exists>tt'. TBB_insert c M sync tt k v = Inr tt' \<and> TBBTree_ok c tt' \<and> height (tbase tt') \<le> Suc (height (tbase tt))
    \<and> tree_map (tbase tt') = insert_new (tree_map (tbase tt)) k v"
  using mutex_build.insert_run [of M c tt k sync v] M ok h k unfolding TBB_insert_def TBBTree_ok_def by auto

section \<open>Looking up and updating\<close>

lemma LookupTask_locks:
  assumes M: "mutex_ok M (latch_init c)" and l: "all_init c tt" and a: "heap (tbase tt) a = Some n"
  shows "LookupTask_execute M sync tt key value (Some a) =
    bindR (LookupTask_visit tt key value (Some a)) (\<lambda>(nxt, v). Inr (nxt, v, tt))"
proof -
  obtain x x' where x: "scoped_lock M sync tt (Some a) = Inr (tt\<lparr>tbase := locked (tbase tt) a x\<rparr>)" "tm_unlock M x = Inr (latch_init c)"
    using lock_idle [OF M l a] by metis
  have "LookupTask_visit (tt\<lparr>tbase := locked (tbase tt) a x\<rparr>) key value (Some a) = LookupTask_visit tt key value (Some a)"
    by (simp add: LookupTask_visit_def)
  then show ?thesis using x(1) scope_end_unchanged [OF l a x(2)] by (simp add: LookupTask_execute_def)
qed

lemma LookupTask_reads_leaf:
  assumes M: "mutex_ok M (latch_init c)" and i: "blink_inv c lo lv {} (tbase tt) r" and l: "all_init c tt"
    and a: "heap (tbase tt) a = Some n" "lo a \<le> k" "k < high_key n"
  shows "\<exists>b m. heap (tbase tt) b = Some m \<and> is_leaf m \<and> lo b \<le> k \<and> k < high_key m
    \<and> LookupTask_run (Suc (lv a)) M sync tt k 0 (Some a) = bindR (leaf_lookup m k) (\<lambda>v. Inr (v, tt))"
  using a
proof (induction "lv a" arbitrary: a n)
  case 0
  then have leaf: "is_leaf n" using contentD(1) [OF invD(10) [OF i]] by simp
  have "LookupTask_visit tt k 0 (Some a) = bindR (leaf_lookup n k) (\<lambda>v. Inr (None, v))"
    using 0 leaf not_le [THEN iffD2, OF "0.prems"(3)]
    by (simp add: LookupTask_visit_def leaf_lookup_def bindR_assoc if_distribR cong: if_cong) (simp add: bindR_def split: sum.splits)
  then have "LookupTask_run (Suc (lv a)) M sync tt k 0 (Some a) = bindR (leaf_lookup n k) (\<lambda>v. Inr (v, tt))"
    using LookupTask_locks [OF M l "0.prems"(1)] by (simp add: bindR_assoc)
  then show ?case using 0 leaf by blast
next
  case (Suc d)
  then have nl: "\<not> is_leaf n" using contentD(1) [OF invD(10) [OF i]] by (metis nat.discI)
  obtain b m where b: "Node_child n k = Inr (Some b)" "heap (tbase tt) b = Some m" "lo b \<le> k" "k < high_key m" "Suc (lv b) = lv a"
    using child_covers [OF i Suc.prems(1) nl Suc.prems(2,3)] .
  have "LookupTask_visit tt k 0 (Some a) = Inr (Some b, 0)"
    using Suc.prems nl b(1) not_le [THEN iffD2, OF Suc.prems(3)] by (simp add: LookupTask_visit_def)
  then have "LookupTask_run (Suc (lv a)) M sync tt k 0 (Some a) = LookupTask_run (Suc (lv b)) M sync tt k 0 (Some b)"
    using LookupTask_locks [OF M l Suc.prems(1)] unfolding b(5) by simp
  then show ?case using Suc.hyps(1) [of b m] Suc.hyps(2) b(2-5) by simp
qed

lemma TBB_lookup_reads_leaf:
  assumes M: "mutex_ok M (latch_init c)" and i: "blink_inv c lo lv {} (tbase tt) r" and l: "all_init c tt" and k: "k \<noteq> max_key"
  shows "\<exists>b m. heap (tbase tt) b = Some m \<and> is_leaf m \<and> lo b \<le> k \<and> k < high_key m
    \<and> TBB_lookup M sync tt k = bindR (leaf_lookup m k) (\<lambda>v. Inr (v, tt))"
proof -
  note D = invD [OF i]
  obtain nr where nr: "heap (tbase tt) r = Some nr" using D(2) by blast
  have "k < high_key nr" using root_high [OF i nr] k le_max_key [of k] by (metis order.not_eq_order_implies_strict)
  then show ?thesis using LookupTask_reads_leaf [OF M i l nr, of k sync] D(1,3,4) by (simp add: TBB_lookup_def)
qed

lemma UpdateTask_down:
  assumes M: "mutex_ok M (latch_init c)" and i: "blink_inv c lo lv {} (tbase tt) r" and l: "all_init c tt"
    and a: "heap (tbase tt) a = Some n" "lo a \<le> k" "k < high_key n"
  shows "\<exists>b m. heap (tbase tt) b = Some m \<and> is_leaf m \<and> lo b \<le> k \<and> k < high_key m
    \<and> UpdateTask_run (Suc (lv a)) M sync tt k v (Some a) = UpdateTask_run 1 M sync tt k v (Some b)"
  using a
proof (induction "lv a" arbitrary: a n)
  case 0
  then have "is_leaf n" using contentD(1) [OF invD(10) [OF i]] by simp
  then show ?case using 0 by (intro exI [of _ a] exI [of _ n]) (simp add: eval_nat_numeral)
next
  case (Suc d)
  then have nl: "\<not> is_leaf n" using contentD(1) [OF invD(10) [OF i]] by (metis nat.discI)
  obtain b m where b: "Node_child n k = Inr (Some b)" "heap (tbase tt) b = Some m" "lo b \<le> k" "k < high_key m" "Suc (lv b) = lv a"
    using child_covers [OF i Suc.prems(1) nl Suc.prems(2,3)] .
  obtain x where x: "scoped_lock M sync tt (Some a) = Inr (tt\<lparr>tbase := locked (tbase tt) a x\<rparr>)" "tm_unlock M x = Inr (latch_init c)"
    using lock_idle [OF M l Suc.prems(1)] by metis
  have "UpdateTask_execute M sync tt k v (Some a) = Inr (Some b, tt)"
    using x(1) Suc.prems(1) nl b(1) scope_end_unchanged [OF l Suc.prems(1) x(2)] not_le [THEN iffD2, OF Suc.prems(3)]
    by (simp add: UpdateTask_execute_def)
  then have "UpdateTask_run (Suc (lv a)) M sync tt k v (Some a) = UpdateTask_run (Suc (lv b)) M sync tt k v (Some b)"
    unfolding b(5) by simp
  then show ?case using Suc.hyps(1) [of b m] Suc.hyps(2) b(2-5) by simp
qed

lemma TBB_update_spec:
  assumes M: "mutex_ok M (latch_init c)" and ok: "TBBTree_ok c tt" and k: "k \<in> dom (tree_map (tbase tt))"
  shows "\<exists>tt'. TBB_update M sync tt k v = Inr tt' \<and> TBBTree_ok c tt' \<and> height (tbase tt') = height (tbase tt)
    \<and> tree_map (tbase tt') = (tree_map (tbase tt))(k \<mapsto> v)"
proof -
  let ?t = "tbase tt"
  obtain lo lv r where i: "blink_inv c lo lv {} ?t r" using ok by (auto simp: TBBTree_ok_def tree_inv_def)
  have c: "config_ok c" and l: "all_init c tt" using ok by (simp_all add: TBBTree_ok_def)
  note D = invD [OF i]
  have km: "k \<noteq> max_key" using no_max_key [OF i] k by blast
  obtain nr where nr: "heap ?t r = Some nr" using D(2) by blast
  have "k < high_key nr" using root_high [OF i nr] km le_max_key [of k] by (metis order.not_eq_order_implies_strict)
  then obtain b n where b: "heap ?t b = Some n" "is_leaf n" "lo b \<le> k" "k < high_key n"
    and run: "TBB_update M sync tt k v = UpdateTask_run 1 M sync tt k v (Some b)"
    using UpdateTask_down [OF M i l nr, of k sync v] D(1,3,4) by (auto simp: TBB_update_def)
  have lok: "leaf_ok c (lo b) n" using contentD(3) [OF D(10) b(1,2)] .
  have live: "k \<in> set (live_keys n)" using k tree_map_leaf [OF i b] leaf_map_None_iff [OF lok] by (simp add: domIff)
  let ?n = "n\<lparr>vals := (vals n)[std_lower_bound (live_keys n) k := v]\<rparr>"
  note U = leaf_update_ok(1,2) [OF lok live] leaf_update_ok(4,5) [OF lok live, where v = v]
  have sz: "nsize n \<le> length (keys n)" "nsize n \<le> length (vals n)" using lok by (simp_all add: leaf_ok_def)
  obtain x x' where x: "scoped_lock M sync tt (Some b) = Inr (tt\<lparr>tbase := locked ?t b x\<rparr>)"
      "upgrade_to_writer M sync (tt\<lparr>tbase := locked ?t b x\<rparr>) (Some b) = Inr (tt\<lparr>tbase := locked ?t b x'\<rparr>)"
      "tm_unlock M x' = Inr (latch_init c)"
    using lock_idle [OF M l b(1)] by metis
  let ?t1 = "store (locked ?t b x') (Some b) ?n"
  have rel: "scope_end M (tt\<lparr>tbase := ?t1\<rparr>) (Some b) = Inr (tt\<lparr>tbase := locked ?t1 b (latch_init c)\<rparr>)"
    using scope_end_idle [of "tt\<lparr>tbase := ?t1\<rparr>" b ?n M c] x(3) by simp
  have i': "blink_inv c lo lv {} (store ?t (Some b) ?n) r"
    using i b(1,2) _ U(3) by (rule inv_leaf_content) (simp_all add: same_header_def)
  have "TBB_update M sync tt k v = Inr (tt\<lparr>tbase := locked ?t1 b (latch_init c)\<rparr>)"
    using run x(1,2) b(1,2) rel U(1,2) sz not_le [THEN iffD2, OF b(4)]
    by (simp add: UpdateTask_execute_def Node_index_eq node_key_def node_set_value_def arr_simps)
  moreover have "tree_map ?t1 = tree_map (store ?t (Some b) ?n)" by (simp add: tree_map_def)
  then have "tree_map ?t1 = (tree_map ?t)(k \<mapsto> v)"
    using tree_map_store_leaf [OF i i' b(1,2) _ b(3,4) U(4)] b(2) by simp
  moreover have "blink_inv c lo lv {} ?t1 r" using i' by (simp add: blink_inv_def)
  then have "tree_inv c ?t1" by (auto simp: tree_inv_def)
  moreover have "all_init c (tt\<lparr>tbase := locked ?t1 b (latch_init c)\<rparr>)" using l by (simp add: all_init_def)
  ultimately show ?thesis using c by (auto simp: TBBTree_ok_def)
qed

text \<open>The task-based tree is an index like the thread trees, without their limit on the height.\<close>

interpretation tbb: map_index "TBB_insert c M sync" "TBB_update M sync" "TBB_lookup M sync"
    "\<lambda>tt. mutex_ok M (latch_init c) \<and> TBBTree_ok c tt" "\<lambda>tt. height (tbase tt)" 65534 "\<lambda>tt. tree_map (tbase tt)" for c M sync
proof
  fix s k v
  assume ok: "mutex_ok M (latch_init c) \<and> TBBTree_ok c s"
  then obtain lo lv r where i: "blink_inv c lo lv {} (tbase s) r" "all_init c s" by (auto simp: TBBTree_ok_def tree_inv_def)
  show "\<exists>s'. TBB_insert c M sync s k v = Inr s' \<and> (mutex_ok M (latch_init c) \<and> TBBTree_ok c s')
      \<and> tree_map (tbase s') = insert_new (tree_map (tbase s)) k v \<and> height (tbase s') \<le> Suc (height (tbase s))"
    if "height (tbase s) \<le> 65534" "k \<noteq> max_key"
    using TBB_insert_spec [of M c s k sync v] ok that by auto
  show "\<exists>s'. TBB_update M sync s k v = Inr s' \<and> (mutex_ok M (latch_init c) \<and> TBBTree_ok c s')
      \<and> tree_map (tbase s') = (tree_map (tbase s))(k \<mapsto> v) \<and> height (tbase s') = height (tbase s)"
    if "k \<in> dom (tree_map (tbase s))"
    using TBB_update_spec [of M c s k sync v] ok that by auto
  show "\<exists>s'. TBB_lookup M sync s k = Inr (v, s') \<and> (mutex_ok M (latch_init c) \<and> TBBTree_ok c s')
      \<and> tree_map (tbase s') = tree_map (tbase s)"
    if "tree_map (tbase s) k = Some v"
  proof -
    have "k \<noteq> max_key" using no_max_key [OF i(1)] that by blast
    then obtain b n where b: "heap (tbase s) b = Some n" "is_leaf n" "lo b \<le> k" "k < high_key n"
      "TBB_lookup M sync s k = bindR (leaf_lookup n k) (\<lambda>v. Inr (v, s))" using TBB_lookup_reads_leaf [OF _ i] ok by blast
    have "leaf_map n k = Some v" using tree_map_leaf [OF i(1) b(1-4)] that by simp
    then show ?thesis
      using leaf_lookup_present [OF contentD(3) [OF invD(10) [OF i(1)] b(1,2)]] b(5) ok by simp
  qed
qed

section \<open>Properties of the task-based tree\<close>

text \<open>A mutex that is idle, shared or exclusive, for the examples.\<close>

datatype example_latch = Idle | Shared | Exclusive

definition example_mutex :: "example_latch tbb_mutex" where
  "example_mutex = \<lparr>tm_lock = (\<lambda>l. if l = Idle then Inr Exclusive else Inl SpinsForever),
     tm_lock_shared = (\<lambda>l. if l = Idle then Inr Shared else Inl SpinsForever),
     tm_upgrade = (\<lambda>l. if l = Shared then Inr Exclusive else Inl SpinsForever),
     tm_unlock = (\<lambda>l. Inr Idle)\<rparr>"

definition task_config :: "example_latch config" where
  "task_config = \<lparr>header_size = 960, garbage_size = 0, latch_init = Idle, alloc_junk = (\<lambda>a i. 7)\<rparr>"

lemma example_mutex_ok: "mutex_ok example_mutex (latch_init task_config)"
  by (simp add: mutex_ok_def example_mutex_def task_config_def)

lemma TBBTree_ctor_ok:
  "config_ok c \<Longrightarrow> TBBTree_ok c (TBBTree_ctor c)" "tree_map (tbase (TBBTree_ctor c)) = Map.empty" "height (tbase (TBBTree_ctor c)) = 1"
  using inv_ctor [of c] by (auto simp: TBBTree_ok_def TBBTree_ctor_def tree_inv_def all_init_def Tree_ctor_heap tree_map_ctor)

lemma task_config_ok: "config_ok task_config"
  by (simp add: config_ok_def task_config_def InnerNode_max_keys_def LeafNode_max_items_def Config_node_size_def)

text \<open>
  C6. An \<^verbatim>\<open>InsertTask\<close> run alone on a well-formed tree with idle mutexes comes to an end after at most two
  executions per level, in every build: it adds a new key with its value and keeps a present one, restores
  the invariant (although it climbs by parent pointers instead of a remembered path), releases every
  mutex, and the tree grows by at most one level.
\<close>

theorem tbb_insert_refines_map:
  assumes "mutex_ok M (latch_init c)" "TBBTree_ok c tt" "height (tbase tt) < 65535" "k \<noteq> max_key"
  shows "\<exists>tt'. TBB_insert c M sync tt k v = Inr tt' \<and> TBBTree_ok c tt' \<and> height (tbase tt') \<le> Suc (height (tbase tt))
    \<and> tree_map (tbase tt') = (if k \<in> dom (tree_map (tbase tt)) then tree_map (tbase tt) else (tree_map (tbase tt))(k \<mapsto> v))"
  using TBB_insert_spec [OF assms] by (simp add: insert_new_def)

theorem tbb_insert_refines_map_witness:
  "\<exists>tt'. TBB_insert task_config example_mutex tbb_rw_lock (TBBTree_ctor task_config) 5 8 = Inr tt'
     \<and> TBBTree_ok task_config tt' \<and> tree_map (tbase tt') 5 = Some 8"
  using tbb_insert_refines_map [OF example_mutex_ok TBBTree_ctor_ok(1) [OF task_config_ok], of 5 tbb_rw_lock 8] TBBTree_ctor_ok(2,3) [of task_config]
  by (auto simp: max_key_def)

text \<open>
  After any sequence of insertions by tasks, a \<^verbatim>\<open>LookupTask\<close> for an inserted key returns the value inserted
  first for it. (The tree starts with one level and may grow by one per insertion.)
\<close>

theorem tbb_load_then_lookup:
  assumes "mutex_ok M (latch_init c)" "config_ok c" "length kvs \<le> 65534" "max_key \<notin> fst ` set kvs" "map_of kvs k = Some v"
  shows "\<exists>tt tt'. tbb.ins_all c M sync (TBBTree_ctor c) kvs = Inr tt \<and> TBB_lookup M sync tt k = Inr (v, tt')"
  using tbb.loaded_is_found [of M c "TBBTree_ctor c" kvs k v sync] assms TBBTree_ctor_ok [of c] by (simp add: load_eq)

theorem tbb_load_then_lookup_witness:
  "\<exists>tt tt'. tbb.ins_all task_config example_mutex tbb_lock (TBBTree_ctor task_config) [(5, 8), (9, 1), (5, 2)] = Inr tt
     \<and> TBB_lookup example_mutex tbb_lock tt 5 = Inr (8, tt')"
  using tbb_load_then_lookup [OF example_mutex_ok task_config_ok, of "[(5, 8), (9, 1), (5, 2)]" 5 8 tbb_lock] by (simp add: max_key_def)

text \<open>
  The largest key is never stored and the loss is silent: an \<^verbatim>\<open>InsertTask\<close> for it moves right from the root,
  finds no right sibling, and ends without an error and without a change.
\<close>

theorem tbb_max_key_is_dropped:
  assumes "mutex_ok M (latch_init c)" "TBBTree_ok c tt"
  shows "TBB_insert c M sync tt max_key v = Inr tt \<and> max_key \<notin> dom (tree_map (tbase tt))"
proof -
  obtain lo lv r where i: "blink_inv c lo lv {} (tbase tt) r" using assms(2) by (auto simp: TBBTree_ok_def tree_inv_def)
  have l: "all_init c tt" using assms(2) by (simp add: TBBTree_ok_def)
  note D = invD [OF i]
  obtain n where n: "heap (tbase tt) r = Some n" using D(2) by blast
  have hi: "high_key n = max_key" using root_high [OF i n] .
  have "right_sibling n = None"
  proof (rule ccontr)
    assume "right_sibling n \<noteq> None"
    then obtain b m where "heap (tbase tt) b = Some m" "lo b = max_key" using chainD(3) [OF D(8) n] hi by auto
    then show False using chainD(1) [OF D(8)] by (metis le_max_key leD)
  qed
  moreover obtain x where x: "scoped_lock M sync tt (Some r) = Inr (tt\<lparr>tbase := locked (tbase tt) r x\<rparr>)" "tm_unlock M x = Inr (latch_init c)"
    using lock_idle [OF assms(1) l n] by metis
  ultimately have "InsertTask_execute c M sync tt (InsertTask_ctor max_key v) (Some r) = Inr (None, InsertTask_ctor max_key v, tt)"
    using n hi scope_end_unchanged [OF l n x(2)] by (simp add: InsertTask_execute_def InsertTask_ctor_def)
  then have "TBB_insert c M sync tt max_key v = Inr tt" using D(1,4) by (simp add: TBB_insert_def)
  then show ?thesis using no_max_key [OF i] by blast
qed

theorem tbb_max_key_is_dropped_witness:
  "TBB_insert task_config example_mutex tbb_lock (TBBTree_ctor task_config) max_key 8 = Inr (TBBTree_ctor task_config)"
  using tbb_max_key_is_dropped [OF example_mutex_ok TBBTree_ctor_ok(1) [OF task_config_ok]] by blast

end
