(* ===== verification/TBB_Benchmark.thy ===== *)
theory TBB_Benchmark
  imports Work_Sharing TBB_Tasks
begin

text \<open>
  The task benchmark: \<^verbatim>\<open>BatchTask\<close> from \<^verbatim>\<open>src/src/indices/blinktree/tbb/tbb_benchmark.h\<close> and
  \<^verbatim>\<open>tbb_benchmark.cpp\<close>. Every batch task claims a range of the workload with one atomic \<^verbatim>\<open>fetch_add\<close>, spawns a
  child task per item, waits for all children and claims again, until the workload is exhausted. The
  scheduler of the library may run the children in any order; a child that has run is recorded by its
  index into the workload. Unlike the thread benchmark, the bound is the size of the vector.
\<close>

section \<open>Batch tasks\<close>

text \<open>The task is about to execute, waits for the children it has spawned, or has returned \<^verbatim>\<open>nullptr\<close>.\<close>

datatype batch_task = Executing | WaitingFor "nat list" | Returned

record batch_run =
  workload_index :: "64 word"
  batch_tasks :: "batch_task list"
  finished :: "nat list"

definition batch_run_start :: "nat \<Rightarrow> batch_run" where
  "batch_run_start count_threads = \<lparr>workload_index = 0, batch_tasks = replicate count_threads Executing, finished = []\<rparr>"

definition BatchTask_execute :: "nat \<Rightarrow> 16 word \<Rightarrow> nat \<Rightarrow> batch_run \<Rightarrow> batch_run" where
  "BatchTask_execute count_items batch t s =
     (let current_index = workload_index s;
          s1 = s\<lparr>workload_index := workload_index s + ucast batch\<rparr>
      in if unat current_index \<ge> count_items then s1\<lparr>batch_tasks := (batch_tasks s1)[t := Returned]\<rparr>
         else let batch_size = min (unat batch) (count_items - unat current_index)
              in s1\<lparr>batch_tasks := (batch_tasks s1)[t := WaitingFor [unat current_index..<unat current_index + batch_size]]\<rparr>)"

definition child_runs :: "nat \<Rightarrow> nat \<Rightarrow> nat list \<Rightarrow> batch_run \<Rightarrow> batch_run" where
  "child_runs t item children s = s\<lparr>finished := finished s @ [item], batch_tasks := (batch_tasks s)[t := WaitingFor (remove1 item children)]\<rparr>"

inductive batch_step :: "nat \<Rightarrow> 16 word \<Rightarrow> batch_run \<Rightarrow> batch_run \<Rightarrow> bool" for count_items batch where
  execute: "t < length (batch_tasks s) \<Longrightarrow> batch_tasks s ! t = Executing \<Longrightarrow> batch_step count_items batch s (BatchTask_execute count_items batch t s)"
| child: "t < length (batch_tasks s) \<Longrightarrow> batch_tasks s ! t = WaitingFor children \<Longrightarrow> item \<in> set children
    \<Longrightarrow> batch_step count_items batch s (child_runs t item children s)"
| recycle: "t < length (batch_tasks s) \<Longrightarrow> batch_tasks s ! t = WaitingFor []
    \<Longrightarrow> batch_step count_items batch s (s\<lparr>batch_tasks := (batch_tasks s)[t := Executing]\<rparr>)"

inductive_cases batch_stepE: "batch_step count_items batch s s'"

inductive batch_reach :: "nat \<Rightarrow> 16 word \<Rightarrow> nat \<Rightarrow> batch_run \<Rightarrow> bool" for count_items batch threads where
  start: "batch_reach count_items batch threads (batch_run_start threads)"
| step: "batch_reach count_items batch threads s \<Longrightarrow> batch_step count_items batch s s' \<Longrightarrow> batch_reach count_items batch threads s'"

text \<open>Which task an item of the workload becomes.\<close>

definition BatchTask_spawn :: "'l config \<Rightarrow> 'l tbb_mutex \<Rightarrow> tbb_sync \<Rightarrow> workload_tuple \<Rightarrow> 'l tbb_tree
    \<Rightarrow> (value_type option \<times> 'l tbb_tree) result" where
  "BatchTask_spawn c M sync tuple tree =
     (if WorkloadTuple_is tuple Insert
      then bindR (TBB_insert c M sync tree (tuple_key tuple) (tuple_value tuple)) (\<lambda>tree'. Inr (None, tree'))
      else if WorkloadTuple_is tuple Update
      then bindR (TBB_update M sync tree (tuple_key tuple) (tuple_value tuple)) (\<lambda>tree'. Inr (None, tree'))
      else bindR (TBB_lookup M sync tree (tuple_key tuple)) (\<lambda>(value, tree'). Inr (Some value, tree')))"

section \<open>Every item once\<close>

fun outstanding :: "batch_task \<Rightarrow> nat multiset" where
  "outstanding (WaitingFor children) = mset children"
| "outstanding _ = {#}"

definition returned :: "batch_task list \<Rightarrow> nat" where
  "returned ts = sum_list (map (\<lambda>x. if x = Returned then 1 else 0) ts)"

definition batch_inv :: "nat \<Rightarrow> 16 word \<Rightarrow> nat \<Rightarrow> batch_run \<Rightarrow> bool" where
  "batch_inv count_items batch threads s \<longleftrightarrow>
     length (batch_tasks s) = threads
     \<and> mset (finished s) + sum_list (map outstanding (batch_tasks s)) = mset [0..<min (unat (workload_index s)) count_items]
     \<and> unat (workload_index s) < count_items + unat batch * (returned (batch_tasks s) + 1)
     \<and> (returned (batch_tasks s) > 0 \<longrightarrow> count_items \<le> unat (workload_index s))"

lemmas outstanding_update = sum_list_map_update [where f = outstanding]

lemma returned_update:
  "t < length ts \<Longrightarrow> ts ! t \<noteq> Returned \<Longrightarrow> returned (ts[t := x]) = returned ts + (if x = Returned then 1 else 0)"
  using sum_list_map_update [of t ts "\<lambda>x. if x = Returned then 1 else 0 :: nat" x] by (simp add: returned_def)

lemma returned_le: "returned ts \<le> length ts"
  by (induction ts) (simp_all add: returned_def)

lemma batch_inv_start: "0 < batch \<Longrightarrow> batch_inv count_items batch threads (batch_run_start threads)"
proof -
  assume "0 < batch"
  moreover have "sum_list (map outstanding (replicate threads Executing)) = {#}" "returned (replicate threads Executing) = 0"
    by (induction threads) (simp_all add: returned_def)
  ultimately show ?thesis by (simp add: batch_inv_def batch_run_start_def word_less_nat_alt)
qed

lemma batch_inv_execute:
  assumes inv: "batch_inv count_items batch threads s" and room: "count_items + unat batch * (threads + 1) \<le> 2 ^ 64"
    and t: "t < length (batch_tasks s)" "batch_tasks s ! t = Executing"
  shows "batch_inv count_items batch threads (BatchTask_execute count_items batch t s)"
proof -
  define p where "p = unat (workload_index s)"
  define ts where "ts = batch_tasks s"
  have inv': "length ts = threads" "mset (finished s) + sum_list (map outstanding ts) = mset [0..<min p count_items]"
    "p < count_items + unat batch * (returned ts + 1)" "returned ts > 0 \<longrightarrow> count_items \<le> p"
    using inv by (simp_all add: batch_inv_def p_def ts_def)
  have t': "t < length ts" "ts ! t = Executing" using t by (simp_all add: ts_def)
  have "returned ts + 1 \<le> threads" using returned_update [of t ts Returned] returned_le [of "ts[t := Returned]"] t' inv'(1) by simp
  then have "unat batch * (returned ts + 1) \<le> unat batch * threads" by (rule mult_le_mono2)
  then have add: "unat (workload_index s + ucast batch) = p + unat batch"
    unfolding p_def by (intro pointer_add) (use inv'(3) room in \<open>simp add: p_def\<close>)
  show ?thesis
  proof (cases "p < count_items")
    case True
    define k where "k = min (unat batch) (count_items - p)"
    have k: "min (p + unat batch) count_items = p + k" using True by (simp add: k_def)
    have "sum_list (map outstanding (ts[t := WaitingFor [p..<p + k]])) = sum_list (map outstanding ts) + mset [p..<p + k]"
      using t' outstanding_update [of t ts "WaitingFor [p..<p + k]"] by simp
    then have "mset (finished s) + sum_list (map outstanding (ts[t := WaitingFor [p..<p + k]])) = mset [0..<p] + mset [p..<p + k]"
      using inv'(2) True by (simp add: min_absorb1 flip: add.assoc)
    then have "mset (finished s) + sum_list (map outstanding (ts[t := WaitingFor [p..<p + k]])) = mset [0..<p + k]"
      by (simp only: upt_mset_append le_add1)
    moreover have "returned ts = 0" "returned (ts[t := WaitingFor [p..<p + k]]) = returned ts"
      using inv'(4) True t' returned_update [of t ts "WaitingFor [p..<p + k]"] by auto
    ultimately show ?thesis
      using True inv'(1) add k
      by (simp add: batch_inv_def BatchTask_execute_def Let_def p_def [symmetric] ts_def [symmetric] k_def [symmetric])
  next
    case False
    have "sum_list (map outstanding (ts[t := Returned])) = sum_list (map outstanding ts)" "returned (ts[t := Returned]) = returned ts + 1"
      using t' outstanding_update [of t ts Returned] returned_update [of t ts Returned] by simp_all
    then show ?thesis
      using False inv' add
      by (simp add: batch_inv_def BatchTask_execute_def Let_def p_def [symmetric] ts_def [symmetric] min_absorb2 algebra_simps)
  qed
qed

lemma batch_inv_step:
  assumes inv: "batch_inv count_items batch threads s" and room: "count_items + unat batch * (threads + 1) \<le> 2 ^ 64"
    and step: "batch_step count_items batch s s'"
  shows "batch_inv count_items batch threads s'"
  using step
proof (cases rule: batch_step.cases)
  case (execute t)
  then show ?thesis using batch_inv_execute [OF inv room] by simp
next
  case (child t children item)
  let ?ts = "(batch_tasks s)[t := WaitingFor (remove1 item children)]"
  have "sum_list (map outstanding ?ts) + mset children = sum_list (map outstanding (batch_tasks s)) + (mset children - {#item#})"
    using outstanding_update [OF child(2), of "WaitingFor (remove1 item children)"] child(3) by simp
  then have "add_mset item (sum_list (map outstanding ?ts)) + (mset children - {#item#})
      = sum_list (map outstanding (batch_tasks s)) + (mset children - {#item#})"
    using child(4) by (metis insert_DiffM set_mset_mset union_mset_add_mset_left union_mset_add_mset_right)
  then have "add_mset item (sum_list (map outstanding ?ts)) = sum_list (map outstanding (batch_tasks s))" by simp
  then have "mset (finished s @ [item]) + sum_list (map outstanding ?ts) = mset (finished s) + sum_list (map outstanding (batch_tasks s))"
    by (metis mset.simps mset_append union_mset_add_mset_left union_mset_add_mset_right add.right_neutral)
  then have "mset (finished s @ [item]) + sum_list (map outstanding ?ts) = mset [0..<min (unat (workload_index s)) count_items]"
    using inv by (simp only: batch_inv_def)
  moreover have "returned ?ts = returned (batch_tasks s)" using returned_update [OF child(2)] child(3) by simp
  ultimately show ?thesis using inv child(1) by (simp add: batch_inv_def child_runs_def)
next
  case (recycle t)
  have "sum_list (map outstanding ((batch_tasks s)[t := Executing])) = sum_list (map outstanding (batch_tasks s))"
    "returned ((batch_tasks s)[t := Executing]) = returned (batch_tasks s)"
    using outstanding_update [OF recycle(2), of Executing] returned_update [OF recycle(2), of Executing] recycle(3) by simp_all
  then show ?thesis using inv recycle(1) by (simp add: batch_inv_def)
qed

lemma batch_reach_inv:
  assumes "batch_reach count_items batch threads s" "0 < batch" "count_items + unat batch * (threads + 1) \<le> 2 ^ 64"
  shows "batch_inv count_items batch threads s"
  using assms by (induction rule: batch_reach.induct) (simp_all add: batch_inv_start batch_inv_step)

text \<open>When all batch tasks have returned, every item has become a task that has run, once.\<close>

lemma finished_batches:
  assumes "batch_reach count_items batch threads s" "0 < batch" "0 < threads" "count_items + unat batch * (threads + 1) \<le> 2 ^ 64"
    and "\<forall>x \<in> set (batch_tasks s). x = Returned"
  shows "mset (finished s) = mset [0..<count_items]"
proof -
  have inv: "batch_inv count_items batch threads s" by (rule batch_reach_inv [OF assms(1,2,4)])
  have "\<forall>x \<in> set ts. x = Returned \<Longrightarrow> sum_list (map outstanding ts) = {#} \<and> returned ts = length ts" for ts
    by (induction ts) (simp_all add: returned_def)
  then have "sum_list (map outstanding (batch_tasks s)) = {#}" "returned (batch_tasks s) = length (batch_tasks s)" using assms(5) by blast+
  then show ?thesis using inv assms(3) by (auto simp: batch_inv_def min_absorb2)
qed

end
