(* ===== verification/Tree_Walk.thy ===== *)
theory Tree_Walk
  imports BLink_Search
begin

text \<open>
  Whole-tree walks: \<^verbatim>\<open>TreeIterator\<close> (\<^verbatim>\<open>src/src/indices/blinktree/tree.h\<close>) and the loop
  \<^verbatim>\<open>for (auto node : *this)\<close> over it, \<^verbatim>\<open>TreeStatistics\<close>, and the destructors of \<^verbatim>\<open>Node\<close> and
  \<^verbatim>\<open>Tree\<close>. The iterator goes along the right siblings of a level and then down the leftmost
  separator; on a well-formed tree it visits every node once, level by level.
\<close>

section \<open>The model\<close>

record tree_iterator =
  current_node :: ptr
  first_node_in_level :: ptr

definition TreeIterator_ctor :: "ptr \<Rightarrow> tree_iterator" where
  "TreeIterator_ctor n = \<lparr>current_node = n, first_node_in_level = n\<rparr>"

definition TreeIterator_next :: "'l tree \<Rightarrow> tree_iterator \<Rightarrow> tree_iterator result" where
  "TreeIterator_next t it =
     bindR (deref t (current_node it)) (\<lambda>n.
     if right_sibling n \<noteq> None then Inr (it\<lparr>current_node := right_sibling n\<rparr>)
     else if \<not> is_leaf n
     then bindR (deref t (first_node_in_level it)) (\<lambda>f.
          bindR (node_separator f 0) (\<lambda>s.
          Inr (it\<lparr>current_node := s, first_node_in_level := s\<rparr>)))
     else Inr (it\<lparr>current_node := None\<rparr>))"

definition TreeIterator_neq :: "tree_iterator \<Rightarrow> tree_iterator \<Rightarrow> bool" where
  "TreeIterator_neq it other \<longleftrightarrow> current_node it \<noteq> current_node other"

definition Tree_begin :: "'l tree \<Rightarrow> tree_iterator" where
  "Tree_begin t = TreeIterator_ctor (root_node t)"

definition Tree_end :: tree_iterator where
  "Tree_end = TreeIterator_ctor None"

text \<open>The range-based loop; the body gets the node and a state. One step per node and one to stop.\<close>

fun for_nodes ::
  "nat \<Rightarrow> 'l tree \<Rightarrow> tree_iterator \<Rightarrow> (addr \<Rightarrow> 'a \<Rightarrow> 'a result) \<Rightarrow> 'a \<Rightarrow> 'a result" where
  "for_nodes 0 t it body acc = Inl FuelExhausted"
| "for_nodes (Suc fuel) t it body acc =
     (if TreeIterator_neq it Tree_end
      then case current_node it of None \<Rightarrow> Inl NullDeref
        | Some a \<Rightarrow> bindR (body a acc) (\<lambda>acc'.
            bindR (TreeIterator_next t it) (\<lambda>it'. for_nodes fuel t it' body acc'))
      else Inr acc)"

definition Tree_for_each :: "'l tree \<Rightarrow> (addr \<Rightarrow> 'a \<Rightarrow> 'a result) \<Rightarrow> 'a \<Rightarrow> 'a result" where
  "Tree_for_each t body acc = for_nodes (Suc (next_addr t)) t (Tree_begin t) body acc"

text \<open>The counters are \<^verbatim>\<open>std::size_t\<close>.\<close>

record tree_statistics =
  count_inner_nodes :: "64 word"
  count_leaf_nodes :: "64 word"
  count_inner_node_keys :: "64 word"
  count_leaf_node_keys :: "64 word"
  tree_height :: "64 word"

definition TreeStatistics_ctor :: "'l tree \<Rightarrow> tree_statistics" where
  "TreeStatistics_ctor t = \<lparr>count_inner_nodes = 0, count_leaf_nodes = 0, count_inner_node_keys = 0,
     count_leaf_node_keys = 0, tree_height = of_nat (height t)\<rparr>"

definition collect_node_statistics :: "node \<Rightarrow> tree_statistics \<Rightarrow> tree_statistics" where
  "collect_node_statistics n st =
     st\<lparr>count_inner_nodes := count_inner_nodes st + of_bool (\<not> is_leaf n),
        count_leaf_nodes := count_leaf_nodes st + of_bool (is_leaf n),
        count_inner_node_keys := count_inner_node_keys st + of_bool (\<not> is_leaf n) * of_nat (nsize n),
        count_leaf_node_keys := count_leaf_node_keys st + of_bool (is_leaf n) * of_nat (nsize n)\<rparr>"

definition TreeStatistics_size_in_bytes :: "tree_statistics \<Rightarrow> 64 word" where
  "TreeStatistics_size_in_bytes st =
     (count_leaf_nodes st + count_inner_nodes st) * of_nat Config_node_size"

definition Tree_print_statistics :: "'l tree \<Rightarrow> tree_statistics result" where
  "Tree_print_statistics t =
     Tree_for_each t (\<lambda>a st. bindR (deref t (Some a)) (\<lambda>n. Inr (collect_node_statistics n st)))
       (TreeStatistics_ctor t)"

text \<open>
  \<^verbatim>\<open>delete\<close> of a node runs \<^verbatim>\<open>~Node\<close>, which deletes the children of an inner node, and then
  releases the memory. The recursion follows the levels of the tree.
\<close>

fun delete_node :: "nat \<Rightarrow> node_store \<Rightarrow> ptr \<Rightarrow> node_store result"
and delete_separators :: "nat \<Rightarrow> node_store \<Rightarrow> ptr list \<Rightarrow> node_store result" where
  "delete_node 0 h p = Inl FuelExhausted"
| "delete_node (Suc fuel) h p =
     (case p of None \<Rightarrow> Inl NullDeref
      | Some a \<Rightarrow> (case h a of None \<Rightarrow> Inl DanglingPointer
         | Some n \<Rightarrow> bindR (if \<not> is_leaf n
             then if nsize n < length (seps n) then delete_separators fuel h (live_seps n) else Inl OutOfBounds
             else Inr h) (\<lambda>h'. Inr (h'(a := None)))))"
| "delete_separators fuel h [] = Inr h"
| "delete_separators fuel h (s # ss) =
     bindR (if s \<noteq> None then delete_node fuel h s else Inr h) (\<lambda>h'. delete_separators fuel h' ss)"

definition Tree_dtor :: "'l tree \<Rightarrow> node_store result" where
  "Tree_dtor t = delete_node (height t) (heap t) (root_node t)"

section \<open>The nodes of one level\<close>

text \<open>\<open>right_chain t a xs\<close>: \<open>xs\<close> are the nodes reached from \<open>a\<close> along the right siblings.\<close>

inductive right_chain :: "'l tree \<Rightarrow> addr \<Rightarrow> addr list \<Rightarrow> bool" for t where
  last: "heap t a = Some n \<Longrightarrow> right_sibling n = None \<Longrightarrow> right_chain t a [a]"
| step: "heap t a = Some n \<Longrightarrow> right_sibling n = Some b \<Longrightarrow> right_chain t b xs \<Longrightarrow> right_chain t a (a # xs)"

lemma right_chain_exists:
  assumes i: "blink_inv c lo lv P t r" and a: "heap t a \<noteq> None"
  shows "\<exists>xs. right_chain t a xs \<and> distinct xs \<and> set xs = {b. heap t b \<noteq> None \<and> lv b = lv a \<and> lo a \<le> lo b}"
  using a
proof (induction "card (right_nodes lo t a)" arbitrary: a rule: less_induct)
  case less
  note D = invD [OF i]
  obtain n where n: "heap t a = Some n" using less.prems by blast
  note C = chainD [OF D(8) n]
  show ?case
  proof (cases "right_sibling n")
    case None
    have "b = a" if b: "heap t b = Some m" "lv b = lv a" "lo a \<le> lo b" for b m
    proof (rule covering_unique [OF D(9) b(1) n b(2), of "lo b"])
      show "lo b < high_key m" using chainD(1) [OF D(8) b(1)] .
      then show "lo b < high_key n" using C(2) [OF None] by (metis le_max_key order.strict_trans2)
    qed (use b in auto)
    then have "set [a] = {b. heap t b \<noteq> None \<and> lv b = lv a \<and> lo a \<le> lo b}" using n by auto
    moreover have "right_chain t a [a]" using n None by (rule right_chain.last)
    ultimately show ?thesis by (intro exI [of _ "[a]"]) simp
  next
    case (Some b)
    then obtain m where b: "heap t b = Some m" "lo b = high_key n" "lv b = lv a" using C(3) by blast
    obtain xs where xs: "right_chain t b xs" "distinct xs"
        "set xs = {x. heap t x \<noteq> None \<and> lv x = lv b \<and> lo b \<le> lo x}"
      using less.hyps [of b] right_nodes_less [OF i, of a b] n b C(1) by auto
    have "x = a \<or> lo b \<le> lo x" if x: "heap t x = Some y" "lv x = lv a" "lo a \<le> lo x" for x y
    proof (rule disjCI)
      assume "\<not> lo b \<le> lo x"
      then show "x = a"
        using covering_unique [OF D(9) x(1) n x(2), of "lo x"] chainD(1) [OF D(8) x(1)] x(3) b(2) by simp
    qed
    then have "set (a # xs) = {x. heap t x \<noteq> None \<and> lv x = lv a \<and> lo a \<le> lo x}"
      using xs(3) n b C(1) by (auto intro: less_imp_le order.trans)
    moreover have "a \<notin> set xs" using xs(3) b(2) C(1) by auto
    moreover have "right_chain t a (a # xs)" using n Some xs(1) by (rule right_chain.step)
    ultimately show ?thesis using xs(2) by (intro exI [of _ "a # xs"]) simp
  qed
qed

section \<open>The loop visits every node once\<close>

fun foldR :: "('x \<Rightarrow> 'a \<Rightarrow> 'a result) \<Rightarrow> 'x list \<Rightarrow> 'a \<Rightarrow> 'a result" where
  "foldR body [] acc = Inr acc"
| "foldR body (x # xs) acc = bindR (body x acc) (foldR body xs)"

lemma foldR_append: "foldR body (xs @ ys) acc = bindR (foldR body xs acc) (foldR body ys)"
  by (induction xs arbitrary: acc) (simp_all add: bindR_def split: sum.splits)

text \<open>Where the iterator stands after the last node of a level.\<close>

definition down :: "'l tree \<Rightarrow> addr \<Rightarrow> tree_iterator" where
  "down t f = (case heap t f of Some n \<Rightarrow> if is_leaf n then \<lparr>current_node = None, first_node_in_level = Some f\<rparr>
     else \<lparr>current_node = seps n ! 0, first_node_in_level = seps n ! 0\<rparr> | None \<Rightarrow> Tree_end)"

lemma for_nodes_chain:
  assumes i: "blink_inv c lo lv P t r" and f: "heap t f \<noteq> None" and xs: "right_chain t a xs" and lv: "lv a = lv f"
  shows "for_nodes (length xs + k) t \<lparr>current_node = Some a, first_node_in_level = Some f\<rparr> body acc
    = bindR (foldR body xs acc) (for_nodes k t (down t f) body)"
  using xs lv
proof (induction arbitrary: acc rule: right_chain.induct)
  case (last a n)
  note D = invD [OF i]
  obtain m where m: "heap t f = Some m" using f by blast
  have leaf: "is_leaf n = is_leaf m"
    using contentD(1) [OF D(10) last.hyps(1)] contentD(1) [OF D(10) m] last.prems by simp
  have "node_separator m 0 = Inr (seps m ! 0)" if "\<not> is_leaf m"
    using contentD(4) [OF D(10) m that] by (simp add: inner_ok_def inner_shape_def node_separator_def aget_def)
  then have "TreeIterator_next t \<lparr>current_node = Some a, first_node_in_level = Some f\<rparr> = Inr (down t f)"
    using last.hyps m leaf by (auto simp: TreeIterator_next_def down_def)
  then show ?case
    by (simp add: TreeIterator_neq_def Tree_end_def TreeIterator_ctor_def bindR_assoc)
next
  case (step a n b xs)
  have "lv b = lv f" using chainD(3) [OF invD(8) [OF i] step.hyps(1,2)] step.prems by simp
  moreover have "TreeIterator_next t \<lparr>current_node = Some a, first_node_in_level = Some f\<rparr>
      = Inr \<lparr>current_node = Some b, first_node_in_level = Some f\<rparr>"
    using step.hyps by (simp add: TreeIterator_next_def)
  ultimately show ?case
    using step.IH by (simp add: TreeIterator_neq_def Tree_end_def TreeIterator_ctor_def bindR_assoc)
qed

lemma first_child:
  assumes i: "blink_inv c lo lv P t r" and f: "heap t f = Some n" "\<not> is_leaf n"
  obtains g where "seps n ! 0 = Some g" "heap t g \<noteq> None" "lo g = lo f" "Suc (lv g) = lv f"
proof -
  have io: "inner_ok c lo lv (heap t) f n" using contentD(4) [OF invD(10) [OF i] f] .
  have "seps n ! 0 \<in> set (live_seps n)"
    using inner_okD(4) [OF io] by (metis nth_mem nth_take zero_less_Suc)
  then obtain g where g: "seps n ! 0 = Some g" "heap t g \<noteq> None" "Suc (lv g) = lv f"
    using io unfolding inner_ok_def by metis
  moreover have "lo g = lo f" using inner_okD(7) [OF io, of 0] g(1) by simp
  ultimately show thesis using that by blast
qed

lemma for_nodes_levels:
  assumes i: "blink_inv c lo lv P t r" and f: "heap t f \<noteq> None" "lo f = 0"
  shows "\<exists>ys. distinct ys \<and> set ys = {b. heap t b \<noteq> None \<and> lv b \<le> lv f}
    \<and> (\<forall>k acc. for_nodes (length ys + Suc k) t \<lparr>current_node = Some f, first_node_in_level = Some f\<rparr> body acc
             = foldR body ys acc)"
  using f
proof (induction "lv f" arbitrary: f rule: less_induct)
  case less
  obtain n where n: "heap t f = Some n" using less.prems(1) by blast
  obtain xs where xs: "right_chain t f xs" "distinct xs" "set xs = {b. heap t b \<noteq> None \<and> lv b = lv f}"
    using right_chain_exists [OF i less.prems(1)] less.prems(2) by auto
  note loop = for_nodes_chain [OF i less.prems(1) xs(1) refl, of _ body]
  show ?case
  proof (cases "is_leaf n")
    case True
    then have "down t f = \<lparr>current_node = None, first_node_in_level = Some f\<rparr>" using n by (simp add: down_def)
    then have "for_nodes (length xs + Suc k) t \<lparr>current_node = Some f, first_node_in_level = Some f\<rparr> body acc
        = foldR body xs acc" for k acc
      unfolding loop by (simp add: TreeIterator_neq_def Tree_end_def TreeIterator_ctor_def bindR_def split: sum.splits)
    moreover have "lv f = 0" using contentD(1) [OF invD(10) [OF i] n] True by simp
    ultimately show ?thesis using xs by auto
  next
    case False
    obtain g where g: "seps n ! 0 = Some g" "heap t g \<noteq> None" "lo g = lo f" "Suc (lv g) = lv f"
      using first_child [OF i n False] .
    have dn: "down t f = \<lparr>current_node = Some g, first_node_in_level = Some g\<rparr>" using n False g(1) by (simp add: down_def)
    obtain ys where ys: "distinct ys" "set ys = {b. heap t b \<noteq> None \<and> lv b \<le> lv g}"
        "\<And>k acc. for_nodes (length ys + Suc k) t \<lparr>current_node = Some g, first_node_in_level = Some g\<rparr> body acc
             = foldR body ys acc"
      using less.hyps [OF _ g(2)] g(3,4) less.prems(2) by auto
    have "distinct (xs @ ys)" "set (xs @ ys) = {b. heap t b \<noteq> None \<and> lv b \<le> lv f}"
      using xs(2,3) ys(1,2) g(4) by auto
    moreover have "for_nodes (length (xs @ ys) + Suc k) t \<lparr>current_node = Some f, first_node_in_level = Some f\<rparr> body acc
        = foldR body (xs @ ys) acc" for k acc
      using loop [of "length ys + Suc k" acc] ys(3) dn
      by (simp add: foldR_append add.assoc bindR_def split: sum.splits)
    ultimately show ?thesis by blast
  qed
qed

lemma for_each_visits:
  assumes i: "blink_inv c lo lv P t r"
  shows "\<exists>ys. distinct ys \<and> set ys = dom (heap t) \<and> (\<forall>acc. Tree_for_each t body acc = foldR body ys acc)"
proof -
  note D = invD [OF i]
  obtain ys where ys: "distinct ys" "set ys = {b. heap t b \<noteq> None \<and> lv b \<le> lv r}"
      "\<And>k acc. for_nodes (length ys + Suc k) t \<lparr>current_node = Some r, first_node_in_level = Some r\<rparr> body acc
             = foldR body ys acc"
    using for_nodes_levels [OF i D(2,3), of body] by blast
  have dom: "set ys = dom (heap t)" using ys(2) contentD(2) [OF D(10)] by auto
  have "set ys \<subseteq> {..<next_addr t}" using dom D(6) by auto
  then have "length ys \<le> next_addr t" using card_mono [of "{..<next_addr t}" "set ys"] distinct_card [OF ys(1)] by simp
  then have "Tree_for_each t body acc = foldR body ys acc" for acc
    using ys(3) [of "next_addr t - length ys" acc]
    by (simp add: Tree_for_each_def Tree_begin_def TreeIterator_ctor_def D(1))
  then show ?thesis using ys(1) dom by blast
qed

section \<open>Statistics\<close>

lemma foldR_total:
  assumes "\<And>x acc. x \<in> set xs \<Longrightarrow> body x acc = Inr (g x acc)"
  shows "foldR body xs acc = Inr (fold g xs acc)"
  using assms by (induction xs arbitrary: acc) simp_all

text \<open>The counters after a list of nodes.\<close>

lemma collect_fold:
  fixes N :: "addr \<Rightarrow> node"
  shows "count_leaf_nodes (fold (\<lambda>a. collect_node_statistics (N a)) ys st)
      = count_leaf_nodes st + of_nat (length (filter (\<lambda>a. is_leaf (N a)) ys))"
    "count_inner_nodes (fold (\<lambda>a. collect_node_statistics (N a)) ys st)
      = count_inner_nodes st + of_nat (length (filter (\<lambda>a. \<not> is_leaf (N a)) ys))"
    "count_leaf_node_keys (fold (\<lambda>a. collect_node_statistics (N a)) ys st)
      = count_leaf_node_keys st + of_nat (\<Sum>a \<leftarrow> filter (\<lambda>a. is_leaf (N a)) ys. nsize (N a))"
    "count_inner_node_keys (fold (\<lambda>a. collect_node_statistics (N a)) ys st)
      = count_inner_node_keys st + of_nat (\<Sum>a \<leftarrow> filter (\<lambda>a. \<not> is_leaf (N a)) ys. nsize (N a))"
    "tree_height (fold (\<lambda>a. collect_node_statistics (N a)) ys st) = tree_height st"
  by (induction ys arbitrary: st) (simp_all add: collect_node_statistics_def)

text \<open>The keys of a tree are the live keys of its leaves, each counted once.\<close>

lemma dom_tree_map:
  assumes i: "blink_inv c lo lv P t r"
  shows "dom (tree_map t) = (\<Union>a \<in> {a. \<exists>n. heap t a = Some n \<and> is_leaf n}. set (live_keys (the (heap t a))))"
proof -
  note D = invD [OF i]
  have live: "k \<in> set (live_keys n) \<longleftrightarrow> (\<exists>v. leaf_map n k = Some v)" if "heap t a = Some n" "is_leaf n" for a n k
    using leaf_map_None_iff [OF contentD(3) [OF D(10) that]] by (metis not_None_eq)
  have "k \<in> dom (tree_map t) \<longleftrightarrow> (\<exists>a n. heap t a = Some n \<and> is_leaf n \<and> k \<in> set (live_keys n))" for k
  proof -
    have "k \<in> dom (tree_map t) \<longleftrightarrow> (\<exists>v. (k, v) \<in> entries (heap t))"
      unfolding tree_map_entries [OF i, symmetric] by (simp add: domIff)
    also have "\<dots> \<longleftrightarrow> (\<exists>a n. heap t a = Some n \<and> is_leaf n \<and> (\<exists>v. leaf_map n k = Some v))"
      unfolding entries_def by blast
    also have "\<dots> \<longleftrightarrow> (\<exists>a n. heap t a = Some n \<and> is_leaf n \<and> k \<in> set (live_keys n))" using live by blast
    finally show ?thesis .
  qed
  then show ?thesis by (intro set_eqI) fastforce
qed

lemma card_dom_tree_map:
  assumes i: "blink_inv c lo lv P t r"
  shows "card (dom (tree_map t)) = (\<Sum>a \<in> {a. \<exists>n. heap t a = Some n \<and> is_leaf n}. nsize (the (heap t a)))"
proof -
  note D = invD [OF i]
  let ?A = "{a. \<exists>n. heap t a = Some n \<and> is_leaf n}" and ?K = "\<lambda>a. set (live_keys (the (heap t a)))"
  have "?A \<subseteq> {..<next_addr t}" using D(6) by auto
  then have fin: "finite ?A" by (rule finite_subset) simp
  have ok: "leaf_ok c (lo a) n" if "heap t a = Some n" "is_leaf n" for a n using contentD(3) [OF D(10) that] .
  have "?K a \<inter> ?K b = {}" if ab: "a \<in> ?A" "b \<in> ?A" "a \<noteq> b" for a b
  proof (rule ccontr)
    assume "?K a \<inter> ?K b \<noteq> {}"
    then obtain k where k: "k \<in> ?K a" "k \<in> ?K b" by blast
    obtain n m where n: "heap t a = Some n" "is_leaf n" and m: "heap t b = Some m" "is_leaf m"
      using ab(1,2) by blast
    have "a = b"
    proof (rule covering_unique [OF D(9) n(1) m(1), of k])
      show "lv a = lv b" using contentD(1) [OF D(10)] n m by metis
    qed (use ok [OF n] ok [OF m] k n(1) m(1) in \<open>auto simp: leaf_ok_def\<close>)
    then show False using ab(3) by simp
  qed
  then have "card (dom (tree_map t)) = (\<Sum>a \<in> ?A. card (?K a))"
    unfolding dom_tree_map [OF i] using fin by (intro card_UN_disjoint) auto
  also have "\<dots> = (\<Sum>a \<in> ?A. nsize (the (heap t a)))"
  proof (rule sum.cong [OF refl])
    fix a assume "a \<in> ?A"
    then obtain n where n: "heap t a = Some n" "is_leaf n" by auto
    have "distinct (live_keys n)" "length (live_keys n) = nsize n"
      using ok [OF n] by (simp_all add: leaf_ok_def strict_sorted_iff)
    then show "card (?K a) = nsize (the (heap t a))" using n by (simp add: distinct_card del: length_take)
  qed
  finally show ?thesis .
qed

lemma statistics_spec:
  assumes i: "blink_inv c lo lv P t r"
  shows "\<exists>st. Tree_print_statistics t = Inr st
    \<and> count_leaf_nodes st = of_nat (card {a. \<exists>n. heap t a = Some n \<and> is_leaf n})
    \<and> count_inner_nodes st = of_nat (card {a. \<exists>n. heap t a = Some n \<and> \<not> is_leaf n})
    \<and> count_leaf_node_keys st = of_nat (card (dom (tree_map t)))
    \<and> tree_height st = of_nat (height t)"
proof -
  let ?N = "\<lambda>a. the (heap t a)"
  let ?body = "\<lambda>a st. bindR (deref t (Some a)) (\<lambda>n. Inr (collect_node_statistics n st))"
  obtain ys where ys: "distinct ys" "set ys = dom (heap t)" "\<And>acc. Tree_for_each t ?body acc = foldR ?body ys acc"
    using for_each_visits [OF i, of ?body] by blast
  have run: "foldR ?body ys st = Inr (fold (\<lambda>a. collect_node_statistics (?N a)) ys st)" for st
    by (rule foldR_total) (use ys(2) in \<open>auto simp: deref_def\<close>)
  have leaf: "set (filter (\<lambda>a. is_leaf (?N a)) ys) = {a. \<exists>n. heap t a = Some n \<and> is_leaf n}"
    and inner: "set (filter (\<lambda>a. \<not> is_leaf (?N a)) ys) = {a. \<exists>n. heap t a = Some n \<and> \<not> is_leaf n}"
    using ys(2) by auto
  have "length (filter (\<lambda>a. is_leaf (?N a)) ys) = card {a. \<exists>n. heap t a = Some n \<and> is_leaf n}"
    "length (filter (\<lambda>a. \<not> is_leaf (?N a)) ys) = card {a. \<exists>n. heap t a = Some n \<and> \<not> is_leaf n}"
    using distinct_card [of "filter _ ys"] ys(1) unfolding leaf [symmetric] inner [symmetric] by simp_all
  moreover have "(\<Sum>a \<leftarrow> filter (\<lambda>a. is_leaf (?N a)) ys. nsize (?N a)) = card (dom (tree_map t))"
    unfolding card_dom_tree_map [OF i] leaf [symmetric] using ys(1) by (simp add: sum_list_distinct_conv_sum_set)
  ultimately show ?thesis
    by (auto simp: Tree_print_statistics_def ys(3) run collect_fold TreeStatistics_ctor_def)
qed

section \<open>The destructors\<close>

text \<open>The nodes at or below \<open>a\<close>: their lower ends lie in its interval.\<close>

definition subtree :: "(addr \<Rightarrow> key_type) \<Rightarrow> (addr \<Rightarrow> nat) \<Rightarrow> node_store \<Rightarrow> addr \<Rightarrow> addr set" where
  "subtree lo lv h a = {b. h b \<noteq> None \<and> lv b \<le> lv a \<and> lo a \<le> lo b \<and> lo b < high_key (the (h a))}"

lemma subtree_kids:
  assumes i: "blink_inv c lo lv {} t r" and a: "heap t a = Some n" "\<not> is_leaf n"
  shows "subtree lo lv (heap t) a = insert a (\<Union>b \<in> {b. Some b \<in> set (live_seps n)}. subtree lo lv (heap t) b)"
proof -
  note D = invD [OF i]
  have io: "inner_ok c lo lv (heap t) a n" using contentD(4) [OF D(10) a] .
  have up: "x \<in> subtree lo lv (heap t) a" if b: "Some b \<in> set (live_seps n)" and x: "x \<in> subtree lo lv (heap t) b" for b x
  proof -
    obtain m where m: "heap t b = Some m" "Suc (lv b) = lv a" using inner_okD(5) [OF io b] by blast
    have "lo a \<le> lo b" "high_key m \<le> high_key n" using kid_lo(2) [OF io b] kid_high [OF D(8,9,10) a b m(1)] by simp_all
    then show ?thesis using x m a(1) by (auto simp: subtree_def)
  qed
  have down: "\<exists>b. Some b \<in> set (live_seps n) \<and> x \<in> subtree lo lv (heap t) b"
    if x: "x \<in> subtree lo lv (heap t) a" "x \<noteq> a" for x
  proof -
    obtain y where y: "heap t x = Some y" "lv x \<le> lv a" "lo a \<le> lo x" "lo x < high_key n"
      using x(1) a(1) by (auto simp: subtree_def)
    have "lv x \<noteq> lv a"
      using covering_unique [OF D(9) y(1) a(1), of "lo x"] chainD(1) [OF D(8) y(1)] y x(2) by auto
    then obtain d where d: "lv a = Suc d" "lv x \<le> d" using y(2) by (cases "lv a") auto
    obtain b m where b: "heap t b = Some m" "lv b = d" "lo b \<le> lo x" "lo x < high_key m"
      using level_covered [OF i, of d "lo x"] d contentD(2) [OF D(10) a(1)] chainD(1) [OF D(8) y(1)]
      by (metis Suc_leD le_max_key less_max_key order.strict_trans2)
    have "b \<noteq> r \<and> lv b \<noteq> lv r" using b(2) d contentD(2) [OF D(10) a(1)] by auto
    then obtain q where q: "is_kid (heap t) q b" using D(12) b(1) unfolding linked_ok_def by (metis DiffI domI empty_iff)
    then obtain nq where nq: "heap t q = Some nq" "\<not> is_leaf nq" "Some b \<in> set (live_seps nq)" by (auto simp: is_kid_def)
    have ioq: "inner_ok c lo lv (heap t) q nq" using contentD(4) [OF D(10) nq(1,2)] .
    have "q = a"
    proof (rule covering_unique [OF D(9) nq(1) a(1), of "lo x"])
      show "lv q = lv a" using inner_okD(5) [OF ioq nq(3)] b(2) d by simp
      show "lo q \<le> lo x" using kid_lo(2) [OF ioq nq(3)] b(3) by simp
      show "lo x < high_key nq" using kid_high [OF D(8,9,10) nq b(1)] b(4) by simp
    qed (use y in auto)
    then show ?thesis using nq a(1) b y d by (intro exI [of _ b]) (auto simp: subtree_def)
  qed
  have "a \<in> subtree lo lv (heap t) a" using a(1) chainD(1) [OF D(8) a(1)] by (auto simp: subtree_def)
  then show ?thesis using up down by blast
qed

lemma kid_subtrees_disjoint:
  assumes i: "blink_inv c lo lv P t r" and b: "heap t b = Some n" "heap t b' = Some n'" "lv b = lv b'" "b \<noteq> b'"
  shows "subtree lo lv (heap t) b \<inter> subtree lo lv (heap t) b' = {}"
proof (rule ccontr)
  assume "subtree lo lv (heap t) b \<inter> subtree lo lv (heap t) b' \<noteq> {}"
  then obtain x where "lo b \<le> lo x" "lo x < high_key n" "lo b' \<le> lo x" "lo x < high_key n'"
    using b(1,2) by (auto simp: subtree_def)
  then show False using covering_unique [OF invD(9) [OF i] b(1,2,3), of "lo x"] b(4) by simp
qed

text \<open>What a recursion over the separators of an inner node meets.\<close>

lemma inner_subtrees:
  assumes i: "blink_inv c lo lv {} t r" and n: "heap t a = Some n" "\<not> is_leaf n"
  obtains cs where "live_seps n = map Some cs" "nsize n < length (seps n)" "distinct cs"
    "\<forall>b \<in> set cs. heap t b \<noteq> None \<and> Suc (lv b) = lv a"
    "subtree lo lv (heap t) a = insert a (\<Union>b \<in> set cs. subtree lo lv (heap t) b)"
    "a \<notin> (\<Union>b \<in> set cs. subtree lo lv (heap t) b)"
proof -
  have io: "inner_ok c lo lv (heap t) a n" using contentD(4) [OF invD(10) [OF i] n] .
  obtain cs where cs: "live_seps n = map Some cs" "\<forall>b \<in> set cs. heap t b \<noteq> None" using inner_kids_list [OF io] .
  have kid: "heap t b \<noteq> None \<and> Suc (lv b) = lv a" if "b \<in> set cs" for b
    using that cs inner_okD(5) [OF io, of b] by auto
  have "map (\<lambda>s. lo (the s)) (live_seps n) = lo a # live_keys n" "sorted_less (lo a # live_keys n @ [high_key n])"
    using io by (simp_all add: inner_ok_def)
  then have "distinct (map lo cs)" unfolding cs(1) by (auto simp: o_def sorted_wrt_append strict_sorted_iff)
  then have "distinct cs" by (simp add: distinct_map)
  moreover have "nsize n < length (seps n)" using inner_okD(1) [OF io] by (simp add: inner_shape_def)
  moreover have "a \<notin> subtree lo lv (heap t) b" if "b \<in> set cs" for b using kid [OF that] by (auto simp: subtree_def)
  moreover have "subtree lo lv (heap t) a = insert a (\<Union>b \<in> set cs. subtree lo lv (heap t) b)"
    using subtree_kids [OF i n] cs(1) by auto
  ultimately show thesis using that [OF cs(1)] kid by blast
qed

lemma leaf_subtree:
  assumes i: "blink_inv c lo lv {} t r" and n: "heap t a = Some n" "is_leaf n"
  shows "subtree lo lv (heap t) a = {a}"
proof -
  note D = invD [OF i]
  have "a \<in> subtree lo lv (heap t) a" using n chainD(1) [OF D(8) n(1)] by (auto simp: subtree_def)
  moreover have "lv a = 0" using contentD(1) [OF D(10) n(1)] n(2) by simp
  ultimately show ?thesis
    using covering_unique [OF D(9) _ n(1)] chainD(1) [OF D(8)] n(1) by (fastforce simp: subtree_def)
qed

lemma root_subtree:
  assumes i: "blink_inv c lo lv {} t r"
  shows "subtree lo lv (heap t) r = dom (heap t)"
proof -
  note D = invD [OF i]
  obtain n where n: "heap t r = Some n" using D(2) by blast
  have "lo b < max_key" if "heap t b = Some m" for b m
    using chainD(1) [OF D(8) that] by (meson le_max_key order.strict_trans2)
  then show ?thesis using root_high [OF i n] D(3) n contentD(2) [OF D(10)] by (auto simp: subtree_def)
qed

text \<open>Deleting some children one after the other, given that deleting one of them works.\<close>

lemma delete_separators_frees:
  assumes i: "blink_inv c lo lv {} t r" and dist: "distinct bs"
    and kid: "\<And>b. b \<in> set bs \<Longrightarrow> heap t b \<noteq> None \<and> lv b = d"
    and one: "\<And>b g. b \<in> set bs \<Longrightarrow> (\<And>x. x \<in> subtree lo lv (heap t) b \<Longrightarrow> g x = heap t x) \<Longrightarrow>
      delete_node fuel g (Some b) = Inr (\<lambda>x. if x \<in> subtree lo lv (heap t) b then None else g x)"
    and g: "\<And>x. x \<in> (\<Union>b \<in> set bs. subtree lo lv (heap t) b) \<Longrightarrow> g x = heap t x"
  shows "delete_separators fuel g (map Some bs)
    = Inr (\<lambda>x. if x \<in> (\<Union>b \<in> set bs. subtree lo lv (heap t) b) then None else g x)"
  using assms(2-)
proof (induction bs arbitrary: g)
  case (Cons b bs)
  let ?g = "\<lambda>x. if x \<in> subtree lo lv (heap t) b then None else g x"
  have one: "delete_node fuel g (Some b) = Inr ?g" using Cons.prems(3) [of b g] Cons.prems(4) by auto
  have "subtree lo lv (heap t) b \<inter> subtree lo lv (heap t) b' = {}" if "b' \<in> set bs" for b'
  proof -
    have "b \<noteq> b'" using Cons.prems(1) that by auto
    then show ?thesis using kid_subtrees_disjoint [OF i, of b _ b'] Cons.prems(2) [of b] Cons.prems(2) [of b'] that by auto
  qed
  then have "?g x = heap t x" if "x \<in> (\<Union>b \<in> set bs. subtree lo lv (heap t) b)" for x
    using that Cons.prems(4) by auto
  then have "delete_separators fuel ?g (map Some bs)
      = Inr (\<lambda>x. if x \<in> (\<Union>b \<in> set bs. subtree lo lv (heap t) b) then None else ?g x)"
    using Cons.IH [of ?g] Cons.prems(1-3) by simp
  then show ?case using one by (simp add: fun_eq_iff)
qed simp

lemma delete_node_frees:
  assumes i: "blink_inv c lo lv {} t r" and a: "heap t a \<noteq> None" and fuel: "lv a < fuel"
    and h: "\<And>x. x \<in> subtree lo lv (heap t) a \<Longrightarrow> h x = heap t x"
  shows "delete_node fuel h (Some a) = Inr (\<lambda>x. if x \<in> subtree lo lv (heap t) a then None else h x)"
  using a fuel h
proof (induction fuel arbitrary: a h)
  case (Suc fuel)
  note D = invD [OF i]
  obtain n where n: "heap t a = Some n" using Suc.prems(1) by blast
  have self: "a \<in> subtree lo lv (heap t) a" using n chainD(1) [OF D(8) n] by (auto simp: subtree_def)
  then have ha: "h a = Some n" using Suc.prems(3) n by simp
  show ?case
  proof (cases "is_leaf n")
    case True
    then show ?thesis using ha leaf_subtree [OF i n] by (auto simp: fun_eq_iff)
  next
    case False
    obtain cs where cs: "live_seps n = map Some cs" "nsize n < length (seps n)" and dist: "distinct cs"
      and kid: "\<forall>b \<in> set cs. heap t b \<noteq> None \<and> Suc (lv b) = lv a"
      and sub: "subtree lo lv (heap t) a = insert a (\<Union>b \<in> set cs. subtree lo lv (heap t) b)"
      and "a \<notin> (\<Union>b \<in> set cs. subtree lo lv (heap t) b)"
      using inner_subtrees [OF i n False] .
    have loop: "delete_separators fuel h (map Some cs)
        = Inr (\<lambda>x. if x \<in> (\<Union>b \<in> set cs. subtree lo lv (heap t) b) then None else h x)"
    proof (rule delete_separators_frees [OF i dist])
      show "heap t b \<noteq> None \<and> lv b = lv a - 1" if "b \<in> set cs" for b using kid that by auto
      show "delete_node fuel g (Some b) = Inr (\<lambda>x. if x \<in> subtree lo lv (heap t) b then None else g x)"
        if "b \<in> set cs" "\<And>x. x \<in> subtree lo lv (heap t) b \<Longrightarrow> g x = heap t x" for b g
        using Suc.IH [of b g] kid that Suc.prems(2) by auto
    qed (use Suc.prems(3) sub in auto)
    show ?thesis using loop ha False cs sub by (auto simp: fun_eq_iff)
  qed
qed simp

lemma dtor_spec:
  assumes i: "blink_inv c lo lv {} t r"
  shows "Tree_dtor t = Inr Map.empty"
proof -
  note D = invD [OF i]
  have "Tree_dtor t = Inr (\<lambda>x. if x \<in> subtree lo lv (heap t) r then None else heap t x)"
    unfolding Tree_dtor_def D(1) by (rule delete_node_frees [OF i D(2)]) (simp_all add: D(4))
  then show ?thesis unfolding root_subtree [OF i] by (auto simp: fun_eq_iff domIff)
qed

end
