(* ===== verification/Consistency_Checker.thy ===== *)
theory Consistency_Checker
  imports Tree_Walk
begin

text \<open>
  The consistency checker (\<^verbatim>\<open>src/src/indices/blinktree/consistency_checker.cpp\<close>) that
  \<^verbatim>\<open>Tree::check\<close> runs over every node. What it prints is modelled as a list of reports in the
  order of the output. Reads of the checker are checked like all others: the last key of an empty
  node is at index \<^verbatim>\<open>size() - 1\<close> converted to \<^verbatim>\<open>size_type\<close>, that is 65535.
\<close>

section \<open>The model\<close>

datatype report =
    WrongHighKey addr
  | WrongKeyOrder addr
  | NullSeparator addr
  | WrongChildren addr
  | WrongLevel addr
  | WrongParent1 addr
  | WrongParent2 addr
  | WrongParent3 addr

definition last_index :: "node \<Rightarrow> nat" where
  "last_index n = (nsize n + (2 ^ 16 - 1)) mod 2 ^ 16"

definition is_high_key_valid :: "node \<Rightarrow> bool result" where
  "is_high_key_valid n = bindR (node_key n (last_index n)) (\<lambda>k. Inr (k < high_key n))"

text \<open>The loop from \<open>index\<close> to the size.\<close>

function key_order_loop :: "node \<Rightarrow> nat \<Rightarrow> bool result" where
  "key_order_loop n index =
     (if index < nsize n
      then bindR (node_key n (index - 1)) (\<lambda>a. bindR (node_key n index) (\<lambda>b.
           if b \<le> a then Inr False else key_order_loop n (index + 1)))
      else Inr True)"
  by pat_completeness auto
termination
  by (relation "measure (\<lambda>(n, index). nsize n - index)") auto

definition is_key_order_valid :: "node \<Rightarrow> bool result" where
  "is_key_order_valid n = key_order_loop n 1"

function null_separator_loop :: "node \<Rightarrow> nat \<Rightarrow> bool result" where
  "null_separator_loop n index =
     (if index \<le> nsize n
      then bindR (node_separator n index) (\<lambda>s.
           if s = None then Inr False else null_separator_loop n (index + 1))
      else Inr True)"
  by pat_completeness auto
termination
  by (relation "measure (\<lambda>(n, index). Suc (nsize n) - index)") auto

definition is_no_null_separator :: "node \<Rightarrow> bool result" where
  "is_no_null_separator n = (if \<not> is_leaf n then null_separator_loop n 0 else Inr True)"

function children_order_loop :: "'l tree \<Rightarrow> node \<Rightarrow> nat \<Rightarrow> bool result" where
  "children_order_loop t n index =
     (if index < nsize n
      then bindR (node_separator n index) (\<lambda>s.
           bindR (deref t s) (\<lambda>child.
           bindR (node_key child (last_index child)) (\<lambda>child_last_key.
           bindR (node_key n index) (\<lambda>k.
           if k \<le> child_last_key then Inr False else children_order_loop t n (index + 1)))))
      else Inr True)"
  by pat_completeness auto
termination
  by (relation "measure (\<lambda>(t, n, index). nsize n - index)") auto

definition is_children_order_valid :: "'l tree \<Rightarrow> node \<Rightarrow> bool result" where
  "is_children_order_valid t n = (if \<not> is_leaf n then children_order_loop t n 0 else Inr True)"

function level_loop :: "'l tree \<Rightarrow> node \<Rightarrow> nat \<Rightarrow> bool result" where
  "level_loop t n index =
     (if index < nsize n
      then bindR (node_separator n index) (\<lambda>s. bindR (deref t s) (\<lambda>a.
           bindR (node_separator n (index + 1)) (\<lambda>s'. bindR (deref t s') (\<lambda>b.
           if is_leaf a \<noteq> is_leaf b then Inr False else level_loop t n (index + 1)))))
      else Inr True)"
  by pat_completeness auto
termination
  by (relation "measure (\<lambda>(t, n, index). nsize n - index)") auto

definition is_level_valid :: "'l tree \<Rightarrow> node \<Rightarrow> bool result" where
  "is_level_valid t n =
     bindR (if right_sibling n \<noteq> None
            then bindR (deref t (right_sibling n)) (\<lambda>m. Inr (is_leaf n \<noteq> is_leaf m))
            else Inr False) (\<lambda>mixed.
     if mixed then Inr False
     else if \<not> is_leaf n then level_loop t n 0 else Inr True)"

declare key_order_loop.simps [simp del] null_separator_loop.simps [simp del]
  children_order_loop.simps [simp del] level_loop.simps [simp del]

fun position_loop :: "ptr list \<Rightarrow> ptr \<Rightarrow> nat \<Rightarrow> nat" where
  "position_loop [] p index = index"
| "position_loop (s # ss) p index = (if s = p then index else position_loop ss p (index + 1))"

definition check_and_print_parent :: "'l tree \<Rightarrow> addr \<Rightarrow> node \<Rightarrow> report list result" where
  "check_and_print_parent t a n =
     (if parent n \<noteq> None
      then bindR (deref t (parent n)) (\<lambda>par.
           bindR (Node_contains_separator par (Some a)) (\<lambda>there.
           if \<not> there then Inr [WrongParent1 a]
           else let index = position_loop (live_seps par) (Some a) 0
                in if index < nsize par
                   then bindR (node_key n (last_index n)) (\<lambda>k. bindR (node_key par index) (\<lambda>k'.
                        Inr (if k < k' then [] else [WrongParent2 a])))
                   else bindR (node_key n 0) (\<lambda>k. bindR (node_key par (index - 1)) (\<lambda>k'.
                        Inr (if k' \<le> k then [] else [WrongParent3 a])))))
      else Inr [])"

definition report_unless :: "report \<Rightarrow> bool result \<Rightarrow> report list result" where
  "report_unless rep check = bindR check (\<lambda>b. Inr (if b then [] else [rep]))"

definition check_node_and_print_errors :: "'l tree \<Rightarrow> addr \<Rightarrow> report list result" where
  "check_node_and_print_errors t a =
     bindR (deref t (Some a)) (\<lambda>n.
     bindR (report_unless (WrongHighKey a) (is_high_key_valid n)) (\<lambda>r1.
     bindR (report_unless (WrongKeyOrder a) (is_key_order_valid n)) (\<lambda>r2.
     bindR (report_unless (NullSeparator a) (is_no_null_separator n)) (\<lambda>r3.
     bindR (report_unless (WrongChildren a) (is_children_order_valid t n)) (\<lambda>r4.
     bindR (report_unless (WrongLevel a) (is_level_valid t n)) (\<lambda>r5.
     bindR (check_and_print_parent t a n) (\<lambda>r6.
     Inr (r1 @ r2 @ r3 @ r4 @ r5 @ r6))))))))"

definition Tree_check :: "'l tree \<Rightarrow> report list result" where
  "Tree_check t = Tree_for_each t (\<lambda>a out. bindR (check_node_and_print_errors t a) (\<lambda>r. Inr (out @ r))) []"

section \<open>What the checks decide\<close>

text \<open>The key-order loop decides that the live keys are strictly increasing.\<close>

lemma key_order_loop_spec:
  assumes "nsize n \<le> length (keys n)" "1 \<le> index"
  shows "key_order_loop n index = Inr (\<forall>j. index \<le> j \<and> j < nsize n \<longrightarrow> keys n ! (j - 1) < keys n ! j)"
  using assms
proof (induction n index rule: key_order_loop.induct)
  case (1 n index)
  show ?case
  proof (cases "index < nsize n")
    case True
    have split: "(\<forall>j. index \<le> j \<and> j < nsize n \<longrightarrow> keys n ! (j - 1) < keys n ! j) \<longleftrightarrow>
        keys n ! (index - 1) < keys n ! index \<and>
        (\<forall>j. index + 1 \<le> j \<and> j < nsize n \<longrightarrow> keys n ! (j - 1) < keys n ! j)"
      using True by (metis Suc_eq_plus1 Suc_leD le_eq_less_or_eq Suc_leI)
    have "key_order_loop n index = (if keys n ! index \<le> keys n ! (index - 1) then Inr False
        else key_order_loop n (index + 1))"
      using True "1.prems" by (subst key_order_loop.simps) (simp add: node_key_def arr_simps)
    then show ?thesis
      using "1.IH" [of "keys n ! (index - 1)" "keys n ! index"] True "1.prems" unfolding split
      by (cases "keys n ! index \<le> keys n ! (index - 1)") (auto simp: node_key_def arr_simps)
  next
    case False
    then show ?thesis by (subst key_order_loop.simps) auto
  qed
qed

lemma sorted_less_iff_adjacent:
  fixes xs :: "'a::linorder list"
  shows "sorted_less xs \<longleftrightarrow> (\<forall>j. 1 \<le> j \<and> j < length xs \<longrightarrow> xs ! (j - 1) < xs ! j)"
proof -
  have "sorted_less xs \<longleftrightarrow> (\<forall>i. Suc i < length xs \<longrightarrow> xs ! i < xs ! Suc i)"
    by (rule sorted_wrt_iff_nth_Suc_transp) (auto intro: transpI)
  also have "\<dots> \<longleftrightarrow> (\<forall>j. 1 \<le> j \<and> j < length xs \<longrightarrow> xs ! (j - 1) < xs ! j)"
    by (metis One_nat_def Suc_le_D Suc_pred diff_Suc_1 le_add1 less_Suc_eq_0_disj not_less_eq_eq plus_1_eq_Suc)
  finally show ?thesis .
qed

lemma is_key_order_valid_spec:
  assumes "nsize n \<le> length (keys n)"
  shows "is_key_order_valid n = Inr (sorted_less (live_keys n))"
  using assms key_order_loop_spec [of n 1]
  by (auto simp: is_key_order_valid_def sorted_less_iff_adjacent)

lemma null_separator_loop_spec:
  assumes "nsize n < length (seps n)"
  shows "null_separator_loop n index = Inr (\<forall>j. index \<le> j \<and> j \<le> nsize n \<longrightarrow> seps n ! j \<noteq> None)"
  using assms
proof (induction n index rule: null_separator_loop.induct)
  case (1 n index)
  show ?case
  proof (cases "index \<le> nsize n")
    case True
    have split: "(\<forall>j. index \<le> j \<and> j \<le> nsize n \<longrightarrow> seps n ! j \<noteq> None) \<longleftrightarrow>
        seps n ! index \<noteq> None \<and> (\<forall>j. index + 1 \<le> j \<and> j \<le> nsize n \<longrightarrow> seps n ! j \<noteq> None)"
      using True by (metis Suc_eq_plus1 Suc_leD Suc_leI le_eq_less_or_eq)
    have "null_separator_loop n index = (if seps n ! index = None then Inr False else null_separator_loop n (index + 1))"
      using True "1.prems" by (subst null_separator_loop.simps) (simp add: node_separator_def arr_simps)
    then show ?thesis
      using "1.IH" [of "seps n ! index"] True "1.prems" unfolding split by (simp add: node_separator_def arr_simps)
  next
    case False
    then show ?thesis by (subst null_separator_loop.simps) auto
  qed
qed

lemma is_no_null_separator_spec:
  assumes "nsize n < length (seps n)" "\<not> is_leaf n"
  shows "is_no_null_separator n = Inr (None \<notin> set (live_seps n))"
proof -
  have "None \<notin> set (live_seps n) \<longleftrightarrow> (\<forall>j \<le> nsize n. seps n ! j \<noteq> None)"
    using assms(1) by (auto simp: in_set_conv_nth less_Suc_eq_le)
  then show ?thesis using null_separator_loop_spec [OF assms(1), of 0] assms(2) by (simp add: is_no_null_separator_def)
qed

section \<open>A well-formed tree passes\<close>

text \<open>The last key of a node that is not empty lies in the node's interval.\<close>

lemma last_index_pos: "0 < nsize n \<Longrightarrow> nsize n < 65536 \<Longrightarrow> last_index n = nsize n - 1"
  by (cases "nsize n") (simp_all add: last_index_def)

lemma node_keys_in_interval:
  assumes i: "blink_inv c lo lv P t r" and a: "heap t a = Some n" and j: "j < nsize n"
  shows "node_key n j = Inr (keys n ! j)" "lo a \<le> keys n ! j" "keys n ! j < high_key n" "nsize n < 65536"
proof -
  note D = invD [OF i]
  have "nsize n \<le> length (keys n) \<and> nsize n < 65536 \<and> (\<forall>k \<in> set (live_keys n). lo a \<le> k \<and> k < high_key n)"
  proof (cases "is_leaf n")
    case True
    then show ?thesis using contentD(3) [OF D(10) a] capacity_lt_65536(1) [of c] by (auto simp: leaf_ok_def)
  next
    case False
    then have io: "inner_ok c lo lv (heap t) a n" using contentD(4) [OF D(10) a] by blast
    then show ?thesis
      using inner_okD(1) [OF io] inner_okD(8) [OF io] capacity_lt_65536(2) [of c] by (auto simp: inner_shape_def)
  qed
  moreover have "keys n ! j \<in> set (live_keys n)" if "nsize n \<le> length (keys n)"
    using j that by (metis length_take min.absorb2 nth_mem nth_take)
  ultimately show "node_key n j = Inr (keys n ! j)" "lo a \<le> keys n ! j" "keys n ! j < high_key n" "nsize n < 65536"
    using j by (auto simp: node_key_def arr_simps)
qed

lemma last_key_in_interval:
  assumes i: "blink_inv c lo lv P t r" and a: "heap t a = Some n" and ne: "0 < nsize n"
  shows "\<exists>k. node_key n (last_index n) = Inr k \<and> lo a \<le> k \<and> k < high_key n"
  using node_keys_in_interval [OF i a, of "nsize n - 1"] ne last_index_pos [OF ne] by auto

lemma children_order_loop_ok:
  assumes "\<And>j. index \<le> j \<Longrightarrow> j < nsize n \<Longrightarrow> \<exists>b m k. node_separator n j = Inr (Some b) \<and> heap t b = Some m
      \<and> node_key m (last_index m) = Inr k \<and> node_key n j = Inr (keys n ! j) \<and> k < keys n ! j"
  shows "children_order_loop t n index = Inr True"
  using assms
proof (induction t n index rule: children_order_loop.induct)
  case (1 t n index)
  show ?case
  proof (cases "index < nsize n")
    case True
    then obtain b m k where b: "node_separator n index = Inr (Some b)" "heap t b = Some m"
      "node_key m (last_index m) = Inr k" "node_key n index = Inr (keys n ! index)" "k < keys n ! index"
      using "1.prems" [of index] by blast
    then have "children_order_loop t n index = children_order_loop t n (index + 1)"
      using True by (subst children_order_loop.simps) (simp add: not_le [symmetric])
    then show ?thesis using "1.IH" [OF True b(1) deref_Some [OF b(2)] b(3,4)] b(5) "1.prems" by simp
  next
    case False
    then show ?thesis by (subst children_order_loop.simps) simp
  qed
qed

lemma level_loop_ok:
  assumes "\<And>j. index \<le> j \<Longrightarrow> j \<le> nsize n \<Longrightarrow> \<exists>b m. node_separator n j = Inr (Some b) \<and> heap t b = Some m
      \<and> is_leaf m = leafy"
  shows "level_loop t n index = Inr True"
  using assms
proof (induction t n index rule: level_loop.induct)
  case (1 t n index)
  show ?case
  proof (cases "index < nsize n")
    case True
    then obtain b m b' m' where b: "node_separator n index = Inr (Some b)" "heap t b = Some m" "is_leaf m = leafy"
      and b': "node_separator n (index + 1) = Inr (Some b')" "heap t b' = Some m'" "is_leaf m' = leafy"
      using "1.prems" [of index] "1.prems" [of "index + 1"] by auto
    then have "level_loop t n index = level_loop t n (index + 1)"
      using True by (subst level_loop.simps) simp
    then show ?thesis
      using "1.IH" [OF True b(1) deref_Some [OF b(2)] b'(1) deref_Some [OF b'(2)]] b(3) b'(3) "1.prems" by simp
  next
    case False
    then show ?thesis by (subst level_loop.simps) simp
  qed
qed

lemma separator_at:
  assumes io: "inner_ok c lo lv h a n" and j: "j \<le> nsize n"
  obtains b m where "node_separator n j = Inr (Some b)" "seps n ! j = Some b" "h b = Some m" "Suc (lv b) = lv a"
    "lo b = (lo a # live_keys n) ! j" "Some b \<in> set (live_seps n)"
proof -
  have mem: "seps n ! j \<in> set (live_seps n)"
    using inner_okD(4) [OF io] j by (metis le_imp_less_Suc nth_mem nth_take)
  then obtain b where b: "seps n ! j = Some b" "h b \<noteq> None" "Suc (lv b) = lv a"
    using io unfolding inner_ok_def by metis
  have "node_separator n j = Inr (Some b)"
    using b(1) j inner_okD(1) [OF io] by (simp add: node_separator_def aget_def inner_shape_def)
  then show thesis using that b mem inner_okD(7) [OF io j] by auto
qed

text \<open>All keys of a child stay below the key behind it.\<close>

lemma child_below_key:
  assumes i: "blink_inv c lo lv P t r" and a: "heap t a = Some n" "\<not> is_leaf n"
    and b: "seps n ! j = Some b" "heap t b = Some m" and j: "j < nsize n"
  shows "high_key m \<le> keys n ! j"
proof -
  note D = invD [OF i]
  have io: "inner_ok c lo lv (heap t) a n" using contentD(4) [OF D(10) a] .
  obtain b0 m0 where b0: "seps n ! j = Some b0" "heap t b0 = Some m0" "Suc (lv b0) = lv a"
      "lo b0 = (lo a # live_keys n) ! j"
    using separator_at [OF io, of j] j by (metis less_imp_le)
  obtain d e where d: "seps n ! Suc j = Some d" "heap t d = Some e" "Suc (lv d) = lv a"
      "lo d = (lo a # live_keys n) ! Suc j"
    using separator_at [OF io, of "Suc j"] j by (metis Suc_leI)
  have eq: "b0 = b" "m0 = m" using b b0 by auto
  have "length (lo a # live_keys n) = Suc (nsize n)" using inner_okD(3) [OF io] by simp
  moreover have "sorted_less (lo a # live_keys n)" using io by (simp add: inner_ok_def sorted_wrt_append)
  ultimately have "lo b < lo d" using sorted_less_nth_mono [of "lo a # live_keys n" j "Suc j"] j b0(4) d(4) eq by simp
  then have "high_key m \<le> lo d"
    using disjointD [OF D(9) b(2) d(2)] b0(3) d(3) eq chainD(1) [OF D(8) d(2)] by simp
  then show ?thesis using d(4) j inner_okD(3) [OF io] by simp
qed

lemma children_valid:
  assumes i: "blink_inv c lo lv P t r" and a: "heap t a = Some n"
    and ne: "\<And>b m. heap t b = Some m \<Longrightarrow> 0 < nsize m"
  shows "is_children_order_valid t n = Inr True" "is_level_valid t n = Inr True"
proof -
  note D = invD [OF i]
  have kids: "\<exists>b m. node_separator n j = Inr (Some b) \<and> heap t b = Some m \<and> is_leaf m = (lv a = 1) \<and> seps n ! j = Some b"
    if nl: "\<not> is_leaf n" and j: "j \<le> nsize n" for j
  proof -
    obtain b m where b: "node_separator n j = Inr (Some b)" "seps n ! j = Some b" "heap t b = Some m" "Suc (lv b) = lv a"
      using separator_at [OF contentD(4) [OF D(10) a nl] j] by metis
    then show ?thesis using contentD(1) [OF D(10) b(3)] by auto
  qed
  show "is_children_order_valid t n = Inr True"
  proof (cases "is_leaf n")
    case False
    have "children_order_loop t n 0 = Inr True"
    proof (rule children_order_loop_ok)
      fix j assume j: "j < nsize n"
      obtain b m where b: "node_separator n j = Inr (Some b)" "heap t b = Some m" "seps n ! j = Some b"
        using kids [OF False, of j] j by auto
      obtain k where k: "node_key m (last_index m) = Inr k" "k < high_key m"
        using last_key_in_interval [OF i b(2) ne [OF b(2)]] by blast
      have "high_key m \<le> keys n ! j" using child_below_key [OF i a False b(3,2) j] .
      then have "k < keys n ! j" using k(2) by simp
      then show "\<exists>b m k. node_separator n j = Inr (Some b) \<and> heap t b = Some m \<and> node_key m (last_index m) = Inr k
          \<and> node_key n j = Inr (keys n ! j) \<and> k < keys n ! j"
        using b k(1) node_keys_in_interval(1) [OF i a j] by blast
    qed
    then show ?thesis using False by (simp add: is_children_order_valid_def)
  qed (simp add: is_children_order_valid_def)
  have loop: "level_loop t n 0 = Inr True" if "\<not> is_leaf n"
    by (rule level_loop_ok [where leafy = "lv a = 1"]) (use kids [OF that] in blast)
  show "is_level_valid t n = Inr True"
  proof (cases "right_sibling n")
    case None
    then show ?thesis using loop by (simp add: is_level_valid_def)
  next
    case (Some b)
    obtain m where m: "heap t b = Some m" "lv b = lv a" using chainD(3) [OF D(8) a Some] by blast
    have "is_leaf m = is_leaf n" using contentD(1) [OF D(10)] a m by metis
    then show ?thesis using Some m loop by (simp add: is_level_valid_def)
  qed
qed

lemma position_loop_spec:
  "p \<in> set ss \<Longrightarrow> \<exists>j < length ss. position_loop ss p i = i + j \<and> ss ! j = p"
proof (induction ss arbitrary: i)
  case (Cons s ss)
  then show ?case by (cases "s = p") (force, fastforce dest: Cons.IH [of "Suc i"])
qed simp

lemma parent_valid:
  assumes i: "blink_inv c lo lv {} t r" and a: "heap t a = Some n"
    and ne: "\<And>b m. heap t b = Some m \<Longrightarrow> 0 < nsize m"
  shows "check_and_print_parent t a n = Inr []"
proof (cases "parent n")
  case None
  then show ?thesis by (simp add: check_and_print_parent_def)
next
  case (Some q)
  note D = invD [OF i]
  have "is_kid (heap t) q a" using below_kid_or_pending [OF i a Some] by simp
  then obtain m where m: "heap t q = Some m" "\<not> is_leaf m" "Some a \<in> set (live_seps m)" by (auto simp: is_kid_def)
  have io: "inner_ok c lo lv (heap t) q m" using contentD(4) [OF D(10) m(1,2)] .
  have sh: "nsize m < length (seps m)" "length (live_seps m) = Suc (nsize m)" "0 < nsize m"
    using inner_okD(1,4) [OF io] by (simp_all add: inner_shape_def)
  obtain j where j: "j \<le> nsize m" "position_loop (live_seps m) (Some a) 0 = j" "seps m ! j = Some a"
    using position_loop_spec [OF m(3), of 0] sh(2) by auto
  obtain k where k: "node_key n (last_index n) = Inr k" "k < high_key n"
    using last_key_in_interval [OF i a ne [OF a]] by blast
  show ?thesis
  proof (cases "j < nsize m")
    case True
    have "high_key n \<le> keys m ! j" using child_below_key [OF i m(1,2) j(3) a True] .
    then have "k < keys m ! j" using k(2) by simp
    then show ?thesis
      using Some m(1,3) j(2) True k(1) node_keys_in_interval(1) [OF i m(1) True]
      by (simp add: check_and_print_parent_def Node_contains_separator_eq [OF sh(1)])
  next
    case False
    then have "j = nsize m" using j(1) by simp
    then have lo: "lo a = keys m ! (nsize m - 1)"
      using inner_okD(7) [OF io j(1)] j(3) sh(3) by (simp add: nth_Cons')
    have "lo a \<le> keys n ! 0" using node_keys_in_interval(2) [OF i a, of 0] ne [OF a] by simp
    then show ?thesis
      using Some m(1,3) j(2) False lo \<open>j = nsize m\<close> sh(3) node_keys_in_interval(1) [OF i a, of 0] ne [OF a]
        node_keys_in_interval(1) [OF i m(1), of "nsize m - 1"]
      by (simp add: check_and_print_parent_def Node_contains_separator_eq [OF sh(1)])
  qed
qed

lemma check_node_ok:
  assumes i: "blink_inv c lo lv {} t r" and a: "heap t a = Some n"
    and ne: "\<And>b m. heap t b = Some m \<Longrightarrow> 0 < nsize m"
  shows "check_node_and_print_errors t a = Inr []"
proof -
  note D = invD [OF i]
  have "is_high_key_valid n = Inr True"
    using last_key_in_interval [OF i a ne [OF a]] by (auto simp: is_high_key_valid_def)
  moreover have "is_key_order_valid n = Inr True" "is_no_null_separator n = Inr True"
  proof -
    have "nsize n \<le> length (keys n) \<and> sorted_less (live_keys n)
        \<and> (\<not> is_leaf n \<longrightarrow> nsize n < length (seps n) \<and> None \<notin> set (live_seps n))"
    proof (cases "is_leaf n")
      case True
      then show ?thesis using contentD(3) [OF D(10) a] by (simp add: leaf_ok_def)
    next
      case False
      then have io: "inner_ok c lo lv (heap t) a n" using contentD(4) [OF D(10) a] by blast
      then show ?thesis using inner_okD(1,2,6) [OF io] by (simp add: inner_shape_def)
    qed
    then show "is_key_order_valid n = Inr True" "is_no_null_separator n = Inr True"
      using is_key_order_valid_spec [of n] is_no_null_separator_spec [of n]
      by (simp_all add: is_no_null_separator_def)
  qed
  ultimately show ?thesis
    using children_valid [OF i a ne] parent_valid [OF i a ne] a
    by (simp add: check_node_and_print_errors_def report_unless_def)
qed

lemma check_spec:
  assumes i: "blink_inv c lo lv {} t r" and ne: "\<And>b m. heap t b = Some m \<Longrightarrow> 0 < nsize m"
  shows "Tree_check t = Inr []"
proof -
  let ?body = "\<lambda>a out. bindR (check_node_and_print_errors t a) (\<lambda>r. Inr (out @ r))"
  obtain ys where ys: "set ys = dom (heap t)" "\<And>acc. Tree_for_each t ?body acc = foldR ?body ys acc"
    using for_each_visits [OF i, of ?body] by blast
  have "foldR ?body ys [] = Inr (fold (\<lambda>a out. out) ys [])"
  proof (rule foldR_total)
    fix a acc
    assume "a \<in> set ys"
    then obtain n where n: "heap t a = Some n" using ys(1) by auto
    show "?body a acc = Inr acc" using check_node_ok [OF i n ne] by simp
  qed
  moreover have "fold (\<lambda>a out. out) ys [] = []" by (induction ys) simp_all
  ultimately show ?thesis by (simp add: Tree_check_def ys(2))
qed
end
