(* ===== verification/BLink_Fill.thy ===== *)
theory BLink_Fill
  imports Consistency_Checker Latched_Tree
begin

text \<open>
  How high a tree can grow. Splits leave nodes half full, so the number of nodes multiplies from
  level to level and the number of keys bounds the height from above. The path of ten nodes that
  \<^verbatim>\<open>insert\<close> and \<^verbatim>\<open>update\<close> use is therefore long enough for every tree that fits into memory.
\<close>

section \<open>Counting the nodes of a level\<close>

definition level_nodes :: "(addr \<Rightarrow> nat) \<Rightarrow> 'l tree \<Rightarrow> nat \<Rightarrow> addr set" where
  "level_nodes lv t d = {a. heap t a \<noteq> None \<and> lv a = d}"

definition kids_of :: "node \<Rightarrow> addr set" where
  "kids_of n = {b. Some b \<in> set (live_seps n)}"

lemma finite_level:
  assumes "blink_inv c lo lv P t r"
  shows "finite (level_nodes lv t d)"
proof (rule finite_subset)
  show "level_nodes lv t d \<subseteq> {..<next_addr t}" using invD(6) [OF assms] by (auto simp: level_nodes_def)
qed simp

lemma card_kids:
  assumes io: "inner_ok c lo lv h a n"
  shows "card (kids_of n) = Suc (nsize n)"
proof -
  obtain cs where cs: "live_seps n = map Some cs" using inner_kids_list [OF io] by blast
  have "map lo cs = lo a # live_keys n" "sorted_less (lo a # live_keys n @ [high_key n])"
    using io unfolding inner_ok_def cs by (simp_all add: o_def)
  then have "distinct (map lo cs)" by (auto simp: sorted_wrt_append strict_sorted_iff)
  then have "distinct cs" by (simp add: distinct_map)
  moreover have "kids_of n = set cs" unfolding kids_of_def cs by auto
  moreover have "length cs = Suc (nsize n)" using inner_okD(4) [OF io] unfolding cs by simp
  ultimately show ?thesis by (simp add: distinct_card)
qed

lemma level_card:
  assumes i: "blink_inv c lo lv {} t r" and d: "d < lv r"
  shows "card (level_nodes lv t d) = (\<Sum>q \<in> level_nodes lv t (Suc d). Suc (nsize (the (heap t q))))"
proof -
  note D = invD [OF i]
  have inner: "\<not> is_leaf n \<and> inner_ok c lo lv (heap t) q n" if "heap t q = Some n" "lv q = Suc d" for q n
    using contentD(1,4) [OF D(10) that(1)] that(2) by simp
  have union: "level_nodes lv t d = (\<Union>q \<in> level_nodes lv t (Suc d). kids_of (the (heap t q)))"
  proof (intro set_eqI iffI)
    fix b assume "b \<in> level_nodes lv t d"
    then have b: "heap t b \<noteq> None" "lv b = d" by (simp_all add: level_nodes_def)
    then obtain q where "is_kid (heap t) q b" using D(12) d unfolding linked_ok_def by (metis Diff_empty domIff nat_neq_iff)
    then obtain n where n: "heap t q = Some n" "\<not> is_leaf n" "Some b \<in> set (live_seps n)" by (auto simp: is_kid_def)
    then have "lv q = Suc d" using inner_okD(5) [OF contentD(4) [OF D(10) n(1,2)] n(3)] b(2) by simp
    then show "b \<in> (\<Union>q \<in> level_nodes lv t (Suc d). kids_of (the (heap t q)))"
      using n by (auto simp: level_nodes_def kids_of_def)
  next
    fix b assume "b \<in> (\<Union>q \<in> level_nodes lv t (Suc d). kids_of (the (heap t q)))"
    then obtain q n where q: "heap t q = Some n" "lv q = Suc d" "Some b \<in> set (live_seps n)"
      by (auto simp: level_nodes_def kids_of_def)
    then show "b \<in> level_nodes lv t d" using inner_okD(5) [of c lo lv "heap t" q n b] inner by (simp add: level_nodes_def)
  qed
  have disj: "kids_of (the (heap t q)) \<inter> kids_of (the (heap t q')) = {}"
    if qq: "q \<in> level_nodes lv t (Suc d)" "q' \<in> level_nodes lv t (Suc d)" "q \<noteq> q'" for q q'
  proof (rule ccontr)
    assume "kids_of (the (heap t q)) \<inter> kids_of (the (heap t q')) \<noteq> {}"
    then obtain b where kb: "b \<in> kids_of (the (heap t q))" "b \<in> kids_of (the (heap t q'))" by blast
    then have b: "is_kid (heap t) q b" "is_kid (heap t) q' b"
      using qq(1,2) inner by (auto simp: level_nodes_def kids_of_def is_kid_def)
    obtain n where "heap t b = Some n"
      using b(1) inner_okD(5) contentD(4) [OF D(10)] by (fastforce simp: is_kid_def)
    then show False using kid_parent(1) [OF i b(1)] kid_parent(1) [OF i b(2)] qq(3) by simp
  qed
  have fin: "finite (kids_of n)" for n
  proof (rule finite_subset)
    show "kids_of n \<subseteq> the ` set (live_seps n)" by (force simp: kids_of_def)
  qed simp
  have "card (level_nodes lv t d) = (\<Sum>q \<in> level_nodes lv t (Suc d). card (kids_of (the (heap t q))))"
    unfolding union using finite_level [OF i] fin disj by (intro card_UN_disjoint) auto
  also have "\<dots> = (\<Sum>q \<in> level_nodes lv t (Suc d). Suc (nsize (the (heap t q))))"
  proof (rule sum.cong [OF refl])
    fix q assume "q \<in> level_nodes lv t (Suc d)"
    then obtain n where n: "heap t q = Some n" "lv q = Suc d" by (auto simp: level_nodes_def)
    then show "card (kids_of (the (heap t q))) = Suc (nsize (the (heap t q)))" using card_kids inner by fastforce
  qed
  finally show ?thesis .
qed

lemma level_lower_bound:
  assumes i: "blink_inv c lo lv {} t r" and d: "d < lv r"
  shows "2 * (InnerNode_max_keys c div 2 + 1) ^ (lv r - 1 - d) \<le> card (level_nodes lv t d)"
  using d
proof (induction "lv r - 1 - d" arbitrary: d)
  case 0
  note D = invD [OF i]
  have lr: "lv r = Suc d" using 0 by simp
  obtain n where n: "heap t r = Some n" using D(2) by blast
  have top: "b = r" if "heap t b = Some m" "lv b = lv r" for b m
    using D(12) that unfolding linked_ok_def by (metis Diff_empty domI)
  have "level_nodes lv t (Suc d) = {r}"
    using D(2) top lr by (auto simp: level_nodes_def)
  moreover have "0 < nsize n"
    using contentD(1,4) [OF D(10) n] lr by (simp add: inner_ok_def inner_shape_def)
  ultimately show ?case using level_card [OF i "0.prems"] n lr by simp
next
  case (Suc e)
  note D = invD [OF i]
  let ?f = "InnerNode_max_keys c div 2 + 1"
  have sd: "Suc d < lv r" "e = lv r - 1 - Suc d" using Suc.hyps(2) by simp_all
  have big: "?f \<le> Suc (nsize (the (heap t q)))" if q: "q \<in> level_nodes lv t (Suc d)" for q
  proof -
    obtain n where n: "heap t q = Some n" "lv q = Suc d" using q by (auto simp: level_nodes_def)
    then have "q \<noteq> r" using sd(1) by auto
    then have "min_size c n \<le> nsize n" using D(13) n(1) unfolding fill_ok_def by blast
    then show ?thesis using n contentD(1) [OF D(10) n(1)] by (simp add: min_size_def)
  qed
  have "2 * ?f ^ (lv r - 1 - d) = 2 * ?f ^ e * ?f" unfolding Suc.hyps(2) [symmetric] by simp
  also have "\<dots> \<le> card (level_nodes lv t (Suc d)) * ?f"
    using Suc.hyps(1) [OF sd(2) sd(1)] sd(2) by (intro mult_right_mono) simp_all
  also have "\<dots> = (\<Sum>q \<in> level_nodes lv t (Suc d). ?f)" by simp
  also have "\<dots> \<le> (\<Sum>q \<in> level_nodes lv t (Suc d). Suc (nsize (the (heap t q))))" by (rule sum_mono) (rule big)
  also have "\<dots> = card (level_nodes lv t d)" using level_card [OF i Suc.prems] by simp
  finally show ?case .
qed

text \<open>The least number of keys in a tree of the given height.\<close>

definition min_keys :: "'l config \<Rightarrow> nat \<Rightarrow> nat" where
  "min_keys c e = 2 * (InnerNode_max_keys c div 2 + 1) ^ e * (LeafNode_max_items c div 2)"

lemma keys_lower_bound:
  assumes i: "blink_inv c lo lv {} t r" and h: "height t = Suc (Suc e)"
  shows "min_keys c e \<le> card (dom (tree_map t))"
proof -
  note D = invD [OF i]
  have lr: "lv r = Suc e" using h D(4) by simp
  have leaves: "{a. \<exists>n. heap t a = Some n \<and> is_leaf n} = level_nodes lv t 0"
    using contentD(1) [OF D(10)] by (auto simp: level_nodes_def)
  have big: "LeafNode_max_items c div 2 \<le> nsize (the (heap t a))" if a: "a \<in> level_nodes lv t 0" for a
  proof -
    obtain n where n: "heap t a = Some n" "lv a = 0" using a by (auto simp: level_nodes_def)
    then have "a \<noteq> r" using lr by auto
    then have "min_size c n \<le> nsize n" using D(13) n(1) unfolding fill_ok_def by blast
    then show ?thesis using n contentD(1) [OF D(10) n(1)] by (simp add: min_size_def)
  qed
  have "min_keys c e \<le> card (level_nodes lv t 0) * (LeafNode_max_items c div 2)"
    using level_lower_bound [OF i, of 0] lr unfolding min_keys_def by (intro mult_right_mono) simp_all
  also have "\<dots> = (\<Sum>a \<in> level_nodes lv t 0. LeafNode_max_items c div 2)" by simp
  also have "\<dots> \<le> (\<Sum>a \<in> level_nodes lv t 0. nsize (the (heap t a)))" by (rule sum_mono) (rule big)
  also have "\<dots> = card (dom (tree_map t))" using card_dom_tree_map [OF i] leaves by simp
  finally show ?thesis .
qed

lemma min_keys_mono: "e \<le> e' \<Longrightarrow> min_keys c e \<le> min_keys c e'"
  unfolding min_keys_def by (intro mult_right_mono mult_left_mono power_increasing) simp_all

lemma height_bounded:
  assumes "tree_inv c t" "card (dom (tree_map t)) < min_keys c 10"
  shows "height t \<le> 11"
proof (rule ccontr)
  obtain lo lv r where i: "blink_inv c lo lv {} t r" using assms(1) by (auto simp: tree_inv_def)
  assume "\<not> height t \<le> 11"
  then have "height t = Suc (Suc (height t - 2))" "10 \<le> height t - 2" by simp_all
  then obtain e where e: "height t = Suc (Suc e)" "10 \<le> e" by blast
  then show False using keys_lower_bound [OF i e(1)] min_keys_mono [OF e(2), of c] assms(2) by linarith
qed

section \<open>Nodes of a tree that is not empty\<close>

lemma single_leaf:
  assumes i: "blink_inv c lo lv {} t r" and r: "lv r = 0" and n: "heap t r = Some n"
  shows "is_leaf n" "dom (tree_map t) = set (live_keys n)"
proof -
  note D = invD [OF i]
  show leaf: "is_leaf n" using contentD(1) [OF D(10) n] r by simp
  have only: "b = r" if "heap t b = Some x" for b x
    using D(12) that contentD(2) [OF D(10) that] r unfolding linked_ok_def by (metis Diff_empty domI le_zero_eq)
  have "{b. \<exists>x. heap t b = Some x \<and> is_leaf x} = {r}" using n leaf only by blast
  then show "dom (tree_map t) = set (live_keys n)" using dom_tree_map [OF i] n by simp
qed

lemma nodes_nonempty:
  assumes i: "blink_inv c lo lv {} t r" and c: "config_ok c" and m: "tree_map t \<noteq> Map.empty"
    and a: "heap t a = Some n"
  shows "0 < nsize n"
proof (cases "a = r")
  case False
  then have "min_size c n \<le> nsize n" using invD(13) [OF i] a unfolding fill_ok_def by blast
  then show ?thesis using c by (simp add: min_size_def config_ok_def split: if_splits)
next
  case True
  note D = invD [OF i]
  show ?thesis
  proof (cases "is_leaf n")
    case False
    then show ?thesis using contentD(4) [OF D(10) a] by (simp add: inner_ok_def inner_shape_def)
  next
    case leaf: True
    then have "dom (tree_map t) = set (live_keys n)"
      using single_leaf(2) [OF i] contentD(1) [OF D(10) a] a True by simp
    then show ?thesis using m by (cases "nsize n") auto
  qed
qed

lemma low_tree_is_small:
  assumes "tree_inv c t" "height t \<le> 1"
  shows "card (dom (tree_map t)) \<le> LeafNode_max_items c"
proof -
  obtain lo lv r where i: "blink_inv c lo lv {} t r" using assms(1) by (auto simp: tree_inv_def)
  note D = invD [OF i]
  obtain n where n: "heap t r = Some n" using D(2) by blast
  have r: "lv r = 0" using D(4) assms(2) by simp
  have "nsize n \<le> LeafNode_max_items c" "length (live_keys n) \<le> nsize n"
    using contentD(3) [OF D(10) n single_leaf(1) [OF i r n]] by (simp_all add: leaf_ok_def)
  moreover have "card (dom (tree_map t)) \<le> length (live_keys n)"
    using single_leaf(2) [OF i r n] card_length [of "live_keys n"] by simp
  ultimately show ?thesis by linarith
qed

section \<open>Properties of whole trees\<close>

text \<open>
  On a well-formed tree the loop \<^verbatim>\<open>for (auto node : tree)\<close> ends and runs its body for every
  node of the tree exactly once, whatever the body does with its state.
\<close>

theorem iterator_visits_each_node_once:
  assumes "tree_inv c t"
  shows "\<exists>ys. distinct ys \<and> set ys = dom (heap t) \<and> (\<forall>acc. Tree_for_each t body acc = foldR body ys acc)"
  using assms for_each_visits by (auto simp: tree_inv_def)

theorem iterator_visits_each_node_once_witness:
  "\<exists>ys. distinct ys \<and> set ys = {0}
    \<and> Tree_for_each (Tree_ctor small_config) (\<lambda>a seen. Inr (a # seen)) [] = foldR (\<lambda>a seen. Inr (a # seen)) ys []"
proof -
  have "tree_inv small_config (Tree_ctor small_config)" using inv_ctor by (auto simp: tree_inv_def)
  from iterator_visits_each_node_once [OF this, of "\<lambda>a seen. Inr (a # seen)"]
  show ?thesis by (auto simp: Tree_ctor_heap)
qed

text \<open>
  The statistics count: the number of leaves and of inner nodes, the number of stored keys (as
  64-bit counters), and the height.
\<close>

theorem statistics_count_the_tree:
  assumes "tree_inv c t"
  shows "\<exists>st. Tree_print_statistics t = Inr st
    \<and> count_leaf_nodes st = of_nat (card {a. \<exists>n. heap t a = Some n \<and> is_leaf n})
    \<and> count_inner_nodes st = of_nat (card {a. \<exists>n. heap t a = Some n \<and> \<not> is_leaf n})
    \<and> count_leaf_node_keys st = of_nat (card (dom (tree_map t)))
    \<and> tree_height st = of_nat (height t)"
  using assms statistics_spec by (auto simp: tree_inv_def)

theorem statistics_count_the_tree_witness:
  "\<exists>st. Tree_print_statistics (base one_entry) = Inr st \<and> count_leaf_node_keys st = 1"
proof -
  have "tree_inv small_config (base one_entry)" using one_entry_ok(1) by (simp add: ThreadTree_ok_def)
  from statistics_count_the_tree [OF this] show ?thesis by (auto simp: one_entry_ok(2))
qed

text \<open>
  C32. A well-formed tree that stores at least one key passes the consistency checker: every check
  of every node succeeds, no read is out of bounds and nothing is printed.
\<close>

theorem consistency_check_passes:
  assumes "config_ok c" "tree_inv c t" "tree_map t \<noteq> Map.empty"
  shows "Tree_check t = Inr []"
proof -
  obtain lo lv r where i: "blink_inv c lo lv {} t r" using assms(2) by (auto simp: tree_inv_def)
  show ?thesis using check_spec [OF i nodes_nonempty [OF i assms(1,3)]] .
qed

theorem consistency_check_passes_witness: "Tree_check (base one_entry) = Inr []"
  using consistency_check_passes [OF example_config_ok(1), of "base one_entry"] one_entry_ok(1,2)
  by (simp add: ThreadTree_ok_def)

text \<open>
  On an empty tree the checker itself reads the key array far out of bounds: the last index of a
  node without keys is 65535.
\<close>

theorem consistency_check_of_empty_tree: "Tree_check (Tree_ctor c) = Inl OutOfBounds"
proof -
  have "LeafNode_max_items c \<le> 65535" using capacity_bounds(1) [of c] by simp
  then have "is_high_key_valid (Node_ctor c 0 True None) = Inl OutOfBounds"
    by (simp add: is_high_key_valid_def last_index_def node_key_def aget_def)
  then have "check_node_and_print_errors (Tree_ctor c) 0 = Inl OutOfBounds"
    by (simp add: check_node_and_print_errors_def deref_def Tree_ctor_heap report_unless_def)
  then show ?thesis
    by (simp add: Tree_check_def Tree_for_each_def Tree_begin_def TreeIterator_ctor_def TreeIterator_neq_def
        Tree_end_def Tree_ctor_heap)
qed

text \<open>
  Destroying a well-formed tree releases every node exactly once: the recursive destructor
  never touches a node that is already gone and leaves none behind.
\<close>

theorem destructor_releases_all_nodes:
  assumes "tree_inv c t"
  shows "Tree_dtor t = Inr Map.empty"
  using assms dtor_spec by (auto simp: tree_inv_def)

theorem destructor_releases_all_nodes_witness: "Tree_dtor (base one_entry) = Inr Map.empty"
  using destructor_releases_all_nodes [of small_config "base one_entry"] one_entry_ok(1) by (simp add: ThreadTree_ok_def)

text \<open>
  A tree of height \<open>e + 2\<close> stores at least \<open>2 * (I/2 + 1)^e * (L/2)\<close> keys, where \<open>I\<close> and \<open>L\<close>
  are the capacities of inner nodes and leaves: the height is logarithmic in the number of keys.
\<close>

theorem height_is_logarithmic:
  assumes "tree_inv c t" "height t = Suc (Suc e)"
  shows "2 * (InnerNode_max_keys c div 2 + 1) ^ e * (LeafNode_max_items c div 2) \<le> card (dom (tree_map t))"
proof -
  obtain lo lv r where i: "blink_inv c lo lv {} t r" using assms(1) by (auto simp: tree_inv_def)
  show ?thesis using keys_lower_bound [OF i assms(2)] by (simp add: min_keys_def)
qed

theorem height_is_logarithmic_witness:
  "\<exists>tt e. latched.ins_all small_config (ThreadTree_ctor small_config) [(5, 8), (6, 8), (7, 8), (8, 8), (9, 8)] = Inr tt
     \<and> height (base tt) = Suc (Suc e) \<and> 2 * 2 ^ e * 2 \<le> card (dom (tree_map (base tt)))"
proof -
  obtain tt where tt: "latched.ins_all small_config (ThreadTree_ctor small_config)
        [(5, 8), (6, 8), (7, 8), (8, 8), (9, 8)] = Inr tt" "ThreadTree_ok small_config tt"
      "tree_map (base tt) = load Map.empty [(5, 8), (6, 8), (7, 8), (8, 8), (9, 8)]"
    using latched.ins_all_law [OF ThreadTree_ctor_ok [OF example_config_ok(1) example_latch_idle(1)],
        of "[(5, 8), (6, 8), (7, 8), (8, 8), (9, 8)]"]
    by (auto simp: max_key_def NodePath_capacity_def)
  have inv: "tree_inv small_config (base tt)" using tt(2) by (simp add: ThreadTree_ok_def)
  have "card (dom (tree_map (base tt))) = 5" unfolding tt(3) load_dom by simp
  then have "\<not> height (base tt) \<le> 1" using low_tree_is_small [OF inv] by (auto simp: small_capacities)
  then obtain e where e: "height (base tt) = Suc (Suc e)" by (metis One_nat_def not_less_eq_eq Suc_le_D)
  have "(3 div 2 + 1 :: nat) = 2" "(4 div 2 :: nat) = 2" by simp_all
  then have "2 * 2 ^ e * 2 \<le> card (dom (tree_map (base tt)))"
    using height_is_logarithmic [OF inv e] unfolding small_capacities by metis
  then show ?thesis using tt(1) e by blast
qed

text \<open>
  C33. With at most \<open>2 * (I/2 + 1)^10 * (L/2)\<close> keys in the tree (more than ten to the sixteenth for the
  spinlock build) an insertion never writes behind the ten slots of its path and returns.
\<close>

theorem insert_never_overflows_path:
  assumes "ThreadTree_ok c tt" "k \<noteq> max_key"
    "card (dom (tree_map (base tt))) < 2 * (InnerNode_max_keys c div 2 + 1) ^ 10 * (LeafNode_max_items c div 2)"
  shows "\<exists>tt'. ThreadTree_insert c tt k v = Inr tt' \<and> ThreadTree_ok c tt'
    \<and> tree_map (base tt') k = Some (case tree_map (base tt) k of Some w \<Rightarrow> w | None \<Rightarrow> v)"
proof -
  have "height (base tt) \<le> Suc NodePath_capacity"
    using height_bounded [of c "base tt"] assms(1,3) by (simp add: ThreadTree_ok_def min_keys_def NodePath_capacity_def)
  then obtain tt' where "ThreadTree_insert c tt k v = Inr tt'" "ThreadTree_ok c tt'"
      "tree_map (base tt') = insert_new (tree_map (base tt)) k v"
    using latched.ins_law [OF assms(1) _ assms(2)] by blast
  then show ?thesis by (auto simp: insert_new_def split: option.splits)
qed

lemma spin_min_keys: "10 ^ 16 < min_keys spin_config 10"
  by (simp add: min_keys_def spin_capacities)

theorem insert_never_overflows_path_witness:
  "\<exists>tt'. ThreadTree_insert spin_config (ThreadTree_ctor spin_config) 3 4 = Inr tt' \<and> tree_map (base tt') 3 = Some 4"
  using insert_never_overflows_path [OF ThreadTree_ctor_ok [OF example_config_ok(2) example_latch_idle(2)], of 3 4] spin_min_keys
  by (auto simp: max_key_def spin_capacities min_keys_def)
end
