(* ===== verification/Optimistic_Lock.thy ===== *)
theory Optimistic_Lock
  imports Prelude
begin

text \<open>
  The version lock of the optimistic trees, \<^verbatim>\<open>src/src/indices/blinktree/optimistic_lock.h\<close>, first as
  functions on its atomic word, then shared by any number of threads: readers take a version, read
  the protected fields one by one and validate; writers lock by compare-and-swap, write the fields
  one by one and unlock. The interleaving of all these steps is the relation \<open>olock_step\<close>.
\<close>

unbundle bit_operations_syntax

section \<open>The lock word\<close>

type_synonym version_t = "32 word"

definition OptimisticLock_init :: version_t where
  "OptimisticLock_init = 4"

definition OptimisticLock_is_locked :: "version_t \<Rightarrow> bool" where
  "OptimisticLock_is_locked version = (version AND 2 = 2)"

definition OptimisticLock_read_valid :: "version_t \<Rightarrow> version_t result" where
  "OptimisticLock_read_valid w = (if OptimisticLock_is_locked w then Inl SpinsForever else Inr w)"

definition OptimisticLock_is_valid :: "version_t \<Rightarrow> version_t \<Rightarrow> bool" where
  "OptimisticLock_is_valid w version = (version = w)"

text \<open>The compare-and-swap of \<^verbatim>\<open>try_lock\<close>: whether it succeeded, and the word afterwards.\<close>

definition OptimisticLock_cas :: "version_t \<Rightarrow> version_t \<Rightarrow> bool \<times> version_t" where
  "OptimisticLock_cas w version = (if w = version then (True, version + 2) else (False, w))"

definition OptimisticLock_try_lock :: "version_t \<Rightarrow> (bool \<times> version_t) result" where
  "OptimisticLock_try_lock w =
     bindR (OptimisticLock_read_valid w) (\<lambda>version. Inr (OptimisticLock_cas w version))"

definition OptimisticLock_lock :: "version_t \<Rightarrow> version_t result" where
  "OptimisticLock_lock w =
     bindR (OptimisticLock_try_lock w) (\<lambda>(acquired, w'). if acquired then Inr w' else Inl SpinsForever)"

definition OptimisticLock_unlock :: "version_t \<Rightarrow> version_t" where
  "OptimisticLock_unlock w = w + 2"

lemmas olock_defs = OptimisticLock_is_locked_def OptimisticLock_read_valid_def OptimisticLock_is_valid_def
  OptimisticLock_cas_def OptimisticLock_try_lock_def OptimisticLock_lock_def OptimisticLock_unlock_def

text \<open>The word counts lock and unlock operations: it is locked after an odd number of them.\<close>

definition version_after :: "nat \<Rightarrow> version_t" where
  "version_after n = OptimisticLock_init + 2 * of_nat n"

lemma version_after_0: "version_after 0 = OptimisticLock_init"
  and version_after_Suc: "version_after (Suc n) = version_after n + 2"
  by (simp_all add: version_after_def algebra_simps)

lemma version_after_of_nat: "version_after n = of_nat (4 + 2 * n)"
  by (simp add: version_after_def OptimisticLock_init_def)

lemma locked_of_nat: "OptimisticLock_is_locked (of_nat n) \<longleftrightarrow> odd (n div 2)"
proof -
  have two: "bit (2 :: version_t) k \<longleftrightarrow> k = 1" for k
    using bit_exp_iff [where 'a = "32 word", of 1 k] by (auto simp: possible_bit_def)
  have "OptimisticLock_is_locked w \<longleftrightarrow> bit w 1" for w
  proof
    assume "OptimisticLock_is_locked w"
    then have "bit (w AND 2) 1" by (simp only: OptimisticLock_is_locked_def two)
    then show "bit w 1" by (simp add: bit_and_iff)
  next
    assume b: "bit w 1"
    have "bit (w AND 2) k = bit (2 :: version_t) k" for k using b unfolding bit_and_iff two by auto
    then show "OptimisticLock_is_locked w" unfolding OptimisticLock_is_locked_def by (rule bit_eqI)
  qed
  also have "bit (of_nat n :: version_t) 1 \<longleftrightarrow> odd (n div 2)"
  proof -
    have "bit (of_nat n :: version_t) 1 \<longleftrightarrow> bit n 1" unfolding bit_of_nat_iff by (simp add: possible_bit_def)
    then show ?thesis by (simp add: bit_iff_odd [of n])
  qed
  finally show ?thesis .
qed

lemma locked_after_iff: "OptimisticLock_is_locked (version_after n) \<longleftrightarrow> odd n"
proof -
  have "(4 + 2 * n) div 2 = 2 + n" by simp
  then show ?thesis unfolding version_after_of_nat locked_of_nat by simp
qed

lemma locked_add: "OptimisticLock_is_locked (w + 2) \<longleftrightarrow> \<not> OptimisticLock_is_locked w"
proof -
  have "w + 2 = of_nat (unat w + 2)" by simp
  then have "OptimisticLock_is_locked (w + 2) \<longleftrightarrow> odd ((unat w + 2) div 2)" by (simp only: locked_of_nat)
  also have "\<dots> \<longleftrightarrow> \<not> odd (unat w div 2)" by simp
  also have "odd (unat w div 2) \<longleftrightarrow> OptimisticLock_is_locked w" using locked_of_nat [of "unat w"] by simp
  finally show ?thesis .
qed

lemma version_after_inj:
  assumes "version_after n = version_after m" "n \<le> m" "m < n + 2 ^ 31"
  shows "n = m"
proof -
  have "(of_nat (4 + 2 * m) :: version_t) = of_nat (4 + 2 * n)" using assms(1) by (simp only: version_after_of_nat)
  then have "(4 + 2 * m) mod 2 ^ 32 = (4 + 2 * n) mod 2 ^ 32"
    unfolding word_of_nat_eq_iff take_bit_eq_mod by simp
  then have "2 ^ 32 dvd (4 + 2 * m) - (4 + 2 * n)" by (rule mod_eq_dvd_iff_nat [THEN iffD1, rotated]) (use assms(2) in simp)
  then have "2 ^ 31 dvd m - n" by (simp add: diff_mult_distrib2 [symmetric] flip: right_diff_distrib')
  moreover have "m - n < 2 ^ 31" using assms(2,3) by simp
  ultimately show ?thesis using assms(2) nat_dvd_not_less by force
qed

lemma lock_unlocked:
  assumes "\<not> OptimisticLock_is_locked w"
  shows "OptimisticLock_read_valid w = Inr w" "OptimisticLock_lock w = Inr (w + 2)"
    "\<not> OptimisticLock_is_locked (OptimisticLock_unlock (w + 2))"
  using assms locked_add [of w] locked_add [of "w + 2"]
  by (simp_all add: OptimisticLock_read_valid_def OptimisticLock_lock_def OptimisticLock_try_lock_def
      OptimisticLock_cas_def OptimisticLock_unlock_def)

section \<open>Many threads on one lock\<close>

text \<open>
  A reader remembers the version it took, how many lock operations had happened then (a ghost
  counter) and the cells it has read; a thread that wants to write remembers the version it read
  before its compare-and-swap.
\<close>

datatype olock_pc =
    Idle
  | Reading version_t nat "nat \<rightharpoonup> 64 word"
  | Accepted nat "nat \<rightharpoonup> 64 word"
  | Locking version_t
  | Writing

record olock_sys =
  lock_word :: version_t
  cells :: "nat \<Rightarrow> 64 word"
  pc :: "nat \<Rightarrow> olock_pc"
  lock_ops :: nat

definition olock_start :: "(nat \<Rightarrow> 64 word) \<Rightarrow> olock_sys" where
  "olock_start mem = \<lparr>lock_word = OptimisticLock_init, cells = mem, pc = (\<lambda>t. Idle), lock_ops = 0\<rparr>"

inductive olock_step :: "olock_sys \<Rightarrow> olock_sys \<Rightarrow> bool" where
  read_begin: "pc s t = Idle \<Longrightarrow> OptimisticLock_read_valid (lock_word s) = Inr v \<Longrightarrow>
    olock_step s (s\<lparr>pc := (pc s)(t := Reading v (lock_ops s) Map.empty)\<rparr>)"
| read_cell: "pc s t = Reading v n m \<Longrightarrow>
    olock_step s (s\<lparr>pc := (pc s)(t := Reading v n (m(i \<mapsto> cells s i)))\<rparr>)"
| validate: "pc s t = Reading v n m \<Longrightarrow>
    olock_step s (s\<lparr>pc := (pc s)(t := if OptimisticLock_is_valid (lock_word s) v then Accepted n m else Idle)\<rparr>)"
| read_end: "pc s t = Accepted n m \<Longrightarrow> olock_step s (s\<lparr>pc := (pc s)(t := Idle)\<rparr>)"
| lock_begin: "pc s t = Idle \<Longrightarrow> OptimisticLock_read_valid (lock_word s) = Inr v \<Longrightarrow>
    olock_step s (s\<lparr>pc := (pc s)(t := Locking v)\<rparr>)"
| lock_swap: "pc s t = Locking v \<Longrightarrow> OptimisticLock_cas (lock_word s) v = (True, w) \<Longrightarrow>
    olock_step s (s\<lparr>lock_word := w, lock_ops := Suc (lock_ops s), pc := (pc s)(t := Writing)\<rparr>)"
| lock_retry: "pc s t = Locking v \<Longrightarrow> OptimisticLock_cas (lock_word s) v = (False, w) \<Longrightarrow>
    olock_step s (s\<lparr>lock_word := w, pc := (pc s)(t := Idle)\<rparr>)"
| write_cell: "pc s t = Writing \<Longrightarrow> olock_step s (s\<lparr>cells := (cells s)(i := x)\<rparr>)"
| unlock: "pc s t = Writing \<Longrightarrow>
    olock_step s (s\<lparr>lock_word := OptimisticLock_unlock (lock_word s), lock_ops := Suc (lock_ops s),
      pc := (pc s)(t := Idle)\<rparr>)"

inductive olock_reach :: "(nat \<Rightarrow> 64 word) \<Rightarrow> olock_sys \<Rightarrow> bool" for mem where
  start: "olock_reach mem (olock_start mem)"
| later: "olock_reach mem s \<Longrightarrow> olock_step s s' \<Longrightarrow> olock_reach mem s'"

definition reading_ok :: "olock_sys \<Rightarrow> olock_pc \<Rightarrow> bool" where
  "reading_ok s p = (case p of
     Reading v n m \<Rightarrow> v = version_after n \<and> even n \<and> n \<le> lock_ops s
       \<and> (lock_ops s = n \<longrightarrow> (\<forall>i x. m i = Some x \<longrightarrow> cells s i = x))
   | Locking v \<Rightarrow> \<not> OptimisticLock_is_locked v
   | _ \<Rightarrow> True)"

definition olock_inv :: "olock_sys \<Rightarrow> bool" where
  "olock_inv s \<longleftrightarrow> lock_word s = version_after (lock_ops s)
     \<and> (odd (lock_ops s) \<longleftrightarrow> (\<exists>t. pc s t = Writing))
     \<and> (\<forall>t u. pc s t = Writing \<longrightarrow> pc s u = Writing \<longrightarrow> t = u)
     \<and> (\<forall>t. reading_ok s (pc s t))"

lemma olock_inv_start: "olock_inv (olock_start mem)"
  by (simp add: olock_inv_def olock_start_def reading_ok_def version_after_0)

lemma read_valid_Inr: "OptimisticLock_read_valid w = Inr v \<longleftrightarrow> v = w \<and> \<not> OptimisticLock_is_locked w"
  by (auto simp: OptimisticLock_read_valid_def)

lemma cas_True: "OptimisticLock_cas w v = (True, w') \<longleftrightarrow> w = v \<and> w' = w + 2"
  and cas_False: "OptimisticLock_cas w v = (False, w') \<longleftrightarrow> w \<noteq> v \<and> w' = w"
  by (auto simp: OptimisticLock_cas_def)

text \<open>A step that only changes what one thread remembers keeps the invariant.\<close>

lemma inv_private:
  assumes "olock_inv s" "pc s t \<noteq> Writing" "p \<noteq> Writing" "reading_ok s p"
  shows "olock_inv (s\<lparr>pc := (pc s)(t := p)\<rparr>)"
  using assms unfolding olock_inv_def reading_ok_def
  by (auto split: olock_pc.splits)

text \<open>Taking or releasing the lock invalidates every reader that is under way.\<close>

lemma reading_ok_next:
  assumes "reading_ok s p"
  shows "reading_ok (s\<lparr>lock_word := w, lock_ops := Suc (lock_ops s), pc := q\<rparr>) p"
  using assms unfolding reading_ok_def by (auto split: olock_pc.splits)

lemma olock_inv_step: "olock_step s s' \<Longrightarrow> olock_inv s \<Longrightarrow> olock_inv s'"
proof (induction rule: olock_step.induct)
  case (read_begin s t v)
  then have "v = version_after (lock_ops s)" "even (lock_ops s)"
    by (auto simp: read_valid_Inr olock_inv_def locked_after_iff)
  then show ?case using read_begin by (intro inv_private) (simp_all add: reading_ok_def)
next
  case (read_cell s t v n m i)
  then have "reading_ok s (Reading v n m)" by (metis olock_inv_def)
  then show ?case using read_cell by (intro inv_private) (auto simp: reading_ok_def)
next
  case (lock_begin s t v)
  then show ?case by (intro inv_private) (simp_all add: reading_ok_def read_valid_Inr)
next
  case (lock_swap s t v w)
  then have v: "v = lock_word s" "w = lock_word s + 2" "\<not> OptimisticLock_is_locked v"
    unfolding cas_True olock_inv_def reading_ok_def by (auto split: olock_pc.splits)
  then have "even (lock_ops s)" using lock_swap.prems by (simp add: olock_inv_def locked_after_iff)
  then have none: "pc s u \<noteq> Writing" for u using lock_swap.prems by (auto simp: olock_inv_def)
  have "reading_ok (s\<lparr>lock_word := w, lock_ops := Suc (lock_ops s), pc := (pc s)(t := Writing)\<rparr>) p"
    if "p = Writing \<or> (\<exists>u. p = pc s u)" for p
    using that reading_ok_next lock_swap.prems by (auto simp: olock_inv_def reading_ok_def)
  then show ?case
    using lock_swap.prems v none \<open>even (lock_ops s)\<close> by (auto simp: olock_inv_def version_after_Suc)
next
  case (write_cell s t i x)
  then have "odd (lock_ops s)" by (auto simp: olock_inv_def)
  then have "reading_ok (s\<lparr>cells := (cells s)(i := x)\<rparr>) (pc s u)" for u
    using write_cell.prems by (auto simp: olock_inv_def reading_ok_def split: olock_pc.splits)
  then show ?case using write_cell.prems by (simp add: olock_inv_def)
next
  case (unlock s t)
  then have "odd (lock_ops s)" "\<forall>u. pc s u = Writing \<longrightarrow> u = t" by (auto simp: olock_inv_def)
  moreover have "reading_ok (s\<lparr>lock_word := w, lock_ops := Suc (lock_ops s), pc := (pc s)(t := Idle)\<rparr>) p"
    if "p = Idle \<or> (\<exists>u. p = pc s u)" for p w
    using that reading_ok_next unlock.prems by (auto simp: olock_inv_def reading_ok_def)
  ultimately show ?case
    using unlock.prems by (auto simp: olock_inv_def OptimisticLock_unlock_def version_after_Suc)
qed (auto intro!: inv_private simp: reading_ok_def cas_False)

lemma olock_inv_reach: "olock_reach mem s \<Longrightarrow> olock_inv s"
  by (induction rule: olock_reach.induct) (auto intro: olock_inv_start olock_inv_step)

text \<open>
  C10. At most one thread is ever inside the section between \<^verbatim>\<open>lock\<close> and \<^verbatim>\<open>unlock\<close>, however the
  loads, compare-and-swaps and stores of all threads interleave.
\<close>

theorem optimistic_lock_excludes_writers:
  assumes "olock_reach mem s" "pc s t = Writing" "pc s u = Writing"
  shows "t = u"
  using olock_inv_reach [OF assms(1)] assms(2,3) unfolding olock_inv_def by blast

theorem optimistic_lock_excludes_writers_witness:
  "\<exists>s. olock_reach (\<lambda>i. 0) s \<and> pc s 0 = Writing \<and> (\<forall>u. pc s u = Writing \<longrightarrow> 0 = u)"
proof -
  let ?s0 = "olock_start (\<lambda>i. 0)"
  let ?s1 = "?s0\<lparr>pc := (pc ?s0)(0 := Locking 4)\<rparr>"
  let ?s2 = "?s1\<lparr>lock_word := 6, lock_ops := Suc (lock_ops ?s1), pc := (pc ?s1)(0 := Writing)\<rparr>"
  have "olock_step ?s0 ?s1"
    by (rule lock_begin) (simp_all add: olock_start_def OptimisticLock_init_def olock_defs)
  moreover have "olock_step ?s1 ?s2"
    by (rule lock_swap [where v = 4]) (simp_all add: olock_start_def OptimisticLock_init_def olock_defs)
  ultimately have r: "olock_reach (\<lambda>i. 0) ?s2" using start later by blast
  moreover have w: "pc ?s2 0 = Writing" by simp
  ultimately show ?thesis using optimistic_lock_excludes_writers [OF r w] by blast
qed

text \<open>
  C9. A reader whose version is still valid has seen no torn state: every cell it read still has
  the value it read and nobody is writing, provided fewer than two to the 31st lock operations
  happened since it took its version (after that many the 32-bit version comes round again).
\<close>

theorem optimistic_validation_is_sound:
  assumes "olock_reach mem s" "pc s t = Reading v n m" "OptimisticLock_is_valid (lock_word s) v"
    and "lock_ops s < n + 2 ^ 31"
  shows "(\<forall>i x. m i = Some x \<longrightarrow> cells s i = x) \<and> (\<forall>u. pc s u \<noteq> Writing)"
proof -
  have inv: "olock_inv s" using olock_inv_reach [OF assms(1)] .
  then have r: "v = version_after n" "even n" "n \<le> lock_ops s"
      "lock_ops s = n \<longrightarrow> (\<forall>i x. m i = Some x \<longrightarrow> cells s i = x)"
    using assms(2) unfolding olock_inv_def reading_ok_def by (auto split: olock_pc.splits)
  have "version_after n = version_after (lock_ops s)"
    using assms(3) r(1) inv by (simp add: OptimisticLock_is_valid_def olock_inv_def)
  then have "n = lock_ops s" using version_after_inj r(3) assms(4) by blast
  then show ?thesis using r inv unfolding olock_inv_def by blast
qed

theorem optimistic_validation_is_sound_witness:
  "\<exists>s v n m. olock_reach (\<lambda>i. 9) s \<and> pc s 1 = Reading v n m \<and> m 3 = Some 9 \<and> cells s 3 = 9
     \<and> (\<forall>u. pc s u \<noteq> Writing)"
proof -
  let ?s0 = "olock_start (\<lambda>i. 9)"
  let ?s1 = "?s0\<lparr>pc := (pc ?s0)(1 := Reading 4 (lock_ops ?s0) Map.empty)\<rparr>"
  let ?s2 = "?s1\<lparr>pc := (pc ?s1)(1 := Reading 4 (lock_ops ?s0) (Map.empty(3 \<mapsto> cells ?s1 3)))\<rparr>"
  have "olock_step ?s0 ?s1"
    by (rule read_begin) (simp_all add: olock_start_def OptimisticLock_init_def olock_defs)
  moreover have "olock_step ?s1 ?s2" by (rule read_cell) simp
  ultimately have r: "olock_reach (\<lambda>i. 9) ?s2" using start later by blast
  have p: "pc ?s2 1 = Reading 4 (lock_ops ?s0) (Map.empty(3 \<mapsto> cells ?s1 3))" by simp
  have "(\<forall>i x. (Map.empty(3 \<mapsto> cells ?s1 3)) i = Some x \<longrightarrow> cells ?s2 i = x) \<and> (\<forall>u. pc ?s2 u \<noteq> Writing)"
    by (rule optimistic_validation_is_sound [OF r p])
      (simp_all add: olock_start_def OptimisticLock_init_def olock_defs)
  then show ?thesis using r p by (fastforce simp: olock_start_def)
qed

end
