(* ===== verification/Optimistic_Tree.thy ===== *)
theory Optimistic_Tree
  imports BLink_Insert Tree_Walk Optimistic_Lock Epoch_Manager
begin

text \<open>
  The optimistic thread tree: \<^verbatim>\<open>src/src/indices/blinktree/thread/optimistic/thread_tree.h\<close>,
  \<^verbatim>\<open>thread_tree.cpp\<close> and \<^verbatim>\<open>optimistic_node_base.h\<close>. The latch of a node is its version word; the
  \<^verbatim>\<open>remove_epoch\<close> of a node is kept by the epoch manager's record. As for the latched tree, an
  operation is the effect of one thread without interference, with every call on versions and
  epochs; a wait or a retry that nothing can end is \<open>SpinsForever\<close>. What validation guarantees when
  other threads do interfere is shown in \<open>Optimistic_Lock\<close>.
\<close>

section \<open>The model\<close>

record optimistic_tree =
  obase :: "version_t tree"
  epochs :: epoch_manager
  root_lock :: bool

definition OptimisticTree_ctor :: "version_t config \<Rightarrow> nat \<Rightarrow> addr \<Rightarrow> optimistic_tree" where
  "OptimisticTree_ctor c n stub = \<lparr>obase = Tree_ctor c, epochs = EpochManager_ctor n stub, root_lock = Spinlock_init\<rparr>"

definition header_version :: "version_t tree \<Rightarrow> ptr \<Rightarrow> version_t result" where
  "header_version t p = bindR (deref t p) (\<lambda>_. OptimisticLock_read_valid (latches t (the p)))"

definition header_is_valid :: "version_t tree \<Rightarrow> ptr \<Rightarrow> version_t \<Rightarrow> bool result" where
  "header_is_valid t p version = bindR (deref t p) (\<lambda>_. Inr (OptimisticLock_is_valid (latches t (the p)) version))"

definition header_acquire :: "version_t tree \<Rightarrow> ptr \<Rightarrow> version_t tree result" where
  "header_acquire t p = bindR (deref t p) (\<lambda>_. bindR (OptimisticLock_lock (latches t (the p)))
     (\<lambda>w. Inr (t\<lparr>latches := (latches t)(the p := w)\<rparr>)))"

definition header_release :: "version_t tree \<Rightarrow> ptr \<Rightarrow> version_t tree result" where
  "header_release t p = bindR (deref t p)
     (\<lambda>_. Inr (t\<lparr>latches := (latches t)(the p := OptimisticLock_unlock (latches t (the p)))\<rparr>))"

fun opt_locate_loop ::
  "nat \<Rightarrow> version_t tree \<Rightarrow> ptr \<Rightarrow> version_t \<Rightarrow> key_type \<Rightarrow> node_path option \<Rightarrow> (ptr \<times> node_path option) result" where
  "opt_locate_loop 0 t current version key path = Inl FuelExhausted"
| "opt_locate_loop (Suc fuel) t current version key path =
     bindR (deref t current) (\<lambda>n.
     if \<not> is_leaf n
     then let right = right_sibling n
          in bindR (Node_child n key) (\<lambda>next_node.
             bindR (header_is_valid t current version) (\<lambda>valid.
             bindR (if valid
                    then bindR (if next_node \<noteq> right then push_path path current else Inr path)
                           (\<lambda>path'. Inr (next_node, path'))
                    else Inr (current, path)) (\<lambda>(current', path').
             bindR (header_version t current') (\<lambda>version'.
             opt_locate_loop fuel t current' version' key path'))))
     else Inr (current, path))"

definition OptimisticTree_locate_leaf ::
  "version_t tree \<Rightarrow> key_type \<Rightarrow> node_path option \<Rightarrow> (ptr \<times> node_path option) result" where
  "OptimisticTree_locate_leaf t key path =
     bindR (header_version t (root_node t)) (\<lambda>version. opt_locate_loop (height t) t (root_node t) version key path)"

text \<open>The loop to the right that \<^verbatim>\<open>insert\<close>, \<^verbatim>\<open>update\<close> and \<^verbatim>\<open>find\<close> start with.\<close>

fun opt_leaf_right :: "nat \<Rightarrow> version_t tree \<Rightarrow> ptr \<Rightarrow> version_t \<Rightarrow> key_type \<Rightarrow> (ptr \<times> version_t) result" where
  "opt_leaf_right 0 t leaf version key = Inl FuelExhausted"
| "opt_leaf_right (Suc fuel) t leaf version key =
     bindR (deref t leaf) (\<lambda>n.
     if high_key n \<le> key \<and> right_sibling n \<noteq> None
     then let next_node = right_sibling n
          in bindR (header_is_valid t leaf version) (\<lambda>valid.
             let leaf' = (if valid then next_node else leaf)
             in bindR (header_version t leaf') (\<lambda>version'. opt_leaf_right fuel t leaf' version' key))
     else Inr (leaf, version))"

definition OptimisticTree_insert_into_leaf ::
  "version_t config \<Rightarrow> version_t tree \<Rightarrow> ptr \<Rightarrow> key_type \<Rightarrow> value_type \<Rightarrow> ((ptr \<times> key_type) \<times> version_t tree) result" where
  "OptimisticTree_insert_into_leaf c t leaf_node key value =
     bindR (deref t leaf_node) (\<lambda>n.
     bindR (Node_index n key) (\<lambda>index.
     bindR (if index < nsize n then bindR (node_key n index) (\<lambda>k. Inr (k = key)) else Inr False)
       (\<lambda>present.
     if present then Inr ((None, 0), t)
     else if \<not> is_full c n
     then bindR (Node_insert_value n index value key) (\<lambda>n'. Inr ((None, 0), store t leaf_node n'))
     else bindR (Tree_split_leaf_node c t leaf_node key value) (\<lambda>(right_leaf, t').
          bindR (deref t' right_leaf) (\<lambda>m.
          bindR (node_key m 0) (\<lambda>k. Inr ((right_leaf, k), t')))))))"

definition OptimisticTree_insert_into_inner ::
  "version_t config \<Rightarrow> version_t tree \<Rightarrow> ptr \<Rightarrow> key_type \<Rightarrow> ptr \<Rightarrow> ((ptr \<times> key_type) \<times> version_t tree) result" where
  "OptimisticTree_insert_into_inner c t inner_node key separator =
     bindR (deref t inner_node) (\<lambda>n.
     if \<not> is_full c n
     then bindR (bindR (Node_index n key) (\<lambda>index. Node_insert_separator n index separator key))
            (\<lambda>n'. Inr ((None, 0), store t inner_node n'))
     else Tree_split_inner_node c t inner_node key separator)"

text \<open>The loop over the right siblings of an acquired parent.\<close>

fun opt_parent_right :: "nat \<Rightarrow> version_t tree \<Rightarrow> ptr \<Rightarrow> key_type \<Rightarrow> (ptr \<times> version_t tree) result" where
  "opt_parent_right 0 t par key = Inl FuelExhausted"
| "opt_parent_right (Suc fuel) t par key =
     bindR (deref t par) (\<lambda>n.
     if high_key n \<le> key
     then let right = right_sibling n
          in bindR (header_release t par) (\<lambda>t1.
             bindR (header_acquire t1 right) (\<lambda>t2. opt_parent_right fuel t2 right key))
     else Inr (par, t))"

function opt_propagate ::
  "version_t config \<Rightarrow> version_t tree \<Rightarrow> ptr \<times> key_type \<Rightarrow> node_path \<Rightarrow> ((ptr \<times> key_type) \<times> version_t tree) result" where
  "opt_propagate c t up path =
     (if fst up \<noteq> None \<and> \<not> NodePath_is_empty path
      then bindR (NodePath_pop path) (\<lambda>(par, path').
           bindR (header_acquire t par) (\<lambda>t1.
           bindR (opt_parent_right (next_addr t1) t1 par (snd up)) (\<lambda>(par', t2).
           bindR (OptimisticTree_insert_into_inner c t2 par' (snd up) (fst up)) (\<lambda>(up', t3).
           bindR (header_release t3 par') (\<lambda>t4.
           opt_propagate c t4 up' path')))))
      else Inr (up, t))"
  by pat_completeness auto
termination
  by (relation "measure (\<lambda>(c, t, up, path). path_counter path)")
    (auto simp: NodePath_pop_def bindR_eq_Inr split: if_splits)

declare opt_propagate.simps [simp del]

text \<open>Joining the epoch at the start and leaving it at every return is the \<^verbatim>\<open>EpochGuard\<close>.\<close>

definition OptimisticTree_insert ::
  "version_t config \<Rightarrow> nat \<Rightarrow> optimistic_tree \<Rightarrow> key_type \<Rightarrow> value_type \<Rightarrow> optimistic_tree result" where
  "OptimisticTree_insert c thread_id ot key value =
     bindR (EpochGuard_ctor (epochs ot) thread_id) (\<lambda>em.
     bindR (OptimisticTree_locate_leaf (obase ot) key (Some NodePath_init)) (\<lambda>(leaf0, path).
     let t = obase ot
     in bindR (header_version t leaf0) (\<lambda>version.
        bindR (header_is_valid t leaf0 version) (\<lambda>valid.
        if \<not> valid then Inl SpinsForever
        else bindR (opt_leaf_right (next_addr t) t leaf0 version key) (\<lambda>(leaf, _).
             bindR (header_acquire t leaf) (\<lambda>t1.
             bindR (OptimisticTree_insert_into_leaf c t1 leaf key value) (\<lambda>(up, t2).
             bindR (header_release t2 leaf) (\<lambda>t3.
             bindR (opt_propagate c t3 up (the path)) (\<lambda>(up', t4).
             bindR (if fst up' \<noteq> None
                    then bindR (Spinlock_lock (root_lock ot)) (\<lambda>l.
                         bindR (Tree_create_new_root c t4 (root_node t4) (fst up') (snd up')) (\<lambda>t5.
                         Inr (t5, Spinlock_unlock l)))
                    else Inr (t4, root_lock ot)) (\<lambda>(t6, l).
             bindR (EpochGuard_dtor em thread_id) (\<lambda>em'.
             Inr \<lparr>obase = t6, epochs = em', root_lock = l\<rparr>)))))))))))"

definition OptimisticTree_update ::
  "nat \<Rightarrow> optimistic_tree \<Rightarrow> key_type \<Rightarrow> value_type \<Rightarrow> optimistic_tree result" where
  "OptimisticTree_update thread_id ot key value =
     bindR (EpochGuard_ctor (epochs ot) thread_id) (\<lambda>em.
     bindR (OptimisticTree_locate_leaf (obase ot) key (Some NodePath_init)) (\<lambda>(leaf0, path).
     let t = obase ot
     in bindR (header_version t leaf0) (\<lambda>version0.
        bindR (opt_leaf_right (next_addr t) t leaf0 version0 key) (\<lambda>(leaf, version).
        bindR (header_is_valid t leaf version) (\<lambda>valid.
        if \<not> valid then Inl SpinsForever
        else bindR (header_acquire t leaf) (\<lambda>t1.
             bindR (deref t1 leaf) (\<lambda>n.
             bindR (Node_index n key) (\<lambda>index.
             bindR (node_key n index) (\<lambda>found_key.
             bindR (if found_key = key then node_set_value n index value else Inr n) (\<lambda>n'.
             bindR (header_release (store t1 leaf n') leaf) (\<lambda>t2.
             bindR (EpochGuard_dtor em thread_id) (\<lambda>em'.
             Inr (ot\<lparr>obase := t2, epochs := em'\<rparr>)))))))))))))"

definition OptimisticTree_find :: "nat \<Rightarrow> optimistic_tree \<Rightarrow> key_type \<Rightarrow> (value_type \<times> optimistic_tree) result" where
  "OptimisticTree_find thread_id ot key =
     bindR (EpochGuard_ctor (epochs ot) thread_id) (\<lambda>em.
     bindR (OptimisticTree_locate_leaf (obase ot) key None) (\<lambda>(leaf0, path).
     let t = obase ot
     in bindR (header_version t leaf0) (\<lambda>version0.
        bindR (opt_leaf_right (next_addr t) t leaf0 version0 key) (\<lambda>(leaf, version).
        bindR (deref t leaf) (\<lambda>n.
        bindR (Node_index n key) (\<lambda>index.
        bindR (node_key n index) (\<lambda>found_key.
        bindR (node_value n index) (\<lambda>value.
        bindR (header_is_valid t leaf version) (\<lambda>valid.
        if \<not> valid then Inl SpinsForever
        else bindR (EpochGuard_dtor em thread_id) (\<lambda>em'.
             Inr (if found_key = key then value else 0, ot\<lparr>epochs := em'\<rparr>)))))))))))"

text \<open>
  The destructor hands every node to the epoch manager, whose own destructor frees them. Unlike
  \<^verbatim>\<open>~Node\<close>, the recursion does not test separators for null.
\<close>

fun reclaim_node :: "nat \<Rightarrow> version_t tree \<Rightarrow> epoch_manager \<Rightarrow> ptr \<Rightarrow> epoch_manager result"
and reclaim_separators :: "nat \<Rightarrow> version_t tree \<Rightarrow> epoch_manager \<Rightarrow> ptr list \<Rightarrow> epoch_manager result" where
  "reclaim_node 0 t em p = Inl FuelExhausted"
| "reclaim_node (Suc fuel) t em p =
     bindR (deref t p) (\<lambda>n.
     bindR (if \<not> is_leaf n
            then if nsize n < length (seps n) then reclaim_separators fuel t em (live_seps n) else Inl OutOfBounds
            else Inr em) (\<lambda>em'.
     Inr (EpochManager_add_to_garbage em' (the p))))"
| "reclaim_separators fuel t em [] = Inr em"
| "reclaim_separators fuel t em (s # ss) = bindR (reclaim_node fuel t em s) (\<lambda>em'. reclaim_separators fuel t em' ss)"

definition OptimisticTree_dtor :: "nat \<Rightarrow> optimistic_tree \<Rightarrow> epoch_manager result" where
  "OptimisticTree_dtor fuel ot =
     bindR (reclaim_node (height (obase ot)) (obase ot) (epochs ot) (root_node (obase ot))) (\<lambda>em.
     EpochManager_dtor fuel em)"

section \<open>Versions\<close>

definition unlocked :: "version_t tree \<Rightarrow> bool" where
  "unlocked t \<longleftrightarrow> (\<forall>a. \<not> OptimisticLock_is_locked (latches t a))"

lemma header_read:
  assumes "heap t a = Some n" "unlocked t"
  shows "header_version t (Some a) = Inr (latches t a)" "header_is_valid t (Some a) (latches t a) = Inr True"
  using assms lock_unlocked(1) [of "latches t a"]
  by (simp_all add: header_version_def header_is_valid_def unlocked_def OptimisticLock_is_valid_def)

lemma header_acquire_eq:
  assumes "heap t a = Some n" "unlocked t"
  shows "header_acquire t (Some a) = Inr (locked t a (latches t a + 2))"
  using assms lock_unlocked(2) [of "latches t a"] by (simp add: header_acquire_def unlocked_def locked_def)

lemma header_release_step:
  assumes fr: "frame c a (locked t a (latches t a + 2)) t'" and u: "unlocked t"
    and c: "\<not> OptimisticLock_is_locked (latch_init c)"
  shows "header_release t' (Some a) = Inr (locked t' a (latches t a + 4))" "unlocked (locked t' a (latches t a + 4))"
proof -
  have at: "heap t' a \<noteq> None" "latches t' a = latches t a + 2" using fr by (simp_all add: frame_def)
  have "latches t' b \<in> {latches t b, latch_init c}" if "b \<noteq> a" for b using fr that by (auto simp: frame_def)
  then have "\<not> OptimisticLock_is_locked (latches t' b)" if "b \<noteq> a" for b
    using u c that unfolding unlocked_def by (metis insertE singletonD)
  moreover have "\<not> OptimisticLock_is_locked (latches t a + 4)"
    using lock_unlocked(3) [of "latches t a"] u by (simp add: unlocked_def OptimisticLock_unlock_def add.assoc)
  ultimately show "unlocked (locked t' a (latches t a + 4))" by (simp add: unlocked_def)
  show "header_release t' (Some a) = Inr (locked t' a (latches t a + 4))"
    using at by (auto simp: header_release_def OptimisticLock_unlock_def locked_def add.assoc)
qed

section \<open>Reaching the leaf\<close>

lemma opt_locate_loop_spec:
  assumes i: "blink_inv c lo lv {} t r" and u: "unlocked t"
    and room: "lv r \<le> NodePath_capacity \<or> path = None"
    and a: "heap t a = Some n" "lo a \<le> k" "k < high_key n" and fuel: "lv a < fuel"
    and p: "path_is path qs" "path_covers lo lv (heap t) r k (lv a) qs" "length qs + lv a = lv r"
  shows "\<exists>b m path' qs'. opt_locate_loop fuel t (Some a) (latches t a) k path = Inr (Some b, path')
    \<and> heap t b = Some m \<and> is_leaf m \<and> lo b \<le> k \<and> k < high_key m
    \<and> (path' = None \<longleftrightarrow> path = None) \<and> path_is path' qs' \<and> path_covers lo lv (heap t) r k 0 qs'"
  using assms(3-)
proof (induction fuel arbitrary: a n path qs)
  case (Suc fuel)
  note D = invD [OF i]
  have leaf_iff: "is_leaf n \<longleftrightarrow> lv a = 0" using contentD(1) [OF D(10) Suc.prems(2)] .
  show ?case
  proof (cases "is_leaf n")
    case True
    then show ?thesis using Suc.prems leaf_iff by auto
  next
    case False
    obtain b m where b: "Node_child n k = Inr (Some b)" "heap t b = Some m" "lo b \<le> k" "k < high_key m" "Suc (lv b) = lv a"
      using child_covers [OF i Suc.prems(2) False Suc.prems(3,4)] .
    have ne: "Some b \<noteq> right_sibling n"
      using chainD(3) [OF D(8) Suc.prems(2), of b] b(5) by auto
    have cap: "length qs < NodePath_capacity \<or> path = None" using Suc.prems(1,8) b(5) by auto
    obtain path' where path': "push_path path (Some a) = Inr path'" "path_is path' (a # qs)"
      "path' = None \<longleftrightarrow> path = None" using push_path_is [OF Suc.prems(6) cap] .
    have eq: "opt_locate_loop (Suc fuel) t (Some a) (latches t a) k path = opt_locate_loop fuel t (Some b) (latches t b) k path'"
      using Suc.prems(2) False b(1,2) ne path'(1) header_read [OF Suc.prems(2) u] header_read(1) [OF b(2) u] by simp
    have "path_covers lo lv (heap t) r k (lv b) (a # qs)"
      using Suc.prems(2,3,4,7) b(5) by (auto simp: covers_def)
    from Suc.IH [OF _ b(2-4) _ path'(2) this] show ?thesis
      unfolding eq using path'(3) Suc.prems(1,5,8) b(5) by auto
  qed
qed simp

lemma opt_locate_spec:
  assumes i: "blink_inv c lo lv {} t r" and u: "unlocked t" and k: "k \<noteq> max_key"
    and room: "height t \<le> Suc NodePath_capacity \<or> path = None" and p: "path_is path []"
  obtains b n path' qs where "OptimisticTree_locate_leaf t k path = Inr (Some b, path')"
    "heap t b = Some n" "is_leaf n" "lo b \<le> k" "k < high_key n"
    "path \<noteq> None \<Longrightarrow> path' \<noteq> None" "path_is path' qs" "path_covers lo lv (heap t) r k 0 qs"
proof -
  note D = invD [OF i]
  obtain m where m: "heap t r = Some m" using D(2) by blast
  have "k < high_key m" using root_high [OF i m] k by (simp add: less_max_key)
  then have "\<exists>b n path' qs. opt_locate_loop (height t) t (Some r) (latches t r) k path = Inr (Some b, path')
    \<and> heap t b = Some n \<and> is_leaf n \<and> lo b \<le> k \<and> k < high_key n
    \<and> (path' = None \<longleftrightarrow> path = None) \<and> path_is path' qs \<and> path_covers lo lv (heap t) r k 0 qs"
    using opt_locate_loop_spec [OF i u _ m _ _ _ p, of k "height t"] D(3,4) room by simp
  then obtain b n path' qs where "opt_locate_loop (height t) t (Some r) (latches t r) k path = Inr (Some b, path')"
      "heap t b = Some n" "is_leaf n" "lo b \<le> k" "k < high_key n" "path \<noteq> None \<Longrightarrow> path' \<noteq> None" "path_is path' qs"
      "path_covers lo lv (heap t) r k 0 qs" by blast
  then show thesis using that header_read(1) [OF m u] by (simp add: OptimisticTree_locate_leaf_def D(1))
qed

lemma opt_leaf_right_stays:
  assumes "heap t b = Some n" "k < high_key n" "b < next_addr t"
  shows "opt_leaf_right (next_addr t) t (Some b) v k = Inr (Some b, v)"
  using assms by (cases "next_addr t") auto

section \<open>Inserting\<close>

text \<open>The two insertion steps are those of the latched tree.\<close>

lemma opt_insert_steps:
  "OptimisticTree_insert_into_leaf = ThreadTree_insert_into_leaf"
  "OptimisticTree_insert_into_inner = ThreadTree_insert_into_inner"
  by (simp_all add: fun_eq_iff OptimisticTree_insert_into_leaf_def ThreadTree_insert_into_leaf_def
      OptimisticTree_insert_into_inner_def ThreadTree_insert_into_inner_def)

lemma opt_propagate_spec:
  assumes c: "config_ok c" "\<not> OptimisticLock_is_locked (latch_init c)" and out: "outcome c qs r up t" and u: "unlocked t"
    and p: "path_ok path" "path_stack path = map Some qs"
  shows "\<exists>up' t'. opt_propagate c t up path = Inr (up', t') \<and> outcome c [] r up' t' \<and> unlocked t'
    \<and> tree_map t' = tree_map t \<and> root_node t' = root_node t \<and> height t' = height t"
  using out u p
proof (induction qs arbitrary: up t path)
  case Nil
  then have "opt_propagate c t up path = Inr (up, t)" by (simp add: opt_propagate.simps path_empty_iff)
  then show ?case using Nil by simp
next
  case (Cons q qs)
  show ?case
  proof (cases "fst up")
    case None
    then have "opt_propagate c t up path = Inr (up, t)" by (simp add: opt_propagate.simps)
    moreover have "outcome c [] r up t" using Cons.prems(1) None by (auto simp: outcome_def)
    ultimately show ?thesis using Cons.prems(2) by simp
  next
    case (Some s0)
    then obtain lo lv s where up: "up = (Some s, lo s)" and i: "blink_inv c lo lv {s} t r"
      and pc: "path_covers lo lv (heap t) r (lo s) (lv s) (q # qs)"
      using Cons.prems(1) by (auto simp: outcome_def)
    obtain n where q: "heap t q = Some n" "lo q \<le> lo s" "lo s < high_key n" using pc by (auto simp: covers_def)
    obtain path' where path': "NodePath_pop path = Inr (Some q, path')" "path_ok path'" "path_stack path' = map Some qs"
      using path_pop [OF Cons.prems(3,4) [unfolded list.map]] by metis
    let ?t1 = "locked t q (latches t q + 2)"
    have "next_addr t \<noteq> 0" using invD(6) [OF i q(1)] by simp
    then have mr: "opt_parent_right (next_addr t) ?t1 (Some q) (lo s) = Inr (Some q, ?t1)"
      using q by (cases "next_addr t") auto
    obtain up' t' where step: "ThreadTree_insert_into_inner c ?t1 (Some q) (lo s) (Some s) = Inr (up', t')"
        "outcome c qs r up' t'" "frame c q ?t1 t'" "tree_map t' = tree_map t"
      using insert_into_inner_spec [OF _ c(1), of lo lv s ?t1 r q qs] i pc by auto
    note rel = header_release_step [OF step(3) Cons.prems(2) c(2)]
    have "\<not> NodePath_is_empty path" using Cons.prems(3,4) by (simp add: path_empty_iff)
    then have "opt_propagate c t up path = opt_propagate c (locked t' q (latches t q + 4)) up' path'"
      using up path'(1) header_acquire_eq [OF q(1) Cons.prems(2)] mr step(1) rel(1)
      by (subst opt_propagate.simps) (simp add: opt_insert_steps)
    then show ?thesis using Cons.IH [OF _ rel(2) path'(2,3), of up'] step(2-4) by (simp add: frame_def)
  qed
qed

definition OptimisticTree_ok :: "version_t config \<Rightarrow> nat \<Rightarrow> optimistic_tree \<Rightarrow> bool" where
  "OptimisticTree_ok c thread_id ot \<longleftrightarrow> config_ok c \<and> \<not> OptimisticLock_is_locked (latch_init c)
     \<and> tree_inv c (obase ot) \<and> unlocked (obase ot) \<and> \<not> root_lock ot \<and> thread_id < length (local_epochs (epochs ot))"

text \<open>The epoch guard succeeds for a registered thread and touches only its local epoch.\<close>

lemma guard_ctor:
  assumes "thread_id < length (local_epochs em)"
  obtains em' where "EpochGuard_ctor em thread_id = Inr em'" "length (local_epochs em') = length (local_epochs em)"
  using assms that by (simp add: EpochGuard_ctor_def EpochManager_join_epoch_def aset_def)

lemma guard_dtor:
  assumes "thread_id < length (local_epochs em)"
  obtains em' where "EpochGuard_dtor em thread_id = Inr em'" "length (local_epochs em') = length (local_epochs em)"
  using assms that by (simp add: EpochGuard_dtor_def EpochManager_leave_epoch_def aset_def)

lemma guard:
  assumes "OptimisticTree_ok c thread_id ot"
  obtains em em' where "EpochGuard_ctor (epochs ot) thread_id = Inr em" "EpochGuard_dtor em thread_id = Inr em'"
    "thread_id < length (local_epochs em')"
proof -
  have id: "thread_id < length (local_epochs (epochs ot))" using assms by (simp add: OptimisticTree_ok_def)
  obtain em where em: "EpochGuard_ctor (epochs ot) thread_id = Inr em" "length (local_epochs em) = length (local_epochs (epochs ot))"
    using guard_ctor [OF id] .
  obtain em' where "EpochGuard_dtor em thread_id = Inr em'" "length (local_epochs em') = length (local_epochs em)"
    using guard_dtor [of thread_id em] em(2) id by auto
  then show thesis using that em id by simp
qed

lemma opt_insert_spec:
  assumes ok: "OptimisticTree_ok c thread_id ot" and h: "height (obase ot) \<le> Suc NodePath_capacity" and k: "k \<noteq> max_key"
  shows "\<exists>ot'. OptimisticTree_insert c thread_id ot k v = Inr ot' \<and> OptimisticTree_ok c thread_id ot'
    \<and> tree_map (obase ot') = insert_new (tree_map (obase ot)) k v \<and> height (obase ot') \<le> Suc (height (obase ot))"
proof -
  let ?t = "obase ot"
  obtain lo lv r where i: "blink_inv c lo lv {} ?t r" using ok by (auto simp: OptimisticTree_ok_def tree_inv_def)
  have c: "config_ok c" "\<not> OptimisticLock_is_locked (latch_init c)" and u: "unlocked ?t" and unl: "\<not> root_lock ot"
    using ok by (simp_all add: OptimisticTree_ok_def)
  obtain em em' where g: "EpochGuard_ctor (epochs ot) thread_id = Inr em" "EpochGuard_dtor em thread_id = Inr em'"
    "thread_id < length (local_epochs em')" using guard [OF ok] .
  have room: "height ?t \<le> Suc NodePath_capacity \<or> Some NodePath_init = None" using h by simp
  obtain b n path qs where loc: "OptimisticTree_locate_leaf ?t k (Some NodePath_init) = Inr (Some b, path)"
      "heap ?t b = Some n" "is_leaf n" "lo b \<le> k" "k < high_key n" "path \<noteq> None" "path_is path qs"
      "path_covers lo lv (heap ?t) r k 0 qs"
    using opt_locate_spec [OF i u k room path_is_init] by (metis option.discI)
  obtain p where path: "path = Some p" "path_ok p" "path_stack p = map Some qs" using loc(6,7) by (auto simp: path_is_def)
  let ?t1 = "locked ?t b (latches ?t b + 2)"
  obtain up t2 where step: "ThreadTree_insert_into_leaf c ?t1 (Some b) k v = Inr (up, t2)"
      "outcome c qs r up t2" "frame c b ?t1 t2" "tree_map t2 = insert_new (tree_map ?t) k v"
    using insert_into_leaf_spec [of c lo lv ?t1 r b n k qs v] i c(1) loc(2-5,8) by auto
  note rel = header_release_step [OF step(3) u c(2)]
  obtain up' t4 where pr: "opt_propagate c (locked t2 b (latches ?t b + 4)) up p = Inr (up', t4)"
      "outcome c [] r up' t4" "unlocked t4" "tree_map t4 = tree_map t2" "root_node t4 = root_node ?t" "height t4 = height ?t"
    using opt_propagate_spec [OF c, of qs r up "locked t2 b (latches ?t b + 4)" p] step(2,3) rel(2) path
    by (auto simp: frame_def)
  have eq: "OptimisticTree_insert c thread_id ot k v =
      bindR (if fst up' \<noteq> None
             then bindR (Spinlock_lock (root_lock ot)) (\<lambda>l.
                  bindR (Tree_create_new_root c t4 (root_node t4) (fst up') (snd up')) (\<lambda>t5. Inr (t5, Spinlock_unlock l)))
             else Inr (t4, root_lock ot)) (\<lambda>(t6, l). Inr \<lparr>obase = t6, epochs = em', root_lock = l\<rparr>)"
    unfolding OptimisticTree_insert_def g(1) bindR_Inr loc(1) split_conv Let_def header_read [OF loc(2) u]
      opt_leaf_right_stays [OF loc(2,5) invD(6) [OF i loc(2)]] header_acquire_eq [OF loc(2) u] opt_insert_steps
      step(1) rel(1) path(1) option.sel pr(1) g(2) not_True_eq_False if_False by (rule refl)
  consider (finished) lo lv where "up' = (None, 0)" "blink_inv c lo lv {} t4 r"
    | (root) lo lv s where "up' = (Some s, lo s)" "blink_inv c lo lv {s} t4 r" "lv s = lv r"
    using pr(2) by (auto simp: outcome_def)
  then show ?thesis
  proof cases
    case finished
    then show ?thesis using pr(3,4,6) unl step(4) c g(3) by (auto simp: eq OptimisticTree_ok_def tree_inv_def)
  next
    case root
    have h2: "height t4 < 65535" using pr(6) h by (simp add: NodePath_capacity_def)
    obtain t5 m where t5: "Tree_create_new_root c t4 (Some r) (Some s) (lo s) = Inr t5"
        "blink_inv c (lo(next_addr t4 := 0)) (lv(next_addr t4 := Suc (lv r))) {} t5 (next_addr t4)"
        "\<not> is_leaf m" "t5 = reparent (with_new_root c t4 m) {r, s} (Some (next_addr t4))"
      using inv_new_root [OF root(2) c(1) root(3) h2] by blast
    have "OptimisticTree_insert c thread_id ot k v = Inr \<lparr>obase = t5, epochs = em', root_lock = False\<rparr>"
      using root(1) t5(1) invD(1) [OF root(2)] unl by (simp add: eq Spinlock_lock_def Spinlock_unlock_def)
    moreover have "unlocked t5" using pr(3) c(2) by (simp add: t5(4) unlocked_def)
    moreover have "tree_map t5 = tree_map t4"
      using tree_map_eqI [OF root(2) t5(2)] entries_new_root [OF invD(7) [OF root(2)] t5(3)] by (simp add: t5(4))
    moreover have "height t5 \<le> Suc (height ?t)" using t5(4) pr(6) by simp
    ultimately show ?thesis using t5(2) pr(4) step(4) c g(3) by (auto simp: OptimisticTree_ok_def tree_inv_def)
  qed
qed

section \<open>Looking up and updating\<close>

lemma live_slot:
  assumes "leaf_ok c l n" "leaf_map n k = Some v"
  shows "Node_index n k = Inr (std_lower_bound (live_keys n) k)"
    "node_key n (std_lower_bound (live_keys n) k) = Inr k" "node_value n (std_lower_bound (live_keys n) k) = Inr v"
proof -
  have live: "k \<in> set (live_keys n)" using leaf_entry(1) [OF assms] .
  have sz: "nsize n \<le> length (keys n)" "nsize n \<le> length (vals n)" using assms(1) by (simp_all add: leaf_ok_def)
  then show "Node_index n k = Inr (std_lower_bound (live_keys n) k)" by (simp add: Node_index_eq)
  show "node_key n (std_lower_bound (live_keys n) k) = Inr k" "node_value n (std_lower_bound (live_keys n) k) = Inr v"
    using leaf_update_ok(1-3) [OF assms(1) live] sz assms(2) by (simp_all add: node_key_def node_value_def arr_simps)
qed

lemma opt_find_spec:
  assumes ok: "OptimisticTree_ok c thread_id ot" and k: "tree_map (obase ot) k = Some v"
  shows "\<exists>ot'. OptimisticTree_find thread_id ot k = Inr (v, ot') \<and> OptimisticTree_ok c thread_id ot'
    \<and> obase ot' = obase ot"
proof -
  let ?t = "obase ot"
  obtain lo lv r where i: "blink_inv c lo lv {} ?t r" using ok by (auto simp: OptimisticTree_ok_def tree_inv_def)
  have u: "unlocked ?t" using ok by (simp add: OptimisticTree_ok_def)
  have km: "k \<noteq> max_key" using no_max_key [OF i] k by blast
  obtain em em' where g: "EpochGuard_ctor (epochs ot) thread_id = Inr em" "EpochGuard_dtor em thread_id = Inr em'"
    "thread_id < length (local_epochs em')" using guard [OF ok] .
  obtain b n path where loc: "OptimisticTree_locate_leaf ?t k None = Inr (Some b, path)"
      "heap ?t b = Some n" "is_leaf n" "lo b \<le> k" "k < high_key n"
  proof -
    have "path_is None []" by (simp add: path_is_def)
    then show thesis using opt_locate_spec [OF i u km, of None] that by metis
  qed
  have "leaf_map n k = Some v" using tree_map_leaf [OF i loc(2-5)] k by simp
  note slot = live_slot [OF contentD(3) [OF invD(10) [OF i] loc(2,3)] this]
  have "OptimisticTree_find thread_id ot k = Inr (v, ot\<lparr>epochs := em'\<rparr>)"
    unfolding OptimisticTree_find_def g(1) bindR_Inr loc(1) split_conv Let_def header_read [OF loc(2) u]
      opt_leaf_right_stays [OF loc(2,5) invD(6) [OF i loc(2)]] deref_Some [OF loc(2)] slot
      not_True_eq_False if_False g(2) by simp
  then show ?thesis using ok g(3) by (auto simp: OptimisticTree_ok_def)
qed

lemma opt_update_spec:
  assumes ok: "OptimisticTree_ok c thread_id ot" and h: "height (obase ot) \<le> Suc NodePath_capacity"
    and k: "k \<in> dom (tree_map (obase ot))"
  shows "\<exists>ot'. OptimisticTree_update thread_id ot k v = Inr ot' \<and> OptimisticTree_ok c thread_id ot'
    \<and> tree_map (obase ot') = (tree_map (obase ot))(k \<mapsto> v) \<and> height (obase ot') = height (obase ot)"
proof -
  let ?t = "obase ot"
  obtain lo lv r where i: "blink_inv c lo lv {} ?t r" using ok by (auto simp: OptimisticTree_ok_def tree_inv_def)
  have u: "unlocked ?t" and c: "\<not> OptimisticLock_is_locked (latch_init c)" using ok by (simp_all add: OptimisticTree_ok_def)
  have km: "k \<noteq> max_key" using no_max_key [OF i] k by blast
  obtain em em' where g: "EpochGuard_ctor (epochs ot) thread_id = Inr em" "EpochGuard_dtor em thread_id = Inr em'"
    "thread_id < length (local_epochs em')" using guard [OF ok] .
  have room: "height ?t \<le> Suc NodePath_capacity \<or> Some NodePath_init = None" using h by simp
  obtain b n path where loc: "OptimisticTree_locate_leaf ?t k (Some NodePath_init) = Inr (Some b, path)"
      "heap ?t b = Some n" "is_leaf n" "lo b \<le> k" "k < high_key n"
    using opt_locate_spec [OF i u km room path_is_init] by metis
  have lok: "leaf_ok c (lo b) n" using contentD(3) [OF invD(10) [OF i] loc(2,3)] .
  have live: "k \<in> set (live_keys n)"
    using k tree_map_leaf [OF i loc(2-5)] leaf_map_None_iff [OF lok] by (simp add: domIff)
  obtain w where w: "leaf_map n k = Some w" using live leaf_map_None_iff [OF lok] by fastforce
  note slot = live_slot [OF lok w]
  let ?n = "n\<lparr>vals := (vals n)[std_lower_bound (live_keys n) k := v]\<rparr>"
  note U = leaf_update_ok(1,2) [OF lok live] leaf_update_ok(4,5) [OF lok live, where v = v]
  have set_v: "node_set_value n (std_lower_bound (live_keys n) k) v = Inr ?n"
    using U(1) lok by (simp add: node_set_value_def arr_simps leaf_ok_def)
  let ?t1 = "locked ?t b (latches ?t b + 2)"
  have d1: "deref ?t1 (Some b) = Inr n" using loc(2) by simp
  note rel = header_release_step [OF frame_store [where n = ?n and t = ?t1] u c]
  have i': "blink_inv c lo lv {} (store ?t (Some b) ?n) r"
    using i loc(2,3) _ U(3) by (rule inv_leaf_content) (simp_all add: same_header_def)
  have "OptimisticTree_update thread_id ot k v
      = Inr (ot\<lparr>obase := locked (store ?t1 (Some b) ?n) b (latches ?t b + 4), epochs := em'\<rparr>)"
    unfolding OptimisticTree_update_def g(1) bindR_Inr loc(1) split_conv Let_def header_read [OF loc(2) u]
      opt_leaf_right_stays [OF loc(2,5) invD(6) [OF i loc(2)]] header_acquire_eq [OF loc(2) u] d1 slot(1,2) set_v
      not_True_eq_False if_False simp_thms if_True rel(1) g(2) ..
  moreover have st: "heap (store ?t1 (Some b) ?n) = heap (store ?t (Some b) ?n)" by simp
  then have "tree_map (store ?t1 (Some b) ?n) = (tree_map ?t)(k \<mapsto> v)"
    using tree_map_store_leaf [OF i i' loc(2,3) _ loc(4,5) U(4)] loc(3) by (simp add: tree_map_def)
  moreover have "tree_inv c (locked (store ?t1 (Some b) ?n) b (latches ?t b + 4))"
    unfolding tree_inv_def inv_locked using i' by (auto simp: blink_inv_def)
  ultimately show ?thesis using rel(2) ok g(3) by (auto simp: OptimisticTree_ok_def)
qed

interpretation optimistic: map_index "OptimisticTree_insert c thread_id" "OptimisticTree_update thread_id"
    "OptimisticTree_find thread_id" "OptimisticTree_ok c thread_id"
    "\<lambda>ot. height (obase ot)" "Suc NodePath_capacity" "\<lambda>ot. tree_map (obase ot)" for c thread_id
  using opt_insert_spec opt_update_spec opt_find_spec by unfold_locales (assumption | blast | fastforce)+

section \<open>The destructor\<close>

text \<open>Handing over nodes only appends to the garbage queue.\<close>

definition handed_over :: "epoch_manager \<Rightarrow> addr set \<Rightarrow> epoch_manager \<Rightarrow> bool" where
  "handed_over em S em' \<longleftrightarrow> mem_freed em' = mem_freed em \<and> m_end (garbage_queue em') = m_end (garbage_queue em)
     \<and> (\<forall>gs. garbage_is em gs \<longrightarrow> set gs \<inter> S = {} \<longrightarrow> m_end (garbage_queue em) \<notin> S
          \<longrightarrow> (\<exists>xs. garbage_is em' (gs @ xs) \<and> set xs = S))"

lemma handed_over_one: "handed_over em {a} (EpochManager_add_to_garbage em a)"
proof -
  have "garbage_is (EpochManager_add_to_garbage em a) (gs @ [a])"
    if "garbage_is em gs" "a \<notin> set gs" "m_end (garbage_queue em) \<noteq> a" for gs
    using mpsc.push_law [OF that(1), of a] that(2,3)
    by (auto simp: EpochManager_add_to_garbage_def Let_def split: prod.splits)
  then show ?thesis
    unfolding handed_over_def
    by (auto simp: EpochManager_add_to_garbage_def MPSCQueue_push_back_def Let_def intro!: exI [of _ "[a]"])
qed

lemma handed_over_trans:
  assumes "handed_over em S em'" "handed_over em' S' em''" "S \<inter> S' = {}"
  shows "handed_over em (S \<union> S') em''"
proof -
  have "\<exists>xs. garbage_is em'' (gs @ xs) \<and> set xs = S \<union> S'"
    if g: "garbage_is em gs" "set gs \<inter> (S \<union> S') = {}" "m_end (garbage_queue em) \<notin> S \<union> S'" for gs
  proof -
    obtain xs where xs: "garbage_is em' (gs @ xs)" "set xs = S" using assms(1) g unfolding handed_over_def by blast
    have "set (gs @ xs) \<inter> S' = {}" "m_end (garbage_queue em') \<notin> S'"
      using assms(1,3) g xs(2) unfolding handed_over_def by auto
    then obtain ys where "garbage_is em'' ((gs @ xs) @ ys)" "set ys = S'"
      using assms(2) xs(1) unfolding handed_over_def by blast
    then show ?thesis using xs(2) by (intro exI [of _ "xs @ ys"]) auto
  qed
  then show ?thesis using assms(1,2) unfolding handed_over_def by simp
qed

lemma reclaim_separators_spec:
  assumes i: "blink_inv c lo lv {} t r" and "distinct bs" "\<forall>b \<in> set bs. heap t b \<noteq> None \<and> lv b = d"
    and "\<And>b em. b \<in> set bs \<Longrightarrow> \<exists>em'. reclaim_node fuel t em (Some b) = Inr em' \<and> handed_over em (subtree lo lv (heap t) b) em'"
  shows "\<exists>em'. reclaim_separators fuel t em (map Some bs) = Inr em'
    \<and> handed_over em (\<Union>b \<in> set bs. subtree lo lv (heap t) b) em'"
  using assms(2-)
proof (induction bs arbitrary: em)
  case Nil
  have "handed_over em {} em" unfolding handed_over_def by (auto intro: exI [of _ "[]"])
  then show ?case by simp
next
  case (Cons b bs)
  obtain em1 where em1: "reclaim_node fuel t em (Some b) = Inr em1" "handed_over em (subtree lo lv (heap t) b) em1"
    using Cons.prems(3) [of b em] by auto
  obtain em2 where em2: "reclaim_separators fuel t em1 (map Some bs) = Inr em2"
      "handed_over em1 (\<Union>b \<in> set bs. subtree lo lv (heap t) b) em2"
    using Cons.IH [of em1] Cons.prems by auto
  have "subtree lo lv (heap t) b \<inter> subtree lo lv (heap t) b' = {}" if "b' \<in> set bs" for b'
  proof -
    have "b \<noteq> b'" using Cons.prems(1) that by auto
    then show ?thesis using kid_subtrees_disjoint [OF i, of b _ b'] Cons.prems(2) that by (metis list.set_intros not_None_eq)
  qed
  then have "subtree lo lv (heap t) b \<inter> (\<Union>b \<in> set bs. subtree lo lv (heap t) b) = {}" by blast
  then show ?case using handed_over_trans [OF em1(2) em2(2)] em1(1) em2(1) by simp
qed

lemma reclaim_node_spec:
  assumes i: "blink_inv c lo lv {} t r" and "heap t a \<noteq> None" "lv a < fuel"
  shows "\<exists>em'. reclaim_node fuel t em (Some a) = Inr em' \<and> handed_over em (subtree lo lv (heap t) a) em'"
  using assms(2-)
proof (induction fuel arbitrary: a em)
  case (Suc fuel)
  obtain n where n: "heap t a = Some n" using Suc.prems(1) by blast
  show ?case
  proof (cases "is_leaf n")
    case True
    then show ?thesis using n leaf_subtree [OF i n] handed_over_one by simp
  next
    case False
    obtain cs where cs: "live_seps n = map Some cs" "nsize n < length (seps n)" and dist: "distinct cs"
      and kid: "\<forall>b \<in> set cs. heap t b \<noteq> None \<and> Suc (lv b) = lv a"
      and sub: "subtree lo lv (heap t) a = insert a (\<Union>b \<in> set cs. subtree lo lv (heap t) b)"
      and out: "a \<notin> (\<Union>b \<in> set cs. subtree lo lv (heap t) b)"
      using inner_subtrees [OF i n False] .
    have lower: "\<forall>b \<in> set cs. heap t b \<noteq> None \<and> lv b = lv a - 1" using kid by auto
    have one: "\<exists>em'. reclaim_node fuel t em (Some b) = Inr em' \<and> handed_over em (subtree lo lv (heap t) b) em'"
      if "b \<in> set cs" for b em using Suc.IH [of b em] kid that Suc.prems(2) by auto
    obtain em1 where em1: "reclaim_separators fuel t em (map Some cs) = Inr em1"
        "handed_over em (\<Union>b \<in> set cs. subtree lo lv (heap t) b) em1"
      using reclaim_separators_spec [OF i dist lower one] by blast
    have "reclaim_node (Suc fuel) t em (Some a) = Inr (EpochManager_add_to_garbage em1 a)"
      using n False cs em1(1) by simp
    moreover have "handed_over em (subtree lo lv (heap t) a) (EpochManager_add_to_garbage em1 a)"
      using handed_over_trans [OF em1(2) handed_over_one] out unfolding sub by simp
    ultimately show ?thesis by blast
  qed
qed simp

lemma reclaim_all_frees:
  assumes "tree_inv c t" "garbage_is em0 gs" "set gs \<inter> dom (heap t) = {}" and "heap t (m_end (garbage_queue em0)) = None"
    and "length gs + card (dom (heap t)) < fuel"
  shows "\<exists>em xs. bindR (reclaim_node (height t) t em0 (root_node t)) (\<lambda>em. EpochManager_dtor fuel em) = Inr em
    \<and> mem_freed em = mem_freed em0 @ gs @ xs \<and> distinct xs \<and> set xs = dom (heap t)"
proof -
  obtain lo lv r where i: "blink_inv c lo lv {} t r" using assms(1) by (auto simp: tree_inv_def)
  note D = invD [OF i]
  obtain em where em: "reclaim_node (height t) t em0 (Some r) = Inr em"
      "handed_over em0 (dom (heap t)) em"
    using reclaim_node_spec [OF i D(2), of "height t" "em0"] root_subtree [OF i] D(4) by auto
  then obtain xs where xs: "garbage_is em (gs @ xs)" "set xs = dom (heap t)" "mem_freed em = mem_freed em0"
    using assms(2-4) unfolding handed_over_def by blast
  have d: "distinct (gs @ xs)" using MPSC_distinct [OF xs(1)] .
  then have "length xs = card (dom (heap t))" using xs(2) by (metis distinct_append distinct_card)
  then have "length (gs @ xs) < fuel" using assms(5) by simp
  from free_all_spec [OF xs(1) this] show ?thesis
    using em(1) xs d by (auto simp: EpochManager_dtor_def D(1))
qed

section \<open>Properties\<close>

text \<open>Every return of \<^verbatim>\<open>insert\<close> passes the destructor of its guard.\<close>

lemma opt_insert_leaves:
  assumes "OptimisticTree_insert c thread_id ot k v = Inr ot'"
  shows "epochs ot' = epoch_left thread_id (epochs ot)"
proof -
  obtain em em' where "EpochGuard_ctor (epochs ot) thread_id = Inr em" "EpochGuard_dtor em thread_id = Inr em'" "epochs ot' = em'"
    using assms unfolding OptimisticTree_insert_def Let_def
    by (auto simp: bindR_eq_Inr split: prod.splits if_split_asm)
  then show ?thesis using guard_leaves by simp
qed

text \<open>
  C4. Without interference \<^verbatim>\<open>insert\<close> of the optimistic tree refines insertion into a map, exactly as
  the latched tree does: a new key is added, a present one keeps its value, the invariant holds
  again and every version is unlocked. The thread has left the epoch: its local epoch is the largest one, and nothing
  else of the epoch manager has changed.
\<close>

theorem optimistic_insert_refines_map:
  assumes "OptimisticTree_ok c thread_id ot" "height (obase ot) \<le> Suc NodePath_capacity" "k \<noteq> max_key"
  shows "\<exists>ot'. OptimisticTree_insert c thread_id ot k v = Inr ot' \<and> OptimisticTree_ok c thread_id ot'
    \<and> tree_map (obase ot') = insert_new (tree_map (obase ot)) k v
    \<and> epochs ot' = (epochs ot)\<lparr>local_epochs := (local_epochs (epochs ot))[thread_id := max_epoch]\<rparr>
    \<and> local_epochs (epochs ot') ! thread_id = max_epoch"
proof -
  obtain ot' where ot': "OptimisticTree_insert c thread_id ot k v = Inr ot'" "OptimisticTree_ok c thread_id ot'"
      "tree_map (obase ot') = insert_new (tree_map (obase ot)) k v"
    using optimistic.ins_law [OF assms] by blast
  moreover have "thread_id < length (local_epochs (epochs ot))" using assms(1) by (simp add: OptimisticTree_ok_def)
  ultimately show ?thesis using opt_insert_leaves [OF ot'(1)] by (simp add: epoch_left_def)
qed

text \<open>A configuration with four entries per leaf, for two threads, the queue's stub at address 900.\<close>

definition opt_config :: "version_t config" where
  "opt_config = \<lparr>header_size = 960, garbage_size = 0, latch_init = OptimisticLock_init, alloc_junk = (\<lambda>a i. 7)\<rparr>"

lemma opt_ctor_ok: "OptimisticTree_ok opt_config 1 (OptimisticTree_ctor opt_config 2 900)"
  using inv_ctor [of opt_config]
  by (auto simp: OptimisticTree_ok_def OptimisticTree_ctor_def tree_inv_def unlocked_def Tree_ctor_heap config_ok_def
      Spinlock_init_def opt_config_def LeafNode_max_items_def InnerNode_max_keys_def Config_node_size_def
      OptimisticLock_init_def OptimisticLock_is_locked_def EpochManager_ctor_def MPSCQueue_ctor_def)

lemma opt_ctor_map: "tree_map (obase (OptimisticTree_ctor opt_config 2 900)) = Map.empty"
  "height (obase (OptimisticTree_ctor opt_config 2 900)) \<le> 1"
  by (simp_all add: OptimisticTree_ctor_def tree_map_ctor Tree_ctor_heap)

theorem optimistic_insert_refines_map_witness:
  "\<exists>ot'. OptimisticTree_insert opt_config 1 (OptimisticTree_ctor opt_config 2 900) 5 8 = Inr ot'
    \<and> tree_map (obase ot') = [5 \<mapsto> 8] \<and> local_epochs (epochs ot') = [0, max_epoch]"
proof -
  have "local_epochs (epochs (OptimisticTree_ctor opt_config 2 900)) = [0, 0]"
    by (simp add: OptimisticTree_ctor_def EpochManager_ctor_def MPSCQueue_ctor_def numeral_2_eq_2)
  moreover have "height (obase (OptimisticTree_ctor opt_config 2 900)) \<le> Suc NodePath_capacity" using opt_ctor_map(2) by simp
  ultimately show ?thesis
    using optimistic_insert_refines_map [OF opt_ctor_ok, of 5 8] by (auto simp: opt_ctor_map insert_new_def max_key_def)
qed

text \<open>
  \<^verbatim>\<open>find\<close> of the optimistic tree returns the stored value of a present key and changes nothing
  but the thread's local epoch.
\<close>

theorem optimistic_find_present:
  assumes "OptimisticTree_ok c thread_id ot" "tree_map (obase ot) k = Some v"
  shows "\<exists>ot'. OptimisticTree_find thread_id ot k = Inr (v, ot') \<and> OptimisticTree_ok c thread_id ot' \<and> obase ot' = obase ot"
  using opt_find_spec [OF assms] .

theorem optimistic_find_present_witness:
  "\<exists>ot ot'. OptimisticTree_insert opt_config 1 (OptimisticTree_ctor opt_config 2 900) 5 8 = Inr ot
    \<and> OptimisticTree_find 1 ot 5 = Inr (8, ot')"
proof -
  obtain ot where "OptimisticTree_insert opt_config 1 (OptimisticTree_ctor opt_config 2 900) 5 8 = Inr ot"
      "OptimisticTree_ok opt_config 1 ot" "tree_map (obase ot) = [5 \<mapsto> 8]"
    using optimistic.ins_law [OF opt_ctor_ok, of 5 8] opt_ctor_map by (auto simp: max_key_def insert_new_def)
  then show ?thesis using optimistic_find_present [of opt_config 1 ot 5 8] by auto
qed

text \<open>
  The destructor of the optimistic tree hands every node to the epoch manager once and all of
  them are freed exactly once, after whatever garbage was queued before.
\<close>

theorem optimistic_destructor_frees_all:
  assumes "tree_inv c (obase ot)" "garbage_is (epochs ot) gs" "set gs \<inter> dom (heap (obase ot)) = {}"
    and "heap (obase ot) (m_end (garbage_queue (epochs ot))) = None"
    and "length gs + card (dom (heap (obase ot))) < fuel"
  shows "\<exists>em xs. OptimisticTree_dtor fuel ot = Inr em \<and> mem_freed em = mem_freed (epochs ot) @ gs @ xs
    \<and> distinct xs \<and> set xs = dom (heap (obase ot))"
  using reclaim_all_frees [OF assms] by (simp add: OptimisticTree_dtor_def)

theorem optimistic_destructor_frees_all_witness:
  "\<exists>em. OptimisticTree_dtor 2 (OptimisticTree_ctor opt_config 2 900) = Inr em \<and> mem_freed em = [0]"
proof -
  let ?ot = "OptimisticTree_ctor opt_config 2 900"
  have "garbage_is (epochs ?ot) []"
    unfolding MPSC_holds_def MPSC_chain_def
    by (auto simp: OptimisticTree_ctor_def EpochManager_ctor_def MPSCQueue_ctor_def QueueItem_set_next_def
        intro!: exI [of _ "[900]"])
  moreover have "tree_inv opt_config (obase ?ot)" using opt_ctor_ok by (simp add: OptimisticTree_ok_def)
  moreover have "dom (heap (obase ?ot)) = {0}" "heap (obase ?ot) 900 = None" "mem_freed (epochs ?ot) = []"
      "m_end (garbage_queue (epochs ?ot)) = 900"
    by (auto simp: OptimisticTree_ctor_def Tree_ctor_heap EpochManager_ctor_def MPSCQueue_ctor_def)
  ultimately obtain em xs where "OptimisticTree_dtor 2 ?ot = Inr em" "mem_freed em = xs" "distinct xs" "set xs = {0}"
    using optimistic_destructor_frees_all [of opt_config ?ot "[]" 2] by (auto simp: domIff)
  moreover then have "xs = [0]" by (cases xs; cases "tl xs") auto
  ultimately show ?thesis by blast
qed

end
