(* ===== verification/TBB_Olfit.thy ===== *)
theory TBB_Olfit
  imports TBB_Tasks Optimistic_Tree
begin

text \<open>
  The task-based tree in the build \<^verbatim>\<open>blinktree_tbb_olfit\<close>, from \<^verbatim>\<open>src/src/indices/blinktree/tbb/\<close>: nodes carry
  the version lock of \<^verbatim>\<open>optimistic_node_base.h\<close>, every execution of a task is an epoch, visits are
  validated and repeated, and modifications lock the version. As for the optimistic thread tree, a
  repetition that nothing can end is \<open>SpinsForever\<close>. Insertion into a node and the hand-over to the parent are
  the code of the other builds. The lock of the tree is the library's \<^verbatim>\<open>spin_mutex\<close>, the argument \<open>M\<close>, whose
  state is a word here.
\<close>

section \<open>The model\<close>

record olfit_tree =
  ftree :: "version_t tbb_tree"
  fepochs :: epoch_manager

definition OlfitTree_ctor :: "version_t config \<Rightarrow> nat \<Rightarrow> addr \<Rightarrow> olfit_tree" where
  "OlfitTree_ctor c threads stub = \<lparr>ftree = TBBTree_ctor c, fepochs = EpochManager_ctor threads stub\<rparr>"

definition validated :: "version_t tree \<Rightarrow> ptr \<Rightarrow> version_t \<Rightarrow> 'a \<Rightarrow> 'a result" where
  "validated t node_ptr version x =
     bindR (header_is_valid t node_ptr version) (\<lambda>valid. if valid then Inr x else Inl SpinsForever)"

text \<open>The loop of \<^verbatim>\<open>InsertTask::execute\<close>: the node to return, or \<open>None\<close> for the \<^verbatim>\<open>break\<close>.\<close>

definition olfit_insert_visit :: "version_t tree \<Rightarrow> insert_task \<Rightarrow> ptr \<Rightarrow> ptr option result" where
  "olfit_insert_visit t task node_ptr =
     bindR (header_version t node_ptr) (\<lambda>version.
     bindR (deref t node_ptr) (\<lambda>n.
     if high_key n \<le> task_key task then validated t node_ptr version (Some (right_sibling n))
     else if is_for_leaf task \<and> \<not> is_leaf n
     then bindR (Node_child n (task_key task)) (\<lambda>child. validated t node_ptr version (Some child))
     else validated t node_ptr version None))"

definition olfit_insert_locked :: "version_t config \<Rightarrow> version_t tbb_mutex \<Rightarrow> version_t tbb_tree \<Rightarrow> insert_task \<Rightarrow> ptr
    \<Rightarrow> (ptr \<times> insert_task \<times> version_t tbb_tree) result" where
  "olfit_insert_locked c M tt task node_ptr =
     bindR (header_acquire (tbase tt) node_ptr) (\<lambda>t1.
     bindR (deref t1 node_ptr) (\<lambda>n.
     bindR (if is_leaf n
            then InsertTask_insert_into_leaf_node c M (tt\<lparr>tbase := t1\<rparr>) task node_ptr (task_key task) (task_value task)
            else InsertTask_insert_into_inner_node c M (tt\<lparr>tbase := t1\<rparr>) task node_ptr (separator_key task) (separator task))
       (\<lambda>(next_node, task', tt2).
     bindR (header_release (tbase tt2) node_ptr) (\<lambda>t3. Inr (next_node, task', tt2\<lparr>tbase := t3\<rparr>)))))"

definition olfit_InsertTask_execute :: "version_t config \<Rightarrow> version_t tbb_mutex \<Rightarrow> nat \<Rightarrow> olfit_tree \<Rightarrow> insert_task \<Rightarrow> ptr
    \<Rightarrow> (ptr \<times> insert_task \<times> olfit_tree) result" where
  "olfit_InsertTask_execute c M thread_id ft task node_ptr =
     bindR (EpochGuard_ctor (fepochs ft) thread_id) (\<lambda>em.
     bindR (olfit_insert_visit (tbase (ftree ft)) task node_ptr) (\<lambda>visit.
     bindR (case visit of Some next_node \<Rightarrow> Inr (next_node, task, ftree ft)
              | None \<Rightarrow> olfit_insert_locked c M (ftree ft) task node_ptr) (\<lambda>(next_node, task', tt').
     bindR (EpochGuard_dtor em thread_id) (\<lambda>em'.
     Inr (next_node, task', \<lparr>ftree = tt', fepochs = em'\<rparr>)))))"

fun olfit_InsertTask_run :: "nat \<Rightarrow> version_t config \<Rightarrow> version_t tbb_mutex \<Rightarrow> nat \<Rightarrow> olfit_tree \<Rightarrow> insert_task \<Rightarrow> ptr
    \<Rightarrow> olfit_tree result" where
  "olfit_InsertTask_run 0 c M thread_id ft task node_ptr = Inl FuelExhausted"
| "olfit_InsertTask_run (Suc fuel) c M thread_id ft task node_ptr =
     bindR (olfit_InsertTask_execute c M thread_id ft task node_ptr) (\<lambda>(next_node, task', ft').
     if next_node \<noteq> None then olfit_InsertTask_run fuel c M thread_id ft' task' next_node else Inr ft')"

definition Olfit_insert :: "version_t config \<Rightarrow> version_t tbb_mutex \<Rightarrow> nat \<Rightarrow> olfit_tree \<Rightarrow> key_type \<Rightarrow> value_type \<Rightarrow> olfit_tree result" where
  "Olfit_insert c M thread_id ft key value =
     olfit_InsertTask_run (2 * height (tbase (ftree ft))) c M thread_id ft (InsertTask_ctor key value) (root_node (tbase (ftree ft)))"

text \<open>
  \<^verbatim>\<open>LookupTask::execute\<close>. After a failed validation of a move the code falls through to the leaf case, whose
  own validation then fails too; the result is another repetition.
\<close>

definition olfit_LookupTask_execute :: "nat \<Rightarrow> olfit_tree \<Rightarrow> key_type \<Rightarrow> value_type \<Rightarrow> ptr
    \<Rightarrow> (ptr \<times> value_type \<times> olfit_tree) result" where
  "olfit_LookupTask_execute thread_id ft key value node_ptr =
     bindR (EpochGuard_ctor (fepochs ft) thread_id) (\<lambda>em.
     let t = tbase (ftree ft)
     in bindR (header_version t node_ptr) (\<lambda>version.
        bindR (deref t node_ptr) (\<lambda>n.
        bindR (if high_key n \<le> key then validated t node_ptr version (right_sibling n, value)
               else if \<not> is_leaf n
               then bindR (Node_child n key) (\<lambda>child. validated t node_ptr version (child, value))
               else bindR (Node_index n key) (\<lambda>index.
                    bindR (node_key n index) (\<lambda>found_key.
                    bindR (if found_key = key then node_value n index else Inr value) (\<lambda>v.
                    validated t node_ptr version (None, v))))) (\<lambda>(next_node, v).
        bindR (EpochGuard_dtor em thread_id) (\<lambda>em'. Inr (next_node, v, ft\<lparr>fepochs := em'\<rparr>))))))"

fun olfit_LookupTask_run :: "nat \<Rightarrow> nat \<Rightarrow> olfit_tree \<Rightarrow> key_type \<Rightarrow> value_type \<Rightarrow> ptr \<Rightarrow> (value_type \<times> olfit_tree) result" where
  "olfit_LookupTask_run 0 thread_id ft key value node_ptr = Inl FuelExhausted"
| "olfit_LookupTask_run (Suc fuel) thread_id ft key value node_ptr =
     bindR (olfit_LookupTask_execute thread_id ft key value node_ptr) (\<lambda>(next_node, value', ft').
     if next_node \<noteq> None then olfit_LookupTask_run fuel thread_id ft' key value' next_node else Inr (value', ft'))"

definition Olfit_lookup :: "nat \<Rightarrow> olfit_tree \<Rightarrow> key_type \<Rightarrow> (value_type \<times> olfit_tree) result" where
  "Olfit_lookup thread_id ft key =
     olfit_LookupTask_run (height (tbase (ftree ft))) thread_id ft key 0 (root_node (tbase (ftree ft)))"

text \<open>\<^verbatim>\<open>UpdateTask::execute\<close>: the loop as above, then the locked store.\<close>

definition olfit_update_locked :: "version_t tree \<Rightarrow> key_type \<Rightarrow> value_type \<Rightarrow> ptr \<Rightarrow> version_t tree result" where
  "olfit_update_locked t key value node_ptr =
     bindR (header_acquire t node_ptr) (\<lambda>t1.
     bindR (deref t1 node_ptr) (\<lambda>n.
     bindR (Node_index n key) (\<lambda>index.
     bindR (node_key n index) (\<lambda>found_key.
     bindR (if found_key = key then node_set_value n index value else Inr n) (\<lambda>n'.
     header_release (store t1 node_ptr n') node_ptr)))))"

definition olfit_UpdateTask_execute :: "nat \<Rightarrow> olfit_tree \<Rightarrow> key_type \<Rightarrow> value_type \<Rightarrow> ptr \<Rightarrow> (ptr \<times> olfit_tree) result" where
  "olfit_UpdateTask_execute thread_id ft key value node_ptr =
     bindR (EpochGuard_ctor (fepochs ft) thread_id) (\<lambda>em.
     let t = tbase (ftree ft)
     in bindR (header_version t node_ptr) (\<lambda>version.
        bindR (deref t node_ptr) (\<lambda>n.
        bindR (if high_key n \<le> key then validated t node_ptr version (Some (right_sibling n))
               else if \<not> is_leaf n
               then bindR (Node_child n key) (\<lambda>child. validated t node_ptr version (Some child))
               else validated t node_ptr version None) (\<lambda>visit.
        bindR (case visit of Some next_node \<Rightarrow> Inr (next_node, t)
                 | None \<Rightarrow> bindR (olfit_update_locked t key value node_ptr) (\<lambda>t'. Inr (None, t'))) (\<lambda>(next_node, t').
        bindR (EpochGuard_dtor em thread_id) (\<lambda>em'.
        Inr (next_node, \<lparr>ftree = (ftree ft)\<lparr>tbase := t'\<rparr>, fepochs = em'\<rparr>)))))))"

fun olfit_UpdateTask_run :: "nat \<Rightarrow> nat \<Rightarrow> olfit_tree \<Rightarrow> key_type \<Rightarrow> value_type \<Rightarrow> ptr \<Rightarrow> olfit_tree result" where
  "olfit_UpdateTask_run 0 thread_id ft key value node_ptr = Inl FuelExhausted"
| "olfit_UpdateTask_run (Suc fuel) thread_id ft key value node_ptr =
     bindR (olfit_UpdateTask_execute thread_id ft key value node_ptr) (\<lambda>(next_node, ft').
     if next_node \<noteq> None then olfit_UpdateTask_run fuel thread_id ft' key value next_node else Inr ft')"

definition Olfit_update :: "nat \<Rightarrow> olfit_tree \<Rightarrow> key_type \<Rightarrow> value_type \<Rightarrow> olfit_tree result" where
  "Olfit_update thread_id ft key value =
     olfit_UpdateTask_run (height (tbase (ftree ft))) thread_id ft key value (root_node (tbase (ftree ft)))"

text \<open>The destructor, as in the optimistic thread tree.\<close>

definition OlfitTree_dtor :: "nat \<Rightarrow> olfit_tree \<Rightarrow> epoch_manager result" where
  "OlfitTree_dtor fuel ft =
     bindR (reclaim_node (height (tbase (ftree ft))) (tbase (ftree ft)) (fepochs ft) (root_node (tbase (ftree ft)))) (\<lambda>em.
     EpochManager_dtor fuel em)"

section \<open>Inserting\<close>

definition olfit_quiet :: "version_t config \<Rightarrow> version_t tbb_mutex \<Rightarrow> nat \<Rightarrow> olfit_tree \<Rightarrow> bool" where
  "olfit_quiet c M thread_id ft \<longleftrightarrow> mutex_ok M (latch_init c) \<and> \<not> OptimisticLock_is_locked (latch_init c)
     \<and> unlocked (tbase (ftree ft)) \<and> tbb_tree_lock (ftree ft) = latch_init c \<and> thread_id < length (local_epochs (fepochs ft))"

lemma quiet_guard:
  assumes "olfit_quiet c M thread_id ft"
  obtains em em' where "EpochGuard_ctor (fepochs ft) thread_id = Inr em" "EpochGuard_dtor em thread_id = Inr em'"
    "thread_id < length (local_epochs em')"
  using assms guard_ctor [of thread_id "fepochs ft"] guard_dtor by (metis olfit_quiet_def)

lemma quiet_epochs:
  "olfit_quiet c M thread_id ft \<Longrightarrow> thread_id < length (local_epochs em) \<Longrightarrow> olfit_quiet c M thread_id \<lparr>ftree = ftree ft, fepochs = em\<rparr>"
  by (simp add: olfit_quiet_def)

lemma validated_idle:
  assumes "unlocked t" "heap t a = Some n"
  shows "header_version t (Some a) = Inr (latches t a)" "validated t (Some a) (latches t a) x = Inr x"
  using header_read [OF assms(2,1)] by (simp_all add: validated_def)

lemma olfit_step_end:
  assumes q: "olfit_quiet c M thread_id ft" and c: "config_ok c"
    and a: "heap (tbase (ftree ft)) a = Some n" and par: "parent n = (case qs of [] \<Rightarrow> None | q # _ \<Rightarrow> Some q)" and root: "qs = [] \<longrightarrow> a = r"
    and visit: "olfit_insert_visit (tbase (ftree ft)) task (Some a) = Inr None"
    and body: "olfit_insert_locked c M (ftree ft) task (Some a) =
       bindR (if fst up = None then Inr (None, task, (ftree ft)\<lparr>tbase := t1\<rparr>)
          else hand_up c M ar ((ftree ft)\<lparr>tbase := t1\<rparr>) (task\<lparr>separator := fst up, separator_key := snd up\<rparr>) (Some a))
       (\<lambda>(nxt, task', tt2). bindR (header_release (tbase tt2) (Some a)) (\<lambda>t3. Inr (nxt, task', tt2\<lparr>tbase := t3\<rparr>)))"
    and st: "outcome c qs r up t1" "frame c a (locked (tbase (ftree ft)) a (latches (tbase (ftree ft)) a + 2)) t1"
    and keep: "fst up \<noteq> None \<longrightarrow> step_keeps a (tbase (ftree ft)) t1" and ht: "height t1 < 65535"
  shows "\<exists>nxt task' ft'. olfit_InsertTask_execute c M thread_id ft task (Some a) = Inr (nxt, task', ft') \<and> olfit_quiet c M thread_id ft'
    \<and> tree_map (tbase (ftree ft')) = tree_map t1 \<and> task_key task' = task_key task \<and> handed_up c r qs t1 nxt task' (tbase (ftree ft'))
    \<and> (nxt \<noteq> None \<longrightarrow> step_keeps a (tbase (ftree ft)) t1)"
proof -
  let ?t = "tbase (ftree ft)"
  have M: "mutex_ok M (latch_init c)" and lock: "tbb_tree_lock (ftree ft) = latch_init c" and u: "unlocked ?t"
    and init: "\<not> OptimisticLock_is_locked (latch_init c)" using q by (simp_all add: olfit_quiet_def)
  have fr: "heap t1 a \<noteq> None" using st(2) by (simp add: frame_def)
  obtain nxt task' t2 x where t2: "(if fst up = None then Inr (None, task, (ftree ft)\<lparr>tbase := t1\<rparr>)
       else hand_up c M ar ((ftree ft)\<lparr>tbase := t1\<rparr>) (task\<lparr>separator := fst up, separator_key := snd up\<rparr>) (Some a))
       = Inr (nxt, task', (ftree ft)\<lparr>tbase := t2\<rparr>)" "latches t2 = latches t1 \<or> latches t2 = (latches t1)(x := latch_init c)" "x \<noteq> a"
    "heap t2 a \<noteq> None" "tree_map t2 = tree_map t1" "task_key task' = task_key task" "handed_up c r qs t1 nxt task' t2"
    using hand_up_step [OF M c lock a par root st(1) fr keep ht, of task ar] .
  let ?t3 = "locked t2 a (latches ?t a + 4)"
  have rel: "header_release t2 (Some a) = Inr ?t3" "unlocked ?t3"
  proof -
    have "unlocked (locked t1 a (latches ?t a + 4))" by (rule header_release_step(2) [OF st(2) u init])
    then show "unlocked ?t3" using t2(2) init by (auto simp: unlocked_def split: if_splits)
    have "latches t2 a = latches ?t a + 2" using t2(2,3) st(2) by (auto simp: frame_def)
    then show "header_release t2 (Some a) = Inr ?t3"
      using t2(4) by (auto simp: header_release_def OptimisticLock_unlock_def locked_def add.assoc)
  qed
  obtain em em' where g: "EpochGuard_ctor (fepochs ft) thread_id = Inr em" "EpochGuard_dtor em thread_id = Inr em'"
    "thread_id < length (local_epochs em')" using quiet_guard [OF q] .
  have "olfit_InsertTask_execute c M thread_id ft task (Some a) = Inr (nxt, task', \<lparr>ftree = (ftree ft)\<lparr>tbase := ?t3\<rparr>, fepochs = em'\<rparr>)"
    using g(1,2) visit body t2(1) rel(1) by (simp add: olfit_InsertTask_execute_def)
  moreover have "olfit_quiet c M thread_id \<lparr>ftree = (ftree ft)\<lparr>tbase := ?t3\<rparr>, fepochs = em'\<rparr>"
    using q rel(2) g(3) by (simp add: olfit_quiet_def)
  moreover have "nxt \<noteq> None \<longrightarrow> fst up \<noteq> None" using t2(1) by (auto split: if_splits)
  ultimately show ?thesis using t2(5-7) keep by auto
qed

lemma olfit_visit_stays:
  assumes "unlocked t" "heap t a = Some n" "task_key task < high_key n" "is_for_leaf task \<longrightarrow> is_leaf n"
  shows "olfit_insert_visit t task (Some a) = Inr None"
  using validated_idle [OF assms(1,2)] assms(2,4) not_le [THEN iffD2, OF assms(3)] by (auto simp: olfit_insert_visit_def)

lemma olfit_leaf:
  assumes q: "olfit_quiet c M thread_id ft" and c: "config_ok c" and i: "blink_inv c lo lv {} (tbase (ftree ft)) r"
    and a: "heap (tbase (ftree ft)) a = Some n" "is_leaf n" "lo a \<le> task_key task" "task_key task < high_key n"
    and p: "path_covers lo lv (heap (tbase (ftree ft))) r (task_key task) 0 qs" and ht: "height (tbase (ftree ft)) < 65535"
  shows "\<exists>nxt task' ft' t1. olfit_InsertTask_execute c M thread_id ft task (Some a) = Inr (nxt, task', ft') \<and> olfit_quiet c M thread_id ft'
    \<and> tree_map (tbase (ftree ft')) = insert_new (tree_map (tbase (ftree ft))) (task_key task) (task_value task)
    \<and> task_key task' = task_key task \<and> handed_up c r qs t1 nxt task' (tbase (ftree ft'))
    \<and> height t1 = height (tbase (ftree ft)) \<and> (nxt \<noteq> None \<longrightarrow> step_keeps a (tbase (ftree ft)) t1)"
proof -
  let ?t = "tbase (ftree ft)" and ?k = "task_key task" and ?v = "task_value task"
  have lva: "lv a = 0" using contentD(1) [OF invD(10) [OF i] a(1)] a(2) by simp
  note par = parent_on_path [OF i a(1) _ a(3,4) p [folded lva], simplified]
  have u: "unlocked ?t" using q by (simp add: olfit_quiet_def)
  let ?l = "locked ?t a (latches ?t a + 2)"
  obtain up t1 where st: "ThreadTree_insert_into_leaf c ?l (Some a) ?k ?v = Inr (up, t1)" "outcome c qs r up t1"
      "frame c a ?l t1" "tree_map t1 = insert_new (tree_map ?t) ?k ?v"
    using insert_into_leaf_spec [of c lo lv ?l r a n ?k qs ?v] i c a p by auto
  have keep: "fst up \<noteq> None \<longrightarrow> step_keeps a ?t t1"
    using leaf_step_keeps [of c lo lv ?l r a n ?k ?v _ _ t1] i c a(1,2) st(1) by (cases up) (auto simp: step_keeps_def)
  have t1: "height t1 = height ?t" using st(3) by (simp add: frame_def)
  have visit: "olfit_insert_visit ?t task (Some a) = Inr None" by (rule olfit_visit_stays [OF u a(1,4)]) (simp add: a(2))
  have body: "olfit_insert_locked c M (ftree ft) task (Some a) =
     bindR (if fst up = None then Inr (None, task, (ftree ft)\<lparr>tbase := t1\<rparr>)
        else hand_up c M False ((ftree ft)\<lparr>tbase := t1\<rparr>) (task\<lparr>separator := fst up, separator_key := snd up\<rparr>) (Some a))
     (\<lambda>(nxt, task', tt2). bindR (header_release (tbase tt2) (Some a)) (\<lambda>t3. Inr (nxt, task', tt2\<lparr>tbase := t3\<rparr>)))"
    using leaf_task_step [of c "(ftree ft)\<lparr>tbase := ?l\<rparr>" "Some a" ?k ?v up t1 M task] st(1) header_acquire_eq [OF a(1) u] a(1,2)
    by (simp add: olfit_insert_locked_def)
  show ?thesis using olfit_step_end [OF q c a(1) par visit body st(2,3) keep] ht t1 st(4) by metis
qed

lemma olfit_inner:
  assumes q': "olfit_quiet c M thread_id ft" and c: "config_ok c" and i: "blink_inv c lo lv {s} (tbase (ftree ft)) r"
    and task: "separator task = Some s" "separator_key task = lo s"
    and p: "path_covers lo lv (heap (tbase (ftree ft))) r (lo s) (lv s) (q # qs)"
    and k: "heap (tbase (ftree ft)) q = Some n" "task_key task < high_key n" and ht: "height (tbase (ftree ft)) < 65535"
  shows "\<exists>nxt task' ft' t1. olfit_InsertTask_execute c M thread_id ft task (Some q) = Inr (nxt, task', ft') \<and> olfit_quiet c M thread_id ft'
    \<and> tree_map (tbase (ftree ft')) = tree_map (tbase (ftree ft))
    \<and> task_key task' = task_key task \<and> handed_up c r qs t1 nxt task' (tbase (ftree ft'))
    \<and> height t1 = height (tbase (ftree ft)) \<and> (nxt \<noteq> None \<longrightarrow> step_keeps q (tbase (ftree ft)) t1)"
proof -
  let ?t = "tbase (ftree ft)"
  have q: "lo q \<le> lo s" "lo s < high_key n" "lv q = Suc (lv s)" and rest: "path_covers lo lv (heap ?t) r (lo s) (lv q) qs"
    using p k(1) by (auto simp: covers_def)
  have "q \<notin> {s}" using q(3) by auto
  note par = parent_on_path [OF i k(1) this q(1,2) rest]
  have nl: "\<not> is_leaf n" using contentD(1) [OF invD(10) [OF i] k(1)] q(3) by simp
  have u: "unlocked ?t" using q' by (simp add: olfit_quiet_def)
  let ?l = "locked ?t q (latches ?t q + 2)"
  obtain up t1 where st: "ThreadTree_insert_into_inner c ?l (Some q) (lo s) (Some s) = Inr (up, t1)" "outcome c qs r up t1"
      "frame c q ?l t1" "tree_map t1 = tree_map ?t"
    using insert_into_inner_spec [OF _ c, of lo lv s ?l r q qs] i p by auto
  have keep: "fst up \<noteq> None \<longrightarrow> step_keeps q ?t t1"
    using inner_step_keeps [of c lo lv s ?l r q n _ _ t1] i c k(1) q st(1) by (cases up) (auto simp: step_keeps_def)
  have t1: "height t1 = height ?t" using st(3) by (simp add: frame_def)
  have visit: "olfit_insert_visit ?t task (Some q) = Inr None"
    by (rule olfit_visit_stays [OF u k]) (simp add: is_for_leaf_def task(1))
  have body: "olfit_insert_locked c M (ftree ft) task (Some q) =
     bindR (if fst up = None then Inr (None, task, (ftree ft)\<lparr>tbase := t1\<rparr>)
        else hand_up c M True ((ftree ft)\<lparr>tbase := t1\<rparr>) (task\<lparr>separator := fst up, separator_key := snd up\<rparr>) (Some q))
     (\<lambda>(nxt, task', tt2). bindR (header_release (tbase tt2) (Some q)) (\<lambda>t3. Inr (nxt, task', tt2\<lparr>tbase := t3\<rparr>)))"
    using inner_task_step [of c lo lv s "(ftree ft)\<lparr>tbase := ?l\<rparr>" r q n up t1 M task] i k(1) q st(1) header_acquire_eq [OF k(1) u] nl task
    by (simp add: olfit_insert_locked_def)
  show ?thesis using olfit_step_end [OF q' c k(1) par visit body st(2,3) keep] ht t1 st(4) by metis
qed

lemma olfit_down:
  assumes q: "olfit_quiet c M thread_id ft" and i: "blink_inv c lo lv {} (tbase (ftree ft)) r"
    and a: "heap (tbase (ftree ft)) a = Some n" "\<not> is_leaf n" "lo a \<le> task_key task" "task_key task < high_key n"
    and task: "is_for_leaf task"
  shows "\<exists>b m ft'. olfit_InsertTask_execute c M thread_id ft task (Some a) = Inr (Some b, task, ft') \<and> olfit_quiet c M thread_id ft'
    \<and> tbase (ftree ft') = tbase (ftree ft) \<and> heap (tbase (ftree ft)) b = Some m
    \<and> lo b \<le> task_key task \<and> task_key task < high_key m \<and> Suc (lv b) = lv a"
proof -
  have u: "unlocked (tbase (ftree ft))" using q by (simp add: olfit_quiet_def)
  obtain b m where b: "Node_child n (task_key task) = Inr (Some b)" "heap (tbase (ftree ft)) b = Some m" "lo b \<le> task_key task"
      "task_key task < high_key m" "Suc (lv b) = lv a"
    using child_covers [OF i a] .
  obtain em em' where g: "EpochGuard_ctor (fepochs ft) thread_id = Inr em" "EpochGuard_dtor em thread_id = Inr em'"
    "thread_id < length (local_epochs em')" using quiet_guard [OF q] .
  have "olfit_insert_visit (tbase (ftree ft)) task (Some a) = Inr (Some (Some b))"
    using validated_idle [OF u a(1)] a(1,2) task b(1) not_le [THEN iffD2, OF a(4)] by (simp add: olfit_insert_visit_def)
  then have "olfit_InsertTask_execute c M thread_id ft task (Some a) = Inr (Some b, task, \<lparr>ftree = ftree ft, fepochs = em'\<rparr>)"
    using g(1,2) by (simp add: olfit_InsertTask_execute_def)
  then show ?thesis using quiet_epochs [OF q g(3)] b(2-5) by auto
qed

interpretation olfit_build: insert_task_build c "olfit_InsertTask_execute c M thread_id"
    "\<lambda>fuel. olfit_InsertTask_run fuel c M thread_id" "\<lambda>ft. tbase (ftree ft)" "olfit_quiet c M thread_id" for c M thread_id
proof (unfold_locales, goal_cases)
  case 1
  show ?case by simp
next
  case (2 s lo lv r a n task)
  then show ?case by (rule olfit_down)
next
  case (3 s lo lv r a n task qs)
  then show ?case using olfit_leaf by blast
next
  case (4 s lo lv x r task q qs n)
  then show ?case by (rule olfit_inner)
qed

section \<open>Looking up and updating\<close>

text \<open>The tree with all version words as at the start; the searches of the other builds run on it.\<close>

definition erased :: "'l config \<Rightarrow> 'l tbb_tree \<Rightarrow> 'l tbb_tree" where
  "erased c tt = tt\<lparr>tbase := (tbase tt)\<lparr>latches := \<lambda>_. latch_init c\<rparr>\<rparr>"

lemma erased_simps [simp]:
  "heap (tbase (erased c tt)) = heap (tbase tt)" "height (tbase (erased c tt)) = height (tbase tt)"
  "root_node (tbase (erased c tt)) = root_node (tbase tt)" "tree_map (tbase (erased c tt)) = tree_map (tbase tt)"
  "tree_inv c (tbase (erased c tt)) = tree_inv c (tbase tt)" "deref (tbase (erased c tt)) p = deref (tbase tt) p"
  "tbb_tree_lock (erased c tt) = tbb_tree_lock tt"
  by (simp_all add: erased_def tree_map_def tree_inv_def blink_inv_def deref_def cong: option.case_cong)

lemma erased_ok:
  assumes "config_ok c" "tree_inv c (tbase (ftree ft))" "olfit_quiet c M thread_id ft"
  shows "TBBTree_ok c (erased c (ftree ft))"
  using assms by (simp add: TBBTree_ok_def all_init_def olfit_quiet_def) (simp add: erased_def)

lemma olfit_lookup_step:
  assumes q: "olfit_quiet c M thread_id ft" and v: "LookupTask_visit (erased c (ftree ft)) key value p = Inr (nxt, v)"
  shows "\<exists>em'. olfit_LookupTask_execute thread_id ft key value p = Inr (nxt, v, ft\<lparr>fepochs := em'\<rparr>) \<and> thread_id < length (local_epochs em')"
proof -
  have u: "unlocked (tbase (ftree ft))" using q by (simp add: olfit_quiet_def)
  obtain n where n: "deref (tbase (ftree ft)) p = Inr n" using v by (auto simp: LookupTask_visit_def bindR_eq_Inr)
  then obtain a where a: "p = Some a" "heap (tbase (ftree ft)) a = Some n"
    by (cases p) (auto simp: deref_def split: option.splits)
  obtain em em' where g: "EpochGuard_ctor (fepochs ft) thread_id = Inr em" "EpochGuard_dtor em thread_id = Inr em'"
    "thread_id < length (local_epochs em')" using quiet_guard [OF q] .
  have "olfit_LookupTask_execute thread_id ft key value p = Inr (nxt, v, ft\<lparr>fepochs := em'\<rparr>)"
    using v a g(1,2)
    by (auto simp: olfit_LookupTask_execute_def LookupTask_visit_def Let_def bindR_eq_Inr validated_idle [OF u a(2)] split: if_splits)
  then show ?thesis using g(3) by blast
qed

lemma olfit_lookup_run:
  assumes "olfit_quiet c M thread_id ft" "LookupTask_run fuel M tbb_no_lock (erased c (ftree ft)) key w p = Inr (v, tt)"
  shows "\<exists>em'. olfit_LookupTask_run fuel thread_id ft key w p = Inr (v, ft\<lparr>fepochs := em'\<rparr>) \<and> thread_id < length (local_epochs em')"
  using assms
proof (induction fuel arbitrary: ft w p)
  case (Suc fuel)
  obtain nxt v' where v': "LookupTask_visit (erased c (ftree ft)) key w p = Inr (nxt, v')"
    and rest: "(if nxt \<noteq> None then LookupTask_run fuel M tbb_no_lock (erased c (ftree ft)) key v' nxt else Inr (v', erased c (ftree ft))) = Inr (v, tt)"
    using Suc.prems(2) by (auto simp: LookupTask_execute_def bindR_eq_Inr)
  obtain em' where em': "olfit_LookupTask_execute thread_id ft key w p = Inr (nxt, v', ft\<lparr>fepochs := em'\<rparr>)" "thread_id < length (local_epochs em')"
    using olfit_lookup_step [OF Suc.prems(1) v'] by blast
  have "olfit_quiet c M thread_id (ft\<lparr>fepochs := em'\<rparr>)" using Suc.prems(1) em'(2) by (simp add: olfit_quiet_def)
  then show ?case using Suc.IH [of "ft\<lparr>fepochs := em'\<rparr>" v' nxt] rest em' by (auto split: if_splits)
qed simp

lemma olfit_update_step:
  assumes q: "olfit_quiet c M thread_id ft" and v: "UpdateTask_execute M tbb_lock (erased c (ftree ft)) key value p = Inr (nxt, tt)"
  shows "\<exists>ft'. olfit_UpdateTask_execute thread_id ft key value p = Inr (nxt, ft') \<and> olfit_quiet c M thread_id ft' \<and> erased c (ftree ft') = tt"
proof -
  let ?t = "tbase (ftree ft)" and ?e = "erased c (ftree ft)"
  have u: "unlocked ?t" and M: "mutex_ok M (latch_init c)" using q by (simp_all add: olfit_quiet_def)
  have l: "all_init c ?e" using q by (simp add: all_init_def olfit_quiet_def) (simp add: erased_def)
  obtain n where n: "deref ?t p = Inr n" using v by (auto simp: UpdateTask_execute_def scoped_lock_def on_mutex_def bindR_eq_Inr)
  then obtain a where a: "p = Some a" "heap ?t a = Some n" by (cases p) (auto simp: deref_def split: option.splits)
  have ae: "heap (tbase ?e) a = Some n" using a(2) by simp
  obtain x x' where x: "scoped_lock M tbb_lock ?e (Some a) = Inr (?e\<lparr>tbase := locked (tbase ?e) a x\<rparr>)" "tm_unlock M x = Inr (latch_init c)"
    using lock_idle [OF M l ae] by metis
  obtain em em' where g: "EpochGuard_ctor (fepochs ft) thread_id = Inr em" "EpochGuard_dtor em thread_id = Inr em'"
    "thread_id < length (local_epochs em')" using quiet_guard [OF q] .
  note still = scope_end_unchanged [OF l ae x(2)]
  show ?thesis
  proof (cases "high_key n \<le> key \<or> \<not> is_leaf n")
    case True
    then have "tt = ?e" "if high_key n \<le> key then nxt = right_sibling n else Node_child n key = Inr nxt"
      using v a x(1) still by (auto simp: UpdateTask_execute_def bindR_eq_Inr split: if_splits)
    moreover have "olfit_UpdateTask_execute thread_id ft key value p = Inr (nxt, \<lparr>ftree = ftree ft, fepochs = em'\<rparr>)"
      using calculation(2) True a g(1,2)
      by (cases "high_key n \<le> key") (simp_all add: olfit_UpdateTask_execute_def Let_def validated_idle [OF u a(2)])
    ultimately show ?thesis using quiet_epochs [OF q g(3)] by auto
  next
    case False
    obtain ix fk n' where ix: "Node_index n key = Inr ix" "node_key n ix = Inr fk" "(if fk = key then node_set_value n ix value else Inr n) = Inr n'"
      "nxt = None" "scope_end M (?e\<lparr>tbase := store (locked (tbase ?e) a x) (Some a) n'\<rparr>) (Some a) = Inr tt"
    proof -
      obtain ix fk where ix: "Node_index n key = Inr ix" "node_key n ix = Inr fk"
        using v False a x(1) by (auto simp: UpdateTask_execute_def upgrade_to_writer_def bindR_eq_Inr)
      moreover have "store (locked (tbase ?e) a x) (Some a) n = locked (tbase ?e) a x" using ae by (simp add: store_def fun_upd_idem)
      ultimately show thesis using that [of ix fk] v False a x(1)
        by (cases "fk = key") (auto simp: UpdateTask_execute_def upgrade_to_writer_def bindR_eq_Inr)
    qed
    let ?t1 = "store (locked ?t a (latches ?t a + 2)) (Some a) n'"
    have tt: "tt = ?e\<lparr>tbase := locked (store (tbase ?e) (Some a) n') a (latch_init c)\<rparr>"
      using ix(5) scope_end_idle [of "?e\<lparr>tbase := store (locked (tbase ?e) a x) (Some a) n'\<rparr>" a n' M c] x(2)
      by (simp add: locked_def store_def)
    have "olfit_update_locked ?t key value p = Inr (locked ?t1 a (latches ?t a + 4))"
      using a ix(1-3) header_acquire_eq [OF a(2) u]
      by (simp add: olfit_update_locked_def header_release_def OptimisticLock_unlock_def locked_def add.assoc store_def)
    then have "olfit_UpdateTask_execute thread_id ft key value p
        = Inr (None, \<lparr>ftree = (ftree ft)\<lparr>tbase := locked ?t1 a (latches ?t a + 4)\<rparr>, fepochs = em'\<rparr>)"
      using False a g(1,2) by (simp add: olfit_UpdateTask_execute_def Let_def validated_idle [OF u a(2)])
    moreover have "unlocked (locked ?t1 a (latches ?t a + 4))"
      using u lock_unlocked(3) [of "latches ?t a"] by (auto simp: unlocked_def OptimisticLock_unlock_def add.assoc)
    then have "olfit_quiet c M thread_id \<lparr>ftree = (ftree ft)\<lparr>tbase := locked ?t1 a (latches ?t a + 4)\<rparr>, fepochs = em'\<rparr>"
      using q g(3) by (simp add: olfit_quiet_def)
    moreover have "erased c ((ftree ft)\<lparr>tbase := locked ?t1 a (latches ?t a + 4)\<rparr>) = tt"
      unfolding tt by (simp add: erased_def locked_def store_def fun_upd_idem)
    ultimately show ?thesis using ix(4) by auto
  qed
qed


lemma olfit_update_run:
  assumes "olfit_quiet c M thread_id ft" "UpdateTask_run fuel M tbb_lock (erased c (ftree ft)) key w p = Inr tt"
  shows "\<exists>ft'. olfit_UpdateTask_run fuel thread_id ft key w p = Inr ft' \<and> olfit_quiet c M thread_id ft' \<and> erased c (ftree ft') = tt"
  using assms
proof (induction fuel arbitrary: ft p)
  case (Suc fuel)
  obtain nxt tt1 where e: "UpdateTask_execute M tbb_lock (erased c (ftree ft)) key w p = Inr (nxt, tt1)"
    and rest: "(if nxt \<noteq> None then UpdateTask_run fuel M tbb_lock tt1 key w nxt else Inr tt1) = Inr tt"
    using Suc.prems(2) by (auto simp: bindR_eq_Inr)
  obtain ft1 where ft1: "olfit_UpdateTask_execute thread_id ft key w p = Inr (nxt, ft1)" "olfit_quiet c M thread_id ft1" "erased c (ftree ft1) = tt1"
    using olfit_update_step [OF Suc.prems(1) e] by blast
  then show ?case using Suc.IH [of ft1 nxt] rest by (auto split: if_splits)
qed simp

section \<open>The index\<close>

definition OlfitTree_ok :: "version_t config \<Rightarrow> version_t tbb_mutex \<Rightarrow> nat \<Rightarrow> olfit_tree \<Rightarrow> bool" where
  "OlfitTree_ok c M thread_id ft \<longleftrightarrow> config_ok c \<and> tree_inv c (tbase (ftree ft)) \<and> olfit_quiet c M thread_id ft"

interpretation olfit: map_index "Olfit_insert c M thread_id" "Olfit_update thread_id" "Olfit_lookup thread_id"
    "OlfitTree_ok c M thread_id" "\<lambda>ft. height (tbase (ftree ft))" 65534 "\<lambda>ft. tree_map (tbase (ftree ft))" for c M thread_id
proof
  fix s k v
  assume ok: "OlfitTree_ok c M thread_id s"
  then have q: "olfit_quiet c M thread_id s" and c: "config_ok c" and i: "tree_inv c (tbase (ftree s))" by (simp_all add: OlfitTree_ok_def)
  have M: "mutex_ok M (latch_init c)" using q by (simp add: olfit_quiet_def)
  note e = erased_ok [OF c i q]
  show "\<exists>s'. Olfit_insert c M thread_id s k v = Inr s' \<and> OlfitTree_ok c M thread_id s'
      \<and> tree_map (tbase (ftree s')) = insert_new (tree_map (tbase (ftree s))) k v
      \<and> height (tbase (ftree s')) \<le> Suc (height (tbase (ftree s)))"
    if "height (tbase (ftree s)) \<le> 65534" "k \<noteq> max_key"
    using olfit_build.insert_run [OF q c i _ that(2), of v] that(1) c unfolding Olfit_insert_def OlfitTree_ok_def by auto
  show "\<exists>s'. Olfit_update thread_id s k v = Inr s' \<and> OlfitTree_ok c M thread_id s'
      \<and> tree_map (tbase (ftree s')) = (tree_map (tbase (ftree s)))(k \<mapsto> v)
      \<and> height (tbase (ftree s')) = height (tbase (ftree s))"
    if k: "k \<in> dom (tree_map (tbase (ftree s)))"
  proof -
    obtain tt where tt: "UpdateTask_run (height (tbase (ftree s))) M tbb_lock (erased c (ftree s)) k v (root_node (tbase (ftree s))) = Inr tt"
      "TBBTree_ok c tt" "height (tbase tt) = height (tbase (ftree s))" "tree_map (tbase tt) = (tree_map (tbase (ftree s)))(k \<mapsto> v)"
      using TBB_update_spec [OF M e, of k tbb_lock v] k by (auto simp: TBB_update_def)
    obtain s' where s': "Olfit_update thread_id s k v = Inr s'" "olfit_quiet c M thread_id s'" "erased c (ftree s') = tt"
      using olfit_update_run [OF q tt(1)] by (auto simp: Olfit_update_def)
    have "tree_inv c (tbase (ftree s'))" "tree_map (tbase (ftree s')) = tree_map (tbase tt)" "height (tbase (ftree s')) = height (tbase tt)"
      using tt(2) unfolding s'(3) [symmetric] by (simp_all add: TBBTree_ok_def)
    then show ?thesis using s'(1,2) tt(3,4) c by (auto simp: OlfitTree_ok_def)
  qed
  show "\<exists>s'. Olfit_lookup thread_id s k = Inr (v, s') \<and> OlfitTree_ok c M thread_id s' \<and> tree_map (tbase (ftree s')) = tree_map (tbase (ftree s))"
    if k: "tree_map (tbase (ftree s)) k = Some v"
  proof -
    obtain tt where tt: "TBB_lookup M tbb_no_lock (erased c (ftree s)) k = Inr (v, tt)"
      using tbb.fnd_law [where s = "erased c (ftree s)" and c = c and M = M and sync = tbb_no_lock and k = k and v = v] M e k by auto
    obtain em' where "Olfit_lookup thread_id s k = Inr (v, s\<lparr>fepochs := em'\<rparr>)" "thread_id < length (local_epochs em')"
      using olfit_lookup_run [OF q tt [unfolded TBB_lookup_def]] by (auto simp: Olfit_lookup_def)
    then show ?thesis using ok by (auto simp: OlfitTree_ok_def olfit_quiet_def)
  qed
qed

lemma OlfitTree_ctor_ok:
  assumes "config_ok c" "mutex_ok M (latch_init c)" "\<not> OptimisticLock_is_locked (latch_init c)" "thread_id < threads"
  shows "OlfitTree_ok c M thread_id (OlfitTree_ctor c threads stub)" "tree_map (tbase (ftree (OlfitTree_ctor c threads stub))) = Map.empty"
    "height (tbase (ftree (OlfitTree_ctor c threads stub))) = 1"
proof -
  have "unlocked (tbase (TBBTree_ctor c))" using assms(3) by (simp add: unlocked_def TBBTree_ctor_def Tree_ctor_def Tree_create_node_def Let_def)
  then show "OlfitTree_ok c M thread_id (OlfitTree_ctor c threads stub)"
    using TBBTree_ctor_ok(1) [OF assms(1)] assms
    by (simp add: OlfitTree_ok_def olfit_quiet_def OlfitTree_ctor_def TBBTree_ok_def all_init_def EpochManager_ctor_def MPSCQueue_ctor_def)
qed (simp_all add: OlfitTree_ctor_def TBBTree_ctor_ok)

section \<open>Properties\<close>

text \<open>Every execution of the task passes the destructor of its guard.\<close>

lemma olfit_execute_leaves:
  assumes "olfit_InsertTask_execute c M thread_id ft task node_ptr = Inr (next_node, task', ft')"
  shows "fepochs ft' = epoch_left thread_id (fepochs ft)"
proof -
  obtain em em' where "EpochGuard_ctor (fepochs ft) thread_id = Inr em" "EpochGuard_dtor em thread_id = Inr em'" "fepochs ft' = em'"
    using assms by (auto simp: olfit_InsertTask_execute_def bindR_eq_Inr)
  then show ?thesis using guard_leaves by simp
qed

lemma olfit_run_leaves:
  "olfit_InsertTask_run fuel c M thread_id ft task node_ptr = Inr ft' \<Longrightarrow> fepochs ft' = epoch_left thread_id (fepochs ft)"
proof (induction fuel arbitrary: ft task node_ptr)
  case (Suc fuel)
  then obtain next_node task' ft1 where e: "olfit_InsertTask_execute c M thread_id ft task node_ptr = Inr (next_node, task', ft1)"
      "(if next_node \<noteq> None then olfit_InsertTask_run fuel c M thread_id ft1 task' next_node else Inr ft1) = Inr ft'"
    by (auto simp: bindR_eq_Inr)
  show ?case
  proof (cases "next_node = None")
    case False
    then have "fepochs ft' = epoch_left thread_id (fepochs ft1)" using Suc.IH e(2) by simp
    then show ?thesis using olfit_execute_leaves [OF e(1)] by simp
  qed (use e olfit_execute_leaves [OF e(1)] in simp)
qed simp

text \<open>
  C7. The olfit build refines a map too: without interference an \<^verbatim>\<open>InsertTask\<close> ends, adds a new key and keeps the
  value of a present one, restores the invariant although it climbs by parent pointers and keeps no path, and
  leaves every version unlocked. It leaves the epoch it joined in each execution: in the end the local epoch of the
  thread is the largest one, and nothing else of the epoch manager has changed.
\<close>

theorem olfit_insert_refines_map:
  assumes "OlfitTree_ok c M thread_id ft" "height (tbase (ftree ft)) < 65535" "k \<noteq> max_key"
  shows "\<exists>ft'. Olfit_insert c M thread_id ft k v = Inr ft' \<and> OlfitTree_ok c M thread_id ft'
    \<and> tree_map (tbase (ftree ft')) = insert_new (tree_map (tbase (ftree ft))) k v
    \<and> fepochs ft' = (fepochs ft)\<lparr>local_epochs := (local_epochs (fepochs ft))[thread_id := max_epoch]\<rparr>
    \<and> local_epochs (fepochs ft') ! thread_id = max_epoch"
proof -
  obtain ft' where ft': "Olfit_insert c M thread_id ft k v = Inr ft'" "OlfitTree_ok c M thread_id ft'"
      "tree_map (tbase (ftree ft')) = insert_new (tree_map (tbase (ftree ft))) k v"
    using olfit.ins_law [OF assms(1) _ assms(3)] assms(2) by auto
  moreover have "thread_id < length (local_epochs (fepochs ft))" using assms(1) by (simp add: OlfitTree_ok_def olfit_quiet_def)
  ultimately show ?thesis using olfit_run_leaves [OF ft'(1) [unfolded Olfit_insert_def]] by (simp add: epoch_left_def)
qed

definition word_mutex :: "version_t tbb_mutex" where
  "word_mutex = \<lparr>tm_lock = (\<lambda>l. if l = OptimisticLock_init then Inr (l + 1) else Inl SpinsForever),
     tm_lock_shared = (\<lambda>l. if l = OptimisticLock_init then Inr (l + 1) else Inl SpinsForever),
     tm_upgrade = (\<lambda>l. Inr l), tm_unlock = (\<lambda>l. Inr (l - 1))\<rparr>"

lemma olfit_example_ok:
  "OlfitTree_ok opt_config word_mutex 1 (OlfitTree_ctor opt_config 2 900)" "height (tbase (ftree (OlfitTree_ctor opt_config 2 900))) = 1"
  "tree_map (tbase (ftree (OlfitTree_ctor opt_config 2 900))) = Map.empty"
proof -
  have c: "config_ok opt_config" "\<not> OptimisticLock_is_locked (latch_init opt_config)"
    using opt_ctor_ok by (simp_all add: OptimisticTree_ok_def)
  have M: "mutex_ok word_mutex (latch_init opt_config)" by (simp add: mutex_ok_def word_mutex_def opt_config_def)
  show "OlfitTree_ok opt_config word_mutex 1 (OlfitTree_ctor opt_config 2 900)" "height (tbase (ftree (OlfitTree_ctor opt_config 2 900))) = 1"
    "tree_map (tbase (ftree (OlfitTree_ctor opt_config 2 900))) = Map.empty"
    using OlfitTree_ctor_ok [OF c(1) M c(2), of 1 2 900] by simp_all
qed

theorem olfit_insert_refines_map_witness:
  "\<exists>ft'. Olfit_insert opt_config word_mutex 1 (OlfitTree_ctor opt_config 2 900) 5 8 = Inr ft' \<and> tree_map (tbase (ftree ft')) = [5 \<mapsto> 8]"
  using olfit_insert_refines_map [OF olfit_example_ok(1), of 5 8] olfit_example_ok(2,3) by (auto simp: max_key_def insert_new_def)

text \<open>The destructor hands every node to the epoch manager, and all of them are freed exactly once.\<close>

lemma olfit_destructor_frees_all:
  assumes "tree_inv c (tbase (ftree ft))" "garbage_is (fepochs ft) gs" "set gs \<inter> dom (heap (tbase (ftree ft))) = {}"
    and "heap (tbase (ftree ft)) (m_end (garbage_queue (fepochs ft))) = None"
    and "length gs + card (dom (heap (tbase (ftree ft)))) < fuel"
  shows "\<exists>em xs. OlfitTree_dtor fuel ft = Inr em \<and> mem_freed em = mem_freed (fepochs ft) @ gs @ xs
    \<and> distinct xs \<and> set xs = dom (heap (tbase (ftree ft)))"
  using reclaim_all_frees [OF assms] by (simp add: OlfitTree_dtor_def)

end
