(* ===== verification/OLC_Node.thy ===== *)
theory OLC_Node
  imports BLink_Node
begin

text \<open>
  The lock and the nodes of the B-tree with optimistic lock coupling:
  \<^verbatim>\<open>src/src/indices/olc_btree/thread/btree_olc.h\<close> up to \<^verbatim>\<open>BTreeInner\<close>. The lock operations are
  functions on the 64-bit word; the flag \<^verbatim>\<open>needRestart\<close> that the code passes by reference is an
  argument and a result. A node is one record for leaves and inner nodes; its unused array is
  empty. Memory from \<^verbatim>\<open>new\<close> is not initialised: \<open>olc_junk\<close> says what it holds.
\<close>

unbundle bit_operations_syntax

section \<open>OptLock\<close>

definition OptLock_init :: "64 word" where
  "OptLock_init = 4"

definition OptLock_isLocked :: "64 word \<Rightarrow> bool" where
  "OptLock_isLocked version = (version AND 2 = 2)"

definition OptLock_isObsolete :: "64 word \<Rightarrow> bool" where
  "OptLock_isObsolete version = (version AND 1 = 1)"

definition OptLock_readLockOrRestart :: "64 word \<Rightarrow> bool \<Rightarrow> 64 word \<times> bool" where
  "OptLock_readLockOrRestart w needRestart = (w, OptLock_isLocked w \<or> OptLock_isObsolete w \<or> needRestart)"

text \<open>The word, the version the caller passed by reference, and the flag; a failed swap overwrites the version.\<close>

definition OptLock_upgradeToWriteLockOrRestart :: "64 word \<Rightarrow> 64 word \<Rightarrow> bool \<Rightarrow> 64 word \<times> 64 word \<times> bool" where
  "OptLock_upgradeToWriteLockOrRestart w version needRestart =
     (if w = version then (version + 2, version + 2, needRestart) else (w, w, True))"

definition OptLock_writeLockOrRestart :: "64 word \<Rightarrow> bool \<Rightarrow> 64 word \<times> bool" where
  "OptLock_writeLockOrRestart w needRestart =
     (let (version, r) = OptLock_readLockOrRestart w needRestart
      in if r then (w, r)
         else let (w', version', r') = OptLock_upgradeToWriteLockOrRestart w version r in (w', r'))"

definition OptLock_writeUnlock :: "64 word \<Rightarrow> 64 word" where
  "OptLock_writeUnlock w = w + 2"

definition OptLock_readUnlockOrRestart :: "64 word \<Rightarrow> 64 word \<Rightarrow> bool" where
  "OptLock_readUnlockOrRestart w startRead = (startRead \<noteq> w)"

definition OptLock_checkOrRestart :: "64 word \<Rightarrow> 64 word \<Rightarrow> bool" where
  "OptLock_checkOrRestart w startRead = OptLock_readUnlockOrRestart w startRead"

definition OptLock_writeUnlockObsolete :: "64 word \<Rightarrow> 64 word" where
  "OptLock_writeUnlockObsolete w = w + 3"

section \<open>Nodes\<close>

datatype page_type = BTreeInner | BTreeLeaf

record olc_node =
  lock_version :: "64 word"
  page_type :: page_type
  count :: nat
  okeys :: "key_type list"
  payloads :: "value_type list"
  children :: "addr option list"

record olc_config =
  node_base_size :: nat
  olc_junk :: "addr \<Rightarrow> nat \<Rightarrow> 64 word"

definition BTreeLeaf_maxEntries :: "olc_config \<Rightarrow> nat" where
  "BTreeLeaf_maxEntries c = (Config_node_size - node_base_size c) div (8 + 8)"

definition BTreeInner_maxEntries :: "olc_config \<Rightarrow> nat" where
  "BTreeInner_maxEntries c = (Config_node_size - node_base_size c) div (8 + 8)"

definition BTreeLeaf_ctor :: "olc_config \<Rightarrow> addr \<Rightarrow> olc_node" where
  "BTreeLeaf_ctor c a = \<lparr>lock_version = OptLock_init, page_type = BTreeLeaf, count = 0,
     okeys = map (olc_junk c a) [0..<BTreeLeaf_maxEntries c],
     payloads = map (\<lambda>i. olc_junk c a (BTreeLeaf_maxEntries c + i)) [0..<BTreeLeaf_maxEntries c],
     children = []\<rparr>"

definition BTreeInner_ctor :: "olc_config \<Rightarrow> addr \<Rightarrow> olc_node" where
  "BTreeInner_ctor c a = \<lparr>lock_version = OptLock_init, page_type = BTreeInner, count = 0,
     okeys = map (\<lambda>i. olc_junk c a (BTreeInner_maxEntries c + i)) [0..<BTreeInner_maxEntries c],
     payloads = [],
     children = map (\<lambda>i. pointer_of_word (olc_junk c a i)) [0..<BTreeInner_maxEntries c]\<rparr>"

definition BTreeLeaf_isFull :: "olc_config \<Rightarrow> olc_node \<Rightarrow> bool" where
  "BTreeLeaf_isFull c n = (count n = BTreeLeaf_maxEntries c)"

definition BTreeInner_isFull :: "olc_config \<Rightarrow> olc_node \<Rightarrow> bool" where
  "BTreeInner_isFull c n = (count n = BTreeInner_maxEntries c - 1)"

section \<open>Searching\<close>

text \<open>The loop of \<^verbatim>\<open>lowerBound\<close> tests its condition after the body, so it reads a key even when \<open>count\<close> is 0.\<close>

function olc_search_loop :: "key_type list \<Rightarrow> key_type \<Rightarrow> nat \<Rightarrow> nat \<Rightarrow> nat result" where
  "olc_search_loop ks k lower upper =
     (let mid = (upper - lower) div 2 + lower
      in bindR (aget ks mid) (\<lambda>x.
         if k < x then (if lower < mid then olc_search_loop ks k lower mid else Inr lower)
         else if x < k then (if mid + 1 < upper then olc_search_loop ks k (mid + 1) upper else Inr (mid + 1))
         else Inr mid))"
  by pat_completeness auto
termination by (relation "measure (\<lambda>(ks, k, l, u). u - l)") auto

declare olc_search_loop.simps [simp del]

definition BTreeLeaf_lowerBound :: "olc_node \<Rightarrow> key_type \<Rightarrow> nat result" where
  "BTreeLeaf_lowerBound n k = olc_search_loop (okeys n) k 0 (count n)"

definition BTreeInner_lowerBound :: "olc_node \<Rightarrow> key_type \<Rightarrow> nat result" where
  "BTreeInner_lowerBound n k = olc_search_loop (okeys n) k 0 (count n)"

text \<open>The branch-free search moves \<open>base\<close>, here the offset of the pointer into the key array.\<close>

function olc_bf_loop :: "key_type list \<Rightarrow> key_type \<Rightarrow> nat \<Rightarrow> nat \<Rightarrow> nat result" where
  "olc_bf_loop ks k base n =
     (if 1 < n
      then let half = n div 2
           in bindR (aget ks (base + half)) (\<lambda>x. olc_bf_loop ks k (if x < k then base + half else base) (n - half))
      else bindR (aget ks base) (\<lambda>x. Inr ((if x < k then 1 else 0) + base)))"
  by pat_completeness auto
termination by (relation "measure (\<lambda>(ks, k, b, n). n)") auto

declare olc_bf_loop.simps [simp del]

definition BTreeLeaf_lowerBoundBF :: "olc_node \<Rightarrow> key_type \<Rightarrow> nat result" where
  "BTreeLeaf_lowerBoundBF n k = olc_bf_loop (okeys n) k 0 (count n)"

definition BTreeInner_lowerBoundBF :: "olc_node \<Rightarrow> key_type \<Rightarrow> nat result" where
  "BTreeInner_lowerBoundBF n k = olc_bf_loop (okeys n) k 0 (count n)"

section \<open>Changing nodes\<close>

definition BTreeLeaf_insert :: "olc_config \<Rightarrow> olc_node \<Rightarrow> key_type \<Rightarrow> value_type \<Rightarrow> olc_node result" where
  "BTreeLeaf_insert c n k p =
     (if \<not> count n < BTreeLeaf_maxEntries c then Inl AssertionFailed
      else if count n \<noteq> 0
      then bindR (BTreeLeaf_lowerBound n k) (\<lambda>pos.
           bindR (if pos < count n then bindR (aget (okeys n) pos) (\<lambda>x. Inr (x = k)) else Inr False) (\<lambda>present.
           if present
           then bindR (aset (payloads n) pos p) (\<lambda>ps. Inr (n\<lparr>payloads := ps\<rparr>))
           else bindR (memmove (okeys n) (pos + 1) pos (count n - pos)) (\<lambda>ks.
                bindR (memmove (payloads n) (pos + 1) pos (count n - pos)) (\<lambda>ps.
                bindR (aset ks pos k) (\<lambda>ks'.
                bindR (aset ps pos p) (\<lambda>ps'.
                Inr (n\<lparr>okeys := ks', payloads := ps', count := count n + 1\<rparr>)))))))
      else bindR (aset (okeys n) 0 k) (\<lambda>ks.
           bindR (aset (payloads n) 0 p) (\<lambda>ps.
           Inr (n\<lparr>okeys := ks, payloads := ps, count := count n + 1\<rparr>))))"

text \<open>The separator, the old node and the new one, which is allocated at the given address.\<close>

definition BTreeLeaf_split :: "olc_config \<Rightarrow> addr \<Rightarrow> olc_node \<Rightarrow> (key_type \<times> olc_node \<times> olc_node) result" where
  "BTreeLeaf_split c new n =
     (let m = BTreeLeaf_ctor c new;
          m_count = count n - count n div 2;
          n_count = count n - m_count
      in bindR (memcpy (okeys m) 0 (okeys n) n_count m_count) (\<lambda>ks.
         bindR (memcpy (payloads m) 0 (payloads n) n_count m_count) (\<lambda>ps.
         bindR (if n_count = 0 then Inl OutOfBounds else aget (okeys n) (n_count - 1)) (\<lambda>sep.
         Inr (sep, n\<lparr>count := n_count\<rparr>, m\<lparr>okeys := ks, payloads := ps, count := m_count\<rparr>)))))"

definition BTreeInner_split :: "olc_config \<Rightarrow> addr \<Rightarrow> olc_node \<Rightarrow> (key_type \<times> olc_node \<times> olc_node) result" where
  "BTreeInner_split c new n =
     (let m = BTreeInner_ctor c new;
          m_count = count n - count n div 2
      in if count n < m_count + 1 then Inl NarrowingOverflow
         else let n_count = count n - m_count - 1
         in bindR (aget (okeys n) n_count) (\<lambda>sep.
            bindR (memcpy (okeys m) 0 (okeys n) (n_count + 1) (m_count + 1)) (\<lambda>ks.
            bindR (memcpy (children m) 0 (children n) (n_count + 1) (m_count + 1)) (\<lambda>cs.
            Inr (sep, n\<lparr>count := n_count\<rparr>, m\<lparr>okeys := ks, children := cs, count := m_count\<rparr>)))))"

definition BTreeInner_insert :: "olc_config \<Rightarrow> olc_node \<Rightarrow> key_type \<Rightarrow> addr option \<Rightarrow> olc_node result" where
  "BTreeInner_insert c n k child =
     (if \<not> count n < BTreeInner_maxEntries c - 1 then Inl AssertionFailed
      else bindR (BTreeInner_lowerBound n k) (\<lambda>pos.
           if count n + 1 < pos then Inl OutOfBounds
           else bindR (memmove (okeys n) (pos + 1) pos (count n - pos + 1)) (\<lambda>ks.
                bindR (memmove (children n) (pos + 1) pos (count n - pos + 1)) (\<lambda>cs.
                bindR (aset ks pos k) (\<lambda>ks'.
                bindR (aset cs pos child) (\<lambda>cs1.
                bindR (aget cs1 pos) (\<lambda>x.
                bindR (aget cs1 (pos + 1)) (\<lambda>y.
                bindR (aset cs1 pos y) (\<lambda>cs2.
                bindR (aset cs2 (pos + 1) x) (\<lambda>cs3.
                Inr (n\<lparr>okeys := ks', children := cs3, count := count n + 1\<rparr>)))))))))))"

section \<open>The searches find the lower bound\<close>

abbreviation olive :: "olc_node \<Rightarrow> key_type list" where
  "olive n \<equiv> take (count n) (okeys n)"

lemma olc_search_spec:
  assumes "sorted_less xs" "lower < upper" "upper \<le> length xs" "length xs \<le> length ks" "\<forall>i < length xs. ks ! i = xs ! i"
    and "\<forall>i < lower. xs ! i < k" "\<forall>i. upper \<le> i \<and> i < length xs \<longrightarrow> k \<le> xs ! i"
  shows "\<exists>p \<le> length xs. olc_search_loop ks k lower upper = Inr p
    \<and> (\<forall>i < p. xs ! i < k) \<and> (\<forall>i. p \<le> i \<and> i < length xs \<longrightarrow> k \<le> xs ! i)"
  using assms
proof (induction ks k lower upper rule: olc_search_loop.induct)
  case (1 ks k lower upper)
  define mid where "mid = (upper - lower) div 2 + lower"
  have mid: "lower \<le> mid" "mid < upper" using "1.prems"(2) by (auto simp: mid_def)
  have x: "aget ks mid = Inr (xs ! mid)" "mid < length xs"
    using mid "1.prems"(3-5) by (simp_all add: aget_def)
  have below: "\<forall>i \<le> mid. xs ! i < k" if "xs ! mid < k"
    using that x(2) "1.prems"(1) by (metis le_less_trans sorted_less_nth_le)
  have above: "\<forall>i. mid \<le> i \<and> i < length xs \<longrightarrow> k \<le> xs ! i" if "k \<le> xs ! mid"
    using that "1.prems"(1) by (metis order.trans sorted_less_nth_le)
  note eq = olc_search_loop.simps [of ks k lower upper, folded mid_def, unfolded Let_def x(1) bindR_Inr]
  consider "k < xs ! mid" "lower < mid" | "k < xs ! mid" "mid = lower"
    | "xs ! mid < k" "mid + 1 < upper" | "xs ! mid < k" "upper = mid + 1" | "xs ! mid = k"
    using mid by fastforce
  then show ?case
  proof cases
    case 1
    then have "mid \<le> length xs" "\<forall>i. mid \<le> i \<and> i < length xs \<longrightarrow> k \<le> xs ! i" using above x(2) by (simp_all add: less_imp_le)
    then show ?thesis unfolding eq
      using "1.IH"(1) [OF mid_def x(1) 1 "1.prems"(1) 1(2) _ "1.prems"(4-6)] 1 by simp
  next
    case 2
    then show ?thesis unfolding eq using above "1.prems"(3,6) x(2) by (intro exI [of _ lower]) (auto simp: less_imp_le)
  next
    case 3
    then have "\<not> k < xs ! mid" "\<forall>i < mid + 1. xs ! i < k" using below by auto
    then show ?thesis unfolding eq using "1.IH"(2) [OF mid_def x(1) _ 3 "1.prems"(1) 3(2) "1.prems"(3-5) _ "1.prems"(7)] 3 by simp
  next
    case 4
    then show ?thesis unfolding eq using below "1.prems"(3,7) by (intro exI [of _ upper]) (auto simp: less_Suc_eq_le)
  next
    case 5
    then show ?thesis unfolding eq
      using above x(2) "1.prems"(1) by (intro exI [of _ mid]) (auto intro: sorted_less_nth_mono)
  qed
qed

lemma olc_lowerBound_eq:
  assumes "sorted_less (olive n)" "0 < count n" "count n \<le> length (okeys n)"
  shows "BTreeLeaf_lowerBound n k = Inr (std_lower_bound (olive n) k)"
    "BTreeInner_lowerBound n k = Inr (std_lower_bound (olive n) k)"
proof -
  obtain p where "p \<le> length (olive n)" "olc_search_loop (okeys n) k 0 (count n) = Inr p"
      "\<forall>i < p. olive n ! i < k" "\<forall>i. p \<le> i \<and> i < length (olive n) \<longrightarrow> k \<le> olive n ! i"
  proof -
    have "\<exists>p \<le> length (olive n). olc_search_loop (okeys n) k 0 (count n) = Inr p
        \<and> (\<forall>i < p. olive n ! i < k) \<and> (\<forall>i. p \<le> i \<and> i < length (olive n) \<longrightarrow> k \<le> olive n ! i)"
      by (rule olc_search_spec [OF assms(1)]) (use assms(2,3) in auto)
    then show thesis using that by blast
  qed
  moreover then have "std_lower_bound (olive n) k = p" using std_lb.lb_unique [OF _ assms(1)] by simp
  ultimately show "BTreeLeaf_lowerBound n k = Inr (std_lower_bound (olive n) k)"
      "BTreeInner_lowerBound n k = Inr (std_lower_bound (olive n) k)"
    by (simp_all add: BTreeLeaf_lowerBound_def BTreeInner_lowerBound_def)
qed

lemma olc_bf_spec:
  assumes "sorted_less xs" "0 < n" "base + n \<le> length xs" "length xs \<le> length ks" "\<forall>i < length xs. ks ! i = xs ! i"
    and "\<forall>i < base. xs ! i < k" "\<forall>i. base + n \<le> i \<and> i < length xs \<longrightarrow> k \<le> xs ! i"
  shows "olc_bf_loop ks k base n = Inr (std_lower_bound xs k)"
  using assms
proof (induction ks k base n rule: olc_bf_loop.induct)
  case (1 ks k base n)
  show ?case
  proof (cases "1 < n")
    case True
    define half where "half = n div 2"
    have half: "0 < half" "half < n" using True by (auto simp: half_def)
    have x: "aget ks (base + half) = Inr (xs ! (base + half))" "base + half < length xs"
      using half "1.prems"(3-5) by (simp_all add: aget_def)
    have eq: "olc_bf_loop ks k base n = olc_bf_loop ks k (if xs ! (base + half) < k then base + half else base) (n - half)"
      using True x(1) by (subst olc_bf_loop.simps) (simp add: Let_def half_def)
    show ?thesis
      unfolding eq
    proof (rule "1.IH" [OF True half_def x(1)])
      let ?b = "if xs ! (base + half) < k then base + half else base"
      show "0 < n - half" "?b + (n - half) \<le> length xs" using half "1.prems"(3) by auto
      show "\<forall>i < ?b. xs ! i < k"
        using "1.prems"(1,6) x(2) by (auto intro: order.strict_trans sorted_less_nth_mono)
      show "\<forall>i. ?b + (n - half) \<le> i \<and> i < length xs \<longrightarrow> k \<le> xs ! i"
      proof (cases "xs ! (base + half) < k")
        case True
        then show ?thesis using "1.prems"(7) half by simp
      next
        case False
        show ?thesis
        proof (intro allI impI)
          fix i
          assume i: "?b + (n - half) \<le> i \<and> i < length xs"
          have "half \<le> n - half" by (simp add: half_def)
          moreover have "base + (n - half) \<le> i" using i False by simp
          ultimately have "base + half \<le> i" by linarith
          then have "xs ! (base + half) \<le> xs ! i" using i "1.prems"(1) sorted_less_nth_le by blast
          then show "k \<le> xs ! i" using False by simp
        qed
      qed
    qed (use "1.prems"(1,4,5) in simp_all)
  next
    case False
    then have n: "n = 1" using "1.prems"(2) by simp
    have x: "aget ks base = Inr (xs ! base)" "base < length xs"
      using n "1.prems"(3-5) by (simp_all add: aget_def)
    let ?p = "(if xs ! base < k then 1 else 0) + base"
    have "olc_bf_loop ks k base n = Inr ?p" using n x(1) by (simp add: olc_bf_loop.simps)
    moreover have "std_lower_bound xs k = ?p"
    proof (rule std_lb.lb_unique [OF _ "1.prems"(1)])
      show "\<forall>i < ?p. xs ! i < k" using "1.prems"(6) by (auto simp: less_Suc_eq)
      show "\<forall>i. ?p \<le> i \<and> i < length xs \<longrightarrow> k \<le> xs ! i"
        using "1.prems"(1,7) n by (auto simp: not_less) (metis order.trans sorted_less_nth_le)
    qed (use x(2) in auto)
    ultimately show ?thesis by simp
  qed
qed

text \<open>
  The branching and the branch-free search of leaves and inner nodes return the same position on
  every node that holds a key: the number of keys below the searched one.
\<close>

theorem olc_searches_agree:
  assumes "sorted_less (take (count n) (okeys n))" "0 < count n" "count n \<le> length (okeys n)"
  shows "BTreeLeaf_lowerBound n k = Inr (length (takeWhile (\<lambda>x. x < k) (take (count n) (okeys n))))
    \<and> BTreeLeaf_lowerBoundBF n k = BTreeLeaf_lowerBound n k
    \<and> BTreeInner_lowerBound n k = BTreeLeaf_lowerBound n k \<and> BTreeInner_lowerBoundBF n k = BTreeLeaf_lowerBound n k"
proof -
  have "olc_bf_loop (okeys n) k 0 (count n) = Inr (std_lower_bound (olive n) k)"
    by (rule olc_bf_spec [OF assms(1,2)]) (use assms(3) in auto)
  then show ?thesis
    using olc_lowerBound_eq [OF assms, of k] std_lb.lb_eq_takeWhile [OF _ assms(1), of k]
    by (simp add: BTreeLeaf_lowerBoundBF_def BTreeInner_lowerBoundBF_def)
qed

theorem olc_searches_agree_witness:
  "BTreeLeaf_lowerBoundBF (BTreeLeaf_ctor \<lparr>node_base_size = 960, olc_junk = (\<lambda>a i. 10 * of_nat i)\<rparr> 0\<lparr>count := 3\<rparr>) 15
     = BTreeLeaf_lowerBound (BTreeLeaf_ctor \<lparr>node_base_size = 960, olc_junk = (\<lambda>a i. 10 * of_nat i)\<rparr> 0\<lparr>count := 3\<rparr>) 15"
proof -
  let ?n = "BTreeLeaf_ctor \<lparr>node_base_size = 960, olc_junk = (\<lambda>a i. 10 * of_nat i)\<rparr> 0\<lparr>count := 3\<rparr>"
  have k: "okeys ?n = [0, 10, 20, 30]"
    by (simp add: BTreeLeaf_ctor_def BTreeLeaf_maxEntries_def Config_node_size_def upt_rec)
  have "sorted_less (take (count ?n) (okeys ?n))" "0 < count ?n" "count ?n \<le> length (okeys ?n)"
    unfolding k by simp_all
  from olc_searches_agree [OF this, of 15] show ?thesis by blast
qed

section \<open>What the node operations do\<close>

text \<open>
  The inner node moves one key and one child more than are live; the slot is there because the
  arrays are one longer than an inner node ever fills.
\<close>

lemma shift_long:
  assumes "i \<le> n" "Suc n < length xs"
  obtains ys where "memmove xs (i + 1) i (n - i + 1) = Inr ys" "length ys = length xs"
    "\<forall>j < length xs. ys ! j = (if j \<le> i then xs ! j else if j \<le> Suc n then xs ! (j - 1) else xs ! j)"
proof
  let ?ys = "take (i + 1) xs @ take (n - i + 1) (drop i xs) @ drop (i + 1 + (n - i + 1)) xs"
  show "memmove xs (i + 1) i (n - i + 1) = Inr ?ys" using assms by (simp add: memmove_def)
  show "length ?ys = length xs" using assms by auto
  show "\<forall>j < length xs. ?ys ! j = (if j \<le> i then xs ! j else if j \<le> Suc n then xs ! (j - 1) else xs ! j)"
  proof (intro allI impI)
    fix j
    assume j: "j < length xs"
    consider "j \<le> i" | "i < j" "j \<le> Suc n" | "Suc n < j" by linarith
    then show "?ys ! j = (if j \<le> i then xs ! j else if j \<le> Suc n then xs ! (j - 1) else xs ! j)"
    proof cases
      case 3
      then have "Suc (Suc (j - 2)) = j" by simp
      then show ?thesis using assms j 3 by (auto simp: nth_append)
    qed (use assms j in \<open>auto simp: nth_append\<close>)
  qed
qed

lemma take_gap:
  assumes "i \<le> n" "n < length xs" "length ys = length xs"
    and "\<forall>j < length xs. ys ! j = (if j \<le> i then xs ! j else if j \<le> Suc n then xs ! (j - 1) else xs ! j)"
  shows "take (Suc n) (ys[i := x]) = insert_at i x (take n xs)"
  using assms by (intro nth_equalityI) (auto simp: nth_insert_at nth_list_update)

lemma take_gap_Suc:
  assumes "i \<le> n" "Suc n < length xs" "length ys = length xs"
    and "\<forall>j < length xs. ys ! j = (if j \<le> i then xs ! j else if j \<le> Suc n then xs ! (j - 1) else xs ! j)"
  shows "take (Suc (Suc n)) (ys[Suc i := x]) = insert_at (Suc i) x (take (Suc n) xs)"
  using assms by (intro nth_equalityI) (auto simp: nth_insert_at nth_list_update)

lemma BTreeInner_insert_eq:
  assumes srt: "sorted_less (olive n)" and cnt: "0 < count n" "count n < BTreeInner_maxEntries c - 1"
    and len: "length (okeys n) = BTreeInner_maxEntries c" "length (children n) = BTreeInner_maxEntries c"
  obtains n' where "BTreeInner_insert c n k child = Inr n'" "count n' = Suc (count n)" "page_type n' = page_type n"
    "lock_version n' = lock_version n" "length (okeys n') = length (okeys n)" "length (children n') = length (children n)"
    "olive n' = insert_at (std_lower_bound (olive n) k) k (olive n)"
    "take (Suc (count n')) (children n')
       = insert_at (Suc (std_lower_bound (olive n) k)) child (take (Suc (count n)) (children n))"
proof -
  define p where "p = std_lower_bound (olive n) k"
  have p: "p \<le> count n" using std_lb.lb_le [OF _ srt, of k] len cnt by (simp add: p_def)
  have lb: "BTreeInner_lowerBound n k = Inr p"
    unfolding p_def using olc_lowerBound_eq(2) [OF srt cnt(1)] len(1) cnt(2) by simp
  have room: "Suc (count n) < length (okeys n)" "Suc (count n) < length (children n)" using cnt(2) len by simp_all
  obtain ks where ks: "memmove (okeys n) (p + 1) p (count n - p + 1) = Inr ks" "length ks = length (okeys n)"
      "\<forall>j < length (okeys n). ks ! j = (if j \<le> p then okeys n ! j else if j \<le> Suc (count n) then okeys n ! (j - 1) else okeys n ! j)"
    using shift_long [OF p room(1)] .
  obtain cs where cs: "memmove (children n) (p + 1) p (count n - p + 1) = Inr cs" "length cs = length (children n)"
      "\<forall>j < length (children n). cs ! j = (if j \<le> p then children n ! j else if j \<le> Suc (count n) then children n ! (j - 1) else children n ! j)"
    using shift_long [OF p room(2)] .
  have bound: "p < length ks" "Suc p < length cs" using ks(2) cs(2) p cnt(2) len by auto
  have "cs ! Suc p = children n ! p" "cs ! p = children n ! p" using cs(2,3) bound p by auto
  then have sw: "((cs[p := child])[p := cs ! Suc p])[Suc p := child] = cs[Suc p := child]"
    using bound by (intro nth_equalityI) (auto simp: nth_list_update)
  let ?n' = "n\<lparr>okeys := ks[p := k], children := cs[Suc p := child], count := count n + 1\<rparr>"
  have "BTreeInner_insert c n k child = Inr ?n'"
    using cnt lb p ks(1) cs(1) bound sw by (simp add: BTreeInner_insert_def arr_simps)
  moreover have "olive ?n' = insert_at p k (olive n)"
    using take_gap [OF p _ ks(2,3)] cnt(2) len(1) by simp
  moreover have "take (Suc (count ?n')) (children ?n') = insert_at (Suc p) child (take (Suc (count n)) (children n))"
    using take_gap_Suc [OF p _ cs(2,3)] cnt(2) len(2) by simp
  ultimately show thesis using that [of ?n'] ks(2) cs(2) unfolding p_def by simp
qed

abbreviation olive_vals :: "olc_node \<Rightarrow> value_type list" where
  "olive_vals n \<equiv> take (count n) (payloads n)"

definition olc_leaf_map :: "olc_node \<Rightarrow> key_type \<rightharpoonup> value_type" where
  "olc_leaf_map n = map_of (zip (olive n) (olive_vals n))"

definition olc_leaf_shape :: "olc_config \<Rightarrow> olc_node \<Rightarrow> bool" where
  "olc_leaf_shape c n \<longleftrightarrow> page_type n = BTreeLeaf \<and> length (okeys n) = BTreeLeaf_maxEntries c
     \<and> length (payloads n) = BTreeLeaf_maxEntries c \<and> count n \<le> BTreeLeaf_maxEntries c \<and> sorted_less (olive n)"

lemma BTreeLeaf_insert_eq:
  assumes sh: "olc_leaf_shape c n" and room: "count n < BTreeLeaf_maxEntries c"
  obtains n' where "BTreeLeaf_insert c n k v = Inr n'" "olc_leaf_shape c n'" "lock_version n' = lock_version n"
    "set (olive n') = insert k (set (olive n))" "olc_leaf_map n' = (olc_leaf_map n)(k \<mapsto> v)"
proof (cases "count n = 0")
  case True
  let ?n' = "n\<lparr>okeys := (okeys n)[0 := k], payloads := (payloads n)[0 := v], count := 1\<rparr>"
  have one: "take 1 (xs[0 := x]) = [x]" if "0 < length xs" for xs :: "'a list" and x using that by (cases xs) auto
  have "0 < length (okeys n)" "0 < length (payloads n)" using sh room by (auto simp: olc_leaf_shape_def)
  then have l: "olive ?n' = [k]" "olive_vals ?n' = [v]" using one [of "okeys n" k] one [of "payloads n" v] by simp_all
  have "BTreeLeaf_insert c n k v = Inr ?n'"
    using True room sh by (simp add: BTreeLeaf_insert_def arr_simps olc_leaf_shape_def)
  then show thesis using that [of ?n'] sh room True l by (simp add: olc_leaf_shape_def olc_leaf_map_def)
next
  case False
  have len: "length (okeys n) = BTreeLeaf_maxEntries c" "length (payloads n) = BTreeLeaf_maxEntries c"
    and srt: "sorted_less (olive n)" using sh by (simp_all add: olc_leaf_shape_def)
  define p where "p = std_lower_bound (olive n) k"
  have p: "p \<le> count n" using std_lb.lb_le [OF _ srt, of k] len room by (simp add: p_def)
  have lb: "BTreeLeaf_lowerBound n k = Inr p"
    unfolding p_def using olc_lowerBound_eq(1) [OF srt] False len(1) room by simp
  have mem: "k \<in> set (olive n) \<longleftrightarrow> p < count n \<and> okeys n ! p = k"
    using std_lb.lb_mem_iff [OF _ srt, of k] len room by (auto simp: p_def)
  have pres: "(if p < count n then bindR (aget (okeys n) p) (\<lambda>x. Inr (x = k)) else Inr False) = Inr (k \<in> set (olive n))"
    using mem len(1) room by (simp add: arr_simps)
  show thesis
  proof (cases "k \<in> set (olive n)")
    case True
    let ?n' = "n\<lparr>payloads := (payloads n)[p := v]\<rparr>"
    have pl: "p < count n" "olive n ! p = k" using True mem by simp_all
    have "BTreeLeaf_insert c n k v = Inr ?n'"
      using room False lb pres True pl(1) len(2) by (simp add: BTreeLeaf_insert_def arr_simps)
    moreover have "map_of (zip (olive n) ((olive_vals n)[p := v])) = (map_of (zip (olive n) (olive_vals n)))(olive n ! p \<mapsto> v)"
      using srt len room pl(1) by (intro map_of_zip_list_update) (auto simp: strict_sorted_iff)
    then have "olc_leaf_map ?n' = (olc_leaf_map n)(k \<mapsto> v)"
      using pl by (simp add: olc_leaf_map_def take_update_swap)
    ultimately show thesis using that [of ?n'] sh True by (simp add: olc_leaf_shape_def insert_absorb)
  next
    case absent: False
    let ?n' = "n\<lparr>okeys := open_gap p k (count n) (okeys n), payloads := open_gap p v (count n) (payloads n),
      count := count n + 1\<rparr>"
    have gap: "bindR (memmove xs (p + 1) p (count n - p)) (\<lambda>ys. aset ys p x) = Inr (open_gap p x (count n) xs)"
      if "count n < length xs" for xs :: "64 word list" and x
    proof -
      have "memmove xs (p + 1) p (count n - p) = Inr xs" if "\<not> p < count n"
        using that p \<open>count n < length xs\<close> by (simp add: memmove_def)
      then show ?thesis using shift_store_open_gap [OF p that, of x] by (cases "p < count n") simp_all
    qed
    obtain ks where ks: "memmove (okeys n) (p + 1) p (count n - p) = Inr ks" "aset ks p k = Inr (open_gap p k (count n) (okeys n))"
      using gap [of "okeys n" k] len room by (auto simp: bindR_eq_Inr)
    obtain ps where ps: "memmove (payloads n) (p + 1) p (count n - p) = Inr ps" "aset ps p v = Inr (open_gap p v (count n) (payloads n))"
      using gap [of "payloads n" v] len room by (auto simp: bindR_eq_Inr)
    have "BTreeLeaf_insert c n k v = Inr ?n'"
      using room False lb pres absent ks ps by (simp add: BTreeLeaf_insert_def)
    moreover have l: "olive ?n' = insert_at p k (olive n)" "olive_vals ?n' = insert_at p v (olive_vals n)"
      using len room by simp_all
    moreover have "sorted_less (insert_at p k (olive n))" unfolding p_def using std_lb.lb_insert_sorted [OF _ srt absent] by simp
    moreover have "map_of (zip (insert_at p k (olive n)) (insert_at p v (olive_vals n))) = (olc_leaf_map n)(k \<mapsto> v)"
      unfolding olc_leaf_map_def using absent p len room by (intro map_of_zip_insert_at) auto
    ultimately show thesis
      using that [of ?n'] sh len room by (simp add: olc_leaf_shape_def olc_leaf_map_def)
  qed
qed

lemma BTreeLeaf_split_eq:
  assumes sh: "olc_leaf_shape c n" and full: "count n = BTreeLeaf_maxEntries c" "2 \<le> BTreeLeaf_maxEntries c"
  obtains n' m' where "BTreeLeaf_split c new n = Inr (last (olive n'), n', m')"
    "olc_leaf_shape c n'" "olc_leaf_shape c m'" "lock_version n' = lock_version n" "lock_version m' = OptLock_init"
    "olive n = olive n' @ olive m'" "olive_vals n = olive_vals n' @ olive_vals m'" "olive n' \<noteq> []" "olive m' \<noteq> []"
    "count n' < BTreeLeaf_maxEntries c"
proof -
  define M where "M = BTreeLeaf_maxEntries c"
  define h where "h = M div 2"
  define r where "r = M - h"
  define m where "m = BTreeLeaf_ctor c new"
  define n' where "n' = n\<lparr>count := h\<rparr>"
  define m' where "m' = m\<lparr>okeys := take r (drop h (okeys n)) @ drop r (okeys m),
    payloads := take r (drop h (payloads n)) @ drop r (payloads m), count := r\<rparr>"
  have ctor: "length (okeys m) = M" "length (payloads m) = M" "page_type m = BTreeLeaf" "lock_version m = OptLock_init"
    by (simp_all add: m_def M_def BTreeLeaf_ctor_def)
  have len: "length (okeys n) = M" "length (payloads n) = M" "sorted_less (olive n)" "page_type n = BTreeLeaf" "count n = M"
    using sh full unfolding olc_leaf_shape_def M_def by blast+
  have "2 \<le> M" using full(2) by (simp add: M_def)
  then have "0 < h" "h < M" by (simp_all add: h_def div_greater_zero_iff)
  then have h: "M - r = h" "h + r = M" "0 < h" "0 < r" "h < M" "r < M" by (simp_all add: r_def)
  have lr: "length (drop h (okeys n)) = r" "length (drop h (payloads n)) = r" using len(1,2) by (simp_all only: length_drop r_def)
  have cn: "count n' = h" "okeys n' = okeys n" "payloads n' = payloads n" "lock_version n' = lock_version n" "page_type n' = BTreeLeaf"
    using len(4) by (simp_all add: n'_def)
  have cm: "count m' = r" "length (okeys m') = M" "length (payloads m') = M" "lock_version m' = OptLock_init" "page_type m' = BTreeLeaf"
    using ctor h(6) lr by (simp_all add: m'_def less_imp_le)
  have l: "olive n' = take h (okeys n)" "olive m' = drop h (okeys n)" "olive_vals n' = take h (payloads n)" "olive_vals m' = drop h (payloads n)"
    using lr by (simp_all add: cn m'_def)
  have all: "olive n = okeys n" "olive_vals n = payloads n" using len by simp_all
  have "last (take h (okeys n)) = okeys n ! (h - 1)" using h(3,5) len(1) by (cases h) (simp_all add: take_Suc_conv_app_nth)
  then have split: "BTreeLeaf_split c new n = Inr (last (olive n'), n', m')"
    unfolding BTreeLeaf_split_def l Let_def len(5) m_def [symmetric] h_def [symmetric] r_def [symmetric] h(1)
    using h(2,3,5,6) len(1,2) ctor(1,2) by (simp add: memcpy_def aget_def n'_def m'_def less_imp_le)
  have shapes: "olc_leaf_shape c n'" "olc_leaf_shape c m'"
  proof -
    have "sorted_less (olive n')" "sorted_less (olive m')"
      unfolding l using len(3) unfolding all by (simp_all only: sorted_wrt_take sorted_wrt_drop)
    then show "olc_leaf_shape c n'" "olc_leaf_shape c m'" unfolding olc_leaf_shape_def M_def [symmetric]
      using len(1,2) h(5,6) cn cm by (simp_all add: less_imp_le)
  qed
  show thesis
  proof (rule that [OF split shapes cn(4) cm(4)])
    show "olive n = olive n' @ olive m'" "olive_vals n = olive_vals n' @ olive_vals m'" by (simp_all only: l all append_take_drop_id)
    show "olive n' \<noteq> []" "olive m' \<noteq> []" using h len(1) by (auto simp: l)
    show "count n' < BTreeLeaf_maxEntries c" using h(5) by (simp add: cn M_def)
  qed
qed

definition olc_inner_shape :: "olc_config \<Rightarrow> olc_node \<Rightarrow> bool" where
  "olc_inner_shape c n \<longleftrightarrow> page_type n = BTreeInner \<and> length (okeys n) = BTreeInner_maxEntries c
     \<and> length (children n) = BTreeInner_maxEntries c \<and> 0 < count n \<and> count n < BTreeInner_maxEntries c
     \<and> sorted_less (olive n)"

abbreviation olive_kids :: "olc_node \<Rightarrow> addr option list" where
  "olive_kids n \<equiv> take (Suc (count n)) (children n)"

lemma BTreeInner_split_eq:
  assumes sh: "olc_inner_shape c n" and full: "BTreeInner_isFull c n" and big: "5 \<le> BTreeInner_maxEntries c"
  obtains n' m' sep where "BTreeInner_split c new n = Inr (sep, n', m')"
    "olc_inner_shape c n'" "olc_inner_shape c m'" "lock_version n' = lock_version n" "lock_version m' = OptLock_init"
    "olive n = olive n' @ sep # olive m'" "olive_kids n = olive_kids n' @ olive_kids m'"
    "\<not> BTreeInner_isFull c n'"
proof -
  define N where "N = count n"
  define r where "r = N - N div 2"
  define h where "h = N - r - 1"
  define m where "m = BTreeInner_ctor c new"
  define n' where "n' = n\<lparr>count := h\<rparr>"
  define m' where "m' = m\<lparr>okeys := take (r + 1) (drop (h + 1) (okeys n)) @ drop (r + 1) (okeys m),
    children := take (r + 1) (drop (h + 1) (children n)) @ drop (r + 1) (children m), count := r\<rparr>"
  have M: "BTreeInner_maxEntries c = Suc N" "4 \<le> N" using full big by (auto simp: BTreeInner_isFull_def N_def)
  have ctor: "length (okeys m) = Suc N" "length (children m) = Suc N" "page_type m = BTreeInner" "lock_version m = OptLock_init"
    by (simp_all add: m_def M(1) [symmetric] BTreeInner_ctor_def)
  have len: "length (okeys n) = Suc N" "length (children n) = Suc N" "sorted_less (olive n)" "page_type n = BTreeInner" "count n = N"
    using sh by (simp_all add: olc_inner_shape_def M(1) N_def)
  have "2 \<le> N div 2" "N div 2 < N" using M(2) by linarith+
  then have h: "h + 1 + r = N" "0 < h" "0 < r" "h < N" "r < N" "\<not> N < r + 1" unfolding h_def r_def by linarith+
  then have h': "Suc (r + h) = N" by simp
  have lr: "length (drop (h + 1) (okeys n)) = r + 1" "length (drop (h + 1) (children n)) = r + 1"
    using len(1,2) h(1) by (simp_all only: length_drop)
  have cn: "count n' = h" "okeys n' = okeys n" "children n' = children n" "lock_version n' = lock_version n" "page_type n' = BTreeInner"
    using len(4) by (simp_all add: n'_def)
  have cm: "count m' = r" "length (okeys m') = Suc N" "length (children m') = Suc N" "lock_version m' = OptLock_init" "page_type m' = BTreeInner"
    using ctor h(5) lr by (simp_all add: m'_def less_imp_le)
  have l: "olive n' = take h (olive n)" "olive m' = drop (Suc h) (olive n)"
    using h h' len by (simp_all add: cn m'_def take_drop min_def)
  have k: "olive_kids n' = take (Suc h) (olive_kids n)" "olive_kids m' = drop (Suc h) (olive_kids n)"
    using h h' len by (simp_all add: cn m'_def take_drop min_def)
  have split: "BTreeInner_split c new n = Inr (okeys n ! h, n', m')"
    unfolding BTreeInner_split_def Let_def len(5) m_def [symmetric] r_def [symmetric] h_def [symmetric]
    using h len ctor by (simp add: memcpy_def aget_def n'_def m'_def)
  have shapes: "olc_inner_shape c n'" "olc_inner_shape c m'"
  proof -
    have "sorted_less (olive n')" "sorted_less (olive m')" unfolding l using len(3) by (simp_all only: sorted_wrt_take sorted_wrt_drop)
    then show "olc_inner_shape c n'" "olc_inner_shape c m'" unfolding olc_inner_shape_def M(1) using len h cn cm by simp_all
  qed
  show thesis
  proof (rule that [OF split shapes cn(4) cm(4)])
    have "h < length (olive n)" "olive n ! h = okeys n ! h" using h len by simp_all
    then show "olive n = olive n' @ okeys n ! h # olive m'" unfolding l using id_take_nth_drop [of h "olive n"] by simp
    show "olive_kids n = olive_kids n' @ olive_kids m'" by (simp only: k append_take_drop_id)
    show "\<not> BTreeInner_isFull c n'" using h by (simp add: BTreeInner_isFull_def cn M(1))
  qed
qed

end
