(* ===== verification/OLC_Tree.thy ===== *)
theory OLC_Tree
  imports OLC_Node Index_Spec
begin

text \<open>
  The B-tree with optimistic lock coupling: \<^verbatim>\<open>struct BTree\<close> of
  \<^verbatim>\<open>src/src/indices/olc_btree/thread/btree_olc.h\<close>. As for the other trees, an operation is the effect
  of one thread without interference, with every lock operation and every test for a restart. A
  \<^verbatim>\<open>goto restart\<close> ends the current attempt; the number of attempts is bounded by fuel and the
  properties show that a finite number suffices, for inserts after the eager splits on the path.
\<close>

section \<open>The model\<close>

record olc_tree =
  onodes :: "addr \<Rightarrow> olc_node option"
  onext :: addr
  oroot :: "addr option"

definition olc_deref :: "olc_tree \<Rightarrow> addr option \<Rightarrow> olc_node result" where
  "olc_deref t p = (case p of None \<Rightarrow> Inl NullDeref
     | Some a \<Rightarrow> (case onodes t a of None \<Rightarrow> Inl DanglingPointer | Some n \<Rightarrow> Inr n))"

definition olc_store :: "olc_tree \<Rightarrow> addr option \<Rightarrow> olc_node \<Rightarrow> olc_tree" where
  "olc_store t p n = t\<lparr>onodes := (onodes t)(the p \<mapsto> n)\<rparr>"

definition olc_new :: "olc_tree \<Rightarrow> olc_node \<Rightarrow> addr option \<times> olc_tree" where
  "olc_new t n = (Some (onext t), t\<lparr>onodes := (onodes t)(onext t \<mapsto> n), onext := Suc (onext t)\<rparr>)"

definition BTree_ctor :: "olc_config \<Rightarrow> olc_tree" where
  "BTree_ctor c = \<lparr>onodes = [0 \<mapsto> BTreeLeaf_ctor c 0], onext = 1, oroot = Some 0\<rparr>"

definition BTree_makeRoot ::
  "olc_config \<Rightarrow> olc_tree \<Rightarrow> key_type \<Rightarrow> addr option \<Rightarrow> addr option \<Rightarrow> olc_tree result" where
  "BTree_makeRoot c t k leftChild rightChild =
     (let inner0 = BTreeInner_ctor c (onext t)
      in bindR (aset (okeys inner0) 0 k) (\<lambda>ks.
         bindR (aset (children inner0) 0 leftChild) (\<lambda>cs0.
         bindR (aset cs0 1 rightChild) (\<lambda>cs.
         let (inner, t1) = olc_new t (inner0\<lparr>count := 1, okeys := ks, children := cs\<rparr>)
         in Inr (t1\<lparr>oroot := inner\<rparr>)))))"

text \<open>The lock operations on a node; the results are the flag \<^verbatim>\<open>needRestart\<close> and what else is set.\<close>

definition olc_read_lock :: "olc_tree \<Rightarrow> addr option \<Rightarrow> (64 word \<times> bool) result" where
  "olc_read_lock t p = bindR (olc_deref t p) (\<lambda>n. Inr (OptLock_readLockOrRestart (lock_version n) False))"

definition olc_read_unlock :: "olc_tree \<Rightarrow> addr option \<Rightarrow> 64 word \<Rightarrow> bool result" where
  "olc_read_unlock t p version = bindR (olc_deref t p) (\<lambda>n. Inr (OptLock_readUnlockOrRestart (lock_version n) version))"

definition olc_upgrade :: "olc_tree \<Rightarrow> addr option \<Rightarrow> 64 word \<Rightarrow> (bool \<times> olc_tree) result" where
  "olc_upgrade t p version = bindR (olc_deref t p) (\<lambda>n.
     let (w, version', restart) = OptLock_upgradeToWriteLockOrRestart (lock_version n) version False
     in Inr (restart, olc_store t p (n\<lparr>lock_version := w\<rparr>)))"

definition olc_write_unlock :: "olc_tree \<Rightarrow> addr option \<Rightarrow> olc_tree result" where
  "olc_write_unlock t p = bindR (olc_deref t p) (\<lambda>n.
     Inr (olc_store t p (n\<lparr>lock_version := OptLock_writeUnlock (lock_version n)\<rparr>)))"

text \<open>
  Splitting a full node eagerly, the same statements for inner nodes and leaves: lock the parent and
  the node, split, hang the new node into the parent or make a new root, unlock. The attempt ends
  with a restart in every case.
\<close>

definition olc_split_full ::
  "(olc_config \<Rightarrow> addr \<Rightarrow> olc_node \<Rightarrow> (key_type \<times> olc_node \<times> olc_node) result) \<Rightarrow> olc_config \<Rightarrow> olc_tree \<Rightarrow>
     addr option \<Rightarrow> 64 word \<Rightarrow> addr option \<Rightarrow> 64 word \<Rightarrow> olc_tree result" where
  "olc_split_full split_node c t node versionNode par versionParent =
     bindR (if par \<noteq> None then olc_upgrade t par versionParent else Inr (False, t)) (\<lambda>(restart1, t1).
     if restart1 then Inr t1
     else bindR (olc_upgrade t1 node versionNode) (\<lambda>(restart2, t2).
     if restart2 then (if par \<noteq> None then olc_write_unlock t2 par else Inr t2)
     else if par = None \<and> node \<noteq> oroot t2 then olc_write_unlock t2 node
     else bindR (olc_deref t2 node) (\<lambda>n.
          bindR (split_node c (onext t2) n) (\<lambda>(sep, n', m').
          let (newNode, t3) = olc_new (olc_store t2 node n') m'
          in bindR (if par \<noteq> None
                    then bindR (olc_deref t3 par) (\<lambda>p.
                         bindR (BTreeInner_insert c p sep newNode) (\<lambda>p'. Inr (olc_store t3 par p')))
                    else BTree_makeRoot c t3 sep node newNode) (\<lambda>t4.
             bindR (olc_write_unlock t4 node) (\<lambda>t5.
             if par \<noteq> None then olc_write_unlock t5 par else Inr t5))))))"

text \<open>The insertion into a leaf with room: \<open>True\<close> when the attempt succeeded.\<close>

definition olc_insert_leaf ::
  "olc_config \<Rightarrow> olc_tree \<Rightarrow> addr option \<Rightarrow> 64 word \<Rightarrow> addr option \<Rightarrow> 64 word \<Rightarrow> key_type \<Rightarrow> value_type \<Rightarrow>
     (bool \<times> olc_tree) result" where
  "olc_insert_leaf c t node versionNode par versionParent k v =
     bindR (olc_upgrade t node versionNode) (\<lambda>(restart1, t1).
     if restart1 then Inr (False, t1)
     else bindR (if par \<noteq> None then olc_read_unlock t1 par versionParent else Inr False) (\<lambda>restart2.
          if restart2 then bindR (olc_write_unlock t1 node) (\<lambda>t2. Inr (False, t2))
          else bindR (olc_deref t1 node) (\<lambda>n.
               bindR (BTreeLeaf_insert c n k v) (\<lambda>n'.
               bindR (olc_write_unlock (olc_store t1 node n') node) (\<lambda>t2. Inr (True, t2))))))"

text \<open>One attempt of \<^verbatim>\<open>insert\<close>, from the test of the loop condition on.\<close>

fun olc_insert_loop ::
  "nat \<Rightarrow> olc_config \<Rightarrow> olc_tree \<Rightarrow> addr option \<Rightarrow> 64 word \<Rightarrow> addr option \<Rightarrow> 64 word \<Rightarrow> key_type \<Rightarrow> value_type \<Rightarrow>
     (bool \<times> olc_tree) result" where
  "olc_insert_loop 0 c t node versionNode par versionParent k v = Inl FuelExhausted"
| "olc_insert_loop (Suc fuel) c t node versionNode par versionParent k v =
     bindR (olc_deref t node) (\<lambda>n.
     if page_type n = BTreeInner
     then if BTreeInner_isFull c n
          then bindR (olc_split_full BTreeInner_split c t node versionNode par versionParent) (\<lambda>t'. Inr (False, t'))
          else bindR (if par \<noteq> None then olc_read_unlock t par versionParent else Inr False) (\<lambda>restart1.
               if restart1 then Inr (False, t)
               else bindR (bindR (BTreeInner_lowerBound n k) (aget (children n))) (\<lambda>child.
                    bindR (olc_read_unlock t node versionNode) (\<lambda>restart2.
                    if restart2 then Inr (False, t)
                    else bindR (olc_read_lock t child) (\<lambda>(versionChild, restart3).
                         if restart3 then Inr (False, t)
                         else olc_insert_loop fuel c t child versionChild node versionNode k v))))
     else if count n = BTreeLeaf_maxEntries c
     then bindR (olc_split_full BTreeLeaf_split c t node versionNode par versionParent) (\<lambda>t'. Inr (False, t'))
     else olc_insert_leaf c t node versionNode par versionParent k v)"

definition olc_insert_attempt ::
  "nat \<Rightarrow> olc_config \<Rightarrow> olc_tree \<Rightarrow> key_type \<Rightarrow> value_type \<Rightarrow> (bool \<times> olc_tree) result" where
  "olc_insert_attempt levels c t k v =
     (let node = oroot t
      in bindR (olc_read_lock t node) (\<lambda>(versionNode, needRestart).
         if needRestart \<or> node \<noteq> oroot t then Inr (False, t)
         else olc_insert_loop levels c t node versionNode None 0 k v))"

fun BTree_insert :: "nat \<Rightarrow> nat \<Rightarrow> olc_config \<Rightarrow> olc_tree \<Rightarrow> key_type \<Rightarrow> value_type \<Rightarrow> olc_tree result" where
  "BTree_insert 0 levels c t k v = Inl FuelExhausted"
| "BTree_insert (Suc attempts) levels c t k v =
     bindR (olc_insert_attempt levels c t k v) (\<lambda>(finished, t').
     if finished then Inr t' else BTree_insert attempts levels c t' k v)"

text \<open>The descent of \<^verbatim>\<open>lookup\<close> and of \<^verbatim>\<open>scan\<close>; \<open>None\<close> is a restart.\<close>

fun olc_descend ::
  "nat \<Rightarrow> olc_tree \<Rightarrow> addr option \<Rightarrow> 64 word \<Rightarrow> addr option \<Rightarrow> 64 word \<Rightarrow> key_type \<Rightarrow>
     (addr option \<times> 64 word \<times> addr option \<times> 64 word) option result" where
  "olc_descend 0 t node versionNode par versionParent k = Inl FuelExhausted"
| "olc_descend (Suc fuel) t node versionNode par versionParent k =
     bindR (olc_deref t node) (\<lambda>n.
     if page_type n = BTreeInner
     then bindR (if par \<noteq> None then olc_read_unlock t par versionParent else Inr False) (\<lambda>restart1.
          if restart1 then Inr None
          else bindR (bindR (BTreeInner_lowerBound n k) (aget (children n))) (\<lambda>child.
               bindR (olc_read_unlock t node versionNode) (\<lambda>restart2.
               if restart2 then Inr None
               else bindR (olc_read_lock t child) (\<lambda>(versionChild, restart3).
                    if restart3 then Inr None
                    else olc_descend fuel t child versionChild node versionNode k))))
     else Inr (Some (node, versionNode, par, versionParent)))"

definition olc_locate :: "nat \<Rightarrow> olc_tree \<Rightarrow> key_type \<Rightarrow> (addr option \<times> 64 word \<times> addr option \<times> 64 word) option result" where
  "olc_locate levels t k =
     (let node = oroot t
      in bindR (olc_read_lock t node) (\<lambda>(versionNode, needRestart).
         if needRestart \<or> node \<noteq> oroot t then Inr None
         else olc_descend levels t node versionNode None 0 k))"

text \<open>Whether the versions of leaf and parent are still those that were read.\<close>

definition olc_validate :: "olc_tree \<Rightarrow> addr option \<Rightarrow> 64 word \<Rightarrow> addr option \<Rightarrow> 64 word \<Rightarrow> bool result" where
  "olc_validate t node versionNode par versionParent =
     bindR (if par \<noteq> None then olc_read_unlock t par versionParent else Inr False) (\<lambda>restart1.
     if restart1 then Inr False
     else bindR (olc_read_unlock t node versionNode) (\<lambda>restart2. Inr (\<not> restart2)))"

text \<open>
  \<^verbatim>\<open>lookup\<close> declares \<^verbatim>\<open>bool success\<close> without a value and only ever sets it to true; \<open>stack_junk\<close> is
  what the variable holds. The result is the returned flag and the value of \<^verbatim>\<open>result\<close> afterwards.
\<close>

fun BTree_lookup :: "nat \<Rightarrow> nat \<Rightarrow> bool \<Rightarrow> olc_tree \<Rightarrow> key_type \<Rightarrow> value_type \<Rightarrow> (bool \<times> value_type) result" where
  "BTree_lookup 0 levels stack_junk t k result = Inl FuelExhausted"
| "BTree_lookup (Suc attempts) levels stack_junk t k result =
     bindR (olc_locate levels t k) (\<lambda>located.
     case located of
       None \<Rightarrow> BTree_lookup attempts levels stack_junk t k result
     | Some (node, versionNode, par, versionParent) \<Rightarrow>
         bindR (olc_deref t node) (\<lambda>n.
         bindR (BTreeLeaf_lowerBound n k) (\<lambda>pos.
         bindR (if pos < count n then bindR (aget (okeys n) pos) (\<lambda>x. Inr (x = k)) else Inr False) (\<lambda>found.
         bindR (if found then bindR (aget (payloads n) pos) (\<lambda>p. Inr (True, p)) else Inr (stack_junk, result)) (\<lambda>answer.
         bindR (olc_validate t node versionNode par versionParent) (\<lambda>valid.
         if valid then Inr answer
         else BTree_lookup attempts levels stack_junk t k (snd answer)))))))"

text \<open>\<^verbatim>\<open>scan\<close> reads one leaf only; \<open>range\<close> is a signed integer and ends the loop only when it is met exactly.\<close>

fun olc_scan_loop :: "olc_node \<Rightarrow> int \<Rightarrow> nat \<Rightarrow> nat \<Rightarrow> value_type list result" where
  "olc_scan_loop n limit 0 i = Inr []"
| "olc_scan_loop n limit (Suc rest) i =
     (if limit = 0 then Inr []
      else bindR (aget (payloads n) i) (\<lambda>p. bindR (olc_scan_loop n (limit - 1) rest (i + 1)) (\<lambda>ps. Inr (p # ps))))"

fun BTree_scan :: "nat \<Rightarrow> nat \<Rightarrow> olc_tree \<Rightarrow> key_type \<Rightarrow> int \<Rightarrow> value_type list result" where
  "BTree_scan 0 levels t k limit = Inl FuelExhausted"
| "BTree_scan (Suc attempts) levels t k limit =
     bindR (olc_locate levels t k) (\<lambda>located.
     case located of
       None \<Rightarrow> BTree_scan attempts levels t k limit
     | Some (node, versionNode, par, versionParent) \<Rightarrow>
         bindR (olc_deref t node) (\<lambda>n.
         bindR (BTreeLeaf_lowerBound n k) (\<lambda>pos.
         bindR (olc_scan_loop n limit (count n - pos) pos) (\<lambda>out.
         bindR (olc_validate t node versionNode par versionParent) (\<lambda>valid.
         if valid then Inr out else BTree_scan attempts levels t k limit)))))"

text \<open>The destructors: \<^verbatim>\<open>delete root\<close> runs \<^verbatim>\<open>~BTreeInner\<close>, which deletes the children.\<close>

fun olc_delete :: "nat \<Rightarrow> (addr \<Rightarrow> olc_node option) \<Rightarrow> addr option \<Rightarrow> (addr \<Rightarrow> olc_node option) result"
and olc_delete_children :: "nat \<Rightarrow> (addr \<Rightarrow> olc_node option) \<Rightarrow> addr option list \<Rightarrow> (addr \<Rightarrow> olc_node option) result" where
  "olc_delete 0 h p = Inl FuelExhausted"
| "olc_delete (Suc fuel) h p =
     (case p of None \<Rightarrow> Inl NullDeref
      | Some a \<Rightarrow> (case h a of None \<Rightarrow> Inl DanglingPointer
         | Some n \<Rightarrow> bindR (if page_type n = BTreeInner
             then if count n < length (children n) then olc_delete_children fuel h (olive_kids n) else Inl OutOfBounds
             else Inr h) (\<lambda>h'. Inr (h'(a := None)))))"
| "olc_delete_children fuel h [] = Inr h"
| "olc_delete_children fuel h (p # ps) =
     bindR (if p \<noteq> None then olc_delete fuel h p else Inr h) (\<lambda>h'. olc_delete_children fuel h' ps)"

definition BTree_dtor :: "nat \<Rightarrow> olc_tree \<Rightarrow> (addr \<Rightarrow> olc_node option) result" where
  "BTree_dtor levels t = olc_delete levels (onodes t) (oroot t)"

end
