(* ===== verification/OLC_Invariant.thy ===== *)
theory OLC_Invariant
  imports OLC_Tree
begin

text \<open>
  The invariant of the tree with optimistic lock coupling. Every node is responsible for a range of
  keys, \<open>lo a \<le> unat k < hi a\<close>, and has a level; both are not stored by the code. The children of an
  inner node cut its range at the separators, nodes of one level have disjoint ranges and no node is
  locked. The dictionary of a tree collects the entries of its leaves.
\<close>

definition in_range :: "(addr \<Rightarrow> nat) \<Rightarrow> (addr \<Rightarrow> nat) \<Rightarrow> addr \<Rightarrow> key_type \<Rightarrow> bool" where
  "in_range lo hi a k \<longleftrightarrow> lo a \<le> unat k \<and> unat k < hi a"

definition fences :: "(addr \<Rightarrow> nat) \<Rightarrow> (addr \<Rightarrow> nat) \<Rightarrow> addr \<Rightarrow> key_type list \<Rightarrow> addr list \<Rightarrow> bool" where
  "fences lo hi a ks cs \<longleftrightarrow> map lo cs = lo a # map (\<lambda>k. Suc (unat k)) ks \<and> map hi cs = map (\<lambda>k. Suc (unat k)) ks @ [hi a]"

definition version_free :: "64 word \<Rightarrow> bool" where
  "version_free w \<longleftrightarrow> w AND 3 = 0"

definition olc_node_ok ::
  "olc_config \<Rightarrow> (addr \<Rightarrow> nat) \<Rightarrow> (addr \<Rightarrow> nat) \<Rightarrow> (addr \<Rightarrow> nat) \<Rightarrow> (addr \<Rightarrow> olc_node option) \<Rightarrow> addr \<Rightarrow> olc_node \<Rightarrow> bool" where
  "olc_node_ok c lo hi lv st a n \<longleftrightarrow> lo a < hi a \<and> version_free (lock_version n) \<and>
     (if page_type n = BTreeLeaf
      then lv a = 0 \<and> olc_leaf_shape c n \<and> (\<forall>k \<in> set (olive n). in_range lo hi a k)
      else olc_inner_shape c n \<and> (\<forall>k \<in> set (olive n). lo a \<le> unat k \<and> Suc (unat k) < hi a)
        \<and> (\<exists>cs. olive_kids n = map Some cs \<and> fences lo hi a (olive n) cs
             \<and> (\<forall>b \<in> set cs. st b \<noteq> None \<and> Suc (lv b) = lv a)))"

definition olc_disjoint :: "(addr \<Rightarrow> nat) \<Rightarrow> (addr \<Rightarrow> nat) \<Rightarrow> (addr \<Rightarrow> nat) \<Rightarrow> (addr \<Rightarrow> olc_node option) \<Rightarrow> bool" where
  "olc_disjoint lo hi lv st \<longleftrightarrow> (\<forall>a b. st a \<noteq> None \<and> st b \<noteq> None \<and> a \<noteq> b \<and> lv a = lv b \<longrightarrow> hi a \<le> lo b \<or> hi b \<le> lo a)"

definition olc_inv ::
  "olc_config \<Rightarrow> (addr \<Rightarrow> nat) \<Rightarrow> (addr \<Rightarrow> nat) \<Rightarrow> (addr \<Rightarrow> nat) \<Rightarrow> olc_tree \<Rightarrow> addr \<Rightarrow> bool" where
  "olc_inv c lo hi lv t r \<longleftrightarrow> oroot t = Some r \<and> onodes t r \<noteq> None \<and> lo r = 0 \<and> hi r = 2 ^ 64
     \<and> (\<forall>a n. onodes t a = Some n \<longrightarrow> a < onext t \<and> lv a \<le> lv r \<and> olc_node_ok c lo hi lv (onodes t) a n)
     \<and> olc_disjoint lo hi lv (onodes t)"

definition olc_config_ok :: "olc_config \<Rightarrow> bool" where
  "olc_config_ok c \<longleftrightarrow> 5 \<le> BTreeLeaf_maxEntries c"

definition BTree_ok :: "olc_config \<Rightarrow> nat \<Rightarrow> olc_tree \<Rightarrow> bool" where
  "BTree_ok c h t \<longleftrightarrow> (\<exists>lo hi lv r. olc_inv c lo hi lv t r \<and> lv r = h)"

definition olc_entries :: "olc_node option \<Rightarrow> (key_type \<times> value_type) list" where
  "olc_entries x = (case x of None \<Rightarrow> []
     | Some n \<Rightarrow> if page_type n = BTreeLeaf then zip (olive n) (olive_vals n) else [])"

definition olc_map :: "olc_tree \<Rightarrow> key_type \<rightharpoonup> value_type" where
  "olc_map t = map_of (concat (map (\<lambda>a. olc_entries (onodes t a)) [0..<onext t]))"

section \<open>Versions\<close>

lemma version_free_readable:
  assumes "version_free w"
  shows "OptLock_readLockOrRestart w False = (w, False)"
proof -
  have "\<not> bit w 0" "\<not> bit w 1"
  proof -
    have "\<not> bit (w AND 3) 0" "\<not> bit (w AND 3) 1" using assms by (simp_all add: version_free_def)
    then show "\<not> bit w 0" "\<not> bit w 1" by (simp_all add: bit_and_iff bit_numeral_rec)
  qed
  moreover have "bit (2 :: 64 word) 1" "bit (1 :: 64 word) 0" by simp_all
  ultimately have "w AND 2 \<noteq> 2" "w AND 1 \<noteq> 1" by (metis bit_and_iff)+
  then show ?thesis by (simp add: OptLock_readLockOrRestart_def OptLock_isLocked_def OptLock_isObsolete_def)
qed

lemma version_free_init [simp]: "version_free OptLock_init"
  by (simp add: version_free_def OptLock_init_def)

lemma version_free_iff: "version_free w \<longleftrightarrow> unat w mod 4 = 0"
proof -
  have "w AND 3 = take_bit 2 w" by (simp add: take_bit_eq_mask mask_eq_exp_minus_1)
  moreover have "unat (take_bit 2 w) = unat w mod 4" by (simp only: unsigned_take_bit_eq) (simp add: take_bit_eq_mod)
  ultimately show ?thesis unfolding version_free_def by (metis unat_eq_0)
qed

lemma version_free_round [simp]:
  assumes "version_free w"
  shows "version_free (w + 2 + 2)"
proof -
  have "unat (w + 4) mod 4 = (unat w + 4) mod 2 ^ 64 mod 4" by (simp add: unat_word_ariths)
  also have "\<dots> = (unat w + 4) mod 4" by (rule mod_mod_cancel) simp
  finally show ?thesis using assms by (simp add: version_free_iff add.assoc)
qed

section \<open>Ranges of children\<close>

lemma fences_length: "fences lo hi a ks cs \<Longrightarrow> length cs = Suc (length ks)"
  unfolding fences_def by (metis length_Cons length_map)

lemma fences_nth:
  assumes "fences lo hi a ks cs" "i < length cs"
  shows "lo (cs ! i) = (if i = 0 then lo a else Suc (unat (ks ! (i - 1))))"
    "hi (cs ! i) = (if i = length ks then hi a else Suc (unat (ks ! i)))"
proof -
  have l: "length cs = Suc (length ks)" using assms(1) by (rule fences_length)
  have "lo (cs ! i) = map lo cs ! i" "hi (cs ! i) = map hi cs ! i" using assms(2) by simp_all
  then show "lo (cs ! i) = (if i = 0 then lo a else Suc (unat (ks ! (i - 1))))"
    "hi (cs ! i) = (if i = length ks then hi a else Suc (unat (ks ! i)))"
    using assms l unfolding fences_def by (auto simp: nth_Cons' nth_append)
qed

lemma fences_within:
  assumes "fences lo hi a ks cs" "\<forall>k \<in> set ks. lo a \<le> unat k \<and> Suc (unat k) < hi a" "b \<in> set cs" "lo a < hi a"
  shows "lo a \<le> lo b" "hi b \<le> hi a"
proof -
  have "lo b \<in> set (map lo cs)" "hi b \<in> set (map hi cs)" using assms(3) by simp_all
  then show "lo a \<le> lo b" "hi b \<le> hi a" using assms(1,2) unfolding fences_def by (auto intro: le_SucI)
qed

lemma fences_lower_bound:
  assumes f: "fences lo hi a ks cs" and srt: "sorted_less ks" and k: "in_range lo hi a k"
  shows "std_lower_bound ks k < length cs" "in_range lo hi (cs ! std_lower_bound ks k) k"
proof -
  let ?p = "std_lower_bound ks k"
  show p: "?p < length cs" using std_lb.lb_le [OF _ srt, of k] fences_length [OF f] by simp
  have "ks ! (?p - 1) < k" if "?p \<noteq> 0" using that std_lb.lb_below [OF _ srt, of "?p - 1" k] by simp
  moreover have "k \<le> ks ! ?p" if "?p \<noteq> length ks"
    using that std_lb.lb_le [OF _ srt, of k] std_lb.lb_above [OF _ srt, of k ?p] by simp
  ultimately show "in_range lo hi (cs ! ?p) k"
    using k fences_nth [OF f p] unfolding in_range_def by (auto simp: word_less_nat_alt word_le_nat_alt less_Suc_eq_le)
qed

lemma fences_index:
  assumes f: "fences lo hi a ks cs" and srt: "sorted_less ks" and i: "i < length cs" and k: "in_range lo hi (cs ! i) k"
  shows "std_lower_bound ks k = i"
proof (rule std_lb.lb_unique [OF _ srt])
  have l: "length cs = Suc (length ks)" using f by (rule fences_length)
  show "i \<le> length ks" using i l by simp
  show "\<forall>j < i. ks ! j < k"
  proof (intro allI impI)
    fix j
    assume j: "j < i"
    then have "ks ! (i - 1) < k" using k fences_nth [OF f i] by (simp add: in_range_def word_less_nat_alt)
    moreover have "ks ! j \<le> ks ! (i - 1)" using j i l srt by (simp add: sorted_less_nth_le)
    ultimately show "ks ! j < k" by simp
  qed
  show "\<forall>j. i \<le> j \<and> j < length ks \<longrightarrow> k \<le> ks ! j"
  proof (intro allI impI)
    fix j
    assume j: "i \<le> j \<and> j < length ks"
    then have "k \<le> ks ! i" using k fences_nth [OF f i] by (simp add: in_range_def word_le_nat_alt less_Suc_eq_le)
    moreover have "ks ! i \<le> ks ! j" using j srt by (simp add: sorted_less_nth_le)
    ultimately show "k \<le> ks ! j" by simp
  qed
qed simp

lemma append_eq_parts: "xs @ ys = us @ vs \<Longrightarrow> length xs = length us \<Longrightarrow> xs = us \<and> ys = vs"
  by simp

lemma fences_cut:
  assumes f: "fences lo hi a (ks @ sep # ks') (cs @ cs')" and len: "length cs = Suc (length ks)"
    and new: "a \<notin> set cs \<union> set cs'" "b \<notin> set cs \<union> set cs'" "a \<noteq> b"
  shows "fences (lo(b := Suc (unat sep))) (hi(a := Suc (unat sep), b := hi a)) a ks cs"
    "fences (lo(b := Suc (unat sep))) (hi(a := Suc (unat sep), b := hi a)) b ks' cs'"
proof -
  let ?s = "\<lambda>k. Suc (unat k)"
  have eqs: "map lo cs @ map lo cs' = (lo a # map ?s ks) @ (?s sep # map ?s ks')"
    "map hi cs @ map hi cs' = (map ?s ks @ [?s sep]) @ (map ?s ks' @ [hi a])" using f by (simp_all add: fences_def)
  have "map lo cs = lo a # map ?s ks \<and> map lo cs' = ?s sep # map ?s ks'"
    "map hi cs = map ?s ks @ [?s sep] \<and> map hi cs' = map ?s ks' @ [hi a]"
    using append_eq_parts [OF eqs(1)] append_eq_parts [OF eqs(2)] len by simp_all
  moreover have "map (lo(b := x)) cs = map lo cs" "map (lo(b := x)) cs' = map lo cs'"
    "map (hi(a := x, b := y)) cs = map hi cs" "map (hi(a := x, b := y)) cs' = map hi cs'" for x y
    using new by (auto intro!: map_cong)
  ultimately show "fences (lo(b := ?s sep)) (hi(a := ?s sep, b := hi a)) a ks cs"
    "fences (lo(b := ?s sep)) (hi(a := ?s sep, b := hi a)) b ks' cs'" using new(3) unfolding fences_def by simp_all
qed

lemma fences_widen:
  assumes f: "fences lo hi p ks cs" and i: "i < length cs" "cs ! i = a" "distinct cs"
    and new: "b \<notin> set cs" "p \<noteq> a" "p \<noteq> b"
  shows "fences (lo(b := Suc (unat sep))) (hi(a := Suc (unat sep), b := hi a)) p (insert_at i sep ks) (insert_at (Suc i) b cs)"
proof -
  let ?lo = "lo(b := Suc (unat sep))" and ?hi = "hi(a := Suc (unat sep), b := hi a)" and ?s = "\<lambda>k. Suc (unat k)"
  define A B where "A = take i cs" and "B = drop (Suc i) cs"
  have cs: "cs = A @ a # B" and A: "length A = i" using i(1,2) id_take_nth_drop [of i cs] by (simp_all add: A_def B_def)
  have "a \<notin> set A" "a \<notin> set B" "b \<notin> set A" "b \<notin> set B" "b \<noteq> a" using i(3) new(1) unfolding cs by auto
  then have m: "map ?lo A = map lo A" "map ?lo B = map lo B" "map ?hi A = map hi A" "map ?hi B = map hi B"
    by (auto intro!: map_cong)
  have ins: "insert_at (Suc i) b cs = A @ a # b # B" using A by (simp add: cs insert_at_def)
  have "length ks = length A + length B" using fences_length [OF f] by (simp add: cs)
  then have le: "i \<le> length (map ?s ks)" using A by simp
  have "map ?lo (insert_at (Suc i) b cs) = insert_at (Suc i) (?s sep) (map lo cs)"
    using m \<open>b \<noteq> a\<close> A by (simp add: ins) (simp add: cs insert_at_def)
  also have "\<dots> = ?lo p # map ?s (insert_at i sep ks)"
    using f new(3) by (simp add: fences_def insert_at_Suc_Cons map_insert_at)
  finally have lo: "map ?lo (insert_at (Suc i) b cs) = ?lo p # map ?s (insert_at i sep ks)" .
  have "map ?hi (insert_at (Suc i) b cs) = insert_at i (?s sep) (map hi cs)"
    using m \<open>b \<noteq> a\<close> A by (simp add: ins) (simp add: cs insert_at_def)
  also have "\<dots> = map ?s (insert_at i sep ks) @ [?hi p]"
    using f new(2,3) le by (simp add: fences_def map_insert_at) (simp add: insert_at_def)
  finally show ?thesis using lo by (simp add: fences_def)
qed

section \<open>Consequences of the invariant\<close>

lemma olc_invD:
  assumes "olc_inv c lo hi lv t r" "onodes t a = Some n"
  shows "a < onext t" "lv a \<le> lv r" "olc_node_ok c lo hi lv (onodes t) a n"
  using assms unfolding olc_inv_def by blast+

lemma olc_inv_fresh:
  assumes "olc_inv c lo hi lv t r" "onext t \<le> a"
  shows "onodes t a = None"
proof (rule ccontr)
  assume "onodes t a \<noteq> None"
  then show False using olc_invD(1) [OF assms(1)] assms(2) by fastforce
qed

lemma in_range_unique:
  assumes "olc_inv c lo hi lv t r" "onodes t a = Some n" "onodes t b = Some m" "lv a = lv b" "in_range lo hi a k" "in_range lo hi b k"
  shows "a = b"
proof (rule ccontr)
  assume "a \<noteq> b"
  then have "hi a \<le> lo b \<or> hi b \<le> lo a" using assms(1-4) unfolding olc_inv_def olc_disjoint_def by blast
  then show False using assms(5,6) by (auto simp: in_range_def)
qed

lemma ranges_meet:
  assumes "olc_inv c lo hi lv t r" "onodes t a = Some n" "onodes t b = Some m" "lv a = lv b" "lo a < hi b" "lo b < hi a"
  shows "a = b"
  using assms unfolding olc_inv_def olc_disjoint_def by (metis not_le option.distinct(1))

lemma inner_kids:
  assumes "olc_node_ok c lo hi lv st a n" "page_type n = BTreeInner"
  obtains cs where "olive_kids n = map Some cs" "fences lo hi a (olive n) cs" "\<forall>b \<in> set cs. st b \<noteq> None \<and> Suc (lv b) = lv a"
    "distinct cs" "a \<notin> set cs" "olc_inner_shape c n" "\<forall>k \<in> set (olive n). lo a \<le> unat k \<and> Suc (unat k) < hi a"
    "\<forall>b \<in> set cs. lo a \<le> lo b \<and> hi b \<le> hi a" "length cs = Suc (count n)"
proof -
  have sh: "olc_inner_shape c n" and ks: "\<forall>k \<in> set (olive n). lo a \<le> unat k \<and> Suc (unat k) < hi a" and ne: "lo a < hi a"
    using assms by (simp_all add: olc_node_ok_def)
  obtain cs where cs: "olive_kids n = map Some cs" "fences lo hi a (olive n) cs" "\<forall>b \<in> set cs. st b \<noteq> None \<and> Suc (lv b) = lv a"
    using assms by (auto simp: olc_node_ok_def)
  have "distinct (olive n)" using sh by (simp add: olc_inner_shape_def strict_sorted_iff)
  then have "distinct (map (\<lambda>k. Suc (unat k)) (olive n))" by (auto simp: distinct_map inj_on_def dest: unsigned_word_eqI)
  moreover have "lo a \<noteq> Suc (unat k)" if "k \<in> set (olive n)" for k using ks that by force
  ultimately have "distinct (map lo cs)" using cs(2) by (auto simp: fences_def)
  then have "distinct cs" by (simp only: distinct_map)
  moreover have "a \<notin> set cs" using cs(3) by auto
  moreover have "\<forall>b \<in> set cs. lo a \<le> lo b \<and> hi b \<le> hi a" using fences_within [OF cs(2) ks _ ne] by blast
  moreover have "length cs = Suc (count n)" using fences_length [OF cs(2)] sh by (simp add: olc_inner_shape_def)
  ultimately show thesis using that cs sh ks by blast
qed

lemma olc_child:
  assumes inv: "olc_inv c lo hi lv t r" and a: "onodes t a = Some n" "page_type n = BTreeInner" "in_range lo hi a k"
  obtains b m where "bindR (BTreeInner_lowerBound n k) (aget (children n)) = Inr (Some b)" "onodes t b = Some m"
    "Suc (lv b) = lv a" "in_range lo hi b k" "std_lower_bound (olive n) k \<le> count n"
    "children n ! std_lower_bound (olive n) k = Some b"
proof -
  let ?p = "std_lower_bound (olive n) k"
  obtain cs where cs: "olive_kids n = map Some cs" "fences lo hi a (olive n) cs" "\<forall>b \<in> set cs. onodes t b \<noteq> None \<and> Suc (lv b) = lv a"
      "olc_inner_shape c n" "length cs = Suc (count n)"
    using inner_kids [OF olc_invD(3) [OF inv a(1)] a(2)] by metis
  have srt: "sorted_less (olive n)" and len: "0 < count n" "count n < length (children n)" "count n \<le> length (okeys n)"
    using cs(4) by (simp_all add: olc_inner_shape_def)
  have p: "?p < length cs" "in_range lo hi (cs ! ?p) k" using fences_lower_bound [OF cs(2) srt a(3)] .
  then have "?p \<le> count n" using cs(5) by simp
  moreover have "children n ! ?p = Some (cs ! ?p)" using p(1) cs(1,5) by (metis nth_map nth_take)
  moreover have "BTreeInner_lowerBound n k = Inr ?p" using olc_lowerBound_eq(2) [OF srt len(1,3)] .
  moreover obtain m where "onodes t (cs ! ?p) = Some m" "Suc (lv (cs ! ?p)) = lv a" using cs(3) p(1) nth_mem by blast
  ultimately show thesis using that [of "cs ! ?p" m] p(2) len(2) by (simp add: aget_def)
qed

lemma root_in_range: "olc_inv c lo hi lv t r \<Longrightarrow> in_range lo hi r k"
  using unsigned_less [of k] by (simp add: olc_inv_def in_range_def)

lemma covering_node:
  assumes inv: "olc_inv c lo hi lv t r" and l: "l \<le> lv r"
  shows "\<exists>a n. onodes t a = Some n \<and> lv a = l \<and> in_range lo hi a k"
  using l
proof (induction "lv r - l" arbitrary: l)
  case 0
  then show ?case using inv root_in_range [OF inv] by (auto simp: olc_inv_def)
next
  case (Suc d)
  then have "\<exists>a n. onodes t a = Some n \<and> lv a = Suc l \<and> in_range lo hi a k" by simp
  then obtain a n where a: "onodes t a = Some n" "lv a = Suc l" "in_range lo hi a k" by blast
  have "page_type n = BTreeInner"
    using olc_invD(3) [OF inv a(1)] a(2) by (cases "page_type n") (simp_all add: olc_node_ok_def)
  then show ?case using olc_child [OF inv a(1) _ a(3)] a(2) by (metis Suc_inject)
qed

lemma covering_leaf:
  assumes "olc_inv c lo hi lv t r"
  obtains a n where "onodes t a = Some n" "page_type n = BTreeLeaf" "in_range lo hi a k"
proof -
  obtain a n where a: "onodes t a = Some n" "lv a = 0" "in_range lo hi a k" using covering_node [OF assms, of 0] by blast
  have "page_type n = BTreeLeaf"
  proof (rule ccontr)
    assume "page_type n \<noteq> BTreeLeaf"
    then have "page_type n = BTreeInner" by (cases "page_type n") simp_all
    then show False using olc_child [OF assms a(1) _ a(3)] a(2) by (metis nat.distinct(1))
  qed
  then show thesis using that a by blast
qed

section \<open>The dictionary\<close>

lemma map_of_concat_unique:
  assumes "a \<in> set as" "\<forall>b \<in> set as. b \<noteq> a \<longrightarrow> k \<notin> fst ` set (f b)"
  shows "map_of (concat (map f as)) k = map_of (f a) k"
  using assms
proof (induction as)
  case (Cons b as)
  show ?case
  proof (cases "a \<in> set as")
    case True
    then have "map_of (concat (map f as)) k = map_of (f a) k" using Cons by simp
    moreover have "map_of (f b) k = None" if "b \<noteq> a" using that Cons.prems(2) by (simp add: map_of_eq_None_iff)
    ultimately show ?thesis by (cases "b = a") (auto simp: map_add_def split: option.splits)
  next
    case False
    then have "b = a" "\<forall>b \<in> set as. k \<notin> fst ` set (f b)" using Cons.prems by auto
    then have "map_of (concat (map f as)) k = None" by (auto simp: map_of_eq_None_iff)
    then show ?thesis using \<open>b = a\<close> by (simp add: map_add_def split: option.split)
  qed
qed simp

lemma olc_map_leaf:
  assumes inv: "olc_inv c lo hi lv t r" and a: "onodes t a = Some n" "page_type n = BTreeLeaf" "in_range lo hi a k"
  shows "olc_map t k = olc_leaf_map n k"
proof -
  have "k \<notin> fst ` set (olc_entries (onodes t b))" if "b \<noteq> a" for b
  proof
    assume "k \<in> fst ` set (olc_entries (onodes t b))"
    then obtain m where m: "onodes t b = Some m" "page_type m = BTreeLeaf" "k \<in> set (olive m)"
      by (cases "onodes t b") (auto simp: olc_entries_def split: if_splits dest: set_zip_leftD)
    then have "in_range lo hi b k" "lv b = 0" using olc_invD(3) [OF inv m(1)] by (simp_all add: olc_node_ok_def)
    moreover have "lv a = 0" using olc_invD(3) [OF inv a(1)] a(2) by (simp add: olc_node_ok_def)
    ultimately show False using in_range_unique [OF inv m(1) a(1)] a(3) that by simp
  qed
  moreover have "a \<in> set [0..<onext t]" using olc_invD(1) [OF inv a(1)] by simp
  ultimately have "olc_map t k = map_of (olc_entries (onodes t a)) k" unfolding olc_map_def by (intro map_of_concat_unique) auto
  then show ?thesis using a by (simp add: olc_entries_def olc_leaf_map_def)
qed

end
