(* ===== verification/OLC_Insert.thy ===== *)
theory OLC_Insert
  imports OLC_Invariant
begin

text \<open>
  Inserting into the tree with optimistic lock coupling: what an eager split and the final insertion
  into a leaf do to the invariant and the dictionary, how many attempts an insertion needs, and that
  it implements an update of the dictionary.
\<close>

section \<open>Nodes and ghosts that stay the same\<close>

lemma olc_node_ok_frame:
  assumes ok: "olc_node_ok c lo hi lv st x n" and st: "dom st \<subseteq> dom st'"
    and same: "lo' x = lo x" "hi' x = hi x" "lv' x = lv x"
    and kids: "\<forall>y. page_type n = BTreeInner \<and> Some y \<in> set (olive_kids n) \<longrightarrow> lo' y = lo y \<and> hi' y = hi y \<and> lv' y = lv y"
  shows "olc_node_ok c lo' hi' lv' st' x n"
proof (cases "page_type n")
  case BTreeInner
  obtain cs where cs: "olive_kids n = map Some cs" "fences lo hi x (olive n) cs" "\<forall>b \<in> set cs. st b \<noteq> None \<and> Suc (lv b) = lv x"
    using ok BTreeInner by (auto simp: olc_node_ok_def)
  then have eq: "\<forall>y \<in> set cs. lo' y = lo y \<and> hi' y = hi y \<and> lv' y = lv y" using kids BTreeInner by simp
  then have "map lo' cs = map lo cs" "map hi' cs = map hi cs" by (simp_all cong: map_cong)
  then have "fences lo' hi' x (olive n) cs" using cs(2) same unfolding fences_def by argo
  moreover have "\<forall>b \<in> set cs. st' b \<noteq> None \<and> Suc (lv' b) = lv' x" using cs(3) eq same st unfolding subset_iff domIff by metis
  ultimately show ?thesis using ok BTreeInner cs(1) same by (auto simp: olc_node_ok_def)
next
  case BTreeLeaf
  then show ?thesis using ok same by (simp add: olc_node_ok_def in_range_def)
qed

lemma olc_node_ok_dom: "olc_node_ok c lo hi lv st x n \<Longrightarrow> dom st \<subseteq> dom st' \<Longrightarrow> olc_node_ok c lo hi lv st' x n"
  by (erule olc_node_ok_frame) simp_all

lemma version_free_4 [simp]: "version_free w \<Longrightarrow> version_free (4 + w)"
  using version_free_round [of w] by (simp add: add.commute)

lemma shape_lock_version [simp]:
  "olc_leaf_shape c (n\<lparr>lock_version := w\<rparr>) = olc_leaf_shape c n"
  "olc_inner_shape c (n\<lparr>lock_version := w\<rparr>) = olc_inner_shape c n"
  "olc_leaf_map (n\<lparr>lock_version := w\<rparr>) = olc_leaf_map n"
  by (simp_all add: olc_leaf_shape_def olc_inner_shape_def olc_leaf_map_def)

lemma only_parent:
  assumes inv: "olc_inv c lo hi lv t r" and p: "onodes t p = Some q" "page_type q = BTreeInner" "Some a \<in> set (olive_kids q)"
    and x: "onodes t x = Some n" "page_type n = BTreeInner" "Some a \<in> set (olive_kids n)"
  shows "x = p"
proof -
  obtain cs where cs: "olive_kids q = map Some cs" "\<forall>b \<in> set cs. onodes t b \<noteq> None \<and> Suc (lv b) = lv p"
      "\<forall>b \<in> set cs. lo p \<le> lo b \<and> hi b \<le> hi p"
    using inner_kids [OF olc_invD(3) [OF inv p(1)] p(2)] by metis
  obtain ds where ds: "olive_kids n = map Some ds" "\<forall>b \<in> set ds. onodes t b \<noteq> None \<and> Suc (lv b) = lv x"
      "\<forall>b \<in> set ds. lo x \<le> lo b \<and> hi b \<le> hi x"
    using inner_kids [OF olc_invD(3) [OF inv x(1)] x(2)] by metis
  have a: "a \<in> set cs" "a \<in> set ds" using p(3) x(3) cs(1) ds(1) by auto
  then obtain m where "onodes t a = Some m" using cs(2) by blast
  then have "lo a < hi a" using olc_invD(3) [OF inv] by (simp add: olc_node_ok_def)
  then have "lo x < hi p" "lo p < hi x" using a cs(3) ds(3) by (meson le_less_trans less_le_trans)+
  moreover have "lv x = lv p" using a cs(2) ds(2) by metis
  ultimately show ?thesis using ranges_meet [OF inv x(1) p(1)] by blast
qed

section \<open>Splitting a node in two\<close>

definition olc_full :: "olc_config \<Rightarrow> olc_node \<Rightarrow> bool" where
  "olc_full c n \<longleftrightarrow> (if page_type n = BTreeInner then BTreeInner_isFull c n else count n = BTreeLeaf_maxEntries c)"

lemma olc_full_lock_version [simp]: "olc_full c (n\<lparr>lock_version := w\<rparr>) = olc_full c n"
  by (simp add: olc_full_def BTreeInner_isFull_def)

definition split_node_ok ::
  "olc_config \<Rightarrow> (addr \<Rightarrow> nat) \<Rightarrow> (addr \<Rightarrow> nat) \<Rightarrow> (addr \<Rightarrow> nat) \<Rightarrow> (addr \<Rightarrow> olc_node option) \<Rightarrow> addr \<Rightarrow> olc_node \<Rightarrow>
     addr \<Rightarrow> key_type \<Rightarrow> olc_node \<Rightarrow> olc_node \<Rightarrow> bool" where
  "split_node_ok c lo hi lv st a n b sep n2 m \<longleftrightarrow> lo a \<le> unat sep \<and> Suc (unat sep) < hi a
     \<and> olc_node_ok c (lo(b := Suc (unat sep))) (hi(a := Suc (unat sep), b := hi a)) (lv(b := lv a)) st a n2
     \<and> olc_node_ok c (lo(b := Suc (unat sep))) (hi(a := Suc (unat sep), b := hi a)) (lv(b := lv a)) st b m
     \<and> page_type n2 = page_type n \<and> page_type m = page_type n \<and> \<not> olc_full c n2 \<and> \<not> olc_full c m
     \<and> (page_type n = BTreeLeaf \<longrightarrow> (\<forall>x. olc_leaf_map n x = (if x \<le> sep then olc_leaf_map n2 x else olc_leaf_map m x)))"

lemma sorted_le_last:
  assumes "sorted_less xs" "x \<in> set xs"
  shows "x \<le> last (xs :: 'a::linorder list)"
proof -
  have "xs \<noteq> []" using assms(2) by auto
  obtain i where "i < length xs" "xs ! i = x" using assms(2) by (auto simp: in_set_conv_nth)
  then show ?thesis using sorted_less_nth_le [OF assms(1), of i "length xs - 1"] \<open>xs \<noteq> []\<close> by (simp add: last_conv_nth)
qed

lemma leaf_split_ok:
  assumes ok: "olc_node_ok c lo hi lv st a n" and n: "page_type n = BTreeLeaf" "olc_full c n" and ab: "a \<noteq> b"
    and big: "olc_config_ok c"
  obtains sep n' m where "BTreeLeaf_split c b (n\<lparr>lock_version := w\<rparr>) = Inr (sep, n', m)" "lock_version n' = w"
    "split_node_ok c lo hi lv st a n b sep (n'\<lparr>lock_version := lock_version n + 2 + 2\<rparr>) m"
proof -
  let ?n = "n\<lparr>lock_version := w\<rparr>"
  have sh: "olc_leaf_shape c ?n" "count ?n = BTreeLeaf_maxEntries c" "2 \<le> BTreeLeaf_maxEntries c"
    using ok n big by (simp_all add: olc_node_ok_def olc_full_def olc_config_ok_def)
  have keys: "\<forall>k \<in> set (olive n). in_range lo hi a k" and v: "version_free (lock_version n)" "lv a = 0"
    using ok n(1) by (simp_all add: olc_node_ok_def)
  obtain n' m where s: "BTreeLeaf_split c b ?n = Inr (last (olive n'), n', m)" "olc_leaf_shape c n'" "olc_leaf_shape c m"
      "lock_version n' = lock_version ?n" "lock_version m = OptLock_init" "olive ?n = olive n' @ olive m"
      "olive_vals ?n = olive_vals n' @ olive_vals m" "olive n' \<noteq> []" "olive m \<noteq> []" "count n' < BTreeLeaf_maxEntries c"
    using BTreeLeaf_split_eq [OF sh] by metis
  define sep where "sep = last (olive n')"
  have ol: "olive n = olive n' @ olive m" "olive_vals n = olive_vals n' @ olive_vals m" using s(6,7) by simp_all
  have srt: "sorted_less (olive n' @ olive m)" using sh(1) ol(1) by (simp add: olc_leaf_shape_def)
  have sepn: "sep \<in> set (olive n')" using last_in_set [OF s(8)] by (simp only: sep_def)
  have le: "\<forall>x \<in> set (olive n'). x \<le> sep"
    using srt sorted_le_last [of "olive n'"] by (simp add: sep_def sorted_wrt_append)
  have gt: "\<forall>y \<in> set (olive m). sep < y" using srt sepn by (simp add: sorted_wrt_append)
  have len: "length (olive n') = length (olive_vals n')" using s(2) by (simp add: olc_leaf_shape_def)
  obtain y where y: "y \<in> set (olive m)" using s(9) by (meson last_in_set)
  then have "unat sep < unat y" "lo a \<le> unat sep" "unat y < hi a"
    using gt sepn keys ol(1) by (auto simp: in_range_def word_less_nat_alt)
  then have bounds: "lo a \<le> unat sep" "Suc (unat sep) < hi a" by simp_all
  have types: "page_type n' = BTreeLeaf" "page_type m = BTreeLeaf" using s(2,3) by (simp_all add: olc_leaf_shape_def)
  have "length (olive n) = length (olive n') + length (olive m)" using ol(1) by simp
  then have "count m < BTreeLeaf_maxEntries c"
    using s(2,3,8) sh(1,2) by (auto simp: olc_leaf_shape_def)
  then have full: "\<not> olc_full c n'" "\<not> olc_full c m" using s(10) types by (simp_all add: olc_full_def)
  have map: "olc_leaf_map n x = (if x \<le> sep then olc_leaf_map n' x else olc_leaf_map m x)" for x
  proof -
    have z: "zip (olive n) (olive_vals n) = zip (olive n') (olive_vals n') @ zip (olive m) (olive_vals m)"
      using ol len by simp
    have "map_of (zip (olive m) (olive_vals m)) x = None" if "x \<le> sep"
      using that gt by (auto simp: map_of_eq_None_iff dest!: set_zip_leftD)
    moreover have "map_of (zip (olive n') (olive_vals n')) x = None" if "\<not> x \<le> sep"
      using that le by (auto simp: map_of_eq_None_iff dest!: set_zip_leftD)
    ultimately show ?thesis unfolding olc_leaf_map_def z by (auto simp: map_add_def split: option.split)
  qed
  have "\<forall>k \<in> set (olive n'). lo a \<le> unat k \<and> unat k < Suc (unat sep)" "\<forall>k \<in> set (olive m). Suc (unat sep) \<le> unat k \<and> unat k < hi a"
    using keys ol(1) le gt by (auto simp: in_range_def word_le_nat_alt word_less_nat_alt)
  then have "split_node_ok c lo hi lv st a n b sep (n'\<lparr>lock_version := lock_version n + 2 + 2\<rparr>) m"
    using bounds types full map s(2,3,5) v n(1) ab version_free_round [OF v(1)]
    unfolding split_node_ok_def by (simp add: olc_node_ok_def in_range_def)
  then show thesis using that s(1,4) unfolding sep_def by simp
qed

lemma inner_split_ok:
  assumes ok: "olc_node_ok c lo hi lv st a n" and n: "page_type n = BTreeInner" "olc_full c n" and ab: "a \<noteq> b"
    and fresh: "st b = None" and big: "olc_config_ok c"
  obtains sep n' m where "BTreeInner_split c b (n\<lparr>lock_version := w\<rparr>) = Inr (sep, n', m)" "lock_version n' = w"
    "split_node_ok c lo hi lv st a n b sep (n'\<lparr>lock_version := lock_version n + 2 + 2\<rparr>) m"
proof -
  let ?n = "n\<lparr>lock_version := w\<rparr>"
  obtain cs where cs: "olive_kids n = map Some cs" "fences lo hi a (olive n) cs" "\<forall>b \<in> set cs. st b \<noteq> None \<and> Suc (lv b) = lv a"
      "a \<notin> set cs" "olc_inner_shape c n" "\<forall>k \<in> set (olive n). lo a \<le> unat k \<and> Suc (unat k) < hi a" "length cs = Suc (count n)"
    using inner_kids [OF ok n(1)] by metis
  have v: "version_free (lock_version n)" using ok by (simp add: olc_node_ok_def)
  have sh: "olc_inner_shape c ?n" "BTreeInner_isFull c ?n" "5 \<le> BTreeInner_maxEntries c"
    using cs(5) n big by (simp_all add: olc_full_def BTreeInner_isFull_def olc_config_ok_def BTreeInner_maxEntries_def BTreeLeaf_maxEntries_def)
  obtain n' m sep where s: "BTreeInner_split c b ?n = Inr (sep, n', m)" "olc_inner_shape c n'" "olc_inner_shape c m"
      "lock_version n' = lock_version ?n" "lock_version m = OptLock_init" "olive ?n = olive n' @ sep # olive m"
      "olive_kids ?n = olive_kids n' @ olive_kids m" "\<not> BTreeInner_isFull c n'"
    using BTreeInner_split_eq [OF sh] by metis
  have ol: "olive n = olive n' @ sep # olive m" using s(6) by simp
  have "map Some cs = olive_kids n' @ olive_kids m" using s(7) cs(1) by simp
  then obtain cs1 cs2 where k: "cs = cs1 @ cs2" "map Some cs1 = olive_kids n'" "map Some cs2 = olive_kids m"
    by (auto simp: map_eq_append_conv)
  have "length cs1 = length (olive_kids n')" using k(2) by (metis length_map)
  then have len: "length cs1 = Suc (length (olive n'))" using s(2) by (simp add: olc_inner_shape_def)
  have "b \<notin> set cs" using cs(3) fresh by blast
  then have new: "a \<notin> set cs1 \<union> set cs2" "b \<notin> set cs1 \<union> set cs2" using cs(4) k(1) by auto
  let ?lo = "lo(b := Suc (unat sep))" and ?hi = "hi(a := Suc (unat sep), b := hi a)" and ?lv = "lv(b := lv a)"
  have f: "fences ?lo ?hi a (olive n') cs1" "fences ?lo ?hi b (olive m) cs2"
    using fences_cut [OF _ len new ab] cs(2) ol k(1) by simp_all
  have srt: "sorted_less (olive n' @ sep # olive m)" using cs(5) ol by (simp add: olc_inner_shape_def)
  have lt: "\<forall>x \<in> set (olive n'). unat x < unat sep" and gt: "\<forall>x \<in> set (olive m). unat sep < unat x"
    using srt by (simp_all add: sorted_wrt_append word_less_nat_alt)
  have keys: "\<forall>x \<in> set (olive n'). lo a \<le> unat x" "lo a \<le> unat sep" "Suc (unat sep) < hi a" "\<forall>x \<in> set (olive m). Suc (unat x) < hi a"
    using cs(6) ol by auto
  have types: "page_type n' = BTreeInner" "page_type m = BTreeInner" using s(2,3) by (simp_all add: olc_inner_shape_def)
  have kids: "\<forall>x \<in> set cs1. st x \<noteq> None \<and> Suc (?lv x) = ?lv a" "\<forall>x \<in> set cs2. st x \<noteq> None \<and> Suc (?lv x) = ?lv b"
    using cs(3) k(1) new ab by auto
  have "olc_node_ok c ?lo ?hi ?lv st a (n'\<lparr>lock_version := lock_version n + 2 + 2\<rparr>)"
    using keys lt f(1) kids(1) k(2) s(2) types ab v unfolding olc_node_ok_def
    by (auto intro!: exI [of _ cs1] version_free_round simp del: fun_upd_apply) (simp_all add: ab)
  moreover have "olc_node_ok c ?lo ?hi ?lv st b m"
    using keys gt f(2) kids(2) k(3) s(3,5) types ab unfolding olc_node_ok_def
    by (auto intro!: exI [of _ cs2] simp del: fun_upd_apply) (simp_all add: Suc_leI)
  moreover have "count m < count n"
  proof -
    have "length (olive n) = length (olive n' @ sep # olive m)" using ol by simp
    then show ?thesis using s(2,3) cs(5) by (simp add: olc_inner_shape_def)
  qed
  then have "\<not> olc_full c m" "\<not> olc_full c n'"
    using s(8) n types by (simp_all add: olc_full_def BTreeInner_isFull_def)
  ultimately show thesis
    using that s(1,4) keys types n(1) unfolding split_node_ok_def by simp
qed

section \<open>Hanging the new node into the tree\<close>

lemma split_disjoint:
  assumes inv: "olc_inv c lo hi lv t r" and a: "onodes t a = Some n" and b: "onodes t b = None"
    and sep: "lo a \<le> sep" "sep < hi a" and dom: "dom st' = insert b (dom (onodes t))"
  shows "olc_disjoint (lo(b := Suc sep)) (hi(a := Suc sep, b := hi a)) (lv(b := lv a)) st'"
  unfolding olc_disjoint_def
proof (intro allI impI, elim conjE)
  let ?lo = "lo(b := Suc sep)" and ?hi = "hi(a := Suc sep, b := hi a)" and ?lv = "lv(b := lv a)"
  define old where "old x = (if x = b then a else x)" for x
  fix x y
  assume xy: "st' x \<noteq> None" "st' y \<noteq> None" "x \<noteq> y" "?lv x = ?lv y"
  have ab: "a \<noteq> b" using a b by auto
  have in_old: "onodes t (old z) \<noteq> None \<and> lo (old z) \<le> ?lo z \<and> ?hi z \<le> hi (old z) \<and> ?lv z = lv (old z)" if "st' z \<noteq> None" for z
  proof -
    have "z \<in> insert b (dom (onodes t))" using that dom by blast
    then show ?thesis using a sep ab by (auto simp: old_def)
  qed
  show "?hi x \<le> ?lo y \<or> ?hi y \<le> ?lo x"
  proof (cases "old x = old y")
    case True
    then have "x = a \<and> y = b \<or> x = b \<and> y = a" using xy(3) ab by (auto simp: old_def split: if_splits)
    then show ?thesis using ab by auto
  next
    case False
    have "lv (old x) = lv (old y)" using in_old xy by metis
    then have "hi (old x) \<le> lo (old y) \<or> hi (old y) \<le> lo (old x)"
      using inv in_old xy(1,2) False unfolding olc_inv_def olc_disjoint_def by blast
    then show ?thesis using in_old [OF xy(1)] in_old [OF xy(2)] by linarith
  qed
qed

text \<open>The parent after \<^verbatim>\<open>insert\<close>: the separator and the new child stand behind the split child.\<close>

definition widened :: "olc_config \<Rightarrow> olc_node \<Rightarrow> key_type \<Rightarrow> addr \<Rightarrow> olc_node \<Rightarrow> bool" where
  "widened c q sep b q2 \<longleftrightarrow> olc_inner_shape c q2 \<and> olive q2 = insert_at (std_lower_bound (olive q) sep) sep (olive q)
     \<and> olive_kids q2 = insert_at (Suc (std_lower_bound (olive q) sep)) (Some b) (olive_kids q) \<and> lock_version q2 = lock_version q + 2 + 2"

lemma widened_ok:
  assumes inv: "olc_inv c lo hi lv t r" and p: "onodes t p = Some q" "page_type q = BTreeInner" "Some a \<in> set (olive_kids q)"
    and a: "onodes t a = Some n" and b: "onodes t b = None" "b \<noteq> p" and sep: "lo a \<le> unat sep" "Suc (unat sep) < hi a"
    and q2: "widened c q sep b q2" and st': "dom st' = insert b (dom (onodes t))"
  shows "olc_node_ok c (lo(b := Suc (unat sep))) (hi(a := Suc (unat sep), b := hi a)) (lv(b := lv a)) st' p q2"
proof -
  let ?lo = "lo(b := Suc (unat sep))" and ?hi = "hi(a := Suc (unat sep), b := hi a)" and ?lv = "lv(b := lv a)"
    and ?i = "std_lower_bound (olive q) sep"
  obtain cs where cs: "olive_kids q = map Some cs" "fences lo hi p (olive q) cs" "\<forall>b \<in> set cs. onodes t b \<noteq> None \<and> Suc (lv b) = lv p"
      "distinct cs" "p \<notin> set cs" "olc_inner_shape c q" "\<forall>k \<in> set (olive q). lo p \<le> unat k \<and> Suc (unat k) < hi p"
      "\<forall>b \<in> set cs. lo p \<le> lo b \<and> hi b \<le> hi p" "length cs = Suc (count q)"
    using inner_kids [OF olc_invD(3) [OF inv p(1)] p(2)] by metis
  have ac: "a \<in> set cs" using p(3) cs(1) by auto
  then obtain i where i: "i < length cs" "cs ! i = a" by (auto simp: in_set_conv_nth)
  have "in_range lo hi (cs ! i) sep" using sep i(2) by (simp add: in_range_def)
  then have ii: "?i = i" using fences_index [OF cs(2) _ i(1)] cs(6) by (simp add: olc_inner_shape_def)
  have new: "b \<notin> set cs" using cs(3) b(1) by blast
  have "p \<noteq> a" using ac cs(5) by blast
  then have "fences ?lo ?hi p (olive q2) (insert_at (Suc i) b cs)"
    using fences_widen [OF cs(2) i cs(4) new _ b(2) [symmetric]] q2 ii by (simp add: widened_def)
  moreover have "olive_kids q2 = map Some (insert_at (Suc i) b cs)" using q2 ii cs(1) by (simp add: widened_def map_insert_at)
  moreover have "\<forall>x \<in> set (insert_at (Suc i) b cs). st' x \<noteq> None \<and> Suc (?lv x) = ?lv p"
  proof
    fix x
    assume "x \<in> set (insert_at (Suc i) b cs)"
    then have "x = b \<or> x \<in> set cs \<and> x \<noteq> b" using new by auto
    moreover have "st' x \<noteq> None" if "x = b \<or> x \<in> set cs" using that cs(3) st' by (metis domIff insertCI)
    ultimately show "st' x \<noteq> None \<and> Suc (?lv x) = ?lv p" using cs(3) ac b(2) by auto
  qed
  moreover have "\<forall>k \<in> set (olive q2). ?lo p \<le> unat k \<and> Suc (unat k) < ?hi p"
  proof -
    have "lo p \<le> lo a" "hi a \<le> hi p" using cs(8) ac by simp_all
    then have "\<forall>k \<in> set (olive q2). lo p \<le> unat k \<and> Suc (unat k) < hi p" using cs(7) sep q2 by (auto simp: widened_def)
    then show ?thesis using b(2) \<open>p \<noteq> a\<close> by simp
  qed
  moreover have "version_free (lock_version q2)" "lo p < hi p"
    using olc_invD(3) [OF inv p(1)] q2 version_free_round by (auto simp: olc_node_ok_def widened_def)
  moreover have "olc_inner_shape c q2" "page_type q2 = BTreeInner"
    using q2 unfolding widened_def olc_inner_shape_def by blast+
  ultimately show ?thesis using b(2) \<open>p \<noteq> a\<close> unfolding olc_node_ok_def by auto
qed

text \<open>One split seen from outside: range, level and address of the new node, and what happens to the others.\<close>

lemma split_below_parent:
  assumes inv: "olc_inv c lo hi lv t r" and p: "onodes t p = Some q" "page_type q = BTreeInner" "Some a \<in> set (olive_kids q)"
    and a: "onodes t a = Some n" "a \<noteq> p" and s: "split_node_ok c lo hi lv (onodes t) a n (onext t) sep n2 m"
    and q2: "widened c q sep (onext t) q2"
    and t': "onodes t' = (onodes t)(a \<mapsto> n2, onext t \<mapsto> m, p \<mapsto> q2)" "onext t' = Suc (onext t)" "oroot t' = oroot t"
  shows "olc_inv c (lo(onext t := Suc (unat sep))) (hi(a := Suc (unat sep), onext t := hi a)) (lv(onext t := lv a)) t' r"
proof -
  let ?b = "onext t"
  let ?lo = "lo(?b := Suc (unat sep))" and ?hi = "hi(a := Suc (unat sep), ?b := hi a)" and ?lv = "lv(?b := lv a)"
  have b: "onodes t ?b = None" "?b \<noteq> p" "?b \<noteq> a" using olc_inv_fresh [OF inv] p(1) a(1) by auto
  have sep: "lo a \<le> unat sep" "Suc (unat sep) < hi a" using s by (simp_all add: split_node_ok_def)
  have dom: "dom (onodes t') = insert ?b (dom (onodes t))" using t'(1) a(1) p(1) by auto
  have r: "oroot t = Some r" "onodes t r \<noteq> None" "lo r = 0" "hi r = 2 ^ 64" using inv by (simp_all add: olc_inv_def)
  have lva: "lv a < lv r" "r \<noteq> a" "r \<noteq> ?b"
  proof -
    obtain cs where "olive_kids q = map Some cs" "\<forall>b \<in> set cs. onodes t b \<noteq> None \<and> Suc (lv b) = lv p"
      using inner_kids [OF olc_invD(3) [OF inv p(1)] p(2)] by metis
    then have "Suc (lv a) = lv p" using p(3) by auto
    then show "lv a < lv r" using olc_invD(2) [OF inv p(1)] by simp
    then show "r \<noteq> a" "r \<noteq> ?b" using r(2) b(1) by auto
  qed
  have nodes: "x < Suc ?b \<and> ?lv x \<le> ?lv r \<and> olc_node_ok c ?lo ?hi ?lv (onodes t') x nx" if x: "onodes t' x = Some nx" for x nx
  proof -
    consider "x = p" "nx = q2" | "x = a" "nx = n2" | "x = ?b" "nx = m" | "x \<noteq> p" "x \<noteq> a" "x \<noteq> ?b" "onodes t x = Some nx"
      using x t'(1) b a(2) by (auto split: if_splits)
    then show ?thesis
    proof cases
      case 1
      then show ?thesis using widened_ok [OF inv p a(1) b(1,2) sep q2 dom] olc_invD(1,2) [OF inv p(1)] b lva by simp
    next
      case 2
      then show ?thesis using s dom olc_invD(1,2) [OF inv a(1)] b lva unfolding split_node_ok_def
        by (auto intro: olc_node_ok_dom)
    next
      case 3
      then show ?thesis using s dom lva unfolding split_node_ok_def by (auto intro: olc_node_ok_dom)
    next
      case 4
      have ok: "olc_node_ok c lo hi lv (onodes t) x nx" using olc_invD(3) [OF inv 4(4)] .
      have "olc_node_ok c ?lo ?hi ?lv (onodes t') x nx"
      proof (rule olc_node_ok_frame [OF ok])
        show "\<forall>y. page_type nx = BTreeInner \<and> Some y \<in> set (olive_kids nx) \<longrightarrow> ?lo y = lo y \<and> ?hi y = hi y \<and> ?lv y = lv y"
        proof (intro allI impI)
          fix y
          assume y: "page_type nx = BTreeInner \<and> Some y \<in> set (olive_kids nx)"
          then have "y \<noteq> a" using only_parent [OF inv p 4(4)] 4(1) by blast
          moreover obtain cs where "olive_kids nx = map Some cs" "\<forall>b \<in> set cs. onodes t b \<noteq> None \<and> Suc (lv b) = lv x"
            using inner_kids [OF ok] y by metis
          then have "y \<noteq> ?b" using y b(1) by auto
          ultimately show "?lo y = lo y \<and> ?hi y = hi y \<and> ?lv y = lv y" by simp
        qed
      qed (use 4 dom in auto)
      then show ?thesis using olc_invD(1,2) [OF inv 4(4)] 4(3) lva(3) by simp
    qed
  qed
  have "onodes t' r \<noteq> None" using r(2) t'(1) by simp
  moreover have "?lo r = 0" "?hi r = 2 ^ 64" using r lva(2,3) by simp_all
  moreover have "olc_disjoint ?lo ?hi ?lv (onodes t')" by (rule split_disjoint [OF inv a(1) b(1) _ _ dom]) (use sep in auto)
  moreover have "oroot t' = Some r" using r(1) t'(3) by simp
  ultimately show ?thesis using nodes unfolding olc_inv_def t'(2) by blast
qed

lemma root_has_no_parent:
  assumes inv: "olc_inv c lo hi lv t r" and x: "onodes t x = Some n" "page_type n = BTreeInner"
  shows "Some r \<notin> set (olive_kids n)"
proof
  assume "Some r \<in> set (olive_kids n)"
  moreover obtain cs where "olive_kids n = map Some cs" "\<forall>b \<in> set cs. onodes t b \<noteq> None \<and> Suc (lv b) = lv x"
    using inner_kids [OF olc_invD(3) [OF inv x(1)] x(2)] by metis
  ultimately have "Suc (lv r) = lv x" by auto
  then show False using olc_invD(2) [OF inv x(1)] by simp
qed

text \<open>The new root has the two halves of the old one as its children.\<close>

lemma split_of_root:
  assumes inv: "olc_inv c lo hi lv t a" and a: "onodes t a = Some n"
    and s: "split_node_ok c lo hi lv (onodes t) a n (onext t) sep n2 m"
    and q: "olc_inner_shape c q" "olive q = [sep]" "olive_kids q = [Some a, Some (onext t)]" "version_free (lock_version q)"
    and t': "onodes t' = (onodes t)(a \<mapsto> n2, onext t \<mapsto> m, Suc (onext t) \<mapsto> q)" "onext t' = Suc (Suc (onext t))"
      "oroot t' = Some (Suc (onext t))"
  shows "olc_inv c (lo(onext t := Suc (unat sep), Suc (onext t) := 0))
    (hi(a := Suc (unat sep), onext t := hi a, Suc (onext t) := 2 ^ 64)) (lv(onext t := lv a, Suc (onext t) := Suc (lv a))) t' (Suc (onext t))"
proof -
  let ?b = "onext t" and ?r = "Suc (onext t)"
  let ?lo1 = "lo(?b := Suc (unat sep))" and ?hi1 = "hi(a := Suc (unat sep), ?b := hi a)" and ?lv1 = "lv(?b := lv a)"
  let ?lo = "?lo1(?r := 0)" and ?hi = "?hi1(?r := 2 ^ 64)" and ?lv = "?lv1(?r := Suc (lv a))"
  let ?st1 = "(onodes t)(a \<mapsto> n2, ?b \<mapsto> m)"
  have b: "onodes t ?b = None" "onodes t ?r = None" using olc_inv_fresh [OF inv] by simp_all
  then have ab: "a \<noteq> ?b" "a \<noteq> ?r" using a by auto
  have sep: "lo a \<le> unat sep" "Suc (unat sep) < hi a" using s by (simp_all add: split_node_ok_def)
  have top: "lo a = 0" "hi a = 2 ^ 64" using inv by (simp_all add: olc_inv_def)
  have sub: "dom (onodes t) \<subseteq> dom ?st1" "dom ?st1 \<subseteq> dom (onodes t')" using t'(1) by auto
  have kids: "y \<noteq> ?b \<and> y \<noteq> ?r \<and> (y = a \<longrightarrow> False)"
    if x: "onodes t x = Some nx" "page_type nx = BTreeInner" "Some y \<in> set (olive_kids nx)" for x nx y
  proof -
    obtain cs where "olive_kids nx = map Some cs" "\<forall>b \<in> set cs. onodes t b \<noteq> None \<and> Suc (lv b) = lv x"
      using inner_kids [OF olc_invD(3) [OF inv x(1)] x(2)] by metis
    then have "onodes t y \<noteq> None" using x(3) by auto
    then show ?thesis using b root_has_no_parent [OF inv x(1,2)] x(3) by auto
  qed
  have lift: "olc_node_ok c ?lo ?hi ?lv (onodes t') x nx"
    if x: "olc_node_ok c ?lo1 ?hi1 ?lv1 (onodes t) x nx" "x \<noteq> ?r" for x nx
  proof (rule olc_node_ok_frame [OF x(1)])
    show "\<forall>y. page_type nx = BTreeInner \<and> Some y \<in> set (olive_kids nx) \<longrightarrow> ?lo y = ?lo1 y \<and> ?hi y = ?hi1 y \<and> ?lv y = ?lv1 y"
    proof (intro allI impI)
      fix y
      assume y: "page_type nx = BTreeInner \<and> Some y \<in> set (olive_kids nx)"
      then obtain cs where "olive_kids nx = map Some cs" "\<forall>b \<in> set cs. onodes t b \<noteq> None \<and> Suc (?lv1 b) = ?lv1 x"
        using inner_kids [OF x(1)] by metis
      then have "y \<noteq> ?r" using y b(2) by auto
      then show "?lo y = ?lo1 y \<and> ?hi y = ?hi1 y \<and> ?lv y = ?lv1 y" by simp
    qed
  qed (use x(2) sub in auto)
  have nodes: "x < Suc ?r \<and> ?lv x \<le> ?lv ?r \<and> olc_node_ok c ?lo ?hi ?lv (onodes t') x nx" if x: "onodes t' x = Some nx" for x nx
  proof -
    consider "x = ?r" "nx = q" | "x = a" "nx = n2" | "x = ?b" "nx = m" | "x \<noteq> ?r" "x \<noteq> a" "x \<noteq> ?b" "onodes t x = Some nx"
      using x t'(1) ab by (auto split: if_splits)
    then show ?thesis
    proof cases
      case 1
      have "fences ?lo ?hi ?r (olive q) [a, ?b]" using q(2) ab top by (simp add: fences_def)
      moreover have "page_type q = BTreeInner" using q(1) by (simp add: olc_inner_shape_def)
      moreover have "\<forall>x \<in> set [a, ?b]. onodes t' x \<noteq> None \<and> Suc (?lv x) = ?lv ?r" using t'(1) ab by simp
      moreover have "\<forall>k \<in> set (olive q). ?lo ?r \<le> unat k \<and> Suc (unat k) < ?hi ?r" using q(2) sep top by simp
      ultimately have "olc_node_ok c ?lo ?hi ?lv (onodes t') ?r q"
        using q(1,3,4) unfolding olc_node_ok_def by (auto intro!: exI [of _ "[a, ?b]"] simp del: q(2) simp: fences_def)
      then show ?thesis using 1 by simp
    next
      case 2
      then show ?thesis using s lift [of a n2] olc_invD(1) [OF inv a] ab by (simp add: split_node_ok_def)
    next
      case 3
      then show ?thesis using s lift [of ?b m] by (simp add: split_node_ok_def)
    next
      case 4
      have "olc_node_ok c ?lo1 ?hi1 ?lv1 (onodes t) x nx"
        by (rule olc_node_ok_frame [OF olc_invD(3) [OF inv 4(4)]]) (use 4 kids in auto)
      then show ?thesis using lift 4 olc_invD(1,2) [OF inv 4(4)] by simp
    qed
  qed
  have "olc_disjoint ?lo1 ?hi1 ?lv1 ?st1" by (rule split_disjoint [OF inv a b(1)]) (use sep a in auto)
  moreover have "?lv1 x < ?lv ?r" if "?st1 x \<noteq> None" for x
    using that olc_invD(2) [OF inv, of x] by (auto simp: less_Suc_eq_le split: if_splits)
  ultimately have "olc_disjoint ?lo ?hi ?lv (onodes t')"
    unfolding olc_disjoint_def t'(1) by (metis (no_types, lifting) fun_upd_apply less_irrefl)
  then show ?thesis using nodes t' unfolding olc_inv_def by simp
qed

lemma split_keeps_map:
  assumes inv: "olc_inv c lo hi lv t r" and inv': "olc_inv c lo' hi' lv' t' r'"
    and a: "onodes t a = Some n" and s: "split_node_ok c lo hi lv (onodes t) a n b sep n2 m"
    and new: "onodes t' a = Some n2" "onodes t' b = Some m" "lo' a = lo a" "hi' a = Suc (unat sep)" "lo' b = Suc (unat sep)" "hi' b = hi a"
    and same: "\<forall>z nz. onodes t z = Some nz \<and> page_type nz = BTreeLeaf \<and> z \<noteq> a \<longrightarrow> onodes t' z = Some nz \<and> lo' z = lo z \<and> hi' z = hi z"
  shows "olc_map t' = olc_map t"
proof
  fix x
  obtain z nz where z: "onodes t z = Some nz" "page_type nz = BTreeLeaf" "in_range lo hi z x" using covering_leaf [OF inv] .
  have old: "olc_map t x = olc_leaf_map nz x" using olc_map_leaf [OF inv z] .
  show "olc_map t' x = olc_map t x"
  proof (cases "z = a")
    case False
    then have z': "onodes t' z = Some nz" "lo' z = lo z" "hi' z = hi z" using same z by blast+
    then show ?thesis using olc_map_leaf [OF inv' z'(1) z(2), of x] z(3) old by (simp add: in_range_def)
  next
    case True
    then have nz: "nz = n" using a z(1) by simp
    then have types: "page_type n2 = BTreeLeaf" "page_type m = BTreeLeaf" using s z(2) by (simp_all add: split_node_ok_def)
    have cut: "olc_leaf_map n x = (if x \<le> sep then olc_leaf_map n2 x else olc_leaf_map m x)"
      using s z(2) nz by (simp add: split_node_ok_def)
    show ?thesis
    proof (cases "x \<le> sep")
      case True
      then have "in_range lo' hi' a x" using z(3) \<open>z = a\<close> new(3,4) by (simp add: in_range_def word_le_nat_alt less_Suc_eq_le)
      then show ?thesis using olc_map_leaf [OF inv' new(1) types(1)] True old cut nz by simp
    next
      case False
      then have "in_range lo' hi' b x" using z(3) \<open>z = a\<close> new(5,6) by (simp add: in_range_def word_le_nat_alt)
      then show ?thesis using olc_map_leaf [OF inv' new(2) types(2)] False old cut nz by simp
    qed
  qed
qed

section \<open>The statements of a split\<close>

lemma olc_upgrade_eq:
  "onodes t a = Some n \<Longrightarrow> olc_upgrade t (Some a) (lock_version n)
     = Inr (False, t\<lparr>onodes := (onodes t)(a \<mapsto> n\<lparr>lock_version := lock_version n + 2\<rparr>)\<rparr>)"
  by (simp add: olc_upgrade_def olc_deref_def olc_store_def OptLock_upgradeToWriteLockOrRestart_def)

lemma olc_write_unlock_eq:
  "onodes t a = Some n \<Longrightarrow> olc_write_unlock t (Some a)
     = Inr (t\<lparr>onodes := (onodes t)(a \<mapsto> n\<lparr>lock_version := lock_version n + 2\<rparr>)\<rparr>)"
  by (simp add: olc_write_unlock_def olc_deref_def olc_store_def OptLock_writeUnlock_def)

lemma olc_read_unlock_eq: "onodes t a = Some n \<Longrightarrow> olc_read_unlock t (Some a) (lock_version n) = Inr False"
  by (simp add: olc_read_unlock_def olc_deref_def OptLock_readUnlockOrRestart_def)

lemma olc_read_lock_eq:
  "onodes t a = Some n \<Longrightarrow> version_free (lock_version n) \<Longrightarrow> olc_read_lock t (Some a) = Inr (lock_version n, False)"
  by (simp add: olc_read_lock_def olc_deref_def version_free_readable)

lemma split_below_parent_runs:
  assumes n: "onodes t a = Some n" and q: "onodes t p = Some q" and ne: "a \<noteq> p" "onodes t (onext t) = None"
    and sn: "sn c (onext t) (n\<lparr>lock_version := lock_version n + 2\<rparr>) = Inr (sep, n', m)" "lock_version n' = lock_version n + 2"
    and ins: "BTreeInner_insert c (q\<lparr>lock_version := lock_version q + 2\<rparr>) sep (Some (onext t)) = Inr q'" "lock_version q' = lock_version q + 2"
  shows "olc_split_full sn c t (Some a) (lock_version n) (Some p) (lock_version q) = Inr (t\<lparr>onodes := (onodes t)
    (a \<mapsto> n'\<lparr>lock_version := lock_version n + 2 + 2\<rparr>, onext t \<mapsto> m, p \<mapsto> q'\<lparr>lock_version := lock_version q + 2 + 2\<rparr>), onext := Suc (onext t)\<rparr>)"
proof -
  have b: "onext t \<noteq> a" "onext t \<noteq> p" using n q ne(2) by auto
  define q1 where "q1 = q\<lparr>lock_version := lock_version q + 2\<rparr>"
  define n1 where "n1 = n\<lparr>lock_version := lock_version n + 2\<rparr>"
  define t1 where "t1 = t\<lparr>onodes := (onodes t)(p \<mapsto> q1)\<rparr>"
  define t2 where "t2 = t1\<lparr>onodes := (onodes t1)(a \<mapsto> n1)\<rparr>"
  define t3 where "t3 = t2\<lparr>onodes := (onodes t2)(a \<mapsto> n', onext t \<mapsto> m), onext := Suc (onext t)\<rparr>"
  define t4 where "t4 = t3\<lparr>onodes := (onodes t3)(p \<mapsto> q')\<rparr>"
  define t5 where "t5 = t4\<lparr>onodes := (onodes t4)(a \<mapsto> n'\<lparr>lock_version := lock_version n' + 2\<rparr>)\<rparr>"
  have u1: "olc_upgrade t (Some p) (lock_version q) = Inr (False, t1)" unfolding t1_def q1_def using q by (rule olc_upgrade_eq)
  have "onodes t1 a = Some n" using n ne(1) by (simp add: t1_def)
  then have u2: "olc_upgrade t1 (Some a) (lock_version n) = Inr (False, t2)" unfolding t2_def n1_def by (rule olc_upgrade_eq)
  have d2: "olc_deref t2 (Some a) = Inr n1" "onext t2 = onext t" by (simp_all add: olc_deref_def t2_def t1_def)
  have n2: "olc_new (olc_store t2 (Some a) n') m = (Some (onext t), t3)" by (simp add: olc_new_def olc_store_def t3_def d2(2))
  have d3: "olc_deref t3 (Some p) = Inr q1" using ne(1) b by (simp add: olc_deref_def t3_def t2_def t1_def)
  have s4: "olc_store t3 (Some p) q' = t4" by (simp add: olc_store_def t4_def)
  have "onodes t4 a = Some n'" using ne(1) b by (simp add: t4_def t3_def)
  then have u5: "olc_write_unlock t4 (Some a) = Inr t5" unfolding t5_def by (rule olc_write_unlock_eq)
  have "onodes t5 p = Some q'" using ne(1) by (simp add: t5_def t4_def)
  then have u6: "olc_write_unlock t5 (Some p) = Inr (t5\<lparr>onodes := (onodes t5)(p \<mapsto> q'\<lparr>lock_version := lock_version q' + 2\<rparr>)\<rparr>)"
    by (rule olc_write_unlock_eq)
  have fin: "(onodes t5)(p \<mapsto> q'\<lparr>lock_version := lock_version q' + 2\<rparr>) = (onodes t)
      (a \<mapsto> n'\<lparr>lock_version := lock_version n + 2 + 2\<rparr>, onext t \<mapsto> m, p \<mapsto> q'\<lparr>lock_version := lock_version q + 2 + 2\<rparr>)"
    using ne(1) b sn(2) ins(2) by (auto simp: fun_eq_iff t5_def t4_def t3_def t2_def t1_def)
  have rest: "t5\<lparr>onodes := X\<rparr> = t\<lparr>onodes := X, onext := Suc (onext t)\<rparr>" for X
    by (simp add: t5_def t4_def t3_def t2_def t1_def)
  show ?thesis unfolding olc_split_full_def
    using u1 u2 d2 sn(1) [folded n1_def] n2 d3 ins(1) [folded q1_def] s4 u5 u6 fin rest by simp
qed

lemma split_of_root_runs:
  assumes n: "onodes t a = Some n" and root: "oroot t = Some a" and ne: "onodes t (onext t) = None" "onodes t (Suc (onext t)) = None"
    and sn: "sn c (onext t) (n\<lparr>lock_version := lock_version n + 2\<rparr>) = Inr (sep, n', m)" "lock_version n' = lock_version n + 2"
    and mx: "2 < BTreeInner_maxEntries c"
  obtains q where "olc_split_full sn c t (Some a) (lock_version n) None 0 = Inr (t\<lparr>onodes := (onodes t)
      (a \<mapsto> n'\<lparr>lock_version := lock_version n + 2 + 2\<rparr>, onext t \<mapsto> m, Suc (onext t) \<mapsto> q), onext := Suc (Suc (onext t)), oroot := Some (Suc (onext t))\<rparr>)"
    "olc_inner_shape c q" "olive q = [sep]" "olive_kids q = [Some a, Some (onext t)]" "version_free (lock_version q)" "count q = 1"
proof -
  have b: "onext t \<noteq> a" "Suc (onext t) \<noteq> a" using n ne by auto
  let ?b = "onext t"
  define n1 where "n1 = n\<lparr>lock_version := lock_version n + 2\<rparr>"
  define t2 where "t2 = t\<lparr>onodes := (onodes t)(a \<mapsto> n1)\<rparr>"
  define t3 where "t3 = t2\<lparr>onodes := (onodes t2)(a \<mapsto> n', ?b \<mapsto> m), onext := Suc ?b\<rparr>"
  define q0 where "q0 = BTreeInner_ctor c (Suc ?b)"
  define q where "q = q0\<lparr>count := 1, okeys := (okeys q0)[0 := sep], children := (children q0)[0 := Some a, 1 := Some ?b]\<rparr>"
  define t4 where "t4 = t3\<lparr>onodes := (onodes t3)(Suc ?b \<mapsto> q), onext := Suc (Suc ?b), oroot := Some (Suc ?b)\<rparr>"
  have len: "length (okeys q0) = BTreeInner_maxEntries c" "length (children q0) = BTreeInner_maxEntries c"
    "page_type q0 = BTreeInner" "lock_version q0 = OptLock_init" by (simp_all add: q0_def BTreeInner_ctor_def)
  have two: "\<exists>x y zs. xs = x # y # zs" if "2 < length xs" for xs :: "'b list"
    using that by (cases xs; cases "tl xs") auto
  obtain k0 k1 ks where ks: "okeys q0 = k0 # k1 # ks" using two [of "okeys q0"] len mx by auto
  obtain c0 c1 cs where cs: "children q0 = c0 # c1 # cs" using two [of "children q0"] len mx by auto
  have u2: "olc_upgrade t (Some a) (lock_version n) = Inr (False, t2)" unfolding t2_def n1_def using n by (rule olc_upgrade_eq)
  have d2: "olc_deref t2 (Some a) = Inr n1" "onext t2 = ?b" "oroot t2 = Some a" using root by (simp_all add: olc_deref_def t2_def)
  have n2: "olc_new (olc_store t2 (Some a) n') m = (Some ?b, t3)" by (simp add: olc_new_def olc_store_def t3_def d2(2))
  have m4: "BTree_makeRoot c t3 sep (Some a) (Some ?b) = Inr t4"
    using ks cs by (simp add: BTree_makeRoot_def arr_simps olc_new_def t4_def q_def q0_def [symmetric] t3_def)
  have "onodes t4 a = Some n'" using b by (simp add: t4_def t3_def)
  then have u5: "olc_write_unlock t4 (Some a) = Inr (t4\<lparr>onodes := (onodes t4)(a \<mapsto> n'\<lparr>lock_version := lock_version n' + 2\<rparr>)\<rparr>)"
    by (rule olc_write_unlock_eq)
  have fin: "(onodes t4)(a \<mapsto> n'\<lparr>lock_version := lock_version n' + 2\<rparr>)
      = (onodes t)(a \<mapsto> n'\<lparr>lock_version := lock_version n + 2 + 2\<rparr>, ?b \<mapsto> m, Suc ?b \<mapsto> q)"
    using b sn(2) by (auto simp: fun_eq_iff t4_def t3_def t2_def)
  have rest: "t4\<lparr>onodes := X\<rparr> = t\<lparr>onodes := X, onext := Suc (Suc ?b), oroot := Some (Suc ?b)\<rparr>" for X
    by (simp add: t4_def t3_def t2_def)
  show thesis
  proof (rule that [of q])
    show "olc_split_full sn c t (Some a) (lock_version n) None 0 = Inr (t\<lparr>onodes := (onodes t)
        (a \<mapsto> n'\<lparr>lock_version := lock_version n + 2 + 2\<rparr>, ?b \<mapsto> m, Suc ?b \<mapsto> q), onext := Suc (Suc ?b), oroot := Some (Suc ?b)\<rparr>)"
      unfolding olc_split_full_def using u2 d2 sn(1) [folded n1_def] n2 m4 u5 fin rest by simp
    show "olc_inner_shape c q" using len mx ks cs by (simp add: q_def olc_inner_shape_def)
    show "olive q = [sep]" "olive_kids q = [Some a, Some ?b]" "version_free (lock_version q)" "count q = 1"
      using len(4) ks cs by (simp_all add: q_def)
  qed
qed

lemma insert_widens:
  assumes ok: "olc_inner_shape c q" and room: "\<not> BTreeInner_isFull c q" and sep: "sep \<notin> set (olive q)"
  obtains q' where "BTreeInner_insert c (q\<lparr>lock_version := w\<rparr>) sep (Some b) = Inr q'" "lock_version q' = w"
    "widened c q sep b (q'\<lparr>lock_version := lock_version q + 2 + 2\<rparr>)"
proof -
  let ?q = "q\<lparr>lock_version := w\<rparr>" and ?i = "std_lower_bound (olive q) sep"
  have sh: "sorted_less (olive ?q)" "0 < count ?q" "count ?q < BTreeInner_maxEntries c - 1"
      "length (okeys ?q) = BTreeInner_maxEntries c" "length (children ?q) = BTreeInner_maxEntries c"
    using ok room by (auto simp: olc_inner_shape_def BTreeInner_isFull_def)
  obtain q' where q': "BTreeInner_insert c ?q sep (Some b) = Inr q'" "count q' = Suc (count ?q)" "page_type q' = page_type ?q"
      "lock_version q' = lock_version ?q" "length (okeys q') = length (okeys ?q)" "length (children q') = length (children ?q)"
      "olive q' = insert_at (std_lower_bound (olive ?q) sep) sep (olive ?q)"
      "take (Suc (count q')) (children q') = insert_at (Suc (std_lower_bound (olive ?q) sep)) (Some b) (take (Suc (count ?q)) (children ?q))"
    using BTreeInner_insert_eq [OF sh] by metis
  have "sorted_less (insert_at ?i sep (olive q))" using std_lb.lb_insert_sorted [OF _ _ sep] sh(1) by simp
  moreover have "olive q' = insert_at ?i sep (olive q)" using q'(7) by simp
  ultimately have "olc_inner_shape c q'" using ok sh(3) q'(2-6) unfolding olc_inner_shape_def by simp
  moreover have "olive_kids q' = insert_at (Suc ?i) (Some b) (olive_kids q)" using q'(8) by simp
  ultimately have "widened c q sep b (q'\<lparr>lock_version := lock_version q + 2 + 2\<rparr>)"
    using \<open>olive q' = insert_at ?i sep (olive q)\<close> unfolding widened_def by simp
  then show thesis using that q'(1,4) by simp
qed

end
