(* ===== verification/OLC_Refinement.thy ===== *)
theory OLC_Refinement
  imports OLC_Insert
begin

text \<open>
  The operations of the tree with optimistic lock coupling implement a dictionary. An insertion
  restarts after every eager split; the levels on its path whose nodes are full are the measure that
  bounds the number of attempts.
\<close>

section \<open>Attempts of an insertion\<close>

definition full_levels ::
  "olc_config \<Rightarrow> (addr \<Rightarrow> nat) \<Rightarrow> (addr \<Rightarrow> nat) \<Rightarrow> (addr \<Rightarrow> nat) \<Rightarrow> olc_tree \<Rightarrow> key_type \<Rightarrow> nat set" where
  "full_levels c lo hi lv t k = {lv x |x n. onodes t x = Some n \<and> in_range lo hi x k \<and> olc_full c n}"

lemma full_levels_bound: "olc_inv c lo hi lv t r \<Longrightarrow> full_levels c lo hi lv t k \<subseteq> {..lv r}"
  unfolding full_levels_def using olc_invD(2) by blast

definition progress ::
  "olc_config \<Rightarrow> (addr \<Rightarrow> nat) \<Rightarrow> (addr \<Rightarrow> nat) \<Rightarrow> (addr \<Rightarrow> nat) \<Rightarrow> olc_tree \<Rightarrow> addr \<Rightarrow> key_type \<Rightarrow> olc_tree \<Rightarrow> bool" where
  "progress c lo hi lv t r k t' \<longleftrightarrow> (\<exists>lo' hi' lv' r' l. olc_inv c lo' hi' lv' t' r' \<and> olc_map t' = olc_map t
     \<and> l \<in> full_levels c lo hi lv t k
     \<and> (l < lv r \<and> lv' r' = lv r \<and> full_levels c lo' hi' lv' t' k \<subseteq> insert (Suc l) (full_levels c lo hi lv t k - {l})
        \<or> l \<le> lv r \<and> lv' r' = Suc (lv r) \<and> full_levels c lo' hi' lv' t' k \<subseteq> full_levels c lo hi lv t k - {l}))"

lemma split_below_parent_progress:
  assumes inv: "olc_inv c lo hi lv t r" and p: "onodes t p = Some q" "page_type q = BTreeInner" "Some a \<in> set (olive_kids q)" "\<not> olc_full c q"
    and a: "onodes t a = Some n" "in_range lo hi a k" "olc_full c n"
    and sn: "sn c (onext t) (n\<lparr>lock_version := lock_version n + 2\<rparr>) = Inr (sep, n', m)" "lock_version n' = lock_version n + 2"
      "split_node_ok c lo hi lv (onodes t) a n (onext t) sep (n'\<lparr>lock_version := lock_version n + 2 + 2\<rparr>) m"
  shows "\<exists>t'. olc_split_full sn c t (Some a) (lock_version n) (Some p) (lock_version q) = Inr t' \<and> progress c lo hi lv t r k t'"
proof -
  let ?b = "onext t"
  have fresh: "onodes t ?b = None" using olc_inv_fresh [OF inv] by simp
  obtain cs where cs: "olive_kids q = map Some cs" "fences lo hi p (olive q) cs" "\<forall>b \<in> set cs. onodes t b \<noteq> None \<and> Suc (lv b) = lv p"
      "p \<notin> set cs" "olc_inner_shape c q"
    using inner_kids [OF olc_invD(3) [OF inv p(1)] p(2)] by metis
  have ap: "a \<noteq> p" "Suc (lv a) = lv p" using cs p(3) by auto
  have sep: "lo a \<le> unat sep" "Suc (unat sep) < hi a" using sn(3) by (simp_all add: split_node_ok_def)
  have "sep \<notin> set (olive q)"
  proof
    assume "sep \<in> set (olive q)"
    have srt: "sorted_less (olive q)" using cs(5) by (simp add: olc_inner_shape_def)
    obtain i where i: "i < length cs" "cs ! i = a" using cs(1) p(3) by (auto simp: in_set_conv_nth)
    have "std_lower_bound (olive q) sep = i"
      using fences_index [OF cs(2) srt i(1)] i(2) sep by (simp add: in_range_def)
    then have "i < length (olive q)" "olive q ! i = sep"
      using std_lb.lb_mem_iff [OF _ srt, of sep] \<open>sep \<in> set (olive q)\<close> by blast+
    then have "hi a = Suc (unat sep)" using fences_nth(2) [OF cs(2) i(1)] i(2) by (metis less_irrefl)
    then show False using sep(2) by simp
  qed
  moreover have "\<not> BTreeInner_isFull c q" using p(2,4) by (simp add: olc_full_def)
  ultimately obtain q' where q': "BTreeInner_insert c (q\<lparr>lock_version := lock_version q + 2\<rparr>) sep (Some ?b) = Inr q'" "lock_version q' = lock_version q + 2"
      "widened c q sep ?b (q'\<lparr>lock_version := lock_version q + 2 + 2\<rparr>)"
    by (blast intro: insert_widens [OF cs(5)])
  define t' where "t' = t\<lparr>onodes := (onodes t)(a \<mapsto> n'\<lparr>lock_version := lock_version n + 2 + 2\<rparr>, ?b \<mapsto> m,
      p \<mapsto> q'\<lparr>lock_version := lock_version q + 2 + 2\<rparr>), onext := Suc ?b\<rparr>"
  let ?lo = "lo(?b := Suc (unat sep))" and ?hi = "hi(a := Suc (unat sep), ?b := hi a)" and ?lv = "lv(?b := lv a)"
  have run: "olc_split_full sn c t (Some a) (lock_version n) (Some p) (lock_version q) = Inr t'"
    unfolding t'_def by (rule split_below_parent_runs [where sn = sn, OF a(1) p(1) ap(1) fresh sn(1,2) q'(1,2)])
  have nodes: "onodes t' = (onodes t)(a \<mapsto> n'\<lparr>lock_version := lock_version n + 2 + 2\<rparr>, ?b \<mapsto> m, p \<mapsto> q'\<lparr>lock_version := lock_version q + 2 + 2\<rparr>)"
    by (simp add: t'_def)
  have inv': "olc_inv c ?lo ?hi ?lv t' r"
    by (rule split_below_parent [OF inv p(1-3) a(1) ap(1) sn(3) q'(3) nodes]) (simp_all add: t'_def)
  have ne: "?b \<noteq> a" "?b \<noteq> p" "r \<noteq> ?b" using fresh a(1) p(1) inv by (auto simp: olc_inv_def)
  have map: "olc_map t' = olc_map t"
    by (rule split_keeps_map [OF inv inv' a(1) sn(3)]) (use nodes ne ap p(1,2) fresh in auto)
  have small: "\<not> olc_full c n'" "\<not> olc_full c m" using sn(3) by (simp_all add: split_node_ok_def)
  have "full_levels c ?lo ?hi ?lv t' k \<subseteq> insert (Suc (lv a)) (full_levels c lo hi lv t k - {lv a})"
  proof
    fix l
    assume "l \<in> full_levels c ?lo ?hi ?lv t' k"
    then obtain x nx where x: "onodes t' x = Some nx" "in_range ?lo ?hi x k" "olc_full c nx" "l = ?lv x" by (auto simp: full_levels_def)
    then consider "x = p" | "x \<noteq> p" "x \<noteq> a" "x \<noteq> ?b" "onodes t x = Some nx"
      using nodes small by (auto split: if_splits)
    then show "l \<in> insert (Suc (lv a)) (full_levels c lo hi lv t k - {lv a})"
    proof cases
      case 1
      then show ?thesis using x(4) ne(2) ap(2) by simp
    next
      case 2
      then have r: "in_range lo hi x k" "l = lv x" using x(2,4) by (simp_all add: in_range_def)
      moreover have "lv x \<noteq> lv a" using in_range_unique [OF inv 2(4) a(1) _ r(1) a(2)] 2(2) by blast
      ultimately show ?thesis using 2(4) x(3) by (auto simp: full_levels_def)
    qed
  qed
  moreover have "lv a \<in> full_levels c lo hi lv t k" using a by (auto simp: full_levels_def)
  moreover have "lv a < lv r" using ap(2) olc_invD(2) [OF inv p(1)] by simp
  moreover have "?lv r = lv r" using ne(3) by simp
  ultimately have "progress c lo hi lv t r k t'" unfolding progress_def using inv' map by blast
  then show ?thesis using run by blast
qed

lemma split_of_root_progress:
  assumes inv: "olc_inv c lo hi lv t a" and a: "onodes t a = Some n" "olc_full c n" and big: "olc_config_ok c"
    and sn: "sn c (onext t) (n\<lparr>lock_version := lock_version n + 2\<rparr>) = Inr (sep, n', m)" "lock_version n' = lock_version n + 2"
      "split_node_ok c lo hi lv (onodes t) a n (onext t) sep (n'\<lparr>lock_version := lock_version n + 2 + 2\<rparr>) m"
  shows "\<exists>t'. olc_split_full sn c t (Some a) (lock_version n) None 0 = Inr t' \<and> progress c lo hi lv t a k t'"
proof -
  let ?b = "onext t"
  have fresh: "onodes t ?b = None" "onodes t (Suc ?b) = None" using olc_inv_fresh [OF inv] by simp_all
  then have ne: "?b \<noteq> a" "Suc ?b \<noteq> a" using a(1) by auto
  have mx: "2 < BTreeInner_maxEntries c" "1 < BTreeInner_maxEntries c - 1"
    using big by (simp_all add: olc_config_ok_def BTreeInner_maxEntries_def BTreeLeaf_maxEntries_def)
  have root: "oroot t = Some a" using inv by (simp add: olc_inv_def)
  obtain q where q: "olc_split_full sn c t (Some a) (lock_version n) None 0 = Inr (t\<lparr>onodes := (onodes t)
      (a \<mapsto> n'\<lparr>lock_version := lock_version n + 2 + 2\<rparr>, ?b \<mapsto> m, Suc ?b \<mapsto> q), onext := Suc (Suc ?b), oroot := Some (Suc ?b)\<rparr>)"
    "olc_inner_shape c q" "olive q = [sep]" "olive_kids q = [Some a, Some ?b]" "version_free (lock_version q)" "count q = 1"
    by (rule split_of_root_runs [where sn = sn, OF a(1) root fresh sn(1,2) mx(1)])
  define t' where "t' = t\<lparr>onodes := (onodes t)(a \<mapsto> n'\<lparr>lock_version := lock_version n + 2 + 2\<rparr>, ?b \<mapsto> m, Suc ?b \<mapsto> q),
    onext := Suc (Suc ?b), oroot := Some (Suc ?b)\<rparr>"
  let ?lo = "lo(?b := Suc (unat sep), Suc ?b := 0)" and ?hi = "hi(a := Suc (unat sep), ?b := hi a, Suc ?b := 2 ^ 64)"
    and ?lv = "lv(?b := lv a, Suc ?b := Suc (lv a))"
  have nodes: "onodes t' = (onodes t)(a \<mapsto> n'\<lparr>lock_version := lock_version n + 2 + 2\<rparr>, ?b \<mapsto> m, Suc ?b \<mapsto> q)" by (simp add: t'_def)
  have inv': "olc_inv c ?lo ?hi ?lv t' (Suc ?b)"
    by (rule split_of_root [OF inv a(1) sn(3) q(2-5) nodes]) (simp_all add: t'_def)
  have map: "olc_map t' = olc_map t"
    by (rule split_keeps_map [OF inv inv' a(1) sn(3)]) (use nodes ne fresh in auto)
  have "page_type q = BTreeInner" using q(2) by (simp add: olc_inner_shape_def)
  then have "\<not> olc_full c q" using q(6) mx(2) by (simp add: olc_full_def BTreeInner_isFull_def)
  moreover have "\<not> olc_full c n'" "\<not> olc_full c m" using sn(3) by (simp_all add: split_node_ok_def)
  ultimately have small: "\<not> olc_full c n'" "\<not> olc_full c m" "\<not> olc_full c q" by simp_all
  have ra: "in_range lo hi a k" by (rule root_in_range [OF inv])
  have "full_levels c ?lo ?hi ?lv t' k \<subseteq> full_levels c lo hi lv t k - {lv a}"
  proof
    fix l
    assume "l \<in> full_levels c ?lo ?hi ?lv t' k"
    then obtain x nx where x: "onodes t' x = Some nx" "in_range ?lo ?hi x k" "olc_full c nx" "l = ?lv x" by (auto simp: full_levels_def)
    then have y: "x \<noteq> Suc ?b" "x \<noteq> a" "x \<noteq> ?b" "onodes t x = Some nx" using nodes small ne by (auto split: if_splits)
    then have r: "in_range lo hi x k" "l = lv x" using x(2,4) by (simp_all add: in_range_def)
    moreover have "lv x \<noteq> lv a" using in_range_unique [OF inv y(4) a(1) _ r(1) ra] y(2) by blast
    ultimately show "l \<in> full_levels c lo hi lv t k - {lv a}" using y(4) x(3) by (auto simp: full_levels_def)
  qed
  moreover have "lv a \<in> full_levels c lo hi lv t k" using a ra by (auto simp: full_levels_def)
  moreover have "?lv (Suc ?b) = Suc (lv a)" by simp
  ultimately have "progress c lo hi lv t a k t'" unfolding progress_def using inv' map by blast
  then show ?thesis using q(1) unfolding t'_def by blast
qed

text \<open>The node is full: whichever kind it is, the attempt splits it.\<close>

lemma full_node_splits:
  assumes ok: "olc_node_ok c lo hi lv (onodes t) a n" "olc_full c n" and fresh: "onodes t (onext t) = None" "a \<noteq> onext t" and big: "olc_config_ok c"
  defines "sn \<equiv> if page_type n = BTreeInner then BTreeInner_split else BTreeLeaf_split"
  obtains sep n' m where "sn c (onext t) (n\<lparr>lock_version := lock_version n + 2\<rparr>) = Inr (sep, n', m)" "lock_version n' = lock_version n + 2"
    "split_node_ok c lo hi lv (onodes t) a n (onext t) sep (n'\<lparr>lock_version := lock_version n + 2 + 2\<rparr>) m"
proof (cases "page_type n")
  case BTreeInner
  obtain sep n' m where "BTreeInner_split c (onext t) (n\<lparr>lock_version := lock_version n + 2\<rparr>) = Inr (sep, n', m)" "lock_version n' = lock_version n + 2"
      "split_node_ok c lo hi lv (onodes t) a n (onext t) sep (n'\<lparr>lock_version := lock_version n + 2 + 2\<rparr>) m"
    by (rule inner_split_ok [OF ok(1) BTreeInner ok(2) fresh(2,1) big])
  then show thesis using that BTreeInner unfolding sn_def by simp
next
  case BTreeLeaf
  obtain sep n' m where "BTreeLeaf_split c (onext t) (n\<lparr>lock_version := lock_version n + 2\<rparr>) = Inr (sep, n', m)" "lock_version n' = lock_version n + 2"
      "split_node_ok c lo hi lv (onodes t) a n (onext t) sep (n'\<lparr>lock_version := lock_version n + 2 + 2\<rparr>) m"
    by (rule leaf_split_ok [OF ok(1) BTreeLeaf ok(2) fresh(2) big])
  then show thesis using that BTreeLeaf unfolding sn_def by simp
qed

definition at_child :: "olc_config \<Rightarrow> olc_tree \<Rightarrow> addr \<Rightarrow> addr option \<Rightarrow> 64 word \<Rightarrow> addr \<Rightarrow> bool" where
  "at_child c t a par vpar r \<longleftrightarrow> (case par of None \<Rightarrow> a = r \<and> vpar = 0
     | Some p \<Rightarrow> \<exists>q. onodes t p = Some q \<and> page_type q = BTreeInner \<and> Some a \<in> set (olive_kids q) \<and> \<not> olc_full c q \<and> vpar = lock_version q)"

lemma at_child_validates:
  "at_child c t a par vpar r \<Longrightarrow> (if par \<noteq> None then olc_read_unlock t par vpar else Inr False) = Inr False"
  by (auto simp: at_child_def olc_read_unlock_eq split: option.splits)

lemma full_node_progress:
  assumes inv: "olc_inv c lo hi lv t r" and a: "onodes t a = Some n" "in_range lo hi a k" "olc_full c n"
    and par: "at_child c t a par vpar r" and big: "olc_config_ok c"
  shows "\<exists>t'. olc_split_full (if page_type n = BTreeInner then BTreeInner_split else BTreeLeaf_split) c t (Some a) (lock_version n) par vpar = Inr t'
    \<and> progress c lo hi lv t r k t'"
proof -
  have fresh: "onodes t (onext t) = None" "a \<noteq> onext t" using olc_inv_fresh [OF inv] a(1) by auto
  let ?sn = "if page_type n = BTreeInner then BTreeInner_split else BTreeLeaf_split"
  obtain sep n' m where sn: "?sn c (onext t) (n\<lparr>lock_version := lock_version n + 2\<rparr>) = Inr (sep, n', m)" "lock_version n' = lock_version n + 2"
    "split_node_ok c lo hi lv (onodes t) a n (onext t) sep (n'\<lparr>lock_version := lock_version n + 2 + 2\<rparr>) m"
    by (rule full_node_splits [OF olc_invD(3) [OF inv a(1)] a(3) fresh big])
  show ?thesis
  proof (cases par)
    case None
    then have "a = r" "vpar = 0" using par by (simp_all add: at_child_def)
    then show ?thesis using split_of_root_progress [of c lo hi lv t a n ?sn, OF _ a(1,3) big sn] inv None by blast
  next
    case (Some p)
    then obtain q where q: "onodes t p = Some q" "page_type q = BTreeInner" "Some a \<in> set (olive_kids q)" "\<not> olc_full c q" "vpar = lock_version q"
      using par by (auto simp: at_child_def)
    then show ?thesis using split_below_parent_progress [OF inv q(1-4) a, of ?sn, OF sn] Some by blast
  qed
qed

text \<open>The leaf has room: the attempt inserts and succeeds.\<close>

lemma leaf_insert_runs:
  assumes inv: "olc_inv c lo hi lv t r" and a: "onodes t a = Some n" "page_type n = BTreeLeaf" "in_range lo hi a k" "\<not> olc_full c n"
    and par: "at_child c t a par vpar r"
  shows "\<exists>t'. olc_insert_leaf c t (Some a) (lock_version n) par vpar k v = Inr (True, t') \<and> olc_inv c lo hi lv t' r \<and> olc_map t' = (olc_map t)(k \<mapsto> v)"
proof -
  have ok: "olc_node_ok c lo hi lv (onodes t) a n" using olc_invD(3) [OF inv a(1)] .
  then have sh: "olc_leaf_shape c n" "version_free (lock_version n)" "lv a = 0" "lo a < hi a" "\<forall>k \<in> set (olive n). in_range lo hi a k"
    using a(2) by (simp_all add: olc_node_ok_def)
  let ?n1 = "n\<lparr>lock_version := lock_version n + 2\<rparr>"
  define t1 where "t1 = t\<lparr>onodes := (onodes t)(a \<mapsto> ?n1)\<rparr>"
  have room: "count ?n1 < BTreeLeaf_maxEntries c" using sh(1) a(2,4) by (auto simp: olc_leaf_shape_def olc_full_def)
  obtain n' where n': "BTreeLeaf_insert c ?n1 k v = Inr n'" "olc_leaf_shape c n'" "lock_version n' = lock_version ?n1"
      "set (olive n') = insert k (set (olive ?n1))" "olc_leaf_map n' = (olc_leaf_map ?n1)(k \<mapsto> v)"
    using BTreeLeaf_insert_eq [OF _ room] sh(1) shape_lock_version(1) by metis
  let ?n2 = "n'\<lparr>lock_version := lock_version n' + 2\<rparr>"
  define t2 where "t2 = t\<lparr>onodes := (onodes t)(a \<mapsto> ?n2)\<rparr>"
  have u1: "olc_upgrade t (Some a) (lock_version n) = Inr (False, t1)" unfolding t1_def using a(1) by (rule olc_upgrade_eq)
  have val: "(if par \<noteq> None then olc_read_unlock t1 par vpar else Inr False) = Inr False"
  proof (cases par)
    case (Some p)
    then obtain q where q: "onodes t p = Some q" "page_type q = BTreeInner" "vpar = lock_version q" using par by (auto simp: at_child_def)
    then have "onodes t1 p = Some q" using a(1,2) by (auto simp: t1_def)
    then show ?thesis using Some q(3) by (simp add: olc_read_unlock_eq)
  qed simp
  have d: "olc_deref t1 (Some a) = Inr ?n1" by (simp add: olc_deref_def t1_def)
  have "onodes (olc_store t1 (Some a) n') a = Some n'" by (simp add: olc_store_def)
  from olc_write_unlock_eq [OF this] have u2: "olc_write_unlock (olc_store t1 (Some a) n') (Some a) = Inr t2"
    by (simp add: olc_store_def t1_def t2_def)
  have run: "olc_insert_leaf c t (Some a) (lock_version n) par vpar k v = Inr (True, t2)"
    unfolding olc_insert_leaf_def using u1 val d n'(1) u2 by simp
  have type: "page_type ?n2 = BTreeLeaf" using n'(2) by (simp add: olc_leaf_shape_def)
  have dom: "dom (onodes t) \<subseteq> dom (onodes t2)" by (auto simp: t2_def)
  have "olc_node_ok c lo hi lv (onodes t2) a ?n2"
    using type n'(2,3,4) sh a(3) unfolding olc_node_ok_def by simp
  moreover have "olc_disjoint lo hi lv (onodes t2)"
    using inv a(1) unfolding olc_inv_def olc_disjoint_def t2_def by (simp split: if_splits)
  ultimately have inv': "olc_inv c lo hi lv t2 r"
    using inv a(1) olc_node_ok_dom [OF _ dom] unfolding olc_inv_def by (auto simp: t2_def)
  have "olc_map t2 x = ((olc_map t)(k \<mapsto> v)) x" for x
  proof -
    obtain z nz where z: "onodes t z = Some nz" "page_type nz = BTreeLeaf" "in_range lo hi z x" using covering_leaf [OF inv] .
    show ?thesis
    proof (cases "z = a")
      case True
      then show ?thesis using olc_map_leaf [OF inv' _ type, of a x] olc_map_leaf [OF inv z] z a(1) n'(5) by (simp add: t2_def)
    next
      case False
      then have "x \<noteq> k" using in_range_unique [OF inv z(1) a(1) _ _ a(3)] z(2,3) sh(3) olc_invD(3) [OF inv z(1)]
        by (auto simp: olc_node_ok_def)
      then show ?thesis using olc_map_leaf [OF inv' _ z(2,3)] olc_map_leaf [OF inv z] z(1) False by (simp add: t2_def)
    qed
  qed
  then show ?thesis using run inv' by blast
qed

section \<open>A whole insertion\<close>

lemma olc_insert_loop_outcome:
  assumes inv: "olc_inv c lo hi lv t r" and big: "olc_config_ok c"
  shows "onodes t a = Some n \<Longrightarrow> in_range lo hi a k \<Longrightarrow> at_child c t a par vpar r \<Longrightarrow> lv a < fuel \<Longrightarrow>
    (\<exists>t'. olc_insert_loop fuel c t (Some a) (lock_version n) par vpar k v = Inr (True, t') \<and> olc_inv c lo hi lv t' r \<and> olc_map t' = (olc_map t)(k \<mapsto> v))
    \<or> (\<exists>t'. olc_insert_loop fuel c t (Some a) (lock_version n) par vpar k v = Inr (False, t') \<and> progress c lo hi lv t r k t')"
proof (induction fuel arbitrary: a n par vpar)
  case (Suc fuel)
  have d: "olc_deref t (Some a) = Inr n" using Suc.prems(1) by (simp add: olc_deref_def)
  show ?case
  proof (cases "olc_full c n")
    case True
    obtain t' where t': "olc_split_full (if page_type n = BTreeInner then BTreeInner_split else BTreeLeaf_split) c t (Some a) (lock_version n) par vpar = Inr t'"
        "progress c lo hi lv t r k t'"
      using full_node_progress [OF inv Suc.prems(1,2) True Suc.prems(3) big] by blast
    then show ?thesis using True d by (cases "page_type n") (simp_all add: olc_full_def)
  next
    case room: False
    show ?thesis
    proof (cases "page_type n")
      case BTreeLeaf
      then have "olc_insert_loop (Suc fuel) c t (Some a) (lock_version n) par vpar k v = olc_insert_leaf c t (Some a) (lock_version n) par vpar k v"
        using room d by (simp add: olc_full_def)
      then show ?thesis using leaf_insert_runs [OF inv Suc.prems(1) BTreeLeaf Suc.prems(2) room Suc.prems(3), of v] by presburger
    next
      case BTreeInner
      obtain b m where b: "bindR (BTreeInner_lowerBound n k) (aget (children n)) = Inr (Some b)" "onodes t b = Some m"
          "Suc (lv b) = lv a" "in_range lo hi b k" "std_lower_bound (olive n) k \<le> count n" "children n ! std_lower_bound (olive n) k = Some b"
        using olc_child [OF inv Suc.prems(1) BTreeInner Suc.prems(2)] .
      have "count n < length (children n)"
        using olc_invD(3) [OF inv Suc.prems(1)] BTreeInner by (auto simp: olc_node_ok_def olc_inner_shape_def)
      then have "Some b \<in> set (olive_kids n)" using b(5,6) by (auto simp: in_set_conv_nth intro!: exI [of _ "std_lower_bound (olive n) k"])
      then have par: "at_child c t b (Some a) (lock_version n) r" using Suc.prems(1) BTreeInner room by (simp add: at_child_def)
      have "version_free (lock_version m)" using olc_invD(3) [OF inv b(2)] by (simp add: olc_node_ok_def)
      then have "olc_insert_loop (Suc fuel) c t (Some a) (lock_version n) par vpar k v = olc_insert_loop fuel c t (Some b) (lock_version m) (Some a) (lock_version n) k v"
        using BTreeInner room d at_child_validates [OF Suc.prems(3)] b(1) olc_read_unlock_eq [OF Suc.prems(1)] olc_read_lock_eq [OF b(2)]
        by (simp add: olc_full_def)
      moreover have "lv b < fuel" using b(3) Suc.prems(4) by simp
      ultimately show ?thesis using Suc.IH [OF b(2,4) par] by simp
    qed
  qed
qed simp

lemma olc_insert_attempt_outcome:
  assumes inv: "olc_inv c lo hi lv t r" and big: "olc_config_ok c" and fuel: "lv r < levels"
  shows "(\<exists>t'. olc_insert_attempt levels c t k v = Inr (True, t') \<and> olc_inv c lo hi lv t' r \<and> olc_map t' = (olc_map t)(k \<mapsto> v))
    \<or> (\<exists>t'. olc_insert_attempt levels c t k v = Inr (False, t') \<and> progress c lo hi lv t r k t')"
proof -
  obtain n where n: "oroot t = Some r" "onodes t r = Some n" using inv by (auto simp: olc_inv_def)
  have "version_free (lock_version n)" using olc_invD(3) [OF inv n(2)] by (simp add: olc_node_ok_def)
  then have "olc_insert_attempt levels c t k v = olc_insert_loop levels c t (Some r) (lock_version n) None 0 k v"
    using n by (simp add: olc_insert_attempt_def olc_read_lock_eq)
  moreover have "at_child c t r None 0 r" by (simp add: at_child_def)
  ultimately show ?thesis using olc_insert_loop_outcome [OF inv big n(2) root_in_range [OF inv] _ fuel] by simp
qed

text \<open>The measure: a full level weighs less the higher it lies.\<close>

definition weight :: "nat \<Rightarrow> nat set \<Rightarrow> nat" where
  "weight W S = (\<Sum>l\<in>S. W - l)"

lemma weight_remove: "finite S \<Longrightarrow> l \<in> S \<Longrightarrow> weight W S = (W - l) + weight W (S - {l})"
  unfolding weight_def by (rule sum.remove)

lemma weight_mono: "finite S \<Longrightarrow> S' \<subseteq> S \<Longrightarrow> weight W S' \<le> weight W S"
  unfolding weight_def by (rule sum_mono2) auto

lemma weight_insert_le: "finite S \<Longrightarrow> weight W (insert l S) \<le> (W - l) + weight W S"
  unfolding weight_def by (simp add: sum.insert_if)

lemma progress_measure:
  assumes inv: "olc_inv c lo hi lv t r" and pr: "progress c lo hi lv t r k t'" and W: "lv r + card (full_levels c lo hi lv t k) < W"
  obtains lo' hi' lv' r' where "olc_inv c lo' hi' lv' t' r'" "olc_map t' = olc_map t"
    "lv' r' + card (full_levels c lo' hi' lv' t' k) < W" "weight W (full_levels c lo' hi' lv' t' k) < weight W (full_levels c lo hi lv t k)"
proof -
  let ?S = "full_levels c lo hi lv t k"
  have fin: "finite ?S" using full_levels_bound [OF inv] finite_subset by blast
  obtain lo' hi' lv' r' l where p: "olc_inv c lo' hi' lv' t' r'" "olc_map t' = olc_map t" "l \<in> ?S"
      "l < lv r \<and> lv' r' = lv r \<and> full_levels c lo' hi' lv' t' k \<subseteq> insert (Suc l) (?S - {l})
        \<or> l \<le> lv r \<and> lv' r' = Suc (lv r) \<and> full_levels c lo' hi' lv' t' k \<subseteq> ?S - {l}"
    using pr unfolding progress_def by blast
  let ?S' = "full_levels c lo' hi' lv' t' k"
  have eq: "weight W ?S = (W - l) + weight W (?S - {l})" "card ?S = Suc (card (?S - {l}))"
    using weight_remove [OF fin p(3)] card.remove [OF fin p(3)] by simp_all
  from p(4) show thesis
  proof
    assume a: "l < lv r \<and> lv' r' = lv r \<and> ?S' \<subseteq> insert (Suc l) (?S - {l})"
    then have "weight W ?S' \<le> (W - Suc l) + weight W (?S - {l})"
      using weight_mono [of "insert (Suc l) (?S - {l})" ?S' W] weight_insert_le [of "?S - {l}" W "Suc l"] fin by simp
    moreover have "card ?S' \<le> Suc (card (?S - {l}))"
      using a fin card_mono [of "insert (Suc l) (?S - {l})" ?S'] card_insert_le_m1 [of "Suc (card (?S - {l}))" "?S - {l}" "Suc l"] by simp
    moreover have "W - Suc l < W - l" using a W by linarith
    ultimately have "weight W ?S' < weight W ?S" "card ?S' \<le> card ?S" using eq by linarith+
    then show thesis using that [OF p(1,2)] a W by linarith
  next
    assume a: "l \<le> lv r \<and> lv' r' = Suc (lv r) \<and> ?S' \<subseteq> ?S - {l}"
    then have "weight W ?S' \<le> weight W (?S - {l})" "card ?S' \<le> card (?S - {l})"
      using fin by (simp_all add: weight_mono card_mono)
    moreover have "0 < W - l" using a W by linarith
    ultimately have "weight W ?S' < weight W ?S" "Suc (card ?S') \<le> card ?S" using eq by linarith+
    then show thesis using that [OF p(1,2)] a W by linarith
  qed
qed

lemma BTree_insert_total:
  assumes big: "olc_config_ok c"
  shows "olc_inv c lo hi lv t r \<Longrightarrow> lv r + card (full_levels c lo hi lv t k) < W \<Longrightarrow> weight W (full_levels c lo hi lv t k) < attempts \<Longrightarrow> W \<le> levels \<Longrightarrow>
    \<exists>t' lo' hi' lv' r'. BTree_insert attempts levels c t k v = Inr t' \<and> olc_inv c lo' hi' lv' t' r' \<and> lv' r' < W \<and> olc_map t' = (olc_map t)(k \<mapsto> v)"
proof (induction attempts arbitrary: t lo hi lv r)
  case (Suc attempts)
  have "lv r < levels" using Suc.prems(2,4) by simp
  from olc_insert_attempt_outcome [OF Suc.prems(1) big this, of k v] show ?case
  proof (elim disjE exE conjE)
    fix t'
    assume "olc_insert_attempt levels c t k v = Inr (True, t')" "olc_inv c lo hi lv t' r" "olc_map t' = (olc_map t)(k \<mapsto> v)"
    moreover from this have "BTree_insert (Suc attempts) levels c t k v = Inr t'" by simp
    moreover have "lv r < W" using Suc.prems(2) by simp
    ultimately show ?thesis by blast
  next
    fix t'
    assume a: "olc_insert_attempt levels c t k v = Inr (False, t')" and pr: "progress c lo hi lv t r k t'"
    obtain lo' hi' lv' r' where p: "olc_inv c lo' hi' lv' t' r'" "olc_map t' = olc_map t"
        "lv' r' + card (full_levels c lo' hi' lv' t' k) < W" "weight W (full_levels c lo' hi' lv' t' k) < weight W (full_levels c lo hi lv t k)"
      using progress_measure [OF Suc.prems(1) pr Suc.prems(2)] .
    then show ?thesis using Suc.IH [OF p(1,3) _ Suc.prems(4)] Suc.prems(3) a by simp
  qed
qed simp

lemma weight_le: "finite S \<Longrightarrow> weight W S \<le> card S * W"
  unfolding weight_def using sum_bounded_above [of S "\<lambda>l. W - l" W] by simp

lemma BTree_ctor_ok:
  assumes "olc_config_ok c"
  shows "BTree_ok c 0 (BTree_ctor c)" "olc_map (BTree_ctor c) = (\<lambda>_. None)"
proof -
  let ?lo = "\<lambda>_. 0 :: nat" and ?hi = "\<lambda>_. 2 ^ 64 :: nat" and ?lv = "\<lambda>_. 0 :: nat"
  have "olc_leaf_shape c (BTreeLeaf_ctor c 0)" by (simp add: olc_leaf_shape_def BTreeLeaf_ctor_def)
  then have "olc_node_ok c ?lo ?hi ?lv [0 \<mapsto> BTreeLeaf_ctor c 0] 0 (BTreeLeaf_ctor c 0)"
    by (simp add: olc_node_ok_def BTreeLeaf_ctor_def)
  then have "olc_inv c ?lo ?hi ?lv (BTree_ctor c) 0"
    by (auto simp: olc_inv_def BTree_ctor_def olc_disjoint_def split: if_splits)
  then show "BTree_ok c 0 (BTree_ctor c)" unfolding BTree_ok_def by blast
  show "olc_map (BTree_ctor c) = (\<lambda>_. None)"
    by (simp add: olc_map_def BTree_ctor_def olc_entries_def BTreeLeaf_ctor_def)
qed

lemma BTree_insert_bounded:
  assumes big: "olc_config_ok c" and inv: "olc_inv c lo hi lv t r" and fuel: "(lv r + 1) * (2 * lv r + 2) < attempts" "2 * lv r + 2 \<le> levels"
  shows "\<exists>t' lo' hi' lv' r'. BTree_insert attempts levels c t k v = Inr t' \<and> olc_inv c lo' hi' lv' t' r' \<and> lv' r' < 2 * lv r + 2
    \<and> olc_map t' = (olc_map t)(k \<mapsto> v)"
proof -
  let ?S = "full_levels c lo hi lv t k"
  have sub: "?S \<subseteq> {..lv r}" using full_levels_bound [OF inv] by simp
  have card: "card ?S \<le> lv r + 1" using card_mono [OF _ sub] by simp
  have "weight (2 * lv r + 2) ?S \<le> card ?S * (2 * lv r + 2)" using weight_le [OF finite_subset [OF sub]] by blast
  also have "\<dots> \<le> (lv r + 1) * (2 * lv r + 2)" using card by (rule mult_right_mono) simp
  finally have "weight (2 * lv r + 2) ?S < attempts" using fuel(1) by simp
  moreover have "lv r + card ?S < 2 * lv r + 2" using card by simp
  ultimately show ?thesis using BTree_insert_total [OF big inv _ _ fuel(2), of k attempts v] by blast
qed

text \<open>
  C5. An insertion into the tree with optimistic lock coupling returns: after at most quadratically
  many attempts in the height, each of which splits one full node on the path or inserts into the
  leaf, the dictionary maps the key to the value and nothing else has changed, every node is
  unlocked and the invariant holds again.
\<close>

theorem olc_insert_refines_map:
  assumes "olc_config_ok c" "BTree_ok c h t" "(h + 1) * (2 * h + 2) < attempts" "2 * h + 2 \<le> levels"
  shows "\<exists>t' h'. BTree_insert attempts levels c t k v = Inr t' \<and> BTree_ok c h' t' \<and> h' < 2 * h + 2 \<and> olc_map t' = (olc_map t)(k \<mapsto> v)"
proof -
  obtain lo hi lv r where inv: "olc_inv c lo hi lv t r" and h: "lv r = h" using assms(2) by (auto simp: BTree_ok_def)
  then show ?thesis using BTree_insert_bounded [OF assms(1) inv, of attempts levels k v] assms(3,4) unfolding BTree_ok_def by blast
qed

definition olc_example :: olc_config where
  "olc_example = \<lparr>node_base_size = 24, olc_junk = (\<lambda>a i. 0)\<rparr>"

lemma olc_example_ok: "olc_config_ok olc_example"
  by (simp add: olc_config_ok_def BTreeLeaf_maxEntries_def Config_node_size_def olc_example_def)

theorem olc_insert_refines_map_witness:
  "\<exists>t' h'. BTree_insert 3 2 olc_example (BTree_ctor olc_example) 7 42 = Inr t' \<and> BTree_ok olc_example h' t'
    \<and> h' < 2 \<and> olc_map t' = (olc_map (BTree_ctor olc_example))(7 \<mapsto> 42)"
  using olc_insert_refines_map [OF olc_example_ok BTree_ctor_ok(1) [OF olc_example_ok], of 3 2 7 42]
  by (simp add: numeral_2_eq_2)

section \<open>Reading\<close>

definition valid_parent :: "olc_tree \<Rightarrow> addr option \<Rightarrow> 64 word \<Rightarrow> bool" where
  "valid_parent t par vpar \<longleftrightarrow> (case par of None \<Rightarrow> True | Some p \<Rightarrow> \<exists>q. onodes t p = Some q \<and> vpar = lock_version q)"

lemma valid_parent_validates: "valid_parent t par vpar \<Longrightarrow> (if par \<noteq> None then olc_read_unlock t par vpar else Inr False) = Inr False"
  by (auto simp: valid_parent_def olc_read_unlock_eq split: option.splits)

lemma olc_descend_leaf:
  assumes inv: "olc_inv c lo hi lv t r"
  shows "onodes t a = Some n \<Longrightarrow> in_range lo hi a k \<Longrightarrow> valid_parent t par vpar \<Longrightarrow> lv a < fuel \<Longrightarrow>
    \<exists>b m par' vpar'. olc_descend fuel t (Some a) (lock_version n) par vpar k = Inr (Some (Some b, lock_version m, par', vpar'))
      \<and> onodes t b = Some m \<and> page_type m = BTreeLeaf \<and> in_range lo hi b k \<and> valid_parent t par' vpar'"
proof (induction fuel arbitrary: a n par vpar)
  case (Suc fuel)
  have d: "olc_deref t (Some a) = Inr n" using Suc.prems(1) by (simp add: olc_deref_def)
  show ?case
  proof (cases "page_type n")
    case BTreeLeaf
    then show ?thesis using Suc.prems d by auto
  next
    case BTreeInner
    obtain b m where b: "bindR (BTreeInner_lowerBound n k) (aget (children n)) = Inr (Some b)" "onodes t b = Some m"
        "Suc (lv b) = lv a" "in_range lo hi b k"
      using olc_child [OF inv Suc.prems(1) BTreeInner Suc.prems(2)] by metis
    have "version_free (lock_version m)" using olc_invD(3) [OF inv b(2)] by (simp add: olc_node_ok_def)
    then have "olc_descend (Suc fuel) t (Some a) (lock_version n) par vpar k = olc_descend fuel t (Some b) (lock_version m) (Some a) (lock_version n) k"
      using BTreeInner d valid_parent_validates [OF Suc.prems(3)] b(1) olc_read_unlock_eq [OF Suc.prems(1)] olc_read_lock_eq [OF b(2)] by simp
    moreover have "lv b < fuel" "valid_parent t (Some a) (lock_version n)" using b(3) Suc.prems(1,4) by (simp_all add: valid_parent_def)
    ultimately show ?thesis using Suc.IH [OF b(2,4)] by simp
  qed
qed simp

lemma olc_locate_leaf:
  assumes inv: "olc_inv c lo hi lv t r" and fuel: "lv r < levels"
  obtains b m par vpar where "olc_locate levels t k = Inr (Some (Some b, lock_version m, par, vpar))"
    "onodes t b = Some m" "page_type m = BTreeLeaf" "in_range lo hi b k" "olc_validate t (Some b) (lock_version m) par vpar = Inr True"
    "olc_leaf_shape c m" "olc_map t k = olc_leaf_map m k"
proof -
  obtain n where n: "oroot t = Some r" "onodes t r = Some n" using inv by (auto simp: olc_inv_def)
  have "version_free (lock_version n)" using olc_invD(3) [OF inv n(2)] by (simp add: olc_node_ok_def)
  then have "olc_locate levels t k = olc_descend levels t (Some r) (lock_version n) None 0 k"
    using n by (simp add: olc_locate_def olc_read_lock_eq)
  moreover have "valid_parent t None 0" by (simp add: valid_parent_def)
  ultimately obtain b m par vpar where b: "olc_locate levels t k = Inr (Some (Some b, lock_version m, par, vpar))"
      "onodes t b = Some m" "page_type m = BTreeLeaf" "in_range lo hi b k" "valid_parent t par vpar"
    using olc_descend_leaf [OF inv n(2) root_in_range [OF inv] _ fuel] by fastforce
  have "olc_validate t (Some b) (lock_version m) par vpar = Inr True"
    unfolding olc_validate_def using valid_parent_validates [OF b(5)] olc_read_unlock_eq [OF b(2)] by simp
  moreover have "olc_leaf_shape c m" using olc_invD(3) [OF inv b(2)] b(3) by (simp add: olc_node_ok_def)
  ultimately show thesis using that b olc_map_leaf [OF inv b(2-4)] by blast
qed

text \<open>An empty leaf still reads a key, but the position is not used.\<close>

lemma olc_leaf_position:
  assumes "olc_leaf_shape c n" "olc_config_ok c"
  obtains p where "BTreeLeaf_lowerBound n k = Inr p" "0 < count n \<longrightarrow> p = std_lower_bound (olive n) k"
proof (cases "count n = 0")
  case True
  have "0 < length (okeys n)" using assms by (simp add: olc_leaf_shape_def olc_config_ok_def)
  then have "\<exists>p. BTreeLeaf_lowerBound n k = Inr p"
    using True by (simp add: BTreeLeaf_lowerBound_def olc_search_loop.simps [of _ _ 0 0] aget_def)
  then show thesis using that True by auto
next
  case False
  then show thesis using that olc_lowerBound_eq(1) [of n k] assms by (simp add: olc_leaf_shape_def)
qed

lemma olc_leaf_lookup:
  assumes sh: "olc_leaf_shape c n" "olc_config_ok c"
  obtains pos where "BTreeLeaf_lowerBound n k = Inr pos"
    "(if pos < count n then bindR (aget (okeys n) pos) (\<lambda>x. Inr (x = k)) else Inr False) = Inr (olc_leaf_map n k \<noteq> None)"
    "\<forall>v. olc_leaf_map n k = Some v \<longrightarrow> aget (payloads n) pos = Inr v"
proof -
  obtain p where p: "BTreeLeaf_lowerBound n k = Inr p" "0 < count n \<longrightarrow> p = std_lower_bound (olive n) k"
    using olc_leaf_position [OF sh, of k] .
  have len: "length (okeys n) = BTreeLeaf_maxEntries c" "length (payloads n) = BTreeLeaf_maxEntries c" "count n \<le> BTreeLeaf_maxEntries c"
    and srt: "sorted_less (olive n)" using sh by (simp_all add: olc_leaf_shape_def)
  have mem: "k \<in> set (olive n) \<longleftrightarrow> p < count n \<and> okeys n ! p = k"
  proof (cases "count n = 0")
    case False
    then show ?thesis using p(2) std_lb.lb_mem_iff [OF _ srt, of k] len by auto
  qed simp
  have dom: "olc_leaf_map n k \<noteq> None \<longleftrightarrow> k \<in> set (olive n)"
    unfolding olc_leaf_map_def using len by (simp add: map_of_zip_is_None)
  have "(if p < count n then bindR (aget (okeys n) p) (\<lambda>x. Inr (x = k)) else Inr False) = Inr (olc_leaf_map n k \<noteq> None)"
    unfolding dom mem using len by (simp add: aget_def)
  moreover have "aget (payloads n) p = Inr v" if v: "olc_leaf_map n k = Some v" for v
  proof -
    have pl: "p < count n" "olive n ! p = k" using v dom mem by auto
    have "map_of (zip (olive n) (olive_vals n)) (olive n ! p) = Some (olive_vals n ! p)"
      using srt len pl(1) by (intro map_of_zip_nth) (auto simp: strict_sorted_iff)
    then show ?thesis using v pl len by (simp add: olc_leaf_map_def aget_def)
  qed
  ultimately show thesis using that p(1) by blast
qed

lemma olc_lookup_runs:
  assumes big: "olc_config_ok c" and inv: "olc_inv c lo hi lv t r" and fuel: "0 < attempts" "lv r < levels"
  shows "BTree_lookup attempts levels stack_junk t k result
    = Inr (case olc_map t k of Some v \<Rightarrow> (True, v) | None \<Rightarrow> (stack_junk, result))"
proof -
  obtain b m par vpar where b: "olc_locate levels t k = Inr (Some (Some b, lock_version m, par, vpar))"
      "onodes t b = Some m" "olc_validate t (Some b) (lock_version m) par vpar = Inr True" "olc_leaf_shape c m" "olc_map t k = olc_leaf_map m k"
    using olc_locate_leaf [OF inv fuel(2)] by metis
  obtain pos where pos: "BTreeLeaf_lowerBound m k = Inr pos"
      "(if pos < count m then bindR (aget (okeys m) pos) (\<lambda>x. Inr (x = k)) else Inr False) = Inr (olc_leaf_map m k \<noteq> None)"
      "\<forall>v. olc_leaf_map m k = Some v \<longrightarrow> aget (payloads m) pos = Inr v"
    using olc_leaf_lookup [OF b(4) big, of k] .
  have d: "olc_deref t (Some b) = Inr m" using b(2) by (simp add: olc_deref_def)
  obtain a where "attempts = Suc a" using fuel(1) gr0_implies_Suc by blast
  then show ?thesis using b pos d by (cases "olc_leaf_map m k") simp_all
qed

text \<open>
  C23. A lookup needs one attempt. A present key is found with its value; for an absent key the code
  returns a flag that was never assigned, so what it reports is whatever the stack held, and leaves
  the result variable alone.
\<close>

theorem olc_lookup_answers:
  assumes "olc_config_ok c" "BTree_ok c h t" "0 < attempts" "h < levels"
  shows "BTree_lookup attempts levels stack_junk t k result
    = Inr (case olc_map t k of Some v \<Rightarrow> (True, v) | None \<Rightarrow> (stack_junk, result))"
  using olc_lookup_runs [OF assms(1) _ assms(3)] assms(2,4) unfolding BTree_ok_def by blast

theorem olc_lookup_answers_witness:
  "BTree_lookup 1 1 True (BTree_ctor olc_example) 7 5 = Inr (True, 5)"
  using olc_lookup_answers [OF olc_example_ok BTree_ctor_ok(1) [OF olc_example_ok], of 1 1 True 7 5]
  by (simp add: BTree_ctor_ok(2) [OF olc_example_ok])

section \<open>Loading and looking up\<close>

fun BTree_insert_all :: "nat \<Rightarrow> nat \<Rightarrow> olc_config \<Rightarrow> olc_tree \<Rightarrow> (key_type \<times> value_type) list \<Rightarrow> olc_tree result" where
  "BTree_insert_all attempts levels c t [] = Inr t"
| "BTree_insert_all attempts levels c t ((k, v) # kvs) =
     bindR (BTree_insert attempts levels c t k v) (\<lambda>t'. BTree_insert_all attempts levels c t' kvs)"

text \<open>Fuel that is enough for a load: the bound of every insertion on the way.\<close>

fun load_fuel :: "nat \<Rightarrow> nat \<Rightarrow> nat" where
  "load_fuel h 0 = h + 1"
| "load_fuel h (Suc n) = max ((h + 1) * (2 * h + 2) + 1) (load_fuel (2 * h + 1) n)"

lemma load_fuel_ge: "h < load_fuel h n"
proof (induction n arbitrary: h)
  case (Suc n)
  then have "2 * h + 1 < load_fuel (2 * h + 1) n" .
  then show ?case by simp
qed simp

lemma BTree_insert_all_ok:
  assumes "olc_config_ok c"
  shows "BTree_ok c h t \<Longrightarrow> h \<le> H \<Longrightarrow> load_fuel H (length kvs) \<le> attempts \<Longrightarrow> load_fuel H (length kvs) \<le> levels \<Longrightarrow>
    \<exists>t' h'. BTree_insert_all attempts levels c t kvs = Inr t' \<and> BTree_ok c h' t' \<and> h' < levels \<and> olc_map t' = olc_map t ++ map_of (rev kvs)"
proof (induction kvs arbitrary: h t H)
  case Nil
  then show ?case by auto
next
  case (Cons kv kvs)
  obtain k v where kv: "kv = (k, v)" by fastforce
  have "(h + 1) * (2 * h + 2) \<le> (H + 1) * (2 * H + 2)" using Cons.prems(2) by (intro mult_le_mono) simp_all
  moreover have "2 * h + 2 \<le> (h + 1) * (2 * h + 2)" by simp
  ultimately have b: "(h + 1) * (2 * h + 2) < attempts" "2 * h + 2 \<le> levels" using Cons.prems(3,4) by simp_all
  obtain t' h' where t': "BTree_insert attempts levels c t k v = Inr t'" "BTree_ok c h' t'" "h' < 2 * h + 2" "olc_map t' = (olc_map t)(k \<mapsto> v)"
  proof -
    obtain lo hi lv r where inv: "olc_inv c lo hi lv t r" and h: "lv r = h" using Cons.prems(1) by (auto simp: BTree_ok_def)
    show thesis using BTree_insert_bounded [OF assms inv, of attempts levels k v] that b h unfolding BTree_ok_def by blast
  qed
  have "h' \<le> 2 * H + 1" using t'(3) Cons.prems(2) by simp
  then obtain t2 h2 where "BTree_insert_all attempts levels c t' kvs = Inr t2" "BTree_ok c h2 t2" "h2 < levels" "olc_map t2 = olc_map t' ++ map_of (rev kvs)"
    using Cons.IH [OF t'(2), of "2 * H + 1"] Cons.prems(3,4) by auto
  moreover have "(olc_map t)(k \<mapsto> v) ++ map_of (rev kvs) = olc_map t ++ map_of (rev (kv # kvs))" by (simp add: kv map_add_assoc)
  ultimately show ?case using t'(1,4) kv by (auto simp del: map_add_upd)
qed

text \<open>
  A tree that is filled with any sequence of key-value pairs answers every lookup with the value
  that was inserted last.
\<close>

theorem olc_load_then_lookup:
  assumes "olc_config_ok c" "load_fuel 0 (length kvs) \<le> fuel" "map_of (rev kvs) k = Some v"
  shows "bindR (BTree_insert_all fuel fuel c (BTree_ctor c) kvs) (\<lambda>t. BTree_lookup fuel fuel junk t k result) = Inr (True, v)"
proof -
  obtain t h where t: "BTree_insert_all fuel fuel c (BTree_ctor c) kvs = Inr t" "BTree_ok c h t" "h < fuel" "olc_map t = Map.empty ++ map_of (rev kvs)"
    using BTree_insert_all_ok [OF assms(1) BTree_ctor_ok(1) [OF assms(1)] order.refl assms(2,2)] BTree_ctor_ok(2) [OF assms(1)] by auto
  obtain lo hi lv r where inv: "olc_inv c lo hi lv t r" and h: "lv r < fuel" using t(2,3) by (auto simp: BTree_ok_def)
  show ?thesis using olc_lookup_runs [OF assms(1) inv _ h] t assms(3) by simp
qed

theorem olc_load_then_lookup_witness:
  "bindR (BTree_insert_all 39 39 olc_example (BTree_ctor olc_example) [(7, 1), (9, 2), (7, 3)])
     (\<lambda>t. BTree_lookup 39 39 False t 7 0) = Inr (True, 3)"
  using olc_load_then_lookup [OF olc_example_ok, of "[(7, 1), (9, 2), (7, 3)]" 39 7 3 False 0]
  by (simp add: eval_nat_numeral)

section \<open>Scanning\<close>

lemma olc_scan_loop_eq:
  "i + rest = count n \<Longrightarrow> count n \<le> length (payloads n) \<Longrightarrow> 0 \<le> limit \<Longrightarrow>
     olc_scan_loop n limit rest i = Inr (take (nat limit) (drop i (olive_vals n)))"
proof (induction rest arbitrary: i limit)
  case (Suc rest)
  have i: "i < count n" "i < length (payloads n)" using Suc.prems(1,2) by simp_all
  have dr: "drop i (olive_vals n) = payloads n ! i # drop (Suc i) (olive_vals n)" using i by (subst Cons_nth_drop_Suc [symmetric]) simp_all
  show ?case
  proof (cases "limit = 0")
    case False
    then have "nat limit = Suc (nat (limit - 1))" "0 \<le> limit - 1" using Suc.prems(3) by simp_all
    then show ?thesis using Suc.IH [of "Suc i" "limit - 1"] Suc.prems(1,2) i False dr by (simp add: aget_def)
  qed simp
qed simp

text \<open>
  A scan returns at most as many values as asked for, each stored under a key that is not below
  the start key; a present start key comes first. It reads one leaf only, so it may return fewer
  values than the tree holds.
\<close>

theorem olc_scan_returns_stored:
  assumes "olc_config_ok c" "BTree_ok c h t" "0 < attempts" "h < levels" "0 < limit"
  shows "\<exists>out. BTree_scan attempts levels t k limit = Inr out \<and> length out \<le> nat limit
    \<and> (\<forall>v \<in> set out. \<exists>x \<ge> k. olc_map t x = Some v) \<and> (\<forall>v. olc_map t k = Some v \<longrightarrow> out \<noteq> [] \<and> hd out = v)"
proof -
  obtain lo hi lv r where inv: "olc_inv c lo hi lv t r" and h: "lv r < levels" using assms(2,4) by (auto simp: BTree_ok_def)
  obtain b m par vpar where b: "olc_locate levels t k = Inr (Some (Some b, lock_version m, par, vpar))"
      "onodes t b = Some m" "page_type m = BTreeLeaf" "olc_validate t (Some b) (lock_version m) par vpar = Inr True" "olc_leaf_shape c m" "olc_map t k = olc_leaf_map m k"
    using olc_locate_leaf [OF inv h] by metis
  obtain p where p: "BTreeLeaf_lowerBound m k = Inr p" "0 < count m \<longrightarrow> p = std_lower_bound (olive m) k"
    using olc_leaf_position [OF b(5) assms(1), of k] .
  have len: "length (okeys m) = BTreeLeaf_maxEntries c" "length (payloads m) = BTreeLeaf_maxEntries c" "count m \<le> BTreeLeaf_maxEntries c"
    and srt: "sorted_less (olive m)" using b(5) by (simp_all add: olc_leaf_shape_def)
  define out where "out = take (nat limit) (drop p (olive_vals m))"
  have "olc_scan_loop m limit (count m - p) p = Inr out"
  proof (cases "count m = 0")
    case False
    then have "p \<le> count m" using p(2) std_lb.lb_le [OF _ srt, of k] len by simp
    then show ?thesis unfolding out_def using olc_scan_loop_eq [of p "count m - p" m limit] len assms(5) by simp
  qed (simp add: out_def)
  moreover have d: "olc_deref t (Some b) = Inr m" using b(2) by (simp add: olc_deref_def)
  moreover obtain a where "attempts = Suc a" using assms(3) gr0_implies_Suc by blast
  ultimately have run: "BTree_scan attempts levels t k limit = Inr out" using b p(1) by simp
  have stored: "\<exists>x \<ge> k. olc_map t x = Some v" if v: "v \<in> set out" for v
  proof -
    have "v \<in> set (drop p (olive_vals m))" using v unfolding out_def by (meson in_set_takeD)
    then obtain j where j: "j < length (drop p (olive_vals m))" "drop p (olive_vals m) ! j = v" by (auto simp: in_set_conv_nth)
    then have pj: "p + j < count m" "olive_vals m ! (p + j) = v" using len by simp_all
    have "k \<le> olive m ! (p + j)" using std_lb.lb_above [OF _ srt, of k "p + j"] p(2) pj(1) len by simp
    moreover have "olc_leaf_map m (olive m ! (p + j)) = Some v"
      unfolding olc_leaf_map_def using map_of_zip_nth [of "olive m" "olive_vals m" "p + j"] srt pj len by (simp add: strict_sorted_iff)
    moreover have "in_range lo hi b (olive m ! (p + j))"
      using olc_invD(3) [OF inv b(2)] b(3) pj(1) len nth_mem [of "p + j" "olive m"] by (simp add: olc_node_ok_def)
    ultimately show ?thesis using olc_map_leaf [OF inv b(2,3)] by metis
  qed
  have first: "out \<noteq> [] \<and> hd out = v" if v: "olc_map t k = Some v" for v
  proof -
    obtain pos where pos: "BTreeLeaf_lowerBound m k = Inr pos"
        "(if pos < count m then bindR (aget (okeys m) pos) (\<lambda>x. Inr (x = k)) else Inr False) = Inr (olc_leaf_map m k \<noteq> None)"
        "\<forall>v. olc_leaf_map m k = Some v \<longrightarrow> aget (payloads m) pos = Inr v"
      using olc_leaf_lookup [OF b(5) assms(1), of k] .
    then have "pos = p" "aget (payloads m) pos = Inr v" using p(1) v b(6) by simp_all
    moreover have "pos < count m" using pos(2) v b(6) by (cases "pos < count m") simp_all
    ultimately have "p < count m" "payloads m ! p = v" using len by (simp_all add: aget_def)
    then have "drop p (olive_vals m) = v # drop (Suc p) (olive_vals m)" using len by (subst Cons_nth_drop_Suc [symmetric]) simp_all
    moreover obtain l where "nat limit = Suc l" using assms(5) by (metis gr0_implies_Suc zero_less_nat_eq)
    ultimately show ?thesis by (simp add: out_def)
  qed
  have "length out \<le> nat limit" by (simp add: out_def)
  then show ?thesis using run stored first by blast
qed

theorem olc_scan_returns_stored_witness:
  "\<exists>out. BTree_scan 1 1 (BTree_ctor olc_example) 7 3 = Inr out \<and> length out \<le> nat 3"
  using olc_scan_returns_stored [OF olc_example_ok BTree_ctor_ok(1) [OF olc_example_ok], of 1 1 3 7] by auto

end
