(* ===== verification/Workload_Run.thy ===== *)
theory Workload_Run
  imports TBB_Benchmark BLink_Fill TBB_Olfit OLC_Refinement
begin

text \<open>
  Running a workload on an index: which operation of the tree a tuple of the workload calls, in
  \<^verbatim>\<open>ThreadBenchmark::execute_iteration\<close> of the B-link trees, in the one of the tree with optimistic lock
  coupling, and in \<^verbatim>\<open>BatchTask::execute\<close>; what a sequence of tuples does to a dictionary; and that every tree
  follows the dictionary. The contract is the locale \<open>tuple_index\<close>: an index that is ready for \<open>n\<close> further
  tuples executes one and is ready for one less. What makes an index ready is its own matter: room for
  keys before the path of ten nodes overflows for the B-link trees, fuel for the tree with lock coupling.
\<close>

section \<open>Executing tuples\<close>

definition execute_tuple :: "('s \<Rightarrow> key_type \<Rightarrow> value_type \<Rightarrow> 's result) \<Rightarrow> ('s \<Rightarrow> key_type \<Rightarrow> value_type \<Rightarrow> 's result)
    \<Rightarrow> ('s \<Rightarrow> key_type \<Rightarrow> (value_type \<times> 's) result) \<Rightarrow> workload_tuple \<Rightarrow> 's \<Rightarrow> (value_type option \<times> 's) result" where
  "execute_tuple ins upd fnd tuple tree =
     (if WorkloadTuple_is tuple Insert
      then bindR (ins tree (tuple_key tuple) (tuple_value tuple)) (\<lambda>tree'. Inr (None, tree'))
      else if WorkloadTuple_is tuple Update
      then bindR (upd tree (tuple_key tuple) (tuple_value tuple)) (\<lambda>tree'. Inr (None, tree'))
      else bindR (fnd tree (tuple_key tuple)) (\<lambda>(value, tree'). Inr (Some value, tree')))"

text \<open>
  The benchmark of the tree with optimistic lock coupling updates by inserting. \<open>junk\<close> is the flag and
  \<open>uninitialised\<close> the variable \<^verbatim>\<open>value\<close> that the code declares without an initial value.
\<close>

definition olc_execute_tuple :: "nat \<Rightarrow> olc_config \<Rightarrow> bool \<Rightarrow> value_type \<Rightarrow> workload_tuple \<Rightarrow> olc_tree
    \<Rightarrow> (value_type option \<times> olc_tree) result" where
  "olc_execute_tuple fuel c junk uninitialised tuple tree =
     (if WorkloadTuple_is tuple Insert \<or> WorkloadTuple_is tuple Update
      then bindR (BTree_insert fuel fuel c tree (tuple_key tuple) (tuple_value tuple)) (\<lambda>tree'. Inr (None, tree'))
      else bindR (BTree_lookup fuel fuel junk tree (tuple_key tuple) uninitialised) (\<lambda>(_, value). Inr (Some value, tree)))"

text \<open>The tuples one after another, with the values found by the lookups.\<close>

fun execute_items :: "(workload_tuple \<Rightarrow> 's \<Rightarrow> (value_type option \<times> 's) result) \<Rightarrow> workload_tuple list \<Rightarrow> 's
    \<Rightarrow> (value_type option list \<times> 's) result" where
  "execute_items exec [] tree = Inr ([], tree)"
| "execute_items exec (tuple # items) tree =
     bindR (exec tuple tree) (\<lambda>(answer, tree').
     bindR (execute_items exec items tree') (\<lambda>(answers, tree''). Inr (answer # answers, tree'')))"

section \<open>The dictionary\<close>

definition tuple_effect :: "workload_tuple \<Rightarrow> dictionary \<Rightarrow> dictionary" where
  "tuple_effect tuple m = (case tuple_operation tuple of
       Insert \<Rightarrow> insert_new m (tuple_key tuple) (tuple_value tuple)
     | Update \<Rightarrow> m(tuple_key tuple \<mapsto> tuple_value tuple)
     | Lookup \<Rightarrow> m)"

definition tuple_answer :: "workload_tuple \<Rightarrow> dictionary \<Rightarrow> value_type option" where
  "tuple_answer tuple m = (if tuple_operation tuple = Lookup then m (tuple_key tuple) else None)"

fun contents_after :: "dictionary \<Rightarrow> workload_tuple list \<Rightarrow> dictionary" where
  "contents_after m [] = m"
| "contents_after m (tuple # items) = contents_after (tuple_effect tuple m) items"

fun answers_of :: "dictionary \<Rightarrow> workload_tuple list \<Rightarrow> value_type option list" where
  "answers_of m [] = []"
| "answers_of m (tuple # items) = tuple_answer tuple m # answers_of (tuple_effect tuple m) items"

text \<open>
  Tuples a B-link tree handles: it inserts every key but the largest and updates and finds keys that
  are present. A workload is well formed when, in addition, it inserts new keys only.
\<close>

fun tuple_possible :: "dictionary \<Rightarrow> workload_tuple \<Rightarrow> bool" where
  "tuple_possible m tuple = (if tuple_operation tuple = Insert then tuple_key tuple \<noteq> max_key else tuple_key tuple \<in> dom m)"

fun tuple_fresh :: "dictionary \<Rightarrow> workload_tuple \<Rightarrow> bool" where
  "tuple_fresh m tuple = (tuple_operation tuple = Insert \<longleftrightarrow> tuple_key tuple \<notin> dom m)"

fun all_along :: "(dictionary \<Rightarrow> workload_tuple \<Rightarrow> bool) \<Rightarrow> dictionary \<Rightarrow> workload_tuple list \<Rightarrow> bool" where
  "all_along possible m [] = True"
| "all_along possible m (tuple # items) = (possible m tuple \<and> all_along possible (tuple_effect tuple m) items)"

definition well_formed_workload :: "workload_tuple list \<Rightarrow> bool" where
  "well_formed_workload items = (all_along tuple_possible Map.empty items \<and> all_along tuple_fresh Map.empty items)"

section \<open>The contract\<close>

locale tuple_index =
  fixes exec :: "workload_tuple \<Rightarrow> 's \<Rightarrow> (value_type option \<times> 's) result"
    and ready :: "nat \<Rightarrow> 's \<Rightarrow> bool"
    and contents :: "'s \<Rightarrow> dictionary"
    and possible :: "dictionary \<Rightarrow> workload_tuple \<Rightarrow> bool"
  assumes exec_law: "ready (Suc n) s \<Longrightarrow> possible (contents s) tuple \<Longrightarrow>
      \<exists>s'. exec tuple s = Inr (tuple_answer tuple (contents s), s') \<and> ready n s' \<and> contents s' = tuple_effect tuple (contents s)"
begin

lemma execute_items_law:
  "ready (length items + n) s \<Longrightarrow> all_along possible (contents s) items \<Longrightarrow>
     \<exists>s'. execute_items exec items s = Inr (answers_of (contents s) items, s') \<and> ready n s'
       \<and> contents s' = contents_after (contents s) items"
proof (induction items arbitrary: s)
  case (Cons tuple items)
  then obtain s' where s': "exec tuple s = Inr (tuple_answer tuple (contents s), s')" "ready (length items + n) s'"
      "contents s' = tuple_effect tuple (contents s)"
    using exec_law [of "length items + n" s tuple] by auto
  then show ?case using Cons.IH [of s'] Cons.prems(2) by auto
qed simp

end

text \<open>An index whose height is within its limit while it has room for keys.\<close>

locale bounded_index = map_index +
  fixes capacity :: nat
  assumes fits: "ok s \<Longrightarrow> card (dom (dict s)) < capacity \<Longrightarrow> levels s \<le> limit"
begin

definition room :: "nat \<Rightarrow> 'a \<Rightarrow> bool" where
  "room n s \<longleftrightarrow> ok s \<and> card (dom (dict s)) + n \<le> capacity"

lemma card_insert_new: "card (dom (insert_new m k v)) \<le> Suc (card (dom m))"
  by (simp add: card_insert_if)

lemma tuple_law:
  assumes r: "room (Suc n) s" and p: "tuple_possible (dict s) tuple"
  shows "\<exists>s'. execute_tuple ins upd fnd tuple s = Inr (tuple_answer tuple (dict s), s') \<and> room n s'
    \<and> dict s' = tuple_effect tuple (dict s)"
proof -
  have s: "ok s" "levels s \<le> limit" "card (dom (dict s)) + Suc n \<le> capacity" using r fits [of s] by (simp_all add: room_def)
  show ?thesis
  proof (cases "tuple_operation tuple")
    case Insert
    then obtain s' where "ins s (tuple_key tuple) (tuple_value tuple) = Inr s'" "ok s'"
        "dict s' = insert_new (dict s) (tuple_key tuple) (tuple_value tuple)"
      using ins_law [OF s(1,2)] p by fastforce
    then show ?thesis using s(3) Insert card_insert_new [of "dict s" "tuple_key tuple" "tuple_value tuple"]
      by (auto simp: execute_tuple_def WorkloadTuple_is_def tuple_answer_def tuple_effect_def room_def)
  next
    case Update
    then have "tuple_key tuple \<in> dom (dict s)" using p by simp
    then obtain s' where "upd s (tuple_key tuple) (tuple_value tuple) = Inr s'" "ok s'"
        "dict s' = (dict s)(tuple_key tuple \<mapsto> tuple_value tuple)" "dom (dict s') = dom (dict s)"
      using upd_law [OF s(1,2)] by (fastforce simp: insert_absorb)
    then show ?thesis using s(3) Update
      by (auto simp: execute_tuple_def WorkloadTuple_is_def tuple_answer_def tuple_effect_def room_def)
  next
    case Lookup
    then obtain v where "dict s (tuple_key tuple) = Some v" using p by auto
    then show ?thesis using s Lookup fnd_law [OF s(1), of "tuple_key tuple" v]
      by (fastforce simp: execute_tuple_def WorkloadTuple_is_def tuple_answer_def tuple_effect_def room_def)
  qed
qed

end

sublocale bounded_index \<subseteq> run: tuple_index "execute_tuple ins upd fnd" room dict tuple_possible
  by unfold_locales (rule tuple_law)

section \<open>The trees\<close>

text \<open>\<open>min_keys c 10\<close> is the least number of keys in a tree of twelve levels.\<close>

interpretation latched_run: bounded_index "ThreadTree_insert c" ThreadTree_update ThreadTree_find "ThreadTree_ok c"
    "\<lambda>tt. height (base tt)" "Suc NodePath_capacity" "\<lambda>tt. tree_map (base tt)" "min_keys c 10" for c
  by unfold_locales (auto simp: ThreadTree_ok_def NodePath_capacity_def intro: height_bounded)

interpretation optimistic_run: bounded_index "OptimisticTree_insert c thread_id" "OptimisticTree_update thread_id"
    "OptimisticTree_find thread_id" "OptimisticTree_ok c thread_id"
    "\<lambda>ot. height (obase ot)" "Suc NodePath_capacity" "\<lambda>ot. tree_map (obase ot)" "min_keys c 10" for c thread_id
  by unfold_locales (auto simp: OptimisticTree_ok_def NodePath_capacity_def intro: height_bounded)

interpretation tbb_run: bounded_index "TBB_insert c M sync" "TBB_update M sync" "TBB_lookup M sync"
    "\<lambda>tt. mutex_ok M (latch_init c) \<and> TBBTree_ok c tt" "\<lambda>tt. height (tbase tt)" 65534 "\<lambda>tt. tree_map (tbase tt)"
    "min_keys c 10" for c M sync
proof
  fix s
  assume "mutex_ok M (latch_init c) \<and> TBBTree_ok c s" "card (dom (tree_map (tbase s))) < min_keys c 10"
  then show "height (tbase s) \<le> 65534" using height_bounded [of c "tbase s"] by (simp add: TBBTree_ok_def)
qed

interpretation olfit_run: bounded_index "Olfit_insert c M thread_id" "Olfit_update thread_id" "Olfit_lookup thread_id"
    "OlfitTree_ok c M thread_id" "\<lambda>ft. height (tbase (ftree ft))" 65534 "\<lambda>ft. tree_map (tbase (ftree ft))" "min_keys c 10" for c M thread_id
proof
  fix s
  assume "OlfitTree_ok c M thread_id s" "card (dom (tree_map (tbase (ftree s)))) < min_keys c 10"
  then show "height (tbase (ftree s)) \<le> 65534" using height_bounded [of c "tbase (ftree s)"] by (simp add: OlfitTree_ok_def)
qed

lemma BatchTask_spawn_eq: "BatchTask_spawn c M sync = execute_tuple (TBB_insert c M sync) (TBB_update M sync) (TBB_lookup M sync)"
  by (simp add: fun_eq_iff BatchTask_spawn_def execute_tuple_def)

definition olc_ready :: "olc_config \<Rightarrow> nat \<Rightarrow> nat \<Rightarrow> olc_tree \<Rightarrow> bool" where
  "olc_ready c fuel n t \<longleftrightarrow> olc_config_ok c \<and> (\<exists>h H. BTree_ok c h t \<and> h \<le> H \<and> load_fuel H n \<le> fuel)"

text \<open>Insertion of a new key and of a present key are an insertion and an update of the dictionary.\<close>

lemma olc_insert_step:
  assumes "olc_ready c fuel (Suc n) t"
  shows "\<exists>t'. BTree_insert fuel fuel c t k v = Inr t' \<and> olc_ready c fuel n t' \<and> olc_map t' = (olc_map t)(k \<mapsto> v)"
proof -
  obtain h H where c: "olc_config_ok c" and t: "BTree_ok c h t" "h \<le> H" "load_fuel H (Suc n) \<le> fuel"
    using assms unfolding olc_ready_def by blast
  obtain lo hi lv r where inv: "olc_inv c lo hi lv t r" and h: "lv r = h" using t(1) by (auto simp: BTree_ok_def)
  have "(h + 1) * (2 * h + 2) \<le> (H + 1) * (2 * H + 2)" using t(2) by (intro mult_le_mono) simp_all
  then have "(h + 1) * (2 * h + 2) < fuel" "2 * h + 2 \<le> fuel" using t(2,3) load_fuel_ge [of "2 * H + 1" n] by simp_all
  then obtain t' h' where t': "BTree_insert fuel fuel c t k v = Inr t'" "BTree_ok c h' t'" "h' < 2 * h + 2" "olc_map t' = (olc_map t)(k \<mapsto> v)"
    using BTree_insert_bounded [OF c inv, of fuel fuel k v] h unfolding BTree_ok_def by blast
  moreover have "h' \<le> 2 * H + 1" "load_fuel (2 * H + 1) n \<le> fuel" using t'(3) t(2,3) by simp_all
  ultimately show ?thesis using c unfolding olc_ready_def by blast
qed

lemma load_fuel_mono: "load_fuel H n \<le> load_fuel H (Suc n)"
proof -
  have "load_fuel h n \<le> load_fuel (2 * h + 1) n" for h
  proof (induction n arbitrary: h)
    case (Suc n)
    have "(h + 1) * (2 * h + 2) \<le> (2 * h + 1 + 1) * (2 * (2 * h + 1) + 2)" by (intro mult_le_mono) simp_all
    then show ?case unfolding load_fuel.simps by (intro max.mono Suc.IH) simp
  qed simp
  then show ?thesis by (simp add: le_max_iff_disj)
qed

interpretation olc_run: tuple_index "olc_execute_tuple fuel c junk uninitialised" "olc_ready c fuel" olc_map tuple_fresh
  for fuel c junk uninitialised
proof
  fix n s tuple
  assume r: "olc_ready c fuel (Suc n) s" and p: "tuple_fresh (olc_map s) tuple"
  show "\<exists>s'. olc_execute_tuple fuel c junk uninitialised tuple s = Inr (tuple_answer tuple (olc_map s), s')
      \<and> olc_ready c fuel n s' \<and> olc_map s' = tuple_effect tuple (olc_map s)"
  proof (cases "tuple_operation tuple = Lookup")
    case True
    obtain h H where c: "olc_config_ok c" and t: "BTree_ok c h s" "h \<le> H" "load_fuel H (Suc n) \<le> fuel"
      using r unfolding olc_ready_def by blast
    obtain lo hi lv rt where inv: "olc_inv c lo hi lv s rt" and h: "lv rt = h" using t(1) by (auto simp: BTree_ok_def)
    have "0 < fuel" "lv rt < fuel" using h t(2,3) load_fuel_ge [of H "Suc n"] by simp_all
    moreover obtain v where "olc_map s (tuple_key tuple) = Some v" using p True by auto
    moreover have "olc_ready c fuel n s" using c t load_fuel_mono [of H n] unfolding olc_ready_def by (meson le_trans)
    ultimately show ?thesis using True olc_lookup_runs [OF c inv, of fuel fuel junk "tuple_key tuple" uninitialised]
      by (simp add: olc_execute_tuple_def WorkloadTuple_is_def tuple_answer_def tuple_effect_def)
  next
    case False
    then have "tuple_effect tuple (olc_map s) = (olc_map s)(tuple_key tuple \<mapsto> tuple_value tuple)"
      using p by (cases "tuple_operation tuple") (auto simp: tuple_effect_def insert_new_def)
    then show ?thesis using olc_insert_step [OF r, of "tuple_key tuple" "tuple_value tuple"] False
      by (cases "tuple_operation tuple") (auto simp: olc_execute_tuple_def WorkloadTuple_is_def tuple_answer_def)
  qed
qed

section \<open>New trees\<close>

lemma OptimisticTree_ctor_ok:
  assumes "config_ok c" "\<not> OptimisticLock_is_locked (latch_init c)" "thread_id < threads"
  shows "OptimisticTree_ok c thread_id (OptimisticTree_ctor c threads stub)"
    "tree_map (obase (OptimisticTree_ctor c threads stub)) = Map.empty"
  using inv_ctor [of c] assms
  by (auto simp: OptimisticTree_ok_def OptimisticTree_ctor_def tree_inv_def unlocked_def Tree_ctor_heap tree_map_ctor
      Spinlock_init_def EpochManager_ctor_def MPSCQueue_ctor_def)

lemma latched_runs:
  assumes "config_ok c" "latch_idle (latch_init c)" "length items \<le> min_keys c 10" "all_along tuple_possible Map.empty items"
  shows "\<exists>tt. execute_items (execute_tuple (ThreadTree_insert c) ThreadTree_update ThreadTree_find) items (ThreadTree_ctor c)
      = Inr (answers_of Map.empty items, tt) \<and> ThreadTree_ok c tt \<and> tree_map (base tt) = contents_after Map.empty items"
  using latched_run.run.execute_items_law [of c items 0 "ThreadTree_ctor c"] assms ThreadTree_ctor_ok [of c]
  unfolding latched_run.room_def by auto

lemma optimistic_runs:
  assumes "config_ok c" "\<not> OptimisticLock_is_locked (latch_init c)" "thread_id < threads" "length items \<le> min_keys c 10"
    "all_along tuple_possible Map.empty items"
  shows "\<exists>ot. execute_items (execute_tuple (OptimisticTree_insert c thread_id) (OptimisticTree_update thread_id)
      (OptimisticTree_find thread_id)) items (OptimisticTree_ctor c threads stub)
      = Inr (answers_of Map.empty items, ot) \<and> OptimisticTree_ok c thread_id ot \<and> tree_map (obase ot) = contents_after Map.empty items"
  using optimistic_run.run.execute_items_law [of c thread_id items 0 "OptimisticTree_ctor c threads stub"] assms
    OptimisticTree_ctor_ok [OF assms(1-3), of stub]
  unfolding optimistic_run.room_def by auto

lemma tbb_runs:
  assumes "config_ok c" "mutex_ok M (latch_init c)" "length items \<le> min_keys c 10" "all_along tuple_possible Map.empty items"
  shows "\<exists>tt. execute_items (BatchTask_spawn c M sync) items (TBBTree_ctor c)
      = Inr (answers_of Map.empty items, tt) \<and> TBBTree_ok c tt \<and> tree_map (tbase tt) = contents_after Map.empty items"
  using tbb_run.run.execute_items_law [of M c items 0 "TBBTree_ctor c" sync] assms TBBTree_ctor_ok [of c]
  unfolding tbb_run.room_def BatchTask_spawn_eq by auto

lemma olfit_runs:
  assumes "config_ok c" "mutex_ok M (latch_init c)" "\<not> OptimisticLock_is_locked (latch_init c)" "thread_id < threads"
    "length items \<le> min_keys c 10" "all_along tuple_possible Map.empty items"
  shows "\<exists>ft. execute_items (execute_tuple (Olfit_insert c M thread_id) (Olfit_update thread_id) (Olfit_lookup thread_id)) items
      (OlfitTree_ctor c threads stub)
      = Inr (answers_of Map.empty items, ft) \<and> OlfitTree_ok c M thread_id ft \<and> tree_map (tbase (ftree ft)) = contents_after Map.empty items"
  using olfit_run.run.execute_items_law [of c M thread_id items 0 "OlfitTree_ctor c threads stub"] assms(5,6)
    OlfitTree_ctor_ok [OF assms(1-4), of stub]
  unfolding olfit_run.room_def by auto

lemma olc_runs:
  assumes "olc_config_ok c" "load_fuel 0 (length items) \<le> fuel" "all_along tuple_fresh Map.empty items"
  shows "\<exists>t. execute_items (olc_execute_tuple fuel c junk uninitialised) items (BTree_ctor c)
      = Inr (answers_of Map.empty items, t) \<and> olc_map t = contents_after Map.empty items"
proof -
  have "olc_ready c fuel (length items) (BTree_ctor c)" using assms(1,2) BTree_ctor_ok(1) unfolding olc_ready_def by blast
  then show ?thesis using olc_run.execute_items_law [of c fuel items 0 "BTree_ctor c" junk uninitialised] assms(3)
    BTree_ctor_ok(2) [OF assms(1)] by auto
qed

section \<open>Insertions in any order\<close>

abbreviation tuple_entry :: "workload_tuple \<Rightarrow> key_type \<times> value_type" where
  "tuple_entry tuple \<equiv> (tuple_key tuple, tuple_value tuple)"

lemma contents_after_inserts:
  "\<forall>tuple \<in> set items. tuple_operation tuple = Insert \<Longrightarrow> contents_after m items = load m (map tuple_entry items)"
  by (induction items arbitrary: m) (simp_all add: tuple_effect_def)

lemma answers_of_inserts:
  "\<forall>tuple \<in> set items. tuple_operation tuple = Insert \<Longrightarrow> answers_of m items = replicate (length items) None"
  by (induction items arbitrary: m) (simp_all add: tuple_answer_def)

lemma inserts_possible:
  "\<forall>tuple \<in> set items. tuple_operation tuple = Insert \<and> tuple_key tuple \<noteq> max_key \<Longrightarrow> all_along tuple_possible m items"
  by (induction items arbitrary: m) simp_all

lemma contents_after_permuted:
  assumes ins: "\<forall>tuple \<in> set items. tuple_operation tuple = Insert" and dist: "distinct (map tuple_key items)"
    and perm: "mset js = mset items"
  shows "contents_after Map.empty js = map_of (map tuple_entry items)"
proof -
  have sets: "set js = set items" using perm by (rule mset_eq_setD)
  have "mset (map tuple_key js) = mset (map tuple_key items)" using perm by simp
  then have "distinct (map tuple_key js)" using dist mset_eq_imp_distinct_iff by blast
  then have "map_of (map tuple_entry js) = map_of (map tuple_entry items)"
    using dist sets by (subst map_of_inject_set) (simp_all add: comp_def)
  then show ?thesis using contents_after_inserts [of js] ins sets by (simp add: load_eq)
qed

lemma permuted_items:
  assumes "mset is = mset [0..<length items]"
  shows "mset (map ((!) items) is) = mset items"
  using assms by (metis map_nth mset_map)

text \<open>
  The fill phase of the task benchmark: whichever batches the batch tasks claim and in whichever order their
  children run, the tree holds the entries of the workload, provided its keys are distinct.
\<close>

theorem batch_fill_is_order_independent:
  assumes "batch_reach (length items) batch threads s" "0 < batch" "0 < threads"
      "length items + unat batch * (threads + 1) \<le> 2 ^ 64" "\<forall>x \<in> set (batch_tasks s). x = Returned"
    and "config_ok c" "mutex_ok M (latch_init c)" "length items \<le> min_keys c 10"
    and ins: "\<forall>tuple \<in> set items. tuple_operation tuple = Insert \<and> tuple_key tuple \<noteq> max_key"
    and dist: "distinct (map tuple_key items)"
  shows "\<exists>tt. execute_items (BatchTask_spawn c M sync) (map ((!) items) (finished s)) (TBBTree_ctor c) = Inr (replicate (length items) None, tt)
      \<and> TBBTree_ok c tt \<and> tree_map (tbase tt) = map_of (map tuple_entry items)"
proof -
  let ?js = "map ((!) items) (finished s)"
  have perm: "mset ?js = mset items" by (rule permuted_items [OF finished_batches [OF assms(1-5)]])
  then have js: "set ?js = set items" "length ?js = length items" by (metis mset_eq_setD, metis mset_eq_length)
  then obtain tt where tt: "execute_items (BatchTask_spawn c M sync) ?js (TBBTree_ctor c) = Inr (answers_of Map.empty ?js, tt)"
      "TBBTree_ok c tt" "tree_map (tbase tt) = contents_after Map.empty ?js"
    using tbb_runs [OF assms(6,7), of ?js sync] inserts_possible [of ?js] ins assms(8) by metis
  have "contents_after Map.empty ?js = map_of (map tuple_entry items)"
    by (rule contents_after_permuted [OF _ dist perm]) (use ins in blast)
  moreover have "answers_of Map.empty ?js = replicate (length items) None"
    using answers_of_inserts [of ?js] ins js by metis
  ultimately show ?thesis using tt by metis
qed

end
