(* ===== verification/Bw_Benchmark.thy ===== *)
theory Bw_Benchmark
  imports Bw_Page Workload_Run
begin

text \<open>
  The benchmark of the Bw-tree (\<^verbatim>\<open>src/src/indices/bw_tree/thread/thread_benchmark.cpp\<close>): which call a
  tuple of the workload makes. Inserts and updates both call \<^verbatim>\<open>Insert\<close>, every other tuple
  \<^verbatim>\<open>GetValue\<close>. Starting from the empty leaf page of a new tree this follows the dictionary of the
  workload (an interpretation of \<open>tuple_index\<close>) for inserts and lookups; every update of a key that is
  present is dropped.
\<close>

definition bw_tuple_op :: "workload_tuple \<Rightarrow> (key_type, value_type) leaf_op" where
  "bw_tuple_op tuple =
     (if WorkloadTuple_is tuple Insert \<or> WorkloadTuple_is tuple Update then OpInsert (tuple_key tuple) (tuple_value tuple)
      else OpGetValue (tuple_key tuple))"

text \<open>One thread that executes one tuple: load the page, then the round with its compare-and-swap.\<close>

definition bw_execute_tuple ::
  "(key_type \<Rightarrow> 64 word) \<Rightarrow> (nat \<Rightarrow> (key_type, value_type) leaf_data_node) \<Rightarrow> (nat \<Rightarrow> key_type) \<Rightarrow> workload_tuple
     \<Rightarrow> (key_type, value_type) base_node \<Rightarrow> (value_type option \<times> (key_type, value_type) base_node) result" where
  "bw_execute_tuple hash sd fd tuple n =
     bindR (page_run hash sd fd [0, 0] (page_init n [bw_tuple_op tuple])) (\<lambda>st.
       bindR (aget (installed st) (mapping_entry st)) (\<lambda>n'.
         Inr (case page_threads st of [Done _ (RetValues [v])] \<Rightarrow> Some v | _ \<Rightarrow> None, n')))"

text \<open>The leaf page of a new tree (\<^verbatim>\<open>InitNodeLayout\<close>) covers every key.\<close>

definition left_most_leaf :: "(key_type, value_type) base_node" where
  "left_most_leaf = LeafNode (NodeMetaData_ctor (0, INVALID_NODE_ID) (0, INVALID_NODE_ID) 0 0) []"

lemma bw_insert_tuple_eq:
  assumes ok: "page_ok n" "key_in_range n (tuple_key tuple)" "tuple_operation tuple \<noteq> Lookup"
  shows "\<exists>n'. bw_execute_tuple hash sd fd tuple n = Inr (None, n') \<and> page_ok n' \<and> key_in_range n' = key_in_range n
    \<and> page_map n' = insert_new (page_map n) (tuple_key tuple) (tuple_value tuple)
    \<and> (tuple_key tuple \<in> dom (page_map n) \<longrightarrow> n' = n)"
proof -
  have "bw_tuple_op tuple = OpInsert (tuple_key tuple) (tuple_value tuple)"
    using ok(3) by (cases "tuple_operation tuple") (simp_all add: bw_tuple_op_def WorkloadTuple_is_def)
  then show ?thesis
    using ok Insert_attempt_eq [OF ok(1,2), of "tuple_value tuple"] page_ok_ctor(1) [OF ok(1,2), of "tuple_value tuple"]
    by (cases "page_map n (tuple_key tuple)")
      (simp_all add: bw_execute_tuple_def page_init_def page_step_def aget_def InstallNodeToReplace_def nth_append
         insert_new_def domIff del: fun_upd_apply)
qed

lemma bw_lookup_tuple_eq:
  assumes ok: "page_ok n" "key_in_range n (tuple_key tuple)" "tuple_operation tuple = Lookup"
  shows "bw_execute_tuple hash sd fd tuple n = Inr (page_map n (tuple_key tuple), n)"
  using ok GetValue_on_leaf_eq [OF ok(1,2)]
  by (simp add: bw_execute_tuple_def bw_tuple_op_def WorkloadTuple_is_def page_init_def page_step_def aget_def split: option.splits)

text \<open>
  C40. The benchmark of the Bw-tree drops updates: the tuple of an update calls \<^verbatim>\<open>Insert\<close>, which refuses a
  key that is present, so the page stays as it is and the old value remains, where the update of the
  workload (and the benchmark of every other index) writes the new one.
\<close>

theorem bw_benchmark_drops_updates:
  assumes "page_ok n" "key_in_range n (tuple_key tuple)" "tuple_operation tuple = Update"
    "page_map n (tuple_key tuple) = Some old"
  shows "bw_execute_tuple hash sd fd tuple n = Inr (None, n)
    \<and> tuple_effect tuple (page_map n) (tuple_key tuple) = Some (tuple_value tuple)"
  using bw_insert_tuple_eq [OF assms(1,2), of hash sd fd] assms(3,4) by (auto simp: tuple_effect_def domIff)

theorem bw_benchmark_drops_updates_witness:
  "bw_execute_tuple (\<lambda>k. k) (\<lambda>_. \<lparr>ld_type = LeafInsertType, ld_item = (0, 0), ld_index_pair = (0, False)\<rparr>) (\<lambda>_. 0)
      \<lparr>tuple_operation = Update, tuple_key = 7, tuple_value = 9\<rparr>
      (LeafNode (NodeMetaData_ctor (0, INVALID_NODE_ID) (0, INVALID_NODE_ID) 0 1) [(7, 1)])
    = Inr (None, LeafNode (NodeMetaData_ctor (0, INVALID_NODE_ID) (0, INVALID_NODE_ID) 0 1) [(7, 1)])"
  using bw_benchmark_drops_updates [of "LeafNode (NodeMetaData_ctor (0, INVALID_NODE_ID) (0, INVALID_NODE_ID) 0 1) [(7, 1)]"
      "\<lparr>tuple_operation = Update, tuple_key = 7, tuple_value = 9\<rparr>" 1]
  by (simp add: key_in_range_def meta_defs above_low_def below_high_def to_short_small)

section \<open>The other tuples follow the dictionary\<close>

fun bw_possible :: "dictionary \<Rightarrow> workload_tuple \<Rightarrow> bool" where
  "bw_possible m tuple = (tuple_operation tuple = Update \<longrightarrow> tuple_key tuple \<notin> dom m)"

interpretation bw_run: tuple_index "bw_execute_tuple hash sd fd" "\<lambda>_ n. page_ok n \<and> (\<forall>k. key_in_range n k)" page_map bw_possible
  for hash sd fd
proof
  fix s tuple
  assume s: "page_ok s \<and> (\<forall>k. key_in_range s k)" and p: "bw_possible (page_map s) tuple"
  show "\<exists>s'. bw_execute_tuple hash sd fd tuple s = Inr (tuple_answer tuple (page_map s), s') \<and> (page_ok s' \<and> (\<forall>k. key_in_range s' k))
      \<and> page_map s' = tuple_effect tuple (page_map s)"
  proof (cases "tuple_operation tuple")
    case Lookup
    then show ?thesis using s bw_lookup_tuple_eq [of s tuple hash sd fd] by (auto simp: tuple_answer_def tuple_effect_def)
  next
    case Insert
    then show ?thesis using s bw_insert_tuple_eq [of s tuple hash sd fd] by (auto simp: tuple_answer_def tuple_effect_def)
  next
    case Update
    then show ?thesis
      using s p bw_insert_tuple_eq [of s tuple hash sd fd] by (auto simp: tuple_answer_def tuple_effect_def insert_new_def)
  qed
qed

lemma bw_page_answers_like_the_dictionary:
  assumes "all_along bw_possible Map.empty items"
  shows "\<exists>n. execute_items (bw_execute_tuple hash sd fd) items left_most_leaf = Inr (answers_of Map.empty items, n)
    \<and> page_ok n \<and> page_map n = contents_after Map.empty items"
proof -
  have "page_ok left_most_leaf" "\<forall>k. key_in_range left_most_leaf k" "page_map left_most_leaf = Map.empty"
    by (simp_all add: left_most_leaf_def key_in_range_def meta_defs above_low_def below_high_def to_short_small)
  then show ?thesis using bw_run.execute_items_law [of left_most_leaf items hash sd fd] assms by auto
qed

end
