(* ===== verification/Bw_Inner.thy ===== *)
theory Bw_Inner
  imports Bw_Page
begin

text \<open>
  The inner pages of the Bw-tree (\<^verbatim>\<open>src/src/indices/bw_tree/thread/bwtree.h\<close>): a base node of separators
  with child ids and a chain of delta records, the forward search \<^verbatim>\<open>NavigateInnerNode\<close> for a child, the search for a
  separator with its location, the search of the backward iterator, the split of a base node and
  the index terms that finish a split or a merge one level below.

  The first separator of a base node is the low key of the page; its key may be a placeholder for minus
  infinity and is never compared, except on the right branch of a merge. What a page holds is the id
  of its leftmost child and the ordered list \<open>inner_items\<close> of the other separators; \<open>child_of\<close> is the routing
  function this list stands for. \<open>inner_page_ok lo\<close> says what every record promises of the page below it, for
  a page whose lower bound is \<open>lo\<close>.
\<close>

section \<open>Nodes\<close>

definition INNER_NODE_SIZE_UPPER_THRESHOLD :: nat where
  "INNER_NODE_SIZE_UPPER_THRESHOLD = 64"

definition INNER_NODE_SIZE_LOWER_THRESHOLD :: nat where
  "INNER_NODE_SIZE_LOWER_THRESHOLD = 16"

datatype 'k inner_page =
    InnerNode "'k node_meta_data" "'k key_node_id_pair list"
  | InnerInsertNode "'k node_meta_data" "'k key_node_id_pair" "'k key_node_id_pair" nat "'k inner_page"
  | InnerDeleteNode "'k node_meta_data" "'k key_node_id_pair" "'k key_node_id_pair" "'k key_node_id_pair" nat "'k inner_page"
  | InnerSplitNode "'k node_meta_data" "'k key_node_id_pair" "'k inner_page"
  | InnerRemoveNode "'k node_meta_data" node_id "'k inner_page"
  | InnerMergeNode "'k node_meta_data" "'k key_node_id_pair" "'k inner_page" "'k inner_page"
  | InnerAbortNode "'k node_meta_data" "'k inner_page"

fun inner_meta :: "'k inner_page \<Rightarrow> 'k node_meta_data" where
  "inner_meta (InnerNode m _) = m"
| "inner_meta (InnerInsertNode m _ _ _ _) = m"
| "inner_meta (InnerDeleteNode m _ _ _ _ _) = m"
| "inner_meta (InnerSplitNode m _ _) = m"
| "inner_meta (InnerRemoveNode m _ _) = m"
| "inner_meta (InnerMergeNode m _ _ _) = m"
| "inner_meta (InnerAbortNode m _) = m"

abbreviation inner_low :: "'k inner_page \<Rightarrow> 'k key_node_id_pair" where
  "inner_low n \<equiv> low_key_p (inner_meta n)"

abbreviation inner_high :: "'k inner_page \<Rightarrow> 'k key_node_id_pair" where
  "inner_high n \<equiv> high_key_p (inner_meta n)"

abbreviation inner_depth :: "'k inner_page \<Rightarrow> int" where
  "inner_depth n \<equiv> md_depth (inner_meta n)"

abbreviation inner_count :: "'k inner_page \<Rightarrow> int" where
  "inner_count n \<equiv> md_item_count (inner_meta n)"

definition GetLowKeyNodeID :: "'k inner_page \<Rightarrow> node_id" where
  "GetLowKeyNodeID n = snd (inner_low n)"

definition InnerInsertNode_ctor ::
  "'k key_node_id_pair \<Rightarrow> 'k key_node_id_pair \<Rightarrow> 'k inner_page \<Rightarrow> nat \<Rightarrow> 'k inner_page" where
  "InnerInsertNode_ctor p_insert_item p_next_item c p_location =
     InnerInsertNode (NodeMetaData_ctor (inner_low c) (inner_high c) (inner_depth c + 1) (inner_count c + 1))
       p_insert_item p_next_item p_location c"

definition InnerDeleteNode_ctor ::
  "'k key_node_id_pair \<Rightarrow> 'k key_node_id_pair \<Rightarrow> 'k key_node_id_pair \<Rightarrow> 'k inner_page \<Rightarrow> nat \<Rightarrow> 'k inner_page" where
  "InnerDeleteNode_ctor p_delete_item p_prev_item p_next_item c p_location =
     InnerDeleteNode (NodeMetaData_ctor (inner_low c) (inner_high c) (inner_depth c + 1) (inner_count c - 1))
       p_delete_item p_prev_item p_next_item p_location c"

definition InnerSplitNode_ctor :: "'k key_node_id_pair \<Rightarrow> 'k inner_page \<Rightarrow> 'k inner_page \<Rightarrow> 'k inner_page" where
  "InnerSplitNode_ctor p_insert_item c p_split_node_p =
     InnerSplitNode (NodeMetaData_ctor (inner_low c) p_insert_item (inner_depth c) (inner_count c - inner_count p_split_node_p))
       p_insert_item c"

definition InnerRemoveNode_ctor :: "node_id \<Rightarrow> 'k inner_page \<Rightarrow> 'k inner_page" where
  "InnerRemoveNode_ctor p_removed_id c =
     InnerRemoveNode (NodeMetaData_ctor (inner_low c) (inner_high c) (inner_depth c) (inner_count c)) p_removed_id c"

definition InnerMergeNode_ctor :: "'k \<Rightarrow> 'k inner_page \<Rightarrow> node_id \<Rightarrow> 'k inner_page \<Rightarrow> 'k inner_page" where
  "InnerMergeNode_ctor p_merge_key p_right_merge_p p_deleted_node_id c =
     InnerMergeNode (NodeMetaData_ctor (inner_low c) (inner_high p_right_merge_p)
         (inner_depth c + inner_depth p_right_merge_p) (inner_count c + inner_count p_right_merge_p))
       (p_merge_key, p_deleted_node_id) p_right_merge_p c"

definition InnerAbortNode_ctor :: "'k inner_page \<Rightarrow> 'k inner_page" where
  "InnerAbortNode_ctor c =
     InnerAbortNode (NodeMetaData_ctor (inner_low c) (inner_high c) (inner_depth c) (inner_count c)) c"

text \<open>
  \<^verbatim>\<open>GetNodeHeader(&node_p->GetLowKeyPair())->GetSize()\<close>: the low key of a chain lies in its base node, on the
  left branch of a merge.
\<close>

fun base_size :: "'k inner_page \<Rightarrow> nat" where
  "base_size (InnerNode _ items) = length items"
| "base_size (InnerInsertNode _ _ _ _ c) = base_size c"
| "base_size (InnerDeleteNode _ _ _ _ _ c) = base_size c"
| "base_size (InnerSplitNode _ _ c) = base_size c"
| "base_size (InnerRemoveNode _ _ c) = base_size c"
| "base_size (InnerMergeNode _ _ _ c) = base_size c"
| "base_size (InnerAbortNode _ c) = base_size c"

section \<open>Searching a base node\<close>

definition InnerNode_UpperBound :: "('k::linorder \<times> node_id) list \<Rightarrow> nat \<Rightarrow> nat \<Rightarrow> 'k \<Rightarrow> nat result" where
  "InnerNode_UpperBound items start_index end_index search_key =
     (if \<not> start_index \<le> length items \<or> \<not> end_index \<le> length items then Inl AssertionFailed
      else Inr (upper_bound_loop (<) (map fst items) search_key start_index (end_index - start_index)))"

definition InnerNode_LowerBound :: "('k::linorder \<times> node_id) list \<Rightarrow> nat \<Rightarrow> nat \<Rightarrow> 'k \<Rightarrow> nat result" where
  "InnerNode_LowerBound items start_index end_index search_key =
     (if \<not> start_index \<le> length items \<or> \<not> end_index \<le> length items then Inl AssertionFailed
      else Inr (lower_bound_loop (map fst items) search_key start_index (end_index - start_index)))"

definition LocateSeparatorByKey :: "'k::linorder \<Rightarrow> ('k \<times> node_id) list \<Rightarrow> nat \<Rightarrow> nat \<Rightarrow> node_id result" where
  "LocateSeparatorByKey search_key items start_index end_index =
     (if items = [] then Inl AssertionFailed
      else bindR (InnerNode_UpperBound items start_index end_index search_key) (\<lambda>i.
        if \<not> i > 0 then Inl AssertionFailed else bindR (aget items (i - 1)) (\<lambda>e. Inr (snd e))))"

definition LocateSeparatorByKeyBI :: "'k::linorder \<Rightarrow> ('k \<times> node_id) list \<Rightarrow> node_id result" where
  "LocateSeparatorByKeyBI search_key items =
     (if items = [] then Inl AssertionFailed
      else bindR (InnerNode_UpperBound items 1 (length items) search_key) (\<lambda>i.
        if \<not> i > 0 then Inl AssertionFailed
        else bindR (aget items (i - 1)) (\<lambda>e.
          if fst e = search_key
          then (if i - 1 = 0 then Inl AssertionFailed else bindR (aget items (i - 2)) (\<lambda>e'. Inr (snd e')))
          else Inr (snd e))))"

section \<open>Navigation\<close>

text \<open>The loop of \<^verbatim>\<open>NavigateInnerNode\<close> on a page that covers the key, and the call with its first indices.\<close>

fun navigate_inner :: "'k::linorder \<Rightarrow> 'k inner_page \<Rightarrow> nat \<Rightarrow> nat \<Rightarrow> node_id result" where
  "navigate_inner search_key (InnerNode _ items) start_index end_index = LocateSeparatorByKey search_key items start_index end_index"
| "navigate_inner search_key (InnerInsertNode _ insert_item next_item location child_node_p) start_index end_index =
     (if search_key \<ge> fst insert_item
      then (if snd next_item = INVALID_NODE_ID \<or> search_key < fst next_item then Inr (snd insert_item)
            else navigate_inner search_key child_node_p (max start_index location) end_index)
      else navigate_inner search_key child_node_p start_index (min end_index location))"
| "navigate_inner search_key (InnerDeleteNode m item prev_item next_item location child_node_p) start_index end_index =
     (if (snd (low_key_p m) = snd prev_item \<or> search_key \<ge> fst prev_item)
         \<and> (snd next_item = INVALID_NODE_ID \<or> search_key < fst next_item) then Inr (snd prev_item)
      else if search_key \<ge> fst item then navigate_inner search_key child_node_p (max location start_index) end_index
      else navigate_inner search_key child_node_p start_index (min location end_index))"
| "navigate_inner search_key (InnerSplitNode _ _ child_node_p) start_index end_index =
     navigate_inner search_key child_node_p start_index end_index"
| "navigate_inner search_key (InnerMergeNode _ delete_item right_merge_p child_node_p) start_index end_index =
     (if search_key \<ge> fst delete_item then navigate_inner search_key right_merge_p 1 (base_size right_merge_p)
      else navigate_inner search_key child_node_p 1 (base_size child_node_p))"
| "navigate_inner search_key (InnerRemoveNode _ _ _) start_index end_index = Inl AssertionFailed"
| "navigate_inner search_key (InnerAbortNode _ _) start_index end_index = Inl AssertionFailed"

definition NavigateInnerNode :: "'k::linorder \<Rightarrow> 'k inner_page \<Rightarrow> node_id result" where
  "NavigateInnerNode search_key node_p = navigate_inner search_key node_p 1 (base_size node_p)"

fun NavigateInnerNodeBI :: "'k::linorder \<Rightarrow> 'k inner_page \<Rightarrow> node_id result" where
  "NavigateInnerNodeBI search_key (InnerNode _ items) = LocateSeparatorByKeyBI search_key items"
| "NavigateInnerNodeBI search_key (InnerInsertNode _ insert_item next_item _ child_node_p) =
     (if (snd next_item = INVALID_NODE_ID \<or> search_key < fst next_item) \<and> search_key > fst insert_item then Inr (snd insert_item)
      else NavigateInnerNodeBI search_key child_node_p)"
| "NavigateInnerNodeBI search_key (InnerDeleteNode m _ prev_item next_item _ child_node_p) =
     (if (snd (low_key_p m) = snd prev_item \<or> search_key > fst prev_item)
         \<and> (snd next_item = INVALID_NODE_ID \<or> search_key < fst next_item) then Inr (snd prev_item)
      else NavigateInnerNodeBI search_key child_node_p)"
| "NavigateInnerNodeBI search_key (InnerSplitNode _ _ child_node_p) = NavigateInnerNodeBI search_key child_node_p"
| "NavigateInnerNodeBI search_key (InnerMergeNode _ delete_item right_merge_p child_node_p) =
     (if search_key > fst delete_item then NavigateInnerNodeBI search_key right_merge_p
      else NavigateInnerNodeBI search_key child_node_p)"
| "NavigateInnerNodeBI search_key (InnerRemoveNode _ _ _) = Inl AssertionFailed"
| "NavigateInnerNodeBI search_key (InnerAbortNode _ _) = Inl AssertionFailed"

text \<open>
  The overload that looks for a separator, \<open>low_id\<close> the leftmost id of the page; it returns the id of the separator
  and its place in the base node.
\<close>

fun find_separator :: "'k::linorder \<Rightarrow> node_id \<Rightarrow> 'k inner_page \<Rightarrow> (node_id option \<times> nat) result" where
  "find_separator search_key low_id (InnerInsertNode _ insert_item _ location child_node_p) =
     (if fst insert_item = search_key then Inr (Some (snd insert_item), location)
      else find_separator search_key low_id child_node_p)"
| "find_separator search_key low_id (InnerDeleteNode _ delete_item _ _ location child_node_p) =
     (if fst delete_item = search_key then Inr (None, location)
      else find_separator search_key low_id child_node_p)"
| "find_separator search_key low_id (InnerNode _ items) =
     bindR (aget items 0) (\<lambda>e0.
     bindR (InnerNode_LowerBound items (if low_id = snd e0 then 1 else 0) (length items) search_key) (\<lambda>i.
       if i = length items then Inr (None, i)
       else if fst (items ! i) \<noteq> search_key then Inr (None, i)
       else Inr (Some (snd (items ! i)), i)))"
| "find_separator search_key low_id (InnerSplitNode _ _ child_node_p) = find_separator search_key low_id child_node_p"
| "find_separator search_key low_id (InnerMergeNode _ delete_item right_merge_p child_node_p) =
     (if search_key \<ge> fst delete_item then find_separator search_key low_id right_merge_p
      else find_separator search_key low_id child_node_p)"
| "find_separator search_key low_id (InnerRemoveNode _ _ _) = Inl AssertionFailed"
| "find_separator search_key low_id (InnerAbortNode _ _) = Inl AssertionFailed"

definition NavigateInnerNode_location :: "'k::linorder \<Rightarrow> 'k inner_page \<Rightarrow> (node_id option \<times> nat) result" where
  "NavigateInnerNode_location search_key node_p =
     (if snd (inner_high node_p) = INVALID_NODE_ID \<or> search_key < fst (inner_high node_p)
      then find_separator search_key (GetLowKeyNodeID node_p) node_p else Inl AssertionFailed)"

section \<open>Structure modifications\<close>

text \<open>
  The help for an unfinished split below a parent: \<open>insert_item\<close> and \<open>next_item\<close> are the split item and the
  high key under the split record. The result is the abort flag and the record to be installed on the parent. A separator
  with the same key and another id aborts the operation; the assertion about the other page is compiled
  only with \<^verbatim>\<open>BWTREE_DEBUG\<close>, which the header leaves undefined.
\<close>

definition FinishPartialSMO_split ::
  "'k::linorder key_node_id_pair \<Rightarrow> 'k key_node_id_pair \<Rightarrow> 'k inner_page \<Rightarrow> (bool \<times> 'k inner_page option) result" where
  "FinishPartialSMO_split insert_item next_item parent_node_p =
     (if snd (inner_high parent_node_p) \<noteq> INVALID_NODE_ID \<and> fst insert_item \<ge> fst (inner_high parent_node_p)
      then Inr (False, None)
      else bindR (NavigateInnerNode_location (fst insert_item) parent_node_p) (\<lambda>(found_node_id, location).
        case found_node_id of
          Some i \<Rightarrow> Inr (i \<noteq> snd insert_item, None)
        | None \<Rightarrow> Inr (False, Some (InnerInsertNode_ctor insert_item next_item parent_node_p location))))"

text \<open>The help for an unfinished merge: the neighbours come from the two pages that were merged.\<close>

definition FinishPartialSMO_merge ::
  "'k::linorder key_node_id_pair \<Rightarrow> 'k key_node_id_pair \<Rightarrow> 'k key_node_id_pair \<Rightarrow> 'k inner_page \<Rightarrow> 'k inner_page option result" where
  "FinishPartialSMO_merge delete_item prev_item right_high parent_node_p =
     bindR (NavigateInnerNode_location (fst delete_item) parent_node_p) (\<lambda>(found_node_id, location).
       case found_node_id of
         None \<Rightarrow> Inr None
       | Some i \<Rightarrow> if i \<noteq> snd delete_item then Inl AssertionFailed
           else Inr (Some (InnerDeleteNode_ctor delete_item prev_item right_high parent_node_p location)))"

definition InnerNode_GetSplitSibling :: "'k node_meta_data \<Rightarrow> 'k key_node_id_pair list \<Rightarrow> 'k inner_page result" where
  "InnerNode_GetSplitSibling m items =
     (let key_num = length items
      in if \<not> key_num \<ge> 2 \<or> int key_num \<noteq> md_item_count m then Inl AssertionFailed
         else let split_item_index = key_num div 2; sibling_item_count = key_num - split_item_index
              in bindR (aget items split_item_index) (\<lambda>low_key.
                 Inr (InnerNode (NodeMetaData_ctor low_key (high_key_p m) 0 (int sibling_item_count)) (drop split_item_index items))))"

text \<open>
  The entries of the mapping table that hold inner pages, the list of garbage nodes and the abort flag of the operation. The
  compare-and-swap replaces an entry that still holds the page of the snapshot. It compares the pages where the
  code compares their addresses: an entry that was replaced in between by a page with the same records at another address
  counts as unchanged here.
\<close>

record 'k inner_smo_state =
  inner_mapping_table :: "node_id \<rightharpoonup> 'k inner_page"
  inner_garbage :: "'k inner_page list"
  inner_abort_flag :: bool

definition InnerInstallNodeToReplace ::
  "node_id \<Rightarrow> 'k inner_page \<Rightarrow> 'k inner_page \<Rightarrow> 'k inner_smo_state \<Rightarrow> bool \<times> 'k inner_smo_state" where
  "InnerInstallNodeToReplace node_id node_p prev_p st =
     (if inner_mapping_table st node_id = Some prev_p
      then (True, st\<lparr>inner_mapping_table := (inner_mapping_table st)(node_id \<mapsto> node_p)\<rparr>) else (False, st))"

definition InnerInstallNewNode :: "node_id \<Rightarrow> 'k inner_page \<Rightarrow> 'k inner_smo_state \<Rightarrow> 'k inner_smo_state" where
  "InnerInstallNewNode node_id node_p st = st\<lparr>inner_mapping_table := (inner_mapping_table st)(node_id \<mapsto> node_p)\<rparr>"

definition PostAbortOnParent :: "node_id \<Rightarrow> 'k inner_page \<Rightarrow> 'k inner_smo_state \<Rightarrow> bool \<times> 'k inner_smo_state" where
  "PostAbortOnParent parent_node_id parent_node_p st =
     InnerInstallNodeToReplace parent_node_id (InnerAbortNode_ctor parent_node_p) parent_node_p st"

definition RemoveAbortOnParent ::
  "node_id \<Rightarrow> 'k inner_page \<Rightarrow> 'k inner_page \<Rightarrow> 'k inner_smo_state \<Rightarrow> 'k inner_smo_state result" where
  "RemoveAbortOnParent parent_node_id abort_node_p abort_child_node_p st =
     (let (ret, st1) = InnerInstallNodeToReplace parent_node_id abort_child_node_p abort_node_p st
      in if ret then Inr (st1\<lparr>inner_garbage := inner_garbage st1 @ [abort_node_p]\<rparr>) else Inl AssertionFailed)"

text \<open>
  The inner half of \<^verbatim>\<open>AdjustNodeSize\<close>. The new id comes from \<^verbatim>\<open>GetNextNodeID\<close>; \<open>is_removed\<close> tells which children, leaf or inner
  pages, resolve to a remove record; the parent is the snapshot on the path of the operation.
\<close>

definition AdjustNodeSize_inner ::
  "node_id \<Rightarrow> node_id \<Rightarrow> (node_id \<Rightarrow> bool) \<Rightarrow> bool \<Rightarrow> bool \<Rightarrow> node_id \<Rightarrow> 'k inner_page \<Rightarrow> 'k inner_page
    \<Rightarrow> 'k inner_smo_state \<Rightarrow> 'k inner_smo_state result" where
  "AdjustNodeSize_inner node_id new_node_id is_removed on_root is_left_most parent_node_id parent_node_p node_p st =
     (case node_p of InnerNode m items \<Rightarrow>
        if length items \<ge> INNER_NODE_SIZE_UPPER_THRESHOLD
        then bindR (InnerNode_GetSplitSibling m items) (\<lambda>new_inner_node_p.
             if is_removed (GetLowKeyNodeID new_inner_node_p)
             then Inr (st\<lparr>inner_garbage := inner_garbage st @ [new_inner_node_p]\<rparr>)
             else let split_node_p = InnerSplitNode_ctor (fst (inner_low new_inner_node_p), new_node_id) node_p new_inner_node_p;
                      st1 = InnerInstallNewNode new_node_id new_inner_node_p st;
                      (ret, st2) = InnerInstallNodeToReplace node_id split_node_p node_p st1
                  in if ret then Inr (st2\<lparr>inner_abort_flag := True\<rparr>)
                     else Inr (st2\<lparr>inner_garbage := inner_garbage st2 @ [InnerRemoveNode_ctor new_node_id new_inner_node_p, new_inner_node_p]\<rparr>))
        else if length items \<le> INNER_NODE_SIZE_LOWER_THRESHOLD
        then if on_root \<or> is_left_most then Inr st
             else let (abort_node_ret, st1) = PostAbortOnParent parent_node_id parent_node_p st
                  in if \<not> abort_node_ret then Inr (st1\<lparr>inner_abort_flag := True\<rparr>)
                     else let (ret, st2) = InnerInstallNodeToReplace node_id (InnerRemoveNode_ctor node_id node_p) node_p st1
                          in RemoveAbortOnParent parent_node_id (InnerAbortNode_ctor parent_node_p) parent_node_p (st2\<lparr>inner_abort_flag := True\<rparr>)
        else Inr st
      | _ \<Rightarrow> Inr st)"

lemmas inner_smo_defs = InnerInstallNodeToReplace_def InnerInstallNewNode_def PostAbortOnParent_def RemoveAbortOnParent_def

section \<open>What an inner page holds\<close>

text \<open>The child a key belongs to: the id of the last separator at or below the key.\<close>

fun child_of :: "node_id \<Rightarrow> ('k::linorder \<times> node_id) list \<Rightarrow> 'k \<Rightarrow> node_id" where
  "child_of l [] k = l"
| "child_of l (e # es) k = (if fst e \<le> k then child_of (snd e) es k else l)"

fun inner_items :: "'k::linorder inner_page \<Rightarrow> ('k \<times> node_id) list" where
  "inner_items (InnerNode _ items) = tl items"
| "inner_items (InnerInsertNode _ item _ _ c) = insort_key fst item (inner_items c)"
| "inner_items (InnerDeleteNode _ item _ _ _ c) = filter (\<lambda>e. fst e \<noteq> fst item) (inner_items c)"
| "inner_items (InnerSplitNode _ item c) = filter (\<lambda>e. fst e < fst item) (inner_items c)"
| "inner_items (InnerRemoveNode _ _ c) = inner_items c"
| "inner_items (InnerMergeNode _ item r c) = inner_items c @ (fst item, GetLowKeyNodeID r) # inner_items r"
| "inner_items (InnerAbortNode _ c) = inner_items c"

text \<open>The neighbours of a key, and the place of a key in the base node of a chain without merge.\<close>

definition next_sep :: "('k::linorder \<times> node_id) list \<Rightarrow> 'k key_node_id_pair \<Rightarrow> 'k \<Rightarrow> 'k key_node_id_pair" where
  "next_sep es hi k = (case dropWhile (\<lambda>e. fst e \<le> k) es of [] \<Rightarrow> hi | e # _ \<Rightarrow> e)"

definition same_bound :: "'k key_node_id_pair \<Rightarrow> 'k key_node_id_pair \<Rightarrow> bool" where
  "same_bound a b \<longleftrightarrow> snd a = INVALID_NODE_ID \<and> snd b = INVALID_NODE_ID
     \<or> snd a \<noteq> INVALID_NODE_ID \<and> snd b \<noteq> INVALID_NODE_ID \<and> fst a = fst b"

definition prev_ok :: "node_id \<Rightarrow> ('k::linorder \<times> node_id) list \<Rightarrow> 'k \<Rightarrow> 'k key_node_id_pair \<Rightarrow> bool" where
  "prev_ok l es k prev \<longleftrightarrow> (case rev (takeWhile (\<lambda>e. fst e < k) es) of [] \<Rightarrow> snd prev = l | e # _ \<Rightarrow> prev = e)"

fun place_ok :: "'k::linorder inner_page \<Rightarrow> 'k \<Rightarrow> nat \<Rightarrow> bool" where
  "place_ok (InnerNode _ items) k loc \<longleftrightarrow> loc = Suc (length (takeWhile (\<lambda>e. fst e < k) (tl items)))"
| "place_ok (InnerInsertNode _ _ _ _ c) k loc \<longleftrightarrow> place_ok c k loc"
| "place_ok (InnerDeleteNode _ _ _ _ _ c) k loc \<longleftrightarrow> place_ok c k loc"
| "place_ok (InnerSplitNode _ _ c) k loc \<longleftrightarrow> place_ok c k loc"
| "place_ok (InnerRemoveNode _ _ c) k loc \<longleftrightarrow> place_ok c k loc"
| "place_ok (InnerMergeNode _ _ _ _) k loc \<longleftrightarrow> True"
| "place_ok (InnerAbortNode _ c) k loc \<longleftrightarrow> place_ok c k loc"

fun base_ids :: "'k inner_page \<Rightarrow> node_id list" where
  "base_ids (InnerNode _ items) = [snd (hd items)]"
| "base_ids (InnerInsertNode _ _ _ _ c) = base_ids c"
| "base_ids (InnerDeleteNode _ _ _ _ _ c) = base_ids c"
| "base_ids (InnerSplitNode _ _ c) = base_ids c"
| "base_ids (InnerRemoveNode _ _ c) = base_ids c"
| "base_ids (InnerMergeNode _ _ r c) = base_ids c @ base_ids r"
| "base_ids (InnerAbortNode _ c) = base_ids c"

fun is_inner_base :: "'k inner_page \<Rightarrow> bool" where
  "is_inner_base (InnerNode _ _) \<longleftrightarrow> True"
| "is_inner_base _ \<longleftrightarrow> False"

text \<open>A lower bound of \<open>None\<close> is minus infinity.\<close>

fun lo_less :: "'k::linorder option \<Rightarrow> 'k \<Rightarrow> bool" where
  "lo_less None k \<longleftrightarrow> True"
| "lo_less (Some l) k \<longleftrightarrow> l < k"

definition inner_range :: "'k::linorder option \<Rightarrow> 'k inner_page \<Rightarrow> 'k \<Rightarrow> bool" where
  "inner_range lo n k \<longleftrightarrow> (lo = Some k \<or> lo_less lo k) \<and> below_high (inner_high n) k"

fun inner_page_ok :: "'k::linorder option \<Rightarrow> 'k inner_page \<Rightarrow> bool" where
  "inner_page_ok lo (InnerNode m items) \<longleftrightarrow> items \<noteq> [] \<and> hd items = low_key_p m \<and> sorted_less (map fst (tl items))
     \<and> (case lo of None \<Rightarrow> True | Some l \<Rightarrow> fst (hd items) = l \<and> below_high (high_key_p m) l)
     \<and> (\<forall>e \<in> set (tl items). lo_less lo (fst e) \<and> below_high (high_key_p m) (fst e) \<and> snd e \<noteq> INVALID_NODE_ID \<and> snd e \<noteq> snd (hd items))
     \<and> md_item_count m = int (length items) \<and> 0 \<le> md_depth m"
| "inner_page_ok lo (InnerInsertNode m item next_item loc c) \<longleftrightarrow> inner_page_ok lo c
     \<and> lo_less lo (fst item) \<and> below_high (inner_high c) (fst item) \<and> fst item \<notin> fst ` set (inner_items c)
     \<and> snd item \<noteq> INVALID_NODE_ID \<and> snd item \<noteq> GetLowKeyNodeID c
     \<and> same_bound next_item (next_sep (inner_items c) (inner_high c) (fst item)) \<and> place_ok c (fst item) loc
     \<and> m = inner_meta (InnerInsertNode_ctor item next_item c loc)"
| "inner_page_ok lo (InnerDeleteNode m item prev_item next_item loc c) \<longleftrightarrow> inner_page_ok lo c
     \<and> item \<in> set (inner_items c) \<and> prev_ok (GetLowKeyNodeID c) (inner_items c) (fst item) prev_item
     \<and> same_bound next_item (next_sep (inner_items c) (inner_high c) (fst item)) \<and> place_ok c (fst item) loc
     \<and> m = inner_meta (InnerDeleteNode_ctor item prev_item next_item c loc)"
| "inner_page_ok lo (InnerSplitNode m item c) \<longleftrightarrow> inner_page_ok lo c \<and> is_inner_base c
     \<and> lo_less lo (fst item) \<and> below_high (inner_high c) (fst item) \<and> snd item \<noteq> INVALID_NODE_ID
     \<and> m = NodeMetaData_ctor (inner_low c) item (inner_depth c) (1 + int (length (filter (\<lambda>e. fst e < fst item) (inner_items c))))"
| "inner_page_ok lo (InnerRemoveNode m i c) \<longleftrightarrow> False"
| "inner_page_ok lo (InnerMergeNode m item r c) \<longleftrightarrow> inner_page_ok lo c \<and> inner_page_ok (Some (fst item)) r
     \<and> fst (inner_high c) = fst item \<and> snd (inner_high c) \<noteq> INVALID_NODE_ID
     \<and> lo_less lo (fst item) \<and> below_high (inner_high r) (fst item) \<and> GetLowKeyNodeID r \<noteq> INVALID_NODE_ID
     \<and> GetLowKeyNodeID c \<notin> set (base_ids r) \<and> GetLowKeyNodeID c \<notin> snd ` set (inner_items r) \<and> GetLowKeyNodeID c \<noteq> GetLowKeyNodeID r
     \<and> m = inner_meta (InnerMergeNode_ctor (fst item) r (snd item) c)"
| "inner_page_ok lo (InnerAbortNode m c) \<longleftrightarrow> False"

section \<open>Routing over a list of separators\<close>

lemma child_of_takeWhile: "child_of l es k = last (l # map snd (takeWhile (\<lambda>e. fst e \<le> k) es))"
  by (induction l es k rule: child_of.induct) auto

lemma child_of_append_le: "\<forall>e \<in> set xs. fst e \<le> k \<Longrightarrow> child_of l (xs @ ys) k = child_of (last (l # map snd xs)) ys k"
  by (induction l xs k rule: child_of.induct) auto

lemma child_of_append_greater: "\<forall>e \<in> set ys. k < fst e \<Longrightarrow> child_of l (xs @ ys) k = child_of l xs k"
  by (induction l xs k rule: child_of.induct) (cases ys; auto)+

lemma child_of_insort:
  "sorted_less (map fst es) \<Longrightarrow> fst x \<notin> fst ` set es \<Longrightarrow>
     child_of l (insort_key fst x es) k = (if fst x \<le> k \<and> (\<forall>e \<in> set es. fst x < fst e \<longrightarrow> k < fst e) then snd x else child_of l es k)"
  by (induction es arbitrary: l) (auto simp: not_le dest: less_trans)

lemma below_next_sep:
  assumes "sorted_less (map fst es)" "\<forall>e \<in> set es. snd e \<noteq> INVALID_NODE_ID" "same_bound b (next_sep es hi k)" "below_high hi s"
  shows "snd b = INVALID_NODE_ID \<or> s < fst b \<longleftrightarrow> (\<forall>e \<in> set es. k < fst e \<longrightarrow> s < fst e)"
proof -
  define ds where "ds = dropWhile (\<lambda>e. fst e \<le> k) es"
  have es: "es = takeWhile (\<lambda>e. fst e \<le> k) es @ ds" by (simp add: ds_def)
  have "sorted_less (map fst ds)" using assms(1) by (metis ds_def dropWhile_eq_drop drop_map sorted_wrt_drop)
  moreover have above: "\<forall>e \<in> set ds. k < fst e"
  proof (cases ds)
    case (Cons d ds')
    then have "\<not> fst d \<le> k" unfolding ds_def by (metis hd_dropWhile list.distinct(1) list.sel(1))
    then show ?thesis using Cons \<open>sorted_less (map fst ds)\<close> by (auto dest: less_trans)
  qed simp
  moreover have "(\<forall>e \<in> set es. k < fst e \<longrightarrow> s < fst e) \<longleftrightarrow> (\<forall>e \<in> set ds. s < fst e)"
  proof -
    have "(\<forall>e \<in> set es. k < fst e \<longrightarrow> s < fst e) \<longleftrightarrow> (\<forall>e \<in> set (takeWhile (\<lambda>e. fst e \<le> k) es) \<union> set ds. k < fst e \<longrightarrow> s < fst e)"
      by (subst es) simp
    then show ?thesis using above by (auto dest: set_takeWhileD)
  qed
  moreover have "snd (hd ds) \<noteq> INVALID_NODE_ID" if "ds \<noteq> []" using that assms(2) es by (metis Un_iff hd_in_set set_append)
  ultimately show ?thesis
    using assms(3,4) by (cases ds) (auto simp: next_sep_def same_bound_def below_high_def simp flip: ds_def dest: less_trans)
qed

lemma child_of_filter:
  assumes srt: "sorted_less (map fst es)" and item: "item \<in> set es" and prev: "prev_ok l es (fst item) prev"
    and ids: "\<forall>e \<in> set es. snd e \<noteq> l"
  shows "child_of l (filter (\<lambda>e. fst e \<noteq> fst item) es) k
    = (if (l = snd prev \<or> fst prev \<le> k) \<and> (\<forall>e \<in> set es. fst item < fst e \<longrightarrow> k < fst e) then snd prev else child_of l es k)"
proof -
  obtain xs ys where es: "es = xs @ item # ys" using item by (meson split_list)
  have lt: "\<forall>e \<in> set xs. fst e < fst item" and gt: "\<forall>e \<in> set ys. fst item < fst e" and ys: "sorted_less (map fst ys)"
    using srt by (auto simp: es sorted_wrt_append)
  have "takeWhile (\<lambda>e. fst e < fst item) es = xs" using lt by (simp add: es takeWhile_append)
  then have pv: "if xs = [] then snd prev = l else prev = last xs"
    using prev by (cases xs rule: rev_cases) (auto simp: prev_ok_def)
  then have last: "last (l # map snd xs) = snd prev" by (auto simp: last_map)
  have le: "l = snd prev \<or> fst prev \<le> k" if "\<forall>e \<in> set xs. fst e \<le> k"
    using that pv by (cases "xs = []") auto
  have "filter (\<lambda>e. fst e \<noteq> fst item) xs = xs" "filter (\<lambda>e. fst e \<noteq> fst item) ys = ys"
    using lt gt by (auto simp: filter_id_conv)
  then have filt: "filter (\<lambda>e. fst e \<noteq> fst item) es = xs @ ys" by (simp add: es)
  have bound: "(\<forall>e \<in> set es. fst item < fst e \<longrightarrow> k < fst e) \<longleftrightarrow> (\<forall>e \<in> set ys. k < fst e)" using lt gt by (auto simp: es)
  show ?thesis
  proof (cases "k < fst item")
    case True
    then have "\<forall>e \<in> set ys. k < fst e" "\<forall>e \<in> set (item # ys). k < fst e" using gt by (auto dest: less_trans)
    then have "child_of l es k = child_of l xs k" "child_of l (xs @ ys) k = child_of l xs k"
      unfolding es using child_of_append_greater [of ys k l xs] child_of_append_greater [of "item # ys" k l xs] by simp_all
    moreover have "child_of l xs k = snd prev" if *: "l = snd prev \<or> fst prev \<le> k"
    proof (cases "xs = []")
      case False
      then have "l \<noteq> snd prev" using pv ids by (auto simp: es)
      then have "fst (last xs) \<le> k" using * pv False by auto
      moreover have "fst e \<le> fst (last xs)" if "e \<in> set xs" for e
        using srt that False by (cases xs rule: rev_cases) (auto simp: es sorted_wrt_append)
      ultimately have "\<forall>e \<in> set xs. fst e \<le> k" by fastforce
      then show ?thesis using child_of_append_le [of xs k l "[]"] last by simp
    qed (use pv in simp)
    ultimately show ?thesis unfolding filt by simp
  next
    case False
    then have "\<forall>e \<in> set xs. fst e \<le> k" using lt by fastforce
    moreover from this have "child_of l (xs @ ys) k = child_of (snd prev) ys k" "child_of l es k = child_of (snd item) ys k"
      using child_of_append_le [of xs k l] last False by (simp_all add: es not_less)
    moreover have "child_of i ys k = (if \<forall>e \<in> set ys. k < fst e then i else child_of j ys k)" for i j
      using ys by (cases ys) (auto dest: less_trans)
    ultimately show ?thesis unfolding filt bound using le by metis
  qed
qed

lemma child_of_below: "sorted_less (map fst es) \<Longrightarrow> k < b \<Longrightarrow> child_of l (filter (\<lambda>e. fst e < b) es) k = child_of l es k"
proof (induction l es k rule: child_of.induct)
  case (2 l e es k)
  show ?case
  proof (cases "fst e < b")
    case False
    then have "filter (\<lambda>e. fst e < b) es = []" using "2.prems"(1) by (fastforce simp: filter_empty_conv)
    then show ?thesis using False "2.prems"(2) by auto
  qed (use 2 in auto)
qed simp

lemma child_of_merge:
  assumes "\<forall>e \<in> set xs. fst e < b" "\<forall>e \<in> set ys. b < fst e"
  shows "child_of l (xs @ (b, r) # ys) k = (if b \<le> k then child_of r ys k else child_of l xs k)"
proof (cases "b \<le> k")
  case True
  then have "\<forall>e \<in> set xs. fst e \<le> k" using assms(1) by fastforce
  then show ?thesis using True child_of_append_le [of xs k l] by simp
next
  case False
  then have "\<forall>e \<in> set ((b, r) # ys). k < fst e" using assms(2) by fastforce
  then show ?thesis using False child_of_append_greater by metis
qed

section \<open>The searches answer from the list\<close>

lemma lo_less_trans: "lo_less lo x \<Longrightarrow> x < y \<Longrightarrow> lo_less lo y"
  by (cases lo) auto

lemma sorted_less_insort_key:
  "sorted_less (map fst es) \<Longrightarrow> fst x \<notin> fst ` set es \<Longrightarrow> sorted_less (map fst (insort_key fst x es))"
  by (induction es) (auto simp: set_insort_key not_le less_le dest: order.trans)

lemma sorted_less_filter: "sorted_less (map fst es) \<Longrightarrow> sorted_less (map fst (filter P es))"
  by (induction es) auto

lemma length_filter_neq:
  "sorted_less (map fst es) \<Longrightarrow> x \<in> set es \<Longrightarrow> Suc (length (filter (\<lambda>e. fst e \<noteq> fst x) es)) = length es"
proof (induction es)
  case (Cons e es)
  show ?case
  proof (cases "fst e = fst x")
    case True
    then have "filter (\<lambda>e. fst e \<noteq> fst x) es = es" using Cons.prems(1) by (auto simp: filter_id_conv)
    then show ?thesis using True by simp
  qed (use Cons in auto)
qed simp

lemma inner_page_facts:
  "inner_page_ok lo n \<Longrightarrow> sorted_less (map fst (inner_items n)) \<and> inner_count n = 1 + int (length (inner_items n))
     \<and> (\<forall>e \<in> set (inner_items n). lo_less lo (fst e) \<and> below_high (inner_high n) (fst e)
          \<and> snd e \<noteq> INVALID_NODE_ID \<and> snd e \<noteq> GetLowKeyNodeID n)
     \<and> (\<forall>l. lo = Some l \<longrightarrow> fst (inner_low n) = l \<and> below_high (inner_high n) l)"
proof (induction lo n rule: inner_page_ok.induct)
  case (1 lo m items)
  then show ?case by (cases items) (auto simp: GetLowKeyNodeID_def split: option.splits)
next
  case (2 lo m item next_item loc c)
  then show ?case
    by (auto simp: GetLowKeyNodeID_def InnerInsertNode_ctor_def NodeMetaData_ctor_def set_insort_key sorted_less_insort_key)
next
  case (3 lo m item prev_item next_item loc c)
  then show ?case
    using length_filter_neq [of "inner_items c" item]
    by (auto simp: GetLowKeyNodeID_def InnerDeleteNode_ctor_def NodeMetaData_ctor_def sorted_less_filter)
next
  case (4 lo m item c)
  then show ?case
    by (auto simp: GetLowKeyNodeID_def NodeMetaData_ctor_def sorted_less_filter below_high_def)
next
  case (6 lo m item r c)
  have c: "\<forall>e \<in> set (inner_items c). fst e < fst item" and r: "\<forall>e \<in> set (inner_items r). fst item < fst e" using 6 by (auto simp: below_high_def)
  then have cr: "\<forall>a \<in> set (inner_items c). \<forall>b \<in> set (inner_items r). fst a < fst b" by (meson less_trans)
  have "sorted_less (map fst (inner_items c))" "sorted_less (map fst (inner_items r))" using 6 by simp_all
  then have "sorted_less (map fst (inner_items (InnerMergeNode m item r c)))" using c r cr by (simp add: sorted_wrt_append)
  moreover have "GetLowKeyNodeID c \<notin> snd ` set (inner_items r)" "lo_less lo (fst item)" using "6.prems" by simp_all
  then have "\<forall>e \<in> set (inner_items r). snd e \<noteq> GetLowKeyNodeID c \<and> lo_less lo (fst e)" using r lo_less_trans by force
  moreover have "below_high (inner_high r) x" if "x < fst item" for x using that "6.prems" by (auto simp: below_high_def)
  moreover have "\<forall>e \<in> set (inner_items c). lo_less lo (fst e) \<and> snd e \<noteq> INVALID_NODE_ID \<and> snd e \<noteq> GetLowKeyNodeID c"
    "\<forall>e \<in> set (inner_items r). below_high (inner_high r) (fst e) \<and> snd e \<noteq> INVALID_NODE_ID"
    "\<forall>l. lo = Some l \<longrightarrow> fst (inner_low c) = l \<and> l < fst item"
    "inner_count c = 1 + int (length (inner_items c))" "inner_count r = 1 + int (length (inner_items r))"
    using 6 by (auto simp: below_high_def)
  ultimately show ?case using "6.prems" c
    by (auto simp: GetLowKeyNodeID_def InnerMergeNode_ctor_def NodeMetaData_ctor_def)
qed simp_all

lemmas inner_facts = inner_page_facts [THEN conjunct1] inner_page_facts [THEN conjunct2, THEN conjunct1]
  inner_page_facts [THEN conjunct2, THEN conjunct2, THEN conjunct1] inner_page_facts [THEN conjunct2, THEN conjunct2, THEN conjunct2]

lemma upper_bound_loop_Suc: "upper_bound_loop cmp (y # xs) x (Suc first) len = Suc (upper_bound_loop cmp xs x first len)"
proof (induction cmp xs x first len rule: upper_bound_loop.induct)
  case (1 cmp xs x first len)
  show ?case
  proof (cases "len = 0")
    case False
    then show ?thesis
      using "1.IH" by (simp add: upper_bound_loop.simps [of cmp "y # xs" x "Suc first" len] upper_bound_loop.simps [of cmp xs x first len] Let_def)
  qed (simp add: upper_bound_loop.simps)
qed

text \<open>What the indices of the search promise on the base node below.\<close>

fun inner_nav_ok :: "'k::linorder inner_page \<Rightarrow> 'k \<Rightarrow> nat \<Rightarrow> nat \<Rightarrow> bool" where
  "inner_nav_ok (InnerNode _ items) k start_index end_index \<longleftrightarrow> 1 \<le> start_index \<and> start_index \<le> length items
     \<and> 1 \<le> end_index \<and> end_index \<le> length items
     \<and> (\<forall>i. 1 \<le> i \<and> i < start_index \<longrightarrow> fst (items ! i) \<le> k) \<and> (\<forall>i. end_index \<le> i \<and> i < length items \<longrightarrow> k < fst (items ! i))"
| "inner_nav_ok (InnerInsertNode _ _ _ _ c) k start_index end_index \<longleftrightarrow> inner_nav_ok c k start_index end_index"
| "inner_nav_ok (InnerDeleteNode _ _ _ _ _ c) k start_index end_index \<longleftrightarrow> inner_nav_ok c k start_index end_index"
| "inner_nav_ok (InnerSplitNode _ _ c) k start_index end_index \<longleftrightarrow> inner_nav_ok c k start_index end_index"
| "inner_nav_ok (InnerRemoveNode _ _ c) k start_index end_index \<longleftrightarrow> inner_nav_ok c k start_index end_index"
| "inner_nav_ok (InnerMergeNode _ _ _ _) k start_index end_index \<longleftrightarrow> True"
| "inner_nav_ok (InnerAbortNode _ c) k start_index end_index \<longleftrightarrow> inner_nav_ok c k start_index end_index"

lemma inner_nav_start: "inner_page_ok lo n \<Longrightarrow> inner_nav_ok n k 1 (base_size n)"
  by (induction lo n rule: inner_page_ok.induct) (auto simp: Suc_le_eq)

lemma takeWhile_place:
  assumes "sorted_less (map fst es)" "p = length (takeWhile (\<lambda>e. fst e < k) es)"
  shows "p \<le> length es" "\<And>i. i < p \<Longrightarrow> fst (es ! i) < k" "\<And>i. p \<le> i \<Longrightarrow> i < length es \<Longrightarrow> k \<le> fst (es ! i)"
proof -
  show "p \<le> length es" using assms(2) by (simp add: length_takeWhile_le)
  show "fst (es ! i) < k" if "i < p" for i
    using that assms(2) by (metis nth_mem set_takeWhileD takeWhile_nth)
  show "k \<le> fst (es ! i)" if i: "p \<le> i" "i < length es" for i
  proof -
    have "\<not> fst (es ! p) < k" using assms(2) i nth_length_takeWhile [of "\<lambda>e. fst e < k" es] by simp
    moreover have "fst (es ! p) \<le> fst (es ! i)" using sorted_less_nth_le [OF assms(1), of p i] i by simp
    ultimately show ?thesis by simp
  qed
qed

lemma inner_nav_step:
  "inner_page_ok lo n \<Longrightarrow> place_ok n x loc \<Longrightarrow> inner_nav_ok n k st en \<Longrightarrow>
     (x \<le> k \<longrightarrow> inner_nav_ok n k (max st loc) en) \<and> (\<not> x \<le> k \<longrightarrow> inner_nav_ok n k st (min en loc))"
proof (induction lo n rule: inner_page_ok.induct)
  case (1 lo m items)
  then obtain e es where items: "items = e # es" by (cases items) auto
  define p where "p = length (takeWhile (\<lambda>e. fst e < x) es)"
  have loc: "loc = Suc p" using "1.prems"(2) items by (simp add: p_def)
  have "sorted_less (map fst es)" using "1.prems"(1) items by simp
  note p = takeWhile_place [OF this p_def]
  have lo: "fst (items ! i) < x" if "1 \<le> i" "i < loc" for i using p(2) [of "i - 1"] that items loc by (cases i) auto
  have hi: "x \<le> fst (items ! i)" if "loc \<le> i" "i < length items" for i using p(3) [of "i - 1"] that items loc by (cases i) auto
  have nav: "1 \<le> st" "st \<le> length items" "1 \<le> en" "en \<le> length items" "\<And>i. 1 \<le> i \<Longrightarrow> i < st \<Longrightarrow> fst (items ! i) \<le> k"
      "\<And>i. en \<le> i \<Longrightarrow> i < length items \<Longrightarrow> k < fst (items ! i)"
    using "1.prems"(3) by auto
  have "fst (items ! i) \<le> k" if "1 \<le> i" "i < max st loc" "x \<le> k" for i
    using that nav(5) [of i] lo [of i] by (meson less_max_iff_disj order.strict_trans2 less_imp_le)
  moreover have "k < fst (items ! i)" if "min en loc \<le> i" "i < length items" "k < x" for i
    using that nav(6) [of i] hi [of i] by (meson min_le_iff_disj order.strict_trans2)
  moreover have "1 \<le> loc" "loc \<le> length items" using p(1) by (simp_all add: loc items)
  ultimately show ?case using nav(1-6) by (simp add: le_max_iff_disj min_le_iff_disj not_le)
qed auto

lemma LocateSeparatorByKey_eq:
  assumes "inner_page_ok lo (InnerNode m items)" "inner_nav_ok (InnerNode m items) k st en"
  shows "LocateSeparatorByKey k items st en = Inr (child_of (snd (hd items)) (tl items) k)"
proof -
  obtain e es where items: "items = e # es" using assms(1) by (cases items) auto
  obtain s t where st: "st = Suc s" "en = Suc t" "s \<le> length es" "t \<le> length es" using assms(2) items by (cases st; cases en) auto
  have srt: "sorted_less (map fst es)" using assms(1) items by simp
  have lo: "\<forall>i < s. fst (es ! i) \<le> k" and hi: "\<forall>i. t \<le> i \<and> i < length es \<longrightarrow> k < fst (es ! i)"
    using assms(2) by (auto simp: items st nth_Cons' dest: spec [of _ "Suc _"])
  define u where "u = upper_bound_loop (<) (map fst es) k s (t - s)"
  have le: "s + (t - s) \<le> length (map fst es)" using st by auto
  have "\<forall>i. s + (t - s) \<le> i \<and> i < length (map fst es) \<longrightarrow> k < map fst es ! i" using hi by auto
  then have u: "u \<le> length es" "\<forall>i < u. fst (es ! i) \<le> k" "\<forall>i. u \<le> i \<and> i < length es \<longrightarrow> k < fst (es ! i)"
    using upper_bound_loop_bounds [of "map fst es" 0 s "t - s" "length (map fst es)" k] le lo st srt
    by (auto simp: u_def strict_sorted_imp_sorted)
  have tw: "takeWhile (\<lambda>e. fst e \<le> k) es = take u es" using u by (intro takeWhile_eq_take_P_nth) (auto simp: not_le)
  have "snd (items ! u) = last (snd e # map snd (take u es))"
    using u(1) by (cases u) (auto simp: items last_conv_nth)
  moreover have "InnerNode_UpperBound items st en k = Inr (Suc u)"
    using st by (simp add: InnerNode_UpperBound_def items upper_bound_loop_Suc u_def)
  ultimately show ?thesis
    using u(1) by (simp add: LocateSeparatorByKey_def items aget_def child_of_takeWhile tw)
qed

lemma navigate_inner_eq:
  "inner_page_ok lo n \<Longrightarrow> inner_range lo n k \<Longrightarrow> inner_nav_ok n k st en \<Longrightarrow>
     navigate_inner k n st en = Inr (child_of (GetLowKeyNodeID n) (inner_items n) k)"
proof (induction lo n arbitrary: st en rule: inner_page_ok.induct)
  case (1 lo m items)
  then show ?case using LocateSeparatorByKey_eq [OF "1.prems"(1,3)] by (simp add: GetLowKeyNodeID_def)
next
  case (2 lo m item next_item loc c)
  have c: "inner_page_ok lo c" "inner_range lo c k" "inner_nav_ok c k st en" "place_ok c (fst item) loc" "GetLowKeyNodeID (InnerInsertNode m item next_item loc c) = GetLowKeyNodeID c"
    using "2.prems" by (auto simp: inner_range_def InnerInsertNode_ctor_def NodeMetaData_ctor_def GetLowKeyNodeID_def)
  note f = inner_facts [OF c(1)] and step = inner_nav_step [OF c(1,4,3)]
  have nx: "snd next_item = INVALID_NODE_ID \<or> k < fst next_item \<longleftrightarrow> (\<forall>e \<in> set (inner_items c). fst item < fst e \<longrightarrow> k < fst e)"
    using f c(2) "2.prems"(1) by (intro below_next_sep) (auto simp: inner_range_def)
  have "fst item \<notin> fst ` set (inner_items c)" using "2.prems"(1) by simp
  note route = child_of_insort [OF f(1) this, of "GetLowKeyNodeID c" k]
  define B where "B \<longleftrightarrow> (\<forall>e \<in> set (inner_items c). fst item < fst e \<longrightarrow> k < fst e)"
  show ?case
    using "2.IH" [OF c(1,2), of "max st loc" en] "2.IH" [OF c(1,2), of st "min en loc"] step nx [folded B_def]
    by (cases "fst item \<le> k"; cases B) (simp_all add: c(5) route [folded B_def])
next
  case (3 lo m item prev_item next_item loc c)
  have c: "inner_page_ok lo c" "inner_range lo c k" "inner_nav_ok c k st en" "place_ok c (fst item) loc" "snd (low_key_p m) = GetLowKeyNodeID c"
    using "3.prems" by (auto simp: inner_range_def InnerDeleteNode_ctor_def NodeMetaData_ctor_def GetLowKeyNodeID_def)
  note f = inner_facts [OF c(1)] and step = inner_nav_step [OF c(1,4,3)]
  have nx: "snd next_item = INVALID_NODE_ID \<or> k < fst next_item \<longleftrightarrow> (\<forall>e \<in> set (inner_items c). fst item < fst e \<longrightarrow> k < fst e)"
    using f c(2) "3.prems"(1) by (intro below_next_sep) (auto simp: inner_range_def)
  have "child_of (GetLowKeyNodeID c) (filter (\<lambda>e. fst e \<noteq> fst item) (inner_items c)) k
    = (if (GetLowKeyNodeID c = snd prev_item \<or> fst prev_item \<le> k) \<and> (\<forall>e \<in> set (inner_items c). fst item < fst e \<longrightarrow> k < fst e)
       then snd prev_item else child_of (GetLowKeyNodeID c) (inner_items c) k)"
    using f "3.prems"(1) by (intro child_of_filter) auto
  note route = this
  have low: "GetLowKeyNodeID (InnerDeleteNode m item prev_item next_item loc c) = GetLowKeyNodeID c" using c(5) by (simp add: GetLowKeyNodeID_def)
  define B where "B \<longleftrightarrow> (\<forall>e \<in> set (inner_items c). fst item < fst e \<longrightarrow> k < fst e)"
  show ?case
    using "3.IH" [OF c(1,2), of "max loc st" en] "3.IH" [OF c(1,2), of st "min loc en"] step nx [folded B_def]
    by (cases "fst item \<le> k"; cases B) (simp_all add: c(5) low route [folded B_def] max.commute min.commute)
next
  case (4 lo m item c)
  have c: "inner_page_ok lo c" "inner_range lo c k" "k < fst item" "GetLowKeyNodeID (InnerSplitNode m item c) = GetLowKeyNodeID c"
    using "4.prems" by (auto simp: inner_range_def NodeMetaData_ctor_def GetLowKeyNodeID_def below_high_def)
  then show ?case using "4.IH" [OF c(1,2)] "4.prems"(3) inner_facts(1) [OF c(1)] by (simp add: child_of_below)
next
  case (6 lo m item r c)
  have ok: "inner_page_ok lo c" "inner_page_ok (Some (fst item)) r" "GetLowKeyNodeID (InnerMergeNode m item r c) = GetLowKeyNodeID c"
    and high: "inner_high (InnerMergeNode m item r c) = inner_high r"
    using "6.prems"(1) by (auto simp: InnerMergeNode_ctor_def NodeMetaData_ctor_def GetLowKeyNodeID_def)
  have "\<forall>e \<in> set (inner_items c). fst e < fst item" "\<forall>e \<in> set (inner_items r). fst item < fst e"
    using inner_facts(3) [OF ok(1)] inner_facts(3) [OF ok(2)] "6.prems"(1) by (auto simp: below_high_def)
  note route = child_of_merge [OF this, of "GetLowKeyNodeID c" "GetLowKeyNodeID r" k]
  have "inner_range (Some (fst item)) r k" if "fst item \<le> k" using that "6.prems"(2) high by (auto simp: inner_range_def)
  moreover have "inner_range lo c k" if "k < fst item" using that "6.prems"(1,2) by (auto simp: inner_range_def below_high_def)
  ultimately show ?case
    using "6.IH"(1) [OF ok(1) _ inner_nav_start [OF ok(1)]] "6.IH"(2) [OF ok(2) _ inner_nav_start [OF ok(2)]] route
    by (auto simp: ok(3) not_le)
qed simp_all

lemma NavigateInnerNode_eq:
  assumes "inner_page_ok lo n" "inner_range lo n k"
  shows "NavigateInnerNode k n = Inr (child_of (GetLowKeyNodeID n) (inner_items n) k)"
  unfolding NavigateInnerNode_def by (rule navigate_inner_eq [OF assms inner_nav_start [OF assms(1)]])

text \<open>
  C17. The search through an inner page finds the child a key belongs to: on a well-formed page, whatever inserts and
  deletes of separators, splits and merges are on its chain and whatever part of the base node the
  shortcuts have cut away, \<^verbatim>\<open>NavigateInnerNode\<close> ends with the id of the last separator at or below the key.
\<close>

theorem inner_search_routes:
  assumes "inner_page_ok lo n" "inner_range lo n k"
  shows "NavigateInnerNode k n = Inr (child_of (GetLowKeyNodeID n) (inner_items n) k)"
  by (rule NavigateInnerNode_eq [OF assms])

section \<open>Finding a separator\<close>

lemma lower_bound_loop_Suc: "lower_bound_loop (y # xs) k (Suc first) len = Suc (lower_bound_loop xs k first len)"
proof (induction xs k first len rule: lower_bound_loop.induct)
  case (1 xs k first len)
  show ?case
  proof (cases "len = 0")
    case False
    then show ?thesis
      using "1.IH" by (simp add: lower_bound_loop.simps [of "y # xs" k "Suc first" len] lower_bound_loop.simps [of xs k first len] Let_def)
  qed (simp add: lower_bound_loop.simps)
qed

lemma lower_bound_place:
  assumes "sorted_less (map fst es)"
  shows "lower_bound_loop (map fst es) k 0 (length es) = length (takeWhile (\<lambda>e. fst e < k) es)"
proof -
  let ?p = "lower_bound_loop (map fst es) k 0 (length es)"
  have "\<forall>i. 0 + length es \<le> i \<and> i < length (map fst es) \<longrightarrow> k \<le> map fst es ! i" by auto
  then have b: "?p \<le> length (map fst es) \<and> (\<forall>i < ?p. map fst es ! i < k) \<and> (\<forall>i. ?p \<le> i \<and> i < length (map fst es) \<longrightarrow> k \<le> map fst es ! i)"
    by (intro lower_bound_loop_bounds [OF _ assms]) simp_all
  then have p: "?p \<le> length es" "\<forall>i. ?p \<le> i \<and> i < length es \<longrightarrow> k \<le> fst (es ! i)" by simp_all
  have "\<forall>i < ?p. fst (es ! i) < k" using b p(1) by (metis length_map nth_map order.strict_trans2)
  then have "takeWhile (\<lambda>e. fst e < k) es = take ?p es" using p by (intro takeWhile_eq_take_P_nth) (auto simp: not_less)
  then show ?thesis using p(1) by simp
qed

lemma found_at_place:
  assumes "sorted_less (map fst es)" "p = length (takeWhile (\<lambda>e. fst e < k) es)"
  shows "map_of es k = (if p < length es \<and> fst (es ! p) = k then Some (snd (es ! p)) else None)"
proof (cases "k \<in> fst ` set es")
  case False
  then have "map_of es k = None" by (simp add: map_of_eq_None_iff)
  then show ?thesis using False by (metis (no_types) image_eqI nth_mem)
next
  case True
  then obtain j where j: "j < length es" "fst (es ! j) = k" by (metis (no_types) imageE in_set_conv_nth)
  note pl = takeWhile_place [OF assms]
  have "p \<le> j" using pl(2) [of j] j by (meson less_irrefl not_le)
  then have "p = j" using pl(3) [of p] sorted_less_nth_mono [OF assms(1), of p j] j by (metis (no_types, lifting) le_less_trans length_map nat_less_le not_le nth_map)
  then show ?thesis using j assms(1) by (simp add: map_of_eq_Some_iff strict_sorted_iff) (metis nth_mem prod.collapse)
qed

lemma map_of_insort_key: "fst x \<notin> fst ` set es \<Longrightarrow> map_of (insort_key fst x es) = (map_of es)(fst x \<mapsto> snd x)"
  by (induction es) (auto simp: fun_upd_twist)

lemma find_in_base:
  fixes items :: "('k::linorder \<times> node_id) list"
  assumes ok: "inner_page_ok lo (InnerNode m items)" and rng: "inner_range lo (InnerNode m items) k" and low: "low_id \<noteq> snd (hd items) \<longrightarrow> lo \<noteq> None"
  shows "\<exists>loc. find_separator k low_id (InnerNode m items)
      = Inr (if low_id \<noteq> snd (hd items) \<and> lo = Some k then Some (snd (hd items)) else map_of (tl items) k, loc)
    \<and> (low_id = snd (hd items) \<longrightarrow> place_ok (InnerNode m items) k loc)"
proof -
  obtain e es where items: "items = e # es" using ok by (cases items) auto
  have srt: "sorted_less (map fst es)" using ok items by simp
  define p where "p = length (takeWhile (\<lambda>e. fst e < k) es)"
  note found = found_at_place [OF srt p_def]
  have place: "p \<le> length es" by (simp add: p_def length_takeWhile_le)
  show ?thesis
  proof (cases "low_id = snd e")
    case True
    have "InnerNode_LowerBound items 1 (length items) k = Inr (Suc p)"
      using lower_bound_place [OF srt, of k] by (simp add: InnerNode_LowerBound_def items lower_bound_loop_Suc p_def)
    then show ?thesis using True found place by (auto simp: items aget_def p_def)
  next
    case False
    then obtain l where l: "lo = Some l" using low items by auto
    have el: "fst e = l" "\<forall>x \<in> set es. l < fst x" using ok items l by auto
    have "sorted_less (map fst items)" using srt el by (simp add: items)
    then have lb: "InnerNode_LowerBound items 0 (length items) k = Inr (length (takeWhile (\<lambda>e. fst e < k) items))"
      using lower_bound_place [of items k] by (simp add: InnerNode_LowerBound_def)
    have "k = l \<or> l < k" using rng l by (auto simp: inner_range_def)
    then show ?thesis using False found place lb el l by (auto simp: items aget_def p_def)
  qed
qed

lemma base_ids_low: "inner_page_ok lo n \<Longrightarrow> GetLowKeyNodeID n \<in> set (base_ids n)"
  by (induction lo n rule: inner_page_ok.induct)
    (auto simp: GetLowKeyNodeID_def InnerInsertNode_ctor_def InnerDeleteNode_ctor_def InnerMergeNode_ctor_def NodeMetaData_ctor_def)

lemma find_separator_eq:
  "inner_page_ok lo n \<Longrightarrow> inner_range lo n k \<Longrightarrow> low_id = GetLowKeyNodeID n \<or> low_id \<notin> set (base_ids n) \<and> lo \<noteq> None \<Longrightarrow>
   \<exists>loc. find_separator k low_id n
      = Inr (if low_id \<noteq> GetLowKeyNodeID n \<and> lo = Some k then Some (GetLowKeyNodeID n) else map_of (inner_items n) k, loc)
    \<and> (low_id = GetLowKeyNodeID n \<longrightarrow> place_ok n k loc)"
proof (induction lo n rule: inner_page_ok.induct)
  case (1 lo m items)
  then have "low_id \<noteq> snd (hd items) \<longrightarrow> lo \<noteq> None" "GetLowKeyNodeID (InnerNode m items) = snd (hd items)" by (auto simp: GetLowKeyNodeID_def)
  then show ?case using find_in_base [OF "1.prems"(1,2), of low_id] by (simp only: inner_items.simps)
next
  case (2 lo m item next_item loc c)
  have c: "inner_page_ok lo c" "inner_range lo c k" "place_ok c (fst item) loc" "GetLowKeyNodeID (InnerInsertNode m item next_item loc c) = GetLowKeyNodeID c"
    "fst item \<notin> fst ` set (inner_items c)" "lo \<noteq> Some (fst item)"
    using "2.prems"(1,2) by (auto simp: inner_range_def InnerInsertNode_ctor_def NodeMetaData_ctor_def GetLowKeyNodeID_def)
  have "low_id = GetLowKeyNodeID c \<or> low_id \<notin> set (base_ids c) \<and> lo \<noteq> None" using "2.prems"(3) c(4) by simp
  from "2.IH" [OF c(1,2) this] show ?case using c(3,6) by (auto simp: c(4) map_of_insort_key [OF c(5)])
next
  case (3 lo m item prev_item next_item loc c)
  have c: "inner_page_ok lo c" "inner_range lo c k" "place_ok c (fst item) loc" "GetLowKeyNodeID (InnerDeleteNode m item prev_item next_item loc c) = GetLowKeyNodeID c"
    "item \<in> set (inner_items c)"
    using "3.prems"(1,2) by (auto simp: inner_range_def InnerDeleteNode_ctor_def NodeMetaData_ctor_def GetLowKeyNodeID_def)
  have lo: "lo \<noteq> Some (fst item)" using inner_facts(3) [OF c(1)] c(5) by (cases lo) auto
  have m: "map_of (filter (\<lambda>e. fst e \<noteq> fst item) (inner_items c)) (fst item) = None"
      "k \<noteq> fst item \<Longrightarrow> map_of (filter (\<lambda>e. fst e \<noteq> fst item) (inner_items c)) k = map_of (inner_items c) k"
    using map_of_filter_key [of "\<lambda>x. x \<noteq> fst item" k "inner_items c"] by (auto simp: map_of_eq_None_iff)
  have "low_id = GetLowKeyNodeID c \<or> low_id \<notin> set (base_ids c) \<and> lo \<noteq> None" using "3.prems"(3) c(4) by simp
  from "3.IH" [OF c(1,2) this] show ?case using c(3) lo by (auto simp: c(4) m)
next
  case (4 lo m item c)
  have c: "inner_page_ok lo c" "inner_range lo c k" "k < fst item" "GetLowKeyNodeID (InnerSplitNode m item c) = GetLowKeyNodeID c"
    using "4.prems"(1,2) by (auto simp: inner_range_def NodeMetaData_ctor_def GetLowKeyNodeID_def below_high_def)
  have "low_id = GetLowKeyNodeID c \<or> low_id \<notin> set (base_ids c) \<and> lo \<noteq> None" using "4.prems"(3) c(4) by simp
  note ih = "4.IH" [OF c(1,2) this]
  have m: "map_of (filter (\<lambda>e. fst e < fst item) (inner_items c)) k = map_of (inner_items c) k"
    using map_of_filter_key [of "\<lambda>x. x < fst item" k "inner_items c"] c(3) by simp
  show ?case by (simp only: c(4) find_separator.simps inner_items.simps place_ok.simps m ih)
next
  case (6 lo m item r c)
  have ok: "inner_page_ok lo c" "inner_page_ok (Some (fst item)) r" "GetLowKeyNodeID (InnerMergeNode m item r c) = GetLowKeyNodeID c"
      "GetLowKeyNodeID c \<notin> set (base_ids r)" "lo_less lo (fst item)"
    and high: "inner_high (InnerMergeNode m item r c) = inner_high r"
    using "6.prems"(1) by (auto simp: InnerMergeNode_ctor_def NodeMetaData_ctor_def GetLowKeyNodeID_def)
  have keys: "\<forall>e \<in> set (inner_items c). fst e < fst item" "\<forall>e \<in> set (inner_items r). fst item < fst e"
    using inner_facts(3) [OF ok(1)] inner_facts(3) [OF ok(2)] "6.prems"(1) by (auto simp: below_high_def)
  show ?case
  proof (cases "fst item \<le> k")
    case True
    have "inner_range (Some (fst item)) r k" using True "6.prems"(2) high by (auto simp: inner_range_def)
    moreover have nin: "low_id \<notin> set (base_ids r)" using "6.prems"(3) ok(3,4) by auto
    moreover have "low_id \<noteq> GetLowKeyNodeID r" using nin base_ids_low [OF ok(2)] by auto
    moreover have "map_of (inner_items c) k = None" using keys(1) True by (fastforce simp: map_of_eq_None_iff)
    moreover have "lo \<noteq> Some k" using ok(5) True by auto
    ultimately show ?thesis using "6.IH"(2) [OF ok(2)] True by (auto simp: ok(3) map_add_def)
  next
    case False
    have "inner_range lo c k" using False "6.prems"(1,2) by (auto simp: inner_range_def below_high_def)
    moreover have "low_id = GetLowKeyNodeID c \<or> low_id \<notin> set (base_ids c) \<and> lo \<noteq> None" using "6.prems"(3) ok(3) by auto
    moreover have "map_of (inner_items r) k = None" using keys(2) False by (fastforce simp: map_of_eq_None_iff)
    then have "map_of (inner_items c @ (fst item, GetLowKeyNodeID r) # inner_items r) k = map_of (inner_items c) k"
      using False by (auto simp: map_add_def split: option.splits)
    ultimately show ?thesis
      using "6.IH"(1) [OF ok(1)] False by (simp only: ok(3) find_separator.simps inner_items.simps place_ok.simps if_False) blast
  qed
qed simp_all

lemma NavigateInnerNode_location_eq:
  assumes "inner_page_ok lo n" "inner_range lo n k"
  shows "\<exists>loc. NavigateInnerNode_location k n = Inr (map_of (inner_items n) k, loc) \<and> place_ok n k loc"
  using find_separator_eq [OF assms, of "GetLowKeyNodeID n"] assms(2)
  by (auto simp: NavigateInnerNode_location_def inner_range_def below_high_def)

section \<open>Index terms\<close>

lemma finish_split_eq:
  assumes ok: "inner_page_ok lo p" and rng: "lo_less lo (fst item)" "below_high (inner_high p) (fst item)"
    and new: "fst item \<notin> fst ` set (inner_items p)" "snd item \<noteq> INVALID_NODE_ID" "snd item \<noteq> GetLowKeyNodeID p"
    and nx: "same_bound next_item (next_sep (inner_items p) (inner_high p) (fst item))"
  obtains p' where "FinishPartialSMO_split item next_item p = Inr (False, Some p')" "inner_page_ok lo p'"
    "inner_items p' = insort_key fst item (inner_items p)" "GetLowKeyNodeID p' = GetLowKeyNodeID p" "inner_high p' = inner_high p"
proof -
  have "inner_range lo p (fst item)" using rng by (simp add: inner_range_def)
  from NavigateInnerNode_location_eq [OF ok this]
  obtain loc where loc: "NavigateInnerNode_location (fst item) p = Inr (None, loc)" "place_ok p (fst item) loc"
    using new(1) by (metis map_of_eq_None_iff)
  show thesis
  proof (rule that)
    show "FinishPartialSMO_split item next_item p = Inr (False, Some (InnerInsertNode_ctor item next_item p loc))"
      using loc(1) rng(2) by (auto simp: FinishPartialSMO_split_def below_high_def)
  qed (use ok rng new nx loc(2) in \<open>simp_all add: InnerInsertNode_ctor_def NodeMetaData_ctor_def GetLowKeyNodeID_def\<close>)
qed

lemma finish_merge_eq:
  assumes ok: "inner_page_ok lo p" and item: "item \<in> set (inner_items p)"
    and prev: "prev_ok (GetLowKeyNodeID p) (inner_items p) (fst item) prev_item"
    and nx: "same_bound next_item (next_sep (inner_items p) (inner_high p) (fst item))"
  obtains p' where "FinishPartialSMO_merge item prev_item next_item p = Inr (Some p')" "inner_page_ok lo p'"
    "inner_items p' = filter (\<lambda>e. fst e \<noteq> fst item) (inner_items p)" "GetLowKeyNodeID p' = GetLowKeyNodeID p" "inner_high p' = inner_high p"
proof -
  have "inner_range lo p (fst item)" using inner_facts(3) [OF ok] item by (auto simp: inner_range_def)
  from NavigateInnerNode_location_eq [OF ok this]
  obtain loc where loc: "NavigateInnerNode_location (fst item) p = Inr (Some (snd item), loc)" "place_ok p (fst item) loc"
    using item inner_facts(1) [OF ok] by (metis map_of_eq_Some_iff prod.collapse strict_sorted_iff)
  show thesis
  proof (rule that)
    show "FinishPartialSMO_merge item prev_item next_item p = Inr (Some (InnerDeleteNode_ctor item prev_item next_item p loc))"
      using loc(1) by (simp add: FinishPartialSMO_merge_def)
  qed (use assms loc(2) in \<open>simp_all add: InnerDeleteNode_ctor_def NodeMetaData_ctor_def GetLowKeyNodeID_def\<close>)
qed

text \<open>
  A page is the child \<open>i\<close> of a parent: the parent sends the keys of the page there, and its next separator is the high key of
  the page.
\<close>

definition child_link :: "'k::linorder option \<Rightarrow> 'k inner_page \<Rightarrow> node_id \<Rightarrow> ('k, 'v) base_node \<Rightarrow> bool" where
  "child_link lo p i n \<longleftrightarrow> (\<forall>k. key_in_range n k \<longrightarrow> inner_range lo p k \<and> child_of (GetLowKeyNodeID p) (inner_items p) k = i
     \<and> same_bound (GetHighKeyPair n) (next_sep (inner_items p) (inner_high p) k))"

lemma next_sep_le:
  assumes "sorted_less (map fst es)" "\<forall>e \<in> set es. snd e \<noteq> INVALID_NODE_ID" "e \<in> set es" "k < fst e"
  shows "fst (next_sep es hi k) \<le> fst e" "snd (next_sep es hi k) \<noteq> INVALID_NODE_ID"
proof -
  define ds where "ds = dropWhile (\<lambda>e. fst e \<le> k) es"
  have "e \<in> set ds" using assms(3,4) by (auto simp: ds_def dest: set_takeWhileD) (metis UnE not_le set_append set_takeWhileD takeWhile_dropWhile_id)
  then obtain d ds' where ds: "ds = d # ds'" by (cases ds) auto
  have "sorted_less (map fst ds)" using assms(1) by (metis ds_def dropWhile_eq_drop drop_map sorted_wrt_drop)
  then show "fst (next_sep es hi k) \<le> fst e" using \<open>e \<in> set ds\<close> by (auto simp: next_sep_def ds simp flip: ds_def)
  have "d \<in> set es" using ds ds_def by (metis list.set_intros(1) set_dropWhileD)
  then show "snd (next_sep es hi k) \<noteq> INVALID_NODE_ID" using assms(2) by (simp add: next_sep_def ds flip: ds_def)
qed

lemma split_key_is_new:
  assumes ok: "inner_page_ok lo p" and link: "child_link lo p i n" and k: "key_in_range n k" "key_in_range n sk" "k < sk"
  shows "sk \<notin> fst ` set (inner_items p)"
proof
  assume "sk \<in> fst ` set (inner_items p)"
  then obtain e where e: "e \<in> set (inner_items p)" "fst e = sk" by auto
  note f = inner_facts [OF ok]
  have "fst (next_sep (inner_items p) (inner_high p) k) \<le> sk" "snd (next_sep (inner_items p) (inner_high p) k) \<noteq> INVALID_NODE_ID"
    using next_sep_le [OF f(1) _ e(1)] f(3) e(2) k(3) by auto
  moreover have "same_bound (GetHighKeyPair n) (next_sep (inner_items p) (inner_high p) k)" using link k(1) by (simp add: child_link_def)
  ultimately have "\<not> below_high (GetHighKeyPair n) sk" by (auto simp: same_bound_def below_high_def)
  then show False using k(2) by (simp add: key_in_range_def)
qed

text \<open>
  C18. A split of a leaf page is finished on its parent without losing a key: when a full page is the child \<open>i\<close> of
  a well-formed parent, the split installs the two halves under \<open>i\<close> and the new id, the help puts
  exactly one index term on the parent, the parent stays well formed, and afterwards the parent sends
  every key of its range to the half that covers it, or where it sent the key before.
\<close>

theorem leaf_split_is_routed:
  fixes n :: "('k::linorder, 'v) base_node"
  assumes n: "page_ok n" "\<not> IsDeltaNode n" "LEAF_NODE_SIZE_UPPER_THRESHOLD \<le> GetItemCount n"
    and p: "inner_page_ok lo p" "child_link lo p i n" and new: "new_id \<noteq> INVALID_NODE_ID" "new_id \<noteq> GetLowKeyNodeID p"
  shows "\<exists>sib sp p'. AdjustNodeSize_leaf i new_id lm pb True n st
        = Inr (st\<lparr>smo_mapping_table := (smo_mapping_table st)(new_id \<mapsto> sib, i \<mapsto> sp), smo_abort_flag := True\<rparr>)
    \<and> FinishPartialSMO_split (GetHighKeyPair sp) (GetHighKeyPair n) p = Inr (False, Some p') \<and> inner_page_ok lo p'
    \<and> (\<forall>k. inner_range lo p k \<longrightarrow> NavigateInnerNode k p'
          = Inr (if key_in_range sp k then i else if key_in_range sib k then new_id
                 else child_of (GetLowKeyNodeID p) (inner_items p) k))"
proof -
  obtain m items where nd: "n = LeafNode m items" using n(2) by (cases n) auto
  have big: "64 \<le> length items" using n(1,3) nd by (simp add: meta_defs LEAF_NODE_SIZE_UPPER_THRESHOLD_def)
  define c where "c = length items div 2"
  have c: "c < length items" "0 < c" using big by (auto simp: c_def)
  define sk where "sk = fst (items ! c)"
  define sib where "sib = LeafNode (NodeMetaData_ctor (fst (items ! c), NOT INVALID_NODE_ID) (high_key_p m) 0 (int (length items - c))) (drop c items)"
  define sp where "sp = LeafSplitNode_ctor (fst (items ! c), new_id) n sib"
  note parts = leaf_split_parts [OF n(1) [unfolded nd] c(1) new(1), folded sib_def nd, folded sp_def, folded sk_def]
  have "64 \<le> GetItemCount (LeafNode m items)" using n(3) nd by (simp add: LEAF_NODE_SIZE_UPPER_THRESHOLD_def)
  then have "leaf_adjustment i new_id lm pb n = Inr (PostSplit sib sp)"
    using leaf_split_eq [OF n(1) [unfolded nd], of i new_id lm pb] nd by (simp add: sp_def sib_def c_def)
  note effect = leaf_split_effect(1) [OF this, of st]
  have high: "GetHighKeyPair sp = (sk, new_id)" by (simp add: sp_def sk_def LeafSplitNode_ctor_def meta_defs)
  have in_range: "key_in_range n (fst (items ! j))" if "j < length items" for j
    using n(1) nth_mem [OF that] by (auto simp: nd key_in_range_def meta_defs)
  have z: "0 < length items" using c by linarith
  then have "fst (items ! 0) < sk" using sorted_less_nth_mono [of "map fst items" 0 c] n(1) c nth_map [of 0 items fst] by (simp add: nd sk_def)
  moreover have k0: "key_in_range n (fst (items ! 0))" "key_in_range n sk" using in_range [OF z] in_range [OF c(1)] by (simp_all add: sk_def)
  ultimately have nin: "sk \<notin> fst ` set (inner_items p)" and lo: "lo_less lo sk"
    using split_key_is_new [OF p] p(2) lo_less_trans [of lo "fst (items ! 0)" sk] by (auto simp: child_link_def inner_range_def)
  have link: "below_high (inner_high p) sk" "same_bound (GetHighKeyPair n) (next_sep (inner_items p) (inner_high p) sk)"
    using p(2) k0(2) by (auto simp: child_link_def inner_range_def)
  obtain p' where p': "FinishPartialSMO_split (sk, new_id) (GetHighKeyPair n) p = Inr (False, Some p')" "inner_page_ok lo p'"
      "inner_items p' = insort_key fst (sk, new_id) (inner_items p)" "GetLowKeyNodeID p' = GetLowKeyNodeID p" "inner_high p' = inner_high p"
    using finish_split_eq [OF p(1), of "(sk, new_id)" "GetHighKeyPair n"] lo link nin new by auto
  note f = inner_facts [OF p(1)]
  have "NavigateInnerNode k p' = Inr (if key_in_range sp k then i else if key_in_range sib k then new_id
        else child_of (GetLowKeyNodeID p) (inner_items p) k)" if k: "inner_range lo p k" for k
  proof -
    have "inner_range lo p' k" using k p'(5) by (simp add: inner_range_def)
    then have nav: "NavigateInnerNode k p' = Inr (child_of (GetLowKeyNodeID p) (insort_key fst (sk, new_id) (inner_items p)) k)"
      using NavigateInnerNode_eq [OF p'(2)] p'(3,4) by simp
    have "below_high (GetHighKeyPair n) k \<longleftrightarrow> (\<forall>e \<in> set (inner_items p). sk < fst e \<longrightarrow> k < fst e)"
      using below_next_sep [OF f(1) _ link(2)] f(3) k by (auto simp: below_high_def inner_range_def)
    moreover have "key_in_range sib k \<longleftrightarrow> sk \<le> k \<and> below_high (GetHighKeyPair n) k"
      unfolding parts(7) using k0(2) by (auto simp: key_in_range_def above_low_def)
    moreover have "child_of (GetLowKeyNodeID p) (inner_items p) k = i" "\<not> sk \<le> k" if "key_in_range sp k"
      using that p(2) unfolding parts(6) by (auto simp: child_link_def)
    moreover have "child_of (GetLowKeyNodeID p) (insort_key fst (sk, new_id) (inner_items p)) k
        = (if key_in_range sib k then new_id else child_of (GetLowKeyNodeID p) (inner_items p) k)"
      using calculation(1,2) child_of_insort [OF f(1), of "(sk, new_id)" "GetLowKeyNodeID p" k] nin by auto
    ultimately show ?thesis by (auto simp: nav)
  qed
  then show ?thesis using effect p'(1,2) by (intro exI [of _ sib] exI [of _ sp] exI [of _ p']) (simp add: high)
qed

section \<open>Splitting inner pages\<close>

lemma inner_split_parts:
  fixes items :: "('k::linorder \<times> node_id) list"
  assumes ok: "inner_page_ok lo (InnerNode m items)" and s: "0 < s" "s < length items" and new: "new_id \<noteq> INVALID_NODE_ID"
    and ids: "\<forall>e \<in> set (drop (Suc s) items). snd e \<noteq> snd (items ! s)"
  defines "sib \<equiv> InnerNode (NodeMetaData_ctor (items ! s) (high_key_p m) 0 (int (length items - s))) (drop s items)"
  defines "sp \<equiv> InnerSplitNode_ctor (fst (items ! s), new_id) (InnerNode m items) sib"
  shows "inner_page_ok (Some (fst (items ! s))) sib" "inner_page_ok lo sp"
    "tl items = inner_items sp @ (fst (items ! s), GetLowKeyNodeID sib) # inner_items sib"
proof -
  obtain e es where items: "items = e # es" using ok by (cases items) auto
  define t where "t = s - 1"
  have t: "s = Suc t" "t < length es" using s items by (auto simp: t_def)
  have cut: "es = take t es @ es ! t # drop (Suc t) es" using t(2) by (simp add: id_take_nth_drop)
  have srt: "sorted_less (map fst (take t es @ es ! t # drop (Suc t) es))" using ok items cut by simp
  have lt: "\<forall>x \<in> set (take t es). fst x < fst (es ! t)" and gt: "\<forall>x \<in> set (drop (Suc t) es). fst (es ! t) < fst x"
    using srt by (auto simp: sorted_wrt_append)
  have es: "\<forall>x \<in> set es. lo_less lo (fst x) \<and> below_high (high_key_p m) (fst x) \<and> snd x \<noteq> INVALID_NODE_ID" using ok items by simp
  have at: "es ! t \<in> set es" using t(2) by simp
  have drop: "drop s items = es ! t # drop (Suc t) es" using t by (simp add: items Cons_nth_drop_Suc)
  have "filter (\<lambda>x. fst x < fst (es ! t)) (take t es) = take t es" "filter (\<lambda>x. fst x < fst (es ! t)) (drop (Suc t) es) = []"
    using lt gt by (auto simp: filter_id_conv filter_empty_conv dest: less_asym)
  then have filt: "filter (\<lambda>x. fst x < fst (es ! t)) es = take t es" by (subst cut) simp
  have sub: "x \<in> set es" if "x \<in> set (drop (Suc t) es)" for x using that by (rule in_set_dropD)
  have sib: "sib = InnerNode (NodeMetaData_ctor (es ! t) (high_key_p m) 0 (int (length es - t))) (es ! t # drop (Suc t) es)"
    unfolding sib_def drop using t by (simp add: items)
  have "\<forall>x \<in> set (drop (Suc t) es). snd x \<noteq> snd (es ! t)" using ids t by (simp add: items)
  then show "inner_page_ok (Some (fst (items ! s))) sib"
    using es at gt sub srt t by (auto simp: sib NodeMetaData_ctor_def to_short_small items sorted_wrt_append)
  show "inner_page_ok lo sp"
    using ok es at new filt t by (auto simp: sp_def sib InnerSplitNode_ctor_def NodeMetaData_ctor_def items)
  show "tl items = inner_items sp @ (fst (items ! s), GetLowKeyNodeID sib) # inner_items sib"
    using cut filt t by (simp add: sp_def sib InnerSplitNode_ctor_def items GetLowKeyNodeID_def NodeMetaData_ctor_def)
qed

text \<open>
  C19. A full inner page is split without losing a separator: when the entry of the page is unchanged, the mapping table
  holds the split record under the id of the page and the sibling under the new id; the sibling starts at the
  split key, both halves are well formed, and the separators of the page are those of the left half, the
  split key with the leftmost child of the sibling, and those of the sibling, in order. When another thread has
  changed the entry, it is left alone and the sibling goes to the garbage collector below a remove record. Only a child that
  is just being removed at the split key postpones the split.
\<close>

theorem inner_split_partitions_the_page:
  fixes items :: "('k::linorder \<times> node_id) list" and st :: "'k inner_smo_state"
  assumes "inner_page_ok lo (InnerNode m items)" "INNER_NODE_SIZE_UPPER_THRESHOLD \<le> length items" "distinct (map snd items)"
    and "new_id \<noteq> INVALID_NODE_ID" "new_id \<noteq> node_id" "\<not> is_removed (snd (items ! (length items div 2)))"
  shows "\<exists>sib sp. AdjustNodeSize_inner node_id new_id is_removed on_root lm pid pp (InnerNode m items) st
      = Inr (if inner_mapping_table st node_id = Some (InnerNode m items)
             then st\<lparr>inner_mapping_table := (inner_mapping_table st)(new_id \<mapsto> sib, node_id \<mapsto> sp), inner_abort_flag := True\<rparr>
             else st\<lparr>inner_mapping_table := (inner_mapping_table st)(new_id \<mapsto> sib),
                     inner_garbage := inner_garbage st @ [InnerRemoveNode_ctor new_id sib, sib]\<rparr>)
    \<and> inner_page_ok (Some (fst (inner_low sib))) sib \<and> inner_page_ok lo sp \<and> inner_high sp = (fst (inner_low sib), new_id)
    \<and> tl items = inner_items sp @ (fst (inner_low sib), GetLowKeyNodeID sib) # inner_items sib"
proof -
  define s where "s = length items div 2"
  have s: "0 < s" "s < length items" "2 \<le> length items" using assms(2) by (auto simp: s_def INNER_NODE_SIZE_UPPER_THRESHOLD_def)
  define sib where "sib = InnerNode (NodeMetaData_ctor (items ! s) (high_key_p m) 0 (int (length items - s))) (drop s items)"
  define sp where "sp = InnerSplitNode_ctor (fst (items ! s), new_id) (InnerNode m items) sib"
  have "distinct (map snd (drop s items))" using assms(3) by (metis distinct_drop drop_map)
  moreover have "drop s items = items ! s # drop (Suc s) items" using s(2) by (simp add: Cons_nth_drop_Suc)
  ultimately have "snd (items ! s) \<notin> snd ` set (drop (Suc s) items)" by simp
  then have "\<forall>e \<in> set (drop (Suc s) items). snd e \<noteq> snd (items ! s)" by (metis image_eqI)
  note parts = inner_split_parts [OF assms(1) s(1,2) assms(4) this, folded sib_def, folded sp_def]
  have low: "inner_low sib = items ! s" by (simp add: sib_def NodeMetaData_ctor_def)
  have "InnerNode_GetSplitSibling m items = Inr sib"
    using assms(1) s by (simp add: InnerNode_GetSplitSibling_def aget_def Let_def sib_def flip: s_def)
  moreover have "\<not> is_removed (GetLowKeyNodeID sib)" using assms(6) low by (simp add: GetLowKeyNodeID_def s_def)
  ultimately have "AdjustNodeSize_inner node_id new_id is_removed on_root lm pid pp (InnerNode m items) st
      = Inr (if inner_mapping_table st node_id = Some (InnerNode m items)
             then st\<lparr>inner_mapping_table := (inner_mapping_table st)(new_id \<mapsto> sib, node_id \<mapsto> sp), inner_abort_flag := True\<rparr>
             else st\<lparr>inner_mapping_table := (inner_mapping_table st)(new_id \<mapsto> sib),
                     inner_garbage := inner_garbage st @ [InnerRemoveNode_ctor new_id sib, sib]\<rparr>)"
    using assms(2,5) low by (simp add: AdjustNodeSize_inner_def inner_smo_defs sp_def)
  moreover have "inner_high sp = (fst (inner_low sib), new_id)" by (simp add: sp_def low InnerSplitNode_ctor_def NodeMetaData_ctor_def)
  ultimately show ?thesis using parts low by metis
qed

text \<open>
  A removal never leaves the parent blocked: whatever became of the removed page's own entry, the abort record is taken off
  again and handed to the garbage collector.
\<close>

lemma inner_removal_unblocks_parent:
  assumes "length items \<le> INNER_NODE_SIZE_LOWER_THRESHOLD" "\<not> on_root" "\<not> lm" "pid \<noteq> node_id" "inner_mapping_table st pid = Some pp"
  shows "\<exists>st'. AdjustNodeSize_inner node_id new_id is_removed on_root lm pid pp (InnerNode m items) st = Inr st'
    \<and> inner_mapping_table st' pid = Some pp \<and> inner_abort_flag st' \<and> inner_garbage st' = inner_garbage st @ [InnerAbortNode_ctor pp]
    \<and> inner_mapping_table st' node_id = (if inner_mapping_table st node_id = Some (InnerNode m items)
        then Some (InnerRemoveNode_ctor node_id (InnerNode m items)) else inner_mapping_table st node_id)"
  using assms
  by (auto simp: AdjustNodeSize_inner_def inner_smo_defs INNER_NODE_SIZE_LOWER_THRESHOLD_def INNER_NODE_SIZE_UPPER_THRESHOLD_def)

section \<open>The search of the backward iterator\<close>

lemma upper_bound_place:
  assumes "sorted_less (map fst es)"
  shows "upper_bound_loop (<) (map fst es) k 0 (length es) = length (takeWhile (\<lambda>e. fst e \<le> k) es)"
proof -
  let ?p = "upper_bound_loop (<) (map fst es) k 0 (length es)"
  have "\<forall>i. 0 + length es \<le> i \<and> i < length (map fst es) \<longrightarrow> k < map fst es ! i" by auto
  then have b: "0 \<le> ?p \<and> ?p \<le> length (map fst es) \<and> (\<forall>i. 0 \<le> i \<and> i < ?p \<longrightarrow> map fst es ! i \<le> k)
      \<and> (\<forall>i. ?p \<le> i \<and> i < length (map fst es) \<longrightarrow> k < map fst es ! i)"
    by (intro upper_bound_loop_bounds) (simp_all add: strict_sorted_imp_sorted [OF assms])
  then have p: "?p \<le> length es" "\<forall>i. ?p \<le> i \<and> i < length es \<longrightarrow> k < fst (es ! i)" by simp_all
  have "\<forall>i < ?p. fst (es ! i) \<le> k" using b p(1) by (metis length_map nth_map order.strict_trans2 zero_le)
  then have "takeWhile (\<lambda>e. fst e \<le> k) es = take ?p es" using p by (intro takeWhile_eq_take_P_nth) (auto simp: not_le)
  then show ?thesis using p(1) by simp
qed

lemma LocateSeparatorByKeyBI_eq:
  assumes "items = e0 # xs @ a # b # ys" "sorted_less (map fst (xs @ a # b # ys))"
  shows "LocateSeparatorByKeyBI (fst b) items = Inr (snd a)"
proof -
  have "\<forall>e \<in> set xs. fst e \<le> fst b" "fst a \<le> fst b" "\<forall>e \<in> set ys. fst b < fst e"
    using assms(2) by (auto simp: sorted_wrt_append less_imp_le)
  then have "takeWhile (\<lambda>e. fst e \<le> fst b) (xs @ a # b # ys) = xs @ [a, b]"
    by (cases ys) (auto simp: takeWhile_append)
  then have "upper_bound_loop (<) (map fst items) (fst b) 1 (length items - 1) = Suc (Suc (Suc (length xs)))"
    using upper_bound_place [OF assms(2), of "fst b"] upper_bound_loop_Suc [of "(<)" "fst e0" "map fst (xs @ a # b # ys)" "fst b" 0]
    by (simp add: assms(1))
  moreover have "items ! Suc (Suc (length xs)) = b" "items ! Suc (length xs) = a" "Suc (Suc (length xs)) < length items"
    by (simp_all add: assms(1) nth_append)
  ultimately show ?thesis by (simp add: LocateSeparatorByKeyBI_def InnerNode_UpperBound_def aget_def assms(1))
qed

text \<open>
  C38. The search of the backward iterator can go to a child that no longer exists: after a separator has been
  deleted and before the page is consolidated, a search for the key of the separator behind it passes the
  delete record, because it looks for keys strictly below the next separator only, and returns the id of the
  deleted child from the base node.
\<close>

theorem backward_search_returns_removed_child:
  assumes ok: "inner_page_ok lo (InnerDeleteNode m item prev_item next_item loc (InnerNode m' items))"
    and nx: "next_item \<in> set (tl items)"
  shows "NavigateInnerNodeBI (fst next_item) (InnerDeleteNode m item prev_item next_item loc (InnerNode m' items)) = Inr (snd item)
    \<and> item \<notin> set (inner_items (InnerDeleteNode m item prev_item next_item loc (InnerNode m' items)))"
proof -
  obtain e0 es where items: "items = e0 # es" using ok by (cases items) auto
  have srt: "sorted_less (map fst es)" and ids: "\<forall>e \<in> set es. snd e \<noteq> INVALID_NODE_ID \<and> below_high (high_key_p m') (fst e)" and it: "item \<in> set es"
    and sb: "same_bound next_item (next_sep es (high_key_p m') (fst item))"
    using ok by (auto simp: items)
  obtain xs ys where es: "es = xs @ item # ys" using it by (meson split_list)
  have gt: "\<forall>e \<in> set ys. fst item < fst e" and lt: "\<forall>e \<in> set xs. fst e < fst item" using srt by (auto simp: es sorted_wrt_append)
  have "dropWhile (\<lambda>e. fst e \<le> fst item) es = ys"
    using gt lt by (cases ys) (auto simp: es dropWhile_append less_imp_le)
  then have ns: "next_sep es (high_key_p m') (fst item) = (case ys of [] \<Rightarrow> high_key_p m' | e # _ \<Rightarrow> e)" by (simp add: next_sep_def)
  have nx': "next_item \<in> set es" using nx by (simp add: items)
  obtain b ys' where b: "ys = b # ys'" "fst b = fst next_item"
    using sb ids nx' unfolding ns by (cases ys) (auto simp: same_bound_def below_high_def)
  have "LocateSeparatorByKeyBI (fst b) items = Inr (snd item)"
    using LocateSeparatorByKeyBI_eq [of items e0 xs item b ys'] srt by (simp add: items es b(1))
  then show ?thesis using nx' ids b(2) by simp
qed

section \<open>Witnesses\<close>

text \<open>A page with three separators of which the second has been deleted, and a parent with one child.\<close>

definition example_inner :: "nat inner_page" where
  "example_inner = InnerDeleteNode_ctor (200, 12) (100, 11) (300, 13)
     (InnerNode (NodeMetaData_ctor (0, 10) (0, INVALID_NODE_ID) 0 4) [(0, 10), (100, 11), (200, 12), (300, 13)]) 2"

definition example_parent :: "nat inner_page" where
  "example_parent = InnerNode (NodeMetaData_ctor (0, 2) (0, INVALID_NODE_ID) 0 1) [(0, 2)]"

lemma example_inner_ok: "inner_page_ok None example_inner" "inner_page_ok None example_parent"
  by code_simp+

theorem inner_search_routes_witness: "NavigateInnerNode 250 example_inner = Inr 11"
proof -
  have "inner_range None example_inner 250" "child_of (GetLowKeyNodeID example_inner) (inner_items example_inner) 250 = 11" by code_simp+
  then show ?thesis using inner_search_routes [OF example_inner_ok(1)] by metis
qed

theorem backward_search_returns_removed_child_witness: "NavigateInnerNodeBI 300 example_inner = Inr 12"
  using backward_search_returns_removed_child [OF example_inner_ok(1) [unfolded example_inner_def InnerDeleteNode_ctor_def]]
  by (simp add: example_inner_def InnerDeleteNode_ctor_def)

theorem leaf_split_is_routed_witness:
  "\<exists>sib sp p'. AdjustNodeSize_leaf 2 3 False True True example_full_page example_smo
        = Inr (example_smo\<lparr>smo_mapping_table := (smo_mapping_table example_smo)(3 \<mapsto> sib, 2 \<mapsto> sp), smo_abort_flag := True\<rparr>)
     \<and> FinishPartialSMO_split (GetHighKeyPair sp) (GetHighKeyPair example_full_page) example_parent = Inr (False, Some p')
     \<and> NavigateInnerNode 40 p' = Inr (if key_in_range sp 40 then 2 else if key_in_range sib 40 then 3 else 2)"
proof -
  have link: "child_link None example_parent 2 example_full_page"
    by (simp add: child_link_def example_parent_def inner_range_def below_high_def same_bound_def next_sep_def GetLowKeyNodeID_def
        example_full_page_def meta_defs)
  have new: "(3 :: node_id) \<noteq> GetLowKeyNodeID example_parent" by code_simp
  have "inner_range None example_parent 40" "child_of (GetLowKeyNodeID example_parent) (inner_items example_parent) 40 = 2" by code_simp+
  then show ?thesis
    using leaf_split_is_routed [OF example_full_page_ok(1-3) example_inner_ok(2) link example_full_page_ok(4) new, of False True example_smo]
    by metis
qed

definition example_full_inner :: "nat key_node_id_pair list" where
  "example_full_inner = map (\<lambda>i. (10 * i, of_nat (i + 5))) [0..<64]"

lemma example_ids: "i < 64 \<Longrightarrow> j < 64 \<Longrightarrow> (of_nat (i + 5) :: node_id) = of_nat (j + 5) \<longleftrightarrow> i = j"
  by (simp add: word_of_nat_eq_iff take_bit_nat_eq_self del: of_nat_add)

lemma example_full_inner_distinct: "distinct (map snd example_full_inner)"
  by (simp add: example_full_inner_def distinct_map inj_on_def example_ids comp_def del: of_nat_add upt_rec_numeral)

definition example_full_node :: "nat inner_page" where
  "example_full_node = InnerNode (NodeMetaData_ctor (0, 5) (0, INVALID_NODE_ID) 0 64) example_full_inner"

theorem inner_split_partitions_the_page_witness:
  "\<exists>sib sp st'. AdjustNodeSize_inner 2 3 (\<lambda>_. False) False False 1 example_parent example_full_node
       \<lparr>inner_mapping_table = [2 \<mapsto> example_full_node], inner_garbage = [], inner_abort_flag = False\<rparr> = Inr st'
     \<and> inner_mapping_table st' 2 = Some sp \<and> inner_mapping_table st' 3 = Some sib \<and> inner_page_ok None sp"
proof -
  have a: "inner_page_ok None (InnerNode (NodeMetaData_ctor (0, 5) (0, INVALID_NODE_ID) 0 64) example_full_inner)" by code_simp
  have b: "INNER_NODE_SIZE_UPPER_THRESHOLD \<le> length example_full_inner" by code_simp
  have d: "(3 :: node_id) \<noteq> INVALID_NODE_ID" "(3 :: node_id) \<noteq> 2" by code_simp+
  show ?thesis
    using inner_split_partitions_the_page [OF a b example_full_inner_distinct d, of "\<lambda>_. False" False False 1 example_parent
        "\<lparr>inner_mapping_table = [2 \<mapsto> example_full_node], inner_garbage = [], inner_abort_flag = False\<rparr>"]
    unfolding example_full_node_def by auto
qed

end
