(* ===== verification/Latched_Race.thy ===== *)
theory Latched_Race
  imports BLink_Fill
begin

text \<open>
  Two insertions into the latched tree that overlap (\<^verbatim>\<open>src/src/indices/blinktree/thread/latched/thread_tree.cpp\<close>). The first
  statement of \<^verbatim>\<open>locate_leaf\<close> reads the root without a latch, and the last part of \<^verbatim>\<open>insert\<close> puts a new root above
  whatever is the root then. When the tree has grown in between, the node that was split is no longer
  at the level of the root.
\<close>

section \<open>An insertion that read the root earlier\<close>



section \<open>The trees of a run\<close>

























section \<open>What the consistency checker reports\<close>










end
