(* ===== verification/Masstree_Key.thy ===== *)
theory Masstree_Key
  imports Prelude
begin

text \<open>
  The keys of Masstree: \<^verbatim>\<open>string_slice\<close> (\<^verbatim>\<open>src/src/indices/mass_tree/thread/string_slice.hh\<close>) turns the
  next eight bytes of a string into a 64-bit integer that compares like the bytes, and \<^verbatim>\<open>key\<close>
  (\<^verbatim>\<open>masstree_key.hh\<close>) is a cursor over a string, slice by slice; the comparison routines of the nodes
  combine a slice with a length. Memory is a function from addresses to bytes, so that the sloppy
  accesses can read outside the string; the machine is little endian and allows unaligned accesses, as
  \<^verbatim>\<open>config.h\<close> says.

  The theory shows that the comparison of two keys in one layer is the lexicographic order of their
  strings as far as the layer can tell, that shifting a key is a fresh key of its suffix and can be undone, and
  that unparsing returns the string.
\<close>

section \<open>Bytes and words\<close>

type_synonym byte = "8 word"
type_synonym memory = "int \<Rightarrow> byte"

definition chars :: "memory \<Rightarrow> int \<Rightarrow> nat \<Rightarrow> byte list" where
  "chars mem s n = map (\<lambda>i. mem (s + int i)) [0..<n]"

fun le_nat :: "byte list \<Rightarrow> nat" where
  "le_nat [] = 0"
| "le_nat (b # bs) = unat b + 256 * le_nat bs"

text \<open>The two members of the union of an integer and an array of characters.\<close>

definition le_word :: "byte list \<Rightarrow> 64 word" where
  "le_word bs = of_nat (le_nat bs)"

definition bytes_of :: "64 word \<Rightarrow> byte list" where
  "bytes_of w = map (\<lambda>i. of_nat (unat w div 256 ^ i)) [0..<8]"

definition load64 :: "memory \<Rightarrow> int \<Rightarrow> 64 word" where
  "load64 mem a = le_word (chars mem a 8)"

text \<open>\<^verbatim>\<open>ntohq\<close> and \<^verbatim>\<open>htonq\<close> are the instruction \<^verbatim>\<open>bswapq\<close>.\<close>

definition ntohq :: "64 word \<Rightarrow> 64 word" where
  "ntohq w = le_word (rev (bytes_of w))"

definition net_to_host_order :: "64 word \<Rightarrow> 64 word" where
  "net_to_host_order w = ntohq w"

definition host_to_net_order :: "64 word \<Rightarrow> 64 word" where
  "host_to_net_order w = ntohq w"

section \<open>string\_slice\<close>

definition slice_size :: int where
  "slice_size = 8"

definition slice_make :: "memory \<Rightarrow> int \<Rightarrow> int \<Rightarrow> 64 word" where
  "slice_make mem s len =
     (if len \<le> 0 then 0
      else if len \<ge> slice_size then load64 mem s
      else le_word (chars mem s (nat len) @ replicate (nat (slice_size - len)) 0))"

definition make_comparable :: "memory \<Rightarrow> int \<Rightarrow> int \<Rightarrow> 64 word" where
  "make_comparable mem s len = net_to_host_order (slice_make mem s len)"

definition make_sloppy :: "memory \<Rightarrow> int \<Rightarrow> int \<Rightarrow> 64 word" where
  "make_sloppy mem s len =
     (if len \<le> 0 then 0
      else if len \<ge> slice_size then load64 mem s
      else drop_bit (nat (8 * (slice_size - len))) (load64 mem (s - (slice_size - len))))"

definition make_comparable_sloppy :: "memory \<Rightarrow> int \<Rightarrow> int \<Rightarrow> 64 word" where
  "make_comparable_sloppy mem s len = net_to_host_order (make_sloppy mem s len)"

text \<open>Both overloads return the bytes they have written; the first one drops trailing null bytes.\<close>

definition unparse_comparable :: "int \<Rightarrow> 64 word \<Rightarrow> byte list" where
  "unparse_comparable buflen val =
     (let u = bytes_of (host_to_net_order val);
          l = length (dropWhile (\<lambda>b. b = 0) (rev u))
      in take (nat (min (int l) buflen)) u)"

definition unparse_comparable_len :: "int \<Rightarrow> 64 word \<Rightarrow> int \<Rightarrow> byte list" where
  "unparse_comparable_len buflen val len =
     (let u = bytes_of (host_to_net_order val); l = min (min len slice_size) buflen in take (nat l) u)"

unbundle bit_operations_syntax

definition equals_sloppy :: "memory \<Rightarrow> int \<Rightarrow> int \<Rightarrow> int \<Rightarrow> bool" where
  "equals_sloppy mem a b len =
     (if len \<le> slice_size
      then let delta = load64 mem a XOR load64 mem b
           in if len \<le> 0 then True else push_bit (nat (8 * (slice_size - len))) delta = 0
      else chars mem a (nat len) = chars mem b (nat len))"

section \<open>key\<close>

record masstree_key =
  ikey0 :: "64 word"
  key_len :: int
  key_s :: int
  key_first :: int

definition ikey_size :: int where
  "ikey_size = 8"

definition key_ctor :: "memory \<Rightarrow> int \<Rightarrow> int \<Rightarrow> masstree_key" where
  "key_ctor mem s len = \<lparr>ikey0 = make_comparable mem s len, key_len = len, key_s = s, key_first = s\<rparr>"

definition ctz :: "64 word \<Rightarrow> nat" where
  "ctz w = length (takeWhile (\<lambda>i. \<not> bit w i) [0..<64])"

definition key_of_ikey :: "64 word \<Rightarrow> masstree_key" where
  "key_of_ikey ikey = \<lparr>ikey0 = ikey, key_len = (if ikey \<noteq> 0 then ikey_size - int (ctz ikey) div 8 else 0), key_s = 0, key_first = 0\<rparr>"

definition key_of_ikey_len :: "64 word \<Rightarrow> int \<Rightarrow> masstree_key" where
  "key_of_ikey_len ikey len = \<lparr>ikey0 = ikey, key_len = min len ikey_size, key_s = 0, key_first = 0\<rparr>"

definition key_of_suffix :: "64 word \<Rightarrow> int \<times> int \<Rightarrow> masstree_key" where
  "key_of_suffix ikey suf = \<lparr>ikey0 = ikey, key_len = ikey_size + snd suf, key_s = fst suf - ikey_size, key_first = fst suf - ikey_size\<rparr>"

definition key_empty :: "masstree_key \<Rightarrow> bool" where
  "key_empty k \<longleftrightarrow> ikey0 k = 0 \<and> key_len k = 0"

definition key_ikeylen :: "masstree_key \<Rightarrow> int" where
  "key_ikeylen k = min (key_len k) (ikey_size + 1)"

definition has_suffix :: "masstree_key \<Rightarrow> bool" where
  "has_suffix k \<longleftrightarrow> key_len k > ikey_size"

definition key_suffix :: "masstree_key \<Rightarrow> int \<times> int" where
  "key_suffix k = (key_s k + ikey_size, key_len k - ikey_size)"

definition suffix_length :: "masstree_key \<Rightarrow> int" where
  "suffix_length k = key_len k - ikey_size"

definition key_shift :: "memory \<Rightarrow> masstree_key \<Rightarrow> masstree_key" where
  "key_shift mem k =
     (let s = key_s k + ikey_size; len = key_len k - ikey_size
      in k\<lparr>key_s := s, key_len := len, ikey0 := make_comparable_sloppy mem s len\<rparr>)"

definition is_shifted :: "masstree_key \<Rightarrow> bool" where
  "is_shifted k \<longleftrightarrow> key_first k \<noteq> key_s k"

definition unshift_all :: "memory \<Rightarrow> masstree_key \<Rightarrow> masstree_key" where
  "unshift_all mem k =
     (if key_s k \<noteq> key_first k
      then let len = key_len k + (key_s k - key_first k); s = key_first k
           in k\<lparr>key_len := len, key_s := s, ikey0 := make_comparable mem s len\<rparr>
      else k)"

definition compare_words :: "64 word \<Rightarrow> 64 word \<Rightarrow> int" where
  "compare_words a b = (if a = b then 0 else if a < b then -1 else 1)"

definition key_compare_to :: "masstree_key \<Rightarrow> 64 word \<Rightarrow> int \<Rightarrow> int" where
  "key_compare_to k ikey keylenx =
     (let cmp = compare_words (ikey0 k) ikey
      in if cmp = 0
         then let al = key_len k
              in if al > ikey_size then of_bool (keylenx \<le> ikey_size) else al - keylenx
         else cmp)"

definition compare_ikey :: "masstree_key \<Rightarrow> 64 word \<Rightarrow> int" where
  "compare_ikey k ikey = compare_words (ikey0 k) ikey"

definition compare_len :: "masstree_key \<Rightarrow> int \<Rightarrow> int" where
  "compare_len k keylenx =
     (let al = key_len k in if al > ikey_size then of_bool (keylenx \<le> ikey_size) else al - keylenx)"

definition key_unparse_to :: "memory \<Rightarrow> masstree_key \<Rightarrow> int \<Rightarrow> byte list" where
  "key_unparse_to mem k datalen =
     (let cplen = min (key_len k) datalen; front = unparse_comparable_len cplen (ikey0 k) ikey_size
      in if cplen > ikey_size then front @ chars mem (key_s k + ikey_size) (nat (cplen - ikey_size)) else front)"

definition key_unparse :: "memory \<Rightarrow> masstree_key \<Rightarrow> byte list" where
  "key_unparse mem k = key_unparse_to mem k (key_len k)"

definition unparse_ikey :: "memory \<Rightarrow> 64 word \<Rightarrow> byte list" where
  "unparse_ikey mem ikey = key_unparse mem (key_of_ikey ikey)"

definition prefix_string :: "memory \<Rightarrow> masstree_key \<Rightarrow> byte list" where
  "prefix_string mem k = chars mem (key_first k) (nat (key_s k - key_first k))"

definition prefix_length :: "masstree_key \<Rightarrow> int" where
  "prefix_length k = key_s k - key_first k"

definition full_string :: "memory \<Rightarrow> masstree_key \<Rightarrow> byte list" where
  "full_string mem k = chars mem (key_first k) (nat (key_s k + key_len k - key_first k))"

definition key_increment :: "masstree_key \<Rightarrow> bool \<times> masstree_key" where
  "key_increment k =
     (if has_suffix k then let ikey = ikey0 k + 1 in (ikey = 0, k\<lparr>ikey0 := ikey, key_len := 1\<rparr>)
      else (False, k\<lparr>key_len := key_len k + 1\<rparr>))"

definition store_bytes :: "memory \<Rightarrow> int \<Rightarrow> byte list \<Rightarrow> memory" where
  "store_bytes mem a bs x = (if a \<le> x \<and> x < a + int (length bs) then bs ! nat (x - a) else mem x)"

definition assign_store_ikey :: "memory \<Rightarrow> masstree_key \<Rightarrow> 64 word \<Rightarrow> memory \<times> masstree_key" where
  "assign_store_ikey mem k ikey = (store_bytes mem (key_s k) (bytes_of (host_to_net_order ikey)), k\<lparr>ikey0 := ikey\<rparr>)"

definition assign_store_suffix :: "memory \<Rightarrow> masstree_key \<Rightarrow> int \<times> int \<Rightarrow> memory \<times> int" where
  "assign_store_suffix mem k s =
     (store_bytes mem (key_s k + ikey_size) (chars mem (fst s) (nat (snd s))), ikey_size + snd s)"

definition assign_store_length :: "masstree_key \<Rightarrow> int \<Rightarrow> masstree_key" where
  "assign_store_length k len = k\<lparr>key_len := len\<rparr>"

text \<open>The precondition of \<^verbatim>\<open>unshift\<close> is checked in builds with assertions.\<close>

definition key_unshift :: "memory \<Rightarrow> masstree_key \<Rightarrow> masstree_key result" where
  "key_unshift mem k =
     (if \<not> is_shifted k then Inl AssertionFailed
      else let s = key_s k - ikey_size
           in Inr (k\<lparr>key_s := s, ikey0 := make_comparable_sloppy mem s ikey_size, key_len := ikey_size + 1\<rparr>))"

definition shift_clear :: "masstree_key \<Rightarrow> masstree_key" where
  "shift_clear k = k\<lparr>ikey0 := 0, key_len := 0, key_s := key_s k + ikey_size\<rparr>"

definition shift_clear_reverse :: "masstree_key \<Rightarrow> masstree_key" where
  "shift_clear_reverse k = k\<lparr>ikey0 := NOT 0, key_len := ikey_size + 1, key_s := key_s k + ikey_size\<rparr>"

text \<open>
  The comparisons of a key with the entry of a node: \<open>ikey\<close> and \<open>keylenx\<close> are the slice and the
  length the node stores at the position.
\<close>

definition key_compare_massnode :: "masstree_key \<Rightarrow> 64 word \<Rightarrow> int \<Rightarrow> int" where
  "key_compare_massnode a ikey keylenx =
     (let cmp = compare_ikey a ikey in if cmp = 0 then compare_len a keylenx else cmp)"

definition key_compare_multivalue :: "masstree_key \<Rightarrow> 64 word \<Rightarrow> int \<Rightarrow> int" where
  "key_compare_multivalue a ikey keylenx = (let cmp = compare_ikey a ikey; _ = compare_len a keylenx in cmp)"

definition key_compare_dynamicvalue :: "masstree_key \<Rightarrow> 64 word \<Rightarrow> int \<Rightarrow> int" where
  "key_compare_dynamicvalue a ikey keylenx = (let cmp = compare_ikey a ikey; _ = compare_len a keylenx in cmp)"

definition key_compare_internode :: "masstree_key \<Rightarrow> 64 word \<Rightarrow> int" where
  "key_compare_internode a ikey = compare_words (ikey0 a) ikey"

definition key_compare_ikey_internode :: "64 word \<Rightarrow> 64 word \<Rightarrow> int" where
  "key_compare_ikey_internode a ikey = compare_words a ikey"

definition key_compare_leaf :: "masstree_key \<Rightarrow> 64 word \<Rightarrow> int \<Rightarrow> int" where
  "key_compare_leaf a ikey keylenx = key_compare_to a ikey keylenx"

definition key_compare_keys :: "masstree_key \<Rightarrow> masstree_key \<Rightarrow> int" where
  "key_compare_keys a b = key_compare_to a (ikey0 b) (key_len b)"

section \<open>Bytes of a word\<close>

lemma length_chars [simp]: "length (chars mem s n) = n"
  by (simp add: chars_def)

lemma nth_chars [simp]: "i < n \<Longrightarrow> chars mem s n ! i = mem (s + int i)"
  by (simp add: chars_def)

lemma chars_append: "chars mem s (m + n) = chars mem s m @ chars mem (s + int m) n"
  by (rule nth_equalityI) (auto simp: nth_append of_nat_diff)

lemma take_chars: "take m (chars mem s n) = chars mem s (min m n)"
  by (rule nth_equalityI) auto

lemma unat_byte: "unat (b :: byte) < 256"
proof -
  have "unat b < 2 ^ LENGTH(8)" by (rule unsigned_less)
  then show ?thesis by simp
qed

lemma le_nat_less: "le_nat bs < 256 ^ length bs"
proof (induction bs)
  case (Cons b bs)
  then have "le_nat bs + 1 \<le> 256 ^ length bs" by simp
  then have "256 * le_nat bs + 256 \<le> 256 * 256 ^ length bs" by linarith
  then show ?case using unat_byte [of b] by simp
qed simp

lemma le_nat_append: "le_nat (xs @ ys) = le_nat xs + 256 ^ length xs * le_nat ys"
  by (induction xs) (simp_all add: algebra_simps)

lemma le_nat_zeros [simp]: "le_nat (replicate n 0) = 0"
  by (induction n) simp_all

lemma le_nat_digit: "i < length bs \<Longrightarrow> le_nat bs div 256 ^ i mod 256 = unat (bs ! i)"
proof (induction bs arbitrary: i)
  case (Cons b bs)
  show ?case
  proof (cases i)
    case 0
    then show ?thesis using unat_byte [of b] by simp
  next
    case (Suc j)
    have "(unat b + 256 * le_nat bs) div 256 = le_nat bs" using unat_byte [of b] by simp
    then show ?thesis using Suc Cons by (simp add: div_mult2_eq)
  qed
qed simp

lemma unat_le_word: "length bs = 8 \<Longrightarrow> unat (le_word bs) = le_nat bs"
  using le_nat_less [of bs] by (simp add: le_word_def unat_of_nat)

lemma length_bytes_of [simp]: "length (bytes_of w) = 8"
  by (simp add: bytes_of_def)

lemma bytes_of_le_word: "length bs = 8 \<Longrightarrow> bytes_of (le_word bs) = bs"
proof (rule nth_equalityI)
  fix i
  assume len: "length bs = 8" and "i < length (bytes_of (le_word bs))"
  then have i: "i < 8" by simp
  have "unat (of_nat (le_nat bs div 256 ^ i) :: byte) = unat (bs ! i)"
    using le_nat_digit [of i bs] i len by (simp add: unat_of_nat)
  then have "(of_nat (le_nat bs div 256 ^ i) :: byte) = bs ! i" by (simp only: word_unat_eq_iff)
  then show "bytes_of (le_word bs) ! i = bs ! i" using i len by (simp add: bytes_of_def unat_le_word)
qed simp

lemma le_nat_digits: "le_nat (map (\<lambda>i. of_nat (n div 256 ^ i)) [0..<m]) = n mod 256 ^ m"
proof (induction m)
  case (Suc m)
  have "le_nat (map (\<lambda>i. of_nat (n div 256 ^ i)) [0..<Suc m]) = n mod 256 ^ m + 256 ^ m * (n div 256 ^ m mod 256)"
    using Suc by (simp add: le_nat_append unat_of_nat)
  also have "\<dots> = n mod (256 ^ m * 256)" by (simp only: mod_mult2_eq add.commute)
  finally show ?case by (simp only: power_Suc mult.commute)
qed simp

lemma le_word_bytes_of [simp]: "le_word (bytes_of w) = w"
proof -
  have "unat w < 2 ^ LENGTH(64)" by (rule unsigned_less)
  then have "unat w < 256 ^ 8" by simp
  then show ?thesis using le_nat_digits [of "unat w" 8] by (simp add: le_word_def bytes_of_def)
qed

lemma ntohq_ntohq [simp]: "ntohq (ntohq w) = w"
  by (simp add: ntohq_def bytes_of_le_word)

section \<open>Slices compare like their bytes\<close>

text \<open>The bytes a slice keeps of a string: the first eight, filled up with null bytes.\<close>

fun pad :: "nat \<Rightarrow> byte list \<Rightarrow> byte list" where
  "pad 0 str = []"
| "pad (Suc n) [] = 0 # pad n []"
| "pad (Suc n) (b # bs) = b # pad n bs"

definition pad8 :: "byte list \<Rightarrow> byte list" where
  "pad8 str = take 8 (str @ replicate 8 0)"

lemma pad_eq: "pad n str = take n (str @ replicate n 0)"
  by (induction n str rule: pad.induct) (simp_all add: min_def flip: replicate_Suc)

lemma pad8_eq: "pad8 str = pad 8 str"
  by (simp only: pad8_def pad_eq)

definition be_nat :: "byte list \<Rightarrow> nat" where
  "be_nat bs = le_nat (rev bs)"

lemma length_pad8 [simp]: "length (pad8 str) = 8"
  by (simp add: pad8_def)

lemma be_nat_simps [simp]: "be_nat [] = 0" "be_nat (b # bs) = unat b * 256 ^ length bs + be_nat bs"
  by (simp_all add: be_nat_def le_nat_append)

lemma be_nat_less: "be_nat bs < 256 ^ length bs"
  using le_nat_less [of "rev bs"] by (simp add: be_nat_def)

lemma slice_make_eq: "slice_make mem s (int n) = le_word (pad8 (chars mem s n))"
proof (cases "n < 8")
  case True
  then have "nat (slice_size - int n) = 8 - n" by (simp add: slice_size_def nat_diff_distrib')
  then show ?thesis using True
    by (cases "n = 0") (simp_all add: slice_make_def slice_size_def pad8_def le_word_def chars_def)
next
  case False
  then show ?thesis by (simp add: slice_make_def slice_size_def pad8_def load64_def take_chars)
qed

lemma make_comparable_eq: "make_comparable mem s (int n) = le_word (rev (pad8 (chars mem s n)))"
  by (simp add: make_comparable_def net_to_host_order_def ntohq_def slice_make_eq bytes_of_le_word)

lemma unat_make_comparable: "unat (make_comparable mem s (int n)) = be_nat (pad8 (chars mem s n))"
  by (simp add: make_comparable_eq unat_le_word be_nat_def)

lemma place_value_less:
  assumes "x < y" "a < m"
  shows "(x :: nat) * m + a < y * m + b"
proof -
  have "Suc x * m \<le> y * m" using assms(1) by (intro mult_right_mono) simp_all
  then show ?thesis using assms(2) by simp
qed

lemma be_nat_less_iff: "length xs = length ys \<Longrightarrow> be_nat xs < be_nat ys \<longleftrightarrow> ord_class.lexordp xs ys"
proof (induction xs ys rule: list_induct2)
  case (Cons x xs y ys)
  show ?case
  proof (cases "unat x" "unat y" rule: linorder_cases)
    case less
    then have "be_nat (x # xs) < be_nat (y # ys)"
      using place_value_less [OF less be_nat_less [of xs]] Cons by simp
    then show ?thesis using less by (simp add: word_less_nat_alt)
  next
    case equal
    then have "x = y" by (simp add: word_unat_eq_iff)
    then show ?thesis using Cons by simp
  next
    case greater
    then have "be_nat (y # ys) < be_nat (x # xs)"
      using place_value_less [OF greater be_nat_less [of ys]] Cons by simp
    then show ?thesis using greater by (simp add: word_less_nat_alt)
  qed
qed simp

lemma make_comparable_less_iff:
  "make_comparable mem s (int m) < make_comparable mem' t (int n) \<longleftrightarrow> ord_class.lexordp (pad8 (chars mem s m)) (pad8 (chars mem' t n))"
  by (simp add: word_less_nat_alt unat_make_comparable be_nat_less_iff)

lemma make_comparable_eq_iff:
  "make_comparable mem s (int m) = make_comparable mem' t (int n) \<longleftrightarrow> pad8 (chars mem s m) = pad8 (chars mem' t n)"
proof -
  have "le_word (rev xs) = le_word (rev ys) \<longleftrightarrow> xs = ys" if "length xs = 8" "length ys = 8" for xs ys
    using that bytes_of_le_word [of "rev xs"] bytes_of_le_word [of "rev ys"] by (metis length_rev rev_rev_ident)
  then show ?thesis by (simp add: make_comparable_eq)
qed

section \<open>Comparing keys\<close>

lemma lexordp_pad: "ord_class.lexordp (pad n a) (pad n b) \<Longrightarrow> ord_class.lexordp a b"
proof (induction n arbitrary: a b)
  case (Suc n)
  from Suc.prems show ?case by (cases a; cases b) (auto dest: Suc.IH)
qed simp

lemma lexordp_of_pad_eq:
  "pad n a = pad n b \<Longrightarrow> length a \<le> n \<or> length b \<le> n \<Longrightarrow> ord_class.lexordp a b \<longleftrightarrow> length a < length b"
proof (induction n arbitrary: a b)
  case 0
  then show ?case by (cases a; cases b) auto
next
  case (Suc n)
  then show ?case by (cases a; cases b) auto
qed

lemma pad_eq_length: "pad n a = pad n b \<Longrightarrow> length a \<le> n \<Longrightarrow> length a = length b \<Longrightarrow> a = b"
  by (simp add: pad_eq)

lemma pad_long: "n \<le> length a \<Longrightarrow> pad n a = take n a"
  by (simp add: pad_eq)

lemma compare_words_simps:
  "compare_words a b = 0 \<longleftrightarrow> a = b" "compare_words a b < 0 \<longleftrightarrow> a < b" "0 < compare_words a b \<longleftrightarrow> b < a"
  by (auto simp: compare_words_def)


lemma key_compare_split:
  assumes "a = chars mem s m" and "b = chars mem t n" and "c = key_compare_keys (key_ctor mem s (int m)) (key_ctor mem t (int n))"
  shows "pad 8 a \<noteq> pad 8 b \<Longrightarrow> (c < 0 \<longleftrightarrow> ord_class.lexordp (pad 8 a) (pad 8 b)) \<and> c \<noteq> 0"
    and "pad 8 a = pad 8 b \<Longrightarrow> c = (if 8 < m then of_bool (n \<le> 8) else int m - int n)"
  using assms
  by (auto simp: key_compare_keys_def key_compare_to_def key_ctor_def Let_def compare_words_simps make_comparable_less_iff
      make_comparable_eq_iff ikey_size_def pad8_eq)

text \<open>
  C27. The comparison of two keys is the lexicographic order of their strings, as far as one layer of the
  tree can tell: two strings of more than eight bytes with the same first eight bytes compare equal, and
  in every other case the sign of the result tells which of the two strings comes first and whether they
  are equal. Null bytes at the end of a string, which the slices cannot tell from padding, are told apart
  by the lengths.
\<close>

theorem key_compare_is_lexicographic:
  "let a = chars mem s m; b = chars mem t n; c = key_compare_keys (key_ctor mem s (int m)) (key_ctor mem t (int n))
   in if 8 < m \<and> 8 < n \<and> take 8 a = take 8 b then c = 0
      else (c < 0 \<longleftrightarrow> ord_class.lexordp a b) \<and> (c = 0 \<longleftrightarrow> a = b) \<and> (0 < c \<longleftrightarrow> ord_class.lexordp b a)"
proof -
  define a b where ab: "a = chars mem s m" "b = chars mem t n"
  define c where c: "c = key_compare_keys (key_ctor mem s (int m)) (key_ctor mem t (int n))"
  have len: "length a = m" "length b = n" by (simp_all add: ab)
  have "if 8 < m \<and> 8 < n \<and> take 8 a = take 8 b then c = 0
      else (c < 0 \<longleftrightarrow> ord_class.lexordp a b) \<and> (c = 0 \<longleftrightarrow> a = b) \<and> (0 < c \<longleftrightarrow> ord_class.lexordp b a)"
  proof (cases "pad 8 a = pad 8 b")
    case True
    show ?thesis
      using key_compare_split(2) [OF ab c True] len pad_long [of 8 a] pad_long [of 8 b] True pad_eq_length [OF True]
        lexordp_of_pad_eq [OF True] lexordp_of_pad_eq [OF True [symmetric]]
      by (auto split: if_splits)
  next
    case False
    have lin: "ord_class.lexordp (pad 8 a) (pad 8 b) \<noteq> ord_class.lexordp (pad 8 b) (pad 8 a)"
      using False lexordp_linear [of "pad 8 a" "pad 8 b"] lexordp_antisym by blast
    show ?thesis
      using key_compare_split(1) [OF ab c False] False lin lexordp_pad [of 8 a b] lexordp_pad [of 8 b a]
        lexordp_antisym [of a b] lexordp_irreflexive' [of a] len pad_long [of 8 a] pad_long [of 8 b]
      by (smt (verit) less_imp_le)
  qed
  then show ?thesis by (simp only: ab c Let_def)
qed

section \<open>Sloppy accesses\<close>

lemma load64_parts: "n \<le> 8 \<Longrightarrow> unat (load64 mem a) = le_nat (chars mem a n) + 256 ^ n * le_nat (chars mem (a + int n) (8 - n))"
  using chars_append [of mem a n "8 - n"] by (simp add: load64_def unat_le_word le_nat_append)

lemma make_sloppy_eq: "make_sloppy mem s len = slice_make mem s len"
proof (cases "0 < len \<and> len < 8")
  case True
  define n where "n = nat len"
  then have n: "len = int n" "n < 8" "nat (slice_size - len) = 8 - n" "nat (8 * (slice_size - len)) = 8 * (8 - n)"
    using True by (simp_all add: slice_size_def nat_diff_distrib' nat_mult_distrib nat_less_iff)
  have "drop_bit (8 * (8 - n)) (unat (load64 mem (s - (slice_size - len)))) = le_nat (chars mem s n)"
    using n load64_parts [of "8 - n" mem "s - (slice_size - len)"] le_nat_less [of "chars mem (s - (slice_size - len)) (8 - n)"]
    by (simp add: drop_bit_eq_div power_mult slice_size_def of_nat_diff)
  then have "unat (drop_bit (8 * (8 - n)) (load64 mem (s - (slice_size - len)))) = le_nat (chars mem s n)"
    by (simp only: unat_drop_bit_eq)
  moreover have "unat (slice_make mem s len) = le_nat (chars mem s n)"
    using n by (simp add: slice_make_eq unat_le_word pad8_def le_nat_append)
  ultimately have "drop_bit (8 * (8 - n)) (load64 mem (s - (slice_size - len))) = slice_make mem s len"
    by (simp only: word_unat_eq_iff)
  then show ?thesis using True n by (simp add: make_sloppy_def slice_size_def)
next
  case False
  then show ?thesis by (auto simp: make_sloppy_def slice_make_def slice_size_def)
qed

lemma le_nat_inject: "length xs = length ys \<Longrightarrow> le_nat xs = le_nat ys \<Longrightarrow> xs = ys"
  by (rule nth_equalityI) (auto simp: word_unat_eq_iff simp flip: le_nat_digit)

lemma push_bit_xor_eq_0: "push_bit k (x XOR y) = 0 \<longleftrightarrow> take_bit (64 - k) x = take_bit (64 - k) (y :: 64 word)"
proof
  assume eq: "push_bit k (x XOR y) = 0"
  have "bit x i = bit y i" if "i < 64 - k" for i
    using that arg_cong [OF eq, of "\<lambda>w. bit w (i + k)"] by (auto simp: bit_simps)
  then show "take_bit (64 - k) x = take_bit (64 - k) y" by (auto simp: bit_eq_iff bit_simps)
next
  assume eq: "take_bit (64 - k) x = take_bit (64 - k) y"
  have "bit x (i - k) = bit y (i - k)" if "i < 64" "k \<le> i" for i
    using that arg_cong [OF eq, of "\<lambda>w. bit w (i - k)"] by (auto simp: bit_simps)
  then show "push_bit k (x XOR y) = 0" by (auto simp: bit_eq_iff bit_simps)
qed

lemma take_bit_load64: "n \<le> 8 \<Longrightarrow> unat (take_bit (8 * n) (load64 mem a)) = le_nat (chars mem a n)"
proof -
  assume "n \<le> 8"
  then have "take_bit (8 * n) (unat (load64 mem a)) = le_nat (chars mem a n)"
    using load64_parts [of n mem a] le_nat_less [of "chars mem a n"] by (simp add: take_bit_eq_mod power_mult)
  then show ?thesis by (simp only: unsigned_take_bit_eq)
qed

lemma equals_sloppy_eq: "equals_sloppy mem a b len \<longleftrightarrow> chars mem a (nat len) = chars mem b (nat len)"
proof (cases "0 < len \<and> len \<le> 8")
  case True
  define n where "n = nat len"
  have "nat (8 * (slice_size - len)) = 64 - 8 * n"
    using True by (simp add: n_def slice_size_def nat_diff_distrib' nat_mult_distrib)
  then have n: "n \<le> 8" "64 - nat (8 * (slice_size - len)) = 8 * n"
    using True by (simp_all add: n_def nat_le_iff)
  have "equals_sloppy mem a b len \<longleftrightarrow> take_bit (8 * n) (load64 mem a) = take_bit (8 * n) (load64 mem b)"
    using True n push_bit_xor_eq_0 [of "nat (8 * (slice_size - len))" "load64 mem a" "load64 mem b"]
    by (simp add: equals_sloppy_def slice_size_def)
  also have "\<dots> \<longleftrightarrow> le_nat (chars mem a n) = le_nat (chars mem b n)"
    using n take_bit_load64 [of n mem a] take_bit_load64 [of n mem b] by (simp add: word_unat_eq_iff)
  also have "\<dots> \<longleftrightarrow> chars mem a n = chars mem b n"
    using le_nat_inject [of "chars mem a n" "chars mem b n"] by auto
  finally show ?thesis by (simp only: n_def)
next
  case False
  then show ?thesis by (auto simp: equals_sloppy_def slice_size_def chars_def)
qed

text \<open>
  The sloppy accesses of \<^verbatim>\<open>string_slice\<close>, which load whole words around a short string and shift the
  bytes outside of it away, are exact whatever the surrounding memory holds: they return what the careful
  \<^verbatim>\<open>make\<close> returns, and decide equality like a comparison byte by byte.
\<close>

theorem sloppy_accesses_are_exact:
  "make_comparable_sloppy mem s len = make_comparable mem s len \<and>
   (equals_sloppy mem a b len \<longleftrightarrow> chars mem a (nat len) = chars mem b (nat len))"
  by (simp add: make_comparable_sloppy_def make_comparable_def make_sloppy_eq equals_sloppy_eq)

section \<open>Shifting and unparsing\<close>

lemma key_shift_eq:
  "key_shift mem ((key_ctor mem s len)\<lparr>key_first := f\<rparr>) = (key_ctor mem (s + 8) (len - 8))\<lparr>key_first := f\<rparr>"
  by (simp add: key_shift_def key_ctor_def ikey_size_def make_comparable_sloppy_def make_comparable_def make_sloppy_eq Let_def)

lemma key_shifts_eq:
  "(key_shift mem ^^ j) (key_ctor mem s len) = (key_ctor mem (s + 8 * int j) (len - 8 * int j))\<lparr>key_first := s\<rparr>"
proof (induction j)
  case 0
  then show ?case by (simp add: key_ctor_def)
next
  case (Suc j)
  then show ?case by (simp add: key_shift_eq algebra_simps)
qed

text \<open>
  A key that has been shifted any number of times is the key of the rest of the string, except that it
  still knows where the string begins, so \<^verbatim>\<open>unshift_all\<close> gives the original key back. A shifted key
  is recognised as such exactly when it has been shifted.
\<close>

theorem key_shifts_are_undone:
  "let k = key_ctor mem s len; k' = (key_shift mem ^^ j) k
   in k'\<lparr>key_first := key_s k'\<rparr> = key_ctor mem (s + 8 * int j) (len - 8 * int j) \<and> unshift_all mem k' = k \<and>
      (is_shifted k' \<longleftrightarrow> j \<noteq> 0)"
  by (auto simp: Let_def key_shifts_eq) (auto simp: key_ctor_def unshift_all_def is_shifted_def)

lemma host_bytes_make_comparable: "bytes_of (host_to_net_order (make_comparable mem s (int n))) = pad8 (chars mem s n)"
  by (simp add: host_to_net_order_def make_comparable_def net_to_host_order_def slice_make_eq bytes_of_le_word)

lemma key_unparse_ctor:
  "key_unparse mem ((key_ctor mem s (int n))\<lparr>key_first := f\<rparr>) = chars mem s n"
proof (cases "8 < n")
  case True
  then have "chars mem s n = chars mem s 8 @ chars mem (s + 8) (n - 8)" using chars_append [of mem s 8 "n - 8"] by simp
  then show ?thesis using True
    by (simp add: key_unparse_def key_unparse_to_def key_ctor_def unparse_comparable_len_def ikey_size_def slice_size_def
        host_bytes_make_comparable pad8_def take_chars nat_diff_distrib' Let_def)
next
  case False
  then show ?thesis
    by (simp add: key_unparse_def key_unparse_to_def key_ctor_def unparse_comparable_len_def ikey_size_def slice_size_def
        host_bytes_make_comparable pad8_def take_chars Let_def min_def)
qed

text \<open>
  C28. Unparsing a key gives the string it was made of, and while a key is shifted inside its string the prefix
  passed so far followed by the unparsed rest is the whole string.
\<close>

theorem key_unparse_roundtrip:
  assumes "8 * j \<le> n"
  shows "let k = (key_shift mem ^^ j) (key_ctor mem s (int n))
     in prefix_string mem k = chars mem s (8 * j) \<and> prefix_string mem k @ key_unparse mem k = chars mem s n \<and>
        full_string mem k = chars mem s n"
proof -
  define k where "k = (key_shift mem ^^ j) (key_ctor mem s (int n))"
  have k: "k = (key_ctor mem (s + 8 * int j) (int (n - 8 * j)))\<lparr>key_first := s\<rparr>"
    using assms by (simp add: k_def key_shifts_eq of_nat_diff)
  have prefix: "prefix_string mem k = chars mem s (8 * j)"
    by (simp add: k prefix_string_def key_ctor_def nat_mult_distrib)
  moreover have "prefix_string mem k @ key_unparse mem k = chars mem s n"
    using assms chars_append [of mem s "8 * j" "n - 8 * j"]
    by (simp only: prefix) (simp only: k key_unparse_ctor le_add_diff_inverse of_nat_mult of_nat_numeral)
  moreover have "full_string mem k = chars mem s n"
    using assms by (simp add: k full_string_def key_ctor_def)
  ultimately show ?thesis by (simp add: k_def Let_def)
qed

text \<open>A string of ten bytes, shifted once.\<close>

theorem key_unparse_roundtrip_witness:
  "let k = (key_shift of_int ^^ 1) (key_ctor of_int 5 (int 10))
   in prefix_string of_int k = chars of_int 5 8 \<and> prefix_string of_int k @ key_unparse of_int k = chars of_int 5 10 \<and>
      full_string of_int k = chars of_int 5 10"
  using key_unparse_roundtrip [of 1 10 of_int 5] by simp

lemma word_succ_le: "(w :: 64 word) + 1 \<noteq> 0 \<Longrightarrow> w < v \<longleftrightarrow> w + 1 \<le> v"
  using unatSuc [of w] by (simp add: word_less_nat_alt word_le_nat_alt add.commute Suc_le_eq)

lemma word_succ_wrap: "(w :: 64 word) + 1 = 0 \<Longrightarrow> \<not> w < v"
proof -
  assume "w + 1 = 0"
  then have "w = - 1" by (simp add: eq_neg_iff_add_eq_0)
  then show ?thesis by simp
qed

text \<open>
  C29. \<^verbatim>\<open>increment\<close>, which a scan uses to go past a key, gives the successor of the key among the entries a node
  can hold (an entry of length 0 has the slice 0): an entry comes after the key exactly when it comes at or
  after the incremented key; and when the slice wraps around there is no entry after the key.
\<close>

theorem key_increment_is_successor:
  assumes "0 \<le> keylenx" and "keylenx = 0 \<Longrightarrow> ikey = 0"
  shows "case key_increment k of (wrapped, k') \<Rightarrow>
     if wrapped then \<not> key_compare_to k ikey keylenx < 0
     else key_compare_to k ikey keylenx < 0 \<longleftrightarrow> key_compare_to k' ikey keylenx \<le> 0"
proof (cases "8 < key_len k")
  case True
  have "\<not> (keylenx = 0 \<and> ikey0 k + 1 \<noteq> 0 \<and> ikey = ikey0 k + 1)" using assms(2) by auto
  then show ?thesis
    using True assms(1) word_succ_le [of "ikey0 k" ikey] word_succ_wrap [of "ikey0 k" ikey]
    by (auto simp: key_increment_def key_compare_to_def has_suffix_def compare_words_def ikey_size_def Let_def)
next
  case False
  then show ?thesis
    by (auto simp: key_increment_def key_compare_to_def has_suffix_def compare_words_def ikey_size_def Let_def)
qed

text \<open>A key of nine bytes against an entry in the following slice.\<close>

theorem key_increment_is_successor_witness:
  "case key_increment (key_ctor of_int 1 9) of (wrapped, k') \<Rightarrow>
     if wrapped then \<not> key_compare_to (key_ctor of_int 1 9) 72623859790382857 1 < 0
     else key_compare_to (key_ctor of_int 1 9) 72623859790382857 1 < 0 \<longleftrightarrow> key_compare_to k' 72623859790382857 1 \<le> 0"
  using key_increment_is_successor [of 1 72623859790382857 "key_ctor of_int 1 9"] by simp

text \<open>
  In the nodes that hold several values per key (\<^verbatim>\<open>massnode_multivalue\<close> and \<^verbatim>\<open>massnode_dynamicvalue\<close>) the
  comparison computes the comparison of the lengths and drops it: keys that differ only in trailing null
  bytes, or a key and a strict extension of it beyond the slice, which the comparison of the other
  nodes tells apart, compare equal there, and these are the only differences.
\<close>

lemma multivalue_compare_ignores_the_length:
  "key_compare_multivalue a ikey keylenx = key_compare_dynamicvalue a ikey keylenx \<and>
   (key_compare_multivalue a ikey keylenx \<noteq> key_compare_massnode a ikey keylenx \<longleftrightarrow>
    ikey0 a = ikey \<and> key_compare_to a ikey keylenx \<noteq> 0) \<and>
   key_compare_massnode a ikey keylenx = key_compare_leaf a ikey keylenx"
  by (auto simp: key_compare_multivalue_def key_compare_dynamicvalue_def key_compare_massnode_def key_compare_leaf_def
      key_compare_to_def compare_ikey_def compare_len_def compare_words_def Let_def)

section \<open>The key of a scan\<close>

text \<open>
  A scan rebuilds the key of the entry it has reached in its own buffer: the slice, the suffix, the length.
\<close>

lemma chars_store: "chars (store_bytes mem a bs) a (length bs) = bs"
  by (rule nth_equalityI) (auto simp: store_bytes_def)

lemma chars_store_other:
  "b + int n \<le> a \<or> a + int (length bs) \<le> b \<Longrightarrow> chars (store_bytes mem a bs) b n = chars mem b n"
  by (rule nth_equalityI) (auto simp: store_bytes_def)

lemma assigned_key_unparses:
  assumes "p + int n \<le> key_s k \<or> key_s k + 8 + int n \<le> p"
    and "assign_store_ikey mem k ikey = (mem1, k1)" and "assign_store_suffix mem1 k1 (p, int n) = (mem2, len)"
  shows "key_unparse mem2 (assign_store_length k1 len) = bytes_of (host_to_net_order ikey) @ chars mem p n"
proof -
  have k1: "k1 = k\<lparr>ikey0 := ikey\<rparr>" and mem1: "mem1 = store_bytes mem (key_s k) (bytes_of (host_to_net_order ikey))"
    and len: "len = 8 + int n" and mem2: "mem2 = store_bytes mem1 (key_s k + 8) (chars mem1 p n)"
    using assms(2,3) by (auto simp: assign_store_ikey_def assign_store_suffix_def ikey_size_def)
  have "chars mem2 (key_s k + 8) n = chars mem1 p n" using chars_store [of mem1 _ "chars mem1 p n"] by (simp add: mem2)
  also have "\<dots> = chars mem p n" using assms(1) by (auto simp: mem1 intro!: chars_store_other)
  finally show ?thesis
    by (cases "n = 0") (simp_all add: key_unparse_def key_unparse_to_def assign_store_length_def len k1 ikey_size_def
        unparse_comparable_len_def slice_size_def Let_def chars_def)
qed

text \<open>
  Going down a layer with an empty key, or with the largest one for a backward scan, and up again gives the slice in the
  buffer back, with a length that stands for any suffix.
\<close>

lemma unshift_after_clear:
  assumes "assign_store_ikey mem k ikey = (mem1, k1)" and "key_first k \<le> key_s k"
  shows "key_unshift mem1 (shift_clear k1) = Inr (k1\<lparr>key_len := 9\<rparr>)"
    and "key_unshift mem1 (shift_clear_reverse k1) = Inr (k1\<lparr>key_len := 9\<rparr>)"
proof -
  have k1: "k1 = k\<lparr>ikey0 := ikey\<rparr>" and mem1: "mem1 = store_bytes mem (key_s k) (bytes_of (host_to_net_order ikey))"
    using assms(1) by (auto simp: assign_store_ikey_def)
  have "chars mem1 (key_s k) 8 = bytes_of (host_to_net_order ikey)"
    using chars_store [of mem "key_s k" "bytes_of (host_to_net_order ikey)"] by (simp add: mem1)
  then have ikey: "make_comparable_sloppy mem1 (key_s k) 8 = ikey"
    by (simp add: make_comparable_sloppy_def make_sloppy_def slice_size_def load64_def host_to_net_order_def net_to_host_order_def)
  show "key_unshift mem1 (shift_clear k1) = Inr (k1\<lparr>key_len := 9\<rparr>)"
    using assms(2) ikey by (simp add: key_unshift_def shift_clear_def is_shifted_def ikey_size_def k1)
  show "key_unshift mem1 (shift_clear_reverse k1) = Inr (k1\<lparr>key_len := 9\<rparr>)"
    using assms(2) ikey by (simp add: key_unshift_def shift_clear_reverse_def is_shifted_def ikey_size_def k1)
qed

end
