(* ===== verification/Spec2Isabelle.thy ===== *)
theory Spec2Isabelle
  imports Epoch_Protocol Atomic_Stack Ksearch Nodeversion Bw_Benchmark Bw_Inner Latched_Race Masstree_Key
begin

text \<open>
  A verification development for the B-link tree benchmarks. The program compares concurrent search trees: it
  reads a fill and a mixed workload from files, builds a tree, lets a growing number of threads or tasks execute
  the workload, and repeats this for every number of cores. Paths below are relative to \<^verbatim>\<open>src/src/\<close>.

  \<^bold>\<open>The parts and how they interact.\<close> The B-link tree (\<^verbatim>\<open>indices/blinktree\<close>) is one set of nodes and one tree class under
  three front ends: a thread tree with latches, a thread tree with version locks and epoch-based
  reclamation, and a tree of tasks for the Intel library. Beside it stand a B-tree with optimistic lock
  coupling (\<^verbatim>\<open>indices/olc_btree\<close>), the Bw-tree and Masstree, the last two third-party code. The benchmark driver
  (\<^verbatim>\<open>benchmark\<close>, \<^verbatim>\<open>util\<close>) parses the command line, orders the cores, loads the workload and hands out batches
  of it. A key and a value are 64-bit words throughout; the largest key is the high key of the last node of a
  level and cannot be stored.

  \<^bold>\<open>Conventions.\<close> An operation that can dereference a null or dangling pointer, leave an array, fail an assertion
  or wait for ever returns \<open>error + 'a\<close>; \<open>bindR\<close> sequences. Nodes live in an explicit store because siblings,
  parents and separators alias. Memory that the code does not initialise holds arbitrary words (\<open>alloc_junk\<close>,
  \<open>olc_junk\<close>). Operations of one thread are functions; where the interleaving of threads matters, their
  atomic steps form an inductive relation and the properties hold for every reachable state.

  \<^bold>\<open>Theories.\<close>
  \<^item> \<open>Prelude\<close>: results, checked arrays, lower-bound search and its contract.
  \<^item> \<open>Locks\<close>: \<^verbatim>\<open>util/spinlock.h\<close>, \<^verbatim>\<open>util/rw_spinlock.h\<close> and the latched node bases. The read-write latch loses a reader
    count in every write section.
  \<^item> \<open>BLink_Node\<close>, \<open>BLink_Tree\<close>: \<^verbatim>\<open>node.h\<close>, \<^verbatim>\<open>node.cpp\<close>, \<^verbatim>\<open>tree.h\<close>, \<^verbatim>\<open>tree.cpp\<close>, \<^verbatim>\<open>node_path.h\<close>. \<open>BLink_Split\<close> gives the
    splits as operations on lists, \<open>BLink_Invariant\<close> the invariant and what every write does to it,
    \<open>BLink_Search\<close> and \<open>BLink_Insert\<close> the moves and insertion steps that the front ends share.
  \<^item> \<open>Latched_Tree\<close>: \<^verbatim>\<open>thread/latched/thread_tree.h\<close> and \<^verbatim>\<open>.cpp\<close>; insert, update and find refine a map, latches are
    released, the largest key fails. \<open>Latched_Race\<close>: two overlapping insertions that leave children of different levels under
    one root.
  \<^item> \<open>Tree_Walk\<close>, \<open>Consistency_Checker\<close>, \<open>BLink_Fill\<close>: the iterator, the statistics, the destructor, \<^verbatim>\<open>Tree::check\<close>, and
    how high a tree can grow.
  \<^item> \<open>Queues\<close>, \<open>Epoch_Manager\<close>, \<open>Epoch_Protocol\<close>: \<^verbatim>\<open>util/queue.h\<close>, \<^verbatim>\<open>util/mpsc_queue.cpp\<close>, \<^verbatim>\<open>epoch_manager.cpp\<close>. \<open>Epoch_Protocol\<close>
    interleaves the atomic steps of the threads and of the epoch thread, with the counter that wraps around: a node that a
    thread holds is not freed as long as fewer than \<open>2 ^ 32\<close> epochs have passed and the thread did not join during a sweep that had already
    read its local epoch. For either condition there is a run that violates it and frees a node too early.
  \<^item> \<open>Optimistic_Lock\<close>, \<open>Optimistic_Tree\<close>: \<^verbatim>\<open>optimistic_lock.h\<close> and \<^verbatim>\<open>thread/optimistic/thread_tree.cpp\<close>; validation and mutual
    exclusion for any number of threads, refinement of a map for one, whose insertions leave the epoch they joined.
  \<^item> \<open>TBB_Tasks\<close>, \<open>TBB_Olfit\<close>, \<open>TBB_Benchmark\<close>: the tasks of \<^verbatim>\<open>indices/blinktree/tbb\<close> in the mutex builds and in the version
    build, and the batch tasks. The locale \<open>insert_task_build\<close> states what one execution of a task does and
    derives a whole run; both families of builds interpret it.
  \<^item> \<open>OLC_Node\<close>, \<open>OLC_Tree\<close>, \<open>OLC_Invariant\<close>, \<open>OLC_Insert\<close>, \<open>OLC_Refinement\<close>: \<^verbatim>\<open>indices/olc_btree/thread/btree_olc.h\<close>.
  \<^item> \<open>Bw_Containers\<close>, \<open>Atomic_Stack\<close>: the containers and the stack of ids of the Bw-tree.
  \<^item> \<open>Bw_Leaf\<close>, \<open>Bw_Consolidate\<close>, \<open>Bw_Page\<close>: the leaf pages of the Bw-tree (\<^verbatim>\<open>indices/bw_tree/thread/bwtree.h\<close>). \<open>Bw_Leaf\<close> has the
    delta records, the two searches down a chain and the writers, which keep \<open>page_ok\<close> and refine the map
    \<open>page_map\<close>; \<open>Bw_Consolidate\<close> shows that the merge of a chain into a base node keeps the page;
    \<open>Bw_Page\<close> has split, removal and merge, and runs operations of many threads on one page, whose calls are
    linearizable. \<open>Bw_Benchmark\<close> runs the tuples of the Bw-tree's benchmark on a page.
  \<^item> \<open>Bw_Inner\<close>: the inner pages of the Bw-tree. The search down a chain agrees with the routing function \<open>child_of\<close> of the separators,
    splits partition the separators, and the index term that finishes the split of a leaf routes every key to its
    half. The search of the backward iterator can reach a child that has been removed.
  \<^item> \<open>Kpermuter\<close>, \<open>Ksearch\<close>, \<open>Nodeversion\<close>: key permutation, key search, node version and epoch counter of Masstree. Every operation of the
    permuter keeps the word a permutation of the slots, with the number of live keys it should have.
  \<^item> \<open>Masstree_Key\<close>: \<^verbatim>\<open>string_slice.hh\<close> and \<^verbatim>\<open>masstree_key.hh\<close>; slices compare like strings, shifting can be undone,
    unparsing returns the string.
  \<^item> \<open>Workload\<close>, \<open>Core_Configuration\<close>, \<open>Benchmark\<close>, \<open>Work_Sharing\<close>: \<^verbatim>\<open>benchmark/workload.cpp\<close>, \<^verbatim>\<open>util/core_configuration.cpp\<close>,
    \<^verbatim>\<open>util/cli_arguments.h\<close>, \<^verbatim>\<open>benchmark/abstract_benchmark.cpp\<close>, \<^verbatim>\<open>thread/thread_benchmark.cpp\<close>.
  \<^item> \<open>Index_Spec\<close> states what an index promises as the locale \<open>map_index\<close>, interpreted by the latched, the optimistic
    and both task-based trees. \<open>Workload_Run\<close> adds the execution of a workload: \<open>tuple_index\<close> is interpreted by all
    trees (by a page of the Bw-tree in \<open>Bw_Benchmark\<close>), for the B-link trees through \<open>bounded_index\<close>.
  \<^item> This theory: one workload on all trees, and a fill phase that takes its tuples in any order in which threads can claim them.

  \<^bold>\<open>Bounds and fuel.\<close> A walk to the right is given as many steps as nodes were ever allocated, a descent as many as the
  tree has levels, a task twice as many; the properties show that these suffice. A path holds ten nodes as in
  the code, so insert and update are proved for heights up to eleven, and a tree has more levels only with more keys
  than \<open>min_keys c 10\<close>, which exceeds ten to the sixteenth for the real node size. An insertion of the tree with lock coupling
  restarts after every eager split; \<open>load_fuel\<close> bounds the attempts. Loops that empty a queue get one step more than
  it has items. A chain of the Bw-tree keeps its depth in 16 bits, so its properties ask for fewer than \<open>2 ^ 15\<close> records
  on a page, far above the threshold at which a page is consolidated.

  \<^bold>\<open>Parameters.\<close> The allocator's memory contents, \<^verbatim>\<open>std::rand\<close>, what the machine and libnuma report, the hash of the Bloom
  filter (also in the consolidation of a page), the uninitialised arrays of its containers, the comparator of the Masstree search, and the mutexes of the Intel library with the hypothesis
  \<open>mutex_ok\<close> are arguments of the definitions that use them.

  \<^bold>\<open>Differences between the indices.\<close> The B-link trees keep the first value of a key that is inserted twice, the tree with
  lock coupling the last; the trees are compared on workloads that insert every key once. Absent keys are
  looked up by different accidents: the B-link trees compare with a slot behind the last key, the tree with
  lock coupling returns a flag that was never set.

  \<^bold>\<open>Not modelled.\<close> The consolidation of inner pages of the Bw-tree, its traversal over the mapping table with the root split and the
  search for left siblings, its iterators, epochs and chunk allocator, and the trie of Masstree with its server,
  client and utilities are third-party code of tens of thousands of lines of which only the self-contained
  parts above are verified; the operations of the Bw-tree are modelled from the leaf page they reach, the steps of a traversal on each inner page alone. Concurrent executions of whole tree operations are not verified: the code has races (an
  optimistic insert does not validate after it has acquired the lock, and an insert uses a root it read before the tree grew, as \<open>Latched_Race\<close> shows), so that only the locks, the epochs, the stack, the leaf pages of the Bw-tree and the
  sharing of the workload are treated under interleaving. Prefetching, pinning, timers, performance counters,
  the layout of printed text and the declaration of command line arguments have no effect on the state that the
  properties speak about. The tasks' scheduler belongs to the library.
\<close>

section \<open>One workload, five trees\<close>

text \<open>
  C8. The indices can be compared with each other: a well-formed workload, executed tuple by tuple, runs without an
  error on the latched tree, on the optimistic tree, on the task-based tree with mutexes and with versions, and on
  the tree with optimistic lock coupling. All give the same answers, those of a dictionary, and end with the same contents. The
  hypotheses are that node sizes are usable, that locks start free, that the workload has fewer tuples than
  a tree of twelve levels has keys, and that the fuel covers the restarts of the last tree.
\<close>

theorem indices_answer_alike:
  assumes "config_ok c1" "latch_idle (latch_init c1)" "length items \<le> min_keys c1 10"
    and "config_ok c2" "\<not> OptimisticLock_is_locked (latch_init c2)" "thread_id < threads" "length items \<le> min_keys c2 10"
    and "config_ok c3" "mutex_ok M (latch_init c3)" "length items \<le> min_keys c3 10"
    and "olc_config_ok c4" "load_fuel 0 (length items) \<le> fuel"
    and "mutex_ok M' (latch_init c2)" "well_formed_workload items"
  shows "\<exists>answers m tt ot bt ft t.
    execute_items (execute_tuple (ThreadTree_insert c1) ThreadTree_update ThreadTree_find) items (ThreadTree_ctor c1)
      = Inr (answers, tt) \<and> tree_map (base tt) = m
    \<and> execute_items (execute_tuple (OptimisticTree_insert c2 thread_id) (OptimisticTree_update thread_id) (OptimisticTree_find thread_id))
        items (OptimisticTree_ctor c2 threads stub) = Inr (answers, ot) \<and> tree_map (obase ot) = m
    \<and> execute_items (BatchTask_spawn c3 M sync) items (TBBTree_ctor c3) = Inr (answers, bt) \<and> tree_map (tbase bt) = m
    \<and> execute_items (execute_tuple (Olfit_insert c2 M' thread_id) (Olfit_update thread_id) (Olfit_lookup thread_id))
        items (OlfitTree_ctor c2 threads stub) = Inr (answers, ft) \<and> tree_map (tbase (ftree ft)) = m
    \<and> execute_items (olc_execute_tuple fuel c4 junk uninitialised) items (BTree_ctor c4) = Inr (answers, t) \<and> olc_map t = m
    \<and> answers = answers_of Map.empty items \<and> m = contents_after Map.empty items"
proof -
  have p: "all_along tuple_possible Map.empty items" "all_along tuple_fresh Map.empty items"
    using assms(14) by (simp_all add: well_formed_workload_def)
  show ?thesis
    using latched_runs [OF assms(1-3) p(1)] optimistic_runs [OF assms(4-7) p(1), of stub] tbb_runs [OF assms(8-10) p(1), of sync]
      olfit_runs [OF assms(4,13,5,6,7) p(1), of stub] olc_runs [OF assms(11,12) p(2), of junk uninitialised] by blast
qed

text \<open>Two keys are inserted, one is updated, both are read; every node of the trees has room for four entries.\<close>

definition example_items :: "workload_tuple list" where
  "example_items = [\<lparr>tuple_operation = Insert, tuple_key = 5, tuple_value = 8\<rparr>, \<lparr>tuple_operation = Insert, tuple_key = 9, tuple_value = 1\<rparr>,
     \<lparr>tuple_operation = Update, tuple_key = 5, tuple_value = 3\<rparr>, \<lparr>tuple_operation = Lookup, tuple_key = 5, tuple_value = 0\<rparr>,
     \<lparr>tuple_operation = Lookup, tuple_key = 9, tuple_value = 0\<rparr>]"

lemma example_items_ok: "well_formed_workload example_items" "length example_items = 5"
  by (simp_all add: well_formed_workload_def example_items_def tuple_effect_def insert_new_def max_key_def)

lemma example_answers: "answers_of Map.empty example_items = [None, None, None, Some 3, Some 1]"
  by (simp add: example_items_def tuple_effect_def tuple_answer_def insert_new_def)

lemma example_room: "5 \<le> min_keys small_config 10" "5 \<le> min_keys opt_config 10" "5 \<le> min_keys task_config 10"
  by (simp_all add: min_keys_def LeafNode_max_items_def InnerNode_max_keys_def Config_node_size_def small_config_def
      opt_config_def task_config_def flip: numeral_2_eq_2)

theorem indices_answer_alike_witness:
  "\<exists>tt ot bt ft t.
    execute_items (execute_tuple (ThreadTree_insert small_config) ThreadTree_update ThreadTree_find) example_items
      (ThreadTree_ctor small_config) = Inr ([None, None, None, Some 3, Some 1], tt)
    \<and> execute_items (execute_tuple (OptimisticTree_insert opt_config 1) (OptimisticTree_update 1) (OptimisticTree_find 1)) example_items
      (OptimisticTree_ctor opt_config 2 900) = Inr ([None, None, None, Some 3, Some 1], ot)
    \<and> execute_items (BatchTask_spawn task_config example_mutex tbb_lock) example_items (TBBTree_ctor task_config)
      = Inr ([None, None, None, Some 3, Some 1], bt)
    \<and> execute_items (execute_tuple (Olfit_insert opt_config word_mutex 1) (Olfit_update 1) (Olfit_lookup 1)) example_items
      (OlfitTree_ctor opt_config 2 900) = Inr ([None, None, None, Some 3, Some 1], ft)
    \<and> execute_items (olc_execute_tuple (load_fuel 0 5) olc_example False 0) example_items (BTree_ctor olc_example)
      = Inr ([None, None, None, Some 3, Some 1], t)"
proof -
  have opt: "config_ok opt_config" "\<not> OptimisticLock_is_locked (latch_init opt_config)"
    using opt_ctor_ok by (simp_all add: OptimisticTree_ok_def)
  have M: "mutex_ok word_mutex (latch_init opt_config)" using olfit_example_ok(1) by (simp add: OlfitTree_ok_def olfit_quiet_def)
  have room: "length example_items \<le> min_keys small_config 10" "length example_items \<le> min_keys opt_config 10"
    "length example_items \<le> min_keys task_config 10" "load_fuel 0 (length example_items) \<le> load_fuel 0 5"
    using example_room by (simp_all only: example_items_ok(2) order.refl)
  have "(1 :: nat) < 2" by simp
  then show ?thesis
    using indices_answer_alike [OF example_config_ok(1) example_latch_idle(1) room(1) opt _ room(2) task_config_ok example_mutex_ok
        room(3) olc_example_ok room(4) M example_items_ok(1), of 1 2 900 tbb_lock False 0]
    unfolding example_answers by blast
qed

section \<open>Filling in the order of the claims\<close>

text \<open>
  The order in which threads claim the tuples of a fill phase does not matter: for every interleaving of the
  claims, the insertions executed one at a time in the order in which they were claimed give a well-formed tree
  with exactly the entries of the workload, provided its keys are distinct. Insertions do not overlap
  here; \<open>Latched_Race\<close> shows what overlapping ones can do.
\<close>

theorem fill_phase_is_order_independent:
  assumes "iteration_reach (length items) batch threads s" "0 < batch" "0 < threads"
      "length items + unat batch * (threads + 1) \<le> 2 ^ 64" "all_stopped s"
    and "config_ok c" "latch_idle (latch_init c)" "length items \<le> min_keys c 10"
    and ins: "\<forall>tuple \<in> set items. tuple_operation tuple = Insert \<and> tuple_key tuple \<noteq> max_key"
    and dist: "distinct (map tuple_key items)"
  shows "\<exists>tt. execute_items (execute_tuple (ThreadTree_insert c) ThreadTree_update ThreadTree_find)
        (map ((!) items) (executed s)) (ThreadTree_ctor c) = Inr (replicate (length items) None, tt)
      \<and> ThreadTree_ok c tt \<and> tree_map (base tt) = map_of (map (\<lambda>tuple. (tuple_key tuple, tuple_value tuple)) items)"
proof -
  let ?js = "map ((!) items) (executed s)"
  have perm: "mset ?js = mset items" by (rule permuted_items [OF finished_iteration [OF assms(1-5)]])
  then have js: "set ?js = set items" "length ?js = length items" by (metis mset_eq_setD, metis mset_eq_length)
  then obtain tt where tt: "execute_items (execute_tuple (ThreadTree_insert c) ThreadTree_update ThreadTree_find) ?js (ThreadTree_ctor c)
      = Inr (answers_of Map.empty ?js, tt)" "ThreadTree_ok c tt" "tree_map (base tt) = contents_after Map.empty ?js"
    using latched_runs [OF assms(6,7), of ?js] inserts_possible [of ?js] ins assms(8) by metis
  have "contents_after Map.empty ?js = map_of (map tuple_entry items)"
    by (rule contents_after_permuted [OF _ dist perm]) (use ins in blast)
  moreover have "answers_of Map.empty ?js = replicate (length items) None"
    using answers_of_inserts [of ?js] ins js by metis
  ultimately show ?thesis using tt by metis
qed

definition fill_items :: "workload_tuple list" where
  "fill_items = map (\<lambda>k. \<lparr>tuple_operation = Insert, tuple_key = k, tuple_value = 10 * k\<rparr>) [5, 3, 7]"

text \<open>Two threads execute the items 0, 2 and 1 in this order.\<close>

theorem fill_phase_is_order_independent_witness:
  "\<exists>tt. execute_items (execute_tuple (ThreadTree_insert small_config) ThreadTree_update ThreadTree_find)
        (map ((!) fill_items) (executed two_threads_end)) (ThreadTree_ctor small_config) = Inr ([None, None, None], tt)
      \<and> tree_map (base tt) = [3 \<mapsto> 30, 5 \<mapsto> 50, 7 \<mapsto> 70]"
proof -
  have items: "length fill_items = 3" "\<forall>tuple \<in> set fill_items. tuple_operation tuple = Insert \<and> tuple_key tuple \<noteq> max_key"
    "distinct (map tuple_key fill_items)" by (simp_all add: fill_items_def max_key_def)
  have "3 + unat (2 :: 16 word) * (2 + 1) \<le> 2 ^ 64" "all_stopped two_threads_end" "3 \<le> min_keys small_config 10"
    using example_room(1) by (simp_all add: all_stopped_def two_threads_end_def)
  then obtain tt where "execute_items (execute_tuple (ThreadTree_insert small_config) ThreadTree_update ThreadTree_find)
        (map ((!) fill_items) (executed two_threads_end)) (ThreadTree_ctor small_config) = Inr (replicate 3 None, tt)"
      "tree_map (base tt) = map_of (map (\<lambda>tuple. (tuple_key tuple, tuple_value tuple)) fill_items)"
    using fill_phase_is_order_independent [of fill_items 2 2 two_threads_end small_config] two_threads_reach items
      example_config_ok(1) example_latch_idle(1) by auto
  moreover have "map_of (map (\<lambda>tuple. (tuple_key tuple, tuple_value tuple)) fill_items) = [3 \<mapsto> 30, 5 \<mapsto> 50, 7 \<mapsto> 70]"
    by (simp add: fill_items_def fun_eq_iff)
  ultimately show ?thesis by (auto simp: numeral_3_eq_3)
qed

end
